(* ===== verification/Prelude.thy ===== *)
theory Prelude
  imports Main "HOL-Library.Word" "HOL-Library.Sublist"
begin

text \<open>
  Conventions and helper lemmas the components share.

  Pointers are natural numbers and \<open>NULL\<close> is 0.  A C string is a \<open>string\<close> (a list of
  \<open>char\<close>) without its terminator; a memory object (a buffer) is a list of its bytes, read
  and written through \<open>mem_load\<close> and \<open>mem_store\<close>, whose value \<open>None\<close> stands for an access
  outside the object, which is undefined behaviour in C.  The \<open>size_t\<close> subtraction that
  may wrap is \<open>size_sub\<close>.
\<close>

unbundle bit_operations_syntax

section \<open>Collections\<close>

named_theorems mem_simps \<open>reading and writing memory objects\<close>
named_theorems trace_simps \<open>monitor calls made by an operation\<close>

section \<open>Pointers, sizes, characters\<close>

type_synonym ptr = nat

abbreviation (input) NULL :: ptr where
  "NULL \<equiv> 0"

abbreviation (input) NUL :: char where
  "NUL \<equiv> CHR 0x00"

type_synonym byte = "8 word"

definition SIZE_MOD :: nat where
  "SIZE_MOD = 2 ^ 64"

definition size_sub :: "nat \<Rightarrow> nat \<Rightarrow> nat" where
  "size_sub a b = (a + SIZE_MOD - b) mod SIZE_MOD"

lemma size_sub_le: "b \<le> a \<Longrightarrow> a < SIZE_MOD \<Longrightarrow> size_sub a b = a - b"
  by (simp add: size_sub_def SIZE_MOD_def mod_if)

lemma size_sub_wrap: "a < b \<Longrightarrow> b < SIZE_MOD \<Longrightarrow> size_sub a b = SIZE_MOD - (b - a)"
  unfolding size_sub_def SIZE_MOD_def by (subst mod_less) arith+

section \<open>Memory objects\<close>

definition mem_load :: "'a list \<Rightarrow> nat \<Rightarrow> 'a option" where
  "mem_load buf i = (if i < length buf then Some (buf ! i) else None)"

definition mem_store :: "'a list \<Rightarrow> nat \<Rightarrow> 'a \<Rightarrow> 'a list option" where
  "mem_store buf i c = (if i < length buf then Some (buf[i := c]) else None)"

lemma load_eq_None [mem_simps]: "mem_load buf i = None \<longleftrightarrow> length buf \<le> i"
  by (simp add: mem_load_def)

lemma load_eq_Some [mem_simps]: "mem_load buf i = Some c \<longleftrightarrow> i < length buf \<and> buf ! i = c"
  by (simp add: mem_load_def)

lemma store_eq_None [mem_simps]: "mem_store buf i c = None \<longleftrightarrow> length buf \<le> i"
  by (simp add: mem_store_def)

lemma store_eq_Some [mem_simps]:
  "mem_store buf i c = Some buf' \<longleftrightarrow> i < length buf \<and> buf' = buf[i := c]"
  by (auto simp: mem_store_def)

text \<open>Copying a block into a buffer at an offset (\<open>memcpy\<close>, and \<open>memmove\<close> of a saved copy).\<close>

definition store_block :: "'a list \<Rightarrow> nat \<Rightarrow> 'a list \<Rightarrow> 'a list option" where
  "store_block buf d xs =
     (if d + length xs \<le> length buf
      then Some (take d buf @ xs @ drop (d + length xs) buf) else None)"

definition load_block :: "'a list \<Rightarrow> nat \<Rightarrow> nat \<Rightarrow> 'a list option" where
  "load_block buf s n = (if s + n \<le> length buf then Some (take n (drop s buf)) else None)"

lemma length_store_block [mem_simps]:
  "store_block buf d xs = Some buf' \<Longrightarrow> length buf' = length buf"
  by (auto simp: store_block_def split: if_splits)

lemma length_load_block [mem_simps]: "load_block buf s n = Some xs \<Longrightarrow> length xs = n"
  by (auto simp: load_block_def split: if_splits)

lemma load_block_prefix [mem_simps]: "n \<le> length buf \<Longrightarrow> load_block buf 0 n = Some (take n buf)"
  by (simp add: load_block_def)

lemma store_block_at_end:
  "length xs = d \<Longrightarrow> d + length ys \<le> length buf \<Longrightarrow> take d buf = xs \<Longrightarrow>
   \<exists>buf'. store_block buf d ys = Some buf' \<and> take (d + length ys) buf' = xs @ ys"
  by (simp add: store_block_def)

section \<open>C strings in memory\<close>

text \<open>The string a pointer at offset \<open>p\<close> of a buffer denotes; \<open>None\<close> when no NUL follows.\<close>

fun scan_nul :: "char list \<Rightarrow> nat option" where
  "scan_nul [] = None"
| "scan_nul (c # cs) = (if c = NUL then Some 0 else map_option Suc (scan_nul cs))"

definition cstr_at :: "char list \<Rightarrow> nat \<Rightarrow> string option" where
  "cstr_at buf p = map_option (\<lambda>n. take n (drop p buf)) (scan_nul (drop p buf))"

lemma scan_nul_append: "NUL \<notin> set s \<Longrightarrow> scan_nul (s @ NUL # rest) = Some (length s)"
  by (induction s) auto

lemma scan_nul_Some:
  "scan_nul b = Some n \<Longrightarrow> n < length b \<and> b ! n = NUL \<and> NUL \<notin> set (take n b)"
  by (induction b arbitrary: n) (auto split: if_splits)

lemma scan_nul_None: "scan_nul b = None \<longleftrightarrow> NUL \<notin> set b"
  by (induction b) auto

lemma cstr_at_append [mem_simps]:
  "length pre = p \<Longrightarrow> NUL \<notin> set s \<Longrightarrow> cstr_at (pre @ s @ NUL # rest) p = Some s"
  by (simp add: cstr_at_def scan_nul_append)

text \<open>\<open>strrchr\<close>: the index of the last occurrence.  \<open>strchr\<close>: of the first.\<close>

fun strchr :: "string \<Rightarrow> char \<Rightarrow> nat option" where
  "strchr [] c = None"
| "strchr (x # xs) c = (if x = c then Some 0 else map_option Suc (strchr xs c))"

fun strrchr :: "string \<Rightarrow> char \<Rightarrow> nat option" where
  "strrchr [] c = None"
| "strrchr (x # xs) c =
     (case strrchr xs c of Some i \<Rightarrow> Some (Suc i) | None \<Rightarrow> if x = c then Some 0 else None)"

lemma strchr_None: "strchr s c = None \<longleftrightarrow> c \<notin> set s"
  by (induction s) auto

lemma strchr_Some:
  "strchr s c = Some i \<Longrightarrow> i < length s \<and> s ! i = c \<and> c \<notin> set (take i s)"
  by (induction s arbitrary: i) (auto split: if_splits)

lemma strchr_append: "c \<notin> set u \<Longrightarrow> strchr (u @ c # v) c = Some (length u)"
  by (induction u) auto

lemma strrchr_None: "strrchr s c = None \<longleftrightarrow> c \<notin> set s"
  by (induction s) (auto split: option.splits)

lemma strrchr_Some:
  "strrchr s c = Some i \<Longrightarrow> i < length s \<and> s ! i = c \<and> c \<notin> set (drop (Suc i) s)"
proof (induction s arbitrary: i)
  case Nil
  then show ?case by simp
next
  case (Cons x s)
  then show ?case
    using strrchr_None [of s c] by (auto split: option.splits if_splits)
qed

lemma strrchr_append: "c \<notin> set v \<Longrightarrow> strrchr (u @ c # v) c = Some (length u)"
proof (induction u)
  case Nil
  then show ?case using strrchr_None [of v c] by simp
qed (simp add: strrchr_None)

end
