(* ===== verification/Splay.thy ===== *)
theory Splay
  imports Prelude "HOL-Library.Tree" "HOL-Library.List_Lexorder" "HOL-Library.Char_ord"
begin

text \<open>
  The splay tree of freebsd\_tree.h, which holds the module memo of a realm: SPLAY\_FIND,
  SPLAY\_INSERT, SPLAY\_REMOVE, SPLAY\_NEXT, SPLAY\_MIN and SPLAY\_FOREACH.  A node is its key
  with its value; the comparison is the linear order of the keys (\<open>strcmp\<close> on the canonical
  module names, which is the lexicographic order of \<open>string\<close>).

  The C code splays top down: it hangs what it passes on a left and a right tree, whose
  open ends are the pointers \<open>__left\<close> and \<open>__right\<close>.  Here these two are lists, the most
  recent node first; \<open>hang_left\<close> and \<open>hang_right\<close> close them (SPLAY\_ASSEMBLE).

  The locale \<open>ordered_memo\<close> is what the module system relies on; it is interpreted on this
  tree at the end of the theory.
\<close>

section \<open>Top-down splaying\<close>

type_synonym ('k, 'v) stree = "('k \<times> 'v) tree"
type_synonym ('k, 'v) lctx = "(('k, 'v) stree \<times> ('k \<times> 'v)) list"
type_synonym ('k, 'v) rctx = "(('k \<times> 'v) \<times> ('k, 'v) stree) list"

fun splay_loop :: "'k::linorder \<Rightarrow> ('k, 'v) stree \<Rightarrow> ('k, 'v) lctx \<Rightarrow> ('k, 'v) rctx \<Rightarrow>
    ('k, 'v) stree \<times> ('k, 'v) lctx \<times> ('k, 'v) rctx" where
  "splay_loop k Leaf L R = (Leaf, L, R)"
| "splay_loop k (Node l a r) L R =
     (if k < fst a then
        (case l of
           Leaf \<Rightarrow> (Node l a r, L, R)
         | Node ll b lr \<Rightarrow>
             if k < fst b then
               (if ll = Leaf then (Node ll b (Node lr a r), L, R)
                else splay_loop k ll L ((b, Node lr a r) # R))
             else splay_loop k l L ((a, r) # R))
      else if fst a < k then
        (case r of
           Leaf \<Rightarrow> (Node l a r, L, R)
         | Node rl b rr \<Rightarrow>
             if fst b < k then
               (if rr = Leaf then (Node (Node l a rl) b rr, L, R)
                else splay_loop k rr ((Node l a rl, b) # L) R)
             else splay_loop k r ((l, a) # L) R)
      else (Node l a r, L, R))"

fun hang_left :: "('k, 'v) lctx \<Rightarrow> ('k, 'v) stree \<Rightarrow> ('k, 'v) stree" where
  "hang_left [] t = t"
| "hang_left ((l, x) # L) t = hang_left L (Node l x t)"

fun hang_right :: "('k, 'v) rctx \<Rightarrow> ('k, 'v) stree \<Rightarrow> ('k, 'v) stree" where
  "hang_right [] t = t"
| "hang_right ((x, r) # R) t = hang_right R (Node t x r)"

fun splay_assemble ::
    "('k, 'v) stree \<times> ('k, 'v) lctx \<times> ('k, 'v) rctx \<Rightarrow> ('k, 'v) stree" where
  "splay_assemble (Leaf, L, R) = Leaf"
| "splay_assemble (Node l a r, L, R) = Node (hang_left L l) a (hang_right R r)"

definition splay :: "'k::linorder \<Rightarrow> ('k, 'v) stree \<Rightarrow> ('k, 'v) stree" where
  "splay k t = splay_assemble (splay_loop k t [] [])"

fun splay_min_loop :: "('k, 'v) stree \<Rightarrow> ('k, 'v) rctx \<Rightarrow> ('k, 'v) stree \<times> ('k, 'v) rctx" where
  "splay_min_loop Leaf R = (Leaf, R)"
| "splay_min_loop (Node l a r) R =
     (case l of
        Leaf \<Rightarrow> (Node l a r, R)
      | Node ll b lr \<Rightarrow>
          if ll = Leaf then (Node ll b (Node lr a r), R)
          else splay_min_loop ll ((b, Node lr a r) # R))"

definition splay_minimum :: "('k, 'v) stree \<Rightarrow> ('k, 'v) stree" where
  "splay_minimum t = (case splay_min_loop t [] of (t', R) \<Rightarrow> splay_assemble (t', [], R))"

section \<open>The operations\<close>

definition SPLAY_FIND ::
    "'k::linorder \<Rightarrow> ('k, 'v) stree \<Rightarrow> ('k, 'v) stree \<times> 'v option" where
  "SPLAY_FIND k t =
     (if t = Leaf then (t, None)
      else let t' = splay k t
           in (t', case t' of Leaf \<Rightarrow> None | Node l a r \<Rightarrow> if k = fst a then Some (snd a) else None))"

definition SPLAY_INSERT ::
    "'k::linorder \<Rightarrow> 'v \<Rightarrow> ('k, 'v) stree \<Rightarrow> ('k, 'v) stree \<times> 'v option" where
  "SPLAY_INSERT k v t =
     (case splay k t of
        Leaf \<Rightarrow> (Node Leaf (k, v) Leaf, None)
      | Node l a r \<Rightarrow>
          if k < fst a then (Node l (k, v) (Node Leaf a r), None)
          else if fst a < k then (Node (Node l a Leaf) (k, v) r, None)
          else (Node l a r, Some (snd a)))"

definition SPLAY_REMOVE :: "'k::linorder \<Rightarrow> ('k, 'v) stree \<Rightarrow> ('k, 'v) stree" where
  "SPLAY_REMOVE k t =
     (case splay k t of
        Leaf \<Rightarrow> Leaf
      | Node l a r \<Rightarrow>
          if k = fst a then
            (if l = Leaf then r
             else case splay k l of Leaf \<Rightarrow> r | Node l' m r' \<Rightarrow> Node l' m r)
          else Node l a r)"

fun leftmost :: "('k, 'v) stree \<Rightarrow> ('k \<times> 'v) option" where
  "leftmost Leaf = None"
| "leftmost (Node l a r) = (if l = Leaf then Some a else leftmost l)"

text \<open>
  SPLAY\_NEXT reads the right child of its element after splaying it to the root; an
  element that is not in the tree is outside the operation's contract.
\<close>

definition SPLAY_NEXT ::
    "'k::linorder \<Rightarrow> ('k, 'v) stree \<Rightarrow> ('k, 'v) stree \<times> ('k \<times> 'v) option" where
  "SPLAY_NEXT k t =
     (let t' = splay k t in (t', case t' of Leaf \<Rightarrow> None | Node l a r \<Rightarrow> leftmost r))"

definition SPLAY_MIN :: "('k, 'v) stree \<Rightarrow> ('k, 'v) stree \<times> ('k \<times> 'v) option" where
  "SPLAY_MIN t =
     (if t = Leaf then (t, None)
      else let t' = splay_minimum t
           in (t', case t' of Leaf \<Rightarrow> None | Node l a r \<Rightarrow> Some a))"

text \<open>
  SPLAY\_FOREACH with a body that does not change the tree.  The fuel bounds the number of
  elements visited; \<open>foreach_visits_all\<close> shows that the size of the tree is enough.
\<close>

fun foreach_from :: "nat \<Rightarrow> ('v \<Rightarrow> 's \<Rightarrow> 's) \<Rightarrow> ('k::linorder \<times> 'v) option \<Rightarrow>
    ('k, 'v) stree \<Rightarrow> 's \<Rightarrow> (('k, 'v) stree \<times> 's) option" where
  "foreach_from n body None t s = Some (t, s)"
| "foreach_from 0 body (Some x) t s = None"
| "foreach_from (Suc n) body (Some x) t s =
     (case SPLAY_NEXT (fst x) t of
        (t', nxt) \<Rightarrow> foreach_from n body nxt t' (body (snd x) s))"

definition SPLAY_FOREACH ::
    "('v \<Rightarrow> 's \<Rightarrow> 's) \<Rightarrow> ('k::linorder, 'v) stree \<Rightarrow> 's \<Rightarrow> (('k, 'v) stree \<times> 's) option" where
  "SPLAY_FOREACH body t s =
     (case SPLAY_MIN t of (t', x) \<Rightarrow> foreach_from (size t) body x t' s)"

section \<open>Splaying keeps the inorder sequence and brings the key to the root\<close>

definition keys_sorted :: "('k::linorder, 'v) stree \<Rightarrow> bool" where
  "keys_sorted t \<longleftrightarrow> sorted_wrt (<) (map fst (inorder t))"

fun ctxl :: "('k, 'v) lctx \<Rightarrow> ('k \<times> 'v) list" where
  "ctxl [] = []"
| "ctxl ((l, x) # L) = ctxl L @ inorder l @ [x]"

fun ctxr :: "('k, 'v) rctx \<Rightarrow> ('k \<times> 'v) list" where
  "ctxr [] = []"
| "ctxr ((x, r) # R) = x # inorder r @ ctxr R"

lemma inorder_hang_left [simp]: "inorder (hang_left L t) = ctxl L @ inorder t"
  by (induction L t rule: hang_left.induct) auto

lemma inorder_hang_right [simp]: "inorder (hang_right R t) = inorder t @ ctxr R"
  by (induction R t rule: hang_right.induct) auto

lemma inorder_splay_assemble:
  "t \<noteq> Leaf \<Longrightarrow> inorder (splay_assemble (t, L, R)) = ctxl L @ inorder t @ ctxr R"
  by (cases t) auto

declare splay_loop.simps(2) [simp del]

lemmas splay_loop_step = splay_loop.simps(2)

lemma splay_loop_Leaf_iff: "splay_loop k t L R = (t', L', R') \<Longrightarrow> t' = Leaf \<longleftrightarrow> t = Leaf"
proof (induction k t L R rule: splay_loop.induct)
  case (2 k l a r L R)
  from 2(5) show ?case
    unfolding splay_loop_step
    by (auto split: tree.splits if_splits dest: 2(1-4))
qed simp

lemma splay_loop_inorder:
  "splay_loop k t L R = (t', L', R') \<Longrightarrow>
   ctxl L' @ inorder t' @ ctxr R' = ctxl L @ inorder t @ ctxr R"
proof (induction k t L R rule: splay_loop.induct)
  case (2 k l a r L R)
  from 2(5) show ?case
    unfolding splay_loop_step
    by (auto split: tree.splits if_splits dest: 2(1-4))
qed simp

definition at_root :: "'k::linorder \<Rightarrow> ('k, 'v) stree \<Rightarrow> bool" where
  "at_root k t =
     (case t of Leaf \<Rightarrow> True
      | Node l a r \<Rightarrow> fst a = k \<or> (fst a < k \<and> r = Leaf) \<or> (k < fst a \<and> l = Leaf))"

definition split_at :: "'k::linorder \<Rightarrow> ('k, 'v) stree \<times> ('k, 'v) lctx \<times> ('k, 'v) rctx \<Rightarrow> bool" where
  "split_at k = (\<lambda>(t, L, R). (\<forall>x \<in> set (ctxl L). fst x < k) \<and> (\<forall>x \<in> set (ctxr R). k < fst x)
     \<and> keys_sorted t)"

lemma keys_sorted_Node:
  "keys_sorted (Node l a r) \<longleftrightarrow> keys_sorted l \<and> keys_sorted r \<and>
   (\<forall>x \<in> set (inorder l). fst x < fst a) \<and> (\<forall>x \<in> set (inorder r). fst a < fst x)"
  by (auto simp: keys_sorted_def sorted_wrt_append dest: less_trans)

lemma keys_sorted_Leaf [simp]: "keys_sorted Leaf"
  by (simp add: keys_sorted_def)

lemma splay_loop_split:
  "split_at k (t, L, R) \<Longrightarrow> split_at k (splay_loop k t L R) \<and> at_root k (fst (splay_loop k t L R))"
proof (induction k t L R rule: splay_loop.induct)
  case (1 k L R)
  then show ?case by (simp add: at_root_def)
next
  case (2 k l a r L R)
  consider (lt) "k < fst a" | (gt) "fst a < k" | (eq) "k = fst a"
    using linorder_cases by blast
  then show ?case
  proof cases
    case lt
    show ?thesis
    proof (cases l)
      case Leaf
      with 2(5) lt show ?thesis by (simp add: splay_loop_step at_root_def)
    next
      case (Node ll b lr)
      consider "k < fst b" "ll = Leaf" | "k < fst b" "ll \<noteq> Leaf" | "\<not> k < fst b" by blast
      then show ?thesis
      proof cases
        case 1
        with 2(5) lt Node show ?thesis
          by (auto simp: splay_loop_step at_root_def split_at_def keys_sorted_Node)
      next
        case 2
        note c = this
        have "split_at k (ll, L, (b, Node lr a r) # R)"
          using 2 \<open>split_at k (Node l a r, L, R)\<close> lt Node
          by (auto simp: split_at_def keys_sorted_Node)
        from "2.IH"(1) [OF lt Node c this] show ?thesis
          using c lt Node by (simp add: splay_loop_step)
      next
        case 3
        have "split_at k (l, L, (a, r) # R)"
          using \<open>split_at k (Node l a r, L, R)\<close> lt Node
          by (auto simp: split_at_def keys_sorted_Node)
        from "2.IH"(2) [OF lt Node 3 this] show ?thesis
          using 3 lt Node by (simp add: splay_loop_step [of k "Node ll b lr"])
      qed
    qed
  next
    case gt
    then have ngt: "\<not> k < fst a" by simp
    show ?thesis
    proof (cases r)
      case Leaf
      with 2(5) gt ngt show ?thesis by (simp add: splay_loop_step at_root_def)
    next
      case (Node rl b rr)
      consider "fst b < k" "rr = Leaf" | "fst b < k" "rr \<noteq> Leaf" | "\<not> fst b < k" by blast
      then show ?thesis
      proof cases
        case 1
        with 2(5) gt ngt Node show ?thesis
          by (auto simp: splay_loop_step at_root_def split_at_def keys_sorted_Node)
      next
        case 2
        note c = this
        have "split_at k (rr, (Node l a rl, b) # L, R)"
          using 2 \<open>split_at k (Node l a r, L, R)\<close> gt Node
          by (auto simp: split_at_def keys_sorted_Node)
        from "2.IH"(3) [OF ngt gt Node c this] show ?thesis
          using c gt ngt Node by (simp add: splay_loop_step)
      next
        case 3
        have "split_at k (r, (l, a) # L, R)"
          using \<open>split_at k (Node l a r, L, R)\<close> gt Node
          by (auto simp: split_at_def keys_sorted_Node)
        from "2.IH"(4) [OF ngt gt Node 3 this] show ?thesis
          using 3 gt ngt Node by (simp add: splay_loop_step [of k _ _ "Node rl b rr"])
      qed
    qed
  next
    case eq
    with 2(5) show ?thesis by (simp add: splay_loop_step at_root_def)
  qed
qed

lemma splay_Leaf_iff [simp]: "splay k t = Leaf \<longleftrightarrow> t = Leaf"
proof (cases "splay_loop k t [] []")
  case (fields t' L R)
  then show ?thesis
    using splay_loop_Leaf_iff [OF fields] by (cases t') (auto simp: splay_def)
qed

lemma splay_Leaf [simp]: "splay k Leaf = Leaf"
  by simp

lemma inorder_splay [simp]: "inorder (splay k t) = inorder t"
proof (cases "t = Leaf")
  case False
  obtain t' L R where loop: "splay_loop k t [] [] = (t', L, R)" by (cases "splay_loop k t [] []")
  with False splay_loop_Leaf_iff [OF loop] splay_loop_inorder [OF loop] show ?thesis
    by (simp add: splay_def inorder_splay_assemble)
qed simp

lemma keys_sorted_splay [simp]: "keys_sorted (splay k t) = keys_sorted t"
  by (simp add: keys_sorted_def)

lemma splay_root:
  assumes "keys_sorted t" and "splay k t = Node l a r"
  shows "(\<forall>x \<in> set (inorder l). fst x < k) \<and> (\<forall>x \<in> set (inorder r). k < fst x)"
proof -
  obtain t' L R where loop: "splay_loop k t [] [] = (t', L, R)" by (cases "splay_loop k t [] []")
  with assms(2) obtain l' r' where t': "t' = Node l' a r'" "l = hang_left L l'" "r = hang_right R r'"
    by (cases t') (auto simp: splay_def)
  have "split_at k (t', L, R)" and root: "at_root k t'"
    using splay_loop_split [of k t "[]" "[]"] assms(1) loop by (simp_all add: split_at_def)
  then have "\<forall>x \<in> set (ctxl L). fst x < k" "\<forall>x \<in> set (ctxr R). k < fst x"
    "\<forall>x \<in> set (inorder l'). fst x < fst a" "\<forall>x \<in> set (inorder r'). fst a < fst x"
    by (simp_all add: split_at_def t' keys_sorted_Node)
  with root show ?thesis
    by (auto simp: t' at_root_def intro: less_trans)
qed

section \<open>The operations as list operations on the inorder sequence\<close>

lemma map_of_splay:
  assumes "keys_sorted t" and "splay k t = Node l a r"
  shows "map_of (inorder t) k = (if k = fst a then Some (snd a) else None)"
proof -
  from splay_root [OF assms] have "map_of (inorder l) k = None" "map_of (inorder r) k = None"
    by (auto simp: map_of_eq_None_iff)
  moreover have "inorder t = inorder l @ a # inorder r"
    using arg_cong [OF assms(2), of inorder] by simp
  ultimately show ?thesis by (cases a) (auto simp: map_add_def)
qed

lemma find_inorder: "inorder (fst (SPLAY_FIND k t)) = inorder t"
  by (simp add: SPLAY_FIND_def Let_def)

lemma find_map_of: "keys_sorted t \<Longrightarrow> snd (SPLAY_FIND k t) = map_of (inorder t) k"
  by (auto simp: SPLAY_FIND_def Let_def map_of_splay split: tree.splits)

lemma splay_inorder_split: "splay k t = Node l a r \<Longrightarrow> inorder t = inorder l @ a # inorder r"
  using inorder_splay [of k t] by simp

lemma insert_new:
  assumes "keys_sorted t" and "map_of (inorder t) k = None"
  shows "keys_sorted (fst (SPLAY_INSERT k v t)) \<and> snd (SPLAY_INSERT k v t) = None
    \<and> map_of (inorder (fst (SPLAY_INSERT k v t))) = (map_of (inorder t))(k \<mapsto> v)
    \<and> set (inorder (fst (SPLAY_INSERT k v t))) = insert (k, v) (set (inorder t))"
proof (cases "splay k t")
  case Leaf
  then show ?thesis by (auto simp: SPLAY_INSERT_def keys_sorted_def)
next
  case (Node l a r)
  note root = splay_root [OF assms(1) Node] and io = splay_inorder_split [OF Node]
  obtain ka va where a: "a = (ka, va)" by (cases a)
  from map_of_splay [OF assms(1) Node] assms(2) have ne: "k \<noteq> ka"
    by (auto simp: a split: if_splits)
  have srt: "keys_sorted (Node l a r)"
    using assms(1) Node keys_sorted_splay [of k t] by simp
  have none: "map_of (inorder l) k = None" "map_of (inorder r) k = None"
    using root by (auto simp: map_of_eq_None_iff)
  show ?thesis
  proof (cases "k < ka")
    case True
    then have ins: "SPLAY_INSERT k v t = (Node l (k, v) (Node Leaf a r), None)"
      using Node by (simp add: SPLAY_INSERT_def a)
    have "map_of (inorder l @ (k, v) # a # inorder r) = (map_of (inorder l @ a # inorder r))(k \<mapsto> v)"
      using none ne by (auto simp: a fun_eq_iff map_add_def split: option.splits)
    moreover have "keys_sorted (Node l (k, v) (Node Leaf a r))"
      using srt root True by (auto simp: keys_sorted_Node a)
    ultimately show ?thesis using ins io by auto
  next
    case False
    with ne have gt: "ka < k" by simp
    then have ins: "SPLAY_INSERT k v t = (Node (Node l a Leaf) (k, v) r, None)"
      using Node by (simp add: SPLAY_INSERT_def a)
    have "map_of (inorder l @ a # (k, v) # inorder r) = (map_of (inorder l @ a # inorder r))(k \<mapsto> v)"
      using none ne by (auto simp: a fun_eq_iff map_add_def split: option.splits)
    moreover have "keys_sorted (Node (Node l a Leaf) (k, v) r)"
      using srt root gt by (auto simp: keys_sorted_Node a)
    ultimately show ?thesis using ins io by auto
  qed
qed

lemma insert_old:
  assumes "keys_sorted t" and "map_of (inorder t) k = Some v'"
  shows "SPLAY_INSERT k v t = (splay k t, Some v')"
proof (cases "splay k t")
  case Leaf
  with assms show ?thesis by simp
next
  case (Node l a r)
  with map_of_splay [OF assms(1) Node] assms(2) show ?thesis
    by (auto simp: SPLAY_INSERT_def split: if_splits)
qed

text \<open>After splaying a key above all others, the right subtree of the root is empty.\<close>

lemma splay_above:
  assumes "keys_sorted t" and "\<forall>x \<in> set (inorder t). fst x < k" and "splay k t = Node l a r"
  shows "r = Leaf"
proof -
  from splay_root [OF assms(1,3)] have "\<forall>x \<in> set (inorder r). k < fst x" by simp
  moreover have "\<forall>x \<in> set (inorder r). fst x < k"
    using splay_inorder_split [OF assms(3)] assms(2) by simp
  ultimately have "set (inorder r) = {}" by (meson equals0I less_asym)
  then show ?thesis by (cases r) simp_all
qed

lemma remove_inorder:
  assumes "keys_sorted t"
  shows "inorder (SPLAY_REMOVE k t) = filter (\<lambda>x. fst x \<noteq> k) (inorder t)"
proof (cases "splay k t")
  case Leaf
  then show ?thesis by (simp add: SPLAY_REMOVE_def)
next
  case (Node l a r)
  note root = splay_root [OF assms Node] and io = splay_inorder_split [OF Node]
  have fl: "filter (\<lambda>x. fst x \<noteq> k) (inorder l) = inorder l"
    "filter (\<lambda>x. fst x \<noteq> k) (inorder r) = inorder r"
    using root by (auto simp: filter_id_conv)
  show ?thesis
  proof (cases "k = fst a \<and> l \<noteq> Leaf")
    case True
    have sl: "keys_sorted l" using assms io by (simp add: keys_sorted_def sorted_wrt_append)
    from True obtain l' m r' where spl: "splay k l = Node l' m r'" by (cases "splay k l") auto
    from splay_above [OF sl _ spl] root have "r' = Leaf" by simp
    with spl True Node have "SPLAY_REMOVE k t = Node l' m r" by (simp add: SPLAY_REMOVE_def)
    moreover have "filter (\<lambda>x. fst x \<noteq> k) (inorder t) = inorder l @ inorder r"
      unfolding io using fl True by simp
    ultimately show ?thesis using splay_inorder_split [OF spl] \<open>r' = Leaf\<close> by simp
  next
    case False
    with Node io fl show ?thesis by (auto simp: SPLAY_REMOVE_def)
  qed
qed

lemma keys_sorted_remove: "keys_sorted t \<Longrightarrow> keys_sorted (SPLAY_REMOVE k t)"
  by (auto simp: keys_sorted_def remove_inorder sorted_wrt_map intro: sorted_wrt_filter)

lemma map_of_filter_ne: "map_of (filter (\<lambda>x. fst x \<noteq> k) xs) = (map_of xs)(k := None)"
  by (induction xs) (auto simp: fun_eq_iff)

lemma lookup_remove: "keys_sorted t \<Longrightarrow> map_of (inorder (SPLAY_REMOVE k t)) = (map_of (inorder t))(k := None)"
  by (simp add: remove_inorder map_of_filter_ne)

section \<open>Iteration\<close>

lemma leftmost_hd: "leftmost t = (if inorder t = [] then None else Some (hd (inorder t)))"
proof (induction t)
  case (Node l a r)
  have "inorder l \<noteq> [] \<Longrightarrow> hd (inorder l @ a # inorder r) = hd (inorder l)" by simp
  with Node show ?case by (cases "l = Leaf") simp_all
qed simp

lemma next_inorder:
  assumes "keys_sorted t" and "inorder t = xs @ x # ys"
  shows "inorder (fst (SPLAY_NEXT (fst x) t)) = inorder t
    \<and> snd (SPLAY_NEXT (fst x) t) = (if ys = [] then None else Some (hd ys))"
proof (cases "splay (fst x) t")
  case Leaf
  with assms(2) show ?thesis by simp
next
  case (Node l a r)
  note root = splay_root [OF assms(1) Node] and io = splay_inorder_split [OF Node]
  have srt: "sorted_wrt (<) (map fst (xs @ x # ys))" using assms by (simp add: keys_sorted_def)
  have mx: "x \<in> set (inorder l @ a # inorder r)" unfolding io [symmetric] assms(2) by simp
  then have "x = a" using root by auto
  have "inorder l = filter (\<lambda>y. fst y < fst x) (inorder t)"
    using root unfolding io \<open>x = a\<close> by (auto simp: filter_id_conv filter_empty_conv dest: less_asym)
  moreover have "filter (\<lambda>y. fst y < fst x) (inorder t) = xs"
    using srt unfolding assms(2)
    by (auto simp: filter_id_conv filter_empty_conv sorted_wrt_append dest: less_asym)
  ultimately have "inorder r = ys" using io assms(2) by simp
  with Node io show ?thesis by (auto simp: SPLAY_NEXT_def leftmost_hd)
qed

lemma splay_min_loop_inorder:
  "splay_min_loop t R = (t', R') \<Longrightarrow>
   inorder t' @ ctxr R' = inorder t @ ctxr R \<and> (t' = Leaf \<longleftrightarrow> t = Leaf)
   \<and> (case t' of Leaf \<Rightarrow> True | Node l a r \<Rightarrow> l = Leaf)"
proof (induction t R rule: splay_min_loop.induct)
  case (2 l a r R)
  show ?case
  proof (cases l)
    case Leaf
    with 2(2) show ?thesis by auto
  next
    case (Node ll b lr)
    show ?thesis
    proof (cases "ll = Leaf")
      case True
      with 2(2) Node show ?thesis by auto
    next
      case False
      with 2(2) Node have "splay_min_loop ll ((b, Node lr a r) # R) = (t', R')" by simp
      from 2(1) [OF Node False this] show ?thesis by (simp add: Node False)
    qed
  qed
qed simp

lemma min_inorder:
  "inorder (fst (SPLAY_MIN t)) = inorder t
   \<and> snd (SPLAY_MIN t) = (if inorder t = [] then None else Some (hd (inorder t)))"
proof (cases "t = Leaf")
  case False
  obtain t' R where loop: "splay_min_loop t [] = (t', R)" by (cases "splay_min_loop t []")
  from splay_min_loop_inorder [OF loop] False obtain a r where
    t': "t' = Node Leaf a r" and io: "inorder t = a # inorder r @ ctxr R"
    by (cases t') auto
  show ?thesis using False by (simp add: SPLAY_MIN_def splay_minimum_def loop t' io)
qed (simp add: SPLAY_MIN_def)

lemma foreach_from_visits:
  assumes "keys_sorted t" and "inorder t = xs @ ys" and "length ys \<le> n"
    and "x = (if ys = [] then None else Some (hd ys))"
  shows "\<exists>t'. foreach_from n body x t s = Some (t', fold body (map snd ys) s) \<and> inorder t' = inorder t"
  using assms
proof (induction ys arbitrary: xs n x t s)
  case (Cons y ys)
  then obtain m where n: "n = Suc m" by (cases n) auto
  obtain t1 nx where nxt: "SPLAY_NEXT (fst y) t = (t1, nx)" by (cases "SPLAY_NEXT (fst y) t")
  with next_inorder [OF Cons.prems(1,2)]
  have t1: "inorder t1 = inorder t" "nx = (if ys = [] then None else Some (hd ys))" by simp_all
  then have "keys_sorted t1" "inorder t1 = (xs @ [y]) @ ys"
    using Cons.prems(1,2) by (simp_all add: keys_sorted_def)
  from Cons.IH [OF this _ t1(2), of m "body (snd y) s"] Cons.prems(3,4) n nxt t1
  show ?case by auto
qed simp

text \<open>The fuel of \<open>SPLAY_FOREACH\<close>, the size of the tree, is enough; the body sees every
  element once, in key order, and the tree keeps its elements.\<close>

lemma foreach_visits_all:
  assumes "keys_sorted t"
  shows "\<exists>t'. SPLAY_FOREACH body t s = Some (t', fold body (map snd (inorder t)) s)
    \<and> inorder t' = inorder t"
proof -
  obtain t1 x where mn: "SPLAY_MIN t = (t1, x)" by (cases "SPLAY_MIN t")
  with min_inorder [of t] have io: "inorder t1 = inorder t"
    "x = (if inorder t = [] then None else Some (hd (inorder t)))" by simp_all
  with assms have "keys_sorted t1" by (simp add: keys_sorted_def)
  from foreach_from_visits [OF this, of "[]" "inorder t" "size t" x body s] io mn
  show ?thesis by (simp add: SPLAY_FOREACH_def)
qed

section \<open>The contract of the memo\<close>

locale ordered_memo =
  fixes find :: "'k \<Rightarrow> 't \<Rightarrow> 't \<times> 'v option"
    and insert :: "'k \<Rightarrow> 'v \<Rightarrow> 't \<Rightarrow> 't \<times> 'v option"
    and remove :: "'k \<Rightarrow> 't \<Rightarrow> 't"
    and inv :: "'t \<Rightarrow> bool"
    and lookup :: "'t \<Rightarrow> 'k \<Rightarrow> 'v option"
  assumes find_law: "inv t \<Longrightarrow> find k t = (t', r) \<Longrightarrow> inv t' \<and> lookup t' = lookup t \<and> r = lookup t k"
    and insert_new_law: "inv t \<Longrightarrow> lookup t k = None \<Longrightarrow> insert k v t = (t', r) \<Longrightarrow>
      inv t' \<and> lookup t' = (lookup t)(k \<mapsto> v) \<and> r = None"
    and insert_dup_law: "inv t \<Longrightarrow> lookup t k = Some v' \<Longrightarrow> insert k v t = (t', r) \<Longrightarrow>
      inv t' \<and> lookup t' = lookup t \<and> r = Some v'"
    and remove_law: "inv t \<Longrightarrow> inv (remove k t) \<and> lookup (remove k t) = (lookup t)(k := None)"
begin

lemma find_after_insert:
  assumes "inv t" and "lookup t k = None" and "insert k v t = (t', r)" and "find k' t' = (t'', r')"
  shows "r' = (if k' = k then Some v else lookup t k')"
  using insert_new_law [OF assms(1-3)] find_law [OF _ assms(4)] by auto

lemma find_after_remove:
  assumes "inv t" and "find k' (remove k t) = (t', r)"
  shows "r = (if k' = k then None else lookup t k')"
  using remove_law [OF assms(1), of k] find_law [OF _ assms(2)] by auto

lemma find_twice:
  assumes "inv t" and "find k t = (t', r)" and "find k' t' = (t'', r')"
  shows "r' = lookup t k'"
  using find_law [OF assms(1,2)] find_law [OF _ assms(3)] by auto

end

lemma splay_find_law:
  "keys_sorted t \<Longrightarrow> SPLAY_FIND k t = (t', r) \<Longrightarrow>
   keys_sorted t' \<and> map_of (inorder t') = map_of (inorder t) \<and> r = map_of (inorder t) k"
  using find_inorder [of k t] find_map_of [of t k] by (auto simp: keys_sorted_def)

lemma splay_insert_dup_law:
  "keys_sorted t \<Longrightarrow> map_of (inorder t) k = Some v' \<Longrightarrow> SPLAY_INSERT k v t = (t', r) \<Longrightarrow>
   keys_sorted t' \<and> map_of (inorder t') = map_of (inorder t) \<and> r = Some v'"
  using insert_old [of t k v' v] by auto

interpretation memo: ordered_memo SPLAY_FIND SPLAY_INSERT SPLAY_REMOVE keys_sorted
  "\<lambda>t. map_of (inorder t)"
proof (unfold_locales, goal_cases)
  case (1 t k t' r)
  then show ?case by (rule splay_find_law)
next
  case (2 t k v t' r)
  then show ?case using insert_new [of t k v] by auto
next
  case (3 t k v' v t' r)
  then show ?case by (rule splay_insert_dup_law)
next
  case (4 t k)
  then show ?case by (simp add: lookup_remove keys_sorted_remove)
qed

section \<open>Properties\<close>

lemma fold_snoc: "fold (\<lambda>v acc. acc @ [v]) xs ys = ys @ xs"
  by (induction xs arbitrary: ys) auto

datatype ('k, 'v) memo_op = MFind 'k | MInsert 'k 'v | MRemove 'k

fun memo_run :: "('k::linorder, 'v) memo_op list \<Rightarrow> ('k, 'v) stree \<Rightarrow> 'v option list" where
  "memo_run [] t = []"
| "memo_run (MFind k # ops) t = (case SPLAY_FIND k t of (t', r) \<Rightarrow> r # memo_run ops t')"
| "memo_run (MInsert k v # ops) t = (case SPLAY_INSERT k v t of (t', r) \<Rightarrow> r # memo_run ops t')"
| "memo_run (MRemove k # ops) t = memo_run ops (SPLAY_REMOVE k t)"

fun map_run :: "('k, 'v) memo_op list \<Rightarrow> ('k \<Rightarrow> 'v option) \<Rightarrow> 'v option list" where
  "map_run [] m = []"
| "map_run (MFind k # ops) m = m k # map_run ops m"
| "map_run (MInsert k v # ops) m =
     m k # map_run ops (case m k of None \<Rightarrow> m(k \<mapsto> v) | Some _ \<Rightarrow> m)"
| "map_run (MRemove k # ops) m = map_run ops (m(k := None))"

text \<open>C35: The splay tree is a map: from any ordered tree, finding, inserting and removing keys in any
  order gives the answers the finite map of its elements would give.\<close>

theorem splay_refines_map:
  assumes "keys_sorted t"
  shows "memo_run ops t = map_run ops (map_of (inorder t))"
  using assms
proof (induction ops t rule: memo_run.induct)
  case (2 k ops t)
  obtain t' r where f: "SPLAY_FIND k t = (t', r)" by fastforce
  from memo.find_law [OF 2(2) f] 2(1) [OF f [symmetric]] f show ?case by simp
next
  case (3 k v ops t)
  obtain t' r where i: "SPLAY_INSERT k v t = (t', r)" by fastforce
  show ?case
  proof (cases "map_of (inorder t) k")
    case None
    from memo.insert_new_law [OF 3(2) None i] 3(1) [OF i [symmetric]] i None show ?thesis by (simp del: fun_upd_apply add: fun_upd_def)
  next
    case (Some v')
    from memo.insert_dup_law [OF 3(2) Some i] 3(1) [OF i [symmetric]] i Some show ?thesis by simp
  qed
next
  case (4 k ops t)
  with memo.remove_law [OF 4(2), of k] show ?case by (simp add: fun_upd_def)
qed simp

theorem splay_refines_map_witness:
  "memo_run [MFind 1, MInsert (2::nat) ''b'', MFind 2, MRemove 5, MFind (5::nat)] (Node Leaf (5, ''e'') Leaf)
    = [None, None, Some ''b'', None]"
  using splay_refines_map [of "Node Leaf (5::nat, ''e'') Leaf"
      "[MFind 1, MInsert 2 ''b'', MFind 2, MRemove 5, MFind 5]"]
  by (simp add: keys_sorted_def)

text \<open>Iterating over the tree while it rearranges itself at every step visits every element
  exactly once, in key order, ends, and keeps the elements.\<close>

theorem splay_foreach_complete:
  assumes "keys_sorted t"
  shows "\<exists>t'. SPLAY_FOREACH (\<lambda>v acc. acc @ [v]) t [] = Some (t', map snd (inorder t))
    \<and> inorder t' = inorder t"
  using foreach_visits_all [OF assms, of "\<lambda>v acc. acc @ [v]" "[]"] by (simp add: fold_snoc)

theorem splay_foreach_complete_witness:
  "\<exists>t'. SPLAY_FOREACH (\<lambda>v acc. acc @ [v]) (Node (Node Leaf (1::nat, ''a'') Leaf) (5, ''e'') Leaf) []
    = Some (t', [''a'', ''e''])"
  using splay_foreach_complete [of "Node (Node Leaf (1::nat, ''a'') Leaf) (5, ''e'') Leaf"]
  by (auto simp: keys_sorted_def)

end
