(* ===== verification/Monitors.thy ===== *)
theory Monitors
  imports Prelude
begin

text \<open>
  The calls gpsee\_monitors.c makes on NSPR monitors.  A monitor is a pointer; an operation
  that enters or leaves monitors returns the list of the NSPR calls it makes, in order, so
  that lock discipline is a property of this list.  \<open>held m d tr\<close> replays the calls of
  one thread on the re-entrant monitor \<open>m\<close> entered \<open>d\<close> times: \<open>None\<close> when the
  thread exits a monitor it is not in (where the code's assertion fails).
\<close>

section \<open>NSPR calls\<close>

datatype pr_call =
    PR_EnterMonitor ptr
  | PR_ExitMonitor ptr
  | PR_DestroyMonitor ptr

type_synonym pr_trace = "pr_call list"

text \<open>The address of the string literal that serves as the nil monitor.\<close>

definition nilMonitor :: ptr where
  "nilMonitor = 1"

definition gpsee_getNilMonitor :: ptr where
  "gpsee_getNilMonitor = nilMonitor"

definition gpsee_enterMonitor :: "ptr \<Rightarrow> pr_trace" where
  "gpsee_enterMonitor monitor = (if monitor = nilMonitor then [] else [PR_EnterMonitor monitor])"

definition gpsee_leaveMonitor :: "ptr \<Rightarrow> pr_trace" where
  "gpsee_leaveMonitor monitor = (if monitor = nilMonitor then [] else [PR_ExitMonitor monitor])"

definition gpsee_leaveAutoMonitor :: "ptr \<Rightarrow> pr_trace" where
  "gpsee_leaveAutoMonitor monitor = gpsee_leaveMonitor monitor"

section \<open>Lock discipline of a call list\<close>

fun held :: "ptr \<Rightarrow> nat \<Rightarrow> pr_trace \<Rightarrow> nat option" where
  "held m d [] = Some d"
| "held m d (PR_EnterMonitor m' # tr) = held m (if m' = m then Suc d else d) tr"
| "held m d (PR_ExitMonitor m' # tr) =
     (if m' = m then (case d of 0 \<Rightarrow> None | Suc d' \<Rightarrow> held m d' tr) else held m d tr)"
| "held m d (PR_DestroyMonitor m' # tr) = held m d tr"

definition balanced :: "pr_trace \<Rightarrow> bool" where
  "balanced tr \<longleftrightarrow> (\<forall>m d. held m d tr = Some d)"

lemma held_append: "held m d (xs @ ys) = Option.bind (held m d xs) (\<lambda>d'. held m d' ys)"
  by (induction m d xs rule: held.induct) (auto split: nat.splits)

lemma balanced_Nil [trace_simps]: "balanced []"
  by (simp add: balanced_def)

lemma balanced_append [trace_simps]: "balanced xs \<Longrightarrow> balanced ys \<Longrightarrow> balanced (xs @ ys)"
  by (simp add: balanced_def held_append)

lemma balanced_bracket [trace_simps]:
  "balanced tr \<Longrightarrow> balanced (gpsee_enterMonitor m @ tr @ gpsee_leaveMonitor m)"
  by (auto simp: balanced_def held_append gpsee_enterMonitor_def gpsee_leaveMonitor_def)

lemma balanced_bracket_Cons [trace_simps]:
  "balanced tr \<Longrightarrow> balanced (PR_EnterMonitor m # tr @ [PR_ExitMonitor m])"
  by (auto simp: balanced_def held_append)

lemma balanced_destroy [trace_simps]: "balanced tr \<Longrightarrow> balanced (PR_DestroyMonitor m # tr)"
  by (simp add: balanced_def)

lemma balanced_enter_leave [trace_simps]:
  "balanced (gpsee_enterMonitor m @ gpsee_leaveMonitor m)"
  using balanced_bracket [of "[]" m] by (simp add: balanced_Nil)

lemma held_enter: "m \<noteq> nilMonitor \<Longrightarrow> held m d (gpsee_enterMonitor m) = Some (Suc d)"
  by (simp add: gpsee_enterMonitor_def)

text \<open>The monitors a call list destroys, in order.\<close>

fun destroyed :: "pr_trace \<Rightarrow> ptr list" where
  "destroyed [] = []"
| "destroyed (PR_DestroyMonitor m # tr) = m # destroyed tr"
| "destroyed (PR_EnterMonitor m # tr) = destroyed tr"
| "destroyed (PR_ExitMonitor m # tr) = destroyed tr"

lemma destroyed_append [simp]: "destroyed (xs @ ys) = destroyed xs @ destroyed ys"
  by (induction xs rule: destroyed.induct) auto

lemma destroyed_enter [simp]: "destroyed (gpsee_enterMonitor m) = []"
  by (simp add: gpsee_enterMonitor_def)

lemma destroyed_leave [simp]: "destroyed (gpsee_leaveMonitor m) = []"
  by (simp add: gpsee_leaveMonitor_def)

end
