(* ===== verification/DataStore.thy ===== *)
theory DataStore
  imports Monitors "HOL-Library.Multiset" "HOL-Library.Monad_Syntax"
begin

text \<open>
  The data stores of gpsee\_datastores.c: arrays of (key, value) slots that hold the
  contexts' private data, the module scope information, the garbage-collector callbacks
  and the list of live monitors.  A slot whose key is NULL is empty.

  An operation returns its result, the new store and the monitor calls it made.  Whether
  an allocation succeeds is an argument (\<open>realloc_ok\<close>).  \<open>slots_get\<close> and the other
  \<open>slots\_\<close> functions are the loops over the slots.

  Two contracts are stated as locales: \<open>assoc_store\<close> (what \<open>get\<close> returns after a
  \<open>put\<close>) and \<open>otm_bag\<close> (a store with one-to-many keys is a bag of pairs).
\<close>

section \<open>State\<close>

type_synonym slot = "ptr \<times> ptr"

record dstore =
  ds_data :: "slot list"
  ds_monitor :: ptr
  ds_grt :: ptr
  ds_flags :: "32 word"

definition GPSEE_DS_UNLOCKED :: "32 word" where "GPSEE_DS_UNLOCKED = 1"
definition GPSEE_DS_OTM_KEYS :: "32 word" where "GPSEE_DS_OTM_KEYS = 2"

abbreviation ds_size :: "dstore \<Rightarrow> nat" where
  "ds_size store \<equiv> length (ds_data store)"

section \<open>The loops over the slots\<close>

fun slots_get :: "slot list \<Rightarrow> ptr \<Rightarrow> ptr" where
  "slots_get [] key = NULL"
| "slots_get ((k, v) # data) key = (if k = key then v else slots_get data key)"

text \<open>\<open>Some\<close>: the pair was written into a slot; \<open>None\<close>: neither the key nor an empty slot.\<close>

fun slots_put :: "slot list \<Rightarrow> ptr \<Rightarrow> ptr \<Rightarrow> slot list option" where
  "slots_put [] key val = None"
| "slots_put ((k, v) # data) key val =
     (if k = key then Some ((k, val) # data)
      else if k = NULL then Some ((key, val) # data)
      else map_option ((#) (k, v)) (slots_put data key val))"

fun slots_remove :: "slot list \<Rightarrow> ptr \<Rightarrow> ptr \<times> slot list" where
  "slots_remove [] key = (NULL, [])"
| "slots_remove ((k, v) # data) key =
     (if k = key then (v, (NULL, v) # data)
      else (case slots_remove data key of (val, data') \<Rightarrow> (val, (k, v) # data')))"

fun slots_match_remove :: "slot list \<Rightarrow> ptr \<Rightarrow> ptr \<Rightarrow> bool \<times> slot list" where
  "slots_match_remove [] key val = (False, [])"
| "slots_match_remove ((k, v) # data) key val =
     (if k = key \<and> v = val then (True, (NULL, v) # data)
      else (case slots_match_remove data key val of (found, data') \<Rightarrow> (found, (k, v) # data')))"

fun slots_any :: "slot list \<Rightarrow> bool" where
  "slots_any [] = False"
| "slots_any ((k, v) # data) = (if k = NULL then slots_any data else True)"

section \<open>The operations\<close>

definition gpsee_ds_get :: "dstore \<Rightarrow> ptr \<Rightarrow> ptr \<times> pr_trace" where
  "gpsee_ds_get store key =
     (slots_get (ds_data store) key,
      gpsee_enterMonitor (ds_monitor store) @ gpsee_leaveMonitor (ds_monitor store))"

definition ds_newSize :: "nat \<Rightarrow> nat" where
  "ds_newSize n =
     (if n < 100 then (if n \<noteq> 0 then n * 2 else 1)
      else (let newSize = n + 128 in newSize - newSize mod 128))"

definition ds_grow :: "slot list \<Rightarrow> ptr \<Rightarrow> ptr \<Rightarrow> slot list" where
  "ds_grow data key val =
     data @ (key, val) # replicate (ds_newSize (length data) - length data - 1) (NULL, NULL)"

definition is_otm :: "dstore \<Rightarrow> bool" where
  "is_otm store \<longleftrightarrow> ds_flags store AND GPSEE_DS_OTM_KEYS \<noteq> 0"

definition gpsee_ds_put ::
    "bool \<Rightarrow> dstore \<Rightarrow> ptr \<Rightarrow> ptr \<Rightarrow> bool \<times> dstore \<times> pr_trace" where
  "gpsee_ds_put realloc_ok store key val =
     (let enter = gpsee_enterMonitor (ds_monitor store);
          leave = gpsee_leaveMonitor (ds_monitor store)
      in case (if is_otm store then None else slots_put (ds_data store) key val) of
           Some data \<Rightarrow> (True, store\<lparr>ds_data := data\<rparr>, enter @ leave)
         | None \<Rightarrow>
             if \<not> realloc_ok then (False, store, enter @ leave)
             else (True, store\<lparr>ds_data := ds_grow (ds_data store) key val\<rparr>, enter @ leave))"

definition gpsee_ds_remove :: "dstore \<Rightarrow> ptr \<Rightarrow> ptr \<times> dstore \<times> pr_trace" where
  "gpsee_ds_remove store key =
     (case slots_remove (ds_data store) key of (val, data) \<Rightarrow>
        (val, store\<lparr>ds_data := data\<rparr>,
         gpsee_enterMonitor (ds_monitor store) @ gpsee_leaveMonitor (ds_monitor store)))"

definition gpsee_ds_match_remove :: "dstore \<Rightarrow> ptr \<Rightarrow> ptr \<Rightarrow> bool \<times> dstore \<times> pr_trace" where
  "gpsee_ds_match_remove store key val =
     (case slots_match_remove (ds_data store) key val of (found, data) \<Rightarrow>
        (found, store\<lparr>ds_data := data\<rparr>,
         gpsee_enterMonitor (ds_monitor store) @ gpsee_leaveMonitor (ds_monitor store)))"

definition gpsee_ds_empty :: "dstore \<Rightarrow> dstore \<times> pr_trace" where
  "gpsee_ds_empty store =
     (store\<lparr>ds_data := replicate (ds_size store) (NULL, NULL)\<rparr>,
      gpsee_enterMonitor (ds_monitor store) @ gpsee_leaveMonitor (ds_monitor store))"

text \<open>The monitor is entered and, on every path, not left.\<close>

definition gpsee_ds_hasData :: "dstore \<Rightarrow> bool \<times> pr_trace" where
  "gpsee_ds_hasData store = (slots_any (ds_data store), gpsee_enterMonitor (ds_monitor store))"

text \<open>
  Allocation of the structure and of its slots; the second \<open>calloc\<close> is only made for a
  non-zero hint.  The monitor, the runtime and the flags are set by \<open>gpsee_ds_create\<close>.
\<close>

definition ds_create :: "bool \<Rightarrow> bool \<Rightarrow> nat \<Rightarrow> dstore option" where
  "ds_create calloc_store_ok calloc_data_ok initialSizeHint =
     (if \<not> calloc_store_ok then None
      else if initialSizeHint \<noteq> 0 \<and> \<not> calloc_data_ok then None
      else Some \<lparr>ds_data = replicate initialSizeHint (NULL, NULL), ds_monitor = NULL,
                 ds_grt = NULL, ds_flags = 0\<rparr>)"

text \<open>
  \<open>gpsee_ds_forEach\<close>.  The callback runs with the monitor held and may change the program
  state, the store itself included: the slots are read again through \<open>get\<close> at each step.  A
  callback that keeps growing the store makes the loop run for ever, hence
  \<open>partial_function\<close>.
\<close>

type_synonym 's forEach_fn = "ptr \<Rightarrow> ptr \<Rightarrow> 's \<Rightarrow> bool \<times> 's \<times> pr_trace"

partial_function (option) forEach_loop ::
    "('s \<Rightarrow> dstore) \<Rightarrow> 's forEach_fn \<Rightarrow> nat \<Rightarrow> 's \<Rightarrow> pr_trace \<Rightarrow> (bool \<times> 's \<times> pr_trace) option" where
  "forEach_loop get cb i s tr =
     (if i < ds_size (get s) then
        (let (key, val) = ds_data (get s) ! i
         in if key = NULL then forEach_loop get cb (Suc i) s tr
            else (case cb key val s of (ok, s', tr') \<Rightarrow>
                    if ok then forEach_loop get cb (Suc i) s' (tr @ tr')
                    else Some (False, s', tr @ tr')))
      else Some (True, s, tr))"

definition gpsee_ds_forEach ::
    "('s \<Rightarrow> dstore) \<Rightarrow> 's forEach_fn \<Rightarrow> 's \<Rightarrow> (bool \<times> 's \<times> pr_trace) option" where
  "gpsee_ds_forEach get cb s =
     (case forEach_loop get cb 0 s (gpsee_enterMonitor (ds_monitor (get s))) of
        None \<Rightarrow> None
      | Some (ok, s', tr) \<Rightarrow> Some (ok, s', tr @ gpsee_leaveMonitor (ds_monitor (get s'))))"

section \<open>Growth\<close>

lemma ds_newSize_gt: "n < ds_newSize n"
proof -
  have "(n + 128) mod 128 < 128" by simp
  then have "n < n + 128 - (n + 128) mod 128" by linarith
  then show ?thesis by (simp add: ds_newSize_def Let_def)
qed

lemma length_ds_grow: "length (ds_grow data key val) = ds_newSize (length data)"
  using ds_newSize_gt [of "length data"] by (simp add: ds_grow_def)

section \<open>A store as a map\<close>

lemma slots_get_notin: "key \<notin> fst ` set data \<Longrightarrow> slots_get data key = NULL"
  by (induction data key rule: slots_get.induct) auto

lemma slots_get_append:
  "slots_get (xs @ ys) key = (if key \<in> fst ` set xs then slots_get xs key else slots_get ys key)"
  by (induction xs key rule: slots_get.induct) auto

lemma slots_get_replicate [simp]: "slots_get (replicate n (NULL, NULL)) key = NULL"
  by (induction n) auto

lemma slots_get_in: "key \<in> fst ` set data \<Longrightarrow> (key, slots_get data key) \<in> set data"
  by (induction data key rule: slots_get.induct) auto

lemma slots_put_get:
  "slots_put data key val = Some data' \<Longrightarrow> k' \<noteq> NULL \<Longrightarrow>
   slots_get data' k' = (if k' = key then val else slots_get data k')"
  by (induction data key val arbitrary: data' rule: slots_put.induct) (auto split: if_splits)

lemma slots_put_None:
  "slots_put data key val = None \<longleftrightarrow> key \<notin> fst ` set data \<and> NULL \<notin> fst ` set data"
  by (induction data key val rule: slots_put.induct) auto

lemma slots_grow_get:
  assumes "key \<notin> fst ` set data" and "k' \<noteq> NULL"
  shows "slots_get (ds_grow data key val) k' = (if k' = key then val else slots_get data k')"
  using assms by (auto simp: ds_grow_def slots_get_append slots_get_notin)

text \<open>Operations always leave the monitor as they found it, \<open>hasData\<close> excepted.\<close>

lemma ds_traces_balanced [trace_simps]:
  "balanced (snd (gpsee_ds_get store key))"
  "balanced (snd (snd (gpsee_ds_put ok store key val)))"
  "balanced (snd (snd (gpsee_ds_remove store key)))"
  "balanced (snd (snd (gpsee_ds_match_remove store key val)))"
  "balanced (snd (gpsee_ds_empty store))"
  by (simp_all add: gpsee_ds_get_def gpsee_ds_put_def gpsee_ds_remove_def Let_def
      gpsee_ds_match_remove_def gpsee_ds_empty_def trace_simps split: option.split prod.split)

lemma put_get:
  assumes "\<not> is_otm store" and "gpsee_ds_put ok store key val = (True, store', tr)" and "k' \<noteq> NULL"
  shows "fst (gpsee_ds_get store' k') = (if k' = key then val else fst (gpsee_ds_get store k'))"
proof (cases "slots_put (ds_data store) key val")
  case None
  with assms show ?thesis
    using slots_put_None [of "ds_data store" key val]
    by (auto simp: gpsee_ds_put_def gpsee_ds_get_def Let_def slots_grow_get split: if_splits)
next
  case (Some data)
  with assms show ?thesis
    using slots_put_get [OF Some assms(3)] by (auto simp: gpsee_ds_put_def gpsee_ds_get_def Let_def)
qed

lemma put_flags:
  "gpsee_ds_put ok store key val = (r, store', tr) \<Longrightarrow>
   ds_flags store' = ds_flags store \<and> ds_monitor store' = ds_monitor store"
  by (auto simp: gpsee_ds_put_def Let_def split: option.splits if_splits)

lemma put_fails:
  "gpsee_ds_put ok store key val = (False, store', tr) \<Longrightarrow> store' = store \<and> \<not> ok"
  by (auto simp: gpsee_ds_put_def Let_def split: option.splits if_splits)

lemma put_ok: "\<exists>store' tr. gpsee_ds_put True store key val = (True, store', tr)"
  by (auto simp: gpsee_ds_put_def Let_def split: option.splits)

text \<open>A store with at most one slot per key: removal then really removes the key.\<close>

definition used_keys :: "slot list \<Rightarrow> ptr list" where
  "used_keys data = filter (\<lambda>k. k \<noteq> NULL) (map fst data)"

lemma used_keys_Cons: "used_keys (x # data) = (if fst x = NULL then [] else [fst x]) @ used_keys data"
  by (simp add: used_keys_def)

lemma used_keys_append: "used_keys (xs @ ys) = used_keys xs @ used_keys ys"
  by (simp add: used_keys_def)

lemma set_used_keys: "set (used_keys data) = fst ` set data - {NULL}"
  by (auto simp: used_keys_def)

lemma slots_remove_result: "key \<noteq> NULL \<Longrightarrow> fst (slots_remove data key) = slots_get data key"
  by (induction data key rule: slots_remove.induct) (auto split: prod.splits)

lemma slots_remove_used:
  "key \<noteq> NULL \<Longrightarrow> used_keys (snd (slots_remove data key)) = remove1 key (used_keys data)"
  by (induction data key rule: slots_remove.induct) (auto simp: used_keys_def split: prod.splits)

lemma slots_remove_get:
  "key \<noteq> NULL \<Longrightarrow> k' \<noteq> NULL \<Longrightarrow> distinct (used_keys data) \<Longrightarrow>
   slots_get (snd (slots_remove data key)) k' = (if k' = key then NULL else slots_get data k')"
proof (induction data key rule: slots_remove.induct)
  case (2 k v data key)
  show ?case
  proof (cases "k = key")
    case True
    with 2 have "key \<notin> fst ` set data" by (auto simp: used_keys_Cons set_used_keys)
    with True 2 show ?thesis by (auto simp: slots_get_notin)
  next
    case False
    with 2 show ?thesis by (auto simp: used_keys_Cons split: prod.splits if_splits)
  qed
qed simp

text \<open>A store is compact when no empty slot comes before a used one: this is how \<open>put\<close>
  fills a store from which nothing was ever removed.\<close>

definition compact :: "slot list \<Rightarrow> bool" where
  "compact data \<longleftrightarrow> (\<exists>us n. data = us @ replicate n (NULL, NULL) \<and> NULL \<notin> fst ` set us
     \<and> distinct (map fst us))"

lemma compact_distinct: "compact data \<Longrightarrow> distinct (used_keys data)"
proof -
  assume "compact data"
  then obtain us n where "data = us @ replicate n (NULL, NULL)" "NULL \<notin> fst ` set us"
    and d: "distinct (map fst us)" by (auto simp: compact_def)
  moreover from this have "filter (\<lambda>k. k \<noteq> NULL) (map fst us) = map fst us"
    by (simp only: filter_id_conv) force
  ultimately have "used_keys data = map fst us" by (simp add: used_keys_def)
  with d show ?thesis by simp
qed

lemma slots_put_fresh:
  "NULL \<notin> fst ` set us \<Longrightarrow> key \<notin> fst ` set us \<Longrightarrow>
   slots_put (us @ ds) key val = map_option ((@) us) (slots_put ds key val)"
  by (cases "slots_put ds key val"; induction us) auto

lemma slots_put_old:
  "key \<in> fst ` set us \<Longrightarrow> NULL \<notin> fst ` set us \<Longrightarrow>
   \<exists>us'. slots_put (us @ ds) key val = Some (us' @ ds) \<and> map fst us' = map fst us"
proof (induction us)
  case (Cons x us)
  obtain k v where x: "x = (k, v)" by (cases x)
  show ?case
  proof (cases "k = key")
    case True
    then show ?thesis by (auto simp: x intro!: exI [of _ "(key, val) # us"])
  next
    case False
    with Cons x obtain us' where "slots_put (us @ ds) key val = Some (us' @ ds)" "map fst us' = map fst us"
      by auto
    with False Cons.prems x show ?thesis by (auto intro!: exI [of _ "(k, v) # us'"])
  qed
qed simp

lemma put_compact:
  assumes "compact (ds_data store)" and "key \<noteq> NULL" and "\<not> is_otm store"
    and "gpsee_ds_put ok store key val = (r, store', tr)"
  shows "compact (ds_data store')"
proof -
  from assms(1) obtain us n where d: "ds_data store = us @ replicate n (NULL, NULL)"
    and us: "NULL \<notin> fst ` set us" "distinct (map fst us)" by (auto simp: compact_def)
  show ?thesis
  proof (cases "key \<in> fst ` set us")
    case True
    from slots_put_old [OF True us(1), of "replicate n (NULL, NULL)" val] obtain us' where
      p: "slots_put (ds_data store) key val = Some (us' @ replicate n (NULL, NULL))"
      and m: "map fst us' = map fst us" unfolding d by auto
    from m have "fst ` set us' = fst ` set us" by (metis list.set_map)
    with us m have "compact (us' @ replicate n (NULL, NULL))"
      unfolding compact_def by - (rule exI [of _ us'], rule exI [of _ n], simp)
    with p assms(3,4) show ?thesis by (auto simp: gpsee_ds_put_def Let_def)
  next
    case False
    note fresh = slots_put_fresh [OF us(1) False, of "replicate n (NULL, NULL)" val]
    have new: "compact ((us @ [(key, val)]) @ replicate m (NULL, NULL))" for m
      unfolding compact_def using us False assms(2)
      by - (rule exI [of _ "us @ [(key, val)]"], rule exI [of _ m], simp)
    show ?thesis
    proof (cases n)
      case 0
      then have "slots_put (ds_data store) key val = None" using fresh d by simp
      with 0 d new assms(1,4) show ?thesis
        by (auto simp: gpsee_ds_put_def Let_def ds_grow_def split: if_splits)
    next
      case (Suc m)
      then have "slots_put (ds_data store) key val = Some ((us @ [(key, val)]) @ replicate m (NULL, NULL))"
        using fresh d assms(2) by simp
      with new [of m] assms(3,4) show ?thesis by (auto simp: gpsee_ds_put_def Let_def)
    qed
  qed
qed

section \<open>A store as a bag of pairs\<close>

definition ds_bag :: "slot list \<Rightarrow> slot multiset" where
  "ds_bag data = mset (filter (\<lambda>x. fst x \<noteq> NULL) data)"

lemma ds_bag_Nil [simp]: "ds_bag [] = {#}"
  by (simp add: ds_bag_def)

lemma ds_bag_Cons: "ds_bag ((k, v) # data) = (if k = NULL then {#} else {#(k, v)#}) + ds_bag data"
  by (simp add: ds_bag_def)

lemma ds_bag_append: "ds_bag (xs @ ys) = ds_bag xs + ds_bag ys"
  by (simp add: ds_bag_def)

lemma ds_bag_replicate [simp]: "ds_bag (replicate n (NULL, v)) = {#}"
  by (simp add: ds_bag_def)

lemma ds_bag_grow: "key \<noteq> NULL \<Longrightarrow> ds_bag (ds_grow data key val) = add_mset (key, val) (ds_bag data)"
  by (simp add: ds_grow_def ds_bag_append ds_bag_Cons)

lemma slots_match_remove_bag:
  "key \<noteq> NULL \<Longrightarrow> slots_match_remove data key val = (found, data') \<Longrightarrow>
   (found \<longleftrightarrow> (key, val) \<in># ds_bag data) \<and> ds_bag data' = ds_bag data - {#(key, val)#}
   \<and> length data' = length data"
  by (induction data key val arbitrary: found data' rule: slots_match_remove.induct)
    (auto simp: ds_bag_Cons split: prod.splits if_splits)

lemma slots_remove_bag:
  "key \<noteq> NULL \<Longrightarrow> slots_remove data key = (val, data') \<Longrightarrow>
   ds_bag data' = (if key \<in> fst ` set data then ds_bag data - {#(key, val)#} else ds_bag data)"
proof (induction data key arbitrary: val data' rule: slots_remove.induct)
  case (2 k v data key)
  show ?case
  proof (cases "k = key")
    case False
    obtain v1 d1 where r: "slots_remove data key = (v1, d1)" by (cases "slots_remove data key")
    with 2 False have "ds_bag d1 = (if key \<in> fst ` set data then ds_bag data - {#(key, val)#} else ds_bag data)"
      "data' = (k, v) # d1" "v1 = val" by auto
    with False show ?thesis by (auto simp: ds_bag_Cons)
  qed (use 2 in \<open>auto simp: ds_bag_Cons\<close>)
qed simp

lemma slots_any_bag: "slots_any data \<longleftrightarrow> ds_bag data \<noteq> {#}"
  by (induction data rule: slots_any.induct) (auto simp: ds_bag_Cons)

section \<open>Iteration\<close>

lemmas forEach_step = forEach_loop.simps

lemma forEach_loop_done: "\<not> i < ds_size (get s) \<Longrightarrow> forEach_loop get cb i s tr = Some (True, s, tr)"
  by (simp add: forEach_step)

text \<open>The loop returns when the callback does not make the store larger.\<close>

lemma forEach_terminates:
  assumes "\<And>k v s. ds_size (get (fst (snd (cb k v s)))) \<le> ds_size (get s)"
  shows "\<exists>r. forEach_loop get cb i s tr = Some r"
proof (induction "ds_size (get s) - i" arbitrary: i s tr rule: less_induct)
  case less
  show ?case
  proof (cases "i < ds_size (get s)")
    case True
    obtain k v where kv: "ds_data (get s) ! i = (k, v)" by fastforce
    obtain ok s' tr' where cb: "cb k v s = (ok, s', tr')" by (cases "cb k v s")
    have "ds_size (get s') \<le> ds_size (get s)" using assms [of k v s] cb by simp
    with True have "ds_size (get s') - Suc i < ds_size (get s) - i"
      "ds_size (get s) - Suc i < ds_size (get s) - i" by linarith+
    from less [OF this(1)] less [OF this(2)] show ?thesis
      by (subst forEach_step) (cases ok; cases "k = NULL"; auto simp: True kv cb)
  qed (auto simp: forEach_loop_done)
qed

text \<open>What the loop does when the callback leaves the store alone: the used slots in order,
  up to and including the first one refused.\<close>

fun visit :: "'s forEach_fn \<Rightarrow> slot list \<Rightarrow> 's \<Rightarrow> pr_trace \<Rightarrow> bool \<times> 's \<times> pr_trace" where
  "visit cb [] s tr = (True, s, tr)"
| "visit cb ((k, v) # data) s tr =
     (if k = NULL then visit cb data s tr
      else (case cb k v s of (ok, s', tr') \<Rightarrow>
              if ok then visit cb data s' (tr @ tr') else (False, s', tr @ tr')))"

lemma forEach_loop_visit:
  assumes "\<And>k v s. get (fst (snd (cb k v s))) = get s"
  shows "forEach_loop get cb i s tr = Some (visit cb (drop i (ds_data (get s))) s tr)"
proof (induction "ds_size (get s) - i" arbitrary: i s tr)
  case 0
  then show ?case by (simp add: forEach_loop_done)
next
  case (Suc n)
  then have i: "i < ds_size (get s)" by simp
  obtain k v where kv: "ds_data (get s) ! i = (k, v)" by fastforce
  obtain ok s' tr' where cb: "cb k v s = (ok, s', tr')" by (cases "cb k v s")
  with assms [of k v s] have g: "get s' = get s" by simp
  have d: "drop i (ds_data (get s)) = (k, v) # drop (Suc i) (ds_data (get s))"
    using i kv by (metis Cons_nth_drop_Suc)
  from Suc.hyps have n: "n = ds_size (get s) - Suc i" by simp
  show ?case
    using Suc.hyps(1) [of s "Suc i" tr, OF n] Suc.hyps(1) [of s' "Suc i" "tr @ tr'"] n
    by (subst forEach_step) (simp add: i kv cb g d)
qed

lemma forEach_visit:
  assumes "\<And>k v s. get (fst (snd (cb k v s))) = get s"
  shows "gpsee_ds_forEach get cb s =
    (case visit cb (ds_data (get s)) s (gpsee_enterMonitor (ds_monitor (get s))) of
       (ok, s', tr) \<Rightarrow> Some (ok, s', tr @ gpsee_leaveMonitor (ds_monitor (get s'))))"
  by (simp add: gpsee_ds_forEach_def forEach_loop_visit [of get cb, OF assms] split: prod.split)

section \<open>The two contracts\<close>

locale assoc_store =
  fixes get :: "'s \<Rightarrow> ptr \<Rightarrow> ptr"
    and put :: "bool \<Rightarrow> 's \<Rightarrow> ptr \<Rightarrow> ptr \<Rightarrow> bool \<times> 's"
    and inv :: "'s \<Rightarrow> bool"
  assumes put_law: "inv s \<Longrightarrow> put ok s k v = (True, s') \<Longrightarrow>
      inv s' \<and> (\<forall>k'. k' \<noteq> NULL \<longrightarrow> get s' k' = (if k' = k then v else get s k'))"
    and put_fail_law: "put ok s k v = (False, s') \<Longrightarrow> s' = s"
begin

lemma get_put_same: "inv s \<Longrightarrow> put ok s k v = (True, s') \<Longrightarrow> k \<noteq> NULL \<Longrightarrow> get s' k = v"
  using put_law by fastforce

lemma get_put_other:
  "inv s \<Longrightarrow> put ok s k v = (r, s') \<Longrightarrow> k' \<noteq> NULL \<Longrightarrow> k' \<noteq> k \<Longrightarrow> get s' k' = get s k'"
  using put_law [of s ok k v s'] put_fail_law [of ok s k v s'] by (cases r) auto

lemma inv_put: "inv s \<Longrightarrow> put ok s k v = (r, s') \<Longrightarrow> inv s'"
  using put_law [of s ok k v s'] put_fail_law [of ok s k v s'] by (cases r) auto

text \<open>A list of puts: the last successful one for a key decides what is found.\<close>

fun puts :: "(bool \<times> ptr \<times> ptr) list \<Rightarrow> 's \<Rightarrow> 's" where
  "puts [] s = s"
| "puts ((ok, k, v) # ps) s = puts ps (snd (put ok s k v))"

lemma inv_puts: "inv s \<Longrightarrow> inv (puts ps s)"
  by (induction ps s rule: puts.induct) (auto intro: inv_put prod.collapse [symmetric])

lemma get_puts_other:
  "inv s \<Longrightarrow> k \<noteq> NULL \<Longrightarrow> k \<notin> (fst \<circ> snd) ` set ps \<Longrightarrow> get (puts ps s) k = get s k"
proof (induction ps s rule: puts.induct)
  case (2 ok k' v ps s)
  obtain r s' where p: "put ok s k' v = (r, s')" by fastforce
  from 2 p inv_put [OF 2(2) p] get_put_other [OF 2(2) p] show ?case by simp
qed simp

end

locale otm_bag =
  fixes add :: "'s \<Rightarrow> 'k \<Rightarrow> 'v \<Rightarrow> 's"
    and rem :: "'s \<Rightarrow> 'k \<Rightarrow> 'v \<Rightarrow> bool \<times> 's"
    and bag :: "'s \<Rightarrow> ('k \<times> 'v) multiset"
    and valid :: "'k \<Rightarrow> bool"
    and inv :: "'s \<Rightarrow> bool"
  assumes add_law: "inv s \<Longrightarrow> valid k \<Longrightarrow> inv (add s k v) \<and> bag (add s k v) = add_mset (k, v) (bag s)"
    and rem_law: "inv s \<Longrightarrow> valid k \<Longrightarrow> rem s k v = (found, s') \<Longrightarrow>
      inv s' \<and> (found \<longleftrightarrow> (k, v) \<in># bag s) \<and> bag s' = bag s - {#(k, v)#}"
begin

lemma add_then_rem:
  "inv s \<Longrightarrow> valid k \<Longrightarrow> rem (add s k v) k v = (found, s') \<Longrightarrow> found \<and> bag s' = bag s"
  using add_law rem_law by fastforce

lemma rem_keeps:
  assumes "inv s" and "valid k" and "rem s k v = (found, s')" and "(k', v') \<noteq> (k, v)"
  shows "count (bag s') (k', v') = count (bag s) (k', v')"
  using rem_law [OF assms(1-3)] assms(4) by auto

text \<open>As many removals of a pair succeed as there were additions.\<close>

fun rems :: "nat \<Rightarrow> 's \<Rightarrow> 'k \<Rightarrow> 'v \<Rightarrow> nat \<times> 's" where
  "rems 0 s k v = (0, s)"
| "rems (Suc n) s k v =
     (case rem s k v of (found, s') \<Rightarrow>
        case rems n s' k v of (m, s'') \<Rightarrow> (m + (if found then 1 else 0), s''))"

lemma rems_count:
  "inv s \<Longrightarrow> valid k \<Longrightarrow> fst (rems n s k v) = min n (count (bag s) (k, v))"
proof (induction n arbitrary: s)
  case (Suc n)
  obtain found s' where r: "rem s k v = (found, s')" by fastforce
  from rem_law [OF Suc.prems r] have l: "inv s'" "found \<longleftrightarrow> (k, v) \<in># bag s"
    "count (bag s') (k, v) = count (bag s) (k, v) - 1" by auto
  obtain m s'' where rr: "rems n s' k v = (m, s'')" by fastforce
  with Suc.IH [OF l(1) Suc.prems(2)] l(3) have m: "m = min n (count (bag s) (k, v) - 1)" by simp
  show ?case
  proof (cases "(k, v) \<in># bag s")
    case True
    then obtain c where "count (bag s) (k, v) = Suc c"
      by (metis count_greater_zero_iff gr0_conv_Suc)
    with True l(2) m r rr show ?thesis by simp
  next
    case False
    then have "count (bag s) (k, v) = 0" by (simp add: not_in_iff)
    with False l(2) m r rr show ?thesis by simp
  qed
qed simp

end

definition ds_put_st :: "bool \<Rightarrow> dstore \<Rightarrow> ptr \<Rightarrow> ptr \<Rightarrow> bool \<times> dstore" where
  "ds_put_st ok s k v = (case gpsee_ds_put ok s k v of (r, s', tr) \<Rightarrow> (r, s'))"

interpretation ds_map: assoc_store "\<lambda>s k. fst (gpsee_ds_get s k)" ds_put_st "\<lambda>s. \<not> is_otm s"
proof (unfold_locales, goal_cases)
  case (1 s ok k v s')
  then obtain tr where p: "gpsee_ds_put ok s k v = (True, s', tr)"
    by (auto simp: ds_put_st_def split: prod.splits)
  from put_get [OF 1(1) p] put_flags [OF p] 1(1) show ?case by (simp add: is_otm_def)
next
  case (2 ok s k v s')
  then show ?case using put_fails by (auto simp: ds_put_st_def split: prod.splits)
qed

definition ds_add_st :: "dstore \<Rightarrow> ptr \<Rightarrow> ptr \<Rightarrow> dstore" where
  "ds_add_st s k v = fst (snd (gpsee_ds_put True s k v))"

definition ds_rem_st :: "dstore \<Rightarrow> ptr \<Rightarrow> ptr \<Rightarrow> bool \<times> dstore" where
  "ds_rem_st s k v = (case gpsee_ds_match_remove s k v of (found, s', tr) \<Rightarrow> (found, s'))"

interpretation ds_otm: otm_bag ds_add_st ds_rem_st "\<lambda>s. ds_bag (ds_data s)" "\<lambda>k. k \<noteq> NULL" is_otm
proof (unfold_locales, goal_cases)
  case (1 s k v)
  then show ?case by (auto simp: ds_add_st_def gpsee_ds_put_def Let_def ds_bag_grow is_otm_def)
next
  case (2 s k v found s')
  obtain f d where r: "slots_match_remove (ds_data s) k v = (f, d)" by fastforce
  with 2 have "found = f" "s' = s\<lparr>ds_data := d\<rparr>"
    by (auto simp: ds_rem_st_def gpsee_ds_match_remove_def)
  with slots_match_remove_bag [OF 2(2) r] 2(1) show ?case by (simp add: is_otm_def)
qed

section \<open>Properties\<close>

text \<open>C28: After any sequence of other puts, a key of a store with unique keys still has the value
  last put under it: growing the slots, reusing empty ones and failing allocations lose nothing.\<close>

theorem ds_last_put_wins:
  assumes "\<not> is_otm s" and "ds_put_st True s k v = (True, s')" and "k \<noteq> NULL"
    and "k \<notin> (fst \<circ> snd) ` set ps"
  shows "fst (gpsee_ds_get (ds_map.puts ps s') k) = v"
  using ds_map.get_puts_other [OF ds_map.inv_put [OF assms(1,2)] assms(3,4)]
    ds_map.get_put_same [OF assms(1-3)] by simp

theorem ds_last_put_wins_witness:
  "fst (gpsee_ds_get (ds_map.puts [(True, 7, 70), (False, 8, 80), (True, 9, 90)]
      (snd (ds_put_st True \<lparr>ds_data = [(6, 60)], ds_monitor = 1, ds_grt = 0, ds_flags = 0\<rparr> 5 50))) 5) = 50"
  by (rule ds_last_put_wins [of "\<lparr>ds_data = [(6, 60)], ds_monitor = 1, ds_grt = 0, ds_flags = 0\<rparr>"])
    (simp_all add: is_otm_def ds_put_st_def gpsee_ds_put_def Let_def)

text \<open>A store into which pairs were only ever put holds every key once, so removing a key
  returns its value and makes it unknown, and leaves the other keys alone.\<close>

theorem ds_remove_from_compact:
  assumes "compact (ds_data s)" and "k \<noteq> NULL" and "gpsee_ds_remove s k = (v, s', tr)"
  shows "v = fst (gpsee_ds_get s k) \<and> fst (gpsee_ds_get s' k) = NULL
    \<and> (\<forall>k'. k' \<noteq> NULL \<longrightarrow> k' \<noteq> k \<longrightarrow> fst (gpsee_ds_get s' k') = fst (gpsee_ds_get s k'))"
proof -
  obtain val d where r: "slots_remove (ds_data s) k = (val, d)" by fastforce
  with assms(3) have "v = val" "s' = s\<lparr>ds_data := d\<rparr>" by (simp_all add: gpsee_ds_remove_def)
  with r slots_remove_result [OF assms(2), of "ds_data s"]
    slots_remove_get [OF assms(2) _ compact_distinct [OF assms(1)]] assms(2)
  show ?thesis by (simp add: gpsee_ds_get_def)
qed

theorem ds_remove_from_compact_witness:
  "fst (gpsee_ds_get (fst (snd (gpsee_ds_remove
      \<lparr>ds_data = [(6, 60), (7, 70), (0, 0)], ds_monitor = 1, ds_grt = 0, ds_flags = 0\<rparr> 6))) 6) = NULL"
proof -
  have "compact [(6, 60), (7, 70), (0, 0)]"
    unfolding compact_def by (rule exI [of _ "[(6, 60), (7, 70)]"], rule exI [of _ 1]) simp
  then show ?thesis
    using ds_remove_from_compact
      [of "\<lparr>ds_data = [(6, 60), (7, 70), (0, 0)], ds_monitor = 1, ds_grt = 0, ds_flags = 0\<rparr>" 6]
    by (simp add: gpsee_ds_remove_def)
qed

text \<open>Once something was removed this is lost: \<open>put\<close> fills the first empty slot without
  looking for the key behind it, the key is then stored twice, and removing it brings back
  the value it had before the last \<open>put\<close>.\<close>

theorem ds_stale_value_after_remove:
  "\<exists>s1 s2 s3 s4 s5 t1 t2 t3 t4 t5.
     gpsee_ds_put True \<lparr>ds_data = [], ds_monitor = m, ds_grt = g, ds_flags = 0\<rparr> 5 50 = (True, s1, t1)
   \<and> gpsee_ds_put True s1 6 60 = (True, s2, t2)
   \<and> gpsee_ds_remove s2 5 = (50, s3, t3)
   \<and> gpsee_ds_put True s3 6 61 = (True, s4, t4)
   \<and> gpsee_ds_remove s4 6 = (61, s5, t5) \<and> fst (gpsee_ds_get s5 6) = 60"
  by (simp add: gpsee_ds_put_def gpsee_ds_remove_def gpsee_ds_get_def is_otm_def ds_grow_def
      ds_newSize_def Let_def)



text \<open>Every operation of a data store leaves the monitors as it found them, and an iteration
  does so when its callback does -- except \<open>hasData\<close>, after which the calling thread
  is once more inside the store's monitor, for good.\<close>

theorem ds_monitor_discipline:
  "balanced (snd (gpsee_ds_get s k)) \<and> balanced (snd (snd (gpsee_ds_put ok s k v)))
   \<and> balanced (snd (snd (gpsee_ds_remove s k))) \<and> balanced (snd (snd (gpsee_ds_match_remove s k v)))
   \<and> balanced (snd (gpsee_ds_empty s))
   \<and> (ds_monitor s = nilMonitor
      \<or> held (ds_monitor s) d (snd (gpsee_ds_hasData s)) = Some (Suc d))"
  by (simp add: ds_traces_balanced gpsee_ds_hasData_def gpsee_enterMonitor_def)

text \<open>Iterating with a callback that leaves the store alone calls it on the pairs of the store,
  in slot order, each once, and stops at the first pair it refuses.\<close>

theorem forEach_calls_each_pair:
  assumes "\<And>k v s. get (fst (snd (cb k v s))) = get s"
    and "\<And>k v s. cb k v s = (ok k v, upd k v s, [])"
  shows "\<exists>tr. gpsee_ds_forEach get cb s =
    Some (list_all (\<lambda>(k, v). ok k v) (filter (\<lambda>x. fst x \<noteq> NULL) (ds_data (get s))),
          (let used = filter (\<lambda>x. fst x \<noteq> NULL) (ds_data (get s));
               seen = length (takeWhile (\<lambda>(k, v). ok k v) used)
           in fold (\<lambda>(k, v). upd k v) (take (Suc seen) used) s), tr)"
proof -
  have v: "visit cb data s tr =
      (let used = filter (\<lambda>x. fst x \<noteq> NULL) data
       in (list_all (\<lambda>(k, v). ok k v) used,
           fold (\<lambda>(k, v). upd k v) (take (Suc (length (takeWhile (\<lambda>(k, v). ok k v) used))) used) s, tr))"
    for data s tr
    by (induction data arbitrary: s tr) (auto simp: assms(2) Let_def)
  show ?thesis
    using forEach_visit [of get cb, OF assms(1)] by (simp add: v Let_def)
qed

theorem forEach_calls_each_pair_witness:
  "\<exists>tr. gpsee_ds_forEach (\<lambda>s. fst s) (\<lambda>k v s. (v < 60, (fst s, snd s @ [k]), []))
      (\<lparr>ds_data = [(5, 50), (0, 9), (6, 60), (7, 70)], ds_monitor = 1, ds_grt = 0, ds_flags = 0\<rparr>, []) =
    Some (False, (\<lparr>ds_data = [(5, 50), (0, 9), (6, 60), (7, 70)], ds_monitor = 1, ds_grt = 0, ds_flags = 0\<rparr>,
      [5, 6]), tr)"
  using forEach_calls_each_pair [of "\<lambda>s. fst s" "\<lambda>k v s. (v < 60, (fst s, snd s @ [k]), [])"
      "\<lambda>k v. v < 60" "\<lambda>k v s. (fst s, snd s @ [k])"
      "(\<lparr>ds_data = [(5, 50), (0, 9), (6, 60), (7, 70)], ds_monitor = 1, ds_grt = 0, ds_flags = 0\<rparr>, [])"]
  by (simp add: Let_def)

end
