(* ===== verification/GCCallbacks.thy ===== *)
theory GCCallbacks
  imports DataStore
begin

text \<open>
  The garbage-collector callbacks of gpsee\_gccallbacks.c: a data store of the runtime with
  one-to-many keys, whose keys are callback functions and whose values are the realms they
  run for.  The state of an operation is that store (\<open>grt->gcCallbackList\<close>).
\<close>

section \<open>Operations\<close>

definition gpsee_addGCCallback ::
    "bool \<Rightarrow> dstore \<Rightarrow> ptr \<Rightarrow> ptr \<Rightarrow> bool \<times> dstore \<times> pr_trace" where
  "gpsee_addGCCallback realloc_ok gcCallbackList realm cb =
     gpsee_ds_put realloc_ok gcCallbackList cb realm"

definition gpsee_removeGCCallback :: "dstore \<Rightarrow> ptr \<Rightarrow> ptr \<Rightarrow> bool \<times> dstore \<times> pr_trace" where
  "gpsee_removeGCCallback gcCallbackList realm cb = gpsee_ds_match_remove gcCallbackList cb realm"

text \<open>The realm of the pair is one of the runtime that owns the store; it is dereferenced to
  find that runtime, so it is not NULL when it is the realm looked for.\<close>

definition gcCallbackRemoveAllForRealm_cb :: "ptr \<Rightarrow> dstore forEach_fn" where
  "gcCallbackRemoveAllForRealm_cb checkRealm fn thisRealm s =
     (if thisRealm = checkRealm then
        (case gpsee_removeGCCallback s thisRealm fn of (ok, s', tr) \<Rightarrow>
           if \<not> ok then (False, s', tr) else (True, s', tr))
      else (True, s, []))"

definition gpsee_removeAllGCCallbacks_forRealm ::
    "dstore \<Rightarrow> ptr \<Rightarrow> (bool \<times> dstore \<times> pr_trace) option" where
  "gpsee_removeAllGCCallbacks_forRealm gcCallbackList realm =
     gpsee_ds_forEach (\<lambda>s. s) (gcCallbackRemoveAllForRealm_cb realm) gcCallbackList"

text \<open>The callbacks are code outside the store: \<open>run fn realm status\<close> is what calling the
  function pointer \<open>fn\<close> does to the program state.\<close>

datatype JSGCStatus = JSGC_BEGIN | JSGC_END | JSGC_MARK_END | JSGC_FINALIZE_END

definition gcCallback_cb ::
    "(ptr \<Rightarrow> ptr \<Rightarrow> JSGCStatus \<Rightarrow> 's \<Rightarrow> bool \<times> 's \<times> pr_trace) \<Rightarrow> JSGCStatus \<Rightarrow> 's forEach_fn" where
  "gcCallback_cb run status fn realm s = run fn realm status s"

definition gpsee_gcCallback ::
    "(ptr \<Rightarrow> ptr \<Rightarrow> JSGCStatus \<Rightarrow> 's \<Rightarrow> bool \<times> 's \<times> pr_trace) \<Rightarrow> ('s \<Rightarrow> dstore) \<Rightarrow>
     JSGCStatus \<Rightarrow> 's \<Rightarrow> (bool \<times> 's \<times> pr_trace) option" where
  "gpsee_gcCallback run gcCallbackList status s =
     gpsee_ds_forEach gcCallbackList (gcCallback_cb run status) s"

section \<open>Removing all the callbacks of a realm while iterating\<close>

lemma slots_match_remove_at:
  "(k, v) \<notin> set pre \<Longrightarrow>
   slots_match_remove (pre @ (k, v) # post) k v = (True, pre @ (NULL, v) # post)"
proof (induction pre)
  case (Cons x pre)
  obtain a b where x: "x = (a, b)" by (cases x)
  from Cons.prems have "\<not> (a = k \<and> b = v)" "(k, v) \<notin> set pre" by (auto simp: x)
  with Cons.IH show ?case by (auto simp: x)
qed simp

definition drop_realm :: "ptr \<Rightarrow> slot \<Rightarrow> slot" where
  "drop_realm realm x = (if snd x = realm then (NULL, snd x) else x)"

lemma removeAll_loop:
  assumes "ds_data s = pre @ post" and "\<And>k. (k, realm) \<in> set pre \<Longrightarrow> k = NULL"
  shows "\<exists>tr'. forEach_loop (\<lambda>s. s) (gcCallbackRemoveAllForRealm_cb realm) (length pre) s tr
       = Some (True, s\<lparr>ds_data := pre @ map (drop_realm realm) post\<rparr>, tr @ tr') \<and> balanced tr'"
  using assms
proof (induction post arbitrary: pre s tr)
  case Nil
  then show ?case by (auto simp: forEach_loop_done intro!: exI [of _ "[]"] balanced_Nil)
next
  case (Cons x post)
  obtain k v where x: "x = (k, v)" by (cases x)
  from Cons.prems(1) have nth: "ds_data s ! length pre = (k, v)" "length pre < ds_size s"
    by (simp_all add: x)
  show ?case
  proof (cases "k \<noteq> NULL \<and> v = realm")
    case True
    then have v: "v = realm" by simp
    let ?s = "s\<lparr>ds_data := (pre @ [(NULL, v)]) @ post\<rparr>"
    let ?call = "gpsee_enterMonitor (ds_monitor s) @ gpsee_leaveMonitor (ds_monitor s)"
    have "(k, v) \<notin> set pre" using Cons.prems(2) True by auto
    then have cb: "gcCallbackRemoveAllForRealm_cb realm k v s = (True, ?s, ?call)"
      using True Cons.prems(1) slots_match_remove_at [of k v pre post]
      by (simp add: gcCallbackRemoveAllForRealm_cb_def gpsee_removeGCCallback_def
          gpsee_ds_match_remove_def x)
    from Cons.IH [of ?s "pre @ [(NULL, v)]" "tr @ ?call"] Cons.prems(2) obtain tr' where
      "forEach_loop (\<lambda>s. s) (gcCallbackRemoveAllForRealm_cb realm) (Suc (length pre)) ?s (tr @ ?call)
       = Some (True, ?s\<lparr>ds_data := (pre @ [(NULL, v)]) @ map (drop_realm realm) post\<rparr>,
           (tr @ ?call) @ tr')" "balanced tr'"
      by auto
    moreover have "balanced (?call @ tr')"
      using calculation(2) by (intro balanced_append [OF balanced_enter_leave])
    ultimately show ?thesis
      by (subst forEach_step, intro exI [of _ "?call @ tr'"])
        (use True in \<open>simp add: nth cb [unfolded v] v x drop_realm_def\<close>)
  next
    case False
    then have dr: "drop_realm realm x = x" by (auto simp: drop_realm_def x)
    from Cons.IH [of s "pre @ [x]" tr] Cons.prems False obtain tr' where
      "forEach_loop (\<lambda>s. s) (gcCallbackRemoveAllForRealm_cb realm) (Suc (length pre)) s tr
       = Some (True, s\<lparr>ds_data := (pre @ [x]) @ map (drop_realm realm) post\<rparr>, tr @ tr')" "balanced tr'"
      by (auto simp: x)
    then show ?thesis
      using False dr by (subst forEach_step)
        (auto simp: nth x gcCallbackRemoveAllForRealm_cb_def)
  qed
qed

lemma bag_drop_realm: "ds_bag (map (drop_realm realm) data) = filter_mset (\<lambda>x. snd x \<noteq> realm) (ds_bag data)"
  by (induction data) (auto simp: drop_realm_def ds_bag_def)

text \<open>Removing all the callbacks of a realm, which changes the store it is iterating over,
  succeeds and removes every pair of that realm (repeated ones too) and no pair of another
  realm; the store's monitor is released as often as it is entered.\<close>

theorem removeAllGCCallbacks_exact:
  "\<exists>s' tr. gpsee_removeAllGCCallbacks_forRealm s realm = Some (True, s', tr)
    \<and> ds_bag (ds_data s') = filter_mset (\<lambda>x. snd x \<noteq> realm) (ds_bag (ds_data s))
    \<and> ds_flags s' = ds_flags s \<and> balanced tr"
proof -
  from removeAll_loop [of s "[]" "ds_data s" realm "gpsee_enterMonitor (ds_monitor s)"] obtain tr where
    l: "forEach_loop (\<lambda>s. s) (gcCallbackRemoveAllForRealm_cb realm) 0 s (gpsee_enterMonitor (ds_monitor s))
      = Some (True, s\<lparr>ds_data := map (drop_realm realm) (ds_data s)\<rparr>,
          gpsee_enterMonitor (ds_monitor s) @ tr)" and b: "balanced tr" by auto
  show ?thesis
    using balanced_bracket [OF b, of "ds_monitor s"]
    by (simp add: gpsee_removeAllGCCallbacks_forRealm_def gpsee_ds_forEach_def l bag_drop_realm)
qed

end
