(* ===== verification/ModuleMemo.thy ===== *)
theory ModuleMemo
  imports Splay DataStore GCCallbacks
begin

text \<open>
  The module handles of gpsee\_modules.c and their life cycle: the memo of the modules of a
  realm, the information attached to a module's scope object, the two-phase release
  (out of the memo and onto a list, then freed when the garbage collector has finished),
  the marking of live modules, and the final clean-up.

  The state \<open>mst\<close> holds the realm's fields the code uses, the heap of module handles
  (\<open>handles\<close>, \<open>None\<close> for memory that is not allocated), the private slots of scope
  objects (\<open>scope_info\<close>) and a log of the calls that matter outside (\<open>events\<close>).
  An operation has the value \<open>None\<close> when it reads or writes through NULL or a freed
  handle.  Calls into the JavaScript engine and into native modules are parameters: the
  record \<open>env\<close> says how each of them turns out; its functions also take the current
  \<open>clock\<close>, so that the same call may turn out differently each time.
\<close>

section \<open>State\<close>

record module_handle =
  cname :: string
  DSOHnd :: ptr
  init :: ptr
  fini :: ptr
  exports :: ptr
  scope :: ptr
  script :: ptr
  scrobj :: ptr
  mhf_loaded :: bool
  released :: bool
  link :: ptr

definition calloc_handle :: module_handle where
  "calloc_handle =
     \<lparr>cname = '''', DSOHnd = NULL, init = NULL, fini = NULL, exports = NULL, scope = NULL,
      script = NULL, scrobj = NULL, mhf_loaded = False, released = False, link = NULL\<rparr>"

datatype jsval =
    JSVAL_VOID
  | JSVAL_NULL
  | OBJECT_TO_JSVAL ptr
  | STRING_TO_JSVAL string
  | PRIVATE_TO_JSVAL ptr

datatype event =
    EvInit ptr ptr
  | EvFini ptr ptr bool
  | EvDlclose ptr
  | EvFree ptr
  | EvMark ptr
  | EvExec ptr ptr
  | EvSetGlobal ptr
  | EvGC
  | EvThrow string

record mst =
  modules :: "(string, ptr) stree"
  unreachableModule_llist :: ptr
  globalObject :: ptr
  userModulePath :: ptr
  modulePath :: "string list"
  moduleJail :: "string option"
  moduleData :: "dstore option"
  programModule :: ptr
  programModuleDir :: "string option"
  requireDotMain :: ptr
  handles :: "ptr \<Rightarrow> module_handle option"
  scope_info :: "ptr \<Rightarrow> ptr option"
  props :: "ptr \<Rightarrow> string \<Rightarrow> (jsval \<times> nat) option"
  slots :: "ptr \<Rightarrow> nat \<Rightarrow> jsval"
  script_argv :: "string list option"
  requireLockDepth :: nat
  next_ptr :: ptr
  clock :: nat
  events :: "event list"

record env =
  js_ok :: "string \<Rightarrow> nat \<Rightarrow> bool"
  fini_ret :: "ptr \<Rightarrow> ptr \<Rightarrow> bool \<Rightarrow> nat \<Rightarrow> bool"

text \<open>A JSAPI or libc call that can fail: whether it succeeds at this time.\<close>

definition call :: "('e) env_scheme \<Rightarrow> string \<Rightarrow> mst \<Rightarrow> bool \<times> mst" where
  "call e f s = (js_ok e f (clock s), s\<lparr>clock := Suc (clock s)\<rparr>)"

text \<open>A call that allocates: NULL, or a pointer that is not in use.\<close>

definition call_new :: "('e) env_scheme \<Rightarrow> string \<Rightarrow> mst \<Rightarrow> ptr \<times> mst" where
  "call_new e f s =
     (case call e f s of (ok, s') \<Rightarrow>
        if ok then (next_ptr s', s'\<lparr>next_ptr := Suc (next_ptr s')\<rparr>) else (NULL, s'))"

definition log_event :: "event \<Rightarrow> mst \<Rightarrow> mst" where
  "log_event ev s = s\<lparr>events := events s @ [ev]\<rparr>"

definition upd_handle :: "ptr \<Rightarrow> (module_handle \<Rightarrow> module_handle) \<Rightarrow> mst \<Rightarrow> mst option" where
  "upd_handle m f s = map_option (\<lambda>h. s\<lparr>handles := (handles s)(m \<mapsto> f h)\<rparr>) (handles s m)"

section \<open>Handles and the memo\<close>

definition gpsee_getModuleCName :: "ptr \<Rightarrow> mst \<Rightarrow> string option option" where
  "gpsee_getModuleCName module s =
     (if module \<noteq> NULL then map_option (\<lambda>h. Some (cname h)) (handles s module) else Some None)"

definition findModuleHandle :: "string \<Rightarrow> mst \<Rightarrow> ptr \<times> mst" where
  "findModuleHandle name s =
     (case SPLAY_FIND name (modules s) of (t, r) \<Rightarrow>
        (case r of Some m \<Rightarrow> m | None \<Rightarrow> NULL, s\<lparr>modules := t\<rparr>))"

definition markModuleUnused :: "('e) env_scheme \<Rightarrow> ptr \<Rightarrow> mst \<Rightarrow> mst option" where
  "markModuleUnused e module s =
     do { h \<leftarrow> handles s module;
          let (h, s) =
            (if mhf_loaded h \<and> exports h \<noteq> NULL \<and> fini h \<noteq> NULL
             then (if fini_ret e (fini h) (exports h) True (clock s) then h\<lparr>fini := NULL\<rparr> else h,
                   (log_event (EvFini module (exports h) True) s)\<lparr>clock := Suc (clock s)\<rparr>)
             else (h, s));
          Some (s\<lparr>handles := (handles s)(module \<mapsto>
            h\<lparr>scope := NULL, scrobj := NULL, exports := NULL, mhf_loaded := False\<rparr>)\<rparr>) }"

definition destroyModuleHandle :: "ptr \<Rightarrow> mst \<Rightarrow> (ptr \<times> mst) option" where
  "destroyModuleHandle module s =
     do { h \<leftarrow> handles s module;
          let s = (if DSOHnd h \<noteq> NULL then log_event (EvDlclose (DSOHnd h)) s else s);
          let s = log_event (EvFree module) s;
          Some (link h, s\<lparr>handles := (handles s)(module := None)\<rparr>) }"

definition releaseModuleHandle :: "('e) env_scheme \<Rightarrow> ptr \<Rightarrow> mst \<Rightarrow> mst option" where
  "releaseModuleHandle e module s =
     do { h \<leftarrow> handles s module;
          if released h then Some s
          else do { s \<leftarrow> upd_handle module (\<lambda>h. h\<lparr>released := True\<rparr>) s;
                    let s = s\<lparr>modules := SPLAY_REMOVE (cname h) (modules s)\<rparr>;
                    s \<leftarrow> markModuleUnused e module s;
                    s \<leftarrow> upd_handle module (\<lambda>h. h\<lparr>link := unreachableModule_llist s\<rparr>) s;
                    Some (s\<lparr>unreachableModule_llist := module\<rparr>) } }"

section \<open>Scope information\<close>

definition getModuleScopeInfo :: "ptr \<Rightarrow> mst \<Rightarrow> ptr option" where
  "getModuleScopeInfo moduleScope s = scope_info s moduleScope"

definition setModuleScopeInfo :: "('e) env_scheme \<Rightarrow> ptr \<Rightarrow> ptr \<Rightarrow> mst \<Rightarrow> bool \<times> mst" where
  "setModuleScopeInfo e moduleScope module s =
     (case call e ''JS_malloc'' s of (ok, s) \<Rightarrow>
        if \<not> ok then (False, s)
        else (True, s\<lparr>scope_info := (scope_info s)(moduleScope \<mapsto> module)\<rparr>))"

text \<open>The class and the global object of the context are what the engine says they are; the
  realm of a scope is the one this state models, or none.\<close>

definition gpsee_getModuleScopeRealm :: "(ptr \<Rightarrow> bool) \<Rightarrow> ptr \<Rightarrow> ptr \<Rightarrow> mst \<Rightarrow> bool" where
  "gpsee_getModuleScopeRealm is_scope_class contextGlobal moduleScope s =
     (let moduleScope = (if moduleScope = NULL then contextGlobal else moduleScope)
      in if moduleScope = NULL then False
         else if \<not> is_scope_class moduleScope then False
         else (case scope_info s moduleScope of None \<Rightarrow> False | Some _ \<Rightarrow> True))"

text \<open>The finalizer frees the information block, after which the object is gone.\<close>

definition finalizeModuleScope :: "('e) env_scheme \<Rightarrow> ptr \<Rightarrow> mst \<Rightarrow> mst option" where
  "finalizeModuleScope e moduleScope s =
     (case getModuleScopeInfo moduleScope s of
        None \<Rightarrow> Some s
      | Some module \<Rightarrow>
          do { s \<leftarrow> releaseModuleHandle e module s;
               Some (s\<lparr>scope_info := (scope_info s)(moduleScope := None)\<rparr>) })"

section \<open>The garbage-collector callback\<close>

text \<open>The loop at the end of a collection; a cyclic list would keep it running for ever.\<close>

partial_function (option) destroy_unreachable :: "mst \<Rightarrow> mst option" where
  "destroy_unreachable s =
     (if unreachableModule_llist s = NULL then Some s
      else (case destroyModuleHandle (unreachableModule_llist s) s of
              None \<Rightarrow> None
            | Some (n, s') \<Rightarrow> destroy_unreachable (s'\<lparr>unreachableModule_llist := n\<rparr>)))"

text \<open>What is marked for one module: exports, scope, script object.\<close>

definition module_marks :: "module_handle \<Rightarrow> ptr list" where
  "module_marks h =
     (if exports h \<noteq> NULL \<and> (\<not> mhf_loaded h \<or> fini h \<noteq> NULL) then [exports h] else [])
     @ (if scope h \<noteq> NULL \<and> \<not> mhf_loaded h then [scope h] else [])
     @ (if scrobj h \<noteq> NULL then [scrobj h] else [])"

definition mark_body :: "(ptr \<Rightarrow> module_handle option) \<Rightarrow> ptr \<Rightarrow> ptr list option \<Rightarrow> ptr list option" where
  "mark_body hs module acc =
     do { marks \<leftarrow> acc; h \<leftarrow> hs module; Some (marks @ module_marks h) }"

definition moduleGCCallback :: "JSGCStatus \<Rightarrow> mst \<Rightarrow> (bool \<times> mst) option" where
  "moduleGCCallback status s =
     do { s \<leftarrow> (if status = JSGC_FINALIZE_END then destroy_unreachable s else Some s);
          if status \<noteq> JSGC_MARK_END then Some (True, s)
          else do { (t, acc) \<leftarrow> SPLAY_FOREACH (mark_body (handles s)) (modules s) (Some []);
                    marks \<leftarrow> acc;
                    Some (True, s\<lparr>modules := t, events := events s @ map EvMark marks\<rparr>) } }"

section \<open>Final clean-up\<close>

text \<open>The next element is looked up before the current one leaves the tree.  After the scope has
  been finalized its pointer is read again from the handle, where it is NULL by then.\<close>

fun cleanup_loop :: "('e) env_scheme \<Rightarrow> nat \<Rightarrow> (string \<times> ptr) option \<Rightarrow> mst \<Rightarrow> mst option" where
  "cleanup_loop e n None s = Some s"
| "cleanup_loop e 0 (Some x) s = None"
| "cleanup_loop e (Suc n) (Some (name, module)) s =
     (case SPLAY_NEXT name (modules s) of (t, nextModule) \<Rightarrow>
        do { let s = s\<lparr>modules := t\<rparr>;
             h \<leftarrow> handles s module;
             s \<leftarrow> (if scope h \<noteq> NULL
                   then do { s \<leftarrow> finalizeModuleScope e (scope h) s;
                             h \<leftarrow> handles s module;
                             if scope h = NULL then None
                             else Some (s\<lparr>scope_info := (scope_info s)(scope h := None)\<rparr>) }
                   else releaseModuleHandle e module s);
             cleanup_loop e n nextModule s })"

definition gpsee_moduleSystemCleanup :: "('e) env_scheme \<Rightarrow> mst \<Rightarrow> mst option" where
  "gpsee_moduleSystemCleanup e s =
     (case SPLAY_MIN (modules s) of (t, x) \<Rightarrow>
        cleanup_loop e (size t) x (s\<lparr>modules := t\<rparr>))"

section \<open>The invariant of the module system\<close>

text \<open>
  \<open>memo_of\<close> is the memo as a map from canonical names to handles.  \<open>chain\<close>: the list of
  unreachable modules is linked through \<open>link\<close>, in this order, and ends.
\<close>

definition memo_of :: "mst \<Rightarrow> string \<Rightarrow> ptr option" where
  "memo_of s = map_of (inorder (modules s))"

fun chain :: "(ptr \<Rightarrow> module_handle option) \<Rightarrow> ptr \<Rightarrow> ptr list \<Rightarrow> bool" where
  "chain hs p [] \<longleftrightarrow> p = NULL"
| "chain hs p (q # qs) \<longleftrightarrow>
     p = q \<and> q \<noteq> NULL \<and> (\<exists>h. hs q = Some h \<and> released h \<and> chain hs (link h) qs)"

definition memo_ok :: "mst \<Rightarrow> bool" where
  "memo_ok s \<longleftrightarrow> keys_sorted (modules s) \<and>
     (\<forall>n m. memo_of s n = Some m \<longrightarrow> m \<noteq> NULL \<and>
        (\<exists>h. handles s m = Some h \<and> cname h = n \<and> \<not> released h))"

definition mod_inv :: "mst \<Rightarrow> ptr list \<Rightarrow> bool" where
  "mod_inv s ps \<longleftrightarrow> memo_ok s \<and> chain (handles s) (unreachableModule_llist s) ps \<and> distinct ps
     \<and> (\<forall>m h. handles s m = Some h \<longrightarrow> released h \<longrightarrow> m \<in> set ps)
     \<and> handles s NULL = None \<and> (\<forall>m \<ge> next_ptr s. handles s m = None) \<and> 0 < next_ptr s"

lemma memo_handle:
  "mod_inv s ps \<Longrightarrow> memo_of s n = Some m \<Longrightarrow>
   m \<noteq> NULL \<and> (\<exists>h. handles s m = Some h \<and> cname h = n \<and> \<not> released h)"
  by (simp add: mod_inv_def memo_ok_def)

lemma chain_cong:
  "(\<And>q. q \<in> set qs \<Longrightarrow> map_option (\<lambda>h. (released h, link h)) (hs q) = map_option (\<lambda>h. (released h, link h)) (hs' q))
   \<Longrightarrow> chain hs p qs = chain hs' p qs"
proof (induction qs arbitrary: p)
  case (Cons q qs)
  have "map_option (\<lambda>h. (released h, link h)) (hs q) = map_option (\<lambda>h. (released h, link h)) (hs' q)"
    using Cons.prems by simp
  moreover have "\<And>p. chain hs p qs = chain hs' p qs" using Cons by simp
  ultimately show ?case by (cases "hs q"; cases "hs' q") auto
qed simp

lemma chain_update: "m \<notin> set qs \<Longrightarrow> chain (hs(m := x)) p qs = chain hs p qs"
  by (rule chain_cong) auto

lemma chain_unreleased: "chain hs p qs \<Longrightarrow> q \<in> set qs \<Longrightarrow> \<exists>h. hs q = Some h \<and> released h"
  by (induction qs arbitrary: p) auto

lemma find_spec:
  "keys_sorted (modules s) \<Longrightarrow> findModuleHandle n s = (m, s') \<Longrightarrow>
   m = (case memo_of s n of Some m \<Rightarrow> m | None \<Rightarrow> NULL) \<and> (\<exists>t. s' = s\<lparr>modules := t\<rparr>
     \<and> keys_sorted t \<and> map_of (inorder t) = memo_of s)"
proof -
  assume ks: "keys_sorted (modules s)" and f: "findModuleHandle n s = (m, s')"
  obtain t r where t: "SPLAY_FIND n (modules s) = (t, r)" by fastforce
  from memo.find_law [OF ks t] f t show ?thesis
    by (auto simp: findModuleHandle_def memo_of_def)
qed

lemma find_inv:
  "mod_inv s ps \<Longrightarrow> findModuleHandle n s = (m, s') \<Longrightarrow> mod_inv s' ps \<and> memo_of s' = memo_of s"
  using find_spec [of s n m s'] by (auto simp: mod_inv_def memo_ok_def memo_of_def)

text \<open>The event a release adds: the finisher, if the module is loaded and has one.\<close>

definition fini_events :: "ptr \<Rightarrow> module_handle \<Rightarrow> event list" where
  "fini_events m h =
     (if mhf_loaded h \<and> exports h \<noteq> NULL \<and> fini h \<noteq> NULL then [EvFini m (exports h) True] else [])"

definition unused :: "module_handle \<Rightarrow> module_handle" where
  "unused h = h\<lparr>scope := NULL, scrobj := NULL, exports := NULL, mhf_loaded := False\<rparr>"

text \<open>Everything of the state but the handles, the log, the clock and what is named.\<close>

lemma markModuleUnused_spec:
  assumes "handles s m = Some h"
  shows "\<exists>f c. markModuleUnused e m s = Some (s\<lparr>handles := (handles s)(m \<mapsto> unused (h\<lparr>fini := f\<rparr>)),
      events := events s @ fini_events m h, clock := c\<rparr>)"
proof (cases "mhf_loaded h \<and> exports h \<noteq> NULL \<and> fini h \<noteq> NULL")
  case True
  show ?thesis
  proof (cases "fini_ret e (fini h) (exports h) True (clock s)")
    case True': True
    show ?thesis
      by (rule exI [of _ NULL], rule exI [of _ "Suc (clock s)"], insert True True' assms)
        (simp add: markModuleUnused_def fini_events_def unused_def log_event_def)
  next
    case False
    show ?thesis
      by (rule exI [of _ "fini h"], rule exI [of _ "Suc (clock s)"], insert True False assms)
        (simp add: markModuleUnused_def fini_events_def unused_def log_event_def)
  qed
next
  case False
  show ?thesis
    by (rule exI [of _ "fini h"], rule exI [of _ "clock s"], insert False assms)
      (auto simp: markModuleUnused_def fini_events_def unused_def)
qed

lemma release_spec:
  assumes "handles s m = Some h" and "\<not> released h"
  shows "\<exists>f c. releaseModuleHandle e m s = Some (s\<lparr>
      modules := SPLAY_REMOVE (cname h) (modules s),
      handles := (handles s)(m \<mapsto> (unused (h\<lparr>released := True, fini := f\<rparr>))\<lparr>link := unreachableModule_llist s\<rparr>),
      unreachableModule_llist := m, events := events s @ fini_events m h, clock := c\<rparr>)"
proof -
  let ?s = "s\<lparr>handles := (handles s)(m \<mapsto> h\<lparr>released := True\<rparr>), modules := SPLAY_REMOVE (cname h) (modules s)\<rparr>"
  have "handles ?s m = Some (h\<lparr>released := True\<rparr>)" by simp
  from markModuleUnused_spec [OF this, of e] obtain f c where
    mk: "markModuleUnused e m ?s = Some (?s\<lparr>handles := (handles ?s)(m \<mapsto> unused (h\<lparr>released := True\<rparr>\<lparr>fini := f\<rparr>)),
      events := events ?s @ fini_events m (h\<lparr>released := True\<rparr>), clock := c\<rparr>)" by blast
  show ?thesis
    by (rule exI [of _ f], rule exI [of _ c], insert assms mk)
      (auto simp: releaseModuleHandle_def upd_handle_def unused_def fini_events_def intro!: mst.equality)
qed

lemma release_again: "handles s m = Some h \<Longrightarrow> released h \<Longrightarrow> releaseModuleHandle e m s = Some s"
  by (simp add: releaseModuleHandle_def)

lemma memo_remove:
  assumes "keys_sorted (modules s)"
  shows "keys_sorted (SPLAY_REMOVE n (modules s))
    \<and> map_of (inorder (SPLAY_REMOVE n (modules s))) = (memo_of s)(n := None)"
  using memo.remove_law [OF assms, of n] by (simp add: memo_of_def)

lemma release_inv:
  assumes inv: "mod_inv s ps" and h: "handles s m = Some h" and r: "\<not> released h"
    and m: "memo_of s (cname h) \<noteq> Some m \<longrightarrow> m \<notin> ran (memo_of s)"
  shows "\<exists>s'. releaseModuleHandle e m s = Some s' \<and> mod_inv s' (m # ps)
    \<and> memo_of s' = (memo_of s)(cname h := None)
    \<and> events s' = events s @ fini_events m h
    \<and> (\<forall>q. q \<noteq> m \<longrightarrow> handles s' q = handles s q)
    \<and> (\<exists>h'. handles s' m = Some h' \<and> cname h' = cname h \<and> DSOHnd h' = DSOHnd h \<and> released h'
        \<and> exports h' = NULL \<and> scope h' = NULL)
    \<and> scope_info s' = scope_info s \<and> next_ptr s' = next_ptr s"
proof -
  from release_spec [OF h r, of e] obtain f c where s':
    "releaseModuleHandle e m s = Some (s\<lparr>
      modules := SPLAY_REMOVE (cname h) (modules s),
      handles := (handles s)(m \<mapsto> (unused (h\<lparr>released := True, fini := f\<rparr>))\<lparr>link := unreachableModule_llist s\<rparr>),
      unreachableModule_llist := m, events := events s @ fini_events m h, clock := c\<rparr>)" by blast
  have memo_s: "memo_ok s" using inv by (simp add: mod_inv_def)
  then have ks: "keys_sorted (modules s)" by (simp add: memo_ok_def)
  have mem: "\<forall>n. n \<noteq> cname h \<longrightarrow> memo_of s n \<noteq> Some m"
  proof (cases "memo_of s (cname h) = Some m")
    case True
    show ?thesis
    proof (intro allI impI notI)
      fix n
      assume n: "n \<noteq> cname h" "memo_of s n = Some m"
      with memo_s have "\<exists>h. handles s m = Some h \<and> cname h = n" by (auto simp: memo_ok_def)
      with h n(1) show False by simp
    qed
  next
    case False
    with m show ?thesis by (auto simp: ran_def)
  qed
  have notin: "m \<notin> set ps" using inv r h chain_unreleased by (fastforce simp: mod_inv_def)
  have mnz: "m \<noteq> NULL" using inv h by (metis mod_inv_def option.distinct(1))
  show ?thesis
  proof (rule exI, rule conjI [OF s'], intro conjI)
    show "mod_inv (s\<lparr>modules := SPLAY_REMOVE (cname h) (modules s),
      handles := (handles s)(m \<mapsto> (unused (h\<lparr>released := True, fini := f\<rparr>))\<lparr>link := unreachableModule_llist s\<rparr>),
      unreachableModule_llist := m, events := events s @ fini_events m h, clock := c\<rparr>) (m # ps)"
      using inv memo_remove [OF ks, of "cname h"] mem notin mnz h
      by (auto simp: mod_inv_def memo_ok_def memo_of_def chain_update unused_def)
  qed (use memo_remove [OF ks, of "cname h"] in \<open>simp_all add: memo_of_def unused_def\<close>)
qed

section \<open>Freeing the unreachable modules\<close>

definition free_events :: "(ptr \<Rightarrow> module_handle option) \<Rightarrow> ptr \<Rightarrow> event list" where
  "free_events hs m =
     (case hs m of None \<Rightarrow> []
      | Some h \<Rightarrow> (if DSOHnd h \<noteq> NULL then [EvDlclose (DSOHnd h)] else []) @ [EvFree m])"

lemma free_events_update: "m \<noteq> q \<Longrightarrow> free_events (hs(m := x)) q = free_events hs q"
  by (simp add: free_events_def)

lemma destroy_unreachable_spec:
  "chain (handles s) (unreachableModule_llist s) ps \<Longrightarrow> distinct ps \<Longrightarrow>
   \<exists>s'. destroy_unreachable s = Some s' \<and> unreachableModule_llist s' = NULL
     \<and> modules s' = modules s \<and> next_ptr s' = next_ptr s \<and> scope_info s' = scope_info s
     \<and> (\<forall>m. handles s' m = (if m \<in> set ps then None else handles s m))
     \<and> events s' = events s @ concat (map (free_events (handles s)) ps)"
proof (induction ps arbitrary: s)
  case Nil
  then show ?case by (subst destroy_unreachable.simps) simp
next
  case (Cons q ps)
  from Cons.prems obtain h where q: "unreachableModule_llist s = q" "q \<noteq> NULL" "handles s q = Some h"
    and c: "chain (handles s) (link h) ps" and d: "q \<notin> set ps" "distinct ps" by auto
  obtain s1 where ds: "destroyModuleHandle q s = Some (link h, s1)"
    and s1: "handles s1 = (handles s)(q := None)" "modules s1 = modules s" "next_ptr s1 = next_ptr s"
      "scope_info s1 = scope_info s" "events s1 = events s @ free_events (handles s) q"
    using q by (auto simp: destroyModuleHandle_def log_event_def free_events_def Let_def)
  let ?s = "s1\<lparr>unreachableModule_llist := link h\<rparr>"
  have "chain (handles ?s) (unreachableModule_llist ?s) ps" using c d s1 by (simp add: chain_update)
  from Cons.IH [OF this d(2)] obtain s' where s': "destroy_unreachable ?s = Some s'"
    "unreachableModule_llist s' = NULL" "modules s' = modules s" "next_ptr s' = next_ptr s"
    "scope_info s' = scope_info s"
    "\<forall>m. handles s' m = (if m \<in> set ps then None else handles ?s m)"
    "events s' = events ?s @ concat (map (free_events (handles ?s)) ps)"
    by (simp add: s1(2-4)) blast
  have "map (free_events ((handles s)(q := None))) ps = map (free_events (handles s)) ps"
    using d(1) by (intro map_cong refl) (auto simp: free_events_def)
  then have "events s' = events s @ concat (map (free_events (handles s)) (q # ps))"
    using s'(7) s1(1,5) by (simp del: fun_upd_apply map_eq_conv)
  moreover have "destroy_unreachable s = Some s'"
    using q ds s'(1) by (subst destroy_unreachable.simps) simp
  ultimately show ?case using s' s1 by auto
qed

fun frees :: "event list \<Rightarrow> ptr list" where
  "frees [] = []"
| "frees (EvFree m # evs) = m # frees evs"
| "frees (_ # evs) = frees evs"

fun dlcloses :: "event list \<Rightarrow> ptr list" where
  "dlcloses [] = []"
| "dlcloses (EvDlclose d # evs) = d # dlcloses evs"
| "dlcloses (_ # evs) = dlcloses evs"

lemma frees_append [simp]: "frees (xs @ ys) = frees xs @ frees ys"
  by (induction xs rule: frees.induct) auto

lemma dlcloses_append [simp]: "dlcloses (xs @ ys) = dlcloses xs @ dlcloses ys"
  by (induction xs rule: dlcloses.induct) auto

lemma frees_concat:
  "\<forall>m \<in> set ps. hs m \<noteq> None \<Longrightarrow> frees (concat (map (free_events hs) ps)) = ps"
  by (induction ps) (auto simp: free_events_def)

lemma dlcloses_concat:
  "\<forall>m \<in> set ps. hs m \<noteq> None \<Longrightarrow> dlcloses (concat (map (free_events hs) ps))
     = filter (\<lambda>d. d \<noteq> NULL) (map (\<lambda>m. DSOHnd (the (hs m))) ps)"
  by (induction ps) (auto simp: free_events_def)

lemma finalize_end_inv:
  assumes "mod_inv s ps"
  shows "\<exists>s'. moduleGCCallback JSGC_FINALIZE_END s = Some (True, s') \<and> mod_inv s' []
    \<and> memo_of s' = memo_of s \<and> scope_info s' = scope_info s
    \<and> (\<forall>m. handles s' m = (if m \<in> set ps then None else handles s m))
    \<and> events s' = events s @ concat (map (free_events (handles s)) ps)"
proof -
  from assms have c: "chain (handles s) (unreachableModule_llist s) ps" and d: "distinct ps"
    by (simp_all add: mod_inv_def)
  from destroy_unreachable_spec [OF c d] obtain s' where s':
    "destroy_unreachable s = Some s'" "unreachableModule_llist s' = NULL" "modules s' = modules s"
    "next_ptr s' = next_ptr s" "scope_info s' = scope_info s"
    "\<forall>m. handles s' m = (if m \<in> set ps then None else handles s m)"
    "events s' = events s @ concat (map (free_events (handles s)) ps)" by blast
  have rel: "memo_of s n = Some m \<Longrightarrow> m \<notin> set ps" for n m
    using assms chain_unreleased [OF c] by (fastforce simp: mod_inv_def memo_ok_def)
  have "memo_ok s'"
    using assms s' rel by (auto simp: mod_inv_def memo_ok_def memo_of_def)
  then have "mod_inv s' []" using assms s' by (auto simp: mod_inv_def)
  with s' show ?thesis by (auto simp: moduleGCCallback_def memo_of_def)
qed

section \<open>Marking\<close>

lemma mark_fold:
  "\<forall>m \<in> set ms. hs m \<noteq> None \<Longrightarrow>
   fold (mark_body hs) ms (Some acc) = Some (acc @ concat (map (\<lambda>m. module_marks (the (hs m))) ms))"
  by (induction ms arbitrary: acc) (auto simp: mark_body_def)

lemma memo_members:
  assumes "memo_ok s" and "m \<in> set (map snd (inorder (modules s)))"
  shows "\<exists>n h. memo_of s n = Some m \<and> handles s m = Some h \<and> cname h = n \<and> \<not> released h"
proof -
  from assms(2) obtain n where nm: "(n, m) \<in> set (inorder (modules s))" by auto
  have "distinct (map fst (inorder (modules s)))"
    using assms(1) by (auto simp: memo_ok_def keys_sorted_def strict_sorted_iff)
  with nm have "memo_of s n = Some m" by (simp add: memo_of_def)
  with assms(1) show ?thesis by (auto simp: memo_ok_def)
qed

lemma mark_end_spec:
  assumes "memo_ok s"
  shows "\<exists>s'. moduleGCCallback JSGC_MARK_END s = Some (True, s') \<and> memo_of s' = memo_of s
    \<and> keys_sorted (modules s') \<and> handles s' = handles s
    \<and> events s' = events s @ map EvMark
        (concat (map (\<lambda>m. module_marks (the (handles s m))) (map snd (inorder (modules s)))))"
proof -
  have ks: "keys_sorted (modules s)" using assms by (simp add: memo_ok_def)
  have al: "\<forall>m \<in> set (map snd (inorder (modules s))). handles s m \<noteq> None"
    using memo_members [OF assms] by blast
  from foreach_visits_all [OF ks, of "mark_body (handles s)" "Some []"] obtain t where
    "SPLAY_FOREACH (mark_body (handles s)) (modules s) (Some [])
      = Some (t, fold (mark_body (handles s)) (map snd (inorder (modules s))) (Some []))"
    "inorder t = inorder (modules s)" by blast
  with mark_fold [OF al, of "[]"] ks show ?thesis
    by (auto simp: moduleGCCallback_def memo_of_def keys_sorted_def)
qed

section \<open>The clean-up loop\<close>

lemma release_inorder:
  assumes "mod_inv s ps" and "inorder (modules s) = (n, m) # ys" and "handles s m = Some h" and "cname h = n"
    and "\<not> released h"
  shows "\<exists>s'. releaseModuleHandle e m s = Some s' \<and> mod_inv s' (m # ps) \<and> inorder (modules s') = ys
    \<and> (\<forall>q. q \<noteq> m \<longrightarrow> handles s' q = handles s q)
    \<and> (\<exists>h'. handles s' m = Some h' \<and> released h')"
proof -
  have ks: "keys_sorted (modules s)" using assms(1) by (simp add: mod_inv_def memo_ok_def)
  have mm: "memo_of s n = Some m" by (simp add: memo_of_def assms(2))
  from release_inv [OF assms(1,3,5), of e] mm assms(4) obtain s' where s':
    "releaseModuleHandle e m s = Some s'" "mod_inv s' (m # ps)"
    "\<forall>q. q \<noteq> m \<longrightarrow> handles s' q = handles s q" "\<exists>h'. handles s' m = Some h' \<and> released h'" by auto
  from release_spec [OF assms(3,5), of e] s'(1) have "modules s' = SPLAY_REMOVE n (modules s)"
    by (auto simp: assms(4))
  moreover have "filter (\<lambda>x. fst x \<noteq> n) ((n, m) # ys) = ys"
    using ks assms(2) by (auto simp: keys_sorted_def filter_id_conv)
  ultimately have "inorder (modules s') = ys" using remove_inorder [OF ks, of n] assms(2) by simp
  with s' show ?thesis by blast
qed

lemma cleanup_loop_spec:
  assumes "mod_inv s ps" and "inorder (modules s) = ys" and "length ys \<le> n"
    and "x = (if ys = [] then None else Some (hd ys))"
    and "\<forall>m h. m \<in> set (map snd ys) \<longrightarrow> handles s m = Some h \<longrightarrow> scope h = NULL"
  shows "\<exists>s'. cleanup_loop e n x s = Some s' \<and> mod_inv s' (rev (map snd ys) @ ps) \<and> inorder (modules s') = []
    \<and> (\<forall>q. q \<notin> set (map snd ys) \<longrightarrow> handles s' q = handles s q)"
  using assms
proof (induction ys arbitrary: n x s ps)
  case (Cons y ys)
  obtain name m where y: "y = (name, m)" by (cases y)
  from Cons.prems(3) obtain k where n: "n = Suc k" by (cases n) auto
  have ok: "memo_ok s" and ks: "keys_sorted (modules s)"
    using Cons.prems(1) by (simp_all add: mod_inv_def memo_ok_def)
  obtain t nx where nxt: "SPLAY_NEXT name (modules s) = (t, nx)" by fastforce
  have io: "inorder (modules s) = [] @ (name, m) # ys" using Cons.prems(2) by (simp add: y)
  from next_inorder [OF ks io] nxt have t: "inorder t = (name, m) # ys"
    "nx = (if ys = [] then None else Some (hd ys))" by (simp_all add: Cons.prems(2) y)
  let ?s = "s\<lparr>modules := t\<rparr>"
  have inv: "mod_inv ?s ps"
    using Cons.prems(1,2) t(1) by (simp add: mod_inv_def memo_ok_def memo_of_def keys_sorted_def y)
  have "memo_of s name = Some m" by (simp add: memo_of_def io)
  with ok obtain h where h: "handles s m = Some h" "cname h = name" "\<not> released h"
    by (auto simp: memo_ok_def)
  from Cons.prems(5) h(1) have sc: "scope h = NULL" by (simp add: y)
  from release_inorder [of ?s ps name m ys h e] inv t(1) h obtain s1 where s1:
    "releaseModuleHandle e m ?s = Some s1" "mod_inv s1 (m # ps)" "inorder (modules s1) = ys"
    "\<forall>q. q \<noteq> m \<longrightarrow> handles s1 q = handles s q" "\<exists>h'. handles s1 m = Some h' \<and> released h'" by auto
  have "m \<notin> set (map snd ys)"
  proof
    assume "m \<in> set (map snd ys)"
    with s1(3) memo_members [of s1 m] s1(2,5) show False by (auto simp: mod_inv_def)
  qed
  then have "\<forall>q h. q \<in> set (map snd ys) \<longrightarrow> handles s1 q = Some h \<longrightarrow> scope h = NULL"
    using Cons.prems(5) s1(4) by (metis list.set_intros(2) list.simps(9))
  from Cons.IH [OF s1(2,3) _ t(2) this, of k] Cons.prems(3) n obtain s' where s':
    "cleanup_loop e k nx s1 = Some s'" "mod_inv s' (rev (map snd ys) @ m # ps)" "inorder (modules s') = []"
    "\<forall>q. q \<notin> set (map snd ys) \<longrightarrow> handles s' q = handles s1 q" by auto
  have "cleanup_loop e n x s = Some s'"
    using Cons.prems(4) n y nxt h(1) sc s1(1) s'(1) by simp
  with s' s1(4) y show ?case by auto
qed simp

lemma cleanup_spec:
  assumes "mod_inv s ps" and "\<forall>n m h. memo_of s n = Some m \<longrightarrow> handles s m = Some h \<longrightarrow> scope h = NULL"
  shows "\<exists>s'. gpsee_moduleSystemCleanup e s = Some s'
    \<and> mod_inv s' (rev (map snd (inorder (modules s))) @ ps) \<and> memo_of s' = (\<lambda>_. None)
    \<and> (\<forall>q. q \<notin> ran (memo_of s) \<longrightarrow> handles s' q = handles s q)"
proof -
  have ok: "memo_ok s" using assms(1) by (simp add: mod_inv_def)
  obtain t x where mn: "SPLAY_MIN (modules s) = (t, x)" by fastforce
  with min_inorder [of "modules s"] have t: "inorder t = inorder (modules s)"
    "x = (if inorder (modules s) = [] then None else Some (hd (inorder (modules s))))" by simp_all
  let ?s = "s\<lparr>modules := t\<rparr>"
  have inv: "mod_inv ?s ps"
    using assms(1) t(1) by (simp add: mod_inv_def memo_ok_def memo_of_def keys_sorted_def)
  have len: "length (inorder (modules s)) \<le> size t" by (metis le_refl length_inorder t(1))
  have sc: "\<forall>m h. m \<in> set (map snd (inorder (modules s))) \<longrightarrow> handles ?s m = Some h \<longrightarrow> scope h = NULL"
    using memo_members [OF ok] assms(2) by fastforce
  have rn: "set (map snd (inorder (modules s))) \<subseteq> ran (memo_of s)"
    using memo_members [OF ok] by (auto simp: ran_def)
  from cleanup_loop_spec [OF inv _ len t(2) sc, of e] t(1) obtain s' where
    "cleanup_loop e (size t) x ?s = Some s'" "mod_inv s' (rev (map snd (inorder (modules s))) @ ps)"
    "inorder (modules s') = []"
    "\<forall>q. q \<notin> set (map snd (inorder (modules s))) \<longrightarrow> handles s' q = handles s q" by auto
  moreover from this(4) rn have "\<forall>q. q \<notin> ran (memo_of s) \<longrightarrow> handles s' q = handles s q" by blast
  ultimately show ?thesis using mn by (auto simp: gpsee_moduleSystemCleanup_def memo_of_def)
qed

section \<open>Properties\<close>

text \<open>When the collector has finished, the callback returns, and every released module -- and no
  other -- has been freed, each once, and its shared object closed once; the modules in the
  memo keep their handles.\<close>

theorem finalize_end_frees_released:
  assumes "mod_inv s ps"
  shows "\<exists>s'. moduleGCCallback JSGC_FINALIZE_END s = Some (True, s') \<and> mod_inv s' []
    \<and> memo_of s' = memo_of s
    \<and> (\<forall>m. handles s' m = (case handles s m of Some h \<Rightarrow> if released h then None else Some h | None \<Rightarrow> None))
    \<and> (\<exists>evs. events s' = events s @ evs \<and> frees evs = ps
        \<and> dlcloses evs = filter (\<lambda>d. d \<noteq> NULL) (map (\<lambda>m. DSOHnd (the (handles s m))) ps))"
proof -
  have al: "\<forall>m \<in> set ps. \<exists>h. handles s m = Some h \<and> released h"
    using assms chain_unreleased by (auto simp: mod_inv_def)
  then have ne: "\<forall>m \<in> set ps. handles s m \<noteq> None" by auto
  have rel: "m \<in> set ps \<longleftrightarrow> (\<exists>h. handles s m = Some h \<and> released h)" for m
    using al assms by (auto simp: mod_inv_def)
  from finalize_end_inv [OF assms] obtain s' where
    s': "moduleGCCallback JSGC_FINALIZE_END s = Some (True, s')" "mod_inv s' []" "memo_of s' = memo_of s"
    "\<forall>m. handles s' m = (if m \<in> set ps then None else handles s m)"
    "events s' = events s @ concat (map (free_events (handles s)) ps)" by blast
  have "handles s' m = (case handles s m of Some h \<Rightarrow> if released h then None else Some h | None \<Rightarrow> None)" for m
    using s'(4) rel by (auto split: option.splits)
  with s' frees_concat [OF ne] dlcloses_concat [OF ne] show ?thesis by blast
qed

definition mst_empty :: mst where
  "mst_empty =
     \<lparr>modules = Leaf, unreachableModule_llist = NULL, globalObject = 1, userModulePath = NULL,
      modulePath = [], moduleJail = None, moduleData = None, programModule = NULL,
      programModuleDir = None, requireDotMain = NULL, handles = (\<lambda>_. None),
      scope_info = (\<lambda>_. None), props = (\<lambda>_ _. None), slots = (\<lambda>_ _. JSVAL_VOID),
      script_argv = None, requireLockDepth = 0, next_ptr = 10, clock = 0, events = []\<rparr>"

definition mst_two :: mst where
  "mst_two = mst_empty\<lparr>modules := Node Leaf (''a'', 4) Leaf, unreachableModule_llist := 5,
     handles := [4 \<mapsto> calloc_handle\<lparr>cname := ''a'', scope := 7\<rparr>,
                 5 \<mapsto> calloc_handle\<lparr>cname := ''b'', DSOHnd := 6, released := True\<rparr>],
     scope_info := [7 \<mapsto> 4]\<rparr>"

lemma mst_two_inv: "mod_inv mst_two [5]"
  by (auto simp: mod_inv_def mst_two_def mst_empty_def memo_ok_def memo_of_def keys_sorted_def
      calloc_handle_def)

theorem finalize_end_frees_released_witness:
  "\<exists>s'. moduleGCCallback JSGC_FINALIZE_END mst_two = Some (True, s') \<and> handles s' 5 = None
    \<and> (\<exists>evs. events s' = evs \<and> frees evs = [5] \<and> dlcloses evs = [6])"
proof -
  from finalize_end_frees_released [OF mst_two_inv] obtain s' evs where
    "moduleGCCallback JSGC_FINALIZE_END mst_two = Some (True, s')"
    "\<forall>m. handles s' m = (case handles mst_two m of Some h \<Rightarrow> if released h then None else Some h | None \<Rightarrow> None)"
    "events s' = events mst_two @ evs" "frees evs = [5]"
    "dlcloses evs = filter (\<lambda>d. d \<noteq> NULL) (map (\<lambda>m. DSOHnd (the (handles mst_two m))) [5])" by blast
  then show ?thesis by (auto simp: mst_two_def mst_empty_def calloc_handle_def)
qed

text \<open>Releasing a module takes it out of the memo, so that requiring the name again gives a new
  instance, schedules it for freeing, and runs its finisher if it was loaded; releasing it a
  second time does nothing.\<close>

theorem release_module:
  assumes "mod_inv s ps" and "memo_of s n = Some m" and "handles s m = Some h"
  shows "\<exists>s'. releaseModuleHandle e m s = Some s' \<and> mod_inv s' (m # ps)
    \<and> memo_of s' = (memo_of s)(n := None) \<and> fst (findModuleHandle n s') = NULL
    \<and> events s' = events s @ fini_events m h \<and> releaseModuleHandle e m s' = Some s'"
proof -
  have "\<exists>h. handles s m = Some h \<and> cname h = n \<and> \<not> released h"
    using assms(1,2) by (simp add: mod_inv_def memo_ok_def)
  with assms(3) have h: "cname h = n" "\<not> released h" by auto
  from release_inv [OF assms(1,3) h(2), of e] assms(2) h(1) obtain s' where s':
    "releaseModuleHandle e m s = Some s'" "mod_inv s' (m # ps)" "memo_of s' = (memo_of s)(n := None)"
    "events s' = events s @ fini_events m h" "\<exists>h'. handles s' m = Some h' \<and> released h'" by auto
  obtain q s'' where f: "findModuleHandle n s' = (q, s'')" by fastforce
  have "q = NULL"
    using find_spec [OF _ f] s'(2,3) by (simp add: mod_inv_def memo_ok_def)
  with s' f show ?thesis using release_again by auto
qed

theorem release_module_witness:
  "\<exists>s'. releaseModuleHandle \<lparr>js_ok = \<lambda>_ _. True, fini_ret = \<lambda>_ _ _ _. True\<rparr> 4 mst_two = Some s'
    \<and> memo_of s' ''a'' = None \<and> mod_inv s' [4, 5]"
proof -
  have "memo_of mst_two ''a'' = Some 4" by (simp add: memo_of_def mst_two_def)
  moreover have "handles mst_two 4 = Some (calloc_handle\<lparr>cname := ''a'', scope := 7\<rparr>)"
    by (simp add: mst_two_def)
  ultimately show ?thesis
    using release_module [OF mst_two_inv, of "''a''" 4 _ "\<lparr>js_ok = \<lambda>_ _. True, fini_ret = \<lambda>_ _ _ _. True\<rparr>"]
    by fastforce
qed

text \<open>The marking phase keeps alive, of every module of the memo, the exports until the finisher
  has run, the exports and the scope as long as the module is not loaded, and its script --
  and marks nothing else.\<close>

theorem mark_end_marks:
  assumes "memo_ok s"
  shows "\<exists>s' marks. moduleGCCallback JSGC_MARK_END s = Some (True, s')
    \<and> events s' = events s @ map EvMark marks \<and> memo_of s' = memo_of s
    \<and> (\<forall>p. p \<in> set marks \<longleftrightarrow> p \<noteq> NULL \<and> (\<exists>n m h. memo_of s n = Some m \<and> handles s m = Some h \<and>
          (p = exports h \<and> (\<not> mhf_loaded h \<or> fini h \<noteq> NULL)
           \<or> p = scope h \<and> \<not> mhf_loaded h \<or> p = scrobj h)))"
proof -
  let ?ms = "map snd (inorder (modules s))"
  let ?marks = "concat (map (\<lambda>m. module_marks (the (handles s m))) ?ms)"
  from mark_end_spec [OF assms] obtain s' where s':
    "moduleGCCallback JSGC_MARK_END s = Some (True, s')" "memo_of s' = memo_of s"
    "events s' = events s @ map EvMark ?marks" by blast
  have mem: "m \<in> set ?ms \<longleftrightarrow> (\<exists>n. memo_of s n = Some m)" for m
    using memo_members [OF assms, of m] by (force simp: memo_of_def dest: map_of_SomeD)
  have hs: "memo_of s n = Some m \<Longrightarrow> \<exists>h. handles s m = Some h" for n m
    using assms by (auto simp: memo_ok_def)
  have mk: "p \<in> set (module_marks h) \<longleftrightarrow> p \<noteq> NULL \<and> (p = exports h \<and> (\<not> mhf_loaded h \<or> fini h \<noteq> NULL)
           \<or> p = scope h \<and> \<not> mhf_loaded h \<or> p = scrobj h)" for p h
    by (auto simp: module_marks_def)
  have "p \<in> set ?marks \<longleftrightarrow> (\<exists>m \<in> set ?ms. p \<in> set (module_marks (the (handles s m))))" for p by auto
  then have "p \<in> set ?marks \<longleftrightarrow>
      (\<exists>n m h. memo_of s n = Some m \<and> handles s m = Some h \<and> p \<in> set (module_marks h))" for p
    using mem hs by (metis option.sel)
  then have "p \<in> set ?marks \<longleftrightarrow> p \<noteq> NULL \<and> (\<exists>n m h. memo_of s n = Some m \<and> handles s m = Some h \<and>
          (p = exports h \<and> (\<not> mhf_loaded h \<or> fini h \<noteq> NULL)
           \<or> p = scope h \<and> \<not> mhf_loaded h \<or> p = scrobj h))" for p
    unfolding mk by blast
  with s' show ?thesis by blast
qed

theorem mark_end_marks_witness:
  "\<exists>s' marks. moduleGCCallback JSGC_MARK_END mst_two = Some (True, s')
    \<and> events s' = map EvMark marks \<and> 7 \<in> set marks"
proof -
  have "memo_ok mst_two" using mst_two_inv by (simp add: mod_inv_def)
  moreover have "memo_of mst_two ''a'' = Some 4" by (simp add: memo_of_def mst_two_def)
  moreover have "handles mst_two 4 = Some (calloc_handle\<lparr>cname := ''a'', scope := 7\<rparr>)" "events mst_two = []"
    by (simp_all add: mst_two_def mst_empty_def)
  moreover have "scope (calloc_handle\<lparr>cname := ''a'', scope := 7\<rparr>) = 7"
    "\<not> mhf_loaded (calloc_handle\<lparr>cname := ''a'', scope := 7\<rparr>)" by (simp_all add: calloc_handle_def)
  ultimately show ?thesis using mark_end_marks [of mst_two] by (metis append_Nil zero_neq_numeral)
qed

text \<open>Once the scopes of all modules are gone, the final clean-up and the end of the next
  collection free every module handle there is, if all of them are in the memo or released.\<close>

theorem cleanup_frees_everything:
  assumes "mod_inv s ps" and "\<forall>n m h. memo_of s n = Some m \<longrightarrow> handles s m = Some h \<longrightarrow> scope h = NULL"
    and "\<forall>m h. handles s m = Some h \<longrightarrow> released h \<or> m \<in> ran (memo_of s)"
  shows "\<exists>s1 s2. gpsee_moduleSystemCleanup e s = Some s1
    \<and> moduleGCCallback JSGC_FINALIZE_END s1 = Some (True, s2) \<and> handles s2 = (\<lambda>_. None)
    \<and> memo_of s2 = (\<lambda>_. None)"
proof -
  let ?ps = "rev (map snd (inorder (modules s))) @ ps"
  from cleanup_spec [OF assms(1,2), of e] obtain s1 where s1: "gpsee_moduleSystemCleanup e s = Some s1"
    "mod_inv s1 ?ps" "memo_of s1 = (\<lambda>_. None)"
    "\<forall>q. q \<notin> ran (memo_of s) \<longrightarrow> handles s1 q = handles s q" by blast
  from finalize_end_inv [OF s1(2)] obtain s2 where s2:
    "moduleGCCallback JSGC_FINALIZE_END s1 = Some (True, s2)" "memo_of s2 = memo_of s1"
    "\<forall>m. handles s2 m = (if m \<in> set ?ps then None else handles s1 m)" by blast
  have "m \<in> set ?ps" if "handles s1 m \<noteq> None" for m
  proof (cases "m \<in> ran (memo_of s)")
    case True
    then show ?thesis by (force simp: ran_def memo_of_def dest: map_of_SomeD)
  next
    case False
    with s1(4) that obtain h where h: "handles s m = Some h" by auto
    with assms(3) False have "released h" by blast
    with h assms(1) show ?thesis by (auto simp: mod_inv_def)
  qed
  with s2(3) have "handles s2 = (\<lambda>_. None)" by (metis (no_types))
  with s1 s2 show ?thesis by auto
qed

theorem cleanup_frees_everything_witness:
  "\<exists>s1 s2. gpsee_moduleSystemCleanup \<lparr>js_ok = \<lambda>_ _. True, fini_ret = \<lambda>_ _ _ _. True\<rparr>
        (mst_two\<lparr>handles := (handles mst_two)(4 \<mapsto> calloc_handle\<lparr>cname := ''a''\<rparr>)\<rparr>) = Some s1
    \<and> moduleGCCallback JSGC_FINALIZE_END s1 = Some (True, s2) \<and> handles s2 = (\<lambda>_. None)"
proof -
  let ?s = "mst_two\<lparr>handles := (handles mst_two)(4 \<mapsto> calloc_handle\<lparr>cname := ''a''\<rparr>)\<rparr>"
  have 1: "mod_inv ?s [5]"
    by (auto simp: mod_inv_def mst_two_def mst_empty_def memo_ok_def memo_of_def keys_sorted_def
        calloc_handle_def)
  have 2: "\<forall>n m h. memo_of ?s n = Some m \<longrightarrow> handles ?s m = Some h \<longrightarrow> scope h = NULL"
    by (auto simp: memo_of_def mst_two_def calloc_handle_def split: if_splits)
  have 3: "\<forall>m h. handles ?s m = Some h \<longrightarrow> released h \<or> m \<in> ran (memo_of ?s)"
    by (auto simp: memo_of_def mst_two_def calloc_handle_def ran_def split: if_splits)
  from cleanup_frees_everything [OF 1 2 3] show ?thesis by blast
qed

text \<open>A module whose scope is still alive at the final clean-up: its information block is
  finalized, and then the scope pointer is read again from the handle, which the release
  has set to NULL.\<close>

lemma cleanup_live_scope_fails:
  assumes "handles s m = Some h" and "\<not> released h" and "scope h \<noteq> NULL" and "scope_info s (scope h) = Some m"
  shows "cleanup_loop e (Suc k) (Some (n, m)) s = None"
proof -
  obtain t nx where nxt: "SPLAY_NEXT n (modules s) = (t, nx)" by fastforce
  let ?s = "s\<lparr>modules := t\<rparr>"
  have "handles ?s m = Some h" using assms(1) by simp
  from release_spec [OF this assms(2), of e] obtain s1 h1 where
    "releaseModuleHandle e m ?s = Some s1" "handles s1 m = Some h1" "scope h1 = NULL"
    by (fastforce simp: unused_def)
  then show ?thesis
    using assms nxt by (simp add: finalizeModuleScope_def getModuleScopeInfo_def)
qed

end
