(* ===== verification/ModuleScope.thy ===== *)
theory ModuleScope
  imports ModuleMemo
begin

text \<open>
  Module scopes and the acquisition of module handles (gpsee\_modules.c): what a scope object
  is furnished with before the module's code runs in it, how names that are not in the scope
  are resolved on the true global, and how a canonical name is turned into the one handle of
  its module.
\<close>

section \<open>Calls into the engine\<close>

text \<open>
  The engine defines how many cached class prototypes a global object has.  Property
  attributes are bit masks.
\<close>

record scope_env = env +
  JSProto_LIMIT :: nat
  get_prop :: "ptr \<Rightarrow> string \<Rightarrow> nat \<Rightarrow> jsval option"

definition JSPROP_ENUMERATE :: nat where "JSPROP_ENUMERATE = 1"
definition JSPROP_READONLY :: nat where "JSPROP_READONLY = 2"
definition JSPROP_PERMANENT :: nat where "JSPROP_PERMANENT = 4"

definition guard :: "bool \<times> mst \<Rightarrow> (mst \<Rightarrow> (bool \<times> mst) option) \<Rightarrow> (bool \<times> mst) option" where
  "guard r k = (case r of (ok, s) \<Rightarrow> if ok then k s else Some (False, s))"

definition define_property ::
    "('e) env_scheme \<Rightarrow> ptr \<Rightarrow> string \<Rightarrow> jsval \<Rightarrow> nat \<Rightarrow> mst \<Rightarrow> bool \<times> mst" where
  "define_property e obj name v attrs s =
     (case call e ''JS_DefineProperty'' s of (ok, s) \<Rightarrow>
        if ok then (True, s\<lparr>props := (props s)(obj := (props s obj)(name \<mapsto> (v, attrs)))\<rparr>)
        else (False, s))"

definition set_slot :: "('e) env_scheme \<Rightarrow> ptr \<Rightarrow> nat \<Rightarrow> jsval \<Rightarrow> mst \<Rightarrow> bool \<times> mst" where
  "set_slot e obj i v s =
     (case call e ''JS_SetReservedSlot'' s of (ok, s) \<Rightarrow>
        if ok then (True, s\<lparr>slots := (slots s)(obj := (slots s obj)(i := v))\<rparr>) else (False, s))"

section \<open>Properties of the true global seen from a module\<close>

text \<open>\<open>realm\<close> says whether the context has a realm.  \<open>get_prop\<close> is the engine's property
  look-up, \<open>None\<close> when it throws.\<close>

definition getGlobalProperty ::
    "('e) scope_env_scheme \<Rightarrow> bool \<Rightarrow> string \<Rightarrow> mst \<Rightarrow> jsval option" where
  "getGlobalProperty e realm ident s =
     (if realm then get_prop e (globalObject s) ident (clock s) else None)"

definition setGlobalProperty ::
    "('e) scope_env_scheme \<Rightarrow> bool \<Rightarrow> string \<Rightarrow> jsval \<Rightarrow> mst \<Rightarrow> bool \<times> mst" where
  "setGlobalProperty e realm ident v s =
     (if realm then
        (case call e ''JS_SetProperty'' s of (ok, s) \<Rightarrow>
           if ok then (True, s\<lparr>props := (props s)(globalObject s :=
             (props s (globalObject s))(ident \<mapsto> (v, 0)))\<rparr>)
           else (False, s))
      else (False, s))"

text \<open>The result is whether the resolver succeeds, the object the property was resolved on, and
  the state.  Getting and setting the attributes of the new property can fail.\<close>

definition resolveGlobalProperty ::
    "('e) scope_env_scheme \<Rightarrow> bool \<Rightarrow> ptr \<Rightarrow> string \<Rightarrow> bool \<Rightarrow> bool \<Rightarrow> mst \<Rightarrow> (bool \<times> ptr option) \<times> mst" where
  "resolveGlobalProperty e realm obj ident ident_is_string declaring s =
     (if declaring then ((True, None), s)
      else if \<not> realm then ((False, None), s)
      else case get_prop e (globalObject s) ident (clock s) of
          None \<Rightarrow> ((False, None), s\<lparr>clock := Suc (clock s)\<rparr>)
        | Some v \<Rightarrow>
            let s = s\<lparr>clock := Suc (clock s)\<rparr>
            in if v = JSVAL_VOID then ((True, None), s)
               else case define_property e obj ident v 0 s of
                   (False, s) \<Rightarrow> ((False, None), s)
                 | (True, s) \<Rightarrow>
                     if ident_is_string then
                       (case call e ''JS_GetPropertyAttributes'' s of (ok, s) \<Rightarrow>
                          if \<not> ok then ((False, None), s)
                          else case call e ''JS_SetPropertyAttributes'' s of (ok, s) \<Rightarrow>
                            if \<not> ok then ((False, None), s) else ((True, Some obj), s))
                     else ((True, Some obj), s))"

section \<open>Furnishing a scope\<close>

definition newModuleExports :: "('e) env_scheme \<Rightarrow> ptr \<Rightarrow> mst \<Rightarrow> ptr \<times> mst" where
  "newModuleExports e moduleScope s = call_new e ''JS_NewObject'' s"

fun copy_protos :: "('e) env_scheme \<Rightarrow> ptr \<Rightarrow> ptr \<Rightarrow> nat \<Rightarrow> nat \<Rightarrow> mst \<Rightarrow> bool \<times> mst" where
  "copy_protos e src dst key 0 s = (True, s)"
| "copy_protos e src dst key (Suc n) s =
     (case call e ''JS_GetReservedSlot'' s of (ok, s) \<Rightarrow>
        if \<not> ok then (False, s)
        else case set_slot e dst key (slots s src key) s of (ok, s) \<Rightarrow>
               if \<not> ok then (False, s) else copy_protos e src dst (Suc key) n s)"

text \<open>The array behind \<open>require.paths\<close>, made with the first scope of the realm.\<close>

definition ensure_userModulePath :: "('e) env_scheme \<Rightarrow> mst \<Rightarrow> bool \<times> mst" where
  "ensure_userModulePath e s =
     (if userModulePath s = NULL
      then (case call_new e ''JS_NewArrayObject'' s of (arr, s) \<Rightarrow>
              (arr \<noteq> NULL, s\<lparr>userModulePath := arr\<rparr>))
      else (True, s))"

text \<open>
  The second half: \<open>require.paths\<close>, the handle behind \<open>require\<close>, \<open>exports\<close>,
  \<open>require.main\<close>, \<open>module\<close> and \<open>module.id\<close>.  A failed \<open>newModuleExports\<close> is not
  noticed: the property is then defined as null.
\<close>

definition define_module_globals ::
    "('e) scope_env_scheme \<Rightarrow> ptr \<Rightarrow> ptr \<Rightarrow> ptr \<Rightarrow> nat \<Rightarrow> mst \<Rightarrow> (bool \<times> mst) option" where
  "define_module_globals e module moduleScope require attrs s =
     guard (ensure_userModulePath e s) (\<lambda>s.
     guard (define_property e require ''paths'' (OBJECT_TO_JSVAL (userModulePath s)) attrs s) (\<lambda>s.
     guard (set_slot e require 0 (PRIVATE_TO_JSVAL module) s) (\<lambda>s.
     case newModuleExports e moduleScope s of (exps, s) \<Rightarrow>
     Option.bind (upd_handle module (\<lambda>h. h\<lparr>exports := exps\<rparr>) s) (\<lambda>s.
     guard (define_property e moduleScope ''exports'' (OBJECT_TO_JSVAL exps) attrs s) (\<lambda>s.
     case call_new e ''JS_NewObject'' s of (modDotModObj, s) \<Rightarrow>
     if modDotModObj = NULL then Some (False, s)
     else
     let s = (if module = programModule s then s\<lparr>requireDotMain := modDotModObj\<rparr> else s) in
     guard (define_property e require ''main'' (OBJECT_TO_JSVAL (requireDotMain s)) attrs s) (\<lambda>s.
     guard (define_property e moduleScope ''module'' (OBJECT_TO_JSVAL modDotModObj) attrs s) (\<lambda>s.
     guard (call e ''JS_NewStringCopyZ'' s) (\<lambda>s.
     Option.bind (handles s module) (\<lambda>h.
       Some (define_property e modDotModObj ''id'' (STRING_TO_JSVAL (cname h)) attrs s))))))))))"

definition initializeModuleScope ::
    "('e) scope_env_scheme \<Rightarrow> ptr \<Rightarrow> ptr \<Rightarrow> bool \<Rightarrow> mst \<Rightarrow> (bool \<times> mst) option" where
  "initializeModuleScope e module moduleScope isVolatileScope s =
     (let jsProp_permanent = (if isVolatileScope then 0 else JSPROP_PERMANENT);
          jsProp_permanentReadOnly = (if isVolatileScope then 0 else JSPROP_PERMANENT + JSPROP_READONLY);
          attrs = JSPROP_ENUMERATE + jsProp_permanentReadOnly
      in guard (setModuleScopeInfo e moduleScope module s) (\<lambda>s.
         guard (if moduleScope \<noteq> globalObject s
                then copy_protos e (globalObject s) moduleScope 0 (JSProto_LIMIT e) s else (True, s)) (\<lambda>s.
         guard (if moduleScope \<noteq> globalObject s
                then define_property e moduleScope ''undefined'' JSVAL_VOID
                       (JSPROP_ENUMERATE + jsProp_permanent) s else (True, s)) (\<lambda>s.
         case call_new e ''JS_DefineFunction'' s of (require, s) \<Rightarrow>
         if require = NULL then Some (False, s)
         else
         define_module_globals e module moduleScope require attrs
           (s\<lparr>props := (props s)(moduleScope :=
              (props s moduleScope)(''require'' \<mapsto> (OBJECT_TO_JSVAL require, attrs)))\<rparr>)))))"

definition newModuleScope :: "('e) scope_env_scheme \<Rightarrow> ptr \<Rightarrow> mst \<Rightarrow> (ptr \<times> mst) option" where
  "newModuleScope e module s =
     (case call e ''JS_EnterLocalRootScope'' s of (ok, s) \<Rightarrow>
        if \<not> ok then Some (NULL, s)
        else case call_new e ''JS_NewGlobalObject'' s of (moduleScope, s) \<Rightarrow>
          if moduleScope = NULL then Some (NULL, s)
          else case call e ''JS_SetParent'' s of (ok, s) \<Rightarrow>
            if \<not> ok then Some (NULL, s)
            else Option.bind (initializeModuleScope e module moduleScope False s) (\<lambda>(ok, s).
                   Some (if ok then moduleScope else NULL, s)))"

section \<open>Acquiring a handle\<close>

text \<open>
  A failed copy of the name is not noticed either, and the NULL name is dereferenced by the
  next comparison: \<open>None\<close>.  On failure the new handle is neither in the memo nor freed.
\<close>

definition acquireModuleHandle ::
    "('e) scope_env_scheme \<Rightarrow> string \<Rightarrow> ptr \<Rightarrow> mst \<Rightarrow> (ptr \<times> mst) option" where
  "acquireModuleHandle e name moduleScope s =
     (case findModuleHandle name s of (module, s) \<Rightarrow>
        if module \<noteq> NULL then Some (module, s)
        else case call_new e ''calloc'' s of (module, s) \<Rightarrow>
          if module = NULL then Some (NULL, s)
          else
            let s = s\<lparr>handles := (handles s)(module \<mapsto> calloc_handle)\<rparr> in
            case call e ''JS_strdup'' s of (ok, s) \<Rightarrow>
              if \<not> ok then None
              else
                Option.bind (upd_handle module (\<lambda>h. h\<lparr>cname := name\<rparr>) s) (\<lambda>s.
                Option.bind (if moduleScope = NULL then newModuleScope e module s
                             else Some (moduleScope, s)) (\<lambda>(sc, s).
                Option.bind (upd_handle module (\<lambda>h. h\<lparr>scope := sc\<rparr>) s) (\<lambda>s.
                if sc = NULL
                then Option.bind (markModuleUnused e module s) (\<lambda>s. Some (NULL, s))
                else Some (module, s\<lparr>modules := fst (SPLAY_INSERT name module (modules s))\<rparr>)))))"

fun decimal :: "nat \<Rightarrow> string" where
  "decimal n = (if n < 10 then [char_of (48 + n)] else decimal (n div 10) @ [char_of (48 + n mod 10)])"

definition gpsee_modulizeGlobal ::
    "('e) scope_env_scheme \<Rightarrow> ptr \<Rightarrow> string option \<Rightarrow> nat \<Rightarrow> mst \<Rightarrow> (bool \<times> mst) option" where
  "gpsee_modulizeGlobal e glob label ident s =
     (let label = (case label of None \<Rightarrow> ''internal'' | Some l \<Rightarrow> l) in
      if label \<noteq> [] \<and> hd label = CHR ''/'' then Some (False, s)
      else
        let ident = (if ident = 0 then glob else ident);
            name = ''__'' @ label @ '':'' @ decimal ident @ ''__''
        in case call e ''JS_malloc'' s of (ok, s) \<Rightarrow>
             if \<not> ok then Some (False, s)
             else Option.bind (acquireModuleHandle e name glob s) (\<lambda>(module, s).
               if module = NULL then Some (False, s)
               else initializeModuleScope e module glob True s))"

section \<open>What furnishing a scope leaves alone\<close>

text \<open>
  \<open>scope_frame m s s'\<close>: from \<open>s\<close> to \<open>s'\<close> the memo, the list of unreachable modules
  and the log are the same, and of all handles only the exports of \<open>m\<close> may differ.
\<close>

named_theorems frames \<open>steps that keep the frame\<close>

definition scope_frame :: "ptr \<Rightarrow> mst \<Rightarrow> mst \<Rightarrow> bool" where
  "scope_frame m s s' \<longleftrightarrow> modules s' = modules s
     \<and> unreachableModule_llist s' = unreachableModule_llist s \<and> events s' = events s
     \<and> globalObject s' = globalObject s \<and> modulePath s' = modulePath s \<and> moduleJail s' = moduleJail s
     \<and> programModule s' = programModule s \<and> programModuleDir s' = programModuleDir s
     \<and> requireLockDepth s' = requireLockDepth s
     \<and> next_ptr s \<le> next_ptr s' \<and> (\<forall>q. q \<noteq> m \<longrightarrow> handles s' q = handles s q)
     \<and> (\<forall>h. handles s m = Some h \<longrightarrow> (\<exists>x. handles s' m = Some (h\<lparr>exports := x\<rparr>)))
     \<and> (handles s m = None \<longrightarrow> handles s' m = None)"

definition framed :: "ptr \<Rightarrow> mst \<Rightarrow> (bool \<times> mst) option \<Rightarrow> bool" where
  "framed m s r \<longleftrightarrow> (\<exists>b s'. r = Some (b, s') \<and> scope_frame m s s')"

lemma scope_frame_refl [frames]: "scope_frame m s s"
proof -
  have "handles s m = Some h \<Longrightarrow> \<exists>x. handles s m = Some (h\<lparr>exports := x\<rparr>)" for h
    by (rule exI [of _ "exports h"]) simp
  then show ?thesis by (simp add: scope_frame_def)
qed

lemma scope_frame_trans:
  assumes "scope_frame m s s'" and "scope_frame m s' s''"
  shows "scope_frame m s s''"
proof -
  have "\<exists>x. handles s'' m = Some (h\<lparr>exports := x\<rparr>)" if "handles s m = Some h" for h
  proof -
    from assms(1) that obtain x where "handles s' m = Some (h\<lparr>exports := x\<rparr>)"
      by (auto simp: scope_frame_def)
    with assms(2) obtain y where "handles s'' m = Some (h\<lparr>exports := x\<rparr>\<lparr>exports := y\<rparr>)"
      by (fastforce simp: scope_frame_def)
    then show ?thesis by auto
  qed
  with assms show ?thesis by (auto simp: scope_frame_def)
qed

lemma frame_call [frames]: "scope_frame m s (snd (call e f s))"
  using scope_frame_refl [of m s] by (simp add: call_def scope_frame_def)

lemma frame_call_new [frames]: "scope_frame m s (snd (call_new e f s))"
  using scope_frame_refl [of m s] by (simp add: call_new_def call_def scope_frame_def)

lemma frame_define [frames]: "scope_frame m s (snd (define_property e obj n v a s))"
  using scope_frame_refl [of m s] by (simp add: define_property_def call_def scope_frame_def)

lemma frame_slot [frames]: "scope_frame m s (snd (set_slot e obj i v s))"
  using scope_frame_refl [of m s] by (simp add: set_slot_def call_def scope_frame_def)

lemma frame_setInfo [frames]: "scope_frame m s (snd (setModuleScopeInfo e sc m' s))"
  using scope_frame_refl [of m s] by (simp add: setModuleScopeInfo_def call_def scope_frame_def)

lemma frame_path [frames]: "scope_frame m s (snd (ensure_userModulePath e s))"
  using scope_frame_refl [of m s]
  by (simp add: ensure_userModulePath_def call_new_def call_def scope_frame_def)

lemma frame_protos [frames]: "scope_frame m s (snd (copy_protos e src dst key n s))"
proof (induction n arbitrary: key s)
  case 0
  then show ?case by (simp add: scope_frame_refl)
next
  case (Suc n)
  obtain ok s1 where c: "call e ''JS_GetReservedSlot'' s = (ok, s1)" by fastforce
  obtain ok' s2 where d: "set_slot e dst key (slots s1 src key) s1 = (ok', s2)" by fastforce
  have "scope_frame m s s1" "scope_frame m s1 s2"
    using frame_call [of m s e "''JS_GetReservedSlot''"] frame_slot [of m s1 e dst key "slots s1 src key"] c d
    by simp_all
  with Suc.IH [of s2 "Suc key"] c d show ?case by (auto intro: scope_frame_trans)
qed

lemma framed_Some [frames]: "scope_frame m s s' \<Longrightarrow> framed m s (Some (b, s'))"
  by (simp add: framed_def)

lemma framed_pair: "scope_frame m s (snd r) \<Longrightarrow> framed m s (Some r)"
  by (cases r) (simp add: framed_def)

lemma framed_guard:
  assumes "scope_frame m s s1" and "scope_frame m s1 (snd r)"
    and "\<And>s2. scope_frame m s s2 \<Longrightarrow> framed m s (k s2)"
  shows "framed m s (guard r k)"
  using assms(3) scope_frame_trans [OF assms(1,2)]
  by (cases r) (auto simp: guard_def framed_def)

lemma framed_upd:
  assumes "handles s0 m = Some h0" and "scope_frame m s0 s"
    and "\<And>s2. scope_frame m s0 s2 \<Longrightarrow> framed m s0 (k s2)"
  shows "framed m s0 (Option.bind (upd_handle m (\<lambda>h. h\<lparr>exports := x\<rparr>) s) k)"
proof -
  from assms(1,2) obtain y where h: "handles s m = Some (h0\<lparr>exports := y\<rparr>)" by (auto simp: scope_frame_def)
  have "scope_frame m s0 (s\<lparr>handles := (handles s)(m \<mapsto> h0\<lparr>exports := x\<rparr>)\<rparr>)"
    using assms(1,2) by (auto simp: scope_frame_def)
  with assms(3) h show ?thesis by (simp add: upd_handle_def)
qed

lemma framed_handle:
  assumes "handles s0 m = Some h0" and "scope_frame m s0 s"
    and "\<And>h. cname h = cname h0 \<Longrightarrow> framed m s0 (k h)"
  shows "framed m s0 (Option.bind (handles s m) k)"
  using assms by (fastforce simp: scope_frame_def)

lemma framed_split:
  "scope_frame m s0 s \<Longrightarrow> scope_frame m s (snd r) \<Longrightarrow>
   (\<And>x s'. scope_frame m s0 s' \<Longrightarrow> framed m s0 (k x s')) \<Longrightarrow> framed m s0 (case r of (x, s') \<Rightarrow> k x s')"
  using scope_frame_trans by (cases r) simp

lemma framed_if: "framed m s x \<Longrightarrow> framed m s y \<Longrightarrow> framed m s (if c then x else y)"
  by simp

lemma frame_if:
  "scope_frame m s (snd x) \<Longrightarrow> scope_frame m s s' \<Longrightarrow> scope_frame m s (snd (if c then x else (b, s')))"
  by simp

lemma frame_main:
  "scope_frame m s s' \<Longrightarrow> scope_frame m s (if c then s'\<lparr>requireDotMain := y\<rparr> else s')"
  by (simp add: scope_frame_def)

lemma frame_upd_simple [frames]:
  "scope_frame m s s' \<Longrightarrow> scope_frame m s (s'\<lparr>props := x\<rparr>)"
  "scope_frame m s s' \<Longrightarrow> scope_frame m s (s'\<lparr>requireDotMain := y\<rparr>)"
  by (simp_all add: scope_frame_def)

lemma framed_initialize:
  assumes "handles s m = Some h"
  shows "framed m s (initializeModuleScope e m sc vol s)"
  unfolding initializeModuleScope_def define_module_globals_def Let_def
  apply (rule framed_guard [OF scope_frame_refl frame_setInfo])
  apply (rule framed_guard, assumption, rule frame_if, rule frame_protos, rule scope_frame_refl)
  apply (rule framed_guard, assumption, rule frame_if, rule frame_define, rule scope_frame_refl)
  apply (rule framed_split, assumption, rule frame_call_new)
  apply (rule framed_if, rule framed_Some, assumption)
  apply (rule framed_guard, erule frame_upd_simple(1), rule frame_path)
  apply (rule framed_guard, assumption, rule frame_define)
  apply (rule framed_guard, assumption, rule frame_slot)
  apply (rule framed_split, assumption, simp only: newModuleExports_def, rule frame_call_new)
  apply (rule framed_upd [OF assms], assumption)
  apply (rule framed_guard, assumption, rule frame_define)
  apply (rule framed_split, assumption, rule frame_call_new)
  apply (rule framed_if, rule framed_Some, assumption)
  apply (rule framed_guard, erule frame_main, rule frame_define)
  apply (rule framed_guard, assumption, rule frame_define)
  apply (rule framed_guard, assumption, rule frame_call)
  apply (rule framed_handle [OF assms], assumption)
  apply (rule framed_pair, erule scope_frame_trans, rule frame_define)
  done

lemma newModuleScope_frame:
  assumes "handles s m = Some h"
  shows "\<exists>sc s'. newModuleScope e m s = Some (sc, s') \<and> scope_frame m s s'"
proof -
  obtain ok s1 where 1: "call e ''JS_EnterLocalRootScope'' s = (ok, s1)" by fastforce
  obtain sc s2 where 2: "call_new e ''JS_NewGlobalObject'' s1 = (sc, s2)" by fastforce
  obtain ok3 s3 where 3: "call e ''JS_SetParent'' s2 = (ok3, s3)" by fastforce
  have f: "scope_frame m s s1" "scope_frame m s s2" "scope_frame m s s3"
    using frame_call [of m s e "''JS_EnterLocalRootScope''"] frame_call_new [of m s1 e "''JS_NewGlobalObject''"]
      frame_call [of m s2 e "''JS_SetParent''"] 1 2 3 by (auto intro: scope_frame_trans)
  from f(3) assms obtain x where "handles s3 m = Some (h\<lparr>exports := x\<rparr>)" by (auto simp: scope_frame_def)
  from framed_initialize [OF this, of e sc False] obtain b s4 where
    4: "initializeModuleScope e m sc False s3 = Some (b, s4)" "scope_frame m s3 s4"
    by (auto simp: framed_def)
  have "scope_frame m s s4" using f(3) 4(2) by (rule scope_frame_trans)
  with f 1 2 3 4(1) show ?thesis by (simp add: newModuleScope_def)
qed

section \<open>What acquiring a handle does\<close>

text \<open>A handle as \<open>acquireModuleHandle\<close> makes it: nothing loaded into it yet.\<close>

definition fresh_handle :: "string \<Rightarrow> module_handle \<Rightarrow> bool" where
  "fresh_handle name h \<longleftrightarrow> cname h = name \<and> DSOHnd h = NULL \<and> init h = NULL \<and> fini h = NULL
     \<and> script h = NULL \<and> scrobj h = NULL \<and> \<not> mhf_loaded h \<and> \<not> released h"

definition acquired :: "string \<Rightarrow> mst \<Rightarrow> ptr \<Rightarrow> mst \<Rightarrow> bool" where
  "acquired name s m s' \<longleftrightarrow> m \<noteq> NULL \<and> memo_of s' = (memo_of s)(name \<mapsto> m)
     \<and> (\<forall>q. q \<noteq> m \<longrightarrow> handles s' q = handles s q) \<and> events s' = events s
     \<and> (case memo_of s name of
          Some m' \<Rightarrow> m = m' \<and> handles s' m = handles s m
        | None \<Rightarrow> handles s m = None \<and> (\<exists>h. handles s' m = Some h \<and> fresh_handle name h \<and> scope h \<noteq> NULL))"

lemma memo_of_cong: "modules s' = modules s \<Longrightarrow> memo_of s' = memo_of s"
  by (simp add: memo_of_def)

lemma mod_inv_new:
  assumes inv: "mod_inv s ps" and none: "handles s m = None" and m: "m \<noteq> NULL" "m < next_ptr s'"
    and n: "next_ptr s \<le> next_ptr s'" and u: "unreachableModule_llist s' = unreachableModule_llist s"
    and hs: "\<forall>q. q \<noteq> m \<longrightarrow> handles s' q = handles s q"
    and h: "handles s' m = Some h" "\<not> released h"
    and md: "keys_sorted (modules s')" "memo_of s' = memo_of s \<or> memo_of s' = (memo_of s)(cname h \<mapsto> m)"
  shows "mod_inv s' ps"
proof -
  have np: "m \<notin> set ps" using inv none chain_unreleased by (fastforce simp: mod_inv_def)
  have "chain (handles s') (unreachableModule_llist s) ps = chain (handles s) (unreachableModule_llist s) ps"
    using hs np by (intro chain_cong) metis
  with inv u have "chain (handles s') (unreachableModule_llist s') ps" by (simp add: mod_inv_def)
  moreover have "k \<noteq> NULL \<and> (\<exists>h. handles s' k = Some h \<and> cname h = x \<and> \<not> released h)"
    if "memo_of s' x = Some k" for x k
  proof (cases "k = m")
    case True
    with memo_handle [OF inv, of x k] none md(2) that have "x = cname h" by (auto split: if_splits)
    with True m h show ?thesis by simp
  next
    case False
    with md(2) that have "memo_of s x = Some k" by (auto split: if_splits)
    with memo_handle [OF inv] hs False show ?thesis by simp
  qed
  moreover have "q \<in> set ps" if "handles s' q = Some h'" "released h'" for q h'
    using inv h hs that by (cases "q = m") (auto simp: mod_inv_def)
  moreover have "handles s' q = None" if "next_ptr s' \<le> q" for q
    using inv m(2) hs n that by (cases "q = m") (auto simp: mod_inv_def)
  moreover have "handles s' NULL = None" using inv m(1) hs by (auto simp: mod_inv_def)
  ultimately show ?thesis using inv n md(1) unfolding mod_inv_def memo_ok_def by auto
qed

lemma acquire_spec:
  assumes inv: "mod_inv s ps" and r: "acquireModuleHandle e name sc s = Some (m, s')"
  shows "mod_inv s' ps \<and>
    (if m = NULL
     then memo_of s' = memo_of s \<and> events s' = events s \<and> (\<forall>q. handles s q \<noteq> None \<longrightarrow> handles s' q = handles s q)
     else acquired name s m s')"
proof -
  obtain m0 s0 where f: "findModuleHandle name s = (m0, s0)" by fastforce
  have ks: "keys_sorted (modules s)" using inv by (simp add: mod_inv_def memo_ok_def)
  from find_inv [OF inv f] find_spec [OF ks f] have s0: "mod_inv s0 ps" "memo_of s0 = memo_of s"
    "m0 = (case memo_of s name of Some m \<Rightarrow> m | None \<Rightarrow> NULL)" "\<exists>t. s0 = s\<lparr>modules := t\<rparr>" by auto
  then have s0': "handles s0 = handles s" "events s0 = events s" "next_ptr s0 = next_ptr s" by auto
  show ?thesis
  proof (cases "m0 = NULL")
    case False
    with f r have "m = m0" "s' = s0" by (simp_all add: acquireModuleHandle_def)
    with False s0 s0' show ?thesis by (auto simp: acquired_def fun_eq_iff split: option.splits)
  next
    case True
    have none: "memo_of s name = None"
      using inv s0(3) True by (auto simp: mod_inv_def memo_ok_def split: option.splits)
    show ?thesis
    proof (cases "js_ok e ''calloc'' (clock s0)")
      case False
      with True f r have "m = NULL" "s' = s0\<lparr>clock := Suc (clock s0)\<rparr>"
        by (auto simp: acquireModuleHandle_def call_new_def call_def)
      with s0 s0' show ?thesis by (simp add: mod_inv_def memo_ok_def memo_of_def)
    next
      case ok: True
      define n where n: "n = next_ptr s0"
      let ?s1 = "s0\<lparr>clock := Suc (clock s0), next_ptr := Suc n, handles := (handles s0)(n \<mapsto> calloc_handle)\<rparr>"
      let ?hb = "calloc_handle\<lparr>cname := name\<rparr>"
      let ?s2 = "?s1\<lparr>clock := Suc (Suc (clock s0)), handles := (handles s0)(n \<mapsto> ?hb)\<rparr>"
      have mz: "n \<noteq> NULL" "handles s0 n = None" using s0(1) by (auto simp: mod_inv_def n)
      obtain sc' s3 where sc': "(if sc = NULL then newModuleScope e n ?s2 else Some (sc, ?s2)) = Some (sc', s3)"
        and fr: "scope_frame n ?s2 s3"
        using newModuleScope_frame [of ?s2 n ?hb e] scope_frame_refl [of n ?s2] by (cases "sc = NULL") auto
      from fr obtain x where h3: "handles s3 n = Some (?hb\<lparr>exports := x\<rparr>)" by (auto simp: scope_frame_def)
      have s3: "\<forall>q. q \<noteq> n \<longrightarrow> handles s3 q = handles s q" "modules s3 = modules s0" "events s3 = events s"
        "unreachableModule_llist s3 = unreachableModule_llist s0" "Suc n \<le> next_ptr s3"
        using fr s0' by (auto simp: scope_frame_def)
      let ?h = "?hb\<lparr>exports := x, scope := sc'\<rparr>"
      let ?s4 = "s3\<lparr>handles := (handles s3)(n \<mapsto> ?h)\<rparr>"
      have strdup: "js_ok e ''JS_strdup'' (Suc (clock s0))"
        using r f True ok by (rule_tac ccontr) (simp add: acquireModuleHandle_def call_new_def call_def Let_def mz n [symmetric])
      have eq: "acquireModuleHandle e name sc s =
          Option.bind (if sc = NULL then newModuleScope e n ?s2 else Some (sc, ?s2)) (\<lambda>(sc, s).
          Option.bind (upd_handle n (\<lambda>h. h\<lparr>scope := sc\<rparr>) s) (\<lambda>s.
          if sc = NULL then Option.bind (markModuleUnused e n s) (\<lambda>s. Some (NULL, s))
          else Some (n, s\<lparr>modules := fst (SPLAY_INSERT name n (modules s))\<rparr>)))"
        using f True ok strdup mz(1)
        by (simp add: acquireModuleHandle_def call_new_def call_def upd_handle_def n [symmetric])
      have r': "(if sc' = NULL then Option.bind (markModuleUnused e n ?s4) (\<lambda>s. Some (NULL, s))
          else Some (n, ?s4\<lparr>modules := fst (SPLAY_INSERT name n (modules ?s4))\<rparr>)) = Some (m, s')"
        using r h3 unfolding eq sc' by (simp add: upd_handle_def)
      show ?thesis
      proof (cases "sc' = NULL")
        case True
        have "handles ?s4 n = Some ?h" by simp
        from markModuleUnused_spec [OF this, of e] obtain g c where
          "markModuleUnused e n ?s4 = Some (?s4\<lparr>handles := (handles ?s4)(n \<mapsto> unused (?h\<lparr>fini := g\<rparr>)),
             events := events ?s4 @ fini_events n ?h, clock := c\<rparr>)" by blast
        with r' True have m: "m = NULL" and s': "handles s' = (handles s3)(n \<mapsto> unused (?h\<lparr>fini := g\<rparr>))"
          "modules s' = modules s3" "events s' = events s3 @ fini_events n ?h"
          "unreachableModule_llist s' = unreachableModule_llist s3" "next_ptr s' = next_ptr s3" by auto
        have h': "handles s' n = Some (unused (?h\<lparr>fini := g\<rparr>))" by (simp add: s')
        have le: "next_ptr s0 \<le> next_ptr s'" "n < next_ptr s'" using s'(5) s3(5) n by simp_all
        have "keys_sorted (modules s0)" using s0(1) by (simp add: mod_inv_def memo_ok_def)
        then have "mod_inv s' ps"
          by (intro mod_inv_new [OF s0(1) mz(2,1) le(2,1) _ _ h'])
            (use s' s3 s0' in \<open>simp_all add: unused_def calloc_handle_def memo_of_def\<close>)
        with m s' s3 s0(2) mz(2) s0' show ?thesis
          by (auto simp: memo_of_def fini_events_def calloc_handle_def)
      next
        case False
        from r' False have m: "m = n" and s': "s' = ?s4\<lparr>modules := fst (SPLAY_INSERT name n (modules s3))\<rparr>"
          by auto
        have ks0: "keys_sorted (modules s3)" "memo_of s0 name = None" "map_of (inorder (modules s3)) name = None"
          using s0(1,2) none s3(2) by (auto simp: mod_inv_def memo_ok_def memo_of_def)
        from insert_new [OF ks0(1,3), of n] have md: "keys_sorted (modules s')"
          "memo_of s' = (memo_of s0)(name \<mapsto> n)"
          by (simp_all add: s' memo_of_def s3(2))
        have h': "handles s' n = Some ?h" by (simp add: s')
        have le: "next_ptr s0 \<le> next_ptr s'" "n < next_ptr s'" using s' s3(5) n by simp_all
        have "mod_inv s' ps"
          by (rule mod_inv_new [OF s0(1) mz(2,1) le(2,1) _ _ h'])
            (use s' s3 s0' md in \<open>simp_all add: calloc_handle_def\<close>)
        moreover have "fresh_handle name ?h" by (simp add: fresh_handle_def calloc_handle_def)
        ultimately show ?thesis
          using m mz none s' s3 s0' s0(2) md h' False by (simp add: acquired_def)
      qed
    qed
  qed
qed

text \<open>What acquiring a handle leaves as it was; the handle is found or new.\<close>

lemma acquire_keeps:
  assumes r: "acquireModuleHandle e name sc s = Some (m, s')" and z: "0 < next_ptr s"
  shows "next_ptr s \<le> next_ptr s' \<and> requireLockDepth s' = requireLockDepth s
    \<and> modulePath s' = modulePath s \<and> moduleJail s' = moduleJail s \<and> globalObject s' = globalObject s
    \<and> programModule s' = programModule s
    \<and> (\<forall>q < next_ptr s. handles s' q = handles s q)
    \<and> (m \<noteq> NULL \<longrightarrow> m = fst (findModuleHandle name s) \<or> next_ptr s \<le> m \<and> m < next_ptr s')"
proof -
  obtain m0 s0 where f: "findModuleHandle name s = (m0, s0)" by fastforce
  then obtain t where s0: "s0 = s\<lparr>modules := t\<rparr>"
    by (auto simp: findModuleHandle_def split: prod.splits)
  consider (found) "m0 \<noteq> NULL" | (nomem) "m0 = NULL" "\<not> js_ok e ''calloc'' (clock s0)"
    | (new) "m0 = NULL" "js_ok e ''calloc'' (clock s0)" by blast
  then show ?thesis
  proof cases
    case found
    with f r s0 show ?thesis by (auto simp: acquireModuleHandle_def)
  next
    case nomem
    with f r s0 show ?thesis by (auto simp: acquireModuleHandle_def call_new_def call_def)
  next
    case new
    define n where n: "n = next_ptr s0"
    have nz: "n \<noteq> NULL" "n = next_ptr s" using z by (simp_all add: n s0)
    let ?s1 = "s0\<lparr>clock := Suc (clock s0), next_ptr := Suc n, handles := (handles s0)(n \<mapsto> calloc_handle)\<rparr>"
    let ?hb = "calloc_handle\<lparr>cname := name\<rparr>"
    let ?s2 = "?s1\<lparr>clock := Suc (Suc (clock s0)), handles := (handles s0)(n \<mapsto> ?hb)\<rparr>"
    obtain sc' s3 where sc': "(if sc = NULL then newModuleScope e n ?s2 else Some (sc, ?s2)) = Some (sc', s3)"
      and fr: "scope_frame n ?s2 s3"
      using newModuleScope_frame [of ?s2 n ?hb e] scope_frame_refl [of n ?s2] by (cases "sc = NULL") auto
    from fr obtain x where h3: "handles s3 n = Some (?hb\<lparr>exports := x\<rparr>)" by (auto simp: scope_frame_def)
    have strdup: "js_ok e ''JS_strdup'' (Suc (clock s0))"
      using r f new by (rule_tac ccontr) (simp add: acquireModuleHandle_def call_new_def call_def Let_def nz(1) n [symmetric])
    have eq: "acquireModuleHandle e name sc s =
        Option.bind (if sc = NULL then newModuleScope e n ?s2 else Some (sc, ?s2)) (\<lambda>(sc, s).
        Option.bind (upd_handle n (\<lambda>h. h\<lparr>scope := sc\<rparr>) s) (\<lambda>s.
        if sc = NULL then Option.bind (markModuleUnused e n s) (\<lambda>s. Some (NULL, s))
        else Some (n, s\<lparr>modules := fst (SPLAY_INSERT name n (modules s))\<rparr>)))"
      using f new strdup nz(1)
      by (simp add: acquireModuleHandle_def call_new_def call_def upd_handle_def n [symmetric])
    let ?s4 = "s3\<lparr>handles := (handles s3)(n \<mapsto> ?hb\<lparr>exports := x, scope := sc'\<rparr>)\<rparr>"
    have r': "(if sc' = NULL then Option.bind (markModuleUnused e n ?s4) (\<lambda>s. Some (NULL, s))
        else Some (n, ?s4\<lparr>modules := fst (SPLAY_INSERT name n (modules ?s4))\<rparr>)) = Some (m, s')"
      using r h3 unfolding eq sc' by (simp add: upd_handle_def)
    have fr': "requireLockDepth s3 = requireLockDepth s \<and> modulePath s3 = modulePath s
        \<and> moduleJail s3 = moduleJail s \<and> globalObject s3 = globalObject s \<and> programModule s3 = programModule s
        \<and> Suc n \<le> next_ptr s3 \<and> (\<forall>q. q \<noteq> n \<longrightarrow> handles s3 q = handles s q)"
      using fr by (simp add: scope_frame_def s0)
    show ?thesis
    proof (cases "sc' = NULL")
      case True
      have "handles ?s4 n = Some (?hb\<lparr>exports := x, scope := sc'\<rparr>)" by simp
      from markModuleUnused_spec [OF this, of e] obtain s5 where s5: "markModuleUnused e n ?s4 = Some s5"
        "requireLockDepth s5 = requireLockDepth s3 \<and> modulePath s5 = modulePath s3
        \<and> moduleJail s5 = moduleJail s3 \<and> globalObject s5 = globalObject s3 \<and> programModule s5 = programModule s3
        \<and> next_ptr s5 = next_ptr s3" "\<forall>q. q \<noteq> n \<longrightarrow> handles s5 q = handles s3 q" by fastforce
      from r' True s5(1) have "m = NULL" "s' = s5" by auto
      with s5(2,3) fr' nz show ?thesis by simp
    next
      case False
      with r' have "m = n" "s' = ?s4\<lparr>modules := fst (SPLAY_INSERT name n (modules s3))\<rparr>" by auto
      with fr' nz show ?thesis by simp
    qed
  qed
qed

section \<open>What a furnished scope offers\<close>

lemma guard_True: "guard r k = Some (True, s') \<longleftrightarrow> (\<exists>s1. r = (True, s1) \<and> k s1 = Some (True, s'))"
  by (cases r) (auto simp: guard_def)

lemma define_property_True:
  "define_property e obj n v a s = (True, s') \<Longrightarrow>
   s' = s\<lparr>clock := Suc (clock s), props := (props s)(obj := (props s obj)(n \<mapsto> (v, a)))\<rparr>"
  by (auto simp: define_property_def call_def split: if_splits)

lemma set_slot_True:
  "set_slot e obj i v s = (True, s') \<Longrightarrow>
   s' = s\<lparr>clock := Suc (clock s), slots := (slots s)(obj := (slots s obj)(i := v))\<rparr>"
  by (auto simp: set_slot_def call_def split: if_splits)

lemma call_new_pos:
  "call_new e f s = (p, s') \<Longrightarrow> p \<noteq> NULL \<Longrightarrow>
   p = next_ptr s \<and> s' = s\<lparr>clock := Suc (clock s), next_ptr := Suc (next_ptr s)\<rparr>"
  by (auto simp: call_new_def call_def split: if_splits)

lemma call_new_le: "call_new e f s = (p, s') \<Longrightarrow> next_ptr s \<le> next_ptr s' \<and> props s' = props s
   \<and> slots s' = slots s \<and> handles s' = handles s \<and> scope_info s' = scope_info s
   \<and> globalObject s' = globalObject s"
  by (auto simp: call_new_def call_def split: if_splits)

lemma copy_protos_keeps:
  "copy_protos e src dst key n s = (b, s') \<Longrightarrow>
   props s' = props s \<and> handles s' = handles s \<and> scope_info s' = scope_info s \<and> next_ptr s' = next_ptr s
   \<and> globalObject s' = globalObject s"
proof (induction n arbitrary: key s)
  case (Suc n)
  then show ?case
    by (fastforce simp: call_def set_slot_def split: prod.splits if_splits)
qed simp

lemma ensure_path_keeps:
  "ensure_userModulePath e s = (b, s') \<Longrightarrow>
   props s' = props s \<and> slots s' = slots s \<and> handles s' = handles s \<and> scope_info s' = scope_info s
   \<and> next_ptr s \<le> next_ptr s' \<and> (b \<longrightarrow> userModulePath s' \<noteq> NULL)"
  by (auto simp: ensure_userModulePath_def call_new_def call_def split: if_splits)

lemma call_True: "call e f s = (True, s') \<Longrightarrow> s' = s\<lparr>clock := Suc (clock s)\<rparr>"
  by (simp add: call_def)

lemma set_info_True: "setModuleScopeInfo e sc m s = (True, s') \<Longrightarrow>
   s' = s\<lparr>clock := Suc (clock s), scope_info := (scope_info s)(sc \<mapsto> m)\<rparr>"
  by (auto simp: setModuleScopeInfo_def call_def split: if_splits)

definition ensures :: "(mst \<Rightarrow> bool) \<Rightarrow> (bool \<times> mst) option \<Rightarrow> bool" where
  "ensures P r \<longleftrightarrow> (\<forall>s'. r = Some (True, s') \<longrightarrow> P s')"

lemma ensures_guard: "(\<And>s1. r = (True, s1) \<Longrightarrow> ensures P (k s1)) \<Longrightarrow> ensures P (guard r k)"
  by (cases r) (auto simp: ensures_def guard_def)

lemma ensures_split: "(\<And>x s1. r = (x, s1) \<Longrightarrow> ensures P (k x s1)) \<Longrightarrow> ensures P (case r of (x, s) \<Rightarrow> k x s)"
  by (cases r) simp

lemma ensures_bind: "(\<And>x. r = Some x \<Longrightarrow> ensures P (k x)) \<Longrightarrow> ensures P (Option.bind r k)"
  by (cases r) (auto simp: ensures_def)

lemma ensures_fail: "(\<not> c \<Longrightarrow> ensures P k) \<Longrightarrow> ensures P (if c then Some (False, s) else k)"
  by (auto simp: ensures_def)

lemma ensures_Some: "(\<And>s'. r = (True, s') \<Longrightarrow> P s') \<Longrightarrow> ensures P (Some r)"
  by (auto simp: ensures_def)

text \<open>What the code of a module finds in its scope.\<close>

definition offers :: "nat \<Rightarrow> ptr \<Rightarrow> ptr \<Rightarrow> mst \<Rightarrow> bool" where
  "offers a m sc s \<longleftrightarrow> scope_info s sc = Some m
     \<and> (\<exists>req modobj h. handles s m = Some h
        \<and> props s sc ''require'' = Some (OBJECT_TO_JSVAL req, a) \<and> slots s req 0 = PRIVATE_TO_JSVAL m
        \<and> props s req ''paths'' \<noteq> None \<and> props s req ''main'' \<noteq> None
        \<and> props s sc ''exports'' = Some (OBJECT_TO_JSVAL (exports h), a)
        \<and> props s sc ''module'' = Some (OBJECT_TO_JSVAL modobj, a)
        \<and> props s modobj ''id'' = Some (STRING_TO_JSVAL (cname h), a))"

lemma globals_offer:
  assumes "scope_info s sc = Some m" and "props s sc ''require'' = Some (OBJECT_TO_JSVAL req, a)"
    and "sc < req" and "req < next_ptr s"
  shows "ensures (offers a m sc) (define_module_globals e m sc req a s)"
  unfolding define_module_globals_def Let_def newModuleExports_def
  apply (rule ensures_guard, drule ensure_path_keeps)
  apply (rule ensures_guard, drule define_property_True)
  apply (rule ensures_guard, drule set_slot_True)
  apply (rule ensures_split, drule call_new_le)
  apply (rule ensures_bind)
  apply (rule ensures_guard, drule define_property_True)
  apply (rule ensures_split, rule ensures_fail, drule (1) call_new_pos)
  apply (rule ensures_guard, drule define_property_True)
  apply (rule ensures_guard, drule define_property_True)
  apply (rule ensures_guard, drule call_True)
  apply (rule ensures_bind)
  apply (rule ensures_Some, drule define_property_True)
  subgoal premises p for s1 s2 s3 exps s4 s5 s6 modobj s7 s8 s9 s10 h s11
  proof -
    from p(5) obtain h0 where h0: "handles s4 m = Some h0" and
      s5: "s5 = s4\<lparr>handles := (handles s4)(m \<mapsto> h0\<lparr>exports := exps\<rparr>)\<rparr>" by (auto simp: upd_handle_def)
    define s7' where s7': "s7' = (if m = programModule s7 then s7\<lparr>requireDotMain := modobj\<rparr> else s7)"
    have f7: "props s7' = props s7" "slots s7' = slots s7" "handles s7' = handles s7"
      "scope_info s7' = scope_info s7" by (simp_all add: s7')
    have n: "next_ptr s \<le> next_ptr s1" "next_ptr s3 = next_ptr s1" "next_ptr s3 \<le> next_ptr s4"
      "next_ptr s6 = next_ptr s4" "modobj = next_ptr s6"
      using p(1) p(2,3) p(4) p(6) p(8) by (simp_all add: s5)
    then have ne: "modobj \<noteq> sc" "modobj \<noteq> req" "req \<noteq> sc" using assms(3,4) by linarith+
    note s8 = p(9) [folded s7'] and s9 = p(10) and s10 = p(11) and s11 = p(13)
    have p4: "props s4 = (props s)(req := (props s req)(''paths'' \<mapsto> (OBJECT_TO_JSVAL (userModulePath s1), a)))"
      using p(1) p(2,3) p(4) by simp
    have p7: "props s7 = (props s4)(sc := (props s4 sc)(''exports'' \<mapsto> (OBJECT_TO_JSVAL exps, a)))"
      using p(6) p(8) by (simp add: s5)
    have p9: "props s9 = (props s7)(req := (props s7 req)(''main'' \<mapsto> (OBJECT_TO_JSVAL (requireDotMain s7'), a)),
        sc := (props s7 sc)(''module'' \<mapsto> (OBJECT_TO_JSVAL modobj, a)))"
      using ne(3) by (simp add: s9 s8 f7)
    have p11: "props s11 = (props s9)(modobj := (props s9 modobj)(''id'' \<mapsto> (STRING_TO_JSVAL (cname h), a)))"
      by (simp add: s11 s10)
    have h7: "handles s7 m = Some (h0\<lparr>exports := exps\<rparr>)" using p(6) p(8) by (simp add: s5)
    have h10: "handles s10 = handles s7" "handles s11 = handles s7" by (simp_all add: s11 s10 s9 s8 f7)
    have h: "h = h0\<lparr>exports := exps\<rparr>" using p(12) h7 h10 by simp
    have hs: "handles s11 m = Some h" using h7 h10 h by simp
    have "scope_info s7 = scope_info s" "slots s7 = (slots s1)(req := (slots s1 req)(0 := PRIVATE_TO_JSVAL m))"
      using p(1) p(2) p(3) p(4) p(6) p(8) by (simp_all add: s5)
    then have si: "scope_info s11 sc = Some m" and sl: "slots s11 req 0 = PRIVATE_TO_JSVAL m"
      using assms(1) by (simp_all add: s11 s10 s9 s8 f7)
    have r: "props s11 sc ''require'' = Some (OBJECT_TO_JSVAL req, a)"
      using assms(2) ne ne [symmetric] by (simp add: p11 p9 p7 p4)
    have pm: "props s11 req ''paths'' \<noteq> None" "props s11 req ''main'' \<noteq> None"
      using ne ne [symmetric] by (simp_all add: p11 p9 p7 p4)
    have em: "props s11 sc ''exports'' = Some (OBJECT_TO_JSVAL (exports h), a)"
      "props s11 sc ''module'' = Some (OBJECT_TO_JSVAL modobj, a)"
      "props s11 modobj ''id'' = Some (STRING_TO_JSVAL (cname h), a)"
      using ne ne [symmetric] by (simp_all add: p11 p9 p7 p4 h)
    show ?thesis unfolding offers_def using hs si r sl pm em by blast
  qed
  done

lemma initialize_offers:
  assumes "sc < next_ptr s"
  shows "ensures (offers (JSPROP_ENUMERATE + (if vol then 0 else JSPROP_PERMANENT + JSPROP_READONLY)) m sc)
    (initializeModuleScope e m sc vol s)"
  unfolding initializeModuleScope_def Let_def
  apply (rule ensures_guard, drule set_info_True)
  apply (rule ensures_guard)
  apply (rule ensures_guard)
  apply (rule ensures_split, rule ensures_fail, drule (1) call_new_pos)
  subgoal premises p for s1 s2 s3 req s4
  proof -
    have 2: "scope_info s2 = scope_info s1 \<and> next_ptr s2 = next_ptr s1"
      using p(2) by (auto split: if_splits dest!: copy_protos_keeps)
    have 3: "scope_info s3 = scope_info s2 \<and> next_ptr s3 = next_ptr s2"
      using p(3) by (auto split: if_splits dest!: define_property_True)
    have s4: "req = next_ptr s3" "next_ptr s4 = Suc req" "scope_info s4 = scope_info s3" using p(5) by simp_all
    have "scope_info s1 sc = Some m" "next_ptr s1 = next_ptr s" using p(1) by simp_all
    with 2 3 s4 assms show ?thesis by (intro globals_offer) simp_all
  qed
  done

section \<open>Properties\<close>

text \<open>C10: A canonical name stands for one module: once a handle was acquired for it, acquiring it again
  -- whatever else the engine does, and with any scope -- gives the same handle, changes no
  handle and allocates none.\<close>

theorem acquire_is_memoised:
  assumes "mod_inv s ps" and "acquireModuleHandle e name sc s = Some (m, s1)" and "m \<noteq> NULL"
  shows "\<exists>s2. acquireModuleHandle e' name sc' s1 = Some (m, s2) \<and> handles s2 = handles s1
    \<and> memo_of s2 = memo_of s1 \<and> next_ptr s2 = next_ptr s1 \<and> mod_inv s2 ps"
proof -
  from acquire_spec [OF assms(1,2)] assms(3) have inv: "mod_inv s1 ps" and mm: "memo_of s1 name = Some m"
    by (simp_all add: acquired_def)
  have ks: "keys_sorted (modules s1)" using inv by (simp add: mod_inv_def memo_ok_def)
  obtain m' s2 where f: "findModuleHandle name s1 = (m', s2)" by fastforce
  from find_spec [OF ks f] mm have "m' = m" "\<exists>t. s2 = s1\<lparr>modules := t\<rparr>" by auto
  with find_inv [OF inv f] f assms(3) show ?thesis by (auto simp: acquireModuleHandle_def)
qed

definition env_ok :: scope_env where
  "env_ok = \<lparr>js_ok = \<lambda>_ _. True, fini_ret = \<lambda>_ _ _ _. True, JSProto_LIMIT = 2, get_prop = \<lambda>_ _ _. None\<rparr>"

lemma mst_empty_inv: "mod_inv mst_empty []"
  by (simp add: mod_inv_def memo_ok_def memo_of_def mst_empty_def)

theorem acquire_is_memoised_witness:
  "\<exists>s1 s2. acquireModuleHandle env_ok ''/lib/x'' 5 mst_empty = Some (10, s1)
    \<and> acquireModuleHandle env_ok ''/lib/x'' NULL s1 = Some (10, s2) \<and> handles s2 = handles s1"
proof -
  have "\<exists>s1. acquireModuleHandle env_ok ''/lib/x'' 5 mst_empty = Some (10, s1)"
    by (simp add: acquireModuleHandle_def findModuleHandle_def SPLAY_FIND_def mst_empty_def call_new_def
        call_def env_ok_def upd_handle_def Let_def)
  then show ?thesis using acquire_is_memoised [OF mst_empty_inv, of env_ok "''/lib/x''" 5 10] by fastforce
qed

text \<open>When the scope of a module was furnished, the module's code finds in it \<open>require\<close>, tied to
  the module's own handle and with \<open>paths\<close> and \<open>main\<close>, the very \<open>exports\<close> object
  that require will return, and \<open>module.id\<close> with the canonical name; all of them permanent
  and read-only unless the scope is volatile.\<close>

theorem scope_is_furnished:
  assumes "initializeModuleScope e m sc vol s = Some (True, s')" and "sc < next_ptr s"
  shows "offers (if vol then 1 else 7) m sc s'"
  using initialize_offers [OF assms(2), of vol m e] assms(1)
  by (auto simp: ensures_def JSPROP_ENUMERATE_def JSPROP_PERMANENT_def JSPROP_READONLY_def split: if_splits)

theorem scope_is_furnished_witness:
  "\<exists>s'. initializeModuleScope env_ok 4 7 False (mst_two\<lparr>scope_info := Map.empty\<rparr>) = Some (True, s')
    \<and> offers 7 4 7 s'"
proof -
  have "\<exists>s'. initializeModuleScope env_ok 4 7 False (mst_two\<lparr>scope_info := Map.empty\<rparr>) = Some (True, s')"
    by (simp add: initializeModuleScope_def define_module_globals_def guard_def setModuleScopeInfo_def
        call_def call_new_def env_ok_def mst_two_def mst_empty_def define_property_def set_slot_def
        ensure_userModulePath_def newModuleExports_def upd_handle_def numeral_2_eq_2 Let_def)
  then show ?thesis
    using scope_is_furnished [of env_ok 4 7 False "mst_two\<lparr>scope_info := Map.empty\<rparr>"]
    by (fastforce simp: mst_two_def mst_empty_def)
qed

end
