(* ===== verification/CBuffers.thy ===== *)
theory CBuffers
  imports Prelude
begin

text \<open>
  The string and path helpers of gpsee\_util.c: \<open>gpsee_cpystrn\<close>, \<open>gpsee_catstrn\<close>,
  \<open>gpsee_basename\<close>, \<open>gpsee_dirname\<close>, \<open>gpsee_resolvepath\<close> and the static \<open>spaces\<close> and
  \<open>rev_strchr\<close>.  A destination buffer is the memory object it points into (a \<open>char list\<close>
  of the allocated length) with the offset of the pointer; a source string does not overlap
  it.  \<open>None\<close> is an access outside the destination object.  \<open>realpath\<close> and \<open>malloc\<close> are
  parameters.
\<close>

section \<open>Bounded copy and concatenation\<close>

fun cpystrn_loop :: "char list \<Rightarrow> nat \<Rightarrow> string \<Rightarrow> nat \<Rightarrow> (char list \<times> nat) option" where
  "cpystrn_loop buf d src 0 = map_option (\<lambda>b. (b, d)) (mem_store buf d NUL)"
| "cpystrn_loop buf d [] (Suc n) = map_option (\<lambda>b. (b, d)) (mem_store buf d NUL)"
| "cpystrn_loop buf d (c # cs) (Suc n) =
     (case mem_store buf d c of None \<Rightarrow> None | Some b \<Rightarrow> cpystrn_loop b (Suc d) cs n)"

definition gpsee_cpystrn ::
    "char list \<Rightarrow> nat \<Rightarrow> string \<Rightarrow> nat \<Rightarrow> (char list \<times> nat) option" where
  "gpsee_cpystrn buf d src dst_size =
     (if dst_size \<noteq> 0 then cpystrn_loop buf d src dst_size else Some (buf, d))"

definition gpsee_catstrn ::
    "char list \<Rightarrow> string \<Rightarrow> nat \<Rightarrow> (char list \<times> nat) option" where
  "gpsee_catstrn dst src dst_size =
     (if dst_size = 0 then Some (dst, 0)
      else case scan_nul dst of
          None \<Rightarrow> None
        | Some s \<Rightarrow>
            (let size' = size_sub dst_size s
             in case gpsee_cpystrn dst s src size' of
                  None \<Rightarrow> None
                | Some (buf, e) \<Rightarrow> Some (buf, size_sub size' (e - s))))"

lemma cpystrn_loop_eq:
  "cpystrn_loop buf d src n =
     (if d + min n (length src) < length buf
      then Some (take d buf @ take n src @ NUL # drop (Suc (d + min n (length src))) buf,
                 d + min n (length src))
      else None)"
proof (induction buf d src n rule: cpystrn_loop.induct)
  case (1 buf d src)
  then show ?case by (auto simp: mem_store_def upd_conv_take_nth_drop)
next
  case (2 buf d n)
  then show ?case by (auto simp: mem_store_def upd_conv_take_nth_drop)
next
  case (3 buf d c cs n)
  then show ?case
    by (auto simp: mem_store_def take_Suc_conv_app_nth take_update_swap drop_update_cancel
        split: option.splits if_splits) (auto simp: take_Suc_conv_app_nth upd_conv_take_nth_drop)
qed

lemma cpystrn_eq:
  "0 < n \<Longrightarrow> gpsee_cpystrn buf d src n =
     (if d + min n (length src) < length buf
      then Some (take d buf @ take n src @ NUL # drop (Suc (d + min n (length src))) buf,
                 d + min n (length src))
      else None)"
  by (simp add: gpsee_cpystrn_def cpystrn_loop_eq)

text \<open>
  When the size passed is the size of the object, the copy stays inside it exactly when the
  source fits with its terminator: the truncating case writes its NUL one byte too far.
\<close>

lemma cpystrn_defined_iff:
  "0 < length buf \<Longrightarrow>
   gpsee_cpystrn buf 0 src (length buf) \<noteq> None \<longleftrightarrow> length src < length buf"
  by (auto simp: cpystrn_eq)

lemma cpystrn_fits:
  "length src < n \<Longrightarrow> d + length src < length buf \<Longrightarrow>
   gpsee_cpystrn buf d src n =
     Some (take d buf @ src @ NUL # drop (Suc (d + length src)) buf, d + length src)"
  by (simp add: cpystrn_eq min_def)

lemma catstrn_eq:
  assumes "scan_nul dst = Some s" and "s < n" and "n < SIZE_MOD"
  shows "gpsee_catstrn dst src n =
     (if s + min (n - s) (length src) < length dst
      then Some (take s dst @ take (n - s) src @ NUL # drop (Suc (s + min (n - s) (length src))) dst,
                 (n - s) - min (n - s) (length src))
      else None)"
  using assms by (auto simp: gpsee_catstrn_def size_sub_le cpystrn_eq Let_def)

section \<open>Base name and directory name\<close>

definition gpsee_basename :: "string \<Rightarrow> string" where
  "gpsee_basename fullpath =
     (case strrchr fullpath CHR ''/'' of
        None \<Rightarrow> fullpath
      | Some slash \<Rightarrow>
          if Suc slash = length fullpath then ''/'' else drop (Suc slash) fullpath)"

text \<open>
  The value is the buffer and whether its address (rather than NULL) is returned; the outer
  \<open>None\<close> is a write outside it.
\<close>

definition gpsee_dirname :: "string \<Rightarrow> char list \<Rightarrow> nat \<Rightarrow> (char list \<times> bool) option" where
  "gpsee_dirname fullpath buf bufLen =
     (if bufLen < 2 then Some (buf, False)
      else case strrchr fullpath CHR ''/'' of
          None \<Rightarrow>
            (case mem_store buf 0 CHR ''.'' of
               None \<Rightarrow> None
             | Some b \<Rightarrow> map_option (\<lambda>b. (b, True)) (mem_store b 1 NUL))
        | Some slash \<Rightarrow>
            if bufLen \<le> slash then Some (buf, False)
            else case store_block buf 0 (take slash fullpath) of
                None \<Rightarrow> None
              | Some b \<Rightarrow> map_option (\<lambda>b. (b, True)) (mem_store b slash NUL))"

text \<open>The C string \<open>gpsee_dirname\<close> leaves in its buffer, when it returns the buffer.\<close>

definition dirname_of :: "string \<Rightarrow> string" where
  "dirname_of p = (case strrchr p CHR ''/'' of None \<Rightarrow> ''.'' | Some i \<Rightarrow> take i p)"

lemma dirname_result:
  assumes "NUL \<notin> set p" and "2 \<le> n" and "n \<le> length buf" and "length (dirname_of p) < n"
  shows "\<exists>buf'. gpsee_dirname p buf n = Some (buf', True) \<and> cstr_at buf' 0 = Some (dirname_of p)
           \<and> length buf' = length buf"
proof (cases "strrchr p CHR ''/''")
  case None
  from assms obtain a b rest where "buf = a # b # rest"
    by (metis Suc_le_length_iff numeral_2_eq_2 order_trans)
  with None assms show ?thesis
    by (auto simp: gpsee_dirname_def dirname_of_def mem_store_def cstr_at_def)
next
  case (Some i)
  have i: "i < length p" using strrchr_Some [OF Some] by simp
  with Some assms have lt: "i < n" by (simp add: dirname_of_def)
  let ?b = "take i p @ drop i buf"
  have blk: "store_block buf 0 (take i p) = Some ?b"
    using i lt assms by (simp add: store_block_def)
  have st: "mem_store ?b i NUL = Some (take i p @ NUL # drop (Suc i) buf)"
    using i lt assms by (simp add: mem_store_def upd_conv_take_nth_drop)
  have "cstr_at (take i p @ NUL # drop (Suc i) buf) 0 = Some (take i p)"
    using cstr_at_append [of "[]" 0 "take i p" "drop (Suc i) buf"] assms(1)
    by (auto dest: in_set_takeD)
  with Some blk st i lt assms show ?thesis
    by (simp add: gpsee_dirname_def dirname_of_def)
qed

lemma dirname_fails:
  "n < 2 \<or> (\<exists>i. strrchr p CHR ''/'' = Some i \<and> n \<le> i) \<Longrightarrow>
   gpsee_dirname p buf n = Some (buf, False)"
  by (auto simp: gpsee_dirname_def)

lemma dirname_basename:
  assumes "strrchr p CHR ''/'' = Some i" and "Suc i < length p"
  shows "dirname_of p @ ''/'' @ gpsee_basename p = p"
proof -
  from strrchr_Some [OF assms(1)] have i: "p ! i = CHR ''/''" "i < length p" by simp_all
  have "p = take i p @ p ! i # drop (Suc i) p"
    using i(2) by (rule id_take_nth_drop)
  with assms i show ?thesis
    by (simp add: dirname_of_def gpsee_basename_def)
qed

lemma basename_no_slash: "gpsee_basename p = ''/'' \<or> CHR ''/'' \<notin> set (gpsee_basename p)"
  by (auto simp: gpsee_basename_def strrchr_None split: option.splits dest: strrchr_Some)

section \<open>Resolving a path\<close>

datatype errno = EINVAL | ENAMETOOLONG | ENOMEM | ERealpath

definition PATH_MAX :: nat where
  "PATH_MAX = 4096"

text \<open>
  \<open>buf = None\<close> is the NULL buffer, and the object behind a non-NULL one may be longer than
  \<open>bufsiz\<close>.  \<open>realpath\<close> gives the resolved name of a path, \<open>mallocOk\<close> whether the
  intermediate buffer is allocated.  The result is the return value, the buffer and the errno set.
\<close>

definition gpsee_resolvepath ::
    "(string \<Rightarrow> string option) \<Rightarrow> bool \<Rightarrow> string \<Rightarrow> char list option \<Rightarrow> nat \<Rightarrow>
     (int \<times> char list option \<times> errno option) option" where
  "gpsee_resolvepath realpath mallocOk path buf bufsiz =
     (case buf of
        None \<Rightarrow> Some (-1, None, Some (if bufsiz \<noteq> 0 then EINVAL else ENAMETOOLONG))
      | Some b \<Rightarrow>
          if bufsiz < PATH_MAX then
            if \<not> mallocOk then Some (-1, Some b, Some ENOMEM)
            else case realpath path of
                None \<Rightarrow> Some (-1, Some b, Some ERealpath)
              | Some rp \<Rightarrow>
                  (case gpsee_cpystrn b 0 rp bufsiz of
                     None \<Rightarrow> None
                   | Some (b', s) \<Rightarrow>
                       if s = bufsiz then Some (-1, Some b', Some ENAMETOOLONG)
                       else Some (int s, Some b', None))
          else case realpath path of
              None \<Rightarrow> Some (-1, Some b, Some ERealpath)
            | Some rp \<Rightarrow>
                map_option (\<lambda>b'. (int (length rp), Some b', None)) (store_block b 0 (rp @ [NUL])))"

lemma resolvepath_ok:
  assumes "realpath path = Some rp" and "length rp < bufsiz" and "bufsiz \<le> length b"
  shows "\<exists>b'. gpsee_resolvepath realpath True path (Some b) bufsiz
              = Some (int (length rp), Some b', None) \<and> b' = rp @ NUL # drop (Suc (length rp)) b"
  using assms by (auto simp: gpsee_resolvepath_def cpystrn_fits store_block_def)

lemma resolvepath_fails:
  assumes "realpath path = None"
  shows "gpsee_resolvepath realpath True path (Some b) bufsiz = Some (-1, Some b, Some ERealpath)"
  using assms by (simp add: gpsee_resolvepath_def)

text \<open>
  The overrun test recognises a truncated copy, but only after the terminator has gone past
  \<open>bufsiz\<close>: with an object of exactly \<open>bufsiz\<close> bytes the test is never reached.
\<close>

lemma resolvepath_truncated:
  assumes "realpath path = Some rp" and "0 < bufsiz" and "bufsiz \<le> length rp" and "bufsiz < PATH_MAX"
  shows "gpsee_resolvepath realpath True path (Some b) bufsiz =
     (if bufsiz < length b
      then Some (-1, Some (take bufsiz rp @ NUL # drop (Suc bufsiz) b), Some ENAMETOOLONG)
      else None)"
  using assms by (simp add: gpsee_resolvepath_def cpystrn_eq)

section \<open>Small scanners\<close>

text \<open>\<open>rev_strchr\<close> walks down from \<open>start\<close> to \<open>limit\<close> inside one string.\<close>

function rev_strchr :: "char list \<Rightarrow> int \<Rightarrow> char \<Rightarrow> int \<Rightarrow> int option" where
  "rev_strchr buf s search limit =
     (if limit \<le> s then
        if buf ! nat s = search then Some s else rev_strchr buf (s - 1) search limit
      else None)"
  by pat_completeness auto
termination
  by (relation "measure (\<lambda>(buf, s, search, limit). nat (s + 1 - limit))") auto

declare rev_strchr.simps [simp del]

lemma rev_strchr_step:
  "limit \<le> s \<Longrightarrow> rev_strchr buf s c limit =
     (if buf ! nat s = c then Some s else rev_strchr buf (s - 1) c limit)"
  by (rule trans [OF rev_strchr.simps]) simp

lemma rev_strchr_stop: "\<not> limit \<le> s \<Longrightarrow> rev_strchr buf s c limit = None"
  by (rule trans [OF rev_strchr.simps]) simp

lemma rev_strchr_Some:
  "rev_strchr buf s c limit = Some i \<Longrightarrow>
   limit \<le> i \<and> i \<le> s \<and> buf ! nat i = c \<and> (\<forall>j. i < j \<and> j \<le> s \<longrightarrow> buf ! nat j \<noteq> c)"
proof (induction buf s c limit rule: rev_strchr.induct)
  case (1 buf s c limit)
  consider (stop) "\<not> limit \<le> s" | (found) "limit \<le> s" "buf ! nat s = c"
    | (down) "limit \<le> s" "buf ! nat s \<noteq> c" by blast
  then show ?case
  proof cases
    case stop
    with "1.prems" show ?thesis by (simp add: rev_strchr_stop)
  next
    case found
    with "1.prems" have "i = s" by (simp add: rev_strchr_step)
    with found show ?thesis by (intro conjI allI impI; linarith?) simp_all
  next
    case down
    with "1.prems" have "rev_strchr buf (s - 1) c limit = Some i" by (simp add: rev_strchr_step)
    from "1.IH" [OF down this] have ih: "limit \<le> i" "i \<le> s - 1" "buf ! nat i = c"
      "\<And>j. i < j \<Longrightarrow> j \<le> s - 1 \<Longrightarrow> buf ! nat j \<noteq> c" by blast+
    have "buf ! nat j \<noteq> c" if "i < j" "j \<le> s" for j
      using ih(4) [of j] down that by (cases "j = s") auto
    with ih show ?thesis by auto
  qed
qed

lemma rev_strchr_None:
  "rev_strchr buf s c limit = None \<Longrightarrow> limit \<le> j \<Longrightarrow> j \<le> s \<Longrightarrow> buf ! nat j \<noteq> c"
proof (induction buf s c limit rule: rev_strchr.induct)
  case (1 buf s c limit)
  from "1.prems" have lim: "limit \<le> s" by simp
  with "1.prems"(1) have ne: "buf ! nat s \<noteq> c" and rest: "rev_strchr buf (s - 1) c limit = None"
    by (simp_all add: rev_strchr_step split: if_splits)
  show ?case
  proof (cases "j = s")
    case False
    with "1.prems" have "j \<le> s - 1" by simp
    with "1.IH" [OF lim ne rest "1.prems"(2)] show ?thesis by simp
  qed (simp add: ne)
qed

definition spaces :: "nat \<Rightarrow> char list \<Rightarrow> nat \<Rightarrow> (char list \<times> bool) option" where
  "spaces n buf len =
     (if len = 0 then Some (buf, False)
      else let n' = (if len \<le> n then len - 1 else n)
           in case store_block buf 0 (replicate n' CHR '' '') of
                None \<Rightarrow> None
              | Some b \<Rightarrow> map_option (\<lambda>b. (b, True)) (mem_store b n' NUL))"

lemma spaces_result:
  assumes "0 < len" and "len \<le> length buf"
  shows "\<exists>b. spaces n buf len = Some (b, True)
           \<and> cstr_at b 0 = Some (replicate (min n (len - 1)) CHR '' '')"
proof -
  let ?n = "min n (len - 1)"
  have n: "(if len \<le> n then len - 1 else n) = ?n" using assms by auto
  have lt: "?n < length buf" using assms by simp
  have blk: "store_block buf 0 (replicate ?n CHR '' '') = Some (replicate ?n CHR '' '' @ drop ?n buf)"
    using lt by (simp add: store_block_def)
  have st: "mem_store (replicate ?n CHR '' '' @ drop ?n buf) ?n NUL
      = Some (replicate ?n CHR '' '' @ NUL # drop (Suc ?n) buf)"
    using lt by (simp add: mem_store_def upd_conv_take_nth_drop)
  have "cstr_at (replicate ?n CHR '' '' @ NUL # drop (Suc ?n) buf) 0 = Some (replicate ?n CHR '' '')"
    using cstr_at_append [of "[]" 0 "replicate ?n CHR '' ''"] by auto
  with blk st n assms show ?thesis by (simp add: spaces_def Let_def del: replicate_add)
qed

section \<open>Properties\<close>

text \<open>C40: Copying a string into a buffer of the size passed is inside the buffer exactly when the
  string fits with its terminator: instead of truncating as documented, a copy of a longer
  string writes its NUL one byte past the end.\<close>

theorem cpystrn_overruns_iff_truncating:
  assumes "0 < length buf"
  shows "(gpsee_cpystrn buf 0 src (length buf) = None \<longleftrightarrow> length buf \<le> length src)
    \<and> (length src < length buf \<longrightarrow>
        gpsee_cpystrn buf 0 src (length buf)
          = Some (src @ NUL # drop (Suc (length src)) buf, length src))"
  using assms by (auto simp: cpystrn_eq min_def)

theorem cpystrn_overruns_witness:
  "gpsee_cpystrn ''xxx'' 0 ''abc'' 3 = None \<and> gpsee_cpystrn ''xxx'' 0 ''ab'' 3 = Some ([CHR ''a'', CHR ''b'', NUL], 2)"
  using cpystrn_overruns_iff_truncating [of "''xxx''" "''abc''"]
    cpystrn_overruns_iff_truncating [of "''xxx''" "''ab''"] by (simp add: numeral_3_eq_3 numeral_2_eq_2)

text \<open>The directory name the code writes into its buffer and the base name it points to are the
  two parts of the path: together with a slash between them they give the path back.\<close>

theorem dirname_and_basename_recombine:
  assumes "NUL \<notin> set p" and "2 \<le> n" and "n \<le> length buf" and "length (dirname_of p) < n"
    and "strrchr p CHR ''/'' = Some i" and "Suc i < length p"
  shows "\<exists>buf' d. gpsee_dirname p buf n = Some (buf', True) \<and> cstr_at buf' 0 = Some d
    \<and> d @ ''/'' @ gpsee_basename p = p \<and> CHR ''/'' \<notin> set (gpsee_basename p)"
proof -
  have "CHR ''/'' \<notin> set (gpsee_basename p)"
    using assms(5,6) strrchr_Some [OF assms(5)] by (simp add: gpsee_basename_def)
  with dirname_result [OF assms(1-4)] dirname_basename [OF assms(5,6)] show ?thesis by auto
qed

theorem dirname_and_basename_recombine_witness:
  "\<exists>buf' d. gpsee_dirname ''/usr/lib/x.js'' (replicate 12 NUL) 12 = Some (buf', True)
     \<and> cstr_at buf' 0 = Some d \<and> d @ ''/'' @ ''x.js'' = ''/usr/lib/x.js''"
  using dirname_and_basename_recombine [of "''/usr/lib/x.js''" 12 "replicate 12 NUL" 8]
  by (auto simp: dirname_of_def gpsee_basename_def)

text \<open>Resolving a path gives the resolved name, terminated, and its length whenever the buffer
  can hold it; a name that does not fit is reported as too long only if the object is larger
  than the size passed, and overruns it otherwise.\<close>

theorem resolvepath_result:
  assumes "realpath path = Some rp" and "0 < bufsiz" and "bufsiz \<le> length b" and "bufsiz < PATH_MAX"
  shows "gpsee_resolvepath realpath True path (Some b) bufsiz =
     (if length rp < bufsiz
      then Some (int (length rp), Some (rp @ NUL # drop (Suc (length rp)) b), None)
      else if bufsiz < length b
      then Some (-1, Some (take bufsiz rp @ NUL # drop (Suc bufsiz) b), Some ENAMETOOLONG)
      else None)"
  using resolvepath_truncated [of realpath path rp bufsiz b] resolvepath_ok [of realpath path rp bufsiz b]
    assms by auto

theorem resolvepath_result_witness:
  "gpsee_resolvepath (\<lambda>p. Some ''/ab'') True ''x'' (Some ''....'') 4 = Some (3, Some (''/ab'' @ [NUL]), None)"
  using resolvepath_result [of "\<lambda>p. Some ''/ab''" "''x''" "''/ab''" 4 "''....''"] by (simp add: PATH_MAX_def)

end
