(* ===== verification/ModuleLoad.thy ===== *)
theory ModuleLoad
  imports ModuleScope CBuffers
begin

text \<open>
  Finding and loading modules (gpsee\_modules.c): the module jail, relative, absolute and
  top-level names, the search along module paths, the loaders for shared objects and for
  JavaScript files, and internal modules.

  The file system, the dynamic linker and the compiler are parameters (\<open>load_env\<close>); they
  may answer differently at each \<open>clock\<close>.  An exception is the event \<open>EvThrow\<close>
  and the result \<open>False\<close>; \<open>None\<close> is an access through NULL or a freed handle.  The
  monitors that guard the program module's directory are left out: each is left on the
  path it was entered on.
\<close>

section \<open>Parameters\<close>

datatype js_elem = ElemThrows | ElemString "string option"
datatype js_array = NotArray | LengthThrows | JSArray "js_elem list"

record load_env = scope_env +
  access :: "string \<Rightarrow> nat \<Rightarrow> bool"
  realpath :: "string \<Rightarrow> nat \<Rightarrow> string option"
  dlopen :: "string \<Rightarrow> nat \<Rightarrow> ptr"
  dlsym :: "ptr \<Rightarrow> string \<Rightarrow> ptr"
  compileScript :: "string \<Rightarrow> nat \<Rightarrow> (ptr \<times> ptr) option"
  js_array :: "ptr \<Rightarrow> nat \<Rightarrow> js_array"
  internalModules :: "(string \<times> ptr \<times> ptr) list"
  DSO_EXTENSION :: string

definition tick :: "mst \<Rightarrow> mst" where
  "tick s = s\<lparr>clock := Suc (clock s)\<rparr>"

definition gpsee_throw :: "string \<Rightarrow> mst \<Rightarrow> mst" where
  "gpsee_throw msg s = log_event (EvThrow msg) s"

section \<open>Names and paths\<close>

definition checkJail :: "string \<Rightarrow> string option \<Rightarrow> bool" where
  "checkJail fullPath jailPath =
     (case jailPath of
        None \<Rightarrow> True
      | Some jail \<Rightarrow> take (length jail) fullPath = jail
          \<and> (length jail < length fullPath \<and> fullPath ! length jail = CHR ''/''))"

text \<open>Reading a character of a C string; the terminator is read at its end.\<close>

definition char_at :: "string \<Rightarrow> nat \<Rightarrow> char" where
  "char_at s i = (if i < length s then s ! i else NUL)"

definition isRelativePath :: "string \<Rightarrow> bool" where
  "isRelativePath path =
     (if char_at path 0 \<noteq> CHR ''.'' then False
      else if char_at path 1 = CHR ''/'' then True
      else char_at path 1 = CHR ''.'' \<and> char_at path 2 = CHR ''/'')"

text \<open>Turning \<open>require.paths\<close> into a path list: elements that are empty or cannot be encoded are
  skipped.  The result is whether it succeeded and the list.\<close>

fun array_dirs :: "js_elem list \<Rightarrow> string list option" where
  "array_dirs [] = Some []"
| "array_dirs (ElemThrows # xs) = None"
| "array_dirs (ElemString d # xs) =
     (case d of
        None \<Rightarrow> array_dirs xs
      | Some dir \<Rightarrow> if dir = [] then array_dirs xs else map_option ((#) dir) (array_dirs xs))"

text \<open>Whether an element is stored before the end or the first exception.\<close>

fun array_stores :: "js_elem list \<Rightarrow> bool" where
  "array_stores [] = False"
| "array_stores (ElemThrows # xs) = False"
| "array_stores (ElemString d # xs) = (d \<noteq> None \<and> d \<noteq> Some [] \<or> array_stores xs)"

definition JSArray_toModulePath ::
    "('e) load_env_scheme \<Rightarrow> ptr \<Rightarrow> mst \<Rightarrow> (bool \<times> string list \<times> mst) option" where
  "JSArray_toModulePath e arrObj s =
     (case js_array e arrObj (clock s) of
        NotArray \<Rightarrow> Some (True, [], tick s)
      | LengthThrows \<Rightarrow> Some (False, [], tick s)
      | JSArray xs \<Rightarrow>
          if xs = [] then Some (True, [], tick s)
          else (case call e ''JS_malloc'' (tick s) of (ok, s) \<Rightarrow>
                  if \<not> ok \<and> array_stores xs then None
                  else (case array_dirs xs of
                          None \<Rightarrow> Some (False, [], s)
                        | Some dirs \<Rightarrow> Some (True, dirs, s))))"

section \<open>Loaders\<close>

definition loadJSModule ::
    "('e) load_env_scheme \<Rightarrow> ptr \<Rightarrow> string \<Rightarrow> mst \<Rightarrow> (bool \<times> mst) option" where
  "loadJSModule e module filename s =
     (case compileScript e filename (clock s) of
        None \<Rightarrow> Some (False, tick s)
      | Some (scr, obj) \<Rightarrow>
          map_option (Pair True) (upd_handle module (\<lambda>h. h\<lparr>script := scr, scrobj := obj\<rparr>) (tick s)))"

definition loadDSOModule ::
    "('e) load_env_scheme \<Rightarrow> ptr \<Rightarrow> string \<Rightarrow> mst \<Rightarrow> (bool \<times> mst) option" where
  "loadDSOModule e module filename s =
     (let hnd = dlopen e filename (clock s)
      in do { s \<leftarrow> upd_handle module (\<lambda>h. h\<lparr>DSOHnd := hnd\<rparr>) (tick s);
              if hnd = NULL then Some (False, gpsee_throw ''dlopen() error'' s)
              else do { h \<leftarrow> handles s module;
                        let bname = gpsee_basename (cname h);
                        s \<leftarrow> upd_handle module (\<lambda>h. h\<lparr>
                          init := dlsym e hnd (bname @ ''_InitModule''),
                          fini := dlsym e hnd (bname @ ''_FiniModule'')\<rparr>) s;
                        Some (True, s) } })"

text \<open>\<open>cnBuf\<close> without its extension: only what follows the first dot of the whole path is
  compared with the extension.\<close>

definition strip_extension :: "string \<Rightarrow> string \<Rightarrow> string" where
  "strip_extension cn ext =
     (case strchr cn CHR ''.'' of
        None \<Rightarrow> cn
      | Some i \<Rightarrow> if drop (Suc i) cn = ext then take i cn else cn)"

text \<open>\<open>gpsee_resolvepath\<close> into a buffer of \<open>PATH_MAX\<close> bytes: the string there, if it was
  resolved and fits.\<close>

definition resolve_name ::
    "('e) load_env_scheme \<Rightarrow> string \<Rightarrow> mst \<Rightarrow> (string option \<times> mst) option" where
  "resolve_name e fn s =
     (case gpsee_resolvepath (\<lambda>p. realpath e p (clock s)) True fn (Some (replicate PATH_MAX NUL)) PATH_MAX of
        None \<Rightarrow> None
      | Some (i, buf, _) \<Rightarrow>
          if i = -1 \<or> int PATH_MAX \<le> i then Some (None, tick s)
          else (case buf of None \<Rightarrow> None | Some b \<Rightarrow> Some (Some (take (nat i) b), tick s)))"

text \<open>One loader, and the release of the handle when it fails.\<close>

definition run_loader ::
    "('e) load_env_scheme \<Rightarrow> bool \<Rightarrow> ptr \<Rightarrow> string \<Rightarrow> mst \<Rightarrow> (bool \<times> mst) option" where
  "run_loader e dso module fnBuf s =
     do { (success, s) \<leftarrow> (if dso then loadDSOModule e module fnBuf s else loadJSModule e module fnBuf s);
          if success then Some (True, s)
          else do { s \<leftarrow> releaseModuleHandle e module s; Some (False, s) } }"

text \<open>The loop over the extensions and their loaders; \<open>module\<close> is the handle found so far.\<close>

fun loadDiskModule_exts ::
    "('e) load_env_scheme \<Rightarrow> string \<Rightarrow> string \<Rightarrow> (string \<times> bool) list \<Rightarrow> ptr \<Rightarrow> mst \<Rightarrow>
     (bool \<times> ptr \<times> mst) option" where
  "loadDiskModule_exts e moduleName directory [] module s = Some (True, module, s)"
| "loadDiskModule_exts e moduleName directory ((ext, dso) # exts) module s =
     (let fnBuf = directory @ ''/'' @ moduleName @ ''.'' @ ext;
          load = (\<lambda>module s.
            do { (success, s) \<leftarrow> run_loader e dso module fnBuf s;
                 if success then loadDiskModule_exts e moduleName directory exts module s
                 else Some (False, NULL, s) })
      in if PATH_MAX \<le> length fnBuf then loadDiskModule_exts e moduleName directory exts module s
         else if \<not> access e fnBuf (clock s)
         then loadDiskModule_exts e moduleName directory exts module (tick s)
         else if module \<noteq> NULL then load module (tick s)
         else
           do { (cn, s) \<leftarrow> resolve_name e fnBuf (tick s);
                case cn of
                  None \<Rightarrow> Some (False, NULL, gpsee_throw ''Error canonicalizing'' s)
                | Some cnBuf \<Rightarrow>
                    if \<not> checkJail cnBuf (moduleJail s) then Some (True, NULL, s)
                    else
                      do { (module, s) \<leftarrow> acquireModuleHandle e (strip_extension cnBuf ext) NULL s;
                           if module = NULL then Some (False, NULL, s)
                           else do { h \<leftarrow> handles s module;
                                     if mhf_loaded h then Some (True, module, s)
                                     else load module s } } })"

definition loadDiskModule_inDir ::
    "('e) load_env_scheme \<Rightarrow> string \<Rightarrow> string \<Rightarrow> mst \<Rightarrow> (bool \<times> ptr \<times> mst) option" where
  "loadDiskModule_inDir e moduleName directory s =
     loadDiskModule_exts e moduleName directory [(DSO_EXTENSION e, True), (''js'', False)] NULL s"

fun loadDiskModule_onPath ::
    "('e) load_env_scheme \<Rightarrow> string \<Rightarrow> string list \<Rightarrow> mst \<Rightarrow> (bool \<times> ptr \<times> mst) option" where
  "loadDiskModule_onPath e moduleName [] s = Some (True, NULL, s)"
| "loadDiskModule_onPath e moduleName (dir # dirs) s =
     do { (ok, module, s) \<leftarrow> loadDiskModule_inDir e moduleName dir s;
          if \<not> ok then Some (False, module, s)
          else if module \<noteq> NULL then Some (True, module, s)
          else loadDiskModule_onPath e moduleName dirs s }"

text \<open>The directory relative names start from.\<close>

definition relative_base :: "string \<Rightarrow> mst \<Rightarrow> string option" where
  "relative_base parentCname s =
     (if char_at parentCname 0 = CHR ''/''
      then (case gpsee_dirname parentCname (replicate PATH_MAX NUL) PATH_MAX of
              Some (buf, True) \<Rightarrow> cstr_at buf 0
            | _ \<Rightarrow> None)
      else (case programModuleDir s of
              Some dir \<Rightarrow>
                (case gpsee_cpystrn (replicate PATH_MAX NUL) 0 dir PATH_MAX of
                   None \<Rightarrow> None
                 | Some (buf, _) \<Rightarrow> cstr_at buf 0)
            | None \<Rightarrow> Some ''.''))"

text \<open>The module path of the realm, and \<open>require.paths\<close>.\<close>

definition search_paths ::
    "('e) load_env_scheme \<Rightarrow> string \<Rightarrow> mst \<Rightarrow> (bool \<times> ptr \<times> mst) option" where
  "search_paths e moduleName s =
     do { (ok, module, s) \<leftarrow> loadDiskModule_onPath e moduleName (modulePath s) s;
          if \<not> ok then Some (False, module, s)
          else if module \<noteq> NULL then Some (True, module, s)
          else
            do { (ok, module, s) \<leftarrow>
                   (if userModulePath s \<noteq> NULL
                    then do { (ok, dirs, s) \<leftarrow> JSArray_toModulePath e (userModulePath s) s;
                              if \<not> ok then Some (False, NULL, s)
                              else loadDiskModule_onPath e moduleName dirs s }
                    else Some (True, NULL, s));
                 if \<not> ok then Some (False, module, s)
                 else if module \<noteq> NULL then Some (True, module, s)
                 else Some (False, NULL, gpsee_throw ''Error loading top-level module'' s) } }"

definition loadDiskModule ::
    "('e) load_env_scheme \<Rightarrow> ptr \<Rightarrow> string \<Rightarrow> mst \<Rightarrow> (bool \<times> ptr \<times> mst) option" where
  "loadDiskModule e parentModule moduleName s =
     (if isRelativePath moduleName then
        do { p \<leftarrow> handles s parentModule;
             currentModulePath \<leftarrow> relative_base (cname p) s;
             (ok, module, s) \<leftarrow> loadDiskModule_inDir e moduleName currentModulePath s;
             if \<not> ok then Some (False, module, s)
             else if module = NULL
             then Some (False, NULL, gpsee_throw ''Error loading relative module'' s)
             else Some (True, module, s) }
      else
        do { (ok, module, s) \<leftarrow>
               (if char_at moduleName 0 = CHR ''/''
                then do { (ok, module, s) \<leftarrow> loadDiskModule_inDir e moduleName '''' s;
                          if \<not> ok then Some (False, module, s)
                          else if module = NULL
                          then Some (False, NULL, gpsee_throw ''Error loading absolute module'' s)
                          else Some (True, module, s) }
                else Some (True, NULL, s));
             if \<not> ok then Some (False, module, s)
             else search_paths e moduleName s })"

section \<open>Internal modules\<close>

text \<open>The list is generated when the program is built.  A handle that could not be acquired is
  dereferenced all the same.\<close>

definition loadInternalModule ::
    "('e) load_env_scheme \<Rightarrow> string \<Rightarrow> mst \<Rightarrow> (bool \<times> ptr \<times> mst) option" where
  "loadInternalModule e moduleName s =
     (case map_of (internalModules e) moduleName of
        None \<Rightarrow> Some (True, NULL, s)
      | Some (ini, fin) \<Rightarrow>
          do { (module, s) \<leftarrow> acquireModuleHandle e moduleName NULL s;
               h \<leftarrow> handles s module;
               if mhf_loaded h then Some (True, module, s)
               else do { s \<leftarrow> upd_handle module (\<lambda>h. h\<lparr>init := ini, fini := fin\<rparr>) s;
                         Some (True, module, s) } })"

section \<open>Progress that unloads nothing\<close>

text \<open>
  \<open>execs\<close>: the modules whose script was run.  \<open>good\<close>: the module system's invariant,
  and a script that was run is gone from its handle and was run once.  \<open>ext N s s'\<close>:
  \<open>s'\<close> is a good state in which every module loaded in \<open>s\<close> is still loaded, in the
  same handle with the same exports, names new in the memo are in \<open>N\<close>, and the depth of
  the require lock is what it was.
\<close>

fun execs :: "event list \<Rightarrow> ptr list" where
  "execs [] = []"
| "execs (EvExec m sc # evs) = m # execs evs"
| "execs (_ # evs) = execs evs"

lemma execs_append [simp]: "execs (xs @ ys) = execs xs @ execs ys"
  by (induction xs rule: execs.induct) auto

definition exec_ok :: "mst \<Rightarrow> bool" where
  "exec_ok s \<longleftrightarrow> distinct (execs (events s)) \<and>
     (\<forall>m \<in> set (execs (events s)). m < next_ptr s \<and>
        (\<forall>h. handles s m = Some h \<longrightarrow> script h = NULL \<and> (released h \<or> mhf_loaded h)))"

definition good :: "mst \<Rightarrow> bool" where
  "good s \<longleftrightarrow> (\<exists>ps. mod_inv s ps) \<and> exec_ok s"

definition loaded_as :: "mst \<Rightarrow> string \<Rightarrow> ptr \<Rightarrow> ptr \<Rightarrow> bool" where
  "loaded_as s n m x \<longleftrightarrow> memo_of s n = Some m
     \<and> (\<exists>h. handles s m = Some h \<and> mhf_loaded h \<and> exports h = x)"

definition ext :: "string set \<Rightarrow> mst \<Rightarrow> mst \<Rightarrow> bool" where
  "ext N s s' \<longleftrightarrow> good s' \<and> requireLockDepth s' = requireLockDepth s
     \<and> modulePath s' = modulePath s \<and> moduleJail s' = moduleJail s
     \<and> (\<forall>n m x. loaded_as s n m x \<longrightarrow> loaded_as s' n m x)
     \<and> dom (memo_of s') \<subseteq> dom (memo_of s) \<union> N"

lemma ext_trans: "ext N s s1 \<Longrightarrow> ext N s1 s2 \<Longrightarrow> ext N s s2"
  unfolding ext_def by (elim conjE, intro conjI) (assumption | simp | blast)+

lemma ext_mono: "ext N s s' \<Longrightarrow> N \<subseteq> N' \<Longrightarrow> ext N' s s'"
  unfolding ext_def by blast

lemma ext_good: "ext N s s' \<Longrightarrow> good s'"
  by (simp add: ext_def)

lemma ext_refl: "good s \<Longrightarrow> ext N s s"
  by (simp add: ext_def)

text \<open>Steps that touch neither handles nor memo.\<close>

lemma ext_same:
  assumes "good s" and "modules s' = modules s" and "handles s' = handles s"
    and "unreachableModule_llist s' = unreachableModule_llist s" and "next_ptr s' = next_ptr s"
    and "requireLockDepth s' = requireLockDepth s" and "modulePath s' = modulePath s"
    and "moduleJail s' = moduleJail s" and "execs (events s') = execs (events s)"
  shows "ext N s s'"
  using assms by (simp add: ext_def good_def mod_inv_def memo_ok_def memo_of_def exec_ok_def loaded_as_def)

lemma ext_tick: "good s \<Longrightarrow> ext N s (tick s)"
  by (rule ext_same) (simp_all add: tick_def)

lemma ext_throw: "good s \<Longrightarrow> ext N s (gpsee_throw msg s)"
  by (rule ext_same) (simp_all add: gpsee_throw_def log_event_def)

lemma ext_call: "good s \<Longrightarrow> ext N s (snd (call e f s))"
  by (rule ext_same) (simp_all add: call_def)

text \<open>A module of the memo that is not loaded yet.\<close>

definition waiting :: "mst \<Rightarrow> string \<Rightarrow> ptr \<Rightarrow> bool" where
  "waiting s n m \<longleftrightarrow> memo_of s n = Some m \<and> (\<exists>h. handles s m = Some h \<and> \<not> mhf_loaded h)"

lemma good_handle:
  "good s \<Longrightarrow> memo_of s n = Some m \<Longrightarrow>
   m \<noteq> NULL \<and> (\<exists>h. handles s m = Some h \<and> cname h = n \<and> \<not> released h)"
  using memo_handle by (auto simp: good_def)

lemma good_inj: "good s \<Longrightarrow> memo_of s n = Some m \<Longrightarrow> memo_of s n' = Some m \<Longrightarrow> n' = n"
  using good_handle [of s n m] good_handle [of s n' m] by auto

lemma waiting_not_run: "good s \<Longrightarrow> waiting s n m \<Longrightarrow> m \<notin> set (execs (events s))"
  using good_handle [of s n m] by (auto simp: waiting_def good_def exec_ok_def)

lemma mod_inv_update:
  assumes "mod_inv s ps" and "handles s m = Some h" and "cname h' = cname h" and "released h' = released h"
    and "link h' = link h"
  shows "mod_inv (s\<lparr>handles := (handles s)(m \<mapsto> h')\<rparr>) ps"
proof -
  have "chain ((handles s)(m \<mapsto> h')) p ps = chain (handles s) p ps" for p
    by (rule chain_cong) (use assms in auto)
  moreover have "\<forall>n q. memo_of s n = Some q \<longrightarrow> q \<noteq> NULL \<and>
      (\<exists>k. ((handles s)(m \<mapsto> h')) q = Some k \<and> cname k = n \<and> \<not> released k)"
    using memo_handle [OF assms(1)] assms(2-4) by fastforce
  moreover have "m \<noteq> NULL" using assms(1,2) by (metis mod_inv_def option.distinct(1))
  ultimately show ?thesis using assms unfolding mod_inv_def memo_ok_def
    by (auto simp: memo_of_def simp del: fun_upd_apply) (auto split: if_splits)
qed

lemma ext_upd:
  assumes g: "good s" and w: "waiting s n m" and h: "handles s m = Some h"
    and f: "cname (f h) = cname h" "released (f h) = released h" "link (f h) = link h"
      "mhf_loaded (f h) = mhf_loaded h"
    and u: "upd_handle m f s = Some s'"
  shows "ext N s s' \<and> waiting s' n m \<and> handles s' m = Some (f h)"
proof -
  have s': "s' = s\<lparr>handles := (handles s)(m \<mapsto> f h)\<rparr>" using u h by (simp add: upd_handle_def)
  from g obtain ps where "mod_inv s ps" by (auto simp: good_def)
  from mod_inv_update [OF this h f(1-3)] have "mod_inv s' ps" by (simp add: s')
  moreover have "exec_ok s'"
    using g waiting_not_run [OF g w] by (auto simp: s' good_def exec_ok_def)
  moreover have nl: "\<not> mhf_loaded h" using w h by (simp add: waiting_def)
  then have "loaded_as s k q x \<longrightarrow> loaded_as s' k q x" for k q x
    using h by (auto simp: loaded_as_def s' memo_of_def)
  ultimately show ?thesis using w nl f by (auto simp: ext_def good_def s' memo_of_def waiting_def)
qed

lemma ext_release:
  assumes e: "ext N s0 s" and m: "memo_of s n = Some m" and nl: "\<forall>x. \<not> loaded_as s0 n m x"
  shows "\<exists>s'. releaseModuleHandle e m s = Some s' \<and> ext N s0 s' \<and> memo_of s' = (memo_of s)(n := None)
    \<and> (\<exists>h h'. handles s m = Some h \<and> handles s' m = Some h' \<and> DSOHnd h' = DSOHnd h)
    \<and> execs (events s') = execs (events s)"
proof -
  have g: "good s" using e by (rule ext_good)
  from good_handle [OF g m] obtain h where h: "handles s m = Some h" "cname h = n" "\<not> released h" by auto
  from g obtain ps where inv: "mod_inv s ps" by (auto simp: good_def)
  from release_inv [OF inv h(1,3), of e] m h(2) obtain s' h' where s': "releaseModuleHandle e m s = Some s'"
    "mod_inv s' (m # ps)" "memo_of s' = (memo_of s)(n := None)" "events s' = events s @ fini_events m h"
    "\<forall>q. q \<noteq> m \<longrightarrow> handles s' q = handles s q" "next_ptr s' = next_ptr s"
    "handles s' m = Some h'" "released h'" "DSOHnd h' = DSOHnd h" by auto
  from release_spec [OF h(1,3), of e] s'(1) obtain x where x:
    "requireLockDepth s' = requireLockDepth s" "modulePath s' = modulePath s" "moduleJail s' = moduleJail s"
    "handles s' m = Some x" "script x = script h" by (auto simp: unused_def)
  have ev: "execs (events s') = execs (events s)" by (simp add: s'(4) fini_events_def)
  have "script h'' = NULL \<and> (released h'' \<or> mhf_loaded h'')"
    if "q \<in> set (execs (events s))" "handles s' q = Some h''" for q h''
    using g that s'(5,7,8) x(4,5) h(1) by (cases "q = m") (auto simp: good_def exec_ok_def)
  with g ev s'(6) have "exec_ok s'" by (auto simp: good_def exec_ok_def)
  with s'(2) have "good s'" by (auto simp: good_def)
  have ld: "loaded_as s' k q y" if "loaded_as s0 k q y" for k q y
  proof -
    have l: "loaded_as s k q y" using e that by (simp add: ext_def)
    have "q \<noteq> m"
    proof
      assume "q = m"
      with l m good_inj [OF g] that nl show False by (auto simp: loaded_as_def)
    qed
    moreover from this l m have "k \<noteq> n" by (auto simp: loaded_as_def)
    ultimately show ?thesis using l s'(3,5) by (simp add: loaded_as_def)
  qed
  have "dom (memo_of s') \<subseteq> dom (memo_of s)" by (auto simp: s'(3))
  moreover have "dom (memo_of s) \<subseteq> dom (memo_of s0) \<union> N" using e by (simp add: ext_def)
  ultimately have "dom (memo_of s') \<subseteq> dom (memo_of s0) \<union> N" by blast
  with \<open>good s'\<close> ld have "ext N s0 s'" using e x(1-3) by (simp add: ext_def)
  with s' h(1) ev show ?thesis by auto
qed

lemma ext_acquire:
  assumes g: "good s" and a: "acquireModuleHandle e name sc s = Some (m, s')"
  shows "ext {name} s s' \<and> (m \<noteq> NULL \<longrightarrow> memo_of s' name = Some m) \<and> execs (events s') = execs (events s)"
proof -
  from g obtain ps where inv: "mod_inv s ps" by (auto simp: good_def)
  then have z: "0 < next_ptr s" and hi: "\<forall>q \<ge> next_ptr s. handles s q = None" and ks: "keys_sorted (modules s)"
    by (simp_all add: mod_inv_def memo_ok_def)
  note sp = acquire_spec [OF inv a] and k = acquire_keeps [OF a z]
  have ev: "events s' = events s" using sp by (auto simp: acquired_def split: if_splits)
  have hs: "handles s' q = handles s q" if "q < next_ptr s" for q using k that by simp
  have gd: "good s'"
    using sp g k hs by (auto simp: good_def exec_ok_def ev)
  have mm: "memo_of s' = memo_of s \<or> memo_of s' = (memo_of s)(name \<mapsto> m)" "m \<noteq> NULL \<longrightarrow> memo_of s' name = Some m"
    using sp by (auto simp: acquired_def split: if_splits)
  have "loaded_as s' n q x" if l: "loaded_as s n q x" for n q x
  proof -
    have "q < next_ptr s" using l hi by (force simp: loaded_as_def not_less [symmetric])
    moreover have "memo_of s' n = Some q"
      using sp l by (auto simp: acquired_def loaded_as_def split: if_splits option.splits)
    ultimately show ?thesis using l hs by (simp add: loaded_as_def)
  qed
  moreover have "dom (memo_of s') \<subseteq> dom (memo_of s) \<union> {name}" using mm(1) by auto
  ultimately show ?thesis using gd k mm(2) ev by (simp add: ext_def)
qed

section \<open>The loaders make progress\<close>

definition same_execs :: "mst \<Rightarrow> mst \<Rightarrow> bool" where
  "same_execs s s' \<longleftrightarrow> execs (events s') = execs (events s)"

definition extends :: "string set \<Rightarrow> mst \<Rightarrow> mst \<Rightarrow> bool" where
  "extends N s s' \<longleftrightarrow> ext N s s' \<and> same_execs s s'"

lemma extends_trans: "extends N s s1 \<Longrightarrow> extends N s1 s2 \<Longrightarrow> extends N s s2"
  using ext_trans by (simp add: extends_def same_execs_def) blast

lemma extends_good: "extends N s s' \<Longrightarrow> good s'"
  unfolding extends_def by (blast dest: ext_good)

lemma extends_refl: "good s \<Longrightarrow> extends N s s"
  using ext_refl by (simp add: extends_def same_execs_def)

lemma extends_tick: "good s \<Longrightarrow> extends N s (tick s)"
  using ext_tick by (simp add: extends_def same_execs_def) (simp add: tick_def)

lemma extends_throw: "good s \<Longrightarrow> extends N s (gpsee_throw msg s)"
  using ext_throw by (simp add: extends_def same_execs_def) (simp add: gpsee_throw_def log_event_def)

lemma extends_call: "good s \<Longrightarrow> extends N s (snd (call e f s))"
  using ext_call by (simp add: extends_def same_execs_def) (simp add: call_def)

lemma extends_acquire:
  assumes "good s" and "acquireModuleHandle e name sc s = Some (m, s')" and "name \<in> N"
  shows "extends N s s' \<and> (m \<noteq> NULL \<longrightarrow> memo_of s' name = Some m)"
  using ext_acquire [OF assms(1,2)] ext_mono [of "{name}" s s' N] assms(3)
  by (simp add: extends_def same_execs_def)

lemma waiting_tick: "waiting (tick s) n m = waiting s n m"
  by (simp add: waiting_def tick_def memo_of_def)

lemma waiting_throw: "waiting (gpsee_throw msg s) n m = waiting s n m"
  by (simp add: waiting_def gpsee_throw_def log_event_def memo_of_def)

lemma extends_upd:
  assumes g: "good s" and w: "waiting s n m"
    and f: "\<And>h. cname (f h) = cname h" "\<And>h. released (f h) = released h" "\<And>h. link (f h) = link h"
      "\<And>h. mhf_loaded (f h) = mhf_loaded h"
    and u: "upd_handle m f s = Some s'"
  shows "extends N s s' \<and> waiting s' n m"
proof -
  obtain h where h: "handles s m = Some h" using w by (auto simp: waiting_def)
  have "events s' = events s" using u by (auto simp: upd_handle_def)
  with ext_upd [OF g w h f u] show ?thesis by (simp add: extends_def same_execs_def)
qed

lemma loadJS_extends:
  assumes g: "good s" and w: "waiting s n m" and r: "loadJSModule e m fn s = Some (b, s')"
  shows "extends N s s' \<and> waiting s' n m"
proof (cases "compileScript e fn (clock s)")
  case None
  with r have "s' = tick s" by (simp add: loadJSModule_def)
  with g w show ?thesis by (simp add: extends_tick waiting_tick)
next
  case (Some x)
  then obtain scr obj where "compileScript e fn (clock s) = Some (scr, obj)" by (cases x) auto
  with r have u: "upd_handle m (\<lambda>h. h\<lparr>script := scr, scrobj := obj\<rparr>) (tick s) = Some s'"
    by (simp add: loadJSModule_def)
  have "good (tick s)" using g extends_tick extends_good by blast
  from extends_upd [OF this _ _ _ _ _ u, of n N] extends_tick [OF g, of N] w show ?thesis
    by (simp add: waiting_tick) (metis extends_trans)
qed

lemma loadDSO_extends:
  assumes g: "good s" and w: "waiting s n m" and r: "loadDSOModule e m fn s = Some (b, s')"
  shows "extends N s s' \<and> waiting s' n m"
proof -
  let ?hnd = "dlopen e fn (clock s)"
  have gt: "good (tick s)" using g extends_tick extends_good by blast
  from r obtain s1 where s1: "upd_handle m (\<lambda>h. h\<lparr>DSOHnd := ?hnd\<rparr>) (tick s) = Some s1"
    by (auto simp: loadDSOModule_def Let_def split: bind_splits)
  from extends_upd [OF gt _ _ _ _ _ s1, of n N] extends_tick [OF g, of N] w
  have e1: "extends N s s1 \<and> waiting s1 n m" by (simp add: waiting_tick) (metis extends_trans)
  then have g1: "good s1" using extends_good by blast
  show ?thesis
  proof (cases "?hnd = NULL")
    case True
    with r s1 have "s' = gpsee_throw ''dlopen() error'' s1" by (simp add: loadDSOModule_def)
    with e1 extends_throw [OF g1, of N] show ?thesis by (auto simp: waiting_throw intro: extends_trans)
  next
    case False
    with r s1 obtain bn where "upd_handle m (\<lambda>h. h\<lparr>
        init := dlsym e ?hnd (bn @ ''_InitModule''), fini := dlsym e ?hnd (bn @ ''_FiniModule'')\<rparr>) s1 = Some s'"
      by (auto simp: loadDSOModule_def Let_def split: bind_splits)
    from extends_upd [OF g1 _ _ _ _ _ this, of n N] e1 show ?thesis
      by simp (metis extends_trans)
  qed
qed

text \<open>Releasing a module that was not loaded when the search began.\<close>

lemma extends_release:
  assumes "extends N s0 s" and "waiting s n m" and "releaseModuleHandle e m s = Some s'"
  shows "extends N s0 s'"
proof -
  have e: "ext N s0 s" and x: "same_execs s0 s" using assms(1) by (simp_all add: extends_def)
  have "\<forall>x. \<not> loaded_as s0 n m x" using e assms(2) by (fastforce simp: ext_def loaded_as_def waiting_def)
  from ext_release [OF e _ this, of e] assms(2,3) x show ?thesis
    by (auto simp: extends_def same_execs_def waiting_def)
qed

section \<open>Searching makes progress\<close>

text \<open>The outcome of a search: progress, and on success a module of the memo, or none.\<close>

definition finds :: "string set \<Rightarrow> mst \<Rightarrow> (bool \<times> ptr \<times> mst) option \<Rightarrow> bool" where
  "finds N s r \<longleftrightarrow> (\<forall>ok m s'. r = Some (ok, m, s') \<longrightarrow> extends N s s'
     \<and> (ok \<longrightarrow> m \<noteq> NULL \<longrightarrow> (\<exists>n \<in> N. memo_of s' n = Some m)))"

lemma finds_None: "finds N s None"
  by (simp add: finds_def)

lemma finds_fail: "extends N s s' \<Longrightarrow> finds N s (Some (False, m, s'))"
  by (simp add: finds_def)

lemma finds_NULL: "extends N s s' \<Longrightarrow> finds N s (Some (b, NULL, s'))"
  by (simp add: finds_def)

lemma finds_found: "extends N s s' \<Longrightarrow> n \<in> N \<Longrightarrow> memo_of s' n = Some m \<Longrightarrow> finds N s (Some (b, m, s'))"
  by (auto simp: finds_def)

lemma finds_step: "extends N s s1 \<Longrightarrow> finds N s1 r \<Longrightarrow> finds N s r"
  by (auto simp: finds_def intro: extends_trans)

lemma finds_bind:
  assumes "finds N s r"
    and "\<And>ok m s'. extends N s s' \<Longrightarrow> (ok \<Longrightarrow> m \<noteq> NULL \<Longrightarrow> \<exists>n \<in> N. memo_of s' n = Some m) \<Longrightarrow> finds N s (k (ok, m, s'))"
  shows "finds N s (Option.bind r k)"
proof (cases r)
  case (Some x)
  obtain ok m s' where x: "x = (ok, m, s')" by (cases x) auto
  from assms(1) have "extends N s s'" "ok \<Longrightarrow> m \<noteq> NULL \<Longrightarrow> \<exists>n \<in> N. memo_of s' n = Some m"
    unfolding finds_def Some x by blast+
  from assms(2) [OF this] show ?thesis by (simp add: Some x)
qed (simp add: finds_None)

text \<open>The canonical names modules on disk can have.\<close>

definition disk_names :: "('e) load_env_scheme \<Rightarrow> string option \<Rightarrow> string set" where
  "disk_names e jail = {strip_extension r x | r x. (\<exists>p t. realpath e p t = Some r) \<and> checkJail r jail
     \<and> x \<in> {DSO_EXTENSION e, ''js''}}"

lemma resolve_name_spec:
  "resolve_name e fn s = Some (cn, s') \<Longrightarrow> s' = tick s \<and> (\<forall>r. cn = Some r \<longrightarrow> (\<exists>p t. realpath e p t = Some r))"
proof -
  assume r: "resolve_name e fn s = Some (cn, s')"
  show ?thesis
  proof (cases "realpath e fn (clock s)")
    case None
    with r resolvepath_fails [of "\<lambda>p. realpath e p (clock s)" fn] show ?thesis by (simp add: resolve_name_def)
  next
    case (Some rp)
    have "gpsee_resolvepath (\<lambda>p. realpath e p (clock s)) True fn (Some (replicate PATH_MAX NUL)) PATH_MAX
       = map_option (\<lambda>b'. (int (length rp), Some b', None)) (store_block (replicate PATH_MAX NUL) 0 (rp @ [NUL]))"
      using Some by (simp add: gpsee_resolvepath_def)
    moreover have "take (length rp) b = rp"
      if "store_block (replicate PATH_MAX NUL) 0 (rp @ [NUL]) = Some b" for b
      using that by (auto simp: store_block_def split: if_splits)
    ultimately show ?thesis
      using r Some by (cases "store_block (replicate PATH_MAX NUL) 0 (rp @ [NUL])")
        (auto simp: resolve_name_def split: if_splits)
  qed
qed

lemma run_loader_extends:
  assumes g: "good s" and w: "waiting s n m" and r: "run_loader e dso m fn s = Some (b, s')"
  shows "extends N s s' \<and> (b \<longrightarrow> waiting s' n m)"
proof -
  from r obtain c s1 where l: "(if dso then loadDSOModule e m fn s else loadJSModule e m fn s) = Some (c, s1)"
    and k: "(if c then Some (True, s1) else do { s \<leftarrow> releaseModuleHandle e m s1; Some (False, s) }) = Some (b, s')"
    by (auto simp: run_loader_def split: bind_splits)
  have s1: "extends N s s1 \<and> waiting s1 n m"
    using l loadDSO_extends [OF g w, of e fn c s1 N] loadJS_extends [OF g w, of e fn c s1 N] by (cases dso) simp_all
  show ?thesis
  proof (cases c)
    case True
    with k s1 show ?thesis by simp
  next
    case False
    with k obtain s2 where "releaseModuleHandle e m s1 = Some s2" "s' = s2" "\<not> b" by (auto split: bind_splits)
    with extends_release [of N s s1 n m e s2] s1 show ?thesis by blast
  qed
qed

lemma load_finds:
  assumes g: "good s" and w: "waiting s n m" "n \<in> N"
    and IH: "\<And>s'. extends N s s' \<Longrightarrow> waiting s' n m \<Longrightarrow> finds N s' (rest s')"
  shows "finds N s (do { (success, s) \<leftarrow> run_loader e dso m fn s;
          if success then rest s else Some (False, NULL, s) })"
proof (cases "run_loader e dso m fn s")
  case (Some x)
  obtain b s1 where x: "x = (b, s1)" by (cases x)
  with run_loader_extends [OF g w(1), of e dso fn b s1 N] Some
  have s1: "extends N s s1 \<and> (b \<longrightarrow> waiting s1 n m)" by simp
  with finds_step [OF _ IH] finds_NULL [of N s s1] Some x show ?thesis by (cases b) simp_all
qed (simp add: finds_None)

lemma exts_step:
  assumes "fn = directory @ ''/'' @ moduleName @ ''.'' @ ex"
  shows "loadDiskModule_exts e moduleName directory ((ex, dso) # exts) module s =
    (let load = (\<lambda>module s. do { (success, s) \<leftarrow> run_loader e dso module fn s;
         if success then loadDiskModule_exts e moduleName directory exts module s else Some (False, NULL, s) })
     in if PATH_MAX \<le> length fn then loadDiskModule_exts e moduleName directory exts module s
        else if \<not> access e fn (clock s) then loadDiskModule_exts e moduleName directory exts module (tick s)
        else if module \<noteq> NULL then load module (tick s)
        else
          do { (cn, s) \<leftarrow> resolve_name e fn (tick s);
               case cn of
                 None \<Rightarrow> Some (False, NULL, gpsee_throw ''Error canonicalizing'' s)
               | Some cnBuf \<Rightarrow>
                   if \<not> checkJail cnBuf (moduleJail s) then Some (True, NULL, s)
                   else
                     do { (module, s) \<leftarrow> acquireModuleHandle e (strip_extension cnBuf ex) NULL s;
                          if module = NULL then Some (False, NULL, s)
                          else do { h \<leftarrow> handles s module;
                                    if mhf_loaded h then Some (True, module, s)
                                    else load module s } } })"
  unfolding assms by (simp only: loadDiskModule_exts.simps Let_def)

declare loadDiskModule_exts.simps(2) [simp del]

lemma exts_finds:
  assumes "good s" and "moduleJail s = j" and "N = disk_names e j"
    and "module = NULL \<or> (\<exists>n \<in> N. waiting s n module)"
    and "fst ` set exts \<subseteq> {DSO_EXTENSION e, ''js''}"
  shows "finds N s (loadDiskModule_exts e moduleName dir exts module s)"
  using assms(1,2,4,5)
proof (induction exts arbitrary: module s)
  case Nil
  then show ?case
    by (auto simp: finds_def extends_refl waiting_def)
next
  case (Cons x exts)
  obtain ex dso where x: "x = (ex, dso)" by (cases x)
  define fn where fn: "fn = dir @ ''/'' @ moduleName @ ''.'' @ ex"
  note g = Cons.prems(1) and step = exts_step [where dso = dso, OF fn, folded x]
  have gt: "good (tick s)" "extends N s (tick s)" using extends_tick [OF g] extends_good by blast+
  have jt: "moduleJail (tick s) = j" using Cons.prems(2) by (simp add: tick_def)
  have sub: "fst ` set exts \<subseteq> {DSO_EXTENSION e, ''js''}" "ex \<in> {DSO_EXTENSION e, ''js''}"
    using Cons.prems(4) by (simp_all add: x)
  have jail: "moduleJail s2 = moduleJail s1" if "extends N s1 s2" for s1 s2
    using that by (simp add: extends_def ext_def)
  have ld: "finds N s1 (do { (success, s) \<leftarrow> run_loader e dso m fn s1;
      if success then loadDiskModule_exts e moduleName dir exts m s else Some (False, NULL, s) })"
    if "good s1" "moduleJail s1 = j" "waiting s1 n m" "n \<in> N" for s1 m n
    by (rule load_finds [OF that(1,3,4)], rule Cons.IH)
      (use that jail sub extends_good in auto)
  consider (long) "PATH_MAX \<le> length fn" | (absent) "\<not> PATH_MAX \<le> length fn" "\<not> access e fn (clock s)"
    | (again) "\<not> PATH_MAX \<le> length fn" "access e fn (clock s)" "module \<noteq> NULL"
    | (first) "\<not> PATH_MAX \<le> length fn" "access e fn (clock s)" "module = NULL" by blast
  then show ?case
  proof cases
    case long
    then show ?thesis
      using Cons.IH [OF Cons.prems(1-3) sub(1)] by (simp add: step Let_def)
  next
    case absent
    have "module = NULL \<or> (\<exists>n \<in> N. waiting (tick s) n module)" using Cons.prems(3) by (simp add: waiting_tick)
    from finds_step [OF gt(2) Cons.IH [OF gt(1) jt this sub(1)]] absent show ?thesis
      by (simp add: step Let_def)
  next
    case again
    then obtain n where n: "n \<in> N" "waiting (tick s) n module" using Cons.prems(3) by (auto simp: waiting_tick)
    from finds_step [OF gt(2) ld [OF gt(1) jt n(2,1)]] again show ?thesis
      by (simp add: step Let_def)
  next
    case first
        show ?thesis
    proof (cases "resolve_name e fn (tick s)")
      case None
      with first show ?thesis by (simp add: step Let_def finds_None)
    next
      case (Some y)
      obtain cn s1 where y: "y = (cn, s1)" by (cases y)
      from resolve_name_spec [OF Some [unfolded y]] have s1: "s1 = tick (tick s)"
        and rn: "\<forall>r. cn = Some r \<longrightarrow> (\<exists>p t. realpath e p t = Some r)" by simp_all
      have g1: "good s1" "extends N s s1"
        using extends_tick [OF gt(1), of N] gt(2) extends_good extends_trans by (auto simp: s1)
      have j1: "moduleJail s1 = j" using jt by (simp add: s1 tick_def)
      show ?thesis
      proof (cases cn)
        case None
        with first Some y show ?thesis
          using extends_trans [OF g1(2) extends_throw [OF g1(1), of N]]
          by (simp add: step Let_def finds_NULL)
      next
        case c: (Some cnBuf)
        show ?thesis
        proof (cases "checkJail cnBuf j")
          case False
          with first Some y c j1 show ?thesis
            using g1(2) by (simp add: step Let_def finds_NULL)
        next
          case True
          let ?n = "strip_extension cnBuf ex"
          have n: "?n \<in> N" using rn c True sub(2) assms(3) unfolding disk_names_def by blast
          show ?thesis
          proof (cases "acquireModuleHandle e ?n NULL s1")
            case None
            with first Some y c j1 True show ?thesis
              by (simp add: step Let_def finds_None)
          next
            case a: (Some z)
            obtain m s2 where z: "z = (m, s2)" by (cases z)
            from extends_acquire [OF g1(1) a [unfolded z] n]
            have e2: "extends N s1 s2" "m \<noteq> NULL \<longrightarrow> memo_of s2 ?n = Some m" by simp_all
            have e2': "extends N s s2" "good s2" "moduleJail s2 = j"
              using extends_trans [OF g1(2) e2(1)] extends_good [OF e2(1)] jail [OF e2(1)] j1 by simp_all
            show ?thesis
            proof (cases "m = NULL")
              case True
              then show ?thesis using first Some y c j1 \<open>checkJail cnBuf j\<close> a z e2'(1)
                by (simp add: step Let_def finds_NULL)
            next
              case False
              with e2 have mm: "memo_of s2 ?n = Some m" by simp
              from good_handle [OF e2'(2) mm] obtain h where h: "handles s2 m = Some h" by auto
              have "finds N s (loadDiskModule_exts e moduleName dir (x # exts) module s) =
                finds N s (if mhf_loaded h then Some (True, m, s2)
                  else do { (success, s) \<leftarrow> run_loader e dso m fn s2;
                    if success then loadDiskModule_exts e moduleName dir exts m s
                    else Some (False, NULL, s) })"
                using first Some y c j1 \<open>checkJail cnBuf j\<close> a z False h
                by (simp add: step Let_def)
              also have "\<dots>"
              proof (cases "mhf_loaded h")
                case True
                then show ?thesis using finds_found [OF e2'(1) n mm] by simp
              next
                case False
                with mm h have "waiting s2 ?n m" by (simp add: waiting_def)
                from finds_step [OF e2'(1) ld [OF e2'(2,3) this n]] False show ?thesis by simp
              qed
              finally show ?thesis .
            qed
          qed
        qed
      qed
    qed
  qed
qed

lemma inDir_finds:
  "good s \<Longrightarrow> moduleJail s = j \<Longrightarrow> finds (disk_names e j) s (loadDiskModule_inDir e moduleName dir s)"
  unfolding loadDiskModule_inDir_def by (rule exts_finds) simp_all

lemma extends_jail: "extends N s s' \<Longrightarrow> moduleJail s' = moduleJail s"
  by (simp add: extends_def ext_def)

lemma onPath_finds:
  "good s \<Longrightarrow> moduleJail s = j \<Longrightarrow> finds (disk_names e j) s (loadDiskModule_onPath e moduleName dirs s)"
proof (induction dirs arbitrary: s)
  case Nil
  then show ?case by (simp add: finds_NULL extends_refl)
next
  case (Cons d dirs)
  have "finds (disk_names e j) s (do { (ok, module, s) \<leftarrow> loadDiskModule_inDir e moduleName d s;
          if \<not> ok then Some (False, module, s)
          else if module \<noteq> NULL then Some (True, module, s)
          else loadDiskModule_onPath e moduleName dirs s })"
  proof (rule finds_bind [OF inDir_finds [OF Cons.prems]])
    fix ok m s'
    assume e: "extends (disk_names e j) s s'"
      and m: "ok \<Longrightarrow> m \<noteq> NULL \<Longrightarrow> \<exists>n \<in> disk_names e j. memo_of s' n = Some m"
    have "finds (disk_names e j) s' (loadDiskModule_onPath e moduleName dirs s')"
      using Cons.IH extends_good [OF e] extends_jail [OF e] Cons.prems(2) by simp
    with e m finds_step [OF e]
    show "finds (disk_names e j) s (case (ok, m, s') of (ok, module, s) \<Rightarrow>
          if \<not> ok then Some (False, module, s)
          else if module \<noteq> NULL then Some (True, module, s)
          else loadDiskModule_onPath e moduleName dirs s)"
      by (auto simp: finds_fail intro: finds_found)
  qed
  then show ?case by simp
qed

lemma toModulePath_extends:
  assumes "good s" and "JSArray_toModulePath e arr s = Some (ok, dirs, s')"
  shows "extends N s s'"
proof -
  have gt: "good (tick s)" "extends N s (tick s)" using extends_tick [OF assms(1)] extends_good by blast+
  have "s' = tick s \<or> s' = snd (call e ''JS_malloc'' (tick s))"
    using assms(2) by (auto simp: JSArray_toModulePath_def Let_def split: js_array.splits if_splits option.splits prod.splits)
  with gt extends_trans [OF gt(2) extends_call [OF gt(1)]] show ?thesis by auto
qed

text \<open>The steps every search ends with: report that nothing was found.\<close>

lemma finds_or_throw:
  assumes "finds N s r"
  shows "finds N s (do { (ok, module, s) \<leftarrow> r;
     if \<not> ok then Some (False, module, s)
     else if module = NULL then Some (False, NULL, gpsee_throw msg s)
     else Some (True, module, s) })"
proof (rule finds_bind [OF assms])
  fix ok m s'
  assume e: "extends N s s'" and m: "ok \<Longrightarrow> m \<noteq> NULL \<Longrightarrow> \<exists>n \<in> N. memo_of s' n = Some m"
  show "finds N s (case (ok, m, s') of (ok, module, s) \<Rightarrow>
     if \<not> ok then Some (False, module, s)
     else if module = NULL then Some (False, NULL, gpsee_throw msg s)
     else Some (True, module, s))"
    using e m extends_trans [OF e extends_throw [OF extends_good [OF e]]]
    by (auto simp: finds_fail finds_NULL intro: finds_found)
qed

text \<open>Go on with the next place when nothing was found.\<close>

lemma finds_or_else:
  assumes "finds N s r" and "\<And>s'. extends N s s' \<Longrightarrow> finds N s' (k s')"
  shows "finds N s (do { (ok, module, s) \<leftarrow> r;
     if \<not> ok then Some (False, module, s)
     else if module \<noteq> NULL then Some (True, module, s) else k s })"
proof (rule finds_bind [OF assms(1)])
  fix ok m s'
  assume e: "extends N s s'" and m: "ok \<Longrightarrow> m \<noteq> NULL \<Longrightarrow> \<exists>n \<in> N. memo_of s' n = Some m"
  show "finds N s (case (ok, m, s') of (ok, module, s) \<Rightarrow>
     if \<not> ok then Some (False, module, s)
     else if module \<noteq> NULL then Some (True, module, s) else k s)"
    using e m finds_step [OF e assms(2) [OF e]] by (auto simp: finds_fail intro: finds_found)
qed

text \<open>Go on whatever was found.\<close>

lemma finds_and_then:
  assumes "finds N s r" and "\<And>s'. extends N s s' \<Longrightarrow> finds N s' (k s')"
  shows "finds N s (do { (ok, module, s) \<leftarrow> r; if \<not> ok then Some (False, module, s) else k s })"
proof (rule finds_bind [OF assms(1)])
  fix ok m s'
  assume e: "extends N s s'"
  show "finds N s (case (ok, m, s') of (ok, module, s) \<Rightarrow>
     if \<not> ok then Some (False, module, s) else k s)"
    using e finds_step [OF e assms(2) [OF e]] by (auto simp: finds_fail)
qed

lemma search_paths_finds:
  assumes g: "good s" and j: "moduleJail s = j"
  shows "finds (disk_names e j) s (search_paths e moduleName s)"
  unfolding search_paths_def
proof (rule finds_or_else [OF onPath_finds [OF g j]])
  fix s'
  assume e: "extends (disk_names e j) s s'"
  have g': "good s'" and j': "moduleJail s' = j" using e extends_good extends_jail j by auto
  have "finds (disk_names e j) s' (if userModulePath s' \<noteq> NULL
      then do { (ok, dirs, s) \<leftarrow> JSArray_toModulePath e (userModulePath s') s';
                if \<not> ok then Some (False, NULL, s) else loadDiskModule_onPath e moduleName dirs s }
      else Some (True, NULL, s'))"
  proof (cases "userModulePath s' \<noteq> NULL")
    case True
    show ?thesis
    proof (cases "JSArray_toModulePath e (userModulePath s') s'")
      case (Some y)
      obtain ok dirs s2 where y: "y = (ok, dirs, s2)" by (cases y) auto
      from toModulePath_extends [OF g' Some [unfolded y]] have e2: "extends (disk_names e j) s' s2" .
      with onPath_finds [of s2 j e moduleName dirs] extends_good [OF e2] extends_jail [OF e2] j'
      show ?thesis using True finds_step [OF e2] by (auto simp: Some y finds_NULL)
    qed (simp add: True finds_None)
  qed (simp add: finds_NULL extends_refl g')
  from finds_or_else [OF this, of "\<lambda>s. Some (False, NULL, gpsee_throw ''Error loading top-level module'' s)"]
  show "finds (disk_names e j) s' (do { (ok, module, s) \<leftarrow>
                   (if userModulePath s' \<noteq> NULL
                    then do { (ok, dirs, s) \<leftarrow> JSArray_toModulePath e (userModulePath s') s';
                              if \<not> ok then Some (False, NULL, s)
                              else loadDiskModule_onPath e moduleName dirs s }
                    else Some (True, NULL, s'));
                 if \<not> ok then Some (False, module, s)
                 else if module \<noteq> NULL then Some (True, module, s)
                 else Some (False, NULL, gpsee_throw ''Error loading top-level module'' s) })"
    using finds_NULL extends_throw extends_good by blast
qed

lemma loadDisk_finds:
  assumes g: "good s" and j: "moduleJail s = j"
  shows "finds (disk_names e j) s (loadDiskModule e parent moduleName s)"
proof (cases "isRelativePath moduleName")
  case True
  show ?thesis
  proof (cases "handles s parent")
    case None
    with True show ?thesis by (simp add: loadDiskModule_def finds_None)
  next
    case (Some p)
    show ?thesis
    proof (cases "relative_base (cname p) s")
      case None
      with True Some show ?thesis by (simp add: loadDiskModule_def finds_None)
    next
      case (Some base)
      with True \<open>handles s parent = _\<close> show ?thesis
        using finds_or_throw [OF inDir_finds [OF g j]] by (simp add: loadDiskModule_def)
    qed
  qed
next
  case False
  have k: "finds (disk_names e j) s' (search_paths e moduleName s')" if "extends (disk_names e j) s s'" for s'
    using search_paths_finds extends_good [OF that] extends_jail [OF that] j by blast
  have "finds (disk_names e j) s (if char_at moduleName 0 = CHR ''/''
      then do { (ok, module, s) \<leftarrow> loadDiskModule_inDir e moduleName '''' s;
                if \<not> ok then Some (False, module, s)
                else if module = NULL then Some (False, NULL, gpsee_throw ''Error loading absolute module'' s)
                else Some (True, module, s) }
      else Some (True, NULL, s))"
    using finds_or_throw [OF inDir_finds [OF g j], of e moduleName "''''" "''Error loading absolute module''"]
      finds_NULL [OF extends_refl [OF g]] by (cases "char_at moduleName 0 = CHR ''/''") simp_all
  from finds_and_then [OF this k] False show ?thesis by (simp add: loadDiskModule_def cong: if_cong)
qed

lemma loadInternal_finds:
  assumes g: "good s"
  shows "finds (fst ` set (internalModules e)) s (loadInternalModule e moduleName s)"
proof (cases "map_of (internalModules e) moduleName")
  case None
  then show ?thesis by (simp add: loadInternalModule_def finds_NULL extends_refl [OF g])
next
  case (Some inf)
  obtain ini fin where i: "inf = (ini, fin)" by (cases inf)
  let ?N = "fst ` set (internalModules e)"
  have n: "moduleName \<in> ?N" using map_of_SomeD [OF Some] by force
  show ?thesis
  proof (cases "acquireModuleHandle e moduleName NULL s")
    case None
    with Some i show ?thesis by (simp add: loadInternalModule_def finds_None)
  next
    case a: (Some y)
    obtain m s1 where y: "y = (m, s1)" by (cases y)
    from extends_acquire [OF g a [unfolded y] n]
    have e1: "extends ?N s s1" "m \<noteq> NULL \<longrightarrow> memo_of s1 moduleName = Some m" by simp_all
    have g1: "good s1" using extends_good [OF e1(1)] .
    show ?thesis
    proof (cases "handles s1 m")
      case None
      with Some i a y show ?thesis by (simp add: loadInternalModule_def finds_None)
    next
      case h: (Some h)
      with g1 have "m \<noteq> NULL" by (metis good_def mod_inv_def option.distinct(1))
      with e1(2) have mm: "memo_of s1 moduleName = Some m" by simp
      show ?thesis
      proof (cases "mhf_loaded h")
        case True
        with Some i a y h finds_found [OF e1(1) n mm] show ?thesis by (simp add: loadInternalModule_def)
      next
        case False
        with mm h have w: "waiting s1 moduleName m" by (simp add: waiting_def)
        obtain s2 where s2: "upd_handle m (\<lambda>h. h\<lparr>init := ini, fini := fin\<rparr>) s1 = Some s2"
          using h by (simp add: upd_handle_def)
        from extends_upd [OF g1 w _ _ _ _ s2, of ?N] have
          "extends ?N s1 s2" "waiting s2 moduleName m" by simp_all
        with finds_found [OF extends_trans [OF e1(1)] n] False Some i a y h s2 show ?thesis
          by (simp add: loadInternalModule_def waiting_def)
      qed
    qed
  qed
qed

section \<open>Properties\<close>

lemma checkJail_iff: "checkJail p (Some j) \<longleftrightarrow> (\<exists>rest. p = j @ ''/'' @ rest)"
proof
  assume "checkJail p (Some j)"
  then have "take (length j) p = j" "length j < length p" "p ! length j = CHR ''/''"
    by (simp_all add: checkJail_def)
  then have "take (length j) p = j" "drop (length j) p = CHR ''/'' # drop (Suc (length j)) p"
    by (metis Cons_nth_drop_Suc)+
  then have "p = j @ CHR ''/'' # drop (Suc (length j)) p" by (metis append_take_drop_id)
  then show "\<exists>rest. p = j @ ''/'' @ rest" by auto
qed (auto simp: checkJail_def)

lemma strip_extension_cases: "strip_extension r x = r \<or> r = strip_extension r x @ ''.'' @ x"
proof (cases "strchr r CHR ''.''")
  case (Some i)
  from strchr_Some [OF this] have "i < length r" "r ! i = CHR ''.''" by simp_all
  then have "r = take i r @ CHR ''.'' # drop (Suc i) r" by (metis id_take_nth_drop)
  with Some show ?thesis by (auto simp: strip_extension_def)
qed (simp add: strip_extension_def)

text \<open>The name of a file below a directory, with its extension or without.\<close>

definition below :: "string \<Rightarrow> string \<Rightarrow> bool" where
  "below dir n \<longleftrightarrow> (\<exists>rest x. n = dir @ ''/'' @ rest \<or> n @ ''.'' @ x = dir @ ''/'' @ rest)"


text \<open>A file system with one script, \<open>/j/x.js\<close>, a compiler that gives it script 77, and one
  internal module \<open>vm\<close>.\<close>

definition load_env_ok :: "'x \<Rightarrow> 'x load_env_scheme" where
  "load_env_ok x = \<lparr>js_ok = \<lambda>_ _. True, fini_ret = \<lambda>_ _ _ _. True, JSProto_LIMIT = 0, get_prop = \<lambda>_ _ _. None,
     access = \<lambda>p _. p = ''/j/x.js'', realpath = \<lambda>p _. if p = ''/j/x.js'' then Some p else None,
     dlopen = \<lambda>_ _. NULL, dlsym = \<lambda>_ _. NULL, compileScript = \<lambda>_ _. Some (77, 78),
     js_array = \<lambda>_ _. NotArray, internalModules = [(''vm'', 90, 91)], DSO_EXTENSION = ''so'', \<dots> = x\<rparr>"

definition mst_jail :: mst where
  "mst_jail = mst_empty\<lparr>moduleJail := Some ''/j'', modulePath := [''/j'']\<rparr>"

lemma mst_jail_good: "good mst_jail"
proof -
  have "mod_inv mst_jail []" using mst_empty_inv by (simp add: mst_jail_def mod_inv_def memo_ok_def memo_of_def)
  then show ?thesis by (auto simp: good_def exec_ok_def mst_jail_def mst_empty_def)
qed

lemma resolve_name_ok:
  assumes "realpath e fn (clock s) = Some rp" and "length rp < PATH_MAX"
  shows "resolve_name e fn s = Some (Some rp, tick s)"
proof -
  from resolvepath_ok [of "\<lambda>p. realpath e p (clock s)" fn rp PATH_MAX "replicate PATH_MAX NUL"] assms
  obtain b where "gpsee_resolvepath (\<lambda>p. realpath e p (clock s)) True fn (Some (replicate PATH_MAX NUL)) PATH_MAX
    = Some (int (length rp), Some (rp @ b), None)" by auto
  with assms(2) show ?thesis by (simp add: resolve_name_def)
qed

lemma exts_absent:
  "length (directory @ ''/'' @ moduleName @ ''.'' @ ex) < PATH_MAX \<Longrightarrow>
   \<not> access e (directory @ ''/'' @ moduleName @ ''.'' @ ex) (clock s) \<Longrightarrow>
   loadDiskModule_exts e moduleName directory ((ex, dso) # exts) module s
     = loadDiskModule_exts e moduleName directory exts module (tick s)"
  by (subst exts_step [OF refl]) simp

lemma load_env_ok_search:
  fixes x :: 'x and c d sl
  defines "s \<equiv> mst_jail\<lparr>slots := sl, requireLockDepth := d, clock := c\<rparr>"
  obtains s' h where "loadDiskModule (load_env_ok x) NULL ''x'' s = Some (True, 10, s')"
    "handles s' 10 = Some h" "script h = 77" "init h = NULL" "\<not> mhf_loaded h"
proof -
  let ?e = "load_env_ok x"
  let ?s = "tick s"
  have "\<exists>s2 h. acquireModuleHandle ?e ''/j/x'' NULL (tick (tick ?s)) = Some (10, s2) \<and> handles s2 10 = Some h
      \<and> \<not> mhf_loaded h \<and> init h = NULL"
    by (simp add: acquireModuleHandle_def findModuleHandle_def SPLAY_FIND_def mst_empty_def call_new_def mst_jail_def
        call_def load_env_ok_def upd_handle_def Let_def newModuleScope_def tick_def calloc_handle_def s_def
        initializeModuleScope_def define_module_globals_def guard_def setModuleScopeInfo_def
        define_property_def set_slot_def ensure_userModulePath_def newModuleExports_def)
  then obtain s2 h where a: "acquireModuleHandle ?e ''/j/x'' NULL (tick (tick ?s)) = Some (10, s2)"
    "handles s2 10 = Some h" "\<not> mhf_loaded h" "init h = NULL" by blast
  have r: "resolve_name ?e ''/j/x.js'' (tick ?s) = Some (Some ''/j/x.js'', tick (tick ?s))"
    by (rule resolve_name_ok) (simp_all add: load_env_ok_def PATH_MAX_def)
  have c: "checkJail ''/j/x.js'' (moduleJail (tick (tick ?s)))"
    by (simp add: checkJail_def tick_def mst_jail_def s_def)
  have n: "strip_extension ''/j/x.js'' ''js'' = ''/j/x''" by (simp add: strip_extension_def)
  obtain s3 h3 where l: "run_loader ?e False 10 ''/j/x.js'' s2 = Some (True, s3)"
    "handles s3 10 = Some h3" "script h3 = 77" "init h3 = NULL" "\<not> mhf_loaded h3"
    using a(2-4) by (auto simp: run_loader_def loadJSModule_def load_env_ok_def upd_handle_def tick_def)
  have so: "DSO_EXTENSION ?e = ''so''" by (simp add: load_env_ok_def)
  have "loadDiskModule_exts ?e ''x'' ''/j'' [(''js'', False)] NULL ?s = Some (True, 10, s3)"
    using r c n a l(1) by (subst exts_step [OF refl]) (simp add: PATH_MAX_def load_env_ok_def)
  then have "loadDiskModule_inDir ?e ''x'' ''/j'' s = Some (True, 10, s3)"
    unfolding loadDiskModule_inDir_def so
    by (subst exts_absent) (simp_all add: PATH_MAX_def load_env_ok_def)
  then have "loadDiskModule ?e NULL ''x'' s = Some (True, 10, s3)"
    by (simp add: loadDiskModule_def isRelativePath_def char_at_def search_paths_def mst_jail_def s_def)
  with l(2-5) show ?thesis by (rule_tac that)
qed


text \<open>The directories \<open>require.paths\<close> can hold.\<close>

definition array_path_dirs :: "('e) load_env_scheme \<Rightarrow> string set" where
  "array_path_dirs e = {d. \<exists>p t xs ds. js_array e p t = JSArray xs \<and> array_dirs xs = Some ds \<and> d \<in> set ds}"

lemma exts_not_found:
  "\<forall>x \<in> fst ` set exts. \<forall>t. \<not> access e (dir @ ''/'' @ moduleName @ ''.'' @ x) t \<Longrightarrow>
   \<exists>c. loadDiskModule_exts e moduleName dir exts NULL s = Some (True, NULL, s\<lparr>clock := c\<rparr>)"
proof (induction exts arbitrary: s)
  case Nil
  have "s = s\<lparr>clock := clock s\<rparr>" by simp
  then show ?case by (metis loadDiskModule_exts.simps(1))
next
  case (Cons x exts)
  obtain ex dso where x: "x = (ex, dso)" by (cases x)
  have "loadDiskModule_exts e moduleName dir (x # exts) NULL s \<in>
      {loadDiskModule_exts e moduleName dir exts NULL s, loadDiskModule_exts e moduleName dir exts NULL (tick s)}"
    using Cons.prems by (subst x, subst (1) exts_step [OF refl]) (simp add: x)
  with Cons.IH [of s] Cons.IH [of "tick s"] Cons.prems show ?case by (auto simp: tick_def)
qed

lemma onPath_not_found:
  "\<forall>d \<in> set dirs. \<forall>x \<in> {DSO_EXTENSION e, ''js''}. \<forall>t. \<not> access e (d @ ''/'' @ moduleName @ ''.'' @ x) t \<Longrightarrow>
   \<exists>c. loadDiskModule_onPath e moduleName dirs s = Some (True, NULL, s\<lparr>clock := c\<rparr>)"
proof (induction dirs arbitrary: s)
  case Nil
  have "s = s\<lparr>clock := clock s\<rparr>" by simp
  then show ?case by (metis loadDiskModule_onPath.simps(1))
next
  case (Cons d dirs)
  from exts_not_found [of "[(DSO_EXTENSION e, True), (''js'', False)]" e d moduleName s] Cons.prems
  obtain c where "loadDiskModule_inDir e moduleName d s = Some (True, NULL, s\<lparr>clock := c\<rparr>)"
    by (auto simp: loadDiskModule_inDir_def)
  with Cons.IH [of "s\<lparr>clock := c\<rparr>"] Cons.prems show ?case by auto
qed

text \<open>A name that starts with a slash is looked up as a path and, whatever that finds, again along
  the search paths: unless some search path has a file of that name too, requiring it fails,
  even when the file exists and its module was already compiled.\<close>

theorem absolute_require_fails:
  assumes "good s" and "char_at moduleName 0 = CHR ''/''"
    and "\<forall>d \<in> set (modulePath s) \<union> array_path_dirs e. \<forall>x \<in> {DSO_EXTENSION e, ''js''}. \<forall>t.
      \<not> access e (d @ ''/'' @ moduleName @ ''.'' @ x) t"
  shows "\<not> (\<exists>m s'. loadDiskModule e parent moduleName s = Some (True, m, s'))"
proof
  assume "\<exists>m s'. loadDiskModule e parent moduleName s = Some (True, m, s')"
  then obtain m s' where r: "loadDiskModule e parent moduleName s = Some (True, m, s')" by blast
  have "\<not> isRelativePath moduleName" using assms(2) by (simp add: isRelativePath_def)
  with r assms(2) obtain ok m1 s1 where i: "loadDiskModule_inDir e moduleName '''' s = Some (ok, m1, s1)"
    and k: "ok" "m1 \<noteq> NULL" "search_paths e moduleName s1 = Some (True, m, s')"
    by (auto simp: loadDiskModule_def split: bind_splits if_splits)
  from inDir_finds [OF assms(1) refl, of e moduleName "''''"] i
  have "extends (disk_names e (moduleJail s)) s s1" by (simp add: finds_def)
  then have mp: "modulePath s1 = modulePath s" by (simp add: extends_def ext_def)
  from onPath_not_found [of "modulePath s1" e moduleName s1] assms(3) mp obtain c where
    p: "loadDiskModule_onPath e moduleName (modulePath s1) s1 = Some (True, NULL, s1\<lparr>clock := c\<rparr>)" by auto
  let ?s = "s1\<lparr>clock := c\<rparr>"
  have "\<exists>b s2. (if userModulePath ?s \<noteq> NULL
      then do { (ok, dirs, s) \<leftarrow> JSArray_toModulePath e (userModulePath ?s) ?s;
                if \<not> ok then Some (False, NULL, s) else loadDiskModule_onPath e moduleName dirs s }
      else Some (True, NULL, ?s)) = Some (b, NULL, s2)"
    if "JSArray_toModulePath e (userModulePath ?s) ?s = Some (ok, dirs, s2)" for ok dirs s2
  proof -
    have "set dirs \<subseteq> array_path_dirs e"
      using that by (auto simp: JSArray_toModulePath_def array_path_dirs_def Let_def
          split: js_array.splits if_splits option.splits prod.splits)
    then have "\<forall>d \<in> set dirs. \<forall>x \<in> {DSO_EXTENSION e, ''js''}. \<forall>t. \<not> access e (d @ ''/'' @ moduleName @ ''.'' @ x) t"
      using assms(3) by blast
    from onPath_not_found [OF this] obtain c2 where
      "loadDiskModule_onPath e moduleName dirs s2 = Some (True, NULL, s2\<lparr>clock := c2\<rparr>)" by blast
    with that show ?thesis by auto
  qed
  with k(3) p show False
    by (cases "JSArray_toModulePath e (userModulePath s1) ?s")
      (auto simp: search_paths_def split: if_splits)
qed

theorem absolute_require_fails_witness:
  "access (load_env_ok ()) ''/j/x.js'' 0
    \<and> \<not> (\<exists>m s'. loadDiskModule (load_env_ok ()) NULL ''/j/x'' (mst_jail\<lparr>modulePath := [''/lib'']\<rparr>) = Some (True, m, s'))"
proof -
  have "good (mst_jail\<lparr>modulePath := [''/lib'']\<rparr>)"
    using mst_jail_good by (simp add: good_def mod_inv_def memo_ok_def memo_of_def exec_ok_def)
  moreover have "array_path_dirs (load_env_ok ()) = {}" by (simp add: array_path_dirs_def load_env_ok_def)
  ultimately show ?thesis
    using absolute_require_fails [of "mst_jail\<lparr>modulePath := [''/lib'']\<rparr>" "''/j/x''" "load_env_ok ()" NULL]
    by (simp add: char_at_def load_env_ok_def)
qed

text \<open>The canonical name of a module file is the file's name without its extension exactly when no
  dot comes before the extension, not even in a directory's name; otherwise the module is
  known by its full file name.\<close>

theorem extension_stripped_iff_no_dot:
  assumes "CHR ''.'' \<notin> set x"
  shows "strip_extension (n @ ''.'' @ x) x = (if CHR ''.'' \<in> set n then n @ ''.'' @ x else n)"
proof (cases "CHR ''.'' \<in> set n")
  case True
  then obtain u v where n: "n = u @ CHR ''.'' # v" "CHR ''.'' \<notin> set u" by (meson split_list_first)
  then have "strchr (n @ ''.'' @ x) CHR ''.'' = Some (length u)"
    using strchr_append [of "CHR ''.''" u "v @ ''.'' @ x"] by simp
  moreover have "v @ ''.'' @ x \<noteq> x" by simp
  ultimately show ?thesis using True n by (simp add: strip_extension_def)
next
  case False
  with strchr_append [of "CHR ''.''" n x] show ?thesis by (simp add: strip_extension_def)
qed

theorem extension_stripped_iff_no_dot_witness:
  "strip_extension ''/opt/app.d/m.js'' ''js'' = ''/opt/app.d/m.js''"
  using extension_stripped_iff_no_dot [of "''js''" "''/opt/app.d/m''"] by simp

text \<open>An internal module whose handle cannot be allocated: the NULL handle is dereferenced.\<close>

lemma internal_no_memory:
  assumes "map_of (internalModules e) n = Some (ini, fin)" and "mod_inv s ps" and "memo_of s n = None"
    and "\<not> js_ok e ''calloc'' (clock s)"
  shows "loadInternalModule e n s = None"
proof -
  obtain m0 s0 where f: "findModuleHandle n s = (m0, s0)" by fastforce
  have "keys_sorted (modules s)" using assms(2) by (simp add: mod_inv_def memo_ok_def)
  from find_spec [OF this f] assms(3) have "m0 = NULL" "\<exists>t. s0 = s\<lparr>modules := t\<rparr>" by auto
  with f assms show ?thesis
    by (auto simp: loadInternalModule_def acquireModuleHandle_def call_new_def call_def mod_inv_def)
qed

end
