(* ===== verification/ModuleRun.thy ===== *)
theory ModuleRun
  imports ModuleLoad
begin

text \<open>
  Running modules: \<open>require\<close> (\<open>gpsee_loadModule\<close> of gpsee\_modules.c) with the scripts it
  runs, which may call \<open>require\<close> again.

  What a script or the initialiser of a native module does is a program (\<open>jsprog\<close>): it ends
  with success or an exception, requires a module and goes on according to what it gets, or lets
  the collector run.  The environment says which program each script is (\<open>run_env\<close>).  A run
  is \<open>Crash\<close> when it goes through NULL, a freed handle or a failed assertion,
  \<open>NoFuel\<close> when the nesting of requires exceeds the fuel, \<open>Ret\<close> otherwise.  The
  collections modelled finalize no module scope.
\<close>

section \<open>Runs\<close>

datatype 'a run = Crash | NoFuel | Ret 'a

primrec bind_run :: "'a run \<Rightarrow> ('a \<Rightarrow> 'b run) \<Rightarrow> 'b run" where
  "bind_run Crash f = Crash"
| "bind_run NoFuel f = NoFuel"
| "bind_run (Ret x) f = f x"

definition lift_run :: "'a option \<Rightarrow> 'a run" where
  "lift_run x = (case x of None \<Rightarrow> Crash | Some y \<Rightarrow> Ret y)"

lemma bind_run_Ret: "bind_run r f = Ret y \<longleftrightarrow> (\<exists>x. r = Ret x \<and> f x = Ret y)"
  by (cases r) auto

lemma bind_run_NoFuel: "bind_run r f = NoFuel \<longleftrightarrow> r = NoFuel \<or> (\<exists>x. r = Ret x \<and> f x = NoFuel)"
  by (cases r) auto

lemma lift_run_Ret [simp]: "lift_run x = Ret y \<longleftrightarrow> x = Some y"
  by (cases x) (auto simp: lift_run_def)

lemma lift_run_NoFuel [simp]: "lift_run x \<noteq> NoFuel"
  by (cases x) (auto simp: lift_run_def)

lemma lift_run_Some [simp]: "lift_run (Some x) = Ret x"
  by (simp add: lift_run_def)

section \<open>Programs\<close>

datatype jsprog =
    JDone bool
  | JRequire ptr "string option list" "ptr option \<Rightarrow> jsprog"
  | JGC jsprog

record run_env = load_env +
  script_prog :: "ptr \<Rightarrow> nat \<Rightarrow> jsprog"
  init_prog :: "ptr \<Rightarrow> ptr \<Rightarrow> nat \<Rightarrow> jsprog"

type_synonym require_fun = "ptr \<Rightarrow> string option list \<Rightarrow> mst \<Rightarrow> (ptr option \<times> mst) run"

text \<open>A collection, as far as the module system sees it.\<close>

definition run_gc :: "mst \<Rightarrow> mst option" where
  "run_gc s =
     do { (b, s) \<leftarrow> moduleGCCallback JSGC_MARK_END (log_event EvGC s);
          (b, s) \<leftarrow> moduleGCCallback JSGC_FINALIZE_END s;
          Some s }"

primrec run_js :: "require_fun \<Rightarrow> jsprog \<Rightarrow> mst \<Rightarrow> (bool \<times> mst) run" where
  "run_js ld (JDone b) s = Ret (b, s)"
| "run_js ld (JRequire f args k) s = bind_run (ld f args s) (\<lambda>(v, s). run_js ld (k v) s)"
| "run_js ld (JGC k) s = bind_run (lift_run (run_gc s)) (run_js ld k)"

section \<open>Initialising a module\<close>

definition run_init ::
    "('e) run_env_scheme \<Rightarrow> require_fun \<Rightarrow> ptr \<Rightarrow> mst \<Rightarrow> mst run" where
  "run_init e ld module s =
     bind_run (lift_run (handles s module)) (\<lambda>h.
     if init h \<noteq> NULL
     then bind_run (run_js ld (init_prog e (init h) (exports h) (clock s))
            (log_event (EvInit module (exports h)) (tick s))) (\<lambda>(_, s). Ret s)
     else Ret s)"

definition run_script ::
    "('e) run_env_scheme \<Rightarrow> require_fun \<Rightarrow> ptr \<Rightarrow> mst \<Rightarrow> (bool \<times> mst) run" where
  "run_script e ld module s =
     bind_run (lift_run (handles s module)) (\<lambda>h.
     if script h \<noteq> NULL then
       bind_run (lift_run (upd_handle module (\<lambda>h. h\<lparr>script := NULL\<rparr>) s)) (\<lambda>s.
       bind_run (run_js ld (script_prog e (script h) (clock s))
                  (log_event (EvExec module (script h)) (log_event (EvSetGlobal (scope h)) (tick s)))) (\<lambda>(b, s).
       bind_run (lift_run (upd_handle module (\<lambda>h. h\<lparr>scrobj := NULL\<rparr>)
                  (log_event (EvSetGlobal (globalObject s)) s))) (\<lambda>s.
       Ret (b, s))))
     else Ret (True, s))"

definition initializeModule ::
    "('e) run_env_scheme \<Rightarrow> require_fun \<Rightarrow> ptr \<Rightarrow> mst \<Rightarrow> (bool \<times> mst) run" where
  "initializeModule e ld module s = bind_run (run_init e ld module s) (run_script e ld module)"

section \<open>The require lock, as one thread sees it\<close>

definition requireLock :: "mst \<Rightarrow> mst" where
  "requireLock s = s\<lparr>requireLockDepth := Suc (requireLockDepth s)\<rparr>"

definition requireUnlock :: "mst \<Rightarrow> mst option" where
  "requireUnlock s =
     (if requireLockDepth s = 0 then None
      else Some (s\<lparr>requireLockDepth := requireLockDepth s - 1\<rparr>))"

section \<open>Require\<close>

text \<open>Internal modules come first.\<close>

definition find_module ::
    "('e) load_env_scheme \<Rightarrow> ptr \<Rightarrow> string \<Rightarrow> mst \<Rightarrow> (bool \<times> ptr \<times> mst) option" where
  "find_module e parentModule moduleName s =
     do { (ok, module, s) \<leftarrow> loadInternalModule e moduleName s;
          if \<not> ok then Some (False, module, s)
          else if module \<noteq> NULL then Some (True, module, s)
          else loadDiskModule e parentModule moduleName s }"

text \<open>What happens to the module found; the lock is held.\<close>

definition start_module ::
    "('e) run_env_scheme \<Rightarrow> require_fun \<Rightarrow> ptr \<Rightarrow> mst \<Rightarrow> (ptr option \<times> mst) run" where
  "start_module e ld module s =
     bind_run (lift_run (handles s module)) (\<lambda>h.
     if mhf_loaded h then
       bind_run (lift_run (requireUnlock s)) (\<lambda>s. Ret (Some (exports h), s))
     else
       bind_run (lift_run (upd_handle module (\<lambda>h. h\<lparr>mhf_loaded := True\<rparr>) s)) (\<lambda>s.
       if init h = NULL \<and> script h = NULL then
         bind_run (lift_run (releaseModuleHandle e module s)) (\<lambda>s.
         bind_run (lift_run (requireUnlock s)) (\<lambda>s.
         bind_run (lift_run (handles s module)) (\<lambda>h.
         Ret (None, gpsee_throw
           (if DSOHnd h \<noteq> NULL then ''Module lacks initialization function''
            else ''There is no mechanism to initialize module'') s))))
       else
         bind_run (initializeModule e ld module s) (\<lambda>(b, s).
         if \<not> b then
           bind_run (lift_run (releaseModuleHandle e module s)) (\<lambda>s.
           bind_run (lift_run (requireUnlock s)) (\<lambda>s. Ret (None, s)))
         else
           bind_run (lift_run (requireUnlock s)) (\<lambda>s.
           bind_run (lift_run (handles s module)) (\<lambda>h. Ret (Some (exports h), s))))))"

text \<open>An argument that cannot be converted counts as the empty name.\<close>

definition require_body ::
    "('e) run_env_scheme \<Rightarrow> require_fun \<Rightarrow> ptr \<Rightarrow> string option list \<Rightarrow> mst \<Rightarrow> (ptr option \<times> mst) run" where
  "require_body e ld require_fn argv s =
     (if length argv \<noteq> 1 then Ret (None, gpsee_throw ''loadModule.argument.count'' s)
      else
        let moduleName = (case hd argv of None \<Rightarrow> '''' | Some n \<Rightarrow> n)
        in if moduleName = '''' then Ret (None, gpsee_throw ''loadModule.invalidName'' s)
           else case call e ''JS_GetReservedSlot'' s of (ok, s) \<Rightarrow>
             if \<not> ok then Ret (None, s)
             else case slots s require_fn 0 of
                 PRIVATE_TO_JSVAL parentModule \<Rightarrow>
                   bind_run (lift_run (find_module e parentModule moduleName (requireLock s))) (\<lambda>(ok, module, s).
                   if \<not> ok then bind_run (lift_run (requireUnlock s)) (\<lambda>s. Ret (None, s))
                   else start_module e ld module s)
               | _ \<Rightarrow> Crash)"

primrec gpsee_loadModule :: "('e) run_env_scheme \<Rightarrow> nat \<Rightarrow> require_fun" where
  "gpsee_loadModule e 0 = (\<lambda>require_fn argv s. NoFuel)"
| "gpsee_loadModule e (Suc n) = require_body e (gpsee_loadModule e n)"

section \<open>Steps of a run\<close>

text \<open>Changing a handle of the memo without unloading it.\<close>

lemma ext_upd_loaded:
  assumes g: "good s" and mm: "memo_of s n = Some m" and h: "handles s m = Some h"
    and f: "cname (f h) = cname h" "released (f h) = released h" "link (f h) = link h"
      "mhf_loaded h \<longrightarrow> mhf_loaded (f h) \<and> exports (f h) = exports h" "script (f h) = script h \<or> script (f h) = NULL"
    and u: "upd_handle m f s = Some s'"
  shows "ext N s s' \<and> memo_of s' = memo_of s \<and> handles s' m = Some (f h)"
proof -
  have s': "s' = s\<lparr>handles := (handles s)(m \<mapsto> f h)\<rparr>" using u h by (simp add: upd_handle_def)
  from g obtain ps where "mod_inv s ps" by (auto simp: good_def)
  from mod_inv_update [OF this h f(1-3)] have "mod_inv s' ps" by (simp add: s')
  moreover have "script (f h) = NULL \<and> (released (f h) \<or> mhf_loaded (f h))" if "m \<in> set (execs (events s))"
    using g that h f by (auto simp: good_def exec_ok_def)
  then have "exec_ok s'" using g by (auto simp: s' good_def exec_ok_def)
  moreover have "loaded_as s k q x \<longrightarrow> loaded_as s' k q x" for k q x
    using h f(4) by (auto simp: loaded_as_def s' memo_of_def)
  ultimately show ?thesis by (auto simp: ext_def good_def s' memo_of_def)
qed

text \<open>Starting a script: it is gone from the handle before it runs.\<close>

lemma ext_exec:
  assumes g: "good s" and l: "loaded_as s n m x" and h: "handles s m = Some h" and sc: "script h \<noteq> NULL"
    and u: "upd_handle m (\<lambda>h. h\<lparr>script := NULL\<rparr>) s = Some s'"
    and ev: "execs [ev] = []"
  shows "ext N s (log_event (EvExec m sc') (log_event ev (tick s')))"
proof -
  have mm: "memo_of s n = Some m" and ld: "mhf_loaded h" using l h by (auto simp: loaded_as_def)
  from ext_upd_loaded [OF g mm h _ _ _ _ _ u, of N]
  have e: "ext N s s'" "memo_of s' = memo_of s" "handles s' m = Some (h\<lparr>script := NULL\<rparr>)" by simp_all
  have new: "m \<notin> set (execs (events s))" using g h sc by (auto simp: good_def exec_ok_def)
  have s': "events s' = events s" "next_ptr s' = next_ptr s" using u h by (auto simp: upd_handle_def)
  obtain ps where inv: "mod_inv s ps" using g by (auto simp: good_def)
  have "m < next_ptr s" using inv h by (metis mod_inv_def not_le option.distinct(1))
  let ?t = "log_event (EvExec m sc') (log_event ev (tick s'))"
  have t: "modules ?t = modules s'" "handles ?t = handles s'" "next_ptr ?t = next_ptr s'"
    "unreachableModule_llist ?t = unreachableModule_llist s'" "requireLockDepth ?t = requireLockDepth s'"
    "modulePath ?t = modulePath s'" "moduleJail ?t = moduleJail s'"
    "events ?t = events s' @ [ev, EvExec m sc']"
    by (simp_all add: log_event_def tick_def)
  have ex: "execs (events ?t) = execs (events s) @ [m]"
    using execs_append [of "[ev]" "[EvExec m sc']"] ev by (simp add: t(8) s'(1))
  have "exec_ok ?t"
    using e(1,3) new \<open>m < next_ptr s\<close> ld
    unfolding exec_ok_def ex t(2,3) by (auto simp: ext_def good_def exec_ok_def s')
  moreover have "mod_inv ?t ps" if "mod_inv s' ps" for ps
    using that by (simp add: mod_inv_def memo_ok_def memo_of_def t)
  ultimately have "good ?t" using e(1) by (auto simp: ext_def good_def)
  moreover have "loaded_as ?t = loaded_as s'" "memo_of ?t = memo_of s'"
    by (simp_all add: fun_eq_iff loaded_as_def memo_of_def t(1,2))
  ultimately show ?thesis using e(1) by (simp add: ext_def t(5-7))
qed

text \<open>The state a collection works on besides the handles is left alone.\<close>

lemma destroy_unreachable_keeps:
  assumes "destroy_unreachable s = Some s'"
  shows "requireLockDepth s' = requireLockDepth s \<and> modulePath s' = modulePath s \<and> moduleJail s' = moduleJail s"
proof (rule destroy_unreachable.raw_induct [where P = "\<lambda>s s'. requireLockDepth s' = requireLockDepth s
    \<and> modulePath s' = modulePath s \<and> moduleJail s' = moduleJail s", OF _ assms])
  fix destroy s s'
  assume 1: "\<And>x y. destroy x = Some y \<Longrightarrow>
      requireLockDepth y = requireLockDepth x \<and> modulePath y = modulePath x \<and> moduleJail y = moduleJail x"
    "(if unreachableModule_llist s = NULL then Some s
      else case destroyModuleHandle (unreachableModule_llist s) s of None \<Rightarrow> None
        | Some (n, s') \<Rightarrow> destroy (s'\<lparr>unreachableModule_llist := n\<rparr>)) = Some s'"
  show "requireLockDepth s' = requireLockDepth s \<and> modulePath s' = modulePath s \<and> moduleJail s' = moduleJail s"
  proof (cases "unreachableModule_llist s = NULL")
    case True
    with 1(2) show ?thesis by simp
  next
    case False
    with 1(2) obtain n s1 where d: "destroyModuleHandle (unreachableModule_llist s) s = Some (n, s1)"
      and r: "destroy (s1\<lparr>unreachableModule_llist := n\<rparr>) = Some s'" by (auto split: option.splits)
    have "requireLockDepth s1 = requireLockDepth s \<and> modulePath s1 = modulePath s \<and> moduleJail s1 = moduleJail s"
      using d by (auto simp: destroyModuleHandle_def log_event_def Let_def split: bind_splits)
    with 1(1) [OF r] show ?thesis by simp
  qed
qed

lemma gc_keeps:
  "moduleGCCallback st s = Some (b, s') \<Longrightarrow>
   requireLockDepth s' = requireLockDepth s \<and> modulePath s' = modulePath s \<and> moduleJail s' = moduleJail s"
  by (auto simp: moduleGCCallback_def split: bind_splits if_splits dest!: destroy_unreachable_keeps)

lemma execs_marks: "execs (map EvMark ps) = []"
  by (induction ps) simp_all

lemma execs_frees: "execs (concat (map (free_events hs) ps)) = []"
  by (induction ps) (auto simp: free_events_def split: option.splits)

lemma ext_gc:
  assumes g: "good s"
  shows "\<exists>s'. run_gc s = Some s' \<and> ext N s s'"
proof -
  let ?s = "log_event EvGC s"
  have e0: "ext N s ?s" by (rule ext_same) (use g in \<open>simp_all add: log_event_def\<close>)
  obtain ps where inv0: "mod_inv ?s ps" using ext_good [OF e0] by (auto simp: good_def)
  then have mk: "memo_ok ?s" by (simp add: mod_inv_def)
  from mark_end_spec [OF mk] obtain s1 where s1: "moduleGCCallback JSGC_MARK_END ?s = Some (True, s1)"
    "memo_of s1 = memo_of ?s" "keys_sorted (modules s1)" "handles s1 = handles ?s"
    "execs (events s1) = execs (events ?s)" by (auto simp: execs_marks)
  have "unreachableModule_llist s1 = unreachableModule_llist ?s \<and> next_ptr s1 = next_ptr ?s"
    using s1(1) by (auto simp: moduleGCCallback_def split: bind_splits)
  with inv0 s1 have inv1: "mod_inv s1 ps" by (simp add: mod_inv_def memo_ok_def)
  from finalize_end_inv [OF inv1] obtain s2 where s2: "moduleGCCallback JSGC_FINALIZE_END s1 = Some (True, s2)"
    "mod_inv s2 []" "memo_of s2 = memo_of s1" "\<forall>m. handles s2 m = (if m \<in> set ps then None else handles s1 m)"
    "execs (events s2) = execs (events s1)" by (auto simp: execs_frees)
  have np: "next_ptr s2 = next_ptr s"
  proof -
    have c: "chain (handles s1) (unreachableModule_llist s1) ps" "distinct ps" using inv1 by (simp_all add: mod_inv_def)
    from destroy_unreachable_spec [OF this] obtain s3 where "destroy_unreachable s1 = Some s3" "next_ptr s3 = next_ptr s1"
      by blast
    with s2(1) \<open>_ \<and> next_ptr s1 = next_ptr ?s\<close> show ?thesis by (simp add: moduleGCCallback_def log_event_def)
  qed
  have ev: "execs (events s2) = execs (events s)" using s2(5) s1(5) by (simp add: log_event_def)
  have hs: "handles s2 m = Some h \<Longrightarrow> handles s m = Some h" for m h
    using s2(4) s1(4) by (simp add: log_event_def split: if_splits)
  have "exec_ok s2" using g np hs unfolding good_def exec_ok_def ev by auto
  with s2(2) have "good s2" by (auto simp: good_def)
  moreover have "loaded_as s2 n m x" if "loaded_as s n m x" for n m x
  proof -
    have l: "loaded_as ?s n m x" using that by (simp add: loaded_as_def log_event_def memo_of_def)
    have "\<not> (\<exists>h. handles s1 m = Some h \<and> released h)"
      using memo_handle [OF inv0, of n m] l s1(4) by (auto simp: loaded_as_def)
    moreover have "chain (handles s1) (unreachableModule_llist s1) ps" using inv1 by (simp add: mod_inv_def)
    ultimately have "m \<notin> set ps" using chain_unreleased by blast
    with l s2(3,4) s1(2,4) show ?thesis by (simp add: loaded_as_def)
  qed
  moreover have "memo_of s2 = memo_of s" using s2(3) s1(2) by (simp add: log_event_def memo_of_def)
  moreover note gc_keeps [OF s1(1)] gc_keeps [OF s2(1)]
  ultimately have "ext N s s2" by (simp add: ext_def log_event_def)
  with s1(1) s2(1) show ?thesis by (simp add: run_gc_def)
qed

section \<open>Requires unload nothing\<close>

definition canon :: "('e) load_env_scheme \<Rightarrow> string set" where
  "canon e = disk_names e None \<union> fst ` set (internalModules e)"

definition ld_ok :: "string set \<Rightarrow> require_fun \<Rightarrow> bool" where
  "ld_ok N ld \<longleftrightarrow> (\<forall>f args s r s'. good s \<longrightarrow> ld f args s = Ret (r, s') \<longrightarrow> ext N s s'
     \<and> (\<forall>x. r = Some x \<longrightarrow> (\<exists>n \<in> N. \<exists>m. loaded_as s' n m x)))"

lemma run_js_ext:
  "ld_ok N ld \<Longrightarrow> good s \<Longrightarrow> run_js ld p s = Ret (b, s') \<Longrightarrow> ext N s s'"
proof (induction p arbitrary: s)
  case (JDone x)
  then show ?case by (simp add: ext_refl)
next
  case (JRequire f args k)
  from JRequire.prems(3) obtain v s1 where l: "ld f args s = Ret (v, s1)" and r: "run_js ld (k v) s1 = Ret (b, s')"
    by (auto simp: bind_run_Ret)
  from l JRequire.prems(1,2) have e: "ext N s s1" by (simp add: ld_ok_def)
  from ext_trans [OF e JRequire.IH [OF rangeI JRequire.prems(1) ext_good [OF e] r]] show ?case .
next
  case (JGC p)
  from JGC.prems(3) obtain s1 where l: "run_gc s = Some s1" and r: "run_js ld p s1 = Ret (b, s')"
    by (auto simp: bind_run_Ret)
  from ext_gc [OF JGC.prems(2), of N] l have e: "ext N s s1" by simp
  from ext_trans [OF e JGC.IH [OF JGC.prems(1) ext_good [OF e] r]] show ?case .
qed

lemma ext_log: "good s \<Longrightarrow> execs [ev] = [] \<Longrightarrow> ext N s (log_event ev s)"
  by (rule ext_same) (simp_all add: log_event_def)

lemma ext_loaded: "ext N s s' \<Longrightarrow> loaded_as s n m x \<Longrightarrow> loaded_as s' n m x"
  by (simp add: ext_def)

lemma run_init_ext:
  assumes ld: "ld_ok N ld" and g: "good s" and r: "run_init e ld m s = Ret s'"
  shows "ext N s s'"
proof -
  from r obtain h where h: "handles s m = Some h" by (auto simp: run_init_def bind_run_Ret)
  show ?thesis
  proof (cases "init h = NULL")
    case False
    have t: "good (tick s)" "ext N s (tick s)" using ext_tick [OF g] ext_good by blast+
    have e: "ext N s (log_event (EvInit m (exports h)) (tick s))"
      using ext_trans [OF t(2) ext_log [OF t(1)]] by simp
    from r h False obtain b where "run_js ld (init_prog e (init h) (exports h) (clock s))
        (log_event (EvInit m (exports h)) (tick s)) = Ret (b, s')"
      by (auto simp: run_init_def bind_run_Ret)
    from ext_trans [OF e run_js_ext [OF ld ext_good [OF e] this]] show ?thesis .
  next
    case True
    with r h g show ?thesis by (simp add: run_init_def ext_refl)
  qed
qed

lemma run_script_ext:
  assumes ld: "ld_ok N ld" and g: "good s" and l: "loaded_as s n m x" and r: "run_script e ld m s = Ret (b, s')"
  shows "ext N s s'"
proof -
  obtain h where h: "handles s m = Some h" using l by (auto simp: loaded_as_def)
  show ?thesis
  proof (cases "script h = NULL")
    case True
    with r h g show ?thesis by (simp add: run_script_def ext_refl)
  next
    case False
    with r h obtain s2 s3 where
      u: "upd_handle m (\<lambda>h. h\<lparr>script := NULL\<rparr>) s = Some s2"
      and x: "run_js ld (script_prog e (script h) (clock s2))
        (log_event (EvExec m (script h)) (log_event (EvSetGlobal (scope h)) (tick s2))) = Ret (b, s3)"
      and u': "upd_handle m (\<lambda>h. h\<lparr>scrobj := NULL\<rparr>) (log_event (EvSetGlobal (globalObject s3)) s3) = Some s'"
      by (auto simp: run_script_def bind_run_Ret split: prod.splits)
    have e2: "ext N s (log_event (EvExec m (script h)) (log_event (EvSetGlobal (scope h)) (tick s2)))"
      using ext_exec [OF g l h False u] by simp
    have e3: "ext N s s3" using ext_trans [OF e2 run_js_ext [OF ld ext_good [OF e2] x]] .
    let ?s = "log_event (EvSetGlobal (globalObject s3)) s3"
    have e4: "ext N s ?s" using ext_trans [OF e3 ext_log [OF ext_good [OF e3]]] by simp
    have l4: "loaded_as ?s n m x" using ext_loaded [OF e4 l] .
    then obtain h4 where h4: "handles ?s m = Some h4" and m4: "memo_of ?s n = Some m" by (auto simp: loaded_as_def)
    from ext_upd_loaded [OF ext_good [OF e4] m4 h4 _ _ _ _ _ u', of N] have "ext N ?s s'" by simp
    from ext_trans [OF e4 this] show ?thesis .
  qed
qed

lemma initialize_ext:
  assumes ld: "ld_ok N ld" and g: "good s" and l: "loaded_as s n m x"
    and r: "initializeModule e ld m s = Ret (b, s')"
  shows "ext N s s'"
proof -
  from r obtain s1 where i: "run_init e ld m s = Ret s1" and k: "run_script e ld m s1 = Ret (b, s')"
    by (auto simp: initializeModule_def bind_run_Ret)
  have e1: "ext N s s1" using run_init_ext [OF ld g i] .
  from ext_trans [OF e1 run_script_ext [OF ld ext_good [OF e1] ext_loaded [OF e1 l] k]] show ?thesis .
qed

lemma disk_names_mono: "disk_names e j \<subseteq> canon e"
  unfolding canon_def disk_names_def checkJail_def by auto

lemma find_module_ext:
  assumes g: "good s" and r: "find_module e parent name s = Some (ok, m, s')"
  shows "ext (canon e) s s' \<and> (ok \<longrightarrow> m \<noteq> NULL \<longrightarrow> (\<exists>n \<in> canon e. memo_of s' n = Some m)) \<and> same_execs s s'"
proof -
  let ?I = "fst ` set (internalModules e)"
  obtain ok1 m1 s1 where l: "loadInternalModule e name s = Some (ok1, m1, s1)"
    and k: "(if \<not> ok1 then Some (False, m1, s1) else if m1 \<noteq> NULL then Some (True, m1, s1)
        else loadDiskModule e parent name s1) = Some (ok, m, s')"
    using r by (auto simp: find_module_def split: bind_splits)
  have I: "?I \<subseteq> canon e" by (simp add: canon_def)
  from loadInternal_finds [OF g, of e name] l have f: "extends ?I s s1"
    "ok1 \<longrightarrow> m1 \<noteq> NULL \<longrightarrow> (\<exists>n \<in> ?I. memo_of s1 n = Some m1)" by (auto simp: finds_def)
  then have e1: "ext (canon e) s s1" and x1: "same_execs s s1"
    using ext_mono [OF _ I] by (auto simp: extends_def)
  show ?thesis
  proof (cases "ok1 \<and> m1 = NULL")
    case False
    with k f(2) e1 x1 I show ?thesis by (auto split: if_splits)
  next
    case True
    with k have "loadDiskModule e parent name s1 = Some (ok, m, s')" by simp
    with loadDisk_finds [OF ext_good [OF e1] refl, of e parent name]
    have "extends (disk_names e (moduleJail s1)) s1 s'"
      "ok \<longrightarrow> m \<noteq> NULL \<longrightarrow> (\<exists>n \<in> disk_names e (moduleJail s1). memo_of s' n = Some m)" by (auto simp: finds_def)
    then have "ext (canon e) s1 s'" "same_execs s1 s'" "ok \<longrightarrow> m \<noteq> NULL \<longrightarrow> (\<exists>n \<in> canon e. memo_of s' n = Some m)"
      using ext_mono [OF _ disk_names_mono] disk_names_mono [of e "moduleJail s1"] unfolding extends_def by blast+
    with ext_trans [OF e1] x1 show ?thesis by (auto simp: same_execs_def)
  qed
qed

lemma ext_lock:
  assumes "good s"
  shows "good (requireLock s)" and "loaded_as (requireLock s) = loaded_as s"
    and "memo_of (requireLock s) = memo_of s" and "handles (requireLock s) = handles s"
  using assms by (simp_all add: requireLock_def good_def mod_inv_def memo_ok_def memo_of_def exec_ok_def
      loaded_as_def fun_eq_iff)

text \<open>After the lock was taken, leaving it gives the depth at entry.\<close>

lemma ext_unlock:
  assumes "ext N (requireLock s0) s"
  shows "\<exists>s'. requireUnlock s = Some s' \<and> ext N s0 s' \<and> handles s' = handles s \<and> memo_of s' = memo_of s
    \<and> events s' = events s"
proof -
  have d: "requireLockDepth s = Suc (requireLockDepth s0)" using assms by (simp add: ext_def requireLock_def)
  let ?s = "s\<lparr>requireLockDepth := requireLockDepth s0\<rparr>"
  have g: "good ?s"
    using ext_good [OF assms] by (simp add: good_def mod_inv_def memo_ok_def memo_of_def exec_ok_def)
  have l: "loaded_as ?s = loaded_as s" "memo_of ?s = memo_of s" "loaded_as (requireLock s0) = loaded_as s0"
    "memo_of (requireLock s0) = memo_of s0"
    by (simp_all add: loaded_as_def memo_of_def requireLock_def fun_eq_iff)
  have "ext N s0 ?s"
    using assms g unfolding ext_def l by (simp add: requireLock_def)
  with d l show ?thesis by (simp add: requireUnlock_def)
qed

definition result_ok :: "string set \<Rightarrow> (ptr option \<times> mst) run \<Rightarrow> mst \<Rightarrow> bool" where
  "result_ok N r s \<longleftrightarrow> (\<forall>v s'. r = Ret (v, s') \<longrightarrow> ext N s s'
     \<and> (\<forall>x. v = Some x \<longrightarrow> (\<exists>n \<in> N. \<exists>m. loaded_as s' n m x)))"

lemma ld_ok_iff: "ld_ok N ld \<longleftrightarrow> (\<forall>f args s. good s \<longrightarrow> result_ok N (ld f args s) s)"
  unfolding ld_ok_def result_ok_def by blast

text \<open>Marking a waiting module as loaded.\<close>

lemma set_loaded:
  assumes g: "good s" and w: "waiting s n m" and u: "upd_handle m (\<lambda>h. h\<lparr>mhf_loaded := True\<rparr>) s = Some s'"
  shows "ext N s s' \<and> (\<exists>x. loaded_as s' n m x) \<and> memo_of s' = memo_of s"
proof -
  obtain h where h: "handles s m = Some h" "\<not> mhf_loaded h" and m: "memo_of s n = Some m"
    using w by (auto simp: waiting_def)
  from ext_upd_loaded [OF g m h(1) _ _ _ _ _ u, of N] h(2)
  have e: "ext N s s'" "memo_of s' = memo_of s" "handles s' m = Some (h\<lparr>mhf_loaded := True\<rparr>)" by simp_all
  moreover from this m have "loaded_as s' n m (exports h)" by (simp add: loaded_as_def)
  ultimately show ?thesis by blast
qed

lemma release_unlock:
  assumes e: "ext N (requireLock s0) s" and l: "loaded_as s n m y" and nl: "\<forall>x. \<not> loaded_as s0 n m x"
    and g0: "good s0"
  shows "\<exists>s1 s2. releaseModuleHandle e m s = Some s1 \<and> requireUnlock s1 = Some s2 \<and> ext N s0 s2
    \<and> (\<exists>h'. handles s2 m = Some h') \<and> memo_of s2 = (memo_of s)(n := None) \<and> execs (events s2) = execs (events s)"
proof -
  have m: "memo_of s n = Some m" using l by (simp add: loaded_as_def)
  have "\<forall>x. \<not> loaded_as (requireLock s0) n m x" using nl ext_lock(2) [OF g0] by simp
  from ext_release [OF e m this, of e] obtain s1 where s1: "releaseModuleHandle e m s = Some s1"
    "ext N (requireLock s0) s1" "memo_of s1 = (memo_of s)(n := None)" "\<exists>h'. handles s1 m = Some h'"
    "execs (events s1) = execs (events s)" by blast
  from ext_unlock [OF s1(2)] s1 show ?thesis by auto
qed

lemma start_outcome:
  assumes ld: "ld_ok N ld" and g0: "good s0" and e: "ext N (requireLock s0) s"
    and m: "memo_of s n = Some m" and r: "start_module e ld m s = Ret (v, s')"
  shows "ext N s0 s' \<and> (\<forall>x. v = Some x \<longrightarrow> loaded_as s' n m x)"
proof -
  have g: "good s" using ext_good [OF e] .
  obtain h where h: "handles s m = Some h" using r by (auto simp: start_module_def bind_run_Ret)
  show ?thesis
  proof (cases "mhf_loaded h")
    case True
    from ext_unlock [OF e] obtain s1 where "requireUnlock s = Some s1" "ext N s0 s1" "handles s1 = handles s"
      "memo_of s1 = memo_of s" by blast
    with r h True m show ?thesis by (auto simp: start_module_def loaded_as_def)
  next
    case False
    with h m have w: "waiting s n m" by (simp add: waiting_def)
    have nl: "\<forall>x. \<not> loaded_as s0 n m x"
    proof (intro allI notI)
      fix x
      assume "loaded_as s0 n m x"
      then have "loaded_as (requireLock s0) n m x" by (simp add: loaded_as_def requireLock_def memo_of_def)
      from ext_loaded [OF e this] h False show False by (simp add: loaded_as_def)
    qed
    obtain s1 where u: "upd_handle m (\<lambda>h. h\<lparr>mhf_loaded := True\<rparr>) s = Some s1" using h by (simp add: upd_handle_def)
    from set_loaded [OF g w u, of N] obtain y where s1: "ext N s s1" "loaded_as s1 n m y" by blast
    have e1: "ext N (requireLock s0) s1" using ext_trans [OF e s1(1)] .
    show ?thesis
    proof (cases "init h = NULL \<and> script h = NULL")
      case True
      from release_unlock [OF e1 s1(2) nl g0, of e] obtain s2 s3 h3 where
        rel: "releaseModuleHandle e m s1 = Some s2" "requireUnlock s2 = Some s3" "ext N s0 s3" "handles s3 m = Some h3"
        by blast
      with r h \<open>\<not> mhf_loaded h\<close> u True have "v = None" "\<exists>msg. s' = gpsee_throw msg s3"
        by (auto simp: start_module_def)
      with ext_trans [OF rel(3) ext_throw [OF ext_good [OF rel(3)]]] show ?thesis by auto
    next
      case F: False
      with r h \<open>\<not> mhf_loaded h\<close> u obtain b s2 where i: "initializeModule e ld m s1 = Ret (b, s2)"
        and k: "(if \<not> b then
           bind_run (lift_run (releaseModuleHandle e m s2)) (\<lambda>s.
           bind_run (lift_run (requireUnlock s)) (\<lambda>s. Ret (None, s)))
         else bind_run (lift_run (requireUnlock s2)) (\<lambda>s.
           bind_run (lift_run (handles s m)) (\<lambda>h. Ret (Some (exports h), s)))) = Ret (v, s')"
        by (auto simp: start_module_def bind_run_Ret)
      have e2: "ext N s1 s2" using initialize_ext [OF ld ext_good [OF s1(1)] s1(2) i] .
      have l2: "loaded_as s2 n m y" using ext_loaded [OF e2 s1(2)] .
      have e2': "ext N (requireLock s0) s2" using ext_trans [OF e1 e2] .
      show ?thesis
      proof (cases b)
        case True
        from ext_unlock [OF e2'] obtain s3 where "requireUnlock s2 = Some s3" "ext N s0 s3" "handles s3 = handles s2"
          "memo_of s3 = memo_of s2" by blast
        with k True l2 show ?thesis by (fastforce simp: bind_run_Ret loaded_as_def)
      next
        case False
        from release_unlock [OF e2' l2 nl g0, of e] False k show ?thesis by (auto simp: bind_run_Ret)
      qed
    qed
  qed
qed

lemma start_ok:
  assumes "ld_ok N ld" and "good s0" and "ext N (requireLock s0) s" and "n \<in> N" and "memo_of s n = Some m"
  shows "result_ok N (start_module e ld m s) s0"
  using start_outcome [OF assms(1-3,5)] assms(4) unfolding result_ok_def by blast

lemma require_ok:
  assumes ld: "ld_ok (canon e) ld"
  shows "ld_ok (canon e) (require_body e ld)"
  unfolding ld_ok_iff
proof (intro allI impI)
  fix f and args :: "string option list" and s
  assume g: "good s"
  let ?name = "case hd args of None \<Rightarrow> '''' | Some n \<Rightarrow> n"
  obtain ok s1 where c: "call e ''JS_GetReservedSlot'' s = (ok, s1)" by fastforce
  have e1: "ext (canon e) s s1" using ext_call [OF g, of "canon e" e "''JS_GetReservedSlot''"] c by simp
  have g1: "good s1" using ext_good [OF e1] .
  consider (bad) "length args \<noteq> 1 \<or> ?name = ''''" | (slot) "length args = 1" "?name \<noteq> ''''" "\<not> ok"
    | (go) "length args = 1" "?name \<noteq> ''''" "ok" by blast
  then show "result_ok (canon e) (require_body e ld f args s) s"
  proof cases
    case bad
    then show ?thesis
      using ext_throw [OF g] by (auto simp: require_body_def result_ok_def Let_def)
  next
    case slot
    with c e1 show ?thesis by (simp add: require_body_def result_ok_def Let_def)
  next
    case go
    show ?thesis
    proof (cases "\<exists>p. slots s1 f 0 = PRIVATE_TO_JSVAL p")
      case False
      with go c show ?thesis
        by (auto simp: require_body_def result_ok_def Let_def split: jsval.splits)
    next
      case True
      then obtain p where p: "slots s1 f 0 = PRIVATE_TO_JSVAL p" by blast
      have eq: "require_body e ld f args s = bind_run (lift_run (find_module e p ?name (requireLock s1)))
          (\<lambda>(ok, module, s). if \<not> ok then bind_run (lift_run (requireUnlock s)) (\<lambda>s. Ret (None, s))
             else start_module e ld module s)"
        using go c p by (simp add: require_body_def Let_def)
      have "result_ok (canon e) (require_body e ld f args s) s1"
      proof (cases "find_module e p ?name (requireLock s1)")
        case None
        then show ?thesis by (simp add: eq result_ok_def lift_run_def)
      next
        case (Some y)
        obtain ok' m s2 where y: "y = (ok', m, s2)" by (cases y) auto
        from find_module_ext [OF ext_lock(1) [OF g1] Some [unfolded y]]
        have e2: "ext (canon e) (requireLock s1) s2"
          "ok' \<longrightarrow> m \<noteq> NULL \<longrightarrow> (\<exists>n \<in> canon e. memo_of s2 n = Some m)" by simp_all
        show ?thesis
        proof (cases ok')
          case False
          from ext_unlock [OF e2(1)] show ?thesis by (auto simp: eq Some y False result_ok_def)
        next
          case ok: True
          show ?thesis
          proof (cases "m = NULL")
            case True
            have "handles s2 NULL = None" using ext_good [OF e2(1)] by (auto simp: good_def mod_inv_def)
            then show ?thesis by (simp add: eq Some y ok True start_module_def result_ok_def lift_run_def)
          next
            case False
            with e2(2) ok obtain n where "n \<in> canon e" "memo_of s2 n = Some m" by blast
            from start_ok [OF ld g1 e2(1) this, of e] show ?thesis by (simp add: eq Some y ok)
          qed
        qed
      qed
      with ext_trans [OF e1] show ?thesis by (auto simp: result_ok_def)
    qed
  qed
qed

lemma loadModule_ok: "ld_ok (canon e) (gpsee_loadModule e fuel)"
proof (induction fuel)
  case 0
  then show ?case by (simp add: ld_ok_def)
next
  case (Suc fuel)
  from require_ok [OF this] show ?case by simp
qed

section \<open>Nesting ends\<close>

definition loaded_names :: "mst \<Rightarrow> string set" where
  "loaded_names s = {n. \<exists>m x. loaded_as s n m x}"

lemma ext_names: "ext N s s' \<Longrightarrow> loaded_names s \<subseteq> loaded_names s'"
  unfolding loaded_names_def ext_def by blast

text \<open>\<open>ld\<close> has fuel enough wherever at least \<open>L\<close> is loaded.\<close>

definition fuelled :: "require_fun \<Rightarrow> string set \<Rightarrow> bool" where
  "fuelled ld L \<longleftrightarrow> (\<forall>f args s. good s \<longrightarrow> L \<subseteq> loaded_names s \<longrightarrow> ld f args s \<noteq> NoFuel)"

lemma run_js_fuel:
  "ld_ok N ld \<Longrightarrow> fuelled ld L \<Longrightarrow> good s \<Longrightarrow> L \<subseteq> loaded_names s \<Longrightarrow> run_js ld p s \<noteq> NoFuel"
proof (induction p arbitrary: s)
  case (JRequire f args k)
  show ?case
  proof
    assume "run_js ld (JRequire f args k) s = NoFuel"
    moreover have "ld f args s \<noteq> NoFuel" using JRequire.prems by (simp add: fuelled_def)
    ultimately obtain v s1 where l: "ld f args s = Ret (v, s1)" and r: "run_js ld (k v) s1 = NoFuel"
      by (auto simp: bind_run_NoFuel)
    have e: "ext N s s1" using l JRequire.prems(1,3) by (simp add: ld_ok_def)
    have "L \<subseteq> loaded_names s1" using JRequire.prems(4) ext_names [OF e] by blast
    from JRequire.IH [OF rangeI JRequire.prems(1,2) ext_good [OF e] this] r show False by blast
  qed
next
  case (JGC p)
  from ext_gc [OF JGC.prems(3), of N] obtain s1 where l: "run_gc s = Some s1" and e: "ext N s s1" by blast
  have "L \<subseteq> loaded_names s1" using JGC.prems(4) ext_names [OF e] by blast
  from JGC.IH [OF JGC.prems(1,2) ext_good [OF e] this] l show ?case by simp
qed simp

lemma run_init_fuel:
  assumes "ld_ok N ld" and "fuelled ld L" and "good s" and "L \<subseteq> loaded_names s"
  shows "run_init e ld m s \<noteq> NoFuel"
proof (cases "handles s m")
  case (Some h)
  have t: "good (tick s)" "ext N s (tick s)" using ext_tick [OF assms(3)] ext_good by blast+
  have e: "ext N s (log_event (EvInit m (exports h)) (tick s))"
    using ext_trans [OF t(2) ext_log [OF t(1)]] by simp
  have "L \<subseteq> loaded_names (log_event (EvInit m (exports h)) (tick s))" using assms(4) ext_names [OF e] by blast
  from run_js_fuel [OF assms(1,2) ext_good [OF e] this] Some show ?thesis
    by (auto simp: run_init_def bind_run_NoFuel)
qed (simp add: run_init_def lift_run_def)

lemma run_script_fuel:
  assumes "ld_ok N ld" and "fuelled ld L" and "good s" and "L \<subseteq> loaded_names s" and l: "loaded_as s n m x"
  shows "run_script e ld m s \<noteq> NoFuel"
proof (cases "handles s m")
  case (Some h)
  show ?thesis
  proof (cases "script h = NULL")
    case False
    obtain s2 where u: "upd_handle m (\<lambda>h. h\<lparr>script := NULL\<rparr>) s = Some s2" using Some by (simp add: upd_handle_def)
    let ?s = "log_event (EvExec m (script h)) (log_event (EvSetGlobal (scope h)) (tick s2))"
    have e: "ext N s ?s" using ext_exec [OF assms(3) l Some False u] by simp
    have "L \<subseteq> loaded_names ?s" using assms(4) ext_names [OF e] by blast
    from run_js_fuel [OF assms(1,2) ext_good [OF e] this] Some u show ?thesis
      by (auto simp: run_script_def bind_run_NoFuel bind_run_Ret)
  qed (simp add: run_script_def Some)
qed (simp add: run_script_def lift_run_def)

lemma initialize_fuel:
  assumes ld: "ld_ok N ld" and f: "fuelled ld L" and g: "good s" and L: "L \<subseteq> loaded_names s" and l: "loaded_as s n m x"
  shows "initializeModule e ld m s \<noteq> NoFuel"
proof -
  have "run_script e ld m s1 \<noteq> NoFuel" if "run_init e ld m s = Ret s1" for s1
  proof -
    have e: "ext N s s1" using run_init_ext [OF ld g that] .
    have "L \<subseteq> loaded_names s1" using L ext_names [OF e] by blast
    from run_script_fuel [OF ld f ext_good [OF e] this ext_loaded [OF e l]] show ?thesis .
  qed
  with run_init_fuel [OF ld f g L] show ?thesis by (auto simp: initializeModule_def bind_run_NoFuel)
qed

lemma start_fuel:
  assumes ld: "ld_ok N ld" and g: "good s" and m: "memo_of s n = Some m"
    and f: "\<And>L. insert n (loaded_names s) \<subseteq> L \<Longrightarrow> n \<notin> loaded_names s \<Longrightarrow> fuelled ld L"
  shows "start_module e ld m s \<noteq> NoFuel"
proof -
  from good_handle [OF g m] obtain h where h: "handles s m = Some h" by blast
  show ?thesis
  proof (cases "mhf_loaded h")
    case True
    with h show ?thesis by (auto simp: start_module_def bind_run_NoFuel)
  next
    case False
    with h m have w: "waiting s n m" by (simp add: waiting_def)
    obtain s1 where u: "upd_handle m (\<lambda>h. h\<lparr>mhf_loaded := True\<rparr>) s = Some s1" using h by (simp add: upd_handle_def)
    from set_loaded [OF g w u, of N] obtain y where s1: "ext N s s1" "loaded_as s1 n m y" by blast
    have nn: "n \<notin> loaded_names s" using False h m by (auto simp: loaded_names_def loaded_as_def)
    have "insert n (loaded_names s) \<subseteq> loaded_names s1"
      using s1(2) ext_names [OF s1(1)] by (auto simp: loaded_names_def)
    from initialize_fuel [OF ld f [OF this nn] ext_good [OF s1(1)] order_refl s1(2)]
    have "initializeModule e ld m s1 \<noteq> NoFuel" .
    with h False u show ?thesis
      by (auto simp: start_module_def bind_run_NoFuel split: if_splits)
  qed
qed

lemma require_fuel:
  assumes ld: "ld_ok (canon e) ld" and fin: "finite (canon e)"
    and f: "\<forall>L. card (canon e - L) < k \<longrightarrow> fuelled ld L" and L: "card (canon e - L) < Suc k"
  shows "fuelled (require_body e ld) L"
  unfolding fuelled_def
proof (intro allI impI)
  fix f and args :: "string option list" and s
  assume g: "good s" and sub: "L \<subseteq> loaded_names s"
  let ?name = "case hd args of None \<Rightarrow> '''' | Some n \<Rightarrow> n"
  obtain ok s1 where c: "call e ''JS_GetReservedSlot'' s = (ok, s1)" by fastforce
  have e1: "ext (canon e) s s1" using ext_call [OF g, of "canon e" e "''JS_GetReservedSlot''"] c by simp
  have g1: "good s1" using ext_good [OF e1] .
  have st: "start_module e ld m s2 \<noteq> NoFuel"
    if r: "find_module e p ?name (requireLock s1) = Some (True, m, s2)" for p m s2
  proof (cases "m = NULL")
    case True
    have "good s2" using find_module_ext [OF ext_lock(1) [OF g1] r] ext_good by blast
    then have "handles s2 NULL = None" by (auto simp: good_def mod_inv_def)
    then show ?thesis by (simp add: True start_module_def lift_run_def)
  next
    case False
    with find_module_ext [OF ext_lock(1) [OF g1] r] obtain n where n: "n \<in> canon e" "memo_of s2 n = Some m"
      and e2: "ext (canon e) (requireLock s1) s2" by blast
    have "loaded_names s1 = loaded_names (requireLock s1)"
      using ext_lock(2) [OF g1] by (simp add: loaded_names_def)
    then have sub2: "L \<subseteq> loaded_names s2" using sub ext_names [OF e1] ext_names [OF e2] by blast
    show ?thesis
    proof (rule start_fuel [OF ld ext_good [OF e2] n(2)])
      fix L'
      assume L': "insert n (loaded_names s2) \<subseteq> L'" and nn: "n \<notin> loaded_names s2"
      have "canon e - L' \<subset> canon e - L" using L' nn n(1) sub2 by blast
      then have "card (canon e - L') < card (canon e - L)" using fin by (simp add: psubset_card_mono)
      with f L show "fuelled ld L'" by auto
    qed
  qed
  show "require_body e ld f args s \<noteq> NoFuel"
  proof (cases "length args \<noteq> 1 \<or> ?name = '''' \<or> \<not> ok")
    case True
    then show ?thesis using c by (auto simp: require_body_def Let_def)
  next
    case False
    show ?thesis
    proof (cases "\<exists>p. slots s1 f 0 = PRIVATE_TO_JSVAL p")
      case F: False
      with False c show ?thesis by (auto simp: require_body_def Let_def split: jsval.splits)
    next
      case True
      then obtain p where p: "slots s1 f 0 = PRIVATE_TO_JSVAL p" by blast
      have "require_body e ld f args s = bind_run (lift_run (find_module e p ?name (requireLock s1)))
          (\<lambda>(ok, module, s). if \<not> ok then bind_run (lift_run (requireUnlock s)) (\<lambda>s. Ret (None, s))
             else start_module e ld module s)"
        using False c p by (simp add: require_body_def Let_def)
      with st [of p] show ?thesis by (auto simp: bind_run_NoFuel split: if_splits)
    qed
  qed
qed

lemma loadModule_fuel:
  "finite (canon e) \<Longrightarrow> card (canon e - L) < fuel \<Longrightarrow> fuelled (gpsee_loadModule e fuel) L"
proof (induction fuel arbitrary: L)
  case (Suc k)
  have "\<forall>L. card (canon e - L) < k \<longrightarrow> fuelled (gpsee_loadModule e k) L" using Suc.IH Suc.prems(1) by blast
  from require_fuel [OF loadModule_ok Suc.prems(1) this Suc.prems(2)] show ?case by simp
qed simp

section \<open>Properties\<close>

text \<open>A state in which object 20 is the \<open>require\<close> of module 5, and environments where the
  script 77 does as it is told and native modules initialise at once.\<close>

definition run_env_ok :: "jsprog \<Rightarrow> run_env" where
  "run_env_ok p = load_env_ok \<lparr>script_prog = \<lambda>_ _. p, init_prog = \<lambda>_ _ _. JDone True\<rparr>"

definition mst_run :: mst where
  "mst_run = mst_jail\<lparr>slots := (\<lambda>_ _. JSVAL_VOID)(20 := (\<lambda>_. JSVAL_VOID)(0 := PRIVATE_TO_JSVAL NULL))\<rparr>"

lemma mst_run_good: "good mst_run"
  using mst_jail_good by (simp add: mst_run_def good_def mod_inv_def memo_ok_def memo_of_def exec_ok_def)

lemma run_env_canon: "canon (run_env_ok p) \<subseteq> {''vm'', ''/j/x'', ''/j/x.js''}"
proof -
  have "strip_extension ''/j/x.js'' ''so'' = ''/j/x.js''" "strip_extension ''/j/x.js'' ''js'' = ''/j/x''"
    by (simp_all add: strip_extension_def)
  then show ?thesis
    by (auto simp: canon_def disk_names_def run_env_ok_def load_env_ok_def checkJail_def split: if_splits)
qed

lemma run_env_require:
  "\<exists>s'. gpsee_loadModule (run_env_ok (JDone b)) 1 20 [Some ''x''] mst_run
      = Ret (if b then Some (exports (the (handles s' 10))) else None, s')
    \<and> execs (events s') = [10]"
proof -
  let ?e = "run_env_ok (JDone b)"
  let ?s = "mst_jail\<lparr>slots := slots mst_run, requireLockDepth := 1, clock := 1\<rparr>"
  obtain s1 h where l: "loadDiskModule ?e NULL ''x'' ?s = Some (True, 10, s1)"
    "handles s1 10 = Some h" "script h = 77" "init h = NULL" "\<not> mhf_loaded h"
    unfolding run_env_ok_def by (rule load_env_ok_search)
  have g: "good mst_run" by (rule mst_run_good)
  have s: "requireLock (snd (call ?e ''JS_GetReservedSlot'' mst_run)) = ?s"
    by (simp add: requireLock_def call_def mst_run_def mst_jail_def mst_empty_def)
  have k: "fst (call ?e ''JS_GetReservedSlot'' mst_run)"
    by (simp add: call_def run_env_ok_def load_env_ok_def)
  have f: "find_module ?e NULL ''x'' ?s = Some (True, 10, s1)"
    using l(1) by (simp add: find_module_def loadInternalModule_def run_env_ok_def load_env_ok_def)
  have "good ?s" using ext_lock(1) [OF ext_good [OF ext_call [OF g]]] s by metis
  from find_module_ext [OF this f] have e: "ext (canon ?e) ?s s1" "same_execs ?s s1" by simp_all
  then have d: "requireLockDepth s1 = 1" "execs (events s1) = []"
    by (simp_all add: ext_def same_execs_def mst_jail_def mst_empty_def)
  have m: "memo_of s1 n = Some 10 \<Longrightarrow> n = cname h" for n
    using good_handle [OF ext_good [OF e(1)], of n 10] l(2) by auto
  have st: "\<exists>s'. start_module ?e ld 10 s1 = Ret (if b then Some (exports (the (handles s' 10))) else None, s')
      \<and> execs (events s') = [10]" for ld
    using l(2-5) d
    by (cases b) (auto simp: start_module_def initializeModule_def run_init_def run_script_def upd_handle_def
        run_env_ok_def requireUnlock_def log_event_def tick_def releaseModuleHandle_def markModuleUnused_def
        load_env_ok_def Let_def)
  have "gpsee_loadModule ?e 1 20 [Some ''x''] mst_run = start_module ?e (gpsee_loadModule ?e 0) 10 s1"
    using k f s by (cases "call ?e ''JS_GetReservedSlot'' mst_run")
      (simp add: require_body_def call_def mst_run_def)
  with st show ?thesis by auto
qed





text \<open>C5: Nested requires end: if only finitely many canonical names can come up, a require never nests
  deeper than their number, because a module being loaded is never started again -- whatever
  cycles the modules' requires make.\<close>

theorem require_nesting_bounded:
  assumes "finite (canon e)" and "good s" and "card (canon e) < fuel"
  shows "gpsee_loadModule e fuel require_fn argv s \<noteq> NoFuel"
proof -
  have "card (canon e - loaded_names s) < fuel"
    using card_mono [OF assms(1), of "canon e - loaded_names s"] assms(3) by auto
  from loadModule_fuel [OF assms(1) this] assms(2) show ?thesis by (simp add: fuelled_def)
qed

text \<open>Module \<open>x\<close> requires itself.\<close>

theorem require_nesting_bounded_witness:
  "gpsee_loadModule (run_env_ok (JRequire 20 [Some ''x''] (\<lambda>_. JDone True))) 4 20 [Some ''x''] mst_run \<noteq> NoFuel"
proof -
  have "finite (canon (run_env_ok p))" "card (canon (run_env_ok p)) < 4" for p
    using finite_subset [OF run_env_canon [of p]] card_mono [OF _ run_env_canon [of p]] by simp_all
  with require_nesting_bounded [OF _ mst_run_good] show ?thesis by blast
qed

text \<open>C6: A module whose code throws is forgotten: its handle leaves the memo and is scheduled to be
  freed, the lock is left, and modules loaded before are untouched, so that the next require of
  the name starts afresh.\<close>

theorem failed_module_forgotten:
  assumes g: "good s0" and f: "find_module e parent name (requireLock s0) = Some (True, m, s)"
    and m: "memo_of s n = Some m" "n \<in> canon e"
    and r: "start_module e (gpsee_loadModule e fuel) m s = Ret (None, s')"
  shows "memo_of s' n = None \<and> requireLockDepth s' = requireLockDepth s0
    \<and> (\<exists>h. handles s' m = Some h \<and> released h)
    \<and> (\<forall>n m x. loaded_as s0 n m x \<longrightarrow> loaded_as s' n m x)"
proof -
  have ld: "ld_ok (canon e) (gpsee_loadModule e fuel)" by (rule loadModule_ok)
  have e: "ext (canon e) (requireLock s0) s" using find_module_ext [OF ext_lock(1) [OF g] f] by simp
  have fin: "ext (canon e) s0 s'"
    using start_ok [OF ld g e m(2,1), of e] r by (simp add: result_ok_def)
  have gs: "good s" using ext_good [OF e] .
  from good_handle [OF gs m(1)] obtain h where h: "handles s m = Some h" by blast
  have nl: "\<not> mhf_loaded h" using r h by (auto simp: start_module_def bind_run_Ret)
  have nl0: "\<forall>x. \<not> loaded_as s0 n m x"
    using e h nl ext_lock(2) [OF g] by (fastforce simp: ext_def loaded_as_def)
  obtain s1 where u: "upd_handle m (\<lambda>h. h\<lparr>mhf_loaded := True\<rparr>) s = Some s1" using h by (simp add: upd_handle_def)
  have w: "waiting s n m" using h nl m(1) by (simp add: waiting_def)
  from set_loaded [OF gs w u, of "canon e"] obtain y where s1: "ext (canon e) s s1" "loaded_as s1 n m y" by blast
  have goal: "memo_of s' n = None \<and> (\<exists>h. handles s' m = Some h \<and> released h)"
    if e2: "ext (canon e) s1 s2" and rel: "releaseModuleHandle e m s2 = Some s3"
      and u3: "requireUnlock s3 = Some s4" and t: "s' = s4 \<or> (\<exists>msg. s' = gpsee_throw msg s4)" for s2 s3 s4
  proof -
    have l2: "loaded_as s2 n m y" using ext_loaded [OF e2 s1(2)] .
    obtain ps where inv: "mod_inv s2 ps" using ext_good [OF e2] by (auto simp: good_def)
    from l2 have mm: "memo_of s2 n = Some m" by (simp add: loaded_as_def)
    obtain h2 where h2: "handles s2 m = Some h2" "cname h2 = n" "\<not> released h2"
      using memo_handle [OF inv mm] by auto
    from release_inv [OF inv h2(1,3), of e] mm h2(2) rel have
      "memo_of s3 n = None" "\<exists>h. handles s3 m = Some h \<and> released h" by auto
    with u3 t show ?thesis
      by (auto simp: requireUnlock_def memo_of_def gpsee_throw_def log_event_def split: if_splits)
  qed
  have "memo_of s' n = None \<and> (\<exists>h. handles s' m = Some h \<and> released h)"
  proof (cases "init h = NULL \<and> script h = NULL")
    case True
    with r h nl u obtain s3 s4 where "releaseModuleHandle e m s1 = Some s3" "requireUnlock s3 = Some s4"
      "\<exists>msg. s' = gpsee_throw msg s4" by (auto simp: start_module_def bind_run_Ret)
    with goal [of s1 s3 s4] ext_refl [OF ext_good [OF s1(1)]] show ?thesis by blast
  next
    case False
    with r h nl u obtain s2 s3 where "initializeModule e (gpsee_loadModule e fuel) m s1 = Ret (False, s2)"
      "releaseModuleHandle e m s2 = Some s3" "requireUnlock s3 = Some s'"
      by (auto simp: start_module_def bind_run_Ret split: prod.splits if_splits)
    with goal [of s2 s3 s'] initialize_ext [OF ld ext_good [OF s1(1)] s1(2)] show ?thesis by blast
  qed
  with fin show ?thesis by (simp add: ext_def)
qed

theorem failed_module_forgotten_witness:
  "\<exists>s s' n. find_module (run_env_ok (JDone False)) NULL ''x'' (requireLock mst_run) = Some (True, 10, s)
    \<and> start_module (run_env_ok (JDone False)) (gpsee_loadModule (run_env_ok (JDone False)) 0) 10 s = Ret (None, s')
    \<and> memo_of s n = Some 10 \<and> memo_of s' n = None"
proof -
  let ?e = "run_env_ok (JDone False)"
  have s: "requireLock mst_run = mst_jail\<lparr>slots := slots mst_run, requireLockDepth := 1, clock := 0\<rparr>"
    by (simp add: requireLock_def mst_run_def mst_jail_def mst_empty_def)
  obtain s1 h where l: "loadDiskModule ?e NULL ''x'' (requireLock mst_run) = Some (True, 10, s1)"
    "handles s1 10 = Some h" "script h = 77" "init h = NULL" "\<not> mhf_loaded h"
    unfolding run_env_ok_def s by (rule load_env_ok_search)
  have f: "find_module ?e NULL ''x'' (requireLock mst_run) = Some (True, 10, s1)"
    using l(1) by (simp add: find_module_def loadInternalModule_def run_env_ok_def load_env_ok_def)
  from find_module_ext [OF ext_lock(1) [OF mst_run_good] f] obtain n where
    e: "ext (canon ?e) (requireLock mst_run) s1" and n: "n \<in> canon ?e" "memo_of s1 n = Some 10" by auto
  from good_handle [OF ext_good [OF e] n(2)] l(2) have "\<not> released h" by auto
  moreover have "requireLockDepth s1 = 1" using e by (simp add: ext_def s)
  ultimately have "\<exists>s'. start_module ?e (gpsee_loadModule ?e 0) 10 s1 = Ret (None, s')"
    using l(2-5) by (auto simp: start_module_def initializeModule_def run_init_def run_script_def upd_handle_def
        run_env_ok_def requireUnlock_def log_event_def tick_def releaseModuleHandle_def markModuleUnused_def
        load_env_ok_def Let_def)
  then obtain s' where st: "start_module ?e (gpsee_loadModule ?e 0) 10 s1 = Ret (None, s')" by blast
  from failed_module_forgotten [OF mst_run_good f n(2,1) st] f st n(2) show ?thesis by blast
qed

text \<open>Requiring an internal module again, from whatever module, gives the same exports object as the
  first time, and no code is run or anything else done that shows outside.\<close>

theorem internal_require_again:
  assumes g: "good s" and i: "map_of (internalModules e) name = Some im"
    and r1: "gpsee_loadModule e fuel f [Some name] s = Ret (Some x, s1)"
    and later: "ext UNIV s1 s2" and r2: "gpsee_loadModule e (Suc fuel') f' [Some name] s2 = Ret (Some y, s3)"
  shows "y = x \<and> events s3 = events s2"
proof -
  obtain k where k: "fuel = Suc k" using r1 by (cases fuel) simp_all
  have body: "\<exists>p s0 s4 m. s0 = snd (call e ''JS_GetReservedSlot'' s) \<and>
      find_module e p name (requireLock s0) = Some (True, m, s4) \<and> start_module e ld m s4 = Ret (Some z, s')"
    if "require_body e ld f [Some name] s = Ret (Some z, s')" for ld f s z s'
    using that by (auto simp: require_body_def Let_def bind_run_Ret split: if_splits jsval.splits prod.splits)
  from body [of "gpsee_loadModule e k" f s x s1] r1 k obtain p s0 s4 m where
    s0: "s0 = snd (call e ''JS_GetReservedSlot'' s)" and
    f1: "find_module e p name (requireLock s0) = Some (True, m, s4)" and
    st: "start_module e (gpsee_loadModule e k) m s4 = Ret (Some x, s1)" by auto
  have g0: "good s0" using ext_good [OF ext_call [OF g]] by (simp add: s0)
  from find_module_ext [OF ext_lock(1) [OF g0] f1] have e4: "ext (canon e) (requireLock s0) s4" by simp
  have "memo_of s4 name = Some m"
  proof -
    obtain ok m1 t where l: "loadInternalModule e name (requireLock s0) = Some (ok, m1, t)"
      and kk: "(if \<not> ok then Some (False, m1, t) else if m1 \<noteq> NULL then Some (True, m1, t)
        else loadDiskModule e p name t) = Some (True, m, s4)"
      using f1 by (auto simp: find_module_def split: bind_splits)
    from l i obtain t1 where a: "acquireModuleHandle e name NULL (requireLock s0) = Some (m1, t1)"
      and h: "handles t1 m1 \<noteq> None" and ok "memo_of t = memo_of t1"
      by (cases im) (auto simp: loadInternalModule_def upd_handle_def memo_of_def split: bind_splits if_splits)
    from extends_acquire [OF ext_lock(1) [OF g0] a, of UNIV]
    have e1: "extends UNIV (requireLock s0) t1" "m1 \<noteq> NULL \<longrightarrow> memo_of t1 name = Some m1" by simp_all
    have "handles t1 NULL = None" using extends_good [OF e1(1)] by (auto simp: good_def mod_inv_def)
    with h have "m1 \<noteq> NULL" by metis
    with kk e1(2) \<open>ok\<close> \<open>memo_of t = memo_of t1\<close> show ?thesis by auto
  qed
  from start_outcome [OF loadModule_ok g0 e4 this st] have "loaded_as s1 name m x" by simp
  then have l2: "loaded_as s2 name m x" using ext_loaded [OF later] by blast
  from body [of "gpsee_loadModule e fuel'" f' s2 y s3] r2 obtain p' s0' s4' m' where
    s0': "s0' = snd (call e ''JS_GetReservedSlot'' s2)" and
    f2: "find_module e p' name (requireLock s0') = Some (True, m', s4')" and
    st': "start_module e (gpsee_loadModule e fuel') m' s4' = Ret (Some y, s3)" by auto
  have g2: "good s2" using ext_good [OF later] .
  have e0: "ext UNIV s2 s0'" using ext_call [OF g2] by (simp add: s0')
  have gl: "good (requireLock s0')" using ext_lock(1) [OF ext_good [OF e0]] .
  have l0: "loaded_as (requireLock s0') name m x" using ext_loaded [OF e0 l2] by (simp add: ext_lock(2) [OF ext_good [OF e0]])
  then have mm: "memo_of (requireLock s0') name = Some m" by (simp add: loaded_as_def)
  have mz: "m \<noteq> NULL" using good_handle [OF gl mm] by simp
  obtain q t where fh: "findModuleHandle name (requireLock s0') = (q, t)" by fastforce
  have "keys_sorted (modules (requireLock s0'))" using gl by (auto simp: good_def mod_inv_def memo_ok_def)
  from find_spec [OF this fh] mm obtain tr where q: "q = m" and t: "t = (requireLock s0')\<lparr>modules := tr\<rparr>" by auto
  obtain h where h: "handles t m = Some h" "mhf_loaded h" "exports h = x" using l0 t by (auto simp: loaded_as_def)
  have "find_module e p' name (requireLock s0') = Some (True, m, t)"
    using i fh q mz h by (cases im) (simp add: find_module_def loadInternalModule_def acquireModuleHandle_def)
  with f2 have "m' = m" "s4' = t" by simp_all
  with st' h have "y = x" "requireUnlock t = Some s3" by (auto simp: start_module_def bind_run_Ret)
  moreover have "events t = events s2" by (simp add: t requireLock_def s0' call_def)
  ultimately show ?thesis by (auto simp: requireUnlock_def split: if_splits)
qed

lemma run_env_internal:
  "\<exists>x s1 y s2. gpsee_loadModule (run_env_ok p) 1 20 [Some ''vm''] mst_run = Ret (Some x, s1)
    \<and> gpsee_loadModule (run_env_ok p) 1 20 [Some ''vm''] s1 = Ret (Some y, s2)"
  by (simp add: require_body_def call_def call_new_def run_env_ok_def load_env_ok_def mst_run_def mst_jail_def mst_empty_def
      requireLock_def find_module_def loadInternalModule_def acquireModuleHandle_def findModuleHandle_def
      SPLAY_FIND_def SPLAY_INSERT_def splay_def splay_loop.simps splay_assemble.simps upd_handle_def Let_def newModuleScope_def calloc_handle_def start_module_def
      initializeModuleScope_def define_module_globals_def guard_def setModuleScopeInfo_def
      define_property_def set_slot_def ensure_userModulePath_def newModuleExports_def
      initializeModule_def run_init_def run_script_def requireUnlock_def log_event_def tick_def)

theorem internal_require_again_witness:
  "\<exists>x s1 s3. gpsee_loadModule (run_env_ok (JDone True)) 1 20 [Some ''vm''] mst_run = Ret (Some x, s1)
    \<and> gpsee_loadModule (run_env_ok (JDone True)) (Suc 0) 20 [Some ''vm''] s1 = Ret (Some x, s3)"
proof -
  let ?e = "run_env_ok (JDone True)"
  from run_env_internal obtain x s1 y s3 where r: "gpsee_loadModule ?e 1 20 [Some ''vm''] mst_run = Ret (Some x, s1)"
    "gpsee_loadModule ?e (Suc 0) 20 [Some ''vm''] s1 = Ret (Some y, s3)" by (metis One_nat_def)
  have "good s1" using loadModule_ok [of ?e 1] r(1) mst_run_good ext_good unfolding ld_ok_def by blast
  have i: "map_of (internalModules ?e) ''vm'' = Some (90, 91)" by (simp add: run_env_ok_def load_env_ok_def)
  show ?thesis
    using internal_require_again [OF mst_run_good i r(1) ext_refl [OF \<open>good s1\<close>] r(2)] r by blast
qed

end
