(* ===== verification/MonitorSystem.thy ===== *)
theory MonitorSystem
  imports DataStore
begin

text \<open>
  The monitor subsystem of gpsee\_monitors.c: monitors are created on demand and listed in
  an unlocked data store of the runtime, which \<open>gpsee_shutdownMonitorSystem\<close> walks to
  destroy the ones that are left.  The store operations that need the runtime
  (\<open>gpsee_ds_create\<close> and \<open>gpsee_ds_destroy\<close>) are here too.

  The pointer PR\_NewMonitor returns is an argument.  The value \<open>None\<close> of an operation
  stands for a dereferenced NULL pointer (a monitor list that could not be allocated).
\<close>

section \<open>State and operations\<close>

record mon_rt =
  mon_monitor :: ptr
  mon_list :: "dstore option"

definition gpsee_createMonitor ::
    "ptr \<Rightarrow> bool \<Rightarrow> mon_rt \<Rightarrow> (ptr \<times> mon_rt \<times> pr_trace) option" where
  "gpsee_createMonitor monitor realloc_ok grt =
     (case mon_list grt of
        None \<Rightarrow> None
      | Some lst \<Rightarrow>
          (case gpsee_ds_put realloc_ok lst monitor NULL of (_, lst', tr) \<Rightarrow>
             Some (monitor, grt\<lparr>mon_list := Some lst'\<rparr>,
               [PR_EnterMonitor (mon_monitor grt)] @ tr @ [PR_ExitMonitor (mon_monitor grt)])))"

definition gpsee_destroyMonitor :: "ptr \<Rightarrow> mon_rt \<Rightarrow> (mon_rt \<times> pr_trace) option" where
  "gpsee_destroyMonitor monitor grt =
     (if monitor = nilMonitor then Some (grt, [])
      else case mon_list grt of
             None \<Rightarrow> None
           | Some lst \<Rightarrow>
               (case gpsee_ds_remove lst monitor of (_, lst', tr) \<Rightarrow>
                  Some (grt\<lparr>mon_list := Some lst'\<rparr>,
                    [PR_EnterMonitor (mon_monitor grt)] @ tr @ [PR_ExitMonitor (mon_monitor grt)]
                    @ [PR_DestroyMonitor monitor])))"

text \<open>The result is the pointed-to monitor after the call.\<close>

definition gpsee_enterAutoMonitorRT ::
    "ptr \<Rightarrow> bool \<Rightarrow> mon_rt \<Rightarrow> ptr \<Rightarrow> (ptr \<times> mon_rt \<times> pr_trace) option" where
  "gpsee_enterAutoMonitorRT new realloc_ok grt monitor =
     (if monitor = NULL
      then (case gpsee_createMonitor new realloc_ok grt of
              None \<Rightarrow> None
            | Some (monitor', grt', tr) \<Rightarrow> Some (monitor', grt', tr @ gpsee_enterMonitor monitor'))
      else Some (monitor, grt, gpsee_enterMonitor monitor))"

definition gpsee_ds_create ::
    "bool \<Rightarrow> bool \<Rightarrow> ptr \<Rightarrow> bool \<Rightarrow> ptr \<Rightarrow> mon_rt \<Rightarrow> 32 word \<Rightarrow> nat \<Rightarrow>
     (dstore option \<times> mon_rt \<times> pr_trace) option" where
  "gpsee_ds_create calloc_store_ok calloc_data_ok new realloc_ok grt_p grt flags initialSizeHint =
     (case ds_create calloc_store_ok calloc_data_ok initialSizeHint of
        None \<Rightarrow> Some (None, grt, [])
      | Some store \<Rightarrow>
          (case (if flags AND GPSEE_DS_UNLOCKED \<noteq> 0 then Some (gpsee_getNilMonitor, grt, [])
                 else gpsee_createMonitor new realloc_ok grt) of
             None \<Rightarrow> None
           | Some (monitor, grt', tr) \<Rightarrow>
               Some (Some (store\<lparr>ds_monitor := monitor, ds_grt := grt_p, ds_flags := flags\<rparr>), grt', tr)))"

definition gpsee_ds_destroy :: "dstore \<Rightarrow> mon_rt \<Rightarrow> (mon_rt \<times> pr_trace) option" where
  "gpsee_ds_destroy store grt =
     (case gpsee_destroyMonitor (ds_monitor store) grt of
        None \<Rightarrow> None
      | Some (grt', tr) \<Rightarrow>
          Some (grt', gpsee_enterMonitor (ds_monitor store) @ gpsee_leaveMonitor (ds_monitor store) @ tr))"

text \<open>The result of \<open>gpsee_ds_create\<close> is stored without a check.\<close>

definition gpsee_initializeMonitorSystem :: "ptr \<Rightarrow> bool \<Rightarrow> bool \<Rightarrow> bool \<times> mon_rt" where
  "gpsee_initializeMonitorSystem monitor calloc_store_ok calloc_data_ok =
     (if monitor = NULL then (False, \<lparr>mon_monitor = NULL, mon_list = None\<rparr>)
      else let grt = \<lparr>mon_monitor = monitor, mon_list = None\<rparr> in
        case gpsee_ds_create calloc_store_ok calloc_data_ok NULL False NULL grt GPSEE_DS_UNLOCKED 5 of
          None \<Rightarrow> (True, grt)
        | Some (lst, grt', tr) \<Rightarrow> (True, grt'\<lparr>mon_list := lst\<rparr>))"

definition destroyMonitor_cb :: "dstore forEach_fn" where
  "destroyMonitor_cb key val s = (True, s, [PR_DestroyMonitor key])"

definition gpsee_shutdownMonitorSystem :: "mon_rt \<Rightarrow> pr_trace option" where
  "gpsee_shutdownMonitorSystem grt =
     do { lst \<leftarrow> mon_list grt;
          (_, lst', tr) \<leftarrow> gpsee_ds_forEach (\<lambda>s. s) destroyMonitor_cb lst;
          (grt', tr') \<leftarrow> gpsee_ds_destroy lst' grt;
          Some (tr @ tr' @ [PR_DestroyMonitor (mon_monitor grt)]) }"

section \<open>The list of live monitors\<close>

definition mon_ok :: "mon_rt \<Rightarrow> ptr \<Rightarrow> ptr multiset \<Rightarrow> bool" where
  "mon_ok grt mm live \<longleftrightarrow> mon_monitor grt = mm \<and>
     (\<exists>lst. mon_list grt = Some lst \<and> ds_monitor lst = nilMonitor \<and> \<not> is_otm lst
        \<and> mset (used_keys (ds_data lst)) = live)"

lemma slots_put_used_new:
  "key \<notin> fst ` set data \<Longrightarrow> key \<noteq> NULL \<Longrightarrow> slots_put data key val = Some data' \<Longrightarrow>
   mset (used_keys data') = add_mset key (mset (used_keys data))"
  by (induction data key val arbitrary: data' rule: slots_put.induct)
    (auto simp: used_keys_def split: if_splits)

lemma used_keys_grow:
  "key \<noteq> NULL \<Longrightarrow> used_keys (ds_grow data key val) = used_keys data @ [key]"
  by (simp add: ds_grow_def used_keys_def)

lemma nil_calls [simp]: "gpsee_enterMonitor nilMonitor = []" "gpsee_leaveMonitor nilMonitor = []"
  by (simp_all add: gpsee_enterMonitor_def gpsee_leaveMonitor_def)

lemma put_new_used:
  assumes "\<not> is_otm lst" and "key \<noteq> NULL" and "key \<notin># mset (used_keys (ds_data lst))"
  shows "mset (used_keys (ds_data (fst (snd (gpsee_ds_put True lst key val))))) =
    add_mset key (mset (used_keys (ds_data lst)))"
proof -
  have notin: "key \<notin> fst ` set (ds_data lst)" using assms(2,3) by (auto simp: set_used_keys)
  show ?thesis
    using assms(1,2) slots_put_used_new [OF notin assms(2)]
    by (cases "slots_put (ds_data lst) key val") (auto simp: gpsee_ds_put_def Let_def used_keys_grow)
qed

lemma createMonitor_ok:
  assumes "mon_ok grt mm live" and "m \<noteq> NULL" and "m \<notin># live"
  shows "\<exists>grt'. gpsee_createMonitor m True grt = Some (m, grt', [PR_EnterMonitor mm, PR_ExitMonitor mm])
    \<and> mon_ok grt' mm (add_mset m live)"
proof -
  from assms(1) obtain lst where lst: "mon_list grt = Some lst" "ds_monitor lst = nilMonitor"
    "\<not> is_otm lst" "mset (used_keys (ds_data lst)) = live" and mm: "mon_monitor grt = mm"
    by (auto simp: mon_ok_def)
  obtain r lst' tr where p: "gpsee_ds_put True lst m NULL = (r, lst', tr)"
    by (cases "gpsee_ds_put True lst m NULL")
  have "tr = []" using p lst(2) by (auto simp: gpsee_ds_put_def Let_def split: option.splits)
  moreover have "mset (used_keys (ds_data lst')) = add_mset m live"
    using put_new_used [OF lst(3) assms(2), of NULL] assms(3) lst(4) p by simp
  ultimately show ?thesis
    using lst mm p put_flags [OF p] by (simp add: gpsee_createMonitor_def mon_ok_def is_otm_def)
qed

lemma destroyMonitor_ok:
  assumes "mon_ok grt mm live" and "m \<noteq> NULL" and "m \<noteq> nilMonitor"
  shows "\<exists>grt'. gpsee_destroyMonitor m grt
      = Some (grt', [PR_EnterMonitor mm, PR_ExitMonitor mm, PR_DestroyMonitor m])
    \<and> mon_ok grt' mm (live - {#m#})"
proof -
  from assms(1) obtain lst where lst: "mon_list grt = Some lst" "ds_monitor lst = nilMonitor"
    "\<not> is_otm lst" "mset (used_keys (ds_data lst)) = live" and mm: "mon_monitor grt = mm"
    by (auto simp: mon_ok_def)
  have u: "used_keys (snd (slots_remove (ds_data lst) m)) = remove1 m (used_keys (ds_data lst))"
    using assms(2) by (rule slots_remove_used)
  show ?thesis
    using lst mm u assms(3)
    by (auto simp: gpsee_destroyMonitor_def gpsee_ds_remove_def mon_ok_def is_otm_def
        split: prod.split)
qed

lemma initialize_ok:
  "m \<noteq> NULL \<Longrightarrow> fst (gpsee_initializeMonitorSystem m True True)
     \<and> mon_ok (snd (gpsee_initializeMonitorSystem m True True)) m {#}"
  by (simp add: gpsee_initializeMonitorSystem_def gpsee_ds_create_def ds_create_def mon_ok_def
      GPSEE_DS_UNLOCKED_def GPSEE_DS_OTM_KEYS_def is_otm_def used_keys_def gpsee_getNilMonitor_def)

lemma visit_destroyMonitor:
  "visit destroyMonitor_cb data s tr = (True, s, tr @ map PR_DestroyMonitor (used_keys data))"
  by (induction data arbitrary: tr) (auto simp: destroyMonitor_cb_def used_keys_def)

lemma destroyed_map [simp]: "destroyed (map PR_DestroyMonitor ms) = ms"
  by (induction ms) auto

lemma shutdown_ok:
  assumes "mon_ok grt mm live"
  shows "\<exists>tr. gpsee_shutdownMonitorSystem grt = Some tr \<and> mset (destroyed tr) = add_mset mm live"
proof -
  from assms obtain lst where lst: "mon_list grt = Some lst" "ds_monitor lst = nilMonitor"
    "mset (used_keys (ds_data lst)) = live" and mm: "mon_monitor grt = mm" by (auto simp: mon_ok_def)
  have "gpsee_ds_forEach (\<lambda>s. s) destroyMonitor_cb lst
      = Some (True, lst, map PR_DestroyMonitor (used_keys (ds_data lst)))"
    by (subst forEach_visit) (simp_all add: destroyMonitor_cb_def visit_destroyMonitor lst)
  then show ?thesis
    using lst mm by (simp add: gpsee_shutdownMonitorSystem_def gpsee_ds_destroy_def
        gpsee_destroyMonitor_def)
qed

section \<open>Runs of the monitor system\<close>

text \<open>
  What the rest of the program does with the monitor system between its initialisation and
  its shutdown.  \<open>mon_legal\<close>: PR\_NewMonitor returns a pointer that is not the one of
  a live monitor, and only live monitors are destroyed.
\<close>

datatype mon_op = Create ptr | Destroy ptr

fun mon_exec :: "mon_op list \<Rightarrow> mon_rt \<Rightarrow> (mon_rt \<times> pr_trace) option" where
  "mon_exec [] grt = Some (grt, [])"
| "mon_exec (Create m # ops) grt =
     (case gpsee_createMonitor m True grt of
        None \<Rightarrow> None
      | Some (_, grt', tr) \<Rightarrow> map_option (\<lambda>(r, tr'). (r, tr @ tr')) (mon_exec ops grt'))"
| "mon_exec (Destroy m # ops) grt =
     (case gpsee_destroyMonitor m grt of
        None \<Rightarrow> None
      | Some (grt', tr) \<Rightarrow> map_option (\<lambda>(r, tr'). (r, tr @ tr')) (mon_exec ops grt'))"

fun mon_legal :: "mon_op list \<Rightarrow> ptr multiset \<Rightarrow> bool" where
  "mon_legal [] live = True"
| "mon_legal (Create m # ops) live =
     (m \<noteq> NULL \<and> m \<noteq> nilMonitor \<and> m \<notin># live \<and> mon_legal ops (add_mset m live))"
| "mon_legal (Destroy m # ops) live = (m \<in># live \<and> mon_legal ops (live - {#m#}))"

fun mon_created :: "mon_op list \<Rightarrow> ptr multiset" where
  "mon_created [] = {#}"
| "mon_created (Create m # ops) = add_mset m (mon_created ops)"
| "mon_created (Destroy m # ops) = mon_created ops"

lemma mon_exec_ok:
  assumes "mon_ok grt mm live" and "mon_legal ops live" and "NULL \<notin># live" and "nilMonitor \<notin># live"
  shows "\<exists>grt' tr live'. mon_exec ops grt = Some (grt', tr) \<and> mon_ok grt' mm live'
    \<and> mset (destroyed tr) + live' = mon_created ops + live"
  using assms
proof (induction ops arbitrary: grt live)
  case (Cons op ops)
  show ?case
  proof (cases op)
    case (Create m)
    with Cons.prems createMonitor_ok [of grt mm live m] obtain grt' where
      c: "gpsee_createMonitor m True grt = Some (m, grt', [PR_EnterMonitor mm, PR_ExitMonitor mm])"
      "mon_ok grt' mm (add_mset m live)" by auto
    from Cons.IH [OF c(2)] Cons.prems Create obtain grt'' tr live' where
      "mon_exec ops grt' = Some (grt'', tr)" "mon_ok grt'' mm live'"
      "mset (destroyed tr) + live' = mon_created ops + add_mset m live" by auto
    with c Create show ?thesis by auto
  next
    case (Destroy m)
    with Cons.prems(2) have "m \<in># live" by simp
    moreover from this have "m \<noteq> NULL" "m \<noteq> nilMonitor" using Cons.prems(3,4) by metis+
    ultimately have m: "m \<noteq> NULL" "m \<noteq> nilMonitor" "m \<in># live" by simp_all
    from destroyMonitor_ok [OF Cons.prems(1) m(1,2)] obtain grt' where
      d: "gpsee_destroyMonitor m grt
        = Some (grt', [PR_EnterMonitor mm, PR_ExitMonitor mm, PR_DestroyMonitor m])"
      "mon_ok grt' mm (live - {#m#})" by blast
    have "NULL \<notin># live - {#m#}" "nilMonitor \<notin># live - {#m#}"
      using Cons.prems(3,4) by (meson in_diffD)+
    with Cons.IH [OF d(2)] Cons.prems Destroy obtain grt'' tr live' where
      "mon_exec ops grt' = Some (grt'', tr)" "mon_ok grt'' mm live'"
      "mset (destroyed tr) + live' = mon_created ops + (live - {#m#})" by auto
    moreover have "add_mset m (live - {#m#}) = live" using m(3) by simp
    ultimately have "add_mset m (mset (destroyed tr)) + live' = mon_created ops + live"
      by (metis union_mset_add_mset_left union_mset_add_mset_right)
    with d Destroy \<open>mon_exec ops grt' = Some (grt'', tr)\<close> \<open>mon_ok grt'' mm live'\<close> show ?thesis
      by auto
  qed
qed simp

text \<open>Every monitor that was created between the initialisation of the monitor system and its
  shutdown is destroyed exactly as many times as it was created, and so is the system's own
  monitor: none leaks and none is destroyed twice.\<close>

theorem monitor_lifecycle:
  assumes "m \<noteq> NULL" and "mon_legal ops {#}"
    and "gpsee_initializeMonitorSystem m True True = (True, grt)"
  shows "\<exists>grt' tr tr'. mon_exec ops grt = Some (grt', tr) \<and> gpsee_shutdownMonitorSystem grt' = Some tr'
    \<and> mset (destroyed (tr @ tr')) = add_mset m (mon_created ops)"
proof -
  have "mon_ok grt m {#}" using initialize_ok [OF assms(1)] assms(3) by simp
  from mon_exec_ok [OF this assms(2)] obtain grt' tr live where
    e: "mon_exec ops grt = Some (grt', tr)" "mon_ok grt' m live"
    "mset (destroyed tr) + live = mon_created ops" by auto
  from shutdown_ok [OF e(2)] e show ?thesis by auto
qed

theorem monitor_lifecycle_witness:
  "\<exists>grt tr tr'. mon_exec [Create 16, Create 32, Destroy 16, Create 48]
       (snd (gpsee_initializeMonitorSystem 8 True True)) = Some (grt, tr)
     \<and> gpsee_shutdownMonitorSystem grt = Some tr'
     \<and> mset (destroyed (tr @ tr')) = {#8, 16, 32, 48#}"
  using monitor_lifecycle [of 8 "[Create 16, Create 32, Destroy 16, Create 48]"
      "snd (gpsee_initializeMonitorSystem 8 True True)"]
  by (simp add: nilMonitor_def gpsee_initializeMonitorSystem_def Let_def gpsee_ds_create_def
      ds_create_def GPSEE_DS_UNLOCKED_def add_mset_commute)

end
