(* ===== verification/ModuleSystem.thy ===== *)
theory ModuleSystem
  imports ModuleRun MonitorSystem
begin

text \<open>
  The module system as a whole (gpsee\_modules.c): running a program module, setting the
  module system of a realm up, shutting it down, and the module data store.

  What is read from the host -- the working directory, file identities, opening the program's
  file -- is the environment \<open>prog_env\<close>; open files are numbers.
\<close>

section \<open>Running a program\<close>

record prog_env = run_env +
  getcwd :: "nat \<Rightarrow> string option"
  stat_id :: "string \<Rightarrow> nat \<Rightarrow> (nat \<times> nat) option"
  fstat_id :: "nat \<Rightarrow> nat \<Rightarrow> (nat \<times> nat) option"
  fopen :: "string \<Rightarrow> nat \<Rightarrow> nat option"

text \<open>The file name made absolute: the inner \<open>None\<close> is a failure that is reported.\<close>

definition program_path ::
    "('e) prog_env_scheme \<Rightarrow> string \<Rightarrow> mst \<Rightarrow> string option option" where
  "program_path e scriptFilename s =
     (if char_at scriptFilename 0 = CHR ''/'' then Some (Some scriptFilename)
      else (case getcwd e (clock s) of
              None \<Rightarrow> Some None
            | Some dir \<Rightarrow>
                do { (tmpBuf, n) \<leftarrow> gpsee_catstrn (dir @ replicate (PATH_MAX - length dir) NUL) ''/'' PATH_MAX;
                     if n = 0 then Some None
                     else do { (tmpBuf, n) \<leftarrow> gpsee_catstrn tmpBuf scriptFilename PATH_MAX;
                               if n = 0 then Some None
                               else map_option Some (cstr_at tmpBuf 0) } }))"

text \<open>Whether the open file is still the one of that name.\<close>

definition check_scriptFile ::
    "('e) prog_env_scheme \<Rightarrow> string \<Rightarrow> nat option \<Rightarrow> mst \<Rightarrow> bool \<times> mst" where
  "check_scriptFile e fnBuf scriptFile s =
     (case scriptFile of
        None \<Rightarrow> (True, s)
      | Some f \<Rightarrow>
          (case stat_id e fnBuf (clock s) of
             None \<Rightarrow> (False, gpsee_throw ''stat() error'' s)
           | Some sb1 \<Rightarrow>
               (case fstat_id e f (clock s) of
                  None \<Rightarrow> (False, gpsee_throw ''fstat() error'' s)
                | Some sb2 \<Rightarrow> if sb1 \<noteq> sb2 then (False, gpsee_throw ''file moved?'' s) else (True, s))))"

definition open_scriptFile ::
    "('e) prog_env_scheme \<Rightarrow> string \<Rightarrow> string option \<Rightarrow> nat option \<Rightarrow> mst \<Rightarrow> bool \<times> mst" where
  "open_scriptFile e scriptFilename scriptCode scriptFile s =
     (if scriptFile = None \<and> scriptCode = None \<and> fopen e scriptFilename (clock s) = None
      then (False, gpsee_throw ''fopen() error'' s) else (True, tick s))"

definition strip_js :: "string \<Rightarrow> string" where
  "strip_js cn = (case strrchr cn CHR ''.'' of
     None \<Rightarrow> cn | Some i \<Rightarrow> if drop i cn = ''.js'' then take i cn else cn)"

text \<open>
  The directory of the program.  The buffer has room for the whole name.  A failed
  allocation is written through: \<open>None\<close>.  The check that follows tests the monitor, which is
  never NULL, instead of the directory, so it never fails.
\<close>

definition set_programModuleDir ::
    "('e) env_scheme \<Rightarrow> string \<Rightarrow> mst \<Rightarrow> mst option" where
  "set_programModuleDir e cnBuf s =
     (case call e ''JS_malloc'' s of (ok, s) \<Rightarrow>
        if \<not> ok then None
        else (case gpsee_dirname cnBuf (replicate (Suc (length cnBuf)) NUL) (Suc (length cnBuf)) of
                None \<Rightarrow> None
              | Some (buf, ret) \<Rightarrow>
                  Some (s\<lparr>programModuleDir := if ret then cstr_at buf 0 else None\<rparr>)))"

text \<open>What is done after the label \<open>fail\<close>.\<close>

definition program_fail :: "('e) env_scheme \<Rightarrow> ptr \<Rightarrow> mst \<Rightarrow> (bool \<times> mst) run" where
  "program_fail e module s =
     (let s = s\<lparr>programModule := NULL\<rparr>
      in if module = NULL then Ret (False, s)
         else bind_run (lift_run (releaseModuleHandle e module s)) (\<lambda>s. Ret (False, s)))"

text \<open>Compiling and running the program in the module that was acquired for it.  The code passed as
  text is not handed to the compiler.  Defining \<open>arguments\<close> and \<open>environ\<close> on the global
  is left out.\<close>

definition run_program ::
    "('e) prog_env_scheme \<Rightarrow> require_fun \<Rightarrow> ptr \<Rightarrow> string \<Rightarrow> string list option \<Rightarrow> mst \<Rightarrow> (bool \<times> mst) run" where
  "run_program e ld module fnBuf argv s =
     bind_run (lift_run (initializeModuleScope e module (globalObject s) False s)) (\<lambda>(ok, s).
     if \<not> ok then program_fail e module s
     else
       bind_run (lift_run (handles s module)) (\<lambda>h.
       let s = log_event (EvSetGlobal (scope h)) s in
       case compileScript e fnBuf (clock s) of
         None \<Rightarrow> program_fail e module (tick s)
       | Some (scr, obj) \<Rightarrow>
           bind_run (lift_run (upd_handle module
             (\<lambda>h. h\<lparr>script := scr, scrobj := obj, mhf_loaded := True\<rparr>) (tick s))) (\<lambda>s.
           bind_run (initializeModule e ld module
             (log_event (EvSetGlobal (globalObject s)) s\<lparr>script_argv := argv\<rparr>)) (\<lambda>(b, s).
           let s = s\<lparr>script_argv := None\<rparr> in
           if \<not> b then program_fail e module s else Ret (True, s)))))"

definition gpsee_runProgramModule ::
    "('e) prog_env_scheme \<Rightarrow> require_fun \<Rightarrow> string \<Rightarrow> string option \<Rightarrow> nat option \<Rightarrow> string list option \<Rightarrow>
     mst \<Rightarrow> (bool \<times> mst) run" where
  "gpsee_runProgramModule e ld scriptFilename scriptCode scriptFile argv s =
     bind_run (lift_run (program_path e scriptFilename s)) (\<lambda>path.
     case path of
       None \<Rightarrow> Ret (False, gpsee_throw ''getcwd() error or filename buffer overrun'' s)
     | Some path \<Rightarrow>
         bind_run (lift_run (resolve_name e path (tick s))) (\<lambda>(cn, s).
         case cn of
           None \<Rightarrow> Ret (False, gpsee_throw ''could not resolve script path'' s)
         | Some fnBuf \<Rightarrow>
             (case check_scriptFile e fnBuf scriptFile s of (ok, s) \<Rightarrow>
              if \<not> ok then Ret (False, s)
              else case open_scriptFile e scriptFilename scriptCode scriptFile s of (ok, s) \<Rightarrow>
              if \<not> ok then Ret (False, s)
              else
                let cnBuf = strip_js fnBuf in
                bind_run (lift_run (set_programModuleDir e cnBuf s)) (\<lambda>s.
                bind_run (lift_run (acquireModuleHandle e cnBuf (globalObject s) s)) (\<lambda>(module, s).
                if module = NULL then program_fail e NULL s
                else run_program e ld module fnBuf argv (s\<lparr>programModule := module\<rparr>))))))"

section \<open>Setting the module system up\<close>

definition libexecDir :: "string option \<Rightarrow> string \<Rightarrow> string" where
  "libexecDir env_dir cfg_dir = (case env_dir of Some d \<Rightarrow> d | None \<Rightarrow> cfg_dir)"

text \<open>The tokens \<open>strtok\<close> finds: the non-empty parts between colons.\<close>

fun path_tokens :: "string \<Rightarrow> string \<Rightarrow> string list" where
  "path_tokens [] acc = (if acc = [] then [] else [acc])"
| "path_tokens (c # cs) acc =
     (if c = CHR '':'' then (if acc = [] then path_tokens cs [] else acc # path_tokens cs [])
      else path_tokens cs (acc @ [c]))"

text \<open>Each node of the list and each name is allocated without a check: \<open>None\<close> when one fails.\<close>

fun alloc_nodes :: "('e) env_scheme \<Rightarrow> string list \<Rightarrow> mst \<Rightarrow> mst option" where
  "alloc_nodes e [] s = Some s"
| "alloc_nodes e (d # ds) s =
     (case call e ''JS_malloc'' s of (ok, s) \<Rightarrow>
        if \<not> ok then None
        else case call e ''JS_strdup'' s of (ok, s) \<Rightarrow>
          if \<not> ok then None else alloc_nodes e ds (s\<lparr>modulePath := modulePath s @ [d]\<rparr>))"

text \<open>
  \<open>envpath\<close> is GPSEE\_PATH, \<open>jail\<close> and \<open>dir\<close> come from the configuration.  The data
  store is created in the runtime \<open>grt\<close>, the collector callback \<open>cb\<close> of the realm is
  registered in \<open>gcs\<close>.  On failure the freed path is still referenced; here it is empty.
\<close>

definition gpsee_initializeModuleSystem ::
    "('e) env_scheme \<Rightarrow> string option \<Rightarrow> string option \<Rightarrow> string \<Rightarrow> ptr \<Rightarrow> ptr \<Rightarrow> mst \<Rightarrow> mon_rt \<Rightarrow> dstore \<Rightarrow>
     (bool \<times> mst \<times> mon_rt \<times> dstore) option" where
  "gpsee_initializeModuleSystem e envpath jail dir realm cb s grt gcs =
     (let s = s\<lparr>moduleJail := jail\<rparr>;
          fail = (\<lambda>s grt. Some (False, s\<lparr>modulePath := []\<rparr>, grt, gcs)) in
      case call e ''JS_malloc'' s of (ok, s) \<Rightarrow>
      if \<not> ok then fail s grt
      else case call e ''malloc'' s of (ok, s) \<Rightarrow>
      if \<not> ok then None
      else case call e ''JS_strdup'' (s\<lparr>modules := Leaf\<rparr>) of (ok, s) \<Rightarrow>
      if \<not> ok then None
      else
        let s = s\<lparr>modulePath := [dir]\<rparr> in
        case (case envpath of None \<Rightarrow> (True, s) | Some p \<Rightarrow> call e ''JS_strdup'' s) of (ok, s) \<Rightarrow>
        if \<not> ok then fail s grt
        else
          do { s \<leftarrow> (case envpath of None \<Rightarrow> Some s | Some p \<Rightarrow> alloc_nodes e (path_tokens p []) s);
               (case call e ''gpsee_ds_create'' s of (c1, s) \<Rightarrow>
                case call e ''gpsee_ds_create'' s of (c2, s) \<Rightarrow>
                case call_new e ''PR_NewMonitor'' s of (mon, s) \<Rightarrow>
                do { (ds, grt, tr) \<leftarrow> gpsee_ds_create c1 c2 mon True NULL grt 0 4;
                     let s = s\<lparr>moduleData := ds\<rparr>;
                     (case ds of
                        None \<Rightarrow> fail s grt
                      | Some d \<Rightarrow>
                          (case call e ''realloc'' s of (ok, s) \<Rightarrow>
                           case gpsee_addGCCallback ok gcs realm cb of (ok, gcs', tr) \<Rightarrow>
                           if ok then Some (True, s, grt, gcs')
                           else do { (grt, tr) \<leftarrow> gpsee_ds_destroy d grt; fail (s\<lparr>moduleData := None\<rparr>) grt })) }) })"

section \<open>Shutting down\<close>

text \<open>One pass over the memo: every finisher is asked once; a module without one, or whose finisher
  agreed, is marked unused.  The count is that of the refusals.\<close>

definition fini_body ::
    "('e) env_scheme \<Rightarrow> ptr \<Rightarrow> (nat \<times> mst) option \<Rightarrow> (nat \<times> mst) option" where
  "fini_body e module acc =
     do { (danglingCount, s) \<leftarrow> acc;
          h \<leftarrow> handles s module;
          if fini h \<noteq> NULL then
            let ok = fini_ret e (fini h) (exports h) False (clock s);
                s = log_event (EvFini module (exports h) False) (tick s)
            in if \<not> ok then Some (Suc danglingCount, s)
               else do { s \<leftarrow> upd_handle module (\<lambda>h. h\<lparr>fini := NULL\<rparr>) s;
                         s \<leftarrow> markModuleUnused e module s;
                         Some (danglingCount, s) }
          else do { s \<leftarrow> markModuleUnused e module s; Some (danglingCount, s) } }"

definition force_body ::
    "('e) env_scheme \<Rightarrow> ptr \<Rightarrow> mst option \<Rightarrow> mst option" where
  "force_body e module acc =
     do { s \<leftarrow> acc;
          h \<leftarrow> handles s module;
          if fini h \<noteq> NULL then
            do { s \<leftarrow> upd_handle module (\<lambda>h. h\<lparr>fini := NULL\<rparr>)
                        (log_event (EvFini module (exports h) True) (tick s));
                 markModuleUnused e module s }
          else Some s }"

definition fini_pass :: "('e) env_scheme \<Rightarrow> mst \<Rightarrow> (nat \<times> mst) option" where
  "fini_pass e s =
     do { (t, acc) \<leftarrow> SPLAY_FOREACH (fini_body e) (modules s) (Some (0, s));
          (n, s) \<leftarrow> acc;
          Some (n, s\<lparr>modules := t\<rparr>) }"

definition force_pass :: "('e) env_scheme \<Rightarrow> mst \<Rightarrow> mst option" where
  "force_pass e s =
     do { (t, acc) \<leftarrow> SPLAY_FOREACH (force_body e) (modules s) (Some s);
          s \<leftarrow> acc;
          Some (s\<lparr>modules := t\<rparr>) }"

partial_function (option) shutdown_loop :: "('e) env_scheme \<Rightarrow> nat \<Rightarrow> mst \<Rightarrow> mst option" where
  "shutdown_loop e lastDanglingCount s =
     (case fini_pass e s of
        None \<Rightarrow> None
      | Some (danglingCount, s) \<Rightarrow>
          if danglingCount = 0 then Some s
          else (case run_gc s of
                  None \<Rightarrow> None
                | Some s \<Rightarrow>
                    if danglingCount = lastDanglingCount then force_pass e s
                    else shutdown_loop e danglingCount s))"

text \<open>The module path is given back only if a scope was ever furnished; only the name of each node and
  the first node are freed.\<close>

definition gpsee_shutdownModuleSystem ::
    "('e) env_scheme \<Rightarrow> mst \<Rightarrow> mon_rt \<Rightarrow> (mst \<times> mon_rt) option" where
  "gpsee_shutdownModuleSystem e s grt =
     do { let s = (if userModulePath s \<noteq> NULL then s\<lparr>modulePath := []\<rparr> else s);
          s \<leftarrow> shutdown_loop e 0 s;
          (case moduleData s of
             None \<Rightarrow> Some (s, grt)
           | Some d \<Rightarrow> do { (grt, tr) \<leftarrow> gpsee_ds_destroy d grt; Some (s\<lparr>moduleData := None\<rparr>, grt) }) }"

section \<open>Module data\<close>

definition gpsee_getModuleDataStore :: "bool \<Rightarrow> mst \<Rightarrow> (bool \<times> dstore option) \<times> mst" where
  "gpsee_getModuleDataStore realm s =
     (if \<not> realm then ((False, None), s)
      else case moduleData s of
          None \<Rightarrow> ((False, None), gpsee_throw ''realm.getModuleDataStore.notFound'' s)
        | Some ds \<Rightarrow> ((True, Some ds), s))"

definition gpsee_getModuleData :: "bool \<Rightarrow> ptr \<Rightarrow> string \<Rightarrow> mst \<Rightarrow> (bool \<times> ptr) \<times> mst" where
  "gpsee_getModuleData realm key throwPrefix s =
     (case gpsee_getModuleDataStore realm s of
        ((True, Some ds), s) \<Rightarrow>
          (case gpsee_ds_get ds key of (v, tr) \<Rightarrow>
             if v = NULL then ((False, NULL), gpsee_throw (throwPrefix @ ''.moduleData.notFound'') s)
             else ((True, v), s))
      | (_, s) \<Rightarrow> ((False, NULL), s))"

definition gpsee_setModuleData :: "bool \<Rightarrow> bool \<Rightarrow> ptr \<Rightarrow> ptr \<Rightarrow> mst \<Rightarrow> bool \<times> mst" where
  "gpsee_setModuleData realm realloc_ok key data s =
     (case gpsee_getModuleDataStore realm s of
        ((True, Some ds), s) \<Rightarrow>
          (case gpsee_ds_put realloc_ok ds key data of (ok, ds', tr) \<Rightarrow> (ok, s\<lparr>moduleData := Some ds'\<rparr>))
      | (_, s) \<Rightarrow> (False, s))"

section \<open>Shutting down ends\<close>

text \<open>Changing handles without touching names, releases or links.\<close>

lemma mod_inv_handles:
  assumes inv: "mod_inv s ps"
    and same: "\<forall>q. map_option (\<lambda>h. (cname h, released h, link h)) (hs q)
      = map_option (\<lambda>h. (cname h, released h, link h)) (handles s q)"
    and t: "keys_sorted t" "map_of (inorder t) = memo_of s"
  shows "mod_inv (s\<lparr>handles := hs, events := evs, clock := c, modules := t\<rparr>) ps"
proof -
  have none: "hs q = None \<longleftrightarrow> handles s q = None" for q
    using same [rule_format, of q] by (cases "hs q"; cases "handles s q") auto
  have some: "\<exists>h. handles s q = Some h \<and> cname h = cname h' \<and> released h = released h' \<and> link h = link h'"
    if "hs q = Some h'" for q h'
    using same [rule_format, of q] that by (cases "handles s q") auto
  have some': "\<exists>h'. hs q = Some h' \<and> cname h = cname h' \<and> released h = released h'"
    if "handles s q = Some h" for q h
    using same [rule_format, of q] that by (cases "hs q") auto
  have ch: "chain hs p ps = chain (handles s) p ps" for p
  proof (rule chain_cong)
    fix q
    show "map_option (\<lambda>h. (released h, link h)) (hs q) = map_option (\<lambda>h. (released h, link h)) (handles s q)"
      using same [rule_format, of q] by (cases "hs q"; cases "handles s q") auto
  qed
  have mm: "\<forall>n m. memo_of s n = Some m \<longrightarrow> m \<noteq> NULL \<and> (\<exists>h. hs m = Some h \<and> cname h = n \<and> \<not> released h)"
    using memo_handle [OF inv] some' by fastforce
  have rel: "\<forall>m h. hs m = Some h \<longrightarrow> released h \<longrightarrow> m \<in> set ps"
    using inv some by (fastforce simp: mod_inv_def)
  let ?s = "s\<lparr>handles := hs, events := evs, clock := c, modules := t\<rparr>"
  have mo: "memo_of ?s = memo_of s" by (simp add: memo_of_def t(2))
  have "memo_ok ?s" using mm t(1) by (simp add: memo_ok_def mo)
  then show ?thesis
    using inv none ch rel by (simp add: mod_inv_def)
qed

lemma mark_unused_plain:
  "handles s m = Some h \<Longrightarrow> fini h = NULL \<Longrightarrow>
   markModuleUnused e m s = Some (s\<lparr>handles := (handles s)(m \<mapsto> unused h)\<rparr>)"
  by (simp add: markModuleUnused_def unused_def)

definition finished :: "module_handle \<Rightarrow> module_handle" where
  "finished h = unused (h\<lparr>fini := NULL\<rparr>)"

lemma finished_simps [simp]:
  "cname (finished h) = cname h" "released (finished h) = released h" "link (finished h) = link h"
  "fini (finished h) = NULL" "exports (finished h) = NULL" "scope (finished h) = NULL"
  "mhf_loaded (finished h) = False"
  by (simp_all add: finished_def unused_def)

lemma fini_body_spec:
  assumes h: "handles s m = Some h"
  shows "\<exists>c evs. fini_body e m (Some (n, s)) = Some (Suc n, s\<lparr>handles := handles s, events := evs, clock := c\<rparr>) \<and> fini h \<noteq> NULL
    \<or> fini_body e m (Some (n, s)) = Some (n, s\<lparr>handles := (handles s)(m \<mapsto> finished h), events := evs, clock := c\<rparr>)"
proof (cases "fini h = NULL")
  case True
  then have "h\<lparr>fini := NULL\<rparr> = h" by simp
  then have "finished h = unused h" by (simp only: finished_def)
  with True h have "fini_body e m (Some (n, s)) = Some (n, s\<lparr>handles := (handles s)(m \<mapsto> finished h),
      events := events s, clock := clock s\<rparr>)"
    by (simp add: fini_body_def mark_unused_plain)
  then show ?thesis by blast
next
  case f: False
  let ?s = "log_event (EvFini m (exports h) False) (tick s)"
  show ?thesis
  proof (cases "fini_ret e (fini h) (exports h) False (clock s)")
    case False
    with f h have "fini_body e m (Some (n, s)) = Some (Suc n, s\<lparr>handles := handles s, events := events ?s, clock := clock ?s\<rparr>)"
      by (simp add: fini_body_def log_event_def tick_def Let_def)
    with f show ?thesis by blast
  next
    case True
    have "markModuleUnused e m (?s\<lparr>handles := (handles s)(m \<mapsto> h\<lparr>fini := NULL\<rparr>)\<rparr>)
      = Some (?s\<lparr>handles := (handles s)(m \<mapsto> finished h)\<rparr>)"
      by (subst mark_unused_plain) (simp_all add: finished_def)
    with True f h have "fini_body e m (Some (n, s)) = Some (n, ?s\<lparr>handles := (handles s)(m \<mapsto> finished h)\<rparr>)"
      by (simp add: fini_body_def Let_def upd_handle_def log_event_def tick_def)
    also have "?s\<lparr>handles := (handles s)(m \<mapsto> finished h)\<rparr>
      = s\<lparr>handles := (handles s)(m \<mapsto> finished h), events := events ?s, clock := clock ?s\<rparr>"
      by (simp add: log_event_def tick_def)
    finally show ?thesis by blast
  qed
qed

lemma fini_body_outcome:
  assumes h: "handles s m = Some h"
  shows "\<exists>k hs1 evs c. fini_body e m (Some (n, s)) = Some (n + k, s\<lparr>handles := hs1, events := evs, clock := c\<rparr>)
    \<and> (\<forall>q. q \<noteq> m \<longrightarrow> hs1 q = handles s q)
    \<and> (hs1 m = Some h \<and> fini h \<noteq> NULL \<and> k = 1 \<or> hs1 m = Some (finished h) \<and> k = 0)"
proof -
  from fini_body_spec [OF h, of e n] obtain c evs where
    "fini_body e m (Some (n, s)) = Some (Suc n, s\<lparr>handles := handles s, events := evs, clock := c\<rparr>) \<and> fini h \<noteq> NULL
    \<or> fini_body e m (Some (n, s)) = Some (n, s\<lparr>handles := (handles s)(m \<mapsto> finished h), events := evs, clock := c\<rparr>)"
    by blast
  then show ?thesis
  proof
    assume "fini_body e m (Some (n, s)) = Some (Suc n, s\<lparr>handles := handles s, events := evs, clock := c\<rparr>) \<and> fini h \<noteq> NULL"
    with h show ?thesis
      by (intro exI [of _ 1] exI [of _ "handles s"] exI [of _ evs] exI [of _ c]) simp
  next
    assume "fini_body e m (Some (n, s)) = Some (n, s\<lparr>handles := (handles s)(m \<mapsto> finished h), events := evs, clock := c\<rparr>)"
    then show ?thesis
      by (intro exI [of _ 0] exI [of _ "(handles s)(m \<mapsto> finished h)"] exI [of _ evs] exI [of _ c]) simp
  qed
qed

definition dangling :: "(ptr \<Rightarrow> module_handle option) \<Rightarrow> ptr list \<Rightarrow> nat" where
  "dangling hs ms = length (filter (\<lambda>m. fini (the (hs m)) \<noteq> NULL) ms)"

text \<open>Every module of the list was finished, or still has its finisher and was left as it was.\<close>

definition passed :: "(ptr \<Rightarrow> module_handle option) \<Rightarrow> (ptr \<Rightarrow> module_handle option) \<Rightarrow> ptr list \<Rightarrow> bool" where
  "passed hs hs' ms \<longleftrightarrow> (\<forall>q. q \<notin> set ms \<longrightarrow> hs' q = hs q)
     \<and> (\<forall>m \<in> set ms. \<exists>h. hs m = Some h \<and> (hs' m = Some h \<and> fini h \<noteq> NULL \<or> hs' m = Some (finished h)))"

lemma dangling_cong: "\<forall>m \<in> set ms. hs' m = hs m \<Longrightarrow> dangling hs' ms = dangling hs ms"
  unfolding dangling_def by (rule arg_cong [where f = length], rule filter_cong) auto

lemma fini_fold:
  assumes "distinct ms" and "\<forall>m \<in> set ms. handles s m \<noteq> None"
  shows "\<exists>hs evs c. fold (fini_body e) ms (Some (n, s))
      = Some (n + dangling hs ms, s\<lparr>handles := hs, events := evs, clock := c\<rparr>) \<and> passed (handles s) hs ms"
  using assms
proof (induction ms arbitrary: n s)
  case Nil
  show ?case
    by (rule exI [of _ "handles s"], rule exI [of _ "events s"], rule exI [of _ "clock s"])
      (simp add: dangling_def passed_def)
next
  case (Cons m ms)
  then obtain h where h: "handles s m = Some h" by auto
  from fini_body_outcome [OF h, of e n] obtain k hs1 evs1 c1 where
    b: "fini_body e m (Some (n, s)) = Some (n + k, s\<lparr>handles := hs1, events := evs1, clock := c1\<rparr>)"
    and hs1: "\<forall>q. q \<noteq> m \<longrightarrow> hs1 q = handles s q"
      "hs1 m = Some h \<and> fini h \<noteq> NULL \<and> k = 1 \<or> hs1 m = Some (finished h) \<and> k = 0" by blast
  let ?s1 = "s\<lparr>handles := hs1, events := evs1, clock := c1\<rparr>"
  have "\<forall>q \<in> set ms. handles ?s1 q \<noteq> None" using Cons.prems hs1(1) by auto
  from Cons.IH [OF _ this, of "n + k"] Cons.prems(1) obtain hs evs c where
    f: "fold (fini_body e) ms (Some (n + k, ?s1)) = Some (n + k + dangling hs ms,
        ?s1\<lparr>handles := hs, events := evs, clock := c\<rparr>)" and p: "passed hs1 hs ms" by auto
  have hm: "hs m = hs1 m" using p Cons.prems(1) by (simp add: passed_def)
  then have "n + k + dangling hs ms = n + dangling hs (m # ms)" using hs1(2) by (auto simp: dangling_def)
  moreover have "passed (handles s) hs (m # ms)"
    unfolding passed_def
  proof (intro conjI allI impI ballI)
    fix q
    assume "q \<notin> set (m # ms)"
    with p hs1(1) show "hs q = handles s q" by (simp add: passed_def)
  next
    fix q
    assume q: "q \<in> set (m # ms)"
    show "\<exists>h. handles s q = Some h \<and> (hs q = Some h \<and> fini h \<noteq> NULL \<or> hs q = Some (finished h))"
    proof (cases "q = m")
      case True
      with hm hs1(2) h show ?thesis by auto
    next
      case False
      with q have "q \<in> set ms" by simp
      with p hs1(1) False show ?thesis by (fastforce simp: passed_def)
    qed
  qed
  ultimately show ?case using b f by (intro exI [of _ hs] exI [of _ evs] exI [of _ c]) simp
qed

lemma passed_dangling:
  assumes "passed hs hs' ms"
  shows "dangling hs' ms \<le> dangling hs ms"
proof -
  have sub: "fini (the (hs m)) \<noteq> NULL" if "m \<in> set ms" "fini (the (hs' m)) \<noteq> NULL" for m
    using assms that by (fastforce simp: passed_def)
  have "filter (\<lambda>m. fini (the (hs' m)) \<noteq> NULL) ms
    = filter (\<lambda>m. fini (the (hs' m)) \<noteq> NULL) (filter (\<lambda>m. fini (the (hs m)) \<noteq> NULL) ms)"
    unfolding filter_filter by (rule filter_cong) (use sub in auto)
  then show ?thesis unfolding dangling_def by (metis length_filter_le)
qed

lemma passed_same:
  "passed hs hs' ms \<Longrightarrow> map_option (\<lambda>h. (cname h, released h, link h)) (hs' q)
      = map_option (\<lambda>h. (cname h, released h, link h)) (hs q)"
  by (cases "q \<in> set ms") (fastforce simp: passed_def)+

lemma force_fold:
  assumes "distinct ms" and "\<forall>m \<in> set ms. handles s m \<noteq> None"
  shows "\<exists>hs evs c. fold (force_body e) ms (Some s) = Some (s\<lparr>handles := hs, events := evs, clock := c\<rparr>)
    \<and> (\<forall>q. q \<notin> set ms \<longrightarrow> hs q = handles s q)
    \<and> (\<forall>m \<in> set ms. \<exists>h. handles s m = Some h \<and> hs m = Some (if fini h = NULL then h else finished h))"
  using assms
proof (induction ms arbitrary: s)
  case Nil
  show ?case
    by (rule exI [of _ "handles s"], rule exI [of _ "events s"], rule exI [of _ "clock s"]) simp
next
  case (Cons m ms)
  then obtain h where h: "handles s m = Some h" by auto
  let ?hs1 = "(handles s)(m \<mapsto> if fini h = NULL then h else finished h)"
  have "\<exists>evs c. force_body e m (Some s) = Some (s\<lparr>handles := ?hs1, events := evs, clock := c\<rparr>)"
  proof (cases "fini h = NULL")
    case True
    then have "force_body e m (Some s) = Some (s\<lparr>handles := ?hs1, events := events s, clock := clock s\<rparr>)"
      using h by (simp add: force_body_def fun_upd_idem)
    then show ?thesis by blast
  next
    case False
    let ?s = "log_event (EvFini m (exports h) True) (tick s)"
    have "markModuleUnused e m (?s\<lparr>handles := (handles s)(m \<mapsto> h\<lparr>fini := NULL\<rparr>)\<rparr>)
      = Some (?s\<lparr>handles := (handles s)(m \<mapsto> finished h)\<rparr>)"
      by (subst mark_unused_plain) (simp_all add: finished_def)
    with False h have "force_body e m (Some s) = Some (?s\<lparr>handles := ?hs1\<rparr>)"
      by (simp add: force_body_def upd_handle_def log_event_def tick_def)
    also have "?s\<lparr>handles := ?hs1\<rparr> = s\<lparr>handles := ?hs1, events := events ?s, clock := clock ?s\<rparr>"
      by (simp add: log_event_def tick_def)
    finally show ?thesis by blast
  qed
  then obtain evs1 c1 where b: "force_body e m (Some s) = Some (s\<lparr>handles := ?hs1, events := evs1, clock := c1\<rparr>)" by blast
  let ?s1 = "s\<lparr>handles := ?hs1, events := evs1, clock := c1\<rparr>"
  have "\<forall>q \<in> set ms. handles ?s1 q \<noteq> None" using Cons.prems by auto
  from Cons.IH [OF _ this] Cons.prems(1) obtain hs evs c where
    f: "fold (force_body e) ms (Some ?s1) = Some (?s1\<lparr>handles := hs, events := evs, clock := c\<rparr>)"
    and p: "\<forall>q. q \<notin> set ms \<longrightarrow> hs q = ?hs1 q"
      "\<forall>m \<in> set ms. \<exists>h. ?hs1 m = Some h \<and> hs m = Some (if fini h = NULL then h else finished h)" by auto
  have "m \<notin> set ms" using Cons.prems(1) by simp
  have "\<exists>h. handles s q = Some h \<and> hs q = Some (if fini h = NULL then h else finished h)" if "q \<in> set (m # ms)" for q
  proof (cases "q = m")
    case True
    with p(1) h \<open>m \<notin> set ms\<close> show ?thesis by simp
  next
    case False
    with that have "q \<in> set ms" by simp
    with p(2) obtain ha where "?hs1 q = Some ha" "hs q = Some (if fini ha = NULL then ha else finished ha)" by blast
    with False show ?thesis by auto
  qed
  then have "\<forall>q \<in> set (m # ms). \<exists>h. handles s q = Some h \<and> hs q = Some (if fini h = NULL then h else finished h)"
    by blast
  moreover have "\<forall>q. q \<notin> set (m # ms) \<longrightarrow> hs q = handles s q" using p(1) by simp
  ultimately show ?case using b f by (intro exI [of _ hs] exI [of _ evs] exI [of _ c]) simp
qed

text \<open>The modules of the memo, in order.\<close>

definition memo_list :: "mst \<Rightarrow> ptr list" where
  "memo_list s = map snd (inorder (modules s))"

lemma memo_list_ok:
  assumes "mod_inv s ps"
  shows "distinct (memo_list s)" and "\<forall>m \<in> set (memo_list s). handles s m \<noteq> None"
    and "m \<in> set (memo_list s) \<longleftrightarrow> (\<exists>n. memo_of s n = Some m)"
proof -
  have ok: "memo_ok s" using assms by (simp add: mod_inv_def)
  show "\<forall>m \<in> set (memo_list s). handles s m \<noteq> None"
    using memo_members [OF ok] unfolding memo_list_def by blast
  show "m \<in> set (memo_list s) \<longleftrightarrow> (\<exists>n. memo_of s n = Some m)"
    using memo_members [OF ok, of m] by (force simp: memo_list_def memo_of_def dest: map_of_SomeD)
  have d: "distinct (map fst (inorder (modules s)))"
    using ok by (auto simp: memo_ok_def keys_sorted_def strict_sorted_iff)
  have "inj_on snd (set (inorder (modules s)))"
  proof (rule inj_onI)
    fix x y
    assume xy: "x \<in> set (inorder (modules s))" "y \<in> set (inorder (modules s))" "snd x = snd y"
    have "memo_of s (fst x) = Some (snd x)" "memo_of s (fst y) = Some (snd y)"
      using xy(1,2) d by (simp_all add: memo_of_def)
    with memo_handle [OF assms, of "fst x" "snd x"] memo_handle [OF assms, of "fst y" "snd y"] xy(3)
    have "fst x = fst y" by auto
    with xy(3) show "x = y" by (simp add: prod_eq_iff)
  qed
  moreover have "distinct (inorder (modules s))" using d by (simp add: distinct_map)
  ultimately show "distinct (memo_list s)" by (simp add: memo_list_def distinct_map)
qed

text \<open>Everything of the memo is unused.\<close>

definition all_finished :: "mst \<Rightarrow> bool" where
  "all_finished s \<longleftrightarrow> (\<forall>n m h. memo_of s n = Some m \<longrightarrow> handles s m = Some h \<longrightarrow>
     fini h = NULL \<and> exports h = NULL \<and> scope h = NULL \<and> \<not> mhf_loaded h)"

text \<open>The modules that are not in use any more, or still have a finisher.\<close>

definition finished_or_dangling :: "mst \<Rightarrow> bool" where
  "finished_or_dangling s \<longleftrightarrow> (\<forall>n m h. memo_of s n = Some m \<longrightarrow> handles s m = Some h \<longrightarrow> fini h = NULL \<longrightarrow>
     exports h = NULL \<and> scope h = NULL \<and> \<not> mhf_loaded h)"

definition same_system :: "mst \<Rightarrow> mst \<Rightarrow> bool" where
  "same_system s s' \<longleftrightarrow> inorder (modules s') = inorder (modules s) \<and> moduleData s' = moduleData s
     \<and> (\<forall>q. handles s' q \<noteq> None \<longrightarrow> handles s q \<noteq> None
          \<and> released (the (handles s' q)) = released (the (handles s q)))"

lemma same_system_trans: "same_system s s1 \<Longrightarrow> same_system s1 s2 \<Longrightarrow> same_system s s2"
  by (simp add: same_system_def)

lemma pass_spec:
  assumes inv: "mod_inv s ps"
  shows "\<exists>n s'. fini_pass e s = Some (n, s') \<and> mod_inv s' ps \<and> same_system s s'
    \<and> n = dangling (handles s') (memo_list s') \<and> n \<le> dangling (handles s) (memo_list s)
    \<and> finished_or_dangling s'"
proof -
  note ml = memo_list_ok [OF inv]
  have ks: "keys_sorted (modules s)" using inv by (simp add: mod_inv_def memo_ok_def)
  from fini_fold [OF ml(1,2), of e 0] obtain hs evs c where
    f: "fold (fini_body e) (memo_list s) (Some (0, s)) = Some (0 + dangling hs (memo_list s),
        s\<lparr>handles := hs, events := evs, clock := c\<rparr>)" and p: "passed (handles s) hs (memo_list s)" by blast
  from foreach_visits_all [OF ks, of "fini_body e" "Some (0, s)"] f obtain t where
    t: "SPLAY_FOREACH (fini_body e) (modules s) (Some (0, s)) = Some (t, Some (dangling hs (memo_list s),
        s\<lparr>handles := hs, events := evs, clock := c\<rparr>))" "inorder t = inorder (modules s)"
    by (auto simp: memo_list_def)
  let ?s = "s\<lparr>handles := hs, events := evs, clock := c, modules := t\<rparr>"
  have r: "fini_pass e s = Some (dangling hs (memo_list s), ?s)" using t(1) by (simp add: fini_pass_def)
  have "keys_sorted t" "map_of (inorder t) = memo_of s" using ks t(2) by (simp_all add: keys_sorted_def memo_of_def)
  from mod_inv_handles [OF inv _ this] passed_same [OF p] have inv': "mod_inv ?s ps" by blast
  have io: "inorder (modules ?s) = inorder (modules s)" using t(2) by simp
  have ml': "memo_list ?s = memo_list s" unfolding memo_list_def io ..
  have ss: "same_system s ?s"
    unfolding same_system_def
  proof (rule conjI [OF io], rule conjI)
    show "\<forall>q. handles ?s q \<noteq> None \<longrightarrow>
        handles s q \<noteq> None \<and> released (the (handles ?s q)) = released (the (handles s q))"
    proof (intro allI impI)
      fix q
      assume "handles ?s q \<noteq> None"
      with passed_same [OF p, of q]
      show "handles s q \<noteq> None \<and> released (the (handles ?s q)) = released (the (handles s q))"
        by (cases "handles s q") auto
    qed
  qed simp
  have "finished_or_dangling ?s"
    unfolding finished_or_dangling_def
  proof (intro allI impI)
    fix n m h
    assume m: "memo_of ?s n = Some m" and h: "handles ?s m = Some h" and fn: "fini h = NULL"
    have "memo_of ?s = memo_of s" unfolding memo_of_def io ..
    with m ml(3) have "m \<in> set (memo_list s)" by auto
    with p h fn show "exports h = NULL \<and> scope h = NULL \<and> \<not> mhf_loaded h" by (fastforce simp: passed_def)
  qed
  with r inv' ss passed_dangling [OF p] show ?thesis by (simp add: ml')
qed

lemma gc_system:
  assumes inv: "mod_inv s ps"
  shows "\<exists>s'. run_gc s = Some s' \<and> mod_inv s' [] \<and> same_system s s'
    \<and> (\<forall>m h. handles s' m = Some h \<longrightarrow> handles s m = Some h)
    \<and> (\<forall>m \<in> set (memo_list s). handles s' m = handles s m)"
proof -
  let ?s = "log_event EvGC s"
  have inv0: "mod_inv ?s ps" using inv by (simp add: mod_inv_def memo_ok_def memo_of_def log_event_def)
  then have ks: "keys_sorted (modules ?s)" and al: "\<forall>m \<in> set (map snd (inorder (modules ?s))). handles ?s m \<noteq> None"
    using memo_list_ok(2) [OF inv0] by (simp_all add: mod_inv_def memo_ok_def memo_list_def)
  from foreach_visits_all [OF ks, of "mark_body (handles ?s)" "Some []"] mark_fold [OF al, of "[]"] obtain t marks where
    t: "SPLAY_FOREACH (mark_body (handles ?s)) (modules ?s) (Some []) = Some (t, Some marks)"
      "inorder t = inorder (modules ?s)" by auto
  let ?s1 = "?s\<lparr>modules := t, events := events ?s @ map EvMark marks\<rparr>"
  have m1: "moduleGCCallback JSGC_MARK_END ?s = Some (True, ?s1)" using t(1) by (simp add: moduleGCCallback_def)
  have inv1: "mod_inv ?s1 ps"
    using inv0 t(2) by (simp add: mod_inv_def memo_ok_def memo_of_def keys_sorted_def)
  then have c: "chain (handles ?s1) (unreachableModule_llist ?s1) ps" and d: "distinct ps" by (simp_all add: mod_inv_def)
  from destroy_unreachable_spec [OF c d] obtain s2 where s2: "destroy_unreachable ?s1 = Some s2"
    "modules s2 = t" "\<forall>m. handles s2 m = (if m \<in> set ps then None else handles s m)"
    by (auto simp: log_event_def)
  from finalize_end_inv [OF inv1] s2(1) have inv2: "mod_inv s2 []" by (auto simp: moduleGCCallback_def)
  have r: "run_gc s = Some s2" using m1 s2(1) by (simp add: run_gc_def moduleGCCallback_def)
  have "moduleData s2 = moduleData s"
  proof -
    have "moduleData y = moduleData x" if "destroy_unreachable x = Some y" for x y
    proof (rule destroy_unreachable.raw_induct [where P = "\<lambda>x y. moduleData y = moduleData x", OF _ that])
      fix destroy s s'
      assume IH: "\<And>x y. destroy x = Some y \<Longrightarrow> moduleData y = moduleData x"
        and st: "(if unreachableModule_llist s = NULL then Some s
          else case destroyModuleHandle (unreachableModule_llist s) s of None \<Rightarrow> None
            | Some (n, s') \<Rightarrow> destroy (s'\<lparr>unreachableModule_llist := n\<rparr>)) = Some s'"
      show "moduleData s' = moduleData s"
      proof (cases "unreachableModule_llist s = NULL")
        case False
        with st obtain n s1 where d: "destroyModuleHandle (unreachableModule_llist s) s = Some (n, s1)"
          and r: "destroy (s1\<lparr>unreachableModule_llist := n\<rparr>) = Some s'" by (auto split: option.splits)
        have "moduleData s1 = moduleData s"
          using d by (auto simp: destroyModuleHandle_def log_event_def Let_def split: bind_splits)
        with IH [OF r] show ?thesis by simp
      qed (use st in simp)
    qed
    from this [OF s2(1)] show ?thesis by (simp add: log_event_def)
  qed
  then have md: "moduleData s2 = moduleData s" .
  have np: "m \<notin> set ps" if "m \<in> set (memo_list s)" for m
  proof -
    from that memo_list_ok(3) [OF inv] obtain n where "memo_of s n = Some m" by blast
    from memo_handle [OF inv this] have "\<not> (\<exists>h. handles s m = Some h \<and> released h)" by auto
    moreover have "chain (handles s) (unreachableModule_llist s) ps" using inv by (simp add: mod_inv_def)
    ultimately show ?thesis using chain_unreleased by blast
  qed
  have "inorder (modules s2) = inorder (modules s)" using s2(2) t(2) by (simp add: log_event_def)
  then have "same_system s s2" unfolding same_system_def using md s2(3) by simp
  moreover have "\<forall>m h. handles s2 m = Some h \<longrightarrow> handles s m = Some h"
    using s2(3) by (metis option.distinct(1))
  moreover have "\<forall>m \<in> set (memo_list s). handles s2 m = handles s m" using s2(3) np by simp
  ultimately show ?thesis using r inv2 by blast
qed

lemma gc_memo:
  assumes inv: "mod_inv s ps" and r: "run_gc s = Some s'"
  shows "mod_inv s' [] \<and> same_system s s' \<and> memo_list s' = memo_list s \<and> memo_of s' = memo_of s
    \<and> dangling (handles s') (memo_list s') = dangling (handles s) (memo_list s)
    \<and> (finished_or_dangling s \<longrightarrow> finished_or_dangling s')"
proof -
  from gc_system [OF inv] obtain s1 where s1: "run_gc s = Some s1" "mod_inv s1 []" "same_system s s1"
    "\<forall>m h. handles s1 m = Some h \<longrightarrow> handles s m = Some h"
    "\<forall>m \<in> set (memo_list s). handles s1 m = handles s m" by (elim exE conjE) (rule that)
  have "s1 = s'" using s1(1) r by simp
  note g = s1(2-5) [unfolded this]
  have io: "inorder (modules s') = inorder (modules s)" using g(2) by (simp add: same_system_def)
  have mm: "memo_list s' = memo_list s" "memo_of s' = memo_of s"
    unfolding memo_list_def memo_of_def io by (rule refl)+
  moreover have "dangling (handles s') (memo_list s) = dangling (handles s) (memo_list s)"
    using g(4) by (rule dangling_cong)
  moreover have "finished_or_dangling s \<longrightarrow> finished_or_dangling s'"
    using g(3) unfolding finished_or_dangling_def mm(2) by blast
  ultimately show ?thesis using g(1,2) by simp
qed

lemma no_dangling_finished:
  assumes inv: "mod_inv s ps" and z: "dangling (handles s) (memo_list s) = 0" and f: "finished_or_dangling s"
  shows "all_finished s"
  unfolding all_finished_def
proof (intro allI impI)
  fix n m h
  assume m: "memo_of s n = Some m" and h: "handles s m = Some h"
  with memo_list_ok(3) [OF inv] have "m \<in> set (memo_list s)" by blast
  with z h have "fini h = NULL" by (auto simp: dangling_def filter_empty_conv)
  with f m h show "fini h = NULL \<and> exports h = NULL \<and> scope h = NULL \<and> \<not> mhf_loaded h"
    by (auto simp: finished_or_dangling_def)
qed

lemma force_spec:
  assumes inv: "mod_inv s ps" and fd: "finished_or_dangling s"
  shows "\<exists>s'. force_pass e s = Some s' \<and> mod_inv s' ps \<and> same_system s s' \<and> all_finished s'"
proof -
  note ml = memo_list_ok [OF inv]
  have ks: "keys_sorted (modules s)" using inv by (simp add: mod_inv_def memo_ok_def)
  from force_fold [OF ml(1,2), of e] obtain hs evs c where
    f: "fold (force_body e) (memo_list s) (Some s) = Some (s\<lparr>handles := hs, events := evs, clock := c\<rparr>)"
    and o: "\<forall>q. q \<notin> set (memo_list s) \<longrightarrow> hs q = handles s q"
    and p: "\<forall>m \<in> set (memo_list s). \<exists>h. handles s m = Some h \<and> hs m = Some (if fini h = NULL then h else finished h)"
    by blast
  from foreach_visits_all [OF ks, of "force_body e" "Some s"] f obtain t where
    t: "SPLAY_FOREACH (force_body e) (modules s) (Some s)
        = Some (t, Some (s\<lparr>handles := hs, events := evs, clock := c\<rparr>))" "inorder t = inorder (modules s)"
    by (auto simp: memo_list_def)
  let ?s = "s\<lparr>handles := hs, events := evs, clock := c, modules := t\<rparr>"
  have r: "force_pass e s = Some ?s" using t(1) by (simp add: force_pass_def)
  have same: "map_option (\<lambda>h. (cname h, released h, link h)) (hs q)
      = map_option (\<lambda>h. (cname h, released h, link h)) (handles s q)" for q
    using o p by (cases "q \<in> set (memo_list s)") fastforce+
  have "keys_sorted t" "map_of (inorder t) = memo_of s" using ks t(2) by (simp_all add: keys_sorted_def memo_of_def)
  from mod_inv_handles [OF inv _ this] same have inv': "mod_inv ?s ps" by blast
  have io: "inorder (modules ?s) = inorder (modules s)" using t(2) by simp
  have "\<forall>q. handles ?s q \<noteq> None \<longrightarrow> handles s q \<noteq> None \<and> released (the (handles ?s q)) = released (the (handles s q))"
  proof (intro allI impI)
    fix q
    assume "handles ?s q \<noteq> None"
    with same [of q] show "handles s q \<noteq> None \<and> released (the (handles ?s q)) = released (the (handles s q))"
      by (cases "handles s q") auto
  qed
  with io have ss: "same_system s ?s" by (simp add: same_system_def)
  have "all_finished ?s"
    unfolding all_finished_def
  proof (intro allI impI)
    fix n m h
    assume m: "memo_of ?s n = Some m" and h: "handles ?s m = Some h"
    have mo: "memo_of ?s = memo_of s" unfolding memo_of_def io ..
    with m ml(3) have "m \<in> set (memo_list s)" by auto
    with p obtain h0 where h0: "handles s m = Some h0" "hs m = Some (if fini h0 = NULL then h0 else finished h0)" by blast
    with h have hh: "h = (if fini h0 = NULL then h0 else finished h0)" by simp
    show "fini h = NULL \<and> exports h = NULL \<and> scope h = NULL \<and> \<not> mhf_loaded h"
    proof (cases "fini h0 = NULL")
      case True
      with fd m mo h0(1) hh show ?thesis by (auto simp: finished_or_dangling_def)
    qed (simp add: hh)
  qed
  with r inv' ss show ?thesis by blast
qed

lemma shutdown_loop_step:
  assumes inv: "mod_inv s ps"
    and again: "\<And>n s'. mod_inv s' [] \<Longrightarrow> same_system s s' \<Longrightarrow> finished_or_dangling s' \<Longrightarrow>
      n = dangling (handles s') (memo_list s') \<Longrightarrow> n \<le> dangling (handles s) (memo_list s) \<Longrightarrow> n \<noteq> lst \<Longrightarrow> 0 < n \<Longrightarrow>
      \<exists>s'' qs. shutdown_loop e n s' = Some s'' \<and> mod_inv s'' qs \<and> same_system s' s'' \<and> all_finished s''"
  shows "\<exists>s' qs. shutdown_loop e lst s = Some s' \<and> mod_inv s' qs \<and> same_system s s' \<and> all_finished s'"
proof -
  from pass_spec [OF inv, of e] obtain n s1 where s1: "fini_pass e s = Some (n, s1)" "mod_inv s1 ps" "same_system s s1"
    "n = dangling (handles s1) (memo_list s1)" "n \<le> dangling (handles s) (memo_list s)" "finished_or_dangling s1" by blast
  show ?thesis
  proof (cases "n = 0")
    case True
    with s1 no_dangling_finished [OF s1(2)] have "all_finished s1" by simp
    with s1 True show ?thesis by (subst shutdown_loop.simps) auto
  next
    case n: False
    from gc_system [OF s1(2)] obtain s2 where r: "run_gc s1 = Some s2" by blast
    note gm = gc_memo [OF s1(2) r]
    have s2: "mod_inv s2 []" "same_system s1 s2" "finished_or_dangling s2"
      "n = dangling (handles s2) (memo_list s2)" using gm s1(4,6) by metis+
    have ss: "same_system s s2" using same_system_trans [OF s1(3) s2(2)] .
    show ?thesis
    proof (cases "n = lst")
      case True
      from force_spec [OF s2(1,3), of e] obtain s3 where "force_pass e s2 = Some s3" "mod_inv s3 []"
        "same_system s2 s3" "all_finished s3" by blast
      with s1(1) n r True same_system_trans [OF ss] show ?thesis
        by (subst shutdown_loop.simps) auto
    next
      case False
      from again [OF s2(1) ss s2(3,4) s1(5) False] n obtain s3 qs where "shutdown_loop e n s2 = Some s3"
        "mod_inv s3 qs" "same_system s2 s3" "all_finished s3" by blast
      with s1(1) n r False same_system_trans [OF ss] show ?thesis
        by (subst shutdown_loop.simps) auto
    qed
  qed
qed

lemma shutdown_loop_at:
  "mod_inv s ps \<Longrightarrow> dangling (handles s) (memo_list s) = k \<Longrightarrow>
   \<exists>s' qs. shutdown_loop e k s = Some s' \<and> mod_inv s' qs \<and> same_system s s' \<and> all_finished s'"
proof (induction k arbitrary: s ps rule: less_induct)
  case (less k)
  show ?case
  proof (rule shutdown_loop_step [OF less.prems(1)])
    fix n s'
    assume "mod_inv s' []" and "n = dangling (handles s') (memo_list s')"
      and "n \<le> dangling (handles s) (memo_list s)" and "n \<noteq> k"
    then have "n < k" using less.prems(2) by simp
    from less.IH [OF this \<open>mod_inv s' []\<close> \<open>n = _\<close> [symmetric]]
    show "\<exists>s'' qs. shutdown_loop e n s' = Some s'' \<and> mod_inv s'' qs \<and> same_system s' s'' \<and> all_finished s''" .
  qed
qed

lemma shutdown_loop_ends:
  assumes "mod_inv s ps"
  shows "\<exists>s' qs. shutdown_loop e 0 s = Some s' \<and> mod_inv s' qs \<and> same_system s s' \<and> all_finished s'"
proof (rule shutdown_loop_step [OF assms])
  fix n s'
  assume "mod_inv s' []" and "n = dangling (handles s') (memo_list s')"
  from shutdown_loop_at [OF this(1) this(2) [symmetric]]
  show "\<exists>s'' qs. shutdown_loop e n s' = Some s'' \<and> mod_inv s'' qs \<and> same_system s' s'' \<and> all_finished s''" .
qed

section \<open>Properties\<close>

lemma ds_destroy_ok: "mon_list grt \<noteq> None \<Longrightarrow> \<exists>grt' tr. gpsee_ds_destroy d grt = Some (grt', tr)"
  by (auto simp: gpsee_ds_destroy_def gpsee_destroyMonitor_def split: option.splits prod.splits)

lemma shutdown_spec:
  assumes "mod_inv s ps" and "mon_list grt \<noteq> None"
  shows "\<exists>s' grt' qs. gpsee_shutdownModuleSystem e s grt = Some (s', grt') \<and> mod_inv s' qs
    \<and> memo_of s' = memo_of s \<and> all_finished s' \<and> moduleData s' = None
    \<and> (\<forall>q. handles s' q \<noteq> None \<longrightarrow> handles s q \<noteq> None \<and> released (the (handles s' q)) = released (the (handles s q)))"
proof -
  let ?s = "if userModulePath s \<noteq> NULL then s\<lparr>modulePath := []\<rparr> else s"
  have inv: "mod_inv ?s ps" using assms(1) by (simp add: mod_inv_def memo_ok_def memo_of_def)
  have hs: "handles ?s = handles s" "memo_of ?s = memo_of s" by (simp_all add: memo_of_def)
  from shutdown_loop_ends [OF inv, of e] obtain s1 qs where s1: "shutdown_loop e 0 ?s = Some s1" "mod_inv s1 qs"
    "same_system ?s s1" "all_finished s1" by blast
  have mo: "memo_of s1 = memo_of s" using s1(3) hs(2) by (simp add: same_system_def memo_of_def)
  have al: "\<forall>q. handles s1 q \<noteq> None \<longrightarrow> handles s q \<noteq> None \<and> released (the (handles s1 q)) = released (the (handles s q))"
    using s1(3) unfolding same_system_def hs(1) by blast
  show ?thesis
  proof (cases "moduleData s1")
    case None
    with s1(1) have "gpsee_shutdownModuleSystem e s grt = Some (s1, grt)"
      by (simp add: gpsee_shutdownModuleSystem_def Let_def)
    with s1(2,4) mo al None show ?thesis by blast
  next
    case (Some d)
    from ds_destroy_ok [OF assms(2)] obtain grt' tr where d: "gpsee_ds_destroy d grt = Some (grt', tr)" by blast
    let ?t = "s1\<lparr>moduleData := None\<rparr>"
    from s1(1) Some d have "gpsee_shutdownModuleSystem e s grt = Some (?t, grt')"
      by (simp add: gpsee_shutdownModuleSystem_def Let_def)
    moreover have "mod_inv ?t qs" using s1(2) by (simp add: mod_inv_def memo_ok_def memo_of_def)
    moreover have "memo_of ?t = memo_of s" using mo by (simp add: memo_of_def)
    moreover have "all_finished ?t" using s1(4) by (simp add: all_finished_def memo_of_def)
    ultimately show ?thesis using al by (intro exI [of _ ?t] exI [of _ grt'] exI [of _ qs]) simp
  qed
qed

text \<open>Shutting the module system down ends whatever the finishers answer -- also if some refuse for
  ever -- and afterwards no module has a finisher, exports, a scope or is loaded; the memo still
  holds them all.\<close>

theorem shutdown_finishes_every_module:
  assumes "mod_inv s ps" and "mon_list grt \<noteq> None"
  shows "\<exists>s' grt'. gpsee_shutdownModuleSystem e s grt = Some (s', grt') \<and> memo_of s' = memo_of s
    \<and> (\<forall>n m h. memo_of s' n = Some m \<longrightarrow> handles s' m = Some h \<longrightarrow>
         fini h = NULL \<and> exports h = NULL \<and> scope h = NULL \<and> \<not> mhf_loaded h)"
  using shutdown_spec [OF assms, of e] unfolding all_finished_def by blast

text \<open>A module with a finisher that never agrees.\<close>

definition stubborn :: env where
  "stubborn = \<lparr>js_ok = \<lambda>_ _. True, fini_ret = \<lambda>_ _ _ _. False\<rparr>"

definition mst_native :: mst where
  "mst_native = mst_two\<lparr>handles := (handles mst_two)(4 \<mapsto>
     calloc_handle\<lparr>cname := ''a'', scope := 7, exports := 8, fini := 9, mhf_loaded := True\<rparr>)\<rparr>"

definition grt_one :: mon_rt where
  "grt_one = \<lparr>mon_monitor = 3, mon_list = Some \<lparr>ds_data = [], ds_monitor = nilMonitor, ds_grt = NULL, ds_flags = 1\<rparr>\<rparr>"

lemma mst_native_inv: "mod_inv mst_native [5]"
  by (auto simp: mod_inv_def mst_native_def mst_two_def mst_empty_def memo_ok_def memo_of_def keys_sorted_def
      calloc_handle_def)

theorem shutdown_finishes_every_module_witness:
  "\<exists>s' grt'. gpsee_shutdownModuleSystem stubborn mst_native grt_one = Some (s', grt')
    \<and> memo_of s' ''a'' = Some 4 \<and> (handles s' 4 = None \<or> fini (the (handles s' 4)) = NULL)"
proof -
  have "mon_list grt_one \<noteq> None" by (simp add: grt_one_def)
  from shutdown_finishes_every_module [OF mst_native_inv this] obtain s' grt' where
    s': "gpsee_shutdownModuleSystem stubborn mst_native grt_one = Some (s', grt')" "memo_of s' = memo_of mst_native"
    and f: "\<forall>n m h. memo_of s' n = Some m \<longrightarrow> handles s' m = Some h \<longrightarrow> fini h = NULL" by blast
  have "memo_of mst_native ''a'' = Some 4" by (simp add: memo_of_def mst_native_def mst_two_def)
  with s' f show ?thesis by (cases "handles s' 4") fastforce+
qed



lemma path_tokens_join:
  "\<forall>d \<in> set ds. d \<noteq> [] \<and> CHR '':'' \<notin> set d \<Longrightarrow> ds \<noteq> [] \<Longrightarrow>
   path_tokens (concat (map (\<lambda>d. d @ '':'') (butlast ds)) @ last ds) [] = ds"
proof (induction ds)
  case (Cons d ds)
  have tok: "path_tokens (u @ v) acc = path_tokens v (acc @ u)" if "CHR '':'' \<notin> set u" for u v acc
    using that by (induction u arbitrary: acc) auto
  show ?case
  proof (cases "ds = []")
    case True
    with Cons.prems tok [of d "[]" "[]"] show ?thesis by simp
  next
    case False
    with Cons.prems Cons.IH tok [of d "CHR '':'' # concat (map (\<lambda>d. d @ '':'') (butlast ds)) @ last ds" "[]"]
    show ?thesis by simp
  qed
qed simp

lemma alloc_nodes_path:
  "alloc_nodes e ds s = Some s' \<Longrightarrow> modulePath s' = modulePath s @ ds \<and> modules s' = modules s \<and> moduleJail s' = moduleJail s"
  by (induction ds arbitrary: s) (auto simp: call_def split: if_splits)

text \<open>The module path that is set up is the library directory and then the non-empty parts of
  GPSEE\_PATH, in order: joining directory names with colons and setting the system up gives
  the names back; no module is in the memo.\<close>

theorem module_path_set_up:
  assumes "\<forall>d \<in> set ds. d \<noteq> [] \<and> CHR '':'' \<notin> set d" and "ds \<noteq> []"
    and "gpsee_initializeModuleSystem e (Some (concat (map (\<lambda>d. d @ '':'') (butlast ds)) @ last ds))
      jail dir realm cb s grt gcs = Some (True, s', grt', gcs')"
  shows "modulePath s' = dir # ds \<and> memo_of s' = (\<lambda>_. None) \<and> moduleJail s' = jail
    \<and> moduleData s' \<noteq> None"
proof -
  let ?j = "concat (map (\<lambda>d. d @ '':'') (butlast ds)) @ last ds"
  have j: "path_tokens ?j [] = ds" by (rule path_tokens_join [OF assms(1,2)])
  show ?thesis
    using assms(3)
    by (auto simp: gpsee_initializeModuleSystem_def Let_def j call_def call_new_def memo_of_def
        split: option.splits if_splits prod.splits bind_splits dest!: alloc_nodes_path)
qed

text \<open>A module may be running when its scope is furnished.\<close>

lemma ext_scope:
  assumes g: "good s" and w: "waiting s n m" and f: "scope_frame m s s'"
  shows "ext N s s' \<and> waiting s' n m"
proof -
  obtain ps where inv: "mod_inv s ps" using g by (auto simp: good_def)
  obtain h where h: "handles s m = Some h" "\<not> mhf_loaded h" and m: "memo_of s n = Some m"
    using w by (auto simp: waiting_def)
  from f h(1) obtain x where h': "handles s' m = Some (h\<lparr>exports := x\<rparr>)" by (auto simp: scope_frame_def)
  have fr: "modules s' = modules s" "unreachableModule_llist s' = unreachableModule_llist s" "events s' = events s"
    "modulePath s' = modulePath s" "moduleJail s' = moduleJail s" "requireLockDepth s' = requireLockDepth s"
    "next_ptr s \<le> next_ptr s'" "\<forall>q. q \<noteq> m \<longrightarrow> handles s' q = handles s q"
    using f by (simp_all add: scope_frame_def)
  have same: "\<forall>q. map_option (\<lambda>h. (cname h, released h, link h)) (handles s' q)
      = map_option (\<lambda>h. (cname h, released h, link h)) (handles s q)"
  proof
    fix q
    show "map_option (\<lambda>h. (cname h, released h, link h)) (handles s' q)
      = map_option (\<lambda>h. (cname h, released h, link h)) (handles s q)"
      using fr(8) h(1) h' by (cases "q = m") auto
  qed
  have ks: "keys_sorted (modules s)" "map_of (inorder (modules s)) = memo_of s"
    using inv by (simp_all add: mod_inv_def memo_ok_def memo_of_def)
  from mod_inv_handles [OF inv same ks, where evs = "events s" and c = "clock s"] fr have inv': "mod_inv s' ps"
    by (auto simp: mod_inv_def memo_ok_def memo_of_def)
  have mo: "memo_of s' = memo_of s" by (simp add: memo_of_def fr(1))
  have "exec_ok s'"
    unfolding exec_ok_def fr(3)
  proof (intro conjI ballI allI impI)
    show "distinct (execs (events s))" using g by (simp add: good_def exec_ok_def)
    fix q
    assume q: "q \<in> set (execs (events s))"
    then show "q < next_ptr s'" using g fr(7) by (fastforce simp: good_def exec_ok_def)
    fix k
    assume k: "handles s' q = Some k"
    have "q \<noteq> m" using waiting_not_run [OF g w] q by auto
    with k fr(8) have "handles s q = Some k" by simp
    with q g have "script k = NULL \<and> (released k \<or> mhf_loaded k)" unfolding good_def exec_ok_def by blast
    then show "script k = NULL" "released k \<or> mhf_loaded k" by simp_all
  qed
  with inv' have "good s'" by (auto simp: good_def)
  moreover have "loaded_as s' k q y" if "loaded_as s k q y" for k q y
  proof -
    have "q \<noteq> m" using that h by (auto simp: loaded_as_def)
    with that fr(8) show ?thesis by (simp add: loaded_as_def mo)
  qed
  ultimately show ?thesis using h(2) h' m fr by (simp add: ext_def mo waiting_def)
qed

lemma ext_fields:
  "good s \<Longrightarrow> ext N s (s\<lparr>programModule := p\<rparr>)" "good s \<Longrightarrow> ext N s (s\<lparr>script_argv := a\<rparr>)"
  "good s \<Longrightarrow> ext N s (s\<lparr>programModuleDir := d\<rparr>)"
  by (rule ext_same; simp)+

lemma program_fail_spec:
  assumes e: "ext N s0 s" and m: "m \<noteq> NULL \<longrightarrow> memo_of s n = Some m \<and> (\<forall>x. \<not> loaded_as s0 n m x)"
    and r: "program_fail e m s = Ret (b, s')"
  shows "\<not> b \<and> ext N s0 s' \<and> programModule s' = NULL"
proof -
  let ?s = "s\<lparr>programModule := NULL\<rparr>"
  have e1: "ext N s0 ?s" using ext_trans [OF e ext_fields(1) [OF ext_good [OF e]]] .
  show ?thesis
  proof (cases "m = NULL")
    case True
    with r e1 show ?thesis by (auto simp: program_fail_def)
  next
    case False
    with m have mm: "memo_of ?s n = Some m" "\<forall>x. \<not> loaded_as s0 n m x" by (simp_all add: memo_of_def)
    from False r have rel: "releaseModuleHandle e m ?s = Some s'" "\<not> b" by (auto simp: program_fail_def bind_run_Ret)
    from ext_release [OF e1 mm, of e] rel(1) have "ext N s0 s'" by auto
    moreover have "programModule s' = NULL"
    proof -
      from good_handle [OF ext_good [OF e1] mm(1)] obtain h where h: "handles ?s m = Some h" "\<not> released h" by blast
      from release_spec [OF h, of e] rel(1) show ?thesis by auto
    qed
    ultimately show ?thesis using rel(2) by simp
  qed
qed

lemma run_program_spec:
  assumes ld: "ld_ok N ld" and e: "ext N s0 s" and w: "waiting s n m" and pm: "programModule s = m"
    and nl: "\<forall>x. \<not> loaded_as s0 n m x" and r: "run_program e ld m fnBuf argv s = Ret (b, s')"
  shows "ext N s0 s' \<and> (b \<longrightarrow> (\<exists>x. loaded_as s' n m x)) \<and> (\<not> b \<longrightarrow> programModule s' = NULL)"
proof -
  have g: "good s" using ext_good [OF e] .
  obtain h where h: "handles s m = Some h" using w by (auto simp: waiting_def)
  from framed_initialize [OF h, of e "globalObject s" False] obtain ok s1 where
    i: "initializeModuleScope e m (globalObject s) False s = Some (ok, s1)" and fr: "scope_frame m s s1"
    by (auto simp: framed_def)
  from ext_scope [OF g w fr] have s1: "ext N s s1" "waiting s1 n m" by blast+
  have e1: "ext N s0 s1" using ext_trans [OF e s1(1)] .
  have failed: "ext N s0 s' \<and> \<not> b \<and> programModule s' = NULL"
    if "ext N s0 t" "memo_of t n = Some m" "program_fail e m t = Ret (b, s')" for t
    using program_fail_spec [of N s0 t m n e b s'] that nl by blast
  show ?thesis
  proof (cases ok)
    case False
    with r i have "program_fail e m s1 = Ret (b, s')" by (simp add: run_program_def)
    from failed [OF e1 _ this] s1(2) show ?thesis by (simp add: waiting_def)
  next
    case True
    obtain h1 where h1: "handles s1 m = Some h1" and m1: "memo_of s1 n = Some m" using s1(2) by (auto simp: waiting_def)
    let ?s = "log_event (EvSetGlobal (scope h1)) s1"
    have e2: "ext N s1 ?s" using ext_log [OF ext_good [OF s1(1)]] by simp
    have e2': "ext N s0 ?s" using ext_trans [OF e1 e2] .
    show ?thesis
    proof (cases "compileScript e fnBuf (clock ?s)")
      case None
      with r i True h1 have f: "program_fail e m (tick ?s) = Ret (b, s')" by (simp add: run_program_def Let_def)
      have "ext N s0 (tick ?s)" using ext_trans [OF e2' ext_tick [OF ext_good [OF e2]]] .
      from failed [OF this _ f] m1 show ?thesis by (simp add: memo_of_def log_event_def tick_def)
    next
      case (Some p)
      obtain scr obj where p: "p = (scr, obj)" by (cases p)
      let ?f = "\<lambda>h. h\<lparr>script := scr, scrobj := obj, mhf_loaded := True\<rparr>"
      let ?f1 = "\<lambda>h. h\<lparr>script := scr, scrobj := obj\<rparr>"
      have t: "ext N ?s (tick ?s)" "good (tick ?s)"
        using ext_tick [OF ext_good [OF e2]] ext_good by blast+
      have wt: "waiting (tick ?s) n m" using s1(2) by (simp add: waiting_def memo_of_def log_event_def tick_def)
      have ht: "handles (tick ?s) m = Some h1" using h1 by (simp add: log_event_def tick_def)
      obtain s2 where u: "upd_handle m ?f (tick ?s) = Some s2" and s2: "s2 = (tick ?s)\<lparr>handles := (handles (tick ?s))(m \<mapsto> ?f h1)\<rparr>"
        using ht by (simp add: upd_handle_def)
      let ?t1 = "(tick ?s)\<lparr>handles := (handles (tick ?s))(m \<mapsto> ?f1 h1)\<rparr>"
      have u1: "upd_handle m ?f1 (tick ?s) = Some ?t1" using ht by (simp add: upd_handle_def)
      from ext_upd [OF t(2) wt ht _ _ _ _ u1, of N] have t1: "ext N (tick ?s) ?t1" "waiting ?t1 n m" by simp_all
      have "upd_handle m (\<lambda>h. h\<lparr>mhf_loaded := True\<rparr>) ?t1 = Some s2"
        using h1 by (simp add: upd_handle_def s2)
      from set_loaded [OF ext_good [OF t1(1)] t1(2) this, of N] obtain x where
        e3: "ext N ?t1 s2" "loaded_as s2 n m x" by blast
      have e3': "ext N s0 s2" using ext_trans [OF e2' ext_trans [OF t(1) ext_trans [OF t1(1) e3(1)]]] .
      let ?s3 = "log_event (EvSetGlobal (globalObject s2)) s2\<lparr>script_argv := argv\<rparr>"
      have e4: "ext N s2 (log_event (EvSetGlobal (globalObject s2)) s2)"
        using ext_log [OF ext_good [OF e3(1)]] by simp
      have e5: "ext N s2 ?s3" using ext_trans [OF e4 ext_fields(2) [OF ext_good [OF e4]]] .
      obtain b' s4 where ini: "initializeModule e ld m ?s3 = Ret (b', s4)" and
        k: "(if \<not> b' then program_fail e m (s4\<lparr>script_argv := None\<rparr>) else Ret (True, s4\<lparr>script_argv := None\<rparr>)) = Ret (b, s')"
        using r i True h1 Some p u by (auto simp: run_program_def Let_def bind_run_Ret)
      have e6: "ext N ?s3 s4" using initialize_ext [OF ld ext_good [OF e5] ext_loaded [OF e5 e3(2)] ini] .
      let ?s5 = "s4\<lparr>script_argv := None\<rparr>"
      have e7: "ext N s2 ?s5" using ext_trans [OF e5 ext_trans [OF e6 ext_fields(2) [OF ext_good [OF e6]]]] .
      have e8: "ext N s0 ?s5" using ext_trans [OF e3' e7] .
      have l8: "loaded_as ?s5 n m x" using ext_loaded [OF e7 e3(2)] .
      show ?thesis
      proof (cases b')
        case True
        with k have "b" "s' = ?s5" by auto
        with e8 l8 show ?thesis by blast
      next
        case False
        with k have f: "program_fail e m ?s5 = Ret (b, s')" by simp
        from l8 have "memo_of ?s5 n = Some m" by (simp add: loaded_as_def)
        from failed [OF e8 this f] show ?thesis by blast
      qed
    qed
  qed
qed

text \<open>The names a program's module can have.\<close>

definition program_names :: "('e) prog_env_scheme \<Rightarrow> string set" where
  "program_names e = {strip_js r | r. \<exists>p t. realpath e p t = Some r}"

lemma ext_dir: "good s \<Longrightarrow> set_programModuleDir e cn s = Some s' \<Longrightarrow> ext N s s'"
  by (rule ext_same) (auto simp: set_programModuleDir_def call_def split: if_splits option.splits prod.splits)

lemma dir_keeps: "set_programModuleDir e cn s = Some s' \<Longrightarrow> memo_of s' = memo_of s"
  by (auto simp: set_programModuleDir_def call_def memo_of_def split: if_splits option.splits prod.splits)

text \<open>Running a program whose module is not in the memo either fails, leaving no program module, or
  ends with the program's module loaded under its name; in both cases the modules loaded before
  are untouched, the require lock is as before, and no script was run twice.\<close>

theorem program_outcome:
  assumes g: "good s" and new: "\<forall>n \<in> program_names e. memo_of s n = None"
    and r: "gpsee_runProgramModule e (gpsee_loadModule e fuel) fn code file argv s = Ret (b, s')"
  shows "good s' \<and> requireLockDepth s' = requireLockDepth s
    \<and> (\<forall>n m x. loaded_as s n m x \<longrightarrow> loaded_as s' n m x)
    \<and> (if b then \<exists>n \<in> program_names e. \<exists>m x. loaded_as s' n m x
       else programModule s' \<in> {NULL, programModule s})"
proof -
  let ?N = "canon e \<union> program_names e"
  let ?ld = "gpsee_loadModule e fuel"
  have ld: "ld_ok ?N ?ld"
    using loadModule_ok [of e fuel] ext_mono [of "canon e" _ _ ?N] unfolding ld_ok_def by blast
  have fail_here: ?thesis if "ext ?N s s'" "\<not> b" "programModule s' \<in> {NULL, programModule s}"
    using that by (simp add: ext_def)
  obtain path where p: "program_path e fn s = Some path" using r by (auto simp: gpsee_runProgramModule_def bind_run_Ret)
  show ?thesis
  proof (cases path)
    case None
    with r p have "s' = gpsee_throw ''getcwd() error or filename buffer overrun'' s" "\<not> b"
      by (auto simp: gpsee_runProgramModule_def)
    with fail_here ext_throw [OF g] show ?thesis by (simp add: gpsee_throw_def log_event_def)
  next
    case path: (Some pa)
    have gt: "ext ?N s (tick s)" using ext_tick [OF g] .
    obtain cn s1 where rn: "resolve_name e pa (tick s) = Some (cn, s1)"
      using r p path by (auto simp: gpsee_runProgramModule_def bind_run_Ret)
    from resolve_name_spec [OF rn] have s1: "s1 = tick (tick s)" "\<forall>r. cn = Some r \<longrightarrow> (\<exists>p t. realpath e p t = Some r)"
      by simp_all
    have e1: "ext ?N s s1" using ext_trans [OF gt ext_tick [OF ext_good [OF gt]]] by (simp add: s1)
    have f1: "programModule s1 = programModule s" "memo_of s1 = memo_of s" by (simp_all add: s1 tick_def memo_of_def)
    show ?thesis
    proof (cases cn)
      case None
      with r p path rn have "s' = gpsee_throw ''could not resolve script path'' s1" "\<not> b"
        by (auto simp: gpsee_runProgramModule_def)
      with fail_here ext_trans [OF e1 ext_throw [OF ext_good [OF e1]]] f1(1) show ?thesis
        by (simp add: gpsee_throw_def log_event_def)
    next
      case cn: (Some fnBuf)
      obtain ok2 s2 where c2: "check_scriptFile e fnBuf file s1 = (ok2, s2)" by fastforce
      have "s2 = s1 \<or> (\<exists>msg. s2 = gpsee_throw msg s1)"
        using c2 by (auto simp: check_scriptFile_def split: option.splits if_splits)
      then have e2: "ext ?N s s2" and f2: "programModule s2 = programModule s" "memo_of s2 = memo_of s"
        using e1 ext_trans [OF e1 ext_throw [OF ext_good [OF e1]]] f1
        by (auto simp: gpsee_throw_def log_event_def memo_of_def)
      obtain ok3 s3 where c3: "open_scriptFile e fn code file s2 = (ok3, s3)" by fastforce
      have "s3 = tick s2 \<or> (\<exists>msg. s3 = gpsee_throw msg s2)"
        using c3 by (auto simp: open_scriptFile_def split: if_splits)
      then have e3: "ext ?N s s3" and f3: "programModule s3 = programModule s" "memo_of s3 = memo_of s"
        using ext_trans [OF e2 ext_throw [OF ext_good [OF e2]]] ext_trans [OF e2 ext_tick [OF ext_good [OF e2]]] f2
        by (auto simp: gpsee_throw_def log_event_def tick_def memo_of_def)
      show ?thesis
      proof (cases "ok2 \<and> ok3")
        case False
        with r p path rn cn c2 c3 have "\<not> b" "s' = s2 \<or> s' = s3"
          by (auto simp: gpsee_runProgramModule_def split: if_splits)
        with fail_here e2 e3 f2 f3 show ?thesis by auto
      next
        case True
        let ?n = "strip_js fnBuf"
        have n: "?n \<in> program_names e" using s1(2) cn unfolding program_names_def by blast
        obtain s4 m s5 where d: "set_programModuleDir e ?n s3 = Some s4"
          and a: "acquireModuleHandle e ?n (globalObject s4) s4 = Some (m, s5)"
          and k: "(if m = NULL then program_fail e NULL s5
             else run_program e ?ld m fnBuf argv (s5\<lparr>programModule := m\<rparr>)) = Ret (b, s')"
          using r p path rn cn c2 c3 True by (auto simp: gpsee_runProgramModule_def bind_run_Ret Let_def)
        have e4: "ext ?N s s4" using ext_trans [OF e3 ext_dir [OF ext_good [OF e3] d]] .
        have m4: "memo_of s4 ?n = None" using dir_keeps [OF d] f3(2) new n by simp
        obtain ps where inv: "mod_inv s4 ps" using ext_good [OF e4] by (auto simp: good_def)
        from ext_acquire [OF ext_good [OF e4] a] ext_mono [of "{?n}" s4 s5 ?N] n
        have e5: "ext ?N s4 s5" "m \<noteq> NULL \<longrightarrow> memo_of s5 ?n = Some m" by auto
        have e5': "ext ?N s s5" using ext_trans [OF e4 e5(1)] .
        show ?thesis
        proof (cases "m = NULL")
          case True
          with k have "program_fail e NULL s5 = Ret (b, s')" by simp
          from program_fail_spec [OF e5' _ this] fail_here show ?thesis by simp
        next
          case False
          from acquire_spec [OF inv a] False m4 obtain h where h: "handles s5 m = Some h" "fresh_handle ?n h"
            by (auto simp: acquired_def)
          let ?s = "s5\<lparr>programModule := m\<rparr>"
          have e6: "ext ?N s ?s" using ext_trans [OF e5' ext_fields(1) [OF ext_good [OF e5(1)]]] .
          have w: "waiting ?s ?n m"
            using h e5(2) False by (simp add: waiting_def fresh_handle_def memo_of_def)
          have "\<forall>x. \<not> loaded_as s ?n m x" using new n by (auto simp: loaded_as_def)
          from run_program_spec [OF ld e6 w _ this, of e fnBuf argv b s'] k False
          have "ext ?N s s'" "b \<longrightarrow> (\<exists>x. loaded_as s' ?n m x)" "\<not> b \<longrightarrow> programModule s' = NULL" by simp_all
          with n show ?thesis by (auto simp: ext_def)
        qed
      qed
    qed
  qed
qed

definition prog_env_ok :: prog_env where
  "prog_env_ok = load_env_ok \<lparr>script_prog = \<lambda>_ _. JDone True, init_prog = \<lambda>_ _ _. JDone True,
     getcwd = \<lambda>_. None, stat_id = \<lambda>_ _. None, fstat_id = \<lambda>_ _. None, fopen = \<lambda>_ _. Some 3\<rparr>"

lemma prog_env_names: "program_names prog_env_ok = {''/j/x''}"
proof -
  have "strip_js ''/j/x.js'' = ''/j/x''" by (simp add: strip_js_def)
  then show ?thesis by (auto simp: program_names_def prog_env_ok_def load_env_ok_def split: if_splits)
qed

lemma prog_env_run:
  "\<exists>s'. gpsee_runProgramModule prog_env_ok (gpsee_loadModule prog_env_ok 1) ''/j/x.js'' None None None mst_run
     = Ret (True, s')"
proof -
  let ?e = prog_env_ok
  have p: "program_path ?e ''/j/x.js'' mst_run = Some (Some ''/j/x.js'')" by (simp add: program_path_def char_at_def)
  have rn: "resolve_name ?e ''/j/x.js'' (tick mst_run) = Some (Some ''/j/x.js'', tick (tick mst_run))"
    by (rule resolve_name_ok) (simp_all add: prog_env_ok_def load_env_ok_def PATH_MAX_def)
  have n: "strip_js ''/j/x.js'' = ''/j/x''" by (simp add: strip_js_def)
  have c: "check_scriptFile ?e ''/j/x.js'' None (tick (tick mst_run)) = (True, tick (tick mst_run))"
    by (simp add: check_scriptFile_def)
  have o: "open_scriptFile ?e ''/j/x.js'' None None (tick (tick mst_run)) = (True, tick (tick (tick mst_run)))"
    by (simp add: open_scriptFile_def prog_env_ok_def load_env_ok_def)
  have "strrchr ''/j/x'' CHR ''/'' = Some 2" by simp
  then have "\<exists>d k. set_programModuleDir ?e ''/j/x'' (tick (tick (tick mst_run))) = Some (mst_run\<lparr>clock := k, programModuleDir := d\<rparr>)"
    by (simp add: set_programModuleDir_def call_def prog_env_ok_def load_env_ok_def tick_def gpsee_dirname_def
        store_block_def mem_store_def mst_run_def mst_jail_def mst_empty_def)
  then obtain d k where d: "set_programModuleDir ?e ''/j/x'' (tick (tick (tick mst_run)))
    = Some (mst_run\<lparr>clock := k, programModuleDir := d\<rparr>)" by blast
  define s4 where s4: "s4 = mst_run\<lparr>clock := k, programModuleDir := d\<rparr>"
  have a: "\<exists>s'. bind_run (lift_run (acquireModuleHandle ?e ''/j/x'' (globalObject s4) s4)) (\<lambda>(module, s).
      if module = NULL then program_fail ?e NULL s
      else run_program ?e (gpsee_loadModule ?e 1) module ''/j/x.js'' None (s\<lparr>programModule := module\<rparr>)) = Ret (True, s')"
    by (simp add: s4 acquireModuleHandle_def findModuleHandle_def SPLAY_FIND_def mst_empty_def call_new_def mst_jail_def
        mst_run_def call_def prog_env_ok_def load_env_ok_def upd_handle_def Let_def tick_def calloc_handle_def
        initializeModuleScope_def define_module_globals_def guard_def setModuleScopeInfo_def
        define_property_def set_slot_def ensure_userModulePath_def newModuleExports_def
        run_program_def initializeModule_def run_init_def run_script_def log_event_def)
  show ?thesis using p rn n c o d a [unfolded s4]
    by (simp add: gpsee_runProgramModule_def Let_def del: gpsee_loadModule.simps One_nat_def)
qed

theorem program_outcome_witness:
  "\<exists>s' m x. gpsee_runProgramModule prog_env_ok (gpsee_loadModule prog_env_ok 1) ''/j/x.js'' None None None mst_run
     = Ret (True, s') \<and> loaded_as s' ''/j/x'' m x"
proof -
  from prog_env_run obtain s' where
    r: "gpsee_runProgramModule prog_env_ok (gpsee_loadModule prog_env_ok 1) ''/j/x.js'' None None None mst_run
     = Ret (True, s')" by blast
  have "\<forall>n \<in> program_names prog_env_ok. memo_of mst_run n = None"
    by (simp add: memo_of_def mst_run_def mst_jail_def mst_empty_def)
  from program_outcome [OF mst_run_good this r] r show ?thesis by (auto simp: prog_env_names)
qed

theorem module_path_set_up_witness:
  "\<exists>s' grt' gcs'. gpsee_initializeModuleSystem stubborn (Some ''/a:/b'') None ''/lib'' 5 6 mst_empty grt_one
      \<lparr>ds_data = [], ds_monitor = nilMonitor, ds_grt = NULL, ds_flags = 3\<rparr> = Some (True, s', grt', gcs')
    \<and> modulePath s' = [''/lib'', ''/a'', ''/b'']"
proof -
  have "\<exists>s' grt' gcs'. gpsee_initializeModuleSystem stubborn (Some ''/a:/b'') None ''/lib'' 5 6 mst_empty grt_one
      \<lparr>ds_data = [], ds_monitor = nilMonitor, ds_grt = NULL, ds_flags = 3\<rparr> = Some (True, s', grt', gcs')"
    by (simp add: gpsee_initializeModuleSystem_def stubborn_def call_def call_new_def mst_empty_def Let_def
        gpsee_ds_create_def ds_create_def gpsee_createMonitor_def grt_one_def gpsee_ds_put_def
        gpsee_addGCCallback_def is_otm_def GPSEE_DS_OTM_KEYS_def GPSEE_DS_UNLOCKED_def ds_newSize_def ds_grow_def
        split: prod.splits)
  then show ?thesis
    using module_path_set_up [of "[''/a'', ''/b'']" stubborn None "''/lib''" 5 6 mst_empty grt_one] by fastforce
qed

text \<open>Storing several pieces of data, each with its own luck at allocating.\<close>

fun set_data :: "(bool \<times> ptr \<times> ptr) list \<Rightarrow> mst \<Rightarrow> mst" where
  "set_data [] s = s"
| "set_data ((ok, k, v) # xs) s = set_data xs (snd (gpsee_setModuleData True ok k v s))"

lemma setModuleData_eq:
  "moduleData s = Some ds \<Longrightarrow> gpsee_setModuleData True ok k v s
     = (fst (ds_put_st ok ds k v), s\<lparr>moduleData := Some (snd (ds_put_st ok ds k v))\<rparr>)"
  by (simp add: gpsee_setModuleData_def gpsee_getModuleDataStore_def ds_put_st_def split: prod.splits)

lemma set_data_store:
  "moduleData s = Some ds \<Longrightarrow> moduleData (set_data xs s) = Some (ds_map.puts xs ds)"
proof (induction xs s arbitrary: ds rule: set_data.induct)
  case (2 ok k v xs s)
  then show ?case by (simp add: setModuleData_eq)
qed simp

text \<open>What a module stored in the realm's data store it gets back, whatever is stored under other
  keys in between and whichever of those attempts fail.\<close>

theorem module_data_roundtrip:
  assumes "moduleData s = Some ds" and "\<not> is_otm ds" and "key \<noteq> NULL" and "data \<noteq> NULL"
    and "gpsee_setModuleData True ok key data s = (True, s')" and "key \<notin> (fst \<circ> snd) ` set xs"
  shows "fst (gpsee_getModuleData True key pfx (set_data xs s')) = (True, data)"
proof -
  from assms(5) have p: "ds_put_st ok ds key data = (True, snd (ds_put_st ok ds key data))"
    and s': "moduleData s' = Some (snd (ds_put_st ok ds key data))"
    by (auto simp: setModuleData_eq [OF assms(1)] prod_eq_iff)
  let ?d = "snd (ds_put_st ok ds key data)"
  have "fst (gpsee_ds_get (ds_map.puts xs ?d) key) = data"
    using ds_map.get_puts_other [OF ds_map.inv_put [OF assms(2) p] assms(3,6)]
      ds_map.get_put_same [OF assms(2) p assms(3)] by simp
  with set_data_store [OF s', of xs] assms(4) show ?thesis
    by (auto simp: gpsee_getModuleData_def gpsee_getModuleDataStore_def split: prod.splits)
qed

theorem module_data_roundtrip_witness:
  "fst (gpsee_getModuleData True 5 ''vm'' (set_data [(True, 6, 60), (False, 7, 70)]
      (snd (gpsee_setModuleData True True 5 50
        (mst_empty\<lparr>moduleData := Some \<lparr>ds_data = [], ds_monitor = 1, ds_grt = 0, ds_flags = 0\<rparr>\<rparr>))))) = (True, 50)"
proof -
  let ?d = "\<lparr>ds_data = [], ds_monitor = 1, ds_grt = 0, ds_flags = 0\<rparr>"
  let ?s = "mst_empty\<lparr>moduleData := Some ?d\<rparr>"
  have "gpsee_setModuleData True True 5 50 ?s = (True, snd (gpsee_setModuleData True True 5 50 ?s))"
    by (simp add: setModuleData_eq ds_put_st_def gpsee_ds_put_def Let_def prod_eq_iff)
  moreover have "moduleData ?s = Some ?d" "\<not> is_otm ?d" by (simp_all add: is_otm_def)
  ultimately show ?thesis using module_data_roundtrip [of ?s ?d 5 50 True _ "[(True, 6, 60), (False, 7, 70)]"] by simp
qed

text \<open>A scope that outlives its released module -- a program's, whose scope is the global object --
  is left with a stale pointer: releasing the module keeps the scope's information block, the
  end of the next collection frees the handle, and finalizing the scope then goes through it.\<close>

theorem scope_outliving_module_is_dangling:
  assumes inv: "mod_inv s ps" and m: "memo_of s n = Some m" and si: "scope_info s sc = Some m"
  shows "\<exists>s1 s2. releaseModuleHandle e m s = Some s1 \<and> moduleGCCallback JSGC_FINALIZE_END s1 = Some (True, s2)
    \<and> finalizeModuleScope e sc s2 = None"
proof -
  from memo_handle [OF inv m] obtain h where h: "handles s m = Some h" "cname h = n" "\<not> released h" by auto
  from release_inv [OF inv h(1,3), of e] m h(2) obtain s1 where s1: "releaseModuleHandle e m s = Some s1"
    "mod_inv s1 (m # ps)" "scope_info s1 = scope_info s" by auto
  from finalize_end_inv [OF s1(2)] obtain s2 where s2: "moduleGCCallback JSGC_FINALIZE_END s1 = Some (True, s2)"
    "scope_info s2 = scope_info s1" "\<forall>q. handles s2 q = (if q \<in> set (m # ps) then None else handles s1 q)" by blast
  have "finalizeModuleScope e sc s2 = None"
    using s2(2,3) s1(3) si by (simp add: finalizeModuleScope_def getModuleScopeInfo_def releaseModuleHandle_def)
  with s1(1) s2(1) show ?thesis by blast
qed

theorem scope_outliving_module_is_dangling_witness:
  "\<exists>s1 s2. releaseModuleHandle stubborn 4 mst_two = Some s1 \<and> moduleGCCallback JSGC_FINALIZE_END s1 = Some (True, s2)
    \<and> finalizeModuleScope stubborn 7 s2 = None"
proof -
  have "memo_of mst_two ''a'' = Some 4" "scope_info mst_two 7 = Some 4" by (simp_all add: memo_of_def mst_two_def)
  from scope_outliving_module_is_dangling [OF mst_two_inv this] show ?thesis .
qed

end
