(* ===== verification/ContextPrivate.thy ===== *)
theory ContextPrivate
  imports Prelude
begin

text \<open>
  Storage private to a JavaScript context, gpsee\_context\_private.c: each pair of a context
  and an owner's \<open>id\<close> has one block of memory, made on first use, and a callback that is
  told when the pair is made and when the context is destroyed.

  The list a context's handle points to is \<open>cx_private\<close>, the blocks are \<open>blocks\<close>.  What a
  callback does is a parameter (\<open>run_cb\<close>), which acts on the whole program state: the
  state is a record that other components extend.  So is whether an allocation succeeds
  (\<open>malloc_ok\<close>, at a time).  The value \<open>None\<close> of \<open>gpsee_getContextPrivate\<close> is the end
  of the process (panic), or of its callback; \<open>None\<close> of \<open>gpsee_contextCallback\<close> also
  stands for a loop that does not end, which happens when a callback keeps adding pairs.
\<close>

section \<open>State\<close>

datatype contextOp = JSCONTEXT_NEW | JSCONTEXT_DESTROY | JSCONTEXT_OTHER nat

record cp_entry =
  e_cx :: ptr
  e_id :: ptr
  e_cb :: ptr
  e_storage :: ptr

record cp_state =
  cx_private :: "ptr \<Rightarrow> cp_entry list option"
  cx_callback_set :: bool
  blocks :: "ptr \<Rightarrow> byte list option"
  next_block :: ptr
  cp_clock :: nat
  cb_calls :: "(ptr \<times> ptr \<times> contextOp) list"

record 's cp_env =
  cp_runtime :: ptr
  malloc_ok :: "nat \<Rightarrow> bool"
  run_cb :: "ptr \<Rightarrow> ptr \<Rightarrow> contextOp \<Rightarrow> 's \<Rightarrow> 's option"

text \<open>One allocation of \<open>n\<close> bytes, cleared.  Freeing NULL does nothing, freeing twice is \<open>None\<close>.\<close>

definition malloc_try :: "('s, 'e) cp_env_scheme \<Rightarrow> ('a) cp_state_scheme \<Rightarrow> bool \<times> ('a) cp_state_scheme" where
  "malloc_try e s = (malloc_ok e (cp_clock s), s\<lparr>cp_clock := Suc (cp_clock s)\<rparr>)"

definition malloc_zero ::
    "('s, 'e) cp_env_scheme \<Rightarrow> nat \<Rightarrow> ('a) cp_state_scheme \<Rightarrow> ptr \<times> ('a) cp_state_scheme" where
  "malloc_zero e n s =
     (case malloc_try e s of (ok, s) \<Rightarrow>
        if ok then (next_block s, s\<lparr>blocks := (blocks s)(next_block s \<mapsto> replicate n 0),
                      next_block := Suc (next_block s)\<rparr>)
        else (NULL, s))"

definition free_block :: "ptr \<Rightarrow> ('a) cp_state_scheme \<Rightarrow> ('a) cp_state_scheme option" where
  "free_block p s =
     (if p = NULL then Some s
      else case blocks s p of None \<Rightarrow> None | Some _ \<Rightarrow> Some (s\<lparr>blocks := (blocks s)(p := None)\<rparr>))"

definition call_cb ::
    "(('a) cp_state_scheme, 'e) cp_env_scheme \<Rightarrow> ptr \<Rightarrow> ptr \<Rightarrow> contextOp \<Rightarrow> ('a) cp_state_scheme \<Rightarrow>
     ('a) cp_state_scheme option" where
  "call_cb e cb cx contextOp s = run_cb e cb cx contextOp (s\<lparr>cb_calls := cb_calls s @ [(cb, cx, contextOp)]\<rparr>)"

section \<open>Operations\<close>

fun free_storages :: "cp_entry list \<Rightarrow> ('a) cp_state_scheme \<Rightarrow> ('a) cp_state_scheme option" where
  "free_storages [] s = Some s"
| "free_storages (x # xs) s = Option.bind (free_block (e_storage x) s) (free_storages xs)"

definition gpsee_destroyContextPrivate :: "ptr \<Rightarrow> ('a) cp_state_scheme \<Rightarrow> ('a) cp_state_scheme option" where
  "gpsee_destroyContextPrivate cx s =
     (case cx_private s cx of
        None \<Rightarrow> Some s
      | Some hnd \<Rightarrow> map_option (\<lambda>s. s\<lparr>cx_private := (cx_private s)(cx := None)\<rparr>) (free_storages hnd s))"

text \<open>The list is read again through the handle at each step.\<close>

partial_function (option) destroy_calls ::
    "(('a) cp_state_scheme, 'e) cp_env_scheme \<Rightarrow> ptr \<Rightarrow> nat \<Rightarrow> ('a) cp_state_scheme \<Rightarrow>
     ('a) cp_state_scheme option" where
  "destroy_calls e cx i s =
     (case cx_private s cx of
        None \<Rightarrow> None
      | Some hnd \<Rightarrow>
          if i < length hnd then
            Option.bind (if e_cb (hnd ! i) \<noteq> NULL then call_cb e (e_cb (hnd ! i)) cx JSCONTEXT_DESTROY s else Some s)
              (\<lambda>s. destroy_calls e cx (Suc i) s)
          else Some s)"

definition gpsee_contextCallback ::
    "(('a) cp_state_scheme, 'e) cp_env_scheme \<Rightarrow> ptr \<Rightarrow> contextOp \<Rightarrow> ('a) cp_state_scheme \<Rightarrow>
     (bool \<times> ('a) cp_state_scheme) option" where
  "gpsee_contextCallback e cx contextOp s =
     (case contextOp of
        JSCONTEXT_NEW \<Rightarrow> Some (True, s)
      | JSCONTEXT_DESTROY \<Rightarrow>
          Option.bind (case cx_private s cx of None \<Rightarrow> Some s | Some _ \<Rightarrow> destroy_calls e cx 0 s)
            (\<lambda>s. map_option (Pair True) (gpsee_destroyContextPrivate cx s))
      | JSCONTEXT_OTHER n \<Rightarrow> Some (True, s))"

definition find_entry :: "ptr \<Rightarrow> ptr \<Rightarrow> cp_entry list \<Rightarrow> cp_entry option" where
  "find_entry cx id_p hnd = List.find (\<lambda>x. e_cx x = cx \<and> e_id x = id_p) hnd"

text \<open>The part after the search: the list grows by one, which has to succeed.\<close>

definition new_entry ::
    "(('a) cp_state_scheme, 'e) cp_env_scheme \<Rightarrow> ptr \<Rightarrow> ptr \<Rightarrow> nat \<Rightarrow> ptr \<Rightarrow> cp_entry list \<Rightarrow> ('a) cp_state_scheme \<Rightarrow>
     (ptr \<times> ('a) cp_state_scheme) option" where
  "new_entry e cx id_p size_n cb hnd s =
     (case malloc_try e s of (ok, s) \<Rightarrow>
      if \<not> ok then None
      else
        (case (if size_n \<noteq> 0 then malloc_zero e size_n s else (NULL, s)) of (p, s) \<Rightarrow>
           let x = \<lparr>e_cx = (if id_p \<noteq> NULL then cx else cp_runtime e), e_id = id_p, e_cb = cb, e_storage = p\<rparr>;
               s = s\<lparr>cx_private := (cx_private s)(cx \<mapsto> hnd @ [x])\<rparr> in
           map_option (Pair (if id_p = NULL then cb else p))
             (if cb \<noteq> NULL then call_cb e cb cx JSCONTEXT_NEW s else Some s)))"

definition gpsee_getContextPrivate ::
    "(('a) cp_state_scheme, 'e) cp_env_scheme \<Rightarrow> ptr \<Rightarrow> ptr \<Rightarrow> nat \<Rightarrow> ptr \<Rightarrow> ('a) cp_state_scheme \<Rightarrow>
     (ptr \<times> ('a) cp_state_scheme) option" where
  "gpsee_getContextPrivate e cx id_p size_n cb s =
     (case (case cx_private s cx of
              Some hnd \<Rightarrow> (Some hnd, s)
            | None \<Rightarrow>
                (case malloc_try e s of (ok, s) \<Rightarrow>
                   if \<not> ok then (None, s)
                   else (Some [], s\<lparr>cx_private := (cx_private s)(cx \<mapsto> []), cx_callback_set := True\<rparr>))) of
        (None, s) \<Rightarrow> Some (NULL, s)
      | (Some hnd, s) \<Rightarrow>
          (case find_entry cx id_p hnd of
             Some x \<Rightarrow> Some (e_storage x, s)
           | None \<Rightarrow> new_entry e cx id_p size_n cb hnd s))"

definition gpsee_setContextCallback ::
    "(('a) cp_state_scheme, 'e) cp_env_scheme \<Rightarrow> ptr \<Rightarrow> ptr \<Rightarrow> ('a) cp_state_scheme \<Rightarrow>
     (ptr \<times> ('a) cp_state_scheme) option" where
  "gpsee_setContextCallback e cx cb s = gpsee_getContextPrivate e cx NULL 0 cb s"

section \<open>What the book-keeping keeps\<close>

text \<open>
  \<open>private_of\<close> is the contract: a map from pairs of a context and an owner to a block.
  \<open>book_ok\<close>: the pairs of a list are distinct and belong to its context, the blocks are
  live and belong to one pair each.
\<close>

definition entries :: "('a) cp_state_scheme \<Rightarrow> ptr \<Rightarrow> cp_entry list" where
  "entries s cx = (case cx_private s cx of None \<Rightarrow> [] | Some hnd \<Rightarrow> hnd)"

definition private_of :: "('a) cp_state_scheme \<Rightarrow> ptr \<Rightarrow> ptr \<Rightarrow> ptr option" where
  "private_of s cx id_p = map_option e_storage (find_entry cx id_p (entries s cx))"

definition owners :: "cp_entry list \<Rightarrow> ptr list" where
  "owners hnd = filter (\<lambda>p. p \<noteq> NULL) (map e_id hnd)"

definition storages :: "cp_entry list \<Rightarrow> ptr list" where
  "storages hnd = filter (\<lambda>p. p \<noteq> NULL) (map e_storage hnd)"

definition callbacks_of :: "cp_entry list \<Rightarrow> ptr list" where
  "callbacks_of hnd = filter (\<lambda>p. p \<noteq> NULL) (map e_cb hnd)"

definition book_ok :: "ptr \<Rightarrow> ('a) cp_state_scheme \<Rightarrow> bool" where
  "book_ok rt s \<longleftrightarrow>
     (\<forall>cx. distinct (owners (entries s cx)) \<and> distinct (storages (entries s cx))
        \<and> (\<forall>x \<in> set (entries s cx). e_cx x = (if e_id x = NULL then rt else cx)))
     \<and> (\<forall>cx cx'. cx \<noteq> cx' \<longrightarrow> set (storages (entries s cx)) \<inter> set (storages (entries s cx')) = {})
     \<and> dom (blocks s) = (\<Union>cx. set (storages (entries s cx)))
     \<and> (\<forall>p \<ge> next_block s. blocks s p = None) \<and> 0 < next_block s"

lemma owners_append [simp]: "owners (xs @ ys) = owners xs @ owners ys"
  by (simp add: owners_def)

lemma storages_append [simp]: "storages (xs @ ys) = storages xs @ storages ys"
  by (simp add: storages_def)

lemma storages_Cons: "storages (x # xs) = (if e_storage x = NULL then [] else [e_storage x]) @ storages xs"
  by (simp add: storages_def)

lemma callbacks_Cons: "callbacks_of (x # xs) = (if e_cb x = NULL then [] else [e_cb x]) @ callbacks_of xs"
  by (simp add: callbacks_of_def)

lemma callbacks_append [simp]: "callbacks_of (xs @ ys) = callbacks_of xs @ callbacks_of ys"
  by (simp add: callbacks_of_def)

lemma find_entry_owner:
  "find_entry cx id_p hnd = None \<Longrightarrow> \<forall>x \<in> set hnd. e_cx x = (if e_id x = NULL then rt else cx) \<Longrightarrow>
   id_p \<noteq> NULL \<Longrightarrow> id_p \<notin> set (owners hnd)"
  by (fastforce simp: find_entry_def find_None_iff owners_def)

lemma find_entry_append:
  "find_entry cx id_p (xs @ ys) =
    (case find_entry cx id_p xs of Some x \<Rightarrow> Some x | None \<Rightarrow> find_entry cx id_p ys)"
  by (induction xs) (auto simp: find_entry_def)

lemma free_storages_ok:
  assumes "distinct (storages xs)" and "set (storages xs) \<subseteq> dom (blocks s)"
  shows "free_storages xs s = Some (s\<lparr>blocks := blocks s |` (- set (storages xs))\<rparr>)"
  using assms
proof (induction xs arbitrary: s)
  case Nil
  then show ?case by (simp add: storages_def restrict_map_def)
next
  case (Cons x xs)
  show ?case
  proof (cases "e_storage x = NULL")
    case True
    then show ?thesis using Cons by (simp add: storages_Cons free_block_def)
  next
    case False
    then obtain b where b: "blocks s (e_storage x) = Some b"
      using Cons.prems(2) by (auto simp: storages_Cons)
    let ?s = "s\<lparr>blocks := (blocks s)(e_storage x := None)\<rparr>"
    have "blocks ?s |` (- set (storages xs)) = blocks s |` (- set (storages (x # xs)))"
      using False by (auto simp: storages_Cons restrict_map_def fun_eq_iff)
    then have eq: "?s\<lparr>blocks := blocks ?s |` (- set (storages xs))\<rparr>
        = s\<lparr>blocks := blocks s |` (- set (storages (x # xs)))\<rparr>" by (simp del: restrict_fun_upd)
    have "distinct (storages xs)" "set (storages xs) \<subseteq> dom (blocks ?s)"
      using Cons.prems False by (auto simp: storages_Cons)
    from Cons.IH [OF this, unfolded eq] False show ?thesis by (simp add: free_block_def b)
  qed
qed

section \<open>The contract of a callback\<close>

text \<open>
  \<open>ainv\<close> is what the callbacks need of the rest of the program state.  A callback may
  change that state, and the contents of the blocks, but adds and removes no pair.
\<close>

locale context_callbacks =
  fixes e :: "(('a) cp_state_scheme, 'e) cp_env_scheme"
    and ainv :: "('a) cp_state_scheme \<Rightarrow> bool"
  assumes inv_more: "ainv s \<Longrightarrow> cp_state.more t = cp_state.more s \<Longrightarrow> next_block s \<le> next_block t \<Longrightarrow> ainv t"
    and callback: "ainv s \<Longrightarrow> \<exists>s'. run_cb e cb cx contextOp s = Some s' \<and> ainv s'
      \<and> cx_private s' = cx_private s \<and> dom (blocks s') = dom (blocks s)
      \<and> next_block s' = next_block s \<and> cb_calls s' = cb_calls s"
begin

lemma call_ok:
  assumes "ainv s"
  shows "\<exists>s'. call_cb e cb cx contextOp s = Some s' \<and> ainv s' \<and> cx_private s' = cx_private s
    \<and> dom (blocks s') = dom (blocks s) \<and> next_block s' = next_block s
    \<and> cb_calls s' = cb_calls s @ [(cb, cx, contextOp)]"
proof -
  have "ainv (s\<lparr>cb_calls := cb_calls s @ [(cb, cx, contextOp)]\<rparr>)" by (rule inv_more [OF assms]) simp_all
  from callback [OF this, of cb cx contextOp] show ?thesis by (auto simp: call_cb_def)
qed

lemma destroy_calls_ok:
  assumes "ainv s" and "cx_private s cx = Some hnd" and "i \<le> length hnd"
  shows "\<exists>s'. destroy_calls e cx i s = Some s' \<and> ainv s' \<and> cx_private s' = cx_private s
    \<and> dom (blocks s') = dom (blocks s) \<and> next_block s' = next_block s
    \<and> cb_calls s' = cb_calls s @ map (\<lambda>cb. (cb, cx, JSCONTEXT_DESTROY)) (callbacks_of (drop i hnd))"
  using assms
proof (induction "length hnd - i" arbitrary: i s)
  case 0
  then show ?case by (subst destroy_calls.simps) (simp add: callbacks_of_def)
next
  case (Suc n)
  then have i: "i < length hnd" "n = length hnd - Suc i" "Suc i \<le> length hnd" by simp_all
  have d: "drop i hnd = hnd ! i # drop (Suc i) hnd" using i by (simp add: Cons_nth_drop_Suc)
  show ?case
  proof (cases "e_cb (hnd ! i) = NULL")
    case True
    with Suc.hyps(1) [OF i(2) Suc.prems(1,2) i(3)] Suc.prems(2) i show ?thesis
      by (subst destroy_calls.simps) (simp add: d callbacks_Cons)
  next
    case False
    from call_ok [OF Suc.prems(1)] obtain s1 where
      c: "call_cb e (e_cb (hnd ! i)) cx JSCONTEXT_DESTROY s = Some s1" "ainv s1" "cx_private s1 = cx_private s"
      "dom (blocks s1) = dom (blocks s)" "next_block s1 = next_block s"
      "cb_calls s1 = cb_calls s @ [(e_cb (hnd ! i), cx, JSCONTEXT_DESTROY)]" by blast
    from Suc.hyps(1) [OF i(2) c(2) _ i(3)] c(3) Suc.prems(2) obtain s2 where
      "destroy_calls e cx (Suc i) s1 = Some s2" "ainv s2" "cx_private s2 = cx_private s1"
      "dom (blocks s2) = dom (blocks s1)" "next_block s2 = next_block s1"
      "cb_calls s2 = cb_calls s1 @ map (\<lambda>cb. (cb, cx, JSCONTEXT_DESTROY)) (callbacks_of (drop (Suc i) hnd))"
      by auto
    with c False Suc.prems(2) i show ?thesis
      by (subst destroy_calls.simps) (simp add: d callbacks_Cons)
  qed
qed

end

section \<open>Finding or making a pair\<close>

text \<open>The pair that a call added to the list of a context, and what else it changed.\<close>

definition made ::
    "ptr \<Rightarrow> ptr \<Rightarrow> ptr \<Rightarrow> nat \<Rightarrow> ptr \<Rightarrow> ptr \<Rightarrow> ('a) cp_state_scheme \<Rightarrow> ('a) cp_state_scheme \<Rightarrow> bool" where
  "made rt cx id_p size_n cb p s s' \<longleftrightarrow>
     cx_private s' = (cx_private s)(cx \<mapsto> entries s cx @
       [\<lparr>e_cx = (if id_p \<noteq> NULL then cx else rt), e_id = id_p, e_cb = cb, e_storage = p\<rparr>])
     \<and> (p = NULL \<and> dom (blocks s') = dom (blocks s) \<and> next_block s' = next_block s
        \<or> p \<noteq> NULL \<and> size_n \<noteq> 0 \<and> p = next_block s \<and> next_block s' = Suc (next_block s)
          \<and> dom (blocks s') = insert p (dom (blocks s))
          \<and> (cb = NULL \<longrightarrow> blocks s' p = Some (replicate size_n 0)))
     \<and> cb_calls s' = cb_calls s @ (if cb = NULL then [] else [(cb, cx, JSCONTEXT_NEW)])"

lemma made_entries:
  "made rt cx id_p size_n cb p s s' \<Longrightarrow> entries s' cx' =
    (if cx' = cx then entries s cx @ [\<lparr>e_cx = (if id_p \<noteq> NULL then cx else rt), e_id = id_p, e_cb = cb, e_storage = p\<rparr>]
     else entries s cx')"
  by (simp add: made_def entries_def)

lemma book_block:
  "book_ok rt s \<Longrightarrow> p \<in> set (storages (entries s cx)) \<Longrightarrow> p \<noteq> NULL \<and> p < next_block s \<and> blocks s p \<noteq> None"
proof -
  assume b: "book_ok rt s" "p \<in> set (storages (entries s cx))"
  then have "p \<in> dom (blocks s)" by (auto simp: book_ok_def)
  moreover have "\<forall>q \<ge> next_block s. blocks s q = None" using b(1) by (simp add: book_ok_def)
  ultimately show ?thesis using b(2) by (auto simp: storages_def domIff not_less [symmetric])
qed

lemma book_owners:
  "book_ok rt s \<Longrightarrow> find_entry cx id_p (entries s cx) = None \<Longrightarrow> id_p \<noteq> NULL \<Longrightarrow>
   id_p \<notin> set (owners (entries s cx))"
  by (rule find_entry_owner [where rt = rt and cx = cx]) (auto simp: book_ok_def)

lemma made_book:
  assumes b: "book_ok rt s" and m: "made rt cx id_p size_n cb p s s'"
    and f: "id_p \<noteq> NULL \<Longrightarrow> find_entry cx id_p (entries s cx) = None"
  shows "book_ok rt s'"
proof -
  note en = made_entries [OF m]
  have own: "id_p \<noteq> NULL \<Longrightarrow> id_p \<notin> set (owners (entries s cx))" using book_owners [OF b f] by simp
  have new: "p \<noteq> NULL \<Longrightarrow> p = next_block s \<and> next_block s' = Suc (next_block s)"
    "p = NULL \<Longrightarrow> next_block s' = next_block s"
    and dom: "dom (blocks s') = set (if p = NULL then [] else [p]) \<union> dom (blocks s)"
    using m by (auto simp: made_def)
  have st: "set (storages (entries s' cx')) = (if cx' = cx \<and> p \<noteq> NULL then {p} else {}) \<union> set (storages (entries s cx'))"
    for cx' by (auto simp: en storages_def)
  have fresh: "p \<noteq> NULL \<Longrightarrow> p \<notin> set (storages (entries s cx'))" for cx'
    using book_block [OF b, of p cx'] new by auto
  have top: "blocks s q = None" if "q \<ge> next_block s" for q using b that by (simp add: book_ok_def)
  have old: "distinct (owners (entries s c))" "distinct (storages (entries s c))"
    "\<forall>x \<in> set (entries s c). e_cx x = (if e_id x = NULL then rt else c)"
    "c \<noteq> c' \<Longrightarrow> set (storages (entries s c)) \<inter> set (storages (entries s c')) = {}" for c c'
    using b by (simp_all add: book_ok_def)
  have "distinct (owners (entries s' c))" "distinct (storages (entries s' c))"
    "\<forall>x \<in> set (entries s' c). e_cx x = (if e_id x = NULL then rt else c)" for c
    using old [of c] own fresh by (auto simp: en owners_def storages_def)
  moreover have "c \<noteq> c' \<Longrightarrow> set (storages (entries s' c)) \<inter> set (storages (entries s' c')) = {}" for c c'
    using old(4) [of c c'] fresh by (auto simp: st)
  moreover have "dom (blocks s') = (\<Union>c. set (storages (entries s' c)))"
    using b dom by (auto simp: st book_ok_def split: if_splits)
  moreover have "blocks s' q = None" if "q \<ge> next_block s'" for q
  proof -
    have "q \<notin> dom (blocks s')" using that new top by (cases "p = NULL") (auto simp: dom domIff)
    then show ?thesis by auto
  qed
  moreover have "0 < next_block s'" using b new by (cases "p = NULL") (auto simp: book_ok_def)
  ultimately show ?thesis unfolding book_ok_def by blast
qed

lemma made_private:
  assumes "made rt cx id_p size_n cb p s s'" and "id_p \<noteq> NULL" and "find_entry cx id_p (entries s cx) = None"
  shows "private_of s' cx id_p = Some p"
  using assms by (simp add: private_of_def made_entries find_entry_append) (simp add: find_entry_def)

lemma made_private_other:
  assumes "made rt cx id_p size_n cb p s s'" and "(cx', id') \<noteq> (cx, id_p)" and "id' \<noteq> NULL"
  shows "private_of s' cx' id' = private_of s cx' id'"
  using assms by (simp add: private_of_def made_entries find_entry_append)
    (auto simp: find_entry_def split: option.split)

context context_callbacks
begin

lemma new_entry_ok:
  assumes "ainv s" and "hnd = entries s cx" and "0 < next_block s"
  shows "\<exists>p s'. (malloc_ok e (cp_clock s) \<longrightarrow> new_entry e cx id_p size_n cb hnd s = Some (if id_p = NULL then cb else p, s'))
    \<and> (\<not> malloc_ok e (cp_clock s) \<longrightarrow> new_entry e cx id_p size_n cb hnd s = None)
    \<and> made (cp_runtime e) cx id_p size_n cb p s s' \<and> ainv s'
    \<and> ((\<forall>n. malloc_ok e n) \<longrightarrow> size_n \<noteq> 0 \<longrightarrow> p \<noteq> NULL)"
proof -
  obtain p s2 where a: "(if size_n \<noteq> 0 then malloc_zero e size_n (s\<lparr>cp_clock := Suc (cp_clock s)\<rparr>)
      else (NULL, s\<lparr>cp_clock := Suc (cp_clock s)\<rparr>)) = (p, s2)" by fastforce
  let ?x = "\<lparr>e_cx = (if id_p \<noteq> NULL then cx else cp_runtime e), e_id = id_p, e_cb = cb, e_storage = p\<rparr>"
  let ?s = "s2\<lparr>cx_private := (cx_private s2)(cx \<mapsto> hnd @ [?x])\<rparr>"
  have s2: "cp_state.more s2 = cp_state.more s" "cx_private s2 = cx_private s" "cb_calls s2 = cb_calls s"
    "next_block s \<le> next_block s2"
    "p = NULL \<and> dom (blocks s2) = dom (blocks s) \<and> next_block s2 = next_block s
     \<or> size_n \<noteq> 0 \<and> p = next_block s \<and> next_block s2 = Suc (next_block s)
       \<and> dom (blocks s2) = insert p (dom (blocks s)) \<and> blocks s2 p = Some (replicate size_n 0)"
    using a by (auto simp: malloc_zero_def malloc_try_def split: if_splits)
  have got: "(\<forall>n. malloc_ok e n) \<longrightarrow> size_n \<noteq> 0 \<longrightarrow> p = next_block s"
    using a by (auto simp: malloc_zero_def malloc_try_def split: if_splits)
  have i: "ainv ?s" by (rule inv_more [OF assms(1)]) (simp_all add: s2)
  obtain s3 where s3: "(if cb \<noteq> NULL then call_cb e cb cx JSCONTEXT_NEW ?s else Some ?s) = Some s3" "ainv s3"
    "cx_private s3 = cx_private ?s" "dom (blocks s3) = dom (blocks ?s)" "next_block s3 = next_block ?s"
    "cb_calls s3 = cb_calls s @ (if cb = NULL then [] else [(cb, cx, JSCONTEXT_NEW)])"
    "cb = NULL \<longrightarrow> s3 = ?s"
  proof (cases "cb = NULL")
    case True
    with i that [of ?s] show ?thesis by (simp add: s2)
  next
    case False
    with call_ok [OF i, of cb cx JSCONTEXT_NEW] that show ?thesis by (auto simp: s2)
  qed
  have m: "made (cp_runtime e) cx id_p size_n cb p s s3"
    unfolding made_def using s3 s2 assms(2,3) by auto
  show ?thesis
  proof (intro exI conjI)
    show "malloc_ok e (cp_clock s) \<longrightarrow> new_entry e cx id_p size_n cb hnd s = Some (if id_p = NULL then cb else p, s3)"
      using s3(1) by (cases "malloc_ok e (cp_clock s)")
        (simp_all only: new_entry_def malloc_try_def prod.case a Let_def not_True_eq_False if_False
          option.map simp_thms)
    show "\<not> malloc_ok e (cp_clock s) \<longrightarrow> new_entry e cx id_p size_n cb hnd s = None"
      by (simp add: new_entry_def malloc_try_def)
  qed (use m s3(2) got assms(3) in auto)
qed

end

context context_callbacks
begin

lemma new_entry_cases:
  assumes "ainv s" and "hnd = entries s cx" and "0 < next_block s"
  shows "(\<exists>p s'. new_entry e cx id_p size_n cb hnd s = Some (if id_p = NULL then cb else p, s')
      \<and> made (cp_runtime e) cx id_p size_n cb p s s' \<and> ainv s'
      \<and> ((\<forall>n. malloc_ok e n) \<longrightarrow> size_n \<noteq> 0 \<longrightarrow> p \<noteq> NULL))
    \<or> (\<exists>n. \<not> malloc_ok e n) \<and> new_entry e cx id_p size_n cb hnd s = None"
proof (cases "malloc_ok e (cp_clock s)")
  case True
  with new_entry_ok [OF assms, of id_p size_n cb] show ?thesis by (intro disjI1) meson
next
  case False
  with new_entry_ok [OF assms, of id_p size_n cb] show ?thesis by (intro disjI2) meson
qed

lemma get_ok:
  assumes "ainv s" and "0 < next_block s"
  shows "(\<exists>x. find_entry cx id_p (entries s cx) = Some x
      \<and> gpsee_getContextPrivate e cx id_p size_n cb s = Some (e_storage x, s))
    \<or> find_entry cx id_p (entries s cx) = None \<and>
      ((\<exists>p s'. gpsee_getContextPrivate e cx id_p size_n cb s = Some (if id_p = NULL then cb else p, s')
          \<and> made (cp_runtime e) cx id_p size_n cb p s s' \<and> ainv s'
          \<and> ((\<forall>n. malloc_ok e n) \<longrightarrow> size_n \<noteq> 0 \<longrightarrow> p \<noteq> NULL))
       \<or> (\<exists>n. \<not> malloc_ok e n) \<and>
         (gpsee_getContextPrivate e cx id_p size_n cb s = None
          \<or> (\<exists>s'. gpsee_getContextPrivate e cx id_p size_n cb s = Some (NULL, s') \<and> ainv s'
              \<and> cx_private s' = cx_private s \<and> blocks s' = blocks s \<and> next_block s' = next_block s
              \<and> cb_calls s' = cb_calls s)))"
proof (cases "cx_private s cx")
  case (Some hnd)
  then have en: "entries s cx = hnd" by (simp add: entries_def)
  show ?thesis
  proof (cases "find_entry cx id_p hnd")
    case None
    with Some have g: "gpsee_getContextPrivate e cx id_p size_n cb s = new_entry e cx id_p size_n cb hnd s"
      by (simp add: gpsee_getContextPrivate_def)
    from new_entry_cases [OF assms(1) en [symmetric] assms(2), of id_p size_n cb] show ?thesis
      unfolding g en by (elim disjE) (use None in simp_all)
  qed (simp add: gpsee_getContextPrivate_def Some en)
next
  case None
  then have en: "entries s cx = []" by (simp add: entries_def)
  have f: "find_entry cx id_p [] = None" by (simp add: find_entry_def)
  let ?later = "s\<lparr>cp_clock := Suc (cp_clock s)\<rparr>"
  let ?s = "?later\<lparr>cx_private := (cx_private s)(cx \<mapsto> []), cx_callback_set := True\<rparr>"
  show ?thesis
  proof (cases "malloc_ok e (cp_clock s)")
    case True
    then have g: "gpsee_getContextPrivate e cx id_p size_n cb s = new_entry e cx id_p size_n cb [] ?s"
      by (simp add: gpsee_getContextPrivate_def None malloc_try_def f)
    have "ainv ?s" by (rule inv_more [OF assms(1)]) simp_all
    moreover have "entries ?s cx = []" "0 < next_block ?s" using assms(2) by (simp_all add: entries_def)
    moreover have "made r cx id_p size_n cb p ?s s' = made r cx id_p size_n cb p s s'" for r p s'
      by (simp add: made_def entries_def None)
    ultimately have "(\<exists>p s'. new_entry e cx id_p size_n cb [] ?s = Some (if id_p = NULL then cb else p, s')
      \<and> made (cp_runtime e) cx id_p size_n cb p s s' \<and> ainv s'
      \<and> ((\<forall>n. malloc_ok e n) \<longrightarrow> size_n \<noteq> 0 \<longrightarrow> p \<noteq> NULL))
    \<or> (\<exists>n. \<not> malloc_ok e n) \<and> new_entry e cx id_p size_n cb [] ?s = None"
      using new_entry_cases [of ?s "[]" cx id_p size_n cb] by metis
    then show ?thesis unfolding g en by (elim disjE) (use f in simp_all)
  next
    case False
    have "ainv ?later" by (rule inv_more [OF assms(1)]) simp_all
    moreover have "gpsee_getContextPrivate e cx id_p size_n cb s = Some (NULL, ?later)"
      using False by (simp add: gpsee_getContextPrivate_def None malloc_try_def)
    ultimately show ?thesis unfolding en using False f by auto
  qed
qed

lemma destroy_ok:
  assumes "ainv s" and b: "book_ok rt s"
  shows "\<exists>s'. gpsee_contextCallback e cx JSCONTEXT_DESTROY s = Some (True, s') \<and> ainv s'
    \<and> cx_private s' = (cx_private s)(cx := None)
    \<and> dom (blocks s') = dom (blocks s) - set (storages (entries s cx)) \<and> next_block s' = next_block s
    \<and> cb_calls s' = cb_calls s @ map (\<lambda>cb. (cb, cx, JSCONTEXT_DESTROY)) (callbacks_of (entries s cx))"
proof (cases "cx_private s cx")
  case None
  then have "(cx_private s)(cx := None) = cx_private s" by auto
  with None assms show ?thesis
    by (simp add: gpsee_contextCallback_def gpsee_destroyContextPrivate_def entries_def storages_def callbacks_of_def)
next
  case (Some hnd)
  then have en: "entries s cx = hnd" by (simp add: entries_def)
  from destroy_calls_ok [OF assms(1) Some, of 0] obtain s1 where d:
    "destroy_calls e cx 0 s = Some s1" "ainv s1" "cx_private s1 = cx_private s" "dom (blocks s1) = dom (blocks s)"
    "next_block s1 = next_block s"
    "cb_calls s1 = cb_calls s @ map (\<lambda>cb. (cb, cx, JSCONTEXT_DESTROY)) (callbacks_of hnd)" unfolding drop_0 by blast
  have "distinct (storages hnd)" "set (storages hnd) \<subseteq> dom (blocks s1)"
    using b book_block [OF b, of _ cx] by (auto simp: book_ok_def en [symmetric] d(4))
  from free_storages_ok [OF this] have
    f: "free_storages hnd s1 = Some (s1\<lparr>blocks := blocks s1 |` (- set (storages hnd))\<rparr>)" .
  let ?s = "s1\<lparr>blocks := blocks s1 |` (- set (storages hnd)), cx_private := (cx_private s)(cx := None)\<rparr>"
  have "gpsee_contextCallback e cx JSCONTEXT_DESTROY s = Some (True, ?s)"
    using d f by (simp add: gpsee_contextCallback_def gpsee_destroyContextPrivate_def Some)
  moreover have "ainv ?s" by (rule inv_more [OF d(2)]) simp_all
  ultimately show ?thesis using d en by (auto simp: Diff_eq)
qed

end

lemma UN_minus:
  assumes "\<And>c. c \<noteq> a \<Longrightarrow> S c \<inter> S a = {}"
  shows "(\<Union>c. S c) - S a = (\<Union>c. if c = a then {} else S c)"
proof (intro set_eqI iffI)
  fix x
  assume "x \<in> (\<Union>c. S c) - S a"
  then obtain c where "x \<in> S c" "c \<noteq> a" by auto
  then show "x \<in> (\<Union>c. if c = a then {} else S c)" by auto
next
  fix x
  assume "x \<in> (\<Union>c. if c = a then {} else S c)"
  then obtain c where c: "x \<in> S c" "c \<noteq> a" by (auto split: if_splits)
  with assms [OF c(2)] show "x \<in> (\<Union>c. S c) - S a" by auto
qed

lemma book_destroyed:
  assumes b: "book_ok rt s" and c: "cx_private s' = (cx_private s)(cx := None)"
    and d: "dom (blocks s') = dom (blocks s) - set (storages (entries s cx))" and n: "next_block s' = next_block s"
  shows "book_ok rt s'"
proof -
  have en: "entries s' c = (if c = cx then [] else entries s c)" for c by (simp add: entries_def c)
  have "blocks s' q = None" if "q \<ge> next_block s'" for q
  proof -
    have "blocks s q = None" using b that n by (simp add: book_ok_def)
    then have "q \<notin> dom (blocks s)" by (simp add: domIff)
    then show ?thesis using d by blast
  qed
  moreover have "dom (blocks s') = (\<Union>c. set (storages (entries s' c)))"
  proof -
    have "dom (blocks s) = (\<Union>c. set (storages (entries s c)))"
      "\<And>c. c \<noteq> cx \<Longrightarrow> set (storages (entries s c)) \<inter> set (storages (entries s cx)) = {}"
      using b unfolding book_ok_def by blast+
    then have "dom (blocks s) - set (storages (entries s cx))
        = (\<Union>c. if c = cx then {} else set (storages (entries s c)))"
      using UN_minus [of cx "\<lambda>c. set (storages (entries s c))"] by metis
    moreover have "set (storages (entries s' c)) = (if c = cx then {} else set (storages (entries s c)))" for c
      by (simp add: en storages_def)
    ultimately show ?thesis unfolding d by simp
  qed
  ultimately show ?thesis
    using b n by (simp add: book_ok_def en) (simp add: owners_def storages_def)
qed

section \<open>Histories\<close>

datatype cp_op = GetPrivate ptr ptr nat ptr | DestroyContext ptr

fun cp_exec ::
    "(('a) cp_state_scheme, 'e) cp_env_scheme \<Rightarrow> cp_op list \<Rightarrow> ('a) cp_state_scheme \<Rightarrow> ('a) cp_state_scheme option" where
  "cp_exec e [] s = Some s"
| "cp_exec e (GetPrivate cx id_p size_n cb # ops) s =
     (case gpsee_getContextPrivate e cx id_p size_n cb s of None \<Rightarrow> None | Some (p, s) \<Rightarrow> cp_exec e ops s)"
| "cp_exec e (DestroyContext cx # ops) s =
     (case gpsee_contextCallback e cx JSCONTEXT_DESTROY s of None \<Rightarrow> None | Some (ok, s) \<Rightarrow> cp_exec e ops s)"

fun contexts_used :: "cp_op list \<Rightarrow> ptr set" where
  "contexts_used [] = {}"
| "contexts_used (GetPrivate cx id_p size_n cb # ops) = insert cx (contexts_used ops)"
| "contexts_used (DestroyContext cx # ops) = contexts_used ops"

text \<open>A callback was told of the start of a context once for each pair that still names it and for
  each time it was told of the context's end.\<close>

definition tallied :: "('a) cp_state_scheme \<Rightarrow> bool" where
  "tallied s \<longleftrightarrow> (\<forall>cx cb. count_list (cb_calls s) (cb, cx, JSCONTEXT_NEW)
     = count_list (cb_calls s) (cb, cx, JSCONTEXT_DESTROY) + count_list (callbacks_of (entries s cx)) cb)"

lemma count_map_destroy:
  "count_list (map (\<lambda>cb. (cb, cx, JSCONTEXT_DESTROY)) xs) (cb', cx', contextOp) =
    (if cx' = cx \<and> contextOp = JSCONTEXT_DESTROY then count_list xs cb' else 0)"
  by (induction xs) auto

lemma made_tallied:
  assumes "tallied s" and m: "made rt cx id_p size_n cb p s s'"
  shows "tallied s'"
proof -
  have "cb_calls s' = cb_calls s @ (if cb = NULL then [] else [(cb, cx, JSCONTEXT_NEW)])"
    using m by (simp add: made_def)
  with assms(1) show ?thesis
    unfolding tallied_def by (auto simp: made_entries [OF m] callbacks_of_def)
qed

lemma destroyed_tallied:
  assumes "tallied s" and "cx_private s' = (cx_private s)(cx := None)"
    and "cb_calls s' = cb_calls s @ map (\<lambda>cb. (cb, cx, JSCONTEXT_DESTROY)) (callbacks_of (entries s cx))"
  shows "tallied s'"
proof -
  have "entries s' c = (if c = cx then [] else entries s c)" for c by (simp add: entries_def assms(2))
  with assms(1,3) show ?thesis by (auto simp: tallied_def count_map_destroy callbacks_of_def)
qed

context context_callbacks
begin

definition kept :: "('a) cp_state_scheme \<Rightarrow> bool" where
  "kept s \<longleftrightarrow> ainv s \<and> book_ok (cp_runtime e) s \<and> tallied s"

lemma get_kept:
  assumes "kept s" and "\<forall>n. malloc_ok e n"
  shows "\<exists>p s'. gpsee_getContextPrivate e cx id_p size_n cb s = Some (p, s') \<and> kept s'
    \<and> (\<forall>c. c \<noteq> cx \<longrightarrow> entries s' c = entries s c)"
proof -
  have s: "ainv s" "0 < next_block s" "book_ok (cp_runtime e) s" "tallied s"
    using assms(1) by (auto simp: kept_def book_ok_def)
  from get_ok [OF s(1,2), of cx id_p size_n cb] assms(2) consider
    "\<exists>q. gpsee_getContextPrivate e cx id_p size_n cb s = Some (q, s)"
  | p s' where "find_entry cx id_p (entries s cx) = None" "ainv s'"
      "gpsee_getContextPrivate e cx id_p size_n cb s = Some (if id_p = NULL then cb else p, s')"
      "made (cp_runtime e) cx id_p size_n cb p s s'" by auto
  then show ?thesis
  proof cases
    case 2
    with made_book [OF s(3) 2(4)] made_tallied [OF s(4) 2(4)] show ?thesis
      by (auto simp: kept_def made_entries [OF 2(4)])
  qed (use assms(1) in auto)
qed

lemma destroy_kept:
  assumes "kept s"
  shows "\<exists>s'. gpsee_contextCallback e cx JSCONTEXT_DESTROY s = Some (True, s') \<and> kept s'
    \<and> (\<forall>c. entries s' c = (if c = cx then [] else entries s c))"
proof -
  have s: "ainv s" "book_ok (cp_runtime e) s" "tallied s" using assms by (simp_all add: kept_def)
  from destroy_ok [OF s(1,2), of cx] obtain s' where d:
    "gpsee_contextCallback e cx JSCONTEXT_DESTROY s = Some (True, s')" "ainv s'"
    "cx_private s' = (cx_private s)(cx := None)"
    "dom (blocks s') = dom (blocks s) - set (storages (entries s cx))" "next_block s' = next_block s"
    "cb_calls s' = cb_calls s @ map (\<lambda>cb. (cb, cx, JSCONTEXT_DESTROY)) (callbacks_of (entries s cx))" by blast
  with book_destroyed [OF s(2) d(3-5)] destroyed_tallied [OF s(3) d(3,6)] show ?thesis
    by (auto simp: kept_def entries_def)
qed

lemma exec_kept:
  assumes "kept s" and "\<forall>n. malloc_ok e n"
  shows "\<exists>s'. cp_exec e ops s = Some s' \<and> kept s'
    \<and> (\<forall>c. c \<notin> contexts_used ops \<longrightarrow> entries s c = [] \<longrightarrow> entries s' c = [])"
  using assms(1)
proof (induction ops arbitrary: s)
  case (Cons op ops)
  show ?case
  proof (cases op)
    case (GetPrivate cx id_p size_n cb)
    with get_kept [OF Cons.prems assms(2), of cx id_p size_n cb] Cons.IH show ?thesis by fastforce
  next
    case (DestroyContext cx)
    with destroy_kept [OF Cons.prems, of cx] Cons.IH show ?thesis by fastforce
  qed
qed simp

lemma exec_destroys:
  assumes "kept s"
  shows "\<exists>s'. cp_exec e (map DestroyContext cxs) s = Some s' \<and> kept s'
    \<and> (\<forall>c. entries s' c = (if c \<in> set cxs then [] else entries s c))"
  using assms
proof (induction cxs arbitrary: s)
  case (Cons cx cxs)
  from destroy_kept [OF Cons.prems, of cx] Cons.IH show ?case by fastforce
qed simp

end

section \<open>Properties\<close>

text \<open>C20: The storage of a pair of a context and an owner is found again, unchanged, once it was made;
  the first request makes a live block that no other pair has, cleared to zeroes, and fails only
  if memory does; the storage of every other pair is left alone.\<close>

theorem private_storage_is_unique:
  assumes "context_callbacks e ainv" and "ainv s" and "book_ok (cp_runtime e) s" and "id_p \<noteq> NULL"
    and "gpsee_getContextPrivate e cx id_p size_n cb s = Some (p, s')"
  shows "ainv s' \<and> book_ok (cp_runtime e) s'
    \<and> (\<forall>cx' id'. id' \<noteq> NULL \<longrightarrow> (cx', id') \<noteq> (cx, id_p) \<longrightarrow> private_of s' cx' id' = private_of s cx' id')
    \<and> (case private_of s cx id_p of
         Some q \<Rightarrow> p = q \<and> s' = s
       | None \<Rightarrow>
           (p \<noteq> NULL \<longrightarrow> private_of s' cx id_p = Some p \<and> blocks s p = None \<and> blocks s' p \<noteq> None
              \<and> (cb = NULL \<longrightarrow> blocks s' p = Some (replicate size_n 0)))
           \<and> ((\<forall>n. malloc_ok e n) \<longrightarrow> private_of s' cx id_p = Some p \<and> (size_n \<noteq> 0 \<longrightarrow> p \<noteq> NULL)))"
proof -
  have n: "0 < next_block s" using assms(3) by (simp add: book_ok_def)
  from context_callbacks.get_ok [OF assms(1,2) n, of cx id_p size_n cb] assms(4,5) consider
    x where "find_entry cx id_p (entries s cx) = Some x" "p = e_storage x" "s' = s"
  | "find_entry cx id_p (entries s cx) = None" "ainv s'" "made (cp_runtime e) cx id_p size_n cb p s s'"
      "(\<forall>n. malloc_ok e n) \<longrightarrow> size_n \<noteq> 0 \<longrightarrow> p \<noteq> NULL"
  | m where "find_entry cx id_p (entries s cx) = None" "\<not> malloc_ok e m" "p = NULL" "ainv s'"
      "cx_private s' = cx_private s" "blocks s' = blocks s" "next_block s' = next_block s" by auto
  then show ?thesis
  proof cases
    case 1
    then show ?thesis using assms by (simp add: private_of_def)
  next
    case 2
    have "private_of s cx id_p = None" using 2(1) by (simp add: private_of_def)
    moreover have "book_ok (cp_runtime e) s'" using made_book [OF assms(3) 2(3)] 2(1) by blast
    moreover have "p \<noteq> NULL \<Longrightarrow> blocks s p = None \<and> blocks s' p \<noteq> None
        \<and> (cb = NULL \<longrightarrow> blocks s' p = Some (replicate size_n 0))"
      using 2(3) assms(3) by (auto simp: made_def book_ok_def)
    ultimately show ?thesis
      using made_private [OF 2(3) assms(4) 2(1)] made_private_other [OF 2(3)] 2(2,4) by simp
  next
    case 3
    have en: "entries s' c = entries s c" for c by (simp add: entries_def 3(5))
    have "book_ok (cp_runtime e) s'" using assms(3) 3(6,7) by (simp add: book_ok_def en)
    with 3 show ?thesis by (auto simp: private_of_def en)
  qed
qed

text \<open>C21: Over any history of a runtime in which every context is destroyed in the end, each callback
  is told as often of the end of a context as of its start, and no block of memory is left.\<close>

theorem context_lifecycle:
  assumes "context_callbacks e ainv" and "ainv s" and "\<forall>n. malloc_ok e n"
    and "cx_private s = (\<lambda>cx. None)" and "blocks s = (\<lambda>p. None)" and "0 < next_block s" and "cb_calls s = []"
    and "contexts_used ops \<subseteq> set cxs"
  shows "\<exists>s'. cp_exec e (ops @ map DestroyContext cxs) s = Some s' \<and> blocks s' = (\<lambda>p. None)
    \<and> (\<forall>cb cx. count_list (cb_calls s') (cb, cx, JSCONTEXT_NEW) = count_list (cb_calls s') (cb, cx, JSCONTEXT_DESTROY))"
proof -
  note k = context_callbacks.kept_def [OF assms(1)]
  have en: "entries s c = []" for c by (simp add: entries_def assms(4))
  have "context_callbacks.kept e ainv s"
    using assms(2,5-7) by (simp add: k book_ok_def tallied_def en owners_def storages_def callbacks_of_def)
  from context_callbacks.exec_kept [OF assms(1) this assms(3), of ops] en obtain s1 where
    1: "cp_exec e ops s = Some s1" "context_callbacks.kept e ainv s1" "\<forall>c. c \<notin> contexts_used ops \<longrightarrow> entries s1 c = []"
    by auto
  from context_callbacks.exec_destroys [OF assms(1) 1(2), of cxs] obtain s2 where
    2: "cp_exec e (map DestroyContext cxs) s1 = Some s2" "context_callbacks.kept e ainv s2"
    "\<forall>c. entries s2 c = (if c \<in> set cxs then [] else entries s1 c)" by blast
  have e2: "entries s2 c = []" for c using 1(3) 2(3) assms(8) by auto
  have "cp_exec e (ops @ ops') s = Option.bind (cp_exec e ops s) (cp_exec e ops')" for ops'
    by (induction e ops s rule: cp_exec.induct) (auto split: option.split)
  moreover have "blocks s2 = (\<lambda>p. None)"
    using 2(2) by (simp add: k book_ok_def e2 storages_def)
  moreover have "\<forall>cb cx. count_list (cb_calls s2) (cb, cx, JSCONTEXT_NEW) = count_list (cb_calls s2) (cb, cx, JSCONTEXT_DESTROY)"
    using 2(2) by (simp add: k tallied_def e2 callbacks_of_def)
  ultimately show ?thesis using 1(1) 2(1) by simp
qed

section \<open>Witnesses\<close>

definition plain_env :: "cp_state cp_env" where
  "plain_env = \<lparr>cp_runtime = 1, malloc_ok = (\<lambda>n. True), run_cb = (\<lambda>cb cx contextOp s. Some s)\<rparr>"

definition no_private :: cp_state where
  "no_private = \<lparr>cx_private = (\<lambda>cx. None), cx_callback_set = False, blocks = (\<lambda>p. None), next_block = 1,
     cp_clock = 0, cb_calls = []\<rparr>"

interpretation plain: context_callbacks plain_env "\<lambda>s. True"
  by unfold_locales (auto simp: plain_env_def)

theorem private_storage_is_unique_witness:
  "\<exists>s'. gpsee_getContextPrivate plain_env 8 5 2 0 no_private = Some (1, s')
     \<and> private_of s' 8 5 = Some 1 \<and> blocks s' 1 = Some [0, 0]"
proof -
  have n: "entries no_private c = []" "private_of no_private c i = None" for c i
    by (simp_all add: entries_def no_private_def private_of_def find_entry_def)
  have b: "book_ok (cp_runtime plain_env) no_private"
    by (simp add: book_ok_def n owners_def storages_def) (simp add: no_private_def)
  have "\<exists>s'. gpsee_getContextPrivate plain_env 8 5 2 0 no_private = Some (1, s')"
    by (simp add: gpsee_getContextPrivate_def no_private_def find_entry_def new_entry_def malloc_try_def
        malloc_zero_def plain_env_def)
  then obtain s' where g: "gpsee_getContextPrivate plain_env 8 5 2 0 no_private = Some (1, s')" by blast
  have r: "replicate 2 (0 :: byte) = [0, 0]" by (simp add: numeral_2_eq_2)
  from private_storage_is_unique [OF plain.context_callbacks_axioms _ b _ g] g r show ?thesis
    by (simp add: n)
qed

theorem context_lifecycle_witness:
  "\<exists>s'. cp_exec plain_env ([GetPrivate 8 5 2 9, GetPrivate 16 5 2 9, GetPrivate 8 6 0 7, DestroyContext 8]
        @ map DestroyContext [8, 16]) no_private = Some s' \<and> blocks s' = (\<lambda>p. None)
    \<and> (\<forall>cb cx. count_list (cb_calls s') (cb, cx, JSCONTEXT_NEW) = count_list (cb_calls s') (cb, cx, JSCONTEXT_DESTROY))"
  by (rule context_lifecycle [OF plain.context_callbacks_axioms]) (simp_all add: plain_env_def no_private_def)

end
