(* ===== verification/AsyncCallbacks.thy ===== *)
theory AsyncCallbacks
  imports ContextPrivate "HOL-Library.Multiset"
begin

text \<open>
  The asynchronous callbacks of gpsee.c: a linked list of closures, sorted by context, that
  the operation callback of a context runs and that a thread triggers.  The list lives in
  \<open>nodes\<close>, its head is \<open>asyncCallbacks\<close>; a pointer to a link (\<open>pp\<close>, \<open>cb\<close>, \<open>cc\<close> in
  the code) is the node that holds the link, or \<open>None\<close> for the head.

  The state extends that of the private storage: a context is told through its private
  storage that it dies, and its callbacks are then removed.  The value \<open>None\<close> of an
  operation stands for an invalid pointer that is followed or freed, for the end of the
  process, or for a walk over a list that does not end.  The lock is held over each
  operation; a thread that walks the list without it is not modelled.
\<close>

section \<open>State\<close>

record async_node =
  a_cx :: ptr
  a_callback :: ptr
  a_userdata :: ptr
  a_next :: ptr

record async_state = cp_state +
  asyncCallbacks :: ptr
  nodes :: "ptr \<Rightarrow> async_node option"
  operation_set :: "ptr \<Rightarrow> bool"
  triggered :: "ptr list"

record 's async_env = "'s cp_env" +
  async_id :: ptr
  async_cb :: ptr
  run_async :: "ptr \<Rightarrow> ptr \<Rightarrow> ptr \<Rightarrow> ptr \<Rightarrow> 's \<Rightarrow> (bool \<times> 's) option"

section \<open>Links\<close>

partial_function (option) find_link ::
    "(async_node \<Rightarrow> bool) \<Rightarrow> (ptr \<Rightarrow> async_node option) \<Rightarrow> ptr option \<Rightarrow> ptr \<Rightarrow> (ptr option \<times> ptr) option" where
  "find_link stop ns prev p =
     (if p = NULL then Some (prev, p)
      else case ns p of
             None \<Rightarrow> None
           | Some n \<Rightarrow> if stop n then Some (prev, p) else find_link stop ns (Some p) (a_next n))"

definition set_link :: "ptr option \<Rightarrow> ptr \<Rightarrow> ('a) async_state_scheme \<Rightarrow> ('a) async_state_scheme option" where
  "set_link link q s =
     (case link of
        None \<Rightarrow> Some (s\<lparr>asyncCallbacks := q\<rparr>)
      | Some p \<Rightarrow> map_option (\<lambda>n. s\<lparr>nodes := (nodes s)(p \<mapsto> n\<lparr>a_next := q\<rparr>)\<rparr>) (nodes s p))"

definition free_node :: "ptr \<Rightarrow> ('a) async_state_scheme \<Rightarrow> ('a) async_state_scheme option" where
  "free_node p s = (case nodes s p of None \<Rightarrow> None | Some n \<Rightarrow> Some (s\<lparr>nodes := (nodes s)(p := None)\<rparr>))"

section \<open>Operations\<close>

definition gpsee_addAsyncCallback ::
    "(('a) async_state_scheme, 'e) async_env_scheme \<Rightarrow> ptr \<Rightarrow> ptr \<Rightarrow> ptr \<Rightarrow> ('a) async_state_scheme \<Rightarrow>
     (ptr \<times> ('a) async_state_scheme) option" where
  "gpsee_addAsyncCallback e cx callback userdata s =
     (case malloc_try e s of (ok, s) \<Rightarrow>
      if \<not> ok then Some (NULL, s)
      else
        let newcb = next_block s; s = s\<lparr>next_block := Suc newcb\<rparr> in
        Option.bind (find_link (\<lambda>n. \<not> a_cx n > cx) (nodes s) None (asyncCallbacks s)) (\<lambda>(pp, q).
        let s = s\<lparr>nodes := (nodes s)(newcb \<mapsto>
                    \<lparr>a_cx = cx, a_callback = callback, a_userdata = userdata, a_next = q\<rparr>)\<rparr> in
        Option.bind (set_link pp newcb s) (\<lambda>s.
        Option.bind (if q = NULL then Some True else map_option (\<lambda>n. a_cx n \<noteq> cx) (nodes s q)) (\<lambda>first.
        if first then map_option (\<lambda>(p, s). (newcb, s)) (gpsee_getContextPrivate e cx (async_id e) 0 (async_cb e) s)
        else Some (newcb, s)))))"

text \<open>The loop looks for the node before the one to be removed; when there is none, NULL is followed.\<close>

definition gpsee_removeAsyncCallback :: "ptr \<Rightarrow> ('a) async_state_scheme \<Rightarrow> ('a) async_state_scheme option" where
  "gpsee_removeAsyncCallback cbHnd s =
     Option.bind (find_link (\<lambda>n. a_next n = cbHnd) (nodes s) None (asyncCallbacks s)) (\<lambda>(_, cb).
     Option.bind (nodes s cb) (\<lambda>n.
     Option.bind (nodes s (a_next n)) (\<lambda>m.
     free_node cbHnd (s\<lparr>nodes := (nodes s)(cb \<mapsto> n\<lparr>a_next := a_next m\<rparr>)\<rparr>))))"

partial_function (option) free_segment ::
    "ptr \<Rightarrow> ptr \<Rightarrow> ('a) async_state_scheme \<Rightarrow> ('a) async_state_scheme option" where
  "free_segment cc freeme s =
     (if freeme = NULL then Some s
      else case nodes s freeme of
             None \<Rightarrow> None
           | Some n \<Rightarrow>
               (case free_node freeme s of
                  None \<Rightarrow> None
                | Some s \<Rightarrow> if freeme = cc then Some s else free_segment cc (a_next n) s))"

definition gpsee_removeAsyncCallbackContext ::
    "ptr \<Rightarrow> contextOp \<Rightarrow> ('a) async_state_scheme \<Rightarrow> (bool \<times> ('a) async_state_scheme) option" where
  "gpsee_removeAsyncCallbackContext cx contextOp s =
     (if contextOp \<noteq> JSCONTEXT_DESTROY then Some (True, s)
      else if asyncCallbacks s = NULL then Some (True, s)
      else
        Option.bind (find_link (\<lambda>n. a_cx n = cx) (nodes s) None (asyncCallbacks s)) (\<lambda>(cb, freeme).
        if freeme = NULL then Some (True, s)
        else
          Option.bind (find_link (\<lambda>n. a_cx n \<noteq> cx) (nodes s) cb freeme) (\<lambda>(cc, q).
          Option.bind (set_link cb q s) (\<lambda>s.
          map_option (Pair True) (free_segment (case cc of None \<Rightarrow> NULL | Some p \<Rightarrow> p) freeme s)))))"

partial_function (option) free_all :: "ptr \<Rightarrow> ('a) async_state_scheme \<Rightarrow> ('a) async_state_scheme option" where
  "free_all cb s =
     (if cb = NULL then Some s
      else case nodes s cb of
             None \<Rightarrow> None
           | Some n \<Rightarrow> Option.bind (free_node cb s) (free_all (a_next n)))"

definition removeAllAsyncCallbacks_unlocked :: "('a) async_state_scheme \<Rightarrow> ('a) async_state_scheme option" where
  "removeAllAsyncCallbacks_unlocked s =
     map_option (\<lambda>s. s\<lparr>asyncCallbacks := NULL\<rparr>) (free_all (asyncCallbacks s) s)"

text \<open>The link to the next node is read before the callback runs, which may remove its own node.\<close>

partial_function (option) operation_loop ::
    "(('a) async_state_scheme, 'e) async_env_scheme \<Rightarrow> ptr \<Rightarrow> ('a) async_state_scheme \<Rightarrow>
     (bool \<times> ('a) async_state_scheme) option" where
  "operation_loop e cb s =
     (if cb = NULL then Some (True, s)
      else case nodes s cb of
             None \<Rightarrow> None
           | Some n \<Rightarrow>
               (case run_async e (a_callback n) (a_cx n) (a_userdata n) cb s of
                  None \<Rightarrow> None
                | Some (ok, s) \<Rightarrow> if \<not> ok then Some (False, s) else operation_loop e (a_next n) s))"

definition gpsee_operationCallback ::
    "(('a) async_state_scheme, 'e) async_env_scheme \<Rightarrow> ptr \<Rightarrow> ('a) async_state_scheme \<Rightarrow>
     (bool \<times> ('a) async_state_scheme) option" where
  "gpsee_operationCallback e cx s =
     (let s = s\<lparr>operation_set := (operation_set s)(cx := False)\<rparr>; cb = asyncCallbacks s in
      if cb \<noteq> NULL then
        Option.bind (operation_loop e cb s) (\<lambda>(ok, s).
          if \<not> ok then Some (False, s)
          else Some (True, s\<lparr>operation_set := (operation_set s)(cx := True)\<rparr>))
      else Some (True, s))"

text \<open>One turn of the thread's loop, with the lock held.\<close>

partial_function (option) trigger_loop ::
    "ptr \<Rightarrow> ptr \<Rightarrow> ('a) async_state_scheme \<Rightarrow> ('a) async_state_scheme option" where
  "trigger_loop cx cb s =
     (if cb = NULL then Some s
      else case nodes s cb of
             None \<Rightarrow> None
           | Some n \<Rightarrow>
               if cx \<noteq> a_cx n then trigger_loop (a_cx n) (a_next n) (s\<lparr>triggered := triggered s @ [a_cx n]\<rparr>)
               else trigger_loop cx (a_next n) s)"

definition asyncCallbackTrigger_turn :: "('a) async_state_scheme \<Rightarrow> ('a) async_state_scheme option" where
  "asyncCallbackTrigger_turn s =
     (let cb = asyncCallbacks s in
      if cb \<noteq> NULL then
        Option.bind (nodes s cb) (\<lambda>n. trigger_loop (a_cx n) (a_next n) (s\<lparr>triggered := triggered s @ [a_cx n]\<rparr>))
      else Some s)"

section \<open>The list\<close>

text \<open>
  \<open>aseg ns p xs q\<close>: the links lead from \<open>p\<close> through the nodes of \<open>xs\<close>, each given with its
  context, callback and data, to \<open>q\<close>.
\<close>

type_synonym async_item = "ptr \<times> ptr \<times> ptr \<times> ptr"

abbreviation item_cx :: "async_item \<Rightarrow> ptr" where "item_cx x \<equiv> fst (snd x)"

fun aseg :: "(ptr \<Rightarrow> async_node option) \<Rightarrow> ptr \<Rightarrow> async_item list \<Rightarrow> ptr \<Rightarrow> bool" where
  "aseg ns p [] q \<longleftrightarrow> p = q"
| "aseg ns p ((r, cx, cb, ud) # xs) q \<longleftrightarrow> p = r \<and> r \<noteq> NULL \<and>
     (\<exists>n. ns r = Some n \<and> a_cx n = cx \<and> a_callback n = cb \<and> a_userdata n = ud \<and> aseg ns (a_next n) xs q)"

definition first_of :: "async_item list \<Rightarrow> ptr" where
  "first_of xs = (case xs of [] \<Rightarrow> NULL | x # _ \<Rightarrow> fst x)"

definition link_of :: "async_item list \<Rightarrow> ptr option" where
  "link_of xs = (if xs = [] then None else Some (fst (last xs)))"

lemma aseg_append: "aseg ns p (xs @ ys) q \<longleftrightarrow> (\<exists>r. aseg ns p xs r \<and> aseg ns r ys q)"
  by (induction ns p xs q rule: aseg.induct) auto

lemma aseg_frame: "(\<And>r. r \<in> fst ` set xs \<Longrightarrow> ns' r = ns r) \<Longrightarrow> aseg ns' p xs q = aseg ns p xs q"
  by (induction ns p xs q rule: aseg.induct) auto

lemma aseg_upd [simp]: "r \<notin> fst ` set xs \<Longrightarrow> aseg (ns(r := v)) p xs q = aseg ns p xs q"
  by (rule aseg_frame) auto

lemma aseg_first: "aseg ns p xs NULL \<Longrightarrow> p = first_of xs"
  by (cases xs) (auto simp: first_of_def)

lemma aseg_live: "aseg ns p xs q \<Longrightarrow> x \<in> set xs \<Longrightarrow> fst x \<noteq> NULL \<and> ns (fst x) \<noteq> None"
  by (induction ns p xs q rule: aseg.induct) auto

lemma first_of_append: "xs \<noteq> [] \<Longrightarrow> first_of (xs @ ys) = first_of xs"
  by (cases xs) (auto simp: first_of_def)

lemma link_of_Cons: "link_of (x # xs) = (if xs = [] then Some (fst x) else link_of xs)"
  by (simp add: link_of_def)

lemma find_link_spec:
  assumes "aseg ns p us q" and "\<And>x n. x \<in> set us \<Longrightarrow> ns (fst x) = Some n \<Longrightarrow> \<not> stop n"
    and "q = NULL \<or> (\<exists>n. ns q = Some n \<and> stop n)"
  shows "find_link stop ns prev p = Some (if us = [] then prev else link_of us, q)"
  using assms
proof (induction us arbitrary: p prev)
  case Nil
  then show ?case by (subst find_link.simps) auto
next
  case (Cons x us)
  obtain r cx cb ud where x: "x = (r, cx, cb, ud)" by (metis prod_cases4)
  with Cons.prems obtain n where n: "p = r" "r \<noteq> NULL" "ns r = Some n" "aseg ns (a_next n) us q" "\<not> stop n"
    by fastforce
  have "\<And>y m. y \<in> set us \<Longrightarrow> ns (fst y) = Some m \<Longrightarrow> \<not> stop m"
    using Cons.prems(2) by (meson list.set_intros(2))
  from Cons.IH [OF n(4) this Cons.prems(3), where prev = "Some r"] n show ?case
    by (subst find_link.simps) (simp add: x link_of_Cons)
qed

lemma set_link_spec:
  assumes "aseg (nodes s) (asyncCallbacks s) us q" and "distinct (map fst us)"
  shows "\<exists>s'. set_link (link_of us) r s = Some s' \<and> aseg (nodes s') (asyncCallbacks s') us r
    \<and> (\<forall>p. p \<notin> fst ` set us \<longrightarrow> nodes s' p = nodes s p) \<and> dom (nodes s') = dom (nodes s)
    \<and> (\<forall>p n. nodes s p = Some n \<longrightarrow> (\<exists>n'. nodes s' p = Some n' \<and> a_cx n' = a_cx n))
    \<and> s' = s\<lparr>asyncCallbacks := asyncCallbacks s', nodes := nodes s'\<rparr>"
proof (cases us rule: rev_cases)
  case Nil
  then show ?thesis by (simp add: link_of_def set_link_def)
next
  case (snoc ws x)
  obtain p cx cb ud where x: "x = (p, cx, cb, ud)" by (metis prod_cases4)
  from assms(1) snoc obtain n where n: "aseg (nodes s) (asyncCallbacks s) ws p" "p \<noteq> NULL" "nodes s p = Some n"
    "a_cx n = cx" "a_callback n = cb" "a_userdata n = ud" by (auto simp: aseg_append x)
  let ?s = "s\<lparr>nodes := (nodes s)(p \<mapsto> n\<lparr>a_next := r\<rparr>)\<rparr>"
  have "p \<notin> fst ` set ws" using assms(2) by (auto simp: snoc x)
  then have "aseg (nodes ?s) (asyncCallbacks ?s) us r"
    using n by (auto simp: snoc x aseg_append)
  moreover have "set_link (link_of us) r s = Some ?s" using n(3) by (simp add: set_link_def link_of_def snoc x)
  ultimately show ?thesis using n(3) by (intro exI [of _ ?s]) (auto simp: snoc x)
qed

lemma free_segment_spec:
  assumes "aseg (nodes s) p us q" and "us \<noteq> []" and "distinct (map fst us)"
  shows "free_segment (fst (last us)) p s = Some (s\<lparr>nodes := nodes s |` (- fst ` set us)\<rparr>)"
  using assms
proof (induction us arbitrary: p s)
  case (Cons x us)
  obtain r cx cb ud where x: "x = (r, cx, cb, ud)" by (metis prod_cases4)
  with Cons.prems(1) obtain n where n: "p = r" "r \<noteq> NULL" "nodes s r = Some n" "aseg (nodes s) (a_next n) us q" by auto
  let ?s = "s\<lparr>nodes := (nodes s)(r := None)\<rparr>"
  have f: "free_node r s = Some ?s" by (simp add: free_node_def n)
  show ?case
  proof (cases "us = []")
    case True
    have "(nodes s)(r := None) = nodes s |` (- {r})" by (auto simp: restrict_map_def)
    then show ?thesis by (subst free_segment.simps) (simp add: True x n f)
  next
    case False
    have r: "r \<notin> fst ` set us" using Cons.prems(3) by (simp add: x)
    then have "aseg (nodes ?s) (a_next n) us q" using n(4) by simp
    note ih = Cons.IH [OF this False]
    have "nodes ?s |` (- fst ` set us) = nodes s |` (- fst ` set (x # us))"
      by (auto simp: restrict_map_def x)
    then have "?s\<lparr>nodes := nodes ?s |` (- fst ` set us)\<rparr> = s\<lparr>nodes := nodes s |` (- fst ` set (x # us))\<rparr>"
      by (simp del: restrict_fun_upd)
    note eq = this
    have "free_segment (fst (last us)) (a_next n) ?s = Some (s\<lparr>nodes := nodes s |` (- fst ` set (x # us))\<rparr>)"
      using ih Cons.prems(3) unfolding eq by simp
    moreover have "fst (last us) \<noteq> r" using r False last_in_set [of us] by force
    ultimately show ?thesis
      by (subst free_segment.simps) (simp add: False x n f del: restrict_fun_upd)
  qed
qed simp

section \<open>The contract: a list of closures sorted by context\<close>

definition async_list :: "('a) async_state_scheme \<Rightarrow> async_item list \<Rightarrow> bool" where
  "async_list s xs \<longleftrightarrow> aseg (nodes s) (asyncCallbacks s) xs NULL \<and> distinct (map fst xs)
     \<and> dom (nodes s) = fst ` set xs \<and> sorted_wrt (\<lambda>x y. item_cx y \<le> item_cx x) xs
     \<and> (\<forall>x \<in> set xs. fst x < next_block s)"

lemma async_list_cong:
  "async_list s xs \<Longrightarrow> nodes t = nodes s \<Longrightarrow> asyncCallbacks t = asyncCallbacks s \<Longrightarrow>
   next_block s \<le> next_block t \<Longrightarrow> async_list t xs"
  by (auto simp: async_list_def)

lemma sorted_split:
  "sorted_wrt (\<lambda>x y. item_cx y \<le> item_cx x) xs \<Longrightarrow>
   \<exists>us ms ws. xs = us @ ms @ ws \<and> (\<forall>x \<in> set us. cx < item_cx x) \<and> (\<forall>x \<in> set ms. item_cx x = cx)
     \<and> (\<forall>x \<in> set ws. item_cx x < cx)"
proof (induction xs)
  case (Cons x xs)
  then obtain us ms ws where d: "xs = us @ ms @ ws" "\<forall>x \<in> set us. cx < item_cx x" "\<forall>x \<in> set ms. item_cx x = cx"
    "\<forall>x \<in> set ws. item_cx x < cx" by auto
  consider "cx < item_cx x" | "item_cx x = cx" | "item_cx x < cx" by linarith
  then show ?case
  proof cases
    case 1
    with d show ?thesis by (intro exI [of _ "x # us"] exI [of _ ms] exI [of _ ws]) simp
  next
    case 2
    with d Cons.prems have "us = []" by (cases us) auto
    with 2 d show ?thesis by (intro exI [of _ "[]"] exI [of _ "x # ms"] exI [of _ ws]) simp
  next
    case 3
    with d Cons.prems have "us = []" "ms = []" by (cases us; cases ms; auto)+
    with 3 d show ?thesis by (intro exI [of _ "[]"] exI [of _ "x # ws"]) simp
  qed
qed simp

lemma aseg_node:
  "aseg ns p xs q \<Longrightarrow> x \<in> set xs \<Longrightarrow> ns (fst x) = Some n \<Longrightarrow> distinct (map fst xs) \<Longrightarrow> a_cx n = item_cx x"
proof (induction ns p xs q rule: aseg.induct)
  case (2 ns p r cx cb ud xs q)
  then show ?case by (cases "x = (r, cx, cb, ud)") auto
qed simp

lemma async_list_parts:
  assumes "async_list s (us @ vs)"
  shows "aseg (nodes s) (asyncCallbacks s) us (first_of vs)" and "aseg (nodes s) (first_of vs) vs NULL"
    and "distinct (map fst us)" and "distinct (map fst vs)" and "fst ` set us \<inter> fst ` set vs = {}"
    and "vs \<noteq> [] \<Longrightarrow> \<exists>n. nodes s (first_of vs) = Some n \<and> a_cx n = item_cx (hd vs)"
    and "x \<in> set us \<Longrightarrow> nodes s (fst x) = Some n \<Longrightarrow> a_cx n = item_cx x"
proof -
  from assms obtain r where a: "aseg (nodes s) (asyncCallbacks s) us r" "aseg (nodes s) r vs NULL"
    and d: "distinct (map fst us)" "distinct (map fst vs)" "fst ` set us \<inter> fst ` set vs = {}"
    by (auto simp: async_list_def aseg_append)
  from aseg_first [OF a(2)] a show 1: "aseg (nodes s) (asyncCallbacks s) us (first_of vs)"
    and 2: "aseg (nodes s) (first_of vs) vs NULL" by simp_all
  show "distinct (map fst us)" "distinct (map fst vs)" "fst ` set us \<inter> fst ` set vs = {}" by (fact d)+
  show "\<exists>n. nodes s (first_of vs) = Some n \<and> a_cx n = item_cx (hd vs)" if "vs \<noteq> []"
    using 2 that by (cases vs) (auto simp: first_of_def)
  show "a_cx n = item_cx x" if "x \<in> set us" "nodes s (fst x) = Some n" by (rule aseg_node [OF 1 that d(1)])
qed

text \<open>Taking a middle part out of the list: its neighbours are joined.\<close>

lemma unlink_spec:
  assumes l: "async_list s (us @ ms @ ws)"
    and s1: "set_link (link_of us) (first_of ws) s = Some s1" and s': "s' = s1\<lparr>nodes := nodes s1 |` (- fst ` set ms)\<rparr>"
  shows "async_list s' (us @ ws)"
proof -
  note p = async_list_parts [OF l] and q = async_list_parts [of s "us @ ms" ws] and m = async_list_parts [of s "us @ ms"]
  have dj: "fst ` set us \<inter> fst ` set (ms @ ws) = {}" by (rule p(5))
  have w: "aseg (nodes s) (first_of ws) ws NULL" using q(2) l by simp
  from set_link_spec [OF p(1,3), of "first_of ws"] s1 have k: "aseg (nodes s1) (asyncCallbacks s1) us (first_of ws)"
    "\<And>r. r \<notin> fst ` set us \<Longrightarrow> nodes s1 r = nodes s r" "dom (nodes s1) = dom (nodes s)"
    "s1 = s\<lparr>asyncCallbacks := asyncCallbacks s1, nodes := nodes s1\<rparr>" by auto
  have nb: "next_block s1 = next_block s" by (subst k(4)) simp
  have d: "distinct (map fst (us @ ms @ ws))" using l by (simp add: async_list_def)
  have fr: "r \<in> fst ` set us \<union> fst ` set ws \<Longrightarrow> nodes s' r = nodes s1 r" for r
    using d by (auto simp: s' restrict_map_def)
  have "aseg (nodes s') (asyncCallbacks s') us (first_of ws)"
    using k(1) fr by (subst aseg_frame [where ns = "nodes s1"]) (auto simp: s')
  moreover have "aseg (nodes s') (first_of ws) ws NULL"
    using w fr k(2) dj by (subst aseg_frame [where ns = "nodes s"]) auto
  moreover have "dom (nodes s') = fst ` set (us @ ws)"
  proof -
    have "dom (nodes s) = fst ` set us \<union> (fst ` set ms \<union> fst ` set ws)"
      using l by (simp add: async_list_def image_Un)
    moreover have "fst ` set us \<inter> fst ` set ms = {}" using dj by auto
    moreover have "fst ` set ms \<inter> fst ` set ws = {}" using d by simp
    ultimately show ?thesis unfolding s' by (simp add: k(3) image_Un) blast
  qed
  ultimately show ?thesis
    using l nb by (auto simp: async_list_def aseg_append sorted_wrt_append s')
qed

section \<open>The operations meet the contract\<close>

lemma aseg_next:
  "aseg ns p xs q \<Longrightarrow> distinct (map fst xs) \<Longrightarrow> x \<in> set xs \<Longrightarrow> ns (fst x) = Some n \<Longrightarrow>
   a_next n \<in> insert q (fst ` set (tl xs))"
proof (induction ns p xs q rule: aseg.induct)
  case (2 ns p r cx cb ud xs q)
  then obtain m where m: "ns r = Some m" "aseg ns (a_next m) xs q" by auto
  have ne: "xs \<noteq> [] \<Longrightarrow> a_next m \<in> fst ` set xs" "xs = [] \<Longrightarrow> a_next m = q"
    using m(2) by (cases xs; force)+
  show ?case
  proof (cases "x = (r, cx, cb, ud)")
    case True
    with 2 m ne show ?thesis by (cases "xs = []") auto
  next
    case False
    with 2 have "x \<in> set xs" by simp
    with 2 m have "a_next n \<in> insert q (fst ` set (tl xs))" by simp
    then show ?thesis by (cases xs) auto
  qed
qed simp

lemma async_list_NULL: "async_list s xs \<Longrightarrow> nodes s NULL = None"
proof -
  assume l: "async_list s xs"
  then have "aseg (nodes s) (asyncCallbacks s) xs NULL" "dom (nodes s) = fst ` set xs" by (simp_all add: async_list_def)
  moreover from aseg_live [OF this(1)] have "NULL \<notin> fst ` set xs" by (metis imageE)
  ultimately show ?thesis by (metis domIff)
qed

lemma removeAsync_ok:
  assumes l: "async_list s (us @ [y] @ ws)" and "us \<noteq> []"
  shows "\<exists>s'. gpsee_removeAsyncCallback (fst y) s = Some s' \<and> async_list s' (us @ ws)
    \<and> s' = s\<lparr>asyncCallbacks := asyncCallbacks s', nodes := nodes s'\<rparr>"
proof -
  from assms(2) obtain vs x where us: "us = vs @ [x]" by (cases us rule: rev_cases) auto
  obtain c cx cb ud where y: "y = (c, cx, cb, ud)" by (metis prod_cases4)
  from l obtain r where a: "aseg (nodes s) (asyncCallbacks s) vs (fst x)" "fst x \<noteq> NULL"
    "nodes s (fst x) = Some r" "a_next r = c" and d: "distinct (map fst (vs @ x # y # ws))"
    by (cases x) (auto simp: async_list_def us y aseg_append)
  from async_list_parts(2) [of s us "[y] @ ws"] l obtain m where m: "nodes s c = Some m" "a_next m = first_of ws"
    using aseg_first by (auto simp: y first_of_def)
  have dv: "distinct (map fst vs)" using d by simp
  have "c \<notin> insert (fst x) (fst ` set (tl vs))" using d by (cases vs) (auto simp: y)
  then have "\<And>z n. z \<in> set vs \<Longrightarrow> nodes s (fst z) = Some n \<Longrightarrow> a_next n \<noteq> c"
    using aseg_next [OF a(1) dv] by metis
  from find_link_spec [OF a(1) this] a(2-4) have
    f: "find_link (\<lambda>n. a_next n = c) (nodes s) None (asyncCallbacks s) = Some (if vs = [] then None else link_of vs, fst x)"
    by auto
  let ?s1 = "s\<lparr>nodes := (nodes s)(fst x \<mapsto> r\<lparr>a_next := first_of ws\<rparr>)\<rparr>"
  let ?s = "?s1\<lparr>nodes := nodes ?s1 |` (- fst ` set [y])\<rparr>"
  have sl: "set_link (link_of us) (first_of ws) s = Some ?s1" by (simp add: us link_of_def set_link_def a(3))
  have "c \<noteq> fst x" using d by (auto simp: y)
  then have "gpsee_removeAsyncCallback c s = Some ?s"
    using m a by (simp add: gpsee_removeAsyncCallback_def f free_node_def) (simp add: restrict_map_def fun_eq_iff y)
  with unlink_spec [OF l sl refl] show ?thesis by (intro exI [of _ ?s]) (simp add: y)
qed

lemma removeAsync_crashes:
  assumes l: "async_list s xs" and "cbHnd \<notin> fst ` set (tl xs)"
  shows "gpsee_removeAsyncCallback cbHnd s = None"
proof (cases "cbHnd = NULL")
  case False
  have a: "aseg (nodes s) (asyncCallbacks s) xs NULL" and d: "distinct (map fst xs)" using l by (simp_all add: async_list_def)
  have "\<And>z n. z \<in> set xs \<Longrightarrow> nodes s (fst z) = Some n \<Longrightarrow> a_next n \<noteq> cbHnd"
    using aseg_next [OF a d] assms(2) False by fastforce
  from find_link_spec [OF a this] obtain q where
    f: "find_link (\<lambda>n. a_next n = cbHnd) (nodes s) None (asyncCallbacks s) = Some (q, NULL)" by auto
  with async_list_NULL [OF l] show ?thesis by (simp add: gpsee_removeAsyncCallback_def)
next
  case True
  note n0 = async_list_NULL [OF l]
  have f: "free_node NULL t = None" if "nodes t NULL = None" for t :: "'a async_state_scheme"
    by (simp add: free_node_def that)
  show ?thesis
  proof (rule ccontr)
    assume "gpsee_removeAsyncCallback cbHnd s \<noteq> None"
    then obtain c n m where "nodes s c = Some n" "nodes s (a_next n) = Some m"
      "free_node NULL (s\<lparr>nodes := (nodes s)(c \<mapsto> n\<lparr>a_next := a_next m\<rparr>)\<rparr>) \<noteq> None"
      unfolding gpsee_removeAsyncCallback_def True by (auto simp: bind_eq_Some_conv)
    moreover from this(1) have "c \<noteq> NULL" using n0 by (cases c) auto
    ultimately show False using f n0 by simp
  qed
qed

lemma removeContext_ok:
  assumes l: "async_list s xs"
  shows "\<exists>s'. gpsee_removeAsyncCallbackContext cx contextOp s = Some (True, s')
    \<and> async_list s' (if contextOp = JSCONTEXT_DESTROY then filter (\<lambda>x. item_cx x \<noteq> cx) xs else xs)
    \<and> s' = s\<lparr>asyncCallbacks := asyncCallbacks s', nodes := nodes s'\<rparr>"
proof (cases "contextOp = JSCONTEXT_DESTROY \<and> asyncCallbacks s \<noteq> NULL")
  case False
  have "asyncCallbacks s = NULL \<Longrightarrow> xs = []"
    using l by (cases xs) (auto simp: async_list_def)
  with False l show ?thesis
    by (intro exI [of _ s]) (auto simp: gpsee_removeAsyncCallbackContext_def)
next
  case True
  from l have "sorted_wrt (\<lambda>x y. item_cx y \<le> item_cx x) xs" by (simp add: async_list_def)
  from sorted_split [OF this, of cx] obtain us ms ws where x: "xs = us @ ms @ ws" "\<forall>x \<in> set us. cx < item_cx x"
    "\<forall>x \<in> set ms. item_cx x = cx" "\<forall>x \<in> set ws. item_cx x < cx" by blast
  have keep: "filter (\<lambda>x. item_cx x \<noteq> cx) xs = us @ ws"
  proof -
    have "filter (\<lambda>x. item_cx x \<noteq> cx) us = us" "filter (\<lambda>x. item_cx x \<noteq> cx) ws = ws"
      "filter (\<lambda>x. item_cx x \<noteq> cx) ms = []" using x(2-4) by (auto simp: filter_id_conv filter_empty_conv)
    then show ?thesis by (simp add: x(1))
  qed
  show ?thesis
  proof (cases "ms = []")
    case True': True
    let ?vs = "us @ ws"
    have lv: "async_list s (?vs @ [])" using l x(1) True' by simp
    have "\<And>z n. z \<in> set ?vs \<Longrightarrow> nodes s (fst z) = Some n \<Longrightarrow> a_cx n \<noteq> cx"
      using async_list_parts(7) [OF lv] x(2,4) by fastforce
    from find_link_spec [OF async_list_parts(1) [OF lv] this] obtain q where
      "find_link (\<lambda>n. a_cx n = cx) (nodes s) None (asyncCallbacks s) = Some (q, NULL)"
      by (auto simp: first_of_def)
    then have "gpsee_removeAsyncCallbackContext cx contextOp s = Some (True, s)"
      using True by (simp add: gpsee_removeAsyncCallbackContext_def)
    with l keep True True' x(1) show ?thesis by (intro exI [of _ s]) simp
  next
    case False
    have l': "async_list s (us @ (ms @ ws))" and l2: "async_list s ((us @ ms) @ ws)" using l x(1) by simp_all
    have fo: "first_of (ms @ ws) = first_of ms" using False by (rule first_of_append)
    have "\<And>z n. z \<in> set us \<Longrightarrow> nodes s (fst z) = Some n \<Longrightarrow> a_cx n \<noteq> cx"
      using async_list_parts(7) [OF l'] x(2) by fastforce
    moreover have "\<exists>n. nodes s (first_of ms) = Some n \<and> a_cx n = cx"
      using async_list_parts(6) [OF l'] False x(3) by (auto simp: fo)
    ultimately have f1: "find_link (\<lambda>n. a_cx n = cx) (nodes s) None (asyncCallbacks s) = Some (link_of us, first_of ms)"
      using find_link_spec [OF async_list_parts(1) [OF l'], of "\<lambda>n. a_cx n = cx" None]
      by (auto simp: fo link_of_def)
    have am: "aseg (nodes s) (first_of ms) ms (first_of ws)"
    proof -
      from async_list_parts(2) [OF l'] obtain r where "aseg (nodes s) (first_of ms) ms r" "aseg (nodes s) r ws NULL"
        by (auto simp: aseg_append fo)
      with aseg_first show ?thesis by metis
    qed
    have "\<And>z n. z \<in> set ms \<Longrightarrow> nodes s (fst z) = Some n \<Longrightarrow> \<not> a_cx n \<noteq> cx"
      using async_list_parts(7) [OF l2] x(3) by fastforce
    moreover have "first_of ws = NULL \<or> (\<exists>n. nodes s (first_of ws) = Some n \<and> a_cx n \<noteq> cx)"
      using async_list_parts(6) [OF l2] x(4) by (cases ws) (auto simp: first_of_def)
    ultimately have f2: "find_link (\<lambda>n. a_cx n \<noteq> cx) (nodes s) (link_of us) (first_of ms) = Some (link_of ms, first_of ws)"
      using find_link_spec [OF am, of "\<lambda>n. a_cx n \<noteq> cx" "link_of us"] False by auto
    from set_link_spec [OF async_list_parts(1,3) [OF l'], of "first_of ws"] obtain s1 where
      s1: "set_link (link_of us) (first_of ws) s = Some s1" "\<And>r. r \<notin> fst ` set us \<Longrightarrow> nodes s1 r = nodes s r"
      "s1 = s\<lparr>asyncCallbacks := asyncCallbacks s1, nodes := nodes s1\<rparr>" by blast
    have dm: "distinct (map fst ms)" and dj: "fst ` set us \<inter> fst ` set ms = {}"
      using async_list_parts(4,5) [OF l'] by auto
    have "aseg (nodes s1) (first_of ms) ms (first_of ws)"
      using am s1(2) dj by (subst aseg_frame [where ns = "nodes s"]) auto
    from free_segment_spec [OF this False dm] have
      f3: "free_segment (fst (last ms)) (first_of ms) s1 = Some (s1\<lparr>nodes := nodes s1 |` (- fst ` set ms)\<rparr>)" .
    let ?s = "s1\<lparr>nodes := nodes s1 |` (- fst ` set ms)\<rparr>"
    have "first_of ms \<noteq> NULL" using am False by (cases ms) (auto simp: first_of_def)
    then have "gpsee_removeAsyncCallbackContext cx contextOp s = Some (True, ?s)"
      using True f3 False by (simp add: gpsee_removeAsyncCallbackContext_def f1 f2 s1(1)) (simp add: link_of_def)

    moreover have "?s = s\<lparr>asyncCallbacks := asyncCallbacks ?s, nodes := nodes ?s\<rparr>" by (subst s1(3)) simp
    ultimately show ?thesis
      using unlink_spec [OF l' s1(1) refl] keep True by (intro exI [of _ ?s]) simp
  qed
qed

section \<open>Registration and removal through the private storage\<close>

text \<open>
  \<open>async_env_ok\<close>: the callback registered with the private storage is the function that
  removes the callbacks of a context, and the other ones leave the list and the book-keeping alone.
  \<open>registered\<close>: every context in the list will run that function when it is destroyed.
\<close>

definition async_env_ok :: "(('a) async_state_scheme, 'e) async_env_scheme \<Rightarrow> bool" where
  "async_env_ok e \<longleftrightarrow> async_id e \<noteq> NULL \<and> async_cb e \<noteq> NULL
     \<and> (\<forall>cx contextOp s. run_cb e (async_cb e) cx contextOp s
          = map_option snd (gpsee_removeAsyncCallbackContext cx contextOp s))
     \<and> (\<forall>cb cx contextOp s. cb \<noteq> async_cb e \<longrightarrow> (\<exists>s'. run_cb e cb cx contextOp s = Some s'
          \<and> cp_state.more s' = cp_state.more s \<and> cx_private s' = cx_private s \<and> dom (blocks s') = dom (blocks s)
          \<and> next_block s' = next_block s \<and> cb_calls s' = cb_calls s))"

definition registered :: "(('a) async_state_scheme, 'e) async_env_scheme \<Rightarrow> ('a) async_state_scheme \<Rightarrow> async_item list \<Rightarrow> bool" where
  "registered e s xs \<longleftrightarrow> (\<forall>x \<in> set xs. \<exists>n. find_entry (item_cx x) (async_id e) (entries s (item_cx x)) = Some n
     \<and> e_cb n = async_cb e)"

lemma more_async:
  "cp_state.more t = cp_state.more s \<Longrightarrow> nodes t = nodes s \<and> asyncCallbacks t = asyncCallbacks s"
  for s t :: "('a) async_state_scheme"
  by (cases s; cases t) simp

lemma async_list_more:
  "async_list s xs \<Longrightarrow> cp_state.more t = cp_state.more s \<Longrightarrow> next_block s \<le> next_block t \<Longrightarrow> async_list t xs"
  using more_async [of t s] async_list_cong [of s xs t] by simp

lemma run_cb_async:
  assumes "async_env_ok e" and "async_list s xs"
  shows "\<exists>s'. run_cb e cb cx contextOp s = Some s'
    \<and> async_list s' (if cb = async_cb e \<and> contextOp = JSCONTEXT_DESTROY then filter (\<lambda>x. item_cx x \<noteq> cx) xs else xs)
    \<and> cx_private s' = cx_private s \<and> dom (blocks s') = dom (blocks s) \<and> next_block s' = next_block s
    \<and> cb_calls s' = cb_calls s"
proof (cases "cb = async_cb e")
  case True
  from removeContext_ok [OF assms(2), of cx contextOp] obtain s' where
    r: "gpsee_removeAsyncCallbackContext cx contextOp s = Some (True, s')"
    "async_list s' (if contextOp = JSCONTEXT_DESTROY then filter (\<lambda>x. item_cx x \<noteq> cx) xs else xs)"
    "s' = s\<lparr>asyncCallbacks := asyncCallbacks s', nodes := nodes s'\<rparr>" by blast
  have "run_cb e cb cx contextOp s = Some s'" using assms(1) r(1) True by (simp add: async_env_ok_def)
  moreover have "cx_private s' = cx_private s" "blocks s' = blocks s" "next_block s' = next_block s"
    "cb_calls s' = cb_calls s" by (subst r(3), simp)+
  ultimately show ?thesis using r(2) True by auto
next
  case False
  with assms(1) obtain s' where "run_cb e cb cx contextOp s = Some s'" "cp_state.more s' = cp_state.more s"
    "cx_private s' = cx_private s" "dom (blocks s') = dom (blocks s)" "next_block s' = next_block s"
    "cb_calls s' = cb_calls s" unfolding async_env_ok_def by blast
  with async_list_more [OF assms(2), of s'] False show ?thesis by simp
qed

lemma async_context_callbacks:
  assumes "async_env_ok e"
  shows "context_callbacks e (\<lambda>s. \<exists>xs. async_list s xs)"
proof (unfold_locales, goal_cases)
  case (1 s t)
  then show ?case using async_list_more by blast
next
  case (2 s cb cx contextOp)
  then obtain xs where "async_list s xs" by blast
  from run_cb_async [OF assms this, of cb cx contextOp] show ?case by blast
qed

lemma getContextPrivate_cong:
  assumes "\<And>s. run_cb e' cb cx JSCONTEXT_NEW s = run_cb e cb cx JSCONTEXT_NEW s"
    and "malloc_ok e' = malloc_ok e" and "cp_runtime e' = cp_runtime e"
  shows "gpsee_getContextPrivate e' cx id_p n cb s = gpsee_getContextPrivate e cx id_p n cb s"
proof -
  have m: "malloc_try e' t = malloc_try e t" "malloc_zero e' k t = malloc_zero e k t" for t k
    by (simp_all add: malloc_try_def malloc_zero_def assms(2))
  have c: "call_cb e' cb cx JSCONTEXT_NEW t = call_cb e cb cx JSCONTEXT_NEW t" for t
    by (simp add: call_cb_def assms(1))
  show ?thesis
    unfolding gpsee_getContextPrivate_def new_entry_def m c assms(3) ..
qed

text \<open>Asking for the private storage does not touch the list: the callback is only told of a start.\<close>

lemma register_ok:
  assumes e: "async_env_ok e" and l: "async_list s xs" and b: "book_ok (cp_runtime e) s" and ok: "\<forall>n. malloc_ok e n"
    and f: "\<And>x. find_entry cx (async_id e) (entries s cx) = Some x \<Longrightarrow> e_cb x = async_cb e"
  shows "\<exists>p s'. gpsee_getContextPrivate e cx (async_id e) 0 (async_cb e) s = Some (p, s') \<and> async_list s' xs
    \<and> book_ok (cp_runtime e) s' \<and> (\<forall>c. c \<noteq> cx \<longrightarrow> entries s' c = entries s c)
    \<and> (\<exists>x. find_entry cx (async_id e) (entries s' cx) = Some x \<and> e_cb x = async_cb e)"
proof -
  let ?e = "e\<lparr>run_cb := \<lambda>cb cx contextOp s.
    if cb = async_cb e \<and> contextOp = JSCONTEXT_NEW then run_cb e cb cx contextOp s else Some s\<rparr>"
  have cc: "context_callbacks ?e (\<lambda>s. async_list s xs)"
  proof (unfold_locales, goal_cases)
    case (2 s cb cx contextOp)
    from run_cb_async [OF e 2, of cb cx contextOp] 2 show ?case by auto
  qed (rule async_list_more)
  have g: "gpsee_getContextPrivate ?e cx (async_id e) 0 (async_cb e) s = gpsee_getContextPrivate e cx (async_id e) 0 (async_cb e) s"
    by (rule getContextPrivate_cong) simp_all
  have i: "async_id e \<noteq> NULL" using e by (simp add: async_env_ok_def)
  have n: "0 < next_block s" using b by (simp add: book_ok_def)
  from context_callbacks.get_ok [OF cc l n, of cx "async_id e" 0 "async_cb e"] ok g consider
    x where "find_entry cx (async_id e) (entries s cx) = Some x"
      "\<exists>p. gpsee_getContextPrivate e cx (async_id e) 0 (async_cb e) s = Some (p, s)"
  | p s' where "find_entry cx (async_id e) (entries s cx) = None"
      "gpsee_getContextPrivate e cx (async_id e) 0 (async_cb e) s = Some (p, s')"
      "made (cp_runtime e) cx (async_id e) 0 (async_cb e) p s s'" "async_list s' xs"
    using i by auto
  then show ?thesis
  proof cases
    case 1
    with l b f show ?thesis by blast
  next
    case 2
    have "book_ok (cp_runtime e) s'" by (rule made_book [OF b 2(3) 2(1)])
    moreover have "\<exists>x. find_entry cx (async_id e) (entries s' cx) = Some x \<and> e_cb x = async_cb e"
      using i by (simp add: made_entries [OF 2(3)] find_entry_append 2(1)) (simp add: find_entry_def)
    ultimately show ?thesis using 2 made_entries [OF 2(3)] by (intro exI [of _ p] exI [of _ s']) simp
  qed
qed

text \<open>Nobody else uses the identity of the list for private storage.\<close>

definition sole_owner :: "(('a) async_state_scheme, 'e) async_env_scheme \<Rightarrow> ('a) async_state_scheme \<Rightarrow> bool" where
  "sole_owner e s \<longleftrightarrow> (\<forall>cx x. find_entry cx (async_id e) (entries s cx) = Some x \<longrightarrow> e_cb x = async_cb e)"

text \<open>The sorted place of a new closure.\<close>

definition insert_item :: "async_item \<Rightarrow> async_item list \<Rightarrow> async_item list" where
  "insert_item x xs = takeWhile (\<lambda>y. item_cx x < item_cx y) xs @ x # dropWhile (\<lambda>y. item_cx x < item_cx y) xs"

lemma link_new:
  assumes l: "async_list s (us @ vs)" and fresh: "new = next_block s" and nz: "0 < next_block s"
    and us: "\<forall>x \<in> set us. cx < item_cx x" and vs: "\<forall>x \<in> set vs. item_cx x \<le> cx"
    and s1: "s1 = s\<lparr>next_block := Suc new, nodes := (nodes s)(new \<mapsto>
        \<lparr>a_cx = cx, a_callback = cb, a_userdata = ud, a_next = first_of vs\<rparr>)\<rparr>"
  shows "\<exists>s'. set_link (link_of us) new s1 = Some s' \<and> async_list s' (us @ (new, cx, cb, ud) # vs)
    \<and> s' = s1\<lparr>asyncCallbacks := asyncCallbacks s', nodes := nodes s'\<rparr>
    \<and> (\<forall>r. r \<notin> fst ` set us \<longrightarrow> nodes s' r = nodes s1 r)"
proof -
  note p = async_list_parts [OF l]
  have "\<forall>x \<in> set us \<union> set vs. fst x < new" using l fresh by (simp add: async_list_def)
  then have new: "new \<notin> fst ` set us" "new \<notin> fst ` set vs" by (metis UnI1 UnI2 imageE less_irrefl)+
  have a1: "aseg (nodes s1) (asyncCallbacks s1) us (first_of vs)" "aseg (nodes s1) (first_of vs) vs NULL"
    using p(1,2) new by (simp_all add: s1)
  from set_link_spec [OF a1(1) p(3), of new] obtain s' where s': "set_link (link_of us) new s1 = Some s'"
    "aseg (nodes s') (asyncCallbacks s') us new" "\<And>r. r \<notin> fst ` set us \<Longrightarrow> nodes s' r = nodes s1 r"
    "dom (nodes s') = dom (nodes s1)" "s' = s1\<lparr>asyncCallbacks := asyncCallbacks s', nodes := nodes s'\<rparr>" by blast
  have nb: "next_block s' = Suc new" by (subst s'(5)) (simp add: s1)
  have "aseg (nodes s') (first_of vs) vs NULL"
    using a1(2) s'(3) p(5) by (subst aseg_frame [where ns = "nodes s1"]) auto
  moreover have "nodes s' new = nodes s1 new" using s'(3) new(1) by simp
  ultimately have "aseg (nodes s') (asyncCallbacks s') (us @ (new, cx, cb, ud) # vs) NULL"
    using s'(2) nz fresh by (auto simp: aseg_append s1)
  moreover have "dom (nodes s') = fst ` set (us @ (new, cx, cb, ud) # vs)"
    using l s'(4) by (auto simp: async_list_def s1)
  ultimately have "async_list s' (us @ (new, cx, cb, ud) # vs)"
    using l new us vs nb fresh by (auto simp: async_list_def sorted_wrt_append less_imp_le intro: less_SucI)
  with s' show ?thesis by blast
qed

lemma addAsync_ok:
  assumes e: "async_env_ok e" and l: "async_list s xs" and r: "registered e s xs"
    and b: "book_ok (cp_runtime e) s" and ok: "\<forall>n. malloc_ok e n"
    and f: "sole_owner e s"
  shows "\<exists>s'. gpsee_addAsyncCallback e cx cb ud s = Some (next_block s, s')
    \<and> async_list s' (insert_item (next_block s, cx, cb, ud) xs)
    \<and> registered e s' (insert_item (next_block s, cx, cb, ud) xs) \<and> book_ok (cp_runtime e) s' \<and> sole_owner e s'"
proof -
  let ?new = "next_block s"
  define us where "us = takeWhile (\<lambda>y. cx < item_cx y) xs"
  define vs where "vs = dropWhile (\<lambda>y. cx < item_cx y) xs"
  have x: "xs = us @ vs" by (simp add: us_def vs_def)
  have ins: "insert_item (?new, cx, cb, ud) xs = us @ (?new, cx, cb, ud) # vs"
    by (simp add: insert_item_def us_def vs_def)
  let ?s = "s\<lparr>cp_clock := Suc (cp_clock s), next_block := Suc ?new\<rparr>"
  have l': "async_list s (us @ vs)" using l x by simp
  note p = async_list_parts [OF l']
  have us: "\<forall>x \<in> set us. cx < item_cx x" by (auto simp: us_def dest: set_takeWhileD)
  have vs: "\<forall>x \<in> set vs. item_cx x \<le> cx"
  proof (cases vs)
    case (Cons v ws)
    have "\<not> cx < item_cx v" using Cons hd_dropWhile [of "\<lambda>y. cx < item_cx y" xs] by (auto simp: vs_def)
    moreover have "sorted_wrt (\<lambda>x y. item_cx y \<le> item_cx x) (us @ vs)" using l' unfolding async_list_def by blast
    ultimately show ?thesis unfolding sorted_wrt_append by (auto simp: Cons)
  next
    case Nil
    then show ?thesis by simp
  qed
  have "\<And>x n. x \<in> set us \<Longrightarrow> nodes s (fst x) = Some n \<Longrightarrow> \<not> \<not> a_cx n > cx"
    using p(7) us by fastforce
  moreover have hd: "first_of vs = NULL \<or> (\<exists>n. nodes s (first_of vs) = Some n \<and> \<not> a_cx n > cx)"
  proof (cases vs)
    case (Cons v ws)
    with p(6) vs show ?thesis by fastforce
  qed (simp add: first_of_def)
  ultimately have fl: "find_link (\<lambda>n. \<not> a_cx n > cx) (nodes s) None (asyncCallbacks s) = Some (link_of us, first_of vs)"
    using find_link_spec [OF p(1), of "\<lambda>n. \<not> a_cx n > cx" None] by (simp add: link_of_def)
  have nz: "0 < ?new" using b by (simp add: book_ok_def)
  let ?s1 = "s\<lparr>cp_clock := Suc (cp_clock s), next_block := Suc ?new, nodes := (nodes s)(?new \<mapsto>
      \<lparr>a_cx = cx, a_callback = cb, a_userdata = ud, a_next = first_of vs\<rparr>)\<rparr>"
  have lc: "async_list (s\<lparr>cp_clock := Suc (cp_clock s)\<rparr>) (us @ vs)" by (rule async_list_cong [OF l']) simp_all
  from link_new [OF lc _ _ us vs refl, of ?new cb ud] nz obtain s2 where
    s2: "set_link (link_of us) ?new ?s1 = Some s2" "async_list s2 (us @ (?new, cx, cb, ud) # vs)"
    "s2 = ?s1\<lparr>asyncCallbacks := asyncCallbacks s2, nodes := nodes s2\<rparr>"
    "\<And>r. r \<notin> fst ` set us \<Longrightarrow> nodes s2 r = nodes ?s1 r" by auto
  have en: "entries s2 c = entries s c" for c by (subst s2(3)) (simp add: entries_def)
  have b2: "book_ok (cp_runtime e) s2"
    using b by (subst s2(3)) (auto simp: book_ok_def entries_def)
  have q: "first_of vs \<noteq> NULL \<Longrightarrow> \<exists>n. nodes s2 (first_of vs) = Some n \<and> a_cx n = item_cx (hd vs) \<and> vs \<noteq> []"
    using async_list_parts(6) [of s2 "us @ [(?new, cx, cb, ud)]" vs] s2(2) by (cases vs) (auto simp: first_of_def)
  have r2: "registered e s2 xs" using r by (simp add: registered_def en)
  have other: "registered e t (us @ (?new, cx, cb, ud) # vs)"
    if "\<And>c. c \<noteq> cx \<Longrightarrow> entries t c = entries s2 c"
      "\<exists>x. find_entry cx (async_id e) (entries t cx) = Some x \<and> e_cb x = async_cb e" for t
  proof -
    have "\<exists>n. find_entry (item_cx x) (async_id e) (entries t (item_cx x)) = Some n \<and> e_cb n = async_cb e"
      if "x \<in> set xs" for x
      using that r2 \<open>\<And>c. c \<noteq> cx \<Longrightarrow> _\<close> \<open>\<exists>x. _\<close> by (cases "item_cx x = cx") (auto simp: registered_def)
    then have "\<exists>n. find_entry (item_cx x) (async_id e) (entries t (item_cx x)) = Some n \<and> e_cb n = async_cb e"
      if "x \<in> set us \<union> set vs" for x using that by (simp add: x)
    with that(2) show ?thesis by (auto simp: registered_def)
  qed
  let ?first = "first_of vs = NULL \<or> item_cx (hd vs) \<noteq> cx"
  have add: "gpsee_addAsyncCallback e cx cb ud s =
    (if ?first then map_option (\<lambda>(p, s). (?new, s)) (gpsee_getContextPrivate e cx (async_id e) 0 (async_cb e) s2)
     else Some (?new, s2))"
    using ok q fl s2(1) by (cases "first_of vs = NULL") (auto simp: gpsee_addAsyncCallback_def malloc_try_def Let_def)
  show ?thesis
  proof (cases ?first)
    case True
    from register_ok [OF e s2(2) b2 ok, of cx] f [unfolded sole_owner_def] obtain p s3 where
      "gpsee_getContextPrivate e cx (async_id e) 0 (async_cb e) s2 = Some (p, s3)"
      "async_list s3 (us @ (?new, cx, cb, ud) # vs)" "book_ok (cp_runtime e) s3"
      "\<forall>c. c \<noteq> cx \<longrightarrow> entries s3 c = entries s2 c"
      "\<exists>x. find_entry cx (async_id e) (entries s3 cx) = Some x \<and> e_cb x = async_cb e" by (auto simp: en)
    moreover from this(4,5) f have "sole_owner e s3"
      unfolding sole_owner_def by (metis en option.inject)
    ultimately show ?thesis using True other [of s3] by (simp add: add ins)
  next
    case False
    then have "hd vs \<in> set xs" "item_cx (hd vs) = cx"
      using q by (auto simp: x)
    with r2 have "\<exists>x. find_entry cx (async_id e) (entries s2 cx) = Some x \<and> e_cb x = async_cb e"
      by (auto simp: registered_def)
    with False other [of s2] s2(2) b2 f show ?thesis by (simp add: add ins sole_owner_def en)
  qed
qed

lemma call_cb_async:
  assumes "async_env_ok e" and "async_list s xs"
  shows "\<exists>s'. call_cb e cb cx JSCONTEXT_DESTROY s = Some s'
    \<and> async_list s' (if cb = async_cb e then filter (\<lambda>x. item_cx x \<noteq> cx) xs else xs) \<and> cx_private s' = cx_private s"
proof -
  have "async_list (s\<lparr>cb_calls := cb_calls s @ [(cb, cx, JSCONTEXT_DESTROY)]\<rparr>) xs"
    by (rule async_list_cong [OF assms(2)]) simp_all
  from run_cb_async [OF assms(1) this, of cb cx JSCONTEXT_DESTROY] show ?thesis by (auto simp: call_cb_def)
qed

lemma destroy_calls_async:
  assumes "async_env_ok e" and "async_list s xs" and "cx_private s cx = Some hnd" and "i \<le> length hnd"
  shows "\<exists>s'. destroy_calls e cx i s = Some s'
    \<and> async_list s' (if async_cb e \<in> set (callbacks_of (drop i hnd)) then filter (\<lambda>x. item_cx x \<noteq> cx) xs else xs)"
  using assms(2-)
proof (induction "length hnd - i" arbitrary: i s xs)
  case 0
  then show ?case by (subst destroy_calls.simps) (simp add: callbacks_of_def)
next
  case (Suc n)
  then have i: "i < length hnd" "n = length hnd - Suc i" "Suc i \<le> length hnd" by simp_all
  have d: "drop i hnd = hnd ! i # drop (Suc i) hnd" using i by (simp add: Cons_nth_drop_Suc)
  have nz: "async_cb e \<noteq> NULL" using assms(1) by (simp add: async_env_ok_def)
  show ?case
  proof (cases "e_cb (hnd ! i) = NULL")
    case True
    with Suc.hyps(1) [OF i(2) Suc.prems(1,2) i(3)] Suc.prems(2) i nz show ?thesis
      by (subst destroy_calls.simps) (simp add: d callbacks_Cons)
  next
    case False
    from call_cb_async [OF assms(1) Suc.prems(1), of "e_cb (hnd ! i)" cx] obtain s1 where
      c: "call_cb e (e_cb (hnd ! i)) cx JSCONTEXT_DESTROY s = Some s1" "cx_private s1 = cx_private s"
      "async_list s1 (if e_cb (hnd ! i) = async_cb e then filter (\<lambda>x. item_cx x \<noteq> cx) xs else xs)" by blast
    from Suc.hyps(1) [OF i(2) c(3) _ i(3)] c(2) Suc.prems(2) obtain s2 where
      "destroy_calls e cx (Suc i) s1 = Some s2"
      "async_list s2 (if async_cb e \<in> set (callbacks_of (drop (Suc i) hnd))
         then filter (\<lambda>x. item_cx x \<noteq> cx) (if e_cb (hnd ! i) = async_cb e then filter (\<lambda>x. item_cx x \<noteq> cx) xs else xs)
         else (if e_cb (hnd ! i) = async_cb e then filter (\<lambda>x. item_cx x \<noteq> cx) xs else xs))"
      by auto
    with c False Suc.prems(2) i show ?thesis
      by (subst destroy_calls.simps) (auto simp: d callbacks_Cons split: if_splits)
  qed
qed

lemma destroyContext_async:
  assumes e: "async_env_ok e" and l: "async_list s xs" and r: "registered e s xs" and b: "book_ok (cp_runtime e) s"
    and f: "sole_owner e s"
  shows "\<exists>s'. gpsee_contextCallback e cx JSCONTEXT_DESTROY s = Some (True, s')
    \<and> async_list s' (filter (\<lambda>x. item_cx x \<noteq> cx) xs) \<and> registered e s' (filter (\<lambda>x. item_cx x \<noteq> cx) xs)
    \<and> book_ok (cp_runtime e) s' \<and> sole_owner e s'"
proof -
  from l have "\<exists>xs. async_list s xs" by blast
  from context_callbacks.destroy_ok [OF async_context_callbacks [OF e] this b, of cx] obtain s' where
    d: "gpsee_contextCallback e cx JSCONTEXT_DESTROY s = Some (True, s')" "cx_private s' = (cx_private s)(cx := None)"
    "dom (blocks s') = dom (blocks s) - set (storages (entries s cx))" "next_block s' = next_block s" by blast
  have en: "entries s' c = (if c = cx then [] else entries s c)" for c by (simp add: entries_def d(2))
  have "async_list s' (filter (\<lambda>x. item_cx x \<noteq> cx) xs)"
  proof (cases "cx_private s cx")
    case None
    then have "find_entry cx (async_id e) (entries s cx) = None" by (simp add: entries_def find_entry_def)
    then have "\<forall>x \<in> set xs. item_cx x \<noteq> cx" using r by (force simp: registered_def)
    then have "filter (\<lambda>x. item_cx x \<noteq> cx) xs = xs" by (simp add: filter_id_conv)
    moreover have "s' = s" using d(1) None by (simp add: gpsee_contextCallback_def gpsee_destroyContextPrivate_def)
    ultimately show ?thesis using l by simp
  next
    case (Some hnd)
    from destroy_calls_async [OF e l Some, of 0] obtain s1 where s1: "destroy_calls e cx 0 s = Some s1"
      "async_list s1 (if async_cb e \<in> set (callbacks_of hnd) then filter (\<lambda>x. item_cx x \<noteq> cx) xs else xs)" by auto
    have "gpsee_destroyContextPrivate cx s1 = Some s'" using d(1) Some s1(1) by (auto simp: gpsee_contextCallback_def)
    then have "nodes s' = nodes s1 \<and> asyncCallbacks s' = asyncCallbacks s1 \<and> next_block s' = next_block s1"
    proof -
      have "free_storages ys t = Some t' \<Longrightarrow> nodes t' = nodes t \<and> asyncCallbacks t' = asyncCallbacks t \<and> next_block t' = next_block t"
        for ys and t t' :: "'a async_state_scheme"
        by (induction ys t rule: free_storages.induct)
          (auto simp: free_block_def bind_eq_Some_conv split: if_splits option.splits)
      with \<open>gpsee_destroyContextPrivate cx s1 = Some s'\<close> show ?thesis
        by (auto simp: gpsee_destroyContextPrivate_def split: option.splits)
    qed
    then have a: "async_list s1 ys \<Longrightarrow> async_list s' ys" for ys using async_list_cong [of s1 ys s'] by simp
    show ?thesis
    proof (cases "async_cb e \<in> set (callbacks_of hnd)")
      case False
      have "item_cx x \<noteq> cx" if "x \<in> set xs" for x
      proof
        assume c: "item_cx x = cx"
        have h: "entries s cx = hnd" by (simp add: entries_def Some)
        from r that obtain n where "find_entry (item_cx x) (async_id e) (entries s (item_cx x)) = Some n" "e_cb n = async_cb e"
          unfolding registered_def by blast
        then have "find_entry cx (async_id e) hnd = Some n" "e_cb n = async_cb e" by (simp_all add: c h)
        moreover from this have "n \<in> set hnd" by (auto simp: find_entry_def find_Some_iff)
        moreover have "async_cb e \<noteq> NULL" using e by (simp add: async_env_ok_def)
        ultimately have "async_cb e \<in> set (callbacks_of hnd)" by (simp add: callbacks_of_def) (metis image_eqI)
        with False show False ..
      qed
      then have "filter (\<lambda>x. item_cx x \<noteq> cx) xs = xs" by (simp add: filter_id_conv)
      with a s1(2) False show ?thesis by simp
    qed (use a s1(2) in simp)
  qed
  moreover have "registered e s' (filter (\<lambda>x. item_cx x \<noteq> cx) xs)" using r by (auto simp: registered_def en)
  moreover have "sole_owner e s'" using f by (auto simp: sole_owner_def en find_entry_def)
  ultimately show ?thesis using d(1) book_destroyed [OF b d(2-4)] by blast
qed

section \<open>Programs of operations\<close>

text \<open>
  A callback is named by the number of the call that added it; \<open>hs\<close> holds the handles those
  calls returned.  The specification keeps a list of numbered closures sorted by context.
\<close>

datatype async_op = AddAsync ptr ptr ptr | RemoveAsync nat | EndContext ptr

fun async_exec ::
    "(('a) async_state_scheme, 'e) async_env_scheme \<Rightarrow> async_op list \<Rightarrow> ('a) async_state_scheme \<times> ptr list \<Rightarrow>
     (('a) async_state_scheme \<times> ptr list) option" where
  "async_exec e [] st = Some st"
| "async_exec e (AddAsync cx cb ud # ops) (s, hs) =
     (case gpsee_addAsyncCallback e cx cb ud s of
        None \<Rightarrow> None | Some (p, s) \<Rightarrow> async_exec e ops (s, hs @ [p]))"
| "async_exec e (RemoveAsync k # ops) (s, hs) =
     (case gpsee_removeAsyncCallback (hs ! k) s of None \<Rightarrow> None | Some s \<Rightarrow> async_exec e ops (s, hs))"
| "async_exec e (EndContext cx # ops) (s, hs) =
     (case gpsee_contextCallback e cx JSCONTEXT_DESTROY s of
        None \<Rightarrow> None | Some (ok, s) \<Rightarrow> async_exec e ops (s, hs))"

fun spec_exec :: "async_op list \<Rightarrow> nat \<times> async_item list \<Rightarrow> nat \<times> async_item list" where
  "spec_exec [] st = st"
| "spec_exec (AddAsync cx cb ud # ops) (n, xs) = spec_exec ops (Suc n, insert_item (n, cx, cb, ud) xs)"
| "spec_exec (RemoveAsync k # ops) (n, xs) = spec_exec ops (n, filter (\<lambda>x. fst x \<noteq> k) xs)"
| "spec_exec (EndContext cx # ops) (n, xs) = spec_exec ops (n, filter (\<lambda>x. item_cx x \<noteq> cx) xs)"

text \<open>Only callbacks that are in the list, and not at its head, are removed one by one.\<close>

fun spec_legal :: "async_op list \<Rightarrow> nat \<times> async_item list \<Rightarrow> bool" where
  "spec_legal [] st = True"
| "spec_legal (AddAsync cx cb ud # ops) (n, xs) = spec_legal ops (Suc n, insert_item (n, cx, cb, ud) xs)"
| "spec_legal (RemoveAsync k # ops) (n, xs) =
     (k \<in> fst ` set (tl xs) \<and> spec_legal ops (n, filter (\<lambda>x. fst x \<noteq> k) xs))"
| "spec_legal (EndContext cx # ops) (n, xs) = spec_legal ops (n, filter (\<lambda>x. item_cx x \<noteq> cx) xs)"

definition with_handles :: "ptr list \<Rightarrow> async_item list \<Rightarrow> async_item list" where
  "with_handles hs xs = map (\<lambda>x. (hs ! fst x, snd x)) xs"

definition simulates ::
    "(('a) async_state_scheme, 'e) async_env_scheme \<Rightarrow> ('a) async_state_scheme \<times> ptr list \<Rightarrow> nat \<times> async_item list \<Rightarrow> bool" where
  "simulates e st sp \<longleftrightarrow> (case st of (s, hs) \<Rightarrow> case sp of (n, xs) \<Rightarrow>
     async_list s (with_handles hs xs) \<and> registered e s (with_handles hs xs) \<and> book_ok (cp_runtime e) s
     \<and> sole_owner e s \<and> length hs = n \<and> (\<forall>x \<in> set xs. fst x < n) \<and> distinct (map fst xs))"

lemma with_handles_filter:
  "with_handles hs (filter (\<lambda>x. item_cx x \<noteq> cx) xs) = filter (\<lambda>x. item_cx x \<noteq> cx) (with_handles hs xs)"
  by (induction xs) (auto simp: with_handles_def)

lemma insert_item_handles:
  "\<forall>x \<in> set xs. fst x < length hs \<Longrightarrow>
   with_handles (hs @ [p]) (insert_item (length hs, cx, cb, ud) xs) = insert_item (p, cx, cb, ud) (with_handles hs xs)"
proof -
  assume a: "\<forall>x \<in> set xs. fst x < length hs"
  have m: "with_handles (hs @ [p]) ys = with_handles hs ys" if "set ys \<subseteq> set xs" for ys
    using a that by (auto simp: with_handles_def nth_append)
  have "set (takeWhile P xs) \<subseteq> set xs" "set (dropWhile P xs) \<subseteq> set xs" for P
    by (meson subsetI set_takeWhileD set_dropWhileD)+
  from m [OF this(1)] m [OF this(2)] have
    "with_handles (hs @ [p]) (insert_item (length hs, cx, cb, ud) xs)
      = with_handles hs (takeWhile (\<lambda>y. cx < item_cx y) xs) @ (p, cx, cb, ud)
        # with_handles hs (dropWhile (\<lambda>y. cx < item_cx y) xs)"
    by (simp add: insert_item_def with_handles_def nth_append)
  also have "\<dots> = insert_item (p, cx, cb, ud) (with_handles hs xs)"
    by (simp add: insert_item_def with_handles_def takeWhile_map dropWhile_map comp_def)
  finally show ?thesis .
qed

lemma simulates_add:
  assumes e: "async_env_ok e" and ok: "\<forall>n. malloc_ok e n" and s: "simulates e (s, hs) (n, xs)"
  shows "\<exists>p s'. gpsee_addAsyncCallback e cx cb ud s = Some (p, s')
    \<and> simulates e (s', hs @ [p]) (Suc n, insert_item (n, cx, cb, ud) xs)"
proof -
  from s have a: "async_list s (with_handles hs xs)" "registered e s (with_handles hs xs)" "book_ok (cp_runtime e) s"
    "sole_owner e s" "length hs = n" "\<forall>x \<in> set xs. fst x < n" "distinct (map fst xs)" by (simp_all add: simulates_def)
  from addAsync_ok [OF e a(1-3) ok a(4), of cx cb ud] obtain s' where
    "gpsee_addAsyncCallback e cx cb ud s = Some (next_block s, s')"
    "async_list s' (insert_item (next_block s, cx, cb, ud) (with_handles hs xs))"
    "registered e s' (insert_item (next_block s, cx, cb, ud) (with_handles hs xs))" "book_ok (cp_runtime e) s'" "sole_owner e s'"
    by blast
  moreover have "set (insert_item (n, cx, cb, ud) xs) = insert (n, cx, cb, ud) (set xs)"
  proof -
    have "set xs = set (takeWhile P xs) \<union> set (dropWhile P xs)" for P
      by (metis set_append takeWhile_dropWhile_id)
    then show ?thesis by (auto simp: insert_item_def)
  qed
  moreover have "distinct (map fst (insert_item (n, cx, cb, ud) xs))"
  proof -
    have "mset (insert_item (n, cx, cb, ud) xs) = add_mset (n, cx, cb, ud) (mset xs)"
      by (simp add: insert_item_def) (metis mset_append takeWhile_dropWhile_id)
    then have "mset (map fst (insert_item (n, cx, cb, ud) xs)) = mset (n # map fst xs)" by simp
    moreover have "distinct (n # map fst xs)" using a(6,7) by auto
    ultimately show ?thesis by (metis mset_eq_imp_distinct_iff)
  qed
  ultimately show ?thesis
    using a(5,6) insert_item_handles [of xs hs "next_block s" cx cb ud]
    by (intro exI [of _ "next_block s"] exI [of _ s']) (auto simp: simulates_def less_SucI)
qed

lemma simulates_remove:
  assumes e: "async_env_ok e" and s: "simulates e (s, hs) (n, xs)" and k: "k \<in> fst ` set (tl xs)"
  shows "\<exists>s'. gpsee_removeAsyncCallback (hs ! k) s = Some s' \<and> simulates e (s', hs) (n, filter (\<lambda>x. fst x \<noteq> k) xs)"
proof -
  from s have a: "async_list s (with_handles hs xs)" "registered e s (with_handles hs xs)" "book_ok (cp_runtime e) s"
    "sole_owner e s" "length hs = n" "\<forall>x \<in> set xs. fst x < n" "distinct (map fst xs)" by (simp_all add: simulates_def)
  from k obtain h t where ht: "xs = h # t" "k \<in> fst ` set t" by (cases xs) auto
  then obtain y where y: "y \<in> set t" "fst y = k" by auto
  from split_list [OF y(1)] obtain us ws where "t = us @ y # ws" by blast
  with ht have xs: "xs = (h # us) @ y # ws" by simp
  have l: "async_list s (with_handles hs (h # us) @ [(hs ! k, snd y)] @ with_handles hs ws)"
    using a(1) by (simp add: xs with_handles_def y(2))
  from removeAsync_ok [OF l] obtain s' where r: "gpsee_removeAsyncCallback (hs ! k) s = Some s'"
    "async_list s' (with_handles hs (h # us) @ with_handles hs ws)"
    "s' = s\<lparr>asyncCallbacks := asyncCallbacks s', nodes := nodes s'\<rparr>" by (auto simp: with_handles_def)
  have id: "filter (\<lambda>x. fst x \<noteq> k) zs = zs" if "k \<notin> fst ` set zs" for zs :: "async_item list"
    using that by (induction zs) auto
  have "k \<notin> fst ` set (h # us)" "k \<notin> fst ` set ws" using a(7) y(2) by (auto simp: xs)
  from id [OF this(1)] id [OF this(2)] have f: "filter (\<lambda>x. fst x \<noteq> k) xs = (h # us) @ ws"
    by (simp only: xs filter_append filter.simps(2) y(2) simp_thms if_False)
  have en: "entries s' c = entries s c" for c by (subst r(3)) (simp add: entries_def)
  have "book_ok (cp_runtime e) s'" using a(3) by (subst r(3)) (simp add: book_ok_def entries_def)
  moreover have sub: "set ((h # us) @ ws) \<subseteq> set xs" by (auto simp: xs)
  then have "set (with_handles hs ((h # us) @ ws)) \<subseteq> set (with_handles hs xs)"
    unfolding with_handles_def set_map by (rule image_mono)
  with a(2) have "registered e s' (with_handles hs ((h # us) @ ws))"
    unfolding registered_def en by blast
  moreover have "async_list s' (with_handles hs ((h # us) @ ws))" using r(2) by (simp add: with_handles_def)
  moreover have "sole_owner e s'" using a(4) by (simp add: sole_owner_def en)
  moreover have "\<forall>x \<in> set ((h # us) @ ws). fst x < n" using a(6) sub by blast
  moreover have "distinct (map fst ((h # us) @ ws))" using a(7) by (auto simp: xs)
  ultimately show ?thesis using r(1) a(5) unfolding f simulates_def by (intro exI [of _ s']) simp
qed

lemma simulates_end:
  assumes e: "async_env_ok e" and s: "simulates e (s, hs) (n, xs)"
  shows "\<exists>s'. gpsee_contextCallback e cx JSCONTEXT_DESTROY s = Some (True, s')
    \<and> simulates e (s', hs) (n, filter (\<lambda>x. item_cx x \<noteq> cx) xs)"
proof -
  from s have a: "async_list s (with_handles hs xs)" "registered e s (with_handles hs xs)" "book_ok (cp_runtime e) s"
    "sole_owner e s" "length hs = n" "\<forall>x \<in> set xs. fst x < n" "distinct (map fst xs)" by (simp_all add: simulates_def)
  from destroyContext_async [OF e a(1-4), of cx] a(5-7) show ?thesis
    by (auto simp: simulates_def with_handles_filter distinct_map_filter)
qed

lemma exec_simulates:
  assumes e: "async_env_ok e" and ok: "\<forall>n. malloc_ok e n"
  shows "simulates e st sp \<Longrightarrow> spec_legal ops sp \<Longrightarrow>
    \<exists>st'. async_exec e ops st = Some st' \<and> simulates e st' (spec_exec ops sp)"
proof (induction ops arbitrary: st sp)
  case (Cons op ops)
  obtain s hs n xs where st: "st = (s, hs)" and sp: "sp = (n, xs)" by (cases st; cases sp)
  show ?case
  proof (cases op)
    case (AddAsync cx cb ud)
    with simulates_add [OF e ok Cons.prems(1) [unfolded st sp], of cx cb ud] Cons show ?thesis
      by (fastforce simp: st sp)
  next
    case (RemoveAsync k)
    with simulates_remove [OF e Cons.prems(1) [unfolded st sp], of k] Cons show ?thesis
      by (fastforce simp: st sp)
  next
    case (EndContext cx)
    with simulates_end [OF e Cons.prems(1) [unfolded st sp], of cx] Cons show ?thesis
      by (fastforce simp: st sp)
  qed
qed simp

section \<open>Triggering and running\<close>

lemma trigger_loop_spec:
  "aseg (nodes s) p xs NULL \<Longrightarrow> sorted_wrt (\<lambda>x y. item_cx y \<le> item_cx x) xs \<Longrightarrow> \<forall>x \<in> set xs. item_cx x \<le> cx \<Longrightarrow>
   \<exists>s' ts. trigger_loop cx p s = Some s' \<and> triggered s' = triggered s @ ts \<and> distinct ts
     \<and> set ts = item_cx ` set xs - {cx}"
proof (induction xs arbitrary: p cx s)
  case Nil
  then show ?case by (subst trigger_loop.simps) simp
next
  case (Cons x xs)
  obtain q c cb ud where x: "x = (q, c, cb, ud)" by (metis prod_cases4)
  with Cons.prems(1) obtain n where n: "p = q" "q \<noteq> NULL" "nodes s q = Some n" "a_cx n = c" "aseg (nodes s) (a_next n) xs NULL"
    by auto
  show ?case
  proof (cases "c = cx")
    case True
    with Cons.IH [OF n(5), of cx] Cons.prems n show ?thesis by (subst trigger_loop.simps) (simp add: x)
  next
    case False
    let ?s = "s\<lparr>triggered := triggered s @ [c]\<rparr>"
    have "\<forall>y \<in> set xs. item_cx y \<le> c" using Cons.prems(2) by (simp add: x)
    with Cons.IH [of ?s "a_next n" c] n(5) Cons.prems(2) obtain s' ts where
      t: "trigger_loop c (a_next n) ?s = Some s'" "triggered s' = triggered ?s @ ts" "distinct ts"
      "set ts = item_cx ` set xs - {c}" by auto
    have "cx \<notin> set ts" using Cons.prems(2,3) False by (fastforce simp: t(4) x)
    with t n False Cons.prems(2,3) show ?thesis
      by (subst trigger_loop.simps) (intro exI [of _ s'] exI [of _ "c # ts"], auto simp: x)
  qed
qed

fun run_items ::
    "(('a) async_state_scheme, 'e) async_env_scheme \<Rightarrow> async_item list \<Rightarrow> ('a) async_state_scheme \<Rightarrow>
     (bool \<times> ('a) async_state_scheme) option" where
  "run_items e [] s = Some (True, s)"
| "run_items e ((p, cx, cb, ud) # xs) s =
     (case run_async e cb cx ud p s of
        None \<Rightarrow> None
      | Some (ok, s) \<Rightarrow> if \<not> ok then Some (False, s) else run_items e xs s)"

text \<open>A callback leaves the list alone, or removes itself from it.\<close>

definition removes_only_itself :: "(('a) async_state_scheme, 'e) async_env_scheme \<Rightarrow> bool" where
  "removes_only_itself e \<longleftrightarrow> (\<forall>cb cx ud p s ok s'. run_async e cb cx ud p s = Some (ok, s') \<longrightarrow>
     next_block s \<le> next_block s' \<and>
     (nodes s' = nodes s \<and> asyncCallbacks s' = asyncCallbacks s
      \<or> (\<exists>t. gpsee_removeAsyncCallback p s = Some t \<and> nodes s' = nodes t \<and> asyncCallbacks s' = asyncCallbacks t)))"

lemma run_keeps_rest:
  assumes "removes_only_itself e" and l: "async_list s (ps @ x # xs)"
    and r: "run_async e cb cx ud (fst x) s = Some (ok, s')"
  shows "\<exists>ps'. async_list s' (ps' @ xs)"
proof -
  from assms(1) r have nb: "next_block s \<le> next_block s'"
    and "nodes s' = nodes s \<and> asyncCallbacks s' = asyncCallbacks s
      \<or> (\<exists>t. gpsee_removeAsyncCallback (fst x) s = Some t \<and> nodes s' = nodes t \<and> asyncCallbacks s' = asyncCallbacks t)"
    unfolding removes_only_itself_def by blast+
  then consider "nodes s' = nodes s" "asyncCallbacks s' = asyncCallbacks s"
    | t where "gpsee_removeAsyncCallback (fst x) s = Some t" "nodes s' = nodes t" "asyncCallbacks s' = asyncCallbacks t"
    by blast
  then show ?thesis
  proof cases
    case 1
    from async_list_cong [OF l 1 nb] show ?thesis by (intro exI [of _ "ps @ [x]"]) simp
  next
    case 2
    have d: "distinct (map fst (ps @ x # xs))" using l by (simp add: async_list_def)
    have "ps \<noteq> []"
    proof
      assume "ps = []"
      with d have "fst x \<notin> fst ` set (tl (ps @ x # xs))" by simp
      from removeAsync_crashes [OF l this] 2(1) show False by simp
    qed
    with removeAsync_ok [of s ps x xs] l 2(1) have t: "async_list t (ps @ xs)"
      "t = s\<lparr>asyncCallbacks := asyncCallbacks t, nodes := nodes t\<rparr>" by auto
    have "next_block t = next_block s" by (subst t(2)) simp
    with async_list_cong [of t "ps @ xs" s'] t(1) 2(2,3) nb show ?thesis by (intro exI [of _ ps]) simp
  qed
qed

lemma operation_loop_runs:
  assumes "removes_only_itself e"
  shows "async_list s (ps @ xs) \<Longrightarrow> operation_loop e (first_of xs) s = run_items e xs s"
proof (induction xs arbitrary: ps s)
  case Nil
  then show ?case by (subst operation_loop.simps) (simp add: first_of_def)
next
  case (Cons x xs)
  obtain p cx cb ud where x: "x = (p, cx, cb, ud)" by (metis prod_cases4)
  from async_list_parts(2) [OF Cons.prems] obtain n where n: "p \<noteq> NULL" "nodes s p = Some n" "a_cx n = cx"
    "a_callback n = cb" "a_userdata n = ud" "a_next n = first_of xs" using aseg_first by (auto simp: x first_of_def)
  have f: "first_of (x # xs) = p" by (simp add: first_of_def x)
  show ?case
  proof (cases "run_async e cb cx ud p s")
    case None
    then show ?thesis unfolding f by (subst operation_loop.simps) (simp add: n x)
  next
    case (Some r)
    obtain ok s' where r: "r = (ok, s')" by (cases r)
    from run_keeps_rest [OF assms Cons.prems, of cb cx ud ok s'] Some obtain ps' where
      "async_list s' (ps' @ xs)" by (auto simp: x r)
    from Cons.IH [OF this] Some show ?thesis unfolding f by (subst operation_loop.simps) (simp add: n x r)
  qed
qed

section \<open>Properties\<close>


text \<open>Removing one callback follows a NULL pointer exactly when it is at the head of the list, where
  the last one added to the context with the highest address is (or when it is not in the list);
  otherwise it is unlinked and freed.\<close>

theorem removeAsyncCallback_crashes_iff:
  assumes "async_list s xs"
  shows "(gpsee_removeAsyncCallback cbHnd s = None \<longleftrightarrow> cbHnd \<notin> fst ` set (tl xs))
    \<and> (\<forall>s'. gpsee_removeAsyncCallback cbHnd s = Some s' \<longrightarrow>
         async_list s' (filter (\<lambda>x. fst x \<noteq> cbHnd) xs) \<and> nodes s' cbHnd = None)"
proof (cases "cbHnd \<in> fst ` set (tl xs)")
  case False
  with removeAsync_crashes [OF assms] show ?thesis by simp
next
  case True
  then obtain h t where ht: "xs = h # t" "cbHnd \<in> fst ` set t" by (cases xs) auto
  then obtain y where y: "y \<in> set t" "fst y = cbHnd" by auto
  from split_list [OF y(1)] obtain us ws where "t = us @ y # ws" by blast
  with ht have xs: "xs = (h # us) @ [y] @ ws" by simp
  from removeAsync_ok [of s "h # us" y ws] assms obtain s' where
    r: "gpsee_removeAsyncCallback cbHnd s = Some s'" "async_list s' ((h # us) @ ws)" by (auto simp: xs y(2))
  have d: "distinct (map fst xs)" using assms by (simp add: async_list_def)
  have id: "filter (\<lambda>x. fst x \<noteq> cbHnd) zs = zs" if "cbHnd \<notin> fst ` set zs" for zs :: "async_item list"
    using that by (induction zs) auto
  have n: "cbHnd \<notin> fst ` set (h # us)" "cbHnd \<notin> fst ` set ws" using d y(2) by (auto simp: xs)
  from id [OF n(1)] id [OF n(2)] have f: "filter (\<lambda>x. fst x \<noteq> cbHnd) xs = (h # us) @ ws"
    by (simp only: xs filter_append filter.simps y(2) simp_thms if_False append_Nil)
  have "dom (nodes s') = fst ` set ((h # us) @ ws)" using r(2) unfolding async_list_def by blast
  with n have "cbHnd \<notin> dom (nodes s')" by auto
  then have "nodes s' cbHnd = None" by auto
  with True r f show ?thesis by simp
qed

text \<open>Each turn of the triggering thread triggers every context that has a callback, once.\<close>

theorem trigger_turn_triggers_each:
  assumes "async_list s xs"
  shows "\<exists>s' ts. asyncCallbackTrigger_turn s = Some s' \<and> triggered s' = triggered s @ ts \<and> distinct ts
    \<and> set ts = item_cx ` set xs"
proof (cases xs)
  case Nil
  with assms show ?thesis by (simp add: async_list_def asyncCallbackTrigger_turn_def)
next
  case (Cons x ys)
  obtain q c cb ud where x: "x = (q, c, cb, ud)" by (metis prod_cases4)
  with assms Cons obtain n where n: "asyncCallbacks s = q" "q \<noteq> NULL" "nodes s q = Some n" "a_cx n = c"
    "aseg (nodes s) (a_next n) ys NULL" "sorted_wrt (\<lambda>x y. item_cx y \<le> item_cx x) ys" "\<forall>y \<in> set ys. item_cx y \<le> c"
    by (auto simp: async_list_def)
  let ?s = "s\<lparr>triggered := triggered s @ [c]\<rparr>"
  from trigger_loop_spec [of ?s "a_next n" ys c] n obtain s' ts where
    "trigger_loop c (a_next n) ?s = Some s'" "triggered s' = triggered ?s @ ts" "distinct ts"
    "set ts = item_cx ` set ys - {c}" by auto
  with n show ?thesis
    by (intro exI [of _ s'] exI [of _ "c # ts"]) (auto simp: asyncCallbackTrigger_turn_def Cons x)
qed

text \<open>The operation callback runs the closures of the list in order, each once, although they may remove
  themselves while it does, up to the first that fails; after one that failed it is not
  installed again for the context, and none of them runs any more.\<close>

theorem operation_callback_runs_list:
  assumes "removes_only_itself e" and "async_list s xs"
  shows "gpsee_operationCallback e cx s =
    map_option (\<lambda>(ok, t). (ok, if ok \<and> xs \<noteq> [] then t\<lparr>operation_set := (operation_set t)(cx := True)\<rparr> else t))
      (run_items e xs (s\<lparr>operation_set := (operation_set s)(cx := False)\<rparr>))"
proof -
  let ?s = "s\<lparr>operation_set := (operation_set s)(cx := False)\<rparr>"
  have "async_list ?s ([] @ xs)" using async_list_cong [OF assms(2), of ?s] by simp
  from operation_loop_runs [OF assms(1) this] have
    o: "operation_loop e (first_of xs) ?s = run_items e xs ?s" .
  have f: "asyncCallbacks s = first_of xs" using assms(2) aseg_first by (auto simp: async_list_def)
  have z: "first_of xs = NULL \<longleftrightarrow> xs = []"
    using assms(2) by (cases xs) (auto simp: async_list_def first_of_def)
  show ?thesis
  proof (cases "xs = []")
    case True
    then show ?thesis by (simp add: gpsee_operationCallback_def Let_def f first_of_def)
  next
    case False
    then have "first_of xs \<noteq> NULL" by (simp add: z)
    with False show ?thesis
      by (cases "run_items e xs ?s") (auto simp: gpsee_operationCallback_def Let_def f o)
  qed
qed

section \<open>Taking the list down\<close>

lemma removeAll_ok:
  assumes "async_list s xs"
  shows "\<exists>s'. removeAllAsyncCallbacks_unlocked s = Some s' \<and> async_list s' []"
proof -
  have "\<exists>s'. free_all p t = Some s' \<and> dom (nodes s') = dom (nodes t) - fst ` set ys"
    if "aseg (nodes t) p ys NULL" "distinct (map fst ys)" for ys p t
    using that
  proof (induction ys arbitrary: p t)
    case Nil
    then show ?case by (subst free_all.simps) simp
  next
    case (Cons y ys)
    obtain q c cb ud where y: "y = (q, c, cb, ud)" by (metis prod_cases4)
    with Cons.prems obtain n where n: "p = q" "q \<noteq> NULL" "nodes t q = Some n" "aseg (nodes t) (a_next n) ys NULL"
      "q \<notin> fst ` set ys" "distinct (map fst ys)" by auto
    let ?t = "t\<lparr>nodes := (nodes t)(q := None)\<rparr>"
    have "aseg (nodes ?t) (a_next n) ys NULL" using n(4,5) by simp
    from Cons.IH [OF this n(6)] obtain s' where "free_all (a_next n) ?t = Some s'"
      "dom (nodes s') = dom (nodes ?t) - fst ` set ys" by blast
    with n show ?case by (subst free_all.simps) (auto simp: y free_node_def)
  qed
  with assms obtain s' where f: "free_all (asyncCallbacks s) s = Some s'" "dom (nodes s') = {}"
    unfolding async_list_def by (metis Diff_cancel)
  then show ?thesis by (auto simp: removeAllAsyncCallbacks_unlocked_def async_list_def)
qed

section \<open>The program's environment, and witnesses\<close>

text \<open>The callback registered with the private storage, and closures of which one kind removes
  itself as the output hooks of gpsee\_hookable\_io.c do.\<close>

definition gpsee_env :: "async_state async_env" where
  "gpsee_env =
     \<lparr>cp_runtime = 1, malloc_ok = (\<lambda>n. True),
      run_cb = (\<lambda>cb cx contextOp s. if cb = 2 then map_option snd (gpsee_removeAsyncCallbackContext cx contextOp s)
                                   else Some s),
      async_id = 3, async_cb = 2,
      run_async = (\<lambda>cb cx ud hnd s. if cb = 4 then map_option (Pair True) (gpsee_removeAsyncCallback hnd s)
                                   else Some (True, s))\<rparr>"

lemma gpsee_env_ok: "async_env_ok gpsee_env"
  by (auto simp: async_env_ok_def gpsee_env_def)

interpretation async: context_callbacks gpsee_env "\<lambda>s. \<exists>xs. async_list s xs"
  by (rule async_context_callbacks [OF gpsee_env_ok])

lemma gpsee_env_removes: "removes_only_itself gpsee_env"
  unfolding removes_only_itself_def
proof (intro allI impI)
  fix cb cx ud p ok
  fix s s' :: async_state
  assume r: "run_async gpsee_env cb cx ud p s = Some (ok, s')"
  have "next_block t = next_block s" if "gpsee_removeAsyncCallback p s = Some t" for t
    using that by (auto simp: gpsee_removeAsyncCallback_def bind_eq_Some_conv free_node_def split: option.splits)
  with r show "next_block s \<le> next_block s' \<and>
     (nodes s' = nodes s \<and> asyncCallbacks s' = asyncCallbacks s
      \<or> (\<exists>t. gpsee_removeAsyncCallback p s = Some t \<and> nodes s' = nodes t \<and> asyncCallbacks s' = asyncCallbacks t))"
    by (cases "cb = 4") (auto simp: gpsee_env_def)
qed

definition no_async :: async_state where
  "no_async = \<lparr>cx_private = (\<lambda>cx. None), cx_callback_set = False, blocks = (\<lambda>p. None), next_block = 10, cp_clock = 0,
     cb_calls = [], asyncCallbacks = 0, nodes = (\<lambda>p. None), operation_set = (\<lambda>cx. False), triggered = []\<rparr>"

definition two_async :: async_state where
  "two_async = no_async\<lparr>asyncCallbacks := 5, nodes := [5 \<mapsto> \<lparr>a_cx = 16, a_callback = 9, a_userdata = 0, a_next = 6\<rparr>,
     6 \<mapsto> \<lparr>a_cx = 8, a_callback = 4, a_userdata = 0, a_next = 0\<rparr>]\<rparr>"

lemma two_async_list: "async_list two_async [(5, 16, 9, 0), (6, 8, 4, 0)]"
  by (auto simp: async_list_def two_async_def no_async_def)


theorem removeAsyncCallback_crashes_iff_witness:
  "gpsee_removeAsyncCallback 5 two_async = None \<and> gpsee_removeAsyncCallback 6 two_async \<noteq> None"
  using removeAsyncCallback_crashes_iff [OF two_async_list, of 5] removeAsyncCallback_crashes_iff [OF two_async_list, of 6]
  by simp

theorem trigger_turn_triggers_each_witness:
  "\<exists>s' ts. asyncCallbackTrigger_turn two_async = Some s' \<and> triggered s' = triggered two_async @ ts \<and> distinct ts
    \<and> set ts = {16, 8}"
  using trigger_turn_triggers_each [OF two_async_list] by simp

theorem operation_callback_runs_list_witness:
  "\<exists>t. gpsee_operationCallback gpsee_env 8 two_async = Some (True, t) \<and> operation_set t 8 \<and> nodes t 6 = None"
proof -
  let ?s = "two_async\<lparr>operation_set := (operation_set two_async)(8 := False)\<rparr>"
  have l: "async_list ?s [(5, 16, 9, 0), (6, 8, 4, 0)]" using async_list_cong [OF two_async_list, of ?s] by simp
  from removeAsyncCallback_crashes_iff [OF l, of 6] obtain t where
    "gpsee_removeAsyncCallback 6 ?s = Some t" "nodes t 6 = None" by auto
  moreover from this(1) have "gpsee_operationCallback gpsee_env 8 two_async
      = Some (True, t\<lparr>operation_set := (operation_set t)(8 := True)\<rparr>)"
    by (simp add: operation_callback_runs_list [OF gpsee_env_removes two_async_list]) (auto simp: gpsee_env_def)
  ultimately show ?thesis by simp
qed

end
