(* ===== verification/Realms.thy ===== *)
theory Realms
  imports ModuleSystem GCCallbacks MonitorSystem AsyncCallbacks
begin

text \<open>
  Realms and contexts, gpsee\_realms.c: the component that puts the others together.  The
  state \<open>rt_state\<close> is that of the runtime (gpsee\_runtime\_t) with the contexts of the
  engine and the realms (gpsee\_realm\_t), each of which holds the state of a module system;
  it extends the state of the asynchronous callbacks and of the private storage, which a dying
  context is told of.  The monitor calls are recorded in \<open>pr_calls\<close>.

  What the engine does to the objects of a realm is decided by the environment of its module
  system (\<open>realm_env\<close>).  The value \<open>None\<close> stands for the use of freed or NULL memory and
  for the end of the process.  The build is that without GPSEE\_DEBUG\_BUILD.
\<close>

section \<open>State\<close>

record js_context =
  requests :: nat
  cx_global :: ptr
  initialized :: bool

text \<open>A hooked file descriptor; output that waits for its context to stop throwing.  What the user
  I/O functions of the runtime do is \<open>Bare\<close> (those of stdio) or \<open>Hooked\<close>.\<close>

record io_hook =
  hook_input :: jsval
  hook_output :: jsval
  hook_realm :: ptr

record pendingWrite_data =
  pw_buf :: string
  pw_hookFn :: jsval

datatype io_table = Bare | Hooked

datatype hook_result = Hook_throws | Hook_int int | Hook_string string | Hook_other

record realm =
  r_mst :: mst
  r_cachedCx :: ptr
  r_moduleObjectProto :: ptr
  r_pendingWrites :: "dstore option"
  r_dir_monitor :: ptr

record rt_state = async_state +
  contexts :: "ptr \<Rightarrow> js_context option"
  realm_tab :: "ptr \<Rightarrow> realm option"
  realms :: dstore
  realmsByContext :: dstore
  gcCallbackList :: dstore
  mons :: mon_rt
  mon_realms :: ptr
  mon_cx :: ptr
  mon_user_io :: ptr
  io_hooks :: "io_hook list"
  hooks_len :: nat
  io_table :: io_table
  pending_tab :: "ptr \<Rightarrow> pendingWrite_data option"
  roots :: "ptr list"
  written :: "(jsval \<times> string) list"
  stdio_out :: "(int \<times> string) list"
  marked :: "jsval list"
  pr_calls :: pr_trace

record rt_env = "rt_state async_env" +
  realm_env :: scope_env
  env_path :: "string option"
  cfg_jail :: "string option"
  cfg_libexec :: string
  module_gc :: ptr
  other_gc :: "ptr \<Rightarrow> ptr \<Rightarrow> JSGCStatus \<Rightarrow> rt_state \<Rightarrow> bool \<times> rt_state"
  scope_realm :: "ptr \<Rightarrow> ptr"
  call_hook :: "jsval \<Rightarrow> string \<Rightarrow> nat \<Rightarrow> hook_result"
  throwing :: "ptr \<Rightarrow> nat \<Rightarrow> bool"
  junk_hook :: "nat \<Rightarrow> io_hook"
  c_fwrite :: "int \<Rightarrow> string \<Rightarrow> nat \<Rightarrow> nat"
  c_fread :: "int \<Rightarrow> nat \<Rightarrow> nat \<Rightarrow> string"
  c_fgets :: "int \<Rightarrow> nat \<Rightarrow> nat \<Rightarrow> string option"
  c_fgetc :: "int \<Rightarrow> nat \<Rightarrow> int"
  uio_gc :: ptr
  uio_dump :: ptr
  maybe_gc :: ptr

text \<open>A realm whose memory was just cleared.\<close>

definition memset_realm :: realm where
  "memset_realm =
     \<lparr>r_mst = \<lparr>modules = Leaf, unreachableModule_llist = NULL, globalObject = NULL, userModulePath = NULL,
        modulePath = [], moduleJail = None, moduleData = None, programModule = NULL, programModuleDir = None,
        requireDotMain = NULL, handles = (\<lambda>_. None), scope_info = (\<lambda>_. None), props = (\<lambda>_ _. None),
        slots = (\<lambda>_ _. JSVAL_VOID), script_argv = None, requireLockDepth = 0, next_ptr = 1, clock = 0, events = []\<rparr>,
      r_cachedCx = NULL, r_moduleObjectProto = NULL, r_pendingWrites = None, r_dir_monitor = NULL\<rparr>"

text \<open>What calloc leaves of the runtime; pointer 0 is NULL.\<close>

definition no_store :: dstore where
  "no_store = \<lparr>ds_data = [], ds_monitor = NULL, ds_grt = NULL, ds_flags = 0\<rparr>"

definition blank_runtime :: rt_state where
  "blank_runtime =
     \<lparr>cx_private = (\<lambda>_. None), cx_callback_set = False, blocks = (\<lambda>_. None), next_block = 1, cp_clock = 0, cb_calls = [],
      asyncCallbacks = NULL, nodes = (\<lambda>_. None), operation_set = (\<lambda>_. False), triggered = [],
      contexts = (\<lambda>_. None), realm_tab = (\<lambda>_. None), realms = no_store, realmsByContext = no_store,
      gcCallbackList = no_store, mons = \<lparr>mon_monitor = NULL, mon_list = None\<rparr>, mon_realms = NULL, mon_cx = NULL,
      mon_user_io = NULL, io_hooks = [], hooks_len = 0, io_table = Bare, pending_tab = (\<lambda>_. None), roots = [],
      written = [], stdio_out = [], marked = [], pr_calls = []\<rparr>"

section \<open>Monitors, contexts, collections\<close>

text \<open>An automatic monitor is made when it is first entered; making it cannot fail, listing it can.\<close>

definition record_calls :: "pr_trace \<Rightarrow> rt_state \<Rightarrow> rt_state" where
  "record_calls tr s = s\<lparr>pr_calls := pr_calls s @ tr\<rparr>"

definition enter_auto ::
    "rt_env \<Rightarrow> (rt_state \<Rightarrow> ptr) \<Rightarrow> (ptr \<Rightarrow> rt_state \<Rightarrow> rt_state) \<Rightarrow> rt_state \<Rightarrow> rt_state option" where
  "enter_auto e get put s =
     (case malloc_try e s of (ok, s) \<Rightarrow>
      case gpsee_enterAutoMonitorRT (next_block s) ok (mons s) (get s) of
        None \<Rightarrow> None
      | Some (m, g, tr) \<Rightarrow>
          Some (put m (record_calls tr (s\<lparr>next_block := Suc (next_block s), mons := g\<rparr>))))"

definition leave_auto :: "ptr \<Rightarrow> rt_state \<Rightarrow> rt_state" where
  "leave_auto m s = record_calls (gpsee_leaveAutoMonitor m) s"

abbreviation enter_realms :: "rt_env \<Rightarrow> rt_state \<Rightarrow> rt_state option" where
  "enter_realms e \<equiv> enter_auto e mon_realms (\<lambda>m. mon_realms_update (\<lambda>_. m))"

abbreviation enter_cx :: "rt_env \<Rightarrow> rt_state \<Rightarrow> rt_state option" where
  "enter_cx e \<equiv> enter_auto e mon_cx (\<lambda>m. mon_cx_update (\<lambda>_. m))"

abbreviation enter_user_io :: "rt_env \<Rightarrow> rt_state \<Rightarrow> rt_state option" where
  "enter_user_io e \<equiv> enter_auto e mon_user_io (\<lambda>m. mon_user_io_update (\<lambda>_. m))"

text \<open>The engine's contexts.  Destroying one calls the context callback of the runtime, if it is set.\<close>

definition JS_NewContext :: "rt_env \<Rightarrow> rt_state \<Rightarrow> ptr \<times> rt_state" where
  "JS_NewContext e s =
     (case malloc_try e s of (ok, s) \<Rightarrow>
        if ok then (next_block s, s\<lparr>next_block := Suc (next_block s),
            contexts := (contexts s)(next_block s \<mapsto> \<lparr>requests = 0, cx_global = NULL, initialized = False\<rparr>)\<rparr>)
        else (NULL, s))"

definition upd_context :: "ptr \<Rightarrow> (js_context \<Rightarrow> js_context) \<Rightarrow> rt_state \<Rightarrow> rt_state option" where
  "upd_context cx f s = map_option (\<lambda>c. s\<lparr>contexts := (contexts s)(cx \<mapsto> f c)\<rparr>) (contexts s cx)"

definition JS_BeginRequest :: "ptr \<Rightarrow> rt_state \<Rightarrow> rt_state option" where
  "JS_BeginRequest cx s = upd_context cx (\<lambda>c. c\<lparr>requests := Suc (requests c)\<rparr>) s"

definition JS_EndRequest :: "ptr \<Rightarrow> rt_state \<Rightarrow> rt_state option" where
  "JS_EndRequest cx s = upd_context cx (\<lambda>c. c\<lparr>requests := requests c - 1\<rparr>) s"

definition JS_DestroyContext :: "rt_env \<Rightarrow> ptr \<Rightarrow> rt_state \<Rightarrow> rt_state option" where
  "JS_DestroyContext e cx s =
     (case contexts s cx of
        None \<Rightarrow> None
      | Some c \<Rightarrow>
          Option.bind (if cx_callback_set s then map_option snd (gpsee_contextCallback e cx JSCONTEXT_DESTROY s) else Some s)
            (\<lambda>s. Some (s\<lparr>contexts := (contexts s)(cx := None)\<rparr>)))"

text \<open>
  A collection calls back with each status in turn.  The program's own callback is
  \<open>moduleGCCallback\<close> on the realm it was registered for; it must not have been freed.
  An iteration whose callback may fail runs on an optional state.
\<close>

definition the_store :: "('s \<Rightarrow> dstore) \<Rightarrow> 's option \<Rightarrow> dstore" where
  "the_store get s = (case s of Some s \<Rightarrow> get s
     | None \<Rightarrow> \<lparr>ds_data = [], ds_monitor = nilMonitor, ds_grt = NULL, ds_flags = 0\<rparr>)"

definition try_cb :: "(ptr \<Rightarrow> ptr \<Rightarrow> 's \<Rightarrow> (bool \<times> 's) option) \<Rightarrow> 's option forEach_fn" where
  "try_cb cb key val s =
     (case Option.bind s (cb key val) of None \<Rightarrow> (False, None, []) | Some (ok, s) \<Rightarrow> (ok, Some s, []))"

definition run_gc_cb :: "rt_env \<Rightarrow> JSGCStatus \<Rightarrow> ptr \<Rightarrow> ptr \<Rightarrow> rt_state \<Rightarrow> (bool \<times> rt_state) option" where
  "run_gc_cb e status fn realm s =
     (if fn = module_gc e then
        (case realm_tab s realm of
           None \<Rightarrow> None
         | Some r \<Rightarrow> map_option (\<lambda>(ok, m). (ok, s\<lparr>realm_tab := (realm_tab s)(realm \<mapsto> r\<lparr>r_mst := m\<rparr>)\<rparr>))
             (moduleGCCallback status (r_mst r)))
      else Some (other_gc e fn realm status s))"

fun run_statuses :: "rt_env \<Rightarrow> JSGCStatus list \<Rightarrow> rt_state \<Rightarrow> rt_state option" where
  "run_statuses e [] s = Some s"
| "run_statuses e (status # ss) s =
     (case gpsee_ds_forEach (the_store gcCallbackList) (try_cb (run_gc_cb e status)) (Some s) of
        Some (ok, Some s, tr) \<Rightarrow> run_statuses e ss (record_calls tr s)
      | _ \<Rightarrow> None)"

definition JS_GC :: "rt_env \<Rightarrow> rt_state \<Rightarrow> rt_state option" where
  "JS_GC e s = run_statuses e [JSGC_BEGIN, JSGC_MARK_END, JSGC_FINALIZE_END, JSGC_END] s"

section \<open>Finding the realm of a context\<close>

text \<open>The assertions of the debug build are not part of the model; that the class of the global object
  is GPSEE's only matters to them.\<close>

definition getRealm :: "rt_env \<Rightarrow> ptr \<Rightarrow> rt_state \<Rightarrow> (ptr \<times> rt_state) option" where
  "getRealm e cx s =
     (if scope_realm e cx \<noteq> NULL then Some (scope_realm e cx, s)
      else Option.bind (enter_realms e s) (\<lambda>s.
        case gpsee_ds_get (realmsByContext s) cx of (realm, tr) \<Rightarrow>
          Some (realm, leave_auto (mon_realms s) (record_calls tr s))))"

text \<open>The second component: whether an exception was thrown.\<close>

definition gpsee_getRealm :: "rt_env \<Rightarrow> ptr \<Rightarrow> rt_state \<Rightarrow> (ptr \<times> bool \<times> rt_state) option" where
  "gpsee_getRealm e cx s = map_option (\<lambda>(realm, s). (realm, realm = NULL, s)) (getRealm e cx s)"

section \<open>Creating a realm\<close>

definition upd_realm :: "ptr \<Rightarrow> (realm \<Rightarrow> realm) \<Rightarrow> rt_state \<Rightarrow> rt_state option" where
  "upd_realm p f s = map_option (\<lambda>r. s\<lparr>realm_tab := (realm_tab s)(p \<mapsto> f r)\<rparr>) (realm_tab s p)"

text \<open>One step of the engine or of the module system on the realm's own state.\<close>

definition on_mst ::
    "ptr \<Rightarrow> (mst \<Rightarrow> ('r \<times> mst) option) \<Rightarrow> rt_state \<Rightarrow> ('r \<times> rt_state) option" where
  "on_mst p f s =
     Option.bind (realm_tab s p) (\<lambda>r.
     Option.bind (f (r_mst r)) (\<lambda>(x, m). Some (x, s\<lparr>realm_tab := (realm_tab s)(p \<mapsto> r\<lparr>r_mst := m\<rparr>)\<rparr>)))"

text \<open>\<open>gpsee_initGlobalObject\<close> of gpsee.c, on the state of the realm's objects.\<close>

definition gpsee_initGlobalObject :: "('e) scope_env_scheme \<Rightarrow> ptr \<Rightarrow> mst \<Rightarrow> (bool \<times> mst) option" where
  "gpsee_initGlobalObject e obj s =
     (case call e ''JS_InitStandardClasses'' s of (ok, s) \<Rightarrow>
      if \<not> ok then Some (False, s)
      else case define_property e obj ''gpseeNamespace'' (STRING_TO_JSVAL ''gpsee'') 0 s of (ok, s) \<Rightarrow>
      if \<not> ok then Some (False, s)
      else case call e ''JS_DefineFunction'' s of (ok, s) \<Rightarrow>
      if \<not> ok then Some (False, s)
      else gpsee_modulizeGlobal e obj (Some ''gpsee_initGlobalObject'') 0 s)"

text \<open>The part after \<open>err_out\<close>: only the memory of the realm and the context are given back.\<close>

definition create_fails :: "rt_env \<Rightarrow> ptr \<Rightarrow> ptr \<Rightarrow> rt_state \<Rightarrow> (ptr \<times> rt_state) option" where
  "create_fails e cx realm s =
     Option.bind (JS_DestroyContext e cx (if realm \<noteq> NULL then s\<lparr>realm_tab := (realm_tab s)(realm := None)\<rparr> else s))
       (\<lambda>s. Some (NULL, leave_auto (mon_realms s) s))"

text \<open>The module system and the global object of the realm; a failing \<open>gpsee_initializeModuleSystem\<close>
  is a panic.\<close>

definition start_modules :: "rt_env \<Rightarrow> ptr \<Rightarrow> ptr \<Rightarrow> rt_state \<Rightarrow> (ptr \<times> rt_state) option" where
  "start_modules e cx realm s =
     Option.bind (realm_tab s realm) (\<lambda>r.
     Option.bind (gpsee_initializeModuleSystem (realm_env e) (env_path e) (cfg_jail e) (cfg_libexec e) realm (module_gc e)
                    (r_mst r) (mons s) (gcCallbackList s)) (\<lambda>(ok, m, g, gcs).
     if \<not> ok then None
     else
       let s = s\<lparr>realm_tab := (realm_tab s)(realm \<mapsto> r\<lparr>r_mst := m\<rparr>), mons := g, gcCallbackList := gcs\<rparr> in
       Option.bind (on_mst realm (\<lambda>m. gpsee_initGlobalObject (realm_env e) (globalObject m) m) s) (\<lambda>(ok, s).
       if \<not> ok then create_fails e cx realm s
       else Option.bind (upd_realm realm (\<lambda>r. r\<lparr>r_cachedCx := cx\<rparr>) s) (\<lambda>s.
            Option.bind (JS_EndRequest cx (leave_auto (mon_realms s) s)) (\<lambda>s. Some (realm, s))))))"

text \<open>The part that runs once the realm's memory and its store exist.\<close>

definition furnish_realm :: "rt_env \<Rightarrow> ptr \<Rightarrow> ptr \<Rightarrow> rt_state \<Rightarrow> (ptr \<times> rt_state) option" where
  "furnish_realm e cx realm s =
     Option.bind (on_mst realm (\<lambda>m. Some (case call_new (realm_env e) ''JS_NewGlobalObject'' m of (g, m) \<Rightarrow>
                    (g, m\<lparr>globalObject := g\<rparr>))) s) (\<lambda>(g, s).
     if g = NULL then create_fails e cx realm s
     else Option.bind (on_mst realm (\<lambda>m. Some (call_new (realm_env e) ''JS_InitClass'' m)) s) (\<lambda>(proto, s).
     Option.bind (upd_realm realm (\<lambda>r. r\<lparr>r_moduleObjectProto := proto\<rparr>) s) (\<lambda>s.
     if proto = NULL then create_fails e cx realm s
     else
       let s = s\<lparr>roots := realm # roots s\<rparr> in
       case malloc_try e s of (ok, s) \<Rightarrow>
       case gpsee_ds_put ok (realms s) realm NULL of (ok, st, tr) \<Rightarrow>
       let s = record_calls tr (s\<lparr>realms := st\<rparr>) in
       if \<not> ok then create_fails e cx realm s else start_modules e cx realm s)))"

text \<open>When the store of pending writes cannot be made, the function returns at once.\<close>

definition gpsee_createRealm :: "rt_env \<Rightarrow> rt_state \<Rightarrow> (ptr \<times> rt_state) option" where
  "gpsee_createRealm e s =
     (case JS_NewContext e s of (cx, s) \<Rightarrow>
      if cx = NULL then Some (NULL, s)
      else Option.bind (JS_BeginRequest cx s) (\<lambda>s.
      Option.bind (enter_realms e s) (\<lambda>s.
      case malloc_try e s of (ok, s) \<Rightarrow>
      if \<not> ok then create_fails e cx NULL s
      else
        let realm = next_block s;
            s = s\<lparr>next_block := Suc (next_block s), realm_tab := (realm_tab s)(realm \<mapsto> memset_realm)\<rparr> in
        case malloc_try e s of (c1, s) \<Rightarrow>
        case malloc_try e s of (c2, s) \<Rightarrow>
        Option.bind (gpsee_ds_create c1 True (next_block s) c2 NULL (mons s) GPSEE_DS_OTM_KEYS 0) (\<lambda>(ds, g, tr).
        let s = record_calls tr (s\<lparr>next_block := Suc (next_block s), mons := g\<rparr>) in
        if ds = None then Some (NULL, s)
        else Option.bind (upd_realm realm (\<lambda>r. r\<lparr>r_pendingWrites := ds\<rparr>) s) (furnish_realm e cx realm)))))"

section \<open>Contexts of a realm\<close>

definition gpsee_createContext :: "rt_env \<Rightarrow> ptr \<Rightarrow> rt_state \<Rightarrow> (ptr \<times> rt_state) option" where
  "gpsee_createContext e realm s =
     (if realm = NULL then Some (NULL, s)
      else Option.bind (realm_tab s realm) (\<lambda>r.
      Option.bind (enter_cx e s) (\<lambda>s.
      case (if r_cachedCx r \<noteq> NULL
            then (r_cachedCx r, s\<lparr>realm_tab := (realm_tab s)(realm \<mapsto> r\<lparr>r_cachedCx := NULL\<rparr>)\<rparr>)
            else JS_NewContext e s) of (cx, s) \<Rightarrow>
      if cx = NULL then None
      else case malloc_try e s of (ok, s) \<Rightarrow>
      case gpsee_ds_put ok (realmsByContext s) cx realm of (ok, st, tr) \<Rightarrow>
      let s = record_calls tr (s\<lparr>realmsByContext := st\<rparr>) in
      if \<not> ok then
        Option.bind (JS_DestroyContext e cx s) (\<lambda>s. Some (NULL, leave_auto (mon_cx s) s))
      else
        Option.bind (JS_BeginRequest cx (leave_auto (mon_cx s) s)) (\<lambda>s.
        Option.bind (upd_context cx (\<lambda>c. c\<lparr>cx_global := globalObject (r_mst r), initialized := True\<rparr>) s) (\<lambda>s.
        Some (cx, s\<lparr>operation_set := (operation_set s)(cx := True)\<rparr>))))))"

text \<open>The monitor is entered through the dying context, and its address looked up after its end.\<close>

definition gpsee_destroyContext :: "rt_env \<Rightarrow> ptr \<Rightarrow> rt_state \<Rightarrow> rt_state option" where
  "gpsee_destroyContext e cx s =
     Option.bind (JS_EndRequest cx s) (\<lambda>s.
     Option.bind (enter_cx e s) (\<lambda>s.
     Option.bind (JS_DestroyContext e cx s) (\<lambda>s.
     case gpsee_ds_remove (realmsByContext s) cx of (realm, st, tr) \<Rightarrow>
       Some (leave_auto (mon_cx s) (record_calls tr (s\<lparr>realmsByContext := st\<rparr>))))))"

section \<open>Destroying a realm\<close>

text \<open>Text handed to a hook.  Being out of memory here is the end of the process; the realm must exist.
  \<open>call_hook\<close> is what the script answers, by the number of texts handed over before.\<close>

definition uio_fwrite_js :: "rt_env \<Rightarrow> ptr \<Rightarrow> jsval \<Rightarrow> string \<Rightarrow> rt_state \<Rightarrow> (nat \<times> rt_state) option" where
  "uio_fwrite_js e realm hookFn buf s =
     (case malloc_try e s of (ok, s) \<Rightarrow>
      if \<not> ok then None
      else Option.bind (realm_tab s realm) (\<lambda>_.
        let rval = (case call_hook e hookFn buf (length (written s)) of Hook_throws \<Rightarrow> Hook_int 0 | r \<Rightarrow> r);
            s = s\<lparr>written := written s @ [(hookFn, buf)]\<rparr>
        in Some (case rval of Hook_int n \<Rightarrow> (if n < 0 then 0 else nat n) | _ \<Rightarrow> length buf, s)))"

text \<open>The pending writes are blocks named by the keys of the store.\<close>

definition uio_dumpPendingWrites_cb :: "rt_env \<Rightarrow> ptr \<Rightarrow> ptr \<Rightarrow> ptr \<Rightarrow> rt_state \<Rightarrow> (bool \<times> rt_state) option" where
  "uio_dumpPendingWrites_cb e realm key val s =
     Option.bind (pending_tab s key) (\<lambda>data.
     Option.bind (uio_fwrite_js e realm (pw_hookFn data) (pw_buf data) s) (\<lambda>(n, s).
       Some (True, s\<lparr>pending_tab := (pending_tab s)(key := None)\<rparr>)))"

definition gpsee_uio_dumpPendingWrites :: "rt_env \<Rightarrow> ptr \<Rightarrow> rt_state \<Rightarrow> rt_state option" where
  "gpsee_uio_dumpPendingWrites e realm s =
     Option.bind (realm_tab s realm) (\<lambda>r.
     Option.bind (r_pendingWrites r) (\<lambda>d.
       case gpsee_ds_forEach (the_store (\<lambda>s. d)) (try_cb (uio_dumpPendingWrites_cb e realm)) (Some s) of
         Some (ok, Some s, tr) \<Rightarrow>
           (case gpsee_ds_empty d of (d, tr') \<Rightarrow>
              upd_realm realm (\<lambda>r. r\<lparr>r_pendingWrites := Some d\<rparr>) (record_calls (tr @ tr') s))
       | _ \<Rightarrow> None))"

text \<open>Every entry of the runtime's array of hooks is cleared, whichever realm it belongs to.  The zero
  bits of a cleared hook are those of null, not of the value that stands for no hook.\<close>

definition memset_hook :: io_hook where
  "memset_hook = \<lparr>hook_input = JSVAL_NULL, hook_output = JSVAL_NULL, hook_realm = NULL\<rparr>"

fun clear_hooks :: "rt_env \<Rightarrow> nat \<Rightarrow> rt_state \<Rightarrow> rt_state option" where
  "clear_hooks e 0 s = Some s"
| "clear_hooks e (Suc n) s =
     Option.bind (enter_user_io e s) (\<lambda>s.
       if length (io_hooks s) \<le> hooks_len s - Suc n then None
       else clear_hooks e n (leave_auto (mon_user_io s)
         (s\<lparr>io_hooks := (io_hooks s)[hooks_len s - Suc n := memset_hook]\<rparr>)))"

definition destroyRealmContext_cb :: "rt_env \<Rightarrow> ptr \<Rightarrow> ptr \<Rightarrow> ptr \<Rightarrow> rt_state \<Rightarrow> (bool \<times> rt_state) option" where
  "destroyRealmContext_cb e dying_realm context realm s =
     (if realm = dying_realm then map_option (Pair True) (gpsee_destroyContext e context s) else Some (True, s))"

definition dir_monitor :: "ptr \<Rightarrow> rt_state \<Rightarrow> ptr" where
  "dir_monitor realm s = (case realm_tab s realm of None \<Rightarrow> NULL | Some r \<Rightarrow> r_dir_monitor r)"

definition set_dir_monitor :: "ptr \<Rightarrow> ptr \<Rightarrow> rt_state \<Rightarrow> rt_state" where
  "set_dir_monitor realm m s =
     s\<lparr>realm_tab := (realm_tab s)(realm := map_option (\<lambda>r. r\<lparr>r_dir_monitor := m\<rparr>) (realm_tab s realm))\<rparr>"

abbreviation enter_dir :: "rt_env \<Rightarrow> ptr \<Rightarrow> rt_state \<Rightarrow> rt_state option" where
  "enter_dir e realm \<equiv> enter_auto e (dir_monitor realm) (set_dir_monitor realm)"

text \<open>The contexts, the final clean-up and the memory of the realm.  The calling context is used
  again after the contexts of the realm are gone.\<close>

definition destroy_rest :: "rt_env \<Rightarrow> ptr \<Rightarrow> ptr \<Rightarrow> rt_state \<Rightarrow> (bool \<times> rt_state) option" where
  "destroy_rest e cx realm s =
     (case gpsee_ds_forEach (the_store realmsByContext) (try_cb (destroyRealmContext_cb e realm)) (Some s) of
        Some (ok, Some s, tr) \<Rightarrow>
          let s = record_calls tr s in
          Option.bind (contexts s cx) (\<lambda>_.
          if \<not> ok then Some (False, s)
          else
            Option.bind (on_mst realm (\<lambda>m. map_option (Pair ()) (gpsee_moduleSystemCleanup (realm_env e) m)) s) (\<lambda>(_, s).
            Option.bind (realm_tab s realm) (\<lambda>r.
            Option.bind (if r_cachedCx r \<noteq> NULL then JS_DestroyContext e (r_cachedCx r) s else Some s) (\<lambda>s.
            Option.bind (r_pendingWrites r) (\<lambda>d.
            Option.bind (gpsee_ds_destroy d (mons s)) (\<lambda>(g, tr).
            Option.bind (contexts s cx) (\<lambda>_.
              Some (True, record_calls tr (s\<lparr>mons := g, realm_tab := (realm_tab s)(realm := None)\<rparr>)))))))))
      | _ \<Rightarrow> None)"

definition gpsee_destroyRealm :: "rt_env \<Rightarrow> ptr \<Rightarrow> ptr \<Rightarrow> rt_state \<Rightarrow> (bool \<times> rt_state) option" where
  "gpsee_destroyRealm e cx realm s =
     Option.bind (gpsee_uio_dumpPendingWrites e realm s) (\<lambda>s.
     Option.bind (clear_hooks e (hooks_len s) s) (\<lambda>s.
     let s = s\<lparr>roots := remove1 realm (roots s)\<rparr> in
     Option.bind (upd_context cx (\<lambda>c. c\<lparr>cx_global := NULL\<rparr>) s) (\<lambda>s.
     Option.bind (JS_EndRequest cx s) (\<lambda>s.
     Option.bind (JS_GC e s) (\<lambda>s.
     Option.bind (JS_BeginRequest cx s) (\<lambda>s.
     Option.bind (realm_tab s realm) (\<lambda>r.
     Option.bind (gpsee_shutdownModuleSystem (realm_env e) (r_mst r) (mons s)) (\<lambda>(m, g).
     let s = s\<lparr>realm_tab := (realm_tab s)(realm \<mapsto> r\<lparr>r_mst := m\<rparr>), mons := g\<rparr> in
     Option.bind (gpsee_removeAllGCCallbacks_forRealm (gcCallbackList s) realm) (\<lambda>(ok, gcs, tr).
     let s = record_calls tr (s\<lparr>gcCallbackList := gcs\<rparr>) in
     Option.bind (enter_dir e realm s) (\<lambda>s.
     Option.bind (upd_realm realm (\<lambda>r. r\<lparr>r_mst := (r_mst r)\<lparr>programModuleDir := None\<rparr>\<rparr>) s) (\<lambda>s.
     destroy_rest e cx realm (leave_auto (dir_monitor realm s) s))))))))))))"

section \<open>What dies with a context\<close>

text \<open>The part of the state that is about private storage and asynchronous callbacks.\<close>

definition async_ok :: "rt_env \<Rightarrow> rt_state \<Rightarrow> bool" where
  "async_ok e s \<longleftrightarrow> (\<exists>xs. async_list s xs \<and> registered e s xs) \<and> book_ok (cp_runtime e) s \<and> sole_owner e s"

lemma more_more: "cp_state.more t = cp_state.more s \<Longrightarrow> async_state.more t = async_state.more s"
  for s t :: "('a) async_state_scheme"
  by (cases s; cases t) simp

lemma removeContext_frame:
  "gpsee_removeAsyncCallbackContext cx contextOp s = Some (b, s') \<Longrightarrow> async_state.more s' = async_state.more s"
proof -
  have fs: "free_segment cc p s = Some s' \<Longrightarrow> async_state.more s' = async_state.more s" for cc p and s s' :: "'a async_state_scheme"
    by (erule free_segment.raw_induct [rotated, where P = "\<lambda>cc p s s'. async_state.more s' = async_state.more s"])
      (fastforce simp: free_node_def split: if_splits option.splits)
  have sl: "set_link l q s = Some s' \<Longrightarrow> async_state.more s' = async_state.more s" for l q and s s' :: "'a async_state_scheme"
    by (auto simp: set_link_def split: option.splits)
  assume "gpsee_removeAsyncCallbackContext cx contextOp s = Some (b, s')"
  then show ?thesis
    by (auto simp: gpsee_removeAsyncCallbackContext_def bind_eq_Some_conv split: if_splits dest!: fs sl)
qed

lemma run_cb_frame:
  "async_env_ok e \<Longrightarrow> run_cb e cb cx contextOp s = Some s' \<Longrightarrow> async_state.more s' = async_state.more s"
proof (cases "cb = async_cb e")
  case True
  assume "async_env_ok e" "run_cb e cb cx contextOp s = Some s'"
  with True obtain b where "gpsee_removeAsyncCallbackContext cx contextOp s = Some (b, s')"
    by (auto simp: async_env_ok_def)
  then show ?thesis by (rule removeContext_frame)
next
  case False
  assume e: "async_env_ok e" and r: "run_cb e cb cx contextOp s = Some s'"
  from e False obtain t where "run_cb e cb cx contextOp s = Some t" "cp_state.more t = cp_state.more s"
    unfolding async_env_ok_def by blast
  with r more_more show ?thesis by simp
qed

lemma destroy_calls_frame:
  assumes e: "async_env_ok e"
  shows "destroy_calls e cx i s = Some s' \<Longrightarrow> async_state.more s' = async_state.more s"
proof -
  have c: "async_state.more t = async_state.more s" if "call_cb d cb cx op s = Some t" "async_env_ok d" for d cb cx op s t
    using run_cb_frame [OF that(2)] that(1) by (fastforce simp: call_cb_def)
  assume "destroy_calls e cx i s = Some s'"
  then have "async_env_ok e \<longrightarrow> async_state.more s' = async_state.more s"
  proof (rule destroy_calls.raw_induct [rotated, where P = "\<lambda>e cx i s s'. async_env_ok e \<longrightarrow> async_state.more s' = async_state.more s"])
    fix f e cx i s s'
    assume ih: "\<And>e cx i s s'. f e cx i s = Some s' \<Longrightarrow> async_env_ok e \<longrightarrow> async_state.more s' = async_state.more s"
      and b: "(case cx_private s cx of None \<Rightarrow> None
      | Some hnd \<Rightarrow> if i < length hnd then
            Option.bind (if e_cb (hnd ! i) \<noteq> 0 then call_cb e (e_cb (hnd ! i)) cx JSCONTEXT_DESTROY s else Some s)
              (\<lambda>s. f e cx (Suc i) s) else Some s) = Some s'"
    show "async_env_ok e \<longrightarrow> async_state.more s' = async_state.more s"
    proof
      assume e: "async_env_ok e"
      from b ih c [OF _ e] e show "async_state.more s' = async_state.more s"
        by (fastforce simp: bind_eq_Some_conv split: option.splits if_splits)
    qed
  qed
  with e show ?thesis by blast
qed

lemma contextCallback_frame:
  assumes "async_env_ok e" and "gpsee_contextCallback e cx contextOp s = Some (b, s')"
  shows "async_state.more s' = async_state.more s"
proof -
  have fs: "free_storages xs t = Some t' \<Longrightarrow> async_state.more t' = async_state.more t" for xs and t t' :: "'a async_state_scheme"
    by (induction xs t rule: free_storages.induct)
      (auto simp: free_block_def bind_eq_Some_conv split: if_splits option.splits)
  have d: "gpsee_destroyContextPrivate cx t = Some t' \<Longrightarrow> async_state.more t' = async_state.more t" for t t' :: "'a async_state_scheme"
    by (auto simp: gpsee_destroyContextPrivate_def dest!: fs split: option.splits)
  show ?thesis
    using assms(2) destroy_calls_frame [OF assms(1)] d
    by (auto simp: gpsee_contextCallback_def bind_eq_Some_conv split: contextOp.splits option.splits)
qed

lemma async_ok_cong:
  assumes "async_ok e s" and "asyncCallbacks t = asyncCallbacks s" and "nodes t = nodes s" and "cx_private t = cx_private s"
    and "blocks t = blocks s" and "next_block s \<le> next_block t"
  shows "async_ok e t"
proof -
  have en: "entries t c = entries s c" for c by (simp add: entries_def assms(4))
  from assms(1) obtain xs where "async_list s xs" "registered e s xs" "book_ok (cp_runtime e) s" "sole_owner e s"
    by (auto simp: async_ok_def)
  then have "async_list t xs" "registered e t xs" "book_ok (cp_runtime e) t" "sole_owner e t"
    using async_list_cong [of s xs t] assms by (auto simp: registered_def book_ok_def sole_owner_def en)
  then show ?thesis by (auto simp: async_ok_def)
qed

text \<open>The fields that only this component writes.\<close>

lemma rt_more:
  assumes "async_state.more t = async_state.more s"
  shows "contexts t = contexts s" "realm_tab t = realm_tab s" "realms t = realms s"
    "realmsByContext t = realmsByContext s" "gcCallbackList t = gcCallbackList s" "mons t = mons s"
    "mon_realms t = mon_realms s" "mon_cx t = mon_cx s" "mon_user_io t = mon_user_io s" "io_hooks t = io_hooks s"
    "hooks_len t = hooks_len s" "roots t = roots s" "written t = written s" "stdio_out t = stdio_out s" "pr_calls t = pr_calls s"
  using assms by (cases s; cases t; simp)+

lemma JS_DestroyContext_ok:
  assumes e: "async_env_ok e" and a: "async_ok e s" and c: "contexts s cx = Some c"
  shows "\<exists>s' t. JS_DestroyContext e cx s = Some s' \<and> s' = t\<lparr>contexts := (contexts s)(cx := None)\<rparr>
    \<and> async_state.more t = async_state.more s \<and> async_ok e t \<and> next_block t = next_block s"
proof (cases "cx_callback_set s")
  case False
  with a c show ?thesis by (auto simp: JS_DestroyContext_def)
next
  case True
  from a obtain xs where x: "async_list s xs" "registered e s xs" "book_ok (cp_runtime e) s" "sole_owner e s"
    by (auto simp: async_ok_def)
  from destroyContext_async [OF e x, of cx] obtain t where
    t: "gpsee_contextCallback e cx JSCONTEXT_DESTROY s = Some (True, t)" "async_ok e t"
    by (auto simp: async_ok_def)
  have "\<exists>xs. async_list s xs" using x(1) by blast
  from context_callbacks.destroy_ok [OF async_context_callbacks [OF e] this x(3), of cx] t(1)
  have "next_block t = next_block s" by auto
  moreover have "async_state.more t = async_state.more s" by (rule contextCallback_frame [OF e t(1)])
  ultimately show ?thesis using t True rt_more(1) [of t s] by (auto simp: JS_DestroyContext_def c)
qed

section \<open>The invariant of the runtime\<close>

text \<open>
  Every context that is filed under a realm is live and so is the realm; the spare context of a
  realm is live and not filed; every collector callback of a module system belongs to a live realm.
\<close>

abbreviation filed :: "rt_state \<Rightarrow> slot list" where
  "filed s \<equiv> ds_data (realmsByContext s)"

fun no_pending :: "dstore option \<Rightarrow> bool" where
  "no_pending None = False"
| "no_pending (Some d) = (used_keys (ds_data d) = [])"

lemma no_pending_iff: "no_pending x \<longleftrightarrow> (\<exists>d. x = Some d \<and> used_keys (ds_data d) = [])"
  by (cases x) simp_all

definition realm_ok :: "rt_state \<Rightarrow> ptr \<Rightarrow> realm \<Rightarrow> bool" where
  "realm_ok s p r \<longleftrightarrow>
     (r_cachedCx r \<noteq> NULL \<longrightarrow> contexts s (r_cachedCx r) \<noteq> None \<and> r_cachedCx r \<notin> set (used_keys (filed s))
        \<and> (\<forall>q r'. realm_tab s q = Some r' \<longrightarrow> q \<noteq> p \<longrightarrow> r_cachedCx r' \<noteq> r_cachedCx r))
     \<and> no_pending (r_pendingWrites r) \<and> (\<exists>ps. mod_inv (r_mst r) ps)"

abbreviation hooks_ok :: "rt_state \<Rightarrow> bool" where
  "hooks_ok s \<equiv> hooks_len s \<le> length (io_hooks s)"

definition rt_ok :: "rt_env \<Rightarrow> rt_state \<Rightarrow> bool" where
  "rt_ok e s \<longleftrightarrow> async_ok e s \<and> mon_list (mons s) \<noteq> None \<and> hooks_ok s
     \<and> (\<forall>p \<ge> next_block s. contexts s p = None \<and> realm_tab s p = None) \<and> contexts s NULL = None \<and> realm_tab s NULL = None
     \<and> \<not> is_otm (realmsByContext s) \<and> distinct (used_keys (filed s))
     \<and> (\<forall>x \<in> set (filed s). fst x \<noteq> NULL \<longrightarrow> contexts s (fst x) \<noteq> None \<and> realm_tab s (snd x) \<noteq> None)
     \<and> (\<forall>p r. realm_tab s p = Some r \<longrightarrow> realm_ok s p r)
     \<and> (\<forall>x \<in> set (ds_data (gcCallbackList s)). fst x = module_gc e \<longrightarrow> realm_tab s (snd x) \<noteq> None)"

lemma autoRT_ok:
  "mon_list g \<noteq> None \<Longrightarrow> \<exists>m' g' tr. gpsee_enterAutoMonitorRT new ok g m = Some (m', g', tr) \<and> mon_list g' \<noteq> None"
  by (auto simp: gpsee_enterAutoMonitorRT_def gpsee_createMonitor_def split: prod.split)

lemma enter_auto_ok:
  assumes "mon_list (mons s) \<noteq> None"
  shows "\<exists>m g tr. enter_auto e get put s
      = Some (put m (record_calls tr (s\<lparr>cp_clock := Suc (cp_clock s), next_block := Suc (next_block s), mons := g\<rparr>)))
    \<and> mon_list g \<noteq> None"
proof -
  let ?s = "s\<lparr>cp_clock := Suc (cp_clock s)\<rparr>"
  from autoRT_ok [OF assms] obtain m g tr where
    "gpsee_enterAutoMonitorRT (next_block s) (malloc_ok e (cp_clock s)) (mons s) (get ?s) = Some (m, g, tr)"
    "mon_list g \<noteq> None" by blast
  then show ?thesis by (intro exI [of _ m] exI [of _ g] exI [of _ tr]) (simp add: enter_auto_def malloc_try_def)
qed

text \<open>Steps that only concern monitors.\<close>

definition monitors_only :: "rt_state \<Rightarrow> rt_state \<Rightarrow> bool" where
  "monitors_only s t \<longleftrightarrow> asyncCallbacks t = asyncCallbacks s \<and> nodes t = nodes s \<and> cx_private t = cx_private s
     \<and> blocks t = blocks s \<and> next_block s \<le> next_block t \<and> mon_list (mons t) \<noteq> None
     \<and> contexts t = contexts s \<and> realm_tab t = realm_tab s \<and> realms t = realms s \<and> realmsByContext t = realmsByContext s
     \<and> gcCallbackList t = gcCallbackList s \<and> io_hooks t = io_hooks s \<and> hooks_len t = hooks_len s \<and> roots t = roots s"

lemma monitors_only_trans: "monitors_only s t \<Longrightarrow> monitors_only t u \<Longrightarrow> monitors_only s u"
  by (auto simp: monitors_only_def)

lemma monitors_only_leave: "monitors_only s t \<Longrightarrow> monitors_only s (leave_auto m t)"
  by (simp add: monitors_only_def leave_auto_def record_calls_def)

lemma monitors_only_record: "monitors_only s t \<Longrightarrow> monitors_only s (record_calls tr t)"
  by (simp add: monitors_only_def record_calls_def)

lemma enter_monitors:
  assumes "mon_list (mons s) \<noteq> None"
  shows "\<exists>s'. enter_realms e s = Some s' \<and> monitors_only s s'" and "\<exists>s'. enter_cx e s = Some s' \<and> monitors_only s s'"
    and "\<exists>s'. enter_user_io e s = Some s' \<and> monitors_only s s'"
  using enter_auto_ok [OF assms, of e mon_realms "\<lambda>m. mon_realms_update (\<lambda>_. m)"]
    enter_auto_ok [OF assms, of e mon_cx "\<lambda>m. mon_cx_update (\<lambda>_. m)"]
    enter_auto_ok [OF assms, of e mon_user_io "\<lambda>m. mon_user_io_update (\<lambda>_. m)"]
  by (auto simp: monitors_only_def record_calls_def)

lemma monitors_only_ok: "rt_ok e s \<Longrightarrow> monitors_only s t \<Longrightarrow> rt_ok e t"
  using async_ok_cong [of e s t] by (auto simp: rt_ok_def monitors_only_def realm_ok_def)

section \<open>The end of a context\<close>

lemma used_keys_in: "(k, v) \<in> set data \<Longrightarrow> k \<noteq> NULL \<Longrightarrow> k \<in> set (used_keys data)"
  by (force simp: set_used_keys)

lemma slots_remove_set:
  "k \<noteq> NULL \<Longrightarrow> distinct (used_keys data) \<Longrightarrow> x \<in> set (snd (slots_remove data k)) \<Longrightarrow> fst x \<noteq> NULL \<Longrightarrow>
   x \<in> set data \<and> fst x \<noteq> k"
proof (induction data k rule: slots_remove.induct)
  case (2 k0 v data k)
  show ?case
  proof (cases "k0 = k")
    case True
    with 2 have "x \<in> set data" by auto
    moreover from 2(3,4) True 2(2) have "k \<notin> set (used_keys data)" by (simp add: used_keys_Cons)
    ultimately show ?thesis using 2(5) used_keys_in [of "fst x" "snd x" data] by auto
  next
    case False
    with 2 show ?thesis by (auto simp: used_keys_Cons split: prod.splits if_splits)
  qed
qed simp

lemma destroyContext_ok:
  assumes e: "async_env_ok e" and ok: "rt_ok e s" and cx: "cx \<in> set (used_keys (filed s))"
  shows "\<exists>s'. gpsee_destroyContext e cx s = Some s' \<and> rt_ok e s' \<and> contexts s' = (contexts s)(cx := None)
    \<and> filed s' = snd (slots_remove (filed s) cx) \<and> realm_tab s' = realm_tab s \<and> realms s' = realms s
    \<and> gcCallbackList s' = gcCallbackList s \<and> io_hooks s' = io_hooks s \<and> hooks_len s' = hooks_len s \<and> roots s' = roots s
    \<and> next_block s \<le> next_block s'"
proof -
  from cx obtain v where cv: "(cx, v) \<in> set (filed s)" "cx \<noteq> NULL" by (auto simp: set_used_keys)
  with ok obtain c where c: "contexts s cx = Some c" by (fastforce simp: rt_ok_def)
  define s1 where "s1 = s\<lparr>contexts := (contexts s)(cx \<mapsto> c\<lparr>requests := requests c - 1\<rparr>)\<rparr>"
  have end_req: "JS_EndRequest cx s = Some s1" by (simp add: JS_EndRequest_def upd_context_def c s1_def)
  have f1: "contexts s1 = (contexts s)(cx \<mapsto> c\<lparr>requests := requests c - 1\<rparr>)" "realm_tab s1 = realm_tab s"
    "realmsByContext s1 = realmsByContext s" "gcCallbackList s1 = gcCallbackList s" "mons s1 = mons s"
    "next_block s1 = next_block s" "io_hooks s1 = io_hooks s" "hooks_len s1 = hooks_len s" by (simp_all add: s1_def)
  have l1: "contexts s1 p = None \<longleftrightarrow> contexts s p = None" for p using c by (simp add: f1(1))
  have "async_ok e s1" using ok async_ok_cong [of e s s1] by (simp add: rt_ok_def s1_def)
  with ok have ok1: "rt_ok e s1" unfolding rt_ok_def realm_ok_def l1 f1(2-8) by blast
  from ok1 have ml: "mon_list (mons s1) \<noteq> None" by (simp add: rt_ok_def)
  from enter_monitors(2) [OF ml, of e] obtain s2 where s2: "enter_cx e s1 = Some s2" "monitors_only s1 s2" by blast
  have ok2: "rt_ok e s2" by (rule monitors_only_ok [OF ok1 s2(2)])
  have c2: "contexts s2 cx = Some (c\<lparr>requests := requests c - 1\<rparr>)" using s2(2) by (simp add: monitors_only_def s1_def)
  have a2: "async_ok e s2" using ok2 by (simp add: rt_ok_def)
  from JS_DestroyContext_ok [OF e a2 c2] obtain s3 t where s3: "JS_DestroyContext e cx s2 = Some s3"
    "s3 = t\<lparr>contexts := (contexts s2)(cx := None)\<rparr>" "async_state.more t = async_state.more s2" "async_ok e t"
    "next_block t = next_block s2" by blast
  note tm = rt_more [OF s3(3)]
  obtain realm data where rm: "slots_remove (filed s) cx = (realm, data)" by fastforce
  have f2: "realmsByContext s2 = realmsByContext s" "contexts s2 = contexts s1" "realm_tab s2 = realm_tab s"
    "gcCallbackList s2 = gcCallbackList s" "realms s2 = realms s" "io_hooks s2 = io_hooks s" "roots s2 = roots s"
    "next_block s \<le> next_block s2" "hooks_len s2 = hooks_len s"
    using s2(2) by (simp_all add: monitors_only_def s1_def)
  let ?s = "leave_auto (mon_cx s3) (record_calls
     (gpsee_enterMonitor (ds_monitor (realmsByContext s)) @ gpsee_leaveMonitor (ds_monitor (realmsByContext s)))
     (s3\<lparr>realmsByContext := (realmsByContext s)\<lparr>ds_data := data\<rparr>\<rparr>))"
  have r: "gpsee_destroyContext e cx s = Some ?s"
    by (simp add: gpsee_destroyContext_def end_req s2(1) s3(1)) (simp add: s3(2) tm f2 gpsee_ds_remove_def rm)
  have fields: "contexts ?s = (contexts s)(cx := None)" "filed ?s = data" "realm_tab ?s = realm_tab s"
    "realms ?s = realms s" "gcCallbackList ?s = gcCallbackList s" "io_hooks ?s = io_hooks s" "roots ?s = roots s"
    "next_block s \<le> next_block ?s" "mon_list (mons ?s) \<noteq> None" "is_otm (realmsByContext ?s) = is_otm (realmsByContext s)"
    "next_block ?s = next_block s2" "hooks_len ?s = hooks_len s"
    using f2 ok2 by (simp_all add: leave_auto_def record_calls_def s3(2) tm s1_def is_otm_def rt_ok_def s3(5))
  have a: "async_ok e ?s" by (rule async_ok_cong [OF s3(4)]) (simp_all add: leave_auto_def record_calls_def s3(2))
  have d: "distinct (used_keys (filed s))" using ok by (simp add: rt_ok_def)
  have uk: "used_keys data = remove1 cx (used_keys (filed s))" using slots_remove_used [OF cv(2), of "filed s"] rm by simp
  have mem: "x \<in> set (filed s) \<and> fst x \<noteq> cx" if "x \<in> set data" "fst x \<noteq> NULL" for x
    using slots_remove_set [OF cv(2) d, of x] that rm by simp
  have old: "\<forall>x \<in> set (filed s). fst x \<noteq> NULL \<longrightarrow> contexts s (fst x) \<noteq> None \<and> realm_tab s (snd x) \<noteq> None"
    "\<forall>p r. realm_tab s p = Some r \<longrightarrow> realm_ok s p r" using ok by (simp_all add: rt_ok_def)
  have "\<forall>p r. realm_tab s p = Some r \<longrightarrow> realm_ok ?s p r"
  proof (intro allI impI)
    fix p r
    assume "realm_tab s p = Some r"
    with old(2) have "realm_ok s p r" by blast
    moreover from this cx have "r_cachedCx r \<noteq> NULL \<Longrightarrow> r_cachedCx r \<noteq> cx" by (auto simp: realm_ok_def)
    ultimately show "realm_ok ?s p r"
      unfolding realm_ok_def fields(1-3) uk using notin_set_remove1 by fastforce
  qed
  moreover have "\<forall>x \<in> set data. fst x \<noteq> NULL \<longrightarrow> contexts ?s (fst x) \<noteq> None \<and> realm_tab s (snd x) \<noteq> None"
    using mem old(1) unfolding fields(1) by auto
  moreover have "\<forall>p \<ge> next_block ?s. contexts ?s p = None \<and> realm_tab s p = None"
    using ok fields(8) unfolding fields(1) rt_ok_def by auto
  ultimately have "rt_ok e ?s"
    using ok a d fields(9,10) unfolding rt_ok_def fields(2-7,12) uk by (simp add: fields(1))
  then show ?thesis using r fields rm by (intro exI [of _ ?s]) simp
qed

section \<open>The start of a context\<close>

lemma rt_ok_cong:
  assumes "rt_ok e s" and "asyncCallbacks t = asyncCallbacks s" and "nodes t = nodes s" and "cx_private t = cx_private s"
    and "blocks t = blocks s" and "next_block s \<le> next_block t" and "mon_list (mons t) \<noteq> None" and "hooks_ok t"
    and l: "\<And>p. contexts t p = None \<longleftrightarrow> contexts s p = None" and "realm_tab t = realm_tab s"
    and "realmsByContext t = realmsByContext s" and "gcCallbackList t = gcCallbackList s"
  shows "rt_ok e t"
proof -
  have "async_ok e t" using assms(1) async_ok_cong [OF _ assms(2-6)] by (simp add: rt_ok_def)
  moreover have "\<forall>p \<ge> next_block t. contexts s p = None \<and> realm_tab s p = None" using assms(1,6) by (simp add: rt_ok_def)
  ultimately show ?thesis
    using assms(1,7,8) unfolding rt_ok_def realm_ok_def l assms(10-12) by blast
qed

lemma upd_context_ok:
  assumes "rt_ok e s" and "contexts s cx \<noteq> None"
  shows "\<exists>s'. upd_context cx f s = Some s' \<and> rt_ok e s' \<and> contexts s' cx \<noteq> None
    \<and> s' = s\<lparr>contexts := contexts s'\<rparr> \<and> (\<forall>c. contexts s' c = None \<longleftrightarrow> contexts s c = None)"
proof -
  from assms(2) obtain c where c: "contexts s cx = Some c" by blast
  let ?s = "s\<lparr>contexts := (contexts s)(cx \<mapsto> f c)\<rparr>"
  have "rt_ok e ?s"
    by (rule rt_ok_cong [OF assms(1)]) (use assms(1) c in \<open>simp_all add: rt_ok_def\<close>)
  with c show ?thesis by (intro exI [of _ ?s]) (simp add: upd_context_def)
qed

lemma slots_put_set:
  "slots_put data key val = Some data' \<Longrightarrow> x \<in> set data' \<Longrightarrow> x = (key, val) \<or> x \<in> set data"
  by (induction data key val arbitrary: data' rule: slots_put.induct) (auto split: if_splits)

lemma put_new_key:
  assumes "\<not> is_otm st" and "key \<noteq> NULL" and "key \<notin> set (used_keys (ds_data st))"
    and "gpsee_ds_put ok st key val = (True, st', tr)"
  shows "mset (used_keys (ds_data st')) = add_mset key (mset (used_keys (ds_data st)))"
    and "x \<in> set (ds_data st') \<Longrightarrow> fst x \<noteq> NULL \<Longrightarrow> x = (key, val) \<or> x \<in> set (ds_data st)"
    and "is_otm st' = is_otm st" and "k \<noteq> NULL \<Longrightarrow> slots_get (ds_data st') k = (if k = key then val else slots_get (ds_data st) k)"
proof -
  have n: "key \<notin> fst ` set (ds_data st)" using assms(2,3) by (auto simp: set_used_keys)
  show "mset (used_keys (ds_data st')) = add_mset key (mset (used_keys (ds_data st)))"
    using assms slots_put_used_new [OF n assms(2)]
    by (auto simp: gpsee_ds_put_def Let_def used_keys_grow [OF assms(2)] split: option.splits if_splits)
  show "x = (key, val) \<or> x \<in> set (ds_data st)" if "x \<in> set (ds_data st')" "fst x \<noteq> NULL"
    using assms(1,4) that slots_put_set [of "ds_data st" key val _ x]
    by (auto simp: gpsee_ds_put_def Let_def ds_grow_def split: option.splits if_splits)
  show "is_otm st' = is_otm st" using put_flags [OF assms(4)] by (simp add: is_otm_def)
  show "slots_get (ds_data st') k = (if k = key then val else slots_get (ds_data st) k)" if "k \<noteq> NULL"
    using put_get [OF assms(1,4) that] by (simp add: gpsee_ds_get_def)
qed

text \<open>The spare contexts of the realms; where the contexts are: filed, or spare.\<close>

definition spares :: "rt_state \<Rightarrow> ptr set" where
  "spares s = {r_cachedCx r | p r. realm_tab s p = Some r \<and> r_cachedCx r \<noteq> NULL}"

abbreviation filed_contexts :: "rt_state \<Rightarrow> ptr set" where
  "filed_contexts s \<equiv> set (used_keys (filed s))"

lemma spares_cong: "realm_tab t = realm_tab s \<Longrightarrow> spares t = spares s"
  by (simp add: spares_def)

lemma spares_live: "rt_ok e s \<Longrightarrow> c \<in> spares s \<Longrightarrow> contexts s c \<noteq> None"
  unfolding spares_def rt_ok_def realm_ok_def by blast

lemma spares_uncached:
  assumes ok: "rt_ok e s" and r: "realm_tab s realm = Some r" and c: "r_cachedCx r \<noteq> NULL"
    and t: "realm_tab t = (realm_tab s)(realm \<mapsto> r\<lparr>r_cachedCx := NULL\<rparr>)"
  shows "spares t = spares s - {r_cachedCx r}" and "r_cachedCx r \<in> spares s"
proof -
  have "realm_ok s realm r" using ok r by (simp add: rt_ok_def)
  then have other: "realm_tab s q = Some x \<Longrightarrow> q \<noteq> realm \<Longrightarrow> r_cachedCx x \<noteq> r_cachedCx r" for q x
    using c by (simp add: realm_ok_def)
  show "r_cachedCx r \<in> spares s" using r c by (auto simp: spares_def)
  show "spares t = spares s - {r_cachedCx r}"
  proof (intro set_eqI iffI)
    fix x
    assume "x \<in> spares t"
    then obtain p y where y: "realm_tab t p = Some y" "x = r_cachedCx y" "x \<noteq> NULL" by (auto simp: spares_def)
    then have "p \<noteq> realm" "realm_tab s p = Some y" by (auto simp: t split: if_splits)
    with y other show "x \<in> spares s - {r_cachedCx r}" by (auto simp: spares_def)
  next
    fix x
    assume "x \<in> spares s - {r_cachedCx r}"
    then obtain p y where y: "realm_tab s p = Some y" "x = r_cachedCx y" "x \<noteq> NULL" "x \<noteq> r_cachedCx r" by (auto simp: spares_def)
    then have "p \<noteq> realm" using r by auto
    with y have "realm_tab t p = Some y" by (simp add: t)
    with y show "x \<in> spares t" by (auto simp: spares_def)
  qed
qed

lemma file_context:
  assumes ok: "rt_ok e s" and cx: "contexts s cx \<noteq> None" "cx \<notin> set (used_keys (filed s))"
    and sp: "\<And>p r. realm_tab s p = Some r \<Longrightarrow> r_cachedCx r \<noteq> cx" and r: "realm_tab s realm \<noteq> None"
    and put: "gpsee_ds_put b (realmsByContext s) cx realm = (True, st, tr)"
  shows "rt_ok e (s\<lparr>realmsByContext := st\<rparr>)"
proof -
  have nz: "cx \<noteq> NULL" by (rule notI) (use ok cx(1) in \<open>simp add: rt_ok_def\<close>)
  have otm: "\<not> is_otm (realmsByContext s)" using ok by (simp add: rt_ok_def)
  note k = put_new_key [OF otm nz cx(2) put]
  have uk: "set (used_keys (ds_data st)) = insert cx (set (used_keys (filed s)))"
    using k(1) by (metis set_mset_add_mset_insert set_mset_mset)
  have "distinct (used_keys (ds_data st))"
  proof -
    have "distinct (cx # used_keys (filed s))" using ok cx(2) by (simp add: rt_ok_def)
    moreover have "mset (used_keys (ds_data st)) = mset (cx # used_keys (filed s))" using k(1) by simp
    ultimately show ?thesis using mset_eq_imp_distinct_iff by blast
  qed
  moreover have "\<forall>x \<in> set (ds_data st). fst x \<noteq> NULL \<longrightarrow> contexts s (fst x) \<noteq> None \<and> realm_tab s (snd x) \<noteq> None"
  proof (intro ballI impI)
    fix x
    assume "x \<in> set (ds_data st)" "fst x \<noteq> NULL"
    from k(2) [OF this] this(2) ok cx(1) r show "contexts s (fst x) \<noteq> None \<and> realm_tab s (snd x) \<noteq> None"
      unfolding rt_ok_def by auto
  qed
  moreover have "\<forall>p q. realm_tab s p = Some q \<longrightarrow> realm_ok (s\<lparr>realmsByContext := st\<rparr>) p q"
  proof (intro allI impI)
    fix p q
    assume p: "realm_tab s p = Some q"
    with ok have "realm_ok s p q" by (simp add: rt_ok_def)
    with sp [OF p] show "realm_ok (s\<lparr>realmsByContext := st\<rparr>) p q" by (auto simp: realm_ok_def uk)
  qed
  moreover have "async_ok e (s\<lparr>realmsByContext := st\<rparr>)"
    using ok async_ok_cong [of e s "s\<lparr>realmsByContext := st\<rparr>"] by (simp add: rt_ok_def)
  ultimately show ?thesis using ok k(3) unfolding rt_ok_def by simp
qed

lemma new_context_ok:
  assumes ok: "rt_ok e s"
  shows "rt_ok e (snd (JS_NewContext e s))
    \<and> (fst (JS_NewContext e s) \<noteq> NULL \<longrightarrow> fst (JS_NewContext e s) = next_block s
        \<and> contexts (snd (JS_NewContext e s)) (fst (JS_NewContext e s)) \<noteq> None)
    \<and> (malloc_ok e (cp_clock s) \<longrightarrow> fst (JS_NewContext e s) = next_block s)
    \<and> realm_tab (snd (JS_NewContext e s)) = realm_tab s \<and> realmsByContext (snd (JS_NewContext e s)) = realmsByContext s
    \<and> realms (snd (JS_NewContext e s)) = realms s \<and> gcCallbackList (snd (JS_NewContext e s)) = gcCallbackList s
    \<and> next_block s \<le> next_block (snd (JS_NewContext e s))"
proof (cases "malloc_ok e (cp_clock s)")
  case False
  have "rt_ok e (s\<lparr>cp_clock := Suc (cp_clock s)\<rparr>)"
    by (rule rt_ok_cong [OF ok]) (use ok in \<open>simp_all add: rt_ok_def\<close>)
  with False show ?thesis by (simp add: JS_NewContext_def malloc_try_def)
next
  case True
  let ?n = "next_block s"
  let ?c = "\<lparr>requests = 0, cx_global = NULL, initialized = False\<rparr>"
  let ?s = "s\<lparr>cp_clock := Suc (cp_clock s), next_block := Suc ?n, contexts := (contexts s)(?n \<mapsto> ?c)\<rparr>"
  have nc: "JS_NewContext e s = (?n, ?s)" using True by (simp add: JS_NewContext_def malloc_try_def)
  have fresh: "contexts s ?n = None" using ok by (simp add: rt_ok_def)
  have nz: "?n \<noteq> NULL" using ok by (auto simp: rt_ok_def async_ok_def book_ok_def)
  have "async_ok e ?s" using ok async_ok_cong [of e s ?s] by (simp add: rt_ok_def)
  moreover have "\<forall>p r. realm_tab s p = Some r \<longrightarrow> realm_ok ?s p r"
    using ok by (auto simp: rt_ok_def realm_ok_def)
  ultimately have "rt_ok e ?s" using ok nz unfolding rt_ok_def by auto
  with nc nz show ?thesis by simp
qed

lemma uncache_ok:
  assumes ok: "rt_ok e s" and r: "realm_tab s realm = Some r"
  shows "rt_ok e (s\<lparr>realm_tab := (realm_tab s)(realm \<mapsto> r\<lparr>r_cachedCx := NULL\<rparr>)\<rparr>)"
proof -
  let ?s = "s\<lparr>realm_tab := (realm_tab s)(realm \<mapsto> r\<lparr>r_cachedCx := NULL\<rparr>)\<rparr>"
  have l: "realm_tab ?s p = None \<longleftrightarrow> realm_tab s p = None" for p using r by simp
  have "\<forall>p q. realm_tab ?s p = Some q \<longrightarrow> realm_ok ?s p q"
    using ok r by (auto simp: rt_ok_def realm_ok_def)
  moreover have "async_ok e ?s" using ok async_ok_cong [of e s ?s] by (simp add: rt_ok_def)
  moreover have "contexts ?s = contexts s" "filed ?s = filed s" "gcCallbackList ?s = gcCallbackList s" "mons ?s = mons s"
    "next_block ?s = next_block s" "realmsByContext ?s = realmsByContext s" "io_hooks ?s = io_hooks s"
    "hooks_len ?s = hooks_len s" by simp_all
  ultimately show ?thesis using ok unfolding rt_ok_def l by metis
qed

lemma destroy_unfiled:
  assumes e: "async_env_ok e" and ok: "rt_ok e s" and cx: "contexts s cx \<noteq> None" "cx \<notin> set (used_keys (filed s))"
    and sp: "\<And>p r. realm_tab s p = Some r \<Longrightarrow> r_cachedCx r \<noteq> cx"
  shows "\<exists>s'. JS_DestroyContext e cx s = Some s' \<and> rt_ok e s' \<and> contexts s' = (contexts s)(cx := None)
    \<and> realmsByContext s' = realmsByContext s \<and> realm_tab s' = realm_tab s \<and> realms s' = realms s
    \<and> gcCallbackList s' = gcCallbackList s \<and> mons s' = mons s \<and> next_block s' = next_block s"
proof -
  from cx(1) obtain c where c: "contexts s cx = Some c" by blast
  have a: "async_ok e s" using ok by (simp add: rt_ok_def)
  from JS_DestroyContext_ok [OF e a c] obtain s' t where d: "JS_DestroyContext e cx s = Some s'"
    "s' = t\<lparr>contexts := (contexts s)(cx := None)\<rparr>" "async_state.more t = async_state.more s" "async_ok e t"
    "next_block t = next_block s" by blast
  note tm = rt_more [OF d(3)]
  have fields: "contexts s' = (contexts s)(cx := None)" "realmsByContext s' = realmsByContext s"
    "realm_tab s' = realm_tab s" "realms s' = realms s" "gcCallbackList s' = gcCallbackList s" "mons s' = mons s"
    "next_block s' = next_block s" "io_hooks s' = io_hooks s" "hooks_len s' = hooks_len s" by (simp_all add: d(2) tm d(5))
  have "async_ok e s'" by (rule async_ok_cong [OF d(4)]) (simp_all add: d(2))
  moreover have "\<forall>x \<in> set (filed s). fst x \<noteq> NULL \<longrightarrow> contexts s' (fst x) \<noteq> None \<and> realm_tab s (snd x) \<noteq> None"
  proof (intro ballI impI)
    fix x
    assume x: "x \<in> set (filed s)" "fst x \<noteq> NULL"
    then have "fst x \<in> set (used_keys (filed s))" using used_keys_in [of "fst x" "snd x"] by simp
    with cx(2) have "fst x \<noteq> cx" by blast
    with x ok show "contexts s' (fst x) \<noteq> None \<and> realm_tab s (snd x) \<noteq> None" by (simp add: fields(1) rt_ok_def)
  qed
  moreover have "\<forall>p r. realm_tab s p = Some r \<longrightarrow> realm_ok s' p r"
  proof (intro allI impI)
    fix p r
    assume p: "realm_tab s p = Some r"
    with ok have "realm_ok s p r" by (simp add: rt_ok_def)
    with sp [OF p] show "realm_ok s' p r" unfolding realm_ok_def fields by simp
  qed
  ultimately have "rt_ok e s'" using ok unfolding rt_ok_def fields by auto
  with d(1) fields show ?thesis by blast
qed

text \<open>Which context is used: the spare one of the realm, or a new one.\<close>

lemma pick_context:
  assumes ok: "rt_ok e s" and r: "realm_tab s realm = Some r"
    and p: "(if r_cachedCx r \<noteq> NULL
        then (r_cachedCx r, s\<lparr>realm_tab := (realm_tab s)(realm \<mapsto> r\<lparr>r_cachedCx := NULL\<rparr>)\<rparr>) else JS_NewContext e s) = (cx, s')"
    and cx: "cx \<noteq> NULL"
  shows "rt_ok e s' \<and> contexts s' cx \<noteq> None \<and> cx \<notin> set (used_keys (filed s'))
    \<and> (\<forall>p q. realm_tab s' p = Some q \<longrightarrow> r_cachedCx q \<noteq> cx) \<and> realm_tab s' realm \<noteq> None
    \<and> realmsByContext s' = realmsByContext s \<and> realms s' = realms s \<and> gcCallbackList s' = gcCallbackList s
    \<and> next_block s \<le> next_block s' \<and> dom (contexts s') = insert cx (dom (contexts s)) \<and> spares s' = spares s - {cx}
    \<and> (cx \<in> spares s \<or> contexts s cx = None)"
proof (cases "r_cachedCx r = NULL")
  case False
  have "realm_ok s realm r" using ok r by (simp add: rt_ok_def)
  then have "contexts s (r_cachedCx r) \<noteq> None" "r_cachedCx r \<notin> set (used_keys (filed s))"
    "\<And>q r'. realm_tab s q = Some r' \<Longrightarrow> q \<noteq> realm \<Longrightarrow> r_cachedCx r' \<noteq> r_cachedCx r" using False by (auto simp: realm_ok_def)
  moreover have s': "s' = s\<lparr>realm_tab := (realm_tab s)(realm \<mapsto> r\<lparr>r_cachedCx := NULL\<rparr>)\<rparr>" "cx = r_cachedCx r"
    using p False by simp_all
  moreover have "spares s' = spares s - {r_cachedCx r} \<and> r_cachedCx r \<in> spares s"
    using spares_uncached [OF ok r False, of s'] s'(1) by simp
  moreover have "dom (contexts s) = insert (r_cachedCx r) (dom (contexts s))" using calculation(1) by auto
  ultimately show ?thesis using uncache_ok [OF ok r] False by (auto split: if_splits)
next
  case True
  with p have n: "JS_NewContext e s = (cx, s')" by simp
  from new_context_ok [OF ok] n cx have f: "rt_ok e s'" "cx = next_block s" "contexts s' cx \<noteq> None" "realm_tab s' = realm_tab s"
    "realmsByContext s' = realmsByContext s" "realms s' = realms s" "gcCallbackList s' = gcCallbackList s"
    "next_block s \<le> next_block s'" by auto
  have none: "contexts s cx = None" using ok f(2) by (simp add: rt_ok_def)
  have "cx \<notin> set (used_keys (filed s))"
  proof
    assume "cx \<in> set (used_keys (filed s))"
    then obtain v where "(cx, v) \<in> set (filed s)" "cx \<noteq> NULL" by (auto simp: set_used_keys)
    with ok none show False by (force simp: rt_ok_def)
  qed
  moreover have "r_cachedCx q \<noteq> cx" if "realm_tab s p = Some q" for p q
  proof
    assume "r_cachedCx q = cx"
    moreover have "realm_ok s p q" using ok that by (simp add: rt_ok_def)
    ultimately show False using none cx by (simp add: realm_ok_def)
  qed
  moreover have "dom (contexts s') = insert cx (dom (contexts s))"
    using n f(2,3) by (auto simp: JS_NewContext_def malloc_try_def split: if_splits)
  moreover have "spares s' = spares s - {cx}"
    using spares_cong [OF f(4)] spares_live [OF ok, of cx] none by auto
  ultimately show ?thesis using f r none by auto
qed

lemma createContext_ok:
  assumes e: "async_env_ok e" and ok: "rt_ok e s" and r: "realm_tab s realm = Some r"
    and c: "gpsee_createContext e realm s = Some (cx, s')"
  shows "rt_ok e s' \<and> realms s' = realms s \<and> gcCallbackList s' = gcCallbackList s \<and> dom (realm_tab s') = dom (realm_tab s)
    \<and> (cx \<noteq> NULL \<longrightarrow> contexts s' cx \<noteq> None \<and> cx \<notin> set (used_keys (filed s))
        \<and> (\<forall>k. k \<noteq> NULL \<longrightarrow> slots_get (filed s') k = (if k = cx then realm else slots_get (filed s) k))
        \<and> dom (contexts s') = insert cx (dom (contexts s)) \<and> filed_contexts s' = insert cx (filed_contexts s)
        \<and> spares s' = spares s - {cx} \<and> (cx \<in> spares s \<or> contexts s cx = None))
    \<and> (cx = NULL \<longrightarrow> (\<exists>c. (c \<in> spares s \<or> contexts s c = None) \<and> dom (contexts s') = dom (contexts s) - {c}
        \<and> filed s' = filed s \<and> spares s' = spares s - {c}))"
proof -
  have nz: "realm \<noteq> NULL" by (rule notI) (use ok r in \<open>simp add: rt_ok_def\<close>)
  have ml: "mon_list (mons s) \<noteq> None" using ok by (simp add: rt_ok_def)
  from enter_monitors(2) [OF ml, of e] obtain s1 where s1: "enter_cx e s = Some s1" "monitors_only s s1" by blast
  have ok1: "rt_ok e s1" by (rule monitors_only_ok [OF ok s1(2)])
  have f1: "realm_tab s1 = realm_tab s" "realmsByContext s1 = realmsByContext s" "realms s1 = realms s"
    "gcCallbackList s1 = gcCallbackList s" "contexts s1 = contexts s" using s1(2) by (simp_all add: monitors_only_def)
  have sp1: "spares s1 = spares s" by (rule spares_cong [OF f1(1)])
  have r1: "realm_tab s1 realm = Some r" by (simp add: f1 r)
  obtain c0 s2 where p: "(if r_cachedCx r \<noteq> NULL
      then (r_cachedCx r, s1\<lparr>realm_tab := (realm_tab s1)(realm \<mapsto> r\<lparr>r_cachedCx := NULL\<rparr>)\<rparr>) else JS_NewContext e s1) = (c0, s2)"
    by fastforce
  obtain b st tr where put: "gpsee_ds_put (malloc_ok e (cp_clock s2)) (realmsByContext s2) c0 realm = (b, st, tr)"
    by (metis prod_cases3)
  let ?s2 = "s2\<lparr>cp_clock := Suc (cp_clock s2)\<rparr>"
  let ?s3 = "record_calls tr (?s2\<lparr>realmsByContext := st\<rparr>)"
  have c0: "c0 \<noteq> NULL"
  proof
    assume "c0 = NULL"
    with c nz show False
      unfolding gpsee_createContext_def
      by (simp only: r s1(1) p bind.bind_lunit if_False prod.case simp_thms if_True) simp
  qed
  have c': "(if \<not> b then
        Option.bind (JS_DestroyContext e c0 ?s3) (\<lambda>s. Some (NULL, leave_auto (mon_cx s) s))
      else Option.bind (JS_BeginRequest c0 (leave_auto (mon_cx ?s3) ?s3)) (\<lambda>s.
        Option.bind (upd_context c0 (\<lambda>c. c\<lparr>cx_global := globalObject (r_mst r), initialized := True\<rparr>) s) (\<lambda>s.
        Some (c0, s\<lparr>operation_set := (operation_set s)(c0 := True)\<rparr>)))) = Some (cx, s')"
    using c c0 unfolding gpsee_createContext_def
    by (simp only: nz r s1(1) p bind.bind_lunit if_False prod.case) (simp add: put malloc_try_def Let_def)
  from pick_context [OF ok1 r1 p c0] have k: "rt_ok e s2" "contexts s2 c0 \<noteq> None" "c0 \<notin> set (used_keys (filed s2))"
    "\<And>p q. realm_tab s2 p = Some q \<Longrightarrow> r_cachedCx q \<noteq> c0" "realm_tab s2 realm \<noteq> None" "realmsByContext s2 = realmsByContext s"
    "realms s2 = realms s" "gcCallbackList s2 = gcCallbackList s" using f1 by auto
  from pick_context [OF ok1 r1 p c0] have bk: "dom (contexts s2) = insert c0 (dom (contexts s))" "spares s2 = spares s - {c0}"
    "c0 \<in> spares s \<or> contexts s c0 = None" by (simp_all add: f1(5) sp1)
  have dom2: "dom (realm_tab s2) = dom (realm_tab s)"
  proof (cases "r_cachedCx r = NULL")
    case True
    then have "JS_NewContext e s1 = (c0, s2)" using p by simp
    with new_context_ok [OF ok1] f1(1) show ?thesis by auto
  next
    case False
    then have "realm_tab s2 = (realm_tab s)(realm \<mapsto> r\<lparr>r_cachedCx := NULL\<rparr>)" using p f1(1) by auto
    with r show ?thesis by (simp add: insert_absorb domI)
  qed
  have ok2: "rt_ok e ?s2" by (rule rt_ok_cong [OF k(1)]) (use k(1) in \<open>simp_all add: rt_ok_def\<close>)
  show ?thesis
  proof (cases b)
    case False
    with put put_fails have st: "st = realmsByContext s2" by metis
    have ok3: "rt_ok e ?s3"
      by (rule rt_ok_cong [OF ok2]) (use ok2 st in \<open>simp_all add: rt_ok_def record_calls_def\<close>)
    have "\<exists>t. JS_DestroyContext e c0 ?s3 = Some t \<and> rt_ok e t \<and> realms t = realms ?s3 \<and> gcCallbackList t = gcCallbackList ?s3
        \<and> realm_tab t = realm_tab ?s3 \<and> contexts t = (contexts ?s3)(c0 := None) \<and> realmsByContext t = realmsByContext ?s3"
      using destroy_unfiled [OF e ok3, of c0] k(2-4) by (simp add: record_calls_def st) blast
    then obtain t where t: "JS_DestroyContext e c0 ?s3 = Some t" "rt_ok e t" "realms t = realms ?s3"
      "gcCallbackList t = gcCallbackList ?s3" "realm_tab t = realm_tab ?s3" "contexts t = (contexts ?s3)(c0 := None)"
      "realmsByContext t = realmsByContext ?s3" by blast
    let ?t = "leave_auto (mon_cx t) t"
    have "dom (contexts ?t) = dom (contexts s) - {c0}" "filed ?t = filed s"
      using bk(1) t(6,7) k(6) by (auto simp: leave_auto_def record_calls_def st)
    moreover have "realm_tab ?t = realm_tab s2" using t(5) by (simp add: leave_auto_def record_calls_def)
    from spares_cong [OF this] bk(2) have "spares ?t = spares s - {c0}" by simp
    ultimately have books: "\<exists>c. (c \<in> spares s \<or> contexts s c = None) \<and> dom (contexts ?t) = dom (contexts s) - {c}
        \<and> filed ?t = filed s \<and> spares ?t = spares s - {c}" using bk(3) by blast
    have "rt_ok e (leave_auto (mon_cx t) t)"
      by (rule rt_ok_cong [OF t(2)]) (use t(2) in \<open>simp_all add: rt_ok_def leave_auto_def record_calls_def\<close>)
    moreover from c' False t(1) have "cx = NULL" "s' = leave_auto (mon_cx t) t" by auto
    moreover have "realms t = realms s" "gcCallbackList t = gcCallbackList s" "dom (realm_tab t) = dom (realm_tab s)"
      using t(3-5) k(7,8) dom2 by (simp_all add: record_calls_def)
    ultimately show ?thesis using books by (simp add: leave_auto_def record_calls_def)
  next
    case True
    have "rt_ok e (?s2\<lparr>realmsByContext := st\<rparr>)"
      by (rule file_context [OF ok2, of c0 realm "malloc_ok e (cp_clock s2)" st tr]) (use k put True in simp_all)
    note okf = this
    let ?s4 = "leave_auto (mon_cx ?s3) ?s3"
    have ok4: "rt_ok e ?s4"
      by (rule rt_ok_cong [OF okf]) (use okf in \<open>simp_all add: rt_ok_def leave_auto_def record_calls_def\<close>)
    have "contexts ?s4 c0 \<noteq> None" using k(2) by (simp add: leave_auto_def record_calls_def)
    from upd_context_ok [OF ok4 this, of "\<lambda>c. c\<lparr>requests := Suc (requests c)\<rparr>"] obtain s5 where
      s5: "JS_BeginRequest c0 ?s4 = Some s5" "rt_ok e s5" "contexts s5 c0 \<noteq> None" "s5 = ?s4\<lparr>contexts := contexts s5\<rparr>"
      "\<forall>c. contexts s5 c = None \<longleftrightarrow> contexts ?s4 c = None" unfolding JS_BeginRequest_def by blast
    from upd_context_ok [OF s5(2,3), of "\<lambda>c. c\<lparr>cx_global := globalObject (r_mst r), initialized := True\<rparr>"] obtain s6 where
      s6: "upd_context c0 (\<lambda>c. c\<lparr>cx_global := globalObject (r_mst r), initialized := True\<rparr>) s5 = Some s6" "rt_ok e s6"
        "contexts s6 c0 \<noteq> None" "s6 = s5\<lparr>contexts := contexts s6\<rparr>" "\<forall>c. contexts s6 c = None \<longleftrightarrow> contexts s5 c = None" by blast
    from c' True c0 s5(1) s6(1) have s': "cx = c0" "s' = s6\<lparr>operation_set := (operation_set s6)(c0 := True)\<rparr>" by auto
    have f6: "realmsByContext s6 = st" "realms s6 = realms s" "gcCallbackList s6 = gcCallbackList s" "realm_tab s6 = realm_tab s2"
      by (subst s6(4), subst s5(4), simp add: leave_auto_def record_calls_def k)+
    have "rt_ok e s'" by (rule rt_ok_cong [OF s6(2)]) (use s6(2) in \<open>simp_all add: rt_ok_def s'(2)\<close>)
    moreover have "\<not> is_otm (realmsByContext s2)" using k(1) by (simp add: rt_ok_def)
    note get = put_new_key(4) [OF this c0 k(3), of "malloc_ok e (cp_clock s2)" realm st tr]
    have "set (used_keys (ds_data st)) = insert c0 (set (used_keys (filed s2)))"
      using put_new_key(1) [OF \<open>\<not> is_otm (realmsByContext s2)\<close> c0 k(3), of "malloc_ok e (cp_clock s2)" realm st tr] put True
      by (metis set_mset_add_mset_insert set_mset_mset)
    then have used: "filed_contexts s' = insert c0 (filed_contexts s)" by (simp add: s'(2) f6(1) k(6))
    have "realm_tab s' = realm_tab s2" by (simp add: s'(2) f6(4))
    from spares_cong [OF this] bk(2) have sp': "spares s' = spares s - {c0}" by simp
    have "contexts s' x = None \<longleftrightarrow> contexts s2 x = None" for x using s5(5) s6(5) by (simp add: s'(2) leave_auto_def record_calls_def)
    then have "dom (contexts s') = dom (contexts s2)" by (auto simp: dom_def)
    with bk(1) have dc: "dom (contexts s') = insert c0 (dom (contexts s))" by simp
    show ?thesis using \<open>rt_ok e s'\<close> get s' f6 s6(3) k dom2 put True used sp' dc c0 bk(3) by (simp add: k(6))
  qed
qed

end
