(* ===== verification/RealmTeardown.thy ===== *)
theory RealmTeardown
  imports Realms
begin

text \<open>
  The end of a realm: what the collections, the shut-down of the module system and the end of its
  contexts leave of the book-keeping of the runtime.
\<close>

section \<open>Steps that keep the book-keeping\<close>

text \<open>A realm keeps its spare context, a store for pending writes and a sound module system.\<close>

definition realm_kept :: "realm \<Rightarrow> realm \<Rightarrow> bool" where
  "realm_kept r r' \<longleftrightarrow> r_cachedCx r' = r_cachedCx r \<and> (no_pending (r_pendingWrites r) \<longrightarrow> no_pending (r_pendingWrites r'))
     \<and> ((\<exists>ps. mod_inv (r_mst r) ps) \<longrightarrow> (\<exists>ps. mod_inv (r_mst r') ps))"

definition calm_step :: "rt_state \<Rightarrow> rt_state \<Rightarrow> bool" where
  "calm_step s t \<longleftrightarrow> asyncCallbacks t = asyncCallbacks s \<and> nodes t = nodes s \<and> cx_private t = cx_private s
     \<and> blocks t = blocks s \<and> next_block s \<le> next_block t \<and> (mon_list (mons s) \<noteq> None \<longrightarrow> mon_list (mons t) \<noteq> None)
     \<and> (\<forall>c. contexts t c = None \<longleftrightarrow> contexts s c = None) \<and> realmsByContext t = realmsByContext s \<and> realms t = realms s
     \<and> (\<forall>p. rel_option realm_kept (realm_tab s p) (realm_tab t p))
     \<and> (\<forall>x \<in> set (ds_data (gcCallbackList t)). fst x \<noteq> NULL \<longrightarrow> x \<in> set (ds_data (gcCallbackList s)))
     \<and> (hooks_ok s \<longrightarrow> hooks_ok t)"

text \<open>The other callbacks of the collector may change a realm's objects, not what is filed.\<close>

definition env_ok :: "rt_env \<Rightarrow> bool" where
  "env_ok e \<longleftrightarrow> async_env_ok e \<and> module_gc e \<noteq> NULL \<and> uio_gc e \<noteq> NULL \<and> uio_gc e \<noteq> module_gc e
     \<and> (\<forall>fn p status s. \<exists>s'. other_gc e fn p status s = (True, s') \<and> calm_step s s'
          \<and> gcCallbackList s' = gcCallbackList s)"

lemma realm_kept_refl: "realm_kept r r"
  by (simp add: realm_kept_def)

lemma calm_refl: "calm_step s s"
  by (simp add: calm_step_def option.rel_refl realm_kept_refl)

lemma realm_kept_trans: "realm_kept r r1 \<Longrightarrow> realm_kept r1 r2 \<Longrightarrow> realm_kept r r2"
  by (simp add: realm_kept_def)

lemma calm_trans:
  assumes "calm_step s t" and "calm_step t u"
  shows "calm_step s u"
proof -
  have "rel_option realm_kept (realm_tab s p) (realm_tab u p)" for p
  proof -
    have "rel_option realm_kept (realm_tab s p) (realm_tab t p)" "rel_option realm_kept (realm_tab t p) (realm_tab u p)"
      using assms by (simp_all add: calm_step_def)
    then show ?thesis using realm_kept_trans by (cases "realm_tab s p"; cases "realm_tab t p"; cases "realm_tab u p") auto
  qed
  with assms show ?thesis unfolding calm_step_def by auto
qed

lemma monitors_only_calm: "monitors_only s t \<Longrightarrow> calm_step s t"
  by (simp add: monitors_only_def calm_step_def option.rel_refl realm_kept_refl)

lemma calm_none: "calm_step s t \<Longrightarrow> realm_tab t p = None \<longleftrightarrow> realm_tab s p = None"
proof -
  assume "calm_step s t"
  then have "rel_option realm_kept (realm_tab s p) (realm_tab t p)" by (simp add: calm_step_def)
  then show ?thesis by (cases "realm_tab s p"; cases "realm_tab t p") auto
qed

lemma calm_kept: "calm_step s t \<Longrightarrow> realm_tab t p = Some r' \<Longrightarrow> \<exists>r. realm_tab s p = Some r \<and> realm_kept r r'"
proof -
  assume "calm_step s t" and r': "realm_tab t p = Some r'"
  from \<open>calm_step s t\<close> have "rel_option realm_kept (realm_tab s p) (realm_tab t p)"
    unfolding calm_step_def by blast
  with r' show ?thesis by (cases "realm_tab s p") auto
qed

lemma calm_ok:
  assumes env: "env_ok e" and ok: "rt_ok e s" and c: "calm_step s t"
  shows "rt_ok e t"
proof -
  have st: "asyncCallbacks t = asyncCallbacks s" "nodes t = nodes s" "cx_private t = cx_private s" "blocks t = blocks s"
    "next_block s \<le> next_block t" and l: "\<And>p. contexts t p = None \<longleftrightarrow> contexts s p = None"
    and rc: "realmsByContext t = realmsByContext s" and ml: "mon_list (mons t) \<noteq> None" "hooks_ok t"
    using c ok by (simp_all add: calm_step_def rt_ok_def)
  have "async_ok e t" using ok async_ok_cong [OF _ st] by (simp add: rt_ok_def)
  moreover have "\<forall>p r'. realm_tab t p = Some r' \<longrightarrow> realm_ok t p r'"
  proof (intro allI impI)
    fix p r'
    assume "realm_tab t p = Some r'"
    from calm_kept [OF c this] obtain r where r: "realm_tab s p = Some r" "realm_kept r r'" by blast
    with ok have "realm_ok s p r" by (simp add: rt_ok_def)
    moreover have "r_cachedCx q' \<noteq> r_cachedCx r'" if n: "r_cachedCx r' \<noteq> NULL" and q: "realm_tab t q = Some q'" "q \<noteq> p" for q q'
    proof -
      from calm_kept [OF c q(1)] obtain q0 where "realm_tab s q = Some q0" "realm_kept q0 q'" by blast
      with \<open>realm_ok s p r\<close> r(2) q(2) n show ?thesis by (auto simp: realm_ok_def realm_kept_def)
    qed
    ultimately show "realm_ok t p r'" using r(2) unfolding realm_ok_def realm_kept_def l rc by metis
  qed
  moreover have "\<forall>x \<in> set (ds_data (gcCallbackList t)). fst x = module_gc e \<longrightarrow> realm_tab t (snd x) \<noteq> None"
    using ok c env unfolding rt_ok_def calm_none [OF c] calm_step_def env_ok_def by metis
  moreover have "\<forall>p \<ge> next_block t. contexts s p = None \<and> realm_tab s p = None" using ok st(5) by (simp add: rt_ok_def)
  ultimately show ?thesis using ok ml unfolding rt_ok_def l rc calm_none [OF c] by blast
qed

section \<open>Iterations that do not fail\<close>

lemma forEach_try:
  assumes "J 0 s" and size: "\<And>i s. J i s \<Longrightarrow> ds_size (get s) = n"
    and step: "\<And>i s k v. J i s \<Longrightarrow> i < n \<Longrightarrow> ds_data (get s) ! i = (k, v) \<Longrightarrow>
      (k = NULL \<longrightarrow> J (Suc i) s) \<and> (k \<noteq> NULL \<longrightarrow> (\<exists>s'. cb k v s = Some (True, s') \<and> J (Suc i) s'))"
  shows "\<exists>s' tr. gpsee_ds_forEach (the_store get) (try_cb cb) (Some s) = Some (True, Some s', tr) \<and> J n s'"
proof -
  have loop: "\<exists>s' tr'. forEach_loop (the_store get) (try_cb cb) i (Some s) tr = Some (True, Some s', tr') \<and> J n s'"
    if "J i s" "i \<le> n" for i s tr
    using that
  proof (induction "n - i" arbitrary: i s tr)
    case 0
    with size [OF 0(2)] show ?case by (subst forEach_step) (simp add: the_store_def)
  next
    case (Suc m)
    then have i: "i < n" "m = n - Suc i" "Suc i \<le> n" by simp_all
    obtain k v where kv: "ds_data (get s) ! i = (k, v)" by fastforce
    from step [OF Suc.prems(1) i(1) kv] have st: "k = NULL \<Longrightarrow> J (Suc i) s"
      "k \<noteq> NULL \<Longrightarrow> \<exists>s'. cb k v s = Some (True, s') \<and> J (Suc i) s'" by blast+
    show ?case
    proof (cases "k = NULL")
      case True
      from Suc.hyps(1) [OF i(2) st(1) [OF True] i(3), of tr] show ?thesis
        by (subst forEach_step) (simp add: the_store_def size [OF Suc.prems(1)] i(1) kv True)
    next
      case False
      from st(2) [OF this] obtain s1 where s1: "cb k v s = Some (True, s1)" "J (Suc i) s1" by blast
      from Suc.hyps(1) [OF i(2) s1(2) i(3), of tr] False show ?thesis
        by (subst forEach_step) (simp add: the_store_def size [OF Suc.prems(1)] i(1) kv try_cb_def s1(1))
    qed
  qed
  from loop [OF assms(1), of "gpsee_enterMonitor (ds_monitor (get s))"] show ?thesis
    by (auto simp: gpsee_ds_forEach_def the_store_def)
qed


section \<open>Collections\<close>

lemma gcCallback_inv:
  assumes inv: "mod_inv m ps"
  shows "\<exists>m' qs. moduleGCCallback status m = Some (True, m') \<and> mod_inv m' qs"
proof (cases status)
  case JSGC_BEGIN
  with inv show ?thesis by (auto simp: moduleGCCallback_def)
next
  case JSGC_END
  with inv show ?thesis by (auto simp: moduleGCCallback_def)
next
  case JSGC_FINALIZE_END
  with finalize_end_inv [OF inv] show ?thesis by blast
next
  case JSGC_MARK_END
  have ok: "memo_ok m" using inv by (simp add: mod_inv_def)
  then have ks: "keys_sorted (modules m)" and al: "\<forall>x \<in> set (map snd (inorder (modules m))). handles m x \<noteq> None"
    using memo_members [OF ok] by (simp_all add: memo_ok_def) blast
  from foreach_visits_all [OF ks, of "mark_body (handles m)" "Some []"] obtain t where
    t: "SPLAY_FOREACH (mark_body (handles m)) (modules m) (Some [])
      = Some (t, fold (mark_body (handles m)) (map snd (inorder (modules m))) (Some []))"
    "inorder t = inorder (modules m)" by blast
  have "mod_inv (m\<lparr>modules := t, events := evs\<rparr>) ps" for evs
    using inv t(2) by (simp add: mod_inv_def memo_ok_def memo_of_def keys_sorted_def)
  with t(1) mark_fold [OF al, of "[]"] JSGC_MARK_END show ?thesis by (auto simp: moduleGCCallback_def)
qed

lemma upd_mst_calm:
  assumes "realm_tab s p = Some r" and "realm_kept r r'"
  shows "calm_step s (s\<lparr>realm_tab := (realm_tab s)(p \<mapsto> r')\<rparr>)"
  using assms by (auto simp: calm_step_def option.rel_refl realm_kept_refl)

lemma gc_status_ok:
  assumes env: "env_ok e" and ok: "rt_ok e s"
  shows "\<exists>s' tr. gpsee_ds_forEach (the_store gcCallbackList) (try_cb (run_gc_cb e status)) (Some s) = Some (True, Some s', tr)
    \<and> calm_step s s' \<and> gcCallbackList s' = gcCallbackList s"
proof -
  define J where "J = (\<lambda>(i :: nat) t. calm_step s t \<and> gcCallbackList t = gcCallbackList s)"
  have "\<exists>s' tr. gpsee_ds_forEach (the_store gcCallbackList) (try_cb (run_gc_cb e status)) (Some s) = Some (True, Some s', tr)
    \<and> J (ds_size (gcCallbackList s)) s'"
  proof (rule forEach_try)
    show "J 0 s" by (simp add: J_def calm_refl)
    show "ds_size (gcCallbackList t) = ds_size (gcCallbackList s)" if "J i t" for i t using that by (simp add: J_def)
    fix i t k v
    assume J: "J i t" and i: "i < ds_size (gcCallbackList s)" and kv: "ds_data (gcCallbackList t) ! i = (k, v)"
    have "rt_ok e t" using J calm_ok [OF env ok] by (simp add: J_def)
    have mem: "(k, v) \<in> set (ds_data (gcCallbackList t))" using kv i J nth_mem by (fastforce simp: J_def)
    have "\<exists>u. run_gc_cb e status k v t = Some (True, u) \<and> calm_step t u \<and> gcCallbackList u = gcCallbackList t"
    proof (cases "k = module_gc e")
      case False
      with env show ?thesis by (auto simp: run_gc_cb_def env_ok_def)
    next
      case True
      with \<open>rt_ok e t\<close> mem obtain r where r: "realm_tab t v = Some r" by (fastforce simp: rt_ok_def)
      with \<open>rt_ok e t\<close> have "realm_ok t v r" by (simp add: rt_ok_def)
      then obtain ps where "mod_inv (r_mst r) ps" by (auto simp: realm_ok_def)
      from gcCallback_inv [OF this, of status] obtain m qs where
        m: "moduleGCCallback status (r_mst r) = Some (True, m)" "mod_inv m qs" by blast
      then have "realm_kept r (r\<lparr>r_mst := m\<rparr>)" by (auto simp: realm_kept_def)
      from upd_mst_calm [OF r this] True m(1) r show ?thesis by (simp add: run_gc_cb_def)
    qed
    with J show "(k = NULL \<longrightarrow> J (Suc i) t) \<and> (k \<noteq> NULL \<longrightarrow> (\<exists>s'. run_gc_cb e status k v t = Some (True, s') \<and> J (Suc i) s'))"
      using calm_trans by (fastforce simp: J_def)
  qed
  then show ?thesis by (auto simp: J_def)
qed

lemma record_calm: "calm_step s (record_calls tr s)"
  by (simp add: calm_step_def record_calls_def option.rel_refl realm_kept_refl)

lemma statuses_ok:
  assumes env: "env_ok e"
  shows "rt_ok e s \<Longrightarrow> \<exists>s'. run_statuses e ss s = Some s' \<and> calm_step s s' \<and> gcCallbackList s' = gcCallbackList s"
proof (induction ss arbitrary: s)
  case Nil
  show ?case by (simp add: calm_refl)
next
  case (Cons a ss)
  from gc_status_ok [OF env Cons.prems, of a] obtain t tr where
    t: "gpsee_ds_forEach (the_store gcCallbackList) (try_cb (run_gc_cb e a)) (Some s) = Some (True, Some t, tr)"
    "calm_step s t" "gcCallbackList t = gcCallbackList s" by blast
  have c: "calm_step s (record_calls tr t)" by (rule calm_trans [OF t(2) record_calm])
  from Cons.IH [OF calm_ok [OF env Cons.prems c]] obtain u where
    "run_statuses e ss (record_calls tr t) = Some u" "calm_step (record_calls tr t) u"
    "gcCallbackList u = gcCallbackList (record_calls tr t)" by blast
  with t(1,3) calm_trans [OF c] show ?case by (simp add: record_calls_def)
qed

lemma JS_GC_ok:
  "env_ok e \<Longrightarrow> rt_ok e s \<Longrightarrow> \<exists>s'. JS_GC e s = Some s' \<and> calm_step s s' \<and> gcCallbackList s' = gcCallbackList s"
  unfolding JS_GC_def by (rule statuses_ok)

section \<open>The steps before the contexts go\<close>

lemma empty_used: "fst (gpsee_ds_empty d) = d' \<Longrightarrow> used_keys (ds_data d') = []"
  by (auto simp: gpsee_ds_empty_def used_keys_def)

text \<open>Nothing was ever put into the store of pending writes.\<close>

lemma dump_ok:
  assumes "rt_ok e s" and "realm_tab s realm = Some r"
  shows "\<exists>s'. gpsee_uio_dumpPendingWrites e realm s = Some s' \<and> calm_step s s' \<and> written s' = written s \<and> stdio_out s' = stdio_out s \<and> io_hooks s' = io_hooks s
    \<and> hooks_len s' = hooks_len s"
proof -
  have "realm_ok s realm r" using assms by (simp add: rt_ok_def)
  then obtain d where d: "r_pendingWrites r = Some d" "used_keys (ds_data d) = []" by (auto simp: realm_ok_def no_pending_iff)
  define J where "J = (\<lambda>(i :: nat) t. t = s)"
  have no: "k = NULL" if "i < ds_size d" "ds_data d ! i = (k, v)" for i k v
    using that d(2) nth_mem [OF that(1)] set_used_keys [of "ds_data d"] by (auto simp: image_iff)
  have "\<exists>s' tr. gpsee_ds_forEach (the_store (\<lambda>s. d)) (try_cb (uio_dumpPendingWrites_cb e realm)) (Some s) = Some (True, Some s', tr)
    \<and> J (ds_size d) s'"
  proof (rule forEach_try)
    show "J 0 s" by (simp add: J_def)
    show "(k = NULL \<longrightarrow> J (Suc i) t) \<and> (k \<noteq> NULL \<longrightarrow>
        (\<exists>s'. uio_dumpPendingWrites_cb e realm k v t = Some (True, s') \<and> J (Suc i) s'))"
      if "J i t" "i < ds_size d" "ds_data d ! i = (k, v)" for i k v t
      using that(1) no [OF that(2,3)] by (simp add: J_def)
  qed simp
  then obtain tr where
    f: "gpsee_ds_forEach (the_store (\<lambda>s. d)) (try_cb (uio_dumpPendingWrites_cb e realm)) (Some s) = Some (True, Some s, tr)"
    by (auto simp: J_def)
  obtain d' tr' where em: "gpsee_ds_empty d = (d', tr')" by fastforce
  let ?s = "record_calls (tr @ tr') s"
  have "realm_kept r (r\<lparr>r_pendingWrites := Some d'\<rparr>)" using empty_used [of d d'] em by (simp add: realm_kept_def)
  from upd_mst_calm [of ?s realm r, OF _ this] assms(2)
  have "calm_step ?s (?s\<lparr>realm_tab := (realm_tab s)(realm \<mapsto> r\<lparr>r_pendingWrites := Some d'\<rparr>)\<rparr>)"
    by (simp add: record_calls_def)
  moreover have "calm_step s ?s" by (simp add: calm_step_def record_calls_def option.rel_refl realm_kept_refl)
  ultimately show ?thesis
    using calm_trans f em d(1) assms(2) by (auto simp: gpsee_uio_dumpPendingWrites_def upd_realm_def record_calls_def)
qed

lemma clear_hooks_ok:
  "mon_list (mons s) \<noteq> None \<Longrightarrow> hooks_ok s \<Longrightarrow> n \<le> hooks_len s \<Longrightarrow>
   \<exists>s'. clear_hooks e n s = Some s' \<and> calm_step s s' \<and> hooks_len s' = hooks_len s
     \<and> io_hooks s' = take (hooks_len s - n) (io_hooks s) @ replicate n memset_hook @ drop (hooks_len s) (io_hooks s)"
proof (induction n arbitrary: s)
  case 0
  then show ?case by (simp add: calm_refl)
next
  case (Suc n)
  from enter_monitors(3) [OF Suc.prems(1), of e] obtain t where
    t: "enter_user_io e s = Some t" "monitors_only s t" by blast
  have io: "io_hooks t = io_hooks s" "hooks_len t = hooks_len s" using t(2) by (simp_all add: monitors_only_def)
  let ?i = "hooks_len s - Suc n"
  let ?t = "leave_auto (mon_user_io t) (t\<lparr>io_hooks := (io_hooks t)[?i := memset_hook]\<rparr>)"
  have c: "calm_step s ?t"
    by (rule calm_trans [OF monitors_only_calm [OF t(2)]])
      (simp add: calm_step_def leave_auto_def record_calls_def option.rel_refl realm_kept_refl)
  have m: "mon_list (mons ?t) \<noteq> None" using c Suc.prems(1) by (simp add: calm_step_def)
  have iot: "io_hooks ?t = (io_hooks s)[?i := memset_hook]" "hooks_len ?t = hooks_len s"
    by (simp_all add: leave_auto_def record_calls_def io)
  have "hooks_ok ?t" "n \<le> hooks_len ?t" using Suc.prems(2,3) iot by simp_all
  from Suc.IH [OF m this] obtain u where u: "clear_hooks e n ?t = Some u" "calm_step ?t u" "hooks_len u = hooks_len ?t"
    "io_hooks u = take (hooks_len ?t - n) (io_hooks ?t) @ replicate n memset_hook @ drop (hooks_len ?t) (io_hooks ?t)" by blast
  have i: "hooks_len s - n = Suc ?i" "?i < length (io_hooks s)" "?i < hooks_len s" using Suc.prems(2,3) by simp_all
  then have "take (hooks_len ?t - n) (io_hooks ?t) = take ?i (io_hooks s) @ [memset_hook]"
    "drop (hooks_len ?t) (io_hooks ?t) = drop (hooks_len s) (io_hooks s)"
    by (simp_all add: iot take_Suc_conv_app_nth)
  moreover have "clear_hooks e (Suc n) s = clear_hooks e n ?t" using t(1) i(2) by (simp add: io)
  ultimately show ?case using u calm_trans [OF c] iot(2) by (simp add: replicate_app_Cons_same)
qed

text \<open>The calls that come and go with a context's request.\<close>

lemma upd_context_calm:
  assumes "contexts s cx \<noteq> None"
  shows "\<exists>s'. upd_context cx f s = Some s' \<and> calm_step s s' \<and> gcCallbackList s' = gcCallbackList s \<and> io_hooks s' = io_hooks s"
  using assms by (auto simp: upd_context_def calm_step_def option.rel_refl realm_kept_refl)

lemma ds_destroy_mons:
  "gpsee_ds_destroy d g = Some (g', tr) \<Longrightarrow> mon_list g \<noteq> None \<Longrightarrow> mon_list g' \<noteq> None"
  by (auto simp: gpsee_ds_destroy_def gpsee_destroyMonitor_def split: option.splits prod.splits if_splits)

lemma shutdown_mons:
  "gpsee_shutdownModuleSystem e s g = Some (s', g') \<Longrightarrow> mon_list g \<noteq> None \<Longrightarrow> mon_list g' \<noteq> None"
  using ds_destroy_mons by (fastforce simp: gpsee_shutdownModuleSystem_def Let_def bind_eq_Some_conv split: option.splits)

lemma shutdown_calm:
  assumes ok: "rt_ok e s" and r: "realm_tab s realm = Some r"
  shows "\<exists>m g. gpsee_shutdownModuleSystem (realm_env e) (r_mst r) (mons s) = Some (m, g) \<and> all_finished m
    \<and> calm_step s (s\<lparr>realm_tab := (realm_tab s)(realm \<mapsto> r\<lparr>r_mst := m\<rparr>), mons := g\<rparr>)"
proof -
  have "realm_ok s realm r" and ml: "mon_list (mons s) \<noteq> None" using ok r by (simp_all add: rt_ok_def)
  then obtain ps where "mod_inv (r_mst r) ps" by (auto simp: realm_ok_def)
  from shutdown_spec [OF this ml, of "realm_env e"] obtain m g qs where
    m: "gpsee_shutdownModuleSystem (realm_env e) (r_mst r) (mons s) = Some (m, g)" "mod_inv m qs" "all_finished m" by blast
  have "realm_kept r (r\<lparr>r_mst := m\<rparr>)" using m(2) by (auto simp: realm_kept_def)
  from upd_mst_calm [OF r this] have "calm_step s (s\<lparr>realm_tab := (realm_tab s)(realm \<mapsto> r\<lparr>r_mst := m\<rparr>)\<rparr>)" .
  moreover have "mon_list g \<noteq> None" by (rule shutdown_mons [OF m(1) ml])
  ultimately have "calm_step s (s\<lparr>realm_tab := (realm_tab s)(realm \<mapsto> r\<lparr>r_mst := m\<rparr>), mons := g\<rparr>)"
    by (simp add: calm_step_def)
  with m show ?thesis by blast
qed

lemma removeAll_data:
  "\<exists>tr. gpsee_removeAllGCCallbacks_forRealm s realm = Some (True, s\<lparr>ds_data := map (drop_realm realm) (ds_data s)\<rparr>, tr)"
  using removeAll_loop [of s "[]" "ds_data s" realm "gpsee_enterMonitor (ds_monitor s)"]
  by (auto simp: gpsee_removeAllGCCallbacks_forRealm_def gpsee_ds_forEach_def)

lemma dropped: "x \<in> set (map (drop_realm realm) data) \<Longrightarrow> fst x \<noteq> NULL \<Longrightarrow> x \<in> set data \<and> snd x \<noteq> realm"
  by (auto simp: drop_realm_def split: if_splits)

lemma enter_dir_ok:
  assumes "mon_list (mons s) \<noteq> None" and r: "realm_tab s realm = Some r"
  shows "\<exists>m t. enter_dir e realm s = Some t \<and> calm_step s t \<and> gcCallbackList t = gcCallbackList s \<and> io_hooks t = io_hooks s
    \<and> realm_tab t realm = Some (r\<lparr>r_dir_monitor := m\<rparr>)"
proof -
  from enter_auto_ok [OF assms(1), of e "dir_monitor realm" "set_dir_monitor realm"] obtain m g tr where
    t: "enter_dir e realm s = Some (set_dir_monitor realm m (record_calls tr
      (s\<lparr>cp_clock := Suc (cp_clock s), next_block := Suc (next_block s), mons := g\<rparr>)))" "mon_list g \<noteq> None" by blast
  let ?s = "record_calls tr (s\<lparr>cp_clock := Suc (cp_clock s), next_block := Suc (next_block s), mons := g\<rparr>)"
  have "realm_kept r (r\<lparr>r_dir_monitor := m\<rparr>)" by (simp add: realm_kept_def)
  from upd_mst_calm [of ?s realm r, OF _ this] r have
    "calm_step ?s (?s\<lparr>realm_tab := (realm_tab ?s)(realm \<mapsto> r\<lparr>r_dir_monitor := m\<rparr>)\<rparr>)" by (simp add: record_calls_def)
  moreover have "set_dir_monitor realm m ?s = ?s\<lparr>realm_tab := (realm_tab ?s)(realm \<mapsto> r\<lparr>r_dir_monitor := m\<rparr>)\<rparr>"
    using r by (simp add: set_dir_monitor_def record_calls_def)
  moreover have "calm_step s ?s" using t(2) by (simp add: calm_step_def record_calls_def option.rel_refl realm_kept_refl)
  ultimately have c: "calm_step s (set_dir_monitor realm m ?s)" by (metis (no_types, lifting) calm_trans)
  have f: "gcCallbackList (set_dir_monitor realm m ?s) = gcCallbackList s" "io_hooks (set_dir_monitor realm m ?s) = io_hooks s"
    "realm_tab (set_dir_monitor realm m ?s) realm = Some (r\<lparr>r_dir_monitor := m\<rparr>)"
    using r by (simp_all add: set_dir_monitor_def record_calls_def)
  show ?thesis by (intro exI [of _ m] exI [of _ "set_dir_monitor realm m ?s"] conjI t(1) c f)
qed

lemma calm_mons: "calm_step s t \<Longrightarrow> mon_list (mons s) \<noteq> None \<Longrightarrow> mon_list (mons t) \<noteq> None"
  by (simp add: calm_step_def)

lemma calm_realm: "calm_step s t \<Longrightarrow> realm_tab s p = Some r \<Longrightarrow> \<exists>r'. realm_tab t p = Some r' \<and> realm_kept r r'"
proof -
  assume "calm_step s t" and r: "realm_tab s p = Some r"
  then have "rel_option realm_kept (realm_tab s p) (realm_tab t p)" unfolding calm_step_def by blast
  with r show ?thesis by (cases "realm_tab t p") auto
qed

lemma calm_live: "calm_step s t \<Longrightarrow> contexts t c = None \<longleftrightarrow> contexts s c = None"
  by (simp add: calm_step_def)

text \<open>The first half of the destruction of a realm, from the collection on.\<close>

lemma destroyRealm_middle:
  assumes env: "env_ok e" and ok: "rt_ok e s" and r: "realm_tab s realm = Some r"
  shows "\<exists>m g u v w. gpsee_shutdownModuleSystem (realm_env e) (r_mst r) (mons s) = Some (m, g)
    \<and> gpsee_removeAllGCCallbacks_forRealm (gcCallbackList s) realm = Some (True, u)
    \<and> enter_dir e realm (record_calls (snd u) (s\<lparr>realm_tab := (realm_tab s)(realm \<mapsto> r\<lparr>r_mst := m\<rparr>), mons := g,
        gcCallbackList := fst u\<rparr>)) = Some v
    \<and> upd_realm realm (\<lambda>r. r\<lparr>r_mst := (r_mst r)\<lparr>programModuleDir := None\<rparr>\<rparr>) v = Some w
    \<and> calm_step s w \<and> io_hooks w = io_hooks s
    \<and> (\<forall>x \<in> set (ds_data (gcCallbackList w)). fst x \<noteq> NULL \<longrightarrow> x \<in> set (ds_data (gcCallbackList s)) \<and> snd x \<noteq> realm)
    \<and> (\<exists>r'. realm_tab w realm = Some r' \<and> all_finished (r_mst r'))"
proof -
  have ml: "mon_list (mons s) \<noteq> None" using ok by (simp add: rt_ok_def)
  from shutdown_calm [OF ok r] obtain m g where
    m: "gpsee_shutdownModuleSystem (realm_env e) (r_mst r) (mons s) = Some (m, g)" "all_finished m" and
    c1: "calm_step s (s\<lparr>realm_tab := (realm_tab s)(realm \<mapsto> r\<lparr>r_mst := m\<rparr>), mons := g\<rparr>)" by blast
  let ?s1 = "s\<lparr>realm_tab := (realm_tab s)(realm \<mapsto> r\<lparr>r_mst := m\<rparr>), mons := g\<rparr>"
  let ?st = "(gcCallbackList s)\<lparr>ds_data := map (drop_realm realm) (ds_data (gcCallbackList s))\<rparr>"
  from removeAll_data [of "gcCallbackList s" realm] obtain tr where
    rm: "gpsee_removeAllGCCallbacks_forRealm (gcCallbackList s) realm = Some (True, ?st, tr)" by blast
  let ?s2 = "record_calls tr (?s1\<lparr>gcCallbackList := ?st\<rparr>)"
  have c2: "calm_step s ?s2"
    by (rule calm_trans [OF c1]) (use dropped in \<open>auto simp: calm_step_def record_calls_def option.rel_refl realm_kept_refl\<close>)
  have r2: "realm_tab ?s2 realm = Some (r\<lparr>r_mst := m\<rparr>)" by (simp add: record_calls_def)
  from enter_dir_ok [OF calm_mons [OF c2 ml] r2, of e] obtain n v where
    v: "enter_dir e realm ?s2 = Some v" "calm_step ?s2 v" "gcCallbackList v = gcCallbackList ?s2" "io_hooks v = io_hooks ?s2"
    "realm_tab v realm = Some (r\<lparr>r_mst := m, r_dir_monitor := n\<rparr>)" by auto
  let ?r = "r\<lparr>r_dir_monitor := n, r_mst := m\<lparr>programModuleDir := None\<rparr>\<rparr>"
  let ?w = "v\<lparr>realm_tab := (realm_tab v)(realm \<mapsto> ?r)\<rparr>"
  have w: "upd_realm realm (\<lambda>r. r\<lparr>r_mst := (r_mst r)\<lparr>programModuleDir := None\<rparr>\<rparr>) v = Some ?w"
    by (simp add: upd_realm_def v(5))
  have "mod_inv (m\<lparr>programModuleDir := None\<rparr>) ps = mod_inv m ps" for ps
    by (simp add: mod_inv_def memo_ok_def memo_of_def)
  then have "realm_kept (r\<lparr>r_mst := m, r_dir_monitor := n\<rparr>) ?r" by (simp add: realm_kept_def)
  from calm_trans [OF calm_trans [OF c2 v(2)] upd_mst_calm [OF v(5) this]] have cw: "calm_step s ?w" .
  have "all_finished (m\<lparr>programModuleDir := None\<rparr>)" using m(2) by (simp add: all_finished_def memo_of_def)
  then have fin: "\<exists>r'. realm_tab ?w realm = Some r' \<and> all_finished (r_mst r')" by simp
  have io: "io_hooks ?w = io_hooks s" by (simp add: v(4) record_calls_def)
  have "ds_data (gcCallbackList ?w) = map (drop_realm realm) (ds_data (gcCallbackList s))"
    by (simp add: v(3) record_calls_def)
  then have gc: "\<forall>x \<in> set (ds_data (gcCallbackList ?w)). fst x \<noteq> NULL \<longrightarrow>
      x \<in> set (ds_data (gcCallbackList s)) \<and> snd x \<noteq> realm" using dropped by metis
  have v1: "enter_dir e realm (record_calls (snd (?st, tr)) (s\<lparr>realm_tab := (realm_tab s)(realm \<mapsto> r\<lparr>r_mst := m\<rparr>), mons := g,
        gcCallbackList := fst (?st, tr)\<rparr>)) = Some v" using v(1) by simp
  show ?thesis
    by (intro exI [of _ m] exI [of _ g] exI [of _ "(?st, tr)"] exI [of _ v] exI [of _ ?w])
      (intro conjI m(1) rm v1 w cw io gc fin)
qed


section \<open>The contexts of a dying realm\<close>

lemma slots_remove_at: "k \<notin> fst ` set pre \<Longrightarrow> slots_remove (pre @ (k, v) # post) k = (v, pre @ (NULL, v) # post)"
  by (induction pre) auto

text \<open>
  After \<open>i\<close> steps of the iteration the first \<open>i\<close> slots have lost their contexts of that realm.
\<close>

definition ended :: "rt_env \<Rightarrow> ptr \<Rightarrow> rt_state \<Rightarrow> nat \<Rightarrow> rt_state \<Rightarrow> bool" where
  "ended e realm s i t \<longleftrightarrow> rt_ok e t \<and> filed t = map (drop_realm realm) (take i (filed s)) @ drop i (filed s)
     \<and> (\<forall>c. contexts t c = (if (c, realm) \<in> set (take i (filed s)) then None else contexts s c))
     \<and> realm_tab t = realm_tab s \<and> realms t = realms s \<and> gcCallbackList t = gcCallbackList s
     \<and> io_hooks t = io_hooks s \<and> roots t = roots s \<and> next_block s \<le> next_block t"

lemma ended_step:
  assumes env: "env_ok e" and t: "ended e realm s i t" and i: "i < length (filed s)" and kv: "filed t ! i = (k, v)"
    and n: "contexts s NULL = None"
  shows "(k = NULL \<longrightarrow> ended e realm s (Suc i) t)
    \<and> (k \<noteq> NULL \<longrightarrow> (\<exists>s'. destroyRealmContext_cb e realm k v t = Some (True, s') \<and> ended e realm s (Suc i) s'))"
proof -
  let ?pre = "map (drop_realm realm) (take i (filed s))" and ?post = "drop (Suc i) (filed s)"
  have len: "length ?pre = i" using i by simp
  have dt: "filed t = ?pre @ drop i (filed s)" and ok: "rt_ok e t" using t by (simp_all add: ended_def)
  then have kv': "filed s ! i = (k, v)" using kv i by (simp add: nth_append)
  then have dr: "drop i (filed s) = (k, v) # ?post" using i by (metis Cons_nth_drop_Suc)
  have tk: "take (Suc i) (filed s) = take i (filed s) @ [(k, v)]" using i kv' by (simp add: take_Suc_conv_app_nth)
  show ?thesis
  proof (cases "k \<noteq> NULL \<and> v = realm")
    case False
    then have "drop_realm realm (k, v) = (k, v)" by (auto simp: drop_realm_def)
    then have "filed t = map (drop_realm realm) (take (Suc i) (filed s)) @ ?post" by (simp add: dt dr tk)
    moreover have "(c, realm) \<in> set (take (Suc i) (filed s)) \<longleftrightarrow> (c, realm) \<in> set (take i (filed s)) \<or> c = NULL \<and> k = NULL \<and> v = realm" for c
      using False by (auto simp: tk)
    ultimately have "ended e realm s (Suc i) t" using t n by (auto simp: ended_def)
    then show ?thesis using False by (auto simp: destroyRealmContext_cb_def)
  next
    case True
    then have kn: "k \<noteq> NULL" and v: "v = realm" by simp_all
    have uk: "k \<in> set (used_keys (filed t))" using kn by (auto simp: dt dr set_used_keys)
    have "distinct (used_keys (filed t))" using ok by (simp add: rt_ok_def)
    then have "k \<notin> set (used_keys ?pre)" using kn by (auto simp: dt dr used_keys_append used_keys_Cons)
    then have "k \<notin> fst ` set ?pre" using kn by (auto simp: set_used_keys)
    then have rm: "snd (slots_remove (filed t) k) = ?pre @ (NULL, v) # ?post" by (simp add: dt dr slots_remove_at)
    have "async_env_ok e" using env by (simp add: env_ok_def)
    from destroyContext_ok [OF this ok uk] obtain u where u: "gpsee_destroyContext e k t = Some u" "rt_ok e u"
      "contexts u = (contexts t)(k := None)" "filed u = ?pre @ (NULL, v) # ?post" "realm_tab u = realm_tab t" "realms u = realms t"
      "gcCallbackList u = gcCallbackList t" "io_hooks u = io_hooks t" "roots u = roots t" "next_block t \<le> next_block u"
      unfolding rm by blast
    have "ended e realm s (Suc i) u"
      using t u by (auto simp: ended_def tk drop_realm_def v)
    with u(1) kn v show ?thesis by (simp add: destroyRealmContext_cb_def)
  qed
qed

lemma contexts_end:
  assumes env: "env_ok e" and ok: "rt_ok e s"
  shows "\<exists>t tr. gpsee_ds_forEach (the_store realmsByContext) (try_cb (destroyRealmContext_cb e realm)) (Some s)
      = Some (True, Some t, tr) \<and> ended e realm s (length (filed s)) t"
proof (rule forEach_try)
  show "ended e realm s 0 s" using ok by (simp add: ended_def)
  show "ds_size (realmsByContext t) = length (filed s)" if "ended e realm s i t" for i t
    using that by (simp add: ended_def)
  have "contexts s NULL = None" using ok by (simp add: rt_ok_def)
  from ended_step [OF env _ _ _ this]
  show "(k = NULL \<longrightarrow> ended e realm s (Suc i) t) \<and>
      (k \<noteq> NULL \<longrightarrow> (\<exists>s'. destroyRealmContext_cb e realm k v t = Some (True, s') \<and> ended e realm s (Suc i) s'))"
    if "ended e realm s i t" "i < length (filed s)" "filed t ! i = (k, v)" for i t k v
    using that by blast
qed

section \<open>The end of a realm\<close>

lemma forget_realm:
  assumes ok: "rt_ok e s" and r: "realm_tab s realm = Some r" and env: "env_ok e"
    and filed: "\<And>x. x \<in> set (filed s) \<Longrightarrow> fst x \<noteq> NULL \<Longrightarrow> snd x \<noteq> realm"
    and gc: "\<And>x. x \<in> set (ds_data (gcCallbackList s)) \<Longrightarrow> fst x \<noteq> NULL \<Longrightarrow> snd x \<noteq> realm"
    and a: "async_ok e t" and c: "contexts t = (contexts s)(r_cachedCx r := None)" and rc: "realmsByContext t = realmsByContext s"
    and g: "gcCallbackList t = gcCallbackList s" and nb: "next_block s \<le> next_block t" and ml: "mon_list (mons t) \<noteq> None" and hk: "hooks_ok t"
    and rt: "realm_tab t = (realm_tab s)(realm := None)"
  shows "rt_ok e t"
proof -
  have rok: "realm_ok s realm r" using ok r by (simp add: rt_ok_def)
  have "\<forall>x \<in> set (filed s). fst x \<noteq> NULL \<longrightarrow> contexts t (fst x) \<noteq> None \<and> realm_tab t (snd x) \<noteq> None"
  proof (intro ballI impI)
    fix x
    assume x: "x \<in> set (filed s)" "fst x \<noteq> NULL"
    then have "fst x \<in> set (used_keys (filed s))" using used_keys_in [of "fst x" "snd x"] by simp
    with rok x(2) have "fst x \<noteq> r_cachedCx r" by (auto simp: realm_ok_def)
    moreover have "contexts s (fst x) \<noteq> None \<and> realm_tab s (snd x) \<noteq> None" using ok x by (simp add: rt_ok_def)
    ultimately show "contexts t (fst x) \<noteq> None \<and> realm_tab t (snd x) \<noteq> None" using filed [OF x] by (simp add: c rt)
  qed
  moreover have "\<forall>p q. realm_tab t p = Some q \<longrightarrow> realm_ok t p q"
  proof (intro allI impI)
    fix p q
    assume "realm_tab t p = Some q"
    then have p: "p \<noteq> realm" "realm_tab s p = Some q" by (auto simp: rt split: if_splits)
    with ok have q: "realm_ok s p q" by (simp add: rt_ok_def)
    show "realm_ok t p q"
    proof (cases "r_cachedCx q = NULL")
      case True
      with q show ?thesis by (simp add: realm_ok_def)
    next
      case False
      with q have "\<forall>q' r'. realm_tab s q' = Some r' \<longrightarrow> q' \<noteq> p \<longrightarrow> r_cachedCx r' \<noteq> r_cachedCx q"
        unfolding realm_ok_def by blast
      with p(1) r have "r_cachedCx r \<noteq> r_cachedCx q" by blast
      with q False show ?thesis unfolding realm_ok_def c rc rt by (auto split: if_splits)
    qed
  qed
  moreover have "\<forall>x \<in> set (ds_data (gcCallbackList s)). fst x = module_gc e \<longrightarrow> realm_tab t (snd x) \<noteq> None"
    using ok env gc by (auto simp: rt_ok_def env_ok_def rt)
  moreover have "\<forall>p \<ge> next_block t. contexts t p = None \<and> realm_tab t p = None"
    using ok nb by (simp add: rt_ok_def c rt)
  moreover have "contexts t NULL = None \<and> realm_tab t NULL = None" using ok by (simp add: rt_ok_def c rt)
  ultimately show ?thesis using ok a ml hk unfolding rt_ok_def rc g by blast
qed


lemma spare_end:
  assumes env: "env_ok e" and ok: "rt_ok e s" and r: "realm_tab s realm = Some r"
  shows "\<exists>u. (if r_cachedCx r \<noteq> NULL then JS_DestroyContext e (r_cachedCx r) s else Some s) = Some u \<and> async_ok e u
    \<and> contexts u = (contexts s)(r_cachedCx r := None) \<and> realm_tab u = realm_tab s \<and> realms u = realms s
    \<and> realmsByContext u = realmsByContext s \<and> gcCallbackList u = gcCallbackList s \<and> mons u = mons s
    \<and> io_hooks u = io_hooks s \<and> hooks_len u = hooks_len s \<and> roots u = roots s \<and> next_block u = next_block s"
proof (cases "r_cachedCx r = NULL")
  case True
  have "async_ok e s" "(contexts s)(NULL := None) = contexts s" using ok by (auto simp: rt_ok_def)
  with True show ?thesis by simp
next
  case False
  have a: "async_ok e s" and rok: "realm_ok s realm r" and e: "async_env_ok e"
    using ok r env by (simp_all add: rt_ok_def env_ok_def)
  from rok False obtain c where c: "contexts s (r_cachedCx r) = Some c" by (auto simp: realm_ok_def)
  from JS_DestroyContext_ok [OF e a c] obtain u t where u: "JS_DestroyContext e (r_cachedCx r) s = Some u"
    "u = t\<lparr>contexts := (contexts s)(r_cachedCx r := None)\<rparr>" "async_state.more t = async_state.more s" "async_ok e t"
    "next_block t = next_block s" by blast
  note tm = rt_more [OF u(3)]
  have "async_ok e u" by (rule async_ok_cong [OF u(4)]) (simp_all add: u(2))
  moreover have "contexts u = (contexts s)(r_cachedCx r := None)" "realm_tab u = realm_tab s" "realms u = realms s"
    "realmsByContext u = realmsByContext s" "gcCallbackList u = gcCallbackList s" "mons u = mons s"
    "io_hooks u = io_hooks s" "hooks_len u = hooks_len s" "roots u = roots s" "next_block u = next_block s"
    by (simp_all add: u(2) tm u(5))
  ultimately show ?thesis using u(1) False by simp
qed

lemma cleanup_ok:
  assumes ok: "rt_ok e s" and r: "realm_tab s realm = Some r" and f: "all_finished (r_mst r)"
  shows "\<exists>m. on_mst realm (\<lambda>m. map_option (Pair ()) (gpsee_moduleSystemCleanup (realm_env e) m)) s
      = Some ((), s\<lparr>realm_tab := (realm_tab s)(realm \<mapsto> r\<lparr>r_mst := m\<rparr>)\<rparr>) \<and> realm_kept r (r\<lparr>r_mst := m\<rparr>)"
proof -
  have "realm_ok s realm r" using ok r by (simp add: rt_ok_def)
  then obtain ps where "mod_inv (r_mst r) ps" by (auto simp: realm_ok_def)
  moreover have "\<forall>n m h. memo_of (r_mst r) n = Some m \<longrightarrow> handles (r_mst r) m = Some h \<longrightarrow> scope h = NULL"
    using f unfolding all_finished_def by blast
  ultimately obtain m where m: "gpsee_moduleSystemCleanup (realm_env e) (r_mst r) = Some m"
    "mod_inv m (rev (map snd (inorder (modules (r_mst r)))) @ ps)" using cleanup_spec [of "r_mst r" ps "realm_env e"] by blast
  then have "realm_kept r (r\<lparr>r_mst := m\<rparr>)" by (auto simp: realm_kept_def)
  with m(1) r show ?thesis by (intro exI [of _ m]) (simp add: on_mst_def)
qed

lemma destroy_rest_ok:
  assumes env: "env_ok e" and ok: "rt_ok e s" and r: "realm_tab s realm = Some r" and f: "all_finished (r_mst r)"
    and gc: "\<And>x. x \<in> set (ds_data (gcCallbackList s)) \<Longrightarrow> fst x \<noteq> NULL \<Longrightarrow> snd x \<noteq> realm"
    and cx: "contexts s cx \<noteq> None" "(cx, realm) \<notin> set (filed s)" "cx \<noteq> r_cachedCx r"
  shows "\<exists>s'. destroy_rest e cx realm s = Some (True, s') \<and> rt_ok e s' \<and> realm_tab s' = (realm_tab s)(realm := None)
    \<and> filed s' = map (drop_realm realm) (filed s) \<and> realms s' = realms s \<and> gcCallbackList s' = gcCallbackList s
    \<and> (\<forall>c. contexts s' c = (if (c, realm) \<in> set (filed s) \<or> c = r_cachedCx r then None else contexts s c))
    \<and> io_hooks s' = io_hooks s \<and> roots s' = roots s"
proof -
  from contexts_end [OF env ok, of realm] obtain t0 tr0 where
    t0: "gpsee_ds_forEach (the_store realmsByContext) (try_cb (destroyRealmContext_cb e realm)) (Some s) = Some (True, Some t0, tr0)"
    and en: "ended e realm s (length (filed s)) t0" by blast
  let ?t = "record_calls tr0 t0"
  have f0: "filed ?t = map (drop_realm realm) (filed s)" "realm_tab ?t = realm_tab s" "realms ?t = realms s"
    "gcCallbackList ?t = gcCallbackList s" "io_hooks ?t = io_hooks s" "roots ?t = roots s"
    "\<And>c. contexts ?t c = (if (c, realm) \<in> set (filed s) then None else contexts s c)"
    using en by (simp_all add: ended_def record_calls_def)
  have okt: "rt_ok e ?t" using en calm_ok [OF env _ record_calm] by (simp add: ended_def)
  have r1: "realm_tab ?t realm = Some r" using r f0(2) by simp
  from cleanup_ok [OF okt r1 f] obtain m where
    m: "on_mst realm (\<lambda>m. map_option (Pair ()) (gpsee_moduleSystemCleanup (realm_env e) m)) ?t
      = Some ((), ?t\<lparr>realm_tab := (realm_tab ?t)(realm \<mapsto> r\<lparr>r_mst := m\<rparr>)\<rparr>)" "realm_kept r (r\<lparr>r_mst := m\<rparr>)" by blast
  let ?r = "r\<lparr>r_mst := m\<rparr>"
  let ?t2 = "?t\<lparr>realm_tab := (realm_tab ?t)(realm \<mapsto> ?r)\<rparr>"
  have ok2: "rt_ok e ?t2" by (rule calm_ok [OF env okt upd_mst_calm [OF r1 m(2)]])
  have r2: "realm_tab ?t2 realm = Some ?r" by simp
  from spare_end [OF env ok2 r2] obtain u where
    u: "(if r_cachedCx ?r \<noteq> NULL then JS_DestroyContext e (r_cachedCx ?r) ?t2 else Some ?t2) = Some u" "async_ok e u"
    "contexts u = (contexts ?t2)(r_cachedCx ?r := None)" "realm_tab u = realm_tab ?t2" "realms u = realms ?t2"
    "realmsByContext u = realmsByContext ?t2" "gcCallbackList u = gcCallbackList ?t2" "mons u = mons ?t2"
    "io_hooks u = io_hooks ?t2" "hooks_len u = hooks_len ?t2" "roots u = roots ?t2" "next_block u = next_block ?t2" by blast
  have "realm_ok ?t2 realm ?r" and ml: "mon_list (mons u) \<noteq> None" using ok2 u(8) by (simp_all add: rt_ok_def)
  then obtain d where d: "r_pendingWrites ?r = Some d" by (auto simp: realm_ok_def no_pending_iff)
  from ds_destroy_ok [OF ml] obtain g tr where g: "gpsee_ds_destroy d (mons u) = Some (g, tr)" by blast
  have mg: "mon_list g \<noteq> None" by (rule ds_destroy_mons [OF g ml])
  let ?v = "record_calls tr (u\<lparr>mons := g, realm_tab := (realm_tab u)(realm := None)\<rparr>)"
  obtain c where c: "contexts ?t cx = Some c" using cx f0(7) by auto
  then have cu: "contexts u cx = Some c" using cx(3) u(3) by simp
  have run: "destroy_rest e cx realm s = Some (True, ?v)"
    unfolding destroy_rest_def t0
    by (simp only: c cu option.case prod.case Let_def simp_thms if_False m(1) bind.bind_lunit r2 u(1) d g)
  have "rt_ok e ?v"
  proof (rule forget_realm [OF ok2 r2 env])
    show "snd x \<noteq> realm" if "x \<in> set (filed ?t2)" "fst x \<noteq> NULL" for x
      using that f0(1) dropped [of x realm "filed s"] by simp
    show "snd x \<noteq> realm" if "x \<in> set (ds_data (gcCallbackList ?t2))" "fst x \<noteq> NULL" for x
      using that f0(4) gc [of x] by simp
    show "async_ok e ?v" by (rule async_ok_cong [OF u(2)]) (simp_all add: record_calls_def)
  qed (use u mg ok2 in \<open>simp_all add: record_calls_def rt_ok_def\<close>)
  moreover have "realm_tab ?v = (realm_tab s)(realm := None)" using u(4) f0(2) by (simp add: record_calls_def)
  moreover have "filed ?v = map (drop_realm realm) (filed s)" using u(6) f0(1) by (simp add: record_calls_def)
  moreover have "realms ?v = realms s" "gcCallbackList ?v = gcCallbackList s" "io_hooks ?v = io_hooks s" "roots ?v = roots s"
    using u(5,7,9,11) f0(3-6) by (simp_all add: record_calls_def)
  moreover have "contexts ?v c = (if (c, realm) \<in> set (filed s) \<or> c = r_cachedCx r then None else contexts s c)" for c
    using u(3) f0(7) [of c] by (simp add: record_calls_def)
  ultimately show ?thesis using run by blast
qed


lemma calm_rest:
  assumes "calm_step s t"
  shows "realmsByContext t = realmsByContext s" "realms t = realms s"
    "x \<in> set (ds_data (gcCallbackList t)) \<Longrightarrow> fst x \<noteq> NULL \<Longrightarrow> x \<in> set (ds_data (gcCallbackList s))"
  using assms by (simp_all add: calm_step_def)

lemma calm_dom: "calm_step s t \<Longrightarrow> dom (realm_tab t) = dom (realm_tab s)"
  using calm_none by (force simp: dom_def)

text \<open>Everything before the shut-down of the module system.\<close>

lemma destroyRealm_front:
  assumes env: "env_ok e" and ok: "rt_ok e s" and r: "realm_tab s realm \<noteq> None" and cx: "contexts s cx \<noteq> None"
  shows "\<exists>s1 s2 s3 s4 s5 s6. gpsee_uio_dumpPendingWrites e realm s = Some s1 \<and> clear_hooks e (hooks_len s1) s1 = Some s2
    \<and> upd_context cx (\<lambda>c. c\<lparr>cx_global := NULL\<rparr>) (s2\<lparr>roots := remove1 realm (roots s2)\<rparr>) = Some s3
    \<and> JS_EndRequest cx s3 = Some s4 \<and> JS_GC e s4 = Some s5 \<and> JS_BeginRequest cx s5 = Some s6 \<and> calm_step s s6"
proof -
  from r obtain r0 where "realm_tab s realm = Some r0" by blast
  from dump_ok [OF ok this] obtain s1 where s1: "gpsee_uio_dumpPendingWrites e realm s = Some s1" "calm_step s s1" by blast
  have "mon_list (mons s1) \<noteq> None" "hooks_ok s1" using calm_ok [OF env ok s1(2)] by (simp_all add: rt_ok_def)
  from clear_hooks_ok [OF this order_refl, of e] obtain s2 where
    s2: "clear_hooks e (hooks_len s1) s1 = Some s2" "calm_step s1 s2" by auto
  let ?s2 = "s2\<lparr>roots := remove1 realm (roots s2)\<rparr>"
  have "calm_step s2 ?s2" by (simp add: calm_step_def option.rel_refl realm_kept_refl)
  with s1 s2 have c2: "calm_step s ?s2" using calm_trans by blast
  then have "contexts ?s2 cx \<noteq> None" using calm_live [of s ?s2 cx] cx by blast
  from upd_context_calm [OF this] obtain s3 where
    s3: "upd_context cx (\<lambda>c. c\<lparr>cx_global := NULL\<rparr>) ?s2 = Some s3" "calm_step ?s2 s3" by blast
  have c3: "calm_step s s3" by (rule calm_trans [OF c2 s3(2)])
  have l3: "contexts s3 cx \<noteq> None" using calm_live [OF c3] cx by simp
  from upd_context_calm [OF l3] obtain s4 where s4: "JS_EndRequest cx s3 = Some s4" "calm_step s3 s4"
    unfolding JS_EndRequest_def by blast
  have c4: "calm_step s s4" by (rule calm_trans [OF c3 s4(2)])
  from JS_GC_ok [OF env calm_ok [OF env ok c4]] obtain s5 where s5: "JS_GC e s4 = Some s5" "calm_step s4 s5" by blast
  have c5: "calm_step s s5" by (rule calm_trans [OF c4 s5(2)])
  have l5: "contexts s5 cx \<noteq> None" using calm_live [OF c5] cx by simp
  from upd_context_calm [OF l5] obtain s6 where s6: "JS_BeginRequest cx s5 = Some s6" "calm_step s5 s6"
    unfolding JS_BeginRequest_def by blast
  have "calm_step s s6" by (rule calm_trans [OF c5 s6(2)])
  with s1 s2 s3 s4 s5 s6 show ?thesis by blast
qed

lemma destroyRealm_ok:
  assumes env: "env_ok e" and ok: "rt_ok e s" and r: "realm_tab s realm = Some r"
    and cx: "contexts s cx \<noteq> None" "(cx, realm) \<notin> set (filed s)" "cx \<noteq> r_cachedCx r"
  shows "\<exists>s'. gpsee_destroyRealm e cx realm s = Some (True, s') \<and> rt_ok e s'
    \<and> dom (realm_tab s') = dom (realm_tab s) - {realm} \<and> filed s' = map (drop_realm realm) (filed s)
    \<and> (\<forall>c. contexts s' c = None \<longleftrightarrow> contexts s c = None \<or> (c, realm) \<in> set (filed s) \<or> c = r_cachedCx r)
    \<and> (\<forall>x \<in> set (ds_data (gcCallbackList s')). fst x \<noteq> NULL \<longrightarrow> x \<in> set (ds_data (gcCallbackList s)) \<and> snd x \<noteq> realm)
    \<and> realms s' = realms s \<and> (\<forall>q. q \<noteq> realm \<longrightarrow> rel_option realm_kept (realm_tab s q) (realm_tab s' q))"
proof -
  have rn: "realm_tab s realm \<noteq> None" using r by simp
  from destroyRealm_front [OF env ok rn cx(1)] obtain s1 s2 s3 s4 s5 s6 where
    p: "gpsee_uio_dumpPendingWrites e realm s = Some s1" "clear_hooks e (hooks_len s1) s1 = Some s2"
    "upd_context cx (\<lambda>c. c\<lparr>cx_global := NULL\<rparr>) (s2\<lparr>roots := remove1 realm (roots s2)\<rparr>) = Some s3"
    "JS_EndRequest cx s3 = Some s4" "JS_GC e s4 = Some s5" "JS_BeginRequest cx s5 = Some s6" and c6: "calm_step s s6" by blast
  have ok6: "rt_ok e s6" by (rule calm_ok [OF env ok c6])
  from calm_realm [OF c6 r] obtain r6 where r6: "realm_tab s6 realm = Some r6" by blast
  from destroyRealm_middle [OF env ok6 r6] obtain m g u v w r7 where
    q: "gpsee_shutdownModuleSystem (realm_env e) (r_mst r6) (mons s6) = Some (m, g)"
    "gpsee_removeAllGCCallbacks_forRealm (gcCallbackList s6) realm = Some (True, u)"
    "enter_dir e realm (record_calls (snd u) (s6\<lparr>realm_tab := (realm_tab s6)(realm \<mapsto> r6\<lparr>r_mst := m\<rparr>), mons := g,
        gcCallbackList := fst u\<rparr>)) = Some v"
    "upd_realm realm (\<lambda>r. r\<lparr>r_mst := (r_mst r)\<lparr>programModuleDir := None\<rparr>\<rparr>) v = Some w" and c7: "calm_step s6 w"
    and gc: "\<forall>x \<in> set (ds_data (gcCallbackList w)). fst x \<noteq> NULL \<longrightarrow>
        x \<in> set (ds_data (gcCallbackList s6)) \<and> snd x \<noteq> realm"
    and r7: "realm_tab w realm = Some r7" "all_finished (r_mst r7)" by blast
  let ?x = "leave_auto (dir_monitor realm w) w"
  have cw: "calm_step s w" by (rule calm_trans [OF c6 c7])
  then have cx': "calm_step s ?x" unfolding leave_auto_def by (rule calm_trans [OF _ record_calm])
  have rx: "realm_tab ?x realm = Some r7" using r7(1) by (simp add: leave_auto_def record_calls_def)
  from calm_realm [OF cx' r] rx have ca: "r_cachedCx r7 = r_cachedCx r" by (auto simp: realm_kept_def)
  have gcx: "x \<in> set (ds_data (gcCallbackList s)) \<and> snd x \<noteq> realm" if "x \<in> set (ds_data (gcCallbackList ?x))" "fst x \<noteq> NULL" for x
    using that gc calm_rest(3) [OF c6] by (simp add: leave_auto_def record_calls_def)
  have fx: "realmsByContext ?x = realmsByContext s" "realms ?x = realms s" using calm_rest [OF cx'] by simp_all
  have lx: "contexts ?x c = None \<longleftrightarrow> contexts s c = None" for c by (rule calm_live [OF cx'])
  have "contexts ?x cx \<noteq> None" "(cx, realm) \<notin> set (filed ?x)" "cx \<noteq> r_cachedCx r7"
    using cx by (simp_all add: lx fx ca)
  from destroy_rest_ok [OF env calm_ok [OF env ok cx'] rx r7(2) _ this] gcx obtain s' where
    s': "destroy_rest e cx realm ?x = Some (True, s')" "rt_ok e s'" "realm_tab s' = (realm_tab ?x)(realm := None)"
    "filed s' = map (drop_realm realm) (filed ?x)" "realms s' = realms ?x" "gcCallbackList s' = gcCallbackList ?x"
    "\<forall>c. contexts s' c = (if (c, realm) \<in> set (filed ?x) \<or> c = r_cachedCx r7 then None else contexts ?x c)" by blast
  have run: "gpsee_destroyRealm e cx realm s = Some (True, s')"
    unfolding gpsee_destroyRealm_def
    by (simp only: p r6 bind.bind_lunit Let_def q(1,2) prod.case) (cases u; use q(2-4) s'(1) in simp)
  have "dom (realm_tab s') = dom (realm_tab s) - {realm}"
    unfolding s'(3) by (simp add: calm_dom [OF cx'])
  moreover have "contexts s' c = None \<longleftrightarrow> contexts s c = None \<or> (c, realm) \<in> set (filed s) \<or> c = r_cachedCx r" for c
    using s'(7) lx [of c] by (auto simp: fx ca)
  moreover have "\<forall>x \<in> set (ds_data (gcCallbackList s')). fst x \<noteq> NULL \<longrightarrow>
      x \<in> set (ds_data (gcCallbackList s)) \<and> snd x \<noteq> realm" using gcx by (simp add: s'(6))
  moreover have "rel_option realm_kept (realm_tab s q) (realm_tab s' q)" if "q \<noteq> realm" for q
    using cx' that unfolding calm_step_def s'(3) by simp
  ultimately show ?thesis using run s'(2,4,5) fx by simp
qed

end
