(* ===== verification/RealmCreation.thy ===== *)
theory RealmCreation
  imports RealmTeardown
begin

text \<open>
  The start of a realm: a realm that \<open>gpsee_createRealm\<close> returns is live, its module system is
  sound, and it is filed where the runtime looks for it.
\<close>

section \<open>The module system of a new realm\<close>

lemma scope_frame_inv:
  assumes inv: "mod_inv s ps" and f: "scope_frame m s s'"
  shows "mod_inv s' ps"
proof -
  have same: "map_option (\<lambda>h. (cname h, released h, link h)) (handles s' q)
      = map_option (\<lambda>h. (cname h, released h, link h)) (handles s q)" for q
  proof (cases "q = m")
    case False
    with f show ?thesis by (simp add: scope_frame_def)
  next
    case True
    with f show ?thesis by (cases "handles s m") (auto simp: scope_frame_def)
  qed
  let ?t = "s\<lparr>handles := handles s', events := events s, clock := clock s, modules := modules s\<rparr>"
  have ks: "keys_sorted (modules s)" using inv by (simp add: mod_inv_def memo_ok_def)
  have "mod_inv ?t ps"
    by (rule mod_inv_handles [OF inv]) (use same ks in \<open>simp_all add: memo_of_def\<close>)
  moreover have "next_ptr s \<le> next_ptr s'" "modules s' = modules s"
    "unreachableModule_llist s' = unreachableModule_llist s" using f by (simp_all add: scope_frame_def)
  ultimately show ?thesis by (simp add: mod_inv_def memo_ok_def memo_of_def)
qed

lemma memset_inv: "mod_inv (r_mst memset_realm) []"
  by (simp add: mod_inv_def memo_ok_def memo_of_def keys_sorted_def memset_realm_def)

lemma alloc_nodes_frame: "alloc_nodes e ds s = Some s' \<Longrightarrow> modules s' = modules s \<and> handles s' = handles s
    \<and> unreachableModule_llist s' = unreachableModule_llist s \<and> next_ptr s' = next_ptr s"
proof (induction ds arbitrary: s)
  case (Cons d ds)
  then show ?case by (fastforce simp: call_def split: if_splits)
qed simp

lemma ds_create_mons:
  "gpsee_ds_create c1 c2 new ok p g flags n = Some (d, g', tr) \<Longrightarrow> mon_list g = Some l \<Longrightarrow> \<exists>l'. mon_list g' = Some l'"
  by (auto simp: gpsee_ds_create_def gpsee_createMonitor_def split: option.splits prod.splits if_splits)

lemma ds_create_unused:
  "gpsee_ds_create c1 c2 new ok p g flags n = Some (Some d, g', tr) \<Longrightarrow> used_keys (ds_data d) = []"
  by (auto simp: gpsee_ds_create_def ds_create_def used_keys_def split: option.splits prod.splits if_splits)

lemma initializeModuleSystem_spec:
  assumes "gpsee_initializeModuleSystem e envpath jail dir realm cb s grt gcs = Some (True, s', grt', gcs')"
  shows "modules s' = Leaf \<and> handles s' = handles s \<and> unreachableModule_llist s' = unreachableModule_llist s
    \<and> next_ptr s \<le> next_ptr s' \<and> (\<exists>ok tr. gpsee_addGCCallback ok gcs realm cb = (True, gcs', tr))
    \<and> (mon_list grt \<noteq> None \<longrightarrow> mon_list grt' \<noteq> None)"
  using assms
  by (cases envpath; auto simp: gpsee_initializeModuleSystem_def Let_def call_def call_new_def
      split: option.splits if_splits prod.splits bind_splits dest!: alloc_nodes_frame dest: ds_create_mons)

lemma initialize_inv:
  assumes "mod_inv s ps" and "memo_of s = Map.empty"
    and "gpsee_initializeModuleSystem e envpath jail dir realm cb s grt gcs = Some (True, s', grt', gcs')"
  shows "mod_inv s' ps"
  using assms(1,2) initializeModuleSystem_spec [OF assms(3)]
  by (simp add: mod_inv_def memo_ok_def memo_of_def keys_sorted_def)

lemma modulizeGlobal_inv:
  assumes inv: "mod_inv s ps" and r: "gpsee_modulizeGlobal e glob label ident s = Some (b, s')"
  shows "mod_inv s' ps"
proof -
  define l where "l = (case label of None \<Rightarrow> ''internal'' | Some l \<Rightarrow> l)"
  define n where "n = ''__'' @ l @ '':'' @ decimal (if ident = 0 then glob else ident) @ ''__''"
  obtain ok s1 where c: "call e ''JS_malloc'' s = (ok, s1)" by fastforce
  have inv1: "mod_inv s1 ps" using scope_frame_inv [OF inv frame_call [of NULL s e "''JS_malloc''"]] c by simp
  show ?thesis
  proof (cases "l \<noteq> [] \<and> hd l = CHR ''/'' \<or> \<not> ok")
    case True
    with r c have "s' = s \<or> s' = s1"
      unfolding gpsee_modulizeGlobal_def Let_def l_def [symmetric] n_def [symmetric] by (auto split: if_splits)
    with inv inv1 show ?thesis by auto
  next
    case False
    then have l: "(l \<noteq> [] \<and> hd l = CHR ''/'') = False" and ok by simp_all
    from r have "Option.bind (acquireModuleHandle e n glob s1) (\<lambda>(module, s).
        if module = NULL then Some (False, s) else initializeModuleScope e module glob True s) = Some (b, s')"
      unfolding gpsee_modulizeGlobal_def Let_def l_def [symmetric] n_def [symmetric] l c by (simp add: \<open>ok\<close>)
    then obtain m s2 where a: "acquireModuleHandle e n glob s1 = Some (m, s2)"
      and i: "(if m = NULL then Some (False, s2) else initializeModuleScope e m glob True s2) = Some (b, s')"
      by (cases "acquireModuleHandle e n glob s1") auto
    have inv2: "mod_inv s2 ps" using acquire_spec [OF inv1 a] by blast
    show ?thesis
    proof (cases "m = NULL")
      case True
      with i inv2 show ?thesis by simp
    next
      case m: False
      with acquire_spec [OF inv1 a] have "acquired n s1 m s2" by simp
      then have "memo_of s2 n = Some m" by (simp add: acquired_def)
      from memo_handle [OF inv2 this] obtain h where "handles s2 m = Some h" by blast
      from framed_initialize [OF this, of e glob True] i m have "scope_frame m s2 s'" by (auto simp: framed_def)
      with scope_frame_inv [OF inv2] show ?thesis by blast
    qed
  qed
qed

lemma initGlobalObject_inv:
  assumes inv: "mod_inv s ps" and r: "gpsee_initGlobalObject e obj s = Some (b, s')"
  shows "mod_inv s' ps"
proof -
  obtain o1 s1 where c1: "call e ''JS_InitStandardClasses'' s = (o1, s1)" by fastforce
  obtain o2 s2 where c2: "define_property e obj ''gpseeNamespace'' (STRING_TO_JSVAL ''gpsee'') 0 s1 = (o2, s2)" by fastforce
  obtain o3 s3 where c3: "call e ''JS_DefineFunction'' s2 = (o3, s3)" by fastforce
  have i1: "mod_inv s1 ps" using scope_frame_inv [OF inv frame_call [of NULL s e]] c1 by (metis snd_conv)
  have i2: "mod_inv s2 ps" using scope_frame_inv [OF i1 frame_define [of NULL s1 e]] c2 by (metis snd_conv)
  have i3: "mod_inv s3 ps" using scope_frame_inv [OF i2 frame_call [of NULL s2 e]] c3 by (metis snd_conv)
  from r c1 c2 c3 have "s' = s1 \<or> s' = s2 \<or> s' = s3 \<or> gpsee_modulizeGlobal e obj (Some ''gpsee_initGlobalObject'') 0 s3 = Some (b, s')"
    by (auto simp: gpsee_initGlobalObject_def split: if_splits)
  with i1 i2 i3 modulizeGlobal_inv [OF i3] show ?thesis by blast
qed


section \<open>Filing a new realm\<close>

lemma add_realm_ok:
  assumes ok: "rt_ok e s" and p: "p \<noteq> NULL" "realm_tab s p = None" "p < next_block t"
    and r: "r_cachedCx r = NULL" "no_pending (r_pendingWrites r)" "mod_inv (r_mst r) ps"
    and st: "asyncCallbacks t = asyncCallbacks s" "nodes t = nodes s" "cx_private t = cx_private s"
      "blocks t = blocks s" "next_block s \<le> next_block t" "mon_list (mons t) \<noteq> None" "hooks_ok t" "contexts t = contexts s"
      "realmsByContext t = realmsByContext s" "gcCallbackList t = gcCallbackList s"
    and rt: "realm_tab t = (realm_tab s)(p \<mapsto> r)"
  shows "rt_ok e t"
proof -
  have "async_ok e t" using ok async_ok_cong [OF _ st(1-5)] by (simp add: rt_ok_def)
  moreover have "\<forall>q x. realm_tab t q = Some x \<longrightarrow> realm_ok t q x"
  proof (intro allI impI)
    fix q x
    assume q: "realm_tab t q = Some x"
    show "realm_ok t q x"
    proof (cases "q = p")
      case True
      with q rt have "x = r" by simp
      with r show ?thesis by (auto simp: realm_ok_def)
    next
      case False
      with q rt have "realm_tab s q = Some x" by simp
      with ok have "realm_ok s q x" by (simp add: rt_ok_def)
      with r(1) show ?thesis unfolding realm_ok_def st rt by auto
    qed
  qed
  moreover have "\<forall>q \<ge> next_block t. contexts s q = None \<and> realm_tab t q = None"
    using ok p(3) st(5) by (auto simp: rt_ok_def rt)
  moreover have "contexts s NULL = None \<and> realm_tab t NULL = None" using ok p(1) by (simp add: rt_ok_def rt)
  moreover have "\<forall>x \<in> set (filed s). fst x \<noteq> NULL \<longrightarrow> contexts s (fst x) \<noteq> None \<and> realm_tab t (snd x) \<noteq> None"
    "\<forall>x \<in> set (ds_data (gcCallbackList s)). fst x = module_gc e \<longrightarrow> realm_tab t (snd x) \<noteq> None"
    using ok by (auto simp: rt_ok_def rt)
  ultimately show ?thesis using ok st(6,7) unfolding rt_ok_def st by blast
qed

lemma add_gc_data:
  "gpsee_addGCCallback ok st p cb = (True, st', tr) \<Longrightarrow> x \<in> set (ds_data st') \<Longrightarrow> fst x \<noteq> NULL \<Longrightarrow>
   x = (cb, p) \<or> x \<in> set (ds_data st)"
  using slots_put_set [of "ds_data st" cb p _ x]
  by (auto simp: gpsee_addGCCallback_def gpsee_ds_put_def Let_def ds_grow_def split: option.splits if_splits)

lemma add_gc_ok:
  assumes ok: "rt_ok e s" and env: "env_ok e" and p: "cb = module_gc e \<longrightarrow> realm_tab s p \<noteq> None"
    and g: "gpsee_addGCCallback b (gcCallbackList s) p cb = (True, st, tr)"
  shows "rt_ok e (s\<lparr>gcCallbackList := st\<rparr>)"
proof -
  have "async_ok e (s\<lparr>gcCallbackList := st\<rparr>)"
    using ok async_ok_cong [of e s "s\<lparr>gcCallbackList := st\<rparr>"] by (simp add: rt_ok_def)
  moreover have "\<forall>x \<in> set (ds_data st). fst x = module_gc e \<longrightarrow> realm_tab s (snd x) \<noteq> None"
  proof (intro ballI impI)
    fix x
    assume x: "x \<in> set (ds_data st)" "fst x = module_gc e"
    moreover have "module_gc e \<noteq> NULL" using env by (simp add: env_ok_def)
    ultimately consider "x = (cb, p)" | "x \<in> set (ds_data (gcCallbackList s))" using add_gc_data [OF g] by metis
    then show "realm_tab s (snd x) \<noteq> None"
    proof cases
      case 1
      with p x(2) show ?thesis by simp
    next
      case 2
      with x(2) ok show ?thesis by (simp add: rt_ok_def)
    qed
  qed
  moreover have "realm_ok (s\<lparr>gcCallbackList := st\<rparr>) = realm_ok s" by (simp add: fun_eq_iff realm_ok_def)
  ultimately show ?thesis using ok unfolding rt_ok_def by simp
qed

lemma cache_ok:
  assumes ok: "rt_ok e s" and r: "realm_tab s p = Some r" and cx: "contexts s cx \<noteq> None" "cx \<notin> set (used_keys (filed s))"
    and sp: "\<And>q x. realm_tab s q = Some x \<Longrightarrow> q \<noteq> p \<Longrightarrow> r_cachedCx x \<noteq> cx"
  shows "rt_ok e (s\<lparr>realm_tab := (realm_tab s)(p \<mapsto> r\<lparr>r_cachedCx := cx\<rparr>)\<rparr>)"
proof -
  let ?s = "s\<lparr>realm_tab := (realm_tab s)(p \<mapsto> r\<lparr>r_cachedCx := cx\<rparr>)\<rparr>"
  have l: "realm_tab ?s q = None \<longleftrightarrow> realm_tab s q = None" for q using r by simp
  have "\<forall>q x. realm_tab ?s q = Some x \<longrightarrow> realm_ok ?s q x"
  proof (intro allI impI)
    fix q x
    assume q: "realm_tab ?s q = Some x"
    show "realm_ok ?s q x"
    proof (cases "q = p")
      case True
      have "realm_ok s p r" using ok r by (simp add: rt_ok_def)
      with True q cx sp show ?thesis by (auto simp: realm_ok_def)
    next
      case False
      with q have "realm_tab s q = Some x" by simp
      with ok sp False have "realm_ok s q x" "r_cachedCx x \<noteq> cx" by (simp_all add: rt_ok_def)
      then show ?thesis by (auto simp: realm_ok_def)
    qed
  qed
  moreover have "async_ok e ?s" using ok async_ok_cong [of e s ?s] by (simp add: rt_ok_def)
  moreover have "contexts ?s = contexts s" "filed ?s = filed s" "gcCallbackList ?s = gcCallbackList s" "mons ?s = mons s"
    "next_block ?s = next_block s" "realmsByContext ?s = realmsByContext s" "io_hooks ?s = io_hooks s"
    "hooks_len ?s = hooks_len s" by simp_all
  ultimately show ?thesis using ok unfolding rt_ok_def l by metis
qed

lemma create_fails_NULL: "create_fails e cx realm s = Some (p, s') \<Longrightarrow> p = NULL"
  by (auto simp: create_fails_def bind_eq_Some_conv split: if_splits)

lemma call_new_inv: "call_new e f s = (p, s') \<Longrightarrow> mod_inv s ps \<Longrightarrow> mod_inv s' ps \<and> memo_of s' = memo_of s"
  by (auto simp: call_new_def call_def mod_inv_def memo_ok_def memo_of_def split: if_splits)


text \<open>The steps that furnish a realm, one after the other, when all of them succeed.\<close>

lemma start_steps:
  assumes f: "start_modules e cx realm s = Some (q, s')" and q: "q \<noteq> NULL" and r: "realm_tab s realm = Some r"
  shows "\<exists>m3 gr gcs m4 c.
      gpsee_initializeModuleSystem (realm_env e) (env_path e) (cfg_jail e) (cfg_libexec e) realm (module_gc e) (r_mst r) (mons s)
        (gcCallbackList s) = Some (True, m3, gr, gcs)
    \<and> gpsee_initGlobalObject (realm_env e) (globalObject m3) m3 = Some (True, m4)
    \<and> contexts s cx = Some c \<and> q = realm
    \<and> s' = record_calls (gpsee_leaveAutoMonitor (mon_realms s)) (s\<lparr>mons := gr, gcCallbackList := gcs,
        realm_tab := (realm_tab s)(realm \<mapsto> r\<lparr>r_mst := m4, r_cachedCx := cx\<rparr>),
        contexts := (contexts s)(cx \<mapsto> c\<lparr>requests := requests c - 1\<rparr>)\<rparr>)"
proof -
  let ?ini = "gpsee_initializeModuleSystem (realm_env e) (env_path e) (cfg_jail e) (cfg_libexec e) realm (module_gc e) (r_mst r)
        (mons s) (gcCallbackList s)"
  from f obtain m3 gr gcs where ini: "?ini = Some (True, m3, gr, gcs)"
    by (cases ?ini) (auto simp: start_modules_def r split: if_splits)
  from f obtain ok m4 where ig: "gpsee_initGlobalObject (realm_env e) (globalObject m3) m3 = Some (ok, m4)"
    by (cases "gpsee_initGlobalObject (realm_env e) (globalObject m3) m3")
      (auto simp: start_modules_def r ini on_mst_def Let_def)
  have ok
    by (rule ccontr) (use f q in \<open>auto simp: start_modules_def r ini on_mst_def Let_def ig dest: create_fails_NULL\<close>)
  obtain c where c: "contexts s cx = Some c"
    using f by (cases "contexts s cx") (auto simp: start_modules_def r ini on_mst_def Let_def ig \<open>ok\<close> upd_realm_def
        JS_EndRequest_def upd_context_def leave_auto_def record_calls_def)
  have "q = realm \<and> s' = record_calls (gpsee_leaveAutoMonitor (mon_realms s)) (s\<lparr>mons := gr, gcCallbackList := gcs,
        realm_tab := (realm_tab s)(realm \<mapsto> r\<lparr>r_mst := m4, r_cachedCx := cx\<rparr>),
        contexts := (contexts s)(cx \<mapsto> c\<lparr>requests := requests c - 1\<rparr>)\<rparr>)"
    using f by (auto simp: start_modules_def r ini on_mst_def Let_def ig \<open>ok\<close> upd_realm_def
        JS_EndRequest_def upd_context_def leave_auto_def record_calls_def c)
  moreover have "gpsee_initGlobalObject (realm_env e) (globalObject m3) m3 = Some (True, m4)" using ig \<open>ok\<close> by simp
  ultimately show ?thesis using ini c by blast
qed

lemma furnish_steps:
  assumes f: "furnish_realm e cx realm s = Some (q, s')" and q: "q \<noteq> NULL" and r: "realm_tab s realm = Some r"
  shows "\<exists>g m1 proto m2 b st tr.
      call_new (realm_env e) ''JS_NewGlobalObject'' (r_mst r) = (g, m1) \<and> g \<noteq> NULL
    \<and> call_new (realm_env e) ''JS_InitClass'' (m1\<lparr>globalObject := g\<rparr>) = (proto, m2) \<and> proto \<noteq> NULL
    \<and> gpsee_ds_put b (realms s) realm NULL = (True, st, tr)
    \<and> start_modules e cx realm (record_calls tr (s\<lparr>realm_tab := (realm_tab s)(realm \<mapsto>
        r\<lparr>r_mst := m2, r_moduleObjectProto := proto\<rparr>), roots := realm # roots s, cp_clock := Suc (cp_clock s),
        realms := st\<rparr>)) = Some (q, s')"
proof -
  obtain g m1 where g: "call_new (realm_env e) ''JS_NewGlobalObject'' (r_mst r) = (g, m1)" by fastforce
  obtain proto m2 where p: "call_new (realm_env e) ''JS_InitClass'' (m1\<lparr>globalObject := g\<rparr>) = (proto, m2)" by fastforce
  let ?b = "malloc_ok e (cp_clock s)"
  obtain b st tr where put: "gpsee_ds_put ?b (realms s) realm NULL = (b, st, tr)" by (metis prod_cases3)
  have gn: "g \<noteq> NULL"
    by (rule notI) (use f q in \<open>auto simp: furnish_realm_def on_mst_def r g dest: create_fails_NULL\<close>)
  have pn: "proto \<noteq> NULL"
    by (rule notI) (use f q gn in \<open>auto simp: furnish_realm_def on_mst_def upd_realm_def r g p dest: create_fails_NULL\<close>)
  have bt: "b"
    by (rule ccontr) (use f q gn pn in \<open>auto simp: furnish_realm_def on_mst_def upd_realm_def r g p malloc_try_def put Let_def
        dest: create_fails_NULL\<close>)
  from f have "start_modules e cx realm (record_calls tr (s\<lparr>realm_tab := (realm_tab s)(realm \<mapsto>
        r\<lparr>r_mst := m2, r_moduleObjectProto := proto\<rparr>), roots := realm # roots s, cp_clock := Suc (cp_clock s),
        realms := st\<rparr>)) = Some (q, s')"
    by (simp add: furnish_realm_def on_mst_def upd_realm_def r g gn p pn malloc_try_def put Let_def bt)
  moreover have "gpsee_ds_put ?b (realms s) realm NULL = (True, st, tr)" using put bt by simp
  ultimately show ?thesis using g gn p pn by blast
qed


section \<open>A realm is made\<close>

lemma furnish_ok:
  assumes env: "env_ok e" and ok: "rt_ok e s" and r: "realm_tab s realm = Some r"
    and cx: "contexts s cx \<noteq> None" "cx \<notin> set (used_keys (filed s))" "\<forall>p x. realm_tab s p = Some x \<longrightarrow> r_cachedCx x \<noteq> cx"
    and mm: "memo_of (r_mst r) = Map.empty" and f: "furnish_realm e cx realm s = Some (q, s')" and q: "q \<noteq> NULL"
  shows "q = realm \<and> rt_ok e s' \<and> realmsByContext s' = realmsByContext s \<and> (\<forall>c. contexts s' c = None \<longleftrightarrow> contexts s c = None)
    \<and> dom (realm_tab s') = dom (realm_tab s) \<and> (\<exists>r'. realm_tab s' realm = Some r' \<and> r_cachedCx r' = cx)
    \<and> (\<forall>p. p \<noteq> realm \<longrightarrow> realm_tab s' p = realm_tab s p)
    \<and> (\<exists>b tr. gpsee_ds_put b (realms s) realm NULL = (True, realms s', tr))
    \<and> (\<exists>b tr. gpsee_addGCCallback b (gcCallbackList s) realm (module_gc e) = (True, gcCallbackList s', tr))"
proof -
  from furnish_steps [OF f q r] obtain g m1 proto m2 b st tr where
    g: "call_new (realm_env e) ''JS_NewGlobalObject'' (r_mst r) = (g, m1)" and
    p: "call_new (realm_env e) ''JS_InitClass'' (m1\<lparr>globalObject := g\<rparr>) = (proto, m2)" and
    put: "gpsee_ds_put b (realms s) realm NULL = (True, st, tr)" and
    sm: "start_modules e cx realm (record_calls tr (s\<lparr>realm_tab := (realm_tab s)(realm \<mapsto>
        r\<lparr>r_mst := m2, r_moduleObjectProto := proto\<rparr>), roots := realm # roots s, cp_clock := Suc (cp_clock s),
        realms := st\<rparr>)) = Some (q, s')" by blast
  let ?r1 = "r\<lparr>r_mst := m2, r_moduleObjectProto := proto\<rparr>"
  let ?s1 = "record_calls tr (s\<lparr>realm_tab := (realm_tab s)(realm \<mapsto> ?r1), roots := realm # roots s,
      cp_clock := Suc (cp_clock s), realms := st\<rparr>)"
  have g1: "mod_inv (m1\<lparr>globalObject := g\<rparr>) ps = mod_inv m1 ps" "memo_of (m1\<lparr>globalObject := g\<rparr>) = memo_of m1" for ps
    by (simp_all add: mod_inv_def memo_ok_def memo_of_def)
  have i2: "mod_inv (r_mst r) ps \<Longrightarrow> mod_inv m2 ps" for ps
    using call_new_inv [OF g, of ps] call_new_inv [OF p, of ps] by (simp add: g1)
  have "realm_ok s realm r" using ok r by (simp add: rt_ok_def)
  then obtain ps where ps: "mod_inv (r_mst r) ps" by (auto simp: realm_ok_def)
  have m2e: "memo_of m2 = Map.empty" using call_new_inv [OF g ps] call_new_inv [OF p, of ps] mm by (simp add: g1)
  have "realm_kept r ?r1" using i2 by (auto simp: realm_kept_def)
  from calm_ok [OF env ok upd_mst_calm [OF r this]]
  have "rt_ok e (s\<lparr>realm_tab := (realm_tab s)(realm \<mapsto> ?r1)\<rparr>)" .
  then have ok1: "rt_ok e ?s1"
    by (rule rt_ok_cong) (use ok in \<open>simp_all add: record_calls_def rt_ok_def\<close>)
  have f1: "realm_tab ?s1 = (realm_tab s)(realm \<mapsto> ?r1)" "contexts ?s1 = contexts s" "realmsByContext ?s1 = realmsByContext s"
    "realms ?s1 = st" "gcCallbackList ?s1 = gcCallbackList s" "mons ?s1 = mons s" by (simp_all add: record_calls_def)
  have r1: "realm_tab ?s1 realm = Some ?r1" by (simp add: f1)
  from start_steps [OF sm q r1] obtain m3 gr gcs m4 c where
    ini: "gpsee_initializeModuleSystem (realm_env e) (env_path e) (cfg_jail e) (cfg_libexec e) realm (module_gc e) (r_mst ?r1)
        (mons ?s1) (gcCallbackList ?s1) = Some (True, m3, gr, gcs)" and
    ig: "gpsee_initGlobalObject (realm_env e) (globalObject m3) m3 = Some (True, m4)" and
    c: "contexts ?s1 cx = Some c" and qr: "q = realm" and
    s': "s' = record_calls (gpsee_leaveAutoMonitor (mon_realms ?s1)) (?s1\<lparr>mons := gr, gcCallbackList := gcs,
        realm_tab := (realm_tab ?s1)(realm \<mapsto> ?r1\<lparr>r_mst := m4, r_cachedCx := cx\<rparr>),
        contexts := (contexts ?s1)(cx \<mapsto> c\<lparr>requests := requests c - 1\<rparr>)\<rparr>)" by blast
  from initializeModuleSystem_spec [OF ini] obtain b' tr' where
    add: "gpsee_addGCCallback b' (gcCallbackList ?s1) realm (module_gc e) = (True, gcs, tr')"
    and mg: "mon_list (mons ?s1) \<noteq> None \<longrightarrow> mon_list gr \<noteq> None" by blast
  have i4: "mod_inv (r_mst ?r1) qs \<Longrightarrow> mod_inv m4 qs" for qs
    using initialize_inv [OF _ _ ini] initGlobalObject_inv [OF _ ig] m2e by simp
  then have "realm_kept ?r1 (?r1\<lparr>r_mst := m4\<rparr>)" by (auto simp: realm_kept_def)
  from calm_ok [OF env ok1 upd_mst_calm [OF r1 this]]
  have "rt_ok e (?s1\<lparr>realm_tab := (realm_tab ?s1)(realm \<mapsto> ?r1\<lparr>r_mst := m4\<rparr>)\<rparr>)" (is "rt_ok e ?s2") .
  note ok2 = this
  have "rt_ok e (?s2\<lparr>gcCallbackList := gcs\<rparr>)" (is "rt_ok e ?s3")
    by (rule add_gc_ok [OF ok2 env, of "module_gc e" realm b' gcs tr']) (use add in simp_all)
  note ok3 = this
  have r3: "realm_tab ?s3 realm = Some (?r1\<lparr>r_mst := m4\<rparr>)" by simp
  have "rt_ok e (?s3\<lparr>realm_tab := (realm_tab ?s3)(realm \<mapsto> ?r1\<lparr>r_mst := m4\<rparr>\<lparr>r_cachedCx := cx\<rparr>)\<rparr>)" (is "rt_ok e ?s4")
  proof (rule cache_ok [OF ok3 r3])
    show "contexts ?s3 cx \<noteq> None" "cx \<notin> set (used_keys (filed ?s3))" using cx(1,2) by (simp_all add: f1)
    show "r_cachedCx x \<noteq> cx" if "realm_tab ?s3 y = Some x" "y \<noteq> realm" for y x
      using that cx(3) by (simp add: f1)
  qed
  then have ok': "rt_ok e s'"
    by (rule rt_ok_cong) (use c mg ok in \<open>simp_all add: s' record_calls_def rt_ok_def\<close>)
  have "realm_tab s' = (realm_tab s)(realm \<mapsto> ?r1\<lparr>r_mst := m4, r_cachedCx := cx\<rparr>)" by (simp add: s' f1) (simp add: record_calls_def)
  moreover have "realmsByContext s' = realmsByContext s" "realms s' = st" "gcCallbackList s' = gcs"
    "\<forall>x. contexts s' x = None \<longleftrightarrow> contexts s x = None"
    using c by (simp_all add: s' record_calls_def)
  moreover have "dom ((realm_tab s)(realm \<mapsto> x)) = dom (realm_tab s)" for x using r by auto
  moreover have "gpsee_addGCCallback b' (gcCallbackList s) realm (module_gc e) = (True, gcs, tr')" using add f1 by simp
  ultimately show ?thesis using qr ok' put by auto
qed


text \<open>A context no one knows yet.\<close>

lemma unknown_context:
  assumes ok: "rt_ok e s" and c: "contexts s cx = None" "cx \<noteq> NULL"
  shows "cx \<notin> set (used_keys (filed s))" and "realm_tab s p = Some x \<Longrightarrow> r_cachedCx x \<noteq> cx"
proof -
  show "cx \<notin> set (used_keys (filed s))"
  proof
    assume "cx \<in> set (used_keys (filed s))"
    then obtain v where "(cx, v) \<in> set (filed s)" by (auto simp: set_used_keys)
    with ok c show False by (force simp: rt_ok_def)
  qed
  show "r_cachedCx x \<noteq> cx" if "realm_tab s p = Some x"
  proof
    assume "r_cachedCx x = cx"
    moreover have "realm_ok s p x" using ok that by (simp add: rt_ok_def)
    ultimately show False using c by (simp add: realm_ok_def)
  qed
qed

lemma createRealm_ok:
  assumes env: "env_ok e" and ok: "rt_ok e s" and f: "gpsee_createRealm e s = Some (realm, s')" and rn: "realm \<noteq> NULL"
  shows "rt_ok e s' \<and> realm_tab s realm = None \<and> dom (realm_tab s') = insert realm (dom (realm_tab s))
    \<and> realmsByContext s' = realmsByContext s
    \<and> (\<exists>r'. realm_tab s' realm = Some r' \<and> contexts s (r_cachedCx r') = None \<and> r_cachedCx r' \<noteq> NULL
        \<and> dom (contexts s') = insert (r_cachedCx r') (dom (contexts s)))
    \<and> (\<forall>p. p \<noteq> realm \<longrightarrow> realm_tab s' p = realm_tab s p)
    \<and> (\<exists>b tr. gpsee_ds_put b (realms s) realm NULL = (True, realms s', tr))
    \<and> (\<exists>b tr. gpsee_addGCCallback b (gcCallbackList s) realm (module_gc e) = (True, gcCallbackList s', tr))"
proof -
  obtain cx s1 where n: "JS_NewContext e s = (cx, s1)" by fastforce
  have cx: "cx \<noteq> NULL" by (rule notI) (use f rn n in \<open>simp add: gpsee_createRealm_def\<close>)
  from new_context_ok [OF ok] n cx have n1: "rt_ok e s1" "cx = next_block s" "contexts s1 cx \<noteq> None" "realm_tab s1 = realm_tab s"
    "realmsByContext s1 = realmsByContext s" "realms s1 = realms s" "gcCallbackList s1 = gcCallbackList s"
    "next_block s \<le> next_block s1" by auto
  have fresh: "contexts s cx = None" using ok n1(2) by (simp add: rt_ok_def)
  from upd_context_ok [OF n1(1,3), of "\<lambda>c. c\<lparr>requests := Suc (requests c)\<rparr>"] obtain s2 where
    s2: "JS_BeginRequest cx s1 = Some s2" "rt_ok e s2" "contexts s2 cx \<noteq> None" "s2 = s1\<lparr>contexts := contexts s2\<rparr>"
    "\<forall>c. contexts s2 c = None \<longleftrightarrow> contexts s1 c = None"
    unfolding JS_BeginRequest_def by blast
  have "mon_list (mons s2) \<noteq> None" using s2(2) by (simp add: rt_ok_def)
  from enter_monitors(1) [OF this, of e] obtain s3 where s3: "enter_realms e s2 = Some s3" "monitors_only s2 s3" by blast
  have ok3: "rt_ok e s3" by (rule monitors_only_ok [OF s2(2) s3(2)])
  have f2: "realm_tab s2 = realm_tab s" "realmsByContext s2 = realmsByContext s" "realms s2 = realms s"
    "gcCallbackList s2 = gcCallbackList s" by (subst s2(4), simp add: n1)+
  have f3: "realm_tab s3 = realm_tab s" "realmsByContext s3 = realmsByContext s" "realms s3 = realms s"
    "gcCallbackList s3 = gcCallbackList s" "contexts s3 = contexts s2" using s3(2) f2 by (simp_all add: monitors_only_def)
  let ?n = "next_block s3" and ?c = "cp_clock s3"
  have m: "malloc_ok e ?c"
    by (rule ccontr) (use f rn n cx s2(1) s3(1) in \<open>auto simp: gpsee_createRealm_def malloc_try_def dest: create_fails_NULL\<close>)
  let ?cr = "gpsee_ds_create (malloc_ok e (Suc ?c)) True (Suc ?n) (malloc_ok e (Suc (Suc ?c))) NULL (mons s3) GPSEE_DS_OTM_KEYS 0"
  from f rn n cx s2(1) s3(1) m obtain ds g tr where cr: "?cr = Some (ds, g, tr)"
    by (cases ?cr) (auto simp: gpsee_createRealm_def malloc_try_def Let_def)
  obtain d where d: "ds = Some d"
    by (cases ds) (use f rn n cx s2(1) s3(1) m cr in \<open>auto simp: gpsee_createRealm_def malloc_try_def Let_def\<close>)
  let ?r = "memset_realm\<lparr>r_pendingWrites := Some d\<rparr>"
  let ?t = "s3\<lparr>cp_clock := Suc (Suc (Suc ?c)), next_block := Suc (Suc ?n), mons := g, pr_calls := pr_calls s3 @ tr,
      realm_tab := (realm_tab s3)(?n \<mapsto> ?r)\<rparr>"
  have fu: "furnish_realm e cx ?n ?t = Some (realm, s')"
    using f n cx s2(1) s3(1) m cr d
    by (simp add: gpsee_createRealm_def malloc_try_def Let_def upd_realm_def record_calls_def)
  have rf: "realm_tab s3 ?n = None" "?n \<noteq> NULL"
    using ok3 by (auto simp: rt_ok_def async_ok_def book_ok_def)
  have nd: "used_keys (ds_data d) = []" using ds_create_unused cr d by blast
  have mg: "mon_list g \<noteq> None" using ds_create_mons [OF cr] ok3 by (auto simp: rt_ok_def)
  have okt: "rt_ok e ?t"
    by (rule add_realm_ok [OF ok3 rf(2,1), of ?t ?r "[]"])
      (use mg nd memset_inv ok3 in \<open>simp_all add: record_calls_def memset_realm_def rt_ok_def\<close>)
  have rt: "realm_tab ?t ?n = Some ?r" by (simp add: record_calls_def)
  have ft: "realm_tab ?t = (realm_tab s)(?n \<mapsto> ?r)" "filed ?t = filed s" "realmsByContext ?t = realmsByContext s"
    "realms ?t = realms s" "gcCallbackList ?t = gcCallbackList s" "contexts ?t = contexts s2"
    using f3 by (simp_all add: record_calls_def)
  have c1: "contexts ?t cx \<noteq> None" using s2(3) by (simp add: ft)
  have c2: "cx \<notin> set (used_keys (filed ?t))" using unknown_context(1) [OF ok fresh cx] by (simp add: ft)
  have "r_cachedCx x \<noteq> cx" if "realm_tab ?t p = Some x" for p x
    using that unknown_context(2) [OF ok fresh cx, of p x] cx by (auto simp: f3(1) memset_realm_def split: if_splits)
  then have c3: "\<forall>p x. realm_tab ?t p = Some x \<longrightarrow> r_cachedCx x \<noteq> cx" by blast
  have mm: "memo_of (r_mst ?r) = Map.empty" by (simp add: memset_realm_def memo_of_def)
  from furnish_ok [OF env okt rt c1 c2 c3 mm fu rn, unfolded ft(3-6)] obtain r' where
    q: "realm = ?n" "rt_ok e s'" "realmsByContext s' = realmsByContext s" "\<forall>c. contexts s' c = None \<longleftrightarrow> contexts s2 c = None"
    "dom (realm_tab s') = dom (realm_tab ?t)" "\<forall>p. p \<noteq> ?n \<longrightarrow> realm_tab s' p = realm_tab ?t p" "realm_tab s' ?n = Some r'" "r_cachedCx r' = cx"
    "\<exists>b tr. gpsee_ds_put b (realms s) ?n NULL = (True, realms s', tr)"
    "\<exists>b tr. gpsee_addGCCallback b (gcCallbackList s) ?n (module_gc e) = (True, gcCallbackList s', tr)"
    by blast
  have "dom (realm_tab s') = insert realm (dom (realm_tab s))" using q(1,5) by (simp add: ft)
  moreover have "dom (contexts s1) = insert cx (dom (contexts s))"
    using n n1(2,3) by (auto simp: JS_NewContext_def malloc_try_def split: if_splits)
  moreover have "contexts s' c = None \<longleftrightarrow> contexts s1 c = None" for c using q(4) s2(5) by simp
  ultimately have "contexts s (r_cachedCx r') = None \<and> r_cachedCx r' \<noteq> NULL
      \<and> dom (contexts s') = insert (r_cachedCx r') (dom (contexts s))"
    using q(8) fresh cx by (auto simp: dom_def)
  moreover have "\<forall>p. p \<noteq> ?n \<longrightarrow> realm_tab s' p = realm_tab s p" using q(6) f3(1) by simp
  moreover have "dom (realm_tab s') = insert realm (dom (realm_tab s))" by fact
  moreover have "realm_tab s realm = None" using rf(1) q(1) f3(1) by simp
  ultimately show ?thesis using q(2,3,7,9,10) unfolding q(1) by blast
qed

end
