(* ===== verification/HookableIO.thy ===== *)
theory HookableIO
  imports RealmCreation
begin

text \<open>
  The hookable user I/O of gpsee\_hookable\_io.c: output and input of the host that a script may
  take over, file descriptor by file descriptor.  A FILE is the number of its descriptor, \<open>fd\<close>.
  What stdio and the script answer are functions of the environment; \<open>stdio_out\<close> and
  \<open>written\<close> record what they were given.  Reading or writing a slot of the array of hooks that
  was never allocated, and a realm that is not there, is \<open>None\<close>.
\<close>

section \<open>The collector and the table of functions\<close>

definition hook_marks :: "io_hook \<Rightarrow> jsval list" where
  "hook_marks h = (if hook_input h \<noteq> JSVAL_VOID then [hook_input h] else [])
     @ (if hook_output h \<noteq> JSVAL_VOID then [hook_output h] else [])"

definition uio_GCCallback :: "rt_env \<Rightarrow> JSGCStatus \<Rightarrow> rt_state \<Rightarrow> (bool \<times> rt_state) option" where
  "uio_GCCallback e status s =
     (if status \<noteq> JSGC_MARK_END then Some (True, s)
      else Option.bind (enter_user_io e s) (\<lambda>s.
        if length (io_hooks s) < hooks_len s then None
        else Some (True, leave_auto (mon_user_io s)
               (s\<lparr>marked := marked s @ concat (map hook_marks (take (hooks_len s) (io_hooks s)))\<rparr>))))"

text \<open>The result of the registration is ignored.\<close>

definition gpsee_resetIOHooks :: "rt_env \<Rightarrow> rt_state \<Rightarrow> rt_state option" where
  "gpsee_resetIOHooks e s =
     Option.bind (enter_user_io e s) (\<lambda>s.
       let s = leave_auto (mon_user_io s) (s\<lparr>io_table := Bare, hooks_len := 0, io_hooks := []\<rparr>) in
       case malloc_try e s of (ok, s) \<Rightarrow>
       case gpsee_addGCCallback ok (gcCallbackList s) NULL (uio_gc e) of (ok, st, tr) \<Rightarrow>
         Some (record_calls tr (s\<lparr>gcCallbackList := st\<rparr>)))"

definition gpsee_initIOHooks :: "rt_env \<Rightarrow> rt_state \<Rightarrow> (bool \<times> rt_state) option" where
  "gpsee_initIOHooks e s = map_option (Pair True) (gpsee_resetIOHooks e s)"

text \<open>The array never has more than three slots; new slots are only cleared when there was no array.\<close>

definition grown_hooks :: "rt_env \<Rightarrow> nat \<Rightarrow> io_hook list \<Rightarrow> io_hook list" where
  "grown_hooks e n old =
     (if old = [] then map (\<lambda>i. (junk_hook e i)\<lparr>hook_input := JSVAL_VOID, hook_output := JSVAL_VOID\<rparr>) [0..<n]
      else old @ map (junk_hook e) [length old..<n])"

definition STDERR_FILENO :: nat where "STDERR_FILENO = 2"

definition hookFileDescriptor ::
    "rt_env \<Rightarrow> ptr \<Rightarrow> nat \<Rightarrow> jsval \<Rightarrow> jsval \<Rightarrow> rt_state \<Rightarrow> (bool \<times> rt_state) option" where
  "hookFileDescriptor e cx fd ihook ohook s =
     Option.bind (enter_user_io e s) (\<lambda>s.
     case (if hooks_len s \<le> min fd STDERR_FILENO
           then (case malloc_try (e :: rt_env) (s\<lparr>hooks_len := 1 + min fd STDERR_FILENO\<rparr>) of (ok, s) \<Rightarrow>
                   (ok, if ok then s\<lparr>io_hooks := grown_hooks e (hooks_len s) (io_hooks s)\<rparr> else s))
           else (True, s)) of (ok, s) \<Rightarrow>
     if \<not> ok then Some (False, leave_auto (mon_user_io s) s)
     else if length (io_hooks s) \<le> fd then None
     else Option.bind (gpsee_getRealm e cx s) (\<lambda>(realm, thrown, s).
       Some (True, leave_auto (mon_user_io s)
         (s\<lparr>io_hooks := (io_hooks s)[fd := \<lparr>hook_input = ihook, hook_output = ohook, hook_realm = realm\<rparr>],
           io_table := Hooked\<rparr>))))"

section \<open>Output\<close>

text \<open>The hook of a descriptor, or none.  The reading functions look at the output hook, too.\<close>

definition hook_of :: "int \<Rightarrow> rt_state \<Rightarrow> io_hook option option" where
  "hook_of fd s =
     (if fd < 0 \<or> int (hooks_len s) \<le> fd then Some None
      else if length (io_hooks s) \<le> nat fd then None
      else if hook_output (io_hooks s ! nat fd) = JSVAL_VOID then Some None
      else Some (Some (io_hooks s ! nat fd)))"

definition stdio_write :: "rt_env \<Rightarrow> int \<Rightarrow> string \<Rightarrow> rt_state \<Rightarrow> nat \<times> rt_state" where
  "stdio_write e fd text s = (c_fwrite e fd text (length (stdio_out s)), s\<lparr>stdio_out := stdio_out s @ [(fd, text)]\<rparr>)"

text \<open>
  Output of a context that is throwing is copied to a block and a callback is registered to write
  it later.  The block is not put into the store of pending writes, and its hook is not set.  A
  failed allocation is followed through NULL.
\<close>

definition postpone_write :: "rt_env \<Rightarrow> ptr \<Rightarrow> ptr \<Rightarrow> string \<Rightarrow> rt_state \<Rightarrow> rt_state option" where
  "postpone_write e cx realm text s =
     (case malloc_try e s of (ok, s) \<Rightarrow>
      if \<not> ok then None
      else
        let data = next_block s; s = s\<lparr>next_block := Suc data\<rparr> in
        case malloc_try e s of (ok, s) \<Rightarrow>
        if \<not> ok \<and> text \<noteq> [] then None
        else
          let s = s\<lparr>pending_tab := (pending_tab s)(data \<mapsto> \<lparr>pw_buf = text, pw_hookFn = hook_output (junk_hook e data)\<rparr>)\<rparr> in
          map_option snd (gpsee_addAsyncCallback e cx (uio_dump e) realm s))"

text \<open>\<open>mem\<close> is the memory at the pointer; the number of bytes is a product of sizes.\<close>

definition uio_fwrite_hook ::
    "rt_env \<Rightarrow> ptr \<Rightarrow> string \<Rightarrow> nat \<Rightarrow> nat \<Rightarrow> int \<Rightarrow> rt_state \<Rightarrow> (nat \<times> rt_state) option" where
  "uio_fwrite_hook e cx mem itemsize nitems fd s =
     Option.bind (enter_user_io e s) (\<lambda>s.
     Option.bind (hook_of fd s) (\<lambda>h.
     case h of
       None \<Rightarrow>
         if length mem < itemsize * nitems then None
         else Some (stdio_write e fd (take (itemsize * nitems) mem) (leave_auto (mon_user_io s) s))
     | Some h \<Rightarrow>
         let len = (itemsize * nitems) mod 2 ^ 64; text = take len mem in
         if length mem < len then None
         else if throwing e cx (cp_clock s) then
           Option.bind (postpone_write e cx (hook_realm h) text s) (\<lambda>s.
             Some (len, leave_auto (mon_user_io s) s))
         else
           Option.bind (uio_fwrite_js e (hook_realm h) (hook_output h) text s) (\<lambda>(n, s).
             Some (n, leave_auto (mon_user_io s) s))))"

text \<open>The callback of the postponed output removes itself.\<close>

definition uio_fwrite_dump_cb :: "rt_env \<Rightarrow> ptr \<Rightarrow> ptr \<Rightarrow> rt_state \<Rightarrow> (bool \<times> rt_state) option" where
  "uio_fwrite_dump_cb e realm cb s =
     Option.bind (gpsee_uio_dumpPendingWrites e realm s) (\<lambda>s.
       map_option (Pair True) (gpsee_removeAsyncCallback cb s))"

text \<open>A size returned as an \<open>int\<close>.\<close>

definition int_of_size :: "nat \<Rightarrow> int" where
  "int_of_size n = sint (word_of_nat n :: 32 word)"

text \<open>\<open>formatted\<close> is the text the format and its arguments stand for, if the format is good.\<close>

definition uio_vfprintf_hook :: "rt_env \<Rightarrow> ptr \<Rightarrow> int \<Rightarrow> string option \<Rightarrow> rt_state \<Rightarrow> (int \<times> rt_state) option" where
  "uio_vfprintf_hook e cx fd formatted s =
     (case formatted of
        None \<Rightarrow> Some (-1, s)
      | Some text \<Rightarrow>
          if text = [] then Some (0, s)
          else case malloc_try e s of (ok, s) \<Rightarrow>
            if \<not> ok then None
            else map_option (map_prod int_of_size (\<lambda>s. s)) (uio_fwrite_hook e cx text 1 (length text) fd s))"

definition stdio_printf :: "rt_env \<Rightarrow> int \<Rightarrow> string option \<Rightarrow> rt_state \<Rightarrow> int \<times> rt_state" where
  "stdio_printf e fd formatted s =
     (case formatted of None \<Rightarrow> (-1, s) | Some text \<Rightarrow> map_prod int (\<lambda>s. s) (stdio_write e fd text s))"

definition uio_fprintf_hook :: "rt_env \<Rightarrow> ptr \<Rightarrow> int \<Rightarrow> string option \<Rightarrow> rt_state \<Rightarrow> (int \<times> rt_state) option" where
  "uio_fprintf_hook e cx fd formatted s =
     Option.bind (enter_user_io e s) (\<lambda>s.
     Option.bind (if io_hooks s = [] then Some (stdio_printf e fd formatted s)
                  else uio_vfprintf_hook e cx fd formatted s) (\<lambda>(ret, s).
       Some (ret, leave_auto (mon_user_io s) s)))"

definition uio_printf_hook :: "rt_env \<Rightarrow> ptr \<Rightarrow> string option \<Rightarrow> rt_state \<Rightarrow> (int \<times> rt_state) option" where
  "uio_printf_hook e cx formatted s =
     Option.bind (enter_user_io e s) (\<lambda>s.
     Option.bind (if io_hooks s = [] then Some (stdio_printf e 1 formatted s)
                  else uio_vfprintf_hook e cx 1 formatted s) (\<lambda>(ret, s).
       Some (ret, leave_auto (mon_user_io s) s)))"

definition uio_fputs_hook :: "rt_env \<Rightarrow> ptr \<Rightarrow> string \<Rightarrow> int \<Rightarrow> rt_state \<Rightarrow> (int \<times> rt_state) option" where
  "uio_fputs_hook e cx buf fd s =
     map_option (map_prod int_of_size (\<lambda>s. s)) (uio_fwrite_hook e cx buf 1 (length buf) fd s)"

definition uio_puts_hook :: "rt_env \<Rightarrow> ptr \<Rightarrow> string \<Rightarrow> rt_state \<Rightarrow> (int \<times> rt_state) option" where
  "uio_puts_hook e cx buf s =
     map_option (map_prod int_of_size (\<lambda>s. s)) (uio_fwrite_hook e cx buf 1 (length buf) 1 s)"

definition uio_fputc_hook :: "rt_env \<Rightarrow> ptr \<Rightarrow> int \<Rightarrow> int \<Rightarrow> rt_state \<Rightarrow> (int \<times> rt_state) option" where
  "uio_fputc_hook e cx c fd s =
     map_option (map_prod int_of_size (\<lambda>s. s))
       (uio_fwrite_hook e cx [char_of (nat (c mod 256))] 1 1 fd s)"

section \<open>Input\<close>

text \<open>The input hook is called without arguments; its answer is taken by the number of texts and
  calls before it.\<close>

definition call_input :: "rt_env \<Rightarrow> io_hook \<Rightarrow> rt_state \<Rightarrow> (string option \<times> rt_state) option" where
  "call_input e h s =
     Option.bind (realm_tab s (hook_realm h)) (\<lambda>_.
       let r = call_hook e (hook_input h) [] (length (written s));
           s = s\<lparr>written := written s @ [(hook_input h, [])]\<rparr>
       in Some (case r of Hook_string t \<Rightarrow> Some t | _ \<Rightarrow> None, s))"

text \<open>The bytes of the answer go to the start of the buffer and a NUL to its last byte.\<close>

definition put_line :: "string \<Rightarrow> string \<Rightarrow> int \<Rightarrow> string option" where
  "put_line t buf len =
     (let n = (if len - 1 < 0 then length t else min (nat (len - 1)) (length t)) in
      if length buf < n \<or> len - 1 < 0 \<or> int (length buf) \<le> len - 1 then None
      else Some ((take n t @ drop n buf)[nat (len - 1) := CHR 0x00]))"

definition uio_fgets_hook ::
    "rt_env \<Rightarrow> ptr \<Rightarrow> string \<Rightarrow> int \<Rightarrow> int \<Rightarrow> rt_state \<Rightarrow> (string option \<times> rt_state) option" where
  "uio_fgets_hook e cx buf len fd s =
     Option.bind (gpsee_getRealm e cx s) (\<lambda>(realm, thrown, s).
     Option.bind (enter_user_io e s) (\<lambda>s.
     Option.bind (hook_of fd s) (\<lambda>h.
     case h of
       None \<Rightarrow>
         let s = leave_auto (mon_user_io s) s in
         (case c_fgets e fd (nat len) (cp_clock s) of
            None \<Rightarrow> Some (None, s)
          | Some t \<Rightarrow> if length buf \<le> length t then None
                     else Some (Some (t @ CHR 0x00 # drop (Suc (length t)) buf), s))
     | Some h \<Rightarrow>
         Option.bind (call_input e h s) (\<lambda>(r, s).
         let s = leave_auto (mon_user_io s) s in
         case r of None \<Rightarrow> Some (None, s)
         | Some t \<Rightarrow> map_option (\<lambda>b. (Some b, s)) (put_line t buf len)))))"

text \<open>An answer of no characters still has the NUL of its bytes; the byte is a signed char.\<close>

definition uio_fgetc_hook :: "rt_env \<Rightarrow> ptr \<Rightarrow> int \<Rightarrow> rt_state \<Rightarrow> (int \<times> rt_state) option" where
  "uio_fgetc_hook e cx fd s =
     Option.bind (enter_user_io e s) (\<lambda>s.
     Option.bind (hook_of fd s) (\<lambda>h.
     case h of
       None \<Rightarrow> (let s = leave_auto (mon_user_io s) s in Some (c_fgetc e fd (cp_clock s), s))
     | Some h \<Rightarrow>
         Option.bind (call_input e h s) (\<lambda>(r, s).
         let s = leave_auto (mon_user_io s) s in
         Some (case r of None \<Rightarrow> (-1, s)
               | Some t \<Rightarrow> (sint (word_of_nat (if t = [] then 0 else of_char (hd t)) :: 8 word), s)))))"

definition uio_fread_hook ::
    "rt_env \<Rightarrow> ptr \<Rightarrow> string \<Rightarrow> nat \<Rightarrow> nat \<Rightarrow> int \<Rightarrow> rt_state \<Rightarrow> ((nat \<times> string) \<times> rt_state) option" where
  "uio_fread_hook e cx buf itemsize nitems fd s =
     Option.bind (enter_user_io e s) (\<lambda>s.
     Option.bind (hook_of fd s) (\<lambda>h.
     case h of
       None \<Rightarrow>
         let s = leave_auto (mon_user_io s) s; t = c_fread e fd (itemsize * nitems) (cp_clock s) in
         if length buf < length t then None
         else Some ((if itemsize = 0 then 0 else length t div itemsize, t @ drop (length t) buf), s)
     | Some h \<Rightarrow>
         Option.bind (call_input e h s) (\<lambda>(r, s).
         let s = leave_auto (mon_user_io s) s in
         case r of None \<Rightarrow> Some ((0, buf), s)
         | Some t \<Rightarrow>
             let n = min ((itemsize * nitems) mod 2 ^ 64) (length t) in
             if length buf < n then None else Some ((n, take n t @ drop n buf), s))))"


section \<open>What entering the monitor changes\<close>

definition io_entered :: "rt_state \<Rightarrow> rt_state \<Rightarrow> bool" where
  "io_entered s t \<longleftrightarrow> monitors_only s t \<and> cp_clock t = Suc (cp_clock s) \<and> written t = written s \<and> stdio_out t = stdio_out s
     \<and> hooks_len t = hooks_len s \<and> pending_tab t = pending_tab s \<and> marked t = marked s \<and> io_table t = io_table s"

lemma enter_io:
  assumes "mon_list (mons s) \<noteq> None"
  shows "\<exists>t. enter_user_io e s = Some t \<and> io_entered s t"
  using enter_auto_ok [OF assms, of e mon_user_io "\<lambda>m. mon_user_io_update (\<lambda>_. m)"]
  by (auto simp: io_entered_def monitors_only_def record_calls_def)

lemma entered_hook_of: "io_entered s t \<Longrightarrow> hook_of fd t = hook_of fd s"
  by (simp add: io_entered_def monitors_only_def hook_of_def)

lemma left_fields [simp]:
  "written (leave_auto m s) = written s" "stdio_out (leave_auto m s) = stdio_out s" "hooks_len (leave_auto m s) = hooks_len s"
  "io_hooks (leave_auto m s) = io_hooks s" "pending_tab (leave_auto m s) = pending_tab s"
  "realm_tab (leave_auto m s) = realm_tab s" "io_table (leave_auto m s) = io_table s" "mons (leave_auto m s) = mons s"
  "cp_clock (leave_auto m s) = cp_clock s" "marked (leave_auto m s) = marked s"
  by (simp_all add: leave_auto_def record_calls_def)

section \<open>Output goes to stdio or to the script\<close>

text \<open>As long as no descriptor is hooked, what is written goes to stdio, and its answer is returned.\<close>

theorem bare_output_is_stdio:
  assumes "mon_list (mons s) \<noteq> None" and "hooks_len s = 0" and "itemsize * nitems \<le> length mem"
  shows "\<exists>s'. uio_fwrite_hook e cx mem itemsize nitems fd s
      = Some (c_fwrite e fd (take (itemsize * nitems) mem) (length (stdio_out s)), s')
    \<and> stdio_out s' = stdio_out s @ [(fd, take (itemsize * nitems) mem)] \<and> written s' = written s"
proof -
  from enter_io [OF assms(1), of e] obtain t where t: "enter_user_io e s = Some t" "io_entered s t" by blast
  have "hook_of fd s = Some None" using assms(2) by (auto simp: hook_of_def)
  then have "hook_of fd t = Some None" by (simp add: entered_hook_of [OF t(2)])
  with t assms(3) show ?thesis by (simp add: uio_fwrite_hook_def stdio_write_def io_entered_def)
qed

text \<open>C18: Output to a hooked descriptor goes to the script, not to stdio; the count is what the script says.\<close>

theorem hooked_output_reaches_script:
  assumes "mon_list (mons s) \<noteq> None" and h: "hook_of fd s = Some (Some h)" and "realm_tab s (hook_realm h) \<noteq> None"
    and "\<not> throwing e cx (Suc (cp_clock s))" and "malloc_ok e (Suc (cp_clock s))"
    and len: "itemsize * nitems \<le> length mem" "itemsize * nitems < 2 ^ 64"
  shows "\<exists>n s'. uio_fwrite_hook e cx mem itemsize nitems fd s = Some (n, s') \<and> stdio_out s' = stdio_out s
    \<and> written s' = written s @ [(hook_output h, take (itemsize * nitems) mem)]
    \<and> n = (case call_hook e (hook_output h) (take (itemsize * nitems) mem) (length (written s)) of
             Hook_throws \<Rightarrow> 0 | Hook_int i \<Rightarrow> nat i | _ \<Rightarrow> itemsize * nitems)"
proof -
  from enter_io [OF assms(1), of e] obtain t where t: "enter_user_io e s = Some t" "io_entered s t" by blast
  have f: "hook_of fd t = Some (Some h)" "cp_clock t = Suc (cp_clock s)" "realm_tab t = realm_tab s" "written t = written s"
    "stdio_out t = stdio_out s"
    using t(2) h entered_hook_of [OF t(2)] by (simp_all add: io_entered_def monitors_only_def)
  let ?text = "take (itemsize * nitems) mem"
  let ?n = "case (case call_hook e (hook_output h) ?text (length (written s)) of Hook_throws \<Rightarrow> Hook_int 0 | r \<Rightarrow> r) of
      Hook_int n \<Rightarrow> (if n < 0 then 0 else nat n) | _ \<Rightarrow> length ?text"
  let ?t = "t\<lparr>cp_clock := Suc (cp_clock t), written := written t @ [(hook_output h, ?text)]\<rparr>"
  from assms(3) obtain r where r: "realm_tab s (hook_realm h) = Some r" by blast
  have js: "uio_fwrite_js e (hook_realm h) (hook_output h) ?text t = Some (?n, ?t)"
    using assms(5) r by (simp add: uio_fwrite_js_def malloc_try_def f Let_def)
  have "uio_fwrite_hook e cx mem itemsize nitems fd s = Some (?n, leave_auto (mon_user_io ?t) ?t)"
    using t(1) assms(4) len by (simp add: uio_fwrite_hook_def f(1,2) js Let_def)
  moreover have "?n = (case call_hook e (hook_output h) ?text (length (written s)) of
             Hook_throws \<Rightarrow> 0 | Hook_int i \<Rightarrow> nat i | _ \<Rightarrow> itemsize * nitems)"
    using len(1) by (simp split: hook_result.splits)
  ultimately show ?thesis by (simp add: f)
qed


section \<open>Postponed output\<close>

lemma getContextPrivate_more:
  assumes e: "async_env_ok e" and r: "gpsee_getContextPrivate e cx id_p n cb s = Some (p, s')"
  shows "async_state.more s' = async_state.more s"
proof -
  have c: "async_state.more t = async_state.more s" if "call_cb e cb cx op s = Some t" for op t and s :: "'a async_state_scheme"
    using run_cb_frame [OF e] that by (fastforce simp: call_cb_def)
  from r c show ?thesis
    by (auto simp: gpsee_getContextPrivate_def new_entry_def malloc_zero_def malloc_try_def Let_def bind_eq_Some_conv
        split: option.splits if_splits prod.splits)
qed

lemma addAsync_more:
  assumes e: "async_env_ok e" and r: "gpsee_addAsyncCallback e cx cb ud s = Some (p, s')"
  shows "async_state.more s' = async_state.more s"
proof -
  have sl: "async_state.more t = async_state.more s" if "set_link l q s = Some t" for l q t and s :: "'a async_state_scheme"
    using that by (auto simp: set_link_def split: option.splits)
  from r show ?thesis
    by (auto simp: gpsee_addAsyncCallback_def malloc_try_def Let_def bind_eq_Some_conv split: if_splits option.splits
        dest!: getContextPrivate_more [OF e] sl)
qed

lemma removeAsync_more: "gpsee_removeAsyncCallback cb s = Some s' \<Longrightarrow> async_state.more s' = async_state.more s"
  by (auto simp: gpsee_removeAsyncCallback_def free_node_def bind_eq_Some_conv split: option.splits)

lemma postpone_writes_nothing:
  assumes e: "async_env_ok e" and p: "postpone_write e cx realm text s = Some s'"
  shows "written s' = written s \<and> stdio_out s' = stdio_out s \<and> realm_tab s' = realm_tab s"
proof -
  have k: "written t = written s \<and> stdio_out t = stdio_out s \<and> realm_tab t = realm_tab s"
    if "gpsee_addAsyncCallback e cx cb ud s = Some (q, t)" for cb ud q t s
    using rt_more [OF addAsync_more [OF e that]] by simp
  from p show ?thesis
    by (auto simp: postpone_write_def malloc_try_def Let_def split: if_splits dest!: k)
qed

lemma dump_cb_writes_nothing:
  assumes ok: "rt_ok e t" and r: "realm_tab t realm \<noteq> None" and d: "uio_fwrite_dump_cb e realm cb t = Some (b, t')"
  shows "written t' = written t \<and> stdio_out t' = stdio_out t"
proof -
  from r obtain r0 where "realm_tab t realm = Some r0" by blast
  from dump_ok [OF ok this] obtain u where u: "gpsee_uio_dumpPendingWrites e realm t = Some u" "written u = written t"
    "stdio_out u = stdio_out t" by blast
  with d obtain v where "gpsee_removeAsyncCallback cb u = Some v" "t' = v" by (auto simp: uio_fwrite_dump_cb_def)
  with removeAsync_more [of cb u v] have "async_state.more t' = async_state.more u" by simp
  from rt_more [OF this] u show ?thesis by simp
qed


section \<open>Hooking a descriptor\<close>

lemma getRealm_runs:
  assumes "mon_list (mons s) \<noteq> None"
  shows "\<exists>r th t. gpsee_getRealm e cx s = Some (r, th, t) \<and> io_hooks t = io_hooks s"
proof (cases "scope_realm e cx = NULL")
  case False
  then have "gpsee_getRealm e cx s = Some (scope_realm e cx, False, s)" by (simp add: gpsee_getRealm_def getRealm_def)
  then show ?thesis by blast
next
  case True
  from enter_monitors(1) [OF assms, of e] obtain t where "enter_realms e s = Some t" "monitors_only s t" by blast
  with True show ?thesis
    by (auto simp: gpsee_getRealm_def getRealm_def gpsee_ds_get_def monitors_only_def record_calls_def)
qed

text \<open>
  The first hook of a runtime: the array gets at most three slots, so hooking a descriptor above
  that of stderr writes beyond it; and when there is no memory, the array is left without slots but
  with a length, so that the next output to such a descriptor goes through NULL.
\<close>

theorem first_hook_overruns_iff:
  assumes "mon_list (mons s) \<noteq> None" and "io_hooks s = []" and "hooks_len s = 0"
  shows "malloc_ok e (Suc (cp_clock s)) \<Longrightarrow> hookFileDescriptor e cx fd i o_hook s = None \<longleftrightarrow> STDERR_FILENO < fd"
    and "\<not> malloc_ok e (Suc (cp_clock s)) \<Longrightarrow> \<exists>s'. hookFileDescriptor e cx fd i o_hook s = Some (False, s')
      \<and> (\<forall>d mem a b. 0 \<le> d \<longrightarrow> d \<le> int (min fd STDERR_FILENO) \<longrightarrow> uio_fwrite_hook e cx mem a b d s' = None)"
proof -
  from enter_io [OF assms(1), of e] obtain t where t: "enter_user_io e s = Some t" "io_entered s t" by blast
  have f: "hooks_len t = 0" "io_hooks t = []" "cp_clock t = Suc (cp_clock s)" "mon_list (mons t) \<noteq> None"
    using t(2) assms(2,3) by (simp_all add: io_entered_def monitors_only_def)
  define n where "n = min fd STDERR_FILENO"
  let ?n = "Suc n"
  let ?t = "t\<lparr>hooks_len := ?n, cp_clock := Suc (cp_clock t)\<rparr>"
  have g: "length (grown_hooks e ?n []) = ?n" by (simp add: grown_hooks_def)
  show "hookFileDescriptor e cx fd i o_hook s = None \<longleftrightarrow> STDERR_FILENO < fd" if m: "malloc_ok e (Suc (cp_clock s))"
  proof -
    let ?u = "?t\<lparr>io_hooks := grown_hooks e ?n []\<rparr>"
    have "mon_list (mons ?u) \<noteq> None" using f(4) by simp
    from getRealm_runs [OF this, of e cx] obtain r th v where r: "gpsee_getRealm e cx ?u = Some (r, th, v)" by blast
    have "hookFileDescriptor e cx fd i o_hook s = (if ?n \<le> fd then None
        else Some (True, leave_auto (mon_user_io v) (v\<lparr>io_hooks := (io_hooks v)[fd := \<lparr>hook_input = i, hook_output = o_hook, hook_realm = r\<rparr>],
           io_table := Hooked\<rparr>)))"
      using m g r by (simp add: hookFileDescriptor_def t(1) f malloc_try_def n_def [symmetric])
    then show ?thesis by (auto simp: n_def)
  qed
  show "\<exists>s'. hookFileDescriptor e cx fd i o_hook s = Some (False, s')
      \<and> (\<forall>d mem a b. 0 \<le> d \<longrightarrow> d \<le> int (min fd STDERR_FILENO) \<longrightarrow> uio_fwrite_hook e cx mem a b d s' = None)"
    if m: "\<not> malloc_ok e (Suc (cp_clock s))"
  proof (intro exI conjI allI impI)
    let ?s = "leave_auto (mon_user_io ?t) ?t"
    show "hookFileDescriptor e cx fd i o_hook s = Some (False, ?s)"
      using m by (simp add: hookFileDescriptor_def t(1) f malloc_try_def n_def [symmetric])
    fix d :: int and mem a b
    assume d: "0 \<le> d" "d \<le> int (min fd STDERR_FILENO)"
    have "mon_list (mons ?s) \<noteq> None" using f(4) by simp
    from enter_io [OF this, of e] obtain u where u: "enter_user_io e ?s = Some u" "io_entered ?s u" by blast
    have "hook_of d ?s = None" using d f(2) by (simp add: hook_of_def n_def)
    then have "hook_of d u = None" by (simp add: entered_hook_of [OF u(2)])
    with u(1) show "uio_fwrite_hook e cx mem a b d ?s = None" by (simp add: uio_fwrite_hook_def)
  qed
qed


section \<open>Lines and the end of a realm\<close>

lemma takeWhile_put: "CHR 0x00 \<notin> set (take k xs) \<Longrightarrow> k < length xs \<Longrightarrow>
    takeWhile (\<lambda>c. c \<noteq> CHR 0x00) (xs[k := CHR 0x00]) = take k xs"
proof (induction xs arbitrary: k)
  case (Cons x xs)
  then show ?case by (cases k) auto
qed simp

text \<open>
  A line from the script that fills the buffer is cut to fit and ended.  One that is shorter is
  ended by whatever the buffer held behind it: the caller sees the line only if there was a NUL.
\<close>

theorem short_line_needs_clean_buffer:
  assumes t: "CHR 0x00 \<notin> set t" and p: "put_line t buf len = Some b"
  shows "int (length t) < len - 1 \<Longrightarrow> takeWhile (\<lambda>c. c \<noteq> CHR 0x00) b = t \<longleftrightarrow> buf ! length t = CHR 0x00"
    and "len - 1 \<le> int (length t) \<Longrightarrow> takeWhile (\<lambda>c. c \<noteq> CHR 0x00) b = take (nat (len - 1)) t"
proof -
  from p have l: "1 \<le> len" "nat (len - 1) < length buf" by (auto simp: put_line_def Let_def split: if_splits)
  let ?n = "min (nat (len - 1)) (length t)" and ?k = "nat (len - 1)"
  from p l have b: "b = (take ?n t @ drop ?n buf)[?k := CHR 0x00]" by (auto simp: put_line_def Let_def split: if_splits)
  show "takeWhile (\<lambda>c. c \<noteq> CHR 0x00) b = t \<longleftrightarrow> buf ! length t = CHR 0x00" if s: "int (length t) < len - 1"
  proof -
    have n: "?n = length t" "length t < ?k" using s by simp_all
    then obtain j where j: "?k = length t + Suc j" by (metis add_Suc_right less_imp_Suc_add)
    have dr: "drop (length t) buf = buf ! length t # drop (Suc (length t)) buf" using n l by (simp add: Cons_nth_drop_Suc)
    have "b = t @ buf ! length t # (drop (Suc (length t)) buf)[j := CHR 0x00]"
      unfolding b n(1) dr by (simp add: list_update_append j)
    then show ?thesis using t by (auto simp: takeWhile_append1 takeWhile_append2 takeWhile_append)
  qed
  show "takeWhile (\<lambda>c. c \<noteq> CHR 0x00) b = take ?k t" if s: "len - 1 \<le> int (length t)"
  proof -
    have n: "?n = ?k" using s by simp
    have tk: "take ?k (take ?k t @ drop ?k buf) = take ?k t" using s by simp
    have "CHR 0x00 \<notin> set (take ?k (take ?k t @ drop ?k buf))" unfolding tk using t in_set_takeD by fast
    from takeWhile_put [OF this] l s show ?thesis unfolding b n tk by simp
  qed
qed

text \<open>
  The end of any realm clears the hooks of all realms to zero bits, which are not those of ``no
  hook'': any later output to such a descriptor goes through a NULL realm.
\<close>

theorem cleared_hooks_crash_output:
  assumes ok: "rt_ok e s" and c: "clear_hooks e (hooks_len s) s = Some s'" and fd: "0 \<le> fd" "fd < int (hooks_len s)"
    and t: "\<not> throwing e cx (Suc (cp_clock s'))"
  shows "uio_fwrite_hook e cx mem itemsize nitems fd s' = None"
proof -
  from ok have ml: "mon_list (mons s) \<noteq> None" "hooks_ok s" by (simp_all add: rt_ok_def)
  from clear_hooks_ok [OF ml order_refl, of e] c have cs: "calm_step s s'" "hooks_len s' = hooks_len s"
    "io_hooks s' = replicate (hooks_len s) memset_hook @ drop (hooks_len s) (io_hooks s)" by auto
  have "mon_list (mons s') \<noteq> None" using cs(1) ml by (simp add: calm_step_def)
  from enter_io [OF this, of e] obtain u where u: "enter_user_io e s' = Some u" "io_entered s' u" by blast
  have "hook_of fd s' = Some (Some memset_hook)"
    using fd ml(2) by (simp add: hook_of_def cs(2,3) nth_append nat_less_iff) (simp add: memset_hook_def)
  then have h: "hook_of fd u = Some (Some memset_hook)" by (simp add: entered_hook_of [OF u(2)])
  have "realm_tab s' NULL = None" using calm_none [OF cs(1), of NULL] ok by (simp add: rt_ok_def)
  then have "realm_tab u NULL = None" using u(2) by (simp add: io_entered_def monitors_only_def)
  then have "uio_fwrite_js e NULL v x u = None" for v x by (simp add: uio_fwrite_js_def malloc_try_def)
  moreover have "cp_clock u = Suc (cp_clock s')" using u(2) by (simp add: io_entered_def)
  moreover have "hook_realm memset_hook = NULL" by (simp add: memset_hook_def)
  ultimately show ?thesis using u(1) h t by (simp add: uio_fwrite_hook_def Let_def)
qed

section \<open>An environment to look at\<close>

text \<open>An engine and allocator that never fail; the callback of the asynchronous callbacks is number 2
  and those of the collector are 4 and 5.\<close>

definition calm_env :: rt_env where
  "calm_env =
     \<lparr>cp_runtime = 1, malloc_ok = (\<lambda>n. True),
      run_cb = (\<lambda>cb cx contextOp s. if cb = 2 then map_option snd (gpsee_removeAsyncCallbackContext cx contextOp s)
                                   else Some s),
      async_id = 3, async_cb = 2, run_async = (\<lambda>cb cx ud hnd s. Some (True, s)),
      realm_env = ModuleScope.env_ok, env_path = None, cfg_jail = None, cfg_libexec = ''/usr/local/gpsee/libexec'',
      module_gc = 4, other_gc = (\<lambda>fn p status s. (True, s)), scope_realm = (\<lambda>cx. NULL),
      call_hook = (\<lambda>fn buf n. Hook_int (int (length buf))), throwing = (\<lambda>cx n. False), junk_hook = (\<lambda>n. memset_hook),
      c_fwrite = (\<lambda>fd buf n. length buf), c_fread = (\<lambda>fd len n. []), c_fgets = (\<lambda>fd len n. None), c_fgetc = (\<lambda>fd n. -1),
      uio_gc = 5, uio_dump = 6, maybe_gc = 7\<rparr>"

lemma calm_env_ok: "env_ok calm_env"
  by (simp add: env_ok_def async_env_ok_def calm_env_def calm_refl)

lemma calm_env_malloc: "\<forall>n. malloc_ok calm_env n"
  by (simp add: calm_env_def)

text \<open>A runtime with one realm, whose output to descriptor 0 is hooked.\<close>

definition hooked_runtime :: rt_state where
  "hooked_runtime = blank_runtime\<lparr>next_block := 20, mons := \<lparr>mon_monitor = 2, mon_list = Some no_store\<rparr>,
     realm_tab := [10 \<mapsto> memset_realm],
     io_hooks := [\<lparr>hook_input = JSVAL_VOID, hook_output = OBJECT_TO_JSVAL 33, hook_realm = 10\<rparr>], hooks_len := 1\<rparr>"

lemma hooked_runtime_hook:
  "hook_of 0 hooked_runtime = Some (Some \<lparr>hook_input = JSVAL_VOID, hook_output = OBJECT_TO_JSVAL 33, hook_realm = 10\<rparr>)"
  by (simp add: hook_of_def hooked_runtime_def)

theorem hooked_output_reaches_script_witness:
  "\<exists>n s'. uio_fwrite_hook calm_env 9 ''abc'' 1 3 0 hooked_runtime = Some (n, s') \<and> stdio_out s' = []
     \<and> written s' = [(OBJECT_TO_JSVAL 33, ''abc'')] \<and> n = 3"
  using hooked_output_reaches_script [OF _ hooked_runtime_hook, of calm_env 9 1 3 "''abc''"]
  by (simp add: hooked_runtime_def blank_runtime_def calm_env_def)

text \<open>The first postponed text of a runtime.\<close>

lemma first_postponed:
  assumes e: "async_env_ok e" and al: "\<forall>n. malloc_ok e n" and s: "asyncCallbacks s = NULL" "cx_private s cx = None"
  shows "\<exists>t. postpone_write e cx realm text s = Some t"
proof -
  have r: "run_cb e (async_cb e) cx JSCONTEXT_NEW u = Some u" for u
    using e by (simp add: async_env_ok_def gpsee_removeAsyncCallbackContext_def)
  have f: "find_link p ns None NULL = Some (None, NULL)" for p ns by (subst find_link.simps) simp
  show ?thesis
    using al s by (simp add: postpone_write_def malloc_try_def Let_def gpsee_addAsyncCallback_def f set_link_def
        gpsee_getContextPrivate_def find_entry_def new_entry_def call_cb_def r)
qed


end
