(* ===== verification/Runtime.thy ===== *)
theory Runtime
  imports HookableIO
begin

text \<open>
  The life of a runtime, gpsee.c: \<open>gpsee_createRuntime\<close>, \<open>gpsee_destroyRuntime\<close> and the
  interpreter made of a runtime, a realm and a context.  Here the invariants of all components
  meet: every sequence of operations between the creation and the end of a runtime keeps its books,
  and a runtime whose realms were not destroyed before gives everything back.

  The thread that triggers the asynchronous callbacks is joined before their list is freed, and is
  not part of the state.
\<close>

section \<open>Creating a runtime\<close>

text \<open>A store of the runtime.  That one could not be made is not noticed; its next use, which every
  run reaches, goes through NULL, so it is \<open>None\<close> here.\<close>

definition new_store :: "rt_env \<Rightarrow> 32 word \<Rightarrow> rt_state \<Rightarrow> (dstore \<times> rt_state) option" where
  "new_store e flags s =
     (case malloc_try e s of (c1, s) \<Rightarrow>
      case malloc_try e s of (c2, s) \<Rightarrow>
      case malloc_try e s of (ok, s) \<Rightarrow>
      Option.bind (gpsee_ds_create c1 c2 (next_block s) ok NULL (mons s) flags 1) (\<lambda>(ds, g, tr).
      Option.bind ds (\<lambda>d. Some (d, record_calls tr (s\<lparr>next_block := Suc (next_block s), mons := g\<rparr>)))))"

text \<open>The part after the monitor system is there.  \<open>cx\<close> is the core context of the runtime.\<close>

definition furnish_runtime :: "rt_env \<Rightarrow> ptr \<Rightarrow> rt_state \<Rightarrow> rt_state option" where
  "furnish_runtime e cx s =
     Option.bind (new_store e 0 s) (\<lambda>(d, s).
     Option.bind (new_store e 0 (s\<lparr>realms := d\<rparr>)) (\<lambda>(d, s).
     Option.bind (new_store e GPSEE_DS_OTM_KEYS (s\<lparr>realmsByContext := d\<rparr>)) (\<lambda>(d, s).
     Option.bind (JS_BeginRequest cx (s\<lparr>gcCallbackList := d\<rparr>)) (\<lambda>s.
     Option.bind (gpsee_initIOHooks e s) (\<lambda>(ok, s).
     if \<not> ok then None
     else case malloc_try e (s\<lparr>asyncCallbacks := NULL\<rparr>) of (ok, s) \<Rightarrow>
       if \<not> ok then None
       else Option.bind (gpsee_addAsyncCallback e cx (maybe_gc e) NULL s) (\<lambda>(hnd, s). JS_EndRequest cx s))))))"

text \<open>An allocation that fails is a panic or goes through NULL.  The monitor of the monitor system is
  made by NSPR.\<close>

definition gpsee_createRuntime :: "rt_env \<Rightarrow> (ptr \<times> rt_state) option" where
  "gpsee_createRuntime e =
     (case malloc_try e blank_runtime of (ok, s) \<Rightarrow>
      if \<not> ok then None
      else case malloc_try e s of (ok, s) \<Rightarrow>
      if \<not> ok then None
      else case JS_NewContext e s of (cx, s) \<Rightarrow>
      if cx = NULL then None
      else case malloc_try e s of (ok, s) \<Rightarrow>
      case malloc_try e s of (c1, s) \<Rightarrow>
      case malloc_try e s of (c2, s) \<Rightarrow>
      case gpsee_initializeMonitorSystem (if ok then next_block s else NULL) c1 c2 of (ok, g) \<Rightarrow>
      if \<not> ok then None
      else map_option (Pair cx) (furnish_runtime e cx (s\<lparr>next_block := Suc (next_block s), mons := g\<rparr>)))"

section \<open>Destroying a runtime\<close>

definition destroyRealm_cb :: "rt_env \<Rightarrow> ptr \<Rightarrow> ptr \<Rightarrow> ptr \<Rightarrow> rt_state \<Rightarrow> (bool \<times> rt_state) option" where
  "destroyRealm_cb e cx key val s = gpsee_destroyRealm e cx key s"

text \<open>The stores, the monitors and the core context.\<close>

definition free_runtime :: "rt_env \<Rightarrow> ptr \<Rightarrow> rt_state \<Rightarrow> rt_state option" where
  "free_runtime e cx s =
     Option.bind (JS_EndRequest cx s) (\<lambda>s.
     Option.bind (gpsee_ds_destroy (realms s) (mons s)) (\<lambda>(g, tr1).
     Option.bind (gpsee_ds_destroy (realmsByContext s) g) (\<lambda>(g, tr2).
     Option.bind (gpsee_ds_destroy (gcCallbackList s) g) (\<lambda>(g, tr3).
     Option.bind (gpsee_shutdownMonitorSystem g) (\<lambda>tr4.
       JS_DestroyContext e cx (record_calls (tr1 @ tr2 @ tr3 @ tr4) (s\<lparr>mons := g\<rparr>)))))))"

definition gpsee_destroyRuntime :: "rt_env \<Rightarrow> ptr \<Rightarrow> rt_state \<Rightarrow> rt_state option" where
  "gpsee_destroyRuntime e cx s =
     Option.bind (JS_BeginRequest cx s) (\<lambda>s.
     Option.bind (removeAllAsyncCallbacks_unlocked s) (\<lambda>s.
     Option.bind (gpsee_resetIOHooks e s) (\<lambda>s.
     case gpsee_ds_forEach (the_store realms) (try_cb (destroyRealm_cb e cx)) (Some s) of
       Some (ok, Some s, tr) \<Rightarrow> if \<not> ok then None else free_runtime e cx (record_calls tr s)
     | _ \<Rightarrow> None)))"

section \<open>Interpreters\<close>

record interpreter =
  grt :: ptr
  jsi_realm :: ptr
  jsi_cx :: ptr

text \<open>The result of \<open>gpsee_createRealm\<close> is not looked at: creating a context in no realm fails.\<close>

definition gpsee_createInterpreter :: "rt_env \<Rightarrow> bool \<Rightarrow> (interpreter option \<times> rt_state option) option" where
  "gpsee_createInterpreter e calloc_ok =
     (if \<not> calloc_ok then Some (None, None)
      else
        Option.bind (gpsee_createRuntime e) (\<lambda>(core, s).
        Option.bind (gpsee_createRealm e s) (\<lambda>(realm, s).
        Option.bind (gpsee_createContext e realm s) (\<lambda>(cx, s).
        if cx = NULL then map_option (\<lambda>s. (None, Some s)) (gpsee_destroyRuntime e core s)
        else Option.bind (realm_tab s realm) (\<lambda>_. Some (Some \<lparr>grt = core, jsi_realm = realm, jsi_cx = cx\<rparr>, Some s))))))"

definition gpsee_destroyInterpreter :: "rt_env \<Rightarrow> interpreter \<Rightarrow> rt_state \<Rightarrow> rt_state option" where
  "gpsee_destroyInterpreter e jsi s = gpsee_destroyRuntime e (grt jsi) s"

section \<open>The books of a runtime\<close>

text \<open>
  The realms are exactly those listed, and the contexts are the core context, those filed under a
  realm and the spare ones of the realms.
\<close>

abbreviation listed :: "rt_state \<Rightarrow> ptr set" where
  "listed s \<equiv> set (used_keys (ds_data (realms s)))"

definition books :: "ptr \<Rightarrow> rt_state \<Rightarrow> bool" where
  "books core s \<longleftrightarrow> dom (contexts s) = insert core (filed_contexts s \<union> spares s)
     \<and> core \<notin> filed_contexts s \<and> core \<notin> spares s"

definition realms_listed :: "rt_state \<Rightarrow> bool" where
  "realms_listed s \<longleftrightarrow> \<not> is_otm (realms s) \<and> distinct (used_keys (ds_data (realms s))) \<and> listed s = dom (realm_tab s)"

text \<open>What a program can do between the creation and the end of a runtime.  \<open>work\<close>: whatever the
  module system of a realm does, as long as it keeps its own invariant.\<close>

inductive rt_step :: "rt_env \<Rightarrow> rt_state \<Rightarrow> rt_state \<Rightarrow> bool" for e where
  make_realm: "gpsee_createRealm e s = Some (realm, s') \<Longrightarrow> realm \<noteq> NULL \<Longrightarrow> rt_step e s s'"
| make_context: "realm_tab s realm \<noteq> None \<Longrightarrow> gpsee_createContext e realm s = Some (cx, s') \<Longrightarrow> rt_step e s s'"
| end_context: "cx \<in> filed_contexts s \<Longrightarrow> gpsee_destroyContext e cx s = Some s' \<Longrightarrow> rt_step e s s'"
| find_realm: "gpsee_getRealm e cx s = Some (realm, thrown, s') \<Longrightarrow> rt_step e s s'"
| collect: "JS_GC e s = Some s' \<Longrightarrow> rt_step e s s'"
| work: "realm_tab s realm = Some r \<Longrightarrow> mod_inv m ps \<Longrightarrow>
    rt_step e s (s\<lparr>realm_tab := (realm_tab s)(realm \<mapsto> r\<lparr>r_mst := m\<rparr>)\<rparr>)"

abbreviation rt_run :: "rt_env \<Rightarrow> rt_state \<Rightarrow> rt_state \<Rightarrow> bool" where
  "rt_run e \<equiv> (rt_step e)\<^sup>*\<^sup>*"


inductive_cases rt_stepE: "rt_step e s s'"

section \<open>Every operation keeps the books\<close>

lemma calm_spares: "calm_step s t \<Longrightarrow> spares t = spares s"
proof -
  assume c: "calm_step s t"
  have "x \<in> spares s" if "x \<in> spares t" for x
    using that calm_kept [OF c] by (fastforce simp: spares_def realm_kept_def)
  moreover have "x \<in> spares t" if "x \<in> spares s" for x
    using that calm_realm [OF c] by (fastforce simp: spares_def realm_kept_def)
  ultimately show ?thesis by blast
qed

lemma calm_books: "calm_step s t \<Longrightarrow> books core s \<Longrightarrow> books core t"
proof -
  assume c: "calm_step s t"
  have "dom (contexts t) = dom (contexts s)" using calm_live [OF c] by (auto simp: dom_def)
  then show "books core s \<Longrightarrow> books core t" by (simp add: books_def calm_spares [OF c] calm_rest [OF c])
qed

lemma books_core: "books core s \<Longrightarrow> contexts s core \<noteq> None"
  unfolding books_def by blast

lemma calm_listed: "calm_step s t \<Longrightarrow> realms_listed s \<Longrightarrow> realms_listed t"
  by (simp add: realms_listed_def calm_rest calm_dom)

lemma getRealm_calm:
  assumes "mon_list (mons s) \<noteq> None" and "gpsee_getRealm e cx s = Some (r, th, s')"
  shows "calm_step s s'"
proof (cases "scope_realm e cx = NULL")
  case False
  with assms(2) show ?thesis by (auto simp: gpsee_getRealm_def getRealm_def calm_refl)
next
  case True
  from enter_monitors(1) [OF assms(1), of e] obtain t where t: "enter_realms e s = Some t" "monitors_only s t" by blast
  have "calm_step t (leave_auto m (record_calls tr t))" for m tr
    by (simp add: calm_step_def leave_auto_def record_calls_def option.rel_refl realm_kept_refl)
  with True t assms(2) calm_trans [OF monitors_only_calm [OF t(2)]] show ?thesis
    by (auto simp: gpsee_getRealm_def getRealm_def split: prod.splits)
qed

lemma createRealm_books:
  assumes env: "env_ok e" and ok: "rt_ok e s" and b: "books core s" and l: "realms_listed s"
    and c: "gpsee_createRealm e s = Some (realm, s')" "realm \<noteq> NULL"
  shows "books core s' \<and> realms_listed s'"
proof -
  from createRealm_ok [OF env ok c] obtain r' b' tr where
    r: "realm_tab s realm = None" "dom (realm_tab s') = insert realm (dom (realm_tab s))"
    "realmsByContext s' = realmsByContext s" "realm_tab s' realm = Some r'" "contexts s (r_cachedCx r') = None"
    "r_cachedCx r' \<noteq> NULL" "dom (contexts s') = insert (r_cachedCx r') (dom (contexts s))"
    "\<forall>p. p \<noteq> realm \<longrightarrow> realm_tab s' p = realm_tab s p" and put: "gpsee_ds_put b' (realms s) realm NULL = (True, realms s', tr)"
    by blast
  have "spares s' = insert (r_cachedCx r') (spares s)"
  proof (intro set_eqI iffI)
    fix x
    assume "x \<in> spares s'"
    then obtain p y where "realm_tab s' p = Some y" "x = r_cachedCx y" "x \<noteq> NULL" by (auto simp: spares_def)
    with r(4,8) show "x \<in> insert (r_cachedCx r') (spares s)" by (cases "p = realm") (auto simp: spares_def)
  next
    fix x
    assume "x \<in> insert (r_cachedCx r') (spares s)"
    then consider "x = r_cachedCx r'" | p y where "realm_tab s p = Some y" "x = r_cachedCx y" "x \<noteq> NULL" by (auto simp: spares_def)
    then show "x \<in> spares s'"
    proof cases
      case 1
      with r(4,6) show ?thesis by (auto simp: spares_def)
    next
      case (2 p y)
      with r(1) have "p \<noteq> realm" by auto
      with 2 r(8) have "realm_tab s' p = Some y" by simp
      with 2 show ?thesis by (auto simp: spares_def)
    qed
  qed
  moreover have "core \<noteq> r_cachedCx r'" using books_core [OF b] r(5) by auto
  ultimately have "books core s'" using b r(3,7) by (auto simp: books_def)
  moreover have "realms_listed s'"
  proof -
    have n: "\<not> is_otm (realms s)" "realm \<notin> listed s" using l r(1) by (auto simp: realms_listed_def)
    note k = put_new_key [OF n(1) c(2) n(2) put]
    have "distinct (realm # used_keys (ds_data (realms s)))" using l n(2) by (simp add: realms_listed_def)
    moreover have "mset (used_keys (ds_data (realms s'))) = mset (realm # used_keys (ds_data (realms s)))" using k(1) by simp
    ultimately have "distinct (used_keys (ds_data (realms s')))" using mset_eq_imp_distinct_iff by blast
    moreover have "listed s' = insert realm (listed s)" using k(1) by (metis set_mset_add_mset_insert set_mset_mset)
    ultimately show ?thesis using l r(2) k(3) by (simp add: realms_listed_def)
  qed
  ultimately show ?thesis ..
qed

lemma createContext_books:
  assumes env: "env_ok e" and ok: "rt_ok e s" and b: "books core s" and l: "realms_listed s"
    and r: "realm_tab s realm = Some r" and c: "gpsee_createContext e realm s = Some (cx, s')"
  shows "books core s' \<and> realms_listed s'"
proof -
  have ae: "async_env_ok e" using env by (simp add: env_ok_def)
  note co = createContext_ok [OF ae ok r c]
  then have "realms_listed s'" using l by (simp add: realms_listed_def)
  moreover have "books core s'"
  proof (cases "cx = NULL")
    case False
    with co have "dom (contexts s') = insert cx (dom (contexts s))" "filed_contexts s' = insert cx (filed_contexts s)"
      "spares s' = spares s - {cx}" "cx \<in> spares s \<or> contexts s cx = None" by simp_all
    moreover from this(4) have "cx \<noteq> core" using b by (auto simp: books_core books_def)
    ultimately show ?thesis using b by (auto simp: books_def)
  next
    case True
    have "\<exists>c. (c \<in> spares s \<or> contexts s c = None) \<and> dom (contexts s') = dom (contexts s) - {c}
        \<and> filed s' = filed s \<and> spares s' = spares s - {c}" using co True by (simp del: split_paired_Ex)
    then obtain c where c: "c \<in> spares s \<or> contexts s c = None" "dom (contexts s') = dom (contexts s) - {c}"
      "filed s' = filed s" "spares s' = spares s - {c}" by blast
    have "c \<notin> filed_contexts s"
    proof
      assume f: "c \<in> filed_contexts s"
      from c(1) show False
      proof
        assume "c \<in> spares s"
        then obtain p x where "realm_tab s p = Some x" "c = r_cachedCx x" "c \<noteq> NULL" by (auto simp: spares_def)
        moreover from this(1) have "realm_ok s p x" using ok by (simp add: rt_ok_def)
        ultimately show False using f by (simp add: realm_ok_def)
      next
        assume "contexts s c = None"
        with f b show False by (auto simp: books_def dom_def)
      qed
    qed
    moreover have "c \<noteq> core" using c(1) b by (auto simp: books_core books_def)
    ultimately show ?thesis using b c(2-4) by (auto simp: books_def)
  qed
  ultimately show ?thesis by blast
qed

lemma spare_not_filed: "rt_ok e s \<Longrightarrow> c \<in> spares s \<Longrightarrow> c \<notin> filed_contexts s"
  unfolding spares_def rt_ok_def realm_ok_def by blast

lemma destroyContext_books:
  assumes env: "env_ok e" and ok: "rt_ok e s" and b: "books core s" and l: "realms_listed s"
    and c: "cx \<in> filed_contexts s" "gpsee_destroyContext e cx s = Some s'"
  shows "books core s' \<and> realms_listed s'"
proof -
  have ae: "async_env_ok e" using env by (simp add: env_ok_def)
  from destroyContext_ok [OF ae ok c(1)] c(2) have d: "contexts s' = (contexts s)(cx := None)"
    "filed s' = snd (slots_remove (filed s) cx)" "realm_tab s' = realm_tab s" "realms s' = realms s" by auto
  have nz: "cx \<noteq> NULL" using c(1) by (simp add: set_used_keys)
  have "distinct (used_keys (filed s))" using ok by (simp add: rt_ok_def)
  then have "filed_contexts s' = filed_contexts s - {cx}" unfolding d(2) slots_remove_used [OF nz] by simp
  moreover have "cx \<notin> spares s" using spare_not_filed [OF ok] c(1) by blast
  moreover have "dom (contexts s') = dom (contexts s) - {cx}" by (auto simp: d(1))
  ultimately have "books core s'" using b c(1) spares_cong [OF d(3)] by (auto simp: books_def)
  with l d(3,4) show ?thesis by (simp add: realms_listed_def)
qed

text \<open>One step keeps the invariant of the runtime and its books.\<close>

lemma step_keeps:
  assumes env: "env_ok e" and ok: "rt_ok e s" and b: "books core s" and l: "realms_listed s" and st: "rt_step e s s'"
  shows "rt_ok e s' \<and> books core s' \<and> realms_listed s'"
proof -
  have ae: "async_env_ok e" and ml: "mon_list (mons s) \<noteq> None" using env ok by (simp_all add: env_ok_def rt_ok_def)
  have calm: "rt_ok e s' \<and> books core s' \<and> realms_listed s'" if "calm_step s s'"
    using calm_ok [OF env ok that] calm_books [OF that b] calm_listed [OF that l] by blast
  from st show ?thesis
  proof cases
    case (make_realm realm)
    with createRealm_ok [OF env ok make_realm] createRealm_books [OF env ok b l make_realm] show ?thesis by blast
  next
    case (make_context realm cx)
    from make_context(1) obtain r where r: "realm_tab s realm = Some r" by blast
    from createContext_ok [OF ae ok r make_context(2)] createContext_books [OF env ok b l r make_context(2)] show ?thesis by blast
  next
    case (end_context cx)
    from destroyContext_ok [OF ae ok end_context(1)] destroyContext_books [OF env ok b l end_context] end_context(2) show ?thesis by auto
  next
    case (find_realm cx realm thrown)
    from calm [OF getRealm_calm [OF ml find_realm]] show ?thesis .
  next
    case collect
    with JS_GC_ok [OF env ok] calm show ?thesis by auto
  next
    case (work realm r m ps)
    have "realm_kept r (r\<lparr>r_mst := m\<rparr>)" using work(3) by (auto simp: realm_kept_def)
    from upd_mst_calm [OF work(2) this] calm show ?thesis by (simp add: work(1))
  qed
qed

lemma run_keeps:
  assumes env: "env_ok e" and "rt_run e s s'" and "rt_ok e s \<and> books core s \<and> realms_listed s"
  shows "rt_ok e s' \<and> books core s' \<and> realms_listed s'"
  using assms(2,3) by (induction rule: rtranclp_induct) (use step_keeps [OF env] in blast)+


section \<open>The end of a runtime\<close>

lemma free_all_frame: "free_all p s = Some s' \<Longrightarrow> s' = s\<lparr>nodes := nodes s'\<rparr>"
  by (erule free_all.raw_induct [rotated, where P = "\<lambda>p s s'. s' = s\<lparr>nodes := nodes s'\<rparr>"])
    (fastforce simp: free_node_def bind_eq_Some_conv split: if_splits option.splits)

lemma removeAll_calm:
  assumes ok: "rt_ok e s"
  shows "\<exists>t. removeAllAsyncCallbacks_unlocked s = Some t \<and> rt_ok e t \<and> contexts t = contexts s \<and> realm_tab t = realm_tab s
    \<and> realms t = realms s \<and> realmsByContext t = realmsByContext s"
proof -
  from ok obtain xs where x: "async_list s xs" "registered e s xs" "book_ok (cp_runtime e) s" "sole_owner e s"
    by (auto simp: rt_ok_def async_ok_def)
  from removeAll_ok [OF x(1)] obtain t where t: "removeAllAsyncCallbacks_unlocked s = Some t" "async_list t []" by blast
  then obtain u where u: "free_all (asyncCallbacks s) s = Some u" "t = u\<lparr>asyncCallbacks := NULL\<rparr>"
    by (auto simp: removeAllAsyncCallbacks_unlocked_def)
  have eq: "t = s\<lparr>nodes := nodes u, asyncCallbacks := NULL\<rparr>" unfolding u(2) by (subst free_all_frame [OF u(1)]) simp
  have f: "contexts t = contexts s" "realm_tab t = realm_tab s" "realms t = realms s" "realmsByContext t = realmsByContext s"
    "gcCallbackList t = gcCallbackList s" "mons t = mons s" "next_block t = next_block s" "io_hooks t = io_hooks s"
    "hooks_len t = hooks_len s" "cx_private t = cx_private s" "blocks t = blocks s" by (simp_all add: eq)
  have en: "entries t c = entries s c" for c by (simp add: entries_def f)
  have "registered e t []" "book_ok (cp_runtime e) t" "sole_owner e t"
    using x(3,4) by (simp_all add: registered_def book_ok_def sole_owner_def en f)
  with t(2) have "async_ok e t" by (auto simp: async_ok_def)
  moreover have "realm_ok t = realm_ok s" by (simp add: fun_eq_iff realm_ok_def f)
  ultimately have "rt_ok e t" using ok unfolding rt_ok_def f by simp
  with t(1) f show ?thesis by blast
qed

lemma resetIOHooks_ok:
  assumes env: "env_ok e" and ok: "rt_ok e s"
  shows "\<exists>t. gpsee_resetIOHooks e s = Some t \<and> rt_ok e t \<and> contexts t = contexts s \<and> realm_tab t = realm_tab s
    \<and> realms t = realms s \<and> realmsByContext t = realmsByContext s \<and> asyncCallbacks t = asyncCallbacks s \<and> nodes t = nodes s
    \<and> cx_private t = cx_private s \<and> blocks t = blocks s \<and> next_block s \<le> next_block t \<and> mon_list (mons t) \<noteq> None"
proof -
  have ml: "mon_list (mons s) \<noteq> None" using ok by (simp add: rt_ok_def)
  from enter_monitors(3) [OF ml, of e] obtain u where u: "enter_user_io e s = Some u" "monitors_only s u" by blast
  let ?v = "leave_auto (mon_user_io u) (u\<lparr>io_table := Bare, hooks_len := 0, io_hooks := []\<rparr>)\<lparr>cp_clock := Suc (cp_clock u)\<rparr>"
  have oku: "rt_ok e u" by (rule monitors_only_ok [OF ok u(2)])
  have okv: "rt_ok e ?v"
    by (rule rt_ok_cong [OF oku]) (use oku in \<open>simp_all add: rt_ok_def leave_auto_def record_calls_def\<close>)
  obtain b st tr where g: "gpsee_addGCCallback (malloc_ok e (cp_clock u)) (gcCallbackList ?v) NULL (uio_gc e) = (b, st, tr)"
    by (metis prod_cases3)
  let ?w = "record_calls tr (?v\<lparr>gcCallbackList := st\<rparr>)"
  have "gpsee_resetIOHooks e s = Some ?w"
    using u(1) g by (simp add: gpsee_resetIOHooks_def malloc_try_def Let_def)
  moreover have "rt_ok e (?v\<lparr>gcCallbackList := st\<rparr>)"
  proof (cases b)
    case True
    show ?thesis
      by (rule add_gc_ok [OF okv env, of "uio_gc e" NULL "malloc_ok e (cp_clock u)" st tr])
        (use g True env in \<open>simp_all add: env_ok_def\<close>)
  next
    case False
    with g have "gpsee_ds_put (malloc_ok e (cp_clock u)) (gcCallbackList ?v) (uio_gc e) NULL = (False, st, tr)"
      unfolding gpsee_addGCCallback_def by simp
    with put_fails have "st = gcCallbackList ?v" by metis
    with okv show ?thesis by simp
  qed
  from calm_ok [OF env this record_calm] have "rt_ok e ?w" .
  moreover have "mon_list (mons ?w) \<noteq> None" using okv by (simp add: rt_ok_def record_calls_def)
  ultimately show ?thesis using u(2) by (intro exI [of _ ?w]) (simp add: monitors_only_def leave_auto_def record_calls_def)
qed

lemma used_value: "distinct (used_keys data) \<Longrightarrow> (k, v) \<in> set data \<Longrightarrow> (k, w) \<in> set data \<Longrightarrow> k \<noteq> NULL \<Longrightarrow> v = w"
proof (induction data)
  case (Cons x data)
  then show ?case using used_keys_in [of k v data] used_keys_in [of k w data] by (auto simp: used_keys_Cons split: if_splits)
qed simp

lemma in_used: "c \<in> set (used_keys data) \<longleftrightarrow> c \<noteq> NULL \<and> (\<exists>v. (c, v) \<in> set data)"
  by (cases "c = NULL") (auto simp: set_used_keys intro: rev_image_eqI)

lemma used_drop_realm:
  "distinct (used_keys data) \<Longrightarrow>
   set (used_keys (map (drop_realm realm) data)) = set (used_keys data) - {c. (c, realm) \<in> set data}"
proof -
  assume d: "distinct (used_keys data)"
  have "(c, v) \<in> set (map (drop_realm realm) data) \<longleftrightarrow> v \<noteq> realm \<and> (c, v) \<in> set data" if "c \<noteq> NULL" for c v
    using that by (auto simp: drop_realm_def image_iff split: if_splits)
  then have k: "c \<in> set (used_keys (map (drop_realm realm) data)) \<longleftrightarrow> c \<noteq> NULL \<and> (\<exists>v. v \<noteq> realm \<and> (c, v) \<in> set data)" for c
    unfolding in_used by blast
  show ?thesis
  proof (intro set_eqI iffI)
    fix c
    assume "c \<in> set (used_keys (map (drop_realm realm) data))"
    then obtain v where v: "c \<noteq> NULL" "v \<noteq> realm" "(c, v) \<in> set data" unfolding k by blast
    with used_value [OF d] have "(c, realm) \<notin> set data" by metis
    with v show "c \<in> set (used_keys data) - {c. (c, realm) \<in> set data}" unfolding Diff_iff in_used mem_Collect_eq by blast
  next
    fix c
    assume "c \<in> set (used_keys data) - {c. (c, realm) \<in> set data}"
    then have "c \<noteq> NULL \<and> (\<exists>v. (c, v) \<in> set data) \<and> (c, realm) \<notin> set data"
      unfolding Diff_iff in_used mem_Collect_eq by blast
    then have "c \<noteq> NULL \<and> (\<exists>v. v \<noteq> realm \<and> (c, v) \<in> set data)" by metis
    then show "c \<in> set (used_keys (map (drop_realm realm) data))" unfolding k .
  qed
qed

lemma core_foreign:
  assumes ok: "rt_ok e s" and b: "books core s" and r: "realm_tab s realm = Some r"
  shows "contexts s core \<noteq> None" and "(core, realm) \<notin> set (filed s)" and "core \<noteq> r_cachedCx r"
proof -
  show l: "contexts s core \<noteq> None" using books_core [OF b] .
  have "contexts s NULL = None" using ok by (simp add: rt_ok_def)
  with l have nz: "core \<noteq> NULL" by metis
  then show "(core, realm) \<notin> set (filed s)" using b used_keys_in [of core realm "filed s"] by (auto simp: books_def)
  show "core \<noteq> r_cachedCx r" using b r nz by (auto simp: books_def spares_def)
qed

lemma destroyRealm_books:
  assumes env: "env_ok e" and ok: "rt_ok e s" and b: "books core s" and r: "realm_tab s realm = Some r"
  shows "\<exists>s'. gpsee_destroyRealm e core realm s = Some (True, s') \<and> rt_ok e s' \<and> books core s'
    \<and> dom (realm_tab s') = dom (realm_tab s) - {realm} \<and> realms s' = realms s"
proof -
  from destroyRealm_ok [OF env ok r core_foreign [OF ok b r]] obtain s' where
    s': "gpsee_destroyRealm e core realm s = Some (True, s')" "rt_ok e s'" "dom (realm_tab s') = dom (realm_tab s) - {realm}"
    "filed s' = map (drop_realm realm) (filed s)" "realms s' = realms s"
    "\<forall>c. contexts s' c = None \<longleftrightarrow> contexts s c = None \<or> (c, realm) \<in> set (filed s) \<or> c = r_cachedCx r"
    "\<forall>q. q \<noteq> realm \<longrightarrow> rel_option realm_kept (realm_tab s q) (realm_tab s' q)" by blast
  have "distinct (used_keys (filed s))" and rok: "realm_ok s realm r" using ok r by (simp_all add: rt_ok_def)
  then have fc: "filed_contexts s' = filed_contexts s - {c. (c, realm) \<in> set (filed s)}" by (simp add: s'(4) used_drop_realm)
  have sp: "spares s' = spares s - {r_cachedCx r}"
  proof (intro set_eqI iffI)
    fix x
    assume "x \<in> spares s'"
    then obtain p y where y: "realm_tab s' p = Some y" "x = r_cachedCx y" "x \<noteq> NULL" by (auto simp: spares_def)
    with s'(3) have "p \<noteq> realm" by auto
    with s'(7) y(1) obtain z where z: "realm_tab s p = Some z" "realm_kept z y" by (metis option_rel_Some2)
    then have "r_cachedCx z = x" using y(2) by (simp add: realm_kept_def)
    moreover have "r_cachedCx z \<noteq> r_cachedCx r" using rok z(1) \<open>p \<noteq> realm\<close> y(3) \<open>r_cachedCx z = x\<close> by (auto simp: realm_ok_def)
    ultimately show "x \<in> spares s - {r_cachedCx r}" using z(1) y(3) by (auto simp: spares_def)
  next
    fix x
    assume "x \<in> spares s - {r_cachedCx r}"
    then obtain p z where z: "realm_tab s p = Some z" "x = r_cachedCx z" "x \<noteq> NULL" "x \<noteq> r_cachedCx r" by (auto simp: spares_def)
    then have "p \<noteq> realm" using r by auto
    with s'(7) z(1) obtain y where "realm_tab s' p = Some y" "realm_kept z y" by (metis option_rel_Some1)
    then have "realm_tab s' p = Some y \<and> x = r_cachedCx y" using z(2) by (simp add: realm_kept_def)
    with z(3) show "x \<in> spares s'" unfolding spares_def by blast
  qed
  have live: "c \<in> dom (contexts s') \<longleftrightarrow> c \<in> dom (contexts s) \<and> (c, realm) \<notin> set (filed s) \<and> c \<noteq> r_cachedCx r" for c
    using s'(6) by (metis domIff)
  note cf = core_foreign [OF ok b r]
  have "r_cachedCx r \<notin> filed_contexts s" using rok by (cases "r_cachedCx r = NULL") (auto simp: realm_ok_def set_used_keys)
  moreover have "c \<notin> spares s" if "(c, realm) \<in> set (filed s)" for c
  proof
    assume c: "c \<in> spares s"
    then have "c \<noteq> NULL" by (auto simp: spares_def)
    with that used_keys_in have "c \<in> filed_contexts s" by blast
    with spare_not_filed [OF ok c] show False by blast
  qed
  ultimately have "books core s'"
    using b cf unfolding books_def fc sp set_eq_iff live by blast
  with s'(1-3,5) show ?thesis by blast
qed

lemma shutdownMonitors_runs: "mon_list g \<noteq> None \<Longrightarrow> \<exists>tr. gpsee_shutdownMonitorSystem g = Some tr"
proof -
  assume "mon_list g \<noteq> None"
  then obtain lst where l: "mon_list g = Some lst" by blast
  have f: "gpsee_ds_forEach (\<lambda>s. s) destroyMonitor_cb lst = Some (True, lst,
      gpsee_enterMonitor (ds_monitor lst) @ map PR_DestroyMonitor (used_keys (ds_data lst)) @ gpsee_leaveMonitor (ds_monitor lst))"
    by (subst forEach_visit) (simp_all add: destroyMonitor_cb_def visit_destroyMonitor)
  from ds_destroy_ok [of g lst] l obtain g' tr where "gpsee_ds_destroy lst g = Some (g', tr)" by auto
  with l f show ?thesis by (simp add: gpsee_shutdownMonitorSystem_def)
qed

lemma free_runtime_ok:
  assumes env: "env_ok e" and ok: "rt_ok e s" and c: "contexts s core \<noteq> None"
  shows "\<exists>s'. free_runtime e core s = Some s' \<and> dom (contexts s') = dom (contexts s) - {core} \<and> realm_tab s' = realm_tab s"
proof -
  from upd_context_ok [OF ok c, of "\<lambda>c. c\<lparr>requests := requests c - 1\<rparr>"] obtain s1 where
    s1: "JS_EndRequest core s = Some s1" "rt_ok e s1" "contexts s1 core \<noteq> None" "s1 = s\<lparr>contexts := contexts s1\<rparr>"
    "\<forall>c. contexts s1 c = None \<longleftrightarrow> contexts s c = None" unfolding JS_EndRequest_def by blast
  have m0: "mon_list (mons s1) \<noteq> None" using s1(2) by (simp add: rt_ok_def)
  from ds_destroy_ok [OF m0] obtain g1 t1 where g1: "gpsee_ds_destroy (realms s1) (mons s1) = Some (g1, t1)" by blast
  note m1 = ds_destroy_mons [OF g1 m0]
  from ds_destroy_ok [OF m1] obtain g2 t2 where g2: "gpsee_ds_destroy (realmsByContext s1) g1 = Some (g2, t2)" by blast
  note m2 = ds_destroy_mons [OF g2 m1]
  from ds_destroy_ok [OF m2] obtain g3 t3 where g3: "gpsee_ds_destroy (gcCallbackList s1) g2 = Some (g3, t3)" by blast
  note m3 = ds_destroy_mons [OF g3 m2]
  from shutdownMonitors_runs [OF m3] obtain t4 where t4: "gpsee_shutdownMonitorSystem g3 = Some t4" by blast
  let ?s = "record_calls (t1 @ t2 @ t3 @ t4) (s1\<lparr>mons := g3\<rparr>)"
  have e': "async_env_ok e" using env by (simp add: env_ok_def)
  have a: "async_ok e s1" using s1(2) by (simp add: rt_ok_def)
  have a': "async_ok e ?s" by (rule async_ok_cong [OF a]) (simp_all add: record_calls_def)
  from s1(3) obtain x where x: "contexts ?s core = Some x" by (auto simp: record_calls_def)
  from JS_DestroyContext_ok [OF e' a' x] obtain u t where u: "JS_DestroyContext e core ?s = Some u"
    "u = t\<lparr>contexts := (contexts ?s)(core := None)\<rparr>" "async_state.more t = async_state.more ?s" by blast
  have "free_runtime e core s = Some u"
    by (simp add: free_runtime_def s1(1) g1 g2 g3 t4 u(1))
  moreover have "realm_tab u = realm_tab ?s" using rt_more(2) [OF u(3)] u(2) by simp
  moreover have "realm_tab ?s = realm_tab s" by (simp add: record_calls_def) (subst s1(4), simp)
  moreover have "dom (contexts s1) = dom (contexts s)" using s1(5) by (simp add: dom_def)
  then have "dom (contexts u) = dom (contexts s) - {core}" by (simp add: u(2) record_calls_def)
  ultimately show ?thesis by simp
qed

lemma used_take:
  "i < length xs \<Longrightarrow> xs ! i = (k, v) \<Longrightarrow> set (used_keys (take (Suc i) xs)) = set (used_keys (take i xs)) \<union> ({k} - {NULL})"
  by (cases "k = NULL") (auto simp: take_Suc_conv_app_nth set_used_keys)

lemma used_take_new:
  "distinct (used_keys xs) \<Longrightarrow> i < length xs \<Longrightarrow> xs ! i = (k, v) \<Longrightarrow> k \<noteq> NULL \<Longrightarrow> k \<notin> set (used_keys (take i xs))"
proof
  assume d: "distinct (used_keys xs)" and i: "i < length xs" "xs ! i = (k, v)" "k \<noteq> NULL" and k: "k \<in> set (used_keys (take i xs))"
  have "used_keys xs = used_keys (take i xs) @ used_keys ((k, v) # drop (Suc i) xs)"
    unfolding used_keys_append [symmetric] using id_take_nth_drop [OF i(1)] i(2) by simp
  with d i(3) k show False by (simp add: used_keys_Cons)
qed

text \<open>A runtime in order ends completely: every context is destroyed and every realm freed.\<close>

lemma destroyRuntime_ok:
  assumes env: "env_ok e" and ok: "rt_ok e s" and b: "books core s" and l: "realms_listed s"
  shows "\<exists>s'. gpsee_destroyRuntime e core s = Some s' \<and> dom (contexts s') = {} \<and> dom (realm_tab s') = {}"
proof -
  from upd_context_ok [OF ok books_core [OF b], of "\<lambda>c. c\<lparr>requests := Suc (requests c)\<rparr>"] obtain s1 where
    s1: "JS_BeginRequest core s = Some s1" "rt_ok e s1" "s1 = s\<lparr>contexts := contexts s1\<rparr>"
    "\<forall>c. contexts s1 c = None \<longleftrightarrow> contexts s c = None" unfolding JS_BeginRequest_def by blast
  have f1: "realm_tab s1 = realm_tab s" "realms s1 = realms s" "realmsByContext s1 = realmsByContext s"
    by (subst s1(3), simp)+
  from removeAll_calm [OF s1(2)] obtain s2 where s2: "removeAllAsyncCallbacks_unlocked s1 = Some s2" "rt_ok e s2"
    "contexts s2 = contexts s1" "realm_tab s2 = realm_tab s1" "realms s2 = realms s1" "realmsByContext s2 = realmsByContext s1" by blast
  from resetIOHooks_ok [OF env s2(2)] obtain s3 where s3: "gpsee_resetIOHooks e s2 = Some s3" "rt_ok e s3"
    "contexts s3 = contexts s2" "realm_tab s3 = realm_tab s2" "realms s3 = realms s2" "realmsByContext s3 = realmsByContext s2" by blast
  have f3: "realm_tab s3 = realm_tab s" "realms s3 = realms s" "realmsByContext s3 = realmsByContext s"
    using f1 s2 s3 by simp_all
  have "dom (contexts s3) = dom (contexts s)" using s1(4) s2(3) s3(3) by (auto simp: dom_def)
  then have b3: "books core s3" using b spares_cong [OF f3(1)] by (simp add: books_def f3)
  let ?data = "ds_data (realms s)"
  let ?J = "\<lambda>i t. rt_ok e t \<and> books core t \<and> realms t = realms s \<and> dom (realm_tab t) = listed s - set (used_keys (take i ?data))"
  have "?J 0 s3" using s3(2) b3 f3 l by (simp add: realms_listed_def set_used_keys)
  moreover have "(k = NULL \<longrightarrow> ?J (Suc i) t) \<and> (k \<noteq> NULL \<longrightarrow> (\<exists>t'. destroyRealm_cb e core k v t = Some (True, t') \<and> ?J (Suc i) t'))"
    if j: "?J i t" and i: "i < ds_size (realms s)" and kv: "ds_data (realms t) ! i = (k, v)" for i t k v
  proof (intro conjI impI)
    from j kv have kv: "?data ! i = (k, v)" by simp
    note tk = used_take [OF i kv]
    show "rt_ok e t" "books core t" "realms t = realms s" using j by simp_all
    show "dom (realm_tab t) = listed s - set (used_keys (take (Suc i) ?data))" if "k = NULL"
      using j tk that by simp
    assume k: "k \<noteq> NULL"
    have "k \<in> listed s" using used_keys_in [of k v ?data] nth_mem [OF i] kv k by simp
    moreover have "k \<notin> set (used_keys (take i ?data))" using l i kv k by (intro used_take_new) (simp_all add: realms_listed_def)
    ultimately have "k \<in> dom (realm_tab t)" using j by simp
    then obtain r where r: "realm_tab t k = Some r" by blast
    from j have jt: "rt_ok e t" "books core t" by simp_all
    from destroyRealm_books [OF env jt r] obtain t' where t': "gpsee_destroyRealm e core k t = Some (True, t')" "rt_ok e t'"
      "books core t'" "dom (realm_tab t') = dom (realm_tab t) - {k}" "realms t' = realms t" by blast
    moreover have "dom (realm_tab t') = listed s - set (used_keys (take (Suc i) ?data))" using j tk k t'(4) by auto
    ultimately show "\<exists>t'. destroyRealm_cb e core k v t = Some (True, t') \<and> ?J (Suc i) t'"
      using j unfolding destroyRealm_cb_def by auto
  qed
  ultimately obtain t tr where t: "gpsee_ds_forEach (the_store realms) (try_cb (destroyRealm_cb e core)) (Some s3) = Some (True, Some t, tr)"
    "?J (ds_size (realms s)) t" using forEach_try [of ?J s3 realms "ds_size (realms s)" "destroyRealm_cb e core"] by auto
  from t(2) have none: "dom (realm_tab t) = {}" by simp
  have okt: "rt_ok e (record_calls tr t)" and bt: "books core (record_calls tr t)"
    using t(2) calm_ok [OF env _ record_calm] calm_books [OF record_calm] by blast+
  have n: "realm_tab (record_calls tr t) = Map.empty" using none by (simp add: record_calls_def)
  then have "spares (record_calls tr t) = {}" by (simp add: spares_def)
  moreover have "c \<notin> filed_contexts (record_calls tr t)" for c
    unfolding in_used using okt n by (fastforce simp: rt_ok_def)
  then have "filed_contexts (record_calls tr t) = {}" by (intro equals0I) metis
  ultimately have d: "dom (contexts (record_calls tr t)) = {core}" using bt by (simp add: books_def)
  from free_runtime_ok [OF env okt books_core [OF bt]] obtain u where
    "free_runtime e core (record_calls tr t) = Some u" "dom (contexts u) = dom (contexts (record_calls tr t)) - {core}"
    "realm_tab u = realm_tab (record_calls tr t)" by blast
  moreover from this(1) have "gpsee_destroyRuntime e core s = Some u"
    by (simp add: gpsee_destroyRuntime_def s1(1) s2(1) s3(1) t(1))
  ultimately show ?thesis using d n by simp
qed

text \<open>An iteration that comes to a callback that fails does not go on.\<close>

lemma forEach_crash:
  assumes "J 0 s" and size: "\<And>i s. J i s \<Longrightarrow> ds_size (get s) = n"
    and step: "\<And>i s k v. J i s \<Longrightarrow> i < n \<Longrightarrow> ds_data (get s) ! i = (k, v) \<Longrightarrow>
      (k = NULL \<longrightarrow> J (Suc i) s) \<and> (k \<noteq> NULL \<longrightarrow> cb k v s = None \<or> (\<exists>s'. cb k v s = Some (True, s') \<and> J (Suc i) s'))"
    and stop: "\<And>s k v. J m s \<Longrightarrow> ds_data (get s) ! m = (k, v) \<Longrightarrow> k \<noteq> NULL \<and> cb k v s = None" and "m < n"
  shows "\<exists>tr. gpsee_ds_forEach (the_store get) (try_cb cb) (Some s) = Some (False, None, tr)"
proof -
  have loop: "\<exists>tr'. forEach_loop (the_store get) (try_cb cb) i (Some s) tr = Some (False, None, tr')"
    if "J i s" "i \<le> m" for i s tr
    using that
  proof (induction "m - i" arbitrary: i s tr)
    case 0
    then have i: "i = m" by simp
    obtain k v where kv: "ds_data (get s) ! i = (k, v)" by fastforce
    from stop [of s k v] kv 0(2) i have "k \<noteq> NULL" "cb k v s = None" by simp_all
    with kv size [OF 0(2)] i assms(5) show ?case by (subst forEach_step) (simp add: the_store_def try_cb_def)
  next
    case (Suc d)
    then have i: "i < n" "d = m - Suc i" "Suc i \<le> m" using assms(5) by simp_all
    obtain k v where kv: "ds_data (get s) ! i = (k, v)" by fastforce
    note st = step [OF Suc(3) i(1) kv]
    show ?case
    proof (cases "k = NULL")
      case True
      with st Suc(1) [OF i(2) _ i(3), of s tr] kv size [OF Suc(3)] i(1) show ?thesis
        by (subst forEach_step) (simp add: the_store_def)
    next
      case False
      with st consider "cb k v s = None" | s' where "cb k v s = Some (True, s')" "J (Suc i) s'" by metis
      then show ?thesis
      proof cases
        case 1
        with False kv size [OF Suc(3)] i(1) show ?thesis by (subst forEach_step) (simp add: the_store_def try_cb_def)
      next
        case (2 s')
        with False Suc(1) [OF i(2) 2(2) i(3)] kv size [OF Suc(3)] i(1) show ?thesis
          by (subst forEach_step) (simp add: the_store_def try_cb_def)
      qed
    qed
  qed
  from loop [OF assms(1), of "gpsee_enterMonitor (ds_monitor (get s))"] show ?thesis
    by (auto simp: gpsee_ds_forEach_def the_store_def)
qed

text \<open>A realm that was destroyed stays in the list of the runtime, which calls \<open>gpsee_destroyRealm\<close>
  on it again.\<close>

lemma destroyRealm_needs_realm: "realm_tab s realm = None \<Longrightarrow> gpsee_destroyRealm e cx realm s = None"
  by (simp add: gpsee_destroyRealm_def gpsee_uio_dumpPendingWrites_def)

lemma destroyRuntime_crash:
  assumes env: "env_ok e" and ok: "rt_ok e s" and b: "books core s"
    and st: "realm \<in> listed s" "realm_tab s realm = None"
  shows "gpsee_destroyRuntime e core s = None"
proof -
  from upd_context_ok [OF ok books_core [OF b], of "\<lambda>c. c\<lparr>requests := Suc (requests c)\<rparr>"] obtain s1 where
    s1: "JS_BeginRequest core s = Some s1" "rt_ok e s1" "s1 = s\<lparr>contexts := contexts s1\<rparr>"
    "\<forall>c. contexts s1 c = None \<longleftrightarrow> contexts s c = None" unfolding JS_BeginRequest_def by blast
  have f1: "realm_tab s1 = realm_tab s" "realms s1 = realms s" "realmsByContext s1 = realmsByContext s"
    by (subst s1(3), simp)+
  from removeAll_calm [OF s1(2)] obtain s2 where s2: "removeAllAsyncCallbacks_unlocked s1 = Some s2" "rt_ok e s2"
    "contexts s2 = contexts s1" "realm_tab s2 = realm_tab s1" "realms s2 = realms s1" "realmsByContext s2 = realmsByContext s1" by blast
  from resetIOHooks_ok [OF env s2(2)] obtain s3 where s3: "gpsee_resetIOHooks e s2 = Some s3" "rt_ok e s3"
    "contexts s3 = contexts s2" "realm_tab s3 = realm_tab s2" "realms s3 = realms s2" "realmsByContext s3 = realmsByContext s2" by blast
  have f3: "realm_tab s3 = realm_tab s" "realms s3 = realms s" "realmsByContext s3 = realmsByContext s"
    using f1 s2 s3 by simp_all
  have "dom (contexts s3) = dom (contexts s)" using s1(4) s2(3) s3(3) by (auto simp: dom_def)
  then have b3: "books core s3" using b spares_cong [OF f3(1)] by (simp add: books_def f3)
  from st(1) obtain v where "(realm, v) \<in> set (ds_data (realms s))" and nz: "realm \<noteq> NULL" by (auto simp: in_used)
  then obtain m where m: "m < ds_size (realms s)" "ds_data (realms s) ! m = (realm, v)" by (auto simp: in_set_conv_nth)
  let ?J = "\<lambda>i t. rt_ok e t \<and> books core t \<and> realms t = realms s \<and> realm_tab t realm = None"
  have "\<exists>tr. gpsee_ds_forEach (the_store realms) (try_cb (destroyRealm_cb e core)) (Some s3) = Some (False, None, tr)"
  proof (rule forEach_crash [of ?J s3 realms "ds_size (realms s)" _ m])
    show "?J 0 s3" using s3(2) b3 f3 st(2) by simp
    show "m < ds_size (realms s)" by (rule m(1))
    show "ds_size (realms t) = ds_size (realms s)" if "?J i t" for i t using that by simp
    show "k \<noteq> NULL \<and> destroyRealm_cb e core k w t = None" if "?J m t" "ds_data (realms t) ! m = (k, w)" for t k w
      using that m(2) nz by (simp add: destroyRealm_cb_def destroyRealm_needs_realm)
    show "(k = NULL \<longrightarrow> ?J (Suc i) t) \<and> (k \<noteq> NULL \<longrightarrow> destroyRealm_cb e core k w t = None
        \<or> (\<exists>t'. destroyRealm_cb e core k w t = Some (True, t') \<and> ?J (Suc i) t'))"
      if j: "?J i t" and "i < ds_size (realms s)" "ds_data (realms t) ! i = (k, w)" for i t k w
    proof (intro conjI impI)
      show "destroyRealm_cb e core k w t = None \<or> (\<exists>t'. destroyRealm_cb e core k w t = Some (True, t') \<and> ?J (Suc i) t')"
      proof (cases "realm_tab t k")
        case None
        then show ?thesis by (simp add: destroyRealm_cb_def destroyRealm_needs_realm)
      next
        case (Some r)
        from j have jt: "rt_ok e t" "books core t" by simp_all
        from destroyRealm_books [OF env jt Some] obtain t' where t': "gpsee_destroyRealm e core k t = Some (True, t')" "rt_ok e t'"
          "books core t'" "dom (realm_tab t') = dom (realm_tab t) - {k}" "realms t' = realms t" by blast
        from t'(4) j have "realm_tab t' realm = None" by blast
        with t' j show ?thesis unfolding destroyRealm_cb_def by simp
      qed
    qed (use j in simp_all)
  qed
  then show ?thesis by (auto simp: gpsee_destroyRuntime_def s1(1) s2(1) s3(1))
qed

section \<open>A new runtime\<close>

lemma new_store_ok:
  assumes ok: "\<forall>n. malloc_ok e n" and m: "mon_list (mons s) \<noteq> None"
  shows "\<exists>d s'. new_store e flags s = Some (d, s') \<and> used_keys (ds_data d) = [] \<and> ds_flags d = flags
    \<and> mon_list (mons s') \<noteq> None \<and> next_block s' = Suc (next_block s)
    \<and> s' = s\<lparr>cp_clock := cp_clock s', next_block := next_block s', mons := mons s', pr_calls := pr_calls s'\<rparr>"
proof -
  from m obtain l where "mon_list (mons s) = Some l" by blast
  with ok show ?thesis
    by (auto simp: new_store_def malloc_try_def gpsee_ds_create_def ds_create_def gpsee_createMonitor_def record_calls_def
        used_keys_def split: prod.split)
qed

lemma no_keys: "used_keys data = [] \<Longrightarrow> x \<in> set data \<Longrightarrow> fst x = NULL"
  using used_keys_in [of "fst x" "snd x" data] by auto

lemma early_ok:
  assumes e: "env_ok e" and n: "asyncCallbacks s = NULL" "nodes s = (\<lambda>_. None)" "cx_private s = (\<lambda>_. None)" "blocks s = (\<lambda>_. None)"
    and m: "mon_list (mons s) \<noteq> None" "hooks_len s = 0" and c: "\<forall>p \<ge> next_block s. contexts s p = None" "contexts s NULL = None"
    and r: "realm_tab s = (\<lambda>_. None)" "\<not> is_otm (realmsByContext s)" "used_keys (filed s) = []"
    and g: "used_keys (ds_data (gcCallbackList s)) = []" and b: "0 < next_block s"
  shows "rt_ok e s"
proof -
  have en: "entries s c = []" for c by (simp add: entries_def n)
  have "async_list s []" by (simp add: async_list_def n)
  moreover have "registered e s []" "book_ok (cp_runtime e) s" "sole_owner e s"
    using b by (simp_all add: registered_def book_ok_def sole_owner_def en n find_entry_def owners_def storages_def)
  ultimately have "async_ok e s" by (auto simp: async_ok_def)
  moreover have "module_gc e \<noteq> NULL" using e by (simp add: env_ok_def)
  ultimately show ?thesis using m c r no_keys [OF g] no_keys [OF r(3)] by (fastforce simp: rt_ok_def)
qed

lemma blank_fields:
  "asyncCallbacks blank_runtime = NULL" "nodes blank_runtime = (\<lambda>_. None)" "cx_private blank_runtime = (\<lambda>_. None)"
  "blocks blank_runtime = (\<lambda>_. None)" "hooks_len blank_runtime = 0" "realm_tab blank_runtime = (\<lambda>_. None)"
  "contexts blank_runtime = (\<lambda>_. None)" "next_block blank_runtime = 1" "cp_clock blank_runtime = 0"
  by (simp_all add: blank_runtime_def)

text \<open>The part that furnishes the runtime, from the state in which its core context exists.\<close>

lemma furnish_runtime_ok:
  assumes env: "env_ok e" and al: "\<forall>n. malloc_ok e n" and m: "mon_list (mons s) \<noteq> None"
    and n: "asyncCallbacks s = NULL" "nodes s = (\<lambda>_. None)" "cx_private s = (\<lambda>_. None)" "blocks s = (\<lambda>_. None)"
    and h: "hooks_len s = 0" and r: "realm_tab s = (\<lambda>_. None)"
    and c: "\<forall>p. contexts s p \<noteq> None \<longleftrightarrow> p = core" and b: "core < next_block s" "core \<noteq> NULL"
  shows "\<exists>s'. furnish_runtime e core s = Some s' \<and> rt_ok e s' \<and> books core s' \<and> realms_listed s' \<and> realm_tab s' = Map.empty"
proof -
  from new_store_ok [OF al m, of 0] obtain d1 s1 where
    s1: "new_store e 0 s = Some (d1, s1)" "used_keys (ds_data d1) = []" "ds_flags d1 = 0" "mon_list (mons s1) \<noteq> None"
    "next_block s1 = Suc (next_block s)"
    "s1 = s\<lparr>cp_clock := cp_clock s1, next_block := next_block s1, mons := mons s1, pr_calls := pr_calls s1\<rparr>" by blast
  let ?s1 = "s1\<lparr>realms := d1\<rparr>"
  have "mon_list (mons ?s1) \<noteq> None" using s1(4) by simp
  from new_store_ok [OF al this, of 0] obtain d2 s2 where
    s2: "new_store e 0 ?s1 = Some (d2, s2)" "used_keys (ds_data d2) = []" "ds_flags d2 = 0" "mon_list (mons s2) \<noteq> None"
    "next_block s2 = Suc (next_block ?s1)"
    "s2 = ?s1\<lparr>cp_clock := cp_clock s2, next_block := next_block s2, mons := mons s2, pr_calls := pr_calls s2\<rparr>" by blast
  let ?s2 = "s2\<lparr>realmsByContext := d2\<rparr>"
  have "mon_list (mons ?s2) \<noteq> None" using s2(4) by simp
  from new_store_ok [OF al this, of GPSEE_DS_OTM_KEYS] obtain d3 s3 where
    s3: "new_store e GPSEE_DS_OTM_KEYS ?s2 = Some (d3, s3)" "used_keys (ds_data d3) = []" "mon_list (mons s3) \<noteq> None"
    "next_block s3 = Suc (next_block ?s2)"
    "s3 = ?s2\<lparr>cp_clock := cp_clock s3, next_block := next_block s3, mons := mons s3, pr_calls := pr_calls s3\<rparr>" by blast
  let ?s3 = "s3\<lparr>gcCallbackList := d3\<rparr>"
  have f1: "asyncCallbacks s1 = NULL" "nodes s1 = (\<lambda>_. None)" "cx_private s1 = (\<lambda>_. None)" "blocks s1 = (\<lambda>_. None)"
    "hooks_len s1 = 0" "realm_tab s1 = (\<lambda>_. None)" "contexts s1 = contexts s" by (subst s1(6), simp add: n h r)+
  have f2: "asyncCallbacks s2 = NULL" "nodes s2 = (\<lambda>_. None)" "cx_private s2 = (\<lambda>_. None)" "blocks s2 = (\<lambda>_. None)"
    "hooks_len s2 = 0" "realm_tab s2 = (\<lambda>_. None)" "contexts s2 = contexts s" "realms s2 = d1" by (subst s2(6), simp add: f1)+
  have f3: "asyncCallbacks s3 = NULL" "nodes s3 = (\<lambda>_. None)" "cx_private s3 = (\<lambda>_. None)" "blocks s3 = (\<lambda>_. None)"
    "hooks_len s3 = 0" "realm_tab s3 = (\<lambda>_. None)" "contexts s3 = contexts s" "realms s3 = d1" "realmsByContext s3 = d2"
    by (subst s3(5), simp add: f2)+
  have cs: "contexts s p = None" if "p \<noteq> core" for p using c that by blast
  have nb: "next_block s3 = Suc (Suc (Suc (next_block s)))" using s1(5) s2(5) s3(4) by simp
  have ok3: "rt_ok e ?s3"
    by (rule early_ok [OF env]) (use f3 s2(2,3) s3(2,3) nb b cs in \<open>auto simp: is_otm_def\<close>)
  have c3: "contexts ?s3 core \<noteq> None" using c f3(7) by simp
  from upd_context_ok [OF ok3 c3, of "\<lambda>c. c\<lparr>requests := Suc (requests c)\<rparr>"] obtain s4 where
    s4: "JS_BeginRequest core ?s3 = Some s4" "rt_ok e s4" "s4 = ?s3\<lparr>contexts := contexts s4\<rparr>"
    "\<forall>c. contexts s4 c = None \<longleftrightarrow> contexts ?s3 c = None" unfolding JS_BeginRequest_def by blast
  have f4: "asyncCallbacks s4 = NULL" "nodes s4 = (\<lambda>_. None)" "cx_private s4 = (\<lambda>_. None)" "blocks s4 = (\<lambda>_. None)"
    "realm_tab s4 = (\<lambda>_. None)" "realms s4 = d1" "realmsByContext s4 = d2" "next_block s4 = next_block s3"
    by (subst s4(3), simp add: f3)+
  from resetIOHooks_ok [OF env s4(2)] obtain s5 where s5: "gpsee_resetIOHooks e s4 = Some s5" "rt_ok e s5"
    "contexts s5 = contexts s4" "realm_tab s5 = realm_tab s4" "realms s5 = realms s4" "realmsByContext s5 = realmsByContext s4"
    "asyncCallbacks s5 = asyncCallbacks s4" "nodes s5 = nodes s4" "cx_private s5 = cx_private s4" "blocks s5 = blocks s4"
    "next_block s4 \<le> next_block s5" by blast
  let ?s5 = "s5\<lparr>asyncCallbacks := NULL, cp_clock := Suc (cp_clock s5)\<rparr>"
  have ok5: "rt_ok e ?s5"
    by (rule rt_ok_cong [OF s5(2)]) (use s5 f4 in \<open>simp_all add: rt_ok_def\<close>)
  have ae: "async_env_ok e" using env by (simp add: env_ok_def)
  have en: "entries ?s5 c = []" for c by (simp add: entries_def s5 f4)
  have bk: "book_ok (cp_runtime e) ?s5" "sole_owner e ?s5" using ok5 by (auto simp: rt_ok_def async_ok_def)
  have al5: "async_list ?s5 []" "registered e ?s5 []" by (simp_all add: async_list_def registered_def s5 f4)
  from addAsync_ok [OF ae al5 bk(1) al bk(2), of core "maybe_gc e" NULL] obtain s6 where
    s6: "gpsee_addAsyncCallback e core (maybe_gc e) NULL ?s5 = Some (next_block ?s5, s6)"
    "async_list s6 [(next_block ?s5, core, maybe_gc e, NULL)]" "registered e s6 [(next_block ?s5, core, maybe_gc e, NULL)]"
    "book_ok (cp_runtime e) s6" "sole_owner e s6" by (auto simp: insert_item_def)
  note f6 = rt_more [OF addAsync_more [OF ae s6(1)], simplified]
  have nb6: "next_block ?s5 < next_block s6" using s6(2) by (simp add: async_list_def)
  have "async_ok e s6" using s6 by (auto simp: async_ok_def)
  have nb5: "next_block s5 \<le> next_block s6" using nb6 by simp
  have ok6: "rt_ok e s6"
    using ok5 \<open>async_ok e s6\<close> nb5 unfolding rt_ok_def realm_ok_def f6 by simp
  have c6: "contexts s6 core \<noteq> None" using c3 s4(4) s5(3) f6(1) by simp
  from upd_context_ok [OF ok6 c6, of "\<lambda>c. c\<lparr>requests := requests c - 1\<rparr>"] obtain s7 where
    s7: "JS_EndRequest core s6 = Some s7" "rt_ok e s7" "s7 = s6\<lparr>contexts := contexts s7\<rparr>"
    "\<forall>c. contexts s7 c = None \<longleftrightarrow> contexts s6 c = None" unfolding JS_EndRequest_def by blast
  have f7: "realm_tab s7 = Map.empty" "realms s7 = d1" "realmsByContext s7 = d2"
    by (subst s7(3), simp add: f6 s5 f4)+
  have "furnish_runtime e core s = Some s7"
    using al s1(1) s2(1) s3(1) s4(1) s5(1) s6(1) s7(1)
    by (simp add: furnish_runtime_def gpsee_initIOHooks_def malloc_try_def)
  moreover have "dom (contexts s7) = {core}" using s7(4) f6(1) s5(3) s4(4) f3(7) c by (auto simp: dom_def)
  then have "books core s7" using s2(2) by (simp add: books_def f7 spares_def)
  moreover have "realms_listed s7" using s1(2,3) by (simp add: realms_listed_def f7 is_otm_def)
  ultimately show ?thesis using s7(2) f7(1) by blast
qed

lemma monitors_start: "m \<noteq> NULL \<Longrightarrow> \<exists>g. gpsee_initializeMonitorSystem m True True = (True, g) \<and> mon_list g \<noteq> None"
  by (simp add: gpsee_initializeMonitorSystem_def gpsee_ds_create_def ds_create_def GPSEE_DS_UNLOCKED_def)

lemma createRuntime_ok:
  assumes env: "env_ok e" and al: "\<forall>n. malloc_ok e n"
  shows "\<exists>core s. gpsee_createRuntime e = Some (core, s) \<and> rt_ok e s \<and> books core s \<and> realms_listed s
    \<and> realm_tab s = Map.empty"
proof -
  from monitors_start [of 2] obtain g where g: "gpsee_initializeMonitorSystem 2 True True = (True, g)" "mon_list g \<noteq> None" by auto
  let ?c = "\<lparr>requests = 0, cx_global = NULL, initialized = False\<rparr>"
  let ?s = "blank_runtime\<lparr>contexts := Map.empty(1 \<mapsto> ?c), cp_clock := 6, next_block := 3, mons := g\<rparr>"
  have e: "gpsee_createRuntime e = map_option (Pair 1) (furnish_runtime e 1 ?s)"
    using al g(1) by (simp add: gpsee_createRuntime_def malloc_try_def JS_NewContext_def blank_fields eval_nat_numeral)
  have "\<exists>s'. furnish_runtime e 1 ?s = Some s' \<and> rt_ok e s' \<and> books 1 s' \<and> realms_listed s' \<and> realm_tab s' = Map.empty"
    by (rule furnish_runtime_ok [OF env al]) (simp_all add: blank_fields g(2))
  with e show ?thesis by auto
qed

end
