(* ===== verification/RuntimeLife.thy ===== *)
theory RuntimeLife
  imports Runtime
begin

text \<open>
  The life of a runtime from end to end.  When neither the allocator nor the engine fails, the runtime,
  realms, contexts and the interpreter are made; what every run of a runtime keeps, and what its end
  gives back, is stated from the creation of the runtime on.
\<close>

section \<open>An engine that does not fail\<close>

definition engine_works :: "('e) env_scheme \<Rightarrow> bool" where
  "engine_works e \<longleftrightarrow> (\<forall>f n. js_ok e f n)"

lemma call_works: "engine_works e \<Longrightarrow> call e f s = (True, s\<lparr>clock := Suc (clock s)\<rparr>)"
  by (simp add: call_def engine_works_def)

lemma call_new_works:
  "engine_works e \<Longrightarrow> call_new e f s = (next_ptr s, s\<lparr>clock := Suc (clock s), next_ptr := Suc (next_ptr s)\<rparr>)"
  by (simp add: call_def call_new_def engine_works_def)

text \<open>The state in which the scope of \<open>m\<close>, the global object, is furnished.\<close>

definition on_scope :: "ptr \<Rightarrow> ptr \<Rightarrow> mst \<Rightarrow> bool" where
  "on_scope m g s \<longleftrightarrow> handles s m \<noteq> None \<and> globalObject s = g \<and> next_ptr s \<noteq> NULL"

definition works :: "(bool \<times> mst) option \<Rightarrow> bool" where
  "works r \<longleftrightarrow> (\<exists>s. r = Some (True, s))"

named_theorems going \<open>steps that cannot fail when the engine does not\<close>

lemma guard_goes:
  assumes "\<exists>t. r = (True, t) \<and> on_scope m g t" and "\<And>t. on_scope m g t \<Longrightarrow> works (k t)"
  shows "works (guard r k)"
  using assms by (auto simp: guard_def)

lemma define_goes [going]:
  "engine_works e \<Longrightarrow> on_scope m g s \<Longrightarrow> (\<And>t. on_scope m g t \<Longrightarrow> works (k t)) \<Longrightarrow> works (guard (define_property e obj n v a s) k)"
  by (rule guard_goes [where m = m and g = g]) (simp_all add: define_property_def call_works on_scope_def)

lemma slot_goes [going]:
  "engine_works e \<Longrightarrow> on_scope m g s \<Longrightarrow> (\<And>t. on_scope m g t \<Longrightarrow> works (k t)) \<Longrightarrow> works (guard (set_slot e obj i v s) k)"
  by (rule guard_goes [where m = m and g = g]) (simp_all add: set_slot_def call_works on_scope_def)

lemma call_goes [going]:
  "engine_works e \<Longrightarrow> on_scope m g s \<Longrightarrow> (\<And>t. on_scope m g t \<Longrightarrow> works (k t)) \<Longrightarrow> works (guard (call e f s) k)"
  by (rule guard_goes [where m = m and g = g]) (simp_all add: call_works on_scope_def)

lemma path_goes [going]:
  "engine_works e \<Longrightarrow> on_scope m g s \<Longrightarrow> (\<And>t. on_scope m g t \<Longrightarrow> works (k t)) \<Longrightarrow> works (guard (ensure_userModulePath e s) k)"
  by (rule guard_goes [where m = m and g = g]) (simp_all add: ensure_userModulePath_def call_new_works on_scope_def)

lemma info_goes [going]:
  "engine_works e \<Longrightarrow> on_scope m g s \<Longrightarrow> (\<And>t. on_scope m g t \<Longrightarrow> works (k t)) \<Longrightarrow> works (guard (setModuleScopeInfo e sc m' s) k)"
  by (rule guard_goes [where m = m and g = g]) (simp_all add: setModuleScopeInfo_def call_works on_scope_def)

lemma new_goes [going]:
  "engine_works e \<Longrightarrow> on_scope m g s \<Longrightarrow> (\<And>p t. p \<noteq> NULL \<Longrightarrow> on_scope m g t \<Longrightarrow> works (k p t)) \<Longrightarrow>
   works (case call_new e f s of (p, t) \<Rightarrow> k p t)"
  by (simp add: call_new_works on_scope_def)

lemma exports_goes [going]:
  "engine_works e \<Longrightarrow> on_scope m g s \<Longrightarrow> (\<And>p t. p \<noteq> NULL \<Longrightarrow> on_scope m g t \<Longrightarrow> works (k p t)) \<Longrightarrow>
   works (case newModuleExports e sc s of (p, t) \<Rightarrow> k p t)"
  unfolding newModuleExports_def by (rule new_goes)

lemma upd_goes [going]:
  "on_scope m g s \<Longrightarrow> (\<And>t. on_scope m g t \<Longrightarrow> works (k t)) \<Longrightarrow> works (Option.bind (upd_handle m f s) k)"
  by (auto simp: upd_handle_def on_scope_def)

lemma not_NULL_goes [going]: "p \<noteq> NULL \<Longrightarrow> works r \<Longrightarrow> works (if p = NULL then r' else r)"
  by simp

lemma handle_goes [going]: "on_scope m g s \<Longrightarrow> (\<And>h. works (k h)) \<Longrightarrow> works (Option.bind (handles s m) k)"
  by (auto simp: on_scope_def)

lemma main_goes [going]:
  "on_scope m g s \<Longrightarrow> (\<And>t. on_scope m g t \<Longrightarrow> works (k t)) \<Longrightarrow>
   works (let s = if b then s\<lparr>requireDotMain := o'\<rparr> else s in k s)"
  by (simp add: on_scope_def)

lemma id_goes [going]: "engine_works e \<Longrightarrow> works (Some (define_property e obj n v a s))"
  by (simp add: works_def define_property_def call_works)

lemma props_goes: "on_scope m g (s\<lparr>props := p\<rparr>) = on_scope m g s"
  by (simp add: on_scope_def)

lemma module_globals_work [going]:
  assumes e: "engine_works e"
  shows "on_scope m g s \<Longrightarrow> works (define_module_globals e m sc require attrs s)"
  unfolding define_module_globals_def by (rule going e | assumption)+

lemma scope_of_global_works [going]:
  assumes e: "engine_works e"
  shows "on_scope m g s \<Longrightarrow> works (initializeModuleScope e m g True s)"
proof -
  assume s: "on_scope m g s"
  have skip: "(if g \<noteq> globalObject t then r else (True, t)) = (True, t)" if "on_scope m g t" for r and t :: mst
    using that by (simp add: on_scope_def)
  have first: "works (guard (True, t) k)" if "works (k t)" for k and t :: mst using that by (simp add: guard_def)
  show ?thesis
    unfolding initializeModuleScope_def Let_def
    by (rule info_goes [OF e s], simp only: skip, rule first, simp only: skip, rule first,
        rule new_goes [OF e], assumption, rule not_NULL_goes, assumption, rule module_globals_work [OF e], simp only: props_goes)
qed

lemma findModuleHandle_Leaf: "modules s = Leaf \<Longrightarrow> findModuleHandle n s = (NULL, s)"
  by (simp add: findModuleHandle_def SPLAY_FIND_def)

lemma acquire_first:
  assumes e: "engine_works e" and m: "modules s = Leaf" "g \<noteq> NULL" "next_ptr s \<noteq> NULL"
  shows "\<exists>s'. acquireModuleHandle e n g s = Some (next_ptr s, s') \<and> on_scope (next_ptr s) (globalObject s) s'"
  using m by (simp add: acquireModuleHandle_def findModuleHandle_Leaf call_works [OF e] call_new_works [OF e]
      upd_handle_def Let_def on_scope_def)

lemma modulizeGlobal_works:
  assumes e: "engine_works e" and m: "modules s = Leaf" "globalObject s \<noteq> NULL" "next_ptr s \<noteq> NULL"
    and l: "l \<noteq> []" "hd l \<noteq> CHR ''/''"
  shows "works (gpsee_modulizeGlobal e (globalObject s) (Some l) ident s)"
proof -
  let ?s = "s\<lparr>clock := Suc (clock s)\<rparr>"
  have s: "modules ?s = Leaf" "globalObject ?s \<noteq> NULL" "next_ptr ?s \<noteq> NULL" using m by simp_all
  define n where "n = ''__'' @ l @ '':'' @ decimal (if ident = 0 then globalObject s else ident) @ ''__''"
  from acquire_first [OF e s, of n] obtain t where t: "acquireModuleHandle e n (globalObject s) ?s = Some (next_ptr s, t)"
    "on_scope (next_ptr s) (globalObject s) t" by auto
  from scope_of_global_works [OF e t(2)] show ?thesis
    unfolding gpsee_modulizeGlobal_def Let_def option.case n_def [symmetric] using l m t(1) by (simp add: call_works [OF e])
qed

lemma initGlobalObject_works:
  assumes e: "engine_works e" and m: "modules s = Leaf" "globalObject s \<noteq> NULL" "next_ptr s \<noteq> NULL"
  shows "works (gpsee_initGlobalObject e (globalObject s) s)"
proof -
  let ?p = "(props s)(globalObject s := (props s (globalObject s))(''gpseeNamespace'' \<mapsto> (STRING_TO_JSVAL ''gpsee'', 0)))"
  let ?s = "s\<lparr>props := ?p, clock := Suc (Suc (Suc (clock s)))\<rparr>"
  have "modules ?s = Leaf" "globalObject ?s \<noteq> NULL" "next_ptr ?s \<noteq> NULL" using m by simp_all
  from modulizeGlobal_works [OF e this, of "''gpsee_initGlobalObject''" 0] show ?thesis
    by (simp add: gpsee_initGlobalObject_def call_works [OF e] define_property_def)
qed

lemma alloc_nodes_works: "engine_works e \<Longrightarrow> \<exists>s'. alloc_nodes e ds s = Some s' \<and> modules s' = modules s
    \<and> globalObject s' = globalObject s \<and> next_ptr s' = next_ptr s"
proof (induction ds arbitrary: s)
  case (Cons d ds)
  from Cons(1) [of "s\<lparr>clock := Suc (Suc (clock s)), modulePath := modulePath s @ [d]\<rparr>"] Cons(2) show ?case
    by (simp add: call_works)
qed simp

lemma initializeModuleSystem_works:
  assumes e: "engine_works e" and g: "mon_list g \<noteq> None" and m: "next_ptr s \<noteq> NULL"
  shows "\<exists>s' g' gcs'. gpsee_initializeModuleSystem e envpath jail dir realm cb s g gcs = Some (True, s', g', gcs')
    \<and> modules s' = Leaf \<and> globalObject s' = globalObject s \<and> next_ptr s' \<noteq> NULL"
proof -
  let ?s = "s\<lparr>moduleJail := jail, modules := Leaf, modulePath := [dir], clock := Suc (Suc (Suc (clock s)))\<rparr>"
  let ?t = "if envpath = None then ?s else ?s\<lparr>clock := Suc (clock ?s)\<rparr>"
  obtain u where u: "(case envpath of None \<Rightarrow> Some ?t | Some p \<Rightarrow> alloc_nodes e (path_tokens p []) ?t) = Some u"
    "modules u = Leaf" "globalObject u = globalObject s" "next_ptr u = next_ptr s"
    using alloc_nodes_works [OF e, of _ ?t] by (cases envpath) auto
  from g obtain l where "mon_list g = Some l" by blast
  with u m show ?thesis
    by (cases envpath) (auto simp: gpsee_initializeModuleSystem_def call_works [OF e] call_new_works [OF e] Let_def
        gpsee_ds_create_def ds_create_def gpsee_createMonitor_def gpsee_addGCCallback_def gpsee_ds_put_def
        split: option.split prod.split)
qed


section \<open>Making a realm and a context\<close>

lemma put_works: "\<exists>st tr. gpsee_ds_put True d k v = (True, st, tr)"
  by (cases "if is_otm d then None else slots_put (ds_data d) k v") (auto simp: gpsee_ds_put_def Let_def)

lemma start_modules_works:
  assumes e: "engine_works (realm_env e)" and g: "mon_list (mons s) \<noteq> None" and r: "realm_tab s realm = Some r"
    and m: "globalObject (r_mst r) \<noteq> NULL" "next_ptr (r_mst r) \<noteq> NULL" and c: "contexts s cx \<noteq> None"
  shows "\<exists>s'. start_modules e cx realm s = Some (realm, s')"
proof -
  from initializeModuleSystem_works [OF e g m(2), of "env_path e" "cfg_jail e" "cfg_libexec e" realm "module_gc e" "gcCallbackList s"]
  obtain m1 g' gcs' where i: "gpsee_initializeModuleSystem (realm_env e) (env_path e) (cfg_jail e) (cfg_libexec e) realm
      (module_gc e) (r_mst r) (mons s) (gcCallbackList s) = Some (True, m1, g', gcs')"
    "modules m1 = Leaf" "globalObject m1 \<noteq> NULL" "next_ptr m1 \<noteq> NULL" using m(1) by auto
  from initGlobalObject_works [OF e i(2-4)] obtain m2 where
    "gpsee_initGlobalObject (realm_env e) (globalObject m1) m1 = Some (True, m2)" by (auto simp: works_def)
  with c show ?thesis
    by (auto simp: start_modules_def r i(1) on_mst_def Let_def upd_realm_def JS_EndRequest_def upd_context_def
        leave_auto_def record_calls_def)
qed

lemma furnish_realm_works:
  assumes e: "engine_works (realm_env e)" and al: "\<forall>n. malloc_ok e n" and g: "mon_list (mons s) \<noteq> None"
    and r: "realm_tab s realm = Some r" and m: "next_ptr (r_mst r) \<noteq> NULL" and c: "contexts s cx \<noteq> None"
  shows "\<exists>s'. furnish_realm e cx realm s = Some (realm, s')"
proof -
  let ?m = "r_mst r"
  let ?r = "r\<lparr>r_mst := ?m\<lparr>globalObject := next_ptr ?m, clock := Suc (Suc (clock ?m)), next_ptr := Suc (Suc (next_ptr ?m))\<rparr>,
    r_moduleObjectProto := Suc (next_ptr ?m)\<rparr>"
  from put_works obtain st tr where put: "gpsee_ds_put True (realms s) realm NULL = (True, st, tr)" by blast
  let ?s = "record_calls tr (s\<lparr>realm_tab := (realm_tab s)(realm \<mapsto> ?r), roots := realm # roots s, cp_clock := Suc (cp_clock s),
    realms := st\<rparr>)"
  have "\<exists>s'. start_modules e cx realm ?s = Some (realm, s')"
    by (rule start_modules_works [OF e, of _ _ ?r]) (use g c m in \<open>simp_all add: record_calls_def\<close>)
  with m al put show ?thesis
    by (simp add: furnish_realm_def on_mst_def upd_realm_def r call_new_works [OF e] malloc_try_def Let_def)
qed

lemma createRealm_works:
  assumes env: "env_ok e" and ok: "rt_ok e s" and al: "\<forall>n. malloc_ok e n" and e: "engine_works (realm_env e)"
  shows "\<exists>realm s'. gpsee_createRealm e s = Some (realm, s') \<and> realm \<noteq> NULL"
proof -
  obtain cx s1 where n: "JS_NewContext e s = (cx, s1)" by fastforce
  have nb: "0 < next_block s" using ok by (auto simp: rt_ok_def async_ok_def book_ok_def)
  then have cx: "cx \<noteq> NULL" using n al by (auto simp: JS_NewContext_def malloc_try_def)
  from new_context_ok [OF ok] n cx have n1: "rt_ok e s1" "contexts s1 cx \<noteq> None" by auto
  from upd_context_ok [OF n1, of "\<lambda>c. c\<lparr>requests := Suc (requests c)\<rparr>"] obtain s2 where
    s2: "JS_BeginRequest cx s1 = Some s2" "rt_ok e s2" "contexts s2 cx \<noteq> None" unfolding JS_BeginRequest_def by blast
  have "mon_list (mons s2) \<noteq> None" using s2(2) by (simp add: rt_ok_def)
  from enter_monitors(1) [OF this, of e] obtain s3 where s3: "enter_realms e s2 = Some s3" "monitors_only s2 s3" by blast
  have c3: "contexts s3 cx \<noteq> None" using s2(3) s3(2) by (simp add: monitors_only_def)
  have ok3: "rt_ok e s3" by (rule monitors_only_ok [OF s2(2) s3(2)])
  then have nb3: "0 < next_block s3" and "mon_list (mons s3) \<noteq> None" by (auto simp: rt_ok_def async_ok_def book_ok_def)
  then obtain l where l: "mon_list (mons s3) = Some l" by blast
  let ?p = "next_block s3"
  have "\<exists>d g tr. gpsee_ds_create True True (Suc ?p) True NULL (mons s3) GPSEE_DS_OTM_KEYS 0 = Some (Some d, g, tr) \<and> mon_list g \<noteq> None"
    using l by (auto simp: gpsee_ds_create_def ds_create_def gpsee_createMonitor_def GPSEE_DS_UNLOCKED_def GPSEE_DS_OTM_KEYS_def
        split: prod.split)
  then obtain d g tr where d: "gpsee_ds_create True True (Suc ?p) True NULL (mons s3) GPSEE_DS_OTM_KEYS 0 = Some (Some d, g, tr)"
    "mon_list g \<noteq> None" by blast
  let ?r = "memset_realm\<lparr>r_pendingWrites := Some d\<rparr>"
  let ?t = "s3\<lparr>cp_clock := Suc (Suc (Suc (cp_clock s3))), next_block := Suc (Suc ?p), mons := g, pr_calls := pr_calls s3 @ tr,
      realm_tab := (realm_tab s3)(?p \<mapsto> ?r)\<rparr>"
  have "\<exists>s'. furnish_realm e cx ?p ?t = Some (?p, s')"
    by (rule furnish_realm_works [OF e al, of _ _ ?r]) (use d(2) c3 in \<open>simp_all add: memset_realm_def\<close>)
  then have "\<exists>s'. gpsee_createRealm e s = Some (?p, s')"
    using n cx s2(1) s3(1) al d(1)
    by (simp add: gpsee_createRealm_def malloc_try_def Let_def upd_realm_def record_calls_def)
  with nb3 show ?thesis by blast
qed

lemma createContext_works:
  assumes env: "env_ok e" and ok: "rt_ok e s" and al: "\<forall>n. malloc_ok e n" and r: "realm_tab s realm \<noteq> None"
  shows "\<exists>cx s'. gpsee_createContext e realm s = Some (cx, s') \<and> cx \<noteq> NULL"
proof -
  from r obtain x where x: "realm_tab s realm = Some x" by blast
  have nz: "realm \<noteq> NULL" by (rule notI) (use ok r in \<open>simp add: rt_ok_def\<close>)
  have ml: "mon_list (mons s) \<noteq> None" using ok by (simp add: rt_ok_def)
  from enter_monitors(2) [OF ml, of e] obtain s1 where s1: "enter_cx e s = Some s1" "monitors_only s s1" by blast
  have ok1: "rt_ok e s1" by (rule monitors_only_ok [OF ok s1(2)])
  have x1: "realm_tab s1 realm = Some x" using x s1(2) by (simp add: monitors_only_def)
  obtain cx s2 where p: "(if r_cachedCx x \<noteq> NULL
      then (r_cachedCx x, s1\<lparr>realm_tab := (realm_tab s1)(realm \<mapsto> x\<lparr>r_cachedCx := NULL\<rparr>)\<rparr>) else JS_NewContext e s1) = (cx, s2)"
    by fastforce
  have nb: "0 < next_block s1" using ok1 by (auto simp: rt_ok_def async_ok_def book_ok_def)
  then have cx: "cx \<noteq> NULL" using p al by (auto simp: JS_NewContext_def malloc_try_def split: if_splits)
  from pick_context [OF ok1 x1 p cx] have c2: "contexts s2 cx \<noteq> None" by blast
  from put_works obtain st tr where put: "gpsee_ds_put True (realmsByContext s2) cx realm = (True, st, tr)" by blast
  let ?s3 = "record_calls tr (s2\<lparr>cp_clock := Suc (cp_clock s2), realmsByContext := st\<rparr>)"
  have "\<exists>t. Option.bind (JS_BeginRequest cx (leave_auto (mon_cx ?s3) ?s3)) (\<lambda>s.
        Option.bind (upd_context cx (\<lambda>c. c\<lparr>cx_global := globalObject (r_mst x), initialized := True\<rparr>) s) (\<lambda>s.
        Some (cx, s\<lparr>operation_set := (operation_set s)(cx := True)\<rparr>))) = Some (cx, t)"
    using c2 by (auto simp: JS_BeginRequest_def upd_context_def leave_auto_def record_calls_def)
  then have "\<exists>t. gpsee_createContext e realm s = Some (cx, t)"
    unfolding gpsee_createContext_def using cx al put
    by (simp only: nz x s1(1) p bind.bind_lunit if_False prod.case) (simp add: malloc_try_def Let_def)
  with cx show ?thesis by blast
qed

text \<open>What \<open>gpsee_getRealm\<close> finds for a context without a realm of its own scope.\<close>

lemma getRealm_filed:
  assumes m: "mon_list (mons s) \<noteq> None" and c: "scope_realm e cx = NULL"
  shows "\<exists>t. gpsee_getRealm e cx s = Some (slots_get (filed s) cx, slots_get (filed s) cx = NULL, t)"
proof -
  from enter_monitors(1) [OF m, of e] obtain t where t: "enter_realms e s = Some t" "monitors_only s t" by blast
  then have "realmsByContext t = realmsByContext s" by (simp add: monitors_only_def)
  with t(1) c show ?thesis by (simp add: gpsee_getRealm_def getRealm_def gpsee_ds_get_def)
qed

lemma context_life:
  assumes env: "env_ok e" and ok: "rt_ok e s" and al: "\<forall>n. malloc_ok e n" and r: "realm_tab s realm \<noteq> None"
    and sc: "\<And>c. scope_realm e c = NULL"
  shows "\<exists>cx t u v w. gpsee_createContext e realm s = Some (cx, t) \<and> cx \<noteq> NULL
    \<and> gpsee_getRealm e cx t = Some (realm, False, u)
    \<and> gpsee_destroyContext e cx u = Some v \<and> gpsee_getRealm e cx v = Some (NULL, True, w)"
proof -
  have ae: "async_env_ok e" using env by (simp add: env_ok_def)
  from r obtain x where x: "realm_tab s realm = Some x" by blast
  have nz: "realm \<noteq> NULL" by (rule notI) (use ok r in \<open>simp add: rt_ok_def\<close>)
  from createContext_works [OF env ok al r] obtain cx t where t: "gpsee_createContext e realm s = Some (cx, t)" "cx \<noteq> NULL" by blast
  from createContext_ok [OF ae ok x t(1)] t(2) have t': "rt_ok e t" "slots_get (filed t) cx = realm" "cx \<in> filed_contexts t" by auto
  have mt: "mon_list (mons t) \<noteq> None" using t'(1) by (simp add: rt_ok_def)
  from getRealm_filed [OF mt sc, of cx] t'(2) nz obtain u where u: "gpsee_getRealm e cx t = Some (realm, False, u)" by auto
  note cu = getRealm_calm [OF mt u]
  have oku: "rt_ok e u" by (rule calm_ok [OF env t'(1) cu])
  have fu: "filed u = filed t" using cu by (simp add: calm_step_def)
  then have "cx \<in> filed_contexts u" using t'(3) by simp
  from destroyContext_ok [OF ae oku this] obtain v where v: "gpsee_destroyContext e cx u = Some v" "rt_ok e v"
    "filed v = snd (slots_remove (filed u) cx)" by blast
  have mv: "mon_list (mons v) \<noteq> None" using v(2) by (simp add: rt_ok_def)
  have "distinct (used_keys (filed u))" using oku by (simp add: rt_ok_def)
  then have "set (used_keys (filed v)) = filed_contexts u - {cx}" using t(2) by (simp add: v(3) slots_remove_used)
  then have "cx \<notin> fst ` set (filed v)" using t(2) by (auto simp: set_used_keys)
  then have "slots_get (filed v) cx = NULL" by (rule slots_get_notin)
  with getRealm_filed [OF mv sc, of cx] have "\<exists>w. gpsee_getRealm e cx v = Some (NULL, True, w)" by simp
  with t u v(1) show ?thesis by blast
qed

section \<open>What holds in every run\<close>

lemma run_books:
  assumes "env_ok e" and "\<forall>n. malloc_ok e n" and "gpsee_createRuntime e = Some (core, s)" and "rt_run e s t"
  shows "rt_ok e t" and "books core t" and "realms_listed t"
proof -
  from createRuntime_ok [OF assms(1,2)] assms(3) have "rt_ok e s \<and> books core s \<and> realms_listed s" by auto
  from run_keeps [OF assms(1,4) this] show "rt_ok e t" "books core t" "realms_listed t" by blast+
qed

text \<open>A run of the calm environment in which a realm was made.\<close>

lemma calm_run:
  "\<exists>core s t realm. gpsee_createRuntime calm_env = Some (core, s) \<and> rt_run calm_env s t \<and> realm_tab t realm \<noteq> None"
proof -
  have e: "engine_works (realm_env calm_env)" by (simp add: engine_works_def calm_env_def ModuleScope.env_ok_def)
  from createRuntime_ok [OF calm_env_ok calm_env_malloc] obtain core s where
    s: "gpsee_createRuntime calm_env = Some (core, s)" "rt_ok calm_env s" by blast
  from createRealm_works [OF calm_env_ok s(2) calm_env_malloc e] obtain realm t where
    t: "gpsee_createRealm calm_env s = Some (realm, t)" "realm \<noteq> NULL" by blast
  from createRealm_ok [OF calm_env_ok s(2) t] have "realm_tab t realm \<noteq> None" by auto
  moreover have "rt_run calm_env s t" using rt_step.make_realm [OF t] by (rule r_into_rtranclp)
  ultimately show ?thesis using s(1) by blast
qed





text \<open>C13: Destroying a realm before the end of the runtime works, but \<open>gpsee_destroyRuntime\<close> then uses
  freed memory: the realm is still in the list of the runtime, and is destroyed a second time.\<close>

theorem destroyed_realm_breaks_destroyRuntime:
  assumes "env_ok e" and "\<forall>n. malloc_ok e n" and "gpsee_createRuntime e = Some (core, s)" and "rt_run e s t"
    and "realm_tab t realm \<noteq> None"
  shows "\<exists>u. gpsee_destroyRealm e core realm t = Some (True, u) \<and> realm_tab u realm = None
    \<and> gpsee_destroyRuntime e core u = None"
proof -
  note b = run_books [OF assms(1-4)]
  from assms(5) obtain r where r: "realm_tab t realm = Some r" by blast
  from destroyRealm_books [OF assms(1) b(1,2) r] obtain u where u: "gpsee_destroyRealm e core realm t = Some (True, u)"
    "rt_ok e u" "books core u" "dom (realm_tab u) = dom (realm_tab t) - {realm}" "realms u = realms t" by blast
  have "realm \<in> listed u" using b(3) r u(5) by (auto simp: realms_listed_def)
  moreover have "realm_tab u realm = None" using u(4) by blast
  ultimately show ?thesis using destroyRuntime_crash [OF assms(1) u(2,3)] u(1) by blast
qed

theorem destroyed_realm_breaks_destroyRuntime_witness:
  "\<exists>core s t realm u. gpsee_createRuntime calm_env = Some (core, s) \<and> rt_run calm_env s t
     \<and> gpsee_destroyRealm calm_env core realm t = Some (True, u) \<and> gpsee_destroyRuntime calm_env core u = None"
proof -
  from calm_run obtain core s t realm where r: "gpsee_createRuntime calm_env = Some (core, s)" "rt_run calm_env s t"
    "realm_tab t realm \<noteq> None" by blast
  from destroyed_realm_breaks_destroyRuntime [OF calm_env_ok calm_env_malloc r] r(1,2) show ?thesis by blast
qed

text \<open>C12: Destroying a realm ends exactly its own contexts - those filed under it and its spare one -
  and frees it; no callback of the collector is left for it, and the other realms stay.  Output
  that was postponed, and a collection, are taken care of on the way.\<close>

theorem destroyRealm_ends_what_it_owns:
  assumes "env_ok e" and "\<forall>n. malloc_ok e n" and "gpsee_createRuntime e = Some (core, s)" and "rt_run e s t"
    and "realm_tab t realm = Some r"
  shows "\<exists>u. gpsee_destroyRealm e core realm t = Some (True, u) \<and> dom (realm_tab u) = dom (realm_tab t) - {realm}
    \<and> dom (contexts u) = dom (contexts t) - ({c. (c, realm) \<in> set (filed t)} \<union> {r_cachedCx r})
    \<and> realm \<notin> snd ` {x \<in> set (filed u). fst x \<noteq> NULL}
    \<and> realm \<notin> snd ` {x \<in> set (ds_data (gcCallbackList u)). fst x \<noteq> NULL}"
proof -
  note b = run_books [OF assms(1-4)]
  from destroyRealm_ok [OF assms(1) b(1) assms(5) core_foreign [OF b(1,2) assms(5)]] obtain u where
    u: "gpsee_destroyRealm e core realm t = Some (True, u)" "dom (realm_tab u) = dom (realm_tab t) - {realm}"
    "filed u = map (drop_realm realm) (filed t)"
    "\<forall>c. contexts u c = None \<longleftrightarrow> contexts t c = None \<or> (c, realm) \<in> set (filed t) \<or> c = r_cachedCx r"
    "\<forall>x \<in> set (ds_data (gcCallbackList u)). fst x \<noteq> NULL \<longrightarrow> x \<in> set (ds_data (gcCallbackList t)) \<and> snd x \<noteq> realm" by blast
  from u(4) have "dom (contexts u) = dom (contexts t) - ({c. (c, realm) \<in> set (filed t)} \<union> {r_cachedCx r})"
    unfolding dom_def by auto
  moreover have "realm \<notin> snd ` {x \<in> set (filed u). fst x \<noteq> NULL}"
    unfolding u(3) using dropped by fastforce
  moreover have "realm \<notin> snd ` {x \<in> set (ds_data (gcCallbackList u)). fst x \<noteq> NULL}" using u(5) by blast
  ultimately show ?thesis using u(1,2) by blast
qed

theorem destroyRealm_ends_what_it_owns_witness:
  "\<exists>core s t realm r u. gpsee_createRuntime calm_env = Some (core, s) \<and> rt_run calm_env s t \<and> realm_tab t realm = Some r
     \<and> gpsee_destroyRealm calm_env core realm t = Some (True, u) \<and> r_cachedCx r \<notin> dom (contexts u)"
proof -
  from calm_run obtain core s t realm where r: "gpsee_createRuntime calm_env = Some (core, s)" "rt_run calm_env s t"
    "realm_tab t realm \<noteq> None" by blast
  then obtain x where x: "realm_tab t realm = Some x" by blast
  from destroyRealm_ends_what_it_owns [OF calm_env_ok calm_env_malloc r(1,2) x] obtain u where
    u: "gpsee_destroyRealm calm_env core realm t = Some (True, u)"
    "dom (contexts u) = dom (contexts t) - ({c. (c, realm) \<in> set (filed t)} \<union> {r_cachedCx x})" by (elim exE conjE) blast
  have "r_cachedCx x \<notin> dom (contexts u)" unfolding u(2) by simp
  with r(1,2) x u(1) show ?thesis by (intro exI conjI)
qed

text \<open>A context made for a realm finds that realm until it is destroyed, and none after that.  (A
  context with a scope chain of its own would ask that first; here it has none.)\<close>

theorem context_finds_its_realm:
  assumes "env_ok e" and "\<forall>n. malloc_ok e n" and "gpsee_createRuntime e = Some (core, s)" and "rt_run e s t"
    and "realm_tab t realm \<noteq> None" and "\<And>c. scope_realm e c = NULL"
  shows "\<exists>cx t' u v w. gpsee_createContext e realm t = Some (cx, t') \<and> cx \<noteq> NULL
    \<and> gpsee_getRealm e cx t' = Some (realm, False, u)
    \<and> gpsee_destroyContext e cx u = Some v \<and> gpsee_getRealm e cx v = Some (NULL, True, w)"
  by (rule context_life [OF assms(1) run_books(1) [OF assms(1-4)] assms(2,5,6)])

theorem context_finds_its_realm_witness:
  "\<exists>core s t realm cx t' u. gpsee_createRuntime calm_env = Some (core, s) \<and> rt_run calm_env s t
     \<and> gpsee_createContext calm_env realm t = Some (cx, t') \<and> gpsee_getRealm calm_env cx t' = Some (realm, False, u)"
proof -
  from calm_run obtain core s t realm where r: "gpsee_createRuntime calm_env = Some (core, s)" "rt_run calm_env s t"
    "realm_tab t realm \<noteq> None" by blast
  have "scope_realm calm_env c = NULL" for c by (simp add: calm_env_def)
  from context_finds_its_realm [OF calm_env_ok calm_env_malloc r this] r(1,2) show ?thesis by blast
qed



end
