(* ===== verification/Base64.thy ===== *)
theory Base64
  imports Prelude "HOL-Library.Monad_Syntax"
begin

text \<open>
  The base-64 routines of modules/binary/base64.c.  Text is a \<open>string\<close> without its NUL,
  binary data a list of \<open>byte\<close>s.  The result \<open>None\<close> is an access outside an object
  (or through the NULL output pointer).  \<open>b64_spec\<close> is the reference encoder (RFC 2045)
  against which the code's buffer manipulation is checked.
\<close>

section \<open>The code\<close>

definition B64_ALPHABET :: string where
  "B64_ALPHABET = ''ABCDEFGHIJKLMNOPQRSTUVWXYZabcdefghijklmnopqrstuvwxyz0123456789+/=''"

definition EOF :: int where
  "EOF = -1"

text \<open>Indexing the alphabet; the array also holds its NUL.\<close>

definition alphabet_at :: "int \<Rightarrow> char option" where
  "alphabet_at i = (if i < 0 then None else mem_load (B64_ALPHABET @ [NUL]) (nat i))"

fun b64_encode_3bytes :: "int list \<Rightarrow> string option" where
  "b64_encode_3bytes [c0, c1, c2] =
     do { e0 \<leftarrow> alphabet_at (drop_bit 2 c0);
          if c1 = EOF then
            do { e1 \<leftarrow> alphabet_at (push_bit 4 (c0 AND 3));
                 Some [e0, e1, CHR ''='', CHR ''='']}
          else
            do { e1 \<leftarrow> alphabet_at (push_bit 4 (c0 AND 3) OR drop_bit 4 c1);
                 if c2 = EOF then
                   do { e2 \<leftarrow> alphabet_at (push_bit 2 (c1 AND 15));
                        Some [e0, e1, e2, CHR ''='']}
                 else
                   do { e2 \<leftarrow> alphabet_at (push_bit 2 (c1 AND 15) OR drop_bit 6 c2);
                        e3 \<leftarrow> alphabet_at (c2 AND 63);
                        Some [e0, e1, e2, e3]}}}"
| "b64_encode_3bytes _ = None"

text \<open>\<open>memcpy(out + outLen, b64_encode_3bytes(c), 4)\<close> under \<open>if (out)\<close>.\<close>

definition put_quartet :: "int list \<Rightarrow> nat \<Rightarrow> char list option \<Rightarrow> char list option option" where
  "put_quartet c outLen out =
     (case out of
        None \<Rightarrow> Some None
      | Some buf \<Rightarrow>
          do { q \<leftarrow> b64_encode_3bytes c; buf' \<leftarrow> store_block buf outLen q; Some (Some buf') })"

text \<open>The loop over the input; the result is the final \<open>i\<close>, \<open>c\<close>, \<open>outLen\<close> and \<open>out\<close>.\<close>

fun b64_enc_loop :: "byte list \<Rightarrow> nat \<Rightarrow> int list \<Rightarrow> nat \<Rightarrow> char list option \<Rightarrow>
    (nat \<times> int list \<times> nat \<times> char list option) option" where
  "b64_enc_loop [] i c outLen out = Some (i, c, outLen, out)"
| "b64_enc_loop (b # bs) i c outLen out =
     (if i \<noteq> 0 \<and> i mod 3 = 0
      then do { out' \<leftarrow> put_quartet c outLen out;
                b64_enc_loop bs (Suc i) (c[i mod 3 := uint b]) (outLen + 4) out' }
      else b64_enc_loop bs (Suc i) (c[i mod 3 := uint b]) outLen out)"

text \<open>\<open>c\<close> holds the uninitialised contents of the local array; \<open>out = None\<close> is NULL.\<close>

definition b64_finish ::
    "nat \<times> int list \<times> nat \<times> char list option \<Rightarrow> (nat \<times> char list option) option" where
  "b64_finish = (\<lambda>(i, c, outLen, out).
     do { let c = (if i mod 3 = 1 then c[1 := 0, 2 := 0]
                   else if i mod 3 = 2 then c[2 := 0] else c);
          out \<leftarrow> put_quartet c outLen out;
          buf \<leftarrow> out;
          if i mod 3 = 0 then
            do { buf \<leftarrow> mem_store buf (outLen + 4) NUL; Some (outLen, Some buf) }
          else
            do { buf \<leftarrow> (if i mod 3 = 1 then mem_store buf (outLen + 2) CHR ''='' else Some buf);
                 buf \<leftarrow> mem_store buf (outLen + 3) CHR ''='';
                 buf \<leftarrow> mem_store buf (outLen + 4) NUL;
                 Some (outLen + (i mod 3) + 1, Some buf) } })"

definition binary_to_b64 ::
    "int list \<Rightarrow> byte list \<Rightarrow> char list option \<Rightarrow> (nat \<times> char list option) option" where
  "binary_to_b64 c inp out = Option.bind (b64_enc_loop inp 0 c 0 out) b64_finish"

text \<open>The decoder: \<open>i\<close> is \<open>b64_p - b64\<close> and \<open>p\<close> is \<open>buf_p - buf\<close>.\<close>

fun b64_dec_loop :: "string \<Rightarrow> nat \<Rightarrow> byte \<Rightarrow> nat \<Rightarrow> byte list \<Rightarrow> (nat \<times> byte list) option" where
  "b64_dec_loop [] i leftover p buf = Some (p, buf)"
| "b64_dec_loop (ch # rest) i leftover p buf =
     (case strchr B64_ALPHABET ch of
        None \<Rightarrow> Some (p, buf)
      | Some a \<Rightarrow>
          (let v = of_nat a :: byte in
           if ch = CHR ''='' then
             (if i mod 4 = 1 then map_option (Pair (p + 1)) (mem_store buf p leftover)
              else Some (p, buf))
           else if i mod 4 = 0 then b64_dec_loop rest (Suc i) (push_bit 2 v) p buf
           else
             (let (emit, leftover') =
                (if i mod 4 = 1 then (drop_bit 4 v OR leftover, push_bit 4 v)
                 else if i mod 4 = 2 then (drop_bit 2 v OR leftover, push_bit 6 v)
                 else (v OR leftover, 0))
              in do { buf' \<leftarrow> mem_store buf p emit;
                      b64_dec_loop rest (Suc i) leftover' (p + 1) buf' })))"

text \<open>\<open>fresh n\<close> is the content of a newly allocated block of \<open>n\<close> bytes; the allocation
  succeeds.  The result is the number of bytes and the buffer.\<close>

definition b64_to_binary ::
    "(nat \<Rightarrow> byte list) \<Rightarrow> string \<Rightarrow> byte list option \<Rightarrow> (nat \<times> byte list) option" where
  "b64_to_binary fresh b64 buf =
     (let buf = (case buf of None \<Rightarrow> fresh (length b64 * 6 div 8 + 1) | Some b \<Rightarrow> b)
      in do { buf \<leftarrow> mem_store buf 0 0; b64_dec_loop b64 0 0 0 buf })"

section \<open>Reference encoder\<close>

definition sextet :: "int \<Rightarrow> char" where
  "sextet v = B64_ALPHABET ! nat v"

fun b64_spec :: "byte list \<Rightarrow> string" where
  "b64_spec [] = []"
| "b64_spec [a] =
     [sextet (drop_bit 2 (uint a)), sextet (push_bit 4 (uint a AND 3)), CHR ''='', CHR ''='']"
| "b64_spec [a, b] =
     [sextet (drop_bit 2 (uint a)), sextet (push_bit 4 (uint a AND 3) OR drop_bit 4 (uint b)),
      sextet (push_bit 2 (uint b AND 15)), CHR ''='']"
| "b64_spec (a # b # c # rest) =
     sextet (drop_bit 2 (uint a)) # sextet (push_bit 4 (uint a AND 3) OR drop_bit 4 (uint b))
     # sextet (push_bit 2 (uint b AND 15) OR drop_bit 6 (uint c)) # sextet (uint c AND 63)
     # b64_spec rest"

text \<open>The return value of the encoder: the characters before the padding, without the last
  quartet when the input is a multiple of three bytes long.\<close>

definition b64_result_len :: "nat \<Rightarrow> nat" where
  "b64_result_len n =
     (if n mod 3 = 0 then 4 * (n div 3) - 4 else 4 * (n div 3) + n mod 3 + 1)"

section \<open>Encoding meets the reference\<close>

lemma length_alphabet [simp]: "length B64_ALPHABET = 65"
  by (simp add: B64_ALPHABET_def)

lemma alphabet_at_sextet: "0 \<le> v \<Longrightarrow> v < 64 \<Longrightarrow> alphabet_at v = Some (sextet v)"
  by (simp add: alphabet_at_def sextet_def mem_load_def nth_append nat_less_iff)

lemma sextet_bounds:
  fixes a b :: byte
  shows "drop_bit 2 (uint a) < 64" and "push_bit 4 (uint a AND 3) < 64"
    and "push_bit 4 (uint a AND 3) OR drop_bit 4 (uint b) < 64"
    and "push_bit 2 (uint a AND 15) < 64"
    and "push_bit 2 (uint a AND 15) OR drop_bit 6 (uint b) < 64"
    and "uint a AND 63 < 64"
proof -
  have u: "uint x < 256" "0 \<le> uint x" for x :: byte using uint_lt2p [of x] by simp_all
  have m: "uint a AND 3 < 4" "uint a AND 15 < 16" "uint a AND 63 < 64"
    using AND_upper2' [of 3 4 "uint a"] AND_upper2' [of 15 16 "uint a"]
      AND_upper2' [of 63 64 "uint a"] by simp_all
  show 1: "drop_bit 2 (uint a) < 64" using u(1) [of a] by (simp add: drop_bit_eq_div)
  show 2: "push_bit 4 (uint a AND 3) < 64" using m by (simp add: push_bit_eq_mult)
  show 4: "push_bit 2 (uint a AND 15) < 64" using m by (simp add: push_bit_eq_mult)
  show "uint a AND 63 < 64" by (rule m)
  have d: "drop_bit 4 (uint b) < 64" "drop_bit 6 (uint b) < 64"
    using u [of b] by (simp_all add: drop_bit_eq_div)
  show "push_bit 4 (uint a AND 3) OR drop_bit 4 (uint b) < 64"
    using OR_upper [of "push_bit 4 (uint a AND 3)" 6 "drop_bit 4 (uint b)"] 2 d by simp
  show "push_bit 2 (uint a AND 15) OR drop_bit 6 (uint b) < 64"
    using OR_upper [of "push_bit 2 (uint a AND 15)" 6 "drop_bit 6 (uint b)"] 4 d by simp
qed

lemmas sextet_at = sextet_bounds [THEN alphabet_at_sextet [rotated]]

lemma uint_not_EOF [simp]: "uint (b :: byte) \<noteq> EOF"
  using uint_ge_0 [of b] unfolding EOF_def by linarith

definition quartet :: "int \<Rightarrow> int \<Rightarrow> int \<Rightarrow> string" where
  "quartet a b c =
     [sextet (drop_bit 2 a), sextet (push_bit 4 (a AND 3) OR drop_bit 4 b),
      sextet (push_bit 2 (b AND 15) OR drop_bit 6 c), sextet (c AND 63)]"

lemma encode_3: "b64_encode_3bytes [uint (a :: byte), uint (b :: byte), uint (c :: byte)]
    = Some (quartet (uint a) (uint b) (uint c))"
  using sextet_at(1) [of a] sextet_at(3) [of a b] sextet_at(5) [of b c] sextet_at(6) [of c]
  by (simp add: quartet_def)

lemma encode_pad:
  "b64_encode_3bytes [uint (a :: byte), uint (b :: byte), 0] = Some (quartet (uint a) (uint b) 0)"
  "b64_encode_3bytes [uint (a :: byte), 0, 0] = Some (quartet (uint a) 0 0)"
  using encode_3 [of a b 0] encode_3 [of a 0 0] by simp_all

lemma length_quartet [simp]: "length (quartet a b c) = 4"
  by (simp add: quartet_def)

lemma put_quartet_at:
  "b64_encode_3bytes c = Some q \<Longrightarrow> length q = 4 \<Longrightarrow> length pre = outLen \<Longrightarrow> 4 \<le> length mid \<Longrightarrow>
   put_quartet c outLen (Some (pre @ mid)) = Some (Some (pre @ q @ drop 4 mid))"
  by (auto simp: put_quartet_def store_block_def)

lemma mem_store_append:
  "length pre \<le> i \<Longrightarrow> i < length pre + length mid \<Longrightarrow>
   mem_store (pre @ mid) i x = Some (pre @ mid[i - length pre := x])"
  by (simp add: mem_store_def list_update_append)

lemma length_3_cases: "length c = 3 \<longleftrightarrow> (\<exists>x y z. c = [x, y, z])"
  by (auto simp: numeral_3_eq_3 length_Suc_conv)

lemma length_5_cases: "5 \<le> length m \<Longrightarrow> \<exists>a b c d e m'. m = a # b # c # d # e # m'"
  by (auto simp: Suc_le_length_iff numeral_eq_Suc)

lemma length_b64_spec: "length (b64_spec bs) = 4 * ((length bs + 2) div 3)"
proof (induction bs rule: b64_spec.induct)
  case (4 a b c rest)
  have "(length (a # b # c # rest) + 2) div 3 = Suc ((length rest + 2) div 3)" by simp
  with 4 show ?case by (simp only: b64_spec.simps list.size) simp
qed simp_all

lemma b64_result_len_step:
  assumes "0 < n" shows "b64_result_len (n + 3) = 4 + b64_result_len n"
proof -
  have "(n + 3) div 3 = n div 3 + 1" "(n + 3) mod 3 = n mod 3" by simp_all
  moreover have "n mod 3 = 0 \<Longrightarrow> 0 < n div 3" using assms by presburger
  ultimately show ?thesis by (auto simp: b64_result_len_def)
qed

text \<open>From a position that is a multiple of three, with the quartet before it already flushed.\<close>

lemma enc_from:
  assumes "bs \<noteq> []" and "i mod 3 = 0" and "length c = 3"
    and "length (b64_spec bs) + 1 \<le> length mid"
  shows "Option.bind (b64_enc_loop (tl bs) (Suc i) (c[0 := uint (hd bs)]) (length pre) (Some (pre @ mid)))
      b64_finish =
    Some (length pre + b64_result_len (length bs),
      Some (pre @ b64_spec bs @ NUL # drop (length (b64_spec bs) + 1) mid))"
  using assms
proof (induction bs arbitrary: i c pre mid rule: b64_spec.induct)
  case 1
  then show ?case by simp
next
  case (2 a)
  then obtain x y z where c: "c = [x, y, z]" by (auto simp: length_3_cases)
  from 2 obtain m0 m1 m2 m3 m4 m' where m: "mid = m0 # m1 # m2 # m3 # m4 # m'"
    using length_5_cases [of mid] by auto
  note i = 2(2) mod_Suc
  show ?case
    using put_quartet_at [OF encode_pad(2) [of a], of pre "length pre" mid]
    by (simp add: i c b64_finish_def m mem_store_append quartet_def b64_result_len_def)
next
  case (3 a b)
  then obtain x y z where c: "c = [x, y, z]" by (auto simp: length_3_cases)
  from 3 obtain m0 m1 m2 m3 m4 m' where m: "mid = m0 # m1 # m2 # m3 # m4 # m'"
    using length_5_cases [of mid] by auto
  note i = 3(2) mod_Suc
  show ?case
    using put_quartet_at [OF encode_pad(1) [of a b], of pre "length pre" mid]
    by (simp add: i c b64_finish_def m mem_store_append quartet_def b64_result_len_def)
next
  case (4 a b d rest)
  then obtain x y z where c: "c = [x, y, z]" by (auto simp: length_3_cases)
  from 4 obtain m0 m1 m2 m3 m4 m' where m: "mid = m0 # m1 # m2 # m3 # m4 # m'"
    using length_5_cases [of mid] by auto
  note i = 4(3) mod_Suc
  have i3: "Suc (Suc (Suc i)) mod 3 = 0" using 4(3) by (simp add: mod_Suc)
  let ?q = "quartet (uint a) (uint b) (uint d)"
  note pq = put_quartet_at [OF encode_3 [of a b d], of pre "length pre" mid]
  show ?case
  proof (cases rest)
    case Nil
    show ?thesis
      using pq by (simp add: Nil i c b64_finish_def m mem_store_append quartet_def b64_result_len_def)
  next
    case (Cons e rest')
    have len: "length (b64_spec rest) + 1 \<le> length (drop 4 mid)" using 4(5) by simp
    from "4.IH" [OF _ i3 _ len, of "[uint a, uint b, uint d]" "pre @ ?q"]
    have ih: "Option.bind (b64_enc_loop rest' (Suc (Suc (Suc (Suc i)))) [uint e, uint b, uint d]
        (length pre + 4) (Some (pre @ ?q @ drop 4 mid))) b64_finish =
      Some (length pre + 4 + b64_result_len (length rest),
        Some ((pre @ ?q) @ b64_spec rest @ NUL # drop (length (b64_spec rest) + 1) (drop 4 mid)))"
      by (simp add: Cons)
    have r: "b64_result_len (length (a # b # d # rest)) = 4 + b64_result_len (length rest)"
      using b64_result_len_step [of "length rest"] by (simp add: Cons numeral_3_eq_3)
    show ?thesis
      using pq ih r by (simp add: i c Cons m quartet_def)
  qed
qed

lemma binary_to_b64_eq:
  assumes "bs \<noteq> []" and "length c = 3" and "length (b64_spec bs) + 1 \<le> length out"
  shows "binary_to_b64 c bs (Some out) =
    Some (b64_result_len (length bs), Some (b64_spec bs @ NUL # drop (length (b64_spec bs) + 1) out))"
  using enc_from [OF assms(1) _ assms(2), of 0 out "[]"] assms(1,3)
  by (cases bs) (simp_all add: binary_to_b64_def)

section \<open>Decoding inverts the reference\<close>

lemma strchr_nth: "distinct xs \<Longrightarrow> i < length xs \<Longrightarrow> strchr xs (xs ! i) = Some i"
proof (induction xs arbitrary: i)
  case (Cons x xs)
  then show ?case by (cases i) (auto simp: in_set_conv_nth)
qed simp

lemma distinct_alphabet: "distinct B64_ALPHABET"
  by (simp add: B64_ALPHABET_def)

lemma sextet_index: "0 \<le> v \<Longrightarrow> v < 64 \<Longrightarrow> strchr B64_ALPHABET (sextet v) = Some (nat v)"
  by (simp add: sextet_def strchr_nth distinct_alphabet nat_less_iff)

lemma pad_index: "strchr B64_ALPHABET CHR ''='' = Some 64"
  by (simp add: B64_ALPHABET_def)

lemma sextet_ne_pad: "0 \<le> v \<Longrightarrow> v < 64 \<Longrightarrow> sextet v \<noteq> CHR ''=''"
  using sextet_index [of v] pad_index by force

lemma decode_bits:
  fixes a b c :: byte
  shows "drop_bit 4 (word_of_int (push_bit 4 (uint a AND 3) OR drop_bit 4 (uint b))) OR
      push_bit 2 (word_of_int (drop_bit 2 (uint a))) = a"
 and "drop_bit 2 (word_of_int (push_bit 2 (uint b AND 15) OR drop_bit 6 (uint c))) OR
      push_bit 4 (word_of_int (push_bit 4 (uint a AND 3) OR drop_bit 4 (uint b))) = b"
 and "word_of_int (uint c AND 63) OR
      push_bit 6 (word_of_int (push_bit 2 (uint b AND 15) OR drop_bit 6 (uint c))) = c"
proof -
  have m: "(3::int) = mask 2" "(15::int) = mask 4" "(63::int) = mask 6"  by (simp_all add: mask_eq_exp_minus_1)
  have less8: "n < 8 \<longleftrightarrow> n \<in> {0,1,2,3,4,5,6,7::nat}" for n by auto
  have big: "\<not> bit (x :: byte) (8 + n)" for x n by (auto dest: bit_imp_le_length)
  show "drop_bit 4 (word_of_int (push_bit 4 (uint a AND 3) OR drop_bit 4 (uint b))) OR
      push_bit 2 (word_of_int (drop_bit 2 (uint a))) = a" 
    unfolding m by (rule bit_word_eqI) (auto simp: bit_simps less8 big; simp add: numeral_2_eq_2 numeral_3_eq_3)
  show "drop_bit 2 (word_of_int (push_bit 2 (uint b AND 15) OR drop_bit 6 (uint c))) OR
      push_bit 4 (word_of_int (push_bit 4 (uint a AND 3) OR drop_bit 4 (uint b))) = b"
    unfolding m by (rule bit_word_eqI) (auto simp: bit_simps less8 big)
  show "word_of_int (uint c AND 63) OR
      push_bit 6 (word_of_int (push_bit 2 (uint b AND 15) OR drop_bit 6 (uint c))) = c"
    unfolding m by (rule bit_word_eqI) (auto simp: bit_simps less8 big)
qed

abbreviation sextet_ok :: "int \<Rightarrow> bool" where
  "sextet_ok v \<equiv> 0 \<le> v \<and> v < 64"

lemma decode_sextet:
  "sextet_ok v \<Longrightarrow> b64_dec_loop (sextet v # rest) i leftover p buf =
    (if i mod 4 = 0 then b64_dec_loop rest (Suc i) (push_bit 2 (word_of_int v)) p buf
     else
       (let (emit, leftover') =
          (if i mod 4 = 1 then (drop_bit 4 (word_of_int v) OR leftover, push_bit 4 (word_of_int v))
           else if i mod 4 = 2 then (drop_bit 2 (word_of_int v) OR leftover, push_bit 6 (word_of_int v))
           else (word_of_int v OR leftover, 0))
        in Option.bind (mem_store buf p emit) (b64_dec_loop rest (Suc i) leftover' (p + 1))))"
  using sextet_index [of v] sextet_ne_pad [of v] by (simp add: Let_def)

lemma decode_pad:
  "i mod 4 = 2 \<or> i mod 4 = 3 \<Longrightarrow> b64_dec_loop (CHR ''='' # rest) i leftover p buf = Some (p, buf)"
  using pad_index by auto

lemma bytes_of_sextets:
  assumes "sextet_ok v0" "sextet_ok v1" "sextet_ok v2" "sextet_ok v3" and "i mod 4 = 0"
    and "drop_bit 4 (word_of_int v1) OR push_bit 2 (word_of_int v0) = a"
    and "drop_bit 2 (word_of_int v2) OR push_bit 4 (word_of_int v1) = b"
    and "word_of_int v3 OR push_bit 6 (word_of_int v2) = c"
  shows "b64_dec_loop (sextet v0 # sextet v1 # sextet v2 # sextet v3 # rest) i l
      (length pre) (pre @ m0 # m1 # m2 # mid) =
    b64_dec_loop rest (i + 4) 0 (length pre + 3) (pre @ a # b # c # mid)"
    and "b64_dec_loop [sextet v0, sextet v1, sextet v2, CHR ''=''] i l
      (length pre) (pre @ m0 # m1 # mid) = Some (length pre + 2, pre @ a # b # mid)"
    and "b64_dec_loop [sextet v0, sextet v1, CHR ''='', CHR ''=''] i l
      (length pre) (pre @ m0 # mid) = Some (length pre + 1, pre @ a # mid)"
proof -
  have i: "i mod 4 = 0" "Suc i mod 4 = 1" "Suc (Suc i) mod 4 = 2" "Suc (Suc (Suc i)) mod 4 = 3"
    using assms(5) by (simp_all add: mod_Suc)
  have i3: "(3 + i) mod 4 = 3" using assms(5) by presburger
  have ar: "i + 4 = Suc (Suc (Suc (Suc i)))" "length pre + 3 = Suc (Suc (Suc (length pre)))"
    by simp_all
  note dec = decode_sextet i i3 assms mem_store_append Let_def
  show "b64_dec_loop (sextet v0 # sextet v1 # sextet v2 # sextet v3 # rest) i l
      (length pre) (pre @ m0 # m1 # m2 # mid) =
    b64_dec_loop rest (i + 4) 0 (length pre + 3) (pre @ a # b # c # mid)"
    unfolding ar by (simp add: dec del: b64_dec_loop.simps(2))
  show "b64_dec_loop [sextet v0, sextet v1, sextet v2, CHR ''=''] i l
      (length pre) (pre @ m0 # m1 # mid) = Some (length pre + 2, pre @ a # b # mid)"
    by (simp add: dec decode_pad del: b64_dec_loop.simps(2))
  show "b64_dec_loop [sextet v0, sextet v1, CHR ''='', CHR ''=''] i l
      (length pre) (pre @ m0 # mid) = Some (length pre + 1, pre @ a # mid)"
    by (simp add: dec decode_pad del: b64_dec_loop.simps(2))
qed

lemma sextets_of_bytes:
  fixes a b c :: byte
  shows "sextet_ok (drop_bit 2 (uint a))" "sextet_ok (push_bit 4 (uint a AND 3) OR drop_bit 4 (uint b))"
    "sextet_ok (push_bit 2 (uint b AND 15) OR drop_bit 6 (uint c))" "sextet_ok (uint c AND 63)"
  using sextet_bounds(1) [of a] sextet_bounds(3) [of a b] sextet_bounds(5) [of b c]
    sextet_bounds(6) [of c] by simp_all

lemma decode_spec:
  "i mod 4 = 0 \<Longrightarrow> length bs \<le> length mid \<Longrightarrow>
   b64_dec_loop (b64_spec bs) i 0 (length pre) (pre @ mid)
     = Some (length pre + length bs, pre @ bs @ drop (length bs) mid)"
proof (induction bs arbitrary: i pre mid rule: b64_spec.induct)
  case 1
  then show ?case by simp
next
  case (2 a)
  then obtain m0 m' where m: "mid = m0 # m'" by (cases mid) auto
  note s = sextets_of_bytes(1) [of a] sextets_of_bytes(2) [of a 0]
    sextets_of_bytes(3) [of 0 0] sextets_of_bytes(4) [of 0]
  from bytes_of_sextets(3) [OF s(1,2,3,4) 2(1) decode_bits(1) decode_bits(2) decode_bits(3)]
  show ?case unfolding m by simp
next
  case (3 a b)
  from 3(2) have "Suc (Suc 0) \<le> length mid" by simp
  then obtain m0 m1 m' where m: "mid = m0 # m1 # m'" by (auto simp: Suc_le_length_iff)
  note s = sextets_of_bytes(1) [of a] sextets_of_bytes(2) [of a b]
    sextets_of_bytes(3) [of b 0] sextets_of_bytes(4) [of 0]
  from bytes_of_sextets(2) [OF s(1,2,3,4) 3(1) decode_bits(1) decode_bits(2) decode_bits(3)]
  show ?case unfolding m by simp
next
  case (4 a b c rest)
  from 4(3) have "Suc (Suc (Suc 0)) \<le> length mid" by simp
  then obtain m0 m1 m2 m' where m: "mid = m0 # m1 # m2 # m'" by (auto simp: Suc_le_length_iff)
  note s = sextets_of_bytes(1) [of a] sextets_of_bytes(2) [of a b]
    sextets_of_bytes(3) [of b c] sextets_of_bytes(4) [of c]
  from 4 have i: "(i + 4) mod 4 = 0" "length rest \<le> length m'" by (simp_all add: m)
  have "b64_dec_loop (b64_spec rest) (i + 4) 0 (length pre + 3) (pre @ a # b # c # m')
      = Some (length pre + length (a # b # c # rest), pre @ (a # b # c # rest) @ drop (length rest) m')"
    using 4(1) [OF i, of "pre @ [a, b, c]"] by (simp add: numeral_3_eq_3)
  then show ?case
    unfolding m b64_spec.simps
      bytes_of_sextets(1) [OF s 4(2) decode_bits(1) decode_bits(2) decode_bits(3)]
    by (simp only: list.size drop_Suc_Cons) simp
qed

lemma NUL_notin_spec: "NUL \<notin> set (b64_spec bs)"
proof -
  have *: "sextet_ok v \<Longrightarrow> sextet v \<noteq> NUL" for v
  proof -
    assume "sextet_ok v"
    then have "sextet v \<in> set B64_ALPHABET" by (simp add: sextet_def nat_less_iff)
    moreover have "NUL \<notin> set B64_ALPHABET" by (simp add: B64_ALPHABET_def)
    ultimately show ?thesis by metis
  qed
  have **: "sextet v \<noteq> NUL" if "0 \<le> v" "v < 64" for v using * that by blast
  show ?thesis
  proof (induction bs rule: b64_spec.induct)
    case (2 a)
    from ** [OF _ sextet_bounds(1) [of a]] ** [OF _ sextet_bounds(2) [of a]] show ?case by simp
  next
    case (3 a b)
    from ** [OF _ sextet_bounds(1) [of a]] ** [OF _ sextet_bounds(3) [of a b]]
      ** [OF _ sextet_bounds(4) [of b]]
    show ?case by simp
  next
    case (4 a b c rest)
    from ** [OF _ sextet_bounds(1) [of a]] ** [OF _ sextet_bounds(3) [of a b]]
      ** [OF _ sextet_bounds(5) [of b c]] ** [OF _ sextet_bounds(6) [of c]] 4
    show ?case by simp
  qed simp
qed

lemma roundtrip_core:
  assumes "bs \<noteq> []" and "length c = 3" and "4 * ((length bs + 2) div 3) + 1 \<le> length out"
    and "length bs \<le> length buf"
  shows "\<exists>r out'. binary_to_b64 c bs (Some out) = Some (r, Some out')
    \<and> cstr_at out' 0 = Some (b64_spec bs) \<and> length out' = length out
    \<and> drop (4 * ((length bs + 2) div 3) + 1) out' = drop (4 * ((length bs + 2) div 3) + 1) out
    \<and> b64_to_binary fresh (b64_spec bs) (Some buf)
        = Some (length bs, bs @ drop (length bs) buf)"
proof -
  have len: "length (b64_spec bs) + 1 \<le> length out" using assms(3) by (simp add: length_b64_spec)
  have c: "cstr_at ([] @ b64_spec bs @ NUL # rest) 0 = Some (b64_spec bs)" for rest
    by (rule cstr_at_append) (simp_all add: NUL_notin_spec)
  have "0 < length bs" "0 < length buf" using assms(1,4) by auto
  then have d: "b64_to_binary fresh (b64_spec bs) (Some buf) = Some (length bs, bs @ drop (length bs) buf)"
    using decode_spec [of 0 bs "buf[0 := 0]" "[]"] assms(4)
    by (simp add: b64_to_binary_def Let_def mem_store_def)
  show ?thesis
    using binary_to_b64_eq [OF assms(1,2) len] c [of "drop (length (b64_spec bs) + 1) out"] d len
    by (simp add: length_b64_spec)
qed



text \<open>How many bytes the decoder has stored when it is at character \<open>i\<close>.\<close>

definition dec_stored :: "nat \<Rightarrow> nat" where
  "dec_stored i = 3 * (i div 4) + (i mod 4 - 1)"

lemma dec_stored_Suc: "dec_stored (Suc i) = (if i mod 4 = 0 then dec_stored i else dec_stored i + 1)"
  unfolding dec_stored_def by (auto simp: mod_Suc div_Suc)

lemma dec_stored_lt: "i mod 4 \<noteq> 0 \<Longrightarrow> dec_stored i < Suc i * 6 div 8"
proof -
  assume r: "i mod 4 \<noteq> 0"
  have "Suc (4 * q + r) * 6 = 8 * (3 * q) + (6 * r + 6)" for q r :: nat by simp
  from this [of "i div 4" "i mod 4"]
  have "Suc i * 6 = 8 * (3 * (i div 4)) + (6 * (i mod 4) + 6)" by (simp only: mult_div_mod_eq)
  then have e: "Suc i * 6 div 8 = 3 * (i div 4) + (6 * (i mod 4) + 6) div 8"
    by (simp only: div_mult_self4)
  have "i mod 4 = 1 \<or> i mod 4 = 2 \<or> i mod 4 = 3" using r by linarith
  then show ?thesis unfolding e dec_stored_def by auto
qed

lemma dec_bounds:
  "(i + length s) * 6 div 8 < length buf \<Longrightarrow>
   \<exists>r buf'. b64_dec_loop s i leftover (dec_stored i) buf = Some (r, buf') \<and> length buf' = length buf"
proof (induction s arbitrary: i leftover buf)
  case (Cons ch rest)
  show ?case
  proof (cases "strchr B64_ALPHABET ch")
    case (Some a)
    have "Suc i * 6 div 8 \<le> (i + length (ch # rest)) * 6 div 8" by (intro div_le_mono mult_le_mono1) simp
    then have w: "i mod 4 \<noteq> 0 \<Longrightarrow> dec_stored i < length buf"
      using dec_stored_lt [of i] Cons.prems by linarith
    have ih: "length b = length buf \<Longrightarrow>
        \<exists>r buf'. b64_dec_loop rest (Suc i) l (dec_stored (Suc i)) b = Some (r, buf') \<and> length buf' = length buf" for l b
      using Cons.IH [of "Suc i" b l] Cons.prems by simp
    show ?thesis
    proof (cases "ch = CHR ''=''")
      case True
      with Some w show ?thesis by (auto simp: mem_store_def Let_def)
    next
      case False
      show ?thesis
      proof (cases "i mod 4 = 0")
        case True
        with Some False ih [of buf] show ?thesis by (auto simp: Let_def dec_stored_Suc)
      next
        case mod: False
        with w have st: "mem_store buf (dec_stored i) x = Some (buf[dec_stored i := x])" for x
          by (simp add: mem_store_def)
        have ih': "\<exists>r buf'. b64_dec_loop rest (Suc i) l (Suc (dec_stored i)) (buf[dec_stored i := x])
            = Some (r, buf') \<and> length buf' = length buf" for l x
          using ih [of "buf[dec_stored i := x]" l] mod by (simp add: dec_stored_Suc)
        show ?thesis
          using Some False mod st ih' by (simp add: Let_def split: prod.split)
      qed
    qed
  qed simp
qed simp

text \<open>Decoding a text of any characters into the buffer the routine allocates itself never
  writes outside that buffer.\<close>

theorem base64_decode_in_bounds:
  assumes "\<And>n. length (fresh n) = n"
  shows "\<exists>n buf. b64_to_binary fresh b64 None = Some (n, buf) \<and> length buf = length b64 * 6 div 8 + 1"
proof -
  let ?buf = "fresh (length b64 * 6 div 8 + 1)"
  have "mem_store ?buf 0 0 = Some (?buf[0 := 0])" using assms by (simp add: mem_store_def del: One_nat_def)
  then show ?thesis
    using dec_bounds [of 0 b64 "?buf[0 := 0]" 0] assms
    by (simp add: b64_to_binary_def Let_def dec_stored_def)
qed

theorem base64_decode_in_bounds_witness:
  "\<exists>n buf. b64_to_binary (\<lambda>n. replicate n 0) ''QQ=Q'' None = Some (n, buf) \<and> length buf = 4"
  using base64_decode_in_bounds [of "\<lambda>n. replicate n 0" "''QQ=Q''"] by simp

text \<open>The encoder's return value is documented as the number of bytes written into the output.
  It never counts the padding, and for an input of a multiple of three bytes it does not count
  the last four characters either.\<close>

theorem base64_return_value:
  assumes "bs \<noteq> []" and "length c = 3" and "length (b64_spec bs) + 1 \<le> length out"
  shows "\<exists>out'. binary_to_b64 c bs (Some out) = Some (b64_result_len (length bs), Some out')
    \<and> b64_result_len (length bs) + (if length bs mod 3 = 0 then 4 else 3 - length bs mod 3)
        = length (b64_spec bs)"
proof -
  have "b64_result_len n + (if n mod 3 = 0 then 4 else 3 - n mod 3) = 4 * ((n + 2) div 3)"
    if "0 < n" for n :: nat
  proof -
    consider "n mod 3 = 0" | "n mod 3 = 1" | "n mod 3 = 2" by linarith
    then show ?thesis
    proof cases
      case 1
      with that have "(n + 2) div 3 = n div 3" "1 \<le> n div 3" by presburger+
      with 1 show ?thesis by (simp add: b64_result_len_def)
    next
      case 2
      then have "(n + 2) div 3 = n div 3 + 1" by presburger
      with 2 show ?thesis by (simp add: b64_result_len_def)
    next
      case 3
      then have "(n + 2) div 3 = n div 3 + 1" by presburger
      with 3 show ?thesis by (simp add: b64_result_len_def)
    qed
  qed
  with assms(1) binary_to_b64_eq [OF assms] show ?thesis by (simp add: length_b64_spec)
qed

theorem base64_return_value_witness:
  "\<exists>out'. binary_to_b64 [0, 0, 0] [1, 2, 3] (Some (replicate 5 NUL)) = Some (0, Some out')"
  using base64_return_value [of "[1, 2, 3]" "[0, 0, 0]" "replicate 5 NUL"]
  by (simp add: b64_result_len_def)

text \<open>With a NULL output pointer, documented to compute the length only, the last write goes
  through the pointer all the same.\<close>

lemma binary_to_b64_NULL: "length c = 3 \<Longrightarrow> binary_to_b64 c bs None = None"
proof -
  have "\<exists>i c' n. b64_enc_loop bs j c m None = Some (i, c', n, None)" for j c m
    by (induction bs arbitrary: j c m) (simp_all add: put_quartet_def)
  then obtain i c' n where "b64_enc_loop bs 0 c 0 None = Some (i, c', n, None)" by blast
  then show ?thesis by (simp add: binary_to_b64_def b64_finish_def put_quartet_def)
qed

end
