(* ===== verification/QuotedPrintable.thy ===== *)
theory QuotedPrintable
  imports Prelude "HOL-Library.Monad_Syntax"
begin

text \<open>
  The quoted-printable half of modules/binary/base64.c.  A byte is a \<open>char\<close>; \<open>char\<close> is
  signed in C, so bytes above 126 fail the range tests either way.  A result \<open>None\<close> is an
  access outside a buffer; the allocations are parameters.
\<close>

section \<open>Decoding\<close>

definition hex :: string where
  "hex = ''0123456789ABCDEF''"

text \<open>\<open>strchr(hex, c)\<close> also finds the terminator of \<open>hex\<close>.\<close>

definition hex_index :: "char \<Rightarrow> nat option" where
  "hex_index c = (if c = NUL then Some 16 else strchr hex c)"

definition str_at :: "string \<Rightarrow> nat \<Rightarrow> char" where
  "str_at s i = (if i < length s then s ! i else NUL)"

definition CR :: char where "CR = CHR 0x0D"
definition LF :: char where "LF = CHR 0x0A"
definition TAB :: char where "TAB = CHR 0x09"
definition SP :: char where "SP = CHR '' ''"

definition qp_blank :: "char \<Rightarrow> bool" where
  "qp_blank c \<longleftrightarrow> c = SP \<or> c = TAB"

definition qp_space :: "char \<Rightarrow> bool" where
  "qp_space c \<longleftrightarrow> c = SP \<or> c = TAB \<or> c = LF \<or> c = CR"

definition qp_literal :: "char \<Rightarrow> bool" where
  "qp_literal c \<longleftrightarrow> 33 \<le> (of_char c :: nat) \<and> (of_char c :: nat) \<le> 126 \<and> c \<noteq> CHR ''=''"

text \<open>The byte decoded, if one is emitted, and how far the input moves on; the input is not at its
  end.  After an equals sign and one digit at the very end it moves past the terminator.\<close>

definition qp_decode_byte :: "string \<Rightarrow> char option \<times> nat" where
  "qp_decode_byte inBuf =
     (let c = hd inBuf in
      if qp_literal c then (Some c, 1)
      else if qp_blank c then
        if list_all qp_space (tl inBuf) then
          (None, case strchr inBuf LF of
             Some lf \<Rightarrow> (case strchr inBuf CR of
                None \<Rightarrow> lf | Some cr \<Rightarrow> if cr < lf then cr else lf)
           | None \<Rightarrow> length inBuf)
        else (Some c, 1)
      else if c = CHR ''='' then
        if list_all qp_space (tl inBuf) then (None, length inBuf)
        else (case hex_index (str_at inBuf 1) of
                None \<Rightarrow> (Some c, 1)
              | Some a \<Rightarrow>
                  (case hex_index (str_at inBuf 2) of
                     None \<Rightarrow> (Some c, 1)
                   | Some b \<Rightarrow> (Some (char_of ((a * 16 + b) mod 256)), 3)))
      else (Some c, 1))"

lemma strchr_pos: "strchr (x # s) c = Some i \<Longrightarrow> x \<noteq> c \<Longrightarrow> 0 < i"
  by auto

lemma qp_decode_progress:
  assumes "s \<noteq> []"
  shows "0 < snd (qp_decode_byte s)"
proof -
  obtain c r where s: "s = c # r" using assms by (cases s) auto
  have "i \<noteq> 0" if "qp_blank c" "strchr s d = Some i" "d = LF \<or> d = CR" for d i
    using that by (auto simp: s qp_blank_def SP_def TAB_def LF_def CR_def split: if_splits)
  then show ?thesis
    by (auto simp: qp_decode_byte_def Let_def s simp del: strchr.simps split: option.splits)
qed

function qp_dec_loop :: "char list \<Rightarrow> nat \<Rightarrow> string \<Rightarrow> (char list \<times> nat) option" where
  "qp_dec_loop outBuf outLen qp =
     (if qp = [] then Some (outBuf, outLen)
      else case qp_decode_byte qp of (b, k) \<Rightarrow>
        if length qp < k then None
        else (case b of
                None \<Rightarrow> qp_dec_loop outBuf outLen (drop k qp)
              | Some c \<Rightarrow>
                  (case mem_store outBuf outLen c of
                     None \<Rightarrow> None
                   | Some outBuf' \<Rightarrow> qp_dec_loop outBuf' (Suc outLen) (drop k qp))))"
  by pat_completeness auto
termination
proof (relation "measure (\<lambda>(outBuf, outLen, qp). length qp)", goal_cases)
  case (2 outBuf outLen qp d b)
  then show ?case using qp_decode_progress [of qp] by (cases qp) (auto dest!: sym [of "(_, _)"])
next
  case (3 outBuf outLen qp d b k c)
  then show ?case using qp_decode_progress [of qp] by (cases qp) (auto dest!: sym [of "(_, _)"])
qed simp

declare qp_dec_loop.simps [simp del]

text \<open>\<open>outBuf = None\<close> asks for a buffer of exactly the length of the text; the inner \<open>None\<close>
  of the result is NULL.  \<open>outLen\<close> is what the caller's counter holds before the call.\<close>

definition qp_to_binary ::
    "bool \<Rightarrow> string \<Rightarrow> char list option \<Rightarrow> nat \<Rightarrow> (char list \<times> nat) option option" where
  "qp_to_binary malloc_ok qp outBuf outLen =
     (case (case outBuf of Some b \<Rightarrow> Some b
            | None \<Rightarrow> if malloc_ok then Some (replicate (length qp) NUL) else None) of
        None \<Rightarrow> Some None
      | Some b \<Rightarrow>
          do { b \<leftarrow> mem_store b 0 NUL;
               (b, n) \<leftarrow> qp_dec_loop b outLen qp;
               b \<leftarrow> mem_store b n NUL;
               Some (Some (b, n)) })"

section \<open>Encoding\<close>

definition hex2 :: "char \<Rightarrow> string" where
  "hex2 c = [hex ! (of_char c div 16), hex ! (of_char c mod 16)]"

text \<open>The bytes from the one to encode to the end of the input; a blank looks at the byte after it.\<close>

definition qp_encode_byte :: "char list \<Rightarrow> string option \<Rightarrow> string option" where
  "qp_encode_byte cs force =
     (let c = hd cs in
      if (case force of None \<Rightarrow> False | Some f \<Rightarrow> c = NUL \<or> c \<in> set f) then Some (CHR ''='' # hex2 c)
      else if qp_literal c then Some [c]
      else if qp_blank c then
        (case tl cs of
           [] \<Rightarrow> None
         | d # _ \<Rightarrow> Some (if d = LF \<or> d = CR then CHR ''='' # hex2 c else [c]))
      else if c = CR then Some []
      else if c = LF then Some [CR, LF]
      else Some (CHR ''='' # hex2 c))"

text \<open>The loop: the buffer (of the allocated length), how much of it is used, and where the last line
  began.  The test for the last byte compares with the length and never holds.\<close>

fun qp_enc_loop ::
    "(nat \<Rightarrow> bool) \<Rightarrow> string option \<Rightarrow> char list \<Rightarrow> char list \<Rightarrow> nat \<Rightarrow> nat \<Rightarrow> (char list \<times> nat) option option" where
  "qp_enc_loop realloc_ok force [] buf buf_used last_cr = Some (Some (buf, buf_used))"
| "qp_enc_loop realloc_ok force (c # cs) buf buf_used last_cr =
     (let grow = length buf \<le> buf_used + 8 in
      if grow \<and> \<not> realloc_ok (length buf + 256) then Some None
      else
        let buf = (if grow then buf @ replicate 256 NUL else buf) in
        do { tmp \<leftarrow> qp_encode_byte (c # cs) force;
             (buf, buf_used, last_cr) \<leftarrow>
               (if tmp \<noteq> [] \<and> hd tmp = CR then Some (buf, buf_used, buf_used + 2)
                else if 76 - 1 \<le> buf_used - last_cr
                then do { buf \<leftarrow> store_block buf buf_used [CHR ''='', CR, LF];
                          Some (buf, buf_used + 3, buf_used + 3) }
                else Some (buf, buf_used, last_cr));
             buf \<leftarrow> store_block buf buf_used tmp;
             qp_enc_loop realloc_ok force cs buf (buf_used + length tmp) last_cr })"

definition binary_to_qp_alloc ::
    "bool \<Rightarrow> (nat \<Rightarrow> bool) \<Rightarrow> char list \<Rightarrow> string option \<Rightarrow> string option option" where
  "binary_to_qp_alloc malloc_ok realloc_ok in_buf force =
     (let n_els = length in_buf in
      if n_els = 0 then Some (if malloc_ok then Some [] else None)
      else if \<not> malloc_ok then Some None
      else
        (case qp_enc_loop realloc_ok force in_buf (replicate (n_els + n_els div 10) NUL) 0 0 of
           None \<Rightarrow> None
         | Some None \<Rightarrow> Some None
         | Some (Some (buf, buf_used)) \<Rightarrow>
             do { buf \<leftarrow> mem_store buf buf_used NUL; Some (Some (take buf_used buf)) }))"

section \<open>What the encoder writes\<close>

text \<open>The encoder without its buffer: the text written so far in the current line's length.\<close>

fun qp_text :: "string option \<Rightarrow> char list \<Rightarrow> nat \<Rightarrow> string option" where
  "qp_text force [] n = Some []"
| "qp_text force (c # cs) n =
     do { tmp \<leftarrow> qp_encode_byte (c # cs) force;
          (if tmp \<noteq> [] \<and> hd tmp = CR
           then do { r \<leftarrow> qp_text force cs 0; Some (tmp @ r) }
           else if 75 \<le> n
           then do { r \<leftarrow> qp_text force cs (length tmp); Some (CHR ''='' # CR # LF # tmp @ r) }
           else do { r \<leftarrow> qp_text force cs (n + length tmp); Some (tmp @ r) }) }"

lemma literal_not_CR: "qp_literal c \<Longrightarrow> c \<noteq> CR"
  by (auto simp: qp_literal_def CR_def)

lemma blank_not_CR: "qp_blank c \<Longrightarrow> c \<noteq> CR"
  by (auto simp: qp_blank_def CR_def SP_def TAB_def)

lemma encode_shape:
  assumes "qp_encode_byte (c # cs) force = Some tmp"
  shows "tmp = CHR ''='' # hex2 c \<or> tmp = [c] \<and> c \<noteq> CR \<or> tmp = [] \<or> tmp = [CR, LF]"
proof -
  have e: "(case cs of [] \<Rightarrow> None | d # _ \<Rightarrow> Some (if P d then a else [c])) = Some tmp \<Longrightarrow>
      tmp = a \<or> tmp = [c]" for P a
    by (cases cs) (auto split: if_splits)
  show ?thesis
    using assms e [of "\<lambda>d. d = LF \<or> d = CR" "CHR ''='' # hex2 c"] literal_not_CR [of c] blank_not_CR [of c]
    unfolding qp_encode_byte_def Let_def list.sel by (simp split: if_splits) blast?
qed

lemma encode_length: "qp_encode_byte (c # cs) force = Some tmp \<Longrightarrow> length tmp \<le> 3"
  using encode_shape by (fastforce simp: hex2_def)

lemma encode_CR:
  assumes "qp_encode_byte (c # cs) force = Some tmp" "tmp \<noteq> []" "hd tmp = CR"
  shows "tmp = [CR, LF]"
  using encode_shape [OF assms(1)] assms(2,3) by (auto simp: CR_def)

text \<open>The buffer never overflows, whatever the bytes, and holds exactly the text.\<close>

lemma enc_loop_text:
  assumes "length out \<le> length buf" and "take (length out) buf = out" and "l \<le> length out"
    and "\<forall>n. realloc_ok n"
  shows "case qp_text force cs (length out - l) of
      None \<Rightarrow> qp_enc_loop realloc_ok force cs buf (length out) l = None
    | Some r \<Rightarrow> \<exists>buf'. qp_enc_loop realloc_ok force cs buf (length out) l = Some (Some (buf', length (out @ r)))
        \<and> take (length (out @ r)) buf' = out @ r \<and> (length (out @ r) < length buf' \<or> cs = [])"
  using assms(1-3)
proof (induction cs arbitrary: out buf l)
  case Nil
  then show ?case by simp
next
  case (Cons c cs)
  define b where b: "b = (if length buf \<le> length out + 8 then buf @ replicate 256 NUL else buf)"
  have bl: "length out + 8 < length b" using Cons.prems(1) by (simp add: b)
  have bt: "take (length out) b = out" using Cons.prems(1,2) by (simp add: b)
  show ?case
  proof (cases "qp_encode_byte (c # cs) force")
    case None
    then show ?thesis by (simp add: Let_def assms(4))
  next
    case (Some tmp)
    have t3: "length tmp \<le> 3" using encode_length [OF Some] .
    have put: "\<exists>buf'. store_block b (length out) xs = Some buf' \<and> take (length (out @ xs)) buf' = out @ xs
        \<and> length buf' = length b" if "length xs \<le> 8" for xs
      using store_block_at_end [of out "length out" xs b] bt bl that length_store_block by fastforce
    consider (crlf) "tmp \<noteq> []" "hd tmp = CR" | (soft) "tmp = [] \<or> hd tmp \<noteq> CR" "75 \<le> length out - l"
      | (plain) "tmp = [] \<or> hd tmp \<noteq> CR" "\<not> 75 \<le> length out - l" by blast
    then show ?thesis
    proof cases
      case crlf
      have tmp: "tmp = [CR, LF]" using encode_CR [OF Some crlf] .
      from put [of tmp] tmp obtain b1 where b1: "store_block b (length out) tmp = Some b1"
        "take (length (out @ tmp)) b1 = out @ tmp" "length b1 = length b" by auto
      have le: "length (out @ tmp) \<le> length b1" using b1(3) bl t3 by simp
      have z: "length (out @ tmp) - (length out + 2) = 0" by (simp add: tmp)
      have l2: "length out + 2 \<le> length (out @ tmp)" by (simp add: tmp)
      note IH = Cons.IH [OF le b1(2) l2, unfolded z]
      have st: "qp_enc_loop realloc_ok force (c # cs) buf (length out) l
          = qp_enc_loop realloc_ok force cs b1 (length (out @ tmp)) (length out + 2)"
        using Some crlf b1(1) assms(4) by (simp add: Let_def b [symmetric])
      show ?thesis
      proof (cases "qp_text force cs 0")
        case None
        with IH st Some crlf show ?thesis by simp
      next
        case r: (Some r)
        with IH obtain b2 where "qp_enc_loop realloc_ok force cs b1 (length (out @ tmp)) (length out + 2)
            = Some (Some (b2, length ((out @ tmp) @ r)))" "take (length ((out @ tmp) @ r)) b2 = (out @ tmp) @ r"
          "length ((out @ tmp) @ r) < length b2 \<or> cs = []" by auto
        moreover have "cs = [] \<Longrightarrow> length b2 = length b1 \<and> r = []" using calculation r by auto
        ultimately show ?thesis using st Some crlf r b1(3) bl t3 by (auto simp del: qp_enc_loop.simps)
      qed
    next
      case soft
      let ?s = "[CHR ''='', CR, LF]"
      from put [of ?s] obtain b1 where b1: "store_block b (length out) ?s = Some b1"
        "take (length (out @ ?s)) b1 = out @ ?s" "length b1 = length b" by auto
      have "length (out @ ?s) + length tmp \<le> length b1" using b1(3) bl t3 by simp
      from store_block_at_end [OF refl this b1(2)] obtain b2 where b2: "store_block b1 (length (out @ ?s)) tmp = Some b2"
        "take (length ((out @ ?s) @ tmp)) b2 = (out @ ?s) @ tmp" by auto
      have l2: "length b2 = length b" using length_store_block [OF b2(1)] b1(3) by simp
      have le: "length ((out @ ?s) @ tmp) \<le> length b2" using l2 bl t3 by simp
      have z: "length ((out @ ?s) @ tmp) - (length out + 3) = length tmp" by simp
      have ll: "length out + 3 \<le> length ((out @ ?s) @ tmp)" by simp
      note IH = Cons.IH [OF le b2(2) ll, unfolded z]
      have st: "qp_enc_loop realloc_ok force (c # cs) buf (length out) l
          = qp_enc_loop realloc_ok force cs b2 (length ((out @ ?s) @ tmp)) (length out + 3)"
        using Some soft b1(1) b2(1) assms(4) by (auto simp: Let_def b [symmetric] numeral_3_eq_3 add.commute)
      show ?thesis
      proof (cases "qp_text force cs (length tmp)")
        case None
        with IH st Some soft show ?thesis by (auto simp del: qp_enc_loop.simps)
      next
        case r: (Some r)
        with IH obtain b3 where "qp_enc_loop realloc_ok force cs b2 (length ((out @ ?s) @ tmp)) (length out + 3)
            = Some (Some (b3, length (((out @ ?s) @ tmp) @ r)))"
          "take (length (((out @ ?s) @ tmp) @ r)) b3 = ((out @ ?s) @ tmp) @ r"
          "length (((out @ ?s) @ tmp) @ r) < length b3 \<or> cs = []" by auto
        moreover have "cs = [] \<Longrightarrow> length b3 = length b2 \<and> r = []" using calculation r by auto
        ultimately show ?thesis using st Some soft r l2 bl t3 by (auto simp del: qp_enc_loop.simps)
      qed
    next
      case plain
      from put [of tmp] t3 obtain b1 where b1: "store_block b (length out) tmp = Some b1"
        "take (length (out @ tmp)) b1 = out @ tmp" "length b1 = length b" by auto
      have le: "length (out @ tmp) \<le> length b1" using b1(3) bl t3 by simp
      have z: "length (out @ tmp) - l = length out - l + length tmp" using Cons.prems(3) by simp
      have ll: "l \<le> length (out @ tmp)" using Cons.prems(3) by simp
      note IH = Cons.IH [OF le b1(2) ll, unfolded z]
      have st: "qp_enc_loop realloc_ok force (c # cs) buf (length out) l
          = qp_enc_loop realloc_ok force cs b1 (length (out @ tmp)) l"
        using Some plain b1(1) assms(4) by (auto simp: Let_def b [symmetric])
      show ?thesis
      proof (cases "qp_text force cs (length out - l + length tmp)")
        case None
        with IH st Some plain show ?thesis by (auto simp del: qp_enc_loop.simps)
      next
        case r: (Some r)
        with IH obtain b2 where "qp_enc_loop realloc_ok force cs b1 (length (out @ tmp)) l
            = Some (Some (b2, length ((out @ tmp) @ r)))" "take (length ((out @ tmp) @ r)) b2 = (out @ tmp) @ r"
          "length ((out @ tmp) @ r) < length b2 \<or> cs = []" by auto
        moreover have "cs = [] \<Longrightarrow> length b2 = length b1 \<and> r = []" using calculation r by auto
        ultimately show ?thesis using st Some plain r b1(3) bl t3 by (auto simp del: qp_enc_loop.simps)
      qed
    qed
  qed
qed

definition forced :: "string option \<Rightarrow> char \<Rightarrow> bool" where
  "forced force c = (case force of None \<Rightarrow> False | Some f \<Rightarrow> c = NUL \<or> c \<in> set f)"

lemma qp_encode_byte_Cons:
  "qp_encode_byte (c # cs) force =
     (if forced force c then Some (CHR ''='' # hex2 c)
      else if qp_literal c then Some [c]
      else if qp_blank c then
        (case cs of [] \<Rightarrow> None | d # _ \<Rightarrow> Some (if d = LF \<or> d = CR then CHR ''='' # hex2 c else [c]))
      else if c = CR then Some [] else if c = LF then Some [CR, LF] else Some (CHR ''='' # hex2 c))"
  by (simp add: qp_encode_byte_def forced_def)

lemma encode_None:
  "qp_encode_byte (c # cs) force = None \<longleftrightarrow> cs = [] \<and> qp_blank c \<and> \<not> forced force c"
  by (auto simp: qp_encode_byte_Cons qp_literal_def qp_blank_def SP_def TAB_def split: list.splits)

lemma qp_text_None:
  "qp_text force bs n = None \<longleftrightarrow> bs \<noteq> [] \<and> qp_blank (List.last bs) \<and> \<not> forced force (List.last bs)"
proof (induction bs arbitrary: n)
  case (Cons c cs)
  then show ?case
    using encode_None [of c cs force]
    by (cases "qp_encode_byte (c # cs) force") (auto simp: bind_eq_None_conv)
qed simp

lemma binary_to_qp_alloc_text:
  assumes "\<forall>n. realloc_ok n"
  shows "binary_to_qp_alloc True realloc_ok bs force = map_option Some (qp_text force bs 0)"
proof (cases bs)
  case (Cons c cs)
  let ?b = "replicate (length bs + length bs div 10) NUL"
  note L = enc_loop_text [of "[]" ?b 0 realloc_ok force bs, simplified list.size take0 diff_0_eq_0 append_Nil, OF _ _ _ assms, simplified]
  show ?thesis
  proof (cases "qp_text force bs 0")
    case None
    with L show ?thesis by (simp add: binary_to_qp_alloc_def Let_def Cons del: qp_enc_loop.simps replicate.simps)
  next
    case (Some r)
    with L obtain buf' where "qp_enc_loop realloc_ok force bs ?b 0 0 = Some (Some (buf', length r))"
      "take (length r) buf' = r" "length r < length buf'" using Cons by auto
    then show ?thesis
      using Some by (simp add: binary_to_qp_alloc_def Let_def mem_store_def Cons del: qp_enc_loop.simps replicate.simps qp_text.simps)
  qed
qed (simp add: binary_to_qp_alloc_def)

section \<open>The decoder on any text\<close>

definition ends_in_escape :: "string \<Rightarrow> bool" where
  "ends_in_escape t \<longleftrightarrow> (\<exists>u h. t = u @ [CHR ''='', h] \<and> h \<in> set hex)"

lemma hex_at: "k < 16 \<Longrightarrow> hex_index (hex ! k) = Some k"
proof -
  have "\<forall>k \<in> set [0..<16]. hex_index (hex ! k) = Some k" by code_simp
  then show "k < 16 \<Longrightarrow> hex_index (hex ! k) = Some k" by simp
qed

lemma hex_length: "length hex = 16"
  by (simp add: hex_def)

lemma hex_set: "c \<in> set hex \<Longrightarrow> \<exists>k < 16. c = hex ! k"
  by (auto simp: in_set_conv_nth hex_length)

lemma hex_index_Some: "hex_index c = Some k \<longleftrightarrow> c = NUL \<and> k = 16 \<or> k < 16 \<and> c = hex ! k"
proof
  assume h: "hex_index c = Some k"
  show "c = NUL \<and> k = 16 \<or> k < 16 \<and> c = hex ! k"
  proof (cases "c = NUL")
    case False
    with h have "strchr hex c = Some k" by (simp add: hex_index_def)
    from strchr_Some [OF this] show ?thesis by (simp add: hex_length)
  qed (use h in \<open>simp add: hex_index_def\<close>)
next
  assume "c = NUL \<and> k = 16 \<or> k < 16 \<and> c = hex ! k"
  then show "hex_index c = Some k"
    by (elim disjE conjE) (simp_all add: hex_at, simp add: hex_index_def)
qed

lemma hex_digit: "k < 16 \<Longrightarrow> \<not> qp_space (hex ! k) \<and> hex ! k \<noteq> CHR ''='' \<and> hex ! k \<in> set hex \<and> hex ! k \<noteq> NUL"
proof -
  have "\<forall>k \<in> set [0..<16]. \<not> qp_space (hex ! k) \<and> hex ! k \<noteq> CHR ''='' \<and> hex ! k \<in> set hex \<and> hex ! k \<noteq> NUL"
    by code_simp
  then show "k < 16 \<Longrightarrow> \<not> qp_space (hex ! k) \<and> hex ! k \<noteq> CHR ''='' \<and> hex ! k \<in> set hex \<and> hex ! k \<noteq> NUL" by simp
qed

lemma hex_index_char: "hex_index c = Some k \<Longrightarrow> c \<noteq> NUL \<Longrightarrow> c \<in> set hex \<and> c \<noteq> CHR ''=''"
  using hex_digit [of k] by (auto simp: hex_index_Some)

lemma hex_set_space: "h \<in> set hex \<Longrightarrow> \<not> qp_space h"
  using hex_digit hex_set by blast

lemma equals_not: "\<not> qp_literal (CHR ''='')" "\<not> qp_blank (CHR ''='')"
  by (auto simp: qp_literal_def qp_blank_def SP_def TAB_def)

lemma ends_space: "list_all qp_space s \<Longrightarrow> \<not> ends_in_escape (c # s)"
  by (auto simp: ends_in_escape_def Cons_eq_append_conv dest: hex_set_space)

lemma ends_drop_space: "list_all qp_space s \<Longrightarrow> \<not> ends_in_escape (drop k s)"
proof -
  have "\<not> ends_in_escape s" if "list_all qp_space s" for s
    using that by (auto simp: ends_in_escape_def qp_space_def SP_def TAB_def LF_def CR_def)
  moreover assume "list_all qp_space s"
  then have "list_all qp_space (drop k s)" by (auto simp: list_all_iff dest: in_set_dropD)
  ultimately show ?thesis by blast
qed

lemma ends_Cons: "ends_in_escape (c # s) \<longleftrightarrow> ends_in_escape s \<or> c = CHR ''='' \<and> (\<exists>h \<in> set hex. s = [h])"
  by (auto simp: ends_in_escape_def Cons_eq_append_conv)

text \<open>One step at a byte that is not at the end: what the pointer moves over, and whether it runs past
  the terminator.\<close>

lemma decode_blank_jump:
  assumes "list_all qp_space s" "qp_blank c" "qp_decode_byte (c # s) = (b, k)"
  shows "b = None \<and> k \<le> length (c # s)"
proof -
  have "i \<le> length (c # s)" if "strchr (c # s) d = Some i" for d i
    using strchr_Some [OF that] by simp
  then show ?thesis
    using assms by (auto simp: qp_decode_byte_def qp_literal_def qp_blank_def SP_def TAB_def
        simp del: strchr.simps split: option.splits if_splits)
qed

lemma decode_escape:
  assumes "\<not> list_all qp_space s"
  shows "qp_decode_byte (CHR ''='' # s) =
     (case hex_index (hd s) of None \<Rightarrow> (Some (CHR ''=''), 1)
      | Some a \<Rightarrow> (case hex_index (str_at s 1) of None \<Rightarrow> (Some (CHR ''=''), 1)
          | Some b \<Rightarrow> (Some (char_of ((a * 16 + b) mod 256)), 3)))"
  using assms by (cases s) (auto simp: qp_decode_byte_def Let_def equals_not str_at_def numeral_2_eq_2 split: option.splits)

lemma decode_other:
  assumes "c \<noteq> CHR ''=''" "qp_blank c \<Longrightarrow> \<not> list_all qp_space s"
  shows "qp_decode_byte (c # s) = (Some c, 1)"
  using assms by (simp add: qp_decode_byte_def)

lemma decode_soft_end: "list_all qp_space s \<Longrightarrow> qp_decode_byte (CHR ''='' # s) = (None, Suc (length s))"
  by (simp add: qp_decode_byte_def equals_not)

lemma decode_step:
  assumes d: "qp_decode_byte (c # s) = (b, k)" and nz: "NUL \<notin> set s"
  shows "if length (c # s) < k then ends_in_escape (c # s)
    else ends_in_escape (drop k (c # s)) = ends_in_escape (c # s)"
proof -
  consider (other) "c \<noteq> CHR ''=''" "qp_blank c \<Longrightarrow> \<not> list_all qp_space s"
    | (jump) "qp_blank c" "list_all qp_space s" | (soft) "c = CHR ''=''" "list_all qp_space s"
    | (esc) "c = CHR ''=''" "\<not> list_all qp_space s" by blast
  then show ?thesis
  proof cases
    case other
    with decode_other [OF other] d show ?thesis by (simp add: ends_Cons)
  next
    case jump
    have "list_all qp_space (c # s)" using jump by (auto simp: qp_blank_def qp_space_def)
    with decode_blank_jump [OF jump(2,1) d] ends_drop_space [of "c # s"] ends_space [OF jump(2), of c]
    show ?thesis by auto
  next
    case soft
    with d decode_soft_end [OF soft(2)] ends_space [OF soft(2), of c] show ?thesis
      by (auto simp: ends_in_escape_def)
  next
    case esc
    then obtain x r where s: "s = x # r" by (cases s) auto
    show ?thesis
    proof (cases "k = 3")
      case True
      with d obtain a e where ae: "hex_index x = Some a" "hex_index (str_at s 1) = Some e"
        unfolding esc(1) decode_escape [OF esc(2)] by (auto simp: s split: option.splits)
      have x: "x \<in> set hex" "x \<noteq> CHR ''=''"
        using ae(1) nz hex_index_char [of x a] by (auto simp: s)
      show ?thesis
      proof (cases r)
        case Nil
        with x True show ?thesis by (simp add: s esc(1) ends_Cons)
      next
        case (Cons y q)
        have "y \<noteq> CHR ''=''" using ae(2) nz hex_index_char [of y e] by (auto simp: s Cons str_at_def)
        with x True show ?thesis by (simp add: s Cons ends_Cons)
      qed
    next
      case False
      have "k = 1" "hex_index x = None \<or> hex_index (str_at s 1) = None"
        using d False unfolding esc(1) decode_escape [OF esc(2)] by (auto simp: s split: option.splits)
      moreover have "\<not> (\<exists>h \<in> set hex. s = [h])"
        using calculation(2) hex_set hex_at by (fastforce simp: s str_at_def hex_index_def)
      ultimately show ?thesis by (simp add: esc(1) ends_Cons)
    qed
  qed
qed

lemma dec_loop_None:
  assumes "n + length qp < length buf" "NUL \<notin> set qp"
  shows "case qp_dec_loop buf n qp of None \<Rightarrow> ends_in_escape qp
    | Some (buf', n') \<Rightarrow> \<not> ends_in_escape qp \<and> n' \<le> n + length qp \<and> length buf' = length buf"
  using assms
proof (induction buf n qp rule: qp_dec_loop.induct)
  case (1 buf n qp)
  show ?case
  proof (cases qp)
    case Nil
    then show ?thesis by (simp add: qp_dec_loop.simps ends_in_escape_def)
  next
    case (Cons c s)
    obtain b k where d: "qp_decode_byte qp = (b, k)" by fastforce
    have k: "0 < k" using qp_decode_progress [of qp] Cons d by simp
    have st: "if length qp < k then ends_in_escape qp else ends_in_escape (drop k qp) = ends_in_escape qp"
      using decode_step [of c s b k] d "1.prems"(2) Cons by simp
    have nz: "NUL \<notin> set (drop k qp)" using "1.prems"(2) by (auto dest: in_set_dropD)
    have ne: "qp \<noteq> []" using Cons by simp
    show ?thesis
    proof (cases "length qp < k")
      case True
      then have "qp_dec_loop buf n qp = None" by (subst qp_dec_loop.simps) (simp add: d ne)
      with st True show ?thesis by simp
    next
      case le: False
      show ?thesis
      proof (cases b)
        case None
        have "n + length (drop k qp) < length buf" using "1.prems"(1) by simp
        note ih = "1.IH"(1) [OF ne d [symmetric] le None this nz]
        have "qp_dec_loop buf n qp = qp_dec_loop buf n (drop k qp)"
          using le by (subst qp_dec_loop.simps) (simp add: d ne None)
        with ih st le show ?thesis by (auto split: option.splits)
      next
        case (Some x)
        have "n < length buf" using "1.prems"(1) by simp
        then have ms: "mem_store buf n x = Some (buf[n := x])" by (simp add: mem_store_def)
        have "Suc n + length (drop k qp) < length (buf[n := x])" using "1.prems"(1) k le ne by (cases qp) auto
        note ih = "1.IH"(2) [OF ne d [symmetric] le Some ms this nz]
        have "qp_dec_loop buf n qp = qp_dec_loop (buf[n := x]) (Suc n) (drop k qp)"
          using le by (subst qp_dec_loop.simps) (simp add: d ne Some ms)
        with ih st le k show ?thesis by (auto split: option.splits)
      qed
    qed
  qed
qed


section \<open>Round trip\<close>

text \<open>What survives encoding: the encoder takes line feeds for line ends, which it writes as CR LF, and
  drops carriage returns.\<close>

fun canonical :: "string option \<Rightarrow> char list \<Rightarrow> char list" where
  "canonical force [] = []"
| "canonical force (c # cs) =
     (if \<not> forced force c \<and> c = CR then []
      else if \<not> forced force c \<and> c = LF then [CR, LF] else [c]) @ canonical force cs"

text \<open>The encoding without soft line breaks.\<close>

fun qp_flat :: "string option \<Rightarrow> char list \<Rightarrow> string option" where
  "qp_flat force [] = Some []"
| "qp_flat force (c # cs) =
     do { tmp \<leftarrow> qp_encode_byte (c # cs) force; r \<leftarrow> qp_flat force cs; Some (tmp @ r) }"

lemma short_text_flat:
  "qp_text force bs n = Some t \<Longrightarrow> n + length t \<le> 75 \<Longrightarrow> qp_flat force bs = Some t"
proof (induction bs arbitrary: n t)
  case (Cons c cs)
  from Cons.prems obtain tmp where tmp: "qp_encode_byte (c # cs) force = Some tmp"
    by (auto simp: bind_eq_Some_conv)
  show ?case
  proof (cases "tmp \<noteq> [] \<and> hd tmp = CR")
    case True
    with Cons.prems tmp obtain r where "qp_text force cs 0 = Some r" "t = tmp @ r"
      by (auto simp: bind_eq_Some_conv)
    with Cons.IH [of 0 r] Cons.prems(2) tmp show ?thesis by simp
  next
    case False
    show ?thesis
    proof (cases "75 \<le> n")
      case True
      with Cons.prems tmp False show ?thesis by (auto simp: bind_eq_Some_conv)
    next
      case n: False
      with Cons.prems tmp False obtain r where "qp_text force cs (n + length tmp) = Some r" "t = tmp @ r"
        by (auto simp: bind_eq_Some_conv split: if_splits)
      with Cons.IH [of "n + length tmp" r] Cons.prems(2) tmp show ?thesis by simp
    qed
  qed
qed simp

lemma space_not: "qp_space c \<Longrightarrow> c \<noteq> CHR ''='' \<and> \<not> qp_literal c"
  by (auto simp: qp_space_def qp_literal_def SP_def TAB_def LF_def CR_def)

lemma equals_not_space: "\<not> qp_space (CHR ''='')"
  by (simp add: qp_space_def SP_def TAB_def LF_def CR_def)

lemma hex2_chars: "\<exists>a < 16. \<exists>b < 16. hex2 c = [hex ! a, hex ! b] \<and> char_of (a * 16 + b) = c"
proof (intro exI conjI)
  let ?n = "of_char c :: nat"
  have "?n < 256" by simp
  then show "?n div 16 < 16" by arith
  show "?n mod 16 < 16" by simp
  show "hex2 c = [hex ! (?n div 16), hex ! (?n mod 16)]" by (simp add: hex2_def)
  have "?n div 16 * 16 + ?n mod 16 = ?n" by simp
  then show "char_of (?n div 16 * 16 + ?n mod 16) = c" by simp
qed

lemma hex2_not_space: "\<not> list_all qp_space (hex2 c @ r)"
  using hex2_chars [of c] hex_digit by auto

text \<open>Nothing blank is left at the end of an encoding.\<close>

lemma flat_blank:
  "qp_flat force (d # ds) = Some t \<Longrightarrow> d \<noteq> LF \<Longrightarrow> d \<noteq> CR \<Longrightarrow> \<not> list_all qp_space t"
proof (induction ds arbitrary: d t)
  case Nil
  then show ?case
    using space_not equals_not_space by (auto simp: qp_encode_byte_Cons bind_eq_Some_conv split: if_splits)
next
  case (Cons e ds)
  from Cons.prems obtain tmp r where f: "qp_encode_byte (d # e # ds) force = Some tmp"
    "qp_flat force (e # ds) = Some r" "t = tmp @ r"
    unfolding qp_flat.simps(2) [of force d] by (auto simp: bind_eq_Some_conv simp del: qp_flat.simps)
  then show ?case
    using Cons.prems(2,3) Cons.IH [OF f(2)] space_not equals_not_space
    by (auto simp: qp_encode_byte_Cons split: if_splits)
qed

lemma decode_hex2:
  "qp_decode_byte (CHR ''='' # hex2 c @ r) = (Some c, 3)"
proof -
  obtain a b where ab: "a < 16" "b < 16" "hex2 c = [hex ! a, hex ! b]" "char_of (a * 16 + b) = c"
    using hex2_chars by blast
  have "a * 16 + b < 256" using ab by simp
  with ab show ?thesis
    using decode_escape [OF hex2_not_space [of c r]] hex_at by (simp add: str_at_def)
qed


lemma dec_emit:
  assumes "qp_decode_byte s = (Some c, k)" "k \<le> length s" "s \<noteq> []" "n < length buf"
  shows "qp_dec_loop buf n s = qp_dec_loop (buf[n := c]) (Suc n) (drop k s)"
  using assms by (subst qp_dec_loop.simps) (simp add: mem_store_def)

lemma decode_plain:
  assumes "qp_flat force (c # cs) = Some t" "t = c # r" "\<not> forced force c"
    "qp_literal c \<or> qp_blank c" "qp_flat force cs = Some r"
  shows "qp_decode_byte (c # r) = (Some c, 1)"
proof (rule decode_other)
  show "c \<noteq> CHR ''=''" using assms(4) equals_not by auto
  assume b: "qp_blank c"
  then have nl: "\<not> qp_literal c" by (auto simp: qp_literal_def qp_blank_def SP_def TAB_def)
  show "\<not> list_all qp_space r"
  proof (cases cs)
    case Nil
    with assms b nl show ?thesis by (simp add: qp_encode_byte_Cons)
  next
    case (Cons d ds)
    have "c \<noteq> CHR ''=''" using b equals_not by auto
    then have "d \<noteq> LF \<and> d \<noteq> CR"
      using assms b nl Cons by (auto simp: qp_encode_byte_Cons bind_eq_Some_conv split: if_splits)
    then show ?thesis using flat_blank [of force d ds r] assms(5) Cons by blast
  qed
qed

lemma dec_flat:
  assumes "qp_flat force bs = Some t" "n + length t < length buf"
  shows "\<exists>buf'. qp_dec_loop buf n t = Some (buf', n + length (canonical force bs))
    \<and> take (n + length (canonical force bs)) buf' = take n buf @ canonical force bs
    \<and> length buf' = length buf \<and> n + length (canonical force bs) < length buf"
  using assms
proof (induction bs arbitrary: n t buf)
  case Nil
  then show ?case by (simp add: qp_dec_loop.simps)
next
  case (Cons c cs)
  from Cons.prems(1) obtain tmp r where tmp: "qp_encode_byte (c # cs) force = Some tmp"
    and r: "qp_flat force cs = Some r" and t: "t = tmp @ r" by (auto simp: bind_eq_Some_conv)
  have one: ?case if st: "qp_dec_loop buf n t = qp_dec_loop (buf[n := c]) (Suc n) r"
    and cf: "canonical force (c # cs) = c # canonical force cs" and l: "tmp \<noteq> []"
  proof -
    have "Suc n + length r < length (buf[n := c])"
      using Cons.prems(2) l t by (cases tmp) auto
    from Cons.IH [OF r this] obtain b where b:
      "qp_dec_loop (buf[n := c]) (Suc n) r = Some (b, Suc n + length (canonical force cs))"
      "take (Suc n + length (canonical force cs)) b = take (Suc n) (buf[n := c]) @ canonical force cs"
      "length b = length (buf[n := c])" "Suc n + length (canonical force cs) < length (buf[n := c])" by blast
    have "n < length buf" using Cons.prems(2) by simp
    with b st cf show ?case by (simp add: take_Suc_conv_app_nth)
  qed
  have n: "n < length buf" using Cons.prems(2) by simp
  consider (esc) "tmp = CHR ''='' # hex2 c" "canonical force (c # cs) = c # canonical force cs"
    | (plain) "tmp = [c]" "\<not> forced force c" "qp_literal c \<or> qp_blank c"
    | (cr) "\<not> forced force c" "c = CR" "tmp = []" | (lf) "\<not> forced force c" "c = LF" "tmp = [CR, LF]"
    using tmp literal_not_CR [of c] blank_not_CR [of c]
    by (auto simp: qp_encode_byte_Cons qp_literal_def qp_blank_def LF_def CR_def SP_def TAB_def
        split: if_splits list.splits)
  then show ?case
  proof cases
    case esc
    have "qp_decode_byte t = (Some c, 3)" using decode_hex2 [of c r] by (simp add: t esc(1))
    from dec_emit [OF this _ _ n] one [OF _ esc(2)] show ?thesis by (simp add: t esc(1) hex2_def)
  next
    case plain
    have d: "qp_decode_byte (c # r) = (Some c, 1)"
      using decode_plain [OF Cons.prems(1) _ plain(2,3) r] by (simp add: t plain(1))
    have "canonical force (c # cs) = c # canonical force cs"
      using plain(2,3) by (auto simp: qp_literal_def qp_blank_def LF_def CR_def SP_def TAB_def)
    with dec_emit [OF d _ _ n] one show ?thesis by (simp add: t plain(1))
  next
    case cr
    with Cons.IH [OF r] Cons.prems(2) show ?thesis by (simp add: t)
  next
    case lf
    have d: "qp_decode_byte (CR # s) = (Some CR, 1)" "qp_decode_byte (LF # s) = (Some LF, 1)" for s
      by (rule decode_other; simp add: qp_blank_def LF_def CR_def SP_def TAB_def)+
    have n2: "Suc n < length (buf[n := CR])" using Cons.prems(2) by (simp add: t lf)
    have "qp_dec_loop buf n t = qp_dec_loop (buf[n := CR, Suc n := LF]) (Suc (Suc n)) r"
      using dec_emit [OF d(1) [of "LF # r"] _ _ n] dec_emit [OF d(2) [of r] _ _ n2] by (simp add: t lf)
    moreover have "Suc (Suc n) + length r < length (buf[n := CR, Suc n := LF])"
      using Cons.prems(2) by (simp add: t lf)
    from Cons.IH [OF r this] obtain b where
      "qp_dec_loop (buf[n := CR, Suc n := LF]) (Suc (Suc n)) r = Some (b, Suc (Suc n) + length (canonical force cs))"
      "take (Suc (Suc n) + length (canonical force cs)) b
         = take (Suc (Suc n)) (buf[n := CR, Suc n := LF]) @ canonical force cs"
      "length b = length buf" "Suc (Suc n) + length (canonical force cs) < length buf" by auto
    moreover have "canonical force (c # cs) = [CR, LF] @ canonical force cs"
      using lf by (simp add: CR_def LF_def)
    ultimately show ?thesis using n n2 by (simp add: take_Suc_conv_app_nth)
  qed
qed


section \<open>Properties\<close>



text \<open>Into a buffer longer than the text, the decoder never writes out of bounds; it leaves the
  text behind exactly when the text ends in an equals sign and one hexadecimal digit, as \<open>strchr\<close>
  finds the terminator in the table of digits.\<close>

theorem qp_decoder_bounds:
  assumes "length t < length buf" and "NUL \<notin> set t"
  shows "case qp_to_binary m t (Some buf) 0 of
      None \<Rightarrow> ends_in_escape t
    | Some None \<Rightarrow> False
    | Some (Some (b, n)) \<Rightarrow> \<not> ends_in_escape t \<and> n \<le> length t \<and> length b = length buf \<and> b ! n = NUL"
proof -
  have l: "0 + length t < length (buf[0 := NUL])" using assms(1) by simp
  have m: "mem_store buf 0 NUL = Some (buf[0 := NUL])" using assms(1) by (cases buf) (auto simp: mem_store_def)
  have "b \<noteq> [] \<Longrightarrow> n \<le> length t \<Longrightarrow> length b = length buf \<Longrightarrow> mem_store b n NUL = Some (b[n := NUL])" for b n
    using assms(1) by (simp add: mem_store_def)
  with dec_loop_None [OF l assms(2)] m assms(1) show ?thesis
    by (auto simp: qp_to_binary_def mem_store_def split: option.splits)
qed

theorem qp_decoder_bounds_witness:
  "qp_to_binary True ''a=4'' (Some (replicate 8 NUL)) 0 = None"
proof -
  have "ends_in_escape ''a=4''" by (auto simp: ends_in_escape_def hex_def)
  with qp_decoder_bounds [of "''a=4''" "replicate 8 NUL" True] show ?thesis
    by (auto split: option.splits)
qed



text \<open>With no buffer given, the decoder allocates exactly the length of the text, one byte short of the
  terminator when nothing shrinks.\<close>

lemma qp_own_buffer_overflows:
  assumes "list_all qp_literal t"
  shows "qp_to_binary True t None 0 = None"
proof -
  have L: "qp_dec_loop buf n t = Some (buf', n') \<Longrightarrow> n' = n + length t \<and> length buf' = length buf" for buf n buf' n'
    using assms
  proof (induction t arbitrary: buf n)
    case Nil
    then show ?case by (simp add: qp_dec_loop.simps)
  next
    case (Cons c s)
    have d: "qp_decode_byte (c # s) = (Some c, 1)" using Cons.prems(2) by (simp add: qp_decode_byte_def)
    have "n < length buf"
      using Cons.prems(1) d by (subst (asm) qp_dec_loop.simps) (auto simp: mem_store_def split: if_splits)
    with dec_emit [OF d _ _ this] Cons show ?case by simp
  qed
  have "mem_store b n NUL = None" if "qp_dec_loop ((replicate (length t) NUL)[0 := NUL]) 0 t = Some (b, n)" for b n
    using L [OF that] by (simp add: mem_store_def)
  then show ?thesis
    by (cases "qp_dec_loop ((replicate (length t) NUL)[0 := NUL]) 0 t")
      (auto simp: qp_to_binary_def mem_store_def [of "replicate _ _"])
qed

end
