(* ===== verification/ByteStore.thy ===== *)
theory ByteStore
  imports Prelude Complex_Main
begin

text \<open>
  The byte things of modules/binary: objects whose private data is a handle on a block of memory.

  The memory of the program is a map from addresses to blocks of bytes, the objects a map from
  addresses to a class, a handle and the elements of an array.  \<open>JS_realloc\<close> always moves the
  block, which is the case a program has to be ready for, and fresh memory holds garbage.  An
  operation returns, throws, \<open>Fault\<close>s when it reads or writes memory it does not have, or
  \<open>Hang\<close>s in a loop that never ends.  A JavaScript number is a rational (rounding is not
  modelled), an infinity or NaN; the conversion of other values to a number runs script code, which
  may change the state, so it is a parameter, and so is what C leaves undefined: the value of a
  conversion out of range and the contents of fresh memory.
\<close>

section \<open>Values, objects, memory\<close>

datatype jsdouble = Fin rat | PInf | NInf | NaN

datatype jsval = JVoid | JBool bool | JInt int | JDouble jsdouble | JString string | JObj ptr

datatype jsclass = ByteString_class | ByteArray_class | ByteThing_class | Array_class | Other_class

record bt_handle =
  hlength :: nat
  buffer :: ptr
  memoryOwner :: ptr
  bt_immutable :: bool
  capacity :: nat

record jsobj =
  oclass :: jsclass
  opriv :: "bt_handle option"
  elems :: "jsval list"

record bst =
  blocks :: "ptr \<Rightarrow> byte list option"
  objects :: "ptr \<Rightarrow> jsobj option"
  bnext :: ptr

datatype 'a res = Fault | Hang | Throw bst | Ret 'a bst

fun rbind :: "'a res \<Rightarrow> ('a \<Rightarrow> bst \<Rightarrow> 'b res) \<Rightarrow> 'b res" where
  "rbind (Ret x s) f = f x s"
| "rbind (Throw s) f = Throw s"
| "rbind Fault f = Fault"
| "rbind Hang f = Hang"

definition the_or_fault :: "'a option \<Rightarrow> ('a \<Rightarrow> 'b res) \<Rightarrow> 'b res" where
  "the_or_fault x f = (case x of None \<Rightarrow> Fault | Some y \<Rightarrow> f y)"

lemma the_or_fault_simps [simp]: "the_or_fault None f = Fault" "the_or_fault (Some x) f = f x"
  by (simp_all add: the_or_fault_def)

record env =
  mem_ok :: "ptr \<Rightarrow> nat \<Rightarrow> bool"
  garbage :: "ptr \<Rightarrow> nat \<Rightarrow> byte"
  to_number :: "jsval \<Rightarrow> bst \<Rightarrow> jsdouble res"
  wild :: "jsdouble \<Rightarrow> nat"
  byteArray_proto :: ptr
  byteString_proto :: ptr

section \<open>Memory\<close>

definition new_block :: "env \<Rightarrow> ptr \<Rightarrow> nat \<Rightarrow> byte list" where
  "new_block e p n = map (garbage e p) [0..<n]"

definition JS_malloc :: "env \<Rightarrow> nat \<Rightarrow> bst \<Rightarrow> ptr \<times> bst" where
  "JS_malloc e n s =
     (let p = bnext s in
      if mem_ok e p n
      then (p, s\<lparr>blocks := (blocks s)(p \<mapsto> new_block e p n), bnext := Suc p\<rparr>)
      else (NULL, s))"

definition JS_free :: "ptr \<Rightarrow> bst \<Rightarrow> bst option" where
  "JS_free p s =
     (if p = NULL then Some s
      else if blocks s p = None then None
      else Some (s\<lparr>blocks := (blocks s)(p := None)\<rparr>))"

definition JS_realloc :: "env \<Rightarrow> ptr \<Rightarrow> nat \<Rightarrow> bst \<Rightarrow> (ptr \<times> bst) option" where
  "JS_realloc e p n s =
     (if p = NULL then Some (JS_malloc e n s)
      else case blocks s p of
        None \<Rightarrow> None
      | Some b \<Rightarrow>
          (let q = bnext s in
           if mem_ok e q n
           then Some (q, s\<lparr>blocks := (blocks s)(p := None, q \<mapsto> take n b @ drop (length b) (new_block e q n)),
                           bnext := Suc q\<rparr>)
           else Some (NULL, s)))"

text \<open>A pointer into a block is its address and an offset.  Moving no bytes touches no memory.\<close>

definition read_bytes :: "bst \<Rightarrow> ptr \<Rightarrow> nat \<Rightarrow> nat \<Rightarrow> byte list option" where
  "read_bytes s p off n =
     (if n = 0 then Some [] else case blocks s p of None \<Rightarrow> None | Some b \<Rightarrow> load_block b off n)"

definition write_bytes :: "bst \<Rightarrow> ptr \<Rightarrow> nat \<Rightarrow> byte list \<Rightarrow> bst option" where
  "write_bytes s p off xs =
     (if xs = [] then Some s
      else case blocks s p of None \<Rightarrow> None
        | Some b \<Rightarrow> map_option (\<lambda>b'. s\<lparr>blocks := (blocks s)(p \<mapsto> b')\<rparr>) (store_block b off xs))"

definition read_byte :: "bst \<Rightarrow> ptr \<Rightarrow> nat \<Rightarrow> byte option" where
  "read_byte s p i = (case blocks s p of None \<Rightarrow> None | Some b \<Rightarrow> mem_load b i)"

definition write_byte :: "bst \<Rightarrow> ptr \<Rightarrow> nat \<Rightarrow> byte \<Rightarrow> bst option" where
  "write_byte s p i c =
     (case blocks s p of None \<Rightarrow> None
      | Some b \<Rightarrow> map_option (\<lambda>b'. s\<lparr>blocks := (blocks s)(p \<mapsto> b')\<rparr>) (mem_store b i c))"

section \<open>Numbers\<close>

definition trunc :: "rat \<Rightarrow> int" where
  "trunc r = (if r < 0 then \<lceil>r\<rceil> else \<lfloor>r\<rfloor>)"

text \<open>Conversions to \<open>unsigned char\<close>, \<open>size_t\<close> and \<open>ssize_t\<close>, truncating; anything
  may come out of a value out of range.\<close>

definition to_uchar :: "env \<Rightarrow> jsdouble \<Rightarrow> nat" where
  "to_uchar e d = (case d of
       Fin r \<Rightarrow> (if 0 \<le> trunc r \<and> trunc r < 256 then nat (trunc r) else wild e d mod 256)
     | _ \<Rightarrow> wild e d mod 256)"

definition to_size :: "env \<Rightarrow> jsdouble \<Rightarrow> nat" where
  "to_size e d = (case d of
       Fin r \<Rightarrow> (if 0 \<le> trunc r \<and> trunc r < int SIZE_MOD then nat (trunc r) else wild e d mod SIZE_MOD)
     | _ \<Rightarrow> wild e d mod SIZE_MOD)"

definition to_ssize :: "env \<Rightarrow> jsdouble \<Rightarrow> int" where
  "to_ssize e d =
     (let any = int (wild e d mod SIZE_MOD) - 2 ^ 63 in
      case d of
        Fin r \<Rightarrow> (if - (2 ^ 63) \<le> trunc r \<and> trunc r < 2 ^ 63 then trunc r else any)
      | _ \<Rightarrow> any)"

definition is_int :: "jsdouble \<Rightarrow> int \<Rightarrow> bool" where
  "is_int d n \<longleftrightarrow> d = Fin (of_int n)"

definition ValueToNumber :: "env \<Rightarrow> jsval \<Rightarrow> bst \<Rightarrow> jsdouble res" where
  "ValueToNumber e v s =
     (case v of JInt i \<Rightarrow> Ret (Fin (of_int i)) s | JDouble d \<Rightarrow> Ret d s | _ \<Rightarrow> to_number e v s)"

text \<open>What makes a value a byte.\<close>

definition byte_of :: "jsdouble \<Rightarrow> byte option" where
  "byte_of d = (case d of
       Fin r \<Rightarrow> (if r = of_int \<lfloor>r\<rfloor> \<and> 0 \<le> r \<and> r < 256 then Some (of_int \<lfloor>r\<rfloor>) else None)
     | _ \<Rightarrow> None)"

lemma trunc_of_int [simp]: "trunc (of_int n) = n"
  by (simp add: trunc_def)

lemma to_uchar_lt: "to_uchar e d < 256"
  by (auto simp: to_uchar_def split: jsdouble.splits)

lemma to_size_lt: "to_size e d < SIZE_MOD"
  by (auto simp: to_size_def SIZE_MOD_def split: jsdouble.splits)

lemma uchar_exact: "is_int d (int (to_uchar e d)) \<longleftrightarrow> byte_of d \<noteq> None"
proof (cases d)
  case (Fin r)
  show ?thesis
  proof (cases "\<exists>n. r = of_int n")
    case True
    then obtain n where r: "r = of_int n" by blast
    show ?thesis using to_uchar_lt [of e d]
      by (auto simp: Fin r is_int_def byte_of_def to_uchar_def of_int_eq_iff)
  next
    case False
    then have "r \<noteq> of_nat k" for k by (metis of_int_of_nat_eq)
    with False show ?thesis by (auto simp: Fin is_int_def byte_of_def)
  qed
qed (auto simp: is_int_def byte_of_def)

lemma uchar_value: "is_int d (int (to_uchar e d)) \<Longrightarrow> byte_of d = Some (of_nat (to_uchar e d))"
proof -
  define n where "n = to_uchar e d"
  assume "is_int d (int (to_uchar e d))"
  then have "d = Fin (of_nat n)" "n < 256" using to_uchar_lt [of e d] by (auto simp: is_int_def n_def)
  then have "byte_of d = Some (of_nat n)" by (simp add: byte_of_def)
  then show ?thesis by (simp only: n_def)
qed


section \<open>Handles\<close>

text \<open>\<open>JS_GET_CLASS\<close> and \<open>JS_GetPrivate\<close> of NULL are faults; the handle is read
  through the object each time, as the code reads it through its pointer.\<close>

definition get_object :: "ptr \<Rightarrow> bst \<Rightarrow> (jsobj \<Rightarrow> 'a res) \<Rightarrow> 'a res" where
  "get_object obj s f = the_or_fault (objects s obj) f"

definition get_handle :: "ptr \<Rightarrow> bst \<Rightarrow> (bt_handle \<Rightarrow> 'a res) \<Rightarrow> 'a res" where
  "get_handle obj s f = the_or_fault (Option.bind (objects s obj) opriv) f"

definition set_handle :: "ptr \<Rightarrow> bt_handle \<Rightarrow> bst \<Rightarrow> bst" where
  "set_handle obj h s =
     s\<lparr>objects := (objects s)(obj := map_option (\<lambda>ob. ob\<lparr>opriv := Some h\<rparr>) (objects s obj))\<rparr>"

definition gpsee_isByteThingClass :: "jsclass \<Rightarrow> bool" where
  "gpsee_isByteThingClass clasp \<longleftrightarrow> clasp \<in> {ByteString_class, ByteArray_class, ByteThing_class}"

text \<open>\<open>claspp\<close> is what the caller's class pointer holds, if not NULL.\<close>

definition byteThing_getHandle :: "ptr \<Rightarrow> jsclass option \<Rightarrow> bst \<Rightarrow> bt_handle res" where
  "byteThing_getHandle obj claspp s =
     (if obj = NULL then Throw s
      else get_object obj s (\<lambda>ob.
        if (case claspp of Some c \<Rightarrow> oclass ob \<noteq> c
            | None \<Rightarrow> oclass ob \<notin> {ByteString_class, ByteArray_class})
        then Throw s
        else case opriv ob of None \<Rightarrow> Throw s | Some hnd \<Rightarrow> Ret hnd s))"

text \<open>\<open>byteArray_getHandle\<close> and \<open>byteString_getHandle\<close>, through
  \<open>JS_GetInstancePrivate\<close>.\<close>

definition instance_handle :: "jsclass \<Rightarrow> ptr \<Rightarrow> bst \<Rightarrow> bt_handle res" where
  "instance_handle c obj s =
     get_object obj s (\<lambda>ob.
       if oclass ob \<noteq> c then Throw s
       else case opriv ob of None \<Rightarrow> Throw s | Some hnd \<Rightarrow> Ret hnd s)"

section \<open>Making byte things\<close>

definition JS_NewObject :: "env \<Rightarrow> jsclass \<Rightarrow> bst \<Rightarrow> ptr \<times> bst" where
  "JS_NewObject e clasp s =
     (let p = bnext s in
      if mem_ok e p 0
      then (p, s\<lparr>objects := (objects s)(p \<mapsto> \<lparr>oclass = clasp, opriv = None, elems = []\<rparr>), bnext := Suc p\<rparr>)
      else (NULL, s))"

text \<open>The block for the handle is only allocated or not; the buffer given is an address and an offset.
  \<open>obj = NULL\<close> asks for a new object.\<close>

definition byteThing_fromCArray ::
    "env \<Rightarrow> ptr \<times> nat \<Rightarrow> nat \<Rightarrow> ptr \<Rightarrow> jsclass \<Rightarrow> nat \<Rightarrow> bool \<Rightarrow> bst \<Rightarrow> ptr res" where
  "byteThing_fromCArray e buf len obj clasp btallocsize stealBuffer s =
     (if \<not> gpsee_isByteThingClass clasp then Throw s
      else if \<not> mem_ok e (bnext s) btallocsize then Throw s
      else
        let s = s\<lparr>bnext := Suc (bnext s)\<rparr>;
            (b, s') = (if stealBuffer then (fst buf, s) else if len \<noteq> 0 then JS_malloc e len s else (NULL, s))
        in if \<not> stealBuffer \<and> len \<noteq> 0 \<and> b = NULL then Throw s'
           else
             the_or_fault
               (if stealBuffer then Some s'
                else Option.bind (if buf = (NULL, 0) then Some (replicate len 0) else read_bytes s' (fst buf) (snd buf) len)
                       (write_bytes s' b 0)) (\<lambda>s.
             let (obj, s) = (if obj = NULL then JS_NewObject e clasp s else (obj, s))
             in if obj = NULL then Throw s
                else Ret obj (set_handle obj
                  \<lparr>hlength = len, buffer = b, memoryOwner = obj, bt_immutable = False, capacity = 0\<rparr> s)))"

definition byteThing_newHandle :: "env \<Rightarrow> nat \<Rightarrow> bst \<Rightarrow> bt_handle res" where
  "byteThing_newHandle e size_hnd s =
     (if mem_ok e (bnext s) size_hnd
      then Ret \<lparr>hlength = 0, buffer = NULL, memoryOwner = NULL, bt_immutable = False, capacity = 0\<rparr>
             (s\<lparr>bnext := Suc (bnext s)\<rparr>)
      else Throw s)"

text \<open>The generic byte things of gpsee_bytethings.c.  On a failing allocation of the copy its buffer is
  NULL, and is copied to only when there is something to copy.\<close>

definition gpsee_newByteThing :: "env \<Rightarrow> nat \<Rightarrow> ptr \<Rightarrow> nat \<Rightarrow> bool \<Rightarrow> bst \<Rightarrow> ptr res" where
  "gpsee_newByteThing e size_hnd buf len copy s =
     (if copy \<and> len = 0 then Throw s
      else if \<not> mem_ok e (bnext s) size_hnd then Throw s
      else
        let s = s\<lparr>bnext := Suc (bnext s)\<rparr>;
            (robj, s) = JS_NewObject e ByteThing_class s
        in if robj = NULL then Throw s
           else if copy then
             let (b, s) = JS_malloc e len s
             in the_or_fault
                  (if buf = NULL then Some s
                   else Option.bind (read_bytes s buf 0 len) (write_bytes s b 0)) (\<lambda>s.
                Ret robj (set_handle robj
                  \<lparr>hlength = len, buffer = b, memoryOwner = robj, bt_immutable = False, capacity = 0\<rparr> s))
           else Ret robj (set_handle robj
                  \<lparr>hlength = len, buffer = buf, memoryOwner = NULL, bt_immutable = True, capacity = 0\<rparr> s))"

section \<open>Finalizing and tracing\<close>

text \<open>One finalizer for the three classes: the object with its handle goes, and the buffer with its
  owner.\<close>

definition byteThing_Finalize :: "ptr \<Rightarrow> bst \<Rightarrow> bst option" where
  "byteThing_Finalize obj s =
     (case Option.bind (objects s obj) opriv of
        None \<Rightarrow> Some (s\<lparr>objects := (objects s)(obj := None)\<rparr>)
      | Some hnd \<Rightarrow>
          map_option (\<lambda>s. s\<lparr>objects := (objects s)(obj := None)\<rparr>)
            (if buffer hnd \<noteq> NULL \<and> memoryOwner hnd = obj then JS_free (buffer hnd) s else Some s))"

definition gpsee_byteThingTracer :: "bst \<Rightarrow> ptr \<Rightarrow> ptr option" where
  "gpsee_byteThingTracer s obj =
     (case Option.bind (objects s obj) opriv of
        None \<Rightarrow> None
      | Some hnd \<Rightarrow>
          (if memoryOwner hnd \<noteq> NULL \<and> memoryOwner hnd \<noteq> obj then Some (memoryOwner hnd) else None))"


section \<open>From JavaScript values\<close>

definition JSUINT_MOD :: nat where
  "JSUINT_MOD = 2 ^ 32"

text \<open>Reading the length of an array and its elements; an element past the end is undefined.\<close>

definition JS_GetArrayLength :: "ptr \<Rightarrow> bst \<Rightarrow> nat res" where
  "JS_GetArrayLength arr s =
     (case objects s arr of None \<Rightarrow> Fault | Some ob \<Rightarrow> Ret (length (elems ob) mod JSUINT_MOD) s)"

definition JS_GetElement :: "ptr \<Rightarrow> nat \<Rightarrow> bst \<Rightarrow> jsval res" where
  "JS_GetElement arr i s =
     (case objects s arr of None \<Rightarrow> Fault
      | Some ob \<Rightarrow> Ret (if i < length (elems ob) then elems ob ! i else JVoid) s)"

text \<open>The loop; the counters are 32 bits wide.  \<open>buf\<close> is a position in a block.  The result is
  the position of the buffer and \<open>stop\<close> and \<open>arrLen\<close>, or the buffer to free (NULL after a
  failed reallocation).\<close>

function copy_loop ::
    "env \<Rightarrow> ptr \<Rightarrow> nat \<Rightarrow> bool \<Rightarrow> ptr \<times> nat \<Rightarrow> nat \<Rightarrow> nat \<Rightarrow> nat \<Rightarrow> nat \<Rightarrow> bst \<Rightarrow>
     (ptr + (ptr \<times> nat) \<times> nat \<times> nat) res" where
  "copy_loop e arr start ownBuffer buf bufLen arrLen i stop s =
     (if \<not> i < stop mod JSUINT_MOD then Ret (Inr (buf, stop, arrLen)) s
      else
        let failOut = (\<lambda>buf s. Ret (Inl buf) s) in
        case JS_GetElement arr (start + i) s of
          Ret v s1 \<Rightarrow>
            (case ValueToNumber e v s1 of
               Throw s2 \<Rightarrow> failOut (fst buf) s2
             | Fault \<Rightarrow> Fault
             | Hang \<Rightarrow> Hang
             | Ret d s2 \<Rightarrow>
                 if \<not> is_int d (int (to_uchar e d)) then failOut (fst buf) s2
                 else case write_byte s2 (fst buf) (snd buf + i) (of_nat (to_uchar e d)) of
                   None \<Rightarrow> Fault
                 | Some s3 \<Rightarrow>
                     (case JS_GetArrayLength arr s3 of
                        Ret arrLen s3 \<Rightarrow>
                          if arrLen \<noteq> bufLen then
                            if ownBuffer then
                              (case JS_realloc e (fst buf) arrLen s3 of
                                 None \<Rightarrow> Fault
                               | Some (q, s4) \<Rightarrow>
                                   if q = NULL then failOut NULL s4
                                   else copy_loop e arr start ownBuffer (q, 0) arrLen arrLen (Suc i) arrLen s4)
                            else copy_loop e arr start ownBuffer buf bufLen arrLen (Suc i) (min bufLen arrLen) s3
                          else copy_loop e arr start ownBuffer buf bufLen arrLen (Suc i) stop s3
                      | _ \<Rightarrow> Fault))
        | _ \<Rightarrow> Fault)"
  by pat_completeness auto
termination
  by (relation "measure (\<lambda>(e, arr, start, ownBuffer, buf, bufLen, arrLen, i, stop, s). JSUINT_MOD - i)")
    (auto simp: JSUINT_MOD_def dest: less_le_trans [OF _ less_imp_le [OF mod_less_divisor]])

declare copy_loop.simps [simp del]

text \<open>\<open>buf = (NULL, 0)\<close> asks for a buffer.  The result is the buffer, its length and what
  \<open>more\<close> is told.\<close>

definition copyJSArray_toBuf ::
    "env \<Rightarrow> ptr \<Rightarrow> nat \<Rightarrow> ptr \<times> nat \<Rightarrow> nat \<Rightarrow> bst \<Rightarrow> ((ptr \<times> nat) \<times> nat \<times> bool) res" where
  "copyJSArray_toBuf e arr start bufp lenp s =
     (let ownBuffer = (bufp = (NULL, 0)) in
      rbind (JS_GetArrayLength arr s) (\<lambda>arrLen s.
        if arrLen = 0 then Ret (if ownBuffer then (NULL, 0) else bufp, 0, False) s
        else
          let (buf, s) = (if ownBuffer then (let (p, s) = JS_malloc e arrLen s in ((p, 0), s)) else (bufp, s));
              bufLen = (if ownBuffer then arrLen else lenp mod JSUINT_MOD);
              stop = (if ownBuffer then bufLen else min bufLen arrLen)
          in if buf = (NULL, 0) then Throw s
             else rbind (copy_loop e arr start ownBuffer buf bufLen arrLen 0 stop s) (\<lambda>r s.
               case r of
                 Inr (buf, stop, arrLen) \<Rightarrow> Ret (buf, stop, arrLen < stop) s
               | Inl b \<Rightarrow> if ownBuffer then the_or_fault (JS_free b s) Throw else Throw s)))"


definition on_number ::
    "env \<Rightarrow> jsval \<Rightarrow> bst \<Rightarrow> (bst \<Rightarrow> 'a res) \<Rightarrow> (jsdouble \<Rightarrow> bst \<Rightarrow> 'a res) \<Rightarrow> 'a res" where
  "on_number e v s fail ok =
     (case ValueToNumber e v s of Ret d s \<Rightarrow> ok d s | Throw s \<Rightarrow> fail s | Fault \<Rightarrow> Fault | Hang \<Rightarrow> Hang)"

definition negative :: "jsdouble \<Rightarrow> bool" where
  "negative d = (case d of Fin r \<Rightarrow> r < 0 | NInf \<Rightarrow> True | _ \<Rightarrow> False)"

text \<open>The coercions return an error message, the left summand, or the value.\<close>

definition byteThing_val2ssize :: "env \<Rightarrow> jsval \<Rightarrow> bst \<Rightarrow> (string + int) res" where
  "byteThing_val2ssize e val s =
     on_number e val s (Ret (Inl ''invalid type''))
       (\<lambda>temp. Ret (if \<not> is_int temp (to_ssize e temp) then Inl ''invalid value'' else Inr (to_ssize e temp)))"

definition byteThing_val2size :: "env \<Rightarrow> jsval \<Rightarrow> bst \<Rightarrow> (string + nat) res" where
  "byteThing_val2size e val s =
     on_number e val s (Ret (Inl ''invalid type''))
       (\<lambda>temp. Ret (if negative temp then Inl ''negative number is invalid''
          else if \<not> is_int temp (int (to_size e temp)) then Inl ''invalid value'' else Inr (to_size e temp)))"

definition byteThing_val2byte :: "env \<Rightarrow> jsval \<Rightarrow> bst \<Rightarrow> (string + byte) res" where
  "byteThing_val2byte e val s =
     (let number = on_number e val s (Ret (Inl ''invalid byte''))
        (\<lambda>temp. Ret (if is_int temp (int (to_uchar e temp)) then Inr (of_nat (to_uchar e temp))
                      else Inl ''invalid byte''))
      in case val of
        JObj obj \<Rightarrow>
          get_object obj s (\<lambda>ob.
            if oclass ob \<noteq> ByteString_class \<and> oclass ob \<noteq> ByteArray_class then Ret (Inl ''cannot convert'') s
            else case opriv ob of
                None \<Rightarrow> Ret (Inl ''called object is not valid'') s
              | Some hnd \<Rightarrow>
                  if hlength hnd \<noteq> 1 then Ret (Inl ''contains too many or too few bytes'') s else number)
      | _ \<Rightarrow> number)"

definition byteThing_arg2size ::
    "env \<Rightarrow> jsval list \<Rightarrow> nat \<Rightarrow> nat \<Rightarrow> nat \<Rightarrow> bool \<Rightarrow> nat \<Rightarrow> bst \<Rightarrow> nat res" where
  "byteThing_arg2size e argv argn mn mx mayDefault defaultSize s =
     (if length argv \<le> argn then (if \<not> mayDefault then Throw s else Ret defaultSize s)
      else rbind (byteThing_val2ssize e (argv ! argn) s) (\<lambda>r s.
        case r of
          Inl errmsg \<Rightarrow> Throw s
        | Inr temp \<Rightarrow>
            (if temp < 0 \<or> temp < int mn then Throw s
             else if int mx < temp then Throw s
             else Ret (nat temp) s)))"

definition byteThing_arg2ssize ::
    "env \<Rightarrow> jsval list \<Rightarrow> nat \<Rightarrow> int \<Rightarrow> int \<Rightarrow> bool \<Rightarrow> int \<Rightarrow> bst \<Rightarrow> int res" where
  "byteThing_arg2ssize e argv argn mn mx mayDefault defaultSize s =
     (if length argv \<le> argn then (if \<not> mayDefault then Throw s else Ret defaultSize s)
      else rbind (byteThing_val2ssize e (argv ! argn) s) (\<lambda>r s.
        case r of
          Inl errmsg \<Rightarrow> Throw s
        | Inr retval \<Rightarrow> if retval < mn then Throw s else if mx < retval then Throw s else Ret retval s))"

section \<open>Argument lists as bytes\<close>

text \<open>The buffer being filled: its block, its length and the position written next.  Growing it moves
  it.\<close>

definition grow_to :: "env \<Rightarrow> nat \<Rightarrow> ptr \<times> nat \<times> nat \<Rightarrow> bst \<Rightarrow> (ptr \<times> nat \<times> nat) res" where
  "grow_to e buflen w s =
     (case w of (buf, _, bufpos) \<Rightarrow>
        the_or_fault (JS_realloc e buf buflen s) (\<lambda>(q, s).
          if q = NULL then Throw s else Ret (q, buflen, bufpos) s))"

text \<open>The loop over the pieces of an array asks for more as long as there is; the pieces may be at most
  \<open>fuel\<close>.\<close>

fun array_pieces :: "nat \<Rightarrow> env \<Rightarrow> ptr \<Rightarrow> nat \<Rightarrow> nat \<Rightarrow> ptr \<times> nat \<times> nat \<Rightarrow> bst \<Rightarrow> ((ptr \<times> nat \<times> nat) \<times> nat) res" where
  "array_pieces 0 e obj arrLen bytesRead w s = Hang"
| "array_pieces (Suc fuel) e obj arrLen bytesRead w s =
     rbind (case w of (buf, buflen, bufpos) \<Rightarrow>
              if buflen < bufpos + arrLen then grow_to e (bufpos + arrLen) w s else Ret w s) (\<lambda>w s.
       case w of (buf, buflen, bufpos) \<Rightarrow>
         rbind (copyJSArray_toBuf e obj bytesRead (buf, bufpos) (buflen - bufpos) s) (\<lambda>(_, len, more) s.
           if more then array_pieces fuel e obj arrLen (bytesRead + len) w s
           else Ret (w, bytesRead + len) s))"

definition val2bytes_step :: "env \<Rightarrow> jsval \<Rightarrow> ptr \<times> nat \<times> nat \<Rightarrow> bst \<Rightarrow> (ptr \<times> nat \<times> nat) res" where
  "val2bytes_step e val w s =
     (case val of
        JObj obj \<Rightarrow>
          get_object obj s (\<lambda>ob.
            if oclass ob = Array_class then
              rbind (JS_GetArrayLength obj s) (\<lambda>arrLen s.
                rbind (array_pieces 2 e obj arrLen 0 w s) (\<lambda>((buf, buflen, bufpos), bytesRead) s.
                  Ret (buf, buflen, bufpos + bytesRead) s))
            else if gpsee_isByteThingClass (oclass ob) then
              (case opriv ob of
                 None \<Rightarrow> Throw s
               | Some hnd \<Rightarrow>
                   rbind (case w of (buf, buflen, bufpos) \<Rightarrow>
                            if buflen < bufpos + hlength hnd then grow_to e (bufpos + hlength hnd) w s
                            else Ret w s) (\<lambda>(buf, buflen, bufpos) s.
                     the_or_fault (Option.bind (read_bytes s (buffer hnd) 0 (hlength hnd))
                                     (write_bytes s buf bufpos)) (\<lambda>s.
                       Ret (buf, buflen, bufpos + hlength hnd) s)))
            else Throw s)
      | _ \<Rightarrow>
          on_number e val s Throw (\<lambda>d s.
            if \<not> is_int d (int (to_uchar e d)) then Throw s
            else
              rbind (case w of (buf, buflen, bufpos) \<Rightarrow>
                       if buflen \<le> bufpos then grow_to e (buflen * 2) w s else Ret w s) (\<lambda>(buf, buflen, bufpos) s.
                the_or_fault (write_byte s buf bufpos (of_nat (to_uchar e d))) (\<lambda>s.
                  Ret (buf, buflen, bufpos + 1) s))))"

fun val2bytes_loop :: "env \<Rightarrow> jsval list \<Rightarrow> ptr \<times> nat \<times> nat \<Rightarrow> bst \<Rightarrow> (ptr \<times> nat \<times> nat) res" where
  "val2bytes_loop e [] w s = Ret w s"
| "val2bytes_loop e (val # vals) w s = rbind (val2bytes_step e val w s) (val2bytes_loop e vals)"

text \<open>The result is the buffer, its length, and whether it is the caller's to free.  A single byte thing
  is not copied: its own buffer is the result, unless the caller needs a new one.  That the final
  reallocation gives a buffer is asserted, in debug builds only.\<close>

definition byteThing_val2bytes :: "env \<Rightarrow> jsval list \<Rightarrow> bool \<Rightarrow> bst \<Rightarrow> (ptr \<times> nat \<times> bool) res" where
  "byteThing_val2bytes e vals stealBuffer s =
     (let copy =
        (let (buf, s) = JS_malloc e 64 s
         in if buf = NULL then Throw s
            else rbind (val2bytes_loop e vals (buf, 64, 0) s) (\<lambda>(buf, _, bufpos) s.
              the_or_fault (JS_realloc e buf bufpos s) (\<lambda>(q, s).
                Ret (q, bufpos, True) s)))
      in case vals of
        [JObj obj] \<Rightarrow>
          if stealBuffer then copy
          else get_object obj s (\<lambda>ob.
            if oclass ob = ByteString_class \<or> oclass ob = ByteArray_class then
              (case opriv ob of None \<Rightarrow> Throw s | Some hnd \<Rightarrow> Ret (buffer hnd, hlength hnd, stealBuffer) s)
            else copy)
      | _ \<Rightarrow> copy)"


section \<open>Well-formed stores\<close>

definition contents :: "bst \<Rightarrow> ptr \<Rightarrow> byte list option" where
  "contents s obj =
     Option.bind (Option.bind (objects s obj) opriv) (\<lambda>h. read_bytes s (buffer h) 0 (hlength h))"

definition handle_ok :: "bst \<Rightarrow> bt_handle \<Rightarrow> bool" where
  "handle_ok s h \<longleftrightarrow>
     (if buffer h = NULL then hlength h = 0 \<and> capacity h = 0
      else \<exists>b. blocks s (buffer h) = Some b \<and> hlength h \<le> length b \<and> capacity h \<le> length b)"

definition handle_of :: "bst \<Rightarrow> ptr \<Rightarrow> bt_handle option" where
  "handle_of s obj = Option.bind (objects s obj) opriv"

definition bt_ok :: "bst \<Rightarrow> bool" where
  "bt_ok s \<longleftrightarrow> 0 < bnext s
     \<and> (\<forall>p. blocks s p \<noteq> None \<longrightarrow> 0 < p \<and> p < bnext s)
     \<and> (\<forall>p. objects s p \<noteq> None \<longrightarrow> 0 < p \<and> p < bnext s)
     \<and> (\<forall>p h. handle_of s p = Some h \<longrightarrow> handle_ok s h)
     \<and> (\<forall>p q ob h h'. objects s p = Some ob \<longrightarrow> oclass ob = ByteArray_class \<longrightarrow> opriv ob = Some h \<longrightarrow>
          p \<noteq> q \<longrightarrow> handle_of s q = Some h' \<longrightarrow> buffer h \<noteq> NULL \<longrightarrow> buffer h' \<noteq> buffer h)"

lemma bt_okD:
  assumes "bt_ok s"
  shows "0 < bnext s"
    and "blocks s p \<noteq> None \<Longrightarrow> 0 < p \<and> p < bnext s"
    and "objects s p \<noteq> None \<Longrightarrow> 0 < p \<and> p < bnext s"
    and "handle_of s p = Some h \<Longrightarrow> handle_ok s h"
    and "objects s p = Some ob \<Longrightarrow> oclass ob = ByteArray_class \<Longrightarrow> opriv ob = Some h \<Longrightarrow> p \<noteq> q \<Longrightarrow>
      handle_of s q = Some h' \<Longrightarrow> buffer h \<noteq> NULL \<Longrightarrow> buffer h' \<noteq> buffer h"
  using assms unfolding bt_ok_def by blast+

lemma bt_okI:
  assumes "0 < bnext s"
    and "\<And>p b. blocks s p = Some b \<Longrightarrow> 0 < p \<and> p < bnext s"
    and "\<And>p ob. objects s p = Some ob \<Longrightarrow> 0 < p \<and> p < bnext s"
    and "\<And>p h. handle_of s p = Some h \<Longrightarrow> handle_ok s h"
    and "\<And>p q ob h h'. objects s p = Some ob \<Longrightarrow> oclass ob = ByteArray_class \<Longrightarrow> opriv ob = Some h \<Longrightarrow> p \<noteq> q \<Longrightarrow>
      handle_of s q = Some h' \<Longrightarrow> buffer h \<noteq> NULL \<Longrightarrow> buffer h' \<noteq> buffer h"
  shows "bt_ok s"
  using assms unfolding bt_ok_def by blast

lemma bt_ok_NULL: "bt_ok s \<Longrightarrow> blocks s 0 = None" "bt_ok s \<Longrightarrow> objects s 0 = None"
  using bt_okD(2,3) [of s 0] by (metis less_irrefl not_None_eq)+

lemma handle_ok_block:
  "handle_ok s h \<Longrightarrow> 0 < hlength h \<Longrightarrow> \<exists>b. blocks s (buffer h) = Some b \<and> hlength h \<le> length b \<and> 0 < buffer h"
  by (auto simp: handle_ok_def split: if_splits)

lemma contents_Some:
  assumes "bt_ok s" "handle_of s obj = Some h"
  shows "\<exists>bs. contents s obj = Some bs \<and> length bs = hlength h \<and> read_bytes s (buffer h) 0 (hlength h) = Some bs"
proof -
  have "handle_ok s h" using bt_okD(4) [OF assms] .
  then show ?thesis
    using handle_ok_block [of s h] assms(2)
    by (cases "hlength h = 0") (auto simp: contents_def handle_of_def read_bytes_def load_block_def)
qed

text \<open>What an operation that only uses memory of its own keeps.\<close>

definition frame :: "bst \<Rightarrow> bst \<Rightarrow> bool" where
  "frame s s' \<longleftrightarrow> objects s' = objects s \<and> bnext s \<le> bnext s'
     \<and> (\<forall>p < bnext s. blocks s' p = blocks s p)
     \<and> (\<forall>p. blocks s' p \<noteq> None \<longrightarrow> p < bnext s')"

lemma frame_trans: "frame s s' \<Longrightarrow> frame s' s'' \<Longrightarrow> frame s s''"
  by (auto simp: frame_def)

lemma frame_refl: "bt_ok s \<Longrightarrow> frame s s"
  by (auto simp: frame_def bt_ok_def)

lemma frame_read:
  assumes "bt_ok s" "frame s s'" "handle_ok s h"
  shows "read_bytes s' (buffer h) i n = read_bytes s (buffer h) i n \<or> hlength h = 0"
proof (cases "hlength h = 0")
  case False
  with assms(3) handle_ok_block have "blocks s (buffer h) \<noteq> None" by fastforce
  with bt_okD(2) [OF assms(1) this] assms(2) show ?thesis by (simp add: frame_def read_bytes_def)
qed simp

lemma frame_handles: "frame s s' \<Longrightarrow> handle_of s' = handle_of s"
  by (auto simp: frame_def handle_of_def fun_eq_iff)

lemma frame_contents:
  assumes "bt_ok s" "frame s s'"
  shows "contents s' obj = contents s obj"
proof (cases "handle_of s obj")
  case (Some h)
  have "read_bytes s' (buffer h) 0 (hlength h) = read_bytes s (buffer h) 0 (hlength h)"
    using frame_read [OF assms bt_okD(4) [OF assms(1) Some], of 0 "hlength h"] by (auto simp: read_bytes_def)
  with Some assms(2) show ?thesis by (simp add: contents_def handle_of_def frame_def)
qed (use assms(2) in \<open>simp add: contents_def handle_of_def frame_def\<close>)

lemma frame_ok:
  assumes ok: "bt_ok s" and f: "frame s s'"
  shows "bt_ok s'"
proof (rule bt_okI)
  have o: "objects s' = objects s" using f by (simp add: frame_def)
  have n: "bnext s \<le> bnext s'" using f by (simp add: frame_def)
  show "0 < bnext s'" using bt_okD(1) [OF ok] n by simp
  show "0 < p \<and> p < bnext s'" if "blocks s' p = Some b" for p b
  proof -
    have "p \<noteq> 0"
      using bt_ok_NULL(1) [OF ok] bt_okD(1) [OF ok] f that by (intro notI) (auto simp: frame_def)
    with f that show ?thesis by (auto simp: frame_def)
  qed
  show "0 < p \<and> p < bnext s'" if "objects s' p = Some ob" for p ob
    using bt_okD(3) [OF ok, of p] that n by (simp add: o)
  show "handle_ok s' h" if "handle_of s' p = Some h" for p h
  proof -
    have k: "handle_ok s h" using bt_okD(4) [OF ok, of p h] that frame_handles [OF f] by simp
    have "blocks s' (buffer h) = blocks s (buffer h)" if "buffer h \<noteq> NULL"
      using k that bt_okD(2) [OF ok, of "buffer h"] f by (auto simp: handle_ok_def frame_def)
    with k show ?thesis by (auto simp: handle_ok_def)
  qed
  show "buffer h' \<noteq> buffer h" if "objects s' p = Some ob" "oclass ob = ByteArray_class" "opriv ob = Some h" "p \<noteq> q"
    "handle_of s' q = Some h'" "buffer h \<noteq> NULL" for p q ob h h'
    using bt_okD(5) [OF ok, of p ob h q h'] that frame_handles [OF f] by (simp add: o)
qed


section \<open>What an operation delivers\<close>

text \<open>\<open>delivers e s0 X Q r\<close>: the result \<open>r\<close>, in the frame of \<open>s0\<close>, is a value that
  satisfies \<open>Q\<close> for the bytes \<open>X\<close> describes, or an exception because there are none or
  memory ran out; nothing faults and nothing hangs.\<close>

definition plenty :: "env \<Rightarrow> bool" where
  "plenty e \<longleftrightarrow> (\<forall>p n. mem_ok e p n)"

definition delivers :: "env \<Rightarrow> bst \<Rightarrow> 'b option \<Rightarrow> ('b \<Rightarrow> 'a \<Rightarrow> bst \<Rightarrow> bool) \<Rightarrow> 'a res \<Rightarrow> bool" where
  "delivers e s0 X Q r =
     (case r of
        Ret x s \<Rightarrow> frame s0 s \<and> (\<exists>bs. X = Some bs \<and> Q bs x s)
      | Throw s \<Rightarrow> frame s0 s \<and> (X = None \<or> \<not> plenty e)
      | _ \<Rightarrow> False)"

lemma delivers_Ret [intro]: "frame s0 s \<Longrightarrow> X = Some bs \<Longrightarrow> Q bs x s \<Longrightarrow> delivers e s0 X Q (Ret x s)"
  by (simp add: delivers_def)

lemma delivers_Throw [intro]: "frame s0 s \<Longrightarrow> X = None \<or> \<not> plenty e \<Longrightarrow> delivers e s0 X Q (Throw s)"
  by (simp add: delivers_def)

lemma delivers_bind:
  assumes "delivers e s0 X Q r"
    and "\<And>bs x s. X = Some bs \<Longrightarrow> frame s0 s \<Longrightarrow> Q bs x s \<Longrightarrow> delivers e s0 (Y bs) R (f x s)"
  shows "delivers e s0 (Option.bind X Y) R (rbind r f)"
proof (cases r)
  case (Ret x s)
  with assms(1) obtain bs where bs: "X = Some bs" "frame s0 s" "Q bs x s" by (auto simp: delivers_def)
  have "Option.bind X Y = Y bs" "rbind r f = f x s" by (simp_all add: bs(1) Ret)
  with assms(2) [OF bs] show ?thesis by (simp only:)
qed (use assms(1) in \<open>auto simp: delivers_def\<close>)

definition calm :: "(jsval \<Rightarrow> jsdouble option) \<Rightarrow> env \<Rightarrow> bool" where
  "calm f e \<longleftrightarrow> (\<forall>v s. to_number e v s = (case f v of None \<Rightarrow> Throw s | Some d \<Rightarrow> Ret d s))"

definition number_of :: "(jsval \<Rightarrow> jsdouble option) \<Rightarrow> jsval \<Rightarrow> jsdouble option" where
  "number_of f v = (case v of JInt i \<Rightarrow> Some (Fin (of_int i)) | JDouble d \<Rightarrow> Some d | _ \<Rightarrow> f v)"

lemma ValueToNumber_calm:
  "calm f e \<Longrightarrow> ValueToNumber e v s = (case number_of f v of None \<Rightarrow> Throw s | Some d \<Rightarrow> Ret d s)"
  by (simp add: ValueToNumber_def calm_def number_of_def split: jsval.splits)

lemma on_number_calm:
  "calm f e \<Longrightarrow> on_number e v s fail ok = (case number_of f v of None \<Rightarrow> fail s | Some d \<Rightarrow> ok d s)"
  by (simp add: on_number_def ValueToNumber_calm split: option.splits)

definition elem_byte :: "(jsval \<Rightarrow> jsdouble option) \<Rightarrow> jsval \<Rightarrow> byte option" where
  "elem_byte f v = Option.bind (number_of f v) byte_of"

section \<open>Copying an array\<close>

lemma poke: "i < length b \<Longrightarrow> blocks s p = Some b \<Longrightarrow> write_byte s p i c = Some (s\<lparr>blocks := (blocks s)(p \<mapsto> b[i := c])\<rparr>)"
  by (simp add: write_byte_def mem_store_def)

lemma store_block_Cons:
  "k + Suc (length cs) \<le> length b \<Longrightarrow>
   take (Suc k) (b[k := c]) @ cs @ drop (Suc k + length cs) (b[k := c]) = take k b @ (c # cs) @ drop (k + Suc (length cs)) b"
  by (simp add: take_Suc_conv_app_nth)

lemma copy_loop_calm:
  assumes "calm f e"
  shows "blocks s p = Some b \<Longrightarrow> off + stop \<le> length b \<Longrightarrow> objects s arr = Some ob \<Longrightarrow>
    length (elems ob) = n \<Longrightarrow> n < JSUINT_MOD \<Longrightarrow> start + stop \<le> n \<Longrightarrow> i \<le> stop \<Longrightarrow>
    n = bufLen \<or> \<not> own \<and> stop = min bufLen n \<Longrightarrow>
    case those (map (elem_byte f) (take (stop - i) (drop (start + i) (elems ob)))) of
      Some bs \<Rightarrow> copy_loop e arr start own (p, off) bufLen n i stop s
        = Ret (Inr ((p, off), stop, n)) (s\<lparr>blocks := (blocks s)(p \<mapsto> take (off + i) b @ bs @ drop (off + stop) b)\<rparr>)
    | None \<Rightarrow> \<exists>b'. length b' = length b \<and> copy_loop e arr start own (p, off) bufLen n i stop s
        = Ret (Inl p) (s\<lparr>blocks := (blocks s)(p \<mapsto> b')\<rparr>)"
proof (induction "stop - i" arbitrary: i b s)
  case 0
  then have "i = stop" by simp
  moreover have "s\<lparr>blocks := (blocks s)(p \<mapsto> b)\<rparr> = s" using 0 by (auto intro!: bst.equality ext)
  ultimately show ?case using 0 by (subst copy_loop.simps) simp
next
  case (Suc k)
  let ?v = "elems ob ! (start + i)"
  have i: "i < stop" "start + i < n" "stop < JSUINT_MOD" using Suc.hyps(2) Suc.prems by auto
  have el: "take (stop - i) (drop (start + i) (elems ob))
      = ?v # take (stop - Suc i) (drop (start + Suc i) (elems ob))"
    using i Suc.prems(4) Suc.hyps(2) by (simp add: Cons_nth_drop_Suc [symmetric] take_Cons')
  have self: "s\<lparr>blocks := (blocks s)(p \<mapsto> b)\<rparr> = s" using Suc.prems by (auto intro!: bst.equality ext)
  note unf = copy_loop.simps [of e arr start own "(p, off)" bufLen n i stop s]
  show ?case
  proof (cases "elem_byte f ?v")
    case None
    have "copy_loop e arr start own (p, off) bufLen n i stop s = Ret (Inl p) s"
      using None i Suc.prems(3,4) uchar_exact [of _ e]
      by (subst unf) (auto simp: JS_GetElement_def ValueToNumber_calm [OF assms] elem_byte_def bind_eq_None_conv
          split: option.splits)
    then show ?thesis by (auto simp: el None self intro!: exI [of _ b])
  next
    case (Some c)
    then obtain d where d: "number_of f ?v = Some d" "byte_of d = Some c" by (auto simp: elem_byte_def bind_eq_Some_conv)
    then have u: "is_int d (int (to_uchar e d))" "of_nat (to_uchar e d) = c"
      using uchar_exact [of d e] uchar_value [of d e] by auto
    let ?s = "s\<lparr>blocks := (blocks s)(p \<mapsto> b[off + i := c])\<rparr>"
    have w: "write_byte s p (off + i) c = Some ?s" using poke i Suc.prems(1,2) by simp
    have st: "copy_loop e arr start own (p, off) bufLen n i stop s
        = copy_loop e arr start own (p, off) bufLen n (Suc i) stop ?s"
      using i Suc.prems(3,4,5,8) d(1) u w
      by (subst unf) (auto simp: JS_GetElement_def ValueToNumber_calm [OF assms] JS_GetArrayLength_def)
    have IH: "case those (map (elem_byte f) (take (stop - Suc i) (drop (start + Suc i) (elems ob)))) of
      Some bs \<Rightarrow> copy_loop e arr start own (p, off) bufLen n (Suc i) stop ?s
        = Ret (Inr ((p, off), stop, n)) (?s\<lparr>blocks := (blocks ?s)(p \<mapsto> take (off + Suc i) (b[off + i := c]) @ bs @ drop (off + stop) (b[off + i := c]))\<rparr>)
    | None \<Rightarrow> \<exists>b'. length b' = length (b[off + i := c]) \<and> copy_loop e arr start own (p, off) bufLen n (Suc i) stop ?s
        = Ret (Inl p) (?s\<lparr>blocks := (blocks ?s)(p \<mapsto> b')\<rparr>)"
      by (rule Suc.hyps(1)) (use Suc.hyps(2) Suc.prems i in auto)
    have "take (off + Suc i) (b[off + i := c]) = take (off + i) b @ [c]"
      using i Suc.prems(2) by (simp add: take_Suc_conv_app_nth)
    then show ?thesis
      using IH i by (cases "those (map (elem_byte f) (take (stop - Suc i) (drop (start + Suc i) (elems ob))))")
        (simp_all add: st el Some)
  qed
qed


section \<open>Filling a buffer\<close>

definition filling :: "bst \<Rightarrow> byte list \<Rightarrow> ptr \<times> nat \<times> nat \<Rightarrow> bst \<Rightarrow> bool" where
  "filling s0 acc w s \<longleftrightarrow>
     (case w of (buf, buflen, bufpos) \<Rightarrow> bnext s0 \<le> buf \<and> 0 < buf \<and> 64 \<le> buflen \<and> buflen < JSUINT_MOD
        \<and> bufpos = length acc
        \<and> (\<exists>b. blocks s buf = Some b \<and> length b = buflen \<and> bufpos \<le> buflen \<and> take bufpos b = acc))"

lemma frame_malloc:
  assumes "frame s0 s" "0 < bnext s" "JS_malloc e n s = (p, s')"
  shows "frame s0 s' \<and> (p = NULL \<longrightarrow> s' = s \<and> \<not> mem_ok e (bnext s) n)
     \<and> (p \<noteq> NULL \<longrightarrow> p = bnext s \<and> blocks s' p = Some (new_block e p n) \<and> bnext s0 \<le> p)"
  using assms by (auto simp: JS_malloc_def Let_def frame_def less_Suc_eq split: if_splits)

lemma length_new_block [simp]: "length (new_block e p n) = n"
  by (simp add: new_block_def)

lemma frame_realloc:
  assumes "frame s0 s" "blocks s p = Some b" "bnext s0 \<le> p" "0 < p"
  shows "\<exists>q s'. JS_realloc e p n s = Some (q, s') \<and> frame s0 s'
     \<and> (q = NULL \<longrightarrow> s' = s \<and> (\<not> mem_ok e (bnext s) n \<or> bnext s = 0))
     \<and> (q \<noteq> NULL \<longrightarrow> bnext s0 \<le> q \<and> blocks s' q = Some (take n b @ drop (length b) (new_block e q n)))"
  using assms by (auto simp: JS_realloc_def Let_def frame_def)

lemma grow_to_filling:
  assumes "bt_ok s0" "frame s0 s" "filling s0 acc w s" "length acc \<le> n" "64 \<le> n" "n < JSUINT_MOD"
  shows "delivers e s0 (Some acc) (\<lambda>acc w s. filling s0 acc w s \<and> fst (snd w) = n) (grow_to e n w s)"
proof -
  obtain buf bl bp b where w: "w = (buf, bl, bp)" "bnext s0 \<le> buf" "0 < buf" "bp = length acc"
    "blocks s buf = Some b" "length b = bl" "bp \<le> bl" "take bp b = acc"
    using assms(3) by (cases w) (auto simp: filling_def)
  from frame_realloc [OF assms(2) w(5,2,3), of e n] obtain q s' where r: "JS_realloc e buf n s = Some (q, s')"
    "frame s0 s'" "q = NULL \<longrightarrow> s' = s \<and> (\<not> mem_ok e (bnext s) n \<or> bnext s = 0)"
    "q \<noteq> NULL \<longrightarrow> bnext s0 \<le> q \<and> blocks s' q = Some (take n b @ drop (length b) (new_block e q n))" by blast
  have "bnext s \<noteq> 0" using bt_okD(1) [OF assms(1)] assms(2) by (simp add: frame_def)
  have tk: "take bp (take n b @ drop (length b) (new_block e q n)) = acc"
    using w assms(4) by (simp add: min_def)
  show ?thesis
  proof (cases "q = NULL")
    case True
    with r \<open>bnext s \<noteq> 0\<close> show ?thesis by (auto simp: grow_to_def w(1) plenty_def)
  next
    case False
    then have "filling s0 acc (q, n, bp) s'"
      using r(4) w assms(4-6) tk by (auto simp: filling_def)
    with False r(1,2) show ?thesis by (auto simp: grow_to_def w(1))
  qed
qed

lemma frame_poke:
  assumes "frame s0 s" "bnext s0 \<le> p" "blocks s p = Some b"
  shows "frame s0 (s\<lparr>blocks := (blocks s)(p \<mapsto> b')\<rparr>)"
  using assms by (auto simp: frame_def)

lemma filling_write:
  assumes "frame s0 s" "filling s0 acc (buf, bl, bp) s" "bp + length xs \<le> bl"
  shows "\<exists>s'. write_bytes s buf bp xs = Some s' \<and> frame s0 s' \<and> filling s0 (acc @ xs) (buf, bl, bp + length xs) s'"
proof (cases "xs = []")
  case False
  obtain b where b: "blocks s buf = Some b" "length b = bl" "bp \<le> bl" "take bp b = acc" "bp = length acc"
    using assms(2) by (auto simp: filling_def)
  have w: "write_bytes s buf bp xs = Some (s\<lparr>blocks := (blocks s)(buf \<mapsto> take bp b @ xs @ drop (bp + length xs) b)\<rparr>)"
    using b assms(3) False by (simp add: write_bytes_def store_block_def)
  have "frame s0 (s\<lparr>blocks := (blocks s)(buf \<mapsto> take bp b @ xs @ drop (bp + length xs) b)\<rparr>)"
    using assms(2) by (intro frame_poke [OF assms(1) _ b(1)]) (simp add: filling_def)
  moreover have "filling s0 (acc @ xs) (buf, bl, bp + length xs)
      (s\<lparr>blocks := (blocks s)(buf \<mapsto> take bp b @ xs @ drop (bp + length xs) b)\<rparr>)"
    using assms(2,3) b by (auto simp: filling_def)
  ultimately show ?thesis using w by blast
qed (use assms in \<open>simp add: write_bytes_def\<close>)

lemma filling_write_byte:
  assumes "frame s0 s" "filling s0 acc (buf, bl, bp) s" "bp < bl"
  shows "\<exists>s'. write_byte s buf bp c = Some s' \<and> frame s0 s' \<and> filling s0 (acc @ [c]) (buf, bl, bp + 1) s'"
proof -
  have "write_byte s buf bp c = write_bytes s buf bp [c]"
    using assms by (auto simp: filling_def write_byte_def write_bytes_def mem_store_def store_block_def upd_conv_take_nth_drop)
  with filling_write [OF assms(1,2), of "[c]"] assms(3) show ?thesis by simp
qed


section \<open>Argument lists\<close>

lemma length_those: "those xs = Some ys \<Longrightarrow> length ys = length xs"
  by (induction xs arbitrary: ys) (auto split: option.splits)

definition arg_bytes :: "(jsval \<Rightarrow> jsdouble option) \<Rightarrow> bst \<Rightarrow> jsval \<Rightarrow> byte list option" where
  "arg_bytes f s v =
     (case v of
        JObj obj \<Rightarrow>
          (case objects s obj of
             None \<Rightarrow> None
           | Some ob \<Rightarrow>
               if oclass ob = Array_class then those (map (elem_byte f) (elems ob))
               else if gpsee_isByteThingClass (oclass ob) then contents s obj else None)
      | _ \<Rightarrow> map_option (\<lambda>b. [b]) (elem_byte f v))"

definition arg_size :: "bst \<Rightarrow> jsval \<Rightarrow> nat" where
  "arg_size s v =
     (case v of
        JObj obj \<Rightarrow> (case objects s obj of None \<Rightarrow> 0
          | Some ob \<Rightarrow> if oclass ob = Array_class then length (elems ob)
                       else case opriv ob of None \<Rightarrow> 0 | Some h \<Rightarrow> hlength h)
      | _ \<Rightarrow> 1)"

definition live_arg :: "bst \<Rightarrow> jsval \<Rightarrow> bool" where
  "live_arg s v = (case v of JObj obj \<Rightarrow> objects s obj \<noteq> None | _ \<Rightarrow> True)"

lemma delivers_weaken:
  "delivers e s0 X Q r \<Longrightarrow> (\<And>bs x s. Q bs x s \<Longrightarrow> R bs x s) \<Longrightarrow> delivers e s0 X R r"
  by (auto simp: delivers_def split: res.splits)

lemma room_for:
  assumes "bt_ok s0" "frame s0 s" "filling s0 acc (buf, bl, bp) s" "length acc + n < 2 ^ 31"
  shows "delivers e s0 (Some acc) (\<lambda>acc w s. filling s0 acc w s \<and> length acc + n \<le> fst (snd w))
    (if bl < bp + n then grow_to e (bp + n) (buf, bl, bp) s else Ret (buf, bl, bp) s)"
proof (cases "bl < bp + n")
  case True
  have bp: "bp = length acc" "64 \<le> bl" using assms(3) by (auto simp: filling_def)
  have "delivers e s0 (Some acc) (\<lambda>acc w s. filling s0 acc w s \<and> fst (snd w) = bp + n)
      (grow_to e (bp + n) (buf, bl, bp) s)"
    by (rule grow_to_filling [OF assms(1-3)]) (use assms(4) True bp in \<open>auto simp: JSUINT_MOD_def\<close>)
  with True bp show ?thesis by (auto simp: delivers_def split: res.splits)
next
  case False
  with assms show ?thesis by (auto simp: filling_def)
qed

lemma frame_bnext: "bt_ok s0 \<Longrightarrow> frame s0 s \<Longrightarrow> 0 < bnext s"
  using bt_okD(1) by (fastforce simp: frame_def)

lemma copy_into_filling:
  assumes c: "calm f e" and ok: "bt_ok s0" and fr: "frame s0 s" and fi: "filling s0 acc (buf, bl, bp) s"
    and ob: "objects s arr = Some ob" and n: "length (elems ob) < JSUINT_MOD" and room: "bp + length (elems ob) \<le> bl"
  shows "delivers e s0 (those (map (elem_byte f) (elems ob)))
    (\<lambda>bs (b, len, more) s. len = length (elems ob) \<and> \<not> more \<and> filling s0 (acc @ bs) (buf, bl, bp + len) s)
    (copyJSArray_toBuf e arr 0 (buf, bp) (bl - bp) s)"
proof (cases "elems ob = []")
  case True
  with ob fi fr show ?thesis
    by (auto simp: copyJSArray_toBuf_def JS_GetArrayLength_def Let_def filling_def)
next
  case False
  let ?n = "length (elems ob)"
  obtain b where b: "blocks s buf = Some b" "length b = bl" "bp \<le> bl" "take bp b = acc" "bp = length acc"
    "bnext s0 \<le> buf" "0 < buf" "bl < JSUINT_MOD"
    using fi by (auto simp: filling_def)
  have mn: "min (bl - bp) ?n = ?n" "(bl - bp) mod JSUINT_MOD = bl - bp" using room b(8) by auto
  have len: "JS_GetArrayLength arr s = Ret ?n s" using ob n by (simp add: JS_GetArrayLength_def)
  have L: "case those (map (elem_byte f) (elems ob)) of
      Some bs \<Rightarrow> copy_loop e arr 0 False (buf, bp) (bl - bp) ?n 0 ?n s
        = Ret (Inr ((buf, bp), ?n, ?n)) (s\<lparr>blocks := (blocks s)(buf \<mapsto> take bp b @ bs @ drop (bp + ?n) b)\<rparr>)
    | None \<Rightarrow> \<exists>b'. length b' = length b \<and> copy_loop e arr 0 False (buf, bp) (bl - bp) ?n 0 ?n s
        = Ret (Inl buf) (s\<lparr>blocks := (blocks s)(buf \<mapsto> b')\<rparr>)"
    using copy_loop_calm [OF c b(1), of bp ?n arr ob ?n 0 0 "bl - bp" False, unfolded add_0_right add_0_left diff_zero drop_0]
      b room ob n mn by auto
  have st: "copyJSArray_toBuf e arr 0 (buf, bp) (bl - bp) s
      = rbind (copy_loop e arr 0 False (buf, bp) (bl - bp) ?n 0 ?n s) (\<lambda>r s.
          case r of Inr (buf, stop, arrLen) \<Rightarrow> Ret (buf, stop, arrLen < stop) s
          | Inl b \<Rightarrow> if False then the_or_fault (JS_free b s) Throw else Throw s)"
    using False b(7) by (simp add: copyJSArray_toBuf_def len Let_def mn)
  note fp = frame_poke [OF fr b(6,1)]
  show ?thesis
  proof (cases "those (map (elem_byte f) (elems ob))")
    case None
    with L st fp show ?thesis by (auto simp: delivers_def)
  next
    case (Some bs)
    then have lb: "length bs = ?n" by (metis length_map length_those)
    have "filling s0 (acc @ bs) (buf, bl, bp + ?n) (s\<lparr>blocks := (blocks s)(buf \<mapsto> take bp b @ bs @ drop (bp + ?n) b)\<rparr>)"
      using fi b lb room by (auto simp: filling_def)
    with L st fp Some show ?thesis by auto
  qed
qed


lemma delivers_then:
  assumes "delivers e s0 (Some a) Q r"
    and "\<And>x s. frame s0 s \<Longrightarrow> Q a x s \<Longrightarrow> delivers e s0 Y R (f x s)"
  shows "delivers e s0 Y R (rbind r f)"
  using delivers_bind [OF assms(1), of "\<lambda>_. Y" R f] assms(2) by simp

lemma array_into_filling:
  assumes c: "calm f e" and ok: "bt_ok s0" and fr: "frame s0 s" and fi: "filling s0 acc w s"
    and ob: "objects s0 arr = Some ob" and n: "length acc + length (elems ob) < 2 ^ 31"
  shows "delivers e s0 (those (map (elem_byte f) (elems ob)))
    (\<lambda>bs ((buf, buflen, bufpos), k) s. filling s0 (acc @ bs) (buf, buflen, bufpos + k) s)
    (array_pieces (Suc k) e arr (length (elems ob)) 0 w s)"
proof -
  obtain buf bl bp where w: "w = (buf, bl, bp)" by (cases w) auto
  have bp: "bp = length acc" using fi by (simp add: w filling_def)
  have n31: "length (elems ob) < JSUINT_MOD" using n by (simp add: JSUINT_MOD_def)
  note room = room_for [OF ok fr fi [unfolded w] n, folded bp, of e]
  show ?thesis
    unfolding w array_pieces.simps prod.case
  proof (rule delivers_then [OF room])
    fix x s1
    assume fr1: "frame s0 s1" and "filling s0 acc x s1 \<and> length acc + length (elems ob) \<le> fst (snd x)"
    then obtain buf1 bl1 where x: "x = (buf1, bl1, bp)" and fi1: "filling s0 acc (buf1, bl1, bp) s1"
      and r: "bp + length (elems ob) \<le> bl1"
      by (cases x) (auto simp: filling_def bp)
    have ob1: "objects s1 arr = Some ob" using fr1 ob by (simp add: frame_def)
    from copy_into_filling [OF c ok fr1 fi1 ob1 n31 r]
    show "delivers e s0 (those (map (elem_byte f) (elems ob)))
      (\<lambda>bs ((buf, buflen, bufpos), k) s. filling s0 (acc @ bs) (buf, buflen, bufpos + k) s)
      (case x of (buf, buflen, bufpos) \<Rightarrow>
         rbind (copyJSArray_toBuf e arr 0 (buf, bufpos) (buflen - bufpos) s1)
          (\<lambda>(_, len, more) s. if more then array_pieces k e arr (length (elems ob)) (0 + len) x s else Ret (x, 0 + len) s))"
      by (auto simp: x delivers_def split: res.splits)
  qed
qed

lemma val2bytes_step_delivers:
  assumes c: "calm f e" and ok: "bt_ok s0" and fr: "frame s0 s" and fi: "filling s0 acc w s"
    and live: "live_arg s0 v" and n: "length acc + arg_size s0 v < 2 ^ 31"
  shows "delivers e s0 (arg_bytes f s0 v) (\<lambda>bs. filling s0 (acc @ bs)) (val2bytes_step e v w s)"
proof -
  obtain buf bl bp where w: "w = (buf, bl, bp)" by (cases w) auto
  have bp: "bp = length acc" using fi by (simp add: w filling_def)
  have o: "objects s = objects s0" using fr by (simp add: frame_def)
  show ?thesis
  proof (cases "\<exists>obj. v = JObj obj")
    case True
    then obtain obj ob where v: "v = JObj obj" "objects s0 obj = Some ob" using live by (auto simp: live_arg_def)
    consider (array) "oclass ob = Array_class" | (bt) "oclass ob \<noteq> Array_class" "gpsee_isByteThingClass (oclass ob)"
      | (other) "oclass ob \<noteq> Array_class" "\<not> gpsee_isByteThingClass (oclass ob)" by blast
    then show ?thesis
    proof cases
      case array
      have n': "length acc + length (elems ob) < 2 ^ 31" using n v array by (simp add: arg_size_def)
      then have "JS_GetArrayLength obj s = Ret (length (elems ob)) s"
        by (simp add: JS_GetArrayLength_def o v JSUINT_MOD_def)
      moreover have "array_pieces 2 = array_pieces (Suc 1)" by (simp add: numeral_2_eq_2)
      ultimately show ?thesis
        using array_into_filling [OF c ok fr fi v(2) n', of 1] array v
        by (auto simp: val2bytes_step_def get_object_def o arg_bytes_def delivers_def split: res.splits)
    next
      case bt
      show ?thesis
      proof (cases "opriv ob")
        case None
        with bt v fr show ?thesis
          by (auto simp: val2bytes_step_def get_object_def o arg_bytes_def contents_def delivers_def)
      next
        case (Some h)
        have h: "handle_of s0 obj = Some h" by (simp add: handle_of_def v Some)
        from contents_Some [OF ok h] obtain bs where bs: "contents s0 obj = Some bs" "length bs = hlength h"
          "read_bytes s0 (buffer h) 0 (hlength h) = Some bs" by blast
        have n': "length acc + hlength h < 2 ^ 31" using n v bt Some by (simp add: arg_size_def)
        have "delivers e s0 (Some bs) (\<lambda>bs. filling s0 (acc @ bs))
          (rbind (if bl < bp + hlength h then grow_to e (bp + hlength h) (buf, bl, bp) s else Ret (buf, bl, bp) s)
            (\<lambda>(buf, buflen, bufpos) s.
              the_or_fault (Option.bind (read_bytes s (buffer h) 0 (hlength h)) (write_bytes s buf bufpos)) (\<lambda>s.
                Ret (buf, buflen, bufpos + hlength h) s)))"
        proof (rule delivers_then [OF room_for [OF ok fr fi [unfolded w] n', folded bp]])
          fix x s1
          assume fr1: "frame s0 s1" and "filling s0 acc x s1 \<and> length acc + hlength h \<le> fst (snd x)"
          then obtain buf1 bl1 where x: "x = (buf1, bl1, bp)" and fi1: "filling s0 acc (buf1, bl1, bp) s1"
            and r: "bp + length bs \<le> bl1"
            by (cases x) (auto simp: filling_def bp bs)
          have "read_bytes s1 (buffer h) 0 (hlength h) = Some bs"
            using frame_read [OF ok fr1 bt_okD(4) [OF ok h], of 0 "hlength h"] bs by (auto simp: read_bytes_def)
          with filling_write [OF fr1 fi1 r]
          show "delivers e s0 (Some bs) (\<lambda>bs. filling s0 (acc @ bs))
            ((\<lambda>(buf, buflen, bufpos) s.
              the_or_fault (Option.bind (read_bytes s (buffer h) 0 (hlength h)) (write_bytes s buf bufpos)) (\<lambda>s.
                Ret (buf, buflen, bufpos + hlength h) s)) x s1)"
            by (auto simp: x bs(2))
        qed
        with bt v Some show ?thesis
          by (simp add: val2bytes_step_def get_object_def o arg_bytes_def w bs)
      qed
    next
      case other
      with v fr show ?thesis by (auto simp: val2bytes_step_def get_object_def o arg_bytes_def)
    qed
  next
    case False
    have ab: "arg_bytes f s0 v = map_option (\<lambda>b. [b]) (elem_byte f v)" "arg_size s0 v = 1"
      using False by (auto simp: arg_bytes_def arg_size_def split: jsval.splits)
    have st: "val2bytes_step e v w s = on_number e v s Throw (\<lambda>d s.
            if \<not> is_int d (int (to_uchar e d)) then Throw s
            else
              rbind (if bl \<le> bp then grow_to e (bl * 2) w s else Ret w s) (\<lambda>(buf, buflen, bufpos) s.
                the_or_fault (write_byte s buf bufpos (of_nat (to_uchar e d))) (\<lambda>s.
                  Ret (buf, buflen, bufpos + 1) s)))"
      using False unfolding val2bytes_step_def w by (auto split: jsval.splits)
    show ?thesis
    proof (cases "elem_byte f v")
      case None
      then show ?thesis
        using fr uchar_exact by (auto simp: st on_number_calm [OF c] ab elem_byte_def bind_eq_None_conv split: option.splits)
    next
      case (Some b)
      then obtain d where d: "number_of f v = Some d" "byte_of d = Some b" by (auto simp: elem_byte_def bind_eq_Some_conv)
      then have u: "is_int d (int (to_uchar e d))" "of_nat (to_uchar e d) = b"
        using uchar_exact [of d e] uchar_value [of d e] by auto
      have fl: "bp \<le> bl" "64 \<le> bl" using fi by (auto simp: w filling_def)
      have g: "delivers e s0 (Some acc) (\<lambda>acc w s. filling s0 acc w s \<and> bp < fst (snd w))
         (if bl \<le> bp then grow_to e (bl * 2) w s else Ret w s)"
      proof (cases "bl \<le> bp")
        case True
        have "delivers e s0 (Some acc) (\<lambda>acc w s. filling s0 acc w s \<and> fst (snd w) = bl * 2) (grow_to e (bl * 2) w s)"
          by (rule grow_to_filling [OF ok fr fi]) (use True fl n bp in \<open>auto simp: JSUINT_MOD_def\<close>)
        with True fl show ?thesis by (auto simp: delivers_def split: res.splits)
      qed (use fr fi in \<open>auto simp: w\<close>)
      have "delivers e s0 (Some [b]) (\<lambda>bs. filling s0 (acc @ bs))
        (rbind (if bl \<le> bp then grow_to e (bl * 2) w s else Ret w s) (\<lambda>(buf, buflen, bufpos) s.
                the_or_fault (write_byte s buf bufpos b) (\<lambda>s. Ret (buf, buflen, bufpos + 1) s)))"
      proof (rule delivers_then [OF g])
        fix x s1
        assume fr1: "frame s0 s1" and "filling s0 acc x s1 \<and> bp < fst (snd x)"
        then obtain buf1 bl1 where x: "x = (buf1, bl1, bp)" and fi1: "filling s0 acc (buf1, bl1, bp) s1" and r: "bp < bl1"
          by (cases x) (auto simp: filling_def bp)
        from filling_write_byte [OF fr1 fi1 r, of b]
        show "delivers e s0 (Some [b]) (\<lambda>bs. filling s0 (acc @ bs))
          ((\<lambda>(buf, buflen, bufpos) s. the_or_fault (write_byte s buf bufpos b) (\<lambda>s. Ret (buf, buflen, bufpos + 1) s)) x s1)"
          by (auto simp: x)
      qed
      then show ?thesis by (simp add: st on_number_calm [OF c] d u ab Some)
    qed
  qed
qed


lemma delivers_map: "delivers e s0 X (\<lambda>bs. Q (g bs)) r \<Longrightarrow> delivers e s0 (map_option g X) Q r"
  by (auto simp: delivers_def split: res.splits)

definition args_bytes :: "(jsval \<Rightarrow> jsdouble option) \<Rightarrow> bst \<Rightarrow> jsval list \<Rightarrow> byte list option" where
  "args_bytes f s vals = map_option concat (those (map (arg_bytes f s) vals))"

lemma args_bytes_simps [simp]:
  "args_bytes f s [] = Some []"
  "args_bytes f s (v # vs) = Option.bind (arg_bytes f s v) (\<lambda>bs. map_option ((@) bs) (args_bytes f s vs))"
  by (auto simp: args_bytes_def option.map_comp comp_def split: option.splits)

lemma length_arg_bytes: "bt_ok s \<Longrightarrow> arg_bytes f s v = Some bs \<Longrightarrow> length bs = arg_size s v"
proof -
  assume ok: "bt_ok s" and a: "arg_bytes f s v = Some bs"
  have "length bs = hlength h" if "contents s obj = Some bs" "handle_of s obj = Some h" for obj h
    using contents_Some [OF ok that(2)] that(1) by auto
  with a show ?thesis
    by (auto simp: arg_bytes_def arg_size_def handle_of_def contents_def bind_eq_Some_conv
        split: jsval.splits option.splits if_splits dest: length_those)
qed

lemma val2bytes_loop_delivers:
  assumes c: "calm f e" and ok: "bt_ok s0"
  shows "frame s0 s \<Longrightarrow> filling s0 acc w s \<Longrightarrow> \<forall>v\<in>set vals. live_arg s0 v \<Longrightarrow>
    length acc + sum_list (map (arg_size s0) vals) < 2 ^ 31 \<Longrightarrow>
    delivers e s0 (args_bytes f s0 vals) (\<lambda>bs. filling s0 (acc @ bs)) (val2bytes_loop e vals w s)"
proof (induction vals arbitrary: acc w s)
  case Nil
  then show ?case by auto
next
  case (Cons v vals)
  have "delivers e s0 (arg_bytes f s0 v) (\<lambda>bs. filling s0 (acc @ bs)) (val2bytes_step e v w s)"
    by (rule val2bytes_step_delivers [OF c ok Cons.prems(1,2)]) (use Cons.prems(3,4) in auto)
  then show ?case
    unfolding val2bytes_loop.simps args_bytes_simps
  proof (rule delivers_bind)
    fix bs x s1
    assume a: "arg_bytes f s0 v = Some bs" and fr: "frame s0 s1" and fi: "filling s0 (acc @ bs) x s1"
    have "delivers e s0 (args_bytes f s0 vals) (\<lambda>r. filling s0 ((acc @ bs) @ r)) (val2bytes_loop e vals x s1)"
      by (rule Cons.IH [OF fr fi]) (use Cons.prems(3,4) length_arg_bytes [OF ok a] in auto)
    then show "delivers e s0 (map_option ((@) bs) (args_bytes f s0 vals)) (\<lambda>bs. filling s0 (acc @ bs))
        (val2bytes_loop e vals x s1)"
      by (intro delivers_map) simp
  qed
qed

text \<open>A buffer holding bytes: when it is the caller's to free it is a block of its own, unless the last
  reallocation failed; otherwise it is that of the one byte thing given.\<close>

definition buffer_holds :: "env \<Rightarrow> bst \<Rightarrow> jsval list \<Rightarrow> byte list \<Rightarrow> ptr \<times> nat \<times> bool \<Rightarrow> bst \<Rightarrow> bool" where
  "buffer_holds e s0 vals bs r s \<longleftrightarrow>
     (case r of (p, n, own) \<Rightarrow> n = length bs
        \<and> (\<not> own \<longrightarrow> (\<exists>q h. vals = [JObj q] \<and> handle_of s0 q = Some h \<and> buffer h = p))
        \<and> (own \<and> p = NULL \<and> \<not> plenty e
           \<or> read_bytes s p 0 n = Some bs \<and> (own \<longrightarrow> bnext s0 \<le> p \<and> blocks s p = Some bs)))"

lemma val2bytes_copy:
  assumes c: "calm f e" and ok: "bt_ok s0" and live: "\<forall>v\<in>set vals. live_arg s0 v"
    and n: "sum_list (map (arg_size s0) vals) < 2 ^ 31"
  shows "delivers e s0 (args_bytes f s0 vals) (buffer_holds e s0 vals)
    (let (buf, s) = JS_malloc e 64 s0
     in if buf = NULL then Throw s
        else rbind (val2bytes_loop e vals (buf, 64, 0) s) (\<lambda>(buf, _, bufpos) s.
          the_or_fault (JS_realloc e buf bufpos s) (\<lambda>(q, s). Ret (q, bufpos, True) s)))"
proof -
  obtain p s where m: "JS_malloc e 64 s0 = (p, s)" by fastforce
  note fm = frame_malloc [OF frame_refl [OF ok] bt_okD(1) [OF ok] m]
  show ?thesis
  proof (cases "p = NULL")
    case True
    with fm m show ?thesis by (auto simp: plenty_def)
  next
    case False
    then have fi: "filling s0 [] (p, 64, 0) s" using fm by (auto simp: filling_def JSUINT_MOD_def)
    have "delivers e s0 (args_bytes f s0 vals) (\<lambda>bs. filling s0 ([] @ bs)) (val2bytes_loop e vals (p, 64, 0) s)"
      by (rule val2bytes_loop_delivers [OF c ok _ fi]) (use fm live n in auto)
    then have "delivers e s0 (Option.bind (args_bytes f s0 vals) Some) (buffer_holds e s0 vals)
        (rbind (val2bytes_loop e vals (p, 64, 0) s) (\<lambda>(buf, _, bufpos) s.
          the_or_fault (JS_realloc e buf bufpos s) (\<lambda>(q, s). Ret (q, bufpos, True) s)))"
    proof (rule delivers_bind)
      fix bs x s1
      assume fr1: "frame s0 s1" and "filling s0 ([] @ bs) x s1"
      then obtain buf bl b where x: "x = (buf, bl, length bs)" "blocks s1 buf = Some b" "bnext s0 \<le> buf" "0 < buf"
        "take (length bs) b = bs"
        by (cases x) (auto simp: filling_def)
      from frame_realloc [OF fr1 x(2-4), of e "length bs"] obtain q s2 where
        r: "JS_realloc e buf (length bs) s1 = Some (q, s2)" "frame s0 s2"
          "q = NULL \<longrightarrow> s2 = s1 \<and> (\<not> mem_ok e (bnext s1) (length bs) \<or> bnext s1 = 0)"
          "q \<noteq> NULL \<longrightarrow> bnext s0 \<le> q \<and> blocks s2 q = Some (take (length bs) b @ drop (length b) (new_block e q (length bs)))"
        by blast
      have l: "length bs \<le> length b" by (metis x(5) length_take min.cobounded2 min.commute)
      have "buffer_holds e s0 vals bs (q, length bs, True) s2"
        using r(3,4) frame_bnext [OF ok fr1] l x(5)
        by (auto simp: buffer_holds_def plenty_def read_bytes_def load_block_def)
      with r(1,2) show "delivers e s0 (Some bs) (buffer_holds e s0 vals)
         ((\<lambda>(buf, _, bufpos) s. the_or_fault (JS_realloc e buf bufpos s) (\<lambda>(q, s). Ret (q, bufpos, True) s)) x s1)"
        by (auto simp: x(1))
    qed
    with False show ?thesis by (simp add: m)
  qed
qed

lemma val2bytes_core:
  assumes "calm f e" and "bt_ok s" and "\<forall>v\<in>set vals. live_arg s v"
    and "sum_list (map (arg_size s) vals) < 2 ^ 31"
  shows "delivers e s (args_bytes f s vals) (buffer_holds e s vals) (byteThing_val2bytes e vals steal s)"
proof -
  note copy = val2bytes_copy [OF assms]
  show ?thesis
  proof (cases "\<exists>obj ob. vals = [JObj obj] \<and> \<not> steal \<and> objects s obj = Some ob
      \<and> (oclass ob = ByteString_class \<or> oclass ob = ByteArray_class)")
    case True
    then obtain obj ob where v: "vals = [JObj obj]" "\<not> steal" "objects s obj = Some ob"
      "oclass ob = ByteString_class \<or> oclass ob = ByteArray_class" by blast
    then have a: "args_bytes f s vals = contents s obj"
      by (cases "contents s obj") (auto simp: arg_bytes_def gpsee_isByteThingClass_def)
    show ?thesis
    proof (cases "opriv ob")
      case None
      then have "contents s obj = None" by (simp add: contents_def v)
      with None v a show ?thesis
        using frame_refl [OF assms(2)] by (auto simp: byteThing_val2bytes_def get_object_def)
    next
      case (Some h)
      have ho: "handle_of s obj = Some h" by (simp add: handle_of_def v Some)
      from contents_Some [OF assms(2) this] obtain bs where "contents s obj = Some bs" "length bs = hlength h"
        "read_bytes s (buffer h) 0 (hlength h) = Some bs" by blast
      with v a Some show ?thesis
        using frame_refl [OF assms(2)]
        by (auto simp: byteThing_val2bytes_def get_object_def buffer_holds_def ho)
    qed
  next
    case False
    then have "byteThing_val2bytes e vals steal s
      = (let (buf, s) = JS_malloc e 64 s
         in if buf = NULL then Throw s
            else rbind (val2bytes_loop e vals (buf, 64, 0) s) (\<lambda>(buf, _, bufpos) s.
              the_or_fault (JS_realloc e buf bufpos s) (\<lambda>(q, s). Ret (q, bufpos, True) s)))"
      using assms(3) unfolding byteThing_val2bytes_def Let_def
      by (auto simp: get_object_def live_arg_def split: list.splits jsval.splits)
    with copy show ?thesis by simp
  qed
qed

text \<open>The bytes of an argument list are those of its numbers, arrays and byte things one after the
  other, in a buffer of their own or that of the one byte thing given, whatever the arguments; the
  conversion touches no byte thing, stays in its buffers, ends, and fails only on an argument that is
  no byte or when memory runs out.\<close>

theorem val2bytes_delivers:
  assumes "calm f e" and "bt_ok s" and "\<forall>v\<in>set vals. live_arg s v"
    and "sum_list (map (arg_size s) vals) < 2 ^ 31"
  shows "delivers e s (args_bytes f s vals) (buffer_holds e s vals) (byteThing_val2bytes e vals steal s)"
  by (rule val2bytes_core [OF assms])


section \<open>Arrays that change while they are copied\<close>

text \<open>Script code run by a conversion may change any object, but neither the memory no object owns nor
  the existence of the array.\<close>

definition unowned :: "bst \<Rightarrow> ptr \<Rightarrow> bool" where
  "unowned s p \<longleftrightarrow> 0 < p \<and> p < bnext s \<and> (\<forall>obj h. handle_of s obj = Some h \<longrightarrow> buffer h \<noteq> p)"

definition bounded :: "bst \<Rightarrow> bool" where
  "bounded s \<longleftrightarrow> (\<forall>obj h. handle_of s obj = Some h \<longrightarrow> buffer h < bnext s)"

definition leaves :: "ptr \<Rightarrow> bst \<Rightarrow> bst \<Rightarrow> bool" where
  "leaves arr s s' \<longleftrightarrow> bnext s \<le> bnext s' \<and> (objects s arr \<noteq> None \<longrightarrow> objects s' arr \<noteq> None)
     \<and> (bounded s \<longrightarrow> bounded s') \<and> (\<forall>p. unowned s p \<longrightarrow> unowned s' p \<and> blocks s' p = blocks s p)"

definition polite :: "env \<Rightarrow> ptr \<Rightarrow> bool" where
  "polite e arr \<longleftrightarrow> (\<forall>v s. case to_number e v s of
       Ret d s' \<Rightarrow> leaves arr s s' | Throw s' \<Rightarrow> leaves arr s s' | Fault \<Rightarrow> False | Hang \<Rightarrow> True)"

lemma leaves_refl: "leaves arr s s"
  by (simp add: leaves_def)

lemma ValueToNumber_polite:
  assumes "polite e arr"
  shows "case ValueToNumber e v s of
    Ret d s' \<Rightarrow> leaves arr s s' | Throw s' \<Rightarrow> leaves arr s s' | Fault \<Rightarrow> False | Hang \<Rightarrow> True"
  using assms leaves_refl unfolding polite_def by (cases v) (auto simp: ValueToNumber_def)

definition copy_inv :: "ptr \<Rightarrow> bool \<Rightarrow> ptr \<times> nat \<Rightarrow> nat \<Rightarrow> nat \<Rightarrow> bst \<Rightarrow> bool" where
  "copy_inv arr own buf bufLen stop s \<longleftrightarrow>
     unowned s (fst buf) \<and> bounded s \<and> objects s arr \<noteq> None
     \<and> (\<exists>b. blocks s (fst buf) = Some b \<and> snd buf + bufLen \<le> length b) \<and> stop \<le> bufLen
     \<and> (own \<longrightarrow> snd buf = 0)"

definition copied_safely :: "(ptr + (ptr \<times> nat) \<times> nat \<times> nat) res \<Rightarrow> bool" where
  "copied_safely r =
     (case r of Ret (Inl p) s \<Rightarrow> p = NULL \<or> blocks s p \<noteq> None | Ret (Inr _) s \<Rightarrow> True | Hang \<Rightarrow> True | _ \<Rightarrow> False)"

lemma copy_loop_safe:
  assumes "polite e arr"
  shows "copy_inv arr own buf bufLen stop s \<Longrightarrow> copied_safely (copy_loop e arr start own buf bufLen al i stop s)"
proof (induction "JSUINT_MOD - i" arbitrary: i buf bufLen stop al s rule: less_induct)
  case less
  obtain p off where buf: "buf = (p, off)" by fastforce
  obtain b ob where b: "blocks s p = Some b" "off + bufLen \<le> length b" "unowned s p" "bounded s" "objects s arr = Some ob"
    "stop \<le> bufLen" "own \<Longrightarrow> off = 0"
    using less.prems by (auto simp: copy_inv_def buf)
  note unf = copy_loop.simps [of e arr start own buf bufLen al i stop s]
  show ?case
  proof (cases "i < stop mod JSUINT_MOD")
    case False
    then show ?thesis by (subst unf) (simp add: copied_safely_def)
  next
    case True
    have im: "i < JSUINT_MOD" "i < stop"
      using True by (simp_all add: JSUINT_MOD_def)
    have m: "JSUINT_MOD - Suc i < JSUINT_MOD - i" using im by simp
    obtain v where v: "JS_GetElement arr (start + i) s = Ret v s" using b(5) by (simp add: JS_GetElement_def)
    note pol = ValueToNumber_polite [OF assms, where v = v and s = s]
    have un: "leaves arr s s1 \<Longrightarrow> unowned s1 p \<and> blocks s1 p = Some b \<and> bounded s1 \<and> objects s1 arr \<noteq> None" for s1
      using b by (auto simp: leaves_def)
    show ?thesis
    proof (cases "ValueToNumber e v s")
      case Fault
      with pol show ?thesis by simp
    next
      case Hang
      with True v show ?thesis by (subst unf) (simp add: copied_safely_def)
    next
      case (Throw s1)
      with pol un [of s1] True v buf show ?thesis by (subst unf) (simp add: copied_safely_def)
    next
      case (Ret d s1)
      with pol un [of s1] have s1: "unowned s1 p" "blocks s1 p = Some b" "objects s1 arr \<noteq> None" "bounded s1" by auto
      show ?thesis
      proof (cases "is_int d (int (to_uchar e d))")
        case False
        with Ret True v buf s1 show ?thesis by (subst unf) (simp add: copied_safely_def)
      next
        case d: True
        let ?c = "of_nat (to_uchar e d) :: byte" and ?b = "b[off + i := of_nat (to_uchar e d)]"
        define s2 where "s2 = s1\<lparr>blocks := (blocks s1)(p \<mapsto> ?b)\<rparr>"
        have w: "write_byte s1 p (off + i) ?c = Some s2"
          using poke [of "off + i" b s1 p ?c] s1(2) b(2,6) im(2) by (simp add: s2_def)
        have s2: "unowned s2 p" "blocks s2 p = Some ?b" "objects s2 = objects s1" "bnext s2 = bnext s1" "bounded s2"
          using s1 by (auto simp: s2_def unowned_def handle_of_def bounded_def)
        obtain n where n: "JS_GetArrayLength arr s2 = Ret n s2"
          using s1(3) s2(3) by (auto simp: JS_GetArrayLength_def)
        have st: "copy_loop e arr start own buf bufLen al i stop s =
           (if n \<noteq> bufLen then
              if own then
                (case JS_realloc e p n s2 of
                   None \<Rightarrow> Fault
                 | Some (q, s4) \<Rightarrow>
                     if q = NULL then Ret (Inl NULL) s4
                     else copy_loop e arr start own (q, 0) n n (Suc i) n s4)
              else copy_loop e arr start own buf bufLen n (Suc i) (min bufLen n) s2
            else copy_loop e arr start own buf bufLen n (Suc i) stop s2)"
          using True v Ret d w n by (subst unf) (simp add: buf)
        have inv: "copy_inv arr own buf bufLen stop' s2" if "stop' \<le> bufLen" for stop'
          using s2 s1(3) b(2,7) that by (auto simp: copy_inv_def buf)
        show ?thesis
        proof (cases "n \<noteq> bufLen \<and> own")
          case False
          then show ?thesis
            using less.hyps [OF m inv [OF b(6)]] less.hyps [OF m inv [of "min bufLen n"]] by (auto simp: st)
        next
          case own: True
          have "p \<noteq> 0" using s2(1) by (simp add: unowned_def)
          let ?q = "bnext s2" and ?x = "take n ?b @ drop (length ?b) (new_block e (bnext s2) n)"
          define s3 where "s3 = s2\<lparr>blocks := (blocks s2)(p := None, ?q \<mapsto> ?x), bnext := Suc ?q\<rparr>"
          have re: "JS_realloc e p n s2 = (if mem_ok e ?q n then Some (?q, s3) else Some (NULL, s2))"
            using s2(2) \<open>p \<noteq> 0\<close> by (simp add: JS_realloc_def Let_def s3_def)
          show ?thesis
          proof (cases "mem_ok e ?q n \<and> ?q \<noteq> 0")
            case True
            have h: "handle_of s3 = handle_of s2" by (simp add: s3_def handle_of_def fun_eq_iff)
            have "copy_inv arr own (?q, 0) n n s3"
              using s2 s1(3) own True unfolding copy_inv_def unowned_def bounded_def h by (fastforce simp: s3_def)
            from less.hyps [OF m this] show ?thesis unfolding st using own re True by simp
          next
            case False
            with own re s2(1) show ?thesis unfolding st by (auto simp: copied_safely_def unowned_def)
          qed
        qed
      qed
    qed
  qed
qed

text \<open>Whatever the script code run by the conversions does to the array while it is copied, growing,
  shrinking or replacing it, \<open>copyJSArray_toBuf\<close> writes inside its buffer, its own or the
  caller's, and frees only what it allocated.\<close>

theorem copyJSArray_in_bounds:
  assumes "polite e arr" and "bounded s" and "0 < bnext s" and "objects s arr \<noteq> None"
    and "bufp = (NULL, 0) \<or> unowned s (fst bufp) \<and> (\<exists>b. blocks s (fst bufp) = Some b \<and> snd bufp + lenp \<le> length b)"
  shows "copyJSArray_toBuf e arr start bufp lenp s \<noteq> Fault"
proof -
  obtain ob where ob: "objects s arr = Some ob" using assms(4) by blast
  define n where "n = length (elems ob) mod JSUINT_MOD"
  have len: "JS_GetArrayLength arr s = Ret n s" by (simp add: JS_GetArrayLength_def ob n_def)
  have fin: "copied_safely r \<Longrightarrow> rbind r (\<lambda>r s. case r of
      Inr (buf, stop, arrLen) \<Rightarrow> Ret (buf, stop, arrLen < stop) s
    | Inl b \<Rightarrow> if own then the_or_fault (JS_free b s) Throw else Throw s) \<noteq> Fault" for r own
    by (auto simp: copied_safely_def JS_free_def split: res.splits sum.splits)
  show ?thesis
  proof (cases "bufp = (NULL, 0)")
    case True
    obtain p s1 where m: "JS_malloc e n s = (p, s1)" by fastforce
    have "copy_inv arr True (p, 0) n n s1" if "p \<noteq> 0"
    proof -
      have s1: "p = bnext s" "s1 = s\<lparr>blocks := (blocks s)(p \<mapsto> new_block e p n), bnext := Suc p\<rparr>"
        using m that by (auto simp: JS_malloc_def Let_def split: if_splits)
      have "handle_of s1 = handle_of s" by (simp add: s1(2) handle_of_def fun_eq_iff)
      with assms(2,3) ob that show ?thesis
        unfolding copy_inv_def unowned_def bounded_def by (fastforce simp: s1)
    qed
    from fin [OF copy_loop_safe [OF assms(1) this]] show ?thesis
      using True by (auto simp: copyJSArray_toBuf_def len m)
  next
    case False
    obtain b where b: "blocks s (fst bufp) = Some b" "snd bufp + lenp \<le> length b" "unowned s (fst bufp)"
      using assms(5) False by blast
    have "snd bufp + lenp mod JSUINT_MOD \<le> length b"
      using b(2) mod_less_eq_dividend [of lenp JSUINT_MOD] by linarith
    then have "copy_inv arr False bufp (lenp mod JSUINT_MOD) (min (lenp mod JSUINT_MOD) n) s"
      using b assms(2,4) by (auto simp: copy_inv_def)
    from fin [where own = False, OF copy_loop_safe [OF assms(1) this]] show ?thesis
      using False by (auto simp: copyJSArray_toBuf_def len Let_def)
  qed
qed


definition shrink :: "ptr \<Rightarrow> bst \<Rightarrow> bst" where
  "shrink arr s = s\<lparr>objects := (objects s)(arr := map_option (\<lambda>ob. ob\<lparr>elems := []\<rparr>) (objects s arr))\<rparr>"

lemma shrink_leaves: "leaves arr s (shrink arr s)"
proof -
  have "handle_of (shrink arr s) = handle_of s"
    by (cases "objects s arr") (auto simp: shrink_def handle_of_def fun_eq_iff)
  then show ?thesis by (auto simp: leaves_def unowned_def bounded_def) (auto simp: shrink_def)
qed

definition test_env :: "(jsval \<Rightarrow> bst \<Rightarrow> jsdouble res) \<Rightarrow> env" where
  "test_env conv = \<lparr>mem_ok = (\<lambda>p n. True), garbage = (\<lambda>p n. 255), to_number = conv, wild = (\<lambda>d. 0),
     byteArray_proto = 1, byteString_proto = 2\<rparr>"

definition test_store :: "jsval list \<Rightarrow> bst" where
  "test_store xs = \<lparr>blocks = (\<lambda>p. None),
     objects = (\<lambda>p. if p = 3 then Some \<lparr>oclass = Array_class, opriv = None, elems = xs\<rparr> else None), bnext = 4\<rparr>"

theorem copyJSArray_in_bounds_witness:
  "copyJSArray_toBuf (test_env (\<lambda>v s. Ret (Fin 7) (shrink 3 s))) 3 0 (NULL, 0) 0
     (test_store [JVoid, JVoid]) \<noteq> Fault"
  by (rule copyJSArray_in_bounds)
    (auto simp: polite_def test_env_def test_store_def shrink_leaves bounded_def handle_of_def)

theorem val2bytes_delivers_witness:
  "delivers (test_env (\<lambda>v s. Throw s)) (test_store [JInt 3, JInt 4])
     (Some [255, 3, 4]) (buffer_holds (test_env (\<lambda>v s. Throw s)) (test_store [JInt 3, JInt 4]) [JInt 255, JObj 3])
     (byteThing_val2bytes (test_env (\<lambda>v s. Throw s)) [JInt 255, JObj 3] False (test_store [JInt 3, JInt 4]))"
proof -
  let ?s = "test_store [JInt 3, JInt 4]" and ?e = "test_env (\<lambda>v s. Throw s)"
  have "args_bytes (\<lambda>v. None) ?s [JInt 255, JObj 3] = Some [255, 3, 4]"
    by (simp add: arg_bytes_def elem_byte_def number_of_def byte_of_def test_store_def)
  moreover have "calm (\<lambda>v. None) ?e" by (simp add: calm_def test_env_def)
  moreover have "bt_ok ?s" by (rule bt_okI) (auto simp: test_store_def handle_of_def split: if_splits)
  ultimately show ?thesis
    using val2bytes_delivers [of "\<lambda>v. None" ?e ?s "[JInt 255, JObj 3]" False]
    by (simp add: live_arg_def test_store_def arg_size_def)
qed

end
