(* ===== verification/ByteThings.thy ===== *)
theory ByteThings
  imports ByteStore Base64
begin

text \<open>
  The methods ByteString and ByteArray share (modules/binary/bytethings.c), the base-64 functions
  of the module (modules/binary/binary.c) and what a garbage collection does to shared buffers.
  An error message is dropped from an exception.  Character sets are converted by iconv, a
  parameter.
\<close>

section \<open>Getters\<close>

definition byteThing_getLength :: "ptr \<Rightarrow> jsclass \<Rightarrow> bst \<Rightarrow> nat res" where
  "byteThing_getLength obj clasp s =
     get_object obj s (\<lambda>ob.
       if \<not> gpsee_isByteThingClass (oclass ob) then Throw s
       else rbind (byteThing_getHandle obj (Some clasp) s) (\<lambda>hnd s. Ret (hlength hnd) s))"

text \<open>The objects under construction come with their class, so nothing is shared with them.  A
  one-byte ByteString of what is at an index of a buffer:\<close>

definition one_byte :: "env \<Rightarrow> nat \<Rightarrow> bt_handle \<Rightarrow> nat \<Rightarrow> bst \<Rightarrow> jsval res" where
  "one_byte e sz hnd index s =
     rbind (byteThing_fromCArray e (buffer hnd, index) 1 NULL ByteString_class sz False s) (\<lambda>obj s. Ret (JObj obj) s)"

definition byteThing_getProperty :: "env \<Rightarrow> nat \<Rightarrow> ptr \<Rightarrow> jsval \<Rightarrow> jsval \<Rightarrow> jsclass \<Rightarrow> bst \<Rightarrow> jsval res" where
  "byteThing_getProperty e sz obj i vp clasp s =
     (if obj = byteArray_proto e \<or> obj = byteString_proto e then Ret vp s
      else rbind (byteThing_val2size e i s) (\<lambda>r s.
        case r of
          Inl errmsg \<Rightarrow> Ret vp s
        | Inr index \<Rightarrow>
            rbind (byteThing_getHandle obj (Some clasp) s) (\<lambda>hnd s.
              if hlength hnd \<le> index then Ret JVoid s
              else if clasp = ByteString_class then one_byte e sz hnd index s
              else the_or_fault (read_byte s (buffer hnd) index) (\<lambda>b. Ret (JInt (uint b)) s))))"

text \<open>\<open>charAt\<close>, \<open>byteAt\<close>, \<open>charCodeAt\<close> and \<open>get\<close>: a number or a ByteString of one byte.  The bound
  on the index is the length less one, which wraps around on an empty object.\<close>

definition byteThing_byarAt :: "env \<Rightarrow> nat \<Rightarrow> ptr \<Rightarrow> jsval list \<Rightarrow> jsclass \<Rightarrow> bool \<Rightarrow> bst \<Rightarrow> jsval res" where
  "byteThing_byarAt e sz obj argv clasp asByteString s =
     get_object obj s (\<lambda>ob.
       if \<not> gpsee_isByteThingClass (oclass ob) then Throw s
       else rbind (byteThing_getHandle obj (Some clasp) s) (\<lambda>hnd s.
         rbind (byteThing_arg2size e argv 0 0 (size_sub (hlength hnd) 1) False 0 s) (\<lambda>index s.
           get_handle obj s (\<lambda>hnd.
             if asByteString then one_byte e sz hnd index s
             else the_or_fault (read_byte s (buffer hnd) index) (\<lambda>b. Ret (JInt (uint b)) s)))))"

section \<open>Searching\<close>

text \<open>\<open>memchr\<close>, and the \<open>memrchr\<close> the module brings, which starts one byte past the end and
  compares down to, and past, the start; the bytes are those of a block, and \<open>None\<close> an access
  outside it.\<close>

fun memchr_loop :: "byte list \<Rightarrow> nat \<Rightarrow> byte \<Rightarrow> nat \<Rightarrow> nat option option" where
  "memchr_loop b p c 0 = Some None"
| "memchr_loop b p c (Suc n) =
     (case mem_load b p of
        None \<Rightarrow> None
      | Some x \<Rightarrow> if x = c then Some (Some p) else memchr_loop b (Suc p) c n)"

fun memrchr_loop :: "byte list \<Rightarrow> nat \<Rightarrow> byte \<Rightarrow> nat \<Rightarrow> nat option option" where
  "memrchr_loop b start c n =
     (case mem_load b (start + n) of
        None \<Rightarrow> None
      | Some x \<Rightarrow> if sint x = uint c then Some (Some (start + n))
                   else case n of 0 \<Rightarrow> Some None | Suc m \<Rightarrow> memrchr_loop b start c m)"

declare memrchr_loop.simps [simp del]

definition memchr :: "byte list \<Rightarrow> nat \<Rightarrow> byte \<Rightarrow> nat \<Rightarrow> nat option option" where
  "memchr b p c n = memchr_loop b p c n"

definition gpsee_memrchr :: "byte list \<Rightarrow> nat \<Rightarrow> byte \<Rightarrow> nat \<Rightarrow> nat option option" where
  "gpsee_memrchr b s c n = memrchr_loop b s c n"

text \<open>Nothing is read of an empty block.  The three bounds come from the length, two of them less one
  and less the start.\<close>

definition byteThing_findChar ::
    "env \<Rightarrow> ptr \<Rightarrow> jsval list \<Rightarrow> (byte list \<Rightarrow> nat \<Rightarrow> byte \<Rightarrow> nat \<Rightarrow> nat option option) \<Rightarrow> jsclass \<Rightarrow> bst \<Rightarrow> int res" where
  "byteThing_findChar e obj argv memchr_fn clasp s =
     get_object obj s (\<lambda>ob.
       if \<not> gpsee_isByteThingClass (oclass ob) then Throw s
       else rbind (byteThing_getHandle obj (Some clasp) s) (\<lambda>_ s.
         if length argv < 1 \<or> 3 < length argv then Throw s
         else rbind (byteThing_val2byte e (argv ! 0) s) (\<lambda>r s.
           case r of
             Inl errmsg \<Rightarrow> Throw s
           | Inr theByte \<Rightarrow>
               get_handle obj s (\<lambda>hnd.
                 rbind (byteThing_arg2size e argv 1 0 (size_sub (hlength hnd) 1) True 0 s) (\<lambda>start s.
                   get_handle obj s (\<lambda>hnd.
                     rbind (byteThing_arg2size e argv 2 0 (size_sub (hlength hnd) start) True
                              (size_sub (hlength hnd) start) s) (\<lambda>len s.
                       get_handle obj s (\<lambda>hnd.
                         the_or_fault (memchr_fn (case blocks s (buffer hnd) of None \<Rightarrow> [] | Some b \<Rightarrow> b) start theByte len)
                           (\<lambda>found. Ret (case found of Some p \<Rightarrow> int p | None \<Rightarrow> -1) s)))))))))"

section \<open>Arrays and text\<close>

definition byteThing_toArray :: "env \<Rightarrow> ptr \<Rightarrow> nat \<Rightarrow> bst \<Rightarrow> ptr res" where
  "byteThing_toArray e bytes len s =
     (let (retval, s) = JS_NewObject e Array_class s
      in if retval = NULL then Throw s
         else the_or_fault (read_bytes s bytes 0 len) (\<lambda>bs.
           Ret retval (s\<lparr>objects := (objects s)(retval \<mapsto>
             \<lparr>oclass = Array_class, opriv = None, elems = map (\<lambda>b. JInt (uint b)) bs\<rparr>)\<rparr>)))"

fun decimal :: "nat \<Rightarrow> string" where
  "decimal n = (if n < 10 then [char_of (48 + n)] else decimal (n div 10) @ [char_of (48 + n mod 10)])"

declare decimal.simps [simp del]

definition class_name :: "jsclass \<Rightarrow> string" where
  "class_name c = (case c of ByteString_class \<Rightarrow> ''gpsee.module.ca.page.binary.ByteString''
     | ByteArray_class \<Rightarrow> ''gpsee.module.ca.page.binary.ByteArray'' | ByteThing_class \<Rightarrow> ''gpsee.ByteThing'' | Array_class \<Rightarrow> ''Array'' | Other_class \<Rightarrow> ''Object'')"

definition byteThing_toString :: "ptr \<Rightarrow> bst \<Rightarrow> string res" where
  "byteThing_toString obj s =
     (if obj = NULL then Throw s
      else get_object obj s (\<lambda>ob.
        if \<not> gpsee_isByteThingClass (oclass ob) then Throw s
        else case opriv ob of
            None \<Rightarrow> Throw s
          | Some hnd \<Rightarrow>
              Ret (take 127 (''[object '' @ class_name (oclass ob) @ '' '' @ decimal (hlength hnd) @ '']'')) s))"

fun join_decimals :: "byte list \<Rightarrow> string" where
  "join_decimals [] = []"
| "join_decimals [b] = decimal (unat b)"
| "join_decimals (b # bs) = decimal (unat b) @ '','' @ join_decimals bs"

text \<open>The buffer for the source text is allocated for the fixed parts and four characters a byte; its
  position is the length of what has been written.\<close>

definition byteThing_toSource :: "env \<Rightarrow> ptr \<Rightarrow> jsclass \<Rightarrow> bst \<Rightarrow> string res" where
  "byteThing_toSource e obj clasp s =
     rbind (byteThing_getHandle obj (Some clasp) s) (\<lambda>hnd s.
       the_or_fault (read_bytes s (buffer hnd) 0 (hlength hnd)) (\<lambda>bs.
         let front = ''(new (require('' @ [CHR 0x22] @ ''binary'' @ [CHR 0x22] @ '').Byte'';
             back = '']))'';
             kind = (if clasp = ByteString_class then ''String)(['' else if clasp = ByteArray_class then ''Array)(['' else []);
             src = front @ kind @ join_decimals bs @ back;
             alloc = (length front + 1) + (length back + 1) + hlength hnd * 4 + 6
         in if \<not> mem_ok e (bnext s) alloc then Fault
            else if alloc \<le> length src then Fault
            else Ret src (s\<lparr>bnext := Suc (bnext s)\<rparr>)))"


section \<open>Casting\<close>

definition cstrlen :: "bst \<Rightarrow> ptr \<Rightarrow> nat option" where
  "cstrlen s p =
     (case blocks s p of None \<Rightarrow> None | Some b \<Rightarrow>
        (case List.find (\<lambda>i. b ! i = 0) [0..<length b] of None \<Rightarrow> None | Some i \<Rightarrow> Some i))"

text \<open>The length given, which is trusted; \<open>-1\<close> stands for that of the C string.  A number out of
  range becomes any \<open>ssize_t\<close> that is not it, and throws.  An immutable source of a ByteString is
  shared: the new handle is a copy of its handle.\<close>

definition cast_length :: "env \<Rightarrow> bt_handle \<Rightarrow> jsval list \<Rightarrow> bst \<Rightarrow> int res" where
  "cast_length e hnd argv s =
     (if length argv = 1 then Ret (int (hlength hnd)) s
      else
        rbind (case argv ! 1 of
                 JInt i \<Rightarrow> Ret i s
               | v \<Rightarrow> rbind (ValueToNumber e v s) (\<lambda>d s.
                   if \<not> is_int d (to_ssize e d) then Throw s else Ret (to_ssize e d) s)) (\<lambda>len s.
          if len = -1 then the_or_fault (cstrlen s (buffer hnd)) (\<lambda>n. Ret (int n) s) else Ret len s))"

definition size_of_int :: "int \<Rightarrow> nat" where
  "size_of_int n = nat (n mod int SIZE_MOD)"

definition byteThing_Cast ::
    "env \<Rightarrow> nat \<Rightarrow> nat \<Rightarrow> (jsval \<Rightarrow> ptr option) \<Rightarrow> jsval list \<Rightarrow> jsclass \<Rightarrow> bst \<Rightarrow> jsval res" where
  "byteThing_Cast e hndSize sz to_object argv clasp s =
     (if length argv \<noteq> 1 \<and> length argv \<noteq> 2 then Throw s
      else case (case argv ! 0 of JObj obj \<Rightarrow> Some obj | v \<Rightarrow> to_object v) of
        None \<Rightarrow> Throw s
      | Some obj \<Rightarrow>
          get_object obj s (\<lambda>ob.
            if \<not> gpsee_isByteThingClass (oclass ob) then Throw s
            else case opriv ob of
              None \<Rightarrow> Throw s
            | Some hnd \<Rightarrow>
                rbind (cast_length e hnd argv s) (\<lambda>len s.
                  get_handle obj s (\<lambda>hnd.
                    if clasp = ByteString_class \<and> bt_immutable hnd then
                      if \<not> mem_ok e (bnext s) sz then Throw s
                      else
                        let (obj, s) = JS_NewObject e clasp (s\<lparr>bnext := Suc (bnext s)\<rparr>)
                        in if obj = NULL then Fault else Ret (JObj obj) (set_handle obj hnd s)
                    else
                      rbind (byteThing_fromCArray e (buffer hnd, 0) (size_of_int len) NULL clasp hndSize False s)
                        (\<lambda>obj s. Ret (JObj obj) s)))))"

text \<open>An \<open>int\<close> read from a buffer, low byte first; the index is not checked.\<close>

definition int_of_bytes :: "byte list \<Rightarrow> int" where
  "int_of_bytes bs = sint (word_rcat (rev bs) :: 32 word)"

definition byteThing_intAt :: "env \<Rightarrow> ptr \<Rightarrow> jsval list \<Rightarrow> bst \<Rightarrow> int res" where
  "byteThing_intAt e self argv s =
     (if self = NULL then Throw s
      else get_object self s (\<lambda>ob.
        case opriv ob of
          None \<Rightarrow> Throw s
        | Some _ \<Rightarrow>
            rbind (if argv = [] then Fault else byteThing_val2size e (argv ! 0) s) (\<lambda>r s.
              case r of
                Inl err \<Rightarrow> Throw s
              | Inr idx \<Rightarrow>
                  get_handle self s (\<lambda>hnd.
                    the_or_fault (read_bytes s (buffer hnd) idx 4) (\<lambda>bs. Ret (int_of_bytes bs) s)))))"

section \<open>Base 64\<close>

definition binary_toBase64 :: "env \<Rightarrow> int list \<Rightarrow> jsval list \<Rightarrow> bst \<Rightarrow> string res" where
  "binary_toBase64 e c argv s =
     (if length argv \<noteq> 1 then Throw s
      else case argv ! 0 of
        JObj obj \<Rightarrow>
          get_object obj s (\<lambda>ob.
            if \<not> gpsee_isByteThingClass (oclass ob) then Throw s
            else case opriv ob of
              None \<Rightarrow> Throw s
            | Some hnd \<Rightarrow>
                if hlength hnd = 0 then Ret [] s
                else
                  let n = (hlength hnd + 2) div 3 * 4 + 1
                  in if \<not> mem_ok e (bnext s) n then Throw s
                     else the_or_fault (Option.bind (read_bytes s (buffer hnd) 0 (hlength hnd)) (\<lambda>bs.
                            Option.bind (binary_to_b64 c bs (Some (map (\<lambda>x. char_of (unat x)) (new_block e (bnext s) n)))) (\<lambda>(r, out).
                              Option.bind out (\<lambda>out. cstr_at out 0))))
                          (\<lambda>str. Ret str (s\<lparr>bnext := Suc (bnext s)\<rparr>)))
      | _ \<Rightarrow> Throw s)"

text \<open>The decoder fills the buffer of a new byte thing; \<open>to_string\<close> is the conversion of the argument.\<close>

definition binary_fromBase64 :: "env \<Rightarrow> nat \<Rightarrow> (jsval \<Rightarrow> string option) \<Rightarrow> jsval list \<Rightarrow> bst \<Rightarrow> jsval res" where
  "binary_fromBase64 e sz to_string argv s =
     (if length argv \<noteq> 1 then Throw s
      else case (case argv ! 0 of JString str \<Rightarrow> Some str | v \<Rightarrow> to_string v) of
        None \<Rightarrow> Throw s
      | Some str \<Rightarrow>
          (case gpsee_newByteThing e sz NULL (length str div 4 * 3 + 2) True s of
             Throw s \<Rightarrow> Fault
           | Ret obj s \<Rightarrow>
               get_handle obj s (\<lambda>hnd.
                 the_or_fault (b64_to_binary (new_block e (bnext s)) str
                                 (if buffer hnd = NULL then None else blocks s (buffer hnd))) (\<lambda>(n, buf).
                   Ret (JObj obj) (set_handle obj (hnd\<lparr>hlength := n\<rparr>)
                     (if buffer hnd = NULL then s else s\<lparr>blocks := (blocks s)(buffer hnd \<mapsto> buf)\<rparr>))))
           | Fault \<Rightarrow> Fault | Hang \<Rightarrow> Hang))"


section \<open>Collections and shared buffers\<close>

text \<open>Every buffer has an owner: a byte thing that names itself its owner, alone for this buffer.\<close>

definition owned :: "bst \<Rightarrow> bool" where
  "owned s \<longleftrightarrow>
     (\<forall>obj h. handle_of s obj = Some h \<longrightarrow> handle_ok s h)
     \<and> (\<forall>obj h. handle_of s obj = Some h \<longrightarrow> buffer h \<noteq> NULL \<longrightarrow>
          memoryOwner h \<noteq> NULL \<and>
          (\<exists>ho. handle_of s (memoryOwner h) = Some ho \<and> memoryOwner ho = memoryOwner h \<and> buffer ho = buffer h))
     \<and> (\<forall>o1 o2 h1 h2. handle_of s o1 = Some h1 \<longrightarrow> memoryOwner h1 = o1 \<longrightarrow>
          handle_of s o2 = Some h2 \<longrightarrow> memoryOwner h2 = o2 \<longrightarrow> buffer h1 = buffer h2 \<longrightarrow> buffer h1 \<noteq> NULL \<longrightarrow> o1 = o2)"

fun collect :: "ptr list \<Rightarrow> bst \<Rightarrow> bst option" where
  "collect [] s = Some s"
| "collect (obj # dead) s = Option.bind (byteThing_Finalize obj s) (collect dead)"

definition frees :: "bst \<Rightarrow> ptr \<Rightarrow> ptr option" where
  "frees s obj =
     (case handle_of s obj of
        Some h \<Rightarrow> if buffer h \<noteq> NULL \<and> memoryOwner h = obj then Some (buffer h) else None
      | None \<Rightarrow> None)"

lemma finalize_frees:
  assumes "\<And>p. frees s obj = Some p \<Longrightarrow> blocks s p \<noteq> None"
  shows "\<exists>s'. byteThing_Finalize obj s = Some s' \<and> objects s' = (objects s)(obj := None)
    \<and> (\<forall>p. blocks s' p = (if frees s obj = Some p then None else blocks s p))"
proof (cases "handle_of s obj")
  case None
  then show ?thesis by (auto simp: byteThing_Finalize_def handle_of_def frees_def)
next
  case (Some h)
  show ?thesis
  proof (cases "buffer h \<noteq> NULL \<and> memoryOwner h = obj")
    case True
    with Some assms have "blocks s (buffer h) \<noteq> None" by (simp add: frees_def)
    with True Some show ?thesis
      by (auto simp: byteThing_Finalize_def handle_of_def frees_def JS_free_def)
  next
    case False
    with Some show ?thesis by (auto simp: byteThing_Finalize_def handle_of_def frees_def)
  qed
qed

lemma collect_frees:
  "distinct dead \<Longrightarrow> (\<And>obj p. obj \<in> set dead \<Longrightarrow> frees s obj = Some p \<Longrightarrow> blocks s p \<noteq> None) \<Longrightarrow>
   (\<And>o1 o2 p. o1 \<in> set dead \<Longrightarrow> o2 \<in> set dead \<Longrightarrow> frees s o1 = Some p \<Longrightarrow> frees s o2 = Some p \<Longrightarrow> o1 = o2) \<Longrightarrow>
   \<exists>s'. collect dead s = Some s' \<and> (\<forall>q. objects s' q = (if q \<in> set dead then None else objects s q))
     \<and> (\<forall>p. blocks s' p = (if \<exists>obj \<in> set dead. frees s obj = Some p then None else blocks s p))"
proof (induction dead arbitrary: s)
  case (Cons obj dead)
  obtain s1 where s1: "byteThing_Finalize obj s = Some s1" "objects s1 = (objects s)(obj := None)"
    "\<And>p. blocks s1 p = (if frees s obj = Some p then None else blocks s p)"
    using finalize_frees [of s obj] Cons.prems(2) [of obj] by auto
  have fr: "frees s1 q = frees s q" if "q \<in> set dead" for q
    using that Cons.prems(1) by (auto simp: frees_def handle_of_def s1(2))
  have "\<exists>s'. collect dead s1 = Some s' \<and> (\<forall>q. objects s' q = (if q \<in> set dead then None else objects s1 q))
     \<and> (\<forall>p. blocks s' p = (if \<exists>obj \<in> set dead. frees s1 obj = Some p then None else blocks s1 p))"
  proof (rule Cons.IH)
    show "distinct dead" using Cons.prems(1) by simp
    show "blocks s1 p \<noteq> None" if "q \<in> set dead" "frees s1 q = Some p" for q p
      using Cons.prems(1) Cons.prems(2) [of q p] Cons.prems(3) [of q obj p] that fr [OF that(1)]
      by (auto simp: s1(3))
    show "o1 = o2" if "o1 \<in> set dead" "o2 \<in> set dead" "frees s1 o1 = Some p" "frees s1 o2 = Some p" for o1 o2 p
      using Cons.prems(3) [of o1 o2 p] that fr by simp
  qed
  then show ?case using fr by (auto simp: s1)
qed simp

text \<open>C27: A garbage collection that keeps what \<open>gpsee_byteThingTracer\<close> marks frees every dead byte
  thing without freeing memory twice, and every byte thing it keeps still has its bytes, those that
  share the buffer of another included.\<close>

theorem collection_keeps_live_bytes:
  assumes "owned s" and "distinct dead"
    and "\<And>obj owner. gpsee_byteThingTracer s obj = Some owner \<Longrightarrow> obj \<notin> set dead \<Longrightarrow> owner \<notin> set dead"
  shows "\<exists>s'. collect dead s = Some s'
    \<and> (\<forall>obj. obj \<notin> set dead \<longrightarrow> objects s' obj = objects s obj \<and> contents s' obj = contents s obj)"
proof -
  have own: "handle_ok s h" "buffer h \<noteq> NULL \<Longrightarrow> memoryOwner h \<noteq> NULL \<and>
      (\<exists>ho. handle_of s (memoryOwner h) = Some ho \<and> memoryOwner ho = memoryOwner h \<and> buffer ho = buffer h)"
    if "handle_of s q = Some h" for q h
    using assms(1) that unfolding owned_def by blast+
  have uni: "o1 = o2" if "frees s o1 = Some p" "frees s o2 = Some p" for o1 o2 p
    using assms(1) that unfolding owned_def frees_def by (auto split: option.splits if_splits)
  have blk: "blocks s p \<noteq> None" if "frees s q = Some p" for q p
  proof -
    from that obtain h where "handle_of s q = Some h" "p = buffer h" "buffer h \<noteq> NULL"
      by (auto simp: frees_def split: option.splits if_splits)
    with own(1) [of q h] show ?thesis by (auto simp: handle_ok_def)
  qed
  have "\<exists>s'. collect dead s = Some s' \<and> (\<forall>q. objects s' q = (if q \<in> set dead then None else objects s q))
     \<and> (\<forall>p. blocks s' p = (if \<exists>obj \<in> set dead. frees s obj = Some p then None else blocks s p))"
    by (rule collect_frees [OF assms(2)]) (erule blk, erule uni, assumption)
  then obtain s' where s': "collect dead s = Some s'"
    "\<And>q. objects s' q = (if q \<in> set dead then None else objects s q)"
    "\<And>p. blocks s' p = (if \<exists>obj \<in> set dead. frees s obj = Some p then None else blocks s p)" by blast
  have "contents s' q = contents s q" if q: "q \<notin> set dead" for q
  proof (cases "handle_of s q")
    case (Some h)
    have "blocks s' (buffer h) = blocks s (buffer h) \<or> buffer h = NULL"
    proof (rule ccontr)
      assume "\<not> ?thesis"
      then obtain d where d: "d \<in> set dead" "frees s d = Some (buffer h)" and b: "buffer h \<noteq> NULL"
        using s'(3) [of "buffer h"] by (auto split: if_splits)
      let ?o = "memoryOwner h"
      from own(2) [OF Some b] have "frees s ?o = Some (buffer h)" and n: "?o \<noteq> NULL"
        by (auto simp: frees_def b)
      with uni d(2) have "d = ?o" by blast
      moreover have "?o \<notin> set dead"
        using assms(3) [of q ?o] q Some n by (cases "?o = q") (auto simp: gpsee_byteThingTracer_def handle_of_def)
      ultimately show False using d(1) by simp
    qed
    moreover have "hlength h = 0" if "buffer h = NULL" using own(1) [OF Some] that by (simp add: handle_ok_def)
    ultimately show ?thesis using Some q s'(2) by (auto simp: contents_def handle_of_def read_bytes_def)
  qed (use q s'(2) in \<open>simp add: contents_def handle_of_def\<close>)
  with s'(1,2) show ?thesis by auto
qed


section \<open>What making a byte thing does\<close>

definition creates :: "bst \<Rightarrow> jsclass \<Rightarrow> byte list \<Rightarrow> ptr \<Rightarrow> bst \<Rightarrow> bool" where
  "creates s clasp bs obj s' \<longleftrightarrow>
     bt_ok s' \<and> bnext s \<le> obj \<and> bnext s \<le> bnext s' \<and> contents s' obj = Some bs
     \<and> (\<exists>h. objects s' = (objects s)(obj \<mapsto> \<lparr>oclass = clasp, opriv = Some h, elems = []\<rparr>)
          \<and> hlength h = length bs \<and> memoryOwner h = obj \<and> \<not> bt_immutable h \<and> capacity h = 0
          \<and> (buffer h = NULL \<and> bs = [] \<or> bnext s \<le> buffer h))
     \<and> (\<forall>p < bnext s. blocks s' p = blocks s p)"

lemma creates_keeps:
  assumes "bt_ok s" "creates s clasp bs obj s'" "objects s q \<noteq> None"
  shows "objects s' q = objects s q \<and> contents s' q = contents s q"
proof -
  have q: "q < bnext s" using bt_okD(3) [OF assms(1,3)] by simp
  with assms(2) have o: "objects s' q = objects s q" by (auto simp: creates_def)
  have "contents s' q = contents s q"
  proof (cases "handle_of s q")
    case (Some h)
    have "read_bytes s' (buffer h) 0 (hlength h) = read_bytes s (buffer h) 0 (hlength h)"
    proof (cases "hlength h = 0")
      case False
      with handle_ok_block [OF bt_okD(4) [OF assms(1) Some]] obtain b where "blocks s (buffer h) = Some b" by auto
      with bt_okD(2) [OF assms(1), of "buffer h"] assms(2) show ?thesis by (simp add: creates_def read_bytes_def)
    qed (simp add: read_bytes_def)
    with Some o show ?thesis by (simp add: contents_def handle_of_def)
  qed (use o in \<open>simp add: contents_def handle_of_def\<close>)
  with o show ?thesis by simp
qed

text \<open>A buffer holds bytes when it begins with them; no buffer holds none.\<close>

definition holds_bytes :: "bst \<Rightarrow> bst \<Rightarrow> ptr \<Rightarrow> byte list \<Rightarrow> bool" where
  "holds_bytes s0 s b bs \<longleftrightarrow>
     b = NULL \<and> bs = []
     \<or> bnext s0 \<le> b \<and> (\<exists>c. blocks s b = Some c \<and> length bs \<le> length c \<and> take (length bs) c = bs)"

lemma holds_bytes_exact: "bnext s0 \<le> b \<Longrightarrow> blocks s b = Some bs \<Longrightarrow> holds_bytes s0 s b bs"
  by (simp add: holds_bytes_def)

definition new_handle :: "nat \<Rightarrow> ptr \<Rightarrow> ptr \<Rightarrow> bt_handle" where
  "new_handle len b obj = \<lparr>hlength = len, buffer = b, memoryOwner = obj, bt_immutable = False, capacity = 0\<rparr>"

lemma decorate_ok:
  assumes ok: "bt_ok s" and fr: "frame s s1" and obj: "0 < obj" "obj < bnext s2"
    and b: "holds_bytes s s1 b bs"
    and s2: "objects s2 = (objects s)(obj \<mapsto> \<lparr>oclass = clasp, opriv = Some (new_handle (length bs) b obj), elems = xs\<rparr>)"
      "blocks s2 = blocks s1" "bnext s1 \<le> bnext s2"
  shows "bt_ok s2 \<and> contents s2 obj = Some bs"
proof
  let ?h = "new_handle (length bs) b obj"
  have ok1: "bt_ok s1" using frame_ok [OF ok fr] .
  have n: "bnext s \<le> bnext s1" using fr by (simp add: frame_def)
  have hs: "handle_of s2 q = (if q = obj then Some ?h else handle_of s q)" for q
    by (simp add: handle_of_def s2(1))
  have bb: "buffer ?h = b" "hlength ?h = length bs" "capacity ?h = 0" by (simp_all add: new_handle_def)
  have lt: "buffer h < bnext s" if "handle_of s q = Some h" "buffer h \<noteq> NULL" for q h
    using bt_okD(4) [OF ok that(1)] bt_okD(2) [OF ok, of "buffer h"] that(2) by (auto simp: handle_ok_def)
  show "bt_ok s2"
  proof (rule bt_okI)
    show "0 < bnext s2" using bt_okD(1) [OF ok1] s2(3) by simp
    show "0 < p \<and> p < bnext s2" if "blocks s2 p = Some c" for p c
      using bt_okD(2) [OF ok1, of p] that s2(2,3) by auto
    show "0 < p \<and> p < bnext s2" if "objects s2 p = Some ob" for p ob
      using bt_okD(3) [OF ok, of p] that s2(1,3) n obj by (auto split: if_splits)
    show "handle_ok s2 h" if h: "handle_of s2 p = Some h" for p h
    proof (cases "p = obj")
      case True
      then have "h = ?h" using h by (simp add: hs)
      with b bt_okD(1) [OF ok] show ?thesis by (auto simp: handle_ok_def s2(2) holds_bytes_def new_handle_def)
    next
      case False
      then have "handle_ok s1 h" using h hs bt_okD(4) [OF ok1, of p h] frame_handles [OF fr] by simp
      then show ?thesis by (simp add: handle_ok_def s2(2))
    qed
    show "buffer h' \<noteq> buffer h" if a: "objects s2 p = Some ob" "oclass ob = ByteArray_class" "opriv ob = Some h"
      "p \<noteq> q" "handle_of s2 q = Some h'" "buffer h \<noteq> NULL" for p q ob h h'
    proof -
      consider (new) "p = obj" | (other) "q = obj" | (old) "p \<noteq> obj" "q \<noteq> obj" by blast
      then show ?thesis
      proof cases
        case new
        then have "h = ?h" "handle_of s q = Some h'" using a s2(1) hs by auto
        with lt [of q h'] b a(6) show ?thesis by (cases "buffer h' = NULL") (auto simp: bb holds_bytes_def)
      next
        case other
        then have "h' = ?h" "handle_of s p = Some h" using a s2(1) hs by (auto simp: handle_of_def)
        with lt [of p h] b a(6) show ?thesis by (auto simp: bb holds_bytes_def)
      next
        case old
        with a s2(1) hs bt_okD(5) [OF ok, of p ob h q h'] show ?thesis by simp
      qed
    qed
  qed
  show "contents s2 obj = Some bs"
    using b by (auto simp: contents_def s2 read_bytes_def load_block_def new_handle_def holds_bytes_def)
qed

text \<open>\<open>byteThing_fromCArray\<close> decorates the object given, or a new one, with a buffer it copies
  to, or the one it is given to keep.\<close>

definition made :: "bst \<Rightarrow> jsclass \<Rightarrow> byte list \<Rightarrow> ptr \<Rightarrow> ptr \<Rightarrow> bst \<Rightarrow> bool" where
  "made s clasp bs obj0 obj s' \<longleftrightarrow>
     bt_ok s' \<and> (if obj0 = NULL then bnext s \<le> obj else obj = obj0) \<and> bnext s \<le> bnext s' \<and> contents s' obj = Some bs
     \<and> (\<exists>b. objects s' = (objects s)(obj \<mapsto> \<lparr>oclass = clasp, opriv = Some (new_handle (length bs) b obj), elems = []\<rparr>)
          \<and> (b = NULL \<and> bs = [] \<or> bnext s \<le> b))
     \<and> (\<forall>p < bnext s. blocks s' p = blocks s p)"

definition given :: "bst \<Rightarrow> jsclass \<Rightarrow> ptr \<Rightarrow> bool" where
  "given s clasp obj \<longleftrightarrow> obj = NULL \<or> objects s obj = Some \<lparr>oclass = clasp, opriv = None, elems = []\<rparr>"

definition source_bytes :: "bst \<Rightarrow> bst \<Rightarrow> bool \<Rightarrow> ptr \<times> nat \<Rightarrow> nat \<Rightarrow> byte list \<Rightarrow> bool" where
  "source_bytes s0 s steal buf len bs \<longleftrightarrow>
     (if steal then length bs = len \<and> holds_bytes s0 s (fst buf) bs
      else if buf = (NULL, 0) then bs = replicate len 0
      else fst buf < bnext s \<and> read_bytes s (fst buf) (snd buf) len = Some bs)"

lemma fromCArray_makes:
  assumes ok: "bt_ok s0" and fr: "frame s0 s" and cl: "gpsee_isByteThingClass clasp" and g: "given s0 clasp obj0"
    and src: "source_bytes s0 s steal buf len bs"
  shows "case byteThing_fromCArray e buf len obj0 clasp sz steal s of
      Ret obj s' \<Rightarrow> made s0 clasp bs obj0 obj s' | Throw s' \<Rightarrow> frame s0 s' \<and> \<not> plenty e | _ \<Rightarrow> False"
proof -
  have lb: "length bs = len"
    using src by (auto simp: source_bytes_def read_bytes_def length_load_block split: if_splits option.splits)
  define s1 where "s1 = s\<lparr>bnext := Suc (bnext s)\<rparr>"
  have f1: "frame s0 s1" using fr by (auto simp: frame_def s1_def less_Suc_eq)
  have ns: "0 < bnext s" "bnext s0 \<le> bnext s" using fr bt_okD(1) [OF ok] by (auto simp: frame_def)
  obtain b s2 where m: "(if steal then (fst buf, s1) else if len \<noteq> 0 then JS_malloc e len s1 else (NULL, s1)) = (b, s2)" by fastforce
  have f2: "frame s0 s2 \<and> (\<not> steal \<longrightarrow> len \<noteq> 0 \<longrightarrow> b = NULL \<longrightarrow> \<not> plenty e)"
    and b2: "\<not> steal \<Longrightarrow> b \<noteq> NULL \<Longrightarrow> b = bnext s1 \<and> blocks s2 b = Some (new_block e b len)"
    and z2: "\<not> steal \<Longrightarrow> len = 0 \<Longrightarrow> b = NULL"
    and k2: "steal \<Longrightarrow> s2 = s1 \<and> b = fst buf"
    and o2: "\<And>p. \<not> steal \<Longrightarrow> p < bnext s \<Longrightarrow> blocks s2 p = blocks s p"
  proof -
    have "frame s0 s2 \<and> (\<not> steal \<longrightarrow> len \<noteq> 0 \<longrightarrow> b = NULL \<longrightarrow> \<not> plenty e)
        \<and> (\<not> steal \<longrightarrow> b \<noteq> NULL \<longrightarrow> b = bnext s1 \<and> blocks s2 b = Some (new_block e b len))
        \<and> (\<not> steal \<longrightarrow> len = 0 \<longrightarrow> b = NULL) \<and> (steal \<longrightarrow> s2 = s1 \<and> b = fst buf)
        \<and> (\<forall>p < bnext s. \<not> steal \<longrightarrow> blocks s2 p = blocks s p)"
    proof (cases "steal \<or> len = 0")
      case True
      then have "s2 = s1" using m by (auto split: if_splits)
      moreover have "b = (if steal then fst buf else NULL)" using m True by (auto split: if_splits)
      ultimately show ?thesis using f1 True by (auto simp: s1_def)
    next
      case False
      then have mm: "JS_malloc e len s1 = (b, s2)" using m by simp
      have n1: "0 < bnext s1" by (simp add: s1_def)
      have "blocks s2 p = blocks s p" if "p < bnext s" for p
        using mm that by (auto simp: JS_malloc_def Let_def s1_def split: if_splits)
      with frame_malloc [OF f1 n1 mm] False show ?thesis by (auto simp: plenty_def)
    qed
    then show "frame s0 s2 \<and> (\<not> steal \<longrightarrow> len \<noteq> 0 \<longrightarrow> b = NULL \<longrightarrow> \<not> plenty e)"
      "\<not> steal \<Longrightarrow> b \<noteq> NULL \<Longrightarrow> b = bnext s1 \<and> blocks s2 b = Some (new_block e b len)"
      "\<not> steal \<Longrightarrow> len = 0 \<Longrightarrow> b = NULL" "steal \<Longrightarrow> s2 = s1 \<and> b = fst buf"
      "\<And>p. \<not> steal \<Longrightarrow> p < bnext s \<Longrightarrow> blocks s2 p = blocks s p"
      by blast+
  qed
  have unf: "byteThing_fromCArray e buf len obj0 clasp sz steal s
     = (if \<not> mem_ok e (bnext s) sz then Throw s
        else if \<not> steal \<and> len \<noteq> 0 \<and> b = NULL then Throw s2
        else the_or_fault (if steal then Some s2
           else Option.bind (if buf = (NULL, 0) then Some (replicate len 0) else read_bytes s2 (fst buf) (snd buf) len)
              (write_bytes s2 b 0)) (\<lambda>s.
             let (obj, s) = (if obj0 = NULL then JS_NewObject e clasp s else (obj0, s))
             in if obj = NULL then Throw s
                else Ret obj (set_handle obj (new_handle len b obj) s)))"
    using cl m unfolding byteThing_fromCArray_def Let_def s1_def new_handle_def by (simp split: prod.split)
  show ?thesis
  proof (cases "mem_ok e (bnext s) sz \<and> \<not> (\<not> steal \<and> len \<noteq> 0 \<and> b = NULL)")
    case False
    with f2 fr show ?thesis by (auto simp: unf plenty_def)
  next
    case True
    define s3 where "s3 = (if steal \<or> len = 0 then s2 else s2\<lparr>blocks := (blocks s2)(b \<mapsto> bs)\<rparr>)"
    have w: "(if steal then Some s2
           else Option.bind (if buf = (NULL, 0) then Some (replicate len 0) else read_bytes s2 (fst buf) (snd buf) len)
              (write_bytes s2 b 0)) = Some s3"
    proof (cases steal)
      case False
      have "read_bytes s2 (fst buf) (snd buf) len = read_bytes s (fst buf) (snd buf) len" if "fst buf < bnext s"
        using o2 [OF False that] by (simp add: read_bytes_def)
      then have "(if buf = (NULL, 0) then Some (replicate len 0) else read_bytes s2 (fst buf) (snd buf) len) = Some bs"
        using src False by (auto simp: source_bytes_def)
      moreover have "write_bytes s2 b 0 bs = Some s3"
        using b2 True lb False by (auto simp: write_bytes_def s3_def store_block_def)
      ultimately show ?thesis using False by simp
    qed (simp add: s3_def)
    have f3: "frame s0 s3"
    proof (cases "steal \<or> len = 0")
      case False
      then have "bnext s0 \<le> b" "blocks s2 b = Some (new_block e b len)" using b2 True ns by (auto simp: s1_def)
      with frame_poke [of s0 s2 b] f2 False show ?thesis by (simp add: s3_def)
    qed (use f2 in \<open>simp add: s3_def\<close>)
    have b3: "holds_bytes s0 s3 b bs"
    proof (cases steal)
      case True
      with src k2 show ?thesis by (auto simp: source_bytes_def s3_def holds_bytes_def s1_def)
    next
      case False
      then show ?thesis
        using b2 z2 True lb ns by (cases "len = 0") (auto simp: s3_def s1_def holds_bytes_def)
    qed
    have res: "byteThing_fromCArray e buf len obj0 clasp sz steal s
       = (let (obj, s) = (if obj0 = NULL then JS_NewObject e clasp s3 else (obj0, s3))
          in if obj = NULL then Throw s else Ret obj (set_handle obj (new_handle len b obj) s))"
      using True unfolding unf w by auto
    have n3: "bnext s0 \<le> bnext s3" "0 < bnext s3" "objects s3 = objects s0" "\<And>p. p < bnext s0 \<Longrightarrow> blocks s3 p = blocks s0 p"
      using f3 bt_okD(1) [OF ok] by (auto simp: frame_def)
    have made: "made s0 clasp bs obj0 obj s4"
      if "if obj0 = NULL then bnext s0 \<le> obj else obj = obj0" "0 < obj" "obj < bnext s4" "bnext s3 \<le> bnext s4"
        "blocks s4 = blocks s3"
        "objects s4 = (objects s0)(obj \<mapsto> \<lparr>oclass = clasp, opriv = Some (new_handle (length bs) b obj), elems = []\<rparr>)" for obj s4
      using decorate_ok [OF ok f3 that(2,3) b3 that(6,5,4)] that n3 b3 by (auto simp: made_def holds_bytes_def)
    show ?thesis
    proof (cases "obj0 = NULL")
      case True
      show ?thesis
      proof (cases "mem_ok e (bnext s3) 0")
        case False
        with f3 True show ?thesis unfolding res by (auto simp: JS_NewObject_def Let_def plenty_def)
      next
        case ok3: True
        have "made s0 clasp bs obj0 (bnext s3) (set_handle (bnext s3) (new_handle (length bs) b (bnext s3))
          (s3\<lparr>objects := (objects s3)(bnext s3 \<mapsto> \<lparr>oclass = clasp, opriv = None, elems = []\<rparr>), bnext := Suc (bnext s3)\<rparr>))"
          using n3 True by (intro made) (auto simp: set_handle_def)
        with ok3 n3 True lb show ?thesis unfolding res by (simp add: JS_NewObject_def Let_def)
      qed
    next
      case False
      with g have ob: "objects s0 obj0 = Some \<lparr>oclass = clasp, opriv = None, elems = []\<rparr>" by (simp add: given_def)
      have "made s0 clasp bs obj0 obj0 (set_handle obj0 (new_handle (length bs) b obj0) s3)"
        using n3 False bt_okD(3) [OF ok, of obj0] ob by (intro made) (auto simp: set_handle_def)
      with False lb show ?thesis unfolding res by simp
    qed
  qed
qed

lemma made_creates: "made s clasp bs NULL obj s' \<Longrightarrow> creates s clasp bs obj s'"
  by (auto simp: made_def creates_def new_handle_def)

lemma fromCArray_creates:
  assumes ok: "bt_ok s" and cl: "gpsee_isByteThingClass clasp"
    and bs: "if buf = (NULL, 0) then bs = replicate len 0
             else fst buf < bnext s \<and> read_bytes s (fst buf) (snd buf) len = Some bs"
  shows "case byteThing_fromCArray e buf len NULL clasp sz False s of
      Ret obj s' \<Rightarrow> creates s clasp bs obj s' | Throw s' \<Rightarrow> frame s s' \<and> \<not> plenty e | _ \<Rightarrow> False"
  using fromCArray_makes [OF ok frame_refl [OF ok] cl, of NULL False buf len bs e sz] bs made_creates
  by (auto simp: given_def source_bytes_def split: res.splits)


section \<open>Base 64 of byte things\<close>

lemma dec_first_zero: "mem_store (b # bs) 0 x = Some (x # bs)"
  by (simp add: mem_store_def)

lemma newByteThing_plenty:
  assumes "bt_ok s" "plenty e" "0 < n"
  shows "\<exists>obj s' p. gpsee_newByteThing e sz NULL n True s = Ret obj s' \<and> bnext s \<le> obj \<and> 0 < p
    \<and> handle_of s' obj = Some \<lparr>hlength = n, buffer = p, memoryOwner = obj, bt_immutable = False, capacity = 0\<rparr>
    \<and> (\<exists>b. blocks s' p = Some b \<and> length b = n)"
proof -
  have "0 < bnext s" using bt_okD(1) [OF assms(1)] .
  then show ?thesis using assms(2,3)
    by (simp add: gpsee_newByteThing_def plenty_def Let_def JS_NewObject_def JS_malloc_def set_handle_def handle_of_def)
qed

text \<open>Base 64 through the module: \<open>toBase64\<close> of a byte thing then \<open>fromBase64\<close> of the text
  gives a new byte thing with the same bytes, the text being the reference encoding.\<close>

theorem base64_object_roundtrip:
  assumes "bt_ok s" and "plenty e" and "length c = 3" and "objects s obj = Some ob"
    and "gpsee_isByteThingClass (oclass ob)" and "contents s obj = Some bs"
  shows "\<exists>s1 obj' s2. binary_toBase64 e c [JObj obj] s = Ret (b64_spec bs) s1
    \<and> binary_fromBase64 e sz to_string [JString (b64_spec bs)] s1 = Ret (JObj obj') s2
    \<and> contents s2 obj' = Some bs"
proof -
  obtain h where h: "opriv ob = Some h" "read_bytes s (buffer h) 0 (hlength h) = Some bs"
    using assms(4,6) by (auto simp: contents_def bind_eq_Some_conv)
  have lb: "length bs = hlength h"
    using h(2) by (auto simp: read_bytes_def length_load_block split: if_splits option.splits)
  let ?n = "(hlength h + 2) div 3 * 4 + 1"
  define s1 where "s1 = (if bs = [] then s else s\<lparr>bnext := Suc (bnext s)\<rparr>)"
  have ok1: "bt_ok s1"
    using frame_ok [OF assms(1), of s1] frame_refl [OF assms(1)] by (auto simp: s1_def frame_def less_SucI)
  have enc: "binary_toBase64 e c [JObj obj] s = Ret (b64_spec bs) s1"
  proof (cases "bs = []")
    case True
    with h lb assms(4,5) show ?thesis by (simp add: binary_toBase64_def get_object_def s1_def)
  next
    case False
    let ?out = "map (\<lambda>x. char_of (unat x)) (new_block e (bnext s) ?n) :: char list"
    have "4 * ((length bs + 2) div 3) + 1 \<le> length ?out" by (simp add: lb)
    from roundtrip_core [OF False assms(3) this order_refl, of "\<lambda>n. []"]
    obtain r out' where "binary_to_b64 c bs (Some ?out) = Some (r, Some out')" "cstr_at out' 0 = Some (b64_spec bs)" by blast
    moreover have "hlength h \<noteq> 0" using False lb by (cases bs) auto
    ultimately show ?thesis using False h assms(2,4,5)
      by (simp add: binary_toBase64_def get_object_def s1_def plenty_def)
  qed
  let ?m = "length (b64_spec bs) div 4 * 3 + 2"
  have m: "0 < ?m" by simp
  from newByteThing_plenty [OF ok1 assms(2) m, of sz] obtain o' s2 p b where
    new: "gpsee_newByteThing e sz NULL ?m True s1 = Ret o' s2" "0 < p"
      "handle_of s2 o' = Some \<lparr>hlength = ?m, buffer = p, memoryOwner = o', bt_immutable = False, capacity = 0\<rparr>"
      "blocks s2 p = Some b" "length b = ?m" by blast
  have "length bs \<le> length b" by (simp add: new(5) length_b64_spec)
  have "\<exists>buf'. b64_to_binary (new_block e (bnext s2)) (b64_spec bs) (Some b) = Some (length bs, buf')
      \<and> length buf' = length b \<and> take (length bs) buf' = bs"
  proof (cases "bs = []")
    case True
    have "b \<noteq> []" using new(5) by auto
    with True show ?thesis by (simp add: b64_to_binary_def mem_store_def)
  next
    case False
    let ?out = "replicate (4 * ((length bs + 2) div 3) + 1) NUL"
    have "4 * ((length bs + 2) div 3) + 1 \<le> length ?out" by simp
    from roundtrip_core [OF False assms(3) this \<open>length bs \<le> length b\<close>, of "new_block e (bnext s2)"]
    show ?thesis using \<open>length bs \<le> length b\<close> by auto
  qed
  then obtain buf' where dec: "b64_to_binary (new_block e (bnext s2)) (b64_spec bs) (Some b) = Some (length bs, buf')"
    "length buf' = length b" "take (length bs) buf' = bs" by blast
  let ?s = "set_handle o' \<lparr>hlength = length bs, buffer = p, memoryOwner = o', bt_immutable = False, capacity = 0\<rparr>
      (s2\<lparr>blocks := (blocks s2)(p \<mapsto> buf')\<rparr>)"
  have "binary_fromBase64 e sz to_string [JString (b64_spec bs)] s1 = Ret (JObj o') ?s"
    using new dec by (simp add: binary_fromBase64_def get_handle_def handle_of_def)
  moreover from new(3) obtain ob2 where "objects s2 o' = Some ob2" by (auto simp: handle_of_def bind_eq_Some_conv)
  then have "contents ?s o' = Some bs"
    using dec(2,3) \<open>length bs \<le> length b\<close> by (simp add: contents_def set_handle_def read_bytes_def load_block_def)
  ultimately show ?thesis using enc by blast
qed


section \<open>Source text\<close>

lemma length_decimal: "n < 256 \<Longrightarrow> 1 \<le> length (decimal n) \<and> length (decimal n) \<le> 3 \<and> (length (decimal n) = 3 \<longleftrightarrow> 100 \<le> n)"
proof -
  assume n: "n < 256"
  have small: "m < 10 \<Longrightarrow> length (decimal m) = 1" for m by (subst decimal.simps) simp
  have two: "10 \<le> m \<Longrightarrow> m < 100 \<Longrightarrow> length (decimal m) = 2" for m
    using small [of "m div 10"] by (subst decimal.simps) simp
  have three: "100 \<le> m \<Longrightarrow> m < 1000 \<Longrightarrow> length (decimal m) = 3" for m
    using two [of "m div 10"] by (subst decimal.simps) simp
  consider "n < 10" | "10 \<le> n" "n < 100" | "100 \<le> n" by linarith
  then show ?thesis using small [of n] two [of n] three [of n] n by cases auto
qed

lemma byte_lt: "unat (b :: byte) < 256"
  using unsigned_less [of b] by simp

lemma join_decimals_length:
  "bs \<noteq> [] \<Longrightarrow> Suc (length (join_decimals bs)) \<le> 4 * length bs
     \<and> (Suc (length (join_decimals bs)) = 4 * length bs \<longleftrightarrow> (\<forall>b \<in> set bs. 100 \<le> unat b))"
proof (induction bs rule: join_decimals.induct)
  case (2 b)
  have "unat b < 256" by (rule byte_lt)
  from length_decimal [OF this] show ?case by auto
next
  case (3 b c bs)
  have b: "unat b < 256" by (rule byte_lt)
  from length_decimal [OF b] 3 show ?case by auto
qed simp

lemma join_decimals_three:
  "bs \<noteq> [] \<Longrightarrow> (\<forall>b \<in> set bs. 100 \<le> unat b) \<Longrightarrow> Suc (length (join_decimals bs)) = 4 * length bs"
  using join_decimals_length by blast

text \<open>\<open>toSource\<close> writes past the end of its text exactly for an empty byte thing and for a
  ByteString all of whose bytes have three digits; the text is otherwise the source that makes the
  object again.\<close>

theorem toSource_overflows_iff:
  assumes "objects s obj = Some ob" and "oclass ob = clasp" and "clasp = ByteString_class \<or> clasp = ByteArray_class"
    and "obj \<noteq> NULL" and "opriv ob = Some h" and "contents s obj = Some bs" and "plenty e"
  shows "byteThing_toSource e obj clasp s =
    (if bs = [] \<or> clasp = ByteString_class \<and> (\<forall>b \<in> set bs. 100 \<le> unat b) then Fault
     else Ret (''(new (require('' @ [CHR 0x22] @ ''binary'' @ [CHR 0x22] @ '').'' @
            (if clasp = ByteString_class then ''ByteString'' else ''ByteArray'') @ '')(['' @ join_decimals bs @ '']))'')
          (s\<lparr>bnext := Suc (bnext s)\<rparr>))"
proof -
  have rd: "read_bytes s (buffer h) 0 (hlength h) = Some bs" using assms(1,5,6) by (simp add: contents_def)
  have lb: "length bs = hlength h"
    using rd by (auto simp: read_bytes_def length_load_block split: if_splits option.splits)
  have m: "mem_ok e p n" for p n using assms(7) by (simp add: plenty_def)
  show ?thesis
  proof (cases "bs = []")
    case True
    with rd lb assms m show ?thesis
      by (auto simp: byteThing_toSource_def byteThing_getHandle_def get_object_def Let_def)
  next
    case False
    note jl = join_decimals_length [OF False]
    have n: "4 * hlength h + k \<le> length (join_decimals bs) + k' \<longleftrightarrow> 4 * length bs + k \<le> length (join_decimals bs) + k'" for k k'
      by (simp add: lb)
    show ?thesis
      using jl False rd assms m lb
      by (auto simp: byteThing_toSource_def byteThing_getHandle_def get_object_def Let_def)
  qed
qed


section \<open>Casts and ownership\<close>

lemma ownedD:
  assumes "owned s"
  shows "handle_of s obj = Some h \<Longrightarrow> handle_ok s h"
    and "handle_of s obj = Some h \<Longrightarrow> buffer h \<noteq> NULL \<Longrightarrow> memoryOwner h \<noteq> NULL \<and>
      (\<exists>ho. handle_of s (memoryOwner h) = Some ho \<and> memoryOwner ho = memoryOwner h \<and> buffer ho = buffer h)"
    and "handle_of s o1 = Some h1 \<Longrightarrow> memoryOwner h1 = o1 \<Longrightarrow> handle_of s o2 = Some h2 \<Longrightarrow>
      memoryOwner h2 = o2 \<Longrightarrow> buffer h1 = buffer h2 \<Longrightarrow> buffer h1 \<noteq> NULL \<Longrightarrow> o1 = o2"
  using assms unfolding owned_def by blast+

lemma owned_add:
  assumes ok: "bt_ok s" and own: "owned s" and hs: "\<And>q. handle_of s' q = (if q = obj then Some h else handle_of s q)"
    and fresh: "objects s obj = None" "obj \<noteq> NULL" and ok': "\<And>q h. handle_of s' q = Some h \<Longrightarrow> handle_ok s' h"
    and new: "memoryOwner h = obj \<and> (buffer h = NULL \<or> bnext s \<le> buffer h)
      \<or> handle_of s src = Some h"
  shows "owned s'"
  unfolding owned_def
proof (intro conjI allI impI)
  have no: "handle_of s obj = None" using fresh by (simp add: handle_of_def)
  have lt: "buffer h < bnext s" if "handle_of s q = Some h" "buffer h \<noteq> NULL" for q h
    using bt_okD(4) [OF ok that(1)] bt_okD(2) [OF ok, of "buffer h"] that(2) by (auto simp: handle_ok_def)
  show "handle_ok s' k" if "handle_of s' q = Some k" for q k using ok' that by blast
  have old: "memoryOwner k \<noteq> NULL \<and>
      (\<exists>ho. handle_of s' (memoryOwner k) = Some ho \<and> memoryOwner ho = memoryOwner k \<and> buffer ho = buffer k)"
    if "handle_of s q = Some k" "buffer k \<noteq> NULL" for q k
    using ownedD(2) [OF own that] no hs by (metis option.distinct(1))
  have key: "memoryOwner k \<noteq> NULL \<and>
      (\<exists>ho. handle_of s' (memoryOwner k) = Some ho \<and> memoryOwner ho = memoryOwner k \<and> buffer ho = buffer k)"
    if "handle_of s' q = Some k" "buffer k \<noteq> NULL" for q k
  proof (cases "q = obj")
    case True
    then have k: "k = h" using that hs by simp
    show ?thesis
      using new
    proof
      assume "memoryOwner h = obj \<and> (buffer h = NULL \<or> bnext s \<le> buffer h)"
      then show ?thesis using hs fresh(2) k by auto
    next
      assume "handle_of s src = Some h"
      from old [OF this] that(2) k show ?thesis by simp
    qed
  next
    case False
    with that hs old show ?thesis by simp
  qed
  show "memoryOwner k \<noteq> NULL" if "handle_of s' q = Some k" "buffer k \<noteq> NULL" for q k using key [OF that] by simp
  show "\<exists>ho. handle_of s' (memoryOwner k) = Some ho \<and> memoryOwner ho = memoryOwner k \<and> buffer ho = buffer k"
    if "handle_of s' q = Some k" "buffer k \<noteq> NULL" for q k using key [OF that] by simp
  have notself: "memoryOwner h \<noteq> obj \<or> bnext s \<le> buffer h" if "buffer h \<noteq> NULL"
    using new that ownedD(2) [OF own _ that] no by (metis option.distinct(1))
  show "o1 = o2" if a: "handle_of s' o1 = Some h1" "memoryOwner h1 = o1" "handle_of s' o2 = Some h2" "memoryOwner h2 = o2"
    "buffer h1 = buffer h2" "buffer h1 \<noteq> NULL" for o1 o2 h1 h2
  proof -
    consider "o1 = obj" "o2 = obj" | (one) "o1 = obj" "o2 \<noteq> obj" | (two) "o1 \<noteq> obj" "o2 = obj" | (none) "o1 \<noteq> obj" "o2 \<noteq> obj"
      by blast
    then show ?thesis
    proof cases
      case one
      then have "h1 = h" "handle_of s o2 = Some h2" using a hs by auto
      with notself lt [of o2 h2] a one show ?thesis by auto
    next
      case two
      then have "h2 = h" "handle_of s o1 = Some h1" using a hs by auto
      with notself lt [of o1 h1] a two show ?thesis by auto
    next
      case none
      with a hs ownedD(3) [OF own] show ?thesis by metis
    qed simp
  qed
qed

lemma creates_owned:
  assumes "bt_ok s" "owned s" "creates s clasp bs obj s'"
  shows "owned s'"
proof -
  from assms(3) obtain h where h: "objects s' = (objects s)(obj \<mapsto> \<lparr>oclass = clasp, opriv = Some h, elems = []\<rparr>)"
    "memoryOwner h = obj" "buffer h = NULL \<or> bnext s \<le> buffer h" and ok': "bt_ok s'" and ge: "bnext s \<le> obj"
    by (auto simp: creates_def)
  have "objects s obj = None" using bt_okD(3) [OF assms(1), of obj] ge by fastforce
  moreover have "obj \<noteq> NULL" using ge bt_okD(1) [OF assms(1)] by simp
  ultimately show ?thesis
    using h bt_okD(4) [OF ok']
    by (intro owned_add [OF assms(1,2), where obj = obj and h = h]) (auto simp: handle_of_def)
qed

text \<open>Casting a byte thing gives a new one with the same bytes, which shares the buffer exactly for an
  immutable source cast to a ByteString; every buffer still has one owner, so collections stay safe.\<close>

theorem cast_keeps_ownership:
  assumes "bt_ok s" and "owned s" and "plenty e" and "objects s obj = Some ob" and "opriv ob = Some h"
    and "gpsee_isByteThingClass (oclass ob)" and "contents s obj = Some bs"
    and "bt_immutable h \<longrightarrow> oclass ob \<noteq> ByteArray_class"
    and "clasp = ByteString_class \<or> clasp = ByteArray_class" and "length bs < SIZE_MOD"
  shows "\<exists>obj' h' s'. byteThing_Cast e hndSize sz to_object [JObj obj] clasp s = Ret (JObj obj') s'
    \<and> contents s' obj' = Some bs \<and> contents s' obj = Some bs \<and> bt_ok s' \<and> owned s'
    \<and> handle_of s' obj' = Some h'
    \<and> (buffer h \<noteq> NULL \<longrightarrow> (buffer h' = buffer h \<longleftrightarrow> clasp = ByteString_class \<and> bt_immutable h))"
proof -
  have m: "mem_ok e p n" for p n using assms(3) by (simp add: plenty_def)
  have ho: "handle_of s obj = Some h" by (simp add: handle_of_def assms(4,5))
  have rd: "read_bytes s (buffer h) 0 (hlength h) = Some bs" using assms(4,5,7) by (simp add: contents_def)
  have lb: "length bs = hlength h"
    using rd by (auto simp: read_bytes_def length_load_block split: if_splits option.splits)
  have bn: "0 < bnext s" using bt_okD(1) [OF assms(1)] .
  have lt: "buffer k < bnext s" if "handle_of s q = Some k" for q k
    using bt_okD(4) [OF assms(1) that] bt_okD(2) [OF assms(1), of "buffer k"] bn
    by (cases "buffer k = NULL") (auto simp: handle_ok_def)
  show ?thesis
  proof (cases "clasp = ByteString_class \<and> bt_immutable h")
    case True
    let ?o = "Suc (bnext s)"
    let ?s = "s\<lparr>objects := (objects s)(?o \<mapsto> \<lparr>oclass = ByteString_class, opriv = Some h, elems = []\<rparr>), bnext := Suc ?o\<rparr>"
    have r: "byteThing_Cast e hndSize sz to_object [JObj obj] clasp s = Ret (JObj ?o) ?s"
      using True assms(4,5,6) m
      by (simp add: byteThing_Cast_def get_object_def cast_length_def get_handle_def JS_NewObject_def Let_def set_handle_def)
    have hs: "handle_of ?s q = (if q = ?o then Some h else handle_of s q)" for q by (simp add: handle_of_def)
    have no: "objects s ?o = None" using bt_okD(3) [OF assms(1), of ?o] by fastforce
    have okh: "handle_ok ?s k" if "handle_of ?s q = Some k" for q k
      using that hs bt_okD(4) [OF assms(1)] ho by (auto simp: handle_ok_def split: if_splits)
    have own: "owned ?s"
      by (rule owned_add [OF assms(1,2) hs no _ okh, where src = obj]) (use ho in auto)
    have "bt_ok ?s"
    proof (rule bt_okI)
      show "0 < p \<and> p < bnext ?s" if "blocks ?s p = Some b" for p b using bt_okD(2) [OF assms(1), of p] that by simp
      show "0 < p \<and> p < bnext ?s" if "objects ?s p = Some k" for p k
        using bt_okD(3) [OF assms(1), of p] that by (auto split: if_splits)
      show "handle_ok ?s k" if "handle_of ?s q = Some k" for q k using okh [OF that] .
      show "buffer k' \<noteq> buffer k" if a: "objects ?s p = Some o1" "oclass o1 = ByteArray_class" "opriv o1 = Some k" "p \<noteq> q"
        "handle_of ?s q = Some k'" "buffer k \<noteq> NULL" for p q o1 k k'
      proof -
        have p: "p \<noteq> ?o" "objects s p = Some o1" using a(1,2) by (auto split: if_splits)
        show ?thesis
        proof (cases "q = ?o")
          case q: True
          have "p \<noteq> obj" using True assms(4,8) p(2) a(2) by auto
          with bt_okD(5) [OF assms(1) p(2) a(2,3) _ ho a(6)] q a(5) hs show ?thesis by simp
        next
          case False
          with bt_okD(5) [OF assms(1) p(2) a(2,3,4) _ a(6)] a(5) hs show ?thesis by simp
        qed
      qed
    qed simp
    with r own True rd ho assms(4,5,7) no show ?thesis
      by (auto simp: contents_def read_bytes_def handle_of_def intro!: exI [of _ h])
  next
    case False
    have cl: "gpsee_isByteThingClass clasp" using assms(9) by (auto simp: gpsee_isByteThingClass_def)
    have sz: "size_of_int (int (hlength h)) = hlength h"
      using assms(10) lb by (simp add: size_of_int_def SIZE_MOD_def)
    have "if (buffer h, 0) = (NULL, 0 :: nat) then bs = replicate (hlength h) 0
        else fst (buffer h, 0 :: nat) < bnext s \<and> read_bytes s (fst (buffer h, 0 :: nat)) (snd (buffer h, 0 :: nat)) (hlength h) = Some bs"
      using bt_okD(4) [OF assms(1) ho] lt [OF ho] rd lb by (auto simp: handle_ok_def)
    from fromCArray_creates [OF assms(1) cl this, of e hndSize] assms(3)
    obtain o' s' where new: "byteThing_fromCArray e (buffer h, 0) (hlength h) NULL clasp hndSize False s = Ret o' s'"
      "creates s clasp bs o' s'"
      by (auto split: res.splits)
    have "byteThing_Cast e hndSize sz to_object [JObj obj] clasp s = Ret (JObj o') s'"
      using False assms(4,5,6) new(1) sz
      by (auto simp: byteThing_Cast_def get_object_def cast_length_def get_handle_def)
    moreover obtain h' where "handle_of s' o' = Some h'" "buffer h' = NULL \<and> bs = [] \<or> bnext s \<le> buffer h'"
      using new(2) by (auto simp: creates_def handle_of_def)
    moreover have "bt_ok s'" "contents s' o' = Some bs" using new(2) by (auto simp: creates_def)
    moreover have "contents s' obj = Some bs" using creates_keeps [OF assms(1) new(2)] assms(4,7) by auto
    ultimately show ?thesis
      using creates_owned [OF assms(1,2) new(2)] False lt [OF ho] by fastforce
  qed
qed


section \<open>Indexing and searching\<close>

definition byte_thing :: "bst \<Rightarrow> ptr \<Rightarrow> jsclass \<Rightarrow> bt_handle \<Rightarrow> byte list \<Rightarrow> bool" where
  "byte_thing s obj clasp h bs \<longleftrightarrow>
     (\<exists>ob. objects s obj = Some ob \<and> oclass ob = clasp \<and> opriv ob = Some h) \<and> obj \<noteq> NULL
     \<and> (clasp = ByteString_class \<or> clasp = ByteArray_class) \<and> contents s obj = Some bs \<and> length bs < 2 ^ 63"

lemma byte_thing_length: "byte_thing s obj clasp h bs \<Longrightarrow> length bs = hlength h"
  by (auto simp: byte_thing_def contents_def read_bytes_def length_load_block split: if_splits option.splits)

lemma byte_thing_handle:
  "byte_thing s obj clasp h bs \<Longrightarrow> byteThing_getHandle obj (Some clasp) s = Ret h s"
  "byte_thing s obj clasp h bs \<Longrightarrow> get_handle obj s f = f h"
  by (auto simp: byte_thing_def byteThing_getHandle_def get_object_def get_handle_def)

lemma byte_thing_block:
  "byte_thing s obj clasp h bs \<Longrightarrow> bs \<noteq> [] \<Longrightarrow>
   \<exists>b. blocks s (buffer h) = Some b \<and> length bs \<le> length b \<and> take (length bs) b = bs"
  by (auto simp: byte_thing_def contents_def read_bytes_def load_block_def split: if_splits option.splits)

lemma val2ssize_int:
  "- (2 ^ 63) \<le> i \<Longrightarrow> i < 2 ^ 63 \<Longrightarrow> byteThing_val2ssize e (JInt i) s = Ret (Inr i) s"
  by (simp add: byteThing_val2ssize_def on_number_def ValueToNumber_def to_ssize_def is_int_def Let_def)

lemma is_int_uchar: "0 \<le> i \<Longrightarrow> i < 256 \<Longrightarrow> to_uchar e (Fin (of_int i)) = nat i"
  by (simp add: to_uchar_def)

lemma arg2size_int:
  assumes "argn < length argv" "argv ! argn = JInt i" "- (2 ^ 63) \<le> i" "i < 2 ^ 63"
  shows "byteThing_arg2size e argv argn mn mx d ds s =
    (if i < 0 \<or> i < int mn \<or> int mx < i then Throw s else Ret (nat i) s)"
  using assms by (simp add: byteThing_arg2size_def val2ssize_int)

text \<open>Indexing: a number from zero up to the length gives that byte and any other throws; but an empty
  byte thing has no upper bound, and reads memory it does not have.\<close>

theorem byteAt_in_bounds:
  assumes "byte_thing s obj clasp h bs" and "- (2 ^ 63) \<le> i" and "i < 2 ^ 63"
    and "bs = [] \<longrightarrow> buffer h = NULL \<and> blocks s NULL = None"
  shows "byteThing_byarAt e sz obj [JInt i] clasp False s =
    (if i < 0 then Throw s
     else if bs = [] then Fault
     else if i < int (length bs) then Ret (JInt (uint (bs ! nat i))) s else Throw s)"
proof -
  note h = byte_thing_handle [OF assms(1)] and l = byte_thing_length [OF assms(1)]
  obtain ob where o: "objects s obj = Some ob" "oclass ob = clasp"
    using assms(1) by (auto simp: byte_thing_def)
  have c: "gpsee_isByteThingClass clasp" "length bs < SIZE_MOD"
    using assms(1) by (auto simp: byte_thing_def gpsee_isByteThingClass_def SIZE_MOD_def)
  have a: "byteThing_byarAt e sz obj [JInt i] clasp False s =
      (if i < 0 \<or> int (size_sub (hlength h) 1) < i then Throw s
       else the_or_fault (read_byte s (buffer h) (nat i)) (\<lambda>b. Ret (JInt (uint b)) s))"
    using arg2size_int [of 0 "[JInt i]" i e 0 "size_sub (hlength h) 1" False 0 s] assms(2,3)
    by (simp add: byteThing_byarAt_def get_object_def o c h)
  show ?thesis
  proof (cases "bs = []")
    case True
    then have "int (size_sub (hlength h) 1) = 2 ^ 64 - 1"
      using l by (simp add: size_sub_wrap SIZE_MOD_def)
    with True assms(3,4) show ?thesis by (simp add: a read_byte_def)
  next
    case False
    then have "int (size_sub (hlength h) 1) = int (length bs) - 1"
      using l c(2) by (cases bs) (auto simp: size_sub_le)
    moreover obtain b where b: "blocks s (buffer h) = Some b" "length bs \<le> length b" "take (length bs) b = bs"
      using byte_thing_block [OF assms(1) False] by blast
    moreover have "b ! nat i = bs ! nat i" if "0 \<le> i" "i < int (length bs)"
      using b(3) that by (metis nth_take nat_less_iff)
    ultimately show ?thesis using False by (auto simp: a read_byte_def mem_load_def)
  qed
qed

lemma memchr_loop_spec:
  "p + n \<le> length b \<Longrightarrow> memchr_loop b p c n =
     Some (map_option ((+) p) (List.find (\<lambda>k. b ! (p + k) = c) [0..<n]))"
proof (induction n arbitrary: p)
  case (Suc n)
  have "List.find (\<lambda>k. b ! (p + k) = c) [0..<Suc n]
      = (if b ! p = c then Some 0 else map_option Suc (List.find (\<lambda>k. b ! (Suc p + k) = c) [0..<n]))"
  proof -
    have "[0..<Suc n] = 0 # map Suc [0..<n]" by (simp add: upt_conv_Cons map_Suc_upt)
    moreover have "List.find P (map Suc xs) = map_option Suc (List.find (\<lambda>k. P (Suc k)) xs)" for P xs
      by (induction xs) auto
    ultimately show ?thesis by simp
  qed
  with Suc show ?case
    by (auto simp: mem_load_def option.map_comp comp_def)
qed simp

lemma memrchr_overrun: "length b \<le> start + n \<Longrightarrow> memrchr_loop b start c n = None"
  by (subst memrchr_loop.simps) (simp add: mem_load_def)

text \<open>Searching: \<open>indexOf\<close> of a byte is the index of its first occurrence, or -1; the search from
  the end with the module's own \<open>memrchr\<close> starts past the buffer.\<close>

theorem indexOf_first:
  assumes "byte_thing s obj clasp h bs" and "bs \<noteq> []" and "0 \<le> c" and "c < 256"
  shows "byteThing_findChar e obj [JInt c] memchr clasp s =
      Ret (case List.find (\<lambda>k. bs ! k = of_int c) [0..<length bs] of None \<Rightarrow> -1 | Some k \<Rightarrow> int k) s
    \<and> (blocks s (buffer h) = Some bs \<longrightarrow> byteThing_findChar e obj [JInt c] gpsee_memrchr clasp s = Fault)"
proof -
  note h = byte_thing_handle [OF assms(1)] and l = byte_thing_length [OF assms(1)]
  obtain ob where o: "objects s obj = Some ob" "oclass ob = clasp"
    using assms(1) by (auto simp: byte_thing_def)
  have cl: "gpsee_isByteThingClass clasp" "length bs < SIZE_MOD"
    using assms(1) by (auto simp: byte_thing_def gpsee_isByteThingClass_def SIZE_MOD_def)
  have v: "byteThing_val2byte e (JInt c) s = Ret (Inr (of_int c)) s"
    using assms(3,4) by (simp add: byteThing_val2byte_def on_number_def ValueToNumber_def is_int_uchar is_int_def Let_def)
  have ss: "size_sub (hlength h) 0 = length bs" using cl(2) l by (simp add: size_sub_le)
  obtain b where b: "blocks s (buffer h) = Some b" "length bs \<le> length b" "take (length bs) b = bs"
    using byte_thing_block [OF assms(1,2)] by blast
  have st: "byteThing_findChar e obj [JInt c] f clasp s =
      the_or_fault (f b 0 (of_int c) (length bs)) (\<lambda>found. Ret (case found of Some p \<Rightarrow> int p | None \<Rightarrow> -1) s)" for f
    by (simp add: byteThing_findChar_def get_object_def o cl h v byteThing_arg2size_def ss b(1))
  have "b ! k = bs ! k" if "k < length bs" for k using b(3) that by (metis nth_take)
  then have "List.find (\<lambda>k. b ! k = of_int c) [0..<length bs] = List.find (\<lambda>k. bs ! k = of_int c) [0..<length bs]"
    by (intro find_cong) auto
  then show ?thesis
    using memchr_loop_spec [of 0 "length bs" b "of_int c"] b(1,2)
    by (auto simp: st memchr_def gpsee_memrchr_def memrchr_overrun option.map_id0 id_def split: option.splits)
qed


section \<open>Witnesses\<close>

text \<open>A store with one immutable ByteString of the bytes 104, 255, 104.\<close>

definition one_string :: bst where
  "one_string = \<lparr>blocks = (\<lambda>p. if p = 3 then Some [104, 255, 104] else None),
     objects = (\<lambda>p. if p = 4 then Some \<lparr>oclass = ByteString_class, opriv = Some \<lparr>hlength = 3, buffer = 3,
        memoryOwner = 4, bt_immutable = True, capacity = 0\<rparr>, elems = []\<rparr> else None), bnext = 5\<rparr>"

lemma one_string_facts:
  "bt_ok one_string" "owned one_string" "contents one_string 4 = Some [104, 255, 104]"
  "byte_thing one_string 4 ByteString_class \<lparr>hlength = 3, buffer = 3, memoryOwner = 4, bt_immutable = True, capacity = 0\<rparr>
     [104, 255, 104]"
proof -
  show "bt_ok one_string"
    by (rule bt_okI) (auto simp: one_string_def handle_of_def handle_ok_def split: if_splits)
  show "owned one_string"
    by (auto simp: owned_def one_string_def handle_of_def handle_ok_def split: if_splits)
  show c: "contents one_string 4 = Some [104, 255, 104]"
    by (simp add: contents_def one_string_def read_bytes_def load_block_def)
  show "byte_thing one_string 4 ByteString_class \<lparr>hlength = 3, buffer = 3, memoryOwner = 4, bt_immutable = True, capacity = 0\<rparr>
     [104, 255, 104]"
    using c by (simp add: byte_thing_def) (simp add: one_string_def)
qed

lemma plenty_test_env: "plenty (test_env conv)"
  by (simp add: plenty_def test_env_def)

theorem collection_keeps_live_bytes_witness:
  "\<exists>s'. collect [7] one_string = Some s' \<and> contents s' 4 = Some [104, 255, 104]"
proof -
  have "gpsee_byteThingTracer one_string obj = None" for obj
    by (simp add: gpsee_byteThingTracer_def one_string_def)
  with collection_keeps_live_bytes [OF one_string_facts(2), of "[7]"] one_string_facts(3) show ?thesis by auto
qed

theorem base64_object_roundtrip_witness:
  "\<exists>s1 obj' s2. binary_toBase64 (test_env (\<lambda>v s. Throw s)) [7, 7, 7] [JObj 4] one_string = Ret ''aP9o'' s1
    \<and> binary_fromBase64 (test_env (\<lambda>v s. Throw s)) 40 (\<lambda>v. None) [JString ''aP9o''] s1 = Ret (JObj obj') s2
    \<and> contents s2 obj' = Some [104, 255, 104]"
proof -
  have o: "objects one_string 4 = Some \<lparr>oclass = ByteString_class, opriv = Some \<lparr>hlength = 3, buffer = 3,
        memoryOwner = 4, bt_immutable = True, capacity = 0\<rparr>, elems = []\<rparr>" by (simp add: one_string_def)
  have "b64_spec [104, 255, 104] = ''aP9o''" by code_simp
  with base64_object_roundtrip [OF one_string_facts(1) plenty_test_env [of "\<lambda>v s. Throw s"] _ o _ one_string_facts(3), of "[7, 7, 7]" 40 "\<lambda>v. None"]
  show ?thesis by (simp add: gpsee_isByteThingClass_def)
qed

theorem toSource_overflows_iff_witness:
  "byteThing_toSource (test_env (\<lambda>v s. Throw s)) 4 ByteString_class one_string = Fault"
proof -
  have o: "objects one_string 4 = Some \<lparr>oclass = ByteString_class, opriv = Some \<lparr>hlength = 3, buffer = 3,
        memoryOwner = 4, bt_immutable = True, capacity = 0\<rparr>, elems = []\<rparr>" by (simp add: one_string_def)
  from toSource_overflows_iff [OF o _ _ _ _ one_string_facts(3) plenty_test_env [of "\<lambda>v s. Throw s"], of ByteString_class]
  show ?thesis by simp
qed

theorem cast_keeps_ownership_witness:
  "\<exists>obj' h' s'. byteThing_Cast (test_env (\<lambda>v s. Throw s)) 40 40 (\<lambda>v. None) [JObj 4] ByteString_class one_string = Ret (JObj obj') s'
    \<and> contents s' obj' = Some [104, 255, 104] \<and> owned s' \<and> handle_of s' obj' = Some h' \<and> buffer h' = 3"
proof -
  have o: "objects one_string 4 = Some \<lparr>oclass = ByteString_class, opriv = Some \<lparr>hlength = 3, buffer = 3,
        memoryOwner = 4, bt_immutable = True, capacity = 0\<rparr>, elems = []\<rparr>" by (simp add: one_string_def)
  from cast_keeps_ownership [OF one_string_facts(1,2) plenty_test_env [of "\<lambda>v s. Throw s"] o _ _ one_string_facts(3),
      of _ ByteString_class 40 40 "\<lambda>v. None"]
  show ?thesis by (simp add: gpsee_isByteThingClass_def SIZE_MOD_def) blast
qed

theorem byteAt_in_bounds_witness:
  "byteThing_byarAt (test_env (\<lambda>v s. Throw s)) 40 4 [JInt 1] ByteString_class False one_string = Ret (JInt 255) one_string"
  by (subst byteAt_in_bounds [OF one_string_facts(4)]) simp_all

theorem indexOf_first_witness:
  "byteThing_findChar (test_env (\<lambda>v s. Throw s)) 4 [JInt 255] memchr ByteString_class one_string = Ret 1 one_string"
  using indexOf_first [OF one_string_facts(4), of 255 "test_env (\<lambda>v s. Throw s)"]
  by (simp add: upt_rec)

end
