(* ===== verification/ByteArray.thy ===== *)
theory ByteArray
  imports ByteThings
begin

text \<open>
  The mutable byte things (modules/binary/ByteArray.c).  An operation finds its handle through
  \<open>this\<close> and reads it again after each call that may change the store.
\<close>

section \<open>Growing\<close>

text \<open>The capacity is rounded up to a power of two by shifting a \<open>size_t\<close> until it is big enough; once
  the bit has been shifted out the loop never ends.\<close>

partial_function (option) round_up :: "64 word \<Rightarrow> nat \<Rightarrow> nat option" where
  "round_up roundUp newSize =
     (if unat roundUp < newSize then round_up (push_bit 1 roundUp) newSize else Some (unat roundUp))"

definition byteArray_requestSize :: "env \<Rightarrow> ptr \<Rightarrow> nat \<Rightarrow> bst \<Rightarrow> unit res" where
  "byteArray_requestSize e obj newSize s =
     get_handle obj s (\<lambda>hnd.
       if capacity hnd < newSize then
         (case round_up 16 newSize of
            None \<Rightarrow> Hang
          | Some roundUp \<Rightarrow>
              the_or_fault (JS_realloc e (buffer hnd) roundUp s) (\<lambda>(q, s).
                if q = NULL then Throw (set_handle obj (hnd\<lparr>buffer := NULL, capacity := 0\<rparr>) s)
                else Ret () (set_handle obj (hnd\<lparr>buffer := q, capacity := roundUp\<rparr>) s)))
       else Ret () s)"

section \<open>Length and elements\<close>

definition set_length :: "ptr \<Rightarrow> nat \<Rightarrow> bst \<Rightarrow> (bst \<Rightarrow> 'a res) \<Rightarrow> 'a res" where
  "set_length obj n s f = get_handle obj s (\<lambda>hnd. f (set_handle obj (hnd\<lparr>hlength := n\<rparr>) s))"

definition ByteArray_setLength :: "env \<Rightarrow> ptr \<Rightarrow> jsval \<Rightarrow> bst \<Rightarrow> unit res" where
  "ByteArray_setLength e obj vp s =
     rbind (instance_handle ByteArray_class obj s) (\<lambda>_ s.
       rbind (byteThing_val2size e vp s) (\<lambda>r s.
         case r of
           Inl errmsg \<Rightarrow> Throw s
         | Inr sz \<Rightarrow>
             get_handle obj s (\<lambda>hnd.
               let oldSize = hlength hnd
               in rbind (byteArray_requestSize e obj sz s) (\<lambda>_ s.
                    set_length obj sz s (\<lambda>s.
                      get_handle obj s (\<lambda>hnd.
                        the_or_fault (if oldSize < sz then write_bytes s (buffer hnd) oldSize (replicate (sz - oldSize) 0) else Some s)
                          (Ret ())))))))"

definition ByteArray_setProperty :: "env \<Rightarrow> ptr \<Rightarrow> jsval \<Rightarrow> jsval \<Rightarrow> bst \<Rightarrow> unit res" where
  "ByteArray_setProperty e obj i vp s =
     (if obj = byteArray_proto e then Ret () s
      else rbind (byteThing_val2size e i s) (\<lambda>r s.
        case r of
          Inl _ \<Rightarrow> Ret () s
        | Inr index \<Rightarrow>
            rbind (instance_handle ByteArray_class obj s) (\<lambda>hnd s.
              if hlength hnd \<le> index then Throw s
              else rbind (byteThing_val2byte e vp s) (\<lambda>r s.
                case r of
                  Inl errmsg \<Rightarrow> Throw s
                | Inr theByte \<Rightarrow>
                    get_handle obj s (\<lambda>hnd.
                      the_or_fault (write_byte s (buffer hnd) index theByte) (Ret ()))))))"

section \<open>At the ends\<close>

text \<open>\<open>JS_free\<close> of the converted arguments, when they are in a buffer of their own.\<close>

definition byteArray_append :: "env \<Rightarrow> ptr \<Rightarrow> jsval list \<Rightarrow> bst \<Rightarrow> unit res" where
  "byteArray_append e obj argv s =
     rbind (instance_handle ByteArray_class obj s) (\<lambda>_ s.
       rbind (byteThing_val2bytes e argv False s) (\<lambda>(buf, len, stealBuffer) s.
         if len = 0 then Ret () s
         else get_handle obj s (\<lambda>hnd.
           let oldBuffer = buffer hnd
           in rbind (byteArray_requestSize e obj ((hlength hnd + len) mod SIZE_MOD) s) (\<lambda>_ s.
                get_handle obj s (\<lambda>hnd.
                  the_or_fault (Option.bind (read_bytes s buf 0 len) (write_bytes s (buffer hnd) (hlength hnd))) (\<lambda>s.
                  the_or_fault (if stealBuffer \<and> oldBuffer \<noteq> buf then JS_free buf s else Some s) (\<lambda>s.
                    set_length obj ((hlength hnd + len) mod SIZE_MOD) s (Ret ()))))))))"

definition byteArray_prepend :: "env \<Rightarrow> ptr \<Rightarrow> jsval list \<Rightarrow> bst \<Rightarrow> unit res" where
  "byteArray_prepend e obj argv s =
     rbind (instance_handle ByteArray_class obj s) (\<lambda>_ s.
       rbind (byteThing_val2bytes e argv False s) (\<lambda>(buf, len, stealBuffer) s.
         if len = 0 then Ret () s
         else get_handle obj s (\<lambda>hnd.
           let oldBuffer = buffer hnd
           in rbind (byteArray_requestSize e obj ((hlength hnd + len) mod SIZE_MOD) s) (\<lambda>_ s.
                get_handle obj s (\<lambda>hnd.
                  the_or_fault
                    (let slide = Option.bind (read_bytes s (buffer hnd) 0 (hlength hnd)) (write_bytes s (buffer hnd) len)
                     in if oldBuffer = buf then slide
                        else Option.bind slide (\<lambda>s.
                          Option.bind (Option.bind (read_bytes s buf 0 len) (write_bytes s (buffer hnd) 0)) (\<lambda>s.
                            if stealBuffer then JS_free buf s else Some s))) (\<lambda>s.
                    set_length obj ((hlength hnd + len) mod SIZE_MOD) s (Ret ())))))))"

text \<open>The last byte; on an empty array the index is minus one.\<close>

definition ByteArray_pop :: "env \<Rightarrow> ptr \<Rightarrow> bst \<Rightarrow> jsval res" where
  "ByteArray_pop e obj s =
     rbind (instance_handle ByteArray_class obj s) (\<lambda>hnd s.
       the_or_fault (if hlength hnd = 0 then None else read_byte s (buffer hnd) (hlength hnd - 1)) (\<lambda>retval.
         rbind (byteArray_requestSize e obj (hlength hnd - 1) s) (\<lambda>_ s.
           set_length obj (hlength hnd - 1) s (Ret (JInt (uint retval))))))"

fun push_loop :: "env \<Rightarrow> ptr \<Rightarrow> jsval list \<Rightarrow> bst \<Rightarrow> unit res" where
  "push_loop e obj [] s = Ret () s"
| "push_loop e obj (v # argv) s =
     on_number e v s Throw (\<lambda>d s.
       if \<not> is_int d (int (to_uchar e d)) then Throw s
       else get_handle obj s (\<lambda>hnd.
         the_or_fault (write_byte s (buffer hnd) (hlength hnd) (of_nat (to_uchar e d))) (\<lambda>s.
           set_length obj ((hlength hnd + 1) mod SIZE_MOD) s (push_loop e obj argv))))"

definition ByteArray_push :: "env \<Rightarrow> ptr \<Rightarrow> jsval list \<Rightarrow> bst \<Rightarrow> unit res" where
  "ByteArray_push e obj argv s =
     rbind (instance_handle ByteArray_class obj s) (\<lambda>hnd s.
       rbind (byteArray_requestSize e obj ((hlength hnd + length argv) mod SIZE_MOD) s) (\<lambda>_ s.
         push_loop e obj argv s))"

text \<open>The \<open>memcpy\<close> of a block one place down is taken to move it as \<open>memmove\<close> does.\<close>

definition ByteArray_shift :: "env \<Rightarrow> ptr \<Rightarrow> bst \<Rightarrow> jsval res" where
  "ByteArray_shift e obj s =
     rbind (instance_handle ByteArray_class obj s) (\<lambda>hnd s.
       if hlength hnd = 0 then Ret JVoid s
       else the_or_fault (read_byte s (buffer hnd) 0) (\<lambda>theByte.
         the_or_fault (Option.bind (read_bytes s (buffer hnd) 1 (hlength hnd - 1)) (write_bytes s (buffer hnd) 0)) (\<lambda>s.
           rbind (byteArray_requestSize e obj (hlength hnd - 1) s) (\<lambda>_ s.
             set_length obj (hlength hnd - 1) s (Ret (JInt (uint theByte)))))))"

section \<open>Order\<close>

fun reverse_loop :: "nat \<Rightarrow> nat \<Rightarrow> byte list \<Rightarrow> nat \<Rightarrow> byte list option" where
  "reverse_loop 0 i buf len = Some buf"
| "reverse_loop (Suc l) i buf len =
     Option.bind (mem_load buf i) (\<lambda>temp.
       Option.bind (mem_load buf (len - i - 1)) (\<lambda>x.
         Option.bind (mem_store buf i x) (\<lambda>buf.
           Option.bind (mem_store buf (len - i - 1) temp) (\<lambda>buf. reverse_loop l (Suc i) buf len))))"

definition ByteArray_reverse :: "ptr \<Rightarrow> bst \<Rightarrow> unit res" where
  "ByteArray_reverse obj s =
     rbind (instance_handle ByteArray_class obj s) (\<lambda>hnd s.
       if hlength hnd div 2 = 0 then Ret () s
       else the_or_fault (Option.bind (blocks s (buffer hnd)) (\<lambda>b. reverse_loop (hlength hnd div 2) 0 b (hlength hnd))) (\<lambda>b.
         Ret () (s\<lparr>blocks := (blocks s)(buffer hnd \<mapsto> b)\<rparr>)))"

definition compare_bytes :: "byte \<Rightarrow> byte \<Rightarrow> int" where
  "compare_bytes a b = uint a - uint b"

text \<open>\<open>qsort\<close> of the C library is a parameter: it sorts by the comparison it is given.\<close>

definition ByteArray_sort :: "((byte \<Rightarrow> byte \<Rightarrow> int) \<Rightarrow> byte list \<Rightarrow> byte list) \<Rightarrow> ptr \<Rightarrow> bst \<Rightarrow> unit res" where
  "ByteArray_sort qsort obj s =
     rbind (instance_handle ByteArray_class obj s) (\<lambda>hnd s.
       the_or_fault (Option.bind (read_bytes s (buffer hnd) 0 (hlength hnd))
                       (\<lambda>bs. write_bytes s (buffer hnd) 0 (qsort compare_bytes bs))) (Ret ()))"

section \<open>Slices\<close>

text \<open>Both \<open>slice\<close> and \<open>splice\<close>.  The size is signed; a negative index is subtracted from the
  length.\<close>

definition ByteArray_lice :: "env \<Rightarrow> nat \<Rightarrow> ptr \<Rightarrow> jsval list \<Rightarrow> bool \<Rightarrow> bst \<Rightarrow> ptr res" where
  "ByteArray_lice e sz obj argv spliced s =
     rbind (instance_handle ByteArray_class obj s) (\<lambda>hnd s.
       let sz0 = int (hlength hnd)
       in rbind (byteThing_arg2ssize e argv 0 (- sz0) (sz0 - 1) False 0 s) (\<lambda>start s.
          get_handle obj s (\<lambda>hnd.
          rbind (byteThing_arg2ssize e argv 1 (- sz0) sz0 True (int (hlength hnd)) s) (\<lambda>endv s.
          get_handle obj s (\<lambda>hnd.
            let start = (if start < 0 then int (hlength hnd) - start else start);
                stop = (if endv < 0 then int (hlength hnd) - endv else endv);
                empty = stop < start;
                stop = (if empty then start else stop)
            in rbind (if empty then byteThing_fromCArray e (NULL, 0) 0 NULL ByteArray_class sz False s
                      else byteThing_fromCArray e (buffer hnd, nat start) (nat (stop - start)) NULL ByteArray_class sz False s)
                 (\<lambda>retval s.
                   if spliced \<and> start \<noteq> stop then
                     get_handle obj s (\<lambda>hnd.
                       let newSize = size_of_int (int (hlength hnd) - (stop - start))
                       in the_or_fault (Option.bind (read_bytes s (buffer hnd) (nat stop) (size_of_int (int (hlength hnd) - stop)))
                                          (write_bytes s (buffer hnd) (nat start))) (\<lambda>s.
                            case byteArray_requestSize e obj newSize s of
                              Ret _ s \<Rightarrow> set_length obj newSize s (Ret retval)
                            | Throw s \<Rightarrow> set_length obj newSize s (Ret retval)
                            | Fault \<Rightarrow> Fault | Hang \<Rightarrow> Hang))
                   else Ret retval s))))))"


section \<open>Rounding up\<close>

lemma round_up_result:
  "round_up r n = Some y \<Longrightarrow> n \<le> y \<and> (\<exists>k. y = unat (push_bit k r))"
proof (rule round_up.raw_induct [where P = "\<lambda>r n y. n \<le> y \<and> (\<exists>k. y = unat (push_bit k r))"])
  fix f r n y
  assume IH: "\<And>r n y. f r n = Some y \<Longrightarrow> n \<le> y \<and> (\<exists>k. y = unat (push_bit k r))"
    and h: "(if unat r < n then f (push_bit 1 r) n else Some (unat r)) = Some y"
  show "n \<le> y \<and> (\<exists>k. y = unat (push_bit k r))"
  proof (cases "unat r < n")
    case True
    with h IH [of "push_bit 1 r" n y] obtain k where "n \<le> y" "y = unat (push_bit k (push_bit 1 r))" by auto
    then show ?thesis by (auto simp: push_bit_push_bit intro!: exI [of _ "k + 1"])
  next
    case False
    with h show ?thesis by (auto intro!: exI [of _ 0])
  qed
qed

lemma unat_power: "k < 64 \<Longrightarrow> unat (2 ^ k :: 64 word) = 2 ^ k"
proof -
  assume k: "k < 64"
  then have "unat (of_nat (2 ^ k) :: 64 word) = 2 ^ k" by (simp only: unsigned_of_nat) simp
  then show ?thesis by simp
qed

lemma round_up_reaches:
  "k \<le> 63 \<Longrightarrow> n \<le> 2 ^ 63 \<Longrightarrow> \<exists>y. round_up (2 ^ k) n = Some y"
proof (induction "63 - k" arbitrary: k)
  case 0
  then have "k = 63" by simp
  with 0 show ?case by (subst round_up.simps) (simp add: unat_power)
next
  case (Suc m)
  have "m = 63 - Suc k" "Suc k \<le> 63" using Suc.hyps(2) by linarith+
  from Suc.hyps(1) [OF this Suc.prems(2)] have "\<exists>y. round_up (2 ^ Suc k) n = Some y" .
  moreover have "push_bit 1 (2 ^ k :: 64 word) = 2 ^ Suc k" by (simp add: push_bit_eq_mult mult.commute)
  ultimately show ?case by (subst round_up.simps) (simp only: if_split, simp)
qed

lemma round_up_bound: "round_up 16 n = Some y \<Longrightarrow> n \<le> y \<and> y \<le> 2 ^ 63"
proof -
  assume "round_up 16 n = Some y"
  from round_up_result [OF this] obtain k where y: "n \<le> y" "y = unat (push_bit k (16 :: 64 word))" by blast
  have "push_bit k (16 :: 64 word) = 2 ^ (k + 4)" by (simp add: push_bit_eq_mult power_add)
  moreover have "unat (2 ^ (k + 4) :: 64 word) \<le> 2 ^ 63"
  proof (cases "k + 4 < 64")
    case True
    then show ?thesis by (simp only: unat_power) (rule power_increasing, simp_all)
  next
    case False
    then have "(2 :: 64 word) ^ (k + 4) = 0" by (intro exp_eq_zero_iff [THEN iffD2]) simp
    then show ?thesis by (simp only: unsigned_0)
  qed
  ultimately show ?thesis using y by simp
qed

lemma round_up_iff: "round_up 16 n = None \<longleftrightarrow> 2 ^ 63 < n"
proof -
  have "round_up 16 n \<noteq> None" if "n \<le> 2 ^ 63" using round_up_reaches [of 4 n] that by auto
  moreover have "round_up 16 n = None" if "2 ^ 63 < n" using round_up_bound [of n] that by (cases "round_up 16 n") fastforce+
  ultimately show ?thesis by (meson not_le)
qed


section \<open>Changing one array\<close>

text \<open>The bytes behind a handle, and what changes when one array does.\<close>

definition blk :: "bst \<Rightarrow> bt_handle \<Rightarrow> byte list" where
  "blk s h = (if buffer h = NULL then [] else case blocks s (buffer h) of None \<Rightarrow> [] | Some b \<Rightarrow> b)"

definition held :: "bst \<Rightarrow> bt_handle \<Rightarrow> bool" where
  "held s h \<longleftrightarrow> (buffer h \<noteq> NULL \<longrightarrow> blocks s (buffer h) \<noteq> None) \<and> capacity h \<le> length (blk s h)"

definition changes :: "bst \<Rightarrow> ptr \<Rightarrow> bst \<Rightarrow> bt_handle \<Rightarrow> bool" where
  "changes s obj s' h' \<longleftrightarrow>
     (\<exists>ob h. objects s obj = Some ob \<and> opriv ob = Some h \<and> oclass ob = ByteArray_class
        \<and> objects s' = (objects s)(obj \<mapsto> ob\<lparr>opriv := Some h'\<rparr>)
        \<and> (\<forall>p < bnext s. p \<noteq> buffer h \<or> p = NULL \<longrightarrow> blocks s' p = blocks s p)
        \<and> (buffer h' = buffer h \<or> bnext s \<le> buffer h'))
     \<and> bnext s \<le> bnext s' \<and> (\<forall>p. blocks s' p \<noteq> None \<longrightarrow> p < bnext s') \<and> held s' h'"

text \<open>What the caller sees: the array has new contents and everything else is as before.\<close>

definition updates :: "bst \<Rightarrow> ptr \<Rightarrow> byte list \<Rightarrow> bst \<Rightarrow> bool" where
  "updates s obj bs s' \<longleftrightarrow>
     bt_ok s' \<and> contents s' obj = Some bs
     \<and> (\<exists>ob. objects s' obj = Some ob \<and> oclass ob = ByteArray_class)
     \<and> (\<forall>q. q \<noteq> obj \<longrightarrow> objects s q \<noteq> None \<longrightarrow> objects s' q = objects s q \<and> contents s' q = contents s q)"

definition byte_array :: "bst \<Rightarrow> ptr \<Rightarrow> bt_handle \<Rightarrow> byte list \<Rightarrow> bool" where
  "byte_array s obj h bs \<longleftrightarrow>
     bt_ok s \<and> handle_of s obj = Some h \<and> contents s obj = Some bs \<and> length bs < SIZE_MOD
     \<and> (\<exists>ob. objects s obj = Some ob \<and> oclass ob = ByteArray_class)"

lemma byte_array_handle:
  assumes "byte_array s obj h bs"
  shows "instance_handle ByteArray_class obj s = Ret h s" "get_handle obj s f = f h"
    "hlength h = length bs" "take (hlength h) (blk s h) = bs" "hlength h \<le> length (blk s h)" "changes s obj s h"
proof -
  obtain ob where ob: "objects s obj = Some ob" "oclass ob = ByteArray_class" "opriv ob = Some h"
    using assms by (auto simp: byte_array_def handle_of_def)
  have ok: "bt_ok s" and hk: "handle_ok s h"
    using assms bt_okD(4) by (auto simp: byte_array_def)
  show "instance_handle ByteArray_class obj s = Ret h s" "get_handle obj s f = f h"
    by (simp_all add: instance_handle_def get_object_def get_handle_def ob)
  from contents_Some [OF ok, of obj h] assms show "hlength h = length bs" by (auto simp: byte_array_def)
  show l: "hlength h \<le> length (blk s h)" using hk by (auto simp: handle_ok_def blk_def split: if_splits)
  have "held s h" using hk by (auto simp: handle_ok_def held_def blk_def split: if_splits)
  moreover have "s = s\<lparr>objects := (objects s)(obj \<mapsto> ob\<lparr>opriv := Some h\<rparr>)\<rparr>"
    using ob by (intro bst.equality) (auto simp: fun_eq_iff)
  then have "objects s = (objects s)(obj \<mapsto> ob\<lparr>opriv := Some h\<rparr>)" by (metis bst.select_convs(2) bst.surjective bst.update_convs(2))
  ultimately show "changes s obj s h" using ob bt_okD(2) [OF ok] unfolding changes_def by blast
  have "read_bytes s (buffer h) 0 (hlength h) = Some bs"
    using assms ob by (auto simp: byte_array_def contents_def)
  then show "take (hlength h) (blk s h) = bs"
    using hk by (auto simp: handle_ok_def blk_def read_bytes_def load_block_def split: if_splits option.splits)
qed

lemma changes_get:
  assumes "changes s obj s' h'"
  shows "get_handle obj s' f = f h'" "handle_of s' obj = Some h'"
  using assms by (auto simp: changes_def get_handle_def handle_of_def)

lemma changes_set:
  assumes "changes s obj s' h'" "buffer h'' = buffer h'" "capacity h'' \<le> length (blk s' h')"
  shows "changes s obj (set_handle obj h'' s') h''"
proof -
  have "held (set_handle obj h'' s') h''"
    using assms by (auto simp: held_def set_handle_def changes_def blk_def)
  with assms(1,2) show ?thesis by (auto simp: changes_def set_handle_def fun_eq_iff)
qed

lemma blk_set [simp]: "blk (set_handle obj h'' s) h = blk s h"
  by (simp add: blk_def set_handle_def)

lemma blk_relength [simp]: "blk s (h\<lparr>hlength := n\<rparr>) = blk s h"
  by (simp add: blk_def)

lemma changes_length:
  assumes "changes s obj s' h'"
  shows "set_length obj n s' f = f (set_handle obj (h'\<lparr>hlength := n\<rparr>) s')"
  by (simp add: set_length_def changes_get(1) [OF assms])

lemma changes_relength:
  assumes "changes s obj s' h'"
  shows "changes s obj (set_handle obj (h'\<lparr>hlength := n\<rparr>) s') (h'\<lparr>hlength := n\<rparr>)"
  using changes_set [OF assms, of "h'\<lparr>hlength := n\<rparr>"] assms by (auto simp: changes_def held_def)

lemma changes_poke:
  assumes "changes s obj s' h'" "buffer h' \<noteq> NULL" "length b = length (blk s' h')"
  shows "changes s obj (s'\<lparr>blocks := (blocks s')(buffer h' \<mapsto> b)\<rparr>) h'
    \<and> blk (s'\<lparr>blocks := (blocks s')(buffer h' \<mapsto> b)\<rparr>) h' = b"
  using assms by (auto simp: changes_def held_def blk_def)

lemma changes_updates:
  assumes ok: "bt_ok s" and ch: "changes s obj s' h'" and l: "hlength h' \<le> length (blk s' h')"
  shows "updates s obj (take (hlength h') (blk s' h')) s'"
proof -
  obtain ob h where ob: "objects s obj = Some ob" "opriv ob = Some h" "oclass ob = ByteArray_class"
    "objects s' = (objects s)(obj \<mapsto> ob\<lparr>opriv := Some h'\<rparr>)"
    "\<And>p. p < bnext s \<Longrightarrow> p \<noteq> buffer h \<or> p = NULL \<Longrightarrow> blocks s' p = blocks s p"
    "buffer h' = buffer h \<or> bnext s \<le> buffer h'"
    and n: "bnext s \<le> bnext s'" "\<And>p. blocks s' p \<noteq> None \<Longrightarrow> p < bnext s'" and held: "held s' h'"
    using ch unfolding changes_def by blast
  have ho: "handle_of s obj = Some h" by (simp add: handle_of_def ob)
  have hs: "handle_of s' q = (if q = obj then Some h' else handle_of s q)" for q by (simp add: handle_of_def ob(4))
  have alone: "buffer k \<noteq> buffer h \<or> buffer h = NULL" if "q \<noteq> obj" "handle_of s q = Some k" for q k
    using bt_okD(5) [OF ok ob(1,3,2), of q k] that by auto
  have lt: "buffer k < bnext s" if "handle_of s q = Some k" for q k
    using bt_okD(4) [OF ok that] bt_okD(2) [OF ok, of "buffer k"] bt_okD(1) [OF ok]
    by (cases "buffer k = NULL") (auto simp: handle_ok_def)
  have keep: "blocks s' (buffer k) = blocks s (buffer k)" if "q \<noteq> obj" "handle_of s q = Some k" for q k
    using ob(5) [OF lt [OF that(2)]] alone [OF that] by auto
  have h'ok: "handle_ok s' h'"
    using held l by (auto simp: held_def handle_ok_def blk_def split: if_splits)
  have "bt_ok s'"
  proof (rule bt_okI)
    show "0 < bnext s'" using n(1) bt_okD(1) [OF ok] by simp
    show "0 < p \<and> p < bnext s'" if "blocks s' p = Some b" for p b
    proof -
      have "p \<noteq> 0" using ob(5) [of 0] bt_ok_NULL(1) [OF ok] bt_okD(1) [OF ok] that by (intro notI) simp
      with n(2) [of p] that show ?thesis by simp
    qed
    show "0 < p \<and> p < bnext s'" if "objects s' p = Some k" for p k
      using bt_okD(3) [OF ok, of p] that n(1) ob(1,4) by (auto split: if_splits)
    show "handle_ok s' k" if k: "handle_of s' q = Some k" for q k
    proof (cases "q = obj")
      case False
      with k hs have "handle_of s q = Some k" by simp
      with bt_okD(4) [OF ok this] keep [OF False this] show ?thesis by (auto simp: handle_ok_def)
    qed (use k hs h'ok in simp)
    show "buffer k' \<noteq> buffer k" if a: "objects s' p = Some o1" "oclass o1 = ByteArray_class" "opriv o1 = Some k" "p \<noteq> q"
      "handle_of s' q = Some k'" "buffer k \<noteq> NULL" for p q o1 k k'
    proof -
      consider (new) "p = obj" | (other) "q = obj" | (old) "p \<noteq> obj" "q \<noteq> obj" by blast
      then show ?thesis
      proof cases
        case new
        then have "k = h'" "handle_of s q = Some k'" "q \<noteq> obj" using a ob(4) hs by auto
        with lt [of q k'] alone [of q k'] ob(6) a(6) show ?thesis by (auto simp: linorder_not_less)
      next
        case other
        then have k: "k' = h'" "objects s p = Some o1" "p \<noteq> obj" using a ob(4) hs by auto
        then have "handle_of s p = Some k" using a(3) by (simp add: handle_of_def)
        with lt [of p k] alone [of p k] ob(6) a(6) k show ?thesis by (auto simp: linorder_not_less)
      next
        case old
        with a ob(4) hs bt_okD(5) [OF ok, of p o1 k q k'] show ?thesis by simp
      qed
    qed
  qed
  moreover have "contents s' obj = Some (take (hlength h') (blk s' h'))"
    using held l by (auto simp: contents_def ob(4) read_bytes_def load_block_def held_def blk_def split: if_splits)
  moreover have "objects s' q = objects s q \<and> contents s' q = contents s q" if "q \<noteq> obj" for q
    using that keep [OF that] ob(4)
    by (cases "handle_of s q") (auto simp: contents_def handle_of_def read_bytes_def)
  ultimately show ?thesis using ob(3,4) by (auto simp: updates_def)
qed


lemma realloc_plenty:
  assumes "plenty e" "held s h" "0 < bnext s" "\<And>p. blocks s p \<noteq> None \<Longrightarrow> p < bnext s"
  shows "\<exists>x s'. JS_realloc e (buffer h) n s = Some (bnext s, s') \<and> objects s' = objects s \<and> bnext s' = Suc (bnext s)
    \<and> (\<forall>p < bnext s. p \<noteq> buffer h \<or> p = NULL \<longrightarrow> blocks s' p = blocks s p)
    \<and> (\<forall>p. blocks s' p \<noteq> None \<longrightarrow> p < bnext s') \<and> (buffer h \<noteq> NULL \<longrightarrow> blocks s' (buffer h) = None)
    \<and> blocks s' (bnext s) = Some x \<and> length x = n \<and> (\<forall>m \<le> n. m \<le> length (blk s h) \<longrightarrow> take m x = take m (blk s h))"
proof (cases "buffer h = NULL")
  case True
  with assms show ?thesis
    by (auto simp: JS_realloc_def JS_malloc_def plenty_def Let_def blk_def less_SucI)
next
  case False
  with assms(2) obtain b where b: "blocks s (buffer h) = Some b" by (auto simp: held_def)
  with assms(4) have lt: "buffer h < bnext s" by blast
  then have "buffer h \<noteq> bnext s" by simp
  then show ?thesis using False b assms
    by (auto simp: JS_realloc_def plenty_def Let_def blk_def less_SucI min_def)
qed

lemma requestSize_changes:
  assumes pl: "plenty e" and ok: "0 < bnext s" and ch: "changes s obj s' h'" and n: "n \<le> 2 ^ 63"
  shows "\<exists>s'' h''. byteArray_requestSize e obj n s' = Ret () s'' \<and> changes s obj s'' h'' \<and> hlength h'' = hlength h'
    \<and> n \<le> length (blk s'' h'') \<and> (\<forall>m \<le> n. m \<le> length (blk s' h') \<longrightarrow> take m (blk s'' h'') = take m (blk s' h'))
    \<and> (\<forall>p < bnext s'. p \<noteq> buffer h' \<or> p = NULL \<longrightarrow> blocks s'' p = blocks s' p)
    \<and> (n \<le> capacity h' \<longrightarrow> s'' = s' \<and> h'' = h')
    \<and> (capacity h' < n \<longrightarrow> bnext s' \<le> buffer h'' \<and> (buffer h' \<noteq> NULL \<longrightarrow> blocks s'' (buffer h') = None))"
proof (cases "capacity h' < n")
  case False
  have "capacity h' \<le> length (blk s' h')" using ch by (auto simp: changes_def held_def)
  with False show ?thesis
    using ch by (auto simp: byteArray_requestSize_def changes_get(1) [OF ch])
next
  case True
  obtain r where r: "round_up 16 n = Some r" "n \<le> r" using round_up_iff [of n] n round_up_bound [of n] by auto
  have h: "held s' h'" and bn: "0 < bnext s'" and lt: "\<And>p. blocks s' p \<noteq> None \<Longrightarrow> p < bnext s'"
    using ch ok by (auto simp: changes_def)
  from realloc_plenty [OF pl h bn lt, of r] obtain x t where
    t: "JS_realloc e (buffer h') r s' = Some (bnext s', t)" "objects t = objects s'" "bnext t = Suc (bnext s')"
      "\<And>p. p < bnext s' \<Longrightarrow> p \<noteq> buffer h' \<or> p = NULL \<Longrightarrow> blocks t p = blocks s' p"
      "\<And>p. blocks t p \<noteq> None \<Longrightarrow> p < bnext t" "buffer h' \<noteq> NULL \<Longrightarrow> blocks t (buffer h') = None" "blocks t (bnext s') = Some x" "length x = r"
      "\<And>m. m \<le> r \<Longrightarrow> m \<le> length (blk s' h') \<Longrightarrow> take m x = take m (blk s' h')" by blast
  define h'' where "h'' = h'\<lparr>buffer := bnext s', capacity := r\<rparr>"
  have b: "blk (set_handle obj h'' t) h'' = x" using bn t(7) by (simp add: blk_def h''_def set_handle_def)
  have req: "byteArray_requestSize e obj n s' = Ret () (set_handle obj h'' t)"
    using True r(1) t(1) bn by (simp add: byteArray_requestSize_def changes_get(1) [OF ch] h''_def)
  obtain ob h where ob: "objects s obj = Some ob" "opriv ob = Some h" "oclass ob = ByteArray_class"
    "objects s' = (objects s)(obj \<mapsto> ob\<lparr>opriv := Some h'\<rparr>)"
    "\<And>p. p < bnext s \<Longrightarrow> p \<noteq> buffer h \<or> p = NULL \<Longrightarrow> blocks s' p = blocks s p"
    "buffer h' = buffer h \<or> bnext s \<le> buffer h'" "bnext s \<le> bnext s'"
    using ch unfolding changes_def by blast
  have "changes s obj (set_handle obj h'' t) h''"
    unfolding changes_def
  proof (intro conjI exI)
    show "objects (set_handle obj h'' t) = (objects s)(obj \<mapsto> ob\<lparr>opriv := Some h''\<rparr>)"
      by (simp add: set_handle_def t(2) ob(4) fun_eq_iff)
    show "\<forall>p < bnext s. p \<noteq> buffer h \<or> p = NULL \<longrightarrow> blocks (set_handle obj h'' t) p = blocks s p"
      using ob(5-7) t(4) by (auto simp: set_handle_def)
    show "buffer h'' = buffer h \<or> bnext s \<le> buffer h''" using ob(7) by (simp add: h''_def)
    show "bnext s \<le> bnext (set_handle obj h'' t)" using ob(7) t(3) by (simp add: set_handle_def)
    show "\<forall>p. blocks (set_handle obj h'' t) p \<noteq> None \<longrightarrow> p < bnext (set_handle obj h'' t)"
      using t(5) by (simp add: set_handle_def)
    show "held (set_handle obj h'' t) h''"
      using b t(7,8) by (simp add: held_def) (simp add: h''_def set_handle_def)
  qed (use ob in auto)
  then show ?thesis
    using req b r(2) t(4,6,8,9) True by (intro exI [of _ "set_handle obj h'' t"] exI [of _ h'']) (auto simp: h''_def set_handle_def)
qed

lemma write_changes:
  assumes ch: "changes s obj s' h'" and l: "off + length xs \<le> length (blk s' h')"
  shows "\<exists>s''. write_bytes s' (buffer h') off xs = Some s'' \<and> changes s obj s'' h'
    \<and> blk s'' h' = take off (blk s' h') @ xs @ drop (off + length xs) (blk s' h') \<and> bnext s'' = bnext s'
    \<and> (\<forall>p. p \<noteq> buffer h' \<longrightarrow> blocks s'' p = blocks s' p)"
proof (cases "xs = []")
  case True
  with ch show ?thesis by (auto simp: write_bytes_def)
next
  case False
  then have nz: "buffer h' \<noteq> NULL" using l by (auto simp: blk_def split: if_splits)
  then obtain b where b: "blocks s' (buffer h') = Some b" "blk s' h' = b"
    using ch by (auto simp: changes_def held_def blk_def)
  have "write_bytes s' (buffer h') off xs
     = Some (s'\<lparr>blocks := (blocks s')(buffer h' \<mapsto> take off b @ xs @ drop (off + length xs) b)\<rparr>)"
    using False b l by (simp add: write_bytes_def store_block_def)
  with changes_poke [OF ch nz, of "take off b @ xs @ drop (off + length xs) b"] b l show ?thesis by auto
qed

lemma write_byte_changes:
  assumes ch: "changes s obj s' h'" and l: "off < length (blk s' h')"
  shows "\<exists>s''. write_byte s' (buffer h') off c = Some s'' \<and> changes s obj s'' h' \<and> blk s'' h' = (blk s' h')[off := c]"
proof -
  have nz: "buffer h' \<noteq> NULL" using l by (auto simp: blk_def split: if_splits)
  then obtain b where b: "blocks s' (buffer h') = Some b" "blk s' h' = b"
    using ch by (auto simp: changes_def held_def blk_def)
  with changes_poke [OF ch nz, of "b[off := c]"] l show ?thesis by (auto simp: write_byte_def mem_store_def)
qed

lemma read_changes:
  assumes ch: "changes s obj s' h'" and l: "off + n \<le> length (blk s' h')"
  shows "read_bytes s' (buffer h') off n = Some (take n (drop off (blk s' h')))"
  using assms by (auto simp: read_bytes_def blk_def load_block_def changes_def held_def split: if_splits option.splits)

lemma read_byte_changes:
  assumes ch: "changes s obj s' h'" and l: "off < length (blk s' h')"
  shows "read_byte s' (buffer h') off = Some (blk s' h' ! off)"
  using assms by (auto simp: read_byte_def blk_def mem_load_def changes_def held_def split: if_splits option.splits)


section \<open>What the operations do to the bytes\<close>

lemma byte_array_pos: "byte_array s obj h bs \<Longrightarrow> bt_ok s \<and> 0 < bnext s"
  using bt_okD(1) by (auto simp: byte_array_def)

lemma finish_update:
  assumes "byte_array s obj h bs" "changes s obj s' h'" "n \<le> length (blk s' h')" "take n (blk s' h') = bs'"
  shows "\<exists>t. set_length obj n s' f = f t \<and> updates s obj bs' t"
proof -
  let ?t = "set_handle obj (h'\<lparr>hlength := n\<rparr>) s'"
  have "updates s obj (take n (blk s' h')) ?t"
    using changes_updates [of s obj ?t "h'\<lparr>hlength := n\<rparr>"] changes_relength [OF assms(2), of n]
      byte_array_pos [OF assms(1)] assms(3)
    by simp
  then show ?thesis using assms(4) by (auto simp: changes_length [OF assms(2)])
qed

lemma pop_updates:
  assumes a: "byte_array s obj h bs" and pl: "plenty e" and l: "length bs \<le> 2 ^ 63" and ne: "bs \<noteq> []"
  shows "\<exists>s'. ByteArray_pop e obj s = Ret (JInt (uint (List.last bs))) s' \<and> updates s obj (butlast bs) s'"
proof -
  note ba = byte_array_handle [OF a]
  have n: "hlength h = length bs" "length bs \<noteq> 0" "length bs - 1 < length (blk s h)" "take (length bs) (blk s h) = bs"
    using ba(3-5) ne by (auto intro: less_le_trans [of _ "length bs"])
  have rd: "read_byte s (buffer h) (length bs - 1) = Some (List.last bs)"
    using read_byte_changes [OF ba(6) n(3)] n ne by (metis last_conv_nth diff_less length_greater_0_conv nth_take zero_less_one)
  have k: "length bs - 1 \<le> 2 ^ 63" using l by simp
  from requestSize_changes [OF pl _ ba(6) k] byte_array_pos [OF a] obtain s1 h1 where
    r: "byteArray_requestSize e obj (length bs - 1) s = Ret () s1" "changes s obj s1 h1"
      "length bs - 1 \<le> length (blk s1 h1)"
      "\<forall>m\<le>length bs - 1. m \<le> length (blk s h) \<longrightarrow> take m (blk s1 h1) = take m (blk s h)" by auto
  have "take (length bs - 1) (blk s1 h1) = butlast bs"
    using r(4) n by (metis butlast_conv_take le_refl less_imp_le min.absorb1 take_take diff_le_self)
  from finish_update [OF a r(2,3) this, of "Ret (JInt (uint (List.last bs)))"] show ?thesis
    using n by (auto simp: ByteArray_pop_def ba(1) rd r(1) simp del: One_nat_def)
qed

lemma pop_empty: "byte_array s obj h [] \<Longrightarrow> ByteArray_pop e obj s = Fault"
  using byte_array_handle(1,3) [of s obj h "[]"] by (simp add: ByteArray_pop_def)

lemma shift_updates:
  assumes a: "byte_array s obj h bs" and pl: "plenty e" and l: "length bs \<le> 2 ^ 63" and ne: "bs \<noteq> []"
  shows "\<exists>s'. ByteArray_shift e obj s = Ret (JInt (uint (hd bs))) s' \<and> updates s obj (tl bs) s'"
proof -
  note ba = byte_array_handle [OF a]
  have n: "hlength h = length bs" "0 < length bs" "0 < length (blk s h)" "take (length bs) (blk s h) = bs"
    "1 + (length bs - 1) \<le> length (blk s h)" "length bs \<le> length (blk s h)"
    using ba(3-5) ne by (auto intro: less_le_trans [of _ "length bs"])
  have rd: "read_byte s (buffer h) 0 = Some (hd bs)"
    using read_byte_changes [OF ba(6) n(3)] n ne by (metis hd_conv_nth nth_take)
  have tl: "take (length bs - 1) (drop 1 (blk s h)) = tl bs"
    using n(4) by (metis drop_take drop_Suc drop0 One_nat_def)
  have rb: "read_bytes s (buffer h) 1 (length bs - 1) = Some (tl bs)"
    using read_changes [OF ba(6) n(5)] tl by simp
  have "0 + length (tl bs) \<le> length (blk s h)" using n by simp
  from write_changes [OF ba(6) this] obtain s1 where
    w: "write_bytes s (buffer h) 0 (tl bs) = Some s1" "changes s obj s1 h"
      "blk s1 h = tl bs @ drop (length (tl bs)) (blk s h)" by auto
  have k: "length bs - 1 \<le> 2 ^ 63" using l by simp
  from requestSize_changes [OF pl _ w(2) k] byte_array_pos [OF a] obtain s2 h2 where
    r: "byteArray_requestSize e obj (length bs - 1) s1 = Ret () s2" "changes s obj s2 h2"
      "length bs - 1 \<le> length (blk s2 h2)"
      "\<forall>m\<le>length bs - 1. m \<le> length (blk s1 h) \<longrightarrow> take m (blk s2 h2) = take m (blk s1 h)" by auto
  have "take (length bs - 1) (blk s2 h2) = tl bs" using r(4) w(3) n by simp
  from finish_update [OF a r(2,3) this, of "Ret (JInt (uint (hd bs)))"] show ?thesis
    using n by (auto simp: ByteArray_shift_def ba(1) rd rb w(1) r(1) simp del: One_nat_def)
qed

lemma setProperty_updates:
  assumes a: "byte_array s obj h bs" and i: "i < length bs" and "obj \<noteq> byteArray_proto e" and "length bs \<le> 2 ^ 63"
    and ix: "\<And>t. byteThing_val2size e ix t = Ret (Inr i) t" and v: "\<And>t. byteThing_val2byte e v t = Ret (Inr c) t"
  shows "\<exists>s'. ByteArray_setProperty e obj ix v s = Ret () s' \<and> updates s obj (bs[i := c]) s'"
proof -
  note ba = byte_array_handle [OF a]
  have l: "i < length (blk s h)" using ba(3,5) i by simp
  from write_byte_changes [OF ba(6) l, of c] obtain s1 where
    w: "write_byte s (buffer h) i c = Some s1" "changes s obj s1 h" "blk s1 h = (blk s h)[i := c]" by blast
  have "updates s obj (take (hlength h) (blk s1 h)) s1"
    using changes_updates [OF _ w(2)] w(3) ba(5) byte_array_pos [OF a] by simp
  moreover have "take (hlength h) (blk s1 h) = bs[i := c]" using w(3) ba(4) by (simp add: take_update_swap)
  ultimately show ?thesis using assms(3) ix v i by (auto simp: ByteArray_setProperty_def ba(1-3) w(1))
qed

lemma setLength_updates:
  assumes a: "byte_array s obj h bs" and pl: "plenty e" and n: "n \<le> 2 ^ 63"
    and v: "\<And>t. byteThing_val2size e v t = Ret (Inr n) t"
  shows "\<exists>s'. ByteArray_setLength e obj v s = Ret () s' \<and> updates s obj (take n bs @ replicate (n - length bs) 0) s'"
proof -
  note ba = byte_array_handle [OF a]
  from requestSize_changes [OF pl _ ba(6) n] byte_array_pos [OF a] obtain s1 h1 where
    r: "byteArray_requestSize e obj n s = Ret () s1" "changes s obj s1 h1" "n \<le> length (blk s1 h1)"
      "\<forall>m\<le>n. m \<le> length (blk s h) \<longrightarrow> take m (blk s1 h1) = take m (blk s h)" by auto
  define h2 where "h2 = h1\<lparr>hlength := n\<rparr>"
  let ?s = "set_handle obj h2 s1"
  have sl: "set_length obj n s1 f = f ?s" for f :: "bst \<Rightarrow> unit res"
    by (simp add: h2_def changes_length [OF r(2)])
  have ch2: "changes s obj ?s h2" using changes_relength [OF r(2), of n] by (simp add: h2_def)
  have b2: "blk s1 h2 = blk s1 h1" by (simp add: h2_def)
  have tk: "take (min n (length bs)) (blk s1 h1) = take n bs"
    using r(4) ba(3-5) by (metis le_trans min.cobounded1 min.cobounded2 take_take)
  show ?thesis
  proof (cases "length bs < n")
    case False
    have "updates s obj (take n (blk s1 h1)) ?s"
      using changes_updates [OF _ ch2] r(3) b2 byte_array_pos [OF a] by (simp add: h2_def)
    with False tk show ?thesis
      by (auto simp: ByteArray_setLength_def ba(1-3) v r(1) sl changes_get(1) [OF ch2] min_def)
  next
    case True
    let ?z = "replicate (n - length bs) 0 :: byte list"
    have "length bs + length ?z \<le> length (blk ?s h2)" using r(3) b2 True by simp
    from write_changes [OF ch2 this] obtain s3 where
      w: "write_bytes ?s (buffer h2) (length bs) ?z = Some s3" "changes s obj s3 h2"
        "blk s3 h2 = take (length bs) (blk s1 h1) @ ?z @ drop (length bs + length ?z) (blk s1 h1)"
      by (auto simp: b2)
    have "updates s obj (take n (blk s3 h2)) s3"
      using changes_updates [OF _ w(2)] w(3) r(3) True byte_array_pos [OF a] by (simp add: h2_def)
    moreover have "take n (blk s3 h2) = take n bs @ ?z"
      using w(3) tk True r(3) by (simp add: min_def)
    ultimately show ?thesis using True
      by (auto simp: ByteArray_setLength_def ba(1-3) v r(1) sl changes_get(1) [OF ch2] w(1))
  qed
qed


text \<open>\<open>push\<close> appends its arguments up to the first that is no byte; when there is one, what came before
  it stays.\<close>

definition pushable :: "(jsval \<Rightarrow> jsdouble option) \<Rightarrow> jsval list \<Rightarrow> byte list" where
  "pushable f argv = map the (takeWhile (\<lambda>b. b \<noteq> None) (map (elem_byte f) argv))"

lemma push_loop_updates:
  assumes c: "calm f e" and ok: "bt_ok s"
  shows "changes s obj s' h' \<Longrightarrow> hlength h' = length bs \<Longrightarrow> take (length bs) (blk s' h') = bs \<Longrightarrow>
    length bs + length argv \<le> length (blk s' h') \<Longrightarrow> length bs + length argv < SIZE_MOD \<Longrightarrow>
    \<exists>t. push_loop e obj argv s' = (if None \<in> set (map (elem_byte f) argv) then Throw t else Ret () t)
      \<and> updates s obj (bs @ pushable f argv) t"
proof (induction argv arbitrary: s' h' bs)
  case Nil
  then show ?case using changes_updates [OF ok Nil(1)] by (auto simp: pushable_def)
next
  case (Cons v argv)
  show ?case
  proof (cases "elem_byte f v")
    case None
    have "push_loop e obj (v # argv) s' = Throw s'"
      using None uchar_exact by (auto simp: on_number_calm [OF c] elem_byte_def bind_eq_None_conv split: option.splits)
    moreover have "updates s obj bs s'" using changes_updates [OF ok Cons.prems(1)] Cons.prems(2-4) by simp
    ultimately show ?thesis using None by (auto simp: pushable_def simp del: push_loop.simps)
  next
    case (Some b)
    then obtain d where d: "number_of f v = Some d" "byte_of d = Some b" by (auto simp: elem_byte_def bind_eq_Some_conv)
    then have u: "is_int d (int (to_uchar e d))" "of_nat (to_uchar e d) = b"
      using uchar_exact [of d e] uchar_value [of d e] by auto
    have "length bs < length (blk s' h')" using Cons.prems(4) by simp
    from write_byte_changes [OF Cons.prems(1) this, of b] obtain s1 where
      w: "write_byte s' (buffer h') (length bs) b = Some s1" "changes s obj s1 h'" "blk s1 h' = (blk s' h')[length bs := b]" by blast
    let ?h = "h'\<lparr>hlength := Suc (length bs)\<rparr>" and ?s = "set_handle obj (h'\<lparr>hlength := Suc (length bs)\<rparr>) s1"
    have st: "push_loop e obj (v # argv) s' = push_loop e obj argv ?s"
      using Cons.prems(2,5) w(1) by (simp add: on_number_calm [OF c] d(1) u changes_get(1) [OF Cons.prems(1)] changes_length [OF w(2)])
    have "take (Suc (length bs)) (blk s1 h') = bs @ [b]"
      using w(3) Cons.prems(3) \<open>length bs < length (blk s' h')\<close> by (simp add: take_Suc_conv_app_nth)
    then have "\<exists>t. push_loop e obj argv ?s = (if None \<in> set (map (elem_byte f) argv) then Throw t else Ret () t)
      \<and> updates s obj ((bs @ [b]) @ pushable f argv) t"
      by (intro Cons.IH [of ?s ?h "bs @ [b]"] changes_relength [OF w(2)]) (use Cons.prems(4,5) w(3) in simp_all)
    moreover have "pushable f (v # argv) = b # pushable f argv" by (simp add: pushable_def Some)
    ultimately show ?thesis using Some by (simp add: st del: push_loop.simps)
  qed
qed

lemma push_updates:
  assumes a: "byte_array s obj h bs" and pl: "plenty e" and c: "calm f e" and l: "length bs + length argv \<le> 2 ^ 63"
  shows "\<exists>t. ByteArray_push e obj argv s = (if None \<in> set (map (elem_byte f) argv) then Throw t else Ret () t)
      \<and> updates s obj (bs @ pushable f argv) t"
proof -
  note ba = byte_array_handle [OF a]
  have m: "(length bs + length argv) mod SIZE_MOD = length bs + length argv" using l by (simp add: SIZE_MOD_def)
  from requestSize_changes [OF pl _ ba(6) l] byte_array_pos [OF a] obtain s1 h1 where
    r: "byteArray_requestSize e obj (length bs + length argv) s = Ret () s1" "changes s obj s1 h1"
      "hlength h1 = hlength h" "length bs + length argv \<le> length (blk s1 h1)"
      "\<forall>m\<le>length bs + length argv. m \<le> length (blk s h) \<longrightarrow> take m (blk s1 h1) = take m (blk s h)" by auto
  have tk: "take (length bs) (blk s1 h1) = bs" using r(5) ba(3-5) by simp
  have "length bs + length argv < SIZE_MOD" using l by (simp add: SIZE_MOD_def)
  from push_loop_updates [OF c _ r(2) _ tk r(4) this] byte_array_pos [OF a] r(1,3) ba(3)
  show ?thesis by (simp add: ByteArray_push_def ba(1) m)
qed

lemma changes_frame:
  assumes a: "byte_array s obj h bs" and fr: "frame s s1"
  shows "changes s obj s1 h" "blk s1 h = blk s h"
proof -
  have ok: "bt_ok s" and ho: "handle_of s obj = Some h" using a by (auto simp: byte_array_def)
  have b: "blocks s1 (buffer h) = blocks s (buffer h)" if "buffer h \<noteq> NULL"
    using bt_okD(4) [OF ok ho] bt_okD(2) [OF ok, of "buffer h"] that fr by (auto simp: handle_ok_def frame_def)
  then show "blk s1 h = blk s h" by (simp add: blk_def)
  with b byte_array_handle(6) [OF a] fr show "changes s obj s1 h"
    by (auto simp: changes_def frame_def held_def)
qed

lemma changes_free:
  assumes "changes s obj s' h'" "p \<noteq> buffer h'" "bnext s \<le> p" "blocks s' p \<noteq> None" "p \<noteq> NULL"
  shows "\<exists>t. JS_free p s' = Some t \<and> changes s obj t h' \<and> blk t h' = blk s' h'"
  using assms by (auto simp: JS_free_def changes_def held_def blk_def)

text \<open>The bytes of the arguments are still there when the array has grown, unless they were in its old
  buffer.\<close>

lemma arguments_then_grow:
  assumes a: "byte_array s obj h bs" and pl: "plenty e" and c: "calm f e"
    and live: "\<forall>v\<in>set argv. live_arg s v" and small: "sum_list (map (arg_size s) argv) < 2 ^ 31"
    and xs: "args_bytes f s argv = Some xs" "xs \<noteq> []" and l: "length bs + length xs \<le> 2 ^ 63"
  shows "\<exists>p own s1 s2 h2. byteThing_val2bytes e argv False s = Ret (p, length xs, own) s1
    \<and> get_handle obj s1 = (\<lambda>g. g h :: unit res)
    \<and> byteArray_requestSize e obj (length bs + length xs) s1 = Ret () s2
    \<and> changes s obj s2 h2 \<and> hlength h2 = length bs \<and> length bs + length xs \<le> length (blk s2 h2)
    \<and> take (length bs) (blk s2 h2) = bs
    \<and> (own \<longrightarrow> bnext s \<le> p \<and> p \<noteq> buffer h2 \<and> p \<noteq> buffer h \<and> p \<noteq> NULL \<and> blocks s2 p = Some xs)
    \<and> (\<not> own \<longrightarrow> (p = buffer h \<longleftrightarrow> argv = [JObj obj])
         \<and> (argv \<noteq> [JObj obj] \<or> length bs + length xs \<le> capacity h \<longrightarrow>
              read_bytes s2 p 0 (length xs) = Some xs \<and> (argv \<noteq> [JObj obj] \<longrightarrow> p \<noteq> buffer h2))
         \<and> (argv = [JObj obj] \<and> capacity h < length bs + length xs \<longrightarrow> blocks s2 p = None \<and> xs = bs))"
proof -
  note ba = byte_array_handle [OF a]
  have ok: "bt_ok s" and bn: "0 < bnext s" and ho: "handle_of s obj = Some h"
    using byte_array_pos [OF a] a by (auto simp: byte_array_def)
  have "delivers e s (Some xs) (buffer_holds e s argv) (byteThing_val2bytes e argv False s)"
    using val2bytes_core [OF c ok live small, of False] xs(1) by simp
  then obtain p n own s1 where v: "byteThing_val2bytes e argv False s = Ret (p, n, own) s1" "frame s s1"
    and bh: "buffer_holds e s argv xs (p, n, own) s1"
    using pl by (auto simp: delivers_def split: res.splits)
  have n: "n = length xs" "read_bytes s1 p 0 (length xs) = Some xs" "own \<Longrightarrow> bnext s \<le> p \<and> blocks s1 p = Some xs"
    "\<not> own \<Longrightarrow> \<exists>q k. argv = [JObj q] \<and> handle_of s q = Some k \<and> buffer k = p"
    using bh pl by (auto simp: buffer_holds_def)
  note ch1 = changes_frame [OF a v(2)]
  have bn1: "\<And>q. blocks s1 q \<noteq> None \<Longrightarrow> q < bnext s1" using v(2) by (auto simp: frame_def)
  from requestSize_changes [OF pl bn ch1(1) l] obtain s2 h2 where
    r: "byteArray_requestSize e obj (length bs + length xs) s1 = Ret () s2" "changes s obj s2 h2" "hlength h2 = hlength h"
      "length bs + length xs \<le> length (blk s2 h2)"
      "\<forall>m\<le>length bs + length xs. m \<le> length (blk s1 h) \<longrightarrow> take m (blk s2 h2) = take m (blk s1 h)"
      "\<forall>q<bnext s1. q \<noteq> buffer h \<or> q = NULL \<longrightarrow> blocks s2 q = blocks s1 q"
      "length bs + length xs \<le> capacity h \<longrightarrow> s2 = s1 \<and> h2 = h"
      "capacity h < length bs + length xs \<longrightarrow> bnext s1 \<le> buffer h2 \<and> (buffer h \<noteq> NULL \<longrightarrow> blocks s2 (buffer h) = None)"
    by blast
  have tk: "take (length bs) (blk s2 h2) = bs" using r(5) ba(3-5) ch1(2) by simp
  have gr: "bnext s1 \<le> buffer h2 \<and> (buffer h \<noteq> NULL \<longrightarrow> blocks s2 (buffer h) = None)"
    if "capacity h < length bs + length xs" using r(8) that by blast
  have bh2: "buffer h2 = buffer h \<or> bnext s1 \<le> buffer h2" using r(7) gr by (meson not_le)
  have ltb: "buffer h < bnext s"
    using bt_okD(4) [OF ok ho] bt_okD(2) [OF ok, of "buffer h"] bn by (cases "buffer h = NULL") (auto simp: handle_ok_def)
  have own: "bnext s \<le> p \<and> p \<noteq> buffer h2 \<and> p \<noteq> buffer h \<and> p \<noteq> NULL \<and> blocks s2 p = Some xs" if own
    using n(3) [OF that] bn1 [of p] bh2 r(6) ltb bn by auto
  have borrowed: "(p = buffer h \<longleftrightarrow> argv = [JObj obj])
         \<and> (argv \<noteq> [JObj obj] \<or> length bs + length xs \<le> capacity h \<longrightarrow>
              read_bytes s2 p 0 (length xs) = Some xs \<and> (argv \<noteq> [JObj obj] \<longrightarrow> p \<noteq> buffer h2))
         \<and> (argv = [JObj obj] \<and> capacity h < length bs + length xs \<longrightarrow> blocks s2 p = None \<and> xs = bs)"
    if no: "\<not> own"
  proof -
    obtain q k where q: "argv = [JObj q]" "handle_of s q = Some k" "buffer k = p" using n(4) [OF no] by blast
    have "blocks s1 p \<noteq> None" using n(2) xs(2) by (auto simp: read_bytes_def split: option.splits)
    moreover have "blocks s1 0 = None" using bt_ok_NULL(1) [OF ok] bn v(2) by (simp add: frame_def)
    ultimately have p0: "p \<noteq> NULL" "p < bnext s1" using bn1 by metis+
    show ?thesis
    proof (cases "q = obj")
      case True
      then have "p = buffer h" "argv = [JObj obj]" using q ho by auto
      moreover have "xs = bs"
        using xs(1) q(1) True a by (auto simp: byte_array_def arg_bytes_def gpsee_isByteThingClass_def)
      ultimately show ?thesis using r(7) n(2) gr p0(1) by auto
    next
      case False
      obtain ob where ob: "objects s obj = Some ob" "oclass ob = ByteArray_class" "opriv ob = Some h"
        using a ho by (auto simp: byte_array_def handle_of_def)
      have "p \<noteq> buffer h" using bt_okD(5) [OF ok ob(1-3), of q k] False q p0(1) by auto
      then have "blocks s2 p = blocks s1 p" "p \<noteq> buffer h2" using r(6) p0 bh2 by auto
      with n(2) False q(1) \<open>p \<noteq> buffer h\<close> show ?thesis by (auto simp: read_bytes_def split: if_splits)
    qed
  qed
  show ?thesis
    by (intro exI [of _ p] exI [of _ own] exI [of _ s1] exI [of _ s2] exI [of _ h2])
      (use v(1) n(1) r(1-4) ba(3) tk own borrowed in \<open>simp add: changes_get(1) [OF ch1(1)] fun_eq_iff\<close>)
qed


lemma append_updates:
  assumes a: "byte_array s obj h bs" and pl: "plenty e" and c: "calm f e"
    and live: "\<forall>v\<in>set argv. live_arg s v" and small: "sum_list (map (arg_size s) argv) < 2 ^ 31"
    and xs: "args_bytes f s argv = Some xs" "xs \<noteq> []" and l: "length bs + length xs \<le> 2 ^ 63"
  shows "if argv = [JObj obj] \<and> capacity h < length bs + length xs then byteArray_append e obj argv s = Fault
    else \<exists>t. byteArray_append e obj argv s = Ret () t \<and> updates s obj (bs @ xs) t"
proof -
  note ba = byte_array_handle [OF a]
  have m: "(length bs + length xs) mod SIZE_MOD = length bs + length xs" using l by (simp add: SIZE_MOD_def)
  from arguments_then_grow [OF assms] obtain p own s1 s2 h2 where
    v: "byteThing_val2bytes e argv False s = Ret (p, length xs, own) s1"
    and g: "get_handle obj s1 = (\<lambda>g. g h :: unit res)" and rq: "byteArray_requestSize e obj (length bs + length xs) s1 = Ret () s2"
    and ch: "changes s obj s2 h2" and h2: "hlength h2 = length bs" "length bs + length xs \<le> length (blk s2 h2)"
      "take (length bs) (blk s2 h2) = bs"
    and own: "own \<Longrightarrow> bnext s \<le> p \<and> p \<noteq> buffer h2 \<and> p \<noteq> buffer h \<and> p \<noteq> NULL \<and> blocks s2 p = Some xs"
    and bor: "\<not> own \<Longrightarrow> (argv \<noteq> [JObj obj] \<or> length bs + length xs \<le> capacity h \<longrightarrow> read_bytes s2 p 0 (length xs) = Some xs)
         \<and> (argv = [JObj obj] \<and> capacity h < length bs + length xs \<longrightarrow> blocks s2 p = None \<and> xs = bs)
         \<and> (argv = [JObj obj] \<longrightarrow> p = buffer h)"
    by blast
  have st: "byteArray_append e obj argv s =
      the_or_fault (Option.bind (read_bytes s2 p 0 (length xs)) (write_bytes s2 (buffer h2) (length bs))) (\<lambda>s.
        the_or_fault (if own \<and> buffer h \<noteq> p then JS_free p s else Some s) (\<lambda>s.
          set_length obj (length bs + length xs) s (Ret ())))"
    using v g rq xs(2) ba(3) h2(1)
    by (simp add: byteArray_append_def ba(1) Let_def changes_get(1) [OF ch] m)
  from write_changes [OF ch h2(2)] obtain s3 where
    w: "write_bytes s2 (buffer h2) (length bs) xs = Some s3" "changes s obj s3 h2"
      "blk s3 h2 = bs @ xs @ drop (length bs + length xs) (blk s2 h2)"
      "\<forall>q. q \<noteq> buffer h2 \<longrightarrow> blocks s3 q = blocks s2 q"
    using h2(3) by auto
  have tk: "take (length bs + length xs) (blk s3 h2) = bs @ xs" "length bs + length xs \<le> length (blk s3 h2)"
    using w(3) by simp_all
  show ?thesis
  proof (cases own)
    case True
    from own [OF this] w(4) have rd: "read_bytes s2 p 0 (length xs) = Some xs"
      by (simp add: read_bytes_def load_block_def)
    from own [OF True] w(4) obtain t where t: "JS_free p s3 = Some t" "changes s obj t h2" "blk t h2 = blk s3 h2"
      using changes_free [OF w(2), of p] by auto
    have "argv \<noteq> [JObj obj]"
    proof
      assume "argv = [JObj obj]"
      then have "\<not> own" using v a by (auto simp: byteThing_val2bytes_def byte_array_def get_object_def handle_of_def split: option.splits)
      with True show False by simp
    qed
    with finish_update [OF a t(2), of "length bs + length xs"] tk t True own rd w(1) show ?thesis by (auto simp: st)
  next
    case False
    show ?thesis
    proof (cases "argv = [JObj obj] \<and> capacity h < length bs + length xs")
      case True
      with bor [OF False] xs(2) have "read_bytes s2 p 0 (length xs) = None" by (auto simp: read_bytes_def)
      with True show ?thesis unfolding st by simp
    next
      case noalias: False
      with bor [OF False] have "read_bytes s2 p 0 (length xs) = Some xs" by auto
      with finish_update [OF a w(2) tk(2,1), of "Ret ()"] noalias False w(1) show ?thesis by (auto simp: st)
    qed
  qed
qed

lemma prepend_updates:
  assumes a: "byte_array s obj h bs" and pl: "plenty e" and c: "calm f e"
    and live: "\<forall>v\<in>set argv. live_arg s v" and small: "sum_list (map (arg_size s) argv) < 2 ^ 31"
    and xs: "args_bytes f s argv = Some xs" "xs \<noteq> []" and l: "length bs + length xs \<le> 2 ^ 63"
  shows "\<exists>t. byteArray_prepend e obj argv s = Ret () t \<and> updates s obj (xs @ bs) t"
proof -
  note ba = byte_array_handle [OF a]
  have m: "(length bs + length xs) mod SIZE_MOD = length bs + length xs" using l by (simp add: SIZE_MOD_def)
  from arguments_then_grow [OF assms] obtain p own s1 s2 h2 where
    v: "byteThing_val2bytes e argv False s = Ret (p, length xs, own) s1"
    and g: "get_handle obj s1 = (\<lambda>g. g h :: unit res)" and rq: "byteArray_requestSize e obj (length bs + length xs) s1 = Ret () s2"
    and ch: "changes s obj s2 h2" and h2: "hlength h2 = length bs" "length bs + length xs \<le> length (blk s2 h2)"
      "take (length bs) (blk s2 h2) = bs"
    and own: "own \<Longrightarrow> bnext s \<le> p \<and> p \<noteq> buffer h2 \<and> p \<noteq> buffer h \<and> p \<noteq> NULL \<and> blocks s2 p = Some xs"
    and bor: "\<not> own \<Longrightarrow> (p = buffer h \<longleftrightarrow> argv = [JObj obj])
         \<and> (argv \<noteq> [JObj obj] \<longrightarrow> read_bytes s2 p 0 (length xs) = Some xs \<and> p \<noteq> buffer h2)"
    by blast
  have rd: "read_bytes s2 (buffer h2) 0 (length bs) = Some bs"
    using read_changes [OF ch, of 0 "length bs"] h2(2,3) by simp
  have l2: "length xs + length bs \<le> length (blk s2 h2)" using h2(2) by simp
  from write_changes [OF ch l2] obtain s3 where
    w: "write_bytes s2 (buffer h2) (length xs) bs = Some s3" "changes s obj s3 h2"
      "blk s3 h2 = take (length xs) (blk s2 h2) @ bs @ drop (length xs + length bs) (blk s2 h2)"
      "\<forall>q. q \<noteq> buffer h2 \<longrightarrow> blocks s3 q = blocks s2 q"
    by auto
  have st: "byteArray_prepend e obj argv s =
      the_or_fault (if buffer h = p then Some s3
         else Option.bind (Option.bind (read_bytes s3 p 0 (length xs)) (write_bytes s3 (buffer h2) 0))
           (\<lambda>s. if own then JS_free p s else Some s)) (\<lambda>s.
        set_length obj (length bs + length xs) s (Ret ()))"
    using v g rq xs(2) ba(3) h2(1) rd w(1)
    by (simp add: byteArray_prepend_def ba(1) Let_def changes_get(1) [OF ch] m)
  show ?thesis
  proof (cases "buffer h = p")
    case True
    then have "argv = [JObj obj]" using own bor by (cases own) auto
    then have "xs = bs" using xs(1) a by (auto simp: byte_array_def arg_bytes_def gpsee_isByteThingClass_def)
    then have "take (length bs + length xs) (blk s3 h2) = xs @ bs" "length bs + length xs \<le> length (blk s3 h2)"
      using w(3) h2(3) l2 by auto
    with finish_update [OF a w(2), of "length bs + length xs"] True show ?thesis by (auto simp: st)
  next
    case False
    have p: "read_bytes s3 p 0 (length xs) = Some xs" "p \<noteq> buffer h2"
    proof -
      show "p \<noteq> buffer h2" using own bor False by (cases own) auto
      with w(4) have "read_bytes s3 p 0 (length xs) = read_bytes s2 p 0 (length xs)" by (simp add: read_bytes_def)
      then show "read_bytes s3 p 0 (length xs) = Some xs"
        using own bor False by (cases own) (auto simp: read_bytes_def load_block_def)
    qed
    have "0 + length xs \<le> length (blk s3 h2)" using w(3) l2 by simp
    from write_changes [OF w(2) this] obtain s4 where
      w4: "write_bytes s3 (buffer h2) 0 xs = Some s4" "changes s obj s4 h2"
        "blk s4 h2 = xs @ drop (length xs) (blk s3 h2)" "\<forall>q. q \<noteq> buffer h2 \<longrightarrow> blocks s4 q = blocks s3 q"
      by auto
    have "drop (length xs) (blk s3 h2) = bs @ drop (length xs + length bs) (blk s2 h2)"
      using w(3) l2 by (simp add: min_def)
    then have tk: "take (length bs + length xs) (blk s4 h2) = xs @ bs" "length bs + length xs \<le> length (blk s4 h2)"
      using w4(3) l2 by (simp_all add: add.commute)
    show ?thesis
    proof (cases own)
      case True
      from own [OF True] w(4) w4(4) p(2) obtain t where t: "JS_free p s4 = Some t" "changes s obj t h2" "blk t h2 = blk s4 h2"
        using changes_free [OF w4(2), of p] by auto
      with finish_update [OF a t(2), of "length bs + length xs"] tk True False p w4(1) show ?thesis by (auto simp: st)
    next
      case no: False
      with finish_update [OF a w4(2) tk(2,1), of "Ret ()"] False p w4(1) show ?thesis by (auto simp: st)
    qed
  qed
qed


definition mirrored :: "byte list \<Rightarrow> nat \<Rightarrow> nat \<Rightarrow> byte list \<Rightarrow> bool" where
  "mirrored orig len i buf \<longleftrightarrow> length buf = length orig \<and> (\<forall>k < length orig. buf ! k =
     (if k < i \<or> len - i \<le> k \<and> k < len then orig ! (len - 1 - k) else orig ! k))"

lemma reverse_loop_mirrors:
  "len \<le> length orig \<Longrightarrow> l + i = len div 2 \<Longrightarrow> mirrored orig len i buf \<Longrightarrow>
   \<exists>buf'. reverse_loop l i buf len = Some buf' \<and> mirrored orig len (len div 2) buf'"
proof (induction l arbitrary: i buf)
  case (Suc l)
  have lb: "length buf = length orig" using Suc.prems(3) by (simp add: mirrored_def)
  have i: "i < len" "len - i - 1 < len" "i < len - i - 1 \<or> i = len - i - 1" using Suc.prems(2) by linarith+
  let ?b = "buf[i := buf ! (len - i - 1), len - i - 1 := buf ! i]"
  have "i < length orig" "len - Suc i < length orig" using i Suc.prems(1) by linarith+
  then have st: "reverse_loop (Suc l) i buf len = reverse_loop l (Suc i) ?b len"
    using lb by (simp add: mem_load_def mem_store_def)
  have "mirrored orig len (Suc i) ?b"
    unfolding mirrored_def
  proof (intro conjI allI impI)
    fix k assume k: "k < length orig"
    have v: "buf ! j = (if j < i \<or> len - i \<le> j \<and> j < len then orig ! (len - 1 - j) else orig ! j)" if "j < length orig" for j
      using Suc.prems(3) that by (simp add: mirrored_def)
    have "buf ! i = orig ! i" "buf ! (len - i - 1) = orig ! (len - i - 1)"
      using v [of i] v [of "len - i - 1"] i Suc.prems(1) by auto
    moreover have "len - 1 - i = len - i - 1" "len - 1 - (len - i - 1) = i" using i by linarith+
    ultimately show "?b ! k = (if k < Suc i \<or> len - Suc i \<le> k \<and> k < len then orig ! (len - 1 - k) else orig ! k)"
      using v [OF k] k i lb Suc.prems(1) by (auto simp: nth_list_update less_Suc_eq)
  qed (simp add: lb)
  with Suc.IH [of "Suc i" ?b] Suc.prems(1,2) show ?case by (simp only: st)
qed simp

lemma mirrored_rev:
  assumes "mirrored orig len (len div 2) buf" "len \<le> length orig"
  shows "take len buf = rev (take len orig)"
proof (rule nth_equalityI)
  show "length (take len buf) = length (rev (take len orig))" using assms by (simp add: mirrored_def)
next
  fix k assume k: "k < length (take len buf)"
  then have kl: "k < len" "k < length orig" using assms by (auto simp: mirrored_def)
  have "len - 1 - k = k" if "\<not> k < len div 2" "\<not> len - len div 2 \<le> k" using that kl(1) by linarith
  then show "take len buf ! k = rev (take len orig) ! k"
    using assms kl by (auto simp: mirrored_def rev_nth min_def)
qed

lemma reverse_updates:
  assumes a: "byte_array s obj h bs"
  shows "\<exists>t. ByteArray_reverse obj s = Ret () t \<and> updates s obj (rev bs) t"
proof -
  note ba = byte_array_handle [OF a]
  show ?thesis
  proof (cases "hlength h div 2 = 0")
    case True
    then have "length bs < 2" using ba(3) by simp
    then have "rev bs = bs" by (cases bs rule: remdups_adj.cases) auto
    moreover have "updates s obj bs s"
      using changes_updates [OF _ ba(6,5)] byte_array_pos [OF a] ba(4) by simp
    ultimately show ?thesis using True by (auto simp: ByteArray_reverse_def ba(1))
  next
    case False
    let ?b = "blk s h"
    have "buffer h \<noteq> NULL" using False ba(5) by (auto simp: blk_def split: if_splits)
    then have b: "blocks s (buffer h) = Some ?b"
      using ba(6) by (auto simp: changes_def held_def blk_def)
    have "mirrored ?b (hlength h) 0 ?b" by (auto simp: mirrored_def)
    from reverse_loop_mirrors [OF ba(5) _ this] obtain b' where
      r: "reverse_loop (hlength h div 2) 0 ?b (hlength h) = Some b'" "mirrored ?b (hlength h) (hlength h div 2) b'" by auto
    have l: "length b' = length ?b" using r(2) by (simp add: mirrored_def)
    note ch = changes_poke [OF ba(6) \<open>buffer h \<noteq> NULL\<close> l]
    have "take (hlength h) b' = rev bs" using mirrored_rev [OF r(2) ba(5)] ba(4) by simp
    then have "updates s obj (rev bs) (s\<lparr>blocks := (blocks s)(buffer h \<mapsto> b')\<rparr>)"
      using changes_updates [OF _ ch [THEN conjunct1]] ch byte_array_pos [OF a] ba(5) l by auto
    with False b r(1) show ?thesis by (auto simp: ByteArray_reverse_def ba(1))
  qed
qed

lemma sort_updates:
  assumes a: "byte_array s obj h bs" and q: "length (qsort compare_bytes bs) = length bs"
  shows "\<exists>t. ByteArray_sort qsort obj s = Ret () t \<and> updates s obj (qsort compare_bytes bs) t"
proof -
  note ba = byte_array_handle [OF a]
  have rd: "read_bytes s (buffer h) 0 (hlength h) = Some bs"
    using read_changes [OF ba(6), of 0 "hlength h"] ba(4,5) by simp
  have "0 + length (qsort compare_bytes bs) \<le> length (blk s h)" using q ba(3,5) by simp
  from write_changes [OF ba(6) this] obtain t where
    w: "write_bytes s (buffer h) 0 (qsort compare_bytes bs) = Some t" "changes s obj t h"
      "blk t h = qsort compare_bytes bs @ drop (length bs) (blk s h)" using q by auto
  have "updates s obj (qsort compare_bytes bs) t"
    using changes_updates [OF _ w(2)] byte_array_pos [OF a] w(3) q ba(3) by auto
  with rd w(1) show ?thesis by (auto simp: ByteArray_sort_def ba(1))
qed


section \<open>Slices\<close>

lemma arg2ssize_int:
  assumes "argn < length argv" "argv ! argn = JInt i" "- (2 ^ 63) \<le> i" "i < 2 ^ 63"
  shows "byteThing_arg2ssize e argv argn mn mx d ds s = (if i < mn \<or> mx < i then Throw s else Ret i s)"
  using assms by (simp add: byteThing_arg2ssize_def val2ssize_int)

lemma size_of_nat: "0 \<le> i \<Longrightarrow> i < 2 ^ 64 \<Longrightarrow> size_of_int i = nat i"
  by (simp add: size_of_int_def SIZE_MOD_def)

definition stop_arg :: "int option \<Rightarrow> jsval list" where
  "stop_arg j = (case j of None \<Rightarrow> [] | Some j \<Rightarrow> [JInt j])"

lemma lice_bytes:
  assumes a: "byte_array s obj h bs" and pl: "plenty e" and l: "length bs < 2 ^ 63"
    and i: "0 \<le> i" "i < int (length bs)" and j: "i \<le> j" "j \<le> int (length bs)"
    and that: "jo = Some j \<or> jo = None \<and> j = int (length bs)"
  shows "\<exists>o' t. ByteArray_lice e sz obj (JInt i # stop_arg jo) spliced s = Ret o' t
    \<and> bt_ok t \<and> contents t o' = Some (take (nat (j - i)) (drop (nat i) bs))
    \<and> contents t obj = Some (if spliced then take (nat i) bs @ drop (nat j) bs else bs)"
proof -
  note ba = byte_array_handle [OF a]
  have ok: "bt_ok s" and ho: "handle_of s obj = Some h" using a by (auto simp: byte_array_def)
  obtain ob where ob: "objects s obj = Some ob" "oclass ob = ByteArray_class" "opriv ob = Some h"
    using a ho by (auto simp: byte_array_def handle_of_def)
  let ?xs = "take (nat (j - i)) (drop (nat i) bs)"
  have ne: "bs \<noteq> []" using i by auto
  then have nz: "buffer h \<noteq> NULL" using ba(3,5) by (auto simp: blk_def split: if_splits)
  have ltb: "buffer h < bnext s" using bt_okD(4) [OF ok ho] bt_okD(2) [OF ok, of "buffer h"] nz by (auto simp: handle_ok_def)
  have rd: "read_bytes s (buffer h) (nat i) (nat (j - i)) = Some ?xs"
  proof -
    have le: "nat i + nat (j - i) \<le> hlength h" using i j ba(3) by linarith
    then have "nat i + nat (j - i) \<le> length (blk s h)" using ba(5) by simp
    moreover have "take (nat (j - i)) (drop (nat i) (blk s h)) = ?xs"
      using le by (subst ba(4) [symmetric]) (simp add: take_drop min_def add.commute)
    ultimately show ?thesis using read_changes [OF ba(6)] by simp
  qed
  have "if (buffer h, nat i) = (NULL, 0) then ?xs = replicate (nat (j - i)) 0
      else fst (buffer h, nat i) < bnext s \<and> read_bytes s (fst (buffer h, nat i)) (snd (buffer h, nat i)) (nat (j - i)) = Some ?xs"
    using rd ltb nz by simp
  from fromCArray_creates [OF ok _ this, of ByteArray_class e sz] pl obtain o' s1 where
    new: "byteThing_fromCArray e (buffer h, nat i) (nat (j - i)) NULL ByteArray_class sz False s = Ret o' s1"
      "creates s ByteArray_class ?xs o' s1"
    by (auto simp: gpsee_isByteThingClass_def split: res.splits)
  have k: "objects s1 obj = Some ob" "contents s1 obj = Some bs"
    using creates_keeps [OF ok new(2), of obj] ob a by (auto simp: byte_array_def)
  have ok1: "bt_ok s1" "contents s1 o' = Some ?xs" using new(2) by (auto simp: creates_def)
  have a1: "byte_array s1 obj h bs" using k ok1 ob a by (auto simp: byte_array_def handle_of_def)
  note ba1 = byte_array_handle [OF a1]
  have oo: "o' \<noteq> obj" using new(2) bt_okD(3) [OF ok, of obj] ob by (auto simp: creates_def)
  have oo1: "objects s1 o' \<noteq> None" using ok1(2) by (cases "objects s1 o'") (auto simp: contents_def)
  have start: "byteThing_arg2ssize e (JInt i # stop_arg jo) 0 (- int (hlength h)) (int (hlength h) - 1) False 0 s = Ret i s"
    using arg2ssize_int [of 0 "JInt i # stop_arg jo" i e "- int (hlength h)" "int (hlength h) - 1" False 0 s] i l ba(3) by simp
  have stop: "byteThing_arg2ssize e (JInt i # stop_arg jo) 1 (- int (hlength h)) (int (hlength h)) True (int (hlength h)) s = Ret j s"
    using that arg2ssize_int [of 1 "JInt i # stop_arg jo" j e "- int (hlength h)" "int (hlength h)" True "int (hlength h)" s]
      i j l ba(3) by (auto simp: stop_arg_def byteThing_arg2ssize_def)
  have st: "ByteArray_lice e sz obj (JInt i # stop_arg jo) spliced s =
     (if spliced \<and> i \<noteq> j then
        let newSize = size_of_int (int (hlength h) - (j - i))
        in the_or_fault (Option.bind (read_bytes s1 (buffer h) (nat j) (size_of_int (int (hlength h) - j)))
                           (write_bytes s1 (buffer h) (nat i))) (\<lambda>s.
             case byteArray_requestSize e obj newSize s of
               Ret _ s \<Rightarrow> set_length obj newSize s (Ret o')
             | Throw s \<Rightarrow> set_length obj newSize s (Ret o')
             | Fault \<Rightarrow> Fault | Hang \<Rightarrow> Hang)
      else Ret o' s1)"
    using i j start stop new(1) by (simp add: ByteArray_lice_def ba(1,2) ba1(2) Let_def)
  show ?thesis
  proof (cases "spliced \<and> i \<noteq> j")
    case False
    have "spliced \<Longrightarrow> take (nat i) bs @ drop (nat j) bs = bs" using False by simp
    with False ok1 k(2) show ?thesis by (auto simp: st)
  next
    case True
    let ?n = "nat (int (length bs) - (j - i))" and ?m = "nat (int (length bs) - j)"
    have sz: "size_of_int (int (hlength h) - (j - i)) = ?n" "size_of_int (int (hlength h) - j) = ?m"
      using i j l ba(3) by (auto intro!: trans [OF size_of_nat])
    have b: "nat j + ?m = length bs" "nat i + ?m \<le> length bs" "?n = nat i + ?m" using i j by linarith+
    have "nat j + ?m \<le> length (blk s1 h)" using b ba1(3,5) by simp
    from read_changes [OF ba1(6) this] have rd1: "read_bytes s1 (buffer h) (nat j) ?m = Some (drop (nat j) bs)"
      using ba1(3,4) b(1) by (metis diff_add_inverse drop_take)
    have "nat i + length (drop (nat j) bs) \<le> length (blk s1 h)" using b ba1(3,5) by (simp only: length_drop) linarith
    from write_changes [OF ba1(6) this] obtain s2 where
      w12: "write_bytes s1 (buffer h) (nat i) (drop (nat j) bs) = Some s2" "changes s1 obj s2 h"
      and w0: "blk s2 h = take (nat i) (blk s1 h) @ drop (nat j) bs @ drop (nat i + length (drop (nat j) bs)) (blk s1 h)" by blast
    have ld: "length (drop (nat j) bs) = ?m" using b(1) by simp
    have li: "length (take (nat i) (blk s1 h)) = nat i" using b ba1(3,5) by simp
    have w34: "take (nat i + ?m) (blk s2 h) = take (nat i) (blk s1 h) @ drop (nat j) bs" "nat i + ?m \<le> length (blk s2 h)"
      using ld li by (simp_all add: w0)
    note w = w12 w34
    have "?n \<le> 2 ^ 63" using l b by linarith
    from requestSize_changes [OF pl _ w(2) this] byte_array_pos [OF a1] obtain s3 h3 where
      r: "byteArray_requestSize e obj ?n s2 = Ret () s3" "changes s1 obj s3 h3" "?n \<le> length (blk s3 h3)"
        "\<forall>m\<le>?n. m \<le> length (blk s2 h) \<longrightarrow> take m (blk s3 h3) = take m (blk s2 h)" by auto
    have "take (nat i) (blk s1 h) = take (nat i) bs" using ba1(3,4) b by (metis le_add1 le_trans min.absorb1 take_take)
    then have "take ?n (blk s3 h3) = take (nat i) bs @ drop (nat j) bs"
      using r(4) w(3,4) b ba1(3,5) by simp
    from finish_update [OF a1 r(2,3) this, of "Ret o'"] obtain t where
      t: "set_length obj ?n s3 (Ret o') = Ret o' t" "updates s1 obj (take (nat i) bs @ drop (nat j) bs) t" by blast
    have "ByteArray_lice e sz obj (JInt i # stop_arg jo) spliced s = Ret o' t"
      unfolding st sz Let_def using True rd1 w(1) r(1) t(1) by simp
    with t(2) True ok1(2) oo oo1 show ?thesis by (auto simp: updates_def)
  qed
qed

lemma lice_negative:
  assumes a: "byte_array s obj h bs" and pl: "plenty e" and l: "length bs < 2 ^ 63" and k: "0 < k" "k \<le> int (length bs)"
  shows "\<exists>o' t. ByteArray_lice e sz obj [JInt (- k)] spliced s = Ret o' t \<and> bt_ok t
    \<and> contents t o' = Some [] \<and> contents t obj = Some bs"
proof -
  note ba = byte_array_handle [OF a]
  have ok: "bt_ok s" using a by (auto simp: byte_array_def)
  obtain ob where ob: "objects s obj = Some ob" using a by (auto simp: byte_array_def)
  from fromCArray_creates [OF ok, of ByteArray_class "(NULL, 0)" "[]" 0 e sz] pl obtain o' s1 where
    new: "byteThing_fromCArray e (NULL, 0) 0 NULL ByteArray_class sz False s = Ret o' s1" "creates s ByteArray_class [] o' s1"
    by (auto simp: gpsee_isByteThingClass_def split: res.splits)
  have start: "byteThing_arg2ssize e [JInt (- k)] 0 (- int (hlength h)) (int (hlength h) - 1) False 0 s = Ret (- k) s"
    using arg2ssize_int [of 0 "[JInt (- k)]" "- k" e "- int (hlength h)" "int (hlength h) - 1" False 0 s] k l ba(3) by simp
  have "ByteArray_lice e sz obj [JInt (- k)] spliced s = Ret o' s1"
    using k start new(1) by (simp add: ByteArray_lice_def ba(1,2) Let_def byteThing_arg2ssize_def)
  with new(2) creates_keeps [OF ok new(2), of obj] ob a show ?thesis by (auto simp: creates_def byte_array_def)
qed


section \<open>Programs on an array\<close>

text \<open>Operations with numbers for arguments, how the code runs them and what they mean for a list of
  bytes; \<open>None\<close> is outside the contract.\<close>

datatype array_op =
  OpPush "jsval list" | OpPop | OpShift | OpExtendRight "jsval list" | OpExtendLeft "jsval list"
| OpReverse | OpSort | OpSetLength nat | OpSet nat nat

type_synonym sorter = "(byte \<Rightarrow> byte \<Rightarrow> int) \<Rightarrow> byte list \<Rightarrow> byte list"

definition no_value :: "unit res \<Rightarrow> jsval res" where
  "no_value r = rbind r (\<lambda>_. Ret JVoid)"

fun run_op :: "env \<Rightarrow> sorter \<Rightarrow> ptr \<Rightarrow> array_op \<Rightarrow> bst \<Rightarrow> jsval res" where
  "run_op e q obj (OpPush argv) s = no_value (ByteArray_push e obj argv s)"
| "run_op e q obj OpPop s = ByteArray_pop e obj s"
| "run_op e q obj OpShift s = ByteArray_shift e obj s"
| "run_op e q obj (OpExtendRight argv) s = no_value (byteArray_append e obj argv s)"
| "run_op e q obj (OpExtendLeft argv) s = no_value (byteArray_prepend e obj argv s)"
| "run_op e q obj OpReverse s = no_value (ByteArray_reverse obj s)"
| "run_op e q obj OpSort s = no_value (ByteArray_sort q obj s)"
| "run_op e q obj (OpSetLength n) s = no_value (ByteArray_setLength e obj (JInt (int n)) s)"
| "run_op e q obj (OpSet i c) s = no_value (ByteArray_setProperty e obj (JInt (int i)) (JInt (int c)) s)"

fun run_ops :: "env \<Rightarrow> sorter \<Rightarrow> ptr \<Rightarrow> array_op list \<Rightarrow> bst \<Rightarrow> jsval list res" where
  "run_ops e q obj [] s = Ret [] s"
| "run_ops e q obj (p # ps) s = rbind (run_op e q obj p s) (\<lambda>v s. rbind (run_ops e q obj ps s) (\<lambda>vs. Ret (v # vs)))"

definition number_args :: "(jsval \<Rightarrow> jsdouble option) \<Rightarrow> jsval list \<Rightarrow> byte list option" where
  "number_args f argv =
     (if (\<exists>obj. JObj obj \<in> set argv) \<or> 2 ^ 31 \<le> length argv then None else those (map (elem_byte f) argv))"

fun spec_op :: "(jsval \<Rightarrow> jsdouble option) \<Rightarrow> sorter \<Rightarrow> array_op \<Rightarrow> byte list \<Rightarrow> (byte list \<times> jsval) option" where
  "spec_op f q (OpPush argv) bs = map_option (\<lambda>xs. (bs @ xs, JVoid)) (number_args f argv)"
| "spec_op f q OpPop bs = (if bs = [] then None else Some (butlast bs, JInt (uint (List.last bs))))"
| "spec_op f q OpShift bs = Some (case bs of [] \<Rightarrow> ([], JVoid) | b # bs \<Rightarrow> (bs, JInt (uint b)))"
| "spec_op f q (OpExtendRight argv) bs = map_option (\<lambda>xs. (bs @ xs, JVoid)) (number_args f argv)"
| "spec_op f q (OpExtendLeft argv) bs = map_option (\<lambda>xs. (xs @ bs, JVoid)) (number_args f argv)"
| "spec_op f q OpReverse bs = Some (rev bs, JVoid)"
| "spec_op f q OpSort bs = Some (q compare_bytes bs, JVoid)"
| "spec_op f q (OpSetLength n) bs = Some (take n bs @ replicate (n - length bs) 0, JVoid)"
| "spec_op f q (OpSet i c) bs = (if i < length bs \<and> c < 256 then Some (bs[i := of_nat c], JVoid) else None)"

fun spec_ops :: "(jsval \<Rightarrow> jsdouble option) \<Rightarrow> sorter \<Rightarrow> array_op list \<Rightarrow> byte list \<Rightarrow> (byte list \<times> jsval list) option" where
  "spec_ops f q [] bs = Some (bs, [])"
| "spec_ops f q (p # ps) bs =
     (case spec_op f q p bs of None \<Rightarrow> None
      | Some (bs', v) \<Rightarrow>
          if 2 ^ 63 \<le> length bs' then None
          else map_option (\<lambda>(bs'', vs). (bs'', v # vs)) (spec_ops f q ps bs'))"

lemma number_args_Some:
  assumes "number_args f argv = Some xs"
  shows "those (map (elem_byte f) argv) = Some xs" "\<forall>v\<in>set argv. live_arg s v"
    "sum_list (map (arg_size s) argv) = length argv" "args_bytes f s argv = Some xs" "pushable f argv = xs"
    "None \<notin> set (map (elem_byte f) argv)" "length xs = length argv" "length argv < 2 ^ 31"
proof -
  have no: "\<And>obj. JObj obj \<notin> set argv" and t: "those (map (elem_byte f) argv) = Some xs" and l: "length argv < 2 ^ 31"
    using assms by (auto simp: number_args_def split: if_splits)
  show "those (map (elem_byte f) argv) = Some xs" "length argv < 2 ^ 31" by (fact t, fact l)
  show "\<forall>v\<in>set argv. live_arg s v" using no by (auto simp: live_arg_def split: jsval.splits)
  show "sum_list (map (arg_size s) argv) = length argv"
    using no by (induction argv) (auto simp: arg_size_def split: jsval.splits)
  show "args_bytes f s argv = Some xs"
    using no t by (induction argv arbitrary: xs) (auto simp: arg_bytes_def split: jsval.splits option.splits)
  show "pushable f argv = xs"
    using t by (induction argv arbitrary: xs) (auto simp: pushable_def split: option.splits)
  show "None \<notin> set (map (elem_byte f) argv)"
    using t by (induction argv arbitrary: xs) (auto split: option.splits)
  show "length xs = length argv" using length_those [OF t] by simp
qed

lemma no_arguments:
  assumes a: "byte_array s obj h bs" and pl: "plenty e" and c: "calm f e"
  shows "\<exists>t. byteArray_append e obj [] s = Ret () t \<and> updates s obj bs t"
    "\<exists>t. byteArray_prepend e obj [] s = Ret () t \<and> updates s obj bs t"
proof -
  note ba = byte_array_handle [OF a]
  have ok: "bt_ok s" using byte_array_pos [OF a] by simp
  have "delivers e s (Some []) (buffer_holds e s []) (byteThing_val2bytes e [] False s)"
    using val2bytes_core [OF c ok, of "[]" False] by simp
  then obtain p own t where v: "byteThing_val2bytes e [] False s = Ret (p, 0, own) t" "frame s t"
    using pl by (auto simp: delivers_def buffer_holds_def split: res.splits)
  have "updates s obj bs t"
    using changes_updates [OF ok changes_frame(1) [OF a v(2)]] changes_frame(2) [OF a v(2)] ba(4,5) by simp
  then show "\<exists>t. byteArray_append e obj [] s = Ret () t \<and> updates s obj bs t"
    "\<exists>t. byteArray_prepend e obj [] s = Ret () t \<and> updates s obj bs t"
    using v(1) by (auto simp: byteArray_append_def byteArray_prepend_def ba(1))
qed

lemma int_args:
  "n < SIZE_MOD \<Longrightarrow> byteThing_val2size e (JInt (int n)) t = Ret (Inr n) t"
  "c < 256 \<Longrightarrow> byteThing_val2byte e (JInt (int c)) t = Ret (Inr (of_nat c)) t"
proof -
  show "byteThing_val2size e (JInt (int n)) t = Ret (Inr n) t" if "n < SIZE_MOD"
  proof -
    have "to_size e (Fin (of_nat n)) = n" using that trunc_of_int [of "int n"] by (simp add: to_size_def)
    then show ?thesis by (simp add: byteThing_val2size_def on_number_def ValueToNumber_def is_int_def negative_def)
  qed
  show "byteThing_val2byte e (JInt (int c)) t = Ret (Inr (of_nat c)) t" if "c < 256"
  proof -
    have "to_uchar e (Fin (of_nat c)) = c" using that trunc_of_int [of "int c"] by (simp add: to_uchar_def)
    then show ?thesis by (simp add: byteThing_val2byte_def on_number_def ValueToNumber_def is_int_def Let_def)
  qed
qed

lemma run_op_refines:
  assumes a: "byte_array s obj h bs" and pl: "plenty e" and c: "calm f e" and q: "\<And>l. length (q compare_bytes l) = length l"
    and np: "obj \<noteq> byteArray_proto e" and l: "length bs < 2 ^ 63"
    and sp: "spec_op f q p bs = Some (bs', v)" "length bs' < 2 ^ 63"
  shows "\<exists>t. run_op e q obj p s = Ret v t \<and> updates s obj bs' t"
proof (cases p)
  case (OpPush argv)
  then obtain xs where xs: "number_args f argv = Some xs" "bs' = bs @ xs" "v = JVoid" using sp by auto
  note na = number_args_Some [OF xs(1)]
  have "length bs + length argv \<le> 2 ^ 63" using sp(2) xs(2) na(7) by simp
  from push_updates [OF a pl c this] show ?thesis
    unfolding na(5) xs(2,3) OpPush run_op.simps using na(6) by (auto simp: no_value_def)
next
  case OpPop
  with sp(1) pop_updates [OF a pl] l show ?thesis by (auto split: if_splits)
next
  case OpShift
  show ?thesis
  proof (cases bs)
    case Nil
    with byte_array_handle [OF a] have "ByteArray_shift e obj s = Ret JVoid s" by (simp add: ByteArray_shift_def)
    moreover have "updates s obj [] s"
      using changes_updates [OF _ byte_array_handle(6,5) [OF a]] byte_array_pos [OF a] byte_array_handle(4) [OF a] Nil by simp
    ultimately show ?thesis using sp(1) OpShift Nil by auto
  next
    case (Cons b r)
    with sp(1) shift_updates [OF a pl] l OpShift show ?thesis by auto
  qed
next
  case (OpExtendRight argv)
  then obtain xs where xs: "number_args f argv = Some xs" "bs' = bs @ xs" "v = JVoid" using sp by auto
  note na = number_args_Some [OF xs(1)]
  show ?thesis
  proof (cases "xs = []")
    case True
    then have "argv = []" using na(7) by simp
    with no_arguments(1) [OF a pl c] OpExtendRight xs True show ?thesis by (auto simp: no_value_def)
  next
    case False
    have "argv \<noteq> [JObj obj]" using xs(1) by (auto simp: number_args_def)
    with append_updates [OF a pl c na(2) _ na(4) False] na(3,7,8) sp(2) xs OpExtendRight show ?thesis
      by (auto simp: no_value_def)
  qed
next
  case (OpExtendLeft argv)
  then obtain xs where xs: "number_args f argv = Some xs" "bs' = xs @ bs" "v = JVoid" using sp by auto
  note na = number_args_Some [OF xs(1)]
  show ?thesis
  proof (cases "xs = []")
    case True
    then have "argv = []" using na(7) by simp
    with no_arguments(2) [OF a pl c] OpExtendLeft xs True show ?thesis by (auto simp: no_value_def)
  next
    case False
    with prepend_updates [OF a pl c na(2) _ na(4) False] na(3,7,8) sp(2) xs OpExtendLeft show ?thesis
      by (auto simp: no_value_def)
  qed
next
  case OpReverse
  with sp(1) reverse_updates [OF a] show ?thesis by (auto simp: no_value_def)
next
  case OpSort
  with sp(1) sort_updates [OF a, of q] q show ?thesis by (auto simp: no_value_def)
next
  case (OpSetLength n)
  then have n: "n \<le> 2 ^ 63" using sp by auto
  have "n < SIZE_MOD" using n by (simp add: SIZE_MOD_def)
  from setLength_updates [OF a pl n int_args(1) [OF this]] OpSetLength sp(1) show ?thesis by (auto simp: no_value_def)
next
  case (OpSet i ch)
  then have i: "i < length bs" "ch < 256" "bs' = bs[i := of_nat ch]" "v = JVoid" using sp(1) by (auto split: if_splits)
  have "i < SIZE_MOD" using i(1) l by (simp add: SIZE_MOD_def)
  from setProperty_updates [OF a i(1) np _ int_args(1) [OF this] int_args(2) [OF i(2)]] l OpSet i(3,4) show ?thesis
    by (auto simp: no_value_def)
qed

lemma updates_byte_array:
  "updates s obj bs t \<Longrightarrow> length bs < 2 ^ 63 \<Longrightarrow> \<exists>h. byte_array t obj h bs"
  by (cases "handle_of t obj")
    (auto simp: updates_def byte_array_def SIZE_MOD_def contents_def handle_of_def)

lemma updates_trans: "updates s obj bs t \<Longrightarrow> updates t obj bs' u \<Longrightarrow> updates s obj bs' u"
  by (simp add: updates_def)




section \<open>Growing, appending and cutting\<close>

text \<open>A request for room ends in a buffer that has it and begins with the bytes of the array, unless
  it asks for more than 2^63 bytes: then the loop that rounds the size up to a power of two runs forever.\<close>

theorem requestSize_hangs_iff:
  assumes "byte_array s obj h bs" and "plenty e"
  shows "if capacity h < n \<and> 2 ^ 63 < n then byteArray_requestSize e obj n s = Hang
    else \<exists>t h'. byteArray_requestSize e obj n s = Ret () t \<and> handle_of t obj = Some h' \<and> hlength h' = length bs
      \<and> n \<le> length (blk t h') \<and> take (min n (length bs)) (blk t h') = take n bs"
proof -
  note ba = byte_array_handle [OF assms(1)]
  have tk: "take (min n (length bs)) (blk s h) = take n bs"
    using ba(3,4) by (metis min.commute take_take)
  consider "capacity h < n" "2 ^ 63 < n" | "\<not> capacity h < n" | "n \<le> 2 ^ 63" by linarith
  then show ?thesis
  proof cases
    case 1
    then show ?thesis using round_up_iff [of n] by (simp add: byteArray_requestSize_def ba(2))
  next
    case 2
    have "capacity h \<le> length (blk s h)" using ba(6) by (auto simp: changes_def held_def)
    with 2 tk ba(3) assms(1) show ?thesis by (auto simp: byteArray_requestSize_def byte_array_def ba(2))
  next
    case 3
    from requestSize_changes [OF assms(2) _ ba(6) 3] byte_array_pos [OF assms(1)] obtain t h' where
      t: "byteArray_requestSize e obj n s = Ret () t" "changes s obj t h'" "hlength h' = hlength h" "n \<le> length (blk t h')"
        "\<forall>m \<le> n. m \<le> length (blk s h) \<longrightarrow> take m (blk t h') = take m (blk s h)" by auto
    have "take (min n (length bs)) (blk t h') = take n bs" using t(5) ba(3,5) tk by simp
    moreover have "handle_of t obj = Some h'" using t(2) by (auto simp: changes_def handle_of_def)
    ultimately show ?thesis using t 3 ba(3) by auto
  qed
qed

text \<open>Append puts the bytes of its arguments after those of the array, whatever they are and even when
  the array is among them; only an array appended to itself alone, whose buffer has to move, is read
  after it was freed.\<close>

theorem append_concatenates:
  assumes "byte_array s obj h bs" and "plenty e" and "calm f e" and "\<forall>v\<in>set argv. live_arg s v"
    and "sum_list (map (arg_size s) argv) < 2 ^ 31" and "args_bytes f s argv = Some xs" and "xs \<noteq> []"
    and "length bs + length xs \<le> 2 ^ 63"
  shows "if argv = [JObj obj] \<and> capacity h < length bs + length xs then byteArray_append e obj argv s = Fault
    else \<exists>t. byteArray_append e obj argv s = Ret () t \<and> updates s obj (bs @ xs) t"
  by (rule append_updates [OF assms])

text \<open>A slice from an index to another gives a new array of the bytes between them; splice also cuts
  them out, closing the gap.  From a negative index, both give the empty array and cut nothing.\<close>

theorem slice_and_splice:
  assumes "byte_array s obj h bs" and "plenty e" and "length bs < 2 ^ 63"
    and "- int (length bs) \<le> i" "i < int (length bs)" and "max 0 i \<le> j" "j \<le> int (length bs)"
    and "jo = Some j \<and> 0 \<le> i \<or> jo = None \<and> j = int (length bs)"
  shows "\<exists>o' t. ByteArray_lice e sz obj (JInt i # stop_arg jo) spliced s = Ret o' t \<and> bt_ok t
    \<and> contents t o' = Some (if i < 0 then [] else take (nat (j - i)) (drop (nat i) bs))
    \<and> contents t obj = Some (if spliced \<and> 0 \<le> i then take (nat i) bs @ drop (nat j) bs else bs)"
proof (cases "i < 0")
  case True
  with lice_negative [OF assms(1-3), of "- i" sz spliced] assms(4,8) show ?thesis by (auto simp: stop_arg_def)
next
  case False
  then have "0 \<le> i" "i \<le> j" using assms(6) by simp_all
  from lice_bytes [OF assms(1-3) this(1) assms(5) this(2) assms(7), of jo sz spliced] assms(8) False
  show ?thesis by auto
qed


section \<open>Witnesses\<close>

text \<open>An array of the bytes 5, 9 in a buffer with room for two more.\<close>

definition one_array :: bst where
  "one_array = \<lparr>blocks = (\<lambda>p. if p = 3 then Some [5, 9, 0, 0] else None),
     objects = (\<lambda>p. if p = 4 then Some \<lparr>oclass = ByteArray_class, opriv = Some \<lparr>hlength = 2, buffer = 3,
        memoryOwner = 4, bt_immutable = False, capacity = 4\<rparr>, elems = []\<rparr> else None), bnext = 5\<rparr>"

lemma one_array_facts:
  "byte_array one_array 4 \<lparr>hlength = 2, buffer = 3, memoryOwner = 4, bt_immutable = False, capacity = 4\<rparr> [5, 9]"
proof -
  have "bt_ok one_array"
    by (rule bt_okI) (auto simp: one_array_def handle_of_def handle_ok_def split: if_splits)
  moreover have "contents one_array 4 = Some [5, 9]"
    by (simp add: contents_def one_array_def read_bytes_def load_block_def)
  ultimately show ?thesis by (simp add: byte_array_def) (simp add: one_array_def handle_of_def SIZE_MOD_def)
qed

lemma calm_test_env: "calm (\<lambda>v. None) (test_env (\<lambda>v s. Throw s))"
  by (simp add: calm_def test_env_def)


theorem requestSize_hangs_iff_witness:
  "byteArray_requestSize (test_env (\<lambda>v s. Throw s)) 4 (2 ^ 63 + 1) one_array = Hang"
  using requestSize_hangs_iff [OF one_array_facts plenty_test_env, of "2 ^ 63 + 1"] by simp

theorem append_concatenates_witness:
  "\<exists>t. byteArray_append (test_env (\<lambda>v s. Throw s)) 4 [JObj 4] one_array = Ret () t \<and> updates one_array 4 [5, 9, 5, 9] t"
proof -
  have "args_bytes (\<lambda>v. None) one_array [JObj 4] = Some [5, 9]"
    by (simp add: one_array_def arg_bytes_def contents_def read_bytes_def load_block_def
      gpsee_isByteThingClass_def)
  moreover have "live_arg one_array (JObj 4)" by (simp add: live_arg_def one_array_def)
  moreover have "arg_size one_array (JObj 4) = 2" by (simp add: arg_size_def one_array_def)
  ultimately show ?thesis
    using append_concatenates [OF one_array_facts plenty_test_env calm_test_env, of "[JObj 4]" "[5, 9]"] by simp
qed

theorem slice_and_splice_witness:
  "\<exists>o' t. ByteArray_lice (test_env (\<lambda>v s. Throw s)) 40 4 [JInt 1] True one_array = Ret o' t
    \<and> bt_ok t \<and> contents t o' = Some [9] \<and> contents t 4 = Some [5]"
  using slice_and_splice [OF one_array_facts plenty_test_env [of "\<lambda>v s. Throw s"], of 1 2 None 40 True]
  by (simp add: stop_arg_def)

end
