(* ===== verification/Transcode.thy ===== *)
theory Transcode
  imports ByteThings
begin

text \<open>
  Converting bytes between character sets (modules/binary/bytethings.c), through iconv.

  What iconv knows is a parameter: which conversions there are, and how one character at the start of
  the input is converted in a shift state -- how many bytes it takes, what it becomes and the next
  state, or nothing when it is invalid or incomplete.  The function \<open>iconv\<close> itself is its standard:
  it converts characters while there are any, and stops before one that does not fit.
\<close>

section \<open>Character sets\<close>

type_synonym converter = "nat \<Rightarrow> byte list \<Rightarrow> (nat \<times> byte list \<times> nat) option"

record coder =
  iconv_opens :: "string \<Rightarrow> string \<Rightarrow> bool"
  iconv_char :: "string \<Rightarrow> string \<Rightarrow> converter"
  identity_iconv :: bool

definition to_lower :: "char \<Rightarrow> char" where
  "to_lower c = (if 65 \<le> (of_char c :: nat) \<and> (of_char c :: nat) \<le> 90 then char_of (of_char c + 32 :: nat) else c)"

text \<open>\<open>strcasecmp(a, b) == 0\<close>\<close>

definition strcaseeq :: "string \<Rightarrow> string \<Rightarrow> bool" where
  "strcaseeq a b \<longleftrightarrow> map to_lower a = map to_lower b"

definition DEFAULT_UTF_16_FLAVOUR :: string where "DEFAULT_UTF_16_FLAVOUR = ''utf-16LE''"
definition NEUTRAL_CHARSET :: string where "NEUTRAL_CHARSET = ''utf-8''"

text \<open>A character set is a name, or none for UTF-16.\<close>

definition same_charset :: "string option \<Rightarrow> string option \<Rightarrow> bool" where
  "same_charset a b =
     (case (a, b) of (None, None) \<Rightarrow> True | (Some x, Some y) \<Rightarrow> strcaseeq x y | _ \<Rightarrow> False)"

definition charset_name :: "string option \<Rightarrow> string" where
  "charset_name a = (case a of None \<Rightarrow> DEFAULT_UTF_16_FLAVOUR | Some x \<Rightarrow> x)"

section \<open>iconv\<close>

datatype iconv_error = E2BIG | EILSEQ

text \<open>The error, if any, the bytes consumed, the bytes written and the shift state reached.\<close>

function iconv :: "converter \<Rightarrow> nat \<Rightarrow> byte list \<Rightarrow> nat \<Rightarrow> iconv_error option \<times> nat \<times> byte list \<times> nat" where
  "iconv cv st inp room =
     (if inp = [] then (None, 0, [], st)
      else case cv st inp of
        None \<Rightarrow> (Some EILSEQ, 0, [], st)
      | Some (n, out, st') \<Rightarrow>
          if n = 0 \<or> length inp < n then (Some EILSEQ, 0, [], st)
          else if room < length out then (Some E2BIG, 0, [], st)
          else case iconv cv st' (drop n inp) (room - length out) of
            (r, k, ws, st'') \<Rightarrow> (r, n + k, out @ ws, st''))"
  by pat_completeness auto
termination by (relation "measure (\<lambda>(cv, st, inp, room). length inp)") auto

declare iconv.simps [simp del]

section \<open>From buffer to buffer\<close>

text \<open>The loop: the input is \<open>n\<close> bytes at \<open>inp\<close>, read up to \<open>pos\<close>; the output buffer has
  \<open>allocBytes\<close> bytes, of which those up to \<open>off\<close> are written and \<open>outbytesleft\<close> are left.
  The value \<open>None\<close> is a loop that never ends.\<close>

partial_function (option) transcode_loop ::
    "env \<Rightarrow> converter \<Rightarrow> ptr \<times> nat \<Rightarrow> nat \<Rightarrow> nat \<Rightarrow> nat \<Rightarrow> ptr \<Rightarrow> nat \<Rightarrow> nat \<Rightarrow> nat \<Rightarrow> bst \<Rightarrow>
     (ptr \<times> nat \<times> nat) res option" where
  "transcode_loop e cv inp n st pos outbuf off outbytesleft allocBytes s =
     (case read_bytes s (fst inp) (snd inp + pos) (n - pos) of
        None \<Rightarrow> Some Fault
      | Some bs \<Rightarrow>
          (case iconv cv st bs outbytesleft of
             (r, k, ws, st') \<Rightarrow>
               (case write_bytes s outbuf off ws of
                  None \<Rightarrow> Some Fault
                | Some s \<Rightarrow>
                    (case r of
                       None \<Rightarrow> Some (Ret (outbuf, off + length ws, allocBytes) s)
                     | Some EILSEQ \<Rightarrow> Some (the_or_fault (JS_free outbuf s) Throw)
                     | Some E2BIG \<Rightarrow>
                         (let left = n - (pos + k);
                              newAllocBytes = (allocBytes + left + left div 4 + 32) mod SIZE_MOD
                          in case JS_realloc e outbuf newAllocBytes s of
                               None \<Rightarrow> Some Fault
                             | Some (newBuf, s) \<Rightarrow>
                                 if newBuf = NULL then Some (the_or_fault (JS_free outbuf s) Throw)
                                 else transcode_loop e cv inp n st' (pos + k) newBuf (off + length ws)
                                   ((outbytesleft - length ws + size_sub newAllocBytes allocBytes) mod SIZE_MOD)
                                   newAllocBytes s)))))"

definition transcode_opened ::
    "env \<Rightarrow> converter \<Rightarrow> nat \<Rightarrow> ptr \<times> nat \<Rightarrow> nat \<Rightarrow> bst \<Rightarrow> (ptr \<times> nat) res" where
  "transcode_opened e cv approxChars inp n s =
     (let allocBytes = (approxChars + approxChars div 8 + 32) mod SIZE_MOD;
          (outbuf, s) = JS_malloc e allocBytes s
      in if outbuf = NULL then Throw s
         else case transcode_loop e cv inp n 0 0 outbuf 0 allocBytes allocBytes s of
             None \<Rightarrow> Hang
           | Some r \<Rightarrow> rbind r (\<lambda>(outbuf, len, allocBytes) s.
               if len = allocBytes then Ret (outbuf, len) s
               else the_or_fault (JS_realloc e outbuf len s) (\<lambda>(newBuf, s).
                 Ret (if newBuf = NULL then outbuf else newBuf, len) s)))"

text \<open>One conversion.  An empty input gives no buffer, and equal character sets a copy.\<close>

definition transcode_once ::
    "env \<Rightarrow> coder \<Rightarrow> string option \<Rightarrow> string option \<Rightarrow> ptr \<times> nat \<Rightarrow> nat \<Rightarrow> bst \<Rightarrow> (ptr \<times> nat) res" where
  "transcode_once e c targetCharset sourceCharset inp n s =
     (if n = 0 then Ret (NULL, 0) s
      else if same_charset sourceCharset targetCharset then
        let (p, s) = JS_malloc e n s
        in if p = NULL then Throw s
           else the_or_fault (Option.bind (read_bytes s (fst inp) (snd inp) n) (write_bytes s p 0)) (Ret (p, n))
      else
        let approxChars = (if strcaseeq (charset_name sourceCharset) DEFAULT_UTF_16_FLAVOUR then n div 2 else n)
        in if \<not> iconv_opens c (charset_name targetCharset) (charset_name sourceCharset) then Throw s
           else transcode_opened e
             (iconv_char c (charset_name targetCharset) (charset_name sourceCharset)) approxChars inp n s)"

text \<open>Where iconv lacks a conversion it may have one to and one from UTF-8; this fallback is left out
  where iconv is known not to need it.  A failure of the fallback returns true and gives no buffer: the value
  is \<open>None\<close>.\<close>

definition transcodeBuf_toBuf ::
    "env \<Rightarrow> coder \<Rightarrow> string option \<Rightarrow> string option \<Rightarrow> ptr \<times> nat \<Rightarrow> nat \<Rightarrow> bst \<Rightarrow> (ptr \<times> nat) option res" where
  "transcodeBuf_toBuf e c targetCharset sourceCharset inp n s =
     (let t = charset_name targetCharset; f = charset_name sourceCharset
      in if n \<noteq> 0 \<and> \<not> same_charset sourceCharset targetCharset \<and> \<not> identity_iconv c
           \<and> \<not> iconv_opens c t f \<and> iconv_opens c t NEUTRAL_CHARSET \<and> iconv_opens c NEUTRAL_CHARSET f
         then (case transcode_once e c (Some NEUTRAL_CHARSET) (Some f) inp n s of
                 Ret (ibufp, ibufsz) s \<Rightarrow>
                   (case transcode_once e c (Some t) (Some NEUTRAL_CHARSET) (ibufp, 0) ibufsz s of
                      Ret r s \<Rightarrow> the_or_fault (JS_free ibufp s) (Ret (Some r))
                    | Throw s \<Rightarrow> the_or_fault (JS_free ibufp s) (Ret None)
                    | Fault \<Rightarrow> Fault | Hang \<Rightarrow> Hang)
               | Throw s \<Rightarrow> Ret None s
               | Fault \<Rightarrow> Fault | Hang \<Rightarrow> Hang)
         else rbind (transcode_once e c targetCharset sourceCharset inp n s) (\<lambda>r. Ret (Some r)))"


section \<open>The conversion itself\<close>

text \<open>Converting with no buffer to fill: the bytes, if the input is valid to its end; and how many
  bytes there are before its end or the first fault.\<close>

function converted :: "converter \<Rightarrow> nat \<Rightarrow> byte list \<Rightarrow> byte list option" where
  "converted cv st inp =
     (if inp = [] then Some []
      else case cv st inp of
        None \<Rightarrow> None
      | Some (n, out, st') \<Rightarrow>
          if n = 0 \<or> length inp < n then None
          else map_option ((@) out) (converted cv st' (drop n inp)))"
  by pat_completeness auto
termination by (relation "measure (\<lambda>(cv, st, inp). length inp)") auto

function produced :: "converter \<Rightarrow> nat \<Rightarrow> byte list \<Rightarrow> nat" where
  "produced cv st inp =
     (if inp = [] then 0
      else case cv st inp of
        None \<Rightarrow> 0
      | Some (n, out, st') \<Rightarrow>
          if n = 0 \<or> length inp < n then 0 else length out + produced cv st' (drop n inp))"
  by pat_completeness auto
termination by (relation "measure (\<lambda>(cv, st, inp). length inp)") auto

declare converted.simps [simp del] produced.simps [simp del]

lemma map_option_append:
  "map_option ((@) (as @ bs)) x = map_option ((@) as) (map_option ((@) bs) x)" "map_option ((@) []) x = x"
  by (cases x; simp)+

lemma converted_Nil [simp]: "converted cv st [] = Some []"
  by (simp add: converted.simps)

lemma converted_produced: "converted cv st inp = Some out \<Longrightarrow> produced cv st inp = length out"
proof (induction cv st inp arbitrary: out rule: converted.induct)
  case (1 cv st inp)
  then show ?case
    by (simp add: converted.simps [of cv st inp] produced.simps [of cv st inp] split: if_splits option.splits prod.splits)
      auto
qed

definition iconv_agrees :: "converter \<Rightarrow> nat \<Rightarrow> byte list \<Rightarrow> nat \<Rightarrow> iconv_error option \<times> nat \<times> byte list \<times> nat \<Rightarrow> bool" where
  "iconv_agrees cv st inp room = (\<lambda>(r, k, ws, st').
     k \<le> length inp \<and> length ws \<le> room \<and> produced cv st inp = length ws + produced cv st' (drop k inp)
     \<and> (case r of
          None \<Rightarrow> k = length inp \<and> converted cv st inp = Some ws
        | Some EILSEQ \<Rightarrow> converted cv st inp = None
        | Some E2BIG \<Rightarrow> converted cv st inp = map_option ((@) ws) (converted cv st' (drop k inp))
            \<and> room - length ws < produced cv st' (drop k inp)))"

lemma iconv_spec: "iconv_agrees cv st inp room (iconv cv st inp room)"
proof (induction cv st inp room rule: iconv.induct)
  case (1 cv st inp room)
  note unf = iconv.simps [of cv st inp room] converted.simps [of cv st inp] produced.simps [of cv st inp]
  show ?case
  proof (cases "inp = []")
    case True
    then show ?thesis by (simp add: iconv.simps iconv_agrees_def)
  next
    case False
    show ?thesis
    proof (cases "cv st inp")
      case None
      with False show ?thesis by (simp add: unf iconv_agrees_def)
    next
      case (Some x)
      obtain n out st' where x: "cv st inp = Some (n, out, st')" using Some by (cases x) auto
      show ?thesis
      proof (cases "n = 0 \<or> length inp < n")
        case True
        with False x show ?thesis by (auto simp: unf iconv_agrees_def)
      next
        case ok: False
        show ?thesis
        proof (cases "room < length out")
          case True
          have "produced cv st inp = length out + produced cv st' (drop n inp)"
            using False x ok by (simp add: unf)
          with False x ok True show ?thesis
            by (simp add: iconv.simps [of cv st inp room] iconv_agrees_def map_option_append)
        next
          case False
          obtain r k ws st'' where i: "iconv cv st' (drop n inp) (room - length out) = (r, k, ws, st'')"
            by (metis prod_cases4)
          have IH: "iconv_agrees cv st' (drop n inp) (room - length out) (r, k, ws, st'')"
            using 1 [OF \<open>inp \<noteq> []\<close> x refl refl ok False] i by simp
          have e: "iconv cv st inp room = (r, n + k, out @ ws, st'')"
            "converted cv st inp = map_option ((@) out) (converted cv st' (drop n inp))"
            "produced cv st inp = length out + produced cv st' (drop n inp)"
            using \<open>inp \<noteq> []\<close> x ok False i by (simp_all add: unf)
          have d: "drop (n + k) inp = drop k (drop n inp)" by (simp add: add.commute)
          show ?thesis
            using IH False ok unfolding iconv_agrees_def e d
            by (cases r) (auto split: iconv_error.splits simp: map_option_append add.commute [of n k])
        qed
      qed
    qed
  qed
qed


section \<open>The loop ends with the conversion\<close>

definition converting :: "bst \<Rightarrow> byte list \<Rightarrow> ptr \<Rightarrow> nat \<Rightarrow> nat \<Rightarrow> nat \<Rightarrow> bst \<Rightarrow> bool" where
  "converting s0 acc outbuf off left alloc s \<longleftrightarrow>
     frame s0 s \<and> bnext s0 \<le> outbuf \<and> 0 < outbuf \<and> off = length acc \<and> off + left = alloc
     \<and> (\<exists>b. blocks s outbuf = Some b \<and> length b = alloc \<and> take off b = acc)"

lemma converting_write:
  assumes "converting s0 acc p off left alloc s" and "length ws \<le> left"
  shows "\<exists>s'. write_bytes s p off ws = Some s' \<and> converting s0 (acc @ ws) p (off + length ws) (left - length ws) alloc s'"
proof (cases "ws = []")
  case False
  obtain b where b: "blocks s p = Some b" "length b = alloc" "take off b = acc"
    using assms(1) by (auto simp: converting_def)
  have c: "frame s0 s" "bnext s0 \<le> p" "0 < p" "off = length acc" "off + left = alloc"
    using assms(1) by (auto simp: converting_def)
  let ?b = "take off b @ ws @ drop (off + length ws) b"
  have "write_bytes s p off ws = Some (s\<lparr>blocks := (blocks s)(p \<mapsto> ?b)\<rparr>)"
    using False b c assms(2) by (simp add: write_bytes_def store_block_def)
  moreover have "frame s0 (s\<lparr>blocks := (blocks s)(p \<mapsto> ?b)\<rparr>)" by (rule frame_poke [OF c(1,2) b(1)])
  ultimately show ?thesis using b c assms(2) by (auto simp: converting_def)
qed (use assms in \<open>simp add: write_bytes_def\<close>)

lemma converting_free:
  assumes "converting s0 acc p off left alloc s"
  shows "\<exists>s'. JS_free p s = Some s' \<and> frame s0 s'"
  using assms by (auto simp: converting_def JS_free_def frame_def)

lemma converting_grow:
  assumes "converting s0 acc p off left alloc s" and "alloc \<le> n"
  shows "\<exists>q s'. JS_realloc e p n s = Some (q, s') \<and> (q = NULL \<longrightarrow> s' = s \<and> \<not> plenty e)
    \<and> (q \<noteq> NULL \<longrightarrow> converting s0 acc q off (left + (n - alloc)) n s')"
proof -
  obtain b where b: "blocks s p = Some b" "length b = alloc" "take off b = acc"
    using assms(1) by (auto simp: converting_def)
  have c: "frame s0 s" "bnext s0 \<le> p" "0 < p" "off = length acc" "off + left = alloc"
    using assms(1) by (auto simp: converting_def)
  from frame_realloc [OF c(1) b(1) c(2,3), of e n] obtain q s' where r: "JS_realloc e p n s = Some (q, s')" "frame s0 s'"
    "q = NULL \<longrightarrow> s' = s \<and> (\<not> mem_ok e (bnext s) n \<or> bnext s = 0)"
    "q \<noteq> NULL \<longrightarrow> bnext s0 \<le> q \<and> blocks s' q = Some (take n b @ drop (length b) (new_block e q n))" by blast
  have "bnext s \<noteq> 0" using c(1) b(1) by (auto simp: frame_def)
  then show ?thesis
    using r b c assms(2) by (auto simp: converting_def plenty_def)
qed


lemma read_rest:
  assumes "frame s0 s" "fst inp < bnext s0" "read_bytes s0 (fst inp) (snd inp) n = Some bs" "pos \<le> n"
  shows "read_bytes s (fst inp) (snd inp + pos) (n - pos) = Some (drop pos bs) \<and> length bs = n"
proof (cases "n = 0")
  case False
  then obtain b where b: "blocks s0 (fst inp) = Some b" "snd inp + n \<le> length b" "bs = take n (drop (snd inp) b)"
    using assms(3) by (auto simp: read_bytes_def load_block_def split: option.splits if_splits)
  moreover have "blocks s (fst inp) = Some b" using assms(1,2) b(1) by (simp add: frame_def)
  ultimately show ?thesis
    using assms(4) by (auto simp: read_bytes_def load_block_def drop_take add.commute)
qed (use assms in \<open>simp add: read_bytes_def\<close>)

definition loop_holds :: "bst \<Rightarrow> byte list \<Rightarrow> ptr \<times> nat \<times> nat \<Rightarrow> bst \<Rightarrow> bool" where
  "loop_holds s0 out = (\<lambda>(p, len, alloc) s. len = length out \<and> converting s0 out p len (alloc - len) alloc s)"

lemma transcode_loop_converts:
  assumes fp: "fst inp < bnext s0" "read_bytes s0 (fst inp) (snd inp) n = Some bs"
    and small: "whole + 2 * n + 64 < SIZE_MOD"
  shows "converting s0 acc p off left alloc s \<Longrightarrow> pos \<le> n \<Longrightarrow> whole = length acc + produced cv st (drop pos bs) \<Longrightarrow>
    \<exists>r. transcode_loop e cv inp n st pos p off left alloc s = Some r
      \<and> delivers e s0 (map_option ((@) acc) (converted cv st (drop pos bs))) (loop_holds s0) r"
proof (induction "produced cv st (drop pos bs) - left" arbitrary: acc p off left alloc s pos st rule: less_induct)
  case less
  note c = less.prems(1)
  have fr: "frame s0 s" "off = length acc" "off + left = alloc" using c by (auto simp: converting_def)
  from read_rest [OF fr(1) fp less.prems(2)] have rd: "read_bytes s (fst inp) (snd inp + pos) (n - pos) = Some (drop pos bs)"
    and lb: "length bs = n" by auto
  obtain r k ws st' where i: "iconv cv st (drop pos bs) left = (r, k, ws, st')" by (metis prod_cases4)
  from iconv_spec [of cv st "drop pos bs" left] have ag: "iconv_agrees cv st (drop pos bs) left (r, k, ws, st')" by (simp add: i)
  then have l: "length ws \<le> left" "pos + k \<le> n"
    and pr: "produced cv st (drop pos bs) = length ws + produced cv st' (drop (pos + k) bs)"
    using lb less.prems(2) by (auto simp: iconv_agrees_def add.commute)
  from converting_write [OF c l(1)] obtain s1 where
    w: "write_bytes s p off ws = Some s1" and c1: "converting s0 (acc @ ws) p (off + length ws) (left - length ws) alloc s1" by blast
  from converting_free [OF c1] obtain s2 where f: "JS_free p s1 = Some s2" "frame s0 s2" by blast
  note unf = transcode_loop.simps [of e cv inp n st pos p off left alloc s]
  show ?case
  proof (cases r)
    case None
    with ag have "converted cv st (drop pos bs) = Some ws" by (simp add: iconv_agrees_def)
    moreover have "transcode_loop e cv inp n st pos p off left alloc s = Some (Ret (p, off + length ws, alloc) s1)"
      by (subst unf) (simp add: rd i w None)
    moreover have "loop_holds s0 (acc @ ws) (p, off + length ws, alloc) s1"
    proof -
      have "alloc - (off + length ws) = left - length ws" using fr(3) by simp
      with c1 fr(2) show ?thesis by (simp add: loop_holds_def)
    qed
    moreover have "frame s0 s1" using c1 by (simp add: converting_def)
    ultimately show ?thesis by (simp add: delivers_def)
  next
    case (Some err)
    show ?thesis
    proof (cases err)
      case EILSEQ
      with ag Some have "converted cv st (drop pos bs) = None" by (simp add: iconv_agrees_def)
      moreover have "transcode_loop e cv inp n st pos p off left alloc s = Some (Throw s2)"
        by (subst unf) (simp add: rd i w Some EILSEQ f)
      ultimately show ?thesis using f(2) by (simp add: delivers_def)
    next
      case E2BIG
      define inleft where "inleft = n - (pos + k)"
      define m where "m = alloc + inleft + inleft div 4 + 32"
      have ag2: "converted cv st (drop pos bs) = map_option ((@) ws) (converted cv st' (drop (pos + k) bs))"
        "left - length ws < produced cv st' (drop (pos + k) bs)"
        using ag Some E2BIG by (auto simp: iconv_agrees_def add.commute)
      have "alloc < whole" using less.prems(3) pr ag2(2) l(1) fr by simp
      moreover have "inleft \<le> n" "inleft div 4 \<le> n" by (auto simp: inleft_def)
      ultimately have m: "m < SIZE_MOD" "alloc \<le> m" "m - alloc = inleft + inleft div 4 + 32" "alloc < SIZE_MOD"
        using small by (auto simp: m_def)
      have am: "(alloc + (n - (pos + k)) + (n - (pos + k)) div 4 + 32) mod SIZE_MOD = m"
        using m(1) by (simp add: m_def inleft_def)
      have lm: "(left - length ws + size_sub m alloc) mod SIZE_MOD = left - length ws + (m - alloc)"
        using m fr(3) size_sub_le [OF m(2,1)] by simp
      from converting_grow [OF c1 m(2), of e] obtain q s3 where
        g: "JS_realloc e p m s1 = Some (q, s3)" "q = NULL \<longrightarrow> s3 = s1 \<and> \<not> plenty e"
          "q \<noteq> NULL \<longrightarrow> converting s0 (acc @ ws) q (off + length ws) (left - length ws + (m - alloc)) m s3" by blast
      have st: "transcode_loop e cv inp n st pos p off left alloc s =
          (if q = NULL then Some (the_or_fault (JS_free p s3) Throw)
           else transcode_loop e cv inp n st' (pos + k) q (off + length ws) (left - length ws + (m - alloc)) m s3)"
        by (subst unf) (simp add: rd i w Some E2BIG Let_def am lm g(1))
      show ?thesis
      proof (cases "q = NULL")
        case True
        with g(2) f show ?thesis by (auto simp: st delivers_def)
      next
        case False
        have "produced cv st' (drop (pos + k) bs) - (left - length ws + (m - alloc)) < produced cv st (drop pos bs) - left"
          using pr ag2(2) l(1) m(3) by linarith
        from less.hyps [OF this mp [OF g(3) False] l(2)] less.prems(3) pr obtain r' where
          "transcode_loop e cv inp n st' (pos + k) q (off + length ws) (left - length ws + (m - alloc)) m s3 = Some r'"
          "delivers e s0 (map_option ((@) (acc @ ws)) (converted cv st' (drop (pos + k) bs))) (loop_holds s0) r'"
          by (auto simp: add.assoc)
        with False show ?thesis by (simp add: st ag2(1) map_option_append)
      qed
    qed
  qed
qed



section \<open>What a conversion delivers\<close>

definition holding :: "bst \<Rightarrow> byte list \<Rightarrow> ptr \<times> nat \<Rightarrow> bst \<Rightarrow> bool" where
  "holding s0 out = (\<lambda>(p, len) s. len = length out \<and> holds_bytes s0 s p out)"

definition transcoded :: "coder \<Rightarrow> string option \<Rightarrow> string option \<Rightarrow> byte list \<Rightarrow> byte list option" where
  "transcoded c tgt src bs =
     (if bs = [] \<or> same_charset src tgt then Some bs
      else if iconv_opens c (charset_name tgt) (charset_name src)
      then converted (iconv_char c (charset_name tgt) (charset_name src)) 0 bs else None)"

text \<open>How much a conversion can need, in bytes, has to be within \<open>size_t\<close>.\<close>

definition fits :: "coder \<Rightarrow> string option \<Rightarrow> string option \<Rightarrow> byte list \<Rightarrow> bool" where
  "fits c tgt src bs \<longleftrightarrow>
     produced (iconv_char c (charset_name tgt) (charset_name src)) 0 bs + 2 * length bs + 64 < SIZE_MOD"

text \<open>A conversion that needs no detour, or none at all.\<close>

definition direct :: "coder \<Rightarrow> string option \<Rightarrow> string option \<Rightarrow> byte list \<Rightarrow> bool" where
  "direct c tgt src bs \<longleftrightarrow> same_charset src tgt
     \<or> fits c tgt src bs \<and> (identity_iconv c \<or> iconv_opens c (charset_name tgt) (charset_name src))"

lemma transcode_opened_delivers:
  assumes ok: "bt_ok s0" and fr: "frame s0 s" and fp: "fst inp < bnext s" "read_bytes s (fst inp) (snd inp) n = Some bs"
    and small: "produced cv 0 bs + 2 * n + 64 < SIZE_MOD" and ap: "approx \<le> n" and ns: "bt_ok s"
  shows "delivers e s0 (converted cv 0 bs) (holding s0) (transcode_opened e cv approx inp n s)"
proof -
  let ?a = "approx + approx div 8 + 32"
  have "approx div 8 \<le> approx" by simp
  then have "?a < SIZE_MOD" using small ap by linarith
  then have a: "?a mod SIZE_MOD = ?a" by simp
  obtain p s1 where m: "JS_malloc e ?a s = (p, s1)" by fastforce
  have n0: "0 < bnext s" using bt_okD(1) [OF ns] .
  note mm = frame_malloc [OF fr n0 m] and mk = frame_malloc [OF frame_refl [OF ns] n0 m]
  show ?thesis
  proof (cases "p = NULL")
    case True
    with mm fr have "transcode_opened e cv approx inp n s = Throw s1" "\<not> plenty e" "frame s0 s1"
      by (auto simp: transcode_opened_def a m plenty_def)
    then show ?thesis by (simp add: delivers_def)
  next
    case False
    have "converting s [] p 0 ?a ?a s1"
      using mk False n0 by (auto simp: converting_def)
    from transcode_loop_converts [OF fp small this, of 0 cv 0 e] have
      "\<exists>r. transcode_loop e cv inp n 0 0 p 0 ?a ?a s1 = Some r
        \<and> delivers e s (map_option ((@) []) (converted cv 0 (drop 0 bs))) (loop_holds s) r" by simp
    then obtain r where r: "transcode_loop e cv inp n 0 0 p 0 ?a ?a s1 = Some r"
      and d: "delivers e s (converted cv 0 bs) (loop_holds s) r" by (auto simp: map_option_append)
    have lift: "frame s0 t" if "frame s t" for t using frame_trans [OF fr that] .
    have b: "bnext s0 \<le> bnext s" using fr by (simp add: frame_def)
    have st: "transcode_opened e cv approx inp n s = rbind r (\<lambda>(outbuf, len, allocBytes) s.
               if len = allocBytes then Ret (outbuf, len) s
               else the_or_fault (JS_realloc e outbuf len s) (\<lambda>(newBuf, s).
                 Ret (if newBuf = NULL then outbuf else newBuf, len) s))"
      by (simp only: transcode_opened_def a m Let_def split_def fst_conv snd_conv r option.case if_False False)
    show ?thesis
    proof (cases r)
      case (Throw t)
      with d lift show ?thesis by (auto simp: st delivers_def)
    next
      case (Ret x t)
      obtain q len alloc where x: "x = (q, len, alloc)" by (cases x) auto
      from d Ret x obtain out where o: "converted cv 0 bs = Some out" "frame s t" "len = length out"
        "converting s out q len (alloc - len) alloc t" by (auto simp: delivers_def loop_holds_def)
      obtain c where c: "blocks t q = Some c" "length c = alloc" "take len c = out" and q: "bnext s \<le> q" "0 < q" "len \<le> alloc"
        using o(4) by (auto simp: converting_def)
      show ?thesis
      proof (cases "len = alloc")
        case True
        with c q o b lift [OF o(2)] show ?thesis
          by (auto simp: st Ret x delivers_def holding_def holds_bytes_def)
      next
        case False
        from frame_realloc [OF o(2) c(1) q(1,2), of e len] obtain q' t' where re: "JS_realloc e q len t = Some (q', t')" "frame s t'"
          "q' = NULL \<longrightarrow> t' = t"
          "q' \<noteq> NULL \<longrightarrow> bnext s \<le> q' \<and> blocks t' q' = Some (take len c @ drop (length c) (new_block e q' len))" by blast
        have dn: "drop (length c) (new_block e q' len) = []" using q(3) c(2) by simp
        have "holding s0 out (if q' = NULL then q else q', len) t'"
          using re(3,4) c q(1,3) b o(3) unfolding dn by (auto simp: holding_def holds_bytes_def)
        with re(1) False lift [OF re(2)] o(1) show ?thesis by (auto simp: st Ret x delivers_def)
      qed
    qed (use d in \<open>simp_all add: delivers_def\<close>)
  qed
qed

lemma transcode_once_delivers:
  assumes ok: "bt_ok s0" and fr: "frame s0 s" and fp: "fst inp < bnext s" "read_bytes s (fst inp) (snd inp) n = Some bs"
    and small: "same_charset src tgt \<or> fits c tgt src bs"
  shows "delivers e s0 (transcoded c tgt src bs) (holding s0) (transcode_once e c tgt src inp n s)"
proof -
  have ns: "bt_ok s" using frame_ok [OF ok fr] .
  have n0: "0 < bnext s" using bt_okD(1) [OF ns] .
  have lb: "length bs = n" using read_rest [OF frame_refl [OF ns] fp le0] by simp
  show ?thesis
  proof (cases "n = 0")
    case True
    with fr lb show ?thesis by (auto simp: transcode_once_def delivers_def transcoded_def holding_def holds_bytes_def)
  next
    case False
    then have ne: "bs \<noteq> []" using lb by auto
    show ?thesis
    proof (cases "same_charset src tgt")
      case True
      obtain p s1 where m: "JS_malloc e n s = (p, s1)" by fastforce
      note mm = frame_malloc [OF fr n0 m]
      have unf: "transcode_once e c tgt src inp n s = (if p = NULL then Throw s1
           else the_or_fault (Option.bind (read_bytes s1 (fst inp) (snd inp) n) (write_bytes s1 p 0)) (Ret (p, n)))"
        using False True by (simp add: transcode_once_def m)
      show ?thesis
      proof (cases "p = NULL")
        case True
        with mm show ?thesis by (auto simp: unf delivers_def plenty_def)
      next
        case pn: False
        have fs: "frame s s1" using frame_malloc [OF frame_refl [OF ns] n0 m] by blast
        have rd: "read_bytes s1 (fst inp) (snd inp) n = Some bs"
          using read_rest [OF fs fp le0] by simp
        have b1: "blocks s1 p = Some (new_block e p n)" "bnext s0 \<le> p" "frame s0 s1" using mm pn by auto
        have "write_bytes s1 p 0 bs = Some (s1\<lparr>blocks := (blocks s1)(p \<mapsto> bs)\<rparr>)"
          using b1 lb ne by (simp add: write_bytes_def store_block_def)
        moreover have "frame s0 (s1\<lparr>blocks := (blocks s1)(p \<mapsto> bs)\<rparr>)" using frame_poke [OF b1(3,2,1)] .
        ultimately show ?thesis
          using rd pn True b1 lb by (simp add: unf delivers_def transcoded_def holding_def holds_bytes_def)
      qed
    next
      case diff: False
      let ?t = "charset_name tgt" and ?f = "charset_name src"
      show ?thesis
      proof (cases "iconv_opens c ?t ?f")
        case False
        with diff ne \<open>n \<noteq> 0\<close> fr show ?thesis by (simp add: transcode_once_def delivers_def transcoded_def)
      next
        case True
        have "produced (iconv_char c ?t ?f) 0 bs + 2 * n + 64 < SIZE_MOD" using small lb diff by (simp add: fits_def)
        from transcode_opened_delivers [OF ok fr fp this _ ns, of "if strcaseeq ?f DEFAULT_UTF_16_FLAVOUR then n div 2 else n" e]
        show ?thesis using True diff ne \<open>n \<noteq> 0\<close> by (simp add: transcode_once_def transcoded_def Let_def)
      qed
    qed
  qed
qed

lemma transcodeBuf_delivers:
  assumes "bt_ok s0" "frame s0 s" "fst inp < bnext s" "read_bytes s (fst inp) (snd inp) n = Some bs" "direct c tgt src bs"
  shows "delivers e s0 (transcoded c tgt src bs) (\<lambda>out r s. \<exists>x. r = Some x \<and> holding s0 out x s)
    (transcodeBuf_toBuf e c tgt src inp n s)"
proof -
  have "delivers e s0 (Option.bind (transcoded c tgt src bs) Some) (\<lambda>out r s. \<exists>x. r = Some x \<and> holding s0 out x s)
     (rbind (transcode_once e c tgt src inp n s) (\<lambda>r. Ret (Some r)))"
  proof (rule delivers_bind [OF transcode_once_delivers [OF assms(1-4)]])
    show "same_charset src tgt \<or> fits c tgt src bs" using assms(5) by (auto simp: direct_def)
  qed (auto simp: delivers_def)
  moreover have "transcodeBuf_toBuf e c tgt src inp n s = rbind (transcode_once e c tgt src inp n s) (\<lambda>r. Ret (Some r))"
    using assms(5) by (auto simp: transcodeBuf_toBuf_def Let_def direct_def)
  ultimately show ?thesis by simp
qed



section \<open>Properties\<close>

text \<open>C24: A conversion gives, in a buffer of its own, exactly the bytes that converting the input one
  character at a time gives, whatever the guesses at its size: the loop that grows the buffer ends.  It throws if
  there is no such conversion, if the input is invalid, or if memory runs out; no memory of anyone
  else is touched.\<close>

theorem transcode_converts:
  assumes "bt_ok s" and "fst inp < bnext s" and "read_bytes s (fst inp) (snd inp) n = Some bs" and "direct c tgt src bs"
  shows "delivers e s (transcoded c tgt src bs) (\<lambda>out r s'. \<exists>x. r = Some x \<and> holding s out x s')
    (transcodeBuf_toBuf e c tgt src inp n s)"
  by (rule transcodeBuf_delivers [OF assms(1) frame_refl [OF assms(1)] assms(2-4)])

text \<open>The fallback through UTF-8 composes the two conversions; but when one of them fails it returns
  success, with the exception pending and no buffer.\<close>

theorem fallback_failure_is_silent:
  assumes ok: "bt_ok s" and fp: "fst inp < bnext s" "read_bytes s (fst inp) (snd inp) n = Some bs" and pl: "plenty e"
    and fall: "n \<noteq> 0" "\<not> same_charset src tgt" "\<not> identity_iconv c" "\<not> iconv_opens c (charset_name tgt) (charset_name src)"
      "iconv_opens c (charset_name tgt) NEUTRAL_CHARSET" "iconv_opens c NEUTRAL_CHARSET (charset_name src)"
    and small: "fits c (Some NEUTRAL_CHARSET) (Some (charset_name src)) bs"
      "\<And>mid. transcoded c (Some NEUTRAL_CHARSET) (Some (charset_name src)) bs = Some mid \<Longrightarrow>
         fits c (Some (charset_name tgt)) (Some NEUTRAL_CHARSET) mid"
  shows "\<exists>x s'. transcodeBuf_toBuf e c tgt src inp n s = Ret x s' \<and> frame s s'
    \<and> (case Option.bind (transcoded c (Some NEUTRAL_CHARSET) (Some (charset_name src)) bs)
              (transcoded c (Some (charset_name tgt)) (Some NEUTRAL_CHARSET)) of
         None \<Rightarrow> x = None
       | Some out \<Rightarrow> \<exists>p. x = Some (p, length out) \<and> holds_bytes s s' p out)"
proof -
  let ?t = "Some (charset_name tgt)" and ?f = "Some (charset_name src)" and ?u = "Some NEUTRAL_CHARSET"
  have st: "transcodeBuf_toBuf e c tgt src inp n s =
      (case transcode_once e c ?u ?f inp n s of
                 Ret (ibufp, ibufsz) s \<Rightarrow>
                   (case transcode_once e c ?t ?u (ibufp, 0) ibufsz s of
                      Ret r s \<Rightarrow> the_or_fault (JS_free ibufp s) (Ret (Some r))
                    | Throw s \<Rightarrow> the_or_fault (JS_free ibufp s) (Ret None)
                    | Fault \<Rightarrow> Fault | Hang \<Rightarrow> Hang)
               | Throw s \<Rightarrow> Ret None s
               | Fault \<Rightarrow> Fault | Hang \<Rightarrow> Hang)"
    using fall by (simp add: transcodeBuf_toBuf_def Let_def)
  have d1: "delivers e s (transcoded c ?u ?f bs) (holding s) (transcode_once e c ?u ?f inp n s)"
    by (rule transcode_once_delivers [OF ok frame_refl [OF ok] fp disjI2 [OF small(1)]])
  show ?thesis
  proof (cases "transcode_once e c ?u ?f inp n s")
    case (Throw s1)
    with d1 pl show ?thesis by (auto simp: st delivers_def)
  next
    case (Ret x s1)
    obtain p len where x: "x = (p, len)" by (cases x)
    with d1 Ret obtain mid where mid: "transcoded c ?u ?f bs = Some mid" "frame s s1" "len = length mid" "holds_bytes s s1 p mid"
      by (auto simp: delivers_def holding_def)
    have ok1: "bt_ok s1" using frame_ok [OF ok mid(2)] .
    have pb: "p < bnext s1"
      using mid(4) bt_okD(1) [OF ok1] bt_okD(2) [OF ok1, of p] by (auto simp: holds_bytes_def)
    have rd: "read_bytes s1 p 0 len = Some mid"
      using mid(3,4) by (auto simp: holds_bytes_def read_bytes_def load_block_def)
    have d2: "delivers e s1 (transcoded c ?t ?u mid) (holding s1) (transcode_once e c ?t ?u (p, 0) len s1)"
      by (rule transcode_once_delivers [OF ok1 frame_refl [OF ok1]]) (use pb rd small(2) [OF mid(1)] in simp_all)
    have free: "\<exists>s3. JS_free p s2 = Some s3 \<and> frame s s3 \<and> (\<forall>q. q = NULL \<or> bnext s1 \<le> q \<longrightarrow> blocks s3 q = blocks s2 q)"
      if "frame s1 s2" for s2
    proof (cases "p = NULL")
      case True
      then show ?thesis using frame_trans [OF mid(2) that] by (simp add: JS_free_def)
    next
      case False
      then have "blocks s2 p \<noteq> None" "bnext s \<le> p" using mid(4) pb that by (auto simp: holds_bytes_def frame_def)
      then show ?thesis using frame_trans [OF mid(2) that] pb False by (auto simp: JS_free_def frame_def)
    qed
    show ?thesis
    proof (cases "transcode_once e c ?t ?u (p, 0) len s1")
      case (Throw s2)
      with d2 pl have "transcoded c ?t ?u mid = None" "frame s1 s2" by (auto simp: delivers_def)
      with free Throw Ret mid(1) show ?thesis by (fastforce simp: st x)
    next
      case (Ret y s2)
      obtain q m where y: "y = (q, m)" by (cases y)
      with d2 Ret obtain out where out: "transcoded c ?t ?u mid = Some out" "frame s1 s2" "m = length out" "holds_bytes s1 s2 q out"
        by (auto simp: delivers_def holding_def)
      from free [OF out(2)] obtain s3 where s3: "JS_free p s2 = Some s3" "frame s s3"
        "\<forall>q. q = NULL \<or> bnext s1 \<le> q \<longrightarrow> blocks s3 q = blocks s2 q" by blast
      have "bnext s \<le> bnext s1" using mid(2) by (simp add: frame_def)
      then have "holds_bytes s s3 q out" using out(4) s3(3) by (auto simp: holds_bytes_def)
      then show ?thesis
        using s3 Ret \<open>transcode_once e c ?u ?f inp n s = Ret x s1\<close> mid(1) out by (simp add: st x y)
    qed (use d2 in \<open>simp_all add: delivers_def\<close>)
  qed (use d1 in \<open>simp_all add: delivers_def\<close>)
qed


section \<open>Witnesses\<close>

text \<open>Latin-1 to UTF-16 and back; a character set that goes only through UTF-8, and only for bytes below 128.\<close>

definition test_coder :: coder where
  "test_coder = \<lparr>iconv_opens = (\<lambda>t f. (t, f) \<in> {(''utf-16LE'', ''latin1''), (''latin1'', ''utf-16LE''), (''utf-8'', ''x''), (''y'', ''utf-8'')}),
     iconv_char = (\<lambda>t f st bs.
       if t = ''utf-16LE'' then Some (1, [hd bs, 0], 0)
       else if t = ''latin1'' then (case bs of a # b # bs \<Rightarrow> (if b = 0 then Some (2, [a], 0) else None) | _ \<Rightarrow> None)
       else if hd bs < 128 then Some (1, [hd bs], 0) else None),
     identity_iconv = False\<rparr>"

theorem transcode_converts_witness:
  "delivers (test_env (\<lambda>v s. Throw s)) one_string (Some [104, 0, 255, 0, 104, 0])
     (\<lambda>out r s'. \<exists>x. r = Some x \<and> holding one_string out x s')
     (transcodeBuf_toBuf (test_env (\<lambda>v s. Throw s)) test_coder None (Some ''latin1'') (3, 0) 3 one_string)"
proof -
  have rd: "read_bytes one_string 3 0 3 = Some [104, 255, 104]"
    by (simp add: one_string_def read_bytes_def load_block_def)
  have tr: "transcoded test_coder None (Some ''latin1'') [104, 255, 104] = Some [104, 0, 255, 0, 104, 0]"
    "fits test_coder None (Some ''latin1'') [104, 255, 104]"
    by (simp_all add: transcoded_def fits_def same_charset_def charset_name_def DEFAULT_UTF_16_FLAVOUR_def test_coder_def
        converted.simps produced.simps SIZE_MOD_def)
  have op: "iconv_opens test_coder (charset_name None) (charset_name (Some ''latin1''))"
    by (simp add: test_coder_def charset_name_def DEFAULT_UTF_16_FLAVOUR_def)
  have lt: "fst (3, 0) < bnext one_string" by (simp add: one_string_def)
  have "direct test_coder None (Some ''latin1'') [104, 255, 104]" using tr(2) op by (simp add: direct_def)
  from transcode_converts [OF one_string_facts(1) lt _ this, of 3] rd
  show ?thesis by (simp add: tr(1))
qed

theorem fallback_failure_is_silent_witness:
  "\<exists>s'. transcodeBuf_toBuf (test_env (\<lambda>v s. Throw s)) test_coder (Some ''y'') (Some ''x'') (3, 0) 3 one_string = Ret None s'"
proof -
  have rd: "read_bytes one_string 3 0 3 = Some [104, 255, 104]"
    by (simp add: one_string_def read_bytes_def load_block_def)
  have tr: "transcoded test_coder (Some NEUTRAL_CHARSET) (Some ''x'') [104, 255, 104] = None"
    "fits test_coder (Some NEUTRAL_CHARSET) (Some ''x'') [104, 255, 104]"
    by (simp_all add: transcoded_def fits_def same_charset_def charset_name_def NEUTRAL_CHARSET_def test_coder_def
        converted.simps produced.simps SIZE_MOD_def strcaseeq_def)
  have "\<not> same_charset (Some ''x'') (Some ''y'')" by (simp add: same_charset_def strcaseeq_def) code_simp
  moreover have "\<not> identity_iconv test_coder \<and> \<not> iconv_opens test_coder ''y'' ''x''
      \<and> iconv_opens test_coder ''y'' NEUTRAL_CHARSET \<and> iconv_opens test_coder NEUTRAL_CHARSET ''x''"
    by (simp add: test_coder_def NEUTRAL_CHARSET_def)
  moreover have "3 < bnext one_string" by (simp add: one_string_def)
  ultimately show ?thesis
    using fallback_failure_is_silent [OF one_string_facts(1) _ _ plenty_test_env, of "(3, 0)" 3 "[104, 255, 104]"
      "Some ''x''" "Some ''y''" test_coder "\<lambda>v s. Throw s"] rd tr
    by (simp add: charset_name_def) blast
qed

end
