(* ===== verification/ByteString.thy ===== *)
theory ByteString
  imports Transcode ByteArray
begin

text \<open>
  Byte things and strings: the constructors, decoding and transcoding methods of both classes, and the
  methods of the immutable ByteString (modules/binary/ByteString.c, ByteArray.c, bytethings.c).

  What the JavaScript engine does is a parameter: the string a value is converted to, the bytes it
  encodes characters as when no character set is given, and the value of an uninitialised variable.
\<close>

section \<open>Strings\<close>

type_synonym jschar = "16 word"

record engine =
  to_string :: "jsval \<Rightarrow> jschar list option"
  encode_chars :: "jschar list \<Rightarrow> byte list option"
  stray :: ptr

text \<open>Characters in memory, low byte first; \<open>JS_GetStringBytes\<close> drops the high bytes.\<close>

definition char_bytes :: "jschar \<Rightarrow> byte list" where
  "char_bytes c = [ucast c, ucast (drop_bit 8 c)]"

fun chars_of :: "byte list \<Rightarrow> jschar list" where
  "chars_of (a # b # bs) = (ucast a OR push_bit 8 (ucast b)) # chars_of bs"
| "chars_of _ = []"

definition GetStringBytes :: "jschar list \<Rightarrow> string" where
  "GetStringBytes cs = map (\<lambda>c. char_of (unat c mod 256)) cs"

definition gpsee_isFalsy :: "jsval \<Rightarrow> bool" where
  "gpsee_isFalsy v = (case v of
       JString str \<Rightarrow> str = '''' | JObj p \<Rightarrow> p = NULL | JVoid \<Rightarrow> True | JBool b \<Rightarrow> \<not> b | JInt i \<Rightarrow> i = 0 | _ \<Rightarrow> False)"

text \<open>The characters of a string are in a block of the engine.\<close>

definition GetStringChars :: "jschar list \<Rightarrow> bst \<Rightarrow> ptr \<times> bst" where
  "GetStringChars cs s =
     (bnext s, s\<lparr>blocks := (blocks s)(bnext s \<mapsto> concat (map char_bytes cs)), bnext := Suc (bnext s)\<rparr>)"

text \<open>\<open>bufp\<close> is what the caller's variable for the buffer holds; an empty string leaves it alone.\<close>

definition transcodeString_toBuf ::
    "env \<Rightarrow> coder \<Rightarrow> engine \<Rightarrow> jschar list \<Rightarrow> string option \<Rightarrow> ptr \<Rightarrow> bst \<Rightarrow> (ptr \<times> nat) option res" where
  "transcodeString_toBuf e c j cs charset bufp s =
     (if cs = [] then Ret (Some (bufp, 0)) s
      else case charset of
        None \<Rightarrow>
          (case encode_chars j cs of
             None \<Rightarrow> Throw s
           | Some bs \<Rightarrow>
               (let (p, s) = JS_malloc e (length bs) s
                in if p = NULL then Throw s
                   else the_or_fault (write_bytes s p 0 bs) (Ret (Some (p, length bs)))))
      | Some name \<Rightarrow>
          if 2 ^ 63 \<le> length cs then Throw s
          else
            let (q, s) = GetStringChars cs s
            in transcodeBuf_toBuf e c (Some name) (Some DEFAULT_UTF_16_FLAVOUR) (q, 0) (2 * length cs) s)"

section \<open>Constructors\<close>

text \<open>The string cases of both constructors: a value converted to a string, in a character set if the
  second argument is not falsy.\<close>

definition construct_from_string ::
    "env \<Rightarrow> coder \<Rightarrow> engine \<Rightarrow> jsval list \<Rightarrow> ptr \<Rightarrow> bst \<Rightarrow> (ptr \<times> nat) option res" where
  "construct_from_string e c j argv bufp s =
     (case to_string j (argv ! 0) of
        None \<Rightarrow> Throw s
      | Some cs \<Rightarrow>
          transcodeString_toBuf e c j cs
            (if length argv = 2 \<and> \<not> gpsee_isFalsy (argv ! 1) then map_option GetStringBytes (to_string j (argv ! 1)) else None)
            bufp s)"

text \<open>The buffer, its length, and whether the new byte thing may keep it.  \<open>obj\<close> is an object
  argument: a byte thing to copy or an array of numbers; any other is left to the string case.\<close>

definition construct_from_object ::
    "env \<Rightarrow> ptr \<Rightarrow> bst \<Rightarrow> (bst \<Rightarrow> ((ptr \<times> nat) \<times> nat \<times> bool) res) \<Rightarrow> ((ptr \<times> nat) \<times> nat \<times> bool) res" where
  "construct_from_object e obj s otherwise =
     get_object obj s (\<lambda>ob.
       if oclass ob = ByteArray_class \<or> oclass ob = ByteString_class then
         get_handle obj s (\<lambda>h. Ret ((buffer h, 0), hlength h, False) s)
       else if oclass ob = Array_class then
         rbind (copyJSArray_toBuf e obj 0 (NULL, 0) 0 s) (\<lambda>(buf, len, _). Ret (buf, len, True))
       else otherwise s)"

definition from_string ::
    "env \<Rightarrow> coder \<Rightarrow> engine \<Rightarrow> jsval list \<Rightarrow> ptr \<Rightarrow> bst \<Rightarrow> ((ptr \<times> nat) \<times> nat \<times> bool) res" where
  "from_string e c j argv bufp s =
     rbind (construct_from_string e c j argv bufp s) (\<lambda>r s.
       case r of None \<Rightarrow> Fault | Some (p, len) \<Rightarrow> Ret ((p, 0), len, True) s)"

definition ByteArray_Constructor ::
    "env \<Rightarrow> coder \<Rightarrow> engine \<Rightarrow> nat \<Rightarrow> ptr \<Rightarrow> jsval list \<Rightarrow> bst \<Rightarrow> ptr res" where
  "ByteArray_Constructor e c j sz obj argv s =
     rbind
       (case argv of
          [] \<Rightarrow> Ret ((NULL, 0), 0, False) s
        | [JObj o1] \<Rightarrow> construct_from_object e o1 s (from_string e c j argv (stray j))
        | [v] \<Rightarrow>
            on_number e v s (from_string e c j argv (stray j)) (\<lambda>d s.
              if is_int d (int (to_size e d)) then Ret ((NULL, 0), to_size e d, False) s
              else from_string e c j argv (stray j) s)
        | [_, _] \<Rightarrow> from_string e c j argv (stray j) s
        | _ \<Rightarrow> Throw s)
       (\<lambda>(buf, len, stealBuffer) s. byteThing_fromCArray e buf len obj ByteArray_class sz stealBuffer s)"

definition ByteString_Constructor ::
    "env \<Rightarrow> coder \<Rightarrow> engine \<Rightarrow> nat \<Rightarrow> ptr \<Rightarrow> jsval list \<Rightarrow> bst \<Rightarrow> ptr res" where
  "ByteString_Constructor e c j sz obj argv s =
     rbind
       (case argv of
          [] \<Rightarrow> Ret ((NULL, 0), 0, False) s
        | [JObj o1] \<Rightarrow> construct_from_object e o1 s (from_string e c j argv NULL)
        | [_] \<Rightarrow> from_string e c j argv NULL s
        | [_, _] \<Rightarrow> from_string e c j argv NULL s
        | _ \<Rightarrow> Throw s)
       (\<lambda>(buf, len, stealBuffer) s.
          rbind (byteThing_fromCArray e buf len obj ByteString_class sz stealBuffer s) (\<lambda>instance s.
            get_handle instance s (\<lambda>hnd. Ret instance (set_handle instance (hnd\<lparr>bt_immutable := True\<rparr>) s))))"

definition ByteArray_Finalize :: "ptr \<Rightarrow> bst \<Rightarrow> bst option" where
  "ByteArray_Finalize = byteThing_Finalize"

definition ByteString_Finalize :: "ptr \<Rightarrow> bst \<Rightarrow> bst option" where
  "ByteString_Finalize = byteThing_Finalize"

section \<open>Between byte things and strings\<close>

text \<open>A failed conversion of a character set to a string is a NULL that \<open>JS_GetStringBytes\<close>
  reads.\<close>

definition byteThing_toByteThing ::
    "env \<Rightarrow> coder \<Rightarrow> engine \<Rightarrow> nat \<Rightarrow> ptr \<Rightarrow> jsval list \<Rightarrow> jsclass \<Rightarrow> bst \<Rightarrow> ptr res" where
  "byteThing_toByteThing e c j sz self argv classOfResult s =
     (if classOfResult \<noteq> ByteString_class \<and> classOfResult \<noteq> ByteArray_class then Throw s
      else get_object self s (\<lambda>ob.
        if oclass ob \<noteq> ByteString_class \<and> oclass ob \<noteq> ByteArray_class then Throw s
        else case opriv ob of
          None \<Rightarrow> Throw s
        | Some hnd \<Rightarrow>
            if length argv \<noteq> 0 \<and> length argv \<noteq> 2 then Throw s
            else
              let mustBeNew = (classOfResult = ByteArray_class \<or> oclass ob = ByteArray_class);
                  convert = (\<lambda>targetCharset sourceCharset.
                    rbind (transcodeBuf_toBuf e c targetCharset sourceCharset (buffer hnd, 0) (hlength hnd) s) (\<lambda>r s.
                      case r of None \<Rightarrow> Fault
                      | Some (newBuf, newBufLength) \<Rightarrow>
                          byteThing_fromCArray e (newBuf, 0) newBufLength NULL classOfResult sz True s))
              in if \<not> (mustBeNew \<or> length argv = 2 \<and> argv ! 0 \<noteq> argv ! 1) then Ret self s
                 else if argv = [] then convert None None
                 else
                   the_or_fault (to_string j (argv ! 0)) (\<lambda>src.
                   the_or_fault (to_string j (argv ! 1)) (\<lambda>tgt.
                     if mustBeNew \<or> \<not> strcaseeq (GetStringBytes src) (GetStringBytes tgt)
                     then convert (Some (GetStringBytes tgt)) (Some (GetStringBytes src))
                     else Ret self s))))"

definition byteThing_decodeToString ::
    "env \<Rightarrow> coder \<Rightarrow> engine \<Rightarrow> ptr \<Rightarrow> jsval list \<Rightarrow> jsclass \<Rightarrow> bst \<Rightarrow> jschar list res" where
  "byteThing_decodeToString e c j obj argv clasp s =
     get_object obj s (\<lambda>ob.
       if \<not> gpsee_isByteThingClass (oclass ob) then Throw s
       else rbind (byteThing_getHandle obj (Some clasp) s) (\<lambda>hnd s.
         if hlength hnd = 0 then Ret [] s
         else if 2 \<le> length argv then Throw s
         else
           let convert = (\<lambda>sourceCharset.
             rbind (transcodeBuf_toBuf e c None sourceCharset (buffer hnd, 0) (hlength hnd) s) (\<lambda>r s.
               case r of None \<Rightarrow> Fault
               | Some (buf, len) \<Rightarrow>
                   the_or_fault (read_bytes s buf 0 (len div 2 * 2)) (\<lambda>bs.
                     if \<not> mem_ok e (bnext s) (len div 2 * 2) then Throw s else Ret (chars_of bs) s)))
           in if argv = [] then convert None
              else the_or_fault (to_string j (argv ! 0)) (\<lambda>src. convert (Some (GetStringBytes src)))))"


section \<open>Indices into a ByteString\<close>

definition byteString_rangeCheck :: "bt_handle \<Rightarrow> int \<Rightarrow> bst \<Rightarrow> unit res" where
  "byteString_rangeCheck bs index s =
     (if index < 0 then Throw s else if int (hlength bs) \<le> index then Throw s else Ret () s)"

definition byteString_retrieveAndCheckIndexArgument :: "env \<Rightarrow> bt_handle \<Rightarrow> jsval \<Rightarrow> bst \<Rightarrow> int res" where
  "byteString_retrieveAndCheckIndexArgument e bs val s =
     (case val of
        JInt i \<Rightarrow> Ret i s
      | _ \<Rightarrow>
          rbind (ValueToNumber e val s) (\<lambda>d s.
            if \<not> is_int d (to_ssize e d) then Throw s
            else rbind (byteString_rangeCheck bs (to_ssize e d) s) (\<lambda>_. Ret (to_ssize e d))))"

text \<open>An index counted from the end when negative, which is how \<open>slice\<close> reads both of its
  arguments and \<open>substr\<close> its first.\<close>

definition from_end :: "nat \<Rightarrow> jsdouble \<Rightarrow> nat" where
  "from_end len d = (case d of Fin r \<Rightarrow> if of_nat len + r > 0 then nat (trunc (of_nat len + r)) else 0 | _ \<Rightarrow> 0)"

definition slice_index :: "env \<Rightarrow> nat \<Rightarrow> jsdouble \<Rightarrow> nat" where
  "slice_index e len d =
     (let i = (if negative d then from_end len d else if d = NaN then 0 else to_size e d)
      in if len < i then len else i)"

definition ByteString_slice :: "env \<Rightarrow> nat \<Rightarrow> ptr \<Rightarrow> jsval list \<Rightarrow> bst \<Rightarrow> ptr res" where
  "ByteString_slice e sz obj argv s =
     (if argv = [] then Throw s
      else rbind (instance_handle ByteString_class obj s) (\<lambda>_ s.
        rbind (ValueToNumber e (argv ! 0) s) (\<lambda>d s.
          get_handle obj s (\<lambda>hnd.
            let start = slice_index e (hlength hnd) d
            in rbind (if length argv = 1 then Ret (hlength hnd) s
                      else rbind (ValueToNumber e (argv ! 1) s) (\<lambda>d s.
                        get_handle obj s (\<lambda>hnd. Ret (slice_index e (hlength hnd) d) s))) (\<lambda>stop s.
                 let stop = (if stop < start then start else stop)
                 in get_handle obj s (\<lambda>hnd.
                      byteThing_fromCArray e (buffer hnd, start) (stop - start) NULL ByteString_class sz False s))))))"

text \<open>The second argument of \<open>substr\<close> is held against the length of the whole string only.\<close>

definition not_positive :: "jsdouble \<Rightarrow> bool" where
  "not_positive d = (case d of Fin r \<Rightarrow> r \<le> 0 | PInf \<Rightarrow> False | _ \<Rightarrow> True)"

definition ByteString_substr :: "env \<Rightarrow> nat \<Rightarrow> ptr \<Rightarrow> jsval list \<Rightarrow> bst \<Rightarrow> ptr res" where
  "ByteString_substr e sz obj argv s =
     rbind (instance_handle ByteString_class obj s) (\<lambda>_ s.
       if argv = [] then Throw s
       else rbind (ValueToNumber e (argv ! 0) s) (\<lambda>d s.
         get_handle obj s (\<lambda>hnd.
           let start = (if d = NaN then 0 else if negative d then from_end (hlength hnd) d else to_size e d)
           in rbind (if d \<noteq> NaN \<and> \<not> negative d \<and> hlength hnd \<le> start then Ret 0 s
                     else if length argv = 1 then Ret (size_sub (hlength hnd) start) s
                     else rbind (ValueToNumber e (argv ! 1) s) (\<lambda>d s.
                       if not_positive d then Ret 0 s
                       else get_handle obj s (\<lambda>hnd.
                         Ret (if hlength hnd < to_size e d then hlength hnd else to_size e d) s))) (\<lambda>len s.
                get_handle obj s (\<lambda>hnd.
                  byteThing_fromCArray e (buffer hnd, start) len NULL ByteString_class sz False s)))))"

text \<open>An index that is not a whole number in range counts as zero.\<close>

definition substring_index :: "env \<Rightarrow> nat \<Rightarrow> jsdouble \<Rightarrow> nat" where
  "substring_index e len d =
     (let i = (if is_int d (int (to_size e d)) then to_size e d else 0)
      in if len < i then len else i)"

definition ByteString_substring :: "env \<Rightarrow> nat \<Rightarrow> ptr \<Rightarrow> jsval list \<Rightarrow> bst \<Rightarrow> ptr res" where
  "ByteString_substring e sz obj argv s =
     rbind (instance_handle ByteString_class obj s) (\<lambda>_ s.
       if argv = [] then Throw s
       else rbind (ValueToNumber e (argv ! 0) s) (\<lambda>d s.
         get_handle obj s (\<lambda>hnd.
           let start = substring_index e (hlength hnd) d
           in rbind (if length argv = 1 then Ret (hlength hnd) s
                     else rbind (ValueToNumber e (argv ! 1) s) (\<lambda>d s.
                       get_handle obj s (\<lambda>hnd. Ret (substring_index e (hlength hnd) d) s))) (\<lambda>stop s.
                let (start, stop) = (if 2 \<le> length argv \<and> stop < start then (stop, start) else (start, stop))
                in get_handle obj s (\<lambda>hnd.
                     byteThing_fromCArray e (buffer hnd, start) (size_sub stop start) NULL ByteString_class sz False s)))))"

section \<open>Splitting\<close>

text \<open>Storing the next element of an array.\<close>

definition JS_SetElement :: "env \<Rightarrow> ptr \<Rightarrow> nat \<Rightarrow> jsval \<Rightarrow> bst \<Rightarrow> bst option" where
  "JS_SetElement e arr i v s =
     (case objects s arr of
        None \<Rightarrow> None
      | Some ob \<Rightarrow>
          if \<not> mem_ok e arr i then None
          else Some (s\<lparr>objects := (objects s)(arr \<mapsto> ob\<lparr>elems :=
            (if i < length (elems ob) then (elems ob)[i := v]
             else elems ob @ replicate (i - length (elems ob)) JVoid @ [v])\<rparr>)\<rparr>))"

text \<open>The loop runs up to and including the end; there it takes what is left, but when nothing is left
  it still looks at the byte after the last.\<close>

function split_loop ::
    "env \<Rightarrow> nat \<Rightarrow> ptr \<Rightarrow> byte \<Rightarrow> nat \<Rightarrow> ptr \<Rightarrow> nat \<Rightarrow> nat \<Rightarrow> nat \<Rightarrow> nat \<Rightarrow> bst \<Rightarrow> unit res" where
  "split_loop e sz buf delimiter l retval i chunkstart chunklen chunknum s =
     (if l < i then Ret () s
      else the_or_fault
        (if i = l \<and> 0 < chunklen then Some True else map_option (\<lambda>b. b = delimiter) (read_byte s buf i)) (\<lambda>here.
          if here then
            rbind (byteThing_fromCArray e (buf, chunkstart) chunklen NULL ByteString_class sz False s) (\<lambda>p s.
              case JS_SetElement e retval chunknum (JObj p) s of
                None \<Rightarrow> Throw s
              | Some s \<Rightarrow> split_loop e sz buf delimiter l retval (i + 1) (i + 1) 0 (chunknum + 1) s)
          else split_loop e sz buf delimiter l retval (i + 1) chunkstart (chunklen + 1) chunknum s))"
  by pat_completeness auto
termination by (relation "measure (\<lambda>(e, sz, buf, d, l, retval, i, cs, cl, cn, s). Suc l - i)") auto

declare split_loop.simps [simp del]

text \<open>The length is kept in an \<open>int\<close>.\<close>

definition ByteString_split :: "env \<Rightarrow> nat \<Rightarrow> ptr \<Rightarrow> jsval list \<Rightarrow> bst \<Rightarrow> ptr res" where
  "ByteString_split e sz obj argv s =
     rbind (instance_handle ByteString_class obj s) (\<lambda>hnd s.
       let buf = buffer hnd
       in if length argv < 1 \<or> 2 < length argv then Throw s
          else case argv ! 0 of
            JObj _ \<Rightarrow> Throw s
          | v \<Rightarrow>
              rbind (ValueToNumber e v s) (\<lambda>d s.
                if \<not> is_int d (int (to_uchar e d)) then Throw s
                else
                  let (retval, s) = JS_NewObject e Array_class s
                  in if retval = NULL then Throw s
                     else get_handle obj s (\<lambda>hnd.
                       let l = sint (word_of_nat (hlength hnd) :: 32 word)
                       in if l < 0 then Ret retval s
                          else rbind (split_loop e sz buf (of_nat (to_uchar e d)) (nat l) retval 0 0 0 0 s)
                                 (\<lambda>_. Ret retval))))"



section \<open>Cutting a ByteString\<close>

lemma byte_thing_instance: "byte_thing s obj c h bs \<Longrightarrow> instance_handle c obj s = Ret h s"
  by (auto simp: byte_thing_def instance_handle_def get_object_def)

lemma byte_thing_handle_of: "byte_thing s obj c h bs \<Longrightarrow> handle_of s obj = Some h"
  by (auto simp: byte_thing_def handle_of_def)

lemma byte_thing_read:
  assumes "bt_ok s" and b: "byte_thing s obj c h bs" and "i + n \<le> length bs"
  shows "(if (buffer h, i) = (NULL, 0) then take n (drop i bs) = replicate n 0
    else buffer h < bnext s \<and> read_bytes s (buffer h) i n = Some (take n (drop i bs)))"
proof (cases "bs = []")
  case True
  have "buffer h < bnext s"
    using bt_okD(4) [OF assms(1) byte_thing_handle_of [OF b]] bt_okD(2) [OF assms(1), of "buffer h"] bt_okD(1) [OF assms(1)]
    by (auto simp: handle_ok_def split: if_splits)
  with True assms(3) show ?thesis by (simp add: read_bytes_def)
next
  case False
  from byte_thing_block [OF b False] obtain k where k: "blocks s (buffer h) = Some k" "length bs \<le> length k" "take (length bs) k = bs"
    by blast
  have "take n (drop i bs) = take n (drop i k)"
    using assms(3) by (subst k(3) [symmetric]) (simp add: drop_take min_def)
  with k assms(3) bt_okD(2) [OF assms(1), of "buffer h"] show ?thesis
    by (auto simp: read_bytes_def load_block_def)
qed

lemma cut_creates:
  assumes "bt_ok s" and b: "byte_thing s obj c h bs" and "plenty e" and i: "i \<le> j" "j \<le> length bs"
  shows "\<exists>o' t. byteThing_fromCArray e (buffer h, i) (j - i) NULL ByteString_class sz False s = Ret o' t
    \<and> creates s ByteString_class (take (j - i) (drop i bs)) o' t"
proof -
  have "i + (j - i) \<le> length bs" using i by simp
  from byte_thing_read [OF assms(1) b this]
    fromCArray_creates [OF assms(1), of ByteString_class "(buffer h, i)" "take (j - i) (drop i bs)" "j - i" e sz] assms(3)
  show ?thesis by (auto simp: gpsee_isByteThingClass_def split: res.splits if_splits)
qed

lemma to_size_int: "0 \<le> i \<Longrightarrow> i < 2 ^ 64 \<Longrightarrow> to_size e (Fin (of_int i)) = nat i"
  by (simp add: to_size_def SIZE_MOD_def)

definition index_of :: "nat \<Rightarrow> int \<Rightarrow> nat" where
  "index_of len i = (if i < 0 then nat (int len + i) else min (nat i) len)"

lemma slice_index_int:
  assumes "len < 2 ^ 63" "i < 2 ^ 63"
  shows "slice_index e len (Fin (of_int i)) = index_of len i"
proof (cases "i < 0")
  case True
  have "(of_nat len :: rat) + of_int i = of_int (int len + i)" by simp
  then have "from_end len (Fin (of_int i)) = nat (int len + i)"
    unfolding from_end_def by (simp only: jsdouble.case trunc_of_int of_int_0_less_iff) auto
  then show ?thesis
    using True by (auto simp: slice_index_def negative_def index_of_def Let_def)
next
  case False
  with to_size_int [of i e] assms show ?thesis
    by (auto simp: slice_index_def negative_def index_of_def min_def)
qed

lemma ValueToNumber_int: "ValueToNumber e (JInt i) s = Ret (Fin (of_int i)) s"
  by (simp add: ValueToNumber_def)

lemma index_of_le: "index_of len i \<le> len"
  by (auto simp: index_of_def)

definition slice_of :: "byte list \<Rightarrow> int \<Rightarrow> int option \<Rightarrow> byte list" where
  "slice_of bs i jo =
     (let a = index_of (length bs) i; b = (case jo of None \<Rightarrow> length bs | Some j \<Rightarrow> index_of (length bs) j)
      in take (b - a) (drop a bs))"

lemma slice_runs:
  assumes b: "byte_thing s obj ByteString_class h bs" and "i < 2 ^ 63" "\<forall>j. jo = Some j \<longrightarrow> j < 2 ^ 63"
  shows "ByteString_slice e sz obj (JInt i # stop_arg jo) s =
    (let a = index_of (length bs) i; z = max a (case jo of None \<Rightarrow> length bs | Some j \<Rightarrow> index_of (length bs) j)
     in byteThing_fromCArray e (buffer h, a) (z - a) NULL ByteString_class sz False s)"
proof -
  have l: "length bs < 2 ^ 63" "hlength h = length bs" using b byte_thing_length [OF b] by (auto simp: byte_thing_def)
  show ?thesis
    using assms(2,3) l(1)
    by (auto simp: ByteString_slice_def byte_thing_instance [OF b] byte_thing_handle(2) [OF b] ValueToNumber_int stop_arg_def
        slice_index_int l(2) Let_def max_def split: option.splits)
qed

text \<open>\<open>slice\<close> from a whole number to another, counted from the end when negative and cut off at
  both ends, gives a new ByteString of the bytes between, none when they are in the wrong order, and
  changes nothing else.\<close>

theorem slice_is_list_slice:
  assumes "bt_ok s" and "byte_thing s obj ByteString_class h bs" and "plenty e" and "i < 2 ^ 63" and "\<forall>j. jo = Some j \<longrightarrow> j < 2 ^ 63"
  shows "\<exists>o' t. ByteString_slice e sz obj (JInt i # stop_arg jo) s = Ret o' t
    \<and> creates s ByteString_class (slice_of bs i jo) o' t"
proof -
  let ?a = "index_of (length bs) i" and ?b = "case jo of None \<Rightarrow> length bs | Some j \<Rightarrow> index_of (length bs) j"
  have "?a \<le> max ?a ?b" "max ?a ?b \<le> length bs"
    using index_of_le by (auto split: option.splits)
  from cut_creates [OF assms(1-3) this, of sz] show ?thesis
    unfolding slice_runs [OF assms(2,4,5)] Let_def slice_of_def by (cases "?b \<le> ?a") (auto simp: max_def)
qed

text \<open>\<open>substring\<close> of two whole numbers is \<open>slice\<close> of them in order, the negative
  ones taken for zero: the same result in the same state.\<close>

theorem substring_is_slice:
  assumes "byte_thing s obj ByteString_class h bs" and "i < 2 ^ 63" and "j < 2 ^ 63"
  shows "ByteString_substring e sz obj [JInt i, JInt j] s
    = ByteString_slice e sz obj [JInt (max 0 (min i j)), JInt (max 0 (max i j))] s"
proof -
  have b: "byte_thing s obj ByteString_class h bs" by (rule assms(1))
  have l: "length bs < 2 ^ 63" "hlength h = length bs" using b byte_thing_length [OF b] by (auto simp: byte_thing_def)
  have ix: "substring_index e (length bs) (Fin (of_int k)) = index_of (length bs) (max 0 k)" if "k < 2 ^ 63" for k
  proof (cases "0 \<le> k")
    case True
    with to_size_int [of k e] that show ?thesis by (auto simp: substring_index_def is_int_def index_of_def min_def)
  next
    case False
    then have "\<not> is_int (Fin (of_int k)) (int n)" for n by (auto simp: is_int_def)
    with False show ?thesis by (auto simp: substring_index_def index_of_def)
  qed
  have mono: "index_of (length bs) x \<le> index_of (length bs) y" if "0 \<le> x" "x \<le> y" for x y
    using that by (auto simp: index_of_def)
  have sl: "ByteString_slice e sz obj [JInt x, JInt y] s =
      byteThing_fromCArray e (buffer h, index_of (length bs) x) (index_of (length bs) y - index_of (length bs) x) NULL ByteString_class sz False s"
    if "0 \<le> x" "x \<le> y" "y < 2 ^ 63" for x y
    using slice_runs [OF b, of x "Some y" e sz] mono [OF that(1,2)] that by (simp add: stop_arg_def max_absorb2 Let_def)
  have ss: "size_sub x y = x - y" if "y \<le> x" "x \<le> length bs" for x y
    using that l(1) size_sub_le [of y x] by (simp add: SIZE_MOD_def)
  let ?i = "index_of (length bs) (max 0 i)" and ?j = "index_of (length bs) (max 0 j)"
  have "ByteString_substring e sz obj [JInt i, JInt j] s =
      byteThing_fromCArray e (buffer h, min ?i ?j) (max ?i ?j - min ?i ?j) NULL ByteString_class sz False s"
  proof (cases "?j < ?i")
    case True
    then have "size_sub ?i ?j = ?i - ?j" using ss index_of_le by simp
    with True show ?thesis
      by (simp add: ByteString_substring_def byte_thing_instance [OF b] byte_thing_handle(2) [OF b] ValueToNumber_int
        l(2) ix [OF assms(2)] ix [OF assms(3)])
  next
    case False
    then have "size_sub ?j ?i = ?j - ?i" using ss index_of_le by simp
    with False show ?thesis
      by (simp add: ByteString_substring_def byte_thing_instance [OF b] byte_thing_handle(2) [OF b] ValueToNumber_int
        l(2) ix [OF assms(2)] ix [OF assms(3)] min_absorb1 max_absorb2 Let_def)
  qed
  moreover have mm: "max 0 (min i j) = min (max 0 i) (max 0 j)" "max 0 (max i j) = max (max 0 i) (max 0 j)" by auto
  moreover have "index_of (length bs) (min (max 0 i) (max 0 j)) = min ?i ?j" "index_of (length bs) (max (max 0 i) (max 0 j)) = max ?i ?j"
  proof -
    define x y where "x = max 0 i" and "y = max 0 j"
    have p: "0 \<le> x" "0 \<le> y" by (simp_all add: x_def y_def)
    have "index_of (length bs) (min x y) = min (index_of (length bs) x) (index_of (length bs) y)
      \<and> index_of (length bs) (max x y) = max (index_of (length bs) x) (index_of (length bs) y)"
      using mono [OF p(1), of y] mono [OF p(2), of x] by (cases "x \<le> y") (simp_all add: min_absorb1 min_absorb2 max_absorb1 max_absorb2)
    then show "index_of (length bs) (min (max 0 i) (max 0 j)) = min ?i ?j"
      "index_of (length bs) (max (max 0 i) (max 0 j)) = max ?i ?j" by (simp_all add: x_def y_def)
  qed
  moreover have "0 \<le> min (max 0 i) (max 0 j)" "min (max 0 i) (max 0 j) \<le> max (max 0 i) (max 0 j)"
    "max (max 0 i) (max 0 j) < 2 ^ 63" using assms(2,3) by auto
  ultimately show ?thesis unfolding mm by (simp only: sl)
qed


lemma fromCArray_faults:
  assumes "plenty e" "bt_ok s" "gpsee_isByteThingClass clasp" "buf \<noteq> (NULL, 0)" "fst buf < bnext s"
    "read_bytes s (fst buf) (snd buf) len = None"
  shows "byteThing_fromCArray e buf len NULL clasp sz False s = Fault"
proof -
  have ne: "len \<noteq> 0" using assms(6) by (simp add: read_bytes_def split: if_splits)
  obtain b s2 where m: "JS_malloc e len (s\<lparr>bnext := Suc (bnext s)\<rparr>) = (b, s2)" by fastforce
  then have b: "b \<noteq> NULL" and s2: "\<And>p. p < bnext s \<Longrightarrow> blocks s2 p = blocks s p"
    using assms(1) by (auto simp: JS_malloc_def plenty_def Let_def)
  have "read_bytes s2 (fst buf) (snd buf) len = None"
    using s2 [OF assms(5)] assms(6) ne by (simp add: read_bytes_def)
  then show ?thesis
    using assms(1,3,4) ne b m by (simp add: byteThing_fromCArray_def plenty_def Let_def)
qed

text \<open>\<open>substr\<close> of a start within the string gives that many bytes from it; but the count is
  held only against the length of the whole string, so whenever it reaches past the end it copies memory
  behind the buffer.\<close>

theorem substr_overreads_iff:
  assumes "bt_ok s" and "byte_thing s obj ByteString_class h bs" and "plenty e" and "blocks s (buffer h) = Some bs"
    and "0 \<le> i" and "i < int (length bs)" and "0 < n" and "n < 2 ^ 63"
  shows "if int (length bs) < i + n then
        (if i = 0 then \<exists>o' t. ByteString_substr e sz obj [JInt i, JInt n] s = Ret o' t \<and> creates s ByteString_class bs o' t
         else ByteString_substr e sz obj [JInt i, JInt n] s = Fault)
      else \<exists>o' t. ByteString_substr e sz obj [JInt i, JInt n] s = Ret o' t
        \<and> creates s ByteString_class (take (nat n) (drop (nat i) bs)) o' t"
proof -
  note b = assms(2) and ok = assms(1)
  have l: "length bs < 2 ^ 63" "hlength h = length bs" using b byte_thing_length [OF b] by (auto simp: byte_thing_def)
  have sz: "to_size e (Fin (of_int i)) = nat i" "to_size e (Fin (of_int n)) = nat n"
    using assms(5-8) l(1) by (auto intro!: to_size_int)
  let ?n = "min (nat n) (length bs)"
  have nd: "\<not> negative (Fin (of_int i))" "\<not> not_positive (Fin (of_int n))"
    using assms(5,7) by (simp_all add: negative_def not_positive_def)
  have st: "ByteString_substr e sz obj [JInt i, JInt n] s
      = byteThing_fromCArray e (buffer h, nat i) ?n NULL ByteString_class sz False s"
    using assms(5,6) nd
    by (auto simp: ByteString_substr_def byte_thing_instance [OF b] byte_thing_handle(2) [OF b] ValueToNumber_int
        l(2) sz Let_def min_def)
  show ?thesis
  proof (cases "nat i + ?n \<le> length bs")
    case True
    from cut_creates [OF ok b assms(3), of "nat i" "nat i + ?n" sz] True
    have "\<exists>o' t. ByteString_substr e sz obj [JInt i, JInt n] s = Ret o' t
      \<and> creates s ByteString_class (take ?n (drop (nat i) bs)) o' t" by (simp add: st)
    moreover have "i = 0" if "int (length bs) < i + n" using True that assms(5-7) by (auto simp: min_def split: if_splits)
    moreover have "take ?n (drop (nat i) bs) = take (nat n) (drop (nat i) bs)" by (cases "nat n \<le> length bs") simp_all
    moreover have "i = 0 \<Longrightarrow> int (length bs) < i + n \<Longrightarrow> take (nat n) (drop (nat i) bs) = bs" by simp
    ultimately show ?thesis by auto
  next
    case False
    then have "int (length bs) < i + n" "i \<noteq> 0" using assms(5-7) by auto
    moreover have "byteThing_fromCArray e (buffer h, nat i) ?n NULL ByteString_class sz False s = Fault"
    proof (rule fromCArray_faults [OF assms(3) ok])
      show "fst (buffer h, nat i) < bnext s" using bt_okD(2) [OF ok, of "buffer h"] assms(4) by auto
      show "read_bytes s (fst (buffer h, nat i)) (snd (buffer h, nat i)) ?n = None"
        using False assms(4,6,7) by (auto simp: read_bytes_def load_block_def)
      show "(buffer h, nat i) \<noteq> (NULL, 0)" using \<open>i \<noteq> 0\<close> assms(5) by simp
    qed (simp add: gpsee_isByteThingClass_def)
    ultimately show ?thesis by (simp add: st)
  qed
qed


section \<open>Splitting a ByteString\<close>

text \<open>The pieces between the delimiters.\<close>

fun pieces :: "byte \<Rightarrow> byte list \<Rightarrow> byte list \<Rightarrow> byte list list" where
  "pieces d acc [] = (if acc = [] then [] else [acc])"
| "pieces d acc (b # bs) = (if b = d then acc # pieces d [] bs else pieces d (acc @ [b]) bs)"

fun joined :: "byte \<Rightarrow> byte list list \<Rightarrow> byte list" where
  "joined d [] = []"
| "joined d [p] = p"
| "joined d (p # ps) = p @ d # joined d ps"

lemma pieces_Nil: "pieces d acc bs = [] \<Longrightarrow> acc = [] \<and> bs = []"
  by (induction d acc bs rule: pieces.induct) (auto split: if_splits)

lemma joined_pieces: "bs = [] \<or> List.last bs \<noteq> d \<Longrightarrow> joined d (pieces d acc bs) = acc @ bs"
proof (induction d acc bs rule: pieces.induct)
  case (2 d acc b bs)
  show ?case
  proof (cases "b = d")
    case True
    with 2(3) have "bs \<noteq> []" "List.last bs \<noteq> d" by (auto split: if_splits)
    with 2(1) [OF True] pieces_Nil [of d "[]" bs] True show ?thesis by (cases "pieces d [] bs") auto
  next
    case False
    with 2(2) [OF False] 2(3) show ?thesis by (cases "bs = []") auto
  qed
qed simp

lemma pieces_no_delimiter: "d \<notin> set acc \<Longrightarrow> p \<in> set (pieces d acc bs) \<Longrightarrow> d \<notin> set p"
  by (induction d acc bs rule: pieces.induct) (auto split: if_splits)

text \<open>The state of the loop: a store that has grown by the new pieces and the array, which lists them.\<close>

definition splitting :: "bst \<Rightarrow> ptr \<Rightarrow> byte list list \<Rightarrow> bst \<Rightarrow> bool" where
  "splitting s0 arr ps s \<longleftrightarrow>
     bt_ok s \<and> bnext s0 \<le> arr \<and> bnext s0 \<le> bnext s
     \<and> (\<forall>p < bnext s0. blocks s p = blocks s0 p \<and> objects s p = objects s0 p)
     \<and> (\<exists>os. objects s arr = Some \<lparr>oclass = Array_class, opriv = None, elems = map JObj os\<rparr>
          \<and> map (contents s) os = map Some ps
          \<and> (\<forall>o1 \<in> set os. o1 \<noteq> arr \<and> (\<exists>ob. objects s o1 = Some ob \<and> oclass ob = ByteString_class)))"

lemma SetElement_at_end:
  assumes "plenty e" "bt_ok s" "objects s arr = Some \<lparr>oclass = Array_class, opriv = None, elems = xs\<rparr>" "i = length xs"
    and s'_def: "s' = s\<lparr>objects := (objects s)(arr \<mapsto> \<lparr>oclass = Array_class, opriv = None, elems = xs @ [v]\<rparr>)\<rparr>"
  shows "JS_SetElement e arr i v s = Some s'" "bt_ok s'" "contents s' = contents s" "handle_of s' = handle_of s"
proof -
  show "JS_SetElement e arr i v s = Some s'"
    using assms by (simp add: JS_SetElement_def plenty_def s'_def)
  show h: "handle_of s' = handle_of s"
    using assms(3) by (auto simp: handle_of_def s'_def fun_eq_iff)
  show "contents s' = contents s"
  proof
    fix x
    have "blocks s' = blocks s" by (simp add: s'_def)
    then have "read_bytes s' p 0 n = read_bytes s p 0 n" for p n by (simp add: read_bytes_def)
    moreover have "contents r x = Option.bind (handle_of r x) (\<lambda>h. read_bytes r (buffer h) 0 (hlength h))" for r
      by (simp add: contents_def handle_of_def)
    ultimately show "contents s' x = contents s x" by (simp add: h)
  qed
  show "bt_ok s'"
  proof (rule bt_okI)
    show "handle_ok s' k" if "handle_of s' p = Some k" for p k
      using bt_okD(4) [OF assms(2), of p k] that unfolding h by (simp add: handle_ok_def s'_def)
    show "buffer k' \<noteq> buffer k" if "objects s' p = Some ob" "oclass ob = ByteArray_class" "opriv ob = Some k" "p \<noteq> q"
      "handle_of s' q = Some k'" "buffer k \<noteq> NULL" for p q ob k k'
    proof -
      have "p \<noteq> arr" using that(1-3) by (auto simp: s'_def)
      then have "objects s p = Some ob" using that(1) by (simp add: s'_def)
      from bt_okD(5) [OF assms(2) this that(2-4)] that(5,6) h show ?thesis by simp
    qed
  qed (use bt_okD(1,2,3) [OF assms(2)] assms(3) in \<open>fastforce simp: s'_def split: if_splits\<close>)+
qed


lemma split_takes:
  assumes pl: "plenty e" and sp: "splitting s0 arr ps s" and n: "chunknum = length ps"
    and buf: "buf \<noteq> NULL" "buf < bnext s0" "read_bytes s0 buf i len = Some xs"
  shows "\<exists>p t u. byteThing_fromCArray e (buf, i) len NULL ByteString_class sz False s = Ret p t
    \<and> JS_SetElement e arr chunknum (JObj p) t = Some u \<and> splitting s0 arr (ps @ [xs]) u"
proof -
  obtain os where ok: "bt_ok s" and a: "bnext s0 \<le> arr" "bnext s0 \<le> bnext s"
    and fr: "\<forall>p < bnext s0. blocks s p = blocks s0 p \<and> objects s p = objects s0 p"
    and os: "objects s arr = Some \<lparr>oclass = Array_class, opriv = None, elems = map JObj os\<rparr>"
      "map (contents s) os = map Some ps"
      "\<forall>o1 \<in> set os. o1 \<noteq> arr \<and> (\<exists>ob. objects s o1 = Some ob \<and> oclass ob = ByteString_class)"
    using sp by (auto simp: splitting_def)
  have "read_bytes s buf i len = Some xs" "buf < bnext s" using buf fr a by (auto simp: read_bytes_def)
  with fromCArray_creates [OF ok, of ByteString_class "(buf, i)" xs len e sz] buf(1) pl obtain p t where
    new: "byteThing_fromCArray e (buf, i) len NULL ByteString_class sz False s = Ret p t" "creates s ByteString_class xs p t"
    by (auto simp: gpsee_isByteThingClass_def split: res.splits)
  have kp: "\<And>q. objects s q \<noteq> None \<Longrightarrow> objects t q = objects s q \<and> contents t q = contents s q"
    using creates_keeps [OF ok new(2)] by blast
  have pt: "bnext s \<le> p" "bt_ok t" "contents t p = Some xs" "bnext s \<le> bnext t"
    "\<exists>h. objects t p = Some \<lparr>oclass = ByteString_class, opriv = Some h, elems = []\<rparr>"
    "\<And>q. q < bnext s \<Longrightarrow> blocks t q = blocks s q \<and> objects t q = objects s q"
    using new(2) by (auto simp: creates_def)
  have "arr < bnext s" using bt_okD(3) [OF ok, of arr] os(1) by simp
  then have ta: "objects t arr = Some \<lparr>oclass = Array_class, opriv = None, elems = map JObj os\<rparr>" "p \<noteq> arr"
    using pt(1,6) os(1) by auto
  have "length (map (contents s) os) = length (map Some ps)" by (simp only: os(2))
  then have ln: "chunknum = length (map JObj os)" by (simp add: n)
  define u where "u = t\<lparr>objects := (objects t)(arr \<mapsto> \<lparr>oclass = Array_class, opriv = None, elems = map JObj os @ [JObj p]\<rparr>)\<rparr>"
  note se = SetElement_at_end [OF pl pt(2) ta(1) ln u_def]
  have "map (contents u) os = map (contents s) os" using os(3) kp by (auto simp: se(3))
  then have "map (contents u) (os @ [p]) = map Some (ps @ [xs])" using os(2) pt(3) by (simp add: se(3))
  moreover have "\<forall>o1 \<in> set (os @ [p]). o1 \<noteq> arr \<and> (\<exists>ob. objects u o1 = Some ob \<and> oclass ob = ByteString_class)"
    using os(3) kp pt(5) ta(2) by (auto simp: u_def)
  moreover have "objects u arr = Some \<lparr>oclass = Array_class, opriv = None, elems = map JObj (os @ [p])\<rparr>" by (simp add: u_def)
  moreover have "\<forall>q < bnext s0. blocks u q = blocks s0 q \<and> objects u q = objects s0 q" "bnext s0 \<le> bnext u"
    using fr pt(4,6) a by (auto simp: u_def)
  ultimately have "splitting s0 arr (ps @ [xs]) u" unfolding splitting_def using se(2) a(1) by blast
  with new(1) se(1) show ?thesis by blast
qed

lemma split_loop_pieces:
  assumes pl: "plenty e" and buf: "buf \<noteq> NULL" "buf < bnext s0" "blocks s0 buf = Some k" "length bs \<le> length k" "take (length bs) k = bs"
  shows "splitting s0 arr ps s \<Longrightarrow> chunknum = length ps \<Longrightarrow> chunkstart + chunklen = i \<Longrightarrow> i \<le> length bs \<Longrightarrow>
    i = length bs \<longrightarrow> (0 < chunklen \<longleftrightarrow> List.last bs \<noteq> d) \<Longrightarrow> bs \<noteq> [] \<Longrightarrow>
    if List.last bs \<noteq> d
    then \<exists>t. split_loop e sz buf d (length bs) arr i chunkstart chunklen chunknum s = Ret () t
      \<and> splitting s0 arr (ps @ pieces d (take chunklen (drop chunkstart bs)) (drop i bs)) t
    else length k = length bs \<longrightarrow> split_loop e sz buf d (length bs) arr i chunkstart chunklen chunknum s = Fault"
proof (induction "length bs - i" arbitrary: i chunkstart chunklen chunknum ps s)
  case 0
  then have i: "i = length bs" by simp
  note unf = split_loop.simps [of e sz buf d "length bs" arr i chunkstart chunklen chunknum s]
  have fr: "blocks s buf = Some k" using 0(2) buf by (auto simp: splitting_def)
  show ?case
  proof (cases "List.last bs = d")
    case True
    then have "chunklen = 0" using 0(6) i by simp
    with True fr i show ?thesis by (subst unf) (auto simp: read_byte_def mem_load_def)
  next
    case False
    then have cl: "0 < chunklen" using 0(6) i by simp
    have rd: "read_bytes s0 buf chunkstart chunklen = Some (take chunklen (drop chunkstart bs))"
      using buf 0(4) i by (auto simp: read_bytes_def load_block_def) (metis drop_take add.commute add_diff_cancel_left' min.idem take_take)
    from split_takes [OF pl 0(2,3) buf(1,2) rd] obtain p t u where
      "byteThing_fromCArray e (buf, chunkstart) chunklen NULL ByteString_class sz False s = Ret p t"
      "JS_SetElement e arr chunknum (JObj p) t = Some u"
      "splitting s0 arr (ps @ [take chunklen (drop chunkstart bs)]) u" by blast
    moreover have "split_loop e sz buf d (length bs) arr (i + 1) (i + 1) 0 (chunknum + 1) u = Ret () u"
      by (subst split_loop.simps) (simp add: i)
    moreover have "pieces d (take chunklen (drop chunkstart bs)) (drop i bs) = [take chunklen (drop chunkstart bs)]"
      using i cl 0(4) by auto
    ultimately show ?thesis using cl i False by (subst unf) simp
  qed
next
  case (Suc m)
  then have i: "i < length bs" by simp
  note unf = split_loop.simps [of e sz buf d "length bs" arr i chunkstart chunklen chunknum s]
  have fr: "blocks s buf = Some k" using Suc.prems(1) buf by (auto simp: splitting_def)
  have "k ! i = bs ! i" using buf(5) i by (metis nth_take)
  then have rb: "read_byte s buf i = Some (bs ! i)" using fr i buf(4) by (simp add: read_byte_def mem_load_def)
  have di: "drop i bs = bs ! i # drop (i + 1) bs" using i by (simp add: Cons_nth_drop_Suc)
  have m: "m = length bs - (i + 1)" "i + 1 \<le> length bs" using Suc(2) i by auto
  have lst: "List.last bs = bs ! i" if "i + 1 = length bs"
    using that Suc.prems(6) by (simp add: last_conv_nth flip: that)
  show ?case
  proof (cases "bs ! i = d")
    case True
    have rd: "read_bytes s0 buf chunkstart chunklen = Some (take chunklen (drop chunkstart bs))"
    proof -
      have "take chunklen (drop chunkstart (take (length bs) k)) = take chunklen (drop chunkstart k)"
        using i Suc.prems(3) by (simp add: drop_take min_def)
      with buf i Suc.prems(3) show ?thesis by (simp add: read_bytes_def load_block_def)
    qed
    from split_takes [OF pl Suc.prems(1,2) buf(1,2) rd] obtain p t u where
      u: "byteThing_fromCArray e (buf, chunkstart) chunklen NULL ByteString_class sz False s = Ret p t"
      "JS_SetElement e arr chunknum (JObj p) t = Some u"
      "splitting s0 arr (ps @ [take chunklen (drop chunkstart bs)]) u" by blast
    have st: "split_loop e sz buf d (length bs) arr i chunkstart chunklen chunknum s
        = split_loop e sz buf d (length bs) arr (i + 1) (i + 1) 0 (chunknum + 1) u"
      using i rb True u(1,2) by (subst unf) simp
    have "i + 1 = length bs \<longrightarrow> (0 < (0 :: nat)) = (List.last bs \<noteq> d)" using lst True by simp
    note l0 = this
    have cn: "chunknum + 1 = length (ps @ [take chunklen (drop chunkstart bs)])" using Suc.prems(2) by simp
    from Suc.hyps(1) [OF m(1) u(3) cn _ m(2) l0 Suc.prems(6), of "i + 1"] show ?thesis
      unfolding st di using True by (cases "List.last bs = d") simp_all
  next
    case False
    have st: "split_loop e sz buf d (length bs) arr i chunkstart chunklen chunknum s
        = split_loop e sz buf d (length bs) arr (i + 1) chunkstart (chunklen + 1) chunknum s"
      using i rb False by (subst unf) simp
    have tk: "take (chunklen + 1) (drop chunkstart bs) = take chunklen (drop chunkstart bs) @ [bs ! i]"
      using i Suc.prems(3) by (simp add: take_Suc_conv_app_nth)
    have "i + 1 = length bs \<longrightarrow> (0 < chunklen + 1) = (List.last bs \<noteq> d)" using lst False by simp
    from Suc.hyps(1) [OF m(1) Suc.prems(1,2) _ m(2) this Suc.prems(6), of chunkstart] Suc.prems(3) show ?thesis
      unfolding st di tk using False by (cases "List.last bs = d") simp_all
  qed
qed


lemma new_array_splitting:
  assumes ok: "bt_ok s" and pl: "plenty e"
    and t: "t = s\<lparr>objects := (objects s)(bnext s \<mapsto> \<lparr>oclass = Array_class, opriv = None, elems = []\<rparr>), bnext := Suc (bnext s)\<rparr>"
  shows "JS_NewObject e Array_class s = (bnext s, t)" and "splitting s (bnext s) [] t"
proof -
  show "JS_NewObject e Array_class s = (bnext s, t)" using pl by (simp add: JS_NewObject_def plenty_def Let_def t)
  have no: "objects s (bnext s) = None" using bt_okD(3) [OF ok, of "bnext s"] by fastforce
  have h: "handle_of t q = handle_of s q" for q using no by (simp add: handle_of_def t)
  have "bt_ok t"
  proof (rule bt_okI)
    show "handle_ok t k" if "handle_of t p = Some k" for p k
      using bt_okD(4) [OF ok, of p k] that unfolding h by (simp add: handle_ok_def t)
    show "buffer k' \<noteq> buffer k" if "objects t p = Some ob" "oclass ob = ByteArray_class" "opriv ob = Some k" "p \<noteq> q"
      "handle_of t q = Some k'" "buffer k \<noteq> NULL" for p q ob k k'
    proof -
      have "objects s p = Some ob" using that(1-3) by (auto simp: t split: if_splits)
      from bt_okD(5) [OF ok this that(2-4)] that(5,6) h show ?thesis by simp
    qed
  qed (use bt_okD(1,2,3) [OF ok] in \<open>fastforce simp: t split: if_splits\<close>)+
  then show "splitting s (bnext s) [] t" using bt_okD(3) [OF ok] by (auto simp: splitting_def t)
qed

text \<open>Splitting at a byte gives an array of new ByteStrings, the pieces between the delimiters, which
  joined again are the whole string; no other object or buffer changes.  But splitting an empty string,
  or one that ends with the delimiter, reads the byte after its end.\<close>

theorem split_bytes:
  assumes ok: "bt_ok s" and b: "byte_thing s obj ByteString_class h bs" and pl: "plenty e" and l31: "length bs < 2 ^ 31"
  shows "if bs \<noteq> [] \<and> List.last bs \<noteq> d
    then \<exists>arr t. ByteString_split e sz obj [JInt (uint d)] s = Ret arr t \<and> splitting s arr (pieces d [] bs) t
      \<and> joined d (pieces d [] bs) = bs \<and> (\<forall>p \<in> set (pieces d [] bs). d \<notin> set p)
    else buffer h = NULL \<or> blocks s (buffer h) = Some bs \<longrightarrow> ByteString_split e sz obj [JInt (uint d)] s = Fault"
proof -
  have l: "hlength h = length bs" using byte_thing_length [OF b] by simp
  have ud: "0 \<le> uint d" "uint d < 256" using uint_bounded [of d] by simp_all
  have uc: "to_uchar e (Fin (unsigned d)) = unat d" using is_int_uchar [OF ud, of e] by simp
  have nl: "int (length bs) < 2 ^ 31" using l31 by simp
  have sl: "sint (word_of_nat (length bs) :: 32 word) = int (length bs)"
    using nl by (simp add: signed_of_nat signed_take_bit_int_eq_self)
  define t0 where "t0 = s\<lparr>objects := (objects s)(bnext s \<mapsto> \<lparr>oclass = Array_class, opriv = None, elems = []\<rparr>), bnext := Suc (bnext s)\<rparr>"
  note na = new_array_splitting [OF ok pl t0_def] and sp = new_array_splitting(2) [OF ok pl t0_def]
  have bn: "0 < bnext s" "objects s (bnext s) = None" using bt_okD(1) [OF ok] bt_okD(3) [OF ok, of "bnext s"] by fastforce+
  have gh: "get_handle obj t0 g = g h" for g :: "bt_handle \<Rightarrow> ptr res"
    using byte_thing_handle_of [OF b] bn by (auto simp: get_handle_def handle_of_def t0_def)
  have st: "ByteString_split e sz obj [JInt (uint d)] s
      = rbind (split_loop e sz (buffer h) d (length bs) (bnext s) 0 0 0 0 t0) (\<lambda>_. Ret (bnext s))"
    using ud bn(1) na(1)
    by (simp add: ByteString_split_def byte_thing_instance [OF b] ValueToNumber_int is_int_def uc l sl gh)
  show ?thesis
  proof (cases "bs = []")
    case True
    have "split_loop e sz (buffer h) d 0 (bnext s) 0 0 0 0 t0 = Fault" if "buffer h = NULL \<or> blocks s (buffer h) = Some bs"
      using that True bt_ok_NULL(1) [OF ok] by (subst split_loop.simps) (auto simp: read_byte_def mem_load_def t0_def)
    with True show ?thesis unfolding st by simp
  next
    case False
    from byte_thing_block [OF b False] obtain k where k: "blocks s (buffer h) = Some k" "length bs \<le> length k" "take (length bs) k = bs"
      by blast
    with bt_okD(2) [OF ok, of "buffer h"] have bh: "buffer h \<noteq> NULL" "buffer h < bnext s" by auto
    note lp = split_loop_pieces [OF pl bh k sp, of 0 0 0 0 d sz]
    show ?thesis
      using lp False k(1) bh(1) joined_pieces [of bs d "[]"] pieces_no_delimiter [of d "[]" _ bs]
      unfolding st by (cases "List.last bs = d") auto
  qed
qed



section \<open>What the constructors make\<close>

text \<open>The bytes an argument list stands for.\<close>

definition encoded :: "coder \<Rightarrow> engine \<Rightarrow> jschar list \<Rightarrow> string option \<Rightarrow> byte list option" where
  "encoded c j cs charset =
     (if cs = [] then Some []
      else case charset of
        None \<Rightarrow> encode_chars j cs
      | Some name \<Rightarrow>
          if 2 ^ 63 \<le> length cs then None
          else transcoded c (Some name) (Some DEFAULT_UTF_16_FLAVOUR) (concat (map char_bytes cs)))"

definition charset_arg :: "engine \<Rightarrow> jsval list \<Rightarrow> string option" where
  "charset_arg j argv =
     (if length argv = 2 \<and> \<not> gpsee_isFalsy (argv ! 1) then map_option GetStringBytes (to_string j (argv ! 1)) else None)"

definition string_bytes :: "coder \<Rightarrow> engine \<Rightarrow> jsval list \<Rightarrow> byte list option" where
  "string_bytes c j argv = Option.bind (to_string j (argv ! 0)) (\<lambda>cs. encoded c j cs (charset_arg j argv))"

definition encodable :: "coder \<Rightarrow> jschar list \<Rightarrow> string option \<Rightarrow> bool" where
  "encodable c cs charset \<longleftrightarrow>
     (case charset of None \<Rightarrow> True
      | Some name \<Rightarrow> direct c (Some name) (Some DEFAULT_UTF_16_FLAVOUR) (concat (map char_bytes cs)))"

lemma length_char_bytes: "length (concat (map char_bytes cs)) = 2 * length cs"
  by (induction cs) (simp_all add: char_bytes_def)

lemma transcodeString_delivers:
  assumes ok: "bt_ok s" and en: "encodable c cs charset" and bp: "bufp = NULL \<or> cs \<noteq> []"
  shows "delivers e s (encoded c j cs charset) (\<lambda>bs r s'. \<exists>x. r = Some x \<and> holding s bs x s')
    (transcodeString_toBuf e c j cs charset bufp s)"
proof (cases "cs = []")
  case True
  with bp frame_refl [OF ok] show ?thesis
    by (auto simp: transcodeString_toBuf_def encoded_def delivers_def holding_def holds_bytes_def)
next
  case False
  have n0: "0 < bnext s" using bt_okD(1) [OF ok] .
  show ?thesis
  proof (cases charset)
    case None
    show ?thesis
    proof (cases "encode_chars j cs")
      case nc: None
      with False None frame_refl [OF ok] show ?thesis by (simp add: transcodeString_toBuf_def encoded_def delivers_def)
    next
      case (Some bs)
      obtain p s1 where m: "JS_malloc e (length bs) s = (p, s1)" by fastforce
      note mm = frame_malloc [OF frame_refl [OF ok] n0 m]
      have st: "transcodeString_toBuf e c j cs charset bufp s =
         (if p = NULL then Throw s1 else the_or_fault (write_bytes s1 p 0 bs) (Ret (Some (p, length bs))))"
        using False None Some m by (simp add: transcodeString_toBuf_def)
      show ?thesis
      proof (cases "p = NULL")
        case True
        with mm show ?thesis unfolding st by (auto simp: delivers_def plenty_def)
      next
        case pn: False
        have "\<exists>s2. write_bytes s1 p 0 bs = Some s2 \<and> frame s s2 \<and> blocks s2 p = Some bs"
        proof (cases "bs = []")
          case True
          with mm pn show ?thesis by (auto simp: write_bytes_def new_block_def)
        next
          case False
          have b1: "blocks s1 p = Some (new_block e p (length bs))" "bnext s \<le> p" "frame s s1" using mm pn by auto
          then have "write_bytes s1 p 0 bs = Some (s1\<lparr>blocks := (blocks s1)(p \<mapsto> bs)\<rparr>)"
            using False by (simp add: write_bytes_def store_block_def)
          with frame_poke [OF b1(3,2,1)] show ?thesis by auto
        qed
        then obtain s2 where s2: "write_bytes s1 p 0 bs = Some s2" "frame s s2" "blocks s2 p = Some bs" by blast
        have "holds_bytes s s2 p bs" using mm pn s2(3) by (intro holds_bytes_exact) auto
        with s2 pn False None Some show ?thesis unfolding st by (auto simp: delivers_def encoded_def holding_def)
      qed
    qed
  next
    case (Some name)
    show ?thesis
    proof (cases "2 ^ 63 \<le> length cs")
      case True
      with Some False frame_refl [OF ok] show ?thesis by (simp add: transcodeString_toBuf_def encoded_def delivers_def)
    next
      case short: False
      let ?q = "bnext s" and ?bs = "concat (map char_bytes cs)"
      define s1 where "s1 = s\<lparr>blocks := (blocks s)(?q \<mapsto> ?bs), bnext := Suc ?q\<rparr>"
      have g: "GetStringChars cs s = (?q, s1)" by (simp add: GetStringChars_def s1_def)
      have fr: "frame s s1" using frame_refl [OF ok] by (auto simp: frame_def s1_def less_Suc_eq)
      have rd: "read_bytes s1 ?q 0 (2 * length cs) = Some ?bs"
        by (simp add: read_bytes_def s1_def load_block_def length_char_bytes False)
      have "delivers e s (transcoded c (Some name) (Some DEFAULT_UTF_16_FLAVOUR) ?bs)
          (\<lambda>bs r s'. \<exists>x. r = Some x \<and> holding s bs x s')
          (transcodeBuf_toBuf e c (Some name) (Some DEFAULT_UTF_16_FLAVOUR) (?q, 0) (2 * length cs) s1)"
        by (rule transcodeBuf_delivers [OF ok fr]) (use rd en Some in \<open>simp_all add: encodable_def direct_def s1_def\<close>)
      moreover have "transcodeString_toBuf e c j cs charset bufp s
          = transcodeBuf_toBuf e c (Some name) (Some DEFAULT_UTF_16_FLAVOUR) (?q, 0) (2 * length cs) s1"
        using False Some short g by (simp add: transcodeString_toBuf_def)
      moreover have "encoded c j cs charset = transcoded c (Some name) (Some DEFAULT_UTF_16_FLAVOUR) ?bs"
        using False Some short by (simp add: encoded_def)
      ultimately show ?thesis by simp
    qed
  qed
qed

definition sourced :: "bst \<Rightarrow> byte list \<Rightarrow> (ptr \<times> nat) \<times> nat \<times> bool \<Rightarrow> bst \<Rightarrow> bool" where
  "sourced s0 bs = (\<lambda>(buf, len, steal) s. source_bytes s0 s steal buf len bs)"

lemma from_string_delivers:
  assumes ok: "bt_ok s" and en: "\<And>cs. to_string j (argv ! 0) = Some cs \<Longrightarrow> encodable c cs (charset_arg j argv) \<and> (bufp = NULL \<or> cs \<noteq> [])"
  shows "delivers e s (string_bytes c j argv) (sourced s) (from_string e c j argv bufp s)"
proof (cases "to_string j (argv ! 0)")
  case None
  with frame_refl [OF ok] show ?thesis
    by (simp add: from_string_def construct_from_string_def string_bytes_def delivers_def)
next
  case (Some cs)
  have "delivers e s (Option.bind (encoded c j cs (charset_arg j argv)) Some) (sourced s)
     (rbind (transcodeString_toBuf e c j cs (charset_arg j argv) bufp s) (\<lambda>r s.
       case r of None \<Rightarrow> Fault | Some (p, len) \<Rightarrow> Ret ((p, 0), len, True) s))"
  proof (rule delivers_bind [OF transcodeString_delivers [OF ok]])
    show "encodable c cs (charset_arg j argv)" "bufp = NULL \<or> cs \<noteq> []" using en [OF Some] by simp_all
  qed (auto simp: delivers_def sourced_def source_bytes_def holding_def)
  then show ?thesis
    by (simp add: from_string_def construct_from_string_def Some string_bytes_def charset_arg_def)
qed

lemma copy_own_delivers:
  assumes c: "calm f e" and ok: "bt_ok s" and ob: "objects s arr = Some ob" and n: "length (elems ob) < JSUINT_MOD"
  shows "delivers e s (those (map (elem_byte f) (elems ob)))
    (\<lambda>bs (buf, len, more) s'. len = length bs \<and> holds_bytes s s' (fst buf) bs)
    (copyJSArray_toBuf e arr 0 (NULL, 0) 0 s)"
proof (cases "elems ob = []")
  case True
  with ob frame_refl [OF ok] show ?thesis
    by (auto simp: copyJSArray_toBuf_def JS_GetArrayLength_def delivers_def holds_bytes_def)
next
  case False
  let ?n = "length (elems ob)"
  have n0: "0 < bnext s" using bt_okD(1) [OF ok] .
  have len: "JS_GetArrayLength arr s = Ret ?n s" using ob n by (simp add: JS_GetArrayLength_def)
  obtain p s1 where m: "JS_malloc e ?n s = (p, s1)" by fastforce
  note mm = frame_malloc [OF frame_refl [OF ok] n0 m]
  have st: "copyJSArray_toBuf e arr 0 (NULL, 0) 0 s = (if p = NULL then Throw s1
      else rbind (copy_loop e arr 0 True (p, 0) ?n ?n 0 ?n s1) (\<lambda>r s.
               case r of
                 Inr (buf, stop, arrLen) \<Rightarrow> Ret (buf, stop, arrLen < stop) s
               | Inl b \<Rightarrow> the_or_fault (JS_free b s) Throw))"
    using False by (simp add: copyJSArray_toBuf_def len m Let_def cong: sum.case_cong)
  show ?thesis
  proof (cases "p = NULL")
    case True
    with mm show ?thesis by (auto simp: st delivers_def plenty_def)
  next
    case pn: False
    have b1: "blocks s1 p = Some (new_block e p ?n)" "bnext s \<le> p" "frame s s1" using mm pn by auto
    have "objects s1 arr = Some ob" using b1(3) ob by (simp add: frame_def)
    with copy_loop_calm [OF c b1(1), of 0 ?n arr ob ?n 0 0 ?n True] n
    have cl: "case those (map (elem_byte f) (elems ob)) of
        Some bs \<Rightarrow> copy_loop e arr 0 True (p, 0) ?n ?n 0 ?n s1 = Ret (Inr ((p, 0), ?n, ?n)) (s1\<lparr>blocks := (blocks s1)(p \<mapsto> bs)\<rparr>)
      | None \<Rightarrow> \<exists>b'. copy_loop e arr 0 True (p, 0) ?n ?n 0 ?n s1 = Ret (Inl p) (s1\<lparr>blocks := (blocks s1)(p \<mapsto> b')\<rparr>)"
      by (auto split: option.splits)
    note fp = frame_poke [OF b1(3,2,1)]
    show ?thesis
    proof (cases "those (map (elem_byte f) (elems ob))")
      case None
      with cl obtain b' where r: "copy_loop e arr 0 True (p, 0) ?n ?n 0 ?n s1 = Ret (Inl p) (s1\<lparr>blocks := (blocks s1)(p \<mapsto> b')\<rparr>)" by auto
      have "frame s (s1\<lparr>blocks := (blocks s1)(p := None)\<rparr>)" using b1(2,3) by (auto simp: frame_def)
      with r pn None show ?thesis by (simp add: st delivers_def JS_free_def)
    next
      case (Some bs)
      then have "length bs = ?n" using length_those by fastforce
      with Some cl pn fp b1(2) show ?thesis by (auto simp: st delivers_def intro!: holds_bytes_exact)
    qed
  qed
qed


text \<open>The bytes of all arguments: none for none, those of a byte thing or an array, those of a string,
  and for a ByteArray a number of zeros.\<close>

definition whole_size :: "jsdouble \<Rightarrow> nat option" where
  "whole_size d =
     (case d of Fin r \<Rightarrow> if r = of_int \<lfloor>r\<rfloor> \<and> 0 \<le> r \<and> r < of_nat SIZE_MOD then Some (nat \<lfloor>r\<rfloor>) else None | _ \<Rightarrow> None)"

definition argument_bytes ::
    "(jsval \<Rightarrow> jsdouble option) \<Rightarrow> coder \<Rightarrow> engine \<Rightarrow> bool \<Rightarrow> bst \<Rightarrow> jsval list \<Rightarrow> byte list option" where
  "argument_bytes f c j sized s argv =
     (case argv of
        [] \<Rightarrow> Some []
      | [JObj p] \<Rightarrow>
          Option.bind (objects s p) (\<lambda>ob.
            if oclass ob = ByteArray_class \<or> oclass ob = ByteString_class then contents s p
            else if oclass ob = Array_class then those (map (elem_byte f) (elems ob))
            else string_bytes c j argv)
      | [v] \<Rightarrow>
          (case if sized then Option.bind (number_of f v) whole_size else None of
             Some n \<Rightarrow> Some (replicate n 0)
           | None \<Rightarrow> string_bytes c j argv)
      | [_, _] \<Rightarrow> string_bytes c j argv
      | _ \<Rightarrow> None)"

text \<open>Arguments the engine can pass: objects there are, byte things with their handles, arrays of
  fewer than 2^32 elements, and strings whose conversion fits.\<close>

definition acceptable :: "coder \<Rightarrow> engine \<Rightarrow> bst \<Rightarrow> jsval list \<Rightarrow> bool" where
  "acceptable c j s argv \<longleftrightarrow>
     (\<forall>p. argv = [JObj p] \<longrightarrow> (\<exists>ob. objects s p = Some ob \<and> length (elems ob) < JSUINT_MOD
        \<and> (oclass ob = ByteArray_class \<or> oclass ob = ByteString_class \<longrightarrow> opriv ob \<noteq> None)))
     \<and> (\<forall>cs. argv \<noteq> [] \<longrightarrow> to_string j (argv ! 0) = Some cs \<longrightarrow> encodable c cs (charset_arg j argv))"

lemma is_int_size: "is_int d (int (to_size e d)) \<longleftrightarrow> whole_size d = Some (to_size e d)"
  "whole_size d = None \<longleftrightarrow> \<not> is_int d (int (to_size e d))"
proof -
  have t: "to_size e d < SIZE_MOD" by (rule to_size_lt)
  have "whole_size d = (if is_int d (int (to_size e d)) then Some (to_size e d) else None)"
  proof (cases d)
    case (Fin r)
    show ?thesis
    proof (cases "\<exists>k. r = of_int k")
      case True
      then obtain k where k: "r = of_int k" by blast
      have "whole_size d = (if 0 \<le> k \<and> k < int SIZE_MOD then Some (nat k) else None)"
      proof -
        have "(of_int k :: rat) < of_nat SIZE_MOD \<longleftrightarrow> k < int SIZE_MOD" by (metis of_int_less_iff of_int_of_nat_eq)
        then show ?thesis by (simp add: Fin k whole_size_def)
      qed
      moreover have i: "is_int d (int (to_size e d)) \<longleftrightarrow> k = int (to_size e d)"
        by (simp only: is_int_def Fin k jsdouble.inject of_int_eq_iff)
      moreover have z: "to_size e d = nat k" if "0 \<le> k" "k < int SIZE_MOD"
        using that by (simp add: Fin k to_size_def)
      moreover have "k \<noteq> int (to_size e d)" if "\<not> (0 \<le> k \<and> k < int SIZE_MOD)" using t that by linarith
      ultimately show ?thesis by (cases "0 \<le> k \<and> k < int SIZE_MOD") (simp_all only: simp_thms if_True if_False nat_0_le)
    next
      case False
      then have "r \<noteq> of_int \<lfloor>r\<rfloor>" "\<And>n. r \<noteq> of_nat n" by (metis of_int_of_nat_eq)+
      then show ?thesis by (simp add: Fin whole_size_def is_int_def)
    qed
  qed (simp_all add: whole_size_def is_int_def)
  then show "is_int d (int (to_size e d)) \<longleftrightarrow> whole_size d = Some (to_size e d)"
    "whole_size d = None \<longleftrightarrow> \<not> is_int d (int (to_size e d))" by simp_all
qed

lemma object_delivers:
  assumes c: "calm f e" and ok: "bt_ok s"
    and ob: "objects s p = Some ob" "length (elems ob) < JSUINT_MOD"
      "oclass ob = ByteArray_class \<or> oclass ob = ByteString_class \<Longrightarrow> opriv ob \<noteq> None"
    and ot: "oclass ob \<notin> {ByteArray_class, ByteString_class, Array_class} \<Longrightarrow> delivers e s Y (sourced s) (otherwise s)"
  shows "delivers e s
     (if oclass ob = ByteArray_class \<or> oclass ob = ByteString_class then contents s p
      else if oclass ob = Array_class then those (map (elem_byte f) (elems ob)) else Y)
     (sourced s) (construct_from_object e p s otherwise)"
proof (cases "oclass ob = ByteArray_class \<or> oclass ob = ByteString_class")
  case True
  then obtain h where h: "opriv ob = Some h" using ob(3) by blast
  then have hf: "handle_of s p = Some h" using ob(1) by (simp add: handle_of_def)
  from contents_Some [OF ok hf] obtain bs where bs: "contents s p = Some bs" "length bs = hlength h"
    "read_bytes s (buffer h) 0 (hlength h) = Some bs" by blast
  have "buffer h < bnext s"
    using bt_okD(4) [OF ok hf] bt_okD(2) [OF ok, of "buffer h"] bt_okD(1) [OF ok] by (auto simp: handle_ok_def split: if_splits)
  moreover have "bs = replicate (hlength h) 0" if "buffer h = NULL"
    using bt_okD(4) [OF ok hf] that bs(2) by (simp add: handle_ok_def)
  ultimately have "sourced s bs ((buffer h, 0), hlength h, False) s"
    using bs(3) by (simp add: sourced_def source_bytes_def)
  with True ob(1) h bs(1) frame_refl [OF ok] show ?thesis
    by (auto simp: construct_from_object_def get_object_def get_handle_def delivers_def)
next
  case False
  show ?thesis
  proof (cases "oclass ob = Array_class")
    case True
    have "delivers e s (Option.bind (those (map (elem_byte f) (elems ob))) Some) (sourced s)
       (rbind (copyJSArray_toBuf e p 0 (NULL, 0) 0 s) (\<lambda>(buf, len, _). Ret (buf, len, True)))"
      by (rule delivers_bind [OF copy_own_delivers [OF c ok ob(1,2)]])
        (auto simp: delivers_def sourced_def source_bytes_def)
    with False True ob(1) show ?thesis by (simp add: construct_from_object_def get_object_def)
  next
    case no: False
    with False ob(1) ot show ?thesis by (simp add: construct_from_object_def get_object_def)
  qed
qed

lemma construct_makes:
  assumes ok: "bt_ok s" and d: "delivers e s X (sourced s) r" and cl: "gpsee_isByteThingClass clasp" and g: "given s clasp obj"
  shows "case rbind r (\<lambda>(buf, len, steal) s. byteThing_fromCArray e buf len obj clasp sz steal s) of
      Ret p s' \<Rightarrow> \<exists>bs. X = Some bs \<and> made s clasp bs obj p s'
    | Throw s' \<Rightarrow> frame s s' \<and> (X = None \<or> \<not> plenty e) | _ \<Rightarrow> False"
proof (cases r)
  case (Ret x t)
  obtain buf len steal where x: "x = (buf, len, steal)" by (cases x) auto
  from d Ret obtain bs where bs: "X = Some bs" "frame s t" "source_bytes s t steal buf len bs"
    by (auto simp: delivers_def sourced_def x)
  from fromCArray_makes [OF ok bs(2) cl g bs(3), of e sz] bs(1) show ?thesis
    by (auto simp: Ret x split: res.splits)
qed (use d in \<open>auto simp: delivers_def\<close>)

text \<open>The finished object.\<close>

definition constructed :: "bst \<Rightarrow> jsclass \<Rightarrow> bool \<Rightarrow> byte list \<Rightarrow> ptr \<Rightarrow> bst \<Rightarrow> bool" where
  "constructed s clasp immutable bs obj s' \<longleftrightarrow>
     bt_ok s' \<and> contents s' obj = Some bs
     \<and> (\<exists>b. objects s' = (objects s)(obj \<mapsto> \<lparr>oclass = clasp,
          opriv = Some ((new_handle (length bs) b obj)\<lparr>bt_immutable := immutable\<rparr>), elems = []\<rparr>))
     \<and> (\<forall>p < bnext s. blocks s' p = blocks s p)"

lemma made_constructed: "obj \<noteq> NULL \<Longrightarrow> made s clasp bs obj p s' \<Longrightarrow> p = obj \<and> constructed s clasp False bs obj s'"
  by (auto simp: made_def constructed_def new_handle_def)

lemma flag_constructed:
  assumes "constructed s clasp False bs obj s'"
  shows "\<exists>h. (\<forall>g :: bt_handle \<Rightarrow> ptr res. get_handle obj s' g = g h)
    \<and> constructed s clasp True bs obj (set_handle obj (h\<lparr>bt_immutable := True\<rparr>) s')"
proof -
  obtain b where o: "objects s' = (objects s)(obj \<mapsto> \<lparr>oclass = clasp,
          opriv = Some ((new_handle (length bs) b obj)\<lparr>bt_immutable := False\<rparr>), elems = []\<rparr>)"
    and ok: "bt_ok s'" and c: "contents s' obj = Some bs" and fr: "\<forall>p < bnext s. blocks s' p = blocks s p"
    using assms by (auto simp: constructed_def)
  let ?h = "(new_handle (length bs) b obj)\<lparr>bt_immutable := False\<rparr>" and ?h' = "(new_handle (length bs) b obj)\<lparr>bt_immutable := True\<rparr>"
  define t where "t = set_handle obj (?h\<lparr>bt_immutable := True\<rparr>) s'"
  have t: "objects t = (objects s)(obj \<mapsto> \<lparr>oclass = clasp, opriv = Some ?h', elems = []\<rparr>)"
    "blocks t = blocks s'" "bnext t = bnext s'" by (simp_all add: t_def set_handle_def o)
  have hs: "handle_of t q = (if q = obj then Some ?h' else handle_of s' q)" for q by (simp add: handle_of_def t o)
  have ho: "handle_of s' obj = Some ?h" by (simp add: handle_of_def o)
  have hk: "handle_ok t h \<longleftrightarrow> handle_ok s' h" "handle_ok s' ?h' \<longleftrightarrow> handle_ok s' ?h" for h
    by (simp_all add: handle_ok_def t(2))
  have "bt_ok t"
  proof (rule bt_okI)
    show "handle_ok t h" if "handle_of t p = Some h" for p h
      using that bt_okD(4) [OF ok, of p h] bt_okD(4) [OF ok ho] by (auto simp: hs hk split: if_splits)
    show "buffer h' \<noteq> buffer h" if a: "objects t p = Some ob" "oclass ob = ByteArray_class" "opriv ob = Some h" "p \<noteq> q"
      "handle_of t q = Some h'" "buffer h \<noteq> NULL" for p q ob h h'
    proof -
      have "\<exists>ob0 h0. objects s' p = Some ob0 \<and> oclass ob0 = ByteArray_class \<and> opriv ob0 = Some h0 \<and> buffer h0 = buffer h"
        using a(1-3) by (cases "p = obj") (auto simp: t(1) o)
      moreover have "\<exists>h0. handle_of s' q = Some h0 \<and> buffer h0 = buffer h'"
        using a(5) ho by (cases "q = obj") (auto simp: hs)
      ultimately show ?thesis using bt_okD(5) [OF ok _ _ _ a(4)] a(6) by metis
    qed
    show "0 < p \<and> p < bnext t" if "objects t p = Some ob" for p ob
      using bt_okD(3) [OF ok, of p] that by (auto simp: t o split: if_splits)
  qed (use bt_okD(1,2) [OF ok] in \<open>auto simp: t\<close>)
  moreover have "contents t obj = Some bs"
    using c by (cases "bs = []"; cases "blocks s' b") (simp_all add: contents_def t o read_bytes_def new_handle_def)
  ultimately have "constructed s clasp True bs obj t" using t fr by (auto simp: constructed_def)
  moreover have "get_handle obj s' g = g ?h" for g :: "bt_handle \<Rightarrow> ptr res" by (simp add: get_handle_def o)
  ultimately show ?thesis unfolding t_def by blast
qed


text \<open>When the string case is taken.\<close>

definition reads_string :: "(jsval \<Rightarrow> jsdouble option) \<Rightarrow> bool \<Rightarrow> bst \<Rightarrow> jsval list \<Rightarrow> bool" where
  "reads_string f sized s argv \<longleftrightarrow>
     (case argv of
        [JObj p] \<Rightarrow> (case objects s p of None \<Rightarrow> False
           | Some ob \<Rightarrow> oclass ob \<notin> {ByteArray_class, ByteString_class, Array_class})
      | [v] \<Rightarrow> \<not> sized \<or> Option.bind (number_of f v) whole_size = None
      | [_, _] \<Rightarrow> True
      | _ \<Rightarrow> False)"

lemma string_case_delivers:
  assumes "bt_ok s" and "acceptable c j s argv" and "argv \<noteq> []" and "bufp = NULL \<or> to_string j (argv ! 0) \<noteq> Some []"
  shows "delivers e s (string_bytes c j argv) (sourced s) (from_string e c j argv bufp s)"
  using assms by (intro from_string_delivers) (auto simp: acceptable_def)

lemma constructor_source:
  assumes c: "calm f e" and ok: "bt_ok s" and ac: "acceptable c j s argv"
    and bp: "reads_string f sized s argv \<Longrightarrow> bufp = NULL \<or> to_string j (argv ! 0) \<noteq> Some []"
  shows "delivers e s (argument_bytes f c j sized s argv) (sourced s)
       (case argv of
          [] \<Rightarrow> Ret ((NULL, 0), 0, False) s
        | [JObj o1] \<Rightarrow> construct_from_object e o1 s (from_string e c j argv bufp)
        | [v] \<Rightarrow>
            if sized then
              on_number e v s (from_string e c j argv bufp) (\<lambda>d s.
                if is_int d (int (to_size e d)) then Ret ((NULL, 0), to_size e d, False) s
                else from_string e c j argv bufp s)
            else from_string e c j argv bufp s
        | [_, _] \<Rightarrow> from_string e c j argv bufp s
        | _ \<Rightarrow> Throw s)"
proof -
  note fs = string_case_delivers [OF ok ac]
  have z: "sourced s (replicate n 0) ((NULL, 0), n, False) s" for n by (simp add: sourced_def source_bytes_def)
  consider "argv = []" | v where "argv = [v]" | v w where "argv = [v, w]" | v w x xs where "argv = v # w # x # xs"
    by (cases argv; cases "tl argv"; cases "tl (tl argv)") auto
  then show ?thesis
  proof cases
    case 1
    with z [of 0] frame_refl [OF ok] show ?thesis by (simp add: delivers_def argument_bytes_def)
  next
    case (2 v)
    note a = this
    show ?thesis
    proof (cases "\<exists>p. v = JObj p")
      case True
      then obtain p where p: "v = JObj p" by blast
      with ac a obtain ob where ob: "objects s p = Some ob" "length (elems ob) < JSUINT_MOD"
        "oclass ob = ByteArray_class \<or> oclass ob = ByteString_class \<Longrightarrow> opriv ob \<noteq> None"
        by (auto simp: acceptable_def)
      have "delivers e s (string_bytes c j argv) (sourced s) (from_string e c j argv bufp s)"
        if "oclass ob \<notin> {ByteArray_class, ByteString_class, Array_class}"
        using fs bp that a p ob(1) by (simp add: reads_string_def)
      from object_delivers [OF c ok ob, of "string_bytes c j argv" "from_string e c j argv bufp", OF _ this]
      show ?thesis using a p ob(1) by (cases "oclass ob") (simp_all add: argument_bytes_def)
    next
      case False
      have u: "argument_bytes f c j sized s argv =
          (case if sized then Option.bind (number_of f v) whole_size else None of
             Some n \<Rightarrow> Some (replicate n 0) | None \<Rightarrow> string_bytes c j argv)"
        "reads_string f sized s argv \<longleftrightarrow> \<not> sized \<or> Option.bind (number_of f v) whole_size = None"
        using False a by (auto simp: argument_bytes_def reads_string_def split: jsval.splits)
      have fr: "delivers e s (string_bytes c j argv) (sourced s) (from_string e c j argv bufp s)"
        if "\<not> sized \<or> Option.bind (number_of f v) whole_size = None"
        using fs bp that a u(2) by simp
      have k: "(case argv of
          [] \<Rightarrow> Ret ((NULL, 0), 0, False) s
        | [JObj o1] \<Rightarrow> construct_from_object e o1 s (from_string e c j argv bufp)
        | [v] \<Rightarrow>
            if sized then
              on_number e v s (from_string e c j argv bufp) (\<lambda>d s.
                if is_int d (int (to_size e d)) then Ret ((NULL, 0), to_size e d, False) s
                else from_string e c j argv bufp s)
            else from_string e c j argv bufp s
        | [_, _] \<Rightarrow> from_string e c j argv bufp s
        | _ \<Rightarrow> Throw s) =
          (if sized then
             (case number_of f v of None \<Rightarrow> from_string e c j argv bufp s
              | Some d \<Rightarrow> if is_int d (int (to_size e d)) then Ret ((NULL, 0), to_size e d, False) s
                 else from_string e c j argv bufp s)
           else from_string e c j argv bufp s)"
        using False a by (auto simp: on_number_calm [OF c] split: jsval.splits)
      show ?thesis
      proof (cases "if sized then Option.bind (number_of f v) whole_size else None")
        case None
        with fr have "delivers e s (string_bytes c j argv) (sourced s) (from_string e c j argv bufp s)"
          by (auto split: if_splits)
        moreover have "\<not> is_int d (int (to_size e d))" if "sized" "number_of f v = Some d" for d
          using None that is_int_size(2) [of d e] by simp
        ultimately show ?thesis unfolding k u(1) None by (auto split: option.splits)
      next
        case (Some n)
        then obtain d where d: "sized" "number_of f v = Some d" "whole_size d = Some n"
          by (auto simp: bind_eq_Some_conv split: if_splits)
        then have "is_int d (int (to_size e d))" "to_size e d = n"
          using is_int_size [of d e] by auto
        with d z [of n] frame_refl [OF ok] show ?thesis unfolding k u(1) Some by (simp add: delivers_def)
      qed
    qed
  next
    case (3 v w)
    with fs bp show ?thesis by (cases v) (simp_all add: argument_bytes_def reads_string_def)
  next
    case (4 v w x xs)
    with frame_refl [OF ok] show ?thesis by (cases v) (simp_all add: argument_bytes_def delivers_def)
  qed
qed

lemma ByteString_makes:
  assumes "calm f e" and "bt_ok s" and "acceptable c j s argv"
    and "objects s obj = Some \<lparr>oclass = ByteString_class, opriv = None, elems = []\<rparr>"
  shows "case ByteString_Constructor e c j sz obj argv s of
      Ret p s' \<Rightarrow> p = obj \<and> (\<exists>bs. argument_bytes f c j False s argv = Some bs \<and> constructed s ByteString_class True bs obj s')
    | Throw s' \<Rightarrow> frame s s' \<and> (argument_bytes f c j False s argv = None \<or> \<not> plenty e) | _ \<Rightarrow> False"
proof -
  have g: "given s ByteString_class obj" and cl: "gpsee_isByteThingClass ByteString_class" and nz: "obj \<noteq> NULL"
    using assms(4) bt_okD(3) [OF assms(2), of obj] by (auto simp: given_def gpsee_isByteThingClass_def)
  have d: "delivers e s (argument_bytes f c j False s argv) (sourced s)
       (case argv of
          [] \<Rightarrow> Ret ((NULL, 0), 0, False) s
        | [JObj o1] \<Rightarrow> construct_from_object e o1 s (from_string e c j argv NULL)
        | [_] \<Rightarrow> from_string e c j argv NULL s
        | [_, _] \<Rightarrow> from_string e c j argv NULL s
        | _ \<Rightarrow> Throw s)" (is "delivers e s ?X _ ?r")
    by (rule constructor_source [where sized = False and bufp = NULL, OF assms(1-3), unfolded if_False]) simp
  let ?q = "rbind ?r (\<lambda>(buf, len, steal) s. byteThing_fromCArray e buf len obj ByteString_class sz steal s)"
  have st: "ByteString_Constructor e c j sz obj argv s = rbind ?q (\<lambda>instance s.
            get_handle instance s (\<lambda>hnd. Ret instance (set_handle instance (hnd\<lparr>bt_immutable := True\<rparr>) s)))"
    unfolding ByteString_Constructor_def by (cases ?r) (simp_all add: split_def)
  note m = construct_makes [OF assms(2) d cl g, of sz]
  show ?thesis
  proof (cases ?q)
    case (Ret p s')
    with m made_constructed [OF nz] obtain bs where bs: "?X = Some bs" "p = obj" "constructed s ByteString_class False bs obj s'"
      by fastforce
    from flag_constructed [OF bs(3)] obtain h where
      "\<And>g :: bt_handle \<Rightarrow> ptr res. get_handle obj s' g = g h"
      "constructed s ByteString_class True bs obj (set_handle obj (h\<lparr>bt_immutable := True\<rparr>) s')" by blast
    then show ?thesis using bs(1,2) Ret unfolding st by simp
  qed (use m in \<open>simp_all add: st\<close>)
qed

text \<open>A ByteString is constructed from nothing, from a byte thing, from an array of bytes or from a
  string in a character set, and holds exactly those bytes, in a buffer of its own, immutable; or it
  throws, because the arguments stand for no bytes or memory ran out, and changes nothing.\<close>

theorem ByteString_constructs:
  assumes "calm f e" and "bt_ok s" and "acceptable c j s argv"
    and "objects s obj = Some \<lparr>oclass = ByteString_class, opriv = None, elems = []\<rparr>"
  shows "case ByteString_Constructor e c j sz obj argv s of
      Ret p s' \<Rightarrow> p = obj \<and> (\<exists>bs. argument_bytes f c j False s argv = Some bs \<and> constructed s ByteString_class True bs obj s')
    | Throw s' \<Rightarrow> frame s s' \<and> (argument_bytes f c j False s argv = None \<or> \<not> plenty e) | _ \<Rightarrow> False"
  by (rule ByteString_makes [OF assms])

text \<open>A ByteArray is constructed the same way, and from a number, which gives that many zeros.\<close>

theorem ByteArray_constructs:
  assumes "calm f e" and "bt_ok s" and "acceptable c j s argv"
    and "objects s obj = Some \<lparr>oclass = ByteArray_class, opriv = None, elems = []\<rparr>"
    and "reads_string f True s argv \<Longrightarrow> to_string j (argv ! 0) \<noteq> Some []"
  shows "case ByteArray_Constructor e c j sz obj argv s of
      Ret p s' \<Rightarrow> p = obj \<and> (\<exists>bs. argument_bytes f c j True s argv = Some bs \<and> constructed s ByteArray_class False bs obj s')
    | Throw s' \<Rightarrow> frame s s' \<and> (argument_bytes f c j True s argv = None \<or> \<not> plenty e) | _ \<Rightarrow> False"
proof -
  have g: "given s ByteArray_class obj" and cl: "gpsee_isByteThingClass ByteArray_class" and nz: "obj \<noteq> NULL"
    using assms(4) bt_okD(3) [OF assms(2), of obj] by (auto simp: given_def gpsee_isByteThingClass_def)
  have d: "delivers e s (argument_bytes f c j True s argv) (sourced s)
       (case argv of
          [] \<Rightarrow> Ret ((NULL, 0), 0, False) s
        | [JObj o1] \<Rightarrow> construct_from_object e o1 s (from_string e c j argv (stray j))
        | [v] \<Rightarrow>
            on_number e v s (from_string e c j argv (stray j)) (\<lambda>d s.
              if is_int d (int (to_size e d)) then Ret ((NULL, 0), to_size e d, False) s
              else from_string e c j argv (stray j) s)
        | [_, _] \<Rightarrow> from_string e c j argv (stray j) s
        | _ \<Rightarrow> Throw s)"
    by (rule constructor_source [where sized = True and bufp = "stray j", OF assms(1-3), unfolded if_True]) (use assms(5) in simp)
  from construct_makes [OF assms(2) this cl g, of sz] made_constructed [OF nz] show ?thesis
    unfolding ByteArray_Constructor_def by (auto split: res.splits)
qed

text \<open>The empty string with a character set makes a ByteArray that owns whatever the uninitialised variable
  for its buffer pointed to; its finalizer frees that.\<close>

theorem empty_string_owns_stray_pointer:
  assumes "plenty e" and "bt_ok s" and "objects s obj = Some \<lparr>oclass = ByteArray_class, opriv = None, elems = []\<rparr>"
    and "to_string j v = Some []"
  shows "\<exists>s'. ByteArray_Constructor e c j sz obj [v, w] s = Ret obj s'
    \<and> (stray j \<noteq> NULL \<longrightarrow> (byteThing_Finalize obj s' = None \<longleftrightarrow> blocks s (stray j) = None))
    \<and> (\<forall>p. blocks s' p = blocks s p)"
proof -
  have nz: "obj \<noteq> NULL" using bt_okD(3) [OF assms(2), of obj] assms(3) by auto
  have src: "from_string e c j [v, w] (stray j) s = Ret ((stray j, 0), 0, True) s"
    by (simp add: from_string_def construct_from_string_def assms(4) transcodeString_toBuf_def)
  let ?s' = "set_handle obj (new_handle 0 (stray j) obj) (s\<lparr>bnext := Suc (bnext s)\<rparr>)"
  have "ByteArray_Constructor e c j sz obj [v, w] s = Ret obj ?s'"
  proof -
    have "ByteArray_Constructor e c j sz obj [v, w] s
        = byteThing_fromCArray e (stray j, 0) 0 obj ByteArray_class sz True s"
      using src by (cases v) (simp_all add: ByteArray_Constructor_def)
    also have "\<dots> = Ret obj ?s'"
      using nz assms(1) by (simp add: byteThing_fromCArray_def gpsee_isByteThingClass_def plenty_def Let_def new_handle_def)
    finally show ?thesis .
  qed
  moreover have "Option.bind (objects ?s' obj) opriv = Some (new_handle 0 (stray j) obj)" "blocks ?s' = blocks s"
    using assms(3) by (simp_all add: set_handle_def)
  ultimately show ?thesis
    by (auto simp: byteThing_Finalize_def JS_free_def new_handle_def)
qed



section \<open>To strings and back\<close>

lemma chars_of_char_bytes: "chars_of (concat (map char_bytes cs)) = cs"
proof (induction cs)
  case (Cons c cs)
  have "(ucast (ucast c :: byte) :: jschar) OR push_bit 8 (ucast (ucast (drop_bit 8 c) :: byte)) = c"
    by (rule bit_word_eqI) (auto simp: bit_simps)
  with Cons show ?case by (simp add: char_bytes_def)
qed simp

lemma chars_of_even: "chars_of (take (length bs div 2 * 2) bs) = chars_of bs"
  by (induction bs rule: chars_of.induct) auto

definition charset_is :: "engine \<Rightarrow> jsval list \<Rightarrow> string option \<Rightarrow> bool" where
  "charset_is j argv charset \<longleftrightarrow>
     (case argv of [] \<Rightarrow> charset = None
      | [v] \<Rightarrow> (\<exists>name. to_string j v = Some name \<and> charset = Some (GetStringBytes name))
      | _ \<Rightarrow> False)"

lemma holds_bytes_read:
  assumes "holds_bytes s0 s p bs" "n \<le> length bs"
  shows "read_bytes s p 0 n = Some (take n bs)"
proof (cases "p = NULL \<and> bs = []")
  case False
  then obtain k where k: "blocks s p = Some k" "length bs \<le> length k" "take (length bs) k = bs"
    using assms(1) by (auto simp: holds_bytes_def)
  have "take n bs = take n k" using assms(2) by (subst k(3) [symmetric]) simp
  with k(1,2) assms(2) show ?thesis by (simp add: read_bytes_def load_block_def)
qed (use assms in \<open>simp add: read_bytes_def\<close>)

lemma decode_delivers:
  assumes ok: "bt_ok s" and b: "byte_thing s obj clasp h bs" and ch: "charset_is j argv charset" and d: "direct c None charset bs"
  shows "delivers e s (map_option chars_of (transcoded c None charset bs)) (\<lambda>cs r s'. r = cs)
    (byteThing_decodeToString e c j obj argv clasp s)"
proof -
  have l: "hlength h = length bs" using byte_thing_length [OF b] by simp
  obtain ob where ob: "objects s obj = Some ob" "oclass ob = clasp" using b by (auto simp: byte_thing_def)
  have cl: "gpsee_isByteThingClass clasp" using b by (auto simp: byte_thing_def gpsee_isByteThingClass_def)
  show ?thesis
  proof (cases "bs = []")
    case True
    with l frame_refl [OF ok] show ?thesis
      by (simp add: byteThing_decodeToString_def get_object_def ob cl byte_thing_handle(1) [OF b] transcoded_def delivers_def)
  next
    case False
    from byte_thing_read [OF ok b, of 0 "length bs"] have rd: "read_bytes s (buffer h) 0 (length bs) = Some bs" "buffer h < bnext s"
      using byte_thing_block [OF b False] bt_okD(2) [OF ok, of "buffer h"] by (auto split: if_splits)
    let ?k = "\<lambda>r s. case r of None \<Rightarrow> Fault
               | Some (buf, len) \<Rightarrow>
                   the_or_fault (read_bytes s buf 0 (len div 2 * 2)) (\<lambda>bs.
                     if \<not> mem_ok e (bnext s) (len div 2 * 2) then Throw s else Ret (chars_of bs) s)"
    have st: "byteThing_decodeToString e c j obj argv clasp s
        = rbind (transcodeBuf_toBuf e c None charset (buffer h, 0) (length bs) s) ?k"
      using ch False l by (auto simp: byteThing_decodeToString_def get_object_def ob cl byte_thing_handle(1) [OF b]
          charset_is_def Let_def split: list.splits)
    have "delivers e s (transcoded c None charset bs) (\<lambda>out r s'. \<exists>x. r = Some x \<and> holding s out x s')
        (transcodeBuf_toBuf e c None charset (buffer h, 0) (length bs) s)"
      by (rule transcodeBuf_delivers [OF ok frame_refl [OF ok]]) (use rd d in \<open>simp_all add: direct_def\<close>)
    then have "delivers e s (Option.bind (transcoded c None charset bs) (\<lambda>out. Some (chars_of out))) (\<lambda>cs r s'. r = cs)
        (rbind (transcodeBuf_toBuf e c None charset (buffer h, 0) (length bs) s) ?k)"
    proof (rule delivers_bind)
      fix out r s'
      assume "frame s s'" "\<exists>x. r = Some x \<and> holding s out x s'"
      then obtain p where p: "r = Some (p, length out)" "holds_bytes s s' p out" by (auto simp: holding_def)
      have "length out div 2 * 2 \<le> length out" by simp
      then have "read_bytes s' p 0 (length out div 2 * 2) = Some (take (length out div 2 * 2) out)"
        using holds_bytes_read [OF p(2)] by simp
      with p(1) \<open>frame s s'\<close> show "delivers e s (Some (chars_of out)) (\<lambda>cs r s'. r = cs) (?k r s')"
        by (auto simp: delivers_def chars_of_even plenty_def)
    qed
    moreover have "Option.bind x (\<lambda>out. Some (chars_of out)) = map_option chars_of x" for x by (cases x) auto
    ultimately show ?thesis unfolding st by simp
  qed
qed

text \<open>C25: A string made into a ByteString in a character set, and decoded from it, is the same string, provided
  the character set can carry it: iconv converts its bytes there and back.\<close>

theorem string_roundtrip:
  assumes cm: "calm f e" and pl: "plenty e" and ok: "bt_ok s"
    and obj: "objects s obj = Some \<lparr>oclass = ByteString_class, opriv = None, elems = []\<rparr>"
    and v: "to_string j v = Some cs" and w: "to_string j w = Some name" "\<not> gpsee_isFalsy w"
    and there: "direct c (Some (GetStringBytes name)) (Some DEFAULT_UTF_16_FLAVOUR) (concat (map char_bytes cs))"
      "transcoded c (Some (GetStringBytes name)) (Some DEFAULT_UTF_16_FLAVOUR) (concat (map char_bytes cs)) = Some out"
    and fro: "direct c None (Some (GetStringBytes name)) out"
      "transcoded c None (Some (GetStringBytes name)) out = Some (concat (map char_bytes cs))"
    and small: "length cs < 2 ^ 63" "length out < 2 ^ 63"
  shows "\<exists>s' s''. ByteString_Constructor e c j sz obj [v, w] s = Ret obj s'
    \<and> byteThing_decodeToString e c j obj [w] ByteString_class s' = Ret cs s''"
proof -
  have cn: "charset_arg j [v, w] = Some (GetStringBytes name)" using w by (simp add: charset_arg_def)
  have ac: "acceptable c j s [v, w]" using there(1) v by (simp add: acceptable_def cn encodable_def)
  have ab: "argument_bytes f c j False s [v, w] = string_bytes c j [v, w]"
    by (cases v) (simp_all add: argument_bytes_def)
  have "string_bytes c j [v, w] = Some (if cs = [] then [] else out)"
    using there(2) small(1) by (simp add: string_bytes_def v cn encoded_def)
  moreover have "cs = [] \<Longrightarrow> out = []" using there(2) by (simp add: transcoded_def)
  ultimately have sb: "string_bytes c j [v, w] = Some out" by auto
  from ByteString_makes [OF cm ok ac obj, of sz] pl obtain s' where
    s': "ByteString_Constructor e c j sz obj [v, w] s = Ret obj s'" "constructed s ByteString_class True out obj s'"
    by (auto simp: ab sb split: res.splits)
  have nz: "obj \<noteq> NULL" using bt_okD(3) [OF ok, of obj] obj by auto
  from s'(2) have ok': "bt_ok s'" by (simp add: constructed_def)
  from s'(2) nz small(2) obtain h where h: "byte_thing s' obj ByteString_class h out"
    by (auto simp: constructed_def byte_thing_def)
  have "charset_is j [w] (Some (GetStringBytes name))" using w by (simp add: charset_is_def)
  from decode_delivers [OF ok' h this fro(1), of e] fro(2) pl
  obtain s'' where "byteThing_decodeToString e c j obj [w] ByteString_class s' = Ret cs s''"
    by (auto simp: delivers_def chars_of_char_bytes split: res.splits)
  with s'(1) show ?thesis by blast
qed


text \<open>The character sets \<open>toByteString\<close> and \<open>toByteArray\<close> are given.\<close>

definition charsets_are :: "engine \<Rightarrow> jsval list \<Rightarrow> string option \<Rightarrow> string option \<Rightarrow> bool" where
  "charsets_are j argv src tgt \<longleftrightarrow>
     (case argv of [] \<Rightarrow> src = None \<and> tgt = None
      | [v, w] \<Rightarrow> \<exists>a b. to_string j v = Some a \<and> to_string j w = Some b
          \<and> src = Some (GetStringBytes a) \<and> tgt = Some (GetStringBytes b)
      | _ \<Rightarrow> False)"

lemma byte_thing_bytes:
  assumes ok: "bt_ok s" and b: "byte_thing s obj c h bs"
  shows "read_bytes s (buffer h) 0 (length bs) = Some bs" "buffer h < bnext s"
  using byte_thing_read [OF ok b, of 0 "length bs"] byte_thing_block [OF b] bt_okD(1) [OF ok]
  by (cases "bs = []"; auto simp: read_bytes_def load_block_def split: if_splits)+

text \<open>\<open>toByteString\<close> and \<open>toByteArray\<close> give the bytes converted from one character set
  to the other, in a new object of the class asked for; only a ByteString that needs no conversion is its own
  \<open>toByteString\<close>.\<close>

theorem toByteThing_transcodes:
  assumes ok: "bt_ok s" and b: "byte_thing s self clasp h bs" and pl: "plenty e"
    and res: "result = ByteString_class \<or> result = ByteArray_class"
    and ch: "charsets_are j argv src tgt" and d: "direct c tgt src bs"
  shows "if result = ByteString_class \<and> clasp = ByteString_class \<and> same_charset src tgt
    then byteThing_toByteThing e c j sz self argv result s = Ret self s
    else case transcoded c tgt src bs of
        Some out \<Rightarrow> \<exists>p s'. byteThing_toByteThing e c j sz self argv result s = Ret p s' \<and> creates s result out p s'
      | None \<Rightarrow> \<exists>s'. byteThing_toByteThing e c j sz self argv result s = Throw s' \<and> frame s s'"
proof -
  have l: "hlength h = length bs" using byte_thing_length [OF b] by simp
  obtain ob where ob: "objects s self = Some ob" "oclass ob = clasp" "opriv ob = Some h" using b by (auto simp: byte_thing_def)
  have cl: "clasp = ByteString_class \<or> clasp = ByteArray_class" using b by (auto simp: byte_thing_def)
  have rd: "read_bytes s (buffer h) 0 (length bs) = Some bs" "buffer h < bnext s"
    by (rule byte_thing_bytes [OF ok b])+
  let ?conv = "rbind (transcodeBuf_toBuf e c tgt src (buffer h, 0) (length bs) s) (\<lambda>r s.
                      case r of None \<Rightarrow> Fault
                      | Some (newBuf, newBufLength) \<Rightarrow>
                          byteThing_fromCArray e (newBuf, 0) newBufLength NULL result sz True s)"
  have st: "byteThing_toByteThing e c j sz self argv result s
      = (if result = ByteString_class \<and> clasp = ByteString_class \<and> same_charset src tgt then Ret self s else ?conv)"
    using ch res cl
    by (auto simp: byteThing_toByteThing_def get_object_def ob l charsets_are_def same_charset_def strcaseeq_def Let_def
        split: list.splits)
  have tr: "delivers e s (transcoded c tgt src bs) (\<lambda>out r s'. \<exists>x. r = Some x \<and> holding s out x s')
      (transcodeBuf_toBuf e c tgt src (buffer h, 0) (length bs) s)"
    by (rule transcodeBuf_delivers [OF ok frame_refl [OF ok] _ _ d]) (use rd in simp_all)
  have isbt: "gpsee_isByteThingClass result" using res by (auto simp: gpsee_isByteThingClass_def)
  have "case transcoded c tgt src bs of
        Some out \<Rightarrow> \<exists>p s'. ?conv = Ret p s' \<and> creates s result out p s'
      | None \<Rightarrow> \<exists>s'. ?conv = Throw s' \<and> frame s s'"
  proof (cases "transcodeBuf_toBuf e c tgt src (buffer h, 0) (length bs) s")
    case (Throw s')
    with tr pl show ?thesis by (auto simp: delivers_def)
  next
    case (Ret r s')
    with tr obtain out p where o: "transcoded c tgt src bs = Some out" "frame s s'" "r = Some (p, length out)" "holds_bytes s s' p out"
      by (auto simp: delivers_def holding_def)
    from fromCArray_makes [OF ok o(2) isbt, of NULL True "(p, 0)" "length out" out e sz] o(4) pl made_creates
    show ?thesis by (auto simp: Ret o given_def source_bytes_def split: res.splits)
  qed (use tr in \<open>simp_all add: delivers_def\<close>)
  then show ?thesis unfolding st by simp
qed


section \<open>Types\<close>

text \<open>The methods of a ByteString, applied to any arguments.\<close>

datatype string_op = OpSlice "jsval list" | OpSubstr "jsval list" | OpSubstring "jsval list"
  | OpToByteString "jsval list" | OpToByteArray "jsval list"

fun run_string_op :: "env \<Rightarrow> coder \<Rightarrow> engine \<Rightarrow> nat \<Rightarrow> ptr \<Rightarrow> string_op \<Rightarrow> bst \<Rightarrow> ptr res" where
  "run_string_op e c j sz obj (OpSlice argv) s = ByteString_slice e sz obj argv s"
| "run_string_op e c j sz obj (OpSubstr argv) s = ByteString_substr e sz obj argv s"
| "run_string_op e c j sz obj (OpSubstring argv) s = ByteString_substring e sz obj argv s"
| "run_string_op e c j sz obj (OpToByteString argv) s = byteThing_toByteThing e c j sz obj argv ByteString_class s"
| "run_string_op e c j sz obj (OpToByteArray argv) s = byteThing_toByteThing e c j sz obj argv ByteArray_class s"

fun result_class :: "string_op \<Rightarrow> jsclass" where
  "result_class (OpToByteArray _) = ByteArray_class"
| "result_class _ = ByteString_class"


definition well_typed_result :: "bst \<Rightarrow> jsclass \<Rightarrow> ptr \<Rightarrow> bst \<Rightarrow> bool" where
  "well_typed_result s clasp p t \<longleftrightarrow>
     bt_ok t \<and> (\<exists>ob h. objects t p = Some ob \<and> oclass ob = clasp \<and> opriv ob = Some h \<and> handle_ok t h)
     \<and> (\<forall>q. objects s q \<noteq> None \<longrightarrow> objects t q = objects s q \<and> contents t q = contents s q)"

lemma creates_well_typed: "bt_ok s \<Longrightarrow> creates s clasp bs p t \<Longrightarrow> well_typed_result s clasp p t"
  using creates_keeps [of s clasp bs p t] bt_okD(4) [of t p]
  by (fastforce simp: well_typed_result_def creates_def handle_of_def)

lemma fromCArray_Ret:
  assumes ok: "bt_ok s" and "gpsee_isByteThingClass clasp" "fst buf < bnext s"
    and r: "byteThing_fromCArray e buf len NULL clasp sz False s = Ret p t"
  shows "well_typed_result s clasp p t"
proof (cases "buf = (NULL, 0)")
  case True
  with fromCArray_creates [OF ok assms(2), of buf "replicate len 0" len e sz] r show ?thesis
    using creates_well_typed [OF ok] by auto
next
  case False
  show ?thesis
  proof (cases "read_bytes s (fst buf) (snd buf) len")
    case (Some bs)
    with fromCArray_creates [OF ok assms(2), of buf bs len e sz] r False assms(3) show ?thesis
      using creates_well_typed [OF ok] by auto
  next
    case None
    then have len: "len \<noteq> 0" by (simp add: read_bytes_def split: if_splits)
    obtain b s2 where m: "JS_malloc e len (s\<lparr>bnext := Suc (bnext s)\<rparr>) = (b, s2)" by fastforce
    then have "blocks s2 q = blocks s q" if "q < bnext s" for q
      using that by (auto simp: JS_malloc_def Let_def split: if_splits)
    then have "read_bytes s2 (fst buf) (snd buf) len = None" using None assms(3) len by (simp add: read_bytes_def)
    then show ?thesis
      using r False len m assms(2) by (simp add: byteThing_fromCArray_def Let_def split: if_splits)
  qed
qed

lemma to_bytes:
  assumes ok: "bt_ok s" and b: "byte_thing s self clasp h bs" and d: "\<And>src tgt. direct c tgt src bs"
    and res: "result = ByteString_class \<or> result = ByteArray_class"
    and r: "byteThing_toByteThing e c j sz self argv result s = Ret p t"
  shows "well_typed_result s result p t"
proof -
  have l: "hlength h = length bs" using byte_thing_length [OF b] by simp
  obtain ob where ob: "objects s self = Some ob" "oclass ob = clasp" "opriv ob = Some h" using b by (auto simp: byte_thing_def)
  have rd: "read_bytes s (buffer h) 0 (length bs) = Some bs" "buffer h < bnext s"
    by (rule byte_thing_bytes [OF ok b])+
  have isbt: "gpsee_isByteThingClass result" using res by (auto simp: gpsee_isByteThingClass_def)
  have conv: "well_typed_result s result p t"
    if x: "rbind (transcodeBuf_toBuf e c tgt src (buffer h, 0) (length bs) s) (\<lambda>r s.
                      case r of None \<Rightarrow> Fault
                      | Some (newBuf, newBufLength) \<Rightarrow>
                          byteThing_fromCArray e (newBuf, 0) newBufLength NULL result sz True s) = Ret p t" for src tgt
  proof -
    have tr: "delivers e s (transcoded c tgt src bs) (\<lambda>out r s'. \<exists>x. r = Some x \<and> holding s out x s')
        (transcodeBuf_toBuf e c tgt src (buffer h, 0) (length bs) s)"
      by (rule transcodeBuf_delivers [OF ok frame_refl [OF ok] _ _ d]) (use rd in simp_all)
    show ?thesis
    proof (cases "transcodeBuf_toBuf e c tgt src (buffer h, 0) (length bs) s")
      case (Ret r s')
      with tr obtain out q where o: "frame s s'" "r = Some (q, length out)" "holds_bytes s s' q out"
        by (auto simp: delivers_def holding_def)
      from fromCArray_makes [OF ok o(1) isbt, of NULL True "(q, 0)" "length out" out e sz] o(3) x
      have "made s result out NULL p t" by (auto simp: Ret o given_def source_bytes_def split: res.splits)
      then show ?thesis by (rule creates_well_typed [OF ok made_creates])
    qed (use x in simp_all)
  qed
  have self: "well_typed_result s clasp self s"
    using ok ob bt_okD(4) [OF ok byte_thing_handle_of [OF b]] by (auto simp: well_typed_result_def)
  have sc: "result = clasp" if "\<not> (result = ByteArray_class \<or> clasp = ByteArray_class)"
    using that res b by (auto simp: byte_thing_def)
  show ?thesis
    using r conv self sc ob
    by (auto simp: byteThing_toByteThing_def get_object_def l Let_def the_or_fault_def split: if_splits option.splits)
qed




section \<open>Witnesses\<close>

definition test_engine :: engine where
  "test_engine = \<lparr>to_string = (\<lambda>v. case v of JString str \<Rightarrow> Some (map (\<lambda>c. of_nat (of_char c)) str) | _ \<Rightarrow> None),
     encode_chars = (\<lambda>cs. Some (map ucast cs)), stray = 77\<rparr>"

text \<open>The string of the bytes 104, 255, 104 and a new object to be constructed.\<close>

definition with_new :: "jsclass \<Rightarrow> bst" where
  "with_new clasp = one_string\<lparr>objects := (objects one_string)(5 \<mapsto> \<lparr>oclass = clasp, opriv = None, elems = []\<rparr>), bnext := 6\<rparr>"

lemma with_new_facts:
  "bt_ok (with_new clasp)" "objects (with_new clasp) 5 = Some \<lparr>oclass = clasp, opriv = None, elems = []\<rparr>"
  "contents (with_new clasp) 4 = Some [104, 255, 104]" "objects (with_new clasp) 4 = objects one_string 4"
  "blocks (with_new clasp) 77 = None"
proof -
  show "bt_ok (with_new clasp)"
    by (rule bt_okI) (auto simp: with_new_def one_string_def handle_of_def handle_ok_def split: if_splits)
  show "contents (with_new clasp) 4 = Some [104, 255, 104]"
    by (simp add: with_new_def contents_def one_string_def read_bytes_def load_block_def)
qed (simp_all add: with_new_def one_string_def)

theorem slice_is_list_slice_witness:
  "\<exists>o' t. ByteString_slice (test_env (\<lambda>v s. Throw s)) 40 4 [JInt (-2)] one_string = Ret o' t
    \<and> contents t o' = Some [255, 104]"
  using slice_is_list_slice [OF one_string_facts(1,4) plenty_test_env [of "\<lambda>v s. Throw s"], of "-2" None 40]
  by (auto simp: stop_arg_def slice_of_def index_of_def creates_def)

theorem substring_is_slice_witness:
  "ByteString_substring (test_env (\<lambda>v s. Throw s)) 40 4 [JInt 2, JInt (-7)] one_string
    = ByteString_slice (test_env (\<lambda>v s. Throw s)) 40 4 [JInt 0, JInt 2] one_string"
  using substring_is_slice [OF one_string_facts(4), of 2 "-7" "test_env (\<lambda>v s. Throw s)" 40] by simp

theorem substr_overreads_iff_witness:
  "ByteString_substr (test_env (\<lambda>v s. Throw s)) 40 4 [JInt 2, JInt 2] one_string = Fault"
proof -
  have "blocks one_string (buffer \<lparr>hlength = 3, buffer = 3, memoryOwner = 4, bt_immutable = True, capacity = 0\<rparr>) = Some [104, 255, 104]"
    by (simp add: one_string_def)
  from substr_overreads_iff [OF one_string_facts(1,4) plenty_test_env [of "\<lambda>v s. Throw s"] this, of 2 2 40]
  show ?thesis by simp
qed

theorem split_bytes_witness:
  "\<exists>arr t. ByteString_split (test_env (\<lambda>v s. Throw s)) 40 4 [JInt 255] one_string = Ret arr t
    \<and> splitting one_string arr [[104], [104]] t"
  using split_bytes [OF one_string_facts(1,4) plenty_test_env [of "\<lambda>v s. Throw s"], of 255 40] by auto

theorem ByteString_constructs_witness:
  "\<exists>s'. ByteString_Constructor (test_env (\<lambda>v s. Throw s)) test_coder test_engine 40 5 [JObj 4] (with_new ByteString_class) = Ret 5 s'
    \<and> constructed (with_new ByteString_class) ByteString_class True [104, 255, 104] 5 s'"
proof -
  have o: "objects (with_new ByteString_class) 4 = Some \<lparr>oclass = ByteString_class, opriv = Some \<lparr>hlength = 3, buffer = 3,
        memoryOwner = 4, bt_immutable = True, capacity = 0\<rparr>, elems = []\<rparr>"
    by (simp add: with_new_facts(4)) (simp add: one_string_def)
  have ac: "acceptable test_coder test_engine (with_new ByteString_class) [JObj 4]"
    by (simp add: acceptable_def o JSUINT_MOD_def test_engine_def)
  have "argument_bytes (\<lambda>v. None) test_coder test_engine False (with_new ByteString_class) [JObj 4] = Some [104, 255, 104]"
    by (simp add: argument_bytes_def o with_new_facts(3))
  with ByteString_constructs [OF calm_test_env with_new_facts(1) ac with_new_facts(2), of 40] plenty_test_env
  show ?thesis by (auto split: res.splits)
qed

theorem ByteArray_constructs_witness:
  "\<exists>s'. ByteArray_Constructor (test_env (\<lambda>v s. Throw s)) test_coder test_engine 40 5 [JInt 3] (with_new ByteArray_class) = Ret 5 s'
    \<and> constructed (with_new ByteArray_class) ByteArray_class False [0, 0, 0] 5 s'"
proof -
  have ac: "acceptable test_coder test_engine (with_new ByteArray_class) [JInt 3]"
    by (simp add: acceptable_def test_engine_def)
  have "argument_bytes (\<lambda>v. None) test_coder test_engine True (with_new ByteArray_class) [JInt 3] = Some [0, 0, 0]"
    by (simp add: argument_bytes_def number_of_def whole_size_def SIZE_MOD_def numeral_3_eq_3)
  with ByteArray_constructs [OF calm_test_env with_new_facts(1) ac with_new_facts(2), of 40] plenty_test_env
  show ?thesis by (auto simp: test_engine_def split: res.splits)
qed

theorem empty_string_owns_stray_pointer_witness:
  "\<exists>s'. ByteArray_Constructor (test_env (\<lambda>v s. Throw s)) test_coder test_engine 40 5 [JString '''', JString ''latin1'']
      (with_new ByteArray_class) = Ret 5 s' \<and> byteThing_Finalize 5 s' = None"
  using empty_string_owns_stray_pointer [OF plenty_test_env with_new_facts(1,2), of test_engine "JString ''''"
    "\<lambda>v s. Throw s" test_coder 40 "JString ''latin1''"] with_new_facts(5)
  by (auto simp: test_engine_def)

lemma test_latin1:
  "GetStringBytes (map (\<lambda>c. of_nat (of_char c)) ''latin1'') = ''latin1''"
  "concat (map char_bytes [104, 105]) = [104, 0, 105, 0]"
  by code_simp+

theorem string_roundtrip_witness:
  "\<exists>s' s''. ByteString_Constructor (test_env (\<lambda>v s. Throw s)) test_coder test_engine 40 5 [JString ''hi'', JString ''latin1'']
      (with_new ByteString_class) = Ret 5 s'
    \<and> byteThing_decodeToString (test_env (\<lambda>v s. Throw s)) test_coder test_engine 5 [JString ''latin1''] ByteString_class s' = Ret [104, 105] s''"
proof -
  have ne: "\<not> strcaseeq ''utf-16LE'' ''latin1''" by code_simp
  have dd: "direct test_coder (Some ''latin1'') (Some DEFAULT_UTF_16_FLAVOUR) [104, 0, 105, 0]"
    "transcoded test_coder (Some ''latin1'') (Some DEFAULT_UTF_16_FLAVOUR) [104, 0, 105, 0] = Some [104, 105]"
    "direct test_coder None (Some ''latin1'') [104, 105]"
    "transcoded test_coder None (Some ''latin1'') [104, 105] = Some [104, 0, 105, 0]"
    by (simp_all add: direct_def transcoded_def fits_def same_charset_def charset_name_def DEFAULT_UTF_16_FLAVOUR_def test_coder_def
        converted.simps produced.simps SIZE_MOD_def ne)
  have str: "to_string test_engine (JString ''hi'') = Some [104, 105]"
    "to_string test_engine (JString ''latin1'') = Some (map (\<lambda>c. of_nat (of_char c)) ''latin1'')"
    by (simp_all add: test_engine_def)
  show ?thesis
    using string_roundtrip [OF calm_test_env plenty_test_env with_new_facts(1,2) str(1) str(2), unfolded test_latin1, OF _ dd]
    by (simp add: gpsee_isFalsy_def)
qed

theorem toByteThing_transcodes_witness:
  "\<exists>p s'. byteThing_toByteThing (test_env (\<lambda>v s. Throw s)) test_coder test_engine 40 4 [] ByteArray_class one_string = Ret p s'
    \<and> creates one_string ByteArray_class [104, 255, 104] p s'"
  using toByteThing_transcodes [OF one_string_facts(1,4) plenty_test_env [of "\<lambda>v s. Throw s"], of ByteArray_class test_engine "[]"
    None None test_coder 40]
  by (simp add: charsets_are_def direct_def same_charset_def transcoded_def)


end
