(* ===== verification/RequireLock.thy ===== *)
theory RequireLock
  imports Prelude
begin

text \<open>
  The re-entrant lock around \<open>require\<close> (\<open>requireLock\<close> and \<open>requireUnlock\<close> of
  gpsee\_modules.c) with any number of threads.  Each compare-and-swap, each access to
  \<open>requireLockDepth\<close> and each test is one atomic step; threads interleave freely.  A thread
  calls \<open>requireUnlock\<close> only for a lock it took before.

  \<open>nest t\<close> counts the locks thread \<open>t\<close> has taken and not given back; the code does not
  have it, the proofs do.
\<close>

section \<open>The steps\<close>

datatype lock_pc =
    Idle
  | LockReentry
  | LockAcquire
  | LockSleep
  | LockIncr
  | UnlockAssert
  | UnlockDecr
  | UnlockTest
  | UnlockRelease
  | NotReached

record lock_state =
  requireLockThread :: "nat option"
  lockDepth :: nat
  lock_pc :: "nat \<Rightarrow> lock_pc"
  nest :: "nat \<Rightarrow> nat"

definition goto :: "nat \<Rightarrow> lock_pc \<Rightarrow> lock_state \<Rightarrow> lock_state" where
  "goto t l s = s\<lparr>lock_pc := (lock_pc s)(t := l)\<rparr>"

text \<open>The next step of a thread that is inside one of the two functions.\<close>

definition lock_next :: "nat \<Rightarrow> lock_state \<Rightarrow> lock_state" where
  "lock_next t s =
     (case lock_pc s t of
        Idle \<Rightarrow> s
      | LockReentry \<Rightarrow> goto t (if requireLockThread s = Some t then LockIncr else LockAcquire) s
      | LockAcquire \<Rightarrow>
          if requireLockThread s = None
          then goto t LockIncr (s\<lparr>requireLockThread := Some t\<rparr>)
          else goto t LockSleep s
      | LockSleep \<Rightarrow> goto t LockAcquire s
      | LockIncr \<Rightarrow>
          goto t Idle (s\<lparr>lockDepth := Suc (lockDepth s), nest := (nest s)(t := Suc (nest s t))\<rparr>)
      | UnlockAssert \<Rightarrow>
          goto t (if lockDepth s \<noteq> 0 \<and> requireLockThread s = Some t then UnlockDecr else NotReached) s
      | UnlockDecr \<Rightarrow>
          goto t UnlockTest (s\<lparr>lockDepth := lockDepth s - 1, nest := (nest s)(t := nest s t - 1)\<rparr>)
      | UnlockTest \<Rightarrow> goto t (if lockDepth s = 0 then UnlockRelease else Idle) s
      | UnlockRelease \<Rightarrow>
          if requireLockThread s = Some t then goto t Idle (s\<lparr>requireLockThread := None\<rparr>)
          else goto t NotReached s
      | NotReached \<Rightarrow> s)"

inductive lock_step :: "lock_state \<Rightarrow> lock_state \<Rightarrow> bool" where
  call_lock: "lock_pc s t = Idle \<Longrightarrow> lock_step s (goto t LockReentry s)"
| call_unlock: "lock_pc s t = Idle \<Longrightarrow> 0 < nest s t \<Longrightarrow> lock_step s (goto t UnlockAssert s)"
| inside: "lock_pc s t \<noteq> Idle \<Longrightarrow> lock_step s (lock_next t s)"

inductive_cases lock_stepE: "lock_step s s'"

definition lock_init :: lock_state where
  "lock_init = \<lparr>requireLockThread = None, lockDepth = 0, lock_pc = (\<lambda>_. Idle), nest = (\<lambda>_. 0)\<rparr>"

inductive lock_reachable :: "lock_state \<Rightarrow> bool" where
  start: "lock_reachable lock_init"
| more: "lock_reachable s \<Longrightarrow> lock_step s s' \<Longrightarrow> lock_reachable s'"

section \<open>The invariant\<close>

text \<open>What holds of each thread: where it is, how deep it is in, and who has the lock.\<close>

definition thread_ok :: "nat option \<Rightarrow> nat \<Rightarrow> nat \<Rightarrow> lock_pc \<Rightarrow> nat \<Rightarrow> bool" where
  "thread_ok owner d t pc n \<longleftrightarrow>
     (0 < n \<or> pc \<in> {LockIncr, UnlockDecr, UnlockTest, UnlockRelease} \<longleftrightarrow> owner = Some t)
     \<and> (owner = Some t \<longrightarrow> d = n)
     \<and> (pc \<in> {UnlockAssert, UnlockDecr} \<longrightarrow> 0 < n)
     \<and> (pc \<in> {UnlockRelease, LockAcquire, LockSleep} \<longrightarrow> n = 0)
     \<and> pc \<noteq> NotReached"

definition lock_inv :: "lock_state \<Rightarrow> bool" where
  "lock_inv s \<longleftrightarrow>
     (\<forall>t. thread_ok (requireLockThread s) (lockDepth s) t (lock_pc s t) (nest s t))
     \<and> (requireLockThread s = None \<longrightarrow> lockDepth s = 0)"

lemma lock_inv_init: "lock_inv lock_init"
  by (simp add: lock_inv_def lock_init_def thread_ok_def)

lemma thread_ok_other:
  "thread_ok owner d u pc n \<Longrightarrow> owner \<noteq> Some u \<Longrightarrow> owner' \<noteq> Some u \<Longrightarrow> thread_ok owner' d' u pc n"
  by (auto simp: thread_ok_def)

text \<open>Only the stepping thread's part of the invariant needs a look.\<close>

lemma lock_inv_upd:
  assumes inv: "lock_inv s"
    and ok: "thread_ok owner d t l n" and free: "owner = None \<longrightarrow> d = 0"
    and who: "owner = requireLockThread s \<and> d = lockDepth s
      \<or> requireLockThread s \<in> {None, Some t} \<and> owner \<in> {None, Some t}"
  shows "lock_inv (goto t l (s\<lparr>requireLockThread := owner, lockDepth := d, nest := (nest s)(t := n)\<rparr>))"
  unfolding lock_inv_def
proof (intro conjI allI)
  fix u
  have old: "thread_ok (requireLockThread s) (lockDepth s) u (lock_pc s u) (nest s u)"
    using inv by (simp add: lock_inv_def)
  have "thread_ok owner d u (((lock_pc s)(t := l)) u) (((nest s)(t := n)) u)"
  proof (cases "u = t")
    case False
    with who old thread_ok_other [OF old, of owner d] show ?thesis by auto
  qed (simp add: ok)
  then show "thread_ok (requireLockThread (goto t l (s\<lparr>requireLockThread := owner, lockDepth := d, nest := (nest s)(t := n)\<rparr>)))
      (lockDepth (goto t l (s\<lparr>requireLockThread := owner, lockDepth := d, nest := (nest s)(t := n)\<rparr>))) u
      (lock_pc (goto t l (s\<lparr>requireLockThread := owner, lockDepth := d, nest := (nest s)(t := n)\<rparr>)) u)
      (nest (goto t l (s\<lparr>requireLockThread := owner, lockDepth := d, nest := (nest s)(t := n)\<rparr>)) u)"
    by (simp add: goto_def)
qed (use free in \<open>simp add: goto_def\<close>)

lemma lock_inv_goto:
  assumes "lock_inv s" and "thread_ok (requireLockThread s) (lockDepth s) t l (nest s t)"
  shows "lock_inv (goto t l s)"
proof -
  have "requireLockThread s = None \<longrightarrow> lockDepth s = 0" using assms(1) by (simp add: lock_inv_def)
  from lock_inv_upd [OF assms this] show ?thesis by simp
qed

lemma lock_inv_next:
  assumes inv: "lock_inv s"
  shows "lock_inv (lock_next t s)"
proof -
  have me: "thread_ok (requireLockThread s) (lockDepth s) t (lock_pc s t) (nest s t)"
    using inv by (simp add: lock_inv_def)
  have free: "requireLockThread s = None \<longrightarrow> lockDepth s = 0" using inv by (simp add: lock_inv_def)
  show ?thesis
  proof (cases "lock_pc s t")
    case Idle
    with inv show ?thesis by (simp add: lock_next_def)
  next
    case LockReentry
    with me have "thread_ok (requireLockThread s) (lockDepth s) t
        (if requireLockThread s = Some t then LockIncr else LockAcquire) (nest s t)" by (auto simp: thread_ok_def)
    from lock_inv_goto [OF inv this] LockReentry show ?thesis by (simp add: lock_next_def)
  next
    case LockAcquire
    show ?thesis
    proof (cases "requireLockThread s")
      case None
      with me LockAcquire free have "thread_ok (Some t) (lockDepth s) t LockIncr (nest s t)" by (simp add: thread_ok_def)
      from lock_inv_upd [OF inv this] None LockAcquire show ?thesis by (simp add: lock_next_def)
    next
      case (Some u)
      with me LockAcquire have "thread_ok (requireLockThread s) (lockDepth s) t LockSleep (nest s t)"
        by (auto simp: thread_ok_def)
      from lock_inv_goto [OF inv this] Some LockAcquire show ?thesis by (simp add: lock_next_def)
    qed
  next
    case LockSleep
    with me have "thread_ok (requireLockThread s) (lockDepth s) t LockAcquire (nest s t)" by (auto simp: thread_ok_def)
    from lock_inv_goto [OF inv this] LockSleep show ?thesis by (simp add: lock_next_def)
  next
    case LockIncr
    with me have o: "requireLockThread s = Some t" and
      "thread_ok (requireLockThread s) (Suc (lockDepth s)) t Idle (Suc (nest s t))" by (simp_all add: thread_ok_def)
    from lock_inv_upd [OF inv this(2)] have "lock_inv (goto t Idle (s\<lparr>requireLockThread := requireLockThread s,
        lockDepth := Suc (lockDepth s), nest := (nest s)(t := Suc (nest s t))\<rparr>))" by (metis o insertCI option.distinct(1))
    with LockIncr show ?thesis by (simp add: lock_next_def)
  next
    case UnlockAssert
    with me have o: "requireLockThread s = Some t" "lockDepth s \<noteq> 0" and
      "thread_ok (requireLockThread s) (lockDepth s) t UnlockDecr (nest s t)" by (auto simp: thread_ok_def)
    from lock_inv_goto [OF inv this(3)] o UnlockAssert show ?thesis by (simp add: lock_next_def)
  next
    case UnlockDecr
    with me have o: "requireLockThread s = Some t" and
      "thread_ok (requireLockThread s) (lockDepth s - 1) t UnlockTest (nest s t - 1)" by (simp_all add: thread_ok_def)
    from lock_inv_upd [OF inv this(2)] have "lock_inv (goto t UnlockTest (s\<lparr>requireLockThread := requireLockThread s,
        lockDepth := lockDepth s - 1, nest := (nest s)(t := nest s t - 1)\<rparr>))" by (metis o insertCI option.distinct(1))
    with UnlockDecr show ?thesis by (simp add: lock_next_def)
  next
    case UnlockTest
    with me have "thread_ok (requireLockThread s) (lockDepth s) t
        (if lockDepth s = 0 then UnlockRelease else Idle) (nest s t)" by (auto simp: thread_ok_def)
    from lock_inv_goto [OF inv this] UnlockTest show ?thesis by (simp add: lock_next_def)
  next
    case UnlockRelease
    with me have o: "requireLockThread s = Some t" "lockDepth s = 0" "thread_ok None (lockDepth s) t Idle (nest s t)"
      by (auto simp: thread_ok_def)
    from lock_inv_upd [OF inv o(3)] have "lock_inv (goto t Idle (s\<lparr>requireLockThread := None,
        lockDepth := lockDepth s, nest := (nest s)(t := nest s t)\<rparr>))" by (metis o(1,2) insertCI)
    with UnlockRelease o(1) show ?thesis by (simp add: lock_next_def)
  next
    case NotReached
    with me show ?thesis by (simp add: thread_ok_def)
  qed
qed

lemma lock_inv_step:
  assumes inv: "lock_inv s" and st: "lock_step s s'"
  shows "lock_inv s'"
  using st
proof cases
  case (call_lock t)
  have "thread_ok (requireLockThread s) (lockDepth s) t (lock_pc s t) (nest s t)" using inv by (simp add: lock_inv_def)
  with call_lock have "thread_ok (requireLockThread s) (lockDepth s) t LockReentry (nest s t)"
    by (simp add: thread_ok_def)
  from lock_inv_goto [OF inv this] call_lock show ?thesis by simp
next
  case (call_unlock t)
  have "thread_ok (requireLockThread s) (lockDepth s) t (lock_pc s t) (nest s t)" using inv by (simp add: lock_inv_def)
  with call_unlock have "thread_ok (requireLockThread s) (lockDepth s) t UnlockAssert (nest s t)"
    by (simp add: thread_ok_def)
  from lock_inv_goto [OF inv this] call_unlock show ?thesis by simp
next
  case (inside t)
  with lock_inv_next [OF inv] show ?thesis by simp
qed

lemma lock_reachable_inv: "lock_reachable s \<Longrightarrow> lock_inv s"
  by (induction rule: lock_reachable.induct) (auto intro: lock_inv_init lock_inv_step)

lemma lock_thread: "lock_inv s \<Longrightarrow> thread_ok (requireLockThread s) (lockDepth s) t (lock_pc s t) (nest s t)"
  by (simp add: lock_inv_def)

section \<open>The abstract lock\<close>

type_synonym abs_lock = "(nat \<times> nat) option"

inductive abs_step :: "abs_lock \<Rightarrow> abs_lock \<Rightarrow> bool" where
  acquire: "abs_step None (Some (t, 1))"
| enter_again: "0 < n \<Longrightarrow> abs_step (Some (t, n)) (Some (t, Suc n))"
| leave_level: "0 < n \<Longrightarrow> abs_step (Some (t, Suc n)) (Some (t, n))"
| release: "abs_step (Some (t, 1)) None"

definition abs_of :: "lock_state \<Rightarrow> abs_lock" where
  "abs_of s = (case requireLockThread s of
     None \<Rightarrow> None | Some t \<Rightarrow> if lockDepth s = 0 then None else Some (t, lockDepth s))"

lemma abs_goto: "abs_of (goto t l s) = abs_of s"
  by (cases "requireLockThread s") (simp_all add: abs_of_def goto_def)

lemma abs_incr:
  assumes "requireLockThread s = Some t"
  shows "abs_step (abs_of s) (abs_of (s\<lparr>lockDepth := Suc (lockDepth s), nest := n\<rparr>))"
  using assms abs_step.acquire [of t] abs_step.enter_again [of "lockDepth s" t] by (cases "lockDepth s") (auto simp: abs_of_def)

lemma abs_decr:
  assumes "requireLockThread s = Some t" and "0 < lockDepth s"
  shows "abs_step (abs_of s) (abs_of (s\<lparr>lockDepth := lockDepth s - 1, nest := n\<rparr>))"
proof (cases "lockDepth s = 1")
  case True
  with assms abs_step.release [of t] show ?thesis by (simp add: abs_of_def)
next
  case False
  with assms(2) obtain k where "lockDepth s = Suc k" "0 < k" by (cases "lockDepth s") auto
  with assms(1) abs_step.leave_level [of k t] show ?thesis by (simp add: abs_of_def)
qed

section \<open>Properties\<close>

text \<open>C7: Whatever the threads do and in whatever order, at most one of them is inside the lock, the shared
  depth is that thread's own nesting and zero when nobody is inside, neither assertion fails,
  and the branch marked as not reached is not reached.\<close>

theorem require_lock_exclusive:
  assumes "lock_reachable s"
  shows "(\<forall>t u. 0 < nest s t \<and> 0 < nest s u \<longrightarrow> t = u)
    \<and> (\<forall>t. 0 < nest s t \<longrightarrow> requireLockThread s = Some t \<and> lockDepth s = nest s t)
    \<and> ((\<forall>t. nest s t = 0) \<longrightarrow> lockDepth s = 0)
    \<and> (\<forall>t. lock_pc s t = UnlockAssert \<longrightarrow> lockDepth s \<noteq> 0 \<and> requireLockThread s = Some t)
    \<and> (\<forall>t. lock_pc s t \<noteq> NotReached)"
proof -
  have inv: "lock_inv s" using assms by (rule lock_reachable_inv)
  note th = lock_thread [OF inv, unfolded thread_ok_def]
  have own: "0 < nest s t \<Longrightarrow> requireLockThread s = Some t \<and> lockDepth s = nest s t" for t using th [of t] by auto
  have "lockDepth s = 0" if "\<forall>t. nest s t = 0"
    using inv that th by (cases "requireLockThread s") (auto simp: lock_inv_def)
  moreover have "t = u" if "0 < nest s t" "0 < nest s u" for t u using own [OF that(1)] own [OF that(2)] by simp
  moreover have "lock_pc s t \<noteq> NotReached" for t using th [of t] by blast
  moreover have "lock_pc s t = UnlockAssert \<Longrightarrow> 0 < nest s t" for t using th [of t] by blast
  ultimately show ?thesis using own by (metis neq0_conv)
qed

text \<open>Thread 1 locks twice while thread 2 waits.\<close>

definition lock_run :: lock_state where
  "lock_run = lock_next 2 (lock_next 2 (goto 2 LockReentry
     (lock_next 1 (lock_next 1 (goto 1 LockReentry
       (lock_next 1 (lock_next 1 (lock_next 1 (goto 1 LockReentry lock_init)))))))))"

lemma lock_run_reachable: "lock_reachable lock_run"
  unfolding lock_run_def
  by (rule lock_reachable.more [OF _ inside] lock_reachable.more [OF _ call_lock] lock_reachable.start,
      (rule lock_reachable.more [OF _ inside] lock_reachable.more [OF _ call_lock] lock_reachable.start)+)
    (simp_all add: lock_next_def goto_def lock_init_def)

theorem require_lock_exclusive_witness:
  "nest lock_run 1 = 2 \<and> lock_pc lock_run 2 = LockSleep \<and> requireLockThread lock_run = Some 1 \<and> lockDepth lock_run = 2"
proof -
  have "nest lock_run 1 = 2" "lock_pc lock_run 2 = LockSleep"
    by (simp_all add: lock_run_def lock_next_def goto_def lock_init_def)
  with require_lock_exclusive [OF lock_run_reachable] show ?thesis by (metis zero_less_numeral)
qed

text \<open>C8: The lock refines a plain counted lock: every step of a thread leaves the pair of owner and count
  alone, or takes the free lock, enters it again, leaves one level, or frees it.\<close>

theorem require_lock_refines:
  assumes "lock_reachable s" and "lock_step s s'"
  shows "abs_of s' = abs_of s \<or> abs_step (abs_of s) (abs_of s')"
  using assms(2)
proof cases
  case (call_lock t)
  then show ?thesis by (simp add: abs_goto)
next
  case (call_unlock t)
  then show ?thesis by (simp add: abs_goto)
next
  case (inside t)
  have inv: "lock_inv s" using assms(1) by (rule lock_reachable_inv)
  note th = lock_thread [OF inv, of t, unfolded thread_ok_def]
  show ?thesis
  proof (cases "lock_pc s t")
    case LockAcquire
    show ?thesis
    proof (cases "requireLockThread s")
      case None
      with inv have "lockDepth s = 0" by (simp add: lock_inv_def)
      with None LockAcquire inside show ?thesis by (simp add: lock_next_def abs_of_def goto_def)
    qed (use LockAcquire inside in \<open>simp add: lock_next_def abs_goto\<close>)
  next
    case LockIncr
    with th have "requireLockThread s = Some t" by simp
    from abs_incr [OF this] LockIncr inside show ?thesis by (simp add: lock_next_def abs_goto)
  next
    case UnlockDecr
    with th have o: "requireLockThread s = Some t" and "0 < lockDepth s" by auto
    from abs_decr [OF this] UnlockDecr inside show ?thesis by (simp add: lock_next_def abs_goto)
  next
    case UnlockRelease
    with th have o: "requireLockThread s = Some t" and "lockDepth s = 0" by auto
    with o UnlockRelease inside show ?thesis by (simp add: lock_next_def abs_of_def goto_def)
  qed (use inside in \<open>simp_all add: lock_next_def abs_goto\<close>)
qed

theorem require_lock_refines_witness:
  "lock_step lock_run (goto 1 UnlockAssert lock_run)
    \<and> (abs_of (goto 1 UnlockAssert lock_run) = abs_of lock_run
       \<or> abs_step (abs_of lock_run) (abs_of (goto 1 UnlockAssert lock_run)))"
proof -
  have "lock_step lock_run (goto 1 UnlockAssert lock_run)"
    by (rule call_unlock) (simp_all add: lock_run_def lock_next_def goto_def lock_init_def)
  from require_lock_refines [OF lock_run_reachable this] this show ?thesis by blast
qed

end
