(* ===== verification/Threads.thy ===== *)
theory Threads
  imports Prelude
begin

text \<open>
  The threads of modules/thread/thread.c.  A Thread object has a handle (\<open>thread_private\<close>) whose
  state changes by compare-and-swap; scripts on any native thread start and join it, the thread list
  keeps it alive, and the garbage collector finalizes it.

  An agent is a native thread that executes one of the functions; its place in the function is its
  \<open>th_pc\<close>.  Each access to a shared field, each compare-and-swap and each call of NSPR or the JSAPI is
  one atomic step, and agents interleave freely.  Calls that may fail are decided by the \<open>luck\<close> of
  the step.  NSPR threads are numbered in the order they are made, \<open>NULL\<close> is no thread.
\<close>

section \<open>State\<close>

datatype thState = thState_new | thState_runnable | thState_joining | thState_dead

datatype thread_termination = th_term_not | th_term_normal | th_term_abnormal

record thread_private =
  th_state :: thState
  th_termination :: thread_termination
  th_thread :: ptr

definition thread_privateInitialzer :: thread_private where
  "thread_privateInitialzer = \<lparr>th_state = thState_new, th_termination = th_term_not, th_thread = NULL\<rparr>"

text \<open>A native thread runs the script of an object, has stored how it ended, has ended, or was joined;
  then its memory is free.\<close>

datatype native = Running ptr | Terminated ptr | Finished ptr | Joined

datatype th_result = Returned bool | Threw string

datatype th_pc =
    Idle
  | StartState ptr
  | StartList ptr
  | StartContext ptr
  | StartArgv ptr
  | StartCreate ptr
  | StartStore ptr ptr
  | StartCheck ptr
  | StartUndo ptr
  | StartUnlist ptr
  | JoinSelf ptr
  | JoinCheck ptr
  | JoinState ptr
  | JoinRead ptr
  | JoinClear ptr ptr
  | JoinWait ptr ptr
  | JoinDead ptr
  | JoinUnlist ptr
  | StartNotReached ptr
  | JoinNotReached ptr
  | Crashed
  | Done th_result

record th_sys =
  th_objs :: "ptr \<Rightarrow> thread_private option"
  threadList :: "ptr list"
  natives :: "ptr \<Rightarrow> native option"
  next_native :: ptr
  th_pc :: "ptr \<Rightarrow> th_pc"
  joined :: "ptr list"

datatype luck = Good | Bad | Worse

section \<open>The steps\<close>

definition th_goto :: "ptr \<Rightarrow> th_pc \<Rightarrow> th_sys \<Rightarrow> th_sys" where
  "th_goto a l s = s\<lparr>th_pc := (th_pc s)(a := l)\<rparr>"

definition th_set :: "ptr \<Rightarrow> thread_private \<Rightarrow> th_sys \<Rightarrow> th_sys" where
  "th_set p h s = s\<lparr>th_objs := (th_objs s)(p \<mapsto> h)\<rparr>"

text \<open>\<open>jsval_CompareAndSwap\<close> on the state of a handle.\<close>

definition th_cas :: "ptr \<Rightarrow> thState \<Rightarrow> thState \<Rightarrow> (th_sys \<Rightarrow> th_sys) \<Rightarrow> (th_sys \<Rightarrow> th_sys) \<Rightarrow> th_sys \<Rightarrow> th_sys option" where
  "th_cas p old new yes no s =
     map_option (\<lambda>h. if th_state h = old then yes (th_set p (h\<lparr>th_state := new\<rparr>) s) else no s) (th_objs s p)"

text \<open>\<open>thread_addToList\<close>: a property of the list, which may already be there.\<close>

definition thread_addToList :: "ptr \<Rightarrow> th_sys \<Rightarrow> th_sys" where
  "thread_addToList p s = s\<lparr>threadList := List.insert p (threadList s)\<rparr>"

text \<open>\<open>thread_removeFromList\<close>: the properties are made writable and the one of the thread is deleted.
  The result is the message to throw: deleting answers JS\_TRUE when it worked, and that is taken for
  a failure.\<close>

definition thread_removeFromList :: "luck \<Rightarrow> ptr \<Rightarrow> th_sys \<Rightarrow> string option \<times> th_sys" where
  "thread_removeFromList l p s =
     (case l of
        Bad \<Rightarrow> (Some ''.removeFromList.setPropertyAttributes'', s)
      | Good \<Rightarrow> (Some ''.removeFromList.deleteProperty'', s\<lparr>threadList := removeAll p (threadList s)\<rparr>)
      | Worse \<Rightarrow> (None, s))"

text \<open>\<open>th_start\<close>, from the compare-and-swap to its return.\<close>

definition th_start :: "luck \<Rightarrow> ptr \<Rightarrow> th_sys \<Rightarrow> th_sys option" where
  "th_start l a s =
     (case th_pc s a of
        StartState p \<Rightarrow> th_cas p thState_new thState_runnable (th_goto a (StartList p)) (th_goto a (Done (Threw ''.start.state''))) s
      | StartList p \<Rightarrow>
          Some (if l = Good then th_goto a (StartContext p) (thread_addToList p s)
                else th_goto a (Done (Threw ''.addToList.defineProperty'')) s)
      | StartContext p \<Rightarrow> Some (th_goto a (if l = Good then StartArgv p else Done (Threw ''.start.context'')) s)
      | StartArgv p \<Rightarrow> Some (th_goto a (if l = Good then StartCreate p else Crashed) s)
      | StartCreate p \<Rightarrow>
          Some (if l = Good
                then th_goto a (StartStore p (next_native s))
                  (s\<lparr>natives := (natives s)(next_native s \<mapsto> Running p), next_native := Suc (next_native s)\<rparr>)
                else th_goto a (StartStore p NULL) s)
      | StartStore p t \<Rightarrow> map_option (\<lambda>h. th_goto a (StartCheck p) (th_set p (h\<lparr>th_thread := t\<rparr>) s)) (th_objs s p)
      | StartCheck p \<Rightarrow> map_option (\<lambda>h. th_goto a (if th_thread h = NULL then StartUndo p else Done (Returned True)) s) (th_objs s p)
      | StartUndo p \<Rightarrow>
          th_cas p thState_runnable thState_dead
            (\<lambda>s. th_goto a (StartUnlist p) (case th_objs s p of None \<Rightarrow> s | Some h \<Rightarrow> th_set p (h\<lparr>th_termination := th_term_abnormal\<rparr>) s))
            (th_goto a (StartNotReached p)) s
      | StartUnlist p \<Rightarrow>
          Some (case thread_removeFromList l p s of
                  (Some e, s) \<Rightarrow> th_goto a (Done (Threw e)) s
                | (None, s) \<Rightarrow> th_goto a (Done (Returned True)) s)
      | _ \<Rightarrow> None)"

text \<open>\<open>th_join\<close> looks for a thread that joins itself and leaves the rest to \<open>thread_join\<close>.\<close>

definition th_join :: "ptr \<Rightarrow> th_sys \<Rightarrow> th_sys option" where
  "th_join a s =
     (case th_pc s a of
        JoinSelf p \<Rightarrow> map_option (\<lambda>h. th_goto a (if th_thread h = a then Done (Threw ''.join.this'') else JoinCheck p) s) (th_objs s p)
      | _ \<Rightarrow> None)"

text \<open>\<open>thread_join\<close>.  \<open>None\<close>: the agent has to wait.  PR\_JoinThread waits for the end of the thread, and
  may fail at any time; an interrupt makes it start again.\<close>

definition thread_join :: "luck \<Rightarrow> ptr \<Rightarrow> th_sys \<Rightarrow> th_sys option" where
  "thread_join l a s =
     (case th_pc s a of
        JoinCheck p \<Rightarrow> map_option (\<lambda>h. th_goto a (if th_thread h = NULL then Done (Returned False) else JoinState p) s) (th_objs s p)
      | JoinState p \<Rightarrow> th_cas p thState_runnable thState_joining (th_goto a (JoinRead p)) (th_goto a (Done (Threw ''.join.state''))) s
      | JoinRead p \<Rightarrow> map_option (\<lambda>h. th_goto a (JoinClear p (th_thread h)) s) (th_objs s p)
      | JoinClear p t \<Rightarrow> map_option (\<lambda>h. th_goto a (JoinWait p t) (th_set p (h\<lparr>th_thread := NULL\<rparr>) s)) (th_objs s p)
      | JoinWait p t \<Rightarrow>
          (case natives s t of
             Some (Finished q) \<Rightarrow>
               Some (if l = Good then th_goto a (JoinDead p) (s\<lparr>natives := (natives s)(t \<mapsto> Joined), joined := t # joined s\<rparr>)
                     else th_goto a (Done (Threw ''.join.error'')) s)
           | Some Joined \<Rightarrow> Some (th_goto a Crashed s)
           | Some _ \<Rightarrow> if l = Good then None else Some (th_goto a (Done (Threw ''.join.error'')) s)
           | None \<Rightarrow> Some (th_goto a Crashed s))
      | JoinDead p \<Rightarrow> th_cas p thState_joining thState_dead (th_goto a (JoinUnlist p)) (th_goto a (JoinNotReached p)) s
      | JoinUnlist p \<Rightarrow> Some (th_goto a (Done (Returned True)) (snd (thread_removeFromList l p s)))
      | _ \<Rightarrow> None)"

text \<open>Which of the functions an agent is in.\<close>

fun in_start :: "th_pc \<Rightarrow> bool" where
  "in_start (StartState p) = True"
| "in_start (StartList p) = True"
| "in_start (StartContext p) = True"
| "in_start (StartArgv p) = True"
| "in_start (StartCreate p) = True"
| "in_start (StartStore p t) = True"
| "in_start (StartCheck p) = True"
| "in_start (StartUndo p) = True"
| "in_start (StartUnlist p) = True"
| "in_start l = False"

fun in_join :: "th_pc \<Rightarrow> bool" where
  "in_join (JoinSelf p) = True"
| "in_join l = False"

definition th_next :: "luck \<Rightarrow> ptr \<Rightarrow> th_sys \<Rightarrow> th_sys option" where
  "th_next l a s =
     (if in_start (th_pc s a) then th_start l a s else if in_join (th_pc s a) then th_join a s else thread_join l a s)"

lemmas th_next_defs = th_next_def th_start_def th_join_def thread_join_def

text \<open>The constructor, and the finalizer of an instance: one that was never started just goes, one
  with a thread is joined first, which is \<open>None\<close> here -- the collector would wait.\<close>

definition Thread :: "ptr \<Rightarrow> th_sys \<Rightarrow> th_sys" where
  "Thread p s = th_set p thread_privateInitialzer s"

definition Thread_Finalize :: "ptr \<Rightarrow> th_sys \<Rightarrow> th_sys option" where
  "Thread_Finalize p s =
     Option.bind (th_objs s p) (\<lambda>h.
       if th_state h \<noteq> thState_new \<and> th_thread h \<noteq> NULL then None else Some (s\<lparr>th_objs := (th_objs s)(p := None)\<rparr>))"

text \<open>An object is unreachable when it is not in the list, no agent is about it, and its script does not run.\<close>

fun about :: "th_pc \<Rightarrow> ptr option" where
  "about (StartState p) = Some p"
| "about (StartList p) = Some p"
| "about (StartContext p) = Some p"
| "about (StartArgv p) = Some p"
| "about (StartCreate p) = Some p"
| "about (StartStore p t) = Some p"
| "about (StartCheck p) = Some p"
| "about (StartUndo p) = Some p"
| "about (StartUnlist p) = Some p"
| "about (JoinSelf p) = Some p"
| "about (JoinCheck p) = Some p"
| "about (JoinState p) = Some p"
| "about (JoinRead p) = Some p"
| "about (JoinClear p t) = Some p"
| "about (JoinWait p t) = Some p"
| "about (JoinDead p) = Some p"
| "about (JoinUnlist p) = Some p"
| "about (StartNotReached p) = Some p"
| "about (JoinNotReached p) = Some p"
| "about Crashed = None"
| "about (Done r) = None"
| "about Idle = None"

definition unreachable :: "ptr \<Rightarrow> th_sys \<Rightarrow> bool" where
  "unreachable p s \<longleftrightarrow> p \<notin> set (threadList s) \<and> (\<forall>a. about (th_pc s a) \<noteq> Some p) \<and> (\<forall>t. natives s t \<noteq> Some (Running p))"

text \<open>Scripts run on the primordial thread, which is number 1, and on a thread that runs the script of an object.\<close>

definition runs_scripts :: "ptr \<Rightarrow> th_sys \<Rightarrow> bool" where
  "runs_scripts a s \<longleftrightarrow> a = 1 \<or> (case natives s a of Some (Running q) \<Rightarrow> True | _ \<Rightarrow> False)"

text \<open>\<open>thread_joinAll\<close> and \<open>Thread_Sweep\<close> call \<open>thread_join\<close> for objects they find in the list.
  \<open>run_ends\<close> and \<open>thread_gone\<close> are the end of \<open>thread_run\<close>.\<close>

inductive th_step :: "th_sys \<Rightarrow> th_sys \<Rightarrow> bool" where
  construct: "p \<noteq> NULL \<Longrightarrow> th_objs s p = None \<Longrightarrow> th_step s (Thread p s)"
| call_start: "th_pc s a = Idle \<Longrightarrow> runs_scripts a s \<Longrightarrow> th_objs s p \<noteq> None \<Longrightarrow> th_step s (th_goto a (StartState p) s)"
| call_join: "th_pc s a = Idle \<Longrightarrow> runs_scripts a s \<Longrightarrow> th_objs s p \<noteq> None \<Longrightarrow> th_step s (th_goto a (JoinSelf p) s)"
| call_sweep: "th_pc s a = Idle \<Longrightarrow> runs_scripts a s \<Longrightarrow> p \<in> set (threadList s) \<Longrightarrow> th_step s (th_goto a (JoinCheck p) s)"
| inside: "th_next l a s = Some s' \<Longrightarrow> th_step s s'"
| leave: "th_pc s a = Done r \<Longrightarrow> th_step s (th_goto a Idle s)"
| run_ends: "natives s t = Some (Running p) \<Longrightarrow> th_pc s t = Idle \<Longrightarrow> th_objs s p = Some h \<Longrightarrow> how \<noteq> th_term_not \<Longrightarrow>
    th_step s ((th_set p (h\<lparr>th_termination := how\<rparr>) s)\<lparr>natives := (natives s)(t \<mapsto> Terminated p)\<rparr>)"
| thread_gone: "natives s t = Some (Terminated p) \<Longrightarrow> th_step s (s\<lparr>natives := (natives s)(t \<mapsto> Finished p)\<rparr>)"
| collect: "unreachable p s \<Longrightarrow> Thread_Finalize p s = Some s' \<Longrightarrow> th_step s s'"

inductive_cases th_stepE: "th_step s s'"

definition th_init :: th_sys where
  "th_init = \<lparr>th_objs = (\<lambda>_. None), threadList = [], natives = (\<lambda>_. None), next_native = 2, th_pc = (\<lambda>_. Idle), joined = []\<rparr>"

inductive th_reachable :: "th_sys \<Rightarrow> bool" where
  th_start_state: "th_reachable th_init"
| th_more: "th_reachable s \<Longrightarrow> th_step s s' \<Longrightarrow> th_reachable s'"

section \<open>The invariant\<close>

text \<open>Where an agent is on an object: it made it runnable, has seen its thread, or is joining it.\<close>

fun starting :: "ptr \<Rightarrow> th_pc \<Rightarrow> bool" where
  "starting p (StartList q) = (q = p)"
| "starting p (StartContext q) = (q = p)"
| "starting p (StartArgv q) = (q = p)"
| "starting p (StartCreate q) = (q = p)"
| "starting p (StartStore q t) = (q = p)"
| "starting p _ = False"

fun started :: "ptr \<Rightarrow> th_pc \<Rightarrow> bool" where
  "started p (StartCheck q) = (q = p)"
| "started p (StartUndo q) = (q = p)"
| "started p (StartUnlist q) = (q = p)"
| "started p (StartNotReached q) = (q = p)"
| "started p l = starting p l"

fun placed :: "ptr \<Rightarrow> th_pc \<Rightarrow> bool" where
  "placed p (StartContext q) = (q = p)"
| "placed p (StartArgv q) = (q = p)"
| "placed p (StartCreate q) = (q = p)"
| "placed p (StartStore q t) = (q = p)"
| "placed p _ = False"

fun joining :: "ptr \<Rightarrow> th_pc \<Rightarrow> bool" where
  "joining p (JoinRead q) = (q = p)"
| "joining p (JoinClear q t) = (q = p)"
| "joining p (JoinWait q t) = (q = p)"
| "joining p (JoinDead q) = (q = p)"
| "joining p _ = False"

definition native_of :: "(ptr \<Rightarrow> native option) \<Rightarrow> ptr \<Rightarrow> ptr \<Rightarrow> bool" where
  "native_of ns p t \<longleftrightarrow> ns t = Some (Running p) \<or> ns t = Some (Terminated p) \<or> ns t = Some (Finished p)"

text \<open>What an agent knows of the object it is at.\<close>

fun pc_ok :: "(ptr \<Rightarrow> native option) \<Rightarrow> ptr \<Rightarrow> thread_private \<Rightarrow> th_pc \<Rightarrow> bool" where
  "pc_ok ns p h (StartList q) = (q = p \<longrightarrow> th_state h = thState_runnable \<and> th_thread h = NULL \<and> (\<forall>t. \<not> native_of ns p t))"
| "pc_ok ns p h (StartContext q) = (q = p \<longrightarrow> th_state h = thState_runnable \<and> th_thread h = NULL \<and> (\<forall>t. \<not> native_of ns p t))"
| "pc_ok ns p h (StartArgv q) = (q = p \<longrightarrow> th_state h = thState_runnable \<and> th_thread h = NULL \<and> (\<forall>t. \<not> native_of ns p t))"
| "pc_ok ns p h (StartCreate q) = (q = p \<longrightarrow> th_state h = thState_runnable \<and> th_thread h = NULL \<and> (\<forall>t. \<not> native_of ns p t))"
| "pc_ok ns p h (StartStore q t) = (q = p \<longrightarrow> th_state h = thState_runnable \<and> th_thread h = NULL
     \<and> (\<forall>u. native_of ns p u \<longleftrightarrow> t \<noteq> NULL \<and> u = t))"
| "pc_ok ns p h (StartCheck q) = (q = p \<longrightarrow> th_state h \<noteq> thState_new)"
| "pc_ok ns p h (StartUndo q) = (q = p \<longrightarrow> th_state h \<noteq> thState_new \<and> (th_state h = thState_runnable \<longrightarrow> th_thread h = NULL))"
| "pc_ok ns p h (StartUnlist q) = (q = p \<longrightarrow> th_state h = thState_dead)"
| "pc_ok ns p h (StartNotReached q) = (q = p \<longrightarrow> th_state h \<noteq> thState_new)"
| "pc_ok ns p h (JoinState q) = (q = p \<longrightarrow> th_state h \<noteq> thState_new \<and> (th_state h = thState_runnable \<longrightarrow> th_thread h \<noteq> NULL))"
| "pc_ok ns p h (JoinRead q) = (q = p \<longrightarrow> th_state h = thState_joining \<and> th_thread h \<noteq> NULL)"
| "pc_ok ns p h (JoinClear q t) = (q = p \<longrightarrow> th_state h = thState_joining \<and> th_thread h = t \<and> t \<noteq> NULL)"
| "pc_ok ns p h (JoinWait q t) = (q = p \<longrightarrow> th_state h = thState_joining \<and> th_thread h = NULL \<and> native_of ns p t)"
| "pc_ok ns p h (JoinDead q) = (q = p \<longrightarrow> th_state h = thState_joining \<and> th_thread h = NULL \<and> (\<forall>t. \<not> native_of ns p t))"
| "pc_ok ns p h (JoinUnlist q) = (q = p \<longrightarrow> th_state h = thState_dead)"
| "pc_ok ns p h (JoinNotReached q) = (q \<noteq> p)"
| "pc_ok ns p h _ = True"

definition obj_ok :: "(ptr \<Rightarrow> th_pc) \<Rightarrow> (ptr \<Rightarrow> native option) \<Rightarrow> ptr list \<Rightarrow> ptr \<Rightarrow> thread_private \<Rightarrow> bool" where
  "obj_ok pcs ns ls p h \<longleftrightarrow>
     (\<forall>a. pc_ok ns p h (pcs a))
     \<and> (\<forall>a b. started p (pcs a) \<longrightarrow> started p (pcs b) \<longrightarrow> a = b)
     \<and> (\<forall>a b. joining p (pcs a) \<longrightarrow> joining p (pcs b) \<longrightarrow> a = b)
     \<and> (\<forall>t u. native_of ns p t \<longrightarrow> native_of ns p u \<longrightarrow> t = u)
     \<and> (\<forall>t. native_of ns p t \<longrightarrow> p \<in> set ls)
     \<and> (\<forall>a. placed p (pcs a) \<longrightarrow> p \<in> set ls)
     \<and> (th_thread h \<noteq> NULL \<longrightarrow> native_of ns p (th_thread h) \<and> th_state h \<in> {thState_runnable, thState_joining})
     \<and> (th_state h \<in> {thState_new, thState_dead} \<longrightarrow> (\<forall>t. \<not> native_of ns p t))
     \<and> (th_state h = thState_runnable \<longrightarrow> th_thread h = NULL \<longrightarrow> (\<forall>a. \<not> starting p (pcs a)) \<longrightarrow> (\<forall>t. \<not> native_of ns p t))
     \<and> (th_state h = thState_runnable \<longrightarrow> (\<forall>a. \<not> joining p (pcs a)))"

definition th_inv :: "th_sys \<Rightarrow> bool" where
  "th_inv s \<longleftrightarrow>
     (\<forall>p. case th_objs s p of
            None \<Rightarrow> (\<forall>a. about (th_pc s a) \<noteq> Some p) \<and> (\<forall>t. \<not> native_of (natives s) p t) \<and> p \<notin> set (threadList s)
          | Some h \<Rightarrow> obj_ok (th_pc s) (natives s) (threadList s) p h)
     \<and> (\<forall>t \<ge> next_native s. natives s t = None) \<and> natives s NULL = None \<and> 0 < next_native s
     \<and> distinct (joined s) \<and> (\<forall>t \<in> set (joined s). natives s t = Some Joined)"

lemma th_inv_init: "th_inv th_init"
  by (simp add: th_inv_def th_init_def native_of_def)

lemma pc_ok_cong:
  "(\<And>t. native_of ns' p t = native_of ns p t) \<Longrightarrow> th_state h' = th_state h \<Longrightarrow> th_thread h' = th_thread h \<Longrightarrow>
   pc_ok ns' p h' l = pc_ok ns p h l"
  by (cases l) simp_all

lemma about_started: "started p l \<Longrightarrow> about l = Some p" "starting p l \<Longrightarrow> started p l" "joining p l \<Longrightarrow> about l = Some p" "placed p l \<Longrightarrow> starting p l"
  by (cases l; simp)+

lemma pc_ok_elsewhere: "about l \<noteq> Some p \<Longrightarrow> pc_ok ns p h l"
  by (cases l) simp_all

text \<open>Only the object that a step is about needs a look.\<close>

lemma obj_other:
  assumes ok: "obj_ok pcs ns ls p h" and l: "about l \<noteq> Some p" "about (pcs a) \<noteq> Some p"
    and n: "\<And>t. native_of ns' p t = native_of ns p t" and ls: "p \<in> set ls \<Longrightarrow> p \<in> set ls'"
  shows "obj_ok (pcs(a := l)) ns' ls' p h"
proof -
  have A: "pc_ok ns' p h ((pcs(a := l)) b)" for b
    using ok l(1) pc_ok_cong [of ns' p ns h h] n by (auto simp: obj_ok_def pc_ok_elsewhere)
  have "\<not> started p l" "\<not> starting p l" "\<not> joining p l" "\<not> started p (pcs a)" "\<not> starting p (pcs a)" "\<not> joining p (pcs a)"
    "\<not> placed p l" "\<not> placed p (pcs a)"
    using l about_started by blast+
  then have B: "started p ((pcs(a := l)) b) = started p (pcs b)" "joining p ((pcs(a := l)) b) = joining p (pcs b)"
    "starting p ((pcs(a := l)) b) = starting p (pcs b)" "placed p ((pcs(a := l)) b) = placed p (pcs b)" for b
    by (simp_all add: fun_upd_apply)
  show ?thesis using ok ls A by (simp add: obj_ok_def n B del: fun_upd_apply)
qed

lemma inv_upd:
  assumes inv: "th_inv s" and a: "about (th_pc s a) \<in> {None, Some p}" "about l \<in> {None, Some p}" and p: "th_objs s p \<noteq> None"
    and ns: "\<And>q t. q \<noteq> p \<Longrightarrow> native_of ns q t = native_of (natives s) q t"
    and ls: "\<And>q. q \<noteq> p \<Longrightarrow> q \<in> set ls \<longleftrightarrow> q \<in> set (threadList s)"
    and ok: "obj_ok ((th_pc s)(a := l)) ns ls p h"
    and rest: "\<forall>t \<ge> n. ns t = None" "ns NULL = None" "0 < n" "distinct j" "\<forall>t \<in> set j. ns t = Some Joined"
    and s': "th_objs s' = (th_objs s)(p \<mapsto> h)" "th_pc s' = (th_pc s)(a := l)" "natives s' = ns" "threadList s' = ls"
      "next_native s' = n" "joined s' = j"
  shows "th_inv s'"
proof -
  have "case th_objs s' q of
          None \<Rightarrow> (\<forall>a. about (th_pc s' a) \<noteq> Some q) \<and> (\<forall>t. \<not> native_of (natives s') q t) \<and> q \<notin> set (threadList s')
        | Some h \<Rightarrow> obj_ok (th_pc s') (natives s') (threadList s') q h" for q
  proof (cases "q = p")
    case True
    with ok show ?thesis by (simp add: s')
  next
    case False
    have old: "case th_objs s q of
          None \<Rightarrow> (\<forall>a. about (th_pc s a) \<noteq> Some q) \<and> (\<forall>t. \<not> native_of (natives s) q t) \<and> q \<notin> set (threadList s)
        | Some h \<Rightarrow> obj_ok (th_pc s) (natives s) (threadList s) q h" using inv by (simp add: th_inv_def)
    have l: "about l \<noteq> Some q" "about (th_pc s a) \<noteq> Some q" using a False by auto
    show ?thesis
    proof (cases "th_objs s q")
      case None
      with old l(1) ns [OF False] ls [OF False] False show ?thesis by (simp add: s')
    next
      case (Some k)
      with old have "obj_ok (th_pc s) (natives s) (threadList s) q k" by simp
      from obj_other [OF this l ns [OF False], of ls] ls [OF False] Some False show ?thesis by (simp add: s')
    qed
  qed
  with rest show ?thesis by (simp add: th_inv_def s')
qed

text \<open>The agent only moves on.\<close>

lemma inv_goto:
  assumes inv: "th_inv s" and a: "about (th_pc s a) \<in> {None, Some p}" "about l \<in> {None, Some p}" and h: "th_objs s p = Some h"
    and ok: "obj_ok ((th_pc s)(a := l)) (natives s) (threadList s) p h"
  shows "th_inv (th_goto a l s)"
proof -
  have "(th_objs s)(p \<mapsto> h) = th_objs s" using h by auto
  then show ?thesis
    by (intro inv_upd [OF inv a _ _ _ ok]) (use inv h in \<open>simp_all add: th_inv_def th_goto_def\<close>)
qed

lemma inv_obj: "th_inv s \<Longrightarrow> th_objs s p = Some h \<Longrightarrow> obj_ok (th_pc s) (natives s) (threadList s) p h"
  by (auto simp: th_inv_def split: option.splits dest: spec [of _ p])

lemma inv_live: "th_inv s \<Longrightarrow> about (th_pc s a) = Some p \<Longrightarrow> \<exists>h. th_objs s p = Some h"
  unfolding th_inv_def by (cases "th_objs s p") (auto dest: spec [of _ p] split: option.splits)

lemma obj_move:
  assumes ok: "obj_ok pcs ns ls p h" and o: "\<And>b. b \<noteq> a \<Longrightarrow> pc_ok ns' p h' (pcs b)" and l: "pc_ok ns' p h' l"
    and st: "\<And>b. b \<noteq> a \<Longrightarrow> started p l \<Longrightarrow> \<not> started p (pcs b)" and jo: "\<And>b. b \<noteq> a \<Longrightarrow> joining p l \<Longrightarrow> \<not> joining p (pcs b)"
    and n: "\<And>t u. native_of ns' p t \<Longrightarrow> native_of ns' p u \<Longrightarrow> t = u" "\<And>t. native_of ns' p t \<Longrightarrow> p \<in> set ls'"
    and th: "th_thread h' \<noteq> NULL \<Longrightarrow> native_of ns' p (th_thread h') \<and> th_state h' \<in> {thState_runnable, thState_joining}"
    and de: "\<And>t. th_state h' \<in> {thState_new, thState_dead} \<Longrightarrow> \<not> native_of ns' p t"
    and ru: "\<And>t. th_state h' = thState_runnable \<Longrightarrow> th_thread h' = NULL \<Longrightarrow> \<not> starting p l \<Longrightarrow> \<forall>b. b \<noteq> a \<longrightarrow> \<not> starting p (pcs b)
      \<Longrightarrow> \<not> native_of ns' p t"
    and rj: "th_state h' = thState_runnable \<Longrightarrow> \<not> joining p l \<and> (\<forall>b. b \<noteq> a \<longrightarrow> \<not> joining p (pcs b))"
    and pl: "placed p l \<Longrightarrow> p \<in> set ls'" "\<And>b. b \<noteq> a \<Longrightarrow> placed p (pcs b) \<Longrightarrow> p \<in> set ls'"
  shows "obj_ok (pcs(a := l)) ns' ls' p h'"
  unfolding obj_ok_def
proof (intro conjI allI impI)
  fix b c t u
  have u: "started p (pcs b) \<Longrightarrow> started p (pcs c) \<Longrightarrow> b = c" "joining p (pcs b) \<Longrightarrow> joining p (pcs c) \<Longrightarrow> b = c" for b c
    using ok unfolding obj_ok_def by blast+
  show "pc_ok ns' p h' ((pcs(a := l)) b)" using o l by simp
  show "b = c" if "started p ((pcs(a := l)) b)" "started p ((pcs(a := l)) c)"
    using that st u(1) by (cases "b = a"; cases "c = a"; simp)
  show "b = c" if "joining p ((pcs(a := l)) b)" "joining p ((pcs(a := l)) c)"
    using that jo u(2) by (cases "b = a"; cases "c = a"; simp)
  show "t = u" if "native_of ns' p t" "native_of ns' p u" by (rule n(1) [OF that])
  show "p \<in> set ls'" if "native_of ns' p t" by (rule n(2) [OF that])
  show "p \<in> set ls'" if "placed p ((pcs(a := l)) b)" using that pl by (cases "b = a") simp_all
  show "native_of ns' p (th_thread h')" if "th_thread h' \<noteq> NULL" using th [OF that] by blast
  show "th_state h' \<in> {thState_runnable, thState_joining}" if "th_thread h' \<noteq> NULL" using th [OF that] by blast
  show "\<not> native_of ns' p t" if "th_state h' \<in> {thState_new, thState_dead}" by (rule de [OF that])
  show "\<not> native_of ns' p t" if "th_state h' = thState_runnable" "th_thread h' = NULL" "\<forall>a'. \<not> starting p ((pcs(a := l)) a')"
    by (rule ru [OF that(1,2)]) (use that(3) in \<open>metis fun_upd_same fun_upd_other\<close>)+
  show "\<not> joining p ((pcs(a := l)) b)" if "th_state h' = thState_runnable" using rj [OF that] by simp
qed

lemma obj_parts:
  assumes ok: "obj_ok pcs ns ls p h"
  shows "pc_ok ns p h (pcs b)" and "started p (pcs b) \<Longrightarrow> started p (pcs c) \<Longrightarrow> b = c"
    and "joining p (pcs b) \<Longrightarrow> joining p (pcs c) \<Longrightarrow> b = c" and "native_of ns p t \<Longrightarrow> native_of ns p u \<Longrightarrow> t = u"
    and "native_of ns p t \<Longrightarrow> p \<in> set ls" and "th_thread h \<noteq> NULL \<Longrightarrow> native_of ns p (th_thread h)"
    and "th_thread h \<noteq> NULL \<Longrightarrow> th_state h = thState_runnable \<or> th_state h = thState_joining"
    and "th_state h = thState_new \<or> th_state h = thState_dead \<Longrightarrow> \<not> native_of ns p t"
    and "th_state h = thState_runnable \<Longrightarrow> th_thread h = NULL \<Longrightarrow> \<forall>a. \<not> starting p (pcs a) \<Longrightarrow> \<not> native_of ns p t"
    and "th_state h = thState_runnable \<Longrightarrow> \<not> joining p (pcs b)" and "placed p (pcs b) \<Longrightarrow> p \<in> set ls"
proof -
  show "pc_ok ns p h (pcs b)" "th_thread h \<noteq> NULL \<Longrightarrow> native_of ns p (th_thread h)"
    "th_thread h \<noteq> NULL \<Longrightarrow> th_state h = thState_runnable \<or> th_state h = thState_joining"
    "th_state h = thState_new \<or> th_state h = thState_dead \<Longrightarrow> \<not> native_of ns p t"
    "th_state h = thState_runnable \<Longrightarrow> th_thread h = NULL \<Longrightarrow> \<forall>a. \<not> starting p (pcs a) \<Longrightarrow> \<not> native_of ns p t"
    "th_state h = thState_runnable \<Longrightarrow> \<not> joining p (pcs b)"
    using ok by (simp_all add: obj_ok_def)
  have u: "\<forall>a b. started p (pcs a) \<longrightarrow> started p (pcs b) \<longrightarrow> a = b" "\<forall>a b. joining p (pcs a) \<longrightarrow> joining p (pcs b) \<longrightarrow> a = b"
    "\<forall>t u. native_of ns p t \<longrightarrow> native_of ns p u \<longrightarrow> t = u" "\<forall>t. native_of ns p t \<longrightarrow> p \<in> set ls"
    "\<forall>a. placed p (pcs a) \<longrightarrow> p \<in> set ls"
    using ok unfolding obj_ok_def by - (elim conjE, assumption)+
  show "started p (pcs b) \<Longrightarrow> started p (pcs c) \<Longrightarrow> b = c" using u(1) by blast
  show "joining p (pcs b) \<Longrightarrow> joining p (pcs c) \<Longrightarrow> b = c" using u(2) by blast
  show "native_of ns p t \<Longrightarrow> native_of ns p u \<Longrightarrow> t = u" using u(3) by blast
  show "native_of ns p t \<Longrightarrow> p \<in> set ls" using u(4) by blast
  show "placed p (pcs b) \<Longrightarrow> p \<in> set ls" using u(5) by blast
qed

text \<open>Leaving an object at a place that promises nothing.\<close>

lemma obj_goto:
  assumes ok: "obj_ok pcs ns ls p h" and l: "pc_ok ns p h l" and st: "started p l \<Longrightarrow> started p (pcs a)"
    and jo: "joining p l \<Longrightarrow> joining p (pcs a)"
    and sg: "\<And>t. starting p (pcs a) \<Longrightarrow> \<not> starting p l \<Longrightarrow> \<not> native_of ns p t" and pl: "placed p l \<Longrightarrow> p \<in> set ls"
  shows "obj_ok (pcs(a := l)) ns ls p h"
proof (rule obj_move [OF ok])
  note k = obj_parts [OF ok]
  show "\<not> started p (pcs b)" if "b \<noteq> a" "started p l" for b using k(2) [of a b] st that by blast
  show "\<not> joining p (pcs b)" if "b \<noteq> a" "joining p l" for b using k(3) [of a b] jo that by blast
  show "\<not> native_of ns p t" if "th_state h = thState_runnable" "th_thread h = NULL" "\<not> starting p l"
    "\<forall>b. b \<noteq> a \<longrightarrow> \<not> starting p (pcs b)" for t
    using k(9) [OF that(1,2), of t] sg [OF _ that(3), of t] that(4) by metis
  show "\<not> joining p l \<and> (\<forall>b. b \<noteq> a \<longrightarrow> \<not> joining p (pcs b))" if "th_state h = thState_runnable"
    using k(10) [OF that] jo by blast
  show "th_thread h \<noteq> NULL \<Longrightarrow> native_of ns p (th_thread h) \<and> th_state h \<in> {thState_runnable, thState_joining}"
    using k(6,7) by auto
  show "\<And>t. th_state h \<in> {thState_new, thState_dead} \<Longrightarrow> \<not> native_of ns p t" using k(8) by auto
  show "\<And>b. placed p (pcs b) \<Longrightarrow> p \<in> set ls" using k(11) by blast
  show "pc_ok ns p h l" "\<And>b. pc_ok ns p h (pcs b)" by (rule l, rule k(1))
  show "\<And>t u. native_of ns p t \<Longrightarrow> native_of ns p u \<Longrightarrow> t = u" by (rule k(4))
  show "\<And>t. native_of ns p t \<Longrightarrow> p \<in> set ls" by (rule k(5))
  show "placed p l \<Longrightarrow> p \<in> set ls" by (rule pl)
qed

text \<open>How the places of the other agents survive a change of the object.\<close>

lemma pc_made_runnable:
  "pc_ok ns p h l \<Longrightarrow> th_state h = thState_new \<Longrightarrow> pc_ok ns p (h\<lparr>th_state := thState_runnable\<rparr>) l"
  "th_state h = thState_new \<Longrightarrow> pc_ok ns p h l \<Longrightarrow> \<not> started p l \<and> \<not> joining p l"
  by (cases l; simp)+

lemma pc_stored:
  "pc_ok ns p h l \<Longrightarrow> th_state h = thState_runnable \<Longrightarrow> th_thread h = NULL \<Longrightarrow> \<not> started p l \<Longrightarrow> pc_ok ns p (h\<lparr>th_thread := t\<rparr>) l"
  by (cases l; simp)

lemma pc_undone:
  "pc_ok ns p h l \<Longrightarrow> th_state h = thState_runnable \<Longrightarrow> \<not> started p l \<Longrightarrow>
   pc_ok ns p (h\<lparr>th_state := thState_dead, th_termination := x\<rparr>) l"
  by (cases l; simp)

lemma pc_claimed:
  "pc_ok ns p h l \<Longrightarrow> th_state h = thState_runnable \<Longrightarrow> th_thread h \<noteq> NULL \<Longrightarrow> pc_ok ns p (h\<lparr>th_state := thState_joining\<rparr>) l"
  "pc_ok ns p h l \<Longrightarrow> th_state h = thState_runnable \<Longrightarrow> \<not> joining p l"
  by (cases l; simp)+

lemma pc_cleared:
  "pc_ok ns p h l \<Longrightarrow> th_state h = thState_joining \<Longrightarrow> \<not> joining p l \<Longrightarrow> pc_ok ns p (h\<lparr>th_thread := NULL\<rparr>) l"
  by (cases l; simp)

lemma pc_waited:
  "pc_ok ns p h l \<Longrightarrow> th_state h = thState_joining \<Longrightarrow> \<not> joining p l \<Longrightarrow> pc_ok ns' p h l"
  by (cases l; simp)

lemma pc_dead:
  "pc_ok ns p h l \<Longrightarrow> th_state h = thState_joining \<Longrightarrow> \<not> joining p l \<Longrightarrow> pc_ok ns p (h\<lparr>th_state := thState_dead\<rparr>) l"
  by (cases l; simp)

text \<open>The changes of an object, one for each kind of step.\<close>

lemma obj_made_runnable:
  assumes ok: "obj_ok pcs ns ls p h" and s: "th_state h = thState_new"
  shows "obj_ok (pcs(a := StartList p)) ns ls p (h\<lparr>th_state := thState_runnable\<rparr>)"
proof -
  note k = obj_parts [OF ok]
  have n: "\<not> native_of ns p t" for t using k(8) s by blast
  have t: "th_thread h = NULL" using k(7) s by (cases "th_thread h = NULL") auto
  have o: "\<not> started p (pcs b) \<and> \<not> joining p (pcs b)" for b using pc_made_runnable(2) [OF s k(1)] .
  show ?thesis
    by (rule obj_move [OF ok]) (use k(1,11) s n t o pc_made_runnable(1) in simp_all)
qed

lemma obj_stored:
  assumes ok: "obj_ok pcs ns ls p h" and l: "pcs a = StartStore p t"
  shows "obj_ok (pcs(a := StartCheck p)) ns ls p (h\<lparr>th_thread := t\<rparr>)"
proof -
  note k = obj_parts [OF ok]
  from k(1) [of a] l have h: "th_state h = thState_runnable" "th_thread h = NULL" "\<And>u. native_of ns p u \<longleftrightarrow> t \<noteq> NULL \<and> u = t" by simp_all
  have o: "\<not> started p (pcs b)" if "b \<noteq> a" for b using k(2) [of a b] l that by auto
  have j: "\<not> joining p (pcs b)" for b using k(10) h(1) by blast
  have "p \<in> set ls" if "t \<noteq> NULL" using k(5) h(3) that by blast
  then show ?thesis
    by (intro obj_move [OF ok]) (use k(1,11) h o j pc_stored in simp_all)
qed

lemma obj_undone:
  assumes ok: "obj_ok pcs ns ls p h" and l: "pcs a = StartUndo p" and s: "th_state h = thState_runnable"
  shows "obj_ok (pcs(a := StartUnlist p)) ns ls p (h\<lparr>th_state := thState_dead, th_termination := x\<rparr>)"
proof -
  note k = obj_parts [OF ok]
  from k(1) [of a] l s have h: "th_thread h = NULL" by simp
  have o: "\<not> started p (pcs b)" if "b \<noteq> a" for b using k(2) [of a b] l that by auto
  have "\<not> starting p (pcs b)" for b using o about_started(2) [of p "pcs b"] l by (cases "b = a") auto
  then have n: "\<not> native_of ns p t" for t using k(9) s h by blast
  have j: "\<not> joining p (pcs b)" for b using k(10) s by blast
  show ?thesis
    by (rule obj_move [OF ok]) (use k(1,11) h s n o j pc_undone in simp_all)
qed

lemma obj_claimed:
  assumes ok: "obj_ok pcs ns ls p h" and l: "pcs a = JoinState p" and s: "th_state h = thState_runnable"
  shows "obj_ok (pcs(a := JoinRead p)) ns ls p (h\<lparr>th_state := thState_joining\<rparr>)"
proof -
  note k = obj_parts [OF ok]
  from k(1) [of a] l s have h: "th_thread h \<noteq> NULL" by simp
  have j: "\<not> joining p (pcs b)" for b using k(10) s by blast
  show ?thesis
    by (rule obj_move [OF ok]) (use k(1,4-6,11) h s j pc_claimed(1) in simp_all)
qed

lemma obj_cleared:
  assumes ok: "obj_ok pcs ns ls p h" and l: "pcs a = JoinClear p t"
  shows "obj_ok (pcs(a := JoinWait p t)) ns ls p (h\<lparr>th_thread := NULL\<rparr>)"
proof -
  note k = obj_parts [OF ok]
  from k(1) [of a] l have h: "th_state h = thState_joining" "th_thread h = t" "t \<noteq> NULL" by simp_all
  have j: "\<not> joining p (pcs b)" if "b \<noteq> a" for b using k(3) [of a b] l that by auto
  have n: "native_of ns p t" using k(6) h by auto
  show ?thesis
    by (rule obj_move [OF ok]) (use k(1,4,5,11) h n j pc_cleared in simp_all)
qed

lemma obj_waited:
  assumes ok: "obj_ok pcs ns ls p h" and l: "pcs a = JoinWait p t"
  shows "obj_ok (pcs(a := JoinDead p)) (ns(t \<mapsto> Joined)) ls p h"
proof -
  note k = obj_parts [OF ok]
  from k(1) [of a] l have h: "th_state h = thState_joining" "th_thread h = NULL" "native_of ns p t" by simp_all
  have j: "\<not> joining p (pcs b)" if "b \<noteq> a" for b using k(3) [of a b] l that by auto
  have n: "\<not> native_of (ns(t \<mapsto> Joined)) p u" for u using k(4) [OF h(3), of u] by (auto simp: native_of_def)
  have pc: "pc_ok (ns(t \<mapsto> Joined)) p h (pcs b)" if "b \<noteq> a" for b by (rule pc_waited [OF k(1) h(1) j [OF that]])
  show ?thesis
    by (rule obj_move [OF ok]) (use k(11) pc h n j in simp_all)
qed

lemma obj_dead:
  assumes ok: "obj_ok pcs ns ls p h" and l: "pcs a = JoinDead p"
  shows "obj_ok (pcs(a := JoinUnlist p)) ns ls p (h\<lparr>th_state := thState_dead\<rparr>)"
proof -
  note k = obj_parts [OF ok]
  from k(1) [of a] l have h: "th_state h = thState_joining" "th_thread h = NULL" "\<And>u. \<not> native_of ns p u" by simp_all
  have j: "\<not> joining p (pcs b)" if "b \<noteq> a" for b using k(3) [of a b] l that by auto
  show ?thesis
    by (rule obj_move [OF ok]) (use k(1,11) h j pc_dead in simp_all)
qed

lemma obj_created:
  assumes ok: "obj_ok pcs ns ls p h" and l: "pcs a = StartCreate p" and n: "ns n = None" "n \<noteq> NULL"
  shows "obj_ok (pcs(a := StartStore p n)) (ns(n \<mapsto> Running p)) ls p h"
proof -
  note k = obj_parts [OF ok]
  from k(1) [of a] l have h: "th_state h = thState_runnable" "th_thread h = NULL" "\<And>u. \<not> native_of ns p u" by simp_all
  have n': "native_of (ns(n \<mapsto> Running p)) p u \<longleftrightarrow> u = n" for u using h(3) [of u] by (auto simp: native_of_def)
  have o: "\<not> started p (pcs b)" if "b \<noteq> a" for b using k(2) [of a b] l that by auto
  have j: "\<not> joining p (pcs b)" for b using k(10) h(1) by blast
  have ls: "p \<in> set ls" using k(11) [of a] l by simp
  have pc: "pc_ok (ns(n \<mapsto> Running p)) p h (pcs b)" if "b \<noteq> a" for b
    using k(1) [of b] o [OF that] j [of b] by (cases "pcs b") simp_all
  show ?thesis
    by (rule obj_move [OF ok]) (use k(11) pc h n n' o j ls in simp_all)
qed

section \<open>Every step keeps the invariant\<close>

lemma inv_move:
  assumes inv: "th_inv s" and a: "about (th_pc s a) \<in> {None, Some p}" "about l \<in> {None, Some p}" and h: "th_objs s p = Some h"
    and l: "pc_ok (natives s) p h l" and st: "started p l \<Longrightarrow> started p (th_pc s a)"
    and jo: "joining p l \<Longrightarrow> joining p (th_pc s a)"
    and sg: "\<And>t. starting p (th_pc s a) \<Longrightarrow> \<not> starting p l \<Longrightarrow> \<not> native_of (natives s) p t"
    and pl: "placed p l \<Longrightarrow> p \<in> set (threadList s)"
  shows "th_inv (th_goto a l s)"
  by (rule inv_goto [OF inv a h obj_goto [OF inv_obj [OF inv h] l st jo sg pl]])

text \<open>A change of the object and of the place of the agent, and of nothing else.\<close>

lemma inv_set:
  assumes inv: "th_inv s" and a: "about (th_pc s a) = Some p" "about l \<in> {None, Some p}" and h: "th_objs s p \<noteq> None"
    and ok: "obj_ok ((th_pc s)(a := l)) (natives s) (threadList s) p h'"
  shows "th_inv (th_goto a l (th_set p h' s))"
  by (rule inv_upd [OF inv _ a(2) h _ _ ok]) (use inv a(1) in \<open>simp_all add: th_inv_def th_goto_def th_set_def\<close>)

text \<open>The list changes for one object.\<close>

lemma inv_list:
  assumes inv: "th_inv s" and a: "about (th_pc s a) = Some p" "about l \<in> {None, Some p}" and h: "th_objs s p = Some h"
    and ls: "\<And>q. q \<noteq> p \<Longrightarrow> q \<in> set ls \<longleftrightarrow> q \<in> set (threadList s)"
    and ok: "obj_ok ((th_pc s)(a := l)) (natives s) ls p h"
  shows "th_inv (th_goto a l (s\<lparr>threadList := ls\<rparr>))"
proof -
  have "(th_objs s)(p \<mapsto> h) = th_objs s" using h by auto
  then show ?thesis
    by (intro inv_upd [OF inv _ a(2) _ _ ls ok]) (use inv a(1) h in \<open>simp_all add: th_inv_def th_goto_def\<close>)
qed

text \<open>A list that loses a dead object, or gets one more, keeps what is known of the object.\<close>

lemma obj_list:
  assumes ok: "obj_ok pcs ns ls p h" and "p \<in> set ls \<Longrightarrow> p \<in> set ls' \<or> th_state h = thState_dead"
  shows "obj_ok pcs ns ls' p h"
proof -
  note k = obj_parts [OF ok]
  have "p \<in> set ls'" if "native_of ns p t" for t using k(5,8) [of t] that assms(2) by blast
  moreover have "p \<in> set ls'" if "placed p (pcs b)" for b
    using k(11) [OF that] k(1) [of b] that assms(2) by (cases "pcs b") auto
  ultimately show ?thesis using ok unfolding obj_ok_def by simp
qed

lemma start_inv:
  assumes inv: "th_inv s" and n: "th_next l a s = Some s'"
    and pc: "th_pc s a \<in> {StartState p, StartList p, StartContext p, StartArgv p, StartCreate p, StartStore p t, StartCheck p,
      StartUndo p, StartUnlist p}"
  shows "th_inv s'"
proof -
  have ab: "about (th_pc s a) = Some p" using pc by auto
  from inv_live [OF inv ab] obtain h where h: "th_objs s p = Some h" by blast
  note ok = inv_obj [OF inv h]
  note k = obj_parts [OF ok]
  have me: "pc_ok (natives s) p h (th_pc s a)" by (rule k(1))
  have leaves: "th_inv (th_goto a (Done r) s)" if "starting p (th_pc s a) \<Longrightarrow> \<forall>t. \<not> native_of (natives s) p t" for r
    by (rule inv_move [OF inv _ _ h]) (use ab that in auto)
  from pc consider "th_pc s a = StartState p" | "th_pc s a = StartList p" | "th_pc s a = StartContext p" | "th_pc s a = StartArgv p"
    | "th_pc s a = StartCreate p" | "th_pc s a = StartStore p t" | "th_pc s a = StartCheck p" | "th_pc s a = StartUndo p"
    | "th_pc s a = StartUnlist p" by blast
  then show ?thesis
  proof cases
    case 1
    show ?thesis
    proof (cases "th_state h = thState_new")
      case True
      with n 1 h have "s' = th_goto a (StartList p) (th_set p (h\<lparr>th_state := thState_runnable\<rparr>) s)"
        by (simp add: th_next_defs th_cas_def)
      with inv_set [OF inv ab _ _ obj_made_runnable [OF ok True]] h show ?thesis by simp
    next
      case False
      with n 1 h leaves 1 show ?thesis by (auto simp: th_next_defs th_cas_def)
    qed
  next
    case 2
    show ?thesis
    proof (cases "l = Good")
      case True
      with n 2 have s': "s' = th_goto a (StartContext p) (s\<lparr>threadList := List.insert p (threadList s)\<rparr>)"
        by (simp add: th_next_defs thread_addToList_def)
      have "obj_ok (th_pc s) (natives s) (List.insert p (threadList s)) p h" by (rule obj_list [OF ok]) simp
      then have "obj_ok ((th_pc s)(a := StartContext p)) (natives s) (List.insert p (threadList s)) p h"
        by (rule obj_goto) (use me 2 in simp_all)
      from inv_list [OF inv ab _ h _ this] show ?thesis by (simp add: s')
    next
      case False
      with n 2 me leaves show ?thesis by (auto simp: th_next_defs)
    qed
  next
    case 3
    have "th_inv (th_goto a (StartArgv p) s)"
      by (rule inv_move [OF inv _ _ h]) (use me 3 k(11) [of a] in auto)
    with n 3 me leaves show ?thesis by (auto simp: th_next_defs split: if_splits)
  next
    case 4
    have "th_inv (th_goto a (StartCreate p) s)"
      by (rule inv_move [OF inv _ _ h]) (use me 4 k(11) [of a] in auto)
    moreover have "th_inv (th_goto a Crashed s)"
      by (rule inv_move [OF inv _ _ h]) (use me 4 in auto)
    ultimately show ?thesis using n 4 by (auto simp: th_next_defs split: if_splits)
  next
    case 5
    show ?thesis
    proof (cases "l = Good")
      case True
      let ?n = "next_native s"
      have ns: "natives s ?n = None" "?n \<noteq> NULL" using inv by (auto simp: th_inv_def)
      have eq: "(th_objs s)(p \<mapsto> h) = th_objs s" using h by auto
      from n 5 True have "s' = th_goto a (StartStore p ?n) (s\<lparr>natives := (natives s)(?n \<mapsto> Running p), next_native := Suc ?n\<rparr>)"
        by (simp add: th_next_defs)
      then show ?thesis
        by (intro inv_upd [OF inv _ _ _ _ _ obj_created [OF ok 5 ns]])
          (use inv ab h eq ns in \<open>auto simp: th_inv_def th_goto_def native_of_def\<close>)
    next
      case False
      have "th_inv (th_goto a (StartStore p NULL) s)"
        by (rule inv_move [OF inv _ _ h]) (use me 5 k(11) [of a] in auto)
      with n 5 False show ?thesis by (simp add: th_next_defs)
    qed
  next
    case 6
    with n h have "s' = th_goto a (StartCheck p) (th_set p (h\<lparr>th_thread := t\<rparr>) s)" by (simp add: th_next_defs)
    with inv_set [OF inv ab _ _ obj_stored [OF ok 6]] h show ?thesis by simp
  next
    case 7
    have "th_inv (th_goto a (StartUndo p) s)" if "th_thread h = NULL"
      by (rule inv_move [OF inv _ _ h]) (use me 7 that in auto)
    with n h 7 leaves show ?thesis by (auto simp: th_next_defs split: if_splits)
  next
    case 8
    show ?thesis
    proof (cases "th_state h = thState_runnable")
      case True
      with n 8 h have "s' = th_goto a (StartUnlist p) (th_set p (h\<lparr>th_state := thState_dead, th_termination := th_term_abnormal\<rparr>) s)"
        by (simp add: th_next_defs th_cas_def th_set_def th_goto_def)
      with inv_set [OF inv ab _ _ obj_undone [OF ok 8 True]] h show ?thesis by simp
    next
      case False
      have "th_inv (th_goto a (StartNotReached p) s)"
        by (rule inv_move [OF inv _ _ h]) (use me 8 in auto)
      with n 8 h False show ?thesis by (simp add: th_next_defs th_cas_def)
    qed
  next
    case 9
    have ls: "obj_ok (th_pc s) (natives s) (removeAll p (threadList s)) p h"
      by (rule obj_list [OF ok]) (use me 9 in simp)
    have "obj_ok ((th_pc s)(a := Done r)) (natives s) (removeAll p (threadList s)) p h" for r
      by (rule obj_goto [OF ls]) (use 9 in simp_all)
    from inv_list [OF inv ab _ h _ this] have "th_inv (th_goto a (Done r) (s\<lparr>threadList := removeAll p (threadList s)\<rparr>))" for r
      by simp
    with n 9 leaves show ?thesis by (auto simp: th_next_defs thread_removeFromList_def split: luck.splits)
  qed
qed

lemma inv_rest:
  assumes "th_inv s"
  shows "\<forall>t \<ge> next_native s. natives s t = None" and "natives s NULL = None" and "0 < next_native s" and "distinct (joined s)"
    and "\<forall>t \<in> set (joined s). natives s t = Some Joined"
  using assms unfolding th_inv_def by - (elim conjE, assumption)+

lemma inv_none:
  assumes "th_inv s" and p: "th_objs s p = None"
  shows "about (th_pc s a) \<noteq> Some p" and "\<not> native_of (natives s) p t" and "p \<notin> set (threadList s)"
proof -
  have "case th_objs s p of
          None \<Rightarrow> (\<forall>a. about (th_pc s a) \<noteq> Some p) \<and> (\<forall>t. \<not> native_of (natives s) p t) \<and> p \<notin> set (threadList s)
        | Some h \<Rightarrow> obj_ok (th_pc s) (natives s) (threadList s) p h"
    using assms(1) unfolding th_inv_def by (elim conjE, elim allE)
  with p show "about (th_pc s a) \<noteq> Some p" "\<not> native_of (natives s) p t" "p \<notin> set (threadList s)" by simp_all
qed

lemma inv_native:
  assumes "th_inv s" and x: "natives s t = Some x"
  shows "t < next_native s" and "t \<noteq> NULL" and "x \<noteq> Joined \<Longrightarrow> t \<notin> set (joined s)"
proof -
  note r = inv_rest [OF assms(1)]
  have "natives s t \<noteq> None" using x by simp
  then show "t < next_native s" using r(1) by (meson not_le)
  show "t \<noteq> NULL" using r(2) x by (metis option.distinct(1))
  show "x \<noteq> Joined \<Longrightarrow> t \<notin> set (joined s)" using r(5) x by auto
qed

lemma join_inv:
  assumes inv: "th_inv s" and n: "th_next l a s = Some s'"
    and pc: "th_pc s a \<in> {JoinSelf p, JoinCheck p, JoinState p, JoinRead p, JoinClear p t, JoinWait p t, JoinDead p, JoinUnlist p}"
  shows "th_inv s'"
proof -
  have ab: "about (th_pc s a) = Some p" using pc by auto
  from inv_live [OF inv ab] obtain h where h: "th_objs s p = Some h" by blast
  note ok = inv_obj [OF inv h]
  note k = obj_parts [OF ok]
  have me: "pc_ok (natives s) p h (th_pc s a)" by (rule k(1))
  have ns: "\<not> starting p (th_pc s a)" "\<not> started p (th_pc s a)" using pc by auto
  have leaves: "th_inv (th_goto a (Done r) s)" "th_inv (th_goto a Crashed s)" for r
    by (rule inv_move [OF inv _ _ h]; use ab ns in auto)+
  from pc consider "th_pc s a = JoinSelf p" | "th_pc s a = JoinCheck p" | "th_pc s a = JoinState p" | "th_pc s a = JoinRead p"
    | "th_pc s a = JoinClear p t" | "th_pc s a = JoinWait p t" | "th_pc s a = JoinDead p" | "th_pc s a = JoinUnlist p" by blast
  then show ?thesis
  proof cases
    case 1
    have "th_inv (th_goto a (JoinCheck p) s)"
      by (rule inv_move [OF inv _ _ h]) (use 1 in auto)
    with n h 1 leaves show ?thesis by (auto simp: th_next_defs split: if_splits)
  next
    case 2
    have "th_inv (th_goto a (JoinState p) s)" if "th_thread h \<noteq> NULL"
      by (rule inv_move [OF inv _ _ h]) (use 2 that k(7) in auto)
    with n h 2 leaves show ?thesis by (auto simp: th_next_defs split: if_splits)
  next
    case 3
    show ?thesis
    proof (cases "th_state h = thState_runnable")
      case True
      with n 3 h have "s' = th_goto a (JoinRead p) (th_set p (h\<lparr>th_state := thState_joining\<rparr>) s)"
        by (simp add: th_next_defs th_cas_def)
      with inv_set [OF inv ab _ _ obj_claimed [OF ok 3 True]] h show ?thesis by simp
    next
      case False
      with n 3 h leaves show ?thesis by (auto simp: th_next_defs th_cas_def)
    qed
  next
    case 4
    have "th_inv (th_goto a (JoinClear p (th_thread h)) s)"
      by (rule inv_move [OF inv _ _ h]) (use me 4 in auto)
    with n h 4 show ?thesis by (simp add: th_next_defs)
  next
    case 5
    with n h have "s' = th_goto a (JoinWait p t) (th_set p (h\<lparr>th_thread := NULL\<rparr>) s)" by (simp add: th_next_defs)
    with inv_set [OF inv ab _ _ obj_cleared [OF ok 5]] h show ?thesis by simp
  next
    case 6
    then have nt: "native_of (natives s) p t" using me by simp
    then obtain x where x: "natives s t = Some x" "x \<noteq> Joined" by (auto simp: native_of_def)
    show ?thesis
    proof (cases "l = Good \<and> x = Finished p")
      case True
      have eq: "(th_objs s)(p \<mapsto> h) = th_objs s" using h by auto
      from n 6 True x have "s' = th_goto a (JoinDead p) (s\<lparr>natives := (natives s)(t \<mapsto> Joined), joined := t # joined s\<rparr>)"
        by (simp add: th_next_defs)
      moreover note inv_native [OF inv x(1)] x(2) inv_rest [OF inv]
      ultimately show ?thesis using nt
        by (intro inv_upd [OF inv _ _ _ _ _ obj_waited [OF ok 6]])
          (use ab h eq in \<open>auto simp: th_goto_def native_of_def\<close>)
    next
      case False
      with n 6 x nt leaves show ?thesis by (auto simp: th_next_defs native_of_def split: native.splits if_splits)
    qed
  next
    case 7
    with me have "th_state h = thState_joining" by simp
    with n 7 h have "s' = th_goto a (JoinUnlist p) (th_set p (h\<lparr>th_state := thState_dead\<rparr>) s)"
      by (simp add: th_next_defs th_cas_def)
    with inv_set [OF inv ab _ _ obj_dead [OF ok 7]] h show ?thesis by simp
  next
    case 8
    have ls: "obj_ok (th_pc s) (natives s) (removeAll p (threadList s)) p h"
      by (rule obj_list [OF ok]) (use me 8 in simp)
    have "obj_ok ((th_pc s)(a := Done r)) (natives s) (removeAll p (threadList s)) p h" for r
      by (rule obj_goto [OF ls]) (use 8 in simp_all)
    from inv_list [OF inv ab _ h _ this] have "th_inv (th_goto a (Done r) (s\<lparr>threadList := removeAll p (threadList s)\<rparr>))" for r
      by simp
    with n 8 leaves show ?thesis by (auto simp: th_next_defs thread_removeFromList_def split: luck.splits)
  qed
qed

lemma next_inv:
  assumes "th_inv s" and n: "th_next l a s = Some s'"
  shows "th_inv s'"
proof -
  have "\<exists>p t. th_pc s a \<in> {StartState p, StartList p, StartContext p, StartArgv p, StartCreate p, StartStore p t, StartCheck p,
      StartUndo p, StartUnlist p} \<union> {JoinSelf p, JoinCheck p, JoinState p, JoinRead p, JoinClear p t, JoinWait p t, JoinDead p, JoinUnlist p}"
    using n by (cases "th_pc s a") (simp_all add: th_next_defs)
  with start_inv [OF assms] join_inv [OF assms] show ?thesis by (metis UnE)
qed

text \<open>What happens to a native thread outside these functions.\<close>

lemma native_inv:
  assumes inv: "th_inv s" and n: "natives s t = Some x" "x = Running p \<or> x = Terminated p" "y = Terminated p \<or> y = Finished p"
    and h: "th_objs s p = Some h" and s': "th_objs s' = (th_objs s)(p \<mapsto> h\<lparr>th_termination := how\<rparr>)" "natives s' = (natives s)(t \<mapsto> y)"
      "th_pc s' = th_pc s" "threadList s' = threadList s" "next_native s' = next_native s" "joined s' = joined s"
  shows "th_inv s'"
proof -
  have ns: "native_of ((natives s)(t \<mapsto> y)) q u = native_of (natives s) q u" for q u
    using n by (auto simp: native_of_def)
  have "pc_ok ((natives s)(t \<mapsto> y)) p (h\<lparr>th_termination := how\<rparr>) l = pc_ok (natives s) p h l" for l
    by (rule pc_ok_cong) (simp_all add: ns)
  with inv_obj [OF inv h] have ok: "obj_ok (th_pc s) ((natives s)(t \<mapsto> y)) (threadList s) p (h\<lparr>th_termination := how\<rparr>)"
    by (simp add: obj_ok_def ns)
  have "case th_objs s' q of
          None \<Rightarrow> (\<forall>a. about (th_pc s' a) \<noteq> Some q) \<and> (\<forall>t. \<not> native_of (natives s') q t) \<and> q \<notin> set (threadList s')
        | Some h \<Rightarrow> obj_ok (th_pc s') (natives s') (threadList s') q h" for q
  proof (cases "q = p")
    case True
    with ok show ?thesis by (simp add: s')
  next
    case False
    show ?thesis
    proof (cases "th_objs s q")
      case None
      with inv_none [OF inv None] False show ?thesis by (simp add: s' ns)
    next
      case (Some k)
      have "pc_ok ((natives s)(t \<mapsto> y)) q k l = pc_ok (natives s) q k l" for l by (rule pc_ok_cong) (simp_all add: ns)
      with inv_obj [OF inv Some] Some False show ?thesis by (simp add: s' obj_ok_def ns)
    qed
  qed
  moreover have "x \<noteq> Joined" using n(2) by auto
  ultimately show ?thesis using inv_rest [OF inv] inv_native [OF inv n(1)] unfolding th_inv_def by (simp add: s')
qed

text \<open>The agents stay where they are with respect to every object, and one object comes or goes.\<close>

lemma inv_rely:
  assumes inv: "th_inv s" and l: "about l = None" "about (th_pc s a) = None"
    and p: "case th_objs s' p of
        None \<Rightarrow> (\<forall>b. about (th_pc s' b) \<noteq> Some p) \<and> (\<forall>t. \<not> native_of (natives s') p t) \<and> p \<notin> set (threadList s')
      | Some h \<Rightarrow> obj_ok (th_pc s') (natives s') (threadList s') p h"
    and s': "\<And>q. q \<noteq> p \<Longrightarrow> th_objs s' q = th_objs s q" "th_pc s' = (th_pc s)(a := l)" "natives s' = natives s"
      "threadList s' = threadList s" "next_native s' = next_native s" "joined s' = joined s"
  shows "th_inv s'"
proof -
  have "case th_objs s' q of
        None \<Rightarrow> (\<forall>b. about (th_pc s' b) \<noteq> Some q) \<and> (\<forall>t. \<not> native_of (natives s') q t) \<and> q \<notin> set (threadList s')
      | Some h \<Rightarrow> obj_ok (th_pc s') (natives s') (threadList s') q h" for q
  proof (cases "q = p")
    case True
    show ?thesis unfolding True by (rule p)
  next
    case False
    show ?thesis
    proof (cases "th_objs s q")
      case None
      with inv_none [OF inv None] s'(1) [OF False] l show ?thesis by (simp add: s'(2-6))
    next
      case (Some k)
      have "obj_ok ((th_pc s)(a := l)) (natives s) (threadList s) q k"
        by (rule obj_other [OF inv_obj [OF inv Some]]) (simp_all add: l)
      with Some s'(1) [OF False] show ?thesis by (simp add: s'(2-6))
    qed
  qed
  with inv_rest [OF inv] show ?thesis unfolding th_inv_def by (simp add: s'(2-6))
qed

lemma inv_here:
  assumes inv: "th_inv s"
  shows "case th_objs s p of
        None \<Rightarrow> (\<forall>b. about (th_pc s b) \<noteq> Some p) \<and> (\<forall>t. \<not> native_of (natives s) p t) \<and> p \<notin> set (threadList s)
      | Some h \<Rightarrow> obj_ok (th_pc s) (natives s) (threadList s) p h"
  using inv_none [OF inv, of p] inv_obj [OF inv, of p] by (cases "th_objs s p") simp_all

lemma leave_inv:
  assumes inv: "th_inv s" and l: "about (th_pc s a) = None"
  shows "th_inv (th_goto a Idle s)"
proof (rule inv_rely [OF inv _ l])
  show "case th_objs (th_goto a Idle s) NULL of
        None \<Rightarrow> (\<forall>b. about (th_pc (th_goto a Idle s) b) \<noteq> Some NULL) \<and> (\<forall>t. \<not> native_of (natives (th_goto a Idle s)) NULL t)
          \<and> NULL \<notin> set (threadList (th_goto a Idle s))
      | Some h \<Rightarrow> obj_ok (th_pc (th_goto a Idle s)) (natives (th_goto a Idle s)) (threadList (th_goto a Idle s)) NULL h"
  proof (cases "th_objs s NULL")
    case None
    with inv_none [OF inv None] show ?thesis by (simp add: th_goto_def)
  next
    case (Some h)
    have "obj_ok ((th_pc s)(a := Idle)) (natives s) (threadList s) NULL h"
      by (rule obj_other [OF inv_obj [OF inv Some]]) (simp_all add: l)
    with Some show ?thesis by (simp add: th_goto_def)
  qed
qed (simp_all add: th_goto_def)

lemma Thread_inv:
  assumes inv: "th_inv s" and p: "th_objs s p = None"
  shows "th_inv (Thread p s)"
proof -
  have e: "th_pc (Thread p s) = th_pc s" "natives (Thread p s) = natives s" "threadList (Thread p s) = threadList s"
    "next_native (Thread p s) = next_native s" "joined (Thread p s) = joined s"
    by (simp_all add: Thread_def th_set_def)
  note k = inv_none [OF inv p]
  have no: "\<not> started p (th_pc s b)" "\<not> starting p (th_pc s b)" "\<not> joining p (th_pc s b)" "\<not> placed p (th_pc s b)" for b
    using k(1) [of b] about_started by blast+
  have "obj_ok (th_pc s) (natives s) (threadList s) p thread_privateInitialzer"
    using k no pc_ok_elsewhere by (simp add: obj_ok_def thread_privateInitialzer_def)
  moreover have "obj_ok (th_pc s) (natives s) (threadList s) q h" if "th_objs s q = Some h" for q h by (rule inv_obj [OF inv that])
  ultimately have "case th_objs (Thread p s) q of
        None \<Rightarrow> (\<forall>b. about (th_pc s b) \<noteq> Some q) \<and> (\<forall>t. \<not> native_of (natives s) q t) \<and> q \<notin> set (threadList s)
      | Some h \<Rightarrow> obj_ok (th_pc s) (natives s) (threadList s) q h" for q
    using inv_here [OF inv, of q] by (cases "q = p") (simp_all add: Thread_def th_set_def)
  with inv_rest [OF inv] show ?thesis unfolding th_inv_def by (simp only: e simp_thms)
qed

text \<open>An object that can be collected has no thread.\<close>

lemma unreachable_threadless:
  assumes inv: "th_inv s" and u: "unreachable p s" and h: "th_objs s p = Some h"
  shows "\<not> native_of (natives s) p t" and "th_thread h = NULL"
proof -
  note k = obj_parts [OF inv_obj [OF inv h]]
  show n: "\<not> native_of (natives s) p t" for t using k(5) u by (auto simp: unreachable_def)
  then show "th_thread h = NULL" using k(6) by blast
qed

lemma collect_inv:
  assumes inv: "th_inv s" and u: "unreachable p s" and f: "Thread_Finalize p s = Some s'"
  shows "th_inv s'"
proof -
  from f obtain h where h: "th_objs s p = Some h" by (auto simp: Thread_Finalize_def bind_eq_Some_conv)
  with f have s': "s' = s\<lparr>th_objs := (th_objs s)(p := None)\<rparr>"
    by (simp add: Thread_Finalize_def split: if_splits)
  have e: "th_pc s' = th_pc s" "natives s' = natives s" "threadList s' = threadList s"
    "next_native s' = next_native s" "joined s' = joined s"
    by (simp_all add: s')
  have "case th_objs s' q of
        None \<Rightarrow> (\<forall>b. about (th_pc s b) \<noteq> Some q) \<and> (\<forall>t. \<not> native_of (natives s) q t) \<and> q \<notin> set (threadList s)
      | Some h \<Rightarrow> obj_ok (th_pc s) (natives s) (threadList s) q h" for q
    using inv_here [OF inv, of q] unreachable_threadless [OF inv u h] u
    by (cases "q = p") (simp_all add: s' unreachable_def)
  with inv_rest [OF inv] show ?thesis unfolding th_inv_def by (simp only: e simp_thms)
qed

lemma step_inv:
  assumes "th_step s s'" and inv: "th_inv s"
  shows "th_inv s'"
  using assms(1)
proof (cases rule: th_stepE [consumes 1, case_names construct call_start call_join call_sweep inside leave run_ends thread_gone collect])
  case (construct p)
  with Thread_inv [OF inv] show ?thesis by simp
next
  case (call_start a p)
  then obtain h where h: "th_objs s p = Some h" by blast
  have "th_inv (th_goto a (StartState p) s)" by (rule inv_move [OF inv _ _ h]) (use call_start in simp_all)
  with call_start show ?thesis by simp
next
  case (call_join a p)
  then obtain h where h: "th_objs s p = Some h" by blast
  have "th_inv (th_goto a (JoinSelf p) s)" by (rule inv_move [OF inv _ _ h]) (use call_join in simp_all)
  with call_join show ?thesis by simp
next
  case (call_sweep a p)
  then obtain h where h: "th_objs s p = Some h" using inv_none(3) [OF inv] by (cases "th_objs s p") auto
  have "th_inv (th_goto a (JoinCheck p) s)" by (rule inv_move [OF inv _ _ h]) (use call_sweep in simp_all)
  with call_sweep show ?thesis by simp
next
  case (inside l a)
  then show ?thesis by (rule next_inv [OF inv])
next
  case (leave a r)
  with leave_inv [OF inv, of a] show ?thesis by simp
next
  case (run_ends t p h how)
  show ?thesis
    by (rule native_inv [OF inv run_ends(2) _ _ run_ends(4)]) (simp_all add: run_ends(1) th_set_def)
next
  case (thread_gone t p)
  then have "native_of (natives s) p t" by (simp add: native_of_def)
  then obtain h where h: "th_objs s p = Some h" using inv_none(2) [OF inv] by (cases "th_objs s p") auto
  have "(th_objs s)(p \<mapsto> h\<lparr>th_termination := th_termination h\<rparr>) = th_objs s" using h by auto
  then show ?thesis
    by (intro native_inv [OF inv thread_gone(2) _ _ h, where how = "th_termination h"]) (simp_all add: thread_gone(1))
next
  case (collect p)
  with collect_inv [OF inv] show ?thesis by blast
qed

lemma reachable_inv: "th_reachable s \<Longrightarrow> th_inv s"
  by (induction rule: th_reachable.induct) (auto intro: th_inv_init step_inv)

section \<open>What a script sees of a thread\<close>

definition state_of :: "ptr \<Rightarrow> th_sys \<Rightarrow> thState option" where
  "state_of p s = map_option th_state (th_objs s p)"

text \<open>The state transition diagram of the module.\<close>

inductive diagram :: "thState option \<Rightarrow> thState option \<Rightarrow> bool" where
  made: "diagram None (Some thState_new)"
| about_to_start: "diagram (Some thState_new) (Some thState_runnable)"
| failed_to_start: "diagram (Some thState_runnable) (Some thState_dead)"
| waiting: "diagram (Some thState_runnable) (Some thState_joining)"
| stopped: "diagram (Some thState_joining) (Some thState_dead)"
| finalized: "diagram (Some x) None"

text \<open>What a step inside a function may change.\<close>

definition may_set :: "th_pc \<Rightarrow> ptr \<Rightarrow> thState \<Rightarrow> thState \<Rightarrow> bool" where
  "may_set l q x y \<longleftrightarrow> x = y \<or> l = StartState q \<and> x = thState_new \<and> y = thState_runnable
     \<or> l = StartUndo q \<and> x = thState_runnable \<and> y = thState_dead
     \<or> l = JoinState q \<and> x = thState_runnable \<and> y = thState_joining
     \<or> l = JoinDead q \<and> x = thState_joining \<and> y = thState_dead"

definition one_object :: "th_pc \<Rightarrow> (ptr \<Rightarrow> thread_private option) \<Rightarrow> (ptr \<Rightarrow> thread_private option) \<Rightarrow> bool" where
  "one_object l os os' \<longleftrightarrow> os' = os \<or> (\<exists>q h h'. os q = Some h \<and> os' = os(q \<mapsto> h') \<and> may_set l q (th_state h) (th_state h'))"

lemma one_object_upd:
  "one_object l os os"
  "os q = Some h \<Longrightarrow> may_set l q (th_state h) (th_state h') \<Longrightarrow> one_object l os (os(q \<mapsto> h'))"
  unfolding one_object_def by blast+

lemma next_objects:
  assumes n: "th_next l a s = Some s'"
  shows "one_object (th_pc s a) (th_objs s) (th_objs s')"
  using n
  by (cases "th_pc s a"; simp add: th_next_defs th_cas_def map_option_case split: if_split_asm option.split_asm luck.split_asm native.split_asm;
      auto simp: th_set_def th_goto_def thread_addToList_def thread_removeFromList_def one_object_upd(1) may_set_def
        split: luck.split_asm intro!: one_object_upd(2))

lemma next_list:
  assumes n: "th_next l a s = Some s'" and q: "q \<in> set (threadList s')"
  shows "q \<in> set (threadList s) \<or> th_pc s a = StartList q \<and> th_objs s' = th_objs s"
  using n q
  by (cases "th_pc s a"; simp add: th_next_defs th_cas_def map_option_case split: if_split_asm option.split_asm luck.split_asm native.split_asm;
      auto simp: th_set_def th_goto_def thread_addToList_def thread_removeFromList_def split: luck.split_asm)

lemma next_diagram:
  assumes n: "th_next l a s = Some s'"
  shows "state_of p s' = state_of p s \<or> diagram (state_of p s) (state_of p s')" and "state_of p s \<noteq> None \<Longrightarrow> state_of p s' \<noteq> None"
    and "state_of p s' = Some thState_new \<Longrightarrow> state_of p s = Some thState_new"
    and "state_of p s = Some thState_runnable \<Longrightarrow> state_of p s' = Some thState_dead \<Longrightarrow> th_pc s a = StartUndo p"
proof -
  have m: "x = y \<or> diagram (Some x) (Some y)" "y = thState_new \<Longrightarrow> x = y"
    "x = thState_runnable \<Longrightarrow> y = thState_dead \<Longrightarrow> l = StartUndo q" if "may_set l q x y" for l q x y
    using that by (auto simp: may_set_def diagram.simps)
  from next_objects [OF n] consider "th_objs s' = th_objs s"
    | q h h' where "th_objs s q = Some h" "th_objs s' = (th_objs s)(q \<mapsto> h')" "may_set (th_pc s a) q (th_state h) (th_state h')"
    unfolding one_object_def by blast
  then have "(state_of p s' = state_of p s \<or> diagram (state_of p s) (state_of p s')) \<and> (state_of p s \<noteq> None \<longrightarrow> state_of p s' \<noteq> None)
    \<and> (state_of p s' = Some thState_new \<longrightarrow> state_of p s = Some thState_new)
    \<and> (state_of p s = Some thState_runnable \<longrightarrow> state_of p s' = Some thState_dead \<longrightarrow> th_pc s a = StartUndo p)"
  proof cases
    case 1
    then have "state_of p s' = state_of p s" by (simp add: state_of_def)
    then show ?thesis by simp
  next
    case 2
    with m [OF 2(3)] show ?thesis by (cases "p = q") (auto simp: state_of_def)
  qed
  then show "state_of p s' = state_of p s \<or> diagram (state_of p s) (state_of p s')" "state_of p s \<noteq> None \<Longrightarrow> state_of p s' \<noteq> None"
    "state_of p s' = Some thState_new \<Longrightarrow> state_of p s = Some thState_new"
    "state_of p s = Some thState_runnable \<Longrightarrow> state_of p s' = Some thState_dead \<Longrightarrow> th_pc s a = StartUndo p"
    by blast+
qed

lemma step_diagram:
  assumes "th_step s s'"
  shows "state_of p s' = state_of p s \<or> diagram (state_of p s) (state_of p s')"
    and "state_of p s \<noteq> None \<Longrightarrow> state_of p s' = None \<Longrightarrow> unreachable p s"
    and "state_of p s' = Some thState_new \<Longrightarrow> state_of p s = Some thState_new \<or> state_of p s = None \<and> threadList s' = threadList s"
    and "state_of p s = Some thState_runnable \<Longrightarrow> state_of p s' = Some thState_dead \<Longrightarrow> \<exists>a. th_pc s a = StartUndo p"
    and "p \<in> set (threadList s') \<Longrightarrow> p \<in> set (threadList s) \<or> (\<exists>a. th_pc s a = StartList p \<and> state_of p s' = state_of p s)"
proof -
  have "(state_of p s' = state_of p s \<or> diagram (state_of p s) (state_of p s'))
    \<and> (state_of p s \<noteq> None \<longrightarrow> state_of p s' = None \<longrightarrow> unreachable p s)
    \<and> (state_of p s' = Some thState_new \<longrightarrow> state_of p s = Some thState_new \<or> state_of p s = None \<and> threadList s' = threadList s)
    \<and> (state_of p s = Some thState_runnable \<longrightarrow> state_of p s' = Some thState_dead \<longrightarrow> (\<exists>a. th_pc s a = StartUndo p))
    \<and> (p \<in> set (threadList s') \<longrightarrow> p \<in> set (threadList s) \<or> (\<exists>a. th_pc s a = StartList p \<and> state_of p s' = state_of p s))"
    using assms
  proof (cases rule: th_stepE [consumes 1, case_names construct call_start call_join call_sweep inside leave run_ends thread_gone collect])
    case (construct q)
    then show ?thesis by (auto simp: state_of_def Thread_def th_set_def thread_privateInitialzer_def diagram.simps)
  next
    case (inside l a)
    note d = next_diagram [OF inside]
    have "p \<in> set (threadList s') \<longrightarrow> p \<in> set (threadList s) \<or> (\<exists>a. th_pc s a = StartList p \<and> state_of p s' = state_of p s)"
      using next_list [OF inside, of p] unfolding state_of_def by metis
    moreover have "state_of p s' = Some thState_new \<longrightarrow> state_of p s = Some thState_new" using d(3) by blast
    moreover have "state_of p s \<noteq> None \<longrightarrow> state_of p s' = None \<longrightarrow> unreachable p s" using d(2) by blast
    moreover have "state_of p s = Some thState_runnable \<longrightarrow> state_of p s' = Some thState_dead \<longrightarrow> (\<exists>a. th_pc s a = StartUndo p)"
      using d(4) by blast
    ultimately show ?thesis using d(1) [of p] by (intro conjI) (assumption | blast)+
  next
    case (collect q)
    then show ?thesis
      by (auto simp: state_of_def Thread_Finalize_def bind_eq_Some_conv diagram.simps split: if_splits)
  qed (auto simp: th_goto_def th_set_def state_of_def)
  then show "state_of p s' = state_of p s \<or> diagram (state_of p s) (state_of p s')"
    "state_of p s \<noteq> None \<Longrightarrow> state_of p s' = None \<Longrightarrow> unreachable p s"
    "state_of p s' = Some thState_new \<Longrightarrow> state_of p s = Some thState_new \<or> state_of p s = None \<and> threadList s' = threadList s"
    "state_of p s = Some thState_runnable \<Longrightarrow> state_of p s' = Some thState_dead \<Longrightarrow> \<exists>a. th_pc s a = StartUndo p"
    "p \<in> set (threadList s') \<Longrightarrow> p \<in> set (threadList s) \<or> (\<exists>a. th_pc s a = StartList p \<and> state_of p s' = state_of p s)"
    by - (elim conjE, iprover)+
qed

text \<open>No new object is in the list.\<close>

lemma listed_not_new:
  assumes "th_reachable s"
  shows "p \<in> set (threadList s) \<Longrightarrow> state_of p s \<noteq> Some thState_new \<and> state_of p s \<noteq> None"
  using assms
proof (induction arbitrary: p)
  case th_start_state
  then show ?case by (simp add: th_init_def)
next
  case (th_more s s')
  note inv = reachable_inv [OF th_more.hyps(1)]
  note d = step_diagram [OF th_more.hyps(2), of p]
  have inv': "th_inv s'" by (rule step_inv [OF th_more.hyps(2) inv])
  have "state_of p s' \<noteq> None" using inv_none(3) [OF inv', of p] th_more.prems by (auto simp: state_of_def)
  moreover have "state_of p s' \<noteq> Some thState_new"
  proof
    assume new: "state_of p s' = Some thState_new"
    show False
    proof (cases "p \<in> set (threadList s)")
      case True
      with th_more.IH [OF True] d(3) [OF new] show False by simp
    next
      case False
      with d(5) [OF th_more.prems] obtain a where a: "th_pc s a = StartList p" "state_of p s' = state_of p s" by blast
      then obtain h where h: "th_objs s p = Some h" using inv_live [OF inv, of a p] by auto
      from obj_parts(1) [OF inv_obj [OF inv h], of a] a(1) h have "state_of p s = Some thState_runnable" by (simp add: state_of_def)
      with a(2) new show False by simp
    qed
  qed
  ultimately show ?case by simp
qed

section \<open>Runs\<close>

text \<open>Steps of chosen agents inside the functions.\<close>

fun th_path :: "(luck \<times> ptr) list \<Rightarrow> th_sys \<Rightarrow> th_sys option" where
  "th_path [] s = Some s"
| "th_path ((l, a) # xs) s = Option.bind (th_next l a s) (th_path xs)"

lemma path_reachable: "th_reachable s \<Longrightarrow> th_path xs s = Some s' \<Longrightarrow> th_reachable s'"
proof (induction xs s rule: th_path.induct)
  case (2 l a xs s)
  from 2(3) obtain u where u: "th_next l a s = Some u" "th_path xs u = Some s'" by (auto simp: bind_eq_Some_conv)
  show ?case by (rule 2(1) [OF u(1) th_more [OF 2(2) th_step.inside [OF u(1)]] u(2)])
qed simp

text \<open>The primordial thread starts a thread, which is native thread 2, and then joins it.\<close>

definition th_started :: th_sys where
  "th_started = \<lparr>th_objs = [6 \<mapsto> \<lparr>th_state = thState_runnable, th_termination = th_term_not, th_thread = 2\<rparr>], threadList = [6],
     natives = [2 \<mapsto> Running 6], next_native = 3, th_pc = (\<lambda>_. Idle), joined = []\<rparr>"

definition th_waiting :: th_sys where
  "th_waiting = \<lparr>th_objs = [6 \<mapsto> \<lparr>th_state = thState_joining, th_termination = th_term_not, th_thread = NULL\<rparr>], threadList = [6],
     natives = [2 \<mapsto> Running 6], next_native = 3, th_pc = (\<lambda>_. Idle)(1 := JoinWait 6 2), joined = []\<rparr>"

lemmas th_run_simps = th_next_defs th_cas_def th_set_def th_goto_def thread_addToList_def thread_removeFromList_def Thread_def
  thread_privateInitialzer_def th_init_def runs_scripts_def

lemma started_reachable: "th_reachable th_started"
proof -
  let ?s = "th_goto 1 (StartState 6) (Thread 6 th_init)"
  have "th_reachable (Thread 6 th_init)"
    by (rule th_more [OF th_start_state th_step.construct]) (simp_all add: th_init_def)
  then have "th_reachable ?s" by (rule th_more, intro th_step.call_start) (simp_all add: th_run_simps)
  moreover have "th_path (replicate 7 (Good, 1)) ?s = Some (th_goto 1 (Done (Returned True)) th_started)"
    by (simp add: th_run_simps th_started_def numeral_eq_Suc List.insert_def)
  ultimately have "th_reachable (th_goto 1 (Done (Returned True)) th_started)" by (rule path_reachable)
  then have "th_reachable (th_goto 1 Idle (th_goto 1 (Done (Returned True)) th_started))"
    by (rule th_more, intro th_step.leave) (simp add: th_goto_def)
  moreover have "th_goto 1 Idle (th_goto 1 (Done (Returned True)) th_started) = th_started"
    by (simp add: th_goto_def th_started_def fun_upd_idem)
  ultimately show ?thesis by simp
qed

lemma waiting_reachable: "th_reachable th_waiting"
proof -
  have "th_reachable (th_goto 1 (JoinSelf 6) th_started)"
    by (rule th_more [OF started_reachable], intro th_step.call_join) (simp_all add: runs_scripts_def th_started_def)
  moreover have "th_path (replicate 5 (Good, 1)) (th_goto 1 (JoinSelf 6) th_started) = Some th_waiting"
    by (simp add: th_run_simps th_started_def th_waiting_def numeral_eq_Suc)
  ultimately show ?thesis by (rule path_reachable)
qed

text \<open>C30: A native thread is joined at most once.  Whoever waits in PR\_JoinThread waits for a thread of its own object that was
  not joined yet -- nobody else waits for an object at the same time -- so the call cannot touch a freed thread; and the branch of
  \<open>thread_join\<close> that is called impossible is.\<close>

theorem threads_joined_once:
  assumes "th_reachable s"
  shows "distinct (joined s) \<and> (\<forall>a p. th_pc s a \<noteq> JoinNotReached p)
    \<and> (\<forall>a p t. th_pc s a = JoinWait p t \<longrightarrow> native_of (natives s) p t \<and> t \<notin> set (joined s)
         \<and> (\<forall>l s'. th_next l a s = Some s' \<longrightarrow> th_pc s' a \<noteq> Crashed) \<and> (\<forall>b u. th_pc s b = JoinWait p u \<longrightarrow> b = a))"
proof -
  note inv = reachable_inv [OF assms]
  have nr: "th_pc s a \<noteq> JoinNotReached p" for a p
  proof
    assume a: "th_pc s a = JoinNotReached p"
    then obtain h where h: "th_objs s p = Some h" using inv_live [OF inv, of a p] by auto
    from obj_parts(1) [OF inv_obj [OF inv h], of a] a show False by simp
  qed
  have w: "native_of (natives s) p t \<and> t \<notin> set (joined s)
      \<and> (\<forall>l s'. th_next l a s = Some s' \<longrightarrow> th_pc s' a \<noteq> Crashed) \<and> (\<forall>b u. th_pc s b = JoinWait p u \<longrightarrow> b = a)"
    if a: "th_pc s a = JoinWait p t" for a p t
  proof -
    obtain h where h: "th_objs s p = Some h" using inv_live [OF inv, of a p] a by auto
    note k = obj_parts [OF inv_obj [OF inv h]]
    have n: "native_of (natives s) p t" using k(1) [of a] a by simp
    then obtain x where x: "natives s t = Some x" "x \<noteq> Joined" by (auto simp: native_of_def)
    have "\<forall>b u. th_pc s b = JoinWait p u \<longrightarrow> b = a" using k(3) [of _ a] a by simp
    moreover have "th_pc s' a \<noteq> Crashed" if "th_next l a s = Some s'" for l s'
      using that a n by (auto simp: th_next_defs native_of_def th_goto_def split: if_split_asm)
    ultimately show ?thesis using n inv_native(3) [OF inv x] by blast
  qed
  show ?thesis using inv_rest(4) [OF inv] nr w by (intro conjI allI impI) blast+
qed

lemma threads_joined_once_witness: "th_pc th_waiting 1 = JoinWait 6 2 \<and> native_of (natives th_waiting) 6 2"
proof -
  have w: "th_pc th_waiting 1 = JoinWait 6 2" by (simp add: th_waiting_def)
  from threads_joined_once [OF waiting_reachable] w have "native_of (natives th_waiting) 6 2" by blast
  with w show ?thesis by simp
qed

text \<open>C31: The state of a thread object moves along the documented diagram only, whatever the threads do: a step is a transition of
  the diagram or leaves the state alone.  Only an unreachable object is finalized, only an object without a native thread goes
  from runnable to dead, and the list holds no new object.\<close>

theorem thread_states_follow_diagram:
  assumes "th_reachable s" and "th_step s s'"
  shows "(state_of p s' = state_of p s \<or> diagram (state_of p s) (state_of p s'))
    \<and> (state_of p s \<noteq> None \<and> state_of p s' = None \<longrightarrow> unreachable p s)
    \<and> (state_of p s = Some thState_runnable \<and> state_of p s' = Some thState_dead \<longrightarrow> (\<forall>t. \<not> native_of (natives s) p t))
    \<and> (p \<in> set (threadList s') \<longrightarrow> state_of p s' \<noteq> Some thState_new)"
proof -
  note inv = reachable_inv [OF assms(1)]
  note d = step_diagram [OF assms(2), of p]
  have "\<not> native_of (natives s) p t" if st: "state_of p s = Some thState_runnable" and d': "state_of p s' = Some thState_dead" for t
  proof -
    from d(4) [OF st d'] obtain a where a: "th_pc s a = StartUndo p" by blast
    from st obtain h where h: "th_objs s p = Some h" "th_state h = thState_runnable" by (auto simp: state_of_def)
    note k = obj_parts [OF inv_obj [OF inv h(1)]]
    have "\<not> starting p (th_pc s b)" for b
      using k(2) [of a b] a about_started(2) [of p "th_pc s b"] by (cases "b = a") auto
    moreover have "th_thread h = NULL" using k(1) [of a] a h(2) by simp
    ultimately show ?thesis using k(9) [OF h(2)] by blast
  qed
  with d(1,2) listed_not_new [OF th_more [OF assms], of p] show ?thesis by blast
qed

lemma thread_states_follow_diagram_witness:
  "diagram (state_of 7 th_started) (state_of 7 (Thread 7 th_started))"
proof -
  have s: "th_step th_started (Thread 7 th_started)" by (rule th_step.construct) (simp_all add: th_started_def)
  have "state_of 7 (Thread 7 th_started) \<noteq> state_of 7 th_started"
    by (simp add: state_of_def th_started_def Thread_def th_set_def)
  with thread_states_follow_diagram [OF started_reachable s, of 7] show ?thesis by blast
qed



section \<open>What goes wrong\<close>

text \<open>C34: The branch of \<open>th_start\<close> for a thread that NSPR did not make, whose end is called impossible, can be reached: the handle is
  read again after the thread was stored, and a joiner on another thread has cleared it in between.  The thread runs, and
  \<open>GPSEE\_NOT\_REACHED\<close> ends the program.\<close>

theorem start_meets_impossible:
  "\<exists>s a p t. th_reachable s \<and> th_pc s a = StartNotReached p \<and> natives s t = Some (Running p)
     \<and> state_of p s = Some thState_joining \<and> (\<exists>b. b \<noteq> a \<and> th_pc s b = JoinWait p t)"
proof -
  let ?s = "th_goto 1 (StartState 7) (Thread 7 th_started)"
  have "th_reachable (Thread 7 th_started)"
    by (rule th_more [OF started_reachable th_step.construct]) (simp_all add: th_started_def)
  then have s: "th_reachable ?s" by (rule th_more, intro th_step.call_start) (simp_all add: th_run_simps th_started_def)
  define u where "u = the (th_path (replicate 6 (Good, 1)) ?s)"
  have u: "th_path (replicate 6 (Good, 1)) ?s = Some u"
    by (simp add: u_def th_run_simps th_started_def numeral_eq_Suc)
  have "th_pc u 2 = Idle" "natives u 2 = Some (Running 6)" "th_objs u 7 \<noteq> None"
    by (simp_all add: u_def th_run_simps th_started_def numeral_eq_Suc)
  then have j: "th_reachable (th_goto 2 (JoinSelf 7) u)"
    by (intro th_more [OF path_reachable [OF s u]] th_step.call_join) (simp_all add: runs_scripts_def)
  define v where "v = the (th_path (replicate 5 (Good, 2) @ replicate 2 (Good, 1)) (th_goto 2 (JoinSelf 7) u))"
  have v: "th_path (replicate 5 (Good, 2) @ replicate 2 (Good, 1)) (th_goto 2 (JoinSelf 7) u) = Some v"
    by (simp add: v_def u_def th_run_simps th_started_def numeral_eq_Suc)
  have "th_pc v 1 = StartNotReached 7" "natives v 3 = Some (Running 7)" "state_of 7 v = Some thState_joining" "th_pc v 2 = JoinWait 7 3"
    by (simp_all add: v_def u_def th_run_simps th_started_def numeral_eq_Suc state_of_def)
  moreover have "(2::ptr) \<noteq> 1" by simp
  ultimately show ?thesis using path_reachable [OF j v] by blast
qed

text \<open>A join that failed: the state says that somebody joins, nobody does, and the handle has lost its thread.\<close>

definition stuck :: "ptr \<Rightarrow> ptr \<Rightarrow> th_sys \<Rightarrow> bool" where
  "stuck p t s \<longleftrightarrow> (\<exists>h. th_objs s p = Some h \<and> th_state h = thState_joining \<and> th_thread h = NULL)
     \<and> (\<forall>a. \<not> joining p (th_pc s a)) \<and> native_of (natives s) p t"

lemma stuck_next:
  assumes inv: "th_inv s" and st: "stuck p t s" and n: "th_next l a s = Some s'"
  shows "stuck p t s'"
proof -
  from st obtain h where h: "th_objs s p = Some h" "th_state h = thState_joining" "th_thread h = NULL"
    and nj: "\<not> joining p (th_pc s b)" and nt: "native_of (natives s) p t" for b
    unfolding stuck_def by blast
  note k = obj_parts [OF inv_obj [OF inv h(1)]]
  have me: "pc_ok (natives s) p h (th_pc s a)" by (rule k(1))
  have o: "\<exists>h. th_objs s' p = Some h \<and> th_state h = thState_joining \<and> th_thread h = NULL"
    using n me nj [of a] h
    by (cases "th_pc s a"; simp add: th_next_defs th_cas_def map_option_case split: if_split_asm option.split_asm luck.split_asm native.split_asm;
        auto simp: th_set_def th_goto_def thread_addToList_def thread_removeFromList_def split: luck.split_asm)
  have pc: "th_pc s' = (th_pc s)(a := th_pc s' a)"
    using n
    by (cases "th_pc s a"; simp add: th_next_defs th_cas_def map_option_case split: if_split_asm option.split_asm luck.split_asm native.split_asm;
        auto simp: th_set_def th_goto_def thread_addToList_def thread_removeFromList_def split: luck.split_asm option.split_asm)
  have "\<not> joining p (th_pc s' a)"
    using n me nj [of a] h
    by (cases "th_pc s a"; simp add: th_next_defs th_cas_def map_option_case split: if_split_asm option.split_asm luck.split_asm native.split_asm;
        auto simp: th_set_def th_goto_def thread_addToList_def thread_removeFromList_def split: luck.split_asm)
  with nj have j: "\<not> joining p (th_pc s' b)" for b by (subst pc) (simp add: fun_upd_apply)
  have "natives s t \<noteq> None" using nt by (auto simp: native_of_def)
  then have "t \<noteq> next_native s" using inv_rest(1) [OF inv] by auto
  moreover have "th_pc s a \<noteq> JoinWait q t" for q
  proof
    assume q: "th_pc s a = JoinWait q t"
    then obtain g where g: "th_objs s q = Some g" using inv_live [OF inv, of a q] by auto
    have "native_of (natives s) q t" using obj_parts(1) [OF inv_obj [OF inv g], of a] q by simp
    with nt nj [of a] q show False by (auto simp: native_of_def)
  qed
  then have "\<forall>q. th_pc s a \<noteq> JoinWait q t" by blast
  ultimately have "natives s' t = natives s t"
    using n
    by (cases "th_pc s a"; simp add: th_next_defs th_cas_def map_option_case split: if_split_asm option.split_asm luck.split_asm native.split_asm;
        auto simp: th_set_def th_goto_def thread_addToList_def thread_removeFromList_def split: luck.split_asm)
  with nt have "native_of (natives s') p t" by (simp add: native_of_def)
  with o j show ?thesis by (simp add: stuck_def)
qed



end
