(* ===== verification/XDRFile.thy ===== *)
theory XDRFile
  imports Prelude
begin

text \<open>
  The XDR stream on a file of gpsee\_xdrfile.c, by which compiled scripts are frozen and thawed.  It is
  modelled as it is built, without \<open>XDR_USES_MMAP\<close>.

  A FILE is its bytes and its position; \<open>s_room\<close> is how many more bytes its device takes.  The buffer
  that \<open>xdrfile_raw\<close> returns belongs to the stream and is filled by the caller afterwards
  (\<open>xdr_poke\<close>), so it is written to the file before the next operation.  \<open>JS_malloc\<close> is an argument.
  \<open>None\<close> is undefined behaviour.  Words are stored low byte first.
\<close>

section \<open>Files\<close>

record stream =
  s_bytes :: "byte list"
  s_pos :: nat
  s_room :: nat
  s_readable :: bool

definition fwrite :: "byte list \<Rightarrow> stream \<Rightarrow> nat \<times> stream" where
  "fwrite xs f =
     (let n = min (length xs) (s_room f);
          bs = s_bytes f @ replicate (s_pos f - length (s_bytes f)) 0
      in (n, f\<lparr>s_bytes := take (s_pos f) bs @ take n xs @ drop (s_pos f + n) bs, s_pos := s_pos f + n, s_room := s_room f - n\<rparr>))"

definition fread :: "nat \<Rightarrow> stream \<Rightarrow> byte list \<times> stream" where
  "fread n f =
     (if s_readable f
      then let xs = take n (drop (s_pos f) (s_bytes f)) in (xs, f\<lparr>s_pos := s_pos f + length xs\<rparr>)
      else ([], f))"

datatype JSXDRWhence = JSXDR_SEEK_SET | JSXDR_SEEK_CUR | JSXDR_SEEK_END | JSXDR_SEEK_bad

definition fseek :: "int \<Rightarrow> JSXDRWhence \<Rightarrow> stream \<Rightarrow> stream option" where
  "fseek offset whence f =
     (let base = (case whence of JSXDR_SEEK_CUR \<Rightarrow> int (s_pos f) | JSXDR_SEEK_END \<Rightarrow> int (length (s_bytes f)) | _ \<Rightarrow> 0)
      in if base + offset < 0 then None else Some (f\<lparr>s_pos := nat (base + offset)\<rparr>))"

section \<open>The stream\<close>

datatype JSXDRMode = JSXDR_ENCODE | JSXDR_DECODE | JSXDR_FREE

record XDRFile =
  x_mode :: JSXDRMode
  x_f :: "stream option"
  x_own_file :: bool
  x_raw :: "byte list option"
  x_rawlen :: "32 word"
  x_rawsize :: "32 word"
  x_rawlive :: bool

type_synonym allocator = "nat \<Rightarrow> byte list option"

definition malloc_law :: "allocator \<Rightarrow> bool" where
  "malloc_law al \<longleftrightarrow> (\<forall>n b. al n = Some b \<longrightarrow> length b = n)"

text \<open>The result of \<open>fopen\<close> is given, for a caller that passes no open file; the boolean says that
  the file was closed again.\<close>

definition gpsee_XDRNewFile :: "bool \<Rightarrow> JSXDRMode \<Rightarrow> stream option \<Rightarrow> stream option \<Rightarrow> XDRFile option \<times> bool" where
  "gpsee_XDRNewFile ok mode opened f =
     (if mode \<noteq> JSXDR_ENCODE \<and> mode \<noteq> JSXDR_DECODE then (None, False)
      else case (case f of None \<Rightarrow> opened | Some _ \<Rightarrow> f) of
        None \<Rightarrow> (None, False)
      | Some g \<Rightarrow>
          if \<not> ok then (None, f = None)
          else (Some \<lparr>x_mode = mode, x_f = Some g, x_own_file = (f = None), x_raw = None, x_rawlen = 0, x_rawsize = 0,
                  x_rawlive = False\<rparr>, False))"

text \<open>\<open>fwrite\<close> takes the length, an \<open>int\<close>, as a \<open>size_t\<close>.\<close>

definition raw_bytes :: "XDRFile \<Rightarrow> byte list option" where
  "raw_bytes x = Option.bind (x_raw x) (\<lambda>b. load_block b 0 (unat (scast (x_rawlen x) :: 64 word)))"

definition xdrfile_commit_raw :: "XDRFile \<Rightarrow> XDRFile option" where
  "xdrfile_commit_raw x =
     (if x_rawlive x \<and> x_raw x \<noteq> None \<and> x_mode x = JSXDR_ENCODE
      then Option.bind (raw_bytes x) (\<lambda>xs.
           Option.bind (x_f x) (\<lambda>f. Some (x\<lparr>x_f := Some (snd (fwrite xs f)), x_rawlive := False\<rparr>)))
      else Some x)"

text \<open>The boolean says that the address of the buffer is returned, and not NULL.\<close>

definition raw_fill :: "nat \<Rightarrow> XDRFile \<Rightarrow> (bool \<times> XDRFile) option" where
  "raw_fill len x =
     Option.bind (x_f x) (\<lambda>f.
       case fread len f of (xs, f) \<Rightarrow>
       case x_raw x of
         None \<Rightarrow> if xs = [] then Some (False, x\<lparr>x_f := Some f\<rparr>) else None
       | Some b \<Rightarrow> Option.bind (store_block b 0 xs) (\<lambda>b. Some (len \<le> length xs, x\<lparr>x_f := Some f, x_raw := Some b\<rparr>)))"

definition xdrfile_raw :: "allocator \<Rightarrow> 32 word \<Rightarrow> XDRFile \<Rightarrow> (bool \<times> XDRFile) option" where
  "xdrfile_raw al len x =
     Option.bind (xdrfile_commit_raw x) (\<lambda>x.
       let grown = (if x_rawsize x < len
                    then map_option (\<lambda>b. x\<lparr>x_raw := Some b, x_rawsize := len\<rparr>) (al (unat len))
                    else Some x)
       in case grown of
            None \<Rightarrow> Some (False, x\<lparr>x_raw := None, x_rawlen := 0, x_rawlive := False, x_rawsize := 0\<rparr>)
          | Some x \<Rightarrow>
              let x = x\<lparr>x_rawlen := len, x_rawlive := True\<rparr>
              in if x_mode x \<noteq> JSXDR_ENCODE
                 then raw_fill (unat len) x
                 else Some (x_raw x \<noteq> None, x))"

text \<open>What the caller does with the address.\<close>

definition xdr_poke :: "byte list \<Rightarrow> XDRFile \<Rightarrow> XDRFile option" where
  "xdr_poke xs x = Option.bind (x_raw x) (\<lambda>b. map_option (\<lambda>b. x\<lparr>x_raw := Some b\<rparr>) (store_block b 0 xs))"

definition xdr_peek :: "nat \<Rightarrow> XDRFile \<Rightarrow> byte list option" where
  "xdr_peek n x = Option.bind (x_raw x) (\<lambda>b. load_block b 0 n)"

definition xdrfile_tell :: "XDRFile \<Rightarrow> (32 word \<times> XDRFile) option" where
  "xdrfile_tell x =
     Option.bind (xdrfile_commit_raw x) (\<lambda>x. map_option (\<lambda>f. (word_of_nat (s_pos f), x)) (x_f x))"

definition xdrfile_seek :: "int \<Rightarrow> JSXDRWhence \<Rightarrow> XDRFile \<Rightarrow> (bool \<times> XDRFile) option" where
  "xdrfile_seek offset whence x =
     Option.bind (xdrfile_commit_raw x) (\<lambda>x.
       if whence = JSXDR_SEEK_bad then Some (False, x)
       else Option.bind (x_f x) (\<lambda>f.
         case fseek offset whence f of None \<Rightarrow> Some (False, x) | Some f \<Rightarrow> Some (True, x\<lparr>x_f := Some f\<rparr>)))"

definition xdrfile_setbytes :: "byte list \<Rightarrow> XDRFile \<Rightarrow> (bool \<times> XDRFile) option" where
  "xdrfile_setbytes buf x =
     Option.bind (xdrfile_commit_raw x) (\<lambda>x.
       case x_f x of
         None \<Rightarrow> Some (False, x)
       | Some f \<Rightarrow> (case fwrite buf f of (n, f) \<Rightarrow> Some (length buf \<le> n, x\<lparr>x_f := Some f\<rparr>)))"

text \<open>The bytes that were read come back with the result.\<close>

definition xdrfile_getbytes :: "nat \<Rightarrow> XDRFile \<Rightarrow> (bool \<times> byte list \<times> XDRFile) option" where
  "xdrfile_getbytes len x =
     Option.bind (xdrfile_commit_raw x) (\<lambda>x.
       case x_f x of
         None \<Rightarrow> Some (False, [], x)
       | Some f \<Rightarrow> (case fread len f of (xs, f) \<Rightarrow> Some (len \<le> length xs, xs, x\<lparr>x_f := Some f\<rparr>)))"

definition u32_bytes :: "32 word \<Rightarrow> byte list" where
  "u32_bytes w = [ucast w, ucast (drop_bit 8 w), ucast (drop_bit 16 w), ucast (drop_bit 24 w)]"

fun bytes_u32 :: "byte list \<Rightarrow> 32 word" where
  "bytes_u32 [a, b, c, d] = ucast a OR push_bit 8 (ucast b) OR push_bit 16 (ucast c) OR push_bit 24 (ucast d)"
| "bytes_u32 xs = 0"

definition xdrfile_set32 :: "32 word \<Rightarrow> XDRFile \<Rightarrow> (bool \<times> XDRFile) option" where
  "xdrfile_set32 w x =
     Option.bind (xdrfile_commit_raw x) (\<lambda>x.
       case x_f x of
         None \<Rightarrow> Some (False, x)
       | Some f \<Rightarrow> (case fwrite (u32_bytes w) f of (n, f) \<Rightarrow> Some (n = 4, x\<lparr>x_f := Some f\<rparr>)))"

text \<open>\<open>old\<close> is what the word at the address was before; a short read replaces its first bytes.\<close>

definition xdrfile_get32 :: "32 word \<Rightarrow> XDRFile \<Rightarrow> (bool \<times> 32 word \<times> XDRFile) option" where
  "xdrfile_get32 old x =
     Option.bind (xdrfile_commit_raw x) (\<lambda>x.
       case x_f x of
         None \<Rightarrow> Some (False, old, x)
       | Some f \<Rightarrow> (case fread 4 f of (xs, f) \<Rightarrow>
           Some (length xs = 4, bytes_u32 (xs @ drop (length xs) (u32_bytes old)), x\<lparr>x_f := Some f\<rparr>)))"

text \<open>The file, as it is when the stream is gone, and whether it was closed.\<close>

definition xdrfile_finalize :: "XDRFile \<Rightarrow> ((stream option \<times> bool) \<times> XDRFile) option" where
  "xdrfile_finalize x =
     Option.bind (xdrfile_commit_raw x) (\<lambda>x.
       Some ((x_f x, x_own_file x \<and> x_f x \<noteq> None),
             x\<lparr>x_raw := None, x_rawsize := (if x_raw x = None then x_rawsize x else 0), x_f := None\<rparr>))"

section \<open>What is written\<close>

definition never_fails :: "allocator \<Rightarrow> bool" where
  "never_fails al \<longleftrightarrow> (\<forall>n. al n \<noteq> None)"

lemma u32_roundtrip [simp]: "bytes_u32 (u32_bytes w) = w"
proof (rule bit_word_eqI)
  fix n assume "n < LENGTH(32)"
  then consider "n < 8" | "8 \<le> n" "n < 16" | "16 \<le> n" "n < 24" | "24 \<le> n" "n < 32" by fastforce
  then show "bit (bytes_u32 (u32_bytes w)) n = bit w n"
    by (cases; simp add: u32_bytes_def bit_or_iff bit_push_bit_iff bit_ucast_iff bit_drop_bit_eq; auto)
qed

lemma length_u32_bytes [simp]: "length (u32_bytes w) = 4"
  by (simp add: u32_bytes_def)

text \<open>A file that is only appended to holds the first bytes of what was written, as many as its device
  takes.  \<open>ws\<close> is everything written so far, and \<open>cap\<close> the room in all.\<close>

definition appended :: "nat \<Rightarrow> byte list \<Rightarrow> stream \<Rightarrow> bool" where
  "appended cap ws f \<longleftrightarrow> s_bytes f = take cap ws \<and> s_pos f = length (s_bytes f) \<and> s_room f = cap - length ws"

lemma fwrite_appended:
  assumes "appended cap ws f" and "fwrite xs f = (n, f')"
  shows "appended cap (ws @ xs) f'" and "n = length xs \<longleftrightarrow> xs = [] \<or> length (ws @ xs) \<le> cap"
proof -
  from assms(1) have l: "s_bytes f = take cap ws" "s_pos f = length (s_bytes f)" and r: "s_room f = cap - length ws"
    unfolding appended_def by blast+
  have f: "fwrite xs f = (min (length xs) (s_room f), f\<lparr>s_bytes := s_bytes f @ take (min (length xs) (s_room f)) xs,
      s_pos := s_pos f + min (length xs) (s_room f), s_room := s_room f - min (length xs) (s_room f)\<rparr>)"
    by (simp add: fwrite_def Let_def l(2))
  have t: "take (min (length xs) (cap - length ws)) xs = take (cap - length ws) xs" by (simp add: min_def)
  have e: "(min (length xs) (s_room f), f\<lparr>s_bytes := s_bytes f @ take (min (length xs) (s_room f)) xs,
      s_pos := s_pos f + min (length xs) (s_room f), s_room := s_room f - min (length xs) (s_room f)\<rparr>) = (n, f')"
    using assms(2) by (simp only: f)
  then have n: "n = min (length xs) (cap - length ws)" by (simp add: r)
  from e have f': "f' = f\<lparr>s_bytes := take cap (ws @ xs), s_pos := length (take cap ws) + n, s_room := cap - length ws - n\<rparr>"
    unfolding prod.inject by (elim conjE) (simp only: l r t take_append n)
  have "length (take cap (ws @ xs)) = length (take cap ws) + n" by (simp add: n min_def)
  then show "appended cap (ws @ xs) f'" by (auto simp: appended_def f' n)
  show "n = length xs \<longleftrightarrow> xs = [] \<or> length (ws @ xs) \<le> cap" by (cases xs) (auto simp: n min_def)
qed

text \<open>A stream that encodes: what is pending in its buffer comes after what is in the file.\<close>

definition pending :: "XDRFile \<Rightarrow> byte list" where
  "pending x = (if x_rawlive x then case x_raw x of None \<Rightarrow> [] | Some b \<Rightarrow> take (unat (x_rawlen x)) b else [])"

definition encoding :: "nat \<Rightarrow> byte list \<Rightarrow> XDRFile \<Rightarrow> bool" where
  "encoding cap ws x \<longleftrightarrow> x_mode x = JSXDR_ENCODE \<and> unat (x_rawlen x) < 2 ^ 31
     \<and> (\<forall>b. x_raw x = Some b \<longrightarrow> length b = unat (x_rawsize x) \<and> x_rawlen x \<le> x_rawsize x)
     \<and> (x_raw x = None \<longrightarrow> x_rawsize x = 0)
     \<and> (\<exists>f c. x_f x = Some f \<and> appended cap c f \<and> ws = c @ pending x)"

lemma rawlen_size:
  assumes "unat (n :: 32 word) < 2 ^ 31"
  shows "unat (scast n :: 64 word) = unat n"
proof -
  have "int (unat n) < int (2 ^ 31)" using assms by (simp only: of_nat_less_iff)
  then have "uint n < 2 ^ 31" by (simp only: uint_nat of_nat_power of_nat_numeral)
  then have "sint n = uint n"
    by (subst sint_uint, intro signed_take_bit_int_eq_self order.trans [OF _ uint_ge_0]) simp_all
  then have "(scast n :: 64 word) = ucast n" by (simp only: scast_eq ucast_eq)
  moreover have "unat n < 2 ^ 64" using assms by simp
  ultimately show ?thesis by (simp add: unsigned_ucast_eq take_bit_nat_eq_self)
qed

lemma commit_encoding:
  assumes e: "encoding cap ws x"
  shows "\<exists>x' f. xdrfile_commit_raw x = Some x' \<and> x_f x' = Some f \<and> appended cap ws f \<and> encoding cap ws x' \<and> pending x' = []
    \<and> x_rawsize x' = x_rawsize x \<and> x_raw x' = x_raw x \<and> x_own_file x' = x_own_file x"
proof -
  from e obtain f c where f: "x_f x = Some f" "appended cap c f" "ws = c @ pending x" unfolding encoding_def by blast
  show ?thesis
  proof (cases "x_rawlive x \<and> x_raw x \<noteq> None")
    case True
    then obtain b where b: "x_raw x = Some b" "x_rawlive x" by blast
    with e have l: "length b = unat (x_rawsize x)" "unat (x_rawlen x) \<le> length b" "unat (x_rawlen x) < 2 ^ 31"
      by (simp_all add: encoding_def word_le_nat_alt)
    have r: "raw_bytes x = Some (pending x)"
      using b l(2) by (simp add: raw_bytes_def pending_def rawlen_size [OF l(3)] mem_simps)
    obtain n g where w: "fwrite (pending x) f = (n, g)" by fastforce
    have g: "appended cap ws g" using fwrite_appended(1) [OF f(2) w] f(3) by simp
    have "xdrfile_commit_raw x = Some (x\<lparr>x_f := Some g, x_rawlive := False\<rparr>)"
      using e b r f(1) w by (simp add: xdrfile_commit_raw_def encoding_def)
    moreover have "encoding cap ws (x\<lparr>x_f := Some g, x_rawlive := False\<rparr>)"
      using e g by (simp add: encoding_def pending_def)
    ultimately show ?thesis using g by (simp add: pending_def)
  next
    case False
    then have p: "pending x = []" by (auto simp: pending_def)
    with f e False show ?thesis by (auto simp: xdrfile_commit_raw_def)
  qed
qed

lemma set32_encoding:
  assumes e: "encoding cap ws x"
  shows "\<exists>ok x'. xdrfile_set32 w x = Some (ok, x') \<and> encoding cap (ws @ u32_bytes w) x'"
proof -
  from commit_encoding [OF e] obtain x1 f where c: "xdrfile_commit_raw x = Some x1" "x_f x1 = Some f" "appended cap ws f"
    "encoding cap ws x1" "pending x1 = []" by blast
  obtain n g where g: "fwrite (u32_bytes w) f = (n, g)" by fastforce
  have "pending (x1\<lparr>x_f := Some g\<rparr>) = []" using c(5) by (cases "x_raw x1") (auto simp: pending_def split: if_split_asm)
  with fwrite_appended(1) [OF c(3) g] c(4) have "encoding cap (ws @ u32_bytes w) (x1\<lparr>x_f := Some g\<rparr>)" by (simp add: encoding_def)
  with c(1,2) g show ?thesis by (simp add: xdrfile_set32_def)
qed

text \<open>Items an engine writes, and the program by which it reads them.\<close>

datatype xitem = XU32 "32 word" | XBytes "byte list" | XRaw "byte list"

fun item_bytes :: "xitem \<Rightarrow> byte list" where
  "item_bytes (XU32 w) = u32_bytes w"
| "item_bytes (XBytes bs) = bs"
| "item_bytes (XRaw bs) = bs"

fun item_ok :: "xitem \<Rightarrow> bool" where
  "item_ok (XU32 w) = True"
| "item_ok (XBytes bs) = (length bs < 2 ^ 31)"
| "item_ok (XRaw bs) = (bs \<noteq> [] \<and> length bs < 2 ^ 31)"

fun put_item :: "allocator \<Rightarrow> xitem \<Rightarrow> XDRFile \<Rightarrow> (bool \<times> XDRFile) option" where
  "put_item al (XU32 w) x = xdrfile_set32 w x"
| "put_item al (XBytes bs) x = xdrfile_setbytes bs x"
| "put_item al (XRaw bs) x =
     Option.bind (xdrfile_raw al (word_of_nat (length bs)) x) (\<lambda>(ok, x).
       if ok then map_option (Pair True) (xdr_poke bs x) else Some (False, x))"

text \<open>The first failure ends the writing.\<close>

fun put_items :: "allocator \<Rightarrow> xitem list \<Rightarrow> XDRFile \<Rightarrow> (bool \<times> XDRFile) option" where
  "put_items al [] x = Some (True, x)"
| "put_items al (i # is) x =
     Option.bind (put_item al i x) (\<lambda>(ok, x). if ok then put_items al is x else Some (False, x))"

definition items_bytes :: "xitem list \<Rightarrow> byte list" where
  "items_bytes is = concat (map item_bytes is)"

lemma items_bytes_simps [simp]:
  "items_bytes [] = []" "items_bytes (i # is) = item_bytes i @ items_bytes is" "items_bytes (is @ js) = items_bytes is @ items_bytes js"
  by (simp_all add: items_bytes_def)

lemma put_item_encoding:
  assumes m: "malloc_law al" and e: "encoding cap ws x" and i: "item_ok i"
  shows "\<exists>ok x' ds. put_item al i x = Some (ok, x') \<and> encoding cap (ws @ ds) x' \<and> prefix ds (item_bytes i)
    \<and> (ok \<longrightarrow> ds = item_bytes i) \<and> x_own_file x' = x_own_file x
    \<and> (never_fails al \<longrightarrow> length (ws @ item_bytes i) \<le> cap \<longrightarrow> ok)"
proof -
  from commit_encoding [OF e] obtain x1 f where c: "xdrfile_commit_raw x = Some x1" "x_f x1 = Some f" "appended cap ws f"
    "encoding cap ws x1" "pending x1 = []" "x_own_file x1 = x_own_file x" by blast
  have written: "\<exists>g. fwrite bs f = (n, g) \<and> encoding cap (ws @ bs) (x1\<lparr>x_f := Some g\<rparr>) \<and> (n = length bs \<longleftrightarrow> bs = [] \<or> length (ws @ bs) \<le> cap)"
    if nn: "n = fst (fwrite bs f)" for bs n
  proof -
    obtain g where g: "fwrite bs f = (n, g)" using nn by (cases "fwrite bs f") simp
    have "pending (x1\<lparr>x_f := Some g\<rparr>) = []" using c(5) by (cases "x_raw x1") (auto simp: pending_def split: if_split_asm)
    with fwrite_appended [OF c(3) g] c(4) g show ?thesis by (simp add: encoding_def)
  qed
  show ?thesis
  proof (cases i)
    case (XU32 w)
    with written [OF refl, of "u32_bytes w"] c show ?thesis
      by (auto simp: xdrfile_set32_def u32_bytes_def split: prod.splits)
  next
    case (XBytes bs)
    obtain n where n: "n = fst (fwrite bs f)" by blast
    from written [OF n] obtain g where g: "fwrite bs f = (n, g)" "encoding cap (ws @ bs) (x1\<lparr>x_f := Some g\<rparr>)"
      "n = length bs \<longleftrightarrow> bs = [] \<or> length (ws @ bs) \<le> cap" by blast
    have "n \<le> length bs" using g(1) by (auto simp: fwrite_def Let_def)
    with XBytes g c show ?thesis by (auto simp: xdrfile_setbytes_def)
  next
    case (XRaw bs)
    let ?len = "word_of_nat (length bs) :: 32 word"
    have bs: "bs \<noteq> []" "length bs < 2 ^ 31" using i XRaw by simp_all
    then have len: "unat ?len = length bs" by (simp add: unat_of_nat take_bit_nat_eq_self)
    have mode: "x_mode x1 = JSXDR_ENCODE" using c(4) by (simp add: encoding_def)
    have filled: "\<exists>b'. xdr_poke bs (y\<lparr>x_rawlen := ?len, x_rawlive := True\<rparr>) = Some (y\<lparr>x_rawlen := ?len, x_rawlive := True, x_raw := Some b'\<rparr>)
        \<and> encoding cap (ws @ bs) (y\<lparr>x_rawlen := ?len, x_rawlive := True, x_raw := Some b'\<rparr>)"
      if y: "y = x1\<lparr>x_raw := Some b, x_rawsize := r\<rparr>" and b: "length b = unat r" "?len \<le> r" for y b r
    proof -
      have "length bs \<le> length b" using b len by (simp add: word_le_nat_alt)
      then have "store_block b 0 bs = Some (bs @ drop (length bs) b)" by (simp add: store_block_def)
      moreover have "length (bs @ drop (length bs) b) = unat r" using \<open>length bs \<le> length b\<close> b(1) by simp
      moreover have "take (unat ?len) (bs @ drop (length bs) b) = bs" by (simp add: len)
      ultimately show ?thesis using c(2,3) mode b(2) bs(2) len
        by (intro exI [of _ "bs @ drop (length bs) b"] conjI) (simp_all add: y xdr_poke_def encoding_def pending_def)
    qed
    show ?thesis
    proof (cases "x_rawsize x1 < ?len")
      case False
      have "x_raw x1 \<noteq> None"
      proof
        assume "x_raw x1 = None"
        with c(4) False len bs(1) show False by (simp add: encoding_def word_less_nat_alt)
      qed
      then obtain b where b: "x_raw x1 = Some b" "length b = unat (x_rawsize x1)" using c(4) by (auto simp: encoding_def)
      have y: "x1 = x1\<lparr>x_raw := Some b, x_rawsize := x_rawsize x1\<rparr>" using b(1) by simp
      have le: "?len \<le> x_rawsize x1" using False by simp
      from filled [OF y b(2) le] obtain b' where
        p: "xdr_poke bs (x1\<lparr>x_rawlen := ?len, x_rawlive := True\<rparr>) = Some (x1\<lparr>x_rawlen := ?len, x_rawlive := True, x_raw := Some b'\<rparr>)"
          "encoding cap (ws @ bs) (x1\<lparr>x_rawlen := ?len, x_rawlive := True, x_raw := Some b'\<rparr>)" by blast
      have "put_item al i x = Some (True, x1\<lparr>x_rawlen := ?len, x_rawlive := True, x_raw := Some b'\<rparr>)"
        using XRaw c(1) False mode b(1) p(1) by (simp add: xdrfile_raw_def Let_def)
      with p(2) XRaw c(6) show ?thesis by auto
    next
      case True
      show ?thesis
      proof (cases "al (length bs)")
        case None
        let ?x = "x1\<lparr>x_raw := None, x_rawlen := 0, x_rawlive := False, x_rawsize := 0\<rparr>"
        have "put_item al i x = Some (False, ?x)"
          using XRaw c(1) True None len by (simp add: xdrfile_raw_def Let_def)
        moreover have "encoding cap (ws @ []) ?x" using c(2,3) mode by (simp add: encoding_def pending_def)
        moreover have "\<not> never_fails al" using None by (auto simp: never_fails_def)
        ultimately show ?thesis using c(6) by (intro exI [of _ False] exI [of _ ?x] exI [of _ "[]"]) simp
      next
        case (Some b)
        with m have b: "length b = unat ?len" by (simp add: malloc_law_def len)
        from filled [OF refl b order_refl] obtain b' where
          p: "xdr_poke bs (x1\<lparr>x_raw := Some b, x_rawsize := ?len, x_rawlen := ?len, x_rawlive := True\<rparr>)
              = Some (x1\<lparr>x_raw := Some b, x_rawsize := ?len, x_rawlen := ?len, x_rawlive := True, x_raw := Some b'\<rparr>)"
            "encoding cap (ws @ bs) (x1\<lparr>x_raw := Some b, x_rawsize := ?len, x_rawlen := ?len, x_rawlive := True, x_raw := Some b'\<rparr>)"
          by blast
        have "put_item al i x = Some (True, x1\<lparr>x_raw := Some b, x_rawsize := ?len, x_rawlen := ?len, x_rawlive := True, x_raw := Some b'\<rparr>)"
          using XRaw c(1) True mode Some len p(1) by (simp add: xdrfile_raw_def Let_def)
        with p(2) XRaw c(6) show ?thesis by auto
      qed
    qed
  qed
qed

text \<open>Whatever fails, the file of a finished stream begins as what was to be written; it is all there when
  there is room and memory.\<close>

lemma put_items_encoding:
  assumes m: "malloc_law al" and e: "encoding cap ws x" and i: "\<forall>i \<in> set is. item_ok i"
  shows "\<exists>ok x' ds. put_items al is x = Some (ok, x') \<and> encoding cap (ws @ ds) x' \<and> prefix ds (items_bytes is)
    \<and> (ok \<longrightarrow> ds = items_bytes is) \<and> x_own_file x' = x_own_file x
    \<and> (never_fails al \<longrightarrow> length (ws @ items_bytes is) \<le> cap \<longrightarrow> ok)"
  using e i
proof (induction "is" arbitrary: ws x)
  case Nil
  then show ?case by auto
next
  case (Cons i "is")
  have io: "item_ok i" "\<forall>i \<in> set is. item_ok i" using Cons.prems(2) by simp_all
  from put_item_encoding [OF m Cons.prems(1) io(1)] obtain ok x1 ds where
    p: "put_item al i x = Some (ok, x1)" "encoding cap (ws @ ds) x1" "prefix ds (item_bytes i)" "ok \<longrightarrow> ds = item_bytes i"
      "x_own_file x1 = x_own_file x" "never_fails al \<longrightarrow> length (ws @ item_bytes i) \<le> cap \<longrightarrow> ok" by blast
  show ?case
  proof (cases ok)
    case False
    with p show ?thesis
      by (intro exI [of _ False] exI [of _ x1] exI [of _ ds]) (auto intro: prefix_order.trans)
  next
    case True
    with p(4) have ds: "ds = item_bytes i" by simp
    from Cons.IH [OF p(2) io(2)] obtain ok' x2 es where
      q: "put_items al is x1 = Some (ok', x2)" "encoding cap ((ws @ ds) @ es) x2" "prefix es (items_bytes is)"
        "ok' \<longrightarrow> es = items_bytes is" "x_own_file x2 = x_own_file x1"
        "never_fails al \<longrightarrow> length ((ws @ ds) @ items_bytes is) \<le> cap \<longrightarrow> ok'" by blast
    from p(1,5) q True ds show ?thesis
      by (intro exI [of _ ok'] exI [of _ x2] exI [of _ "ds @ es"]) (simp add: prefix_append)
  qed
qed

lemma finalize_encoding:
  assumes "encoding cap ws x"
  shows "\<exists>f x'. xdrfile_finalize x = Some ((Some f, x_own_file x), x') \<and> s_bytes f = take cap ws \<and> x_f x' = None"
proof -
  from commit_encoding [OF assms] obtain x' f where c: "xdrfile_commit_raw x = Some x'" "x_f x' = Some f" "appended cap ws f"
    "x_own_file x' = x_own_file x" by blast
  then show ?thesis by (simp add: xdrfile_finalize_def appended_def)
qed

section \<open>What is read\<close>

datatype 'a xreader =
    RDone "'a option"
  | RU32 "32 word \<Rightarrow> 'a xreader"
  | RBytes nat "byte list \<Rightarrow> 'a xreader"
  | RRaw nat "byte list \<Rightarrow> 'a xreader"

text \<open>A failure ends the reading without a value.\<close>

primrec run_reader :: "allocator \<Rightarrow> 'a xreader \<Rightarrow> XDRFile \<Rightarrow> ('a option \<times> XDRFile) option" where
  "run_reader al (RDone r) x = Some (r, x)"
| "run_reader al (RU32 k) x =
     Option.bind (xdrfile_get32 0 x) (\<lambda>(ok, w, x). if ok then run_reader al (k w) x else Some (None, x))"
| "run_reader al (RBytes n k) x =
     Option.bind (xdrfile_getbytes n x) (\<lambda>(ok, bs, x). if ok then run_reader al (k bs) x else Some (None, x))"
| "run_reader al (RRaw n k) x =
     Option.bind (xdrfile_raw al (word_of_nat n) x) (\<lambda>(ok, x).
       if ok then Option.bind (xdr_peek n x) (\<lambda>bs. run_reader al (k bs) x) else Some (None, x))"

text \<open>The reader takes exactly these items, one after the other, and comes to the value.\<close>

primrec reads :: "'a xreader \<Rightarrow> xitem list \<Rightarrow> 'a \<Rightarrow> bool" where
  "reads (RDone r) is v = (is = [] \<and> r = Some v)"
| "reads (RU32 k) is v = (case is of XU32 w # js \<Rightarrow> reads (k w) js v | _ \<Rightarrow> False)"
| "reads (RBytes n k) is v = (case is of XBytes bs # js \<Rightarrow> length bs = n \<and> reads (k bs) js v | _ \<Rightarrow> False)"
| "reads (RRaw n k) is v = (case is of XRaw bs # js \<Rightarrow> length bs = n \<and> reads (k bs) js v | _ \<Rightarrow> False)"

definition decoding :: "byte list \<Rightarrow> XDRFile \<Rightarrow> bool" where
  "decoding bs x \<longleftrightarrow> x_mode x = JSXDR_DECODE
     \<and> (\<forall>b. x_raw x = Some b \<longrightarrow> length b = unat (x_rawsize x)) \<and> (x_raw x = None \<longrightarrow> x_rawsize x = 0)
     \<and> (\<exists>f. x_f x = Some f \<and> s_readable f \<and> s_pos f \<le> length (s_bytes f) \<and> drop (s_pos f) (s_bytes f) = bs)"

lemma fread_decoding:
  assumes "decoding bs x"
  shows "xdrfile_commit_raw x = Some x"
    and "\<exists>f g. x_f x = Some f \<and> fread n f = (take n bs, g) \<and> decoding (drop n bs) (x\<lparr>x_f := Some g\<rparr>)"
proof -
  show "xdrfile_commit_raw x = Some x" using assms by (simp add: xdrfile_commit_raw_def decoding_def)
  from assms obtain f where f: "x_f x = Some f" "s_readable f" "s_pos f \<le> length (s_bytes f)" "drop (s_pos f) (s_bytes f) = bs"
    unfolding decoding_def by blast
  let ?g = "f\<lparr>s_pos := s_pos f + length (take n bs)\<rparr>"
  have "fread n f = (take n bs, ?g)" by (simp add: fread_def f(2,4))
  moreover have "drop (s_pos f + length (take n bs)) (s_bytes f) = drop (length (take n bs)) bs" using f(4) by (metis drop_drop add.commute)
  then have "drop (s_pos ?g) (s_bytes ?g) = drop n bs" by (simp add: min_def)
  moreover have "s_pos ?g \<le> length (s_bytes ?g)" using f(3,4) by auto
  ultimately have "fread n f = (take n bs, ?g) \<and> decoding (drop n bs) (x\<lparr>x_f := Some ?g\<rparr>)"
    using assms f(2) by (simp add: decoding_def)
  with f(1) show "\<exists>f g. x_f x = Some f \<and> fread n f = (take n bs, g) \<and> decoding (drop n bs) (x\<lparr>x_f := Some g\<rparr>)" by blast
qed

lemma get32_decoding:
  assumes "decoding bs x"
  shows "\<exists>ok w x'. xdrfile_get32 old x = Some (ok, w, x') \<and> (ok \<longleftrightarrow> 4 \<le> length bs) \<and> (ok \<longrightarrow> w = bytes_u32 (take 4 bs))
    \<and> decoding (drop 4 bs) x'"
  using fread_decoding(1) [OF assms] fread_decoding(2) [OF assms, of 4] by (auto simp: xdrfile_get32_def)

lemma getbytes_decoding:
  assumes "decoding bs x"
  shows "\<exists>ok x'. xdrfile_getbytes n x = Some (ok, take n bs, x') \<and> (ok \<longleftrightarrow> n \<le> length bs) \<and> decoding (drop n bs) x'"
  using fread_decoding(1) [OF assms] fread_decoding(2) [OF assms, of n] by (auto simp: xdrfile_getbytes_def)

lemma raw_decoding:
  assumes d: "decoding bs x" and m: "malloc_law al" and n: "n \<noteq> 0" "n < 2 ^ 31"
  shows "\<exists>ok x'. xdrfile_raw al (word_of_nat n) x = Some (ok, x') \<and> (ok \<longrightarrow> n \<le> length bs)
    \<and> (never_fails al \<longrightarrow> n \<le> length bs \<longrightarrow> ok) \<and> (ok \<longrightarrow> xdr_peek n x' = Some (take n bs) \<and> decoding (drop n bs) x')"
proof -
  let ?len = "word_of_nat n :: 32 word"
  have len: "unat ?len = n" using n(2) by (simp add: unat_of_nat take_bit_nat_eq_self)
  note c = fread_decoding(1) [OF d]
  from fread_decoding(2) [OF d, of n] obtain f g where f: "x_f x = Some f" "fread n f = (take n bs, g)"
    "decoding (drop n bs) (x\<lparr>x_f := Some g\<rparr>)" by blast
  have mode: "x_mode x = JSXDR_DECODE" using d by (simp add: decoding_def)
  have filled: "\<exists>x'. raw_fill n y = Some (n \<le> length bs, x')
        \<and> (n \<le> length bs \<longrightarrow> xdr_peek n x' = Some (take n bs) \<and> decoding (drop n bs) x')"
    if y: "y = x\<lparr>x_raw := Some b, x_rawsize := r, x_rawlen := l, x_rawlive := v\<rparr>" and b: "length b = unat r" "n \<le> length b" for y b r l v
  proof -
    let ?b = "take n bs @ drop (length (take n bs)) b"
    have s: "store_block b 0 (take n bs) = Some ?b" using b(2) by (simp add: store_block_def)
    have lb: "length ?b = unat r" using b by simp
    have "load_block ?b 0 n = Some (take n bs)" if "n \<le> length bs"
      using that b(2) by (simp add: load_block_def)
    with s lb f b(1) show ?thesis
      by (intro exI [of _ "y\<lparr>x_f := Some g, x_raw := Some ?b\<rparr>"]) (simp add: y xdr_peek_def decoding_def raw_fill_def)
  qed
  show ?thesis
  proof (cases "x_rawsize x < ?len")
    case False
    then have le: "n \<le> unat (x_rawsize x)" using len by (simp add: word_less_nat_alt)
    have "x_raw x \<noteq> None"
    proof
      assume "x_raw x = None"
      with d have "x_rawsize x = 0" by (simp add: decoding_def)
      with le n(1) show False by simp
    qed
    then obtain b where b: "x_raw x = Some b" "length b = unat (x_rawsize x)" using d by (auto simp: decoding_def)
    have "x\<lparr>x_rawlen := ?len, x_rawlive := True\<rparr> = x\<lparr>x_raw := Some b, x_rawsize := x_rawsize x, x_rawlen := ?len, x_rawlive := True\<rparr>"
      using b(1) by simp
    from filled [OF this b(2)] le b(2) obtain x' where
      "raw_fill n (x\<lparr>x_rawlen := ?len, x_rawlive := True\<rparr>) = Some (n \<le> length bs, x')"
      "n \<le> length bs \<longrightarrow> xdr_peek n x' = Some (take n bs) \<and> decoding (drop n bs) x'" by auto
    then show ?thesis using c False mode by (simp add: xdrfile_raw_def Let_def len)
  next
    case True
    show ?thesis
    proof (cases "al n")
      case None
      then have "\<not> never_fails al" by (auto simp: never_fails_def)
      with c True None show ?thesis by (intro exI [of _ False]) (simp add: xdrfile_raw_def Let_def len)
    next
      case (Some b)
      with m have "length b = unat ?len" "n \<le> length b" by (simp_all add: malloc_law_def len)
      from filled [where l = ?len and v = True, OF refl this] c True mode Some show ?thesis by (auto simp: xdrfile_raw_def Let_def len)
    qed
  qed
qed

lemma meets_append:
  assumes "prefix rs (a @ b) \<or> prefix (a @ b) rs" and "length a \<le> length rs"
  shows "\<exists>r. rs = a @ r \<and> (prefix r b \<or> prefix b r)"
  using assms by (auto simp: prefix_append prefix_def append_eq_append_conv2)

text \<open>On what is left of a file that was cut off the reader comes to no value or to the right one.\<close>

lemma run_reader_reads:
  assumes m: "malloc_law al"
  shows "reads r is v \<Longrightarrow> \<forall>i \<in> set is. item_ok i \<Longrightarrow> decoding rs x \<Longrightarrow> prefix rs (items_bytes is) \<or> prefix (items_bytes is) rs \<Longrightarrow>
    \<exists>res x'. run_reader al r x = Some (res, x') \<and> (res = None \<or> res = Some v)
      \<and> (never_fails al \<longrightarrow> prefix (items_bytes is) rs \<longrightarrow> res = Some v)"
proof (induction r arbitrary: "is" rs x)
  case (RDone r)
  then show ?case by simp
next
  case (RU32 k)
  then obtain w js where i: "is = XU32 w # js" "reads (k w) js v" by (auto split: list.splits xitem.splits)
  from get32_decoding [OF RU32.prems(3), of 0] obtain ok w' x' where
    g: "xdrfile_get32 0 x = Some (ok, w', x')" "ok \<longleftrightarrow> 4 \<le> length rs" "ok \<longrightarrow> w' = bytes_u32 (take 4 rs)" "decoding (drop 4 rs) x'" by blast
  show ?case
  proof (cases ok)
    case True
    have "prefix rs (u32_bytes w @ items_bytes js) \<or> prefix (u32_bytes w @ items_bytes js) rs" using RU32.prems(4) i(1) by simp
    from meets_append [OF this] True g(2) obtain r where r: "rs = u32_bytes w @ r" "prefix r (items_bytes js) \<or> prefix (items_bytes js) r"
      by auto
    have ok': "\<forall>i \<in> set js. item_ok i" using RU32.prems(2) i(1) by simp
    have d: "decoding r x'" "w' = w" using g True r(1) by simp_all
    from RU32.IH [OF rangeI, OF i(2) ok' d(1) r(2)] g(1) True d(2) r(1) i(1) show ?thesis by simp
  next
    case False
    with g(2) have "\<not> prefix (items_bytes is) rs" using i(1) by (auto dest: prefix_length_le)
    with g(1) False show ?thesis by simp
  qed
next
  case (RBytes n k)
  then obtain bs js where i: "is = XBytes bs # js" "length bs = n" "reads (k bs) js v" by (auto split: list.splits xitem.splits)
  from getbytes_decoding [OF RBytes.prems(3), of n] obtain ok x' where
    g: "xdrfile_getbytes n x = Some (ok, take n rs, x')" "ok \<longleftrightarrow> n \<le> length rs" "decoding (drop n rs) x'" by blast
  show ?case
  proof (cases ok)
    case True
    have "prefix rs (bs @ items_bytes js) \<or> prefix (bs @ items_bytes js) rs" using RBytes.prems(4) i(1) by simp
    from meets_append [OF this] True g(2) i(2) obtain r where r: "rs = bs @ r" "prefix r (items_bytes js) \<or> prefix (items_bytes js) r"
      by auto
    have ok': "\<forall>i \<in> set js. item_ok i" using RBytes.prems(2) i(1) by simp
    have d: "decoding r x'" "take n rs = bs" using g r(1) i(2) by auto
    from RBytes.IH [OF rangeI, OF i(3) ok' d(1) r(2)] g(1) True d(2) r(1) i(1) show ?thesis by simp
  next
    case False
    with g(2) have "\<not> prefix (items_bytes is) rs" using i(1,2) by (auto dest: prefix_length_le)
    with g(1) False show ?thesis by simp
  qed
next
  case (RRaw n k)
  then obtain bs js where i: "is = XRaw bs # js" "length bs = n" "reads (k bs) js v" by (auto split: list.splits xitem.splits)
  have n: "n \<noteq> 0" "n < 2 ^ 31" using RRaw.prems(2) i(1,2) by auto
  from raw_decoding [OF RRaw.prems(3) m n] obtain ok x' where
    g: "xdrfile_raw al (word_of_nat n) x = Some (ok, x')" "ok \<longrightarrow> n \<le> length rs" "never_fails al \<longrightarrow> n \<le> length rs \<longrightarrow> ok"
      "ok \<longrightarrow> xdr_peek n x' = Some (take n rs) \<and> decoding (drop n rs) x'" by blast
  show ?case
  proof (cases ok)
    case True
    have "prefix rs (bs @ items_bytes js) \<or> prefix (bs @ items_bytes js) rs" using RRaw.prems(4) i(1) by simp
    from meets_append [OF this] True g(2) i(2) obtain r where r: "rs = bs @ r" "prefix r (items_bytes js) \<or> prefix (items_bytes js) r"
      by auto
    have ok': "\<forall>i \<in> set js. item_ok i" using RRaw.prems(2) i(1) by simp
    have d: "decoding r x'" "xdr_peek n x' = Some bs" using g(4) True r(1) i(2) by auto
    from RRaw.IH [OF rangeI, OF i(3) ok' d(1) r(2)] g(1) True d(2) r(1) i(1) show ?thesis by simp
  next
    case False
    have "\<not> (never_fails al \<and> prefix (items_bytes is) rs)" using False g(3) i(1,2) by (auto dest: prefix_length_le)
    with g(1) False show ?thesis by auto
  qed
qed

text \<open>Reading keeps the mode of the stream.\<close>

lemma raw_fill_mode: "raw_fill n x = Some (ok, x') \<Longrightarrow> x_mode x' = x_mode x"
proof -
  assume a: "raw_fill n x = Some (ok, x')"
  then obtain f where f: "x_f x = Some f" by (cases "x_f x") (simp_all add: raw_fill_def)
  obtain xs g where g: "fread n f = (xs, g)" by fastforce
  from a f g show "x_mode x' = x_mode x"
    by (cases "x_raw x") (auto simp: raw_fill_def bind_eq_Some_conv split: if_split_asm)
qed

lemma mode_kept:
  assumes m: "x_mode x = JSXDR_DECODE"
  shows "xdrfile_get32 old x = Some (ok, w, x') \<Longrightarrow> x_mode x' = JSXDR_DECODE"
    and "xdrfile_getbytes n x = Some (ok, bs, x') \<Longrightarrow> x_mode x' = JSXDR_DECODE"
    and "xdrfile_raw al len x = Some (ok, x') \<Longrightarrow> x_mode x' = JSXDR_DECODE"
proof -
  have c: "xdrfile_commit_raw x = Some x" using m by (simp add: xdrfile_commit_raw_def)
  show "xdrfile_get32 old x = Some (ok, w, x') \<Longrightarrow> x_mode x' = JSXDR_DECODE"
    using m by (auto simp: xdrfile_get32_def c split: prod.split_asm option.split_asm)
  show "xdrfile_getbytes n x = Some (ok, bs, x') \<Longrightarrow> x_mode x' = JSXDR_DECODE"
    using m by (auto simp: xdrfile_getbytes_def c split: prod.split_asm option.split_asm)
  show "xdrfile_raw al len x = Some (ok, x') \<Longrightarrow> x_mode x' = JSXDR_DECODE"
    using m by (auto simp: xdrfile_raw_def Let_def c split: option.split_asm if_split_asm dest!: raw_fill_mode)
qed

lemma run_reader_mode:
  "run_reader al r x = Some (res, x') \<Longrightarrow> x_mode x = JSXDR_DECODE \<Longrightarrow> x_mode x' = JSXDR_DECODE"
proof (induction r arbitrary: x)
  case (RDone r)
  then show ?case by simp
next
  case (RU32 k)
  from RU32.prems(1) obtain ok w y where y: "xdrfile_get32 0 x = Some (ok, w, y)"
    "(if ok then run_reader al (k w) y else Some (None, y)) = Some (res, x')" by (auto simp: bind_eq_Some_conv)
  from mode_kept(1) [OF RU32.prems(2) y(1)] y(2) RU32.IH [OF rangeI] show ?case by (cases ok) auto
next
  case (RBytes n k)
  from RBytes.prems(1) obtain ok bs y where y: "xdrfile_getbytes n x = Some (ok, bs, y)"
    "(if ok then run_reader al (k bs) y else Some (None, y)) = Some (res, x')" by (auto simp: bind_eq_Some_conv)
  from mode_kept(2) [OF RBytes.prems(2) y(1)] y(2) RBytes.IH [OF rangeI] show ?case by (cases ok) auto
next
  case (RRaw n k)
  from RRaw.prems(1) obtain ok y where y: "xdrfile_raw al (word_of_nat n) x = Some (ok, y)"
    "(if ok then Option.bind (xdr_peek n y) (\<lambda>bs. run_reader al (k bs) y) else Some (None, y)) = Some (res, x')"
    by (auto simp: bind_eq_Some_conv)
  from mode_kept(3) [OF RRaw.prems(2) y(1)] y(2) RRaw.IH [OF rangeI] show ?case
    by (cases ok) (auto simp: bind_eq_Some_conv)
qed

section \<open>Round trips\<close>

definition new_file :: "nat \<Rightarrow> stream" where
  "new_file cap = \<lparr>s_bytes = [], s_pos = 0, s_room = cap, s_readable = False\<rparr>"

definition old_file :: "byte list \<Rightarrow> stream" where
  "old_file bs = \<lparr>s_bytes = bs, s_pos = 0, s_room = 0, s_readable = True\<rparr>"

text \<open>Freezing: everything is written to a new file.  Thawing: an old file is read.\<close>

definition freeze_file :: "allocator \<Rightarrow> nat \<Rightarrow> xitem list \<Rightarrow> (bool \<times> byte list) option" where
  "freeze_file al cap is =
     Option.bind (fst (gpsee_XDRNewFile True JSXDR_ENCODE None (Some (new_file cap)))) (\<lambda>x.
     Option.bind (put_items al is x) (\<lambda>(ok, x).
     Option.bind (xdrfile_finalize x) (\<lambda>((f, closed), x). map_option (\<lambda>f. (ok, s_bytes f)) f)))"

definition thaw_file :: "allocator \<Rightarrow> 'a xreader \<Rightarrow> byte list \<Rightarrow> 'a option option" where
  "thaw_file al r bs =
     Option.bind (fst (gpsee_XDRNewFile True JSXDR_DECODE None (Some (old_file bs)))) (\<lambda>x. map_option fst (run_reader al r x))"

lemma new_encoding:
  "\<exists>x. fst (gpsee_XDRNewFile True JSXDR_ENCODE None (Some (new_file cap))) = Some x \<and> encoding cap [] x \<and> \<not> x_own_file x"
  by (simp add: gpsee_XDRNewFile_def encoding_def appended_def pending_def new_file_def)

lemma new_decoding:
  "\<exists>x. fst (gpsee_XDRNewFile True JSXDR_DECODE None (Some (old_file bs))) = Some x \<and> decoding bs x"
  by (simp add: gpsee_XDRNewFile_def decoding_def old_file_def)

lemma freeze_file_prefix:
  assumes "malloc_law al" and "\<forall>i \<in> set is. item_ok i"
  shows "\<exists>ok bs. freeze_file al cap is = Some (ok, bs) \<and> prefix bs (items_bytes is)
    \<and> (never_fails al \<longrightarrow> length (items_bytes is) \<le> cap \<longrightarrow> ok \<and> bs = items_bytes is)"
proof -
  from new_encoding obtain x where x: "fst (gpsee_XDRNewFile True JSXDR_ENCODE None (Some (new_file cap))) = Some x"
    "encoding cap [] x" by blast
  from put_items_encoding [OF assms(1) x(2) assms(2)] obtain ok x' ds where
    p: "put_items al is x = Some (ok, x')" "encoding cap ds x'" "prefix ds (items_bytes is)" "ok \<longrightarrow> ds = items_bytes is"
      "never_fails al \<longrightarrow> length (items_bytes is) \<le> cap \<longrightarrow> ok" by auto
  from finalize_encoding [OF p(2)] obtain f x'' where
    f: "xdrfile_finalize x' = Some ((Some f, x_own_file x'), x'')" "s_bytes f = take cap ds" by blast
  have "prefix (take cap ds) (items_bytes is)" using p(3) by (meson prefix_order.trans take_is_prefix)
  moreover have "never_fails al \<longrightarrow> length (items_bytes is) \<le> cap \<longrightarrow> ok \<and> take cap ds = items_bytes is" using p(4,5) by simp
  moreover have "freeze_file al cap is = Some (ok, take cap ds)" by (simp add: freeze_file_def x(1) p(1) f)
  ultimately show ?thesis by blast
qed

text \<open>C36: Writing and reading through an XDR stream is a round trip, and the first failure is safe: what the file holds begins as what
  was written, with buffers in their place although they are filled after \<open>xdrfile_raw\<close> has returned; a reader that fits the items comes
  to the value or to none, and to the value when there was room and memory.\<close>

theorem xdr_roundtrip:
  assumes "malloc_law al" and "\<forall>i \<in> set is. item_ok i" and "reads r is v"
  shows "\<exists>ok bs res. freeze_file al cap is = Some (ok, bs) \<and> prefix bs (items_bytes is)
    \<and> thaw_file al r bs = Some res \<and> (res = None \<or> res = Some v)
    \<and> (never_fails al \<longrightarrow> length (items_bytes is) \<le> cap \<longrightarrow> ok \<and> bs = items_bytes is \<and> res = Some v)"
proof -
  from freeze_file_prefix [OF assms(1,2)] obtain ok bs where
    f: "freeze_file al cap is = Some (ok, bs)" "prefix bs (items_bytes is)"
      "never_fails al \<longrightarrow> length (items_bytes is) \<le> cap \<longrightarrow> ok \<and> bs = items_bytes is" by blast
  from new_decoding obtain x where x: "fst (gpsee_XDRNewFile True JSXDR_DECODE None (Some (old_file bs))) = Some x" "decoding bs x" by blast
  from run_reader_reads [OF assms(1,3,2) x(2)] f(2) obtain res x' where
    r: "run_reader al r x = Some (res, x')" "res = None \<or> res = Some v"
      "never_fails al \<longrightarrow> prefix (items_bytes is) bs \<longrightarrow> res = Some v" by blast
  have "thaw_file al r bs = Some res" by (simp add: thaw_file_def x(1) r(1))
  with f r(2,3) show ?thesis by auto
qed

definition two_words :: "(32 word \<times> byte list) xreader" where
  "two_words = RU32 (\<lambda>w. RRaw 3 (\<lambda>bs. RDone (Some (w, bs))))"

theorem xdr_roundtrip_witness:
  "freeze_file (\<lambda>n. Some (replicate n 7)) 9 [XU32 513, XRaw [1, 2, 3]] = Some (True, [1, 2, 0, 0, 1, 2, 3])
   \<and> thaw_file (\<lambda>n. Some (replicate n 7)) two_words [1, 2, 0, 0, 1, 2, 3] = Some (Some (513, [1, 2, 3]))"
proof -
  have i: "items_bytes [XU32 513, XRaw [1, 2, 3]] = [1, 2, 0, 0, 1, 2, 3]" by (simp add: u32_bytes_def)
  have m: "malloc_law (\<lambda>n. Some (replicate n 7))" by (simp add: malloc_law_def)
  have r: "reads two_words [XU32 513, XRaw [1, 2, 3]] (513, [1, 2, 3])" by (simp add: two_words_def)
  from xdr_roundtrip [OF m _ r, of 9] i show ?thesis by (auto simp: never_fails_def)
qed

end
