(* ===== verification/CompilerCache.thy ===== *)
theory CompilerCache
  imports XDRFile CBuffers
begin

text \<open>
  The compiler cache of gpsee\_compile.cpp: a compiled script is kept next to its source, in a file
  whose header says of which source it was made.

  The file system is a directory from names to inodes; a descriptor, and a FILE on it, is an inode with a
  position, so a file that is unlinked lives on while it is open.  Whether a call of the system or of the
  engine succeeds is decided by \<open>cc_ok\<close> for each call; compiling, and what \<open>JS_XDRScript\<close> writes and reads,
  are parameters.  \<open>None\<close> is undefined behaviour, such as closing a descriptor twice.
\<close>

section \<open>Files\<close>

record cfile =
  st_uid :: nat
  st_gid :: nat
  st_mode :: nat
  st_mtime :: nat
  f_bytes :: "byte list"

record cc_state =
  dir :: "string \<Rightarrow> nat option"
  inodes :: "nat \<Rightarrow> cfile option"
  fds :: "nat \<Rightarrow> (nat \<times> nat) option"
  next_ino :: nat
  next_fd :: nat
  cc_clock :: nat
  compiles :: nat

record 's cc_env =
  cc_ok :: "string \<Rightarrow> nat \<Rightarrow> bool"
  useCompilerCache :: bool
  CStringsAreUTF8 :: bool
  compile :: "string \<Rightarrow> byte list \<Rightarrow> 's option"
  freeze :: "'s \<Rightarrow> xitem list"
  thaw :: "'s xreader"
  script_length :: "'s \<Rightarrow> nat"
  cc_alloc :: allocator
  own_uid :: nat
  own_gid :: nat
  now :: "nat \<Rightarrow> nat"
  disk_room :: "nat \<Rightarrow> nat"
  uninit :: "nat \<Rightarrow> 32 word"
  dir_buf :: "char list"

definition try_call :: "('s, 'm) cc_env_scheme \<Rightarrow> string \<Rightarrow> cc_state \<Rightarrow> bool \<times> cc_state" where
  "try_call e f s = (cc_ok e f (cc_clock s), s\<lparr>cc_clock := Suc (cc_clock s)\<rparr>)"

definition open_fd :: "nat \<Rightarrow> cc_state \<Rightarrow> nat \<times> cc_state" where
  "open_fd i s = (next_fd s, s\<lparr>fds := (fds s)(next_fd s \<mapsto> (i, 0)), next_fd := Suc (next_fd s)\<rparr>)"

definition close_fd :: "nat \<Rightarrow> cc_state \<Rightarrow> cc_state option" where
  "close_fd fd s = (if fds s fd = None then None else Some (s\<lparr>fds := (fds s)(fd := None)\<rparr>))"

definition open_file :: "('s, 'm) cc_env_scheme \<Rightarrow> string \<Rightarrow> cc_state \<Rightarrow> nat option \<times> cc_state" where
  "open_file e name s =
     (case try_call e ''fopen'' s of (ok, s) \<Rightarrow>
        case dir s name of
          None \<Rightarrow> (None, s)
        | Some i \<Rightarrow> if ok then (case open_fd i s of (fd, s) \<Rightarrow> (Some fd, s)) else (None, s))"

definition fstat :: "('s, 'm) cc_env_scheme \<Rightarrow> nat \<Rightarrow> cc_state \<Rightarrow> (nat \<times> cfile) option \<times> cc_state" where
  "fstat e fd s =
     (case try_call e ''fstat'' s of (ok, s) \<Rightarrow>
        (if ok then Option.bind (fds s fd) (\<lambda>(i, pos). map_option (Pair i) (inodes s i)) else None, s))"

definition unlink :: "('s, 'm) cc_env_scheme \<Rightarrow> string \<Rightarrow> cc_state \<Rightarrow> cc_state" where
  "unlink e name s = (case try_call e ''unlink'' s of (ok, s) \<Rightarrow> if ok then s\<lparr>dir := (dir s)(name := None)\<rparr> else s)"

text \<open>\<open>open\<close> with O\_CREAT and O\_EXCL, under the mask that lets only the bits of 0666 through.\<close>

definition open_excl :: "('s, 'm) cc_env_scheme \<Rightarrow> string \<Rightarrow> nat \<Rightarrow> cc_state \<Rightarrow> nat option \<times> cc_state" where
  "open_excl e name mode s =
     (case try_call e ''open'' s of (ok, s) \<Rightarrow>
        if \<not> ok \<or> dir s name \<noteq> None then (None, s)
        else
          let i = next_ino s;
              new = \<lparr>st_uid = own_uid e, st_gid = own_gid e, st_mode = mode AND 438, st_mtime = now e (cc_clock s), f_bytes = []\<rparr>
          in case open_fd i (s\<lparr>dir := (dir s)(name \<mapsto> i), inodes := (inodes s)(i \<mapsto> new), next_ino := Suc i\<rparr>) of
               (fd, s) \<Rightarrow> (Some fd, s))"

definition set_file :: "nat \<Rightarrow> (cfile \<Rightarrow> cfile) \<Rightarrow> cc_state \<Rightarrow> cc_state" where
  "set_file fd f s = (case fds s fd of None \<Rightarrow> s | Some (i, pos) \<Rightarrow> s\<lparr>inodes := (inodes s)(i := map_option f (inodes s i))\<rparr>)"

section \<open>The name of a cache file\<close>

text \<open>The outer \<open>None\<close> is a write outside the buffer, the inner one a failure.\<close>

definition make_jsc_filename :: "char list \<Rightarrow> string \<Rightarrow> nat \<Rightarrow> string option option" where
  "make_jsc_filename buf filename buflen =
     (if filename = [] then Some None
      else Option.bind (gpsee_dirname filename buf PATH_MAX) (\<lambda>(buf, ok).
        if \<not> ok then Some None
        else map_option (\<lambda>d.
          let name = d @ ''/.'' @ gpsee_basename filename @ ''c''
          in if buflen \<le> length name then None else Some name) (cstr_at buf 0)))"

section \<open>Reading the cache\<close>

text \<open>Inode, size and modification time of the source, the offset of its code, and the encoding of C strings.\<close>

definition source_words :: "('s, 'm) cc_env_scheme \<Rightarrow> nat \<Rightarrow> cfile \<Rightarrow> 32 word \<Rightarrow> 32 word list" where
  "source_words e ino st fileHeaderOffset =
     [word_of_nat ino, word_of_nat (length (f_bytes st)), word_of_nat (st_mtime st), fileHeaderOffset,
      if CStringsAreUTF8 e then 1 else 0]"

text \<open>\<open>JS_XDRUint32\<close> leaves its argument alone when it fails.\<close>

fun read_words :: "(nat \<Rightarrow> 32 word) \<Rightarrow> nat \<Rightarrow> nat \<Rightarrow> XDRFile \<Rightarrow> (32 word list \<times> XDRFile) option" where
  "read_words old n 0 x = Some ([], x)"
| "read_words old n (Suc k) x =
     Option.bind (xdrfile_get32 0 x) (\<lambda>(ok, w, x).
       map_option (\<lambda>(ws, x). ((if ok then w else old n) # ws, x)) (read_words old (Suc n) k x))"

definition thaw_cache :: "('s, 'm) cc_env_scheme \<Rightarrow> 32 word list \<Rightarrow> byte list \<Rightarrow> 's option option" where
  "thaw_cache e expected bs =
     Option.bind (fst (gpsee_XDRNewFile True JSXDR_DECODE None (Some (old_file bs)))) (\<lambda>x.
     Option.bind (read_words (uninit e) 0 5 x) (\<lambda>(ws, x).
     Option.bind (if ws = expected then run_reader (cc_alloc e) (thaw e) x else Some (None, x)) (\<lambda>(script, x).
     map_option (\<lambda>_. script) (xdrfile_finalize x))))"

text \<open>The open cache file \<open>fd\<close>, and what was learnt about the source.  It stays open when it is too old, and
  when there is no memory for the stream.\<close>

definition check_cache ::
    "('s, 'm) cc_env_scheme \<Rightarrow> nat \<times> cfile \<Rightarrow> 32 word \<Rightarrow> nat \<Rightarrow> cc_state \<Rightarrow> ('s option \<times> cc_state) option" where
  "check_cache e source_st fileHeaderOffset fd s =
     (case try_call e ''flock'' s of (ok, s) \<Rightarrow>
        if \<not> ok then map_option (Pair None) (close_fd fd s)
        else case fstat e fd s of
          (None, s) \<Rightarrow> map_option (Pair None) (close_fd fd s)
        | (Some (ci, cache_st), s) \<Rightarrow>
            if st_uid (snd source_st) \<noteq> st_uid cache_st \<or> st_gid (snd source_st) \<noteq> st_gid cache_st
               \<or> st_mode (snd source_st) AND 438 \<noteq> st_mode cache_st AND 511
            then map_option (Pair None) (close_fd fd s)
            else if st_mtime cache_st < st_mtime (snd source_st) then Some (None, s)
            else case try_call e ''XDRNewFile'' s of (ok, s) \<Rightarrow>
              if \<not> ok then Some (None, s)
              else Option.bind (thaw_cache e (source_words e (fst source_st) (snd source_st) fileHeaderOffset) (f_bytes cache_st))
                     (\<lambda>script. map_option (Pair script) (close_fd fd s)))"

text \<open>The second value says whether the cache is still in use, and of which source.\<close>

definition read_cache ::
    "('s, 'm) cc_env_scheme \<Rightarrow> string \<Rightarrow> nat \<Rightarrow> 32 word \<Rightarrow> cc_state \<Rightarrow> ('s option \<times> (nat \<times> cfile) option \<times> cc_state) option" where
  "read_cache e cache_filename scriptFile fileHeaderOffset s =
     (case fstat e scriptFile s of
        (None, s) \<Rightarrow> Some (None, None, s)
      | (Some source_st, s) \<Rightarrow>
          (case open_file e cache_filename s of
             (None, s) \<Rightarrow> Some (None, Some source_st, s)
           | (Some fd, s) \<Rightarrow>
               map_option (\<lambda>(script, s). (script, Some source_st, s)) (check_cache e source_st fileHeaderOffset fd s)))"

section \<open>Writing the cache\<close>

definition cache_items :: "('s, 'm) cc_env_scheme \<Rightarrow> 32 word list \<Rightarrow> 's \<Rightarrow> xitem list" where
  "cache_items e ws script = map XU32 ws @ freeze e script"

fun write_words :: "32 word list \<Rightarrow> XDRFile \<Rightarrow> XDRFile option" where
  "write_words [] x = Some x"
| "write_words (w # ws) x = Option.bind (xdrfile_set32 w x) (\<lambda>(_, x). write_words ws x)"

definition freeze_cache :: "('s, 'm) cc_env_scheme \<Rightarrow> nat \<Rightarrow> 32 word list \<Rightarrow> 's \<Rightarrow> byte list option" where
  "freeze_cache e cap ws script =
     Option.bind (fst (gpsee_XDRNewFile True JSXDR_ENCODE None (Some (new_file cap)))) (\<lambda>x.
     Option.bind (write_words ws x) (\<lambda>x.
     Option.bind (put_items (cc_alloc e) (freeze e script) x) (\<lambda>(_, x).
     Option.bind (xdrfile_finalize x) (\<lambda>((f, closed), x). map_option s_bytes f))))"

text \<open>\<open>cache_write_bail\<close>.\<close>

definition cache_write_bail :: "('s, 'm) cc_env_scheme \<Rightarrow> string \<Rightarrow> nat \<Rightarrow> cc_state \<Rightarrow> cc_state option" where
  "cache_write_bail e cache_filename fd s = close_fd fd (unlink e cache_filename s)"

definition fill_cache :: "('s, 'm) cc_env_scheme \<Rightarrow> nat \<times> cfile \<Rightarrow> 32 word \<Rightarrow> 's \<Rightarrow> nat \<Rightarrow> cc_state \<Rightarrow> cc_state option" where
  "fill_cache e source_st fileHeaderOffset script fd s =
     (case try_call e ''XDRNewFile'' s of (ok, s) \<Rightarrow>
        if \<not> ok then close_fd fd s
        else Option.bind (freeze_cache e (disk_room e (cc_clock s))
                            (source_words e (fst source_st) (snd source_st) fileHeaderOffset) script) (\<lambda>bs.
               close_fd fd (set_file fd (\<lambda>f. f\<lparr>f_bytes := bs, st_mtime := now e (cc_clock s)\<rparr>) s)))"

definition write_cache ::
    "('s, 'm) cc_env_scheme \<Rightarrow> string \<Rightarrow> nat \<times> cfile \<Rightarrow> 32 word \<Rightarrow> 's \<Rightarrow> cc_state \<Rightarrow> cc_state option" where
  "write_cache e cache_filename source_st fileHeaderOffset script s =
     (case open_excl e cache_filename (st_mode (snd source_st)) (unlink e cache_filename s) of
        (None, s) \<Rightarrow> Some s
      | (Some fd, s) \<Rightarrow>
          case try_call e ''flock'' s of (ok, s) \<Rightarrow>
          if \<not> ok then cache_write_bail e cache_filename fd s
          else case try_call e ''fchown'' s of (ok, s) \<Rightarrow>
          if \<not> ok then cache_write_bail e cache_filename fd s
          else let s = set_file fd (\<lambda>f. f\<lparr>st_uid := st_uid (snd source_st), st_gid := st_gid (snd source_st)\<rparr>) s in
          case try_call e ''ftruncate'' s of (ok, s) \<Rightarrow>
          if \<not> ok then Option.bind (close_fd fd s) (cache_write_bail e cache_filename fd)
          else case try_call e ''fdopen'' s of (ok, s) \<Rightarrow>
          if \<not> ok then Option.bind (close_fd fd s) (cache_write_bail e cache_filename fd)
          else fill_cache e source_st fileHeaderOffset script fd s)"

section \<open>Compiling a script\<close>

text \<open>What \<open>gpsee_compileScript\<close> gives back: its result, the script, and whether there is a script object.\<close>

type_synonym 's compiled = "bool \<times> 's option \<times> bool"

definition finish_script :: "('s, 'm) cc_env_scheme \<Rightarrow> 's \<Rightarrow> cc_state \<Rightarrow> 's compiled \<times> cc_state" where
  "finish_script e script s =
     (if script_length e script < 2 then ((True, Some script, False), s)
      else case try_call e ''JS_NewScriptObject'' s of (ok, s) \<Rightarrow> ((ok, Some script, ok), s))"

definition compile_file :: "('s, 'm) cc_env_scheme \<Rightarrow> string \<Rightarrow> nat \<Rightarrow> cc_state \<Rightarrow> ('s option \<times> cc_state) option" where
  "compile_file e scriptFilename fd s =
     Option.bind (fds s fd) (\<lambda>(i, pos).
     Option.bind (inodes s i) (\<lambda>f.
       Some (compile e scriptFilename (drop pos (f_bytes f)),
             s\<lparr>compiles := Suc (compiles s), fds := (fds s)(fd \<mapsto> (i, max pos (length (f_bytes f))))\<rparr>)))"

text \<open>The script file is open as \<open>fd\<close>; \<open>cache_filename\<close> is \<open>None\<close> when the cache is not used.\<close>

definition compile_source ::
    "('s, 'm) cc_env_scheme \<Rightarrow> string \<Rightarrow> nat \<Rightarrow> 32 word \<Rightarrow> string option \<Rightarrow> cc_state \<Rightarrow> ('s compiled \<times> cc_state) option" where
  "compile_source e scriptFilename fd fileHeaderOffset cache_filename s =
     Option.bind (case cache_filename of
                    None \<Rightarrow> Some (None, None, s)
                  | Some name \<Rightarrow> read_cache e name fd fileHeaderOffset s) (\<lambda>(cached, source_st, s).
     case cached of
       Some script \<Rightarrow> Some (finish_script e script s)
     | None \<Rightarrow>
         Option.bind (compile_file e scriptFilename fd s) (\<lambda>(compiled, s).
           case compiled of
             None \<Rightarrow> Some ((False, None, False), s)
           | Some script \<Rightarrow>
               Option.bind (case (cache_filename, source_st) of
                              (Some name, Some st) \<Rightarrow> write_cache e name st fileHeaderOffset script s
                            | _ \<Rightarrow> Some s) (\<lambda>s.
                 Some (finish_script e script s))))"

definition gpsee_compileScript ::
    "('s, 'm) cc_env_scheme \<Rightarrow> string \<Rightarrow> nat option \<Rightarrow> byte list option \<Rightarrow> cc_state \<Rightarrow> ('s compiled \<times> cc_state) option" where
  "gpsee_compileScript e scriptFilename scriptFile scriptCode s =
     (case scriptCode of
        Some code \<Rightarrow>
          (case compile e scriptFilename code of
             None \<Rightarrow> Some ((False, None, False), s\<lparr>compiles := Suc (compiles s)\<rparr>)
           | Some script \<Rightarrow> Some (finish_script e script (s\<lparr>compiles := Suc (compiles s)\<rparr>)))
      | None \<Rightarrow>
          (case (case scriptFile of Some fd \<Rightarrow> (Some fd, s) | None \<Rightarrow> open_file e scriptFilename s) of
             (None, s) \<Rightarrow> Some ((False, None, False), s)
           | (Some fd, s) \<Rightarrow>
               (case (if useCompilerCache e then try_call e ''flock'' s else (True, s)) of (ok, s) \<Rightarrow>
                  if \<not> ok then map_option (Pair (False, None, False)) (close_fd fd s)
                  else Option.bind (fds s fd) (\<lambda>(i, pos).
                       Option.bind (if useCompilerCache e then make_jsc_filename (dir_buf e) scriptFilename PATH_MAX else Some None) (\<lambda>name.
                       Option.bind (compile_source e scriptFilename fd (word_of_nat pos) name s) (\<lambda>(r, s).
                         if scriptFile = None then map_option (Pair r) (close_fd fd s) else Some (r, s)))))))"

section \<open>What a cache file holds\<close>

text \<open>The documented behaviour of the engine: it reads back what it writes.\<close>

definition xdr_script_law :: "('s, 'm) cc_env_scheme \<Rightarrow> bool" where
  "xdr_script_law e \<longleftrightarrow> malloc_law (cc_alloc e)
     \<and> (\<forall>script. (\<forall>i \<in> set (freeze e script). item_ok i) \<and> reads (thaw e) (freeze e script) script)"

lemma write_words_encoding:
  "encoding cap ws x \<Longrightarrow> \<exists>x'. write_words hs x = Some x' \<and> encoding cap (ws @ items_bytes (map XU32 hs)) x'"
proof (induction hs arbitrary: ws x)
  case (Cons h hs)
  from set32_encoding [OF Cons.prems, of h] obtain ok x1 where
    x1: "xdrfile_set32 h x = Some (ok, x1)" "encoding cap (ws @ u32_bytes h) x1" by blast
  from Cons.IH [OF x1(2)] x1(1) show ?case by auto
qed simp

lemma freeze_cache_prefix:
  assumes l: "xdr_script_law e"
  shows "\<exists>bs. freeze_cache e cap hs script = Some bs \<and> prefix bs (items_bytes (cache_items e hs script))
    \<and> (never_fails (cc_alloc e) \<longrightarrow> length (items_bytes (cache_items e hs script)) \<le> cap \<longrightarrow> bs = items_bytes (cache_items e hs script))"
proof -
  from new_encoding obtain x where x: "fst (gpsee_XDRNewFile True JSXDR_ENCODE None (Some (new_file cap))) = Some x"
    "encoding cap [] x" by blast
  from write_words_encoding [OF x(2), of hs] obtain x1 where
    x1: "write_words hs x = Some x1" "encoding cap (items_bytes (map XU32 hs)) x1" by auto
  have "malloc_law (cc_alloc e)" "\<forall>i \<in> set (freeze e script). item_ok i" using l by (simp_all add: xdr_script_law_def)
  from put_items_encoding [OF this(1) x1(2) this(2)] obtain ok x2 ds where
    p: "put_items (cc_alloc e) (freeze e script) x1 = Some (ok, x2)" "encoding cap (items_bytes (map XU32 hs) @ ds) x2"
      "prefix ds (items_bytes (freeze e script))" "ok \<longrightarrow> ds = items_bytes (freeze e script)"
      "never_fails (cc_alloc e) \<longrightarrow> length (items_bytes (map XU32 hs) @ items_bytes (freeze e script)) \<le> cap \<longrightarrow> ok" by blast
  from finalize_encoding [OF p(2)] obtain f x3 where
    f: "xdrfile_finalize x2 = Some ((Some f, x_own_file x2), x3)" "s_bytes f = take cap (items_bytes (map XU32 hs) @ ds)" by blast
  let ?w = "items_bytes (map XU32 hs) @ ds"
  have i: "items_bytes (cache_items e hs script) = items_bytes (map XU32 hs) @ items_bytes (freeze e script)" by (simp add: cache_items_def)
  have "prefix ?w (items_bytes (cache_items e hs script))" using p(3) by (simp add: i)
  then have "prefix (take cap ?w) (items_bytes (cache_items e hs script))" by (meson prefix_order.trans take_is_prefix)
  moreover have "freeze_cache e cap hs script = Some (take cap ?w)" by (simp add: freeze_cache_def x(1) x1(1) p(1) f)
  moreover have "never_fails (cc_alloc e) \<longrightarrow> length (items_bytes (cache_items e hs script)) \<le> cap \<longrightarrow>
      take cap ?w = items_bytes (cache_items e hs script)" using p(4,5) by (simp add: i)
  ultimately show ?thesis by blast
qed

lemma read_words_prefix:
  "decoding rs x \<Longrightarrow> prefix rs (items_bytes (map XU32 hs) @ bs) \<or> prefix (items_bytes (map XU32 hs) @ bs) rs \<Longrightarrow>
   \<exists>ws x' r. read_words old n (length hs) x = Some (ws, x') \<and> decoding r x'
     \<and> (ws = hs \<and> rs = items_bytes (map XU32 hs) @ r \<and> (prefix r bs \<or> prefix bs r)
        \<or> \<not> prefix (items_bytes (map XU32 hs)) rs \<and> r = [])"
proof (induction hs arbitrary: rs x n)
  case Nil
  then show ?case by auto
next
  case (Cons h hs)
  from get32_decoding [OF Cons.prems(1), of 0] obtain ok w x1 where
    g: "xdrfile_get32 0 x = Some (ok, w, x1)" "ok \<longleftrightarrow> 4 \<le> length rs" "ok \<longrightarrow> w = bytes_u32 (take 4 rs)" "decoding (drop 4 rs) x1" by blast
  have m: "prefix rs (u32_bytes h @ items_bytes (map XU32 hs) @ bs) \<or> prefix (u32_bytes h @ items_bytes (map XU32 hs) @ bs) rs"
    using Cons.prems(2) by simp
  show ?case
  proof (cases ok)
    case True
    from meets_append [OF m] True g(2) obtain r1 where
      r1: "rs = u32_bytes h @ r1" "prefix r1 (items_bytes (map XU32 hs) @ bs) \<or> prefix (items_bytes (map XU32 hs) @ bs) r1" by auto
    have d: "decoding r1 x1" "w = h" using g True r1(1) by simp_all
    from Cons.IH [OF d(1) r1(2), of "Suc n"] obtain ws x' r where
      q: "read_words old (Suc n) (length hs) x1 = Some (ws, x')" "decoding r x'"
        "ws = hs \<and> r1 = items_bytes (map XU32 hs) @ r \<and> (prefix r bs \<or> prefix bs r)
          \<or> \<not> prefix (items_bytes (map XU32 hs)) r1 \<and> r = []" by blast
    from g(1) True d(2) q r1(1) show ?thesis by auto
  next
    case False
    with g(2,4) have d: "decoding [] x1" by simp
    have "prefix [] (items_bytes (map XU32 hs) @ bs) \<or> prefix (items_bytes (map XU32 hs) @ bs) []" by simp
    from Cons.IH [OF d this, of "Suc n"] obtain ws x' r where
      q: "read_words old (Suc n) (length hs) x1 = Some (ws, x')" "decoding r x'"
        "ws = hs \<and> [] = items_bytes (map XU32 hs) @ r \<and> (prefix r bs \<or> prefix bs r)
          \<or> \<not> prefix (items_bytes (map XU32 hs)) [] \<and> r = []" by blast
    have "r = []" using q(3) by auto
    moreover have "\<not> prefix (items_bytes (map XU32 (h # hs))) rs"
      using False g(2) by (auto dest: prefix_length_le)
    ultimately show ?thesis using g(1) False q(1,2) by auto
  qed
qed

text \<open>A file that begins as a cache of \<open>script\<close> thaws to \<open>script\<close> or to nothing, whatever it is compared with.\<close>

lemma thaw_cache_prefix:
  assumes l: "xdr_script_law e" and h: "length hs = 5" and p: "prefix bs (items_bytes (cache_items e hs script))"
  shows "\<exists>r. thaw_cache e expected bs = Some r \<and> (r = None \<or> r = Some script)
    \<and> (never_fails (cc_alloc e) \<longrightarrow> bs = items_bytes (cache_items e hs script) \<longrightarrow> expected = hs \<longrightarrow> r = Some script)
    \<and> (bs = items_bytes (cache_items e hs script) \<longrightarrow> expected \<noteq> hs \<longrightarrow> r = None)"
proof -
  have m: "malloc_law (cc_alloc e)" "\<forall>i \<in> set (freeze e script). item_ok i" "reads (thaw e) (freeze e script) script"
    using l by (simp_all add: xdr_script_law_def)
  from new_decoding obtain x where x: "fst (gpsee_XDRNewFile True JSXDR_DECODE None (Some (old_file bs))) = Some x" "decoding bs x" by blast
  have "prefix bs (items_bytes (map XU32 hs) @ items_bytes (freeze e script))" using p by (simp add: cache_items_def)
  from read_words_prefix [OF x(2) disjI1 [OF this], of "uninit e" 0] h obtain ws x1 r where
    q: "read_words (uninit e) 0 5 x = Some (ws, x1)" "decoding r x1"
      "ws = hs \<and> bs = items_bytes (map XU32 hs) @ r \<and> (prefix r (items_bytes (freeze e script)) \<or> prefix (items_bytes (freeze e script)) r)
        \<or> \<not> prefix (items_bytes (map XU32 hs)) bs \<and> r = []" by auto
  have "prefix r (items_bytes (freeze e script)) \<or> prefix (items_bytes (freeze e script)) r" using q(3) by auto
  from run_reader_reads [OF m(1,3,2) q(2) this] obtain res x2 where
    rr: "run_reader (cc_alloc e) (thaw e) x1 = Some (res, x2)" "res = None \<or> res = Some script"
      "never_fails (cc_alloc e) \<longrightarrow> prefix (items_bytes (freeze e script)) r \<longrightarrow> res = Some script" by blast
  have fin: "xdrfile_finalize y \<noteq> None" if "x_mode y = JSXDR_DECODE" for y
    using that by (simp add: xdrfile_finalize_def xdrfile_commit_raw_def)
  have "x_mode x1 = JSXDR_DECODE" using q(2) by (simp add: decoding_def)
  moreover from run_reader_mode [OF rr(1) this] have "x_mode x2 = JSXDR_DECODE" .
  ultimately obtain z1 z2 where z: "xdrfile_finalize x1 = Some z1" "xdrfile_finalize x2 = Some z2" using fin by blast
  have "thaw_cache e expected bs = Some (if ws = expected then res else None)"
    by (simp add: thaw_cache_def x(1) q(1) rr(1) z)
  moreover have "ws = hs \<and> (never_fails (cc_alloc e) \<longrightarrow> res = Some script)" if "bs = items_bytes (cache_items e hs script)"
  proof -
    have b: "bs = items_bytes (map XU32 hs) @ items_bytes (freeze e script)" using that by (simp add: cache_items_def)
    then have "prefix (items_bytes (map XU32 hs)) bs" by simp
    with q(3) have "ws = hs" "bs = items_bytes (map XU32 hs) @ r" by blast+
    with b rr(3) show ?thesis by simp
  qed
  ultimately show ?thesis using rr(2) by auto
qed

section \<open>What a call changes\<close>

text \<open>Descriptors and inodes are fresh when they are handed out.\<close>

definition fs_ok :: "cc_state \<Rightarrow> bool" where
  "fs_ok s \<longleftrightarrow> (\<forall>i \<ge> next_ino s. inodes s i = None) \<and> (\<forall>p i. dir s p = Some i \<longrightarrow> i < next_ino s)
     \<and> (\<forall>fd \<ge> next_fd s. fds s fd = None) \<and> (\<forall>fd x. fds s fd = Some x \<longrightarrow> fst x < next_ino s)"

text \<open>Since the state \<open>z\<close> only the entry of the cache may have changed, and no file that was there; a new file
  at the entry has contents that are fit for it.\<close>

definition only_cache :: "string \<Rightarrow> (byte list \<Rightarrow> bool) \<Rightarrow> cc_state \<Rightarrow> cc_state \<Rightarrow> bool" where
  "only_cache name P z s \<longleftrightarrow> fs_ok s \<and> next_ino z \<le> next_ino s \<and> (\<forall>i < next_ino z. inodes s i = inodes z i)
     \<and> (\<forall>p. p \<noteq> name \<longrightarrow> dir s p = dir z p)
     \<and> (\<forall>i. dir s name = Some i \<longrightarrow> dir z name = Some i \<or> next_ino z \<le> i \<and> (\<exists>c. inodes s i = Some c \<and> P (f_bytes c)))"

lemma only_cache_refl: "fs_ok s \<Longrightarrow> only_cache name P s s"
  by (simp add: only_cache_def)

lemma only_cache_same:
  assumes "only_cache name P z s" and "dir t = dir s" "inodes t = inodes s" "next_ino t = next_ino s" "fs_ok t"
  shows "only_cache name P z t"
  using assms by (simp add: only_cache_def)

lemma fs_ok_same:
  "fs_ok s \<Longrightarrow> dir t = dir s \<Longrightarrow> inodes t = inodes s \<Longrightarrow> next_ino t = next_ino s \<Longrightarrow> next_fd t = next_fd s \<Longrightarrow> fds t = fds s \<Longrightarrow> fs_ok t"
  by (simp add: fs_ok_def)

lemma try_call_only: "try_call e f s = (ok, t) \<Longrightarrow> only_cache name P z s \<Longrightarrow> only_cache name P z t \<and> fds t = fds s"
  by (auto simp: try_call_def intro!: only_cache_same [of name P z s] fs_ok_same [of s] simp: only_cache_def)

lemma fs_ok_close: "fs_ok s \<Longrightarrow> fs_ok (s\<lparr>fds := (fds s)(fd := None)\<rparr>)"
  by (simp add: fs_ok_def)

lemma close_only: "close_fd fd s = Some t \<Longrightarrow> only_cache name P z s \<Longrightarrow> only_cache name P z t"
  by (auto simp: close_fd_def split: if_split_asm intro!: only_cache_same [of name P z s] fs_ok_close simp: only_cache_def)

lemma fs_ok_open: "fs_ok s \<Longrightarrow> i < next_ino s \<Longrightarrow> open_fd i s = (fd, t) \<Longrightarrow> fs_ok t \<and> fds t fd = Some (i, 0)"
proof -
  assume ok: "fs_ok s" and i: "i < next_ino s" and o: "open_fd i s = (fd, t)"
  have old: "fds s d = Some x \<Longrightarrow> fst x < next_ino s" for d x using ok unfolding fs_ok_def by blast
  from o have t: "fd = next_fd s" "t = s\<lparr>fds := (fds s)(next_fd s \<mapsto> (i, 0)), next_fd := Suc (next_fd s)\<rparr>"
    by (auto simp: open_fd_def)
  have "fds t d = Some x \<Longrightarrow> fst x < next_ino t" for d x using old [of d x] i by (cases "d = next_fd s") (auto simp: t)
  moreover have "\<forall>j \<ge> next_ino t. inodes t j = None" "\<forall>p j. dir t p = Some j \<longrightarrow> j < next_ino t" "\<forall>d \<ge> next_fd t. fds t d = None"
    using ok by (simp_all add: fs_ok_def t)
  ultimately have "fs_ok t" unfolding fs_ok_def by blast
  then show "fs_ok t \<and> fds t fd = Some (i, 0)" by (simp add: t)
qed

lemma open_file_only:
  assumes o: "open_file e p s = (r, t)" and k: "only_cache name P z s"
  shows "only_cache name P z t"
proof -
  obtain ok u where u: "try_call e ''fopen'' s = (ok, u)" by fastforce
  from try_call_only [OF u k] have ku: "only_cache name P z u" by simp
  show ?thesis
  proof (cases "r")
    case None
    with o u ku show ?thesis by (auto simp: open_file_def split: option.split_asm if_split_asm prod.split_asm)
  next
    case (Some fd)
    with o u obtain i where i: "dir u p = Some i" "open_fd i u = (fd, t)"
      by (auto simp: open_file_def split: option.split_asm if_split_asm prod.split_asm)
    have "i < next_ino u" "fs_ok u" using ku i(1) by (auto simp: only_cache_def fs_ok_def)
    from fs_ok_open [OF this(2,1) i(2)] i(2) show ?thesis
      by (intro only_cache_same [OF ku]) (auto simp: open_fd_def)
  qed
qed

lemma fstat_only: "fstat e fd s = (r, t) \<Longrightarrow> only_cache name P z s \<Longrightarrow> only_cache name P z t \<and> fds t = fds s"
  using try_call_only [of e "''fstat''" s "cc_ok e ''fstat'' (cc_clock s)"] by (auto simp: fstat_def try_call_def)

lemma unlink_only: "only_cache name P z s \<Longrightarrow> only_cache name P z (unlink e name s) \<and> fds (unlink e name s) = fds s"
  by (auto simp: unlink_def try_call_def only_cache_def fs_ok_def)

text \<open>The descriptor of the new cache file.\<close>

definition new_fd :: "string \<Rightarrow> cc_state \<Rightarrow> cc_state \<Rightarrow> nat \<Rightarrow> bool" where
  "new_fd name z s fd \<longleftrightarrow> (\<exists>i pos. fds s fd = Some (i, pos) \<and> next_ino z \<le> i)"

lemma open_excl_only:
  assumes o: "open_excl e name m s = (r, t)" and k: "only_cache name P z s" and P: "P []"
  shows "only_cache name P z t" and "r = Some fd \<Longrightarrow> new_fd name z t fd"
proof -
  obtain ok u where u: "try_call e ''open'' s = (ok, u)" by fastforce
  from try_call_only [OF u k] have ku: "only_cache name P z u" by simp
  have "only_cache name P z t \<and> (r = Some fd \<longrightarrow> new_fd name z t fd)"
  proof (cases "ok \<and> dir u name = None")
    case False
    with o u ku show ?thesis by (auto simp: open_excl_def)
  next
    case True
    let ?i = "next_ino u"
    define v where "v = u\<lparr>dir := (dir u)(name \<mapsto> ?i), inodes := (inodes u)(?i \<mapsto>
      \<lparr>st_uid = own_uid e, st_gid = own_gid e, st_mode = m AND 438, st_mtime = now e (cc_clock u), f_bytes = []\<rparr>), next_ino := Suc ?i\<rparr>"
    have o': "open_fd ?i v = (next_fd v, t)" "r = Some (next_fd v)"
      using o u True by (auto simp: open_excl_def Let_def v_def open_fd_def)
    have fv: "fs_ok v" using ku by (auto simp: v_def only_cache_def fs_ok_def less_Suc_eq)
    have kv: "only_cache name P z v" using ku fv P by (auto simp: v_def only_cache_def)
    have "?i < next_ino v" by (simp add: v_def)
    from fs_ok_open [OF fv this o'(1)] have t: "fs_ok t" "fds t (next_fd v) = Some (?i, 0)" by simp_all
    have "only_cache name P z t" by (rule only_cache_same [OF kv _ _ _ t(1)]) (use o'(1) in \<open>auto simp: open_fd_def\<close>)
    moreover have "next_ino z \<le> ?i" using ku by (simp add: only_cache_def)
    ultimately show ?thesis using o'(2) t(2) by (auto simp: new_fd_def)
  qed
  then show "only_cache name P z t" "r = Some fd \<Longrightarrow> new_fd name z t fd" by simp_all
qed

lemma set_file_only:
  assumes k: "only_cache name P z s" and fd: "new_fd name z s fd" and f: "\<And>c. P (f_bytes (f c)) \<or> f_bytes (f c) = f_bytes c"
  shows "only_cache name P z (set_file fd f s)" and "fds (set_file fd f s) = fds s"
proof -
  from fd obtain i pos where i: "fds s fd = Some (i, pos)" "next_ino z \<le> i" by (auto simp: new_fd_def)
  have "i < next_ino s" using k i(1) unfolding only_cache_def fs_ok_def by (metis fst_conv)
  then have "fs_ok (set_file fd f s)" using k i(1) by (auto simp: only_cache_def fs_ok_def set_file_def)
  moreover have "P (f_bytes (f c))" if "P (f_bytes c)" for c using f [of c] that by auto
  ultimately show "only_cache name P z (set_file fd f s)" using k i by (auto simp: only_cache_def set_file_def)
  show "fds (set_file fd f s) = fds s" using i(1) by (simp add: set_file_def)
qed

lemma bail_only: "cache_write_bail e name fd s = Some t \<Longrightarrow> only_cache name P z s \<Longrightarrow> only_cache name P z t"
  unfolding cache_write_bail_def by (blast intro: close_only dest: unlink_only)

text \<open>A cache of a script, or the beginning of one.\<close>

definition cached_as :: "('s, 'm) cc_env_scheme \<Rightarrow> nat \<Rightarrow> cfile \<Rightarrow> 32 word \<Rightarrow> 's \<Rightarrow> byte list \<Rightarrow> bool" where
  "cached_as e i st off script bs \<longleftrightarrow> prefix bs (items_bytes (cache_items e (source_words e i st off) script))"

lemma fill_only:
  assumes l: "xdr_script_law e" and f: "fill_cache e (i, st) off script fd s = Some t"
    and k: "only_cache name (cached_as e i st off script) z s" and fd: "new_fd name z s fd"
  shows "only_cache name (cached_as e i st off script) z t"
proof -
  obtain ok u where u: "try_call e ''XDRNewFile'' s = (ok, u)" by fastforce
  from try_call_only [OF u k] have ku: "only_cache name (cached_as e i st off script) z u"
    and fu: "fds u = fds s" by simp_all
  show ?thesis
  proof (cases ok)
    case False
    with f u have "close_fd fd u = Some t" by (simp add: fill_cache_def)
    from close_only [OF this ku] show ?thesis .
  next
    case True
    from freeze_cache_prefix [OF l, of "disk_room e (cc_clock u)" "source_words e i st off" script] obtain bs where
      b: "freeze_cache e (disk_room e (cc_clock u)) (source_words e i st off) script = Some bs"
        "prefix bs (items_bytes (cache_items e (source_words e i st off) script))" by blast
    let ?v = "set_file fd (\<lambda>f. f\<lparr>f_bytes := bs, st_mtime := now e (cc_clock u)\<rparr>) u"
    have "close_fd fd ?v = Some t" using f u True b(1) by (simp add: fill_cache_def)
    moreover have "new_fd name z u fd" using fd fu by (simp add: new_fd_def)
    then have "only_cache name (cached_as e i st off script) z ?v"
      by (rule set_file_only(1) [OF ku]) (simp add: b(2) cached_as_def)
    ultimately show ?thesis by (rule close_only)
  qed
qed

lemma write_only:
  assumes l: "xdr_script_law e" and w: "write_cache e name (i, st) off script s = Some t"
    and k: "only_cache name (cached_as e i st off script) z s"
  shows "only_cache name (cached_as e i st off script) z t"
proof -
  let ?K = "only_cache name (cached_as e i st off script) z"
  obtain r s1 where o: "open_excl e name (st_mode st) (unlink e name s) = (r, s1)" by fastforce
  from unlink_only [OF k] have ku: "?K (unlink e name s)" by blast
  have P: "cached_as e i st off script []" by (simp add: cached_as_def)
  note k1 = open_excl_only(1) [OF o ku P]
  show ?thesis
  proof (cases r)
    case None
    with w o k1 show ?thesis by (simp add: write_cache_def)
  next
    case (Some fd)
    note f1 = open_excl_only(2) [OF o ku P Some]
    obtain ok2 s2 where t2: "try_call e ''flock'' s1 = (ok2, s2)" by fastforce
    from try_call_only [OF t2 k1] have k2: "?K s2" and f2: "new_fd name z s2 fd" using f1 by (simp_all add: new_fd_def)
    obtain ok3 s3 where t3: "try_call e ''fchown'' s2 = (ok3, s3)" by fastforce
    from try_call_only [OF t3 k2] have k3: "?K s3" and f3: "new_fd name z s3 fd" using f2 by (simp_all add: new_fd_def)
    let ?s4 = "set_file fd (\<lambda>f. f\<lparr>st_uid := st_uid st, st_gid := st_gid st\<rparr>) s3"
    have k4: "?K ?s4" by (rule set_file_only(1) [OF k3 f3]) simp
    have "fds ?s4 = fds s3" by (rule set_file_only(2) [OF k3 f3]) simp
    then have f4: "new_fd name z ?s4 fd" using f3 by (simp add: new_fd_def)
    obtain ok5 s5 where t5: "try_call e ''ftruncate'' ?s4 = (ok5, s5)" by fastforce
    from try_call_only [OF t5 k4] have k5: "?K s5" and f5: "new_fd name z s5 fd" using f4 by (simp_all add: new_fd_def)
    obtain ok6 s6 where t6: "try_call e ''fdopen'' s5 = (ok6, s6)" by fastforce
    from try_call_only [OF t6 k5] have k6: "?K s6" and f6: "new_fd name z s6 fd" using f5 by (simp_all add: new_fd_def)
    consider "\<not> ok2" "cache_write_bail e name fd s2 = Some t" | "\<not> ok3" "cache_write_bail e name fd s3 = Some t"
      | u where "close_fd fd s5 = Some u" "cache_write_bail e name fd u = Some t"
      | u where "close_fd fd s6 = Some u" "cache_write_bail e name fd u = Some t" | "fill_cache e (i, st) off script fd s6 = Some t"
      using w o Some t2 t3 t5 t6
      by (cases ok2; cases ok3; cases ok5; cases ok6) (auto simp: write_cache_def Let_def bind_eq_Some_conv)
    then show ?thesis
    proof cases
      case 1
      then show ?thesis using bail_only k2 by blast
    next
      case 2
      then show ?thesis using bail_only k3 by blast
    next
      case 3
      then show ?thesis using bail_only close_only k5 by blast
    next
      case 4
      then show ?thesis using bail_only close_only k6 by blast
    next
      case 5
      then show ?thesis using fill_only [OF l _ k6 f6] by blast
    qed
  qed
qed

lemma check_only:
  assumes c: "check_cache e st off fd s = Some (r, t)" and k: "only_cache name P z s"
  shows "only_cache name P z t"
proof -
  obtain ok1 s1 where t1: "try_call e ''flock'' s = (ok1, s1)" by fastforce
  from try_call_only [OF t1 k] have k1: "only_cache name P z s1" by simp
  obtain st2 s2 where t2: "fstat e fd s1 = (st2, s2)" by fastforce
  from fstat_only [OF t2 k1] have k2: "only_cache name P z s2" by simp
  obtain ok3 s3 where t3: "try_call e ''XDRNewFile'' s2 = (ok3, s3)" by fastforce
  from try_call_only [OF t3 k2] have k3: "only_cache name P z s3" by simp
  have "t = s2 \<or> t = s3 \<or> close_fd fd s1 = Some t \<or> close_fd fd s2 = Some t \<or> close_fd fd s3 = Some t"
    using c t1 t2 t3
    by (cases ok1; cases st2; cases ok3) (auto simp: check_cache_def bind_eq_Some_conv split: if_split_asm)
  then show ?thesis using k2 k3 close_only k1 by blast
qed

lemma read_only:
  assumes c: "read_cache e name fd off s = Some (r, st, t)" and k: "only_cache name' P z s"
  shows "only_cache name' P z t"
proof -
  obtain st1 s1 where t1: "fstat e fd s = (st1, s1)" by fastforce
  from fstat_only [OF t1 k] have k1: "only_cache name' P z s1" by simp
  obtain r2 s2 where t2: "open_file e name s1 = (r2, s2)" by fastforce
  from open_file_only [OF t2 k1] have k2: "only_cache name' P z s2" .
  have "t = s1 \<or> t = s2 \<or> (\<exists>st fd r. check_cache e st off fd s2 = Some (r, t))"
    using c t1 t2 by (cases st1; cases r2) (auto simp: read_cache_def)
  then show ?thesis using k1 k2 check_only by blast
qed

section \<open>The cache is transparent\<close>

text \<open>The cache of a source, if there is one, thaws to nothing or to what compiling the source gives.\<close>

definition sound_cache :: "('s, 'm) cc_env_scheme \<Rightarrow> string \<Rightarrow> string \<Rightarrow> nat \<Rightarrow> cfile \<Rightarrow> nat \<Rightarrow> cc_state \<Rightarrow> bool" where
  "sound_cache e f name i src pos s \<longleftrightarrow>
     (\<forall>ci c script. dir s name = Some ci \<longrightarrow> inodes s ci = Some c \<longrightarrow>
        thaw_cache e (source_words e i src (word_of_nat pos)) (f_bytes c) = Some (Some script) \<longrightarrow>
        compile e f (drop pos (f_bytes src)) = Some script)"

lemma read_cache_result:
  assumes c: "read_cache e name fd off s = Some (r, st, t)" and fd: "fds s fd = Some (i, pos)" "inodes s i = Some src" and ok: "fs_ok s"
  shows "st = None \<or> st = Some (i, src)"
    and "r = Some script \<Longrightarrow> \<exists>ci c. dir s name = Some ci \<and> inodes s ci = Some c
      \<and> thaw_cache e (source_words e i src off) (f_bytes c) = Some (Some script)"
    and "fds t fd = Some (i, pos)" and "inodes t = inodes s" and "dir t = dir s" and "compiles t = compiles s"
proof -
  have cl: "close_fd d u = Some v \<Longrightarrow> inodes v = inodes u \<and> dir v = dir u \<and> compiles v = compiles u \<and> (d \<noteq> fd \<longrightarrow> fds v fd = fds u fd)" for d u v
    by (auto simp: close_fd_def split: if_split_asm)
  obtain st1 s1 where t1: "fstat e fd s = (st1, s1)" by fastforce
  then have s1: "fds s1 = fds s" "inodes s1 = inodes s" "dir s1 = dir s" "compiles s1 = compiles s" "next_fd s1 = next_fd s"
    by (auto simp: fstat_def try_call_def)
  have st1: "st1 = None \<or> st1 = Some (i, src)"
    using t1 fd by (auto simp: fstat_def try_call_def split: if_split_asm)
  obtain r2 s2 where t2: "open_file e name s1 = (r2, s2)" by fastforce
  have "fd < next_fd s" using ok fd(1) unfolding fs_ok_def by (metis not_le option.distinct(1))
  then have s2: "fds s2 fd = fds s fd" "inodes s2 = inodes s" "dir s2 = dir s" "compiles s2 = compiles s"
    and r2: "\<And>d. r2 = Some d \<Longrightarrow> d \<noteq> fd \<and> (\<exists>ci. dir s name = Some ci \<and> fds s2 d = Some (ci, 0))"
    using t2 s1 by (auto simp: open_file_def open_fd_def try_call_def split: option.split_asm if_split_asm)
  have *: "(st = None \<or> st = Some (i, src)) \<and> (r = Some script \<longrightarrow> (\<exists>ci c. dir s name = Some ci \<and> inodes s ci = Some c
      \<and> thaw_cache e (source_words e i src off) (f_bytes c) = Some (Some script)))
      \<and> fds t fd = Some (i, pos) \<and> inodes t = inodes s \<and> dir t = dir s \<and> compiles t = compiles s"
  proof (cases "st1 = None \<or> r2 = None")
    case True
    with c t1 t2 st1 s1 s2 fd(1) show ?thesis by (cases st1; cases r2) (auto simp: read_cache_def)
  next
    case False
    with st1 obtain d where d: "st1 = Some (i, src)" "r2 = Some d" by auto
    from r2 [OF d(2)] obtain ci where ci: "d \<noteq> fd" "dir s name = Some ci" "fds s2 d = Some (ci, 0)" by blast
    from c t1 t2 d have c': "check_cache e (i, src) off d s2 = Some (r, t)" and st: "st = Some (i, src)"
      by (auto simp: read_cache_def)
    obtain ok3 s3 where t3: "try_call e ''flock'' s2 = (ok3, s3)" by fastforce
    obtain st4 s4 where t4: "fstat e d s3 = (st4, s4)" by fastforce
    obtain ok5 s5 where t5: "try_call e ''XDRNewFile'' s4 = (ok5, s5)" by fastforce
    have s3: "fds s3 = fds s2" "inodes s3 = inodes s" "dir s3 = dir s" "compiles s3 = compiles s" using t3 s2 by (auto simp: try_call_def)
    have s4: "fds s4 = fds s2" "inodes s4 = inodes s" "dir s4 = dir s" "compiles s4 = compiles s" using t4 s3 by (auto simp: fstat_def try_call_def)
    have s5: "fds s5 = fds s2" "inodes s5 = inodes s" "dir s5 = dir s" "compiles s5 = compiles s" using t5 s4 by (auto simp: try_call_def)
    have st4: "st4 = None \<or> (\<exists>c. st4 = Some (ci, c) \<and> inodes s ci = Some c)"
      using t4 s3 ci(3) by (auto simp: fstat_def try_call_def split: if_split_asm)
    have out: "t = s4 \<or> t = s5 \<or> (\<exists>u \<in> {s3, s4, s5}. close_fd d u = Some t)"
      using c' t3 t4 t5 by (cases ok3; cases st4; cases ok5) (auto simp: check_cache_def bind_eq_Some_conv split: if_split_asm)
    from out consider "t = s4" | "t = s5" | u where "u \<in> {s3, s4, s5}" "close_fd d u = Some t" by blast
    then have "fds t fd = fds s2 fd \<and> inodes t = inodes s \<and> dir t = dir s \<and> compiles t = compiles s"
    proof cases
      case 3
      from cl [OF 3(2)] 3(1) ci(1) s3 s4 s5 show ?thesis by auto
    qed (use s4 s5 in simp_all)
    moreover have "\<exists>c. inodes s ci = Some c \<and> thaw_cache e (source_words e i src off) (f_bytes c) = Some (Some script)"
      if "r = Some script"
      using c' t3 t4 t5 st4 that
      by (cases ok3; cases st4; cases ok5) (auto simp: check_cache_def bind_eq_Some_conv split: if_split_asm)
    ultimately show ?thesis using st s2(1) fd(1) ci(2) by auto
  qed
  from * show "st = None \<or> st = Some (i, src)" "fds t fd = Some (i, pos)" "inodes t = inodes s" "dir t = dir s" "compiles t = compiles s"
    by blast+
  from * show "r = Some script \<Longrightarrow> \<exists>ci c. dir s name = Some ci \<and> inodes s ci = Some c
      \<and> thaw_cache e (source_words e i src off) (f_bytes c) = Some (Some script)" by blast
qed

lemma only_cache_mono: "only_cache name P z s \<Longrightarrow> (\<And>bs. P bs \<Longrightarrow> Q bs) \<Longrightarrow> only_cache name Q z s"
  unfolding only_cache_def by meson

definition thaws_right :: "('s, 'm) cc_env_scheme \<Rightarrow> string \<Rightarrow> nat \<Rightarrow> cfile \<Rightarrow> nat \<Rightarrow> byte list \<Rightarrow> bool" where
  "thaws_right e f i src pos bs \<longleftrightarrow> (\<forall>script. thaw_cache e (source_words e i src (word_of_nat pos)) bs = Some (Some script) \<longrightarrow>
     compile e f (drop pos (f_bytes src)) = Some script)"

lemma cached_thaws_right:
  assumes "xdr_script_law e" and "compile e f (drop pos (f_bytes src)) = Some script" and "cached_as e i st off script bs"
  shows "thaws_right e f i src pos bs"
proof -
  have "length (source_words e i st off) = 5" by (simp add: source_words_def)
  from thaw_cache_prefix [OF assms(1) this, of bs script "source_words e i src (word_of_nat pos)"] assms(2,3)
  show ?thesis by (auto simp: thaws_right_def cached_as_def)
qed

lemma only_cache_sound:
  assumes k: "only_cache name (thaws_right e f i src pos) s t" and sound: "sound_cache e f name i src pos s"
    and ok: "fs_ok s" and i: "inodes s i = Some src"
  shows "sound_cache e f name i src pos t" and "inodes t i = Some src" and "fs_ok t" and "\<forall>p. p \<noteq> name \<longrightarrow> dir t p = dir s p"
proof -
  have old: "inodes t j = inodes s j" if "j < next_ino s" for j using k that by (simp add: only_cache_def)
  have lt: "i < next_ino s" using ok i unfolding fs_ok_def by (metis not_le option.distinct(1))
  with old i show "inodes t i = Some src" by simp
  show "fs_ok t" "\<forall>p. p \<noteq> name \<longrightarrow> dir t p = dir s p" using k by (simp_all add: only_cache_def)
  show "sound_cache e f name i src pos t"
    unfolding sound_cache_def
  proof (intro allI impI)
    fix ci c script
    assume c: "dir t name = Some ci" "inodes t ci = Some c"
      "thaw_cache e (source_words e i src (word_of_nat pos)) (f_bytes c) = Some (Some script)"
    from k c(1) consider "dir s name = Some ci" | c' where "inodes t ci = Some c'" "thaws_right e f i src pos (f_bytes c')"
      unfolding only_cache_def by blast
    then show "compile e f (drop pos (f_bytes src)) = Some script"
    proof cases
      case 1
      then have "ci < next_ino s" using ok by (simp add: fs_ok_def)
      with old c(2) have "inodes s ci = Some c" by simp
      with 1 c(3) sound show ?thesis by (simp add: sound_cache_def)
    next
      case 2
      with c(2,3) show ?thesis by (simp add: thaws_right_def)
    qed
  qed
qed

lemma finish_only:
  "finish_script e script s = (x, t) \<Longrightarrow> only_cache name P z s \<Longrightarrow> only_cache name P z t \<and> fst (snd x) = Some script"
  using try_call_only [of e "''JS_NewScriptObject''" s] by (auto simp: finish_script_def split: if_split_asm prod.split_asm)

lemma compile_file_only:
  assumes c: "compile_file e f fd s = Some (r, t)" and k: "only_cache name P z s"
  shows "only_cache name P z t"
proof -
  from c obtain i pos g where g: "fds s fd = Some (i, pos)" "inodes s i = Some g"
    "t = s\<lparr>compiles := Suc (compiles s), fds := (fds s)(fd \<mapsto> (i, max pos (length (f_bytes g))))\<rparr>"
    by (auto simp: compile_file_def bind_eq_Some_conv)
  have ok: "fs_ok s" using k by (simp add: only_cache_def)
  have old: "fds s d = Some x \<Longrightarrow> fst x < next_ino s" for d x using ok unfolding fs_ok_def by blast
  have "fds t d = Some x \<Longrightarrow> fst x < next_ino t" for d x using old [of d x] old [OF g(1)] by (cases "d = fd") (auto simp: g(3))
  moreover have "\<forall>d \<ge> next_fd t. fds t d = None" using ok g(1) by (auto simp: fs_ok_def g(3))
  moreover have "\<forall>j \<ge> next_ino t. inodes t j = None" "\<forall>p j. dir t p = Some j \<longrightarrow> j < next_ino t"
    using ok by (simp_all add: fs_ok_def g(3))
  ultimately have "fs_ok t" unfolding fs_ok_def by blast
  with k show ?thesis by (intro only_cache_same [OF k]) (simp_all add: g(3))
qed

lemma compile_source_only:
  assumes l: "xdr_script_law e" and fd: "fds s fd = Some (i, pos)" "inodes s i = Some src" and ok: "fs_ok s"
    and sound: "sound_cache e f name i src pos s"
    and run: "compile_source e f fd (word_of_nat pos) (Some name) s = Some ((r, sc, obj), t)"
  shows "only_cache name (thaws_right e f i src pos) s t" and "sc = compile e f (drop pos (f_bytes src))" and "r \<Longrightarrow> sc \<noteq> None"
proof -
  let ?K = "only_cache name (thaws_right e f i src pos) s"
  from run obtain cached st s1 where rc: "read_cache e name fd (word_of_nat pos) s = Some (cached, st, s1)"
    by (auto simp: compile_source_def bind_eq_Some_conv)
  note res = read_cache_result [OF rc fd ok]
  have k1: "?K s1" by (rule read_only [OF rc only_cache_refl [OF ok]])
  have "?K t \<and> sc = compile e f (drop pos (f_bytes src)) \<and> (r \<longrightarrow> sc \<noteq> None)"
  proof (cases cached)
    case (Some script)
    from res(2) [OF Some] sound have comp: "compile e f (drop pos (f_bytes src)) = Some script" by (auto simp: sound_cache_def)
    from run rc Some have "finish_script e script s1 = ((r, sc, obj), t)" by (simp add: compile_source_def)
    from finish_only [OF this k1] comp show ?thesis by simp
  next
    case None
    from run rc None obtain compiled s2 where cf: "compile_file e f fd s1 = Some (compiled, s2)"
      by (auto simp: compile_source_def bind_eq_Some_conv)
    have comp: "compiled = compile e f (drop pos (f_bytes src))" using cf res(3,4) fd(2) by (simp add: compile_file_def)
    have k2: "?K s2" by (rule compile_file_only [OF cf k1])
    show ?thesis
    proof (cases compiled)
      case None': None
      with run rc None cf have "sc = None" "t = s2" "\<not> r" by (auto simp: compile_source_def)
      with k2 comp None' show ?thesis by simp
    next
      case (Some script)
      with run rc None cf obtain s3 where
        w: "(case st of Some st \<Rightarrow> write_cache e name st (word_of_nat pos) script s2 | None \<Rightarrow> Some s2) = Some s3"
          "finish_script e script s3 = ((r, sc, obj), t)"
        by (auto simp: compile_source_def bind_eq_Some_conv split: option.split_asm)
      have comp': "compile e f (drop pos (f_bytes src)) = Some script" using comp Some by simp
      have k3: "?K s3"
      proof (cases st)
        case None
        with w(1) k2 show ?thesis by simp
      next
        case (Some st')
        with res(1) have st': "st' = (i, src)" by simp
        have "only_cache name (cached_as e i src (word_of_nat pos) script) s s2"
          by (rule compile_file_only [OF cf read_only [OF rc only_cache_refl [OF ok]]])
        from write_only [OF l _ this] w(1) Some st' have "only_cache name (cached_as e i src (word_of_nat pos) script) s s3" by simp
        then show ?thesis by (rule only_cache_mono) (rule cached_thaws_right [OF l comp'])
      qed
      from finish_only [OF w(2) k3] comp' show ?thesis by simp
    qed
  qed
  then show "?K t" "sc = compile e f (drop pos (f_bytes src))" "r \<Longrightarrow> sc \<noteq> None" by blast+
qed


section \<open>The cache is used\<close>

definition all_well :: "('s, 'm) cc_env_scheme \<Rightarrow> bool" where
  "all_well e \<longleftrightarrow> (\<forall>f n. cc_ok e f n) \<and> never_fails (cc_alloc e) \<and> useCompilerCache e"

lemma jsc_name:
  assumes "NUL \<notin> set f" and "f \<noteq> []" and "length buf = PATH_MAX" and "length (dirname_of f) < PATH_MAX"
    and "length (dirname_of f @ ''/.'' @ gpsee_basename f @ ''c'') < PATH_MAX"
  shows "make_jsc_filename buf f PATH_MAX = Some (Some (dirname_of f @ ''/.'' @ gpsee_basename f @ ''c''))"
proof -
  have "2 \<le> PATH_MAX" "PATH_MAX \<le> length buf" using assms(3) by (simp_all add: PATH_MAX_def)
  from dirname_result [OF assms(1) this assms(4)] obtain b where
    "gpsee_dirname f buf PATH_MAX = Some (b, True)" "cstr_at b 0 = Some (dirname_of f)" by blast
  with assms(2,5) show ?thesis by (simp add: make_jsc_filename_def Let_def)
qed

lemma write_well:
  assumes ok: "\<And>g n. cc_ok e g n" and i: "inodes u i = Some src" "i < next_ino u"
    and fz: "\<And>n. freeze_cache e (disk_room e n) (source_words e i src off) script = Some (bs n)"
  shows "\<exists>t c n m. write_cache e name (i, src) off script u = Some t \<and> dir t name = Some (next_ino u) \<and> inodes t (next_ino u) = Some c
    \<and> st_uid c = st_uid src \<and> st_gid c = st_gid src \<and> st_mode c = st_mode src AND 438 \<and> f_bytes c = bs m \<and> st_mtime c = now e n
    \<and> inodes t i = Some src \<and> (\<forall>d < next_fd u. fds t d = fds u d)"
  using i by (simp add: write_cache_def unlink_def open_excl_def open_fd_def try_call_def ok Let_def set_file_def fill_cache_def fz close_fd_def)
    blast

lemma first_run:
  assumes w: "all_well e" and l: "xdr_script_law e" and ok: "fs_ok s" and fd: "fds s fd = Some (i, pos)" "inodes s i = Some src"
    and name: "make_jsc_filename (dir_buf e) f PATH_MAX = Some (Some name)" and new: "dir s name = None"
    and comp: "compile e f (drop pos (f_bytes src)) = Some script"
    and room: "\<forall>n. length (items_bytes (cache_items e (source_words e i src (word_of_nat pos)) script)) \<le> disk_room e n"
  shows "\<exists>obj t ci c n. gpsee_compileScript e f (Some fd) None s = Some ((True, Some script, obj), t) \<and> dir t name = Some ci
    \<and> inodes t ci = Some c \<and> st_uid c = st_uid src \<and> st_gid c = st_gid src \<and> st_mode c = st_mode src AND 438
    \<and> f_bytes c = items_bytes (cache_items e (source_words e i src (word_of_nat pos)) script) \<and> st_mtime c = now e n
    \<and> inodes t i = Some src"
proof -
  let ?off = "word_of_nat pos :: 32 word"
  have ok_all: "cc_ok e g n" for g n using w by (simp add: all_well_def)
  have fz: "freeze_cache e (disk_room e n) (source_words e i src ?off) script
      = Some (items_bytes (cache_items e (source_words e i src ?off) script))" for n
    using freeze_cache_prefix [OF l, of "disk_room e n" "source_words e i src ?off" script] w room by (auto simp: all_well_def)
  have lt: "fd < next_fd s" "i < next_ino s" using ok fd unfolding fs_ok_def by (metis not_le option.distinct(1))+
  have use: "useCompilerCache e" using w by (simp add: all_well_def)
  have fin: "\<exists>obj n. finish_script e script u = ((True, Some script, obj), u\<lparr>cc_clock := n\<rparr>)" for u
    by (cases "script_length e script < 2") (auto simp: finish_script_def try_call_def ok_all intro: exI [of _ "cc_clock u"])
  define s1 where "s1 = s\<lparr>cc_clock := Suc (cc_clock s)\<rparr>"
  have lock: "try_call e ''flock'' s = (True, s1)" by (simp add: try_call_def ok_all s1_def)
  define s3 where "s3 = s\<lparr>cc_clock := cc_clock s + 3\<rparr>"
  have rd: "read_cache e name fd ?off s1 = Some (None, Some (i, src), s3)"
    using fd new by (simp add: read_cache_def fstat_def open_file_def try_call_def ok_all s1_def s3_def)
  define s4 where "s4 = s3\<lparr>compiles := Suc (compiles s), fds := (fds s)(fd \<mapsto> (i, max pos (length (f_bytes src))))\<rparr>"
  have cf: "compile_file e f fd s3 = Some (Some script, s4)"
    using fd comp by (simp add: compile_file_def s3_def s4_def)
  have "inodes s4 i = Some src" "i < next_ino s4" using fd lt by (simp_all add: s4_def s3_def)
  from write_well [OF ok_all this fz, of name] obtain t ci c n where wr: "write_cache e name (i, src) ?off script s4 = Some t"
    "dir t name = Some ci" "inodes t ci = Some c" "st_uid c = st_uid src" "st_gid c = st_gid src" "st_mode c = st_mode src AND 438"
    "f_bytes c = items_bytes (cache_items e (source_words e i src ?off) script)" "st_mtime c = now e n" "inodes t i = Some src"
    by blast
  from fin [of t] obtain obj m where fi: "finish_script e script t = ((True, Some script, obj), t\<lparr>cc_clock := m\<rparr>)" by blast
  have "compile_source e f fd ?off (Some name) s1 = Some ((True, Some script, obj), t\<lparr>cc_clock := m\<rparr>)"
    by (simp add: compile_source_def rd cf wr(1) fi)
  then have "gpsee_compileScript e f (Some fd) None s = Some ((True, Some script, obj), t\<lparr>cc_clock := m\<rparr>)"
    using fd name by (simp add: gpsee_compileScript_def use lock s1_def)
  with wr show ?thesis by (intro exI [of _ obj] exI [of _ "t\<lparr>cc_clock := m\<rparr>"] exI [of _ ci] exI [of _ c] exI [of _ n]) simp
qed

text \<open>C16: A script is compiled once: when nothing fails and the clock does not run backwards, a second call for the same source, at
  any later time, takes the script from the cache and does not compile; and the cache is sound for every source that differs in its
  inode, its size, its time or the place where its code begins, because it is not used for it.\<close>

theorem compiler_cache_is_used:
  assumes w: "all_well e" and l: "xdr_script_law e" and ok: "fs_ok s" and fd: "fds s fd = Some (i, pos)" "inodes s i = Some src"
    and name: "make_jsc_filename (dir_buf e) f PATH_MAX = Some (Some name)" and new: "dir s name = None"
    and comp: "compile e f (drop pos (f_bytes src)) = Some script"
    and room: "\<forall>n. length (items_bytes (cache_items e (source_words e i src (word_of_nat pos)) script)) \<le> disk_room e n"
    and clock: "\<forall>n. st_mtime src \<le> now e n"
  shows "\<exists>obj t. gpsee_compileScript e f (Some fd) None s = Some ((True, Some script, obj), t)
    \<and> (\<forall>u fd'. fs_ok u \<and> dir u name = dir t name \<and> inodes u = inodes t \<and> fds u fd' = Some (i, pos) \<longrightarrow>
         (\<exists>obj' u'. gpsee_compileScript e f (Some fd') None u = Some ((True, Some script, obj'), u') \<and> compiles u' = compiles u))
    \<and> (\<forall>f' i' src' pos'. source_words e i' src' (word_of_nat pos') \<noteq> source_words e i src (word_of_nat pos) \<longrightarrow>
         sound_cache e f' name i' src' pos' t)"
proof -
  let ?off = "word_of_nat pos :: 32 word"
  let ?bs = "items_bytes (cache_items e (source_words e i src ?off) script)"
  from first_run [OF w l ok fd name new comp room] obtain obj t ci c n where t:
    "gpsee_compileScript e f (Some fd) None s = Some ((True, Some script, obj), t)" "dir t name = Some ci" "inodes t ci = Some c"
    "st_uid c = st_uid src" "st_gid c = st_gid src" "st_mode c = st_mode src AND 438" "f_bytes c = ?bs" "st_mtime c = now e n"
    "inodes t i = Some src" by blast
  have ok_all: "cc_ok e g m" for g m using w by (simp add: all_well_def)
  have use: "useCompilerCache e" using w by (simp add: all_well_def)
  have "length (source_words e i src ?off) = 5" by (simp add: source_words_def)
  from thaw_cache_prefix [OF l this prefix_order.refl] w have th: "thaw_cache e (source_words e i src ?off) ?bs = Some (Some script)"
    by (auto simp: all_well_def)
  have mode: "(st_mode src AND 438) AND 511 = st_mode src AND 438" by (simp add: and.assoc)
  have old: "\<not> st_mtime c < st_mtime src" using clock t(8) by (simp add: not_less)
  have "\<exists>obj' u'. gpsee_compileScript e f (Some fd') None u = Some ((True, Some script, obj'), u') \<and> compiles u' = compiles u"
    if u: "fs_ok u" "dir u name = dir t name" "inodes u = inodes t" "fds u fd' = Some (i, pos)" for u fd'
  proof -
    have fin: "\<exists>obj' m. finish_script e script v = ((True, Some script, obj'), v\<lparr>cc_clock := m\<rparr>)" for v
      by (cases "script_length e script < 2") (auto simp: finish_script_def try_call_def ok_all intro: exI [of _ "cc_clock v"])
    define u1 where "u1 = u\<lparr>cc_clock := Suc (cc_clock u)\<rparr>"
    have lock: "try_call e ''flock'' u = (True, u1)" by (simp add: try_call_def ok_all u1_def)
    have i: "inodes u i = Some src" "dir u name = Some ci" "inodes u ci = Some c" using u t by simp_all
    define v where "v = u\<lparr>next_fd := Suc (next_fd u), fds := (fds u)(next_fd u := None), cc_clock := cc_clock u + 6\<rparr>"
    have rd: "read_cache e name fd' ?off u1 = Some (Some script, Some (i, src), v)"
      using i u(4) t(4-7) old mode
      by (simp add: read_cache_def fstat_def open_file_def open_fd_def try_call_def ok_all u1_def check_cache_def close_fd_def th v_def)
    from fin [of v] obtain obj' m where fi: "finish_script e script v = ((True, Some script, obj'), v\<lparr>cc_clock := m\<rparr>)" by blast
    have "compile_source e f fd' ?off (Some name) u1 = Some ((True, Some script, obj'), v\<lparr>cc_clock := m\<rparr>)"
      by (simp add: compile_source_def rd fi)
    then have "gpsee_compileScript e f (Some fd') None u = Some ((True, Some script, obj'), v\<lparr>cc_clock := m\<rparr>)"
      using u(4) name by (simp add: gpsee_compileScript_def use lock u1_def)
    moreover have "compiles (v\<lparr>cc_clock := m\<rparr>) = compiles u" by (simp add: v_def)
    ultimately show ?thesis by blast
  qed
  moreover have "sound_cache e f' name i' src' pos' t"
    if "source_words e i' src' (word_of_nat pos') \<noteq> source_words e i src ?off" for f' i' src' pos'
  proof -
    have "length (source_words e i src ?off) = 5" by (simp add: source_words_def)
    from thaw_cache_prefix [OF l this prefix_order.refl] that
    have "thaw_cache e (source_words e i' src' (word_of_nat pos')) ?bs = Some None" by metis
    with t(2,3,7) show ?thesis by (simp add: sound_cache_def)
  qed
  ultimately show ?thesis using t(1) by blast
qed


section \<open>An example\<close>

text \<open>An engine whose scripts are the lengths of their sources.\<close>

definition demo_env :: "bool \<Rightarrow> 32 word cc_env" where
  "demo_env truncates =
     \<lparr>cc_ok = (\<lambda>g n. g \<noteq> ''ftruncate'' \<or> truncates), useCompilerCache = True, CStringsAreUTF8 = True,
      compile = (\<lambda>f bs. Some (word_of_nat (length bs))), freeze = (\<lambda>w. [XU32 w]), thaw = RU32 (\<lambda>w. RDone (Some w)),
      script_length = (\<lambda>w. 5), cc_alloc = (\<lambda>n. Some (replicate n 0)), own_uid = 0, own_gid = 0, now = (\<lambda>n. 9),
      disk_room = (\<lambda>n. 100), uninit = (\<lambda>n. 0), dir_buf = replicate PATH_MAX NUL\<rparr>"

definition demo_src :: cfile where
  "demo_src = \<lparr>st_uid = 1, st_gid = 1, st_mode = 420, st_mtime = 5, f_bytes = [1, 2, 3]\<rparr>"

definition demo_fs :: cc_state where
  "demo_fs = \<lparr>dir = [''a.js'' \<mapsto> 1], inodes = [1 \<mapsto> demo_src], fds = [3 \<mapsto> (1, 0)], next_ino = 2, next_fd = 4, cc_clock = 0, compiles = 0\<rparr>"

definition stale_fs :: cc_state where
  "stale_fs = \<lparr>dir = [''a.js'' \<mapsto> 1, ''./.a.jsc'' \<mapsto> 2], inodes = [1 \<mapsto> demo_src, 2 \<mapsto> demo_src\<lparr>st_mtime := 4, f_bytes := []\<rparr>],
     fds = [3 \<mapsto> (1, 0)], next_ino = 3, next_fd = 4, cc_clock = 0, compiles = 0\<rparr>"

lemma demo_laws: "xdr_script_law (demo_env b)" "fs_ok demo_fs" "fs_ok stale_fs" "all_well (demo_env True)"
  by (simp_all add: xdr_script_law_def demo_env_def malloc_law_def fs_ok_def demo_fs_def stale_fs_def all_well_def never_fails_def)

lemma demo_name: "make_jsc_filename (dir_buf (demo_env b)) ''a.js'' PATH_MAX = Some (Some ''./.a.jsc'')"
  using jsc_name [of "''a.js''" "replicate PATH_MAX NUL"] by (simp add: demo_env_def dirname_of_def gpsee_basename_def PATH_MAX_def)

lemma demo_room: "length (items_bytes (cache_items (demo_env b) (source_words (demo_env b) i src off) w)) \<le> disk_room (demo_env b) n"
  by (simp add: cache_items_def source_words_def demo_env_def)

theorem compiler_cache_is_used_witness:
  "\<exists>obj t. gpsee_compileScript (demo_env True) ''a.js'' (Some 3) None demo_fs = Some ((True, Some 3, obj), t)"
proof -
  have "\<exists>obj t. gpsee_compileScript (demo_env True) ''a.js'' (Some 3) None demo_fs = Some ((True, Some 3, obj), t)
    \<and> (\<forall>u fd'. fs_ok u \<and> dir u ''./.a.jsc'' = dir t ''./.a.jsc'' \<and> inodes u = inodes t \<and> fds u fd' = Some (1, 0) \<longrightarrow>
         (\<exists>obj' u'. gpsee_compileScript (demo_env True) ''a.js'' (Some fd') None u = Some ((True, Some 3, obj'), u') \<and> compiles u' = compiles u))
    \<and> (\<forall>f' i' src' pos'. source_words (demo_env True) i' src' (word_of_nat pos') \<noteq> source_words (demo_env True) 1 demo_src (word_of_nat 0) \<longrightarrow>
         sound_cache (demo_env True) f' ''./.a.jsc'' i' src' pos' t)"
  proof (rule compiler_cache_is_used [OF demo_laws(4,1,2) _ _ demo_name])
    show "\<forall>n. length (items_bytes (cache_items (demo_env True) (source_words (demo_env True) 1 demo_src (word_of_nat 0)) 3)) \<le> disk_room (demo_env True) n"
      using demo_room by blast
  qed (simp_all add: demo_fs_def demo_src_def demo_env_def)
  then show ?thesis by blast
qed



end
