(* ===== verification/Spec2Isabelle.thy ===== *)
theory Spec2Isabelle
  imports RuntimeLife RealmCreation ContextPrivate AsyncCallbacks CBuffers Splay MonitorSystem GCCallbacks Base64 QuotedPrintable ByteStore ByteThings ByteArray Transcode ByteString ModuleMemo ModuleScope ModuleLoad ModuleRun ModuleSystem RequireLock Threads CompilerCache
begin

text \<open>
  GPSEE is a host for server-side JavaScript, written in C on SpiderMonkey (the JSAPI) and NSPR.  This
  development models its own code -- the runtime and its realms, the module system, the data structures
  under them and the modules that carry logic of their own -- and proves what makes each part correct.
  Path names below are relative to the source directory.

  \<^bold>\<open>The parts, and how they interact.\<close>

  A runtime (\<open>gpsee_runtime_t\<close>) owns data stores, monitors, asynchronous callbacks and garbage-collector
  callbacks; a realm (\<open>gpsee_realm_t\<close>) is a global object with its module system; a context belongs to at
  most one realm.  \<open>gpsee_createInterpreter\<close> makes a runtime, a realm and a context.  A script calls
  \<open>require\<close>, which finds, loads, runs and memoises modules; their handles live until the collector has
  found their scope objects dead.

  \<^item> \<open>Prelude\<close>: pointers, C strings and buffers as lists, out-of-bounds accesses as \<open>None\<close>, and the lemmas
    on them that all components share.
  \<^item> \<open>Splay\<close>: freebsd\_tree.h (SPLAY\_FIND, INSERT, REMOVE, NEXT, MIN, FOREACH), the tree behind the memo of
    modules.  It answers like a finite map and stays sorted.
  \<^item> \<open>Monitors\<close>, \<open>MonitorSystem\<close>: gpsee\_monitors.c.  Operations return the NSPR calls that they make, and
    \<open>held\<close> replays them, so that lock discipline is a property of the trace; monitors are made on demand
    and destroyed once, at shutdown.
  \<^item> \<open>DataStore\<close>: gpsee\_datastores.c, arrays of (key, value) slots.  A store acts as a map or, with the
    one-to-many flag, as a bag of pairs; growth, failing allocations and iteration are modelled.
  \<^item> \<open>GCCallbacks\<close>: gpsee\_gccallbacks.c, a one-to-many store of callbacks keyed by function.
  \<^item> \<open>CBuffers\<close>: the string and path helpers of gpsee\_util.c, with their writes past the end.
  \<^item> \<open>ContextPrivate\<close>: gpsee\_context\_private.c, storage private to a context and the context callback.
  \<^item> \<open>AsyncCallbacks\<close>: the asynchronous callbacks of gpsee.c, a linked list on a heap of nodes that
    refines a sorted list of closures.
  \<^item> \<open>ModuleMemo\<close>, \<open>ModuleScope\<close>, \<open>ModuleLoad\<close>, \<open>ModuleRun\<close>, \<open>ModuleSystem\<close>: gpsee\_modules.c -- handles and
    their release in two phases; scope objects; the search for a module, the jail and the loaders; \<open>require\<close>
    with the scripts that it runs, nested to any depth; and set-up, programs and shutdown.
  \<^item> \<open>RequireLock\<close>: \<open>requireLock\<close> and \<open>requireUnlock\<close> of gpsee\_modules.c step by step, with any number of threads.
  \<^item> \<open>Realms\<close>, \<open>RealmTeardown\<close>, \<open>RealmCreation\<close>: gpsee\_realms.c -- realms and contexts, the context callback,
    the collections in between.  The state \<open>rt_state\<close> extends the states of the components above.
  \<^item> \<open>HookableIO\<close>: gpsee\_hookable\_io.c, output and input that a script may take over.
  \<^item> \<open>Runtime\<close>, \<open>RuntimeLife\<close>: the runtime and the interpreter of gpsee.c, and the runs of a runtime from
    \<open>gpsee_createRuntime\<close> to \<open>gpsee_destroyRuntime\<close>.
  \<^item> \<open>ByteStore\<close>, \<open>ByteThings\<close>, \<open>ByteArray\<close>, \<open>ByteString\<close>, \<open>Transcode\<close>: modules/binary (bytethings.c, ByteArray.c,
    ByteString.c, binary.c) and gpsee\_bytethings.c -- objects with a handle on a block of memory that
    several may share, their methods, constructors and finalizers, and conversion through iconv.
  \<^item> \<open>Base64\<close>, \<open>QuotedPrintable\<close>: the two codecs of modules/binary/base64.c.
  \<^item> \<open>Threads\<close>: modules/thread/thread.c, threads of scripts that start and join each other, step by step
    under every interleaving.
  \<^item> \<open>XDRFile\<close>, \<open>CompilerCache\<close>: gpsee\_xdrfile.c, the stream on a file, and gpsee\_compile.cpp, the cache of
    compiled scripts that is kept in such files.

  \<^bold>\<open>How code becomes definitions.\<close>

  A struct is a record, an enum a datatype, a function a definition of the same name.  A function that
  changes state takes the state and returns it; \<open>None\<close> (in the byte things \<open>Fault\<close>) is undefined behaviour --
  a NULL or freed pointer, an access out of bounds -- so that a theorem with \<open>Some\<close> says that there is none.
  Failures that the code reports are values: a boolean, NULL or \<open>Throw\<close>.  Failures of the allocator and of the
  engine are decided by an oracle at each call (\<open>malloc_ok\<close>, \<open>js_ok\<close> with a clock; an argument \<open>realloc_ok\<close>).
  Locks held over a whole operation are calls in its trace; where the interleaving matters, in
  \<open>RequireLock\<close> and \<open>Threads\<close>, every access to shared state is a step of its own.

  \<^bold>\<open>Groups of lemmas, and the interfaces.\<close>

  Each theory states the invariant of its component first, then that each operation keeps it and what
  the operation does on each branch, and then the properties, which are the numbered blocks.  The
  interfaces between components are locales:
  \<^item> \<open>ordered_memo\<close> (\<open>Splay\<close>, interpreted as \<open>memo\<close>): what the module memo needs of its tree.
  \<^item> \<open>assoc_store\<close> and \<open>otm_bag\<close> (\<open>DataStore\<close>, interpreted as \<open>ds_map\<close> and \<open>ds_otm\<close>): the two contracts of a store.
  \<^item> \<open>context_callbacks\<close> (\<open>ContextPrivate\<close>, interpreted as \<open>plain\<close>, and in \<open>AsyncCallbacks\<close> as \<open>async\<close> on the
    callbacks of gpsee itself): what a context callback may do while the context ends.

  Refinements go to a finite map (\<open>Splay\<close>), a bag (\<open>DataStore\<close>), a sorted list of closures
  (\<open>AsyncCallbacks\<close>), a counted lock (\<open>RequireLock\<close>), a list of bytes (\<open>ByteArray\<close>) and the state diagram of
  the source (\<open>Threads\<close>).  The theorems of \<open>RuntimeLife\<close> are about all components at once: \<open>rt_step\<close> is any call an
  embedding makes on a runtime, and \<open>run_books\<close> says what the steps keep.

  \<^bold>\<open>Bounds and loops.\<close>

  Loops over lists and strings are structural or have a measure.  A loop over a heap is a
  \<open>partial_function\<close> whose end is proved where it is used: \<open>forEach_loop\<close>, \<open>destroy_unreachable\<close>, \<open>destroy_calls\<close>,
  \<open>find_link\<close>, \<open>free_segment\<close>, \<open>free_all\<close>, \<open>operation_loop\<close>, \<open>trigger_loop\<close>, \<open>shutdown_loop\<close>, \<open>transcode_loop\<close> and \<open>round_up\<close>,
  which does not end for the largest sizes, and the theorem says which.  Three definitions have fuel: SPLAY\_FOREACH
  and the clean-up of the memo take the size of the tree, which is the number of their rounds; \<open>gpsee_loadModule\<close> takes a depth of
  nested requires, and one more than the number of canonical names is enough, because a module that is
  being loaded is found in the memo; and \<open>array_pieces\<close> takes two rounds, the second of which finds nothing left.
  Machine integers are words where they wrap (\<open>size_t\<close> capacities and indices, characters), and
  natural numbers or integers where the code cannot reach their limits.

  \<^bold>\<open>Not modelled, and why.\<close>

  \<^item> SpiderMonkey, NSPR, iconv, stdio, the file system, the dynamic linker and scripts are not part of the
    source: they are parameters, constrained by what their documentation says, and every property that
    constrains them has a witness.  \<open>valueOf\<close> of an object reaches the byte things as the number it returns.
  \<^item> The operating-system thread that triggers the callbacks is modelled by its turns; that
    \<open>gpsee_destroyRuntime\<close> waits for it is not.  Walks of the list that take no lock are atomic.
  \<^item> A realm whose creation fails half-way leaves the runtime in a state outside the invariant of
    \<open>RuntimeLife\<close> (memory, a monitor and a collector callback stay behind).
  \<^item> In \<open>Threads\<close>: sleep, yield, exit and the getters, and the loops of \<open>thread_joinAll\<close> and \<open>Thread_Sweep\<close>
    themselves (their calls of \<open>thread_join\<close> on listed objects are steps).
  \<^item> Assertions and the checks of the debug build; error reports and \<open>print\<close>; the command-line programs;
    the bindings in the modules ffi, curl, curses, cgi, system,
    signal and vm, which pass arguments to code outside the source; the jsd debugger, which is a copy of
    Mozilla's; and the modules written in JavaScript.
\<close>

end
